(* ===== verification/Chisel_Prelude.thy ===== *)
theory Chisel_Prelude
  imports Main "HOL-Library.Word" "HOL-Library.AList"
begin

text \<open>
  Shared vocabulary of the development: the machine integer types, byte buffers with slice
  reads and writes, little-endian encodings, Rust's \<open>Result\<close> as a state-and-error monad with
  its weakest preconditions, and the association-list facts used wherever the engine keeps a
  hash map.
\<close>

section \<open>Machine integers\<close>

type_synonym u8 = "8 word"
type_synonym u16 = "16 word"
type_synonym u32 = "32 word"
type_synonym u64 = "64 word"

text \<open>
  \<open>usize\<close> offsets and lengths are \<open>nat\<close>; every value that is stored on disk or compared as a
  \<open>u16\<close>, \<open>u32\<close> or \<open>u64\<close> is a word of that width.
\<close>

abbreviation u64_max :: u64 where
  "u64_max \<equiv> 0xFFFFFFFFFFFFFFFF"

definition saturating_add :: "'a::len word \<Rightarrow> 'a word \<Rightarrow> 'a word" where
  "saturating_add a b = (if unat a + unat b < 2 ^ LENGTH('a) then a + b else - 1)"

definition saturating_mul :: "'a::len word \<Rightarrow> 'a word \<Rightarrow> 'a word" where
  "saturating_mul a b = (if unat a * unat b < 2 ^ LENGTH('a) then a * b else - 1)"

definition saturating_sub :: "'a::len word \<Rightarrow> 'a word \<Rightarrow> 'a word" where
  "saturating_sub a b = (if b \<le> a then a - b else 0)"

lemma unat_minus_one_max: "unat (- 1 :: 'a::len word) = 2 ^ LENGTH('a) - 1"
  by (simp add: unsigned_minus_1_eq_mask mask_eq_exp_minus_1)

lemma unat_saturating_add:
  "unat (saturating_add a b) = min (2 ^ LENGTH('a) - 1) (unat a + unat (b :: 'a::len word))"
proof (cases "unat a + unat b < 2 ^ LENGTH('a)")
  case True
  then have "unat (a + b) = unat a + unat b"
    by (simp add: unat_add_lem)
  with True show ?thesis by (simp add: saturating_add_def)
next
  case False
  then show ?thesis by (simp add: saturating_add_def unat_minus_one_max)
qed

lemma unat_saturating_mul:
  "unat (saturating_mul a b) = min (2 ^ LENGTH('a) - 1) (unat a * unat (b :: 'a::len word))"
proof (cases "unat a * unat b < 2 ^ LENGTH('a)")
  case True
  then have "unat (a * b) = unat a * unat b"
    by (simp add: unat_mult_lem)
  with True show ?thesis by (simp add: saturating_mul_def)
next
  case False
  then show ?thesis by (simp add: saturating_mul_def unat_minus_one_max)
qed

lemma unat_saturating_sub: "unat (saturating_sub a b) = unat a - unat b"
  by (auto simp: saturating_sub_def unat_sub word_le_nat_alt)

lemma unat_u64_less: "unat (w :: u64) < 18446744073709551616"
  using unsigned_less [of w, where ?'a = nat] by simp

lemma unat_u32_less: "unat (w :: u32) < 4294967296"
  using unsigned_less [of w, where ?'a = nat] by simp

lemma unat_u16_less: "unat (w :: u16) < 65536"
  using unsigned_less [of w, where ?'a = nat] by simp

lemma unat_u8_less: "unat (w :: u8) < 256"
  using unsigned_less [of w, where ?'a = nat] by simp

lemma unat_Suc_u64: "unat (w :: u64) + 1 < 18446744073709551616 \<Longrightarrow> unat (w + 1) = unat w + 1"
  by (simp add: unat_word_ariths)

section \<open>Byte buffers\<close>

definition get_bytes :: "nat \<Rightarrow> nat \<Rightarrow> 'a list \<Rightarrow> 'a list" where
  \<comment> \<open>the slice \<open>buf[off..off + n]\<close>\<close>
  "get_bytes off n buf = take n (drop off buf)"

definition put_bytes :: "nat \<Rightarrow> 'a list \<Rightarrow> 'a list \<Rightarrow> 'a list" where
  \<comment> \<open>\<open>buf[off..off + bs.len()].copy_from_slice(bs)\<close>\<close>
  "put_bytes off bs buf = take off buf @ bs @ drop (off + length bs) buf"

lemma length_get_bytes [simp]: "length (get_bytes off n buf) = min n (length buf - off)"
  by (simp add: get_bytes_def)

lemma length_put_bytes [simp]:
  "off + length bs \<le> length buf \<Longrightarrow> length (put_bytes off bs buf) = length buf"
  by (simp add: put_bytes_def)

lemma nth_get_bytes: "off + i < length buf \<Longrightarrow> i < n \<Longrightarrow> get_bytes off n buf ! i = buf ! (off + i)"
  by (simp add: get_bytes_def)

lemma nth_put_bytes:
  "off + length bs \<le> length buf \<Longrightarrow> i < length buf \<Longrightarrow>
   put_bytes off bs buf ! i = (if off \<le> i \<and> i < off + length bs then bs ! (i - off) else buf ! i)"
  by (auto simp: put_bytes_def nth_append min_def)

lemma get_put_bytes_same:
  "off + length bs \<le> length buf \<Longrightarrow> n = length bs \<Longrightarrow> get_bytes off n (put_bytes off bs buf) = bs"
  by (simp add: get_bytes_def put_bytes_def)

lemma get_put_bytes_other:
  assumes "off + length bs \<le> length buf" and "p + n \<le> off \<or> off + length bs \<le> p"
  shows "get_bytes p n (put_bytes off bs buf) = get_bytes p n buf"
  by (rule nth_equalityI) (use assms in \<open>auto simp: nth_get_bytes nth_put_bytes\<close>)

lemma get_put_bytes_inside:
  assumes "off + length bs \<le> length buf" and "off \<le> p" and "p + n \<le> off + length bs"
  shows "get_bytes p n (put_bytes off bs buf) = get_bytes (p - off) n bs"
  by (rule nth_equalityI) (use assms in \<open>auto simp: nth_get_bytes nth_put_bytes\<close>)

lemma get_bytes_list_update:
  "i < p \<or> p + n \<le> i \<Longrightarrow> get_bytes p n (buf[i := v]) = get_bytes p n buf"
  by (cases "i < length buf")
    (auto simp: nth_list_update nth_get_bytes list_update_beyond intro!: nth_equalityI)

lemma get_bytes_take: "p + n \<le> k \<Longrightarrow> get_bytes p n (take k buf) = get_bytes p n buf"
  by (simp add: get_bytes_def take_drop min_def)

lemma get_bytes_all: "n = length buf \<Longrightarrow> get_bytes 0 n buf = buf"
  by (simp add: get_bytes_def)

lemma get_bytes_append1: "off + n \<le> length xs \<Longrightarrow> get_bytes off n (xs @ ys) = get_bytes off n xs"
  by (simp add: get_bytes_def)

lemma get_bytes_replicate: "get_bytes off n (replicate m v) = replicate (min n (m - off)) v"
  by (simp add: get_bytes_def)

lemma take_put_bytes_low: "k \<le> off \<Longrightarrow> k \<le> length buf \<Longrightarrow> take k (put_bytes off bs buf) = take k buf"
  by (simp add: put_bytes_def min_def)

lemma nth_put_bytes_other:
  "off + length bs \<le> length buf \<Longrightarrow> i < off \<or> off + length bs \<le> i \<Longrightarrow> i < length buf \<Longrightarrow>
   put_bytes off bs buf ! i = buf ! i"
  by (auto simp: nth_put_bytes)

subsection \<open>Little-endian integers\<close>

fun le_bytes :: "nat \<Rightarrow> nat \<Rightarrow> u8 list" where
  "le_bytes 0 n = []"
| "le_bytes (Suc k) n = word_of_nat (n mod 256) # le_bytes k (n div 256)"

fun le_nat :: "u8 list \<Rightarrow> nat" where
  "le_nat [] = 0"
| "le_nat (b # bs) = unat b + 256 * le_nat bs"

lemma length_le_bytes [simp]: "length (le_bytes k n) = k"
  by (induction k arbitrary: n) auto

lemma le_nat_le_bytes: "le_nat (le_bytes k n) = n mod 256 ^ k"
proof (induction k arbitrary: n)
  case 0
  then show ?case by simp
next
  case (Suc k)
  have "unat (word_of_nat (n mod 256) :: u8) = n mod 256"
    by (simp add: unat_of_nat)
  with Suc show ?case
    by (simp add: mod_mult2_eq)
qed

lemma le_nat_bound: "le_nat bs < 256 ^ length bs"
proof (induction bs)
  case Nil
  then show ?case by simp
next
  case (Cons b bs)
  then show ?case using unat_u8_less [of b] by simp
qed

lemma le_bytes_le_nat: "k = length bs \<Longrightarrow> le_bytes k (le_nat bs) = bs"
proof (induction bs arbitrary: k)
  case Nil
  then show ?case by simp
next
  case (Cons b bs)
  then show ?case using unat_u8_less [of b] by simp
qed

definition to_le_bytes :: "'a::len word \<Rightarrow> u8 list" where
  "to_le_bytes w = le_bytes (LENGTH('a) div 8) (unat w)"

definition from_le_bytes :: "u8 list \<Rightarrow> 'a::len word" where
  "from_le_bytes bs = word_of_nat (le_nat bs)"

lemma length_to_le_bytes [simp]:
  "length (to_le_bytes (w :: u16)) = 2" "length (to_le_bytes (x :: u32)) = 4"
  "length (to_le_bytes (y :: u64)) = 8"
  by (simp_all add: to_le_bytes_def)

lemma from_to_le_bytes [simp]:
  "from_le_bytes (to_le_bytes (w :: u16)) = w" "from_le_bytes (to_le_bytes (x :: u32)) = x"
  "from_le_bytes (to_le_bytes (y :: u64)) = y"
  using unat_u16_less [of w] unat_u32_less [of x] unat_u64_less [of y]
  by (simp_all add: to_le_bytes_def from_le_bytes_def le_nat_le_bytes)

lemma to_from_le_bytes_u64: "length bs = 8 \<Longrightarrow> to_le_bytes (from_le_bytes bs :: u64) = bs"
  using le_nat_bound [of bs]
  by (simp add: to_le_bytes_def from_le_bytes_def unat_of_nat le_bytes_le_nat)

lemma from_le_bytes_zero:
  "(from_le_bytes (replicate n 0) :: 'a::len word) = 0"
proof -
  have "le_nat (replicate n 0) = 0" by (induction n) auto
  then show ?thesis by (simp add: from_le_bytes_def)
qed

text \<open>The typed reads and writes the page modules use.\<close>

definition get_u16 :: "nat \<Rightarrow> u8 list \<Rightarrow> u16" where
  "get_u16 off buf = from_le_bytes (get_bytes off 2 buf)"

definition get_u32 :: "nat \<Rightarrow> u8 list \<Rightarrow> u32" where
  "get_u32 off buf = from_le_bytes (get_bytes off 4 buf)"

definition get_u64 :: "nat \<Rightarrow> u8 list \<Rightarrow> u64" where
  "get_u64 off buf = from_le_bytes (get_bytes off 8 buf)"

definition put_u16 :: "nat \<Rightarrow> u16 \<Rightarrow> u8 list \<Rightarrow> u8 list" where
  "put_u16 off v = put_bytes off (to_le_bytes v)"

definition put_u32 :: "nat \<Rightarrow> u32 \<Rightarrow> u8 list \<Rightarrow> u8 list" where
  "put_u32 off v = put_bytes off (to_le_bytes v)"

definition put_u64 :: "nat \<Rightarrow> u64 \<Rightarrow> u8 list \<Rightarrow> u8 list" where
  "put_u64 off v = put_bytes off (to_le_bytes v)"

named_theorems byte_simps \<open>reads after writes on byte buffers\<close>

lemma length_put_uint [byte_simps, simp]:
  "off + 2 \<le> length buf \<Longrightarrow> length (put_u16 off v buf) = length buf"
  "off + 4 \<le> length buf \<Longrightarrow> length (put_u32 off w buf) = length buf"
  "off + 8 \<le> length buf \<Longrightarrow> length (put_u64 off x buf) = length buf"
  by (simp_all add: put_u16_def put_u32_def put_u64_def)

lemma get_put_uint_same [byte_simps]:
  "off + 2 \<le> length buf \<Longrightarrow> get_u16 off (put_u16 off v buf) = v"
  "off + 4 \<le> length buf \<Longrightarrow> get_u32 off (put_u32 off w buf) = w"
  "off + 8 \<le> length buf \<Longrightarrow> get_u64 off (put_u64 off x buf) = x"
  by (simp_all add: get_u16_def get_u32_def get_u64_def put_u16_def put_u32_def put_u64_def
      get_put_bytes_same)

lemma get_bytes_put_uint [byte_simps]:
  "off + 2 \<le> length buf \<Longrightarrow> p + n \<le> off \<or> off + 2 \<le> p \<Longrightarrow>
     get_bytes p n (put_u16 off v buf) = get_bytes p n buf"
  "off + 4 \<le> length buf \<Longrightarrow> p + n \<le> off \<or> off + 4 \<le> p \<Longrightarrow>
     get_bytes p n (put_u32 off w buf) = get_bytes p n buf"
  "off + 8 \<le> length buf \<Longrightarrow> p + n \<le> off \<or> off + 8 \<le> p \<Longrightarrow>
     get_bytes p n (put_u64 off x buf) = get_bytes p n buf"
  by (auto simp: put_u16_def put_u32_def put_u64_def get_put_bytes_other)

lemma get_u16_other [byte_simps]:
  "off + length bs \<le> length buf \<Longrightarrow> p + 2 \<le> off \<or> off + length bs \<le> p \<Longrightarrow>
     get_u16 p (put_bytes off bs buf) = get_u16 p buf"
  "off + 2 \<le> length buf \<Longrightarrow> p + 2 \<le> off \<or> off + 2 \<le> p \<Longrightarrow>
     get_u16 p (put_u16 off v buf) = get_u16 p buf"
  "off + 4 \<le> length buf \<Longrightarrow> p + 2 \<le> off \<or> off + 4 \<le> p \<Longrightarrow>
     get_u16 p (put_u32 off w buf) = get_u16 p buf"
  "off + 8 \<le> length buf \<Longrightarrow> p + 2 \<le> off \<or> off + 8 \<le> p \<Longrightarrow>
     get_u16 p (put_u64 off x buf) = get_u16 p buf"
  "i < p \<or> p + 2 \<le> i \<Longrightarrow> get_u16 p (buf[i := b]) = get_u16 p buf"
  by (simp_all add: get_u16_def put_u16_def put_u32_def put_u64_def get_put_bytes_other
      get_bytes_list_update)

lemma get_u32_other [byte_simps]:
  "off + length bs \<le> length buf \<Longrightarrow> p + 4 \<le> off \<or> off + length bs \<le> p \<Longrightarrow>
     get_u32 p (put_bytes off bs buf) = get_u32 p buf"
  "off + 2 \<le> length buf \<Longrightarrow> p + 4 \<le> off \<or> off + 2 \<le> p \<Longrightarrow>
     get_u32 p (put_u16 off v buf) = get_u32 p buf"
  "off + 4 \<le> length buf \<Longrightarrow> p + 4 \<le> off \<or> off + 4 \<le> p \<Longrightarrow>
     get_u32 p (put_u32 off w buf) = get_u32 p buf"
  "off + 8 \<le> length buf \<Longrightarrow> p + 4 \<le> off \<or> off + 8 \<le> p \<Longrightarrow>
     get_u32 p (put_u64 off x buf) = get_u32 p buf"
  "i < p \<or> p + 4 \<le> i \<Longrightarrow> get_u32 p (buf[i := b]) = get_u32 p buf"
  by (simp_all add: get_u32_def put_u16_def put_u32_def put_u64_def get_put_bytes_other
      get_bytes_list_update)

lemma get_u64_other [byte_simps]:
  "off + length bs \<le> length buf \<Longrightarrow> p + 8 \<le> off \<or> off + length bs \<le> p \<Longrightarrow>
     get_u64 p (put_bytes off bs buf) = get_u64 p buf"
  "off + 2 \<le> length buf \<Longrightarrow> p + 8 \<le> off \<or> off + 2 \<le> p \<Longrightarrow>
     get_u64 p (put_u16 off v buf) = get_u64 p buf"
  "off + 4 \<le> length buf \<Longrightarrow> p + 8 \<le> off \<or> off + 4 \<le> p \<Longrightarrow>
     get_u64 p (put_u32 off w buf) = get_u64 p buf"
  "off + 8 \<le> length buf \<Longrightarrow> p + 8 \<le> off \<or> off + 8 \<le> p \<Longrightarrow>
     get_u64 p (put_u64 off x buf) = get_u64 p buf"
  "i < p \<or> p + 8 \<le> i \<Longrightarrow> get_u64 p (buf[i := b]) = get_u64 p buf"
  by (simp_all add: get_u64_def put_u16_def put_u32_def put_u64_def get_put_bytes_other
      get_bytes_list_update)

lemma nth_put_uint_other [byte_simps]:
  "off + 2 \<le> length buf \<Longrightarrow> i < off \<or> off + 2 \<le> i \<Longrightarrow> i < length buf \<Longrightarrow>
     put_u16 off v buf ! i = buf ! i"
  "off + 4 \<le> length buf \<Longrightarrow> i < off \<or> off + 4 \<le> i \<Longrightarrow> i < length buf \<Longrightarrow>
     put_u32 off w buf ! i = buf ! i"
  "off + 8 \<le> length buf \<Longrightarrow> i < off \<or> off + 8 \<le> i \<Longrightarrow> i < length buf \<Longrightarrow>
     put_u64 off x buf ! i = buf ! i"
  by (simp_all add: put_u16_def put_u32_def put_u64_def nth_put_bytes_other)

lemma get_uint_take:
  "p + 2 \<le> k \<Longrightarrow> get_u16 p (take k buf) = get_u16 p buf"
  "p + 4 \<le> k \<Longrightarrow> get_u32 p (take k buf) = get_u32 p buf"
  "p + 8 \<le> k \<Longrightarrow> get_u64 p (take k buf) = get_u64 p buf"
  by (simp_all add: get_u16_def get_u32_def get_u64_def get_bytes_take)

lemma get_uint_replicate:
  "get_u16 p (replicate m 0) = 0" "get_u32 p (replicate m 0) = 0" "get_u64 p (replicate m 0) = 0"
  by (simp_all add: get_u16_def get_u32_def get_u64_def get_bytes_replicate from_le_bytes_zero)

lemma get_uint_put_bytes_other:
  assumes "off + length bs \<le> length buf"
  shows "p + 2 \<le> off \<or> off + length bs \<le> p \<Longrightarrow> get_u16 p (put_bytes off bs buf) = get_u16 p buf"
    and "p + 4 \<le> off \<or> off + length bs \<le> p \<Longrightarrow> get_u32 p (put_bytes off bs buf) = get_u32 p buf"
    and "p + 8 \<le> off \<or> off + length bs \<le> p \<Longrightarrow> get_u64 p (put_bytes off bs buf) = get_u64 p buf"
  using assms by (simp_all add: get_u16_def get_u32_def get_u64_def get_put_bytes_other)

end
