(* ===== verification/Result_Monad.thy ===== *)
theory Result_Monad
  imports Chisel_Prelude
begin

text \<open>
  Rust's \<open>Result\<close> over a mutable receiver: a computation takes the state it borrows mutably and
  returns its result with the state it leaves behind, on the error path too. \<open>and_then\<close> is the
  \<open>?\<close> operator: an error or a panic of the first computation is the result of the whole, with
  the state as the first computation left it. \<open>wp\<close> is the weakest precondition of such a
  computation; it never holds of one that panics.
\<close>

datatype ('e, 'a) res = Ok 'a | Err 'e | Panic

type_synonym ('s, 'e, 'a) op = "'s \<Rightarrow> ('e, 'a) res \<times> 's"

definition ok :: "'a \<Rightarrow> ('s, 'e, 'a) op" where
  "ok x = (\<lambda>s. (Ok x, s))"

definition err :: "'e \<Rightarrow> ('s, 'e, 'a) op" where
  "err e = (\<lambda>s. (Err e, s))"

definition panic :: "('s, 'e, 'a) op" where
  "panic = (\<lambda>s. (Panic, s))"

definition gets :: "('s \<Rightarrow> 'a) \<Rightarrow> ('s, 'e, 'a) op" where
  "gets f = (\<lambda>s. (Ok (f s), s))"

definition modify :: "('s \<Rightarrow> 's) \<Rightarrow> ('s, 'e, unit) op" where
  "modify f = (\<lambda>s. (Ok (), f s))"

definition and_then :: "('s, 'e, 'a) op \<Rightarrow> ('a \<Rightarrow> ('s, 'e, 'b) op) \<Rightarrow> ('s, 'e, 'b) op" where
  "and_then m f = (\<lambda>s. case m s of
     (Ok a, t) \<Rightarrow> f a t
   | (Err e, t) \<Rightarrow> (Err e, t)
   | (Panic, t) \<Rightarrow> (Panic, t))"

text \<open>A match on the error of a computation: \<open>Result::or_else\<close>, \<open>map_err\<close>.\<close>

definition or_else :: "('s, 'e, 'a) op \<Rightarrow> ('e \<Rightarrow> ('s, 'f, 'a) op) \<Rightarrow> ('s, 'f, 'a) op" where
  "or_else m h = (\<lambda>s. case m s of
     (Ok a, t) \<Rightarrow> (Ok a, t)
   | (Err e, t) \<Rightarrow> h e t
   | (Panic, t) \<Rightarrow> (Panic, t))"

text \<open>A \<open>for\<close> loop whose body uses \<open>?\<close>: it stops at the first error.\<close>

fun for_each :: "'x list \<Rightarrow> ('x \<Rightarrow> ('s, 'e, unit) op) \<Rightarrow> ('s, 'e, unit) op" where
  "for_each [] f = ok ()"
| "for_each (x # xs) f = and_then (f x) (\<lambda>_. for_each xs f)"

text \<open>The same with a local variable the body updates.\<close>

fun fold_each :: "'x list \<Rightarrow> ('x \<Rightarrow> 'a \<Rightarrow> ('s, 'e, 'a) op) \<Rightarrow> 'a \<Rightarrow> ('s, 'e, 'a) op" where
  "fold_each [] f acc = ok acc"
| "fold_each (x # xs) f acc = and_then (f x acc) (fold_each xs f)"

text \<open>Run a computation on a field of a larger state.\<close>

definition on_field :: "('t \<Rightarrow> 's) \<Rightarrow> ('s \<Rightarrow> 't \<Rightarrow> 't) \<Rightarrow> ('s, 'e, 'a) op \<Rightarrow> ('t, 'e, 'a) op" where
  "on_field g p m = (\<lambda>t. case m (g t) of (r, s) \<Rightarrow> (r, p s t))"

subsection \<open>Weakest preconditions\<close>

definition wp :: "('s, 'e, 'a) op \<Rightarrow> ('a \<Rightarrow> 's \<Rightarrow> bool) \<Rightarrow> ('e \<Rightarrow> 's \<Rightarrow> bool) \<Rightarrow> 's \<Rightarrow> bool" where
  "wp m Q E s = (case m s of (Ok a, t) \<Rightarrow> Q a t | (Err e, t) \<Rightarrow> E e t | (Panic, t) \<Rightarrow> False)"

named_theorems wp_simps \<open>weakest preconditions of the monad's combinators\<close>

lemma wp_ok [wp_simps]: "wp (ok x) Q E = Q x"
  by (simp add: wp_def ok_def fun_eq_iff)

lemma wp_err [wp_simps]: "wp (err e) Q E = E e"
  by (simp add: wp_def err_def fun_eq_iff)

lemma wp_panic [wp_simps]: "wp panic Q E = (\<lambda>s. False)"
  by (simp add: wp_def panic_def fun_eq_iff)

lemma wp_gets [wp_simps]: "wp (gets f) Q E = (\<lambda>s. Q (f s) s)"
  by (simp add: wp_def gets_def fun_eq_iff)

lemma wp_modify [wp_simps]: "wp (modify f) Q E = (\<lambda>s. Q () (f s))"
  by (simp add: wp_def modify_def fun_eq_iff)

lemma wp_and_then [wp_simps]:
  "wp (and_then m f) Q E = wp m (\<lambda>a. wp (f a) Q E) E"
  by (auto simp: wp_def and_then_def fun_eq_iff split: prod.splits res.splits)

lemma wp_or_else [wp_simps]: "wp (or_else m h) Q E = wp m Q (\<lambda>e. wp (h e) Q E)"
  by (auto simp: wp_def or_else_def fun_eq_iff split: prod.splits res.splits)

lemma wp_if [wp_simps]:
  "wp (if b then m else n) Q E = (if b then wp m Q E else wp n Q E)"
  by simp

lemma wp_on_field:
  "wp (on_field g p m) Q E t = wp m (\<lambda>a s. Q a (p s t)) (\<lambda>e s. E e (p s t)) (g t)"
  by (auto simp: wp_def on_field_def split: prod.splits res.splits)

lemma wp_cong: "m s = m' s \<Longrightarrow> wp m Q E s = wp m' Q E s"
  by (simp add: wp_def)

lemma and_then_gets: "and_then (gets f) g s = g (f s) s"
  by (simp add: and_then_def gets_def)

lemma and_then_ok: "and_then (ok x) f = f x"
  by (simp add: and_then_def ok_def fun_eq_iff)

lemma and_then_assoc: "and_then (and_then m f) g = and_then m (\<lambda>a. and_then (f a) g)"
  by (auto simp: and_then_def fun_eq_iff split: prod.splits res.splits)

lemma wp_mono:
  assumes "wp m Q E s" and "\<And>a t. Q a t \<Longrightarrow> Q' a t" and "\<And>e t. E e t \<Longrightarrow> E' e t"
  shows "wp m Q' E' s"
  using assms by (auto simp: wp_def split: prod.splits res.splits)

lemma wp_conj:
  "wp m Q E s \<Longrightarrow> wp m Q' E' s \<Longrightarrow> wp m (\<lambda>a t. Q a t \<and> Q' a t) (\<lambda>e t. E e t \<and> E' e t) s"
  by (auto simp: wp_def split: prod.splits res.splits)

text \<open>An outcome that a family of contracts describes.\<close>

lemma wp_all:
  "wp m Q E s \<Longrightarrow> (\<And>k. P k \<Longrightarrow> wp m (R k) E s) \<Longrightarrow> wp m (\<lambda>a t. Q a t \<and> (\<forall>k. P k \<longrightarrow> R k a t)) E s"
  by (auto simp: wp_def split: prod.splits res.splits)

lemma wp_for_each:
  assumes "I xs s"
    and "\<And>y ys t. I (y # ys) t \<Longrightarrow> set (y # ys) \<subseteq> set xs \<Longrightarrow> wp (f y) (\<lambda>_. I ys) E t"
  shows "wp (for_each xs f) (\<lambda>_. I []) E s"
  using assms
proof (induction xs arbitrary: s)
  case Nil
  then show ?case by (simp add: wp_simps)
next
  case (Cons x xs)
  have step: "wp (f x) (\<lambda>_. I xs) E s"
    using Cons.prems by (metis order_refl)
  have rest: "wp (for_each xs f) (\<lambda>_. I []) E t" if "I xs t" for t
    using that Cons.prems(2) by (intro Cons.IH) auto
  show ?case
    unfolding for_each.simps wp_and_then by (rule wp_mono [OF step]) (auto intro: rest)
qed

text \<open>From a weakest precondition to the outcomes, and back.\<close>

lemma wpD_Ok: "wp m Q E s \<Longrightarrow> m s = (Ok a, t) \<Longrightarrow> Q a t"
  by (simp add: wp_def)

lemma wpD_Err: "wp m Q E s \<Longrightarrow> m s = (Err e, t) \<Longrightarrow> E e t"
  by (simp add: wp_def)

lemma wp_no_panic: "wp m Q E s \<Longrightarrow> fst (m s) \<noteq> Panic"
  by (auto simp: wp_def split: prod.splits res.splits)

lemma wp_total:
  assumes "wp m Q E s" and "\<And>e t. E e t \<Longrightarrow> False"
  obtains a t where "m s = (Ok a, t)" and "Q a t"
  using assms by (cases "m s") (auto simp: wp_def split: res.splits)

lemma wpI:
  assumes "\<And>a t. m s = (Ok a, t) \<Longrightarrow> Q a t" and "\<And>e t. m s = (Err e, t) \<Longrightarrow> E e t"
    and "fst (m s) \<noteq> Panic"
  shows "wp m Q E s"
  using assms by (cases "m s") (auto simp: wp_def split: res.splits)

lemma and_then_Ok:
  "and_then m f s = (Ok b, u) \<longleftrightarrow> (\<exists>a t. m s = (Ok a, t) \<and> f a t = (Ok b, u))"
  by (auto simp: and_then_def split: prod.splits res.splits)

lemma and_then_Err:
  "and_then m f s = (Err e, u) \<longleftrightarrow>
   m s = (Err e, u) \<or> (\<exists>a t. m s = (Ok a, t) \<and> f a t = (Err e, u))"
  by (auto simp: and_then_def split: prod.splits res.splits)

lemma and_then_run: "m s = (Ok a, t) \<Longrightarrow> and_then m f s = f a t"
  by (simp add: and_then_def)

lemma for_each_append:
  "for_each (xs @ ys) f = and_then (for_each xs f) (\<lambda>_. for_each ys f)"
  by (induction xs) (auto simp: and_then_def ok_def fun_eq_iff split: prod.splits res.splits)

section \<open>Hash maps as association lists\<close>

text \<open>
  A hash map is an association list with distinct keys, so that \<open>len\<close> and iteration compute; the
  list order stands for the unspecified iteration order.
\<close>

lemma map_of_update [simp]: "map_of (AList.update k v al) = (map_of al)(k \<mapsto> v)"
  by (rule update_conv')

lemma map_of_delete [simp]: "map_of (AList.delete k al) = (map_of al)(k := None)"
  by (rule delete_conv')

lemma keys_update: "fst ` set (AList.update k v al) = insert k (fst ` set al)"
  by (simp add: dom_update flip: dom_map_of_conv_image_fst)

lemma keys_delete: "fst ` set (AList.delete k al) = fst ` set al - {k}"
  by (force simp: AList.delete_eq)

lemma distinct_keys_update [simp]:
  "distinct (map fst al) \<Longrightarrow> distinct (map fst (AList.update k v al))"
  by (rule distinct_update)

lemma distinct_keys_delete [simp]:
  "distinct (map fst al) \<Longrightarrow> distinct (map fst (AList.delete k al))"
  by (rule distinct_delete)

lemma delete_fresh: "k \<notin> fst ` set al \<Longrightarrow> AList.delete k al = al"
  by (induction al) auto

lemma length_delete_key:
  "distinct (map fst al) \<Longrightarrow> k \<in> fst ` set al \<Longrightarrow> length (AList.delete k al) = length al - 1"
proof (induction al)
  case Nil
  then show ?case by simp
next
  case (Cons a al)
  show ?case
  proof (cases "fst a = k")
    case True
    with Cons.prems show ?thesis by (cases a) (auto simp: delete_fresh)
  next
    case False
    with Cons.prems have "k \<in> fst ` set al" by auto
    moreover from this have "0 < length al" by (cases al) auto
    ultimately show ?thesis using Cons False by (cases a) auto
  qed
qed

lemma length_delete_less: "k \<in> fst ` set al \<Longrightarrow> length (AList.delete k al) < length al"
  unfolding AList.delete_eq by (auto intro: length_filter_less)

lemma length_update_new: "k \<notin> fst ` set al \<Longrightarrow> length (AList.update k v al) = Suc (length al)"
  by (induction al) auto

lemma length_update_old: "k \<in> fst ` set al \<Longrightarrow> length (AList.update k v al) = length al"
  by (induction al) auto

lemma map_of_None_keys: "map_of al k = None \<longleftrightarrow> k \<notin> fst ` set al"
  by (simp add: map_of_eq_None_iff)

lemma map_of_SomeD_keys: "map_of al k = Some v \<Longrightarrow> k \<in> fst ` set al"
  by (metis map_of_None_keys option.distinct(1))

text \<open>Counting the entries of an association list that satisfy a predicate.\<close>

definition count_if :: "('v \<Rightarrow> bool) \<Rightarrow> ('k \<times> 'v) list \<Rightarrow> nat" where
  "count_if P al = length (filter (\<lambda>(k, v). P v) al)"

lemma count_if_le: "count_if P al \<le> length al"
  by (simp add: count_if_def)

lemma count_if_update_new:
  "k \<notin> fst ` set al \<Longrightarrow> count_if P (AList.update k v al) = count_if P al + (if P v then 1 else 0)"
  by (induction al) (auto simp: count_if_def)

lemma count_if_update_old:
  "distinct (map fst al) \<Longrightarrow> map_of al k = Some v0 \<Longrightarrow>
   count_if P (AList.update k v al) + (if P v0 then 1 else 0) = count_if P al + (if P v then 1 else 0)"
  by (induction al) (auto simp: count_if_def)

lemma count_if_delete:
  "distinct (map fst al) \<Longrightarrow> map_of al k = Some v0 \<Longrightarrow>
   count_if P (AList.delete k al) + (if P v0 then 1 else 0) = count_if P al"
proof (induction al)
  case Nil
  then show ?case by simp
next
  case (Cons a al)
  then show ?case
    by (cases a) (auto simp: count_if_def delete_fresh)
qed

lemma count_if_all: "count_if P al = length al \<longleftrightarrow> (\<forall>(k, v) \<in> set al. P v)"
proof
  assume eq: "count_if P al = length al"
  show "\<forall>(k, v) \<in> set al. P v"
  proof (rule ccontr)
    assume "\<not> ?thesis"
    then obtain x where "x \<in> set al" and "\<not> (case x of (k, v) \<Rightarrow> P v)" by auto
    then have "count_if P al < length al"
      unfolding count_if_def by (rule length_filter_less)
    with eq show False by simp
  qed
next
  assume "\<forall>(k, v) \<in> set al. P v"
  then have "filter (\<lambda>(k, v). P v) al = al" by (simp add: filter_id_conv)
  then show "count_if P al = length al" by (simp add: count_if_def)
qed

end
