(* ===== verification/Lru_Index.thy ===== *)
theory Lru_Index
  imports Result_Monad
begin

text \<open>
  The intrusive recency list of \<open>src/src/lru.rs\<close>: a doubly linked list threaded through a hash map
  from page id to its neighbours. The list is refined to a plain duplicate-free list of page ids,
  most recently used first, through the predicate \<open>dlist\<close> (the linked-segment predicate of pointer
  program proofs, with both links).
\<close>

section \<open>Definitions\<close>

record node =
  prev :: "u64 option"
  nxt :: "u64 option"

record lru_index =
  lru_head :: "u64 option"
  lru_tail :: "u64 option"
  lru_nodes :: "(u64 \<times> node) list"

definition lru_new :: lru_index where
  "lru_new = \<lparr>lru_head = None, lru_tail = None, lru_nodes = []\<rparr>"

definition lru_contains :: "lru_index \<Rightarrow> u64 \<Rightarrow> bool" where
  "lru_contains l i = (map_of (lru_nodes l) i \<noteq> None)"

text \<open>\<open>if let Some(n) = self.nodes.get_mut(&id) { ... }\<close>\<close>

definition with_node :: "u64 \<Rightarrow> (node \<Rightarrow> node) \<Rightarrow> lru_index \<Rightarrow> lru_index" where
  "with_node i f l =
     (case map_of (lru_nodes l) i of
        None \<Rightarrow> l
      | Some n \<Rightarrow> l\<lparr>lru_nodes := AList.update i (f n) (lru_nodes l)\<rparr>)"

definition lru_unlink :: "lru_index \<Rightarrow> u64 \<Rightarrow> lru_index" where
  "lru_unlink l i =
     (case map_of (lru_nodes l) i of
        None \<Rightarrow> l
      | Some node \<Rightarrow>
          let l1 = (case prev node of
                      Some prev_id \<Rightarrow> with_node prev_id (\<lambda>p. p\<lparr>nxt := nxt node\<rparr>) l
                    | None \<Rightarrow> l\<lparr>lru_head := nxt node\<rparr>)
          in (case nxt node of
                Some next_id \<Rightarrow> with_node next_id (\<lambda>n. n\<lparr>prev := prev node\<rparr>) l1
              | None \<Rightarrow> l1\<lparr>lru_tail := prev node\<rparr>))"

definition lru_push_front :: "lru_index \<Rightarrow> u64 \<Rightarrow> lru_index" where
  "lru_push_front l i =
     (let l0 = (if lru_contains l i then lru_unlink l i else l);
          new_node = \<lparr>prev = None, nxt = lru_head l0\<rparr>;
          l1 = (case lru_head l0 of
                  Some old_head \<Rightarrow> with_node old_head (\<lambda>n. n\<lparr>prev := Some i\<rparr>) l0
                | None \<Rightarrow> l0\<lparr>lru_tail := Some i\<rparr>)
      in l1\<lparr>lru_nodes := AList.update i new_node (lru_nodes l1), lru_head := Some i\<rparr>)"

definition lru_push_back :: "lru_index \<Rightarrow> u64 \<Rightarrow> lru_index" where
  "lru_push_back l i =
     (let l0 = (if lru_contains l i then lru_unlink l i else l);
          new_node = \<lparr>prev = lru_tail l0, nxt = None\<rparr>;
          l1 = (case lru_tail l0 of
                  Some old_tail \<Rightarrow> with_node old_tail (\<lambda>n. n\<lparr>nxt := Some i\<rparr>) l0
                | None \<Rightarrow> l0\<lparr>lru_head := Some i\<rparr>)
      in l1\<lparr>lru_nodes := AList.update i new_node (lru_nodes l1), lru_tail := Some i\<rparr>)"

definition lru_remove :: "lru_index \<Rightarrow> u64 \<Rightarrow> bool \<times> lru_index" where
  "lru_remove l i =
     (if \<not> lru_contains l i then (False, l)
      else let l1 = lru_unlink l i
           in (True, l1\<lparr>lru_nodes := AList.delete i (lru_nodes l1)\<rparr>))"

text \<open>
  \<open>LruIter::next\<close> follows the \<open>prev\<close> links from the tail. The fuel is the number of nodes, which
  \<open>lru_iter_lru_to_mru_repr\<close> shows to be enough.
\<close>

fun lru_iter :: "nat \<Rightarrow> lru_index \<Rightarrow> u64 option \<Rightarrow> u64 list" where
  "lru_iter 0 l cursor = []"
| "lru_iter (Suc n) l None = []"
| "lru_iter (Suc n) l (Some cur) =
     cur # lru_iter n l (Option.bind (map_of (lru_nodes l) cur) prev)"

definition iter_lru_to_mru :: "lru_index \<Rightarrow> u64 list" where
  "iter_lru_to_mru l = lru_iter (length (lru_nodes l)) l (lru_tail l)"

section \<open>The contract of a recency list\<close>

locale recency_list =
  fixes new :: 'l
    and push_front :: "'l \<Rightarrow> u64 \<Rightarrow> 'l"
    and push_back :: "'l \<Rightarrow> u64 \<Rightarrow> 'l"
    and remove :: "'l \<Rightarrow> u64 \<Rightarrow> bool \<times> 'l"
    and contains :: "'l \<Rightarrow> u64 \<Rightarrow> bool"
    and to_mru :: "'l \<Rightarrow> u64 list"
    and invar :: "'l \<Rightarrow> bool"
  assumes new_invar: "invar new" and new_order: "to_mru new = []"
    and order_distinct: "invar l \<Longrightarrow> distinct (to_mru l)"
    and front_invar: "invar l \<Longrightarrow> invar (push_front l i)"
    and front_order: "invar l \<Longrightarrow> to_mru (push_front l i) = removeAll i (to_mru l) @ [i]"
    and back_invar: "invar l \<Longrightarrow> invar (push_back l i)"
    and back_order: "invar l \<Longrightarrow> to_mru (push_back l i) = i # removeAll i (to_mru l)"
    and remove_invar: "invar l \<Longrightarrow> invar (snd (remove l i))"
    and remove_order: "invar l \<Longrightarrow> to_mru (snd (remove l i)) = removeAll i (to_mru l)"
    and remove_found: "invar l \<Longrightarrow> fst (remove l i) \<longleftrightarrow> i \<in> set (to_mru l)"
    and contains_iff: "invar l \<Longrightarrow> contains l i \<longleftrightarrow> i \<in> set (to_mru l)"
begin

lemma touch_set: "invar l \<Longrightarrow> set (to_mru (push_front l i)) = insert i (set (to_mru l))"
  by (auto simp: front_order)

lemma back_set: "invar l \<Longrightarrow> set (to_mru (push_back l i)) = insert i (set (to_mru l))"
  by (auto simp: back_order)

lemma remove_set: "invar l \<Longrightarrow> set (to_mru (snd (remove l i))) = set (to_mru l) - {i}"
  by (simp add: remove_order)

text \<open>After a sequence of touches the pages come out in the order of their last touch.\<close>

lemma touch_all:
  "invar l \<Longrightarrow> distinct is \<Longrightarrow> invar (foldl push_front l is) \<and>
   to_mru (foldl push_front l is) = [x \<leftarrow> to_mru l. x \<notin> set is] @ is"
proof (induction "is" arbitrary: l)
  case Nil
  then show ?case by simp
next
  case (Cons i "is")
  then show ?case
    by (auto simp: front_invar front_order removeAll_filter_not_eq intro!: filter_cong)
qed

end

section \<open>The linked segment\<close>

abbreviation fst_or :: "u64 list \<Rightarrow> u64 option \<Rightarrow> u64 option" where
  "fst_or xs n \<equiv> (case xs of [] \<Rightarrow> n | x # _ \<Rightarrow> Some x)"

abbreviation last_or :: "u64 option \<Rightarrow> u64 list \<Rightarrow> u64 option" where
  "last_or p xs \<equiv> (if xs = [] then p else Some (last xs))"

fun dlist :: "(u64 \<rightharpoonup> node) \<Rightarrow> u64 option \<Rightarrow> u64 list \<Rightarrow> u64 option \<Rightarrow> bool" where
  "dlist m p [] n \<longleftrightarrow> True"
| "dlist m p (x # xs) n \<longleftrightarrow> m x = Some \<lparr>prev = p, nxt = fst_or xs n\<rparr> \<and> dlist m (Some x) xs n"

lemma fst_or_append: "fst_or (xs @ ys) n = fst_or xs (fst_or ys n)"
  by (cases xs) auto

lemma last_or_append: "last_or p (xs @ ys) = last_or (last_or p xs) ys"
  by auto

lemma dlist_append:
  "dlist m p (xs @ ys) n \<longleftrightarrow> dlist m p xs (fst_or ys n) \<and> dlist m (last_or p xs) ys n"
  by (induction xs arbitrary: p) (auto split: list.splits)

lemma dlist_frame: "i \<notin> set xs \<Longrightarrow> dlist (m(i := v)) p xs n = dlist m p xs n"
  by (induction xs arbitrary: p) auto

lemma dlist_dom: "dlist m p xs n \<Longrightarrow> x \<in> set xs \<Longrightarrow> \<exists>nd. m x = Some nd"
  by (induction xs arbitrary: p) auto

text \<open>Relinking the two ends of a segment.\<close>

lemma dlist_set_next:
  assumes "dlist m p xs n" and "distinct xs" and "xs \<noteq> []"
  obtains nd where "m (last xs) = Some nd" and "dlist (m(last xs \<mapsto> nd\<lparr>nxt := n'\<rparr>)) p xs n'"
proof -
  from assms(3) obtain ys y where xs: "xs = ys @ [y]" by (metis rev_exhaust)
  with assms show ?thesis
    by (intro that [of "\<lparr>prev = last_or p ys, nxt = n\<rparr>"]) (auto simp: dlist_append dlist_frame)
qed

lemma dlist_set_prev:
  assumes "dlist m p xs n" and "distinct xs" and "xs = x # ys"
  obtains nd where "m x = Some nd" and "dlist (m(x \<mapsto> nd\<lparr>prev := p'\<rparr>)) p' xs n"
  using assms that [of "\<lparr>prev = p, nxt = fst_or ys n\<rparr>"] by (auto simp: dlist_frame)

text \<open>The abstraction: the list \<open>xs\<close> is threaded through the map, with the right ends.\<close>

definition lru_linked :: "lru_index \<Rightarrow> u64 list \<Rightarrow> bool" where
  "lru_linked l xs \<longleftrightarrow> distinct xs \<and> distinct (map fst (lru_nodes l)) \<and>
     lru_head l = fst_or xs None \<and> lru_tail l = last_or None xs \<and>
     dlist (map_of (lru_nodes l)) None xs None"

definition lru_repr :: "lru_index \<Rightarrow> u64 list \<Rightarrow> bool" where
  "lru_repr l xs \<longleftrightarrow> lru_linked l xs \<and> fst ` set (lru_nodes l) = set xs"

lemma with_node_simps:
  assumes "map_of (lru_nodes l) i = Some n" and "distinct (map fst (lru_nodes l))"
  shows "map_of (lru_nodes (with_node i f l)) = (map_of (lru_nodes l))(i \<mapsto> f n)"
    and "lru_head (with_node i f l) = lru_head l" and "lru_tail (with_node i f l) = lru_tail l"
    and "distinct (map fst (lru_nodes (with_node i f l)))"
    and "fst ` set (lru_nodes (with_node i f l)) = fst ` set (lru_nodes l)"
proof -
  have nodes: "lru_nodes (with_node i f l) = AList.update i (f n) (lru_nodes l)"
    using assms(1) by (simp add: with_node_def)
  have i: "i \<in> fst ` set (lru_nodes l)" using assms(1) by (metis map_of_SomeD_keys)
  show "map_of (lru_nodes (with_node i f l)) = (map_of (lru_nodes l))(i \<mapsto> f n)"
    unfolding nodes by (rule update_conv')
  show "lru_head (with_node i f l) = lru_head l" "lru_tail (with_node i f l) = lru_tail l"
    using assms(1) by (simp_all add: with_node_def)
  show "distinct (map fst (lru_nodes (with_node i f l)))"
    unfolding nodes using assms(2) by (rule distinct_keys_update)
  show "fst ` set (lru_nodes (with_node i f l)) = fst ` set (lru_nodes l)"
    unfolding nodes using i by (simp add: keys_update insert_absorb)
qed

text \<open>Unlinking in two steps: the left neighbour, then the right one.\<close>

lemma relink_next:
  fixes n' :: "u64 option"
  assumes "dlist (map_of (lru_nodes l)) None as n" and "distinct as" and "distinct (map fst (lru_nodes l))"
    and "lru_head l = fst_or as n" and "set as \<inter> set bs = {}" and "dlist (map_of (lru_nodes l)) p bs None"
  defines "l1 \<equiv> (case last_or None as of
      Some prev_id \<Rightarrow> with_node prev_id (\<lambda>p. p\<lparr>nxt := n'\<rparr>) l
    | None \<Rightarrow> l\<lparr>lru_head := n'\<rparr>)"
  shows "dlist (map_of (lru_nodes l1)) None as n'" and "dlist (map_of (lru_nodes l1)) p bs None"
    and "lru_head l1 = fst_or as n'" and "lru_tail l1 = lru_tail l"
    and "distinct (map fst (lru_nodes l1))" and "fst ` set (lru_nodes l1) = fst ` set (lru_nodes l)"
proof -
  let ?m = "map_of (lru_nodes l)" and ?f = "\<lambda>p. p\<lparr>nxt := n'\<rparr>"
  have "dlist (map_of (lru_nodes l1)) None as n' \<and> dlist (map_of (lru_nodes l1)) p bs None \<and>
    lru_head l1 = fst_or as n' \<and> lru_tail l1 = lru_tail l \<and>
    distinct (map fst (lru_nodes l1)) \<and> fst ` set (lru_nodes l1) = fst ` set (lru_nodes l)"
  proof (cases as rule: rev_cases)
    case Nil
    then show ?thesis using assms by simp
  next
    case (snoc as' a)
    with assms obtain nd where nd: "?m a = Some nd" and d: "dlist (?m(a \<mapsto> ?f nd)) None as n'"
      using dlist_set_next [of ?m None as n n'] by (metis last_snoc snoc_eq_iff_butlast)
    have "a \<notin> set bs" using assms(5) snoc by auto
    moreover have "fst_or as n' = fst_or as n" using snoc by (cases as') auto
    moreover have "l1 = with_node a ?f l" using snoc by (simp add: l1_def)
    ultimately show ?thesis
      using with_node_simps [OF nd assms(3), of ?f] d assms(4,6) by (simp add: dlist_frame)
  qed
  then show "dlist (map_of (lru_nodes l1)) None as n'" and "dlist (map_of (lru_nodes l1)) p bs None"
    and "lru_head l1 = fst_or as n'" and "lru_tail l1 = lru_tail l"
    and "distinct (map fst (lru_nodes l1))" and "fst ` set (lru_nodes l1) = fst ` set (lru_nodes l)"
    by blast+
qed

lemma relink_prev:
  fixes p' :: "u64 option"
  assumes "dlist (map_of (lru_nodes l)) p bs None" and "distinct bs" and "distinct (map fst (lru_nodes l))"
    and "lru_tail l = last_or p bs" and "set as \<inter> set bs = {}" and "dlist (map_of (lru_nodes l)) None as n"
  defines "l1 \<equiv> (case fst_or bs None of
      Some next_id \<Rightarrow> with_node next_id (\<lambda>n. n\<lparr>prev := p'\<rparr>) l
    | None \<Rightarrow> l\<lparr>lru_tail := p'\<rparr>)"
  shows "dlist (map_of (lru_nodes l1)) p' bs None" and "dlist (map_of (lru_nodes l1)) None as n"
    and "lru_tail l1 = last_or p' bs" and "lru_head l1 = lru_head l"
    and "distinct (map fst (lru_nodes l1))" and "fst ` set (lru_nodes l1) = fst ` set (lru_nodes l)"
proof -
  let ?m = "map_of (lru_nodes l)" and ?f = "\<lambda>n. n\<lparr>prev := p'\<rparr>"
  have "dlist (map_of (lru_nodes l1)) p' bs None \<and> dlist (map_of (lru_nodes l1)) None as n \<and>
    lru_tail l1 = last_or p' bs \<and> lru_head l1 = lru_head l \<and>
    distinct (map fst (lru_nodes l1)) \<and> fst ` set (lru_nodes l1) = fst ` set (lru_nodes l)"
  proof (cases bs)
    case Nil
    then show ?thesis using assms by simp
  next
    case (Cons b bs')
    with assms(1,2) obtain nd where nd: "?m b = Some nd" and d: "dlist (?m(b \<mapsto> ?f nd)) p' bs None"
      using dlist_set_prev [of ?m p bs None b bs' p'] by blast
    have "b \<notin> set as" using assms(5) Cons by auto
    moreover have "l1 = with_node b ?f l" using Cons by (simp add: l1_def)
    moreover have "last_or p bs = last_or p' bs" using Cons by simp
    ultimately show ?thesis
      using with_node_simps [OF nd assms(3), of ?f] d assms(4,6) by (simp add: dlist_frame)
  qed
  then show "dlist (map_of (lru_nodes l1)) p' bs None" and "dlist (map_of (lru_nodes l1)) None as n"
    and "lru_tail l1 = last_or p' bs" and "lru_head l1 = lru_head l"
    and "distinct (map fst (lru_nodes l1))" and "fst ` set (lru_nodes l1) = fst ` set (lru_nodes l)"
    by blast+
qed

lemma lru_unlink_linked:
  assumes l: "lru_linked l (as @ x # bs)"
  shows "lru_linked (lru_unlink l x) (as @ bs) \<and>
    fst ` set (lru_nodes (lru_unlink l x)) = fst ` set (lru_nodes l)"
proof -
  let ?m = "map_of (lru_nodes l)"
  note l' = l [unfolded lru_linked_def]
  have dist: "distinct as" "distinct bs" "set as \<inter> set bs = {}" "distinct (map fst (lru_nodes l))"
    using l' by simp_all
  have hd: "lru_head l = fst_or as (Some x)" using l' by (cases as) simp_all
  have tl: "lru_tail l = last_or (Some x) bs" using l' by simp
  have as: "dlist ?m None as (Some x)" and bs: "dlist ?m (Some x) bs None"
    and x: "?m x = Some \<lparr>prev = last_or None as, nxt = fst_or bs None\<rparr>"
    using l' by (simp_all add: dlist_append)
  define l1 where "l1 = (case last_or None as of
      Some prev_id \<Rightarrow> with_node prev_id (\<lambda>p. p\<lparr>nxt := fst_or bs None\<rparr>) l
    | None \<Rightarrow> l\<lparr>lru_head := fst_or bs None\<rparr>)"
  note r1 = relink_next [OF as dist(1,4) hd dist(3) bs, of "fst_or bs None", folded l1_def]
  have u: "lru_unlink l x = (case fst_or bs None of
      Some next_id \<Rightarrow> with_node next_id (\<lambda>n. n\<lparr>prev := last_or None as\<rparr>) l1
    | None \<Rightarrow> l1\<lparr>lru_tail := last_or None as\<rparr>)"
    by (simp only: lru_unlink_def x l1_def Let_def option.case node.simps)
  have tl1: "lru_tail l1 = last_or (Some x) bs" using r1(4) tl by simp
  note r2 = relink_prev [OF r1(2) dist(2) r1(5) tl1 dist(3) r1(1), of "last_or None as", folded u]
  have "lru_linked (lru_unlink l x) (as @ bs)"
    unfolding lru_linked_def fst_or_append last_or_append dlist_append
    using r1(3) r2 dist by simp
  then show ?thesis using r1(6) r2(6) by simp
qed

lemma removeAll_split: "distinct (as @ x # bs) \<Longrightarrow> removeAll x (as @ x # bs) = as @ bs"
  by simp

text \<open>The common first step of both pushes.\<close>

lemma lru_detach:
  fixes i :: u64
  assumes "lru_repr l xs"
  defines "l0 \<equiv> if lru_contains l i then lru_unlink l i else l"
  shows "lru_linked l0 (removeAll i xs) \<and> insert i (fst ` set (lru_nodes l0)) = insert i (set xs)"
proof (cases "i \<in> set xs")
  case True
  then obtain as bs where xs: "xs = as @ i # bs" by (meson split_list)
  have "lru_contains l i"
    using True assms(1) by (auto simp: lru_contains_def lru_repr_def map_of_eq_None_iff)
  moreover have "removeAll i xs = as @ bs"
    unfolding xs using assms(1) xs by (intro removeAll_split) (simp add: lru_repr_def lru_linked_def)
  ultimately show ?thesis
    using lru_unlink_linked [of l as i bs] assms(1) xs by (simp add: l0_def lru_repr_def)
next
  case False
  then have "\<not> lru_contains l i"
    using assms(1) by (auto simp: lru_contains_def lru_repr_def map_of_eq_None_iff)
  with False assms(1) show ?thesis by (simp add: l0_def lru_repr_def)
qed

lemma lru_push_front_repr:
  assumes "lru_repr l xs"
  shows "lru_repr (lru_push_front l i) (i # removeAll i xs)"
proof -
  define l0 where "l0 = (if lru_contains l i then lru_unlink l i else l)"
  define ys where "ys = removeAll i xs"
  have l0: "lru_linked l0 ys" "insert i (fst ` set (lru_nodes l0)) = insert i (set xs)"
    using lru_detach [OF assms] by (auto simp: l0_def ys_def)
  have i: "i \<notin> set ys" "insert i (set xs) = insert i (set ys)" by (auto simp: ys_def)
  let ?m = "map_of (lru_nodes l0)"
  show ?thesis
  proof (cases ys)
    case Nil
    with l0 i show ?thesis
      by (auto simp: lru_repr_def lru_linked_def lru_push_front_def l0_def [symmetric]
          ys_def [symmetric] Let_def keys_update distinct_keys_update)
  next
    case (Cons y zs)
    with l0(1) obtain nd where nd: "?m y = Some nd"
      and "dlist (?m(y \<mapsto> nd\<lparr>prev := Some i\<rparr>)) (Some i) ys None"
      using dlist_set_prev [of ?m None ys None y zs "Some i"] by (auto simp: lru_linked_def)
    moreover have "distinct (map fst (lru_nodes l0))" using l0(1) by (simp add: lru_linked_def)
    ultimately show ?thesis
      using Cons l0 i with_node_simps [OF nd, of "\<lambda>n. n\<lparr>prev := Some i\<rparr>"]
      by (auto simp: lru_repr_def lru_linked_def lru_push_front_def l0_def [symmetric]
          ys_def [symmetric] Let_def keys_update distinct_keys_update dlist_frame update_conv')
  qed
qed

lemma lru_push_back_repr:
  assumes "lru_repr l xs"
  shows "lru_repr (lru_push_back l i) (removeAll i xs @ [i])"
proof -
  define l0 where "l0 = (if lru_contains l i then lru_unlink l i else l)"
  define ys where "ys = removeAll i xs"
  have l0: "lru_linked l0 ys" "insert i (fst ` set (lru_nodes l0)) = insert i (set xs)"
    using lru_detach [OF assms] by (auto simp: l0_def ys_def)
  have i: "i \<notin> set ys" "insert i (set xs) = insert i (set ys)" by (auto simp: ys_def)
  let ?m = "map_of (lru_nodes l0)"
  show ?thesis
  proof (cases "ys = []")
    case True
    with l0 i show ?thesis
      by (auto simp: lru_repr_def lru_linked_def lru_push_back_def l0_def [symmetric]
          ys_def [symmetric] Let_def keys_update distinct_keys_update)
  next
    case False
    with l0(1) obtain nd where nd: "?m (last ys) = Some nd"
      and "dlist (?m(last ys \<mapsto> nd\<lparr>nxt := Some i\<rparr>)) None ys (Some i)"
      using dlist_set_next [of ?m None ys None "Some i"] by (auto simp: lru_linked_def)
    moreover have "distinct (map fst (lru_nodes l0))" using l0(1) by (simp add: lru_linked_def)
    ultimately show ?thesis
      using False l0 i with_node_simps [OF nd, of "\<lambda>n. n\<lparr>nxt := Some i\<rparr>"]
      by (auto simp: lru_repr_def lru_linked_def lru_push_back_def l0_def [symmetric]
          ys_def [symmetric] Let_def keys_update distinct_keys_update dlist_frame update_conv'
          dlist_append split: list.splits)
  qed
qed

lemma lru_contains_repr: "lru_repr l xs \<Longrightarrow> lru_contains l i \<longleftrightarrow> i \<in> set xs"
  by (auto simp: lru_contains_def lru_repr_def map_of_eq_None_iff)

lemma lru_remove_repr:
  assumes "lru_repr l xs"
  shows "lru_repr (snd (lru_remove l i)) (removeAll i xs)" and "fst (lru_remove l i) \<longleftrightarrow> i \<in> set xs"
proof -
  show "fst (lru_remove l i) \<longleftrightarrow> i \<in> set xs"
    using lru_contains_repr [OF assms] by (simp add: lru_remove_def Let_def)
  show "lru_repr (snd (lru_remove l i)) (removeAll i xs)"
  proof (cases "i \<in> set xs")
    case True
    let ?l = "lru_unlink l i"
    have "lru_linked ?l (removeAll i xs)" "insert i (fst ` set (lru_nodes ?l)) = insert i (set xs)"
      using lru_detach [OF assms, of i] True lru_contains_repr [OF assms] by auto
    then show ?thesis
      using True lru_contains_repr [OF assms]
      by (auto simp: lru_remove_def Let_def lru_repr_def lru_linked_def keys_delete
          distinct_keys_delete delete_conv' dlist_frame)
  next
    case False
    with assms show ?thesis using lru_contains_repr [OF assms] by (simp add: lru_remove_def)
  qed
qed

lemma lru_iter_dlist:
  "dlist (map_of (lru_nodes l)) p xs n \<Longrightarrow> length xs \<le> k \<Longrightarrow>
   lru_iter k l (last_or p xs) = rev xs @ lru_iter (k - length xs) l p"
proof (induction xs arbitrary: n k rule: rev_induct)
  case Nil
  then show ?case by simp
next
  case (snoc x xs)
  then obtain k' where k: "k = Suc k'" by (cases k) auto
  have x: "map_of (lru_nodes l) x = Some \<lparr>prev = last_or p xs, nxt = n\<rparr>"
    and xs: "dlist (map_of (lru_nodes l)) p xs (Some x)"
    using snoc.prems(1) by (simp_all add: dlist_append)
  have "lru_iter k' l (last_or p xs) = rev xs @ lru_iter (k' - length xs) l p"
    using snoc.IH [OF xs] snoc.prems(2) k by simp
  then show ?case using x k by (simp del: lru_iter.simps(2))
qed

lemma lru_repr_length: "lru_repr l xs \<Longrightarrow> length (lru_nodes l) = length xs"
  using distinct_card [of "map fst (lru_nodes l)"] distinct_card [of xs]
  by (simp add: lru_repr_def lru_linked_def)

lemma lru_iter_lru_to_mru_repr:
  assumes "lru_repr l xs"
  shows "iter_lru_to_mru l = rev xs"
proof -
  have "dlist (map_of (lru_nodes l)) None xs None" and "lru_tail l = last_or None xs"
    using assms by (auto simp: lru_repr_def lru_linked_def)
  then show ?thesis
    using lru_iter_dlist [of l None xs None "length xs"] lru_repr_length [OF assms]
    by (simp add: iter_lru_to_mru_def)
qed

definition lru_ok :: "lru_index \<Rightarrow> bool" where
  "lru_ok l \<longleftrightarrow> lru_repr l (rev (iter_lru_to_mru l))"

lemma lru_okI: "lru_repr l xs \<Longrightarrow> lru_ok l"
  by (simp add: lru_ok_def lru_iter_lru_to_mru_repr)

lemma lru_new_repr: "lru_repr lru_new []"
  by (simp add: lru_repr_def lru_linked_def lru_new_def)

interpretation lru: recency_list lru_new lru_push_front lru_push_back lru_remove lru_contains
  iter_lru_to_mru lru_ok
proof (unfold_locales, goal_cases)
  case 1
  show ?case using lru_new_repr by (rule lru_okI)
next
  case 2
  show ?case using lru_iter_lru_to_mru_repr [OF lru_new_repr] by simp
next
  case (3 l)
  then show ?case by (simp add: lru_ok_def lru_repr_def lru_linked_def)
next
  case (4 l i)
  then show ?case unfolding lru_ok_def [of l] by (rule lru_push_front_repr [THEN lru_okI])
next
  case (5 l i)
  then show ?case
    using lru_push_front_repr [THEN lru_iter_lru_to_mru_repr, of l "rev (iter_lru_to_mru l)" i]
    by (simp add: lru_ok_def removeAll_filter_not_eq rev_filter [symmetric])
next
  case (6 l i)
  then show ?case unfolding lru_ok_def [of l] by (rule lru_push_back_repr [THEN lru_okI])
next
  case (7 l i)
  then show ?case
    using lru_push_back_repr [THEN lru_iter_lru_to_mru_repr, of l "rev (iter_lru_to_mru l)" i]
    by (simp add: lru_ok_def removeAll_filter_not_eq rev_filter [symmetric])
next
  case (8 l i)
  then show ?case unfolding lru_ok_def [of l] by (rule lru_remove_repr(1) [THEN lru_okI])
next
  case (9 l i)
  then show ?case
    using lru_remove_repr(1) [THEN lru_iter_lru_to_mru_repr, of l "rev (iter_lru_to_mru l)" i]
    by (simp add: lru_ok_def removeAll_filter_not_eq rev_filter [symmetric])
next
  case (10 l i)
  then show ?case by (simp add: lru_ok_def lru_remove_repr(2))
next
  case (11 l i)
  then show ?case by (simp add: lru_ok_def lru_contains_repr)
qed

section \<open>Properties\<close>

text \<open>
  C22. The linked structure refines a plain list in eviction order: a touch moves an id to the most
  recent end, a push to the back to the least recent end, a removal takes it out and says whether
  it was there, and all of them keep the links well-formed.
\<close>

theorem lru_refines_list:
  assumes "lru_ok l"
  shows "lru_ok (lru_push_front l i) \<and> iter_lru_to_mru (lru_push_front l i) = removeAll i (iter_lru_to_mru l) @ [i] \<and>
    lru_ok (lru_push_back l i) \<and> iter_lru_to_mru (lru_push_back l i) = i # removeAll i (iter_lru_to_mru l) \<and>
    lru_ok (snd (lru_remove l i)) \<and> iter_lru_to_mru (snd (lru_remove l i)) = removeAll i (iter_lru_to_mru l) \<and>
    (fst (lru_remove l i) \<longleftrightarrow> i \<in> set (iter_lru_to_mru l)) \<and>
    (lru_contains l i \<longleftrightarrow> i \<in> set (iter_lru_to_mru l)) \<and> distinct (iter_lru_to_mru l)"
  using assms lru.front_invar lru.front_order lru.back_invar lru.back_order lru.remove_invar
    lru.remove_order lru.remove_found lru.contains_iff lru.order_distinct by simp

theorem lru_refines_list_witness:
  "iter_lru_to_mru (lru_push_front (lru_push_front (lru_push_front lru_new 1) 2) 1) = [2, 1]"
  using lru_refines_list [of "lru_push_front (lru_push_front lru_new 1) 2" 1]
  by (simp add: lru.front_invar lru.front_order lru.new_invar lru.new_order)

text \<open>After any sequence of touches of distinct pages, eviction meets the untouched ones first, then these in order.\<close>

theorem lru_touch_order:
  assumes "lru_ok l" and "distinct is"
  shows "lru_ok (foldl lru_push_front l is) \<and>
    iter_lru_to_mru (foldl lru_push_front l is) = [x \<leftarrow> iter_lru_to_mru l. x \<notin> set is] @ is"
  using assms by (rule lru.touch_all)

theorem lru_touch_order_witness:
  "iter_lru_to_mru (foldl lru_push_front lru_new [4, 8, 6]) = [4, 8, 6]"
  using lru_touch_order [of lru_new "[4, 8, 6]"] by (simp add: lru.new_invar lru.new_order)

end
