(* ===== verification/Chisel_Error.thy ===== *)
theory Chisel_Error
  imports Result_Monad
begin

text \<open>
  The error type of the engine (\<open>src/src/error.rs\<close>) and its classifier of fatal errors, with
  the superblock diagnosis types it carries (\<open>src/src/superblock/mod.rs\<close>). An
  \<open>std::io::Error\<close> is represented by its kind.
\<close>

datatype io_error = NotFound | PermissionDenied | AlreadyExists | UnexpectedEof | OtherIo

datatype superblock_defect =
    BadChecksum
  | BadMagic
  | BadCount u32
  | BadTxnCounter u64
  | TooShort

record slot_defect =
  sd_slot :: u32
  sd_defect :: superblock_defect

datatype chisel_error =
    InvalidHandle u64
  | NoActiveTransaction
  | TransactionAlreadyActive
  | SavepointNotFound string
  | DuplicateSavepoint string
  | ReadOnlyMode
  | FileNotFound
  | InvalidRootName
  | RootNameTableFull
  | InvalidSuperblockCount u32
  | InvalidArgon2Params u32 u32 u32
  | CacheFull nat
  | SpillwayFull u64
  | TransactionInProgress
  | TagMismatch u64 u32 u32
  | IoError io_error
  | ChecksumMismatch u64
  | CorruptSuperblock "slot_defect list"
  | FileSizeMismatch u64 u64
  | LockFailed
  | UnsupportedFormatVersion u32 u32
  | Poisoned
  | CorruptPage u64
  | InvalidPageId u64
  | UnsupportedPageSize u32 u32
  | InvalidFreemapDepth u32 u32
  | InvalidNextHandle u64 u64
  | TxnCounterExhausted u64
  | HandleSpaceExhausted u64
  | NoEncryptionKey
  | InvalidEncryptionKey
  | EncryptionNotSupported
  | NoFreeKeySlot
  | LastKeySlot
  | DecryptionFailed u64

text \<open>\<open>ChiselError::is_fatal\<close>: the variants that poison the manager.\<close>

fun is_fatal :: "chisel_error \<Rightarrow> bool" where
  "is_fatal (IoError _) = True"
| "is_fatal (ChecksumMismatch _) = True"
| "is_fatal (CorruptSuperblock _) = True"
| "is_fatal (FileSizeMismatch _ _) = True"
| "is_fatal LockFailed = True"
| "is_fatal (UnsupportedFormatVersion _ _) = True"
| "is_fatal (CorruptPage _) = True"
| "is_fatal (InvalidPageId _) = True"
| "is_fatal (UnsupportedPageSize _ _) = True"
| "is_fatal (InvalidFreemapDepth _ _) = True"
| "is_fatal (InvalidNextHandle _ _) = True"
| "is_fatal (TxnCounterExhausted _) = True"
| "is_fatal (HandleSpaceExhausted _) = True"
| "is_fatal (DecryptionFailed _) = True"
| "is_fatal _ = False"

text \<open>\<open>impl From<io::Error> for ChiselError\<close>: what \<open>?\<close> does to a file-system error.\<close>

definition from_io_error :: "io_error \<Rightarrow> chisel_error" where
  "from_io_error e = (case e of NotFound \<Rightarrow> FileNotFound | _ \<Rightarrow> IoError e)"

end
