(* ===== verification/Page_Format.thy ===== *)
theory Page_Format
  imports Chisel_Error
begin

unbundle bit_operations_syntax

text \<open>
  The on-disk page format of \<open>src/src/page.rs\<close>: sizes, type tags, the packed format version and
  the checksum in the last eight bytes of every page. The hash itself (\<open>xxh3_64\<close>, a third-party
  crate) is the parameter \<open>xxh\<close> of the checksum functions.
\<close>

type_synonym page = "u8 list"

type_synonym hash64 = "u8 list \<Rightarrow> u64"

definition PAGE_SIZE :: nat where
  [simp]: "PAGE_SIZE = 8192"

definition CHECKSUM_SIZE :: nat where
  [simp]: "CHECKSUM_SIZE = 8"

definition CHECKSUM_OFFSET :: nat where
  [simp]: "CHECKSUM_OFFSET = PAGE_SIZE - CHECKSUM_SIZE"

definition DATA_PAGE_HEADER_SIZE :: nat where
  [simp]: "DATA_PAGE_HEADER_SIZE = 16"

definition PAGE_BODY_SIZE :: nat where
  [simp]: "PAGE_BODY_SIZE = PAGE_SIZE - DATA_PAGE_HEADER_SIZE - CHECKSUM_SIZE"

definition PAGE_FORMAT_VERSION_CURRENT :: u8 where
  [simp]: "PAGE_FORMAT_VERSION_CURRENT = 0"

definition MAGIC :: u32 where
  "MAGIC = 0x4348534C"

definition PAGE_ID_NONE :: u64 where
  "PAGE_ID_NONE = u64_max"

abbreviation zero_page :: page where
  "zero_page \<equiv> replicate PAGE_SIZE 0"

section \<open>Format versions\<close>

definition pack_format_version :: "u16 \<Rightarrow> u16 \<Rightarrow> u32" where
  "pack_format_version major minor = push_bit 16 (ucast major) OR ucast minor"

definition format_major :: "u32 \<Rightarrow> u16" where
  "format_major version = ucast (drop_bit 16 version)"

definition format_minor :: "u32 \<Rightarrow> u16" where
  "format_minor version = ucast (version AND 0xFFFF)"

definition FORMAT_MAJOR_VERSION :: u16 where
  "FORMAT_MAJOR_VERSION = 1"

definition FORMAT_MINOR_VERSION :: u16 where
  "FORMAT_MINOR_VERSION = 1"

definition FORMAT_MAJOR_VERSION_ENCRYPTED :: u16 where
  "FORMAT_MAJOR_VERSION_ENCRYPTED = 2"

definition FORMAT_MINOR_VERSION_ENCRYPTED :: u16 where
  "FORMAT_MINOR_VERSION_ENCRYPTED = 0"

definition FORMAT_VERSION :: u32 where
  "FORMAT_VERSION = pack_format_version FORMAT_MAJOR_VERSION FORMAT_MINOR_VERSION"

definition format_version_encrypted :: u32 where
  "format_version_encrypted =
     pack_format_version FORMAT_MAJOR_VERSION_ENCRYPTED FORMAT_MINOR_VERSION_ENCRYPTED"

section \<open>Page types\<close>

datatype page_type =
    HandleTable
  | Data
  | Overflow
  | FreeMap
  | MembershipInterior
  | MembershipLeaf
  | FreeMapInterior

fun page_type_tag :: "page_type \<Rightarrow> u8" where
  \<comment> \<open>the \<open>repr(u8)\<close> discriminants\<close>
  "page_type_tag HandleTable = 0x01"
| "page_type_tag Data = 0x02"
| "page_type_tag Overflow = 0x03"
| "page_type_tag FreeMap = 0x04"
| "page_type_tag MembershipInterior = 0x05"
| "page_type_tag MembershipLeaf = 0x06"
| "page_type_tag FreeMapInterior = 0x07"

definition current_version :: "page_type \<Rightarrow> u8" where
  "current_version t = PAGE_FORMAT_VERSION_CURRENT"

definition page_format_version :: "page \<Rightarrow> u8" where
  "page_format_version buf = (if buf ! 0 = page_type_tag HandleTable then buf ! 2 else buf ! 1)"

section \<open>Checksums\<close>

definition compute_checksum :: "hash64 \<Rightarrow> page \<Rightarrow> u64" where
  "compute_checksum xxh buf = xxh (take CHECKSUM_OFFSET buf)"

definition stamp_checksum :: "hash64 \<Rightarrow> page \<Rightarrow> page" where
  "stamp_checksum xxh buf = put_u64 CHECKSUM_OFFSET (compute_checksum xxh buf) buf"

definition verify_checksum :: "hash64 \<Rightarrow> page \<Rightarrow> bool" where
  "verify_checksum xxh buf \<longleftrightarrow> get_u64 CHECKSUM_OFFSET buf = compute_checksum xxh buf"

section \<open>Facts\<close>

text \<open>A page is a buffer of exactly \<open>PAGE_SIZE\<close> bytes; its body is everything the checksum covers.\<close>

abbreviation page_ok :: "page \<Rightarrow> bool" where
  "page_ok buf \<equiv> length buf = 8192"

abbreviation page_body :: "page \<Rightarrow> u8 list" where
  "page_body buf \<equiv> take 8184 buf"

lemma format_major_pack: "format_major (pack_format_version major minor) = major"
  by (rule bit_word_eqI)
    (auto simp: format_major_def pack_format_version_def bit_simps dest: bit_imp_le_length)

lemma format_minor_mask: "format_minor version = ucast (version AND mask 16)"
  by (simp add: format_minor_def mask_eq_exp_minus_1)

lemma format_minor_pack: "format_minor (pack_format_version major minor) = minor"
  by (rule bit_word_eqI)
    (auto simp: format_minor_mask pack_format_version_def bit_simps dest: bit_imp_le_length)

lemma page_type_tag_inject: "page_type_tag s = page_type_tag t \<longleftrightarrow> s = t"
  by (cases s; cases t) simp_all

lemma page_type_tag_nonzero: "page_type_tag t \<noteq> 0"
  by (cases t) simp_all

lemma page_ok_stamp [simp]: "page_ok buf \<Longrightarrow> page_ok (stamp_checksum xxh buf)"
  by (simp add: stamp_checksum_def)

lemma page_body_stamp [simp]: "page_ok buf \<Longrightarrow> page_body (stamp_checksum xxh buf) = page_body buf"
  by (simp add: stamp_checksum_def put_u64_def take_put_bytes_low)

lemma verify_stamp [simp]: "page_ok buf \<Longrightarrow> verify_checksum xxh (stamp_checksum xxh buf)"
proof -
  assume p: "page_ok buf"
  then have "compute_checksum xxh (stamp_checksum xxh buf) = compute_checksum xxh buf"
    by (simp add: compute_checksum_def)
  with p show ?thesis
    by (simp add: verify_checksum_def stamp_checksum_def byte_simps)
qed

lemma page_split: "page_ok buf \<Longrightarrow> buf = page_body buf @ get_bytes CHECKSUM_OFFSET 8 buf"
  by (simp add: get_bytes_def)

lemma verified_page_eq:
  assumes "page_ok a" and "page_ok b" and "verify_checksum xxh a" and "verify_checksum xxh b"
    and "page_body a = page_body b"
  shows "a = b"
proof -
  have "get_u64 CHECKSUM_OFFSET a = get_u64 CHECKSUM_OFFSET b"
    using assms(3-5) by (simp add: verify_checksum_def compute_checksum_def)
  then have "to_le_bytes (get_u64 CHECKSUM_OFFSET a) = to_le_bytes (get_u64 CHECKSUM_OFFSET b)"
    by simp
  then have "get_bytes CHECKSUM_OFFSET 8 a = get_bytes CHECKSUM_OFFSET 8 b"
    using assms(1,2) by (simp add: get_u64_def to_from_le_bytes_u64)
  then show ?thesis
    using page_split [OF assms(1)] page_split [OF assms(2)] assms(5) by metis
qed

lemma stamp_verified: "page_ok buf \<Longrightarrow> verify_checksum xxh buf \<Longrightarrow> stamp_checksum xxh buf = buf"
  by (rule verified_page_eq [where xxh = xxh]) (simp_all)

lemma stamp_cong:
  "page_ok a \<Longrightarrow> page_ok b \<Longrightarrow> page_body a = page_body b \<Longrightarrow>
   stamp_checksum xxh a = stamp_checksum xxh b"
  by (rule verified_page_eq [where xxh = xxh]) (simp_all)

text \<open>Two pages that agree on their bodies give the same answers to every read below the checksum.\<close>

lemma nth_body: "page_body a = page_body b \<Longrightarrow> i < 8184 \<Longrightarrow> a ! i = b ! i"
  by (drule arg_cong [where f = "\<lambda>xs. xs ! i"]) simp

lemma get_body:
  assumes "page_body a = page_body b"
  shows "p + n \<le> 8184 \<Longrightarrow> get_bytes p n a = get_bytes p n b"
    and "p + 2 \<le> 8184 \<Longrightarrow> get_u16 p a = get_u16 p b"
    and "p + 4 \<le> 8184 \<Longrightarrow> get_u32 p a = get_u32 p b"
    and "p + 8 \<le> 8184 \<Longrightarrow> get_u64 p a = get_u64 p b"
  using assms get_bytes_take [of p _ 8184 a] get_bytes_take [of p _ 8184 b]
    get_uint_take [of p 8184 a] get_uint_take [of p 8184 b]
  by simp_all

section \<open>Properties\<close>

text \<open>Packing a format version and taking it apart gives both components back.\<close>

theorem format_version_roundtrip:
  "format_major (pack_format_version major minor) = major \<and> format_minor (pack_format_version major minor) = minor"
  by (simp add: format_major_pack format_minor_pack)

text \<open>
  Stamping leaves the body alone, makes the page verify, and yields the only page with that
  body that verifies: two verified pages differ in their bodies or not at all.
\<close>

theorem stamped_page_unique:
  assumes "page_ok buf"
  shows "page_ok (stamp_checksum xxh buf) \<and> page_body (stamp_checksum xxh buf) = page_body buf \<and>
    verify_checksum xxh (stamp_checksum xxh buf) \<and>
    (\<forall>c. page_ok c \<and> page_body c = page_body buf \<and> verify_checksum xxh c \<longrightarrow> c = stamp_checksum xxh buf)"
proof (intro conjI allI impI)
  fix c assume c: "page_ok c \<and> page_body c = page_body buf \<and> verify_checksum xxh c"
  show "c = stamp_checksum xxh buf"
    by (rule verified_page_eq [where xxh = xxh]) (use assms c in simp_all)
qed (use assms in simp_all)

theorem stamped_page_unique_witness:
  "verify_checksum (\<lambda>_. 7) (stamp_checksum (\<lambda>_. 7) zero_page)"
proof -
  have "page_ok zero_page" by simp
  from stamped_page_unique [OF this, of "\<lambda>_. 7"] show ?thesis by (elim conjE)
qed

end
