(* ===== verification/Os_World.thy ===== *)
theory Os_World
  imports Chisel_Error Page_Format
begin

text \<open>
  The code outside the repository that the engine calls, as one record of parameters: the hash
  crate, the AEAD crate, the operating system's random generator and its file system. The file
  system is deterministic but for failures: \<open>w_fault d k\<close> says whether, and how, the \<open>k\<close>-th call on
  the device \<open>d\<close> fails, and \<open>w_short d k\<close> how many bytes of a failing write reached the file.
  \<open>world_ok\<close> collects what the engine relies on, each clause documented behaviour of the crate.
\<close>

datatype device = MainFile | SpillFile

record world =
  w_xxh :: hash64
  w_encrypt :: "u8 list \<Rightarrow> u8 list \<Rightarrow> u8 list \<Rightarrow> u8 list \<Rightarrow> u8 list \<times> u8 list"
    \<comment> \<open>key, nonce, associated data, plaintext; ciphertext and tag\<close>
  w_decrypt :: "u8 list \<Rightarrow> u8 list \<Rightarrow> u8 list \<Rightarrow> u8 list \<Rightarrow> u8 list \<Rightarrow> u8 list option"
    \<comment> \<open>key, nonce, associated data, ciphertext, tag; plaintext unless authentication fails\<close>
  w_random :: "nat \<Rightarrow> nat \<Rightarrow> u8 list option"
    \<comment> \<open>the bytes of the \<open>k\<close>-th draw, \<open>None\<close> when the generator is unavailable\<close>
  w_hkdf :: "u8 list \<Rightarrow> u8 list \<Rightarrow> u8 list \<Rightarrow> u8 list option"
    \<comment> \<open>salt, key material, info; 32 bytes of output\<close>
  w_argon2 :: "u32 \<Rightarrow> u32 \<Rightarrow> u32 \<Rightarrow> u8 list \<Rightarrow> u8 list \<Rightarrow> u8 list option"
    \<comment> \<open>memory, iterations and lanes, passphrase, salt; 32 bytes unless the crate rejects them\<close>
  w_fault :: "device \<Rightarrow> nat \<Rightarrow> io_error option"
  w_short :: "device \<Rightarrow> nat \<Rightarrow> nat"
  w_sidecar_ours :: "nat \<Rightarrow> bool"
    \<comment> \<open>a stale sidecar is a plain file with one link, owned by this user\<close>

definition aead_ok :: "world \<Rightarrow> bool" where
  "aead_ok w \<longleftrightarrow>
     (\<forall>key nonce aad pt. case w_encrypt w key nonce aad pt of (ct, tag) \<Rightarrow>
        length ct = length pt \<and> length tag = 16 \<and> w_decrypt w key nonce aad ct tag = Some pt) \<and>
     (\<forall>key nonce aad ct tag pt. w_decrypt w key nonce aad ct tag = Some pt \<longrightarrow> length pt = length ct)"

definition rng_ok :: "world \<Rightarrow> bool" where
  "rng_ok w \<longleftrightarrow> (\<forall>k n. \<exists>b. w_random w k n = Some b \<and> length b = n)"

definition world_ok :: "world \<Rightarrow> bool" where
  "world_ok w \<longleftrightarrow> aead_ok w \<and> rng_ok w"

definition no_faults :: "world \<Rightarrow> bool" where
  "no_faults w \<longleftrightarrow> (\<forall>d k. w_fault w d k = None)"

text \<open>A concrete world: an additive hash, the identity cipher with a zero tag, no failures.\<close>

definition toy_world :: world where
  "toy_world = \<lparr>w_xxh = sum_list \<circ> map (\<lambda>b. ucast b),
     w_encrypt = (\<lambda>key nonce aad pt. (pt, replicate 16 0)),
     w_decrypt = (\<lambda>key nonce aad ct tag. Some ct),
     w_random = (\<lambda>k n. Some (replicate n 0)),
     w_hkdf = (\<lambda>salt ikm info. Some (take 32 (ikm @ salt @ replicate 32 0))),
     w_argon2 = (\<lambda>m t p pw salt. Some (take 32 (pw @ salt @ replicate 32 0))),
     w_fault = (\<lambda>d k. None), w_short = (\<lambda>d k. 0), w_sidecar_ours = (\<lambda>k. True)\<rparr>"

lemma toy_world_ok: "world_ok toy_world"
  by (simp add: world_ok_def aead_ok_def rng_ok_def toy_world_def)

lemma toy_world_no_faults: "no_faults toy_world"
  by (simp add: no_faults_def toy_world_def)

lemma encrypt_decrypt:
  assumes "aead_ok w" and "w_encrypt w key nonce aad pt = (ct, tag)"
  shows "length ct = length pt" and "length tag = 16" and "w_decrypt w key nonce aad ct tag = Some pt"
proof -
  have "case w_encrypt w key nonce aad pt of (ct, tag) \<Rightarrow>
      length ct = length pt \<and> length tag = 16 \<and> w_decrypt w key nonce aad ct tag = Some pt"
    using assms(1) [unfolded aead_ok_def, THEN conjunct1, THEN spec, THEN spec, THEN spec, THEN spec] .
  then show "length ct = length pt" and "length tag = 16" and "w_decrypt w key nonce aad ct tag = Some pt"
    by (simp_all add: assms(2))
qed

lemma rng_okE:
  assumes "rng_ok w"
  obtains b where "w_random w k n = Some b" and "length b = n"
  using assms by (auto simp: rng_ok_def)

section \<open>Files and growable buffers as byte lists\<close>

text \<open>\<open>Vec::resize\<close>, \<open>File::set_len\<close>\<close>

definition resize :: "nat \<Rightarrow> u8 list \<Rightarrow> u8 list" where
  "resize n xs = take n xs @ replicate (n - length xs) 0"

text \<open>A write at an offset: a gap past the end of the file reads as zeros.\<close>

definition pwrite :: "nat \<Rightarrow> u8 list \<Rightarrow> u8 list \<Rightarrow> u8 list" where
  "pwrite off bs xs = (if bs = [] then xs else put_bytes off bs (resize (max (length xs) (off + length bs)) xs))"

lemma length_resize [simp]: "length (resize n xs) = n"
  by (simp add: resize_def)

lemma length_pwrite: "bs \<noteq> [] \<Longrightarrow> length (pwrite off bs xs) = max (length xs) (off + length bs)"
  by (simp add: pwrite_def)

lemma length_pwrite_ge: "length xs \<le> length (pwrite off bs xs)"
  by (cases "bs = []") (simp_all add: pwrite_def)

lemma resize_id: "resize (length xs) xs = xs"
  by (simp add: resize_def)

lemma get_bytes_resize: "off + n \<le> m \<Longrightarrow> off + n \<le> length xs \<Longrightarrow> get_bytes off n (resize m xs) = get_bytes off n xs"
  by (simp add: resize_def get_bytes_append1 get_bytes_take)

lemma get_pwrite_same: "get_bytes off (length bs) (pwrite off bs xs) = bs"
  by (cases "bs = []") (simp_all add: pwrite_def get_put_bytes_same, simp add: get_bytes_def)

lemma get_pwrite_other:
  assumes "p + n \<le> off \<or> off + length bs \<le> p" and "p + n \<le> length xs"
  shows "get_bytes p n (pwrite off bs xs) = get_bytes p n xs"
  using assms by (cases "bs = []") (simp_all add: pwrite_def get_put_bytes_other get_bytes_resize)

lemma nth_resize: "k < n \<Longrightarrow> resize n xs ! k = (if k < length xs then xs ! k else 0)"
  by (auto simp: resize_def nth_append)

lemma nth_pwrite:
  "k < length (pwrite off bs xs) \<Longrightarrow>
   pwrite off bs xs ! k =
     (if off \<le> k \<and> k < off + length bs then bs ! (k - off) else if k < length xs then xs ! k else 0)"
  by (cases "bs = []") (auto simp: pwrite_def nth_put_bytes nth_resize)

lemma pwrite_append: "pwrite (off + length as) bs (pwrite off as xs) = pwrite off (as @ bs) xs"
proof (cases "as = [] \<or> bs = []")
  case True
  then show ?thesis by (auto simp: pwrite_def)
next
  case False
  show ?thesis
  proof (rule nth_equalityI)
    show len: "length (pwrite (off + length as) bs (pwrite off as xs)) = length (pwrite off (as @ bs) xs)"
      using False by (simp add: length_pwrite)
    fix k assume "k < length (pwrite (off + length as) bs (pwrite off as xs))"
    then show "pwrite (off + length as) bs (pwrite off as xs) ! k = pwrite off (as @ bs) xs ! k"
      using False len by (auto simp: nth_pwrite nth_append length_pwrite)
  qed
qed

lemma get_pwrite_inside:
  assumes "off \<le> p" and "p + n \<le> off + length bs" and "bs \<noteq> []"
  shows "get_bytes p n (pwrite off bs xs) = get_bytes (p - off) n bs"
  using assms by (simp add: pwrite_def get_put_bytes_inside)

end
