(* ===== verification/Page_Crypto.thy ===== *)
theory Page_Crypto
  imports Os_World
begin

text \<open>
  The crypto core of \<open>src/src/crypto/mod.rs\<close>: the envelope (key derivation, wrapping of the data
  key) and the page cipher. The primitives are parameters (\<open>world\<close>); what is modelled is how the
  code composes them: byte layouts, nonces, associated data, cost bounds. Key material is a byte
  list; wiping it is not observable. A draw of random bytes is numbered, and an unavailable
  generator, which panics, is \<open>None\<close>.
\<close>

section \<open>Definitions\<close>

definition ENC_PAGE_SIZE :: nat where [simp]: "ENC_PAGE_SIZE = 8232"
definition NONCE_LEN :: nat where [simp]: "NONCE_LEN = 24"
definition TAG_LEN :: nat where [simp]: "TAG_LEN = 16"
definition DEK_LEN :: nat where [simp]: "DEK_LEN = 32"
definition SALT_LEN :: nat where [simp]: "SALT_LEN = 16"

datatype key = Raw "u8 list" | Passphrase "u8 list"

datatype kdf_id = Hkdf | Argon2id

record argon2_params =
  m_cost :: u32
  t_cost :: u32
  p_cost :: u32

definition argon2_params_default :: argon2_params where
  "argon2_params_default = \<lparr>m_cost = 19456, t_cost = 2, p_cost = 1\<rparr>"

datatype crypto_error = Auth | Kdf | BadKeyLength

definition KEK_INFO :: "u8 list" where
  "KEK_INFO = map (\<lambda>c. of_char c) ''chisel-kek-v1''"

definition MAX_ARGON2_M_COST :: u32 where "MAX_ARGON2_M_COST = 262144"
definition MAX_ARGON2_T_COST :: u32 where "MAX_ARGON2_T_COST = 16"
definition MAX_ARGON2_P_COST :: u32 where "MAX_ARGON2_P_COST = 16"
definition MIN_ARGON2_M_COST :: u32 where "MIN_ARGON2_M_COST = 8"
definition MIN_ARGON2_T_COST :: u32 where "MIN_ARGON2_T_COST = 1"
definition MIN_ARGON2_P_COST :: u32 where "MIN_ARGON2_P_COST = 1"

definition argon2_params_out_of_range :: "argon2_params \<Rightarrow> bool" where
  "argon2_params_out_of_range p \<longleftrightarrow>
     m_cost p < MIN_ARGON2_M_COST \<or> MAX_ARGON2_M_COST < m_cost p \<or>
     t_cost p < MIN_ARGON2_T_COST \<or> MAX_ARGON2_T_COST < t_cost p \<or>
     p_cost p < MIN_ARGON2_P_COST \<or> MAX_ARGON2_P_COST < p_cost p \<or>
     m_cost p < saturating_mul (p_cost p) 8"

definition derive_kek :: "world \<Rightarrow> key \<Rightarrow> kdf_id \<Rightarrow> u8 list \<Rightarrow> argon2_params \<Rightarrow> crypto_error + u8 list" where
  "derive_kek w key kdf salt params =
     (let ikm = (case key of Raw bytes \<Rightarrow> bytes | Passphrase s \<Rightarrow> s)
      in if ikm = [] then Inl BadKeyLength
         else case kdf of
           Hkdf \<Rightarrow> (case w_hkdf w salt ikm KEK_INFO of None \<Rightarrow> Inl Kdf | Some okm \<Rightarrow> Inr okm)
         | Argon2id \<Rightarrow>
             if MAX_ARGON2_M_COST < m_cost params \<or> MAX_ARGON2_T_COST < t_cost params \<or>
                MAX_ARGON2_P_COST < p_cost params
             then Inl Kdf
             else (case w_argon2 w (m_cost params) (t_cost params) (p_cost params) ikm salt of
                     None \<Rightarrow> Inl Kdf | Some okm \<Rightarrow> Inr okm))"

definition seal_detached :: "world \<Rightarrow> u8 list \<Rightarrow> u8 list \<Rightarrow> u8 list \<Rightarrow> u8 list \<Rightarrow> u8 list \<times> u8 list" where
  "seal_detached w key nonce aad plaintext = w_encrypt w key nonce aad plaintext"

definition open_detached ::
  "world \<Rightarrow> u8 list \<Rightarrow> u8 list \<Rightarrow> u8 list \<Rightarrow> u8 list \<Rightarrow> u8 list \<Rightarrow> crypto_error + u8 list" where
  "open_detached w key nonce aad ciphertext tag =
     (case w_decrypt w key nonce aad ciphertext tag of None \<Rightarrow> Inl Auth | Some pt \<Rightarrow> Inr pt)"

definition wrap_dek :: "world \<Rightarrow> u8 list \<Rightarrow> u8 list \<Rightarrow> u8 list \<Rightarrow> u8 list \<Rightarrow> u8 list \<times> u8 list" where
  "wrap_dek w kek dek wrap_nonce aad = seal_detached w kek wrap_nonce aad dek"

definition unwrap_dek ::
  "world \<Rightarrow> u8 list \<Rightarrow> u8 list \<Rightarrow> u8 list \<Rightarrow> u8 list \<Rightarrow> u8 list \<Rightarrow> crypto_error + u8 list" where
  "unwrap_dek w kek wrapped tag wrap_nonce aad = open_detached w kek wrap_nonce aad wrapped tag"

definition random_array :: "world \<Rightarrow> nat \<Rightarrow> nat \<Rightarrow> u8 list option" where
  "random_array w k n = w_random w k n"

definition page_cipher_seal :: "world \<Rightarrow> u8 list \<Rightarrow> nat \<Rightarrow> u64 \<Rightarrow> page \<Rightarrow> u8 list option" where
  "page_cipher_seal w dek k page_id plaintext =
     (case random_array w k NONCE_LEN of
        None \<Rightarrow> None
      | Some nonce \<Rightarrow>
          (case seal_detached w dek nonce (to_le_bytes page_id) plaintext of
             (ct, tag) \<Rightarrow>
               Some (put_bytes 8208 nonce (put_bytes 8192 tag (put_bytes 0 ct (replicate ENC_PAGE_SIZE 0))))))"

definition page_cipher_open :: "world \<Rightarrow> u8 list \<Rightarrow> u64 \<Rightarrow> u8 list \<Rightarrow> crypto_error + page" where
  "page_cipher_open w dek page_id ondisk =
     (let ct = get_bytes 0 8192 ondisk;
          tag = get_bytes 8192 TAG_LEN ondisk;
          nonce = get_bytes 8208 NONCE_LEN ondisk
      in open_detached w dek nonce (to_le_bytes page_id) ct tag)"

definition page_cipher_seal_body ::
  "world \<Rightarrow> u8 list \<Rightarrow> nat \<Rightarrow> u8 list \<Rightarrow> u8 list \<Rightarrow> (u8 list \<times> u8 list \<times> u8 list) option" where
  "page_cipher_seal_body w dek k aad plaintext =
     (case random_array w k NONCE_LEN of
        None \<Rightarrow> None
      | Some nonce \<Rightarrow> (case seal_detached w dek nonce aad plaintext of (ct, tag) \<Rightarrow> Some (nonce, tag, ct)))"

definition page_cipher_open_body ::
  "world \<Rightarrow> u8 list \<Rightarrow> u8 list \<Rightarrow> u8 list \<Rightarrow> u8 list \<Rightarrow> u8 list \<Rightarrow> crypto_error + u8 list" where
  "page_cipher_open_body w dek aad nonce tag ct = open_detached w dek nonce aad ct tag"

section \<open>Round trips\<close>

lemma open_seal_detached:
  "aead_ok w \<Longrightarrow> seal_detached w key nonce aad pt = (ct, tag) \<Longrightarrow> open_detached w key nonce aad ct tag = Inr pt"
  by (simp add: seal_detached_def open_detached_def encrypt_decrypt)

lemma page_cipher_seal_open:
  assumes "world_ok w" and "page_ok pt"
  obtains blob where "page_cipher_seal w dek k page_id pt = Some blob" and "length blob = ENC_PAGE_SIZE"
    and "page_cipher_open w dek page_id blob = Inr pt"
proof -
  from assms obtain nonce where n: "w_random w k 24 = Some nonce" "length nonce = 24"
    by (auto simp: world_ok_def elim: rng_okE)
  obtain ct tag where e: "w_encrypt w dek nonce (to_le_bytes page_id) pt = (ct, tag)" by fastforce
  have l: "length ct = 8192" "length tag = 16"
    and d: "w_decrypt w dek nonce (to_le_bytes page_id) ct tag = Some pt"
    using encrypt_decrypt [OF _ e] assms by (auto simp: world_ok_def)
  let ?blob = "put_bytes 8208 nonce (put_bytes 8192 tag (put_bytes 0 ct (replicate ENC_PAGE_SIZE 0)))"
  have "page_cipher_seal w dek k page_id pt = Some ?blob"
    using n e by (simp add: page_cipher_seal_def random_array_def seal_detached_def)
  moreover have "page_cipher_open w dek page_id ?blob = Inr pt"
    using n l d by (simp add: page_cipher_open_def Let_def get_put_bytes_other get_put_bytes_same open_detached_def)
  moreover have "length ?blob = ENC_PAGE_SIZE" using n l by simp
  ultimately show ?thesis by (intro that)
qed

lemma page_cipher_open_ok:
  "aead_ok w \<Longrightarrow> length ondisk = ENC_PAGE_SIZE \<Longrightarrow> page_cipher_open w dek page_id ondisk = Inr pt \<Longrightarrow> page_ok pt"
  by (auto simp: page_cipher_open_def open_detached_def Let_def aead_ok_def get_bytes_def split: option.splits)

section \<open>Properties\<close>

text \<open>
  C35. Sealing a page and opening the blob under the same key and page id gives the page back, and a
  blob has exactly the encrypted stride, for every draw of the generator.
\<close>

theorem seal_open_roundtrip:
  assumes "world_ok w" and "page_ok pt"
  shows "\<exists>blob. page_cipher_seal w dek k page_id pt = Some blob \<and> length blob = ENC_PAGE_SIZE \<and>
    page_cipher_open w dek page_id blob = Inr pt"
  by (rule page_cipher_seal_open [OF assms, where dek = dek and k = k and page_id = page_id]) blast

theorem seal_open_roundtrip_witness:
  "\<exists>blob. page_cipher_seal toy_world [1] 0 7 zero_page = Some blob \<and> page_cipher_open toy_world [1] 7 blob = Inr zero_page"
proof -
  have "page_ok zero_page" by simp
  from seal_open_roundtrip [OF toy_world_ok this, of "[1]" 0 7] show ?thesis by blast
qed

text \<open>
  Cost parameters that pass the range check are never refused by the key derivation itself:
  with a non-empty passphrase the outcome is the one of the Argon2 implementation, called within
  the advertised bounds and with at least eight blocks per lane.
\<close>

theorem accepted_params_derive:
  assumes "\<not> argon2_params_out_of_range p" and "pw \<noteq> []"
  shows "derive_kek w (Passphrase pw) Argon2id salt p =
      (case w_argon2 w (m_cost p) (t_cost p) (p_cost p) pw salt of None \<Rightarrow> Inl Kdf | Some okm \<Rightarrow> Inr okm) \<and>
    unat (m_cost p) \<le> 262144 \<and> 1 \<le> unat (t_cost p) \<and> unat (t_cost p) \<le> 16 \<and> 1 \<le> unat (p_cost p) \<and>
    unat (p_cost p) \<le> 16 \<and> 8 * unat (p_cost p) \<le> unat (m_cost p)"
proof -
  note d = argon2_params_out_of_range_def MAX_ARGON2_M_COST_def MAX_ARGON2_T_COST_def MAX_ARGON2_P_COST_def
    MIN_ARGON2_M_COST_def MIN_ARGON2_T_COST_def MIN_ARGON2_P_COST_def
  have r: "\<not> MAX_ARGON2_M_COST < m_cost p" "\<not> MAX_ARGON2_T_COST < t_cost p" "\<not> MAX_ARGON2_P_COST < p_cost p"
    "MIN_ARGON2_T_COST \<le> t_cost p" "MIN_ARGON2_P_COST \<le> p_cost p" "saturating_mul (p_cost p) 8 \<le> m_cost p"
    using assms(1) by (auto simp: argon2_params_out_of_range_def)
  have n: "unat (m_cost p) \<le> 262144" "unat (t_cost p) \<le> 16" "unat (p_cost p) \<le> 16"
    "1 \<le> unat (t_cost p)" "1 \<le> unat (p_cost p)"
    using r(1-5) by (simp_all add: d not_less word_le_nat_alt)
  have "min (2 ^ 32 - 1) (unat (p_cost p) * 8) \<le> unat (m_cost p)"
    using r(6) by (simp add: word_le_nat_alt unat_saturating_mul)
  then have "8 * unat (p_cost p) \<le> unat (m_cost p)" using n(3) by simp
  with n r(1-3) assms(2) show ?thesis by (simp add: derive_kek_def Let_def)
qed

theorem accepted_params_derive_witness:
  "derive_kek toy_world (Passphrase [1]) Argon2id [] argon2_params_default =
     (case w_argon2 toy_world 19456 2 1 [1] [] of None \<Rightarrow> Inl Kdf | Some okm \<Rightarrow> Inr okm)"
proof -
  have "\<not> argon2_params_out_of_range argon2_params_default"
    by (simp add: argon2_params_out_of_range_def argon2_params_default_def saturating_mul_def MAX_ARGON2_M_COST_def
        MAX_ARGON2_T_COST_def MAX_ARGON2_P_COST_def MIN_ARGON2_M_COST_def MIN_ARGON2_T_COST_def MIN_ARGON2_P_COST_def)
  from accepted_params_derive [OF this, of "[1]" toy_world "[]"] show ?thesis by (simp add: argon2_params_default_def)
qed

end
