(* ===== verification/Page_Io.thy ===== *)
theory Page_Io
  imports Os_World
begin

text \<open>
  The raw page device of \<open>src/src/page_io.rs\<close>: a file or an in-memory buffer addressed in fixed
  units of \<open>stride\<close> bytes. Both backings hold a byte list; only the file consults the operating
  system. Offsets are 64-bit products that wrap, as in a release build. A slice out of the memory
  buffer's range panics. \<open>io_log\<close> and \<open>os_calls\<close> are ghost fields: the trace of what reached the
  device, in order, and the number of system calls made.
\<close>

section \<open>Definitions\<close>

datatype backing = File "u8 list" | Memory "u8 list"

datatype io_event = WroteAt nat "u8 list" | SetLen nat | Fsynced

record page_io =
  backing :: backing
  read_only :: bool
  stride :: nat
  fsync_calls :: u64
  cached_page_count :: u64
  os_calls :: nat
  io_log :: "io_event list"

fun backing_bytes :: "backing \<Rightarrow> u8 list" where
  "backing_bytes (File bs) = bs"
| "backing_bytes (Memory bs) = bs"

abbreviation io_bytes :: "page_io \<Rightarrow> u8 list" where
  "io_bytes io \<equiv> backing_bytes (backing io)"

text \<open>One system call on the main file.\<close>

definition os_call :: "world \<Rightarrow> (page_io, chisel_error, unit) op" where
  "os_call w = (\<lambda>io. (case w_fault w MainFile (os_calls io) of None \<Rightarrow> Ok () | Some e \<Rightarrow> Err (from_io_error e),
     io\<lparr>os_calls := Suc (os_calls io)\<rparr>))"

text \<open>\<open>write_all\<close> at the current position: when it fails, a prefix may have been written.\<close>

definition os_write :: "world \<Rightarrow> nat \<Rightarrow> u8 list \<Rightarrow> (page_io, chisel_error, unit) op" where
  "os_write w off blob = (\<lambda>io.
     let k = os_calls io;
         io' = io\<lparr>os_calls := Suc k\<rparr>
     in case w_fault w MainFile k of
          None \<Rightarrow> (Ok (), io'\<lparr>backing := File (pwrite off blob (io_bytes io)),
                       io_log := io_log io @ [WroteAt off blob]\<rparr>)
        | Some e \<Rightarrow> let part = take (w_short w MainFile k) blob
                   in (Err (from_io_error e), io'\<lparr>backing := File (pwrite off part (io_bytes io)),
                       io_log := io_log io @ [WroteAt off part]\<rparr>))"

text \<open>
  \<open>PageIo::open\<close>: the state is the call counter; the file at the path, if any, and the outcome of
  \<open>flock\<close> are arguments. Permission bits are not modelled, the calls that set them are.
\<close>

definition os_open_call :: "world \<Rightarrow> (nat, chisel_error, unit) op" where
  "os_open_call w = (\<lambda>k. (case w_fault w MainFile k of None \<Rightarrow> Ok () | Some e \<Rightarrow> Err (from_io_error e), Suc k))"

definition page_io_try_lock :: "bool \<Rightarrow> (nat, chisel_error, unit) op" where
  "page_io_try_lock flock_ok = (if flock_ok then ok () else err LockFailed)"

definition page_io_open :: "world \<Rightarrow> u8 list option \<Rightarrow> bool \<Rightarrow> bool \<Rightarrow> (nat, chisel_error, page_io) op" where
  "page_io_open w file flock_ok ro =
     and_then (os_open_call w) (\<lambda>_.
     and_then (case file of
         None \<Rightarrow> if ro then err (from_io_error NotFound) else ok []
       | Some bs \<Rightarrow> ok bs) (\<lambda>bs.
     and_then (if ro then ok () else
        and_then (os_open_call w) (\<lambda>_. if bs = [] then os_open_call w else ok ())) (\<lambda>_.
     and_then (page_io_try_lock flock_ok) (\<lambda>_.
     and_then (os_open_call w) (\<lambda>_.
     and_then (gets id) (\<lambda>k.
     ok \<lparr>backing = File bs, read_only = ro, stride = PAGE_SIZE, fsync_calls = 0,
         cached_page_count = word_of_nat (length bs) div word_of_nat PAGE_SIZE,
         os_calls = k, io_log = []\<rparr>))))))"

definition open_in_memory :: page_io where
  "open_in_memory = \<lparr>backing = Memory [], read_only = False, stride = PAGE_SIZE, fsync_calls = 0,
     cached_page_count = 0, os_calls = 0, io_log = []\<rparr>"

definition force_read_only :: "page_io \<Rightarrow> page_io" where
  "force_read_only io = io\<lparr>read_only := True\<rparr>"

text \<open>\<open>seek(End(0)).unwrap_or(0)\<close>: a failing seek counts as an empty file.\<close>

definition set_stride :: "world \<Rightarrow> nat \<Rightarrow> page_io \<Rightarrow> page_io" where
  "set_stride w n io0 =
     (let io = io0\<lparr>stride := n\<rparr>
      in case backing io of
           File bs \<Rightarrow> let len = (if w_fault w MainFile (os_calls io) = None then word_of_nat (length bs) else 0)
                     in io\<lparr>os_calls := Suc (os_calls io), cached_page_count := len div word_of_nat n\<rparr>
         | Memory bs \<Rightarrow> io\<lparr>cached_page_count := word_of_nat (length bs) div word_of_nat n\<rparr>)"

definition io_page_count :: "page_io \<Rightarrow> u64" where
  "io_page_count io = cached_page_count io"

text \<open>\<open>read_exact\<close> at an offset of the file, and the slice of the memory buffer.\<close>

definition read_unit_at :: "world \<Rightarrow> nat \<Rightarrow> nat \<Rightarrow> (page_io, chisel_error, u8 list) op" where
  "read_unit_at w off n =
     and_then (gets backing) (\<lambda>b. case b of
       File bs \<Rightarrow>
         and_then (os_call w) (\<lambda>_.
         and_then (os_call w) (\<lambda>_.
         if off + n \<le> length bs then ok (get_bytes off n bs)
         else err (IoError UnexpectedEof)))
     | Memory bs \<Rightarrow>
         if off + n \<le> length bs then ok (get_bytes off n bs) else panic)"

definition read_page_unit :: "world \<Rightarrow> u64 \<Rightarrow> (page_io, chisel_error, u8 list) op" where
  "read_page_unit w page_id =
     and_then (gets id) (\<lambda>io.
     if io_page_count io \<le> page_id then err (InvalidPageId page_id)
     else read_unit_at w (unat (page_id * word_of_nat (stride io))) (stride io))"

text \<open>
  \<open>read_page_unit_into\<close> reads into the caller's buffer, whose length the call sites take to be the
  stride; the bytes are returned.
\<close>

definition read_page_unit_into :: "world \<Rightarrow> u64 \<Rightarrow> (page_io, chisel_error, u8 list) op" where
  "read_page_unit_into w page_id =
     and_then (gets id) (\<lambda>io.
     if io_page_count io \<le> page_id then err (InvalidPageId page_id)
     else read_unit_at w (unat (page_id * word_of_nat (stride io))) (stride io))"

definition bump_page_count :: "u64 \<Rightarrow> page_io \<Rightarrow> page_io" where
  "bump_page_count page_id io =
     (let needed = page_id + 1
      in if cached_page_count io < needed then io\<lparr>cached_page_count := needed\<rparr> else io)"

definition write_page_unit :: "world \<Rightarrow> u64 \<Rightarrow> u8 list \<Rightarrow> (page_io, chisel_error, unit) op" where
  "write_page_unit w page_id blob =
     and_then (gets id) (\<lambda>io.
     if read_only io then err ReadOnlyMode
     else if length blob \<noteq> stride io then err (IoError OtherIo)
     else let off = unat (page_id * word_of_nat (stride io))
          in and_then (case backing io of
                 File bs \<Rightarrow> and_then (os_call w) (\<lambda>_. os_write w off blob)
               | Memory bs \<Rightarrow> modify (\<lambda>io. io\<lparr>backing := Memory (pwrite off blob bs),
                                io_log := io_log io @ [WroteAt off blob]\<rparr>)) (\<lambda>_.
             modify (bump_page_count page_id)))"

definition read_page :: "world \<Rightarrow> u64 \<Rightarrow> (page_io, chisel_error, page) op" where
  "read_page w page_id =
     and_then (gets stride) (\<lambda>n.
     if n \<noteq> PAGE_SIZE then err (IoError OtherIo) else read_page_unit w page_id)"

definition write_page :: "world \<Rightarrow> u64 \<Rightarrow> page \<Rightarrow> (page_io, chisel_error, unit) op" where
  "write_page w page_id buf = write_page_unit w page_id buf"

definition fsync :: "world \<Rightarrow> (page_io, chisel_error, unit) op" where
  "fsync w =
     and_then (gets id) (\<lambda>io.
     if read_only io then err ReadOnlyMode
     else and_then (case backing io of File bs \<Rightarrow> os_call w | Memory bs \<Rightarrow> ok ()) (\<lambda>_.
       modify (\<lambda>io. io\<lparr>fsync_calls := fsync_calls io + 1, io_log := io_log io @ [Fsynced]\<rparr>)))"

definition byte_len :: "world \<Rightarrow> (page_io, chisel_error, u64) op" where
  "byte_len w =
     and_then (gets id) (\<lambda>io.
     case backing io of
       File bs \<Rightarrow> and_then (os_call w) (\<lambda>_. ok (word_of_nat (length bs)))
     | Memory bs \<Rightarrow> ok (word_of_nat (length bs)))"

definition set_page_count :: "world \<Rightarrow> u64 \<Rightarrow> (page_io, chisel_error, unit) op" where
  "set_page_count w n =
     and_then (gets id) (\<lambda>io.
     if read_only io then err ReadOnlyMode
     else let len = unat (n * word_of_nat (stride io))
          in and_then (case backing io of
                 File bs \<Rightarrow> and_then (os_call w) (\<lambda>_.
                   modify (\<lambda>io. io\<lparr>backing := File (resize len bs), io_log := io_log io @ [SetLen len]\<rparr>))
               | Memory bs \<Rightarrow>
                   modify (\<lambda>io. io\<lparr>backing := Memory (resize len bs), io_log := io_log io @ [SetLen len]\<rparr>)) (\<lambda>_.
             modify (\<lambda>io. io\<lparr>cached_page_count := n\<rparr>)))"

section \<open>The device as an array of units\<close>

text \<open>
  The device invariant: the file holds every page the count promises, and the strides in use and
  the file size are small enough that no offset wraps.
\<close>

definition io_ok :: "page_io \<Rightarrow> bool" where
  "io_ok io \<longleftrightarrow> 0 < stride io \<and> stride io \<le> 8232 \<and> length (io_bytes io) < 2 ^ 64 \<and>
     unat (cached_page_count io) * stride io \<le> length (io_bytes io)"

definition fits_offset :: "page_io \<Rightarrow> u64 \<Rightarrow> bool" where
  \<comment> \<open>the unit of this page ends below 2^64\<close>
  "fits_offset io page_id \<longleftrightarrow> Suc (unat page_id) * stride io < 2 ^ 64"

definition io_unit :: "page_io \<Rightarrow> u64 \<Rightarrow> u8 list" where
  "io_unit io page_id = get_bytes (unat page_id * stride io) (stride io) (io_bytes io)"

text \<open>Two device states that differ in the ghost call counter only.\<close>

definition io_same :: "page_io \<Rightarrow> page_io \<Rightarrow> bool" where
  "io_same io io' \<longleftrightarrow> (\<exists>k. io' = io\<lparr>os_calls := k\<rparr>)"

lemma io_same_refl [simp]: "io_same io io"
  by (auto simp: io_same_def intro: exI [of _ "os_calls io"])

lemma io_same_trans: "io_same a b \<Longrightarrow> io_same b c \<Longrightarrow> io_same a c"
  by (auto simp: io_same_def)

lemma io_same_calls [simp]: "io_same io (io\<lparr>os_calls := k\<rparr>)"
  by (auto simp: io_same_def)

lemma io_sameD:
  assumes "io_same io io'"
  shows "backing io' = backing io" and "stride io' = stride io" and "cached_page_count io' = cached_page_count io"
    and "read_only io' = read_only io" and "io_log io' = io_log io" and "fsync_calls io' = fsync_calls io"
  using assms by (auto simp: io_same_def)

lemma io_same_ok: "io_same io io' \<Longrightarrow> io_ok io' = io_ok io"
  by (simp add: io_ok_def io_sameD)

lemma io_same_unit: "io_same io io' \<Longrightarrow> io_unit io' = io_unit io"
  by (simp add: io_unit_def io_sameD fun_eq_iff)

lemma unat_offset:
  assumes "fits_offset io page_id"
  shows "unat (page_id * word_of_nat (stride io)) = unat page_id * stride io"
proof -
  have lt: "unat page_id * stride io + stride io < 2 ^ 64"
    using assms by (simp add: fits_offset_def)
  then have "unat (word_of_nat (stride io) :: u64) = stride io"
    by (simp add: unat_of_nat)
  then show ?thesis using lt by (simp add: unat_word_ariths)
qed

section \<open>Contracts of the operations\<close>

text \<open>The errors a file-system call can surface as.\<close>

fun io_failure :: "chisel_error \<Rightarrow> bool" where
  "io_failure (IoError e) = True"
| "io_failure FileNotFound = True"
| "io_failure e = False"

lemma io_failure_from [simp]: "io_failure (from_io_error e)"
  by (cases e) (simp_all add: from_io_error_def)

lemma fault_not_ok: "w_fault w d k = Some e \<Longrightarrow> \<not> no_faults w"
  by (auto simp: no_faults_def)

lemma os_call_wp:
  assumes "\<And>io'. io_same io io' \<Longrightarrow> Q () io'"
    and "\<And>e io'. io_failure e \<Longrightarrow> \<not> no_faults w \<Longrightarrow> io_same io io' \<Longrightarrow> E e io'"
  shows "wp (os_call w) Q E io"
  using assms by (auto simp: wp_def os_call_def fault_not_ok split: option.splits)

text \<open>A page below the count lies inside the file.\<close>

lemma io_ok_unit:
  assumes "io_ok io" and "page_id < cached_page_count io"
  shows "fits_offset io page_id" and "unat page_id * stride io + stride io \<le> length (io_bytes io)"
proof -
  have "Suc (unat page_id) \<le> unat (cached_page_count io)"
    using assms(2) by (simp add: word_less_nat_alt)
  then have "Suc (unat page_id) * stride io \<le> unat (cached_page_count io) * stride io"
    by (rule mult_le_mono1)
  then have le: "Suc (unat page_id) * stride io \<le> length (io_bytes io)"
    using assms(1) by (simp add: io_ok_def)
  then show "fits_offset io page_id" using assms(1) by (simp add: fits_offset_def io_ok_def)
  show "unat page_id * stride io + stride io \<le> length (io_bytes io)" using le by simp
qed

lemma length_io_unit: "io_ok io \<Longrightarrow> page_id < cached_page_count io \<Longrightarrow> length (io_unit io page_id) = stride io"
  using io_ok_unit(2) [of io page_id] by (simp add: io_unit_def get_bytes_def)

lemma read_page_unit_wp:
  assumes "io_ok io" and "page_id < cached_page_count io"
  shows "wp (read_page_unit w page_id) (\<lambda>b io'. b = io_unit io page_id \<and> io_same io io')
    (\<lambda>e io'. io_failure e \<and> \<not> no_faults w \<and> io_same io io') io"
proof -
  note in_file = io_ok_unit [OF assms]
  have "wp (read_unit_at w (unat page_id * stride io) (stride io))
      (\<lambda>b io'. b = io_unit io page_id \<and> io_same io io')
      (\<lambda>e io'. io_failure e \<and> \<not> no_faults w \<and> io_same io io') io"
  proof (cases "backing io")
    case (File bs)
    then show ?thesis
      using in_file(2)
      by (auto simp: read_unit_at_def wp_simps io_unit_def intro!: os_call_wp)
        (blast intro: io_same_trans)+
  next
    case (Memory bs)
    then show ?thesis using in_file(2) by (simp add: read_unit_at_def wp_simps io_unit_def)
  qed
  then show ?thesis
    using assms(2) by (simp add: read_page_unit_def wp_simps io_page_count_def unat_offset [OF in_file(1)] not_le)
qed

lemma read_page_unit_into_eq: "read_page_unit_into w page_id = read_page_unit w page_id"
  by (simp add: read_page_unit_into_def read_page_unit_def)

lemma read_page_unit_out_of_range:
  "cached_page_count io \<le> page_id \<Longrightarrow> read_page_unit w page_id io = (Err (InvalidPageId page_id), io)"
  by (simp add: read_page_unit_def and_then_def gets_def err_def io_page_count_def)

text \<open>What a write leaves alone.\<close>

definition io_frame :: "page_io \<Rightarrow> u64 \<Rightarrow> page_io \<Rightarrow> bool" where
  "io_frame io page_id io' \<longleftrightarrow> io_ok io' \<and> stride io' = stride io \<and> read_only io' = read_only io \<and>
     fsync_calls io' = fsync_calls io \<and>
     (\<forall>q. q \<noteq> page_id \<and> q < cached_page_count io \<longrightarrow> io_unit io' q = io_unit io q)"

lemma units_disjoint:
  assumes "(q :: nat) \<noteq> p"
  shows "q * n + n \<le> p * n \<or> p * n + n \<le> q * n"
proof (cases "q < p")
  case True
  then have "Suc q * n \<le> p * n" by (intro mult_le_mono1) simp
  then show ?thesis by simp
next
  case False
  then have "Suc p * n \<le> q * n" using assms by (intro mult_le_mono1) simp
  then show ?thesis by simp
qed

lemma pwrite_unit:
  assumes "io_ok io" and "fits_offset io page_id" and "length bs \<le> stride io"
  defines "xs \<equiv> pwrite (unat page_id * stride io) bs (io_bytes io)"
  shows "length xs < 2 ^ 64" and "length (io_bytes io) \<le> length xs"
    and "q \<noteq> page_id \<Longrightarrow> q < cached_page_count io \<Longrightarrow>
      get_bytes (unat q * stride io) (stride io) xs = io_unit io q"
proof -
  have "unat page_id * stride io + length bs < 2 ^ 64" using assms(2,3) by (simp add: fits_offset_def)
  then show "length xs < 2 ^ 64"
    using assms(1) by (cases "bs = []") (simp_all add: xs_def length_pwrite io_ok_def, simp add: pwrite_def)
  show "length (io_bytes io) \<le> length xs" unfolding xs_def by (rule length_pwrite_ge)
  assume "q \<noteq> page_id" and "q < cached_page_count io"
  then have "unat q * stride io + stride io \<le> unat page_id * stride io \<or>
      unat page_id * stride io + stride io \<le> unat q * stride io"
    by (intro units_disjoint) (simp add: word_unat_eq_iff)
  then show "get_bytes (unat q * stride io) (stride io) xs = io_unit io q"
    unfolding xs_def io_unit_def using assms(1,3) io_ok_unit(2) [OF assms(1) \<open>q < cached_page_count io\<close>]
    by (intro get_pwrite_other) auto
qed

lemma os_write_wp:
  assumes "\<And>io'. io' = io\<lparr>os_calls := Suc (os_calls io), backing := File (pwrite off blob (io_bytes io)),
      io_log := io_log io @ [WroteAt off blob]\<rparr> \<Longrightarrow> Q () io'"
    and "\<And>e io' n. io_failure e \<Longrightarrow> \<not> no_faults w \<Longrightarrow>
      io' = io\<lparr>os_calls := Suc (os_calls io), backing := File (pwrite off (take n blob) (io_bytes io)),
        io_log := io_log io @ [WroteAt off (take n blob)]\<rparr> \<Longrightarrow> E e io'"
  shows "wp (os_write w off blob) Q E io"
  using assms by (auto simp: wp_def os_write_def Let_def fault_not_ok split: option.splits)

lemma stored_frame:
  assumes "io_ok io" and "fits_offset io page_id" and "length bs \<le> stride io"
    and "backing_bytes b = pwrite (unat page_id * stride io) bs (io_bytes io)"
  shows "io_frame io page_id (io\<lparr>os_calls := k, backing := b, io_log := l\<rparr>)"
    and "io_frame io page_id (io\<lparr>backing := b, io_log := l\<rparr>)"
  using pwrite_unit [OF assms(1-3)] assms
  by (auto simp: io_frame_def io_ok_def io_unit_def)

lemma bump_frame:
  assumes "io_frame io page_id io'" and "cached_page_count io' = cached_page_count io"
    and "fits_offset io page_id"
    and "io_unit io' page_id = blob" and "length blob = stride io"
  shows "io_frame io page_id (bump_page_count page_id io')"
    and "io_unit (bump_page_count page_id io') page_id = blob"
    and "cached_page_count (bump_page_count page_id io') = max (cached_page_count io) (page_id + 1)"
proof -
  let ?io = "bump_page_count page_id io'"
  have same: "io_unit ?io = io_unit io'" "stride ?io = stride io'" "read_only ?io = read_only io'"
    "backing ?io = backing io'" "fsync_calls ?io = fsync_calls io'"
    by (simp_all add: bump_page_count_def Let_def io_unit_def fun_eq_iff)
  have st: "stride io' = stride io" "0 < stride io" using assms(1) by (auto simp: io_frame_def io_ok_def)
  show cnt: "cached_page_count ?io = max (cached_page_count io) (page_id + 1)"
    using assms(2) by (auto simp: bump_page_count_def Let_def max_def)
  have "get_bytes (unat page_id * stride io) (stride io) (io_bytes io') = blob"
    using assms(4) st by (simp add: io_unit_def)
  then have "unat page_id * stride io + stride io \<le> length (io_bytes io')"
    using assms(5) st(2) by (auto simp: get_bytes_def min_def split: if_splits)
  moreover have "unat (page_id + 1) = Suc (unat page_id)"
  proof -
    have "Suc (unat page_id) \<le> Suc (unat page_id) * stride io"
      using st(2) mult_le_mono2 [of 1 "stride io" "Suc (unat page_id)"] by simp
    then have "Suc (unat page_id) < 2 ^ 64" using assms(3) unfolding fits_offset_def by linarith
    then show ?thesis by (simp add: unat_word_ariths)
  qed
  ultimately have "unat (cached_page_count ?io) * stride io \<le> length (io_bytes io')"
    unfolding cnt using assms(1,2) st(1) by (auto simp: max_def io_frame_def io_ok_def)
  then show "io_frame io page_id ?io" using assms(1) same st by (simp add: io_frame_def io_ok_def)
  show "io_unit ?io page_id = blob" using same assms(4) by simp
qed

lemma write_page_unit_wp:
  assumes "io_ok io" and "\<not> read_only io" and "length blob = stride io" and "fits_offset io page_id"
  shows "wp (write_page_unit w page_id blob)
    (\<lambda>_ io'. io_frame io page_id io' \<and> io_unit io' page_id = blob \<and>
       cached_page_count io' = max (cached_page_count io) (page_id + 1) \<and>
       io_log io' = io_log io @ [WroteAt (unat page_id * stride io) blob])
    (\<lambda>e io'. io_failure e \<and> \<not> no_faults w \<and> io_frame io page_id io' \<and>
       cached_page_count io' = cached_page_count io \<and>
       (\<exists>part. length part \<le> stride io \<and>
          set (io_log io') \<subseteq> set (io_log io) \<union> {WroteAt (unat page_id * stride io) part})) io"
    (is "wp _ ?Q ?E io")
proof -
  have unit: "get_bytes (unat page_id * stride io) (stride io)
      (pwrite (unat page_id * stride io) blob (io_bytes io)) = blob"
    using get_pwrite_same [of "unat page_id * stride io" blob] assms(3) by simp
  note frame = stored_frame [OF assms(1,4)]
  have fin: "?Q () (bump_page_count page_id (io\<lparr>os_calls := k, backing := b,
      io_log := io_log io @ [WroteAt (unat page_id * stride io) blob]\<rparr>))"
    if "backing_bytes b = pwrite (unat page_id * stride io) blob (io_bytes io)" for k b
  proof -
    let ?io = "io\<lparr>os_calls := k, backing := b,
      io_log := io_log io @ [WroteAt (unat page_id * stride io) blob]\<rparr>"
    have "io_frame io page_id ?io" using assms(3) that by (intro frame(1)) auto
    moreover have "io_unit ?io page_id = blob" using that unit by (simp add: io_unit_def)
    moreover have "io_log (bump_page_count page_id ?io) = io_log ?io"
      by (simp add: bump_page_count_def Let_def)
    ultimately show ?thesis
      using bump_frame [of io page_id ?io blob] assms(3,4) by simp
  qed
  show ?thesis
  proof (cases "backing io")
    case (File bs)
    have keep: "io_frame io page_id io'" if "io_same io io'" for io'
      using that assms(1) by (simp add: io_frame_def io_same_ok io_same_unit io_sameD)
    have W: "wp (and_then (os_call w) (\<lambda>_. and_then (os_write w (unat page_id * stride io) blob)
        (\<lambda>_. modify (bump_page_count page_id)))) ?Q ?E io"
      unfolding wp_and_then
    proof (rule os_call_wp)
      fix io' assume "io_same io io'"
      then obtain k where io': "io' = io\<lparr>os_calls := k\<rparr>" by (auto simp: io_same_def)
      show "wp (os_write w (unat page_id * stride io) blob)
          (\<lambda>a. wp (modify (bump_page_count page_id)) ?Q ?E) ?E io'"
        unfolding io'
      proof (rule os_write_wp, goal_cases)
        case (1 io'')
        then show ?case using fin by (simp add: wp_simps)
      next
        case (2 e io'' n)
        have "io_frame io page_id io''" unfolding 2(3) using assms(3)
          by (simp add: stored_frame [OF assms(1,4), of "take n blob"])
        with 2 assms(3) show ?case by (auto intro!: exI [of _ "take n blob"])
      qed
    qed (use keep in \<open>auto simp: io_sameD intro!: exI [of _ "[]"]\<close>)
    have eq: "write_page_unit w page_id blob io =
        and_then (os_call w) (\<lambda>_. and_then (os_write w (unat page_id * stride io) blob)
          (\<lambda>_. modify (bump_page_count page_id))) io"
      using assms File by (simp add: write_page_unit_def and_then_gets and_then_assoc unat_offset Let_def)
    show ?thesis using W unfolding wp_def eq .
  next
    case (Memory bs)
    then show ?thesis
      using assms fin [of "Memory (pwrite (unat page_id * stride io) blob bs)" "os_calls io"]
      by (simp add: write_page_unit_def wp_simps unat_offset Let_def)
  qed
qed

lemma write_page_unit_read_only:
  "read_only io \<Longrightarrow> write_page_unit w page_id blob io = (Err ReadOnlyMode, io)"
  by (simp add: write_page_unit_def and_then_def gets_def err_def)

lemma fsync_wp:
  assumes "\<not> read_only io"
  shows "wp (fsync w)
    (\<lambda>_ io'. \<exists>k. io' = io\<lparr>os_calls := k, fsync_calls := fsync_calls io + 1, io_log := io_log io @ [Fsynced]\<rparr>)
    (\<lambda>e io'. io_failure e \<and> \<not> no_faults w \<and> io_same io io') io"
proof (cases "backing io")
  case (File bs)
  have "wp (os_call w) (\<lambda>_. wp (modify (\<lambda>io. io\<lparr>fsync_calls := fsync_calls io + 1,
        io_log := io_log io @ [Fsynced]\<rparr>))
      (\<lambda>_ io'. \<exists>k. io' = io\<lparr>os_calls := k, fsync_calls := fsync_calls io + 1, io_log := io_log io @ [Fsynced]\<rparr>)
      (\<lambda>e io'. io_failure e \<and> \<not> no_faults w \<and> io_same io io'))
      (\<lambda>e io'. io_failure e \<and> \<not> no_faults w \<and> io_same io io') io"
    by (rule os_call_wp) (auto simp: wp_simps io_same_def)
  then show ?thesis using assms File by (simp add: fsync_def wp_simps)
next
  case (Memory bs)
  then show ?thesis using assms
    by (auto simp: fsync_def wp_simps intro!: exI [of _ "os_calls io"])
qed

lemma fsync_read_only: "read_only io \<Longrightarrow> fsync w io = (Err ReadOnlyMode, io)"
  by (simp add: fsync_def and_then_def gets_def err_def)

lemma set_page_count_wp:
  assumes "io_ok io" and "\<not> read_only io" and "unat n * stride io < 2 ^ 64"
  shows "wp (set_page_count w n)
    (\<lambda>_ io'. io_ok io' \<and> stride io' = stride io \<and> cached_page_count io' = n \<and> \<not> read_only io' \<and>
       (\<forall>q. q < n \<and> q < cached_page_count io \<longrightarrow> io_unit io' q = io_unit io q))
    (\<lambda>e io'. io_failure e \<and> \<not> no_faults w \<and> io_same io io') io"
    (is "wp _ ?Q ?E io")
proof -
  have "unat (n * word_of_nat (stride io)) = unat n * stride io"
    using assms(1,3) by (simp add: io_ok_def unat_word_ariths unat_of_nat)
  note off = this
  have fin: "?Q () (io\<lparr>os_calls := k, backing := b, io_log := l, cached_page_count := n\<rparr>)"
    if "backing_bytes b = resize (unat n * stride io) (io_bytes io)" for k b l
  proof -
    have "get_bytes (unat q * stride io) (stride io) (resize (unat n * stride io) (io_bytes io)) = io_unit io q"
      if "q < n" "q < cached_page_count io" for q
    proof -
      have "Suc (unat q) * stride io \<le> unat n * stride io"
        using \<open>q < n\<close> by (intro mult_le_mono1) (simp add: word_less_nat_alt)
      then show ?thesis
        unfolding io_unit_def using io_ok_unit(2) [OF assms(1) that(2)]
        by (intro get_bytes_resize) auto
    qed
    then show ?thesis using that assms by (auto simp: io_ok_def io_unit_def)
  qed
  show ?thesis
  proof (cases "backing io")
    case (File bs)
    have "wp (os_call w) (\<lambda>_ io'. ?Q () (io'\<lparr>backing := File (resize (unat n * stride io) bs),
        io_log := io_log io' @ [SetLen (unat n * stride io)], cached_page_count := n\<rparr>)) ?E io"
    proof (rule os_call_wp, goal_cases)
      case (1 io')
      then obtain k where "io' = io\<lparr>os_calls := k\<rparr>" by (auto simp: io_same_def)
      then show ?case using fin [where b = "File (resize (unat n * stride io) bs)" and k = k] File by simp
    qed auto
    then show ?thesis
      using assms File by (simp add: set_page_count_def wp_simps Let_def off)
  next
    case (Memory bs)
    then show ?thesis
      using assms fin [where b = "Memory (resize (unat n * stride io) bs)" and k = "os_calls io"]
      by (simp add: set_page_count_def wp_simps Let_def off)
  qed
qed

section \<open>Properties\<close>

text \<open>
  C28. A written unit reads back, and a write touches no other page: the contents of every other
  page below the count stay as they were, also when the write fails half way.
\<close>

theorem write_then_read:
  assumes "io_ok io" and "\<not> read_only io" and "length blob = stride io" and "fits_offset io page_id"
  shows "wp (and_then (write_page_unit w page_id blob) (\<lambda>_. read_page_unit w page_id))
    (\<lambda>b io'. b = blob \<and> io_frame io page_id io') (\<lambda>e io'. io_failure e \<and> \<not> no_faults w \<and> io_frame io page_id io') io"
  unfolding wp_and_then
proof (rule wp_mono [OF write_page_unit_wp [OF assms]], goal_cases)
  case (1 a io')
  then have f: "io_frame io page_id io'" and u: "io_unit io' page_id = blob"
    and c: "cached_page_count io' = max (cached_page_count io) (page_id + 1)" by auto
  have keep: "io_frame io page_id io''" if "io_same io' io''" for io''
    using that f by (simp add: io_frame_def io_same_ok io_same_unit io_sameD)
  have "Suc (unat page_id) * 1 \<le> Suc (unat page_id) * stride io"
    using assms(1) by (intro mult_le_mono2) (simp add: io_ok_def)
  then have "Suc (unat page_id) < 2 ^ 64" using assms(4) by (simp add: fits_offset_def)
  then have "unat (page_id + 1) = Suc (unat page_id)" by (simp add: unat_word_ariths)
  then have "page_id < cached_page_count io'" using c by (auto simp: word_less_nat_alt word_le_nat_alt max_def)
  moreover have "io_ok io'" using f by (simp add: io_frame_def)
  ultimately show ?case using u keep by (intro wp_mono [OF read_page_unit_wp]) auto
qed auto

theorem write_then_read_witness:
  "io_ok open_in_memory \<and>
   wp (and_then (write_page_unit toy_world 2 (replicate 8192 5)) (\<lambda>_. read_page_unit toy_world 2))
     (\<lambda>b io'. b = replicate 8192 5) (\<lambda>e io'. False) open_in_memory"
proof -
  have io: "io_ok open_in_memory" "\<not> read_only open_in_memory" "fits_offset open_in_memory 2"
    "length (replicate 8192 (5::u8)) = stride open_in_memory"
    by (simp_all add: io_ok_def fits_offset_def open_in_memory_def)
  show ?thesis
    using io(1) wp_mono [OF write_then_read [OF io(1,2,4,3), of toy_world]] toy_world_no_faults by auto
qed

text \<open>C29. A device opened read-only is never changed: every mutator reports it and leaves the state alone.\<close>

theorem read_only_is_inert:
  assumes "read_only io"
  shows "write_page_unit w page_id blob io = (Err ReadOnlyMode, io) \<and> write_page w page_id buf io = (Err ReadOnlyMode, io) \<and>
    fsync w io = (Err ReadOnlyMode, io) \<and> set_page_count w n io = (Err ReadOnlyMode, io)"
  using assms
  by (simp add: write_page_unit_read_only write_page_def fsync_read_only set_page_count_def and_then_def gets_def err_def)

theorem read_only_is_inert_witness:
  "fsync toy_world (force_read_only open_in_memory) = (Err ReadOnlyMode, force_read_only open_in_memory)"
  using read_only_is_inert [of "force_read_only open_in_memory" toy_world] by (simp add: force_read_only_def)

text \<open>
  Truncating or extending the device keeps every page below both counts, and the new count is
  what later reads are checked against.
\<close>

theorem resize_keeps_pages:
  assumes "io_ok io" and "\<not> read_only io" and "unat n * stride io < 2 ^ 64"
  shows "wp (set_page_count w n)
    (\<lambda>_ io'. io_ok io' \<and> cached_page_count io' = n \<and>
       (\<forall>q. q < n \<and> q < cached_page_count io \<longrightarrow> io_unit io' q = io_unit io q) \<and>
       (\<forall>q. n \<le> q \<longrightarrow> read_page_unit w q io' = (Err (InvalidPageId q), io')))
    (\<lambda>e io'. io_failure e \<and> \<not> no_faults w \<and> io_same io io') io"
  by (rule wp_mono [OF set_page_count_wp [OF assms]]) (auto simp: read_page_unit_out_of_range)

theorem resize_keeps_pages_witness:
  "wp (set_page_count toy_world 3) (\<lambda>_ io'. cached_page_count io' = 3) (\<lambda>e io'. False) open_in_memory"
proof -
  have io: "io_ok open_in_memory" "\<not> read_only open_in_memory" "unat (3::u64) * stride open_in_memory < 2 ^ 64"
    by (simp_all add: io_ok_def open_in_memory_def)
  show ?thesis using wp_mono [OF resize_keeps_pages [OF io, of toy_world]] toy_world_no_faults by auto
qed

end
