(* ===== verification/Spill_Way.thy ===== *)
theory Spill_Way
  imports Page_Io
begin

text \<open>
  The overflow store for dirty pages, \<open>src/src/spillway.rs\<close>: a sidecar file (or memory buffer) of
  slots, each a page id, a checksum over id and payload, and the payload, with an in-memory index
  from page id to slot. The index is an association list; its order stands for the hash map's
  iteration order. Slot indices and offsets are natural numbers: they count the spills of one
  transaction. The streaming hasher is the hash of the concatenation of its updates.
\<close>

section \<open>Definitions\<close>

definition SLOT_HEADER_SIZE :: nat where [simp]: "SLOT_HEADER_SIZE = 16"

record spillway =
  spw_backing :: backing
  spw_slots :: "(u64 \<times> nat) list"
  next_slot_index :: nat
  spw_max_bytes :: u64
  payload_size :: nat
  spw_calls :: nat

abbreviation spw_bytes :: "spillway \<Rightarrow> u8 list" where
  "spw_bytes spw \<equiv> backing_bytes (spw_backing spw)"

text \<open>System calls on the sidecar.\<close>

definition spw_call :: "world \<Rightarrow> (spillway, chisel_error, unit) op" where
  "spw_call w = (\<lambda>s. (case w_fault w SpillFile (spw_calls s) of None \<Rightarrow> Ok () | Some e \<Rightarrow> Err (from_io_error e),
     s\<lparr>spw_calls := Suc (spw_calls s)\<rparr>))"

definition spw_write :: "world \<Rightarrow> nat \<Rightarrow> u8 list \<Rightarrow> (spillway, chisel_error, unit) op" where
  "spw_write w off bs = (\<lambda>s.
     let k = spw_calls s; s' = s\<lparr>spw_calls := Suc k\<rparr>
     in case w_fault w SpillFile k of
          None \<Rightarrow> (Ok (), s'\<lparr>spw_backing := File (pwrite off bs (spw_bytes s))\<rparr>)
        | Some e \<Rightarrow> (Err (from_io_error e),
            s'\<lparr>spw_backing := File (pwrite off (take (w_short w SpillFile k) bs) (spw_bytes s))\<rparr>))"

text \<open>
  Opening the sidecar. The state is the number of calls made on it so far. Here errors are wrapped
  with \<open>ChiselError::IoError\<close> directly, without the \<open>NotFound\<close> mapping of \<open>?\<close>.
\<close>

definition sidecar_call :: "world \<Rightarrow> (nat, io_error, unit) op" where
  "sidecar_call w = (\<lambda>k. (case w_fault w SpillFile k of None \<Rightarrow> Ok () | Some e \<Rightarrow> Err e, Suc k))"

definition reclaim_stale_sidecar :: "world \<Rightarrow> (nat, chisel_error, unit) op" where
  "reclaim_stale_sidecar w =
     and_then (or_else (sidecar_call w) (\<lambda>e. err (IoError e))) (\<lambda>_.
     and_then (gets (w_sidecar_ours w)) (\<lambda>ours.
     if \<not> ours then err (IoError PermissionDenied)
     else or_else (sidecar_call w) (\<lambda>e. err (IoError e))))"

definition spw_open_file :: "world \<Rightarrow> u64 \<Rightarrow> nat \<Rightarrow> (nat, chisel_error, spillway) op" where
  "spw_open_file w max_bytes payload =
     and_then (or_else (sidecar_call w) (\<lambda>e.
         if e = AlreadyExists
         then and_then (reclaim_stale_sidecar w) (\<lambda>_. or_else (sidecar_call w) (\<lambda>e. err (IoError e)))
         else err (IoError e))) (\<lambda>_.
     and_then (gets id) (\<lambda>k.
     ok \<lparr>spw_backing = File [], spw_slots = [], next_slot_index = 0, spw_max_bytes = max_bytes,
         payload_size = payload, spw_calls = k\<rparr>))"

definition spw_open_memory :: "u64 \<Rightarrow> nat \<Rightarrow> nat \<Rightarrow> spillway" where
  "spw_open_memory max_bytes payload k =
     \<lparr>spw_backing = Memory [], spw_slots = [], next_slot_index = 0, spw_max_bytes = max_bytes,
      payload_size = payload, spw_calls = k\<rparr>"

definition is_resident :: "spillway \<Rightarrow> u64 \<Rightarrow> bool" where
  "is_resident spw page_id = (map_of (spw_slots spw) page_id \<noteq> None)"

definition spw_slot_count :: "spillway \<Rightarrow> nat" where
  "spw_slot_count spw = length (spw_slots spw)"

definition logical_bytes :: "spillway \<Rightarrow> u64" where
  "logical_bytes spw = word_of_nat (length (spw_slots spw)) * word_of_nat (payload_size spw)"

definition set_max_bytes :: "u64 \<Rightarrow> spillway \<Rightarrow> spillway" where
  "set_max_bytes bytes spw = spw\<lparr>spw_max_bytes := bytes\<rparr>"

definition slot_checksum :: "world \<Rightarrow> u64 \<Rightarrow> u8 list \<Rightarrow> u64" where
  "slot_checksum w page_id blob = w_xxh w (to_le_bytes page_id @ blob)"

definition write_slot :: "world \<Rightarrow> nat \<Rightarrow> u64 \<Rightarrow> u8 list \<Rightarrow> (spillway, chisel_error, unit) op" where
  "write_slot w slot_index page_id blob =
     and_then (gets id) (\<lambda>spw.
     let payload = payload_size spw;
         slot_size = SLOT_HEADER_SIZE + payload;
         checksum = slot_checksum w page_id blob;
         offset = slot_index * slot_size;
         header = to_le_bytes page_id @ to_le_bytes checksum
     in case spw_backing spw of
          File _ \<Rightarrow>
            and_then (spw_call w) (\<lambda>_.
            and_then (spw_write w offset header) (\<lambda>_.
            spw_write w (offset + SLOT_HEADER_SIZE) blob))
        | Memory bytes \<Rightarrow>
            if length blob \<noteq> payload then panic
            else modify (\<lambda>s. s\<lparr>spw_backing := Memory (pwrite offset (header @ blob) bytes)\<rparr>))"

definition read_slot :: "world \<Rightarrow> nat \<Rightarrow> (spillway, chisel_error, u64 \<times> u64 \<times> u8 list) op" where
  "read_slot w slot_index =
     and_then (gets id) (\<lambda>spw.
     let payload = payload_size spw;
         slot_size = SLOT_HEADER_SIZE + payload;
         offset = slot_index * slot_size;
         bytes = spw_bytes spw;
         parse = (get_u64 offset bytes, get_u64 (offset + 8) bytes,
                  get_bytes (offset + SLOT_HEADER_SIZE) payload bytes)
     in case spw_backing spw of
          File _ \<Rightarrow>
            and_then (spw_call w) (\<lambda>_.
            and_then (spw_call w) (\<lambda>_.
            if length bytes < offset + SLOT_HEADER_SIZE then err (IoError UnexpectedEof)
            else and_then (spw_call w) (\<lambda>_.
            if length bytes < offset + slot_size then err (IoError UnexpectedEof)
            else ok parse)))
        | Memory _ \<Rightarrow>
            if length bytes < offset + slot_size then err (IoError UnexpectedEof) else ok parse)"

definition spw_spill :: "world \<Rightarrow> u64 \<Rightarrow> u8 list \<Rightarrow> (spillway, chisel_error, unit) op" where
  "spw_spill w page_id blob =
     and_then (gets id) (\<lambda>spw.
     and_then (case map_of (spw_slots spw) page_id of
         Some existing \<Rightarrow> ok existing
       | None \<Rightarrow>
           let post_write_bytes = (word_of_nat (length (spw_slots spw)) + 1) * word_of_nat (payload_size spw)
           in if spw_max_bytes spw < post_write_bytes then err (SpillwayFull (spw_max_bytes spw))
              else let new_index = next_slot_index spw
                   in and_then (modify (\<lambda>s. s\<lparr>next_slot_index := next_slot_index s + 1,
                                  spw_slots := AList.update page_id new_index (spw_slots s)\<rparr>)) (\<lambda>_.
                      ok new_index)) (\<lambda>slot_index.
     write_slot w slot_index page_id blob))"

definition spw_truncate :: "world \<Rightarrow> (spillway, chisel_error, unit) op" where
  "spw_truncate w =
     and_then (modify (\<lambda>s. s\<lparr>spw_slots := [], next_slot_index := 0\<rparr>)) (\<lambda>_.
     and_then (gets spw_backing) (\<lambda>b. case b of
       File _ \<Rightarrow> and_then (spw_call w) (\<lambda>_.
                and_then (modify (\<lambda>s. s\<lparr>spw_backing := File []\<rparr>)) (\<lambda>_. spw_call w))
     | Memory _ \<Rightarrow> modify (\<lambda>s. s\<lparr>spw_backing := Memory []\<rparr>)))"

definition drain_batch :: "spillway \<Rightarrow> nat \<Rightarrow> u64 list" where
  "drain_batch spw batch_size = take batch_size (map fst (spw_slots spw))"

definition spw_forget :: "u64 \<Rightarrow> spillway \<Rightarrow> spillway" where
  "spw_forget page_id spw = spw\<lparr>spw_slots := AList.delete page_id (spw_slots spw)\<rparr>"

definition spw_forget_above :: "u64 \<Rightarrow> spillway \<Rightarrow> spillway" where
  "spw_forget_above n spw = spw\<lparr>spw_slots := filter (\<lambda>(page_id, _). page_id < n) (spw_slots spw)\<rparr>"

definition spw_rehydrate :: "world \<Rightarrow> u64 \<Rightarrow> (spillway, chisel_error, u8 list) op" where
  "spw_rehydrate w page_id =
     and_then (gets id) (\<lambda>spw.
     case map_of (spw_slots spw) page_id of
       None \<Rightarrow> err (InvalidPageId page_id)
     | Some slot_index \<Rightarrow>
         and_then (read_slot w slot_index) (\<lambda>(stored_page_id, stored_checksum, blob).
         if stored_page_id \<noteq> page_id then err (ChecksumMismatch page_id)
         else if slot_checksum w page_id blob \<noteq> stored_checksum then err (ChecksumMismatch page_id)
         else ok blob))"

section \<open>The abstraction: a finite map from page id to payload\<close>

abbreviation slot_size :: "spillway \<Rightarrow> nat" where
  "slot_size spw \<equiv> 16 + payload_size spw"

definition slot_holds :: "world \<Rightarrow> spillway \<Rightarrow> nat \<Rightarrow> u64 \<Rightarrow> bool" where
  \<comment> \<open>slot \<open>i\<close> lies in the file and carries the header of this page\<close>
  "slot_holds w spw i page_id \<longleftrightarrow>
     (let off = i * slot_size spw; bytes = spw_bytes spw
      in off + slot_size spw \<le> length bytes \<and> get_u64 off bytes = page_id \<and>
         get_u64 (off + 8) bytes = slot_checksum w page_id (get_bytes (off + 16) (payload_size spw) bytes))"

definition spw_blob :: "spillway \<Rightarrow> u64 \<Rightarrow> u8 list option" where
  "spw_blob spw page_id =
     map_option (\<lambda>i. get_bytes (i * slot_size spw + 16) (payload_size spw) (spw_bytes spw))
       (map_of (spw_slots spw) page_id)"

definition spw_ok :: "world \<Rightarrow> spillway \<Rightarrow> bool" where
  "spw_ok w spw \<longleftrightarrow> distinct (map fst (spw_slots spw)) \<and>
     (\<forall>p q i. map_of (spw_slots spw) p = Some i \<and> map_of (spw_slots spw) q = Some i \<longrightarrow> p = q) \<and>
     (\<forall>p i. map_of (spw_slots spw) p = Some i \<longrightarrow> i < next_slot_index spw \<and> slot_holds w spw i p)"

text \<open>What every outcome keeps, failed writes included.\<close>

definition spw_wf :: "spillway \<Rightarrow> bool" where
  "spw_wf spw \<longleftrightarrow> distinct (map fst (spw_slots spw))"

definition spw_same_params :: "spillway \<Rightarrow> spillway \<Rightarrow> bool" where
  "spw_same_params spw spw' \<longleftrightarrow> payload_size spw' = payload_size spw \<and> spw_max_bytes spw' = spw_max_bytes spw"

definition spw_same :: "spillway \<Rightarrow> spillway \<Rightarrow> bool" where
  "spw_same spw spw' \<longleftrightarrow> (\<exists>k. spw' = spw\<lparr>spw_calls := k\<rparr>)"

lemma spw_same_refl [simp]: "spw_same s s"
  by (auto simp: spw_same_def intro: exI [of _ "spw_calls s"])

lemma spw_same_calls [simp]: "spw_same s (s\<lparr>spw_calls := k\<rparr>)"
  by (auto simp: spw_same_def)

lemma spw_same_trans: "spw_same a b \<Longrightarrow> spw_same b c \<Longrightarrow> spw_same a c"
  by (auto simp: spw_same_def)

lemma spw_sameD:
  assumes "spw_same s t"
  shows "spw_backing t = spw_backing s" and "spw_slots t = spw_slots s"
    and "next_slot_index t = next_slot_index s" and "spw_same_params s t"
    and "spw_blob t = spw_blob s" and "spw_ok w t = spw_ok w s" and "payload_size t = payload_size s"
    and "is_resident t = is_resident s" and "spw_max_bytes t = spw_max_bytes s"
proof -
  from assms obtain k where t: "t = s\<lparr>spw_calls := k\<rparr>" by (auto simp: spw_same_def)
  show "spw_backing t = spw_backing s" and "spw_slots t = spw_slots s"
    and "next_slot_index t = next_slot_index s" and "payload_size t = payload_size s"
    and "spw_max_bytes t = spw_max_bytes s" and "spw_same_params s t"
    by (simp_all add: t spw_same_params_def)
  show "spw_blob t = spw_blob s" and "spw_ok w t = spw_ok w s" and "is_resident t = is_resident s"
    by (simp_all add: t spw_blob_def spw_ok_def slot_holds_def is_resident_def fun_eq_iff)
qed

lemma spw_ok_wf: "spw_ok w spw \<Longrightarrow> spw_wf spw"
  by (simp add: spw_ok_def spw_wf_def)

lemma spw_blob_resident: "spw_blob spw page_id \<noteq> None \<longleftrightarrow> is_resident spw page_id"
  by (simp add: spw_blob_def is_resident_def)

lemma spw_blob_dom: "dom (spw_blob spw) = fst ` set (spw_slots spw)"
  unfolding dom_map_of_conv_image_fst [symmetric] by (auto simp: spw_blob_def dom_def)

section \<open>Contracts of the operations\<close>

lemma spw_call_wp:
  assumes "\<And>t. spw_same s t \<Longrightarrow> Q () t"
    and "\<And>e t. io_failure e \<Longrightarrow> \<not> no_faults w \<Longrightarrow> spw_same s t \<Longrightarrow> E e t"
  shows "wp (spw_call w) Q E s"
  using assms by (auto simp: wp_def spw_call_def fault_not_ok split: option.splits)

lemma spw_write_wp:
  assumes "\<And>k. Q () (s\<lparr>spw_calls := k, spw_backing := File (pwrite off bs (spw_bytes s))\<rparr>)"
    and "\<And>e k b. io_failure e \<Longrightarrow> \<not> no_faults w \<Longrightarrow> E e (s\<lparr>spw_calls := k, spw_backing := b\<rparr>)"
  shows "wp (spw_write w off bs) Q E s"
  using assms by (auto simp: wp_def spw_write_def Let_def fault_not_ok split: option.splits)

text \<open>A slot write, on either backing: the slot's bytes, nothing else.\<close>

lemma write_slot_wp:
  assumes "length blob = payload_size s"
    and "\<And>k b. backing_bytes b = pwrite (i * slot_size s)
        (to_le_bytes page_id @ to_le_bytes (slot_checksum w page_id blob) @ blob) (spw_bytes s) \<Longrightarrow>
      Q () (s\<lparr>spw_calls := k, spw_backing := b\<rparr>)"
    and "\<And>e k b. io_failure e \<Longrightarrow> \<not> no_faults w \<Longrightarrow> E e (s\<lparr>spw_calls := k, spw_backing := b\<rparr>)"
  shows "wp (write_slot w i page_id blob) Q E s"
proof (cases "spw_backing s")
  case (File bs)
  let ?h = "to_le_bytes page_id @ to_le_bytes (slot_checksum w page_id blob)"
  have app: "pwrite (i * slot_size s + 16) blob (pwrite (i * slot_size s) ?h (spw_bytes s)) =
      pwrite (i * slot_size s) (to_le_bytes page_id @ to_le_bytes (slot_checksum w page_id blob) @ blob) (spw_bytes s)"
    using pwrite_append [of "i * slot_size s" ?h blob "spw_bytes s"] by simp
  have E: "E e (s\<lparr>spw_calls := k\<rparr>)" if "io_failure e" "\<not> no_faults w" for e k
    using assms(3) [OF that, where k = k and b = "spw_backing s"] by simp
  have "wp (and_then (spw_call w) (\<lambda>_. and_then (spw_write w (i * slot_size s) ?h) (\<lambda>_.
      spw_write w (i * slot_size s + 16) blob))) Q E s"
    unfolding wp_and_then
  proof (rule spw_call_wp)
    fix t assume "spw_same s t"
    then obtain k where t: "t = s\<lparr>spw_calls := k\<rparr>" by (auto simp: spw_same_def)
    show "wp (spw_write w (i * slot_size s) ?h) (\<lambda>a. wp (spw_write w (i * slot_size s + 16) blob) Q E) E t"
      unfolding t
      by (intro spw_write_wp) (use assms(2,3) app in \<open>auto simp del: append_assoc\<close>)
  qed (use E in \<open>auto simp: spw_same_def\<close>)
  then show ?thesis using File by (simp add: write_slot_def wp_simps Let_def)
next
  case (Memory bs)
  have "Q () (s\<lparr>spw_calls := spw_calls s, spw_backing := Memory (pwrite (i * slot_size s)
      (to_le_bytes page_id @ to_le_bytes (slot_checksum w page_id blob) @ blob) bs)\<rparr>)"
    using Memory by (intro assms(2)) simp
  then show ?thesis
    using Memory assms(1) by (simp add: write_slot_def wp_simps Let_def)
qed

lemma slot_written:
  fixes k :: nat
  assumes b: "backing_bytes b = pwrite (i * slot_size s)
      (to_le_bytes page_id @ to_le_bytes (slot_checksum w page_id blob) @ blob) (spw_bytes s)"
    and len: "length blob = payload_size s"
  defines "t \<equiv> s\<lparr>spw_calls := k, spw_backing := b\<rparr>"
  shows "slot_holds w t i page_id"
    and "get_bytes (i * slot_size s + 16) (payload_size s) (spw_bytes t) = blob"
    and "j \<noteq> i \<Longrightarrow> slot_holds w s j q \<Longrightarrow> slot_holds w t j q \<and>
      get_bytes (j * slot_size s + 16) (payload_size s) (spw_bytes t) =
      get_bytes (j * slot_size s + 16) (payload_size s) (spw_bytes s)"
proof -
  let ?rec = "to_le_bytes page_id @ to_le_bytes (slot_checksum w page_id blob) @ blob"
  have ne: "?rec \<noteq> []" by (metis append_is_Nil_conv length_0_conv length_to_le_bytes(3) zero_neq_numeral)
  have rlen: "length ?rec = slot_size s" using len by simp
  have in_rec: "get_bytes (i * slot_size s + m) n (spw_bytes t) = get_bytes m n ?rec" if "m + n \<le> slot_size s" for m n
    unfolding t_def using that rlen ne by (simp add: b get_pwrite_inside)
  have id: "get_u64 (i * slot_size s) (spw_bytes t) = page_id"
    using in_rec [of 0 8] by (simp add: get_u64_def get_bytes_def)
  have sum: "get_u64 (i * slot_size s + 8) (spw_bytes t) = slot_checksum w page_id blob"
    using in_rec [of 8 8] by (simp add: get_u64_def get_bytes_def)
  show blob: "get_bytes (i * slot_size s + 16) (payload_size s) (spw_bytes t) = blob"
    using in_rec [of 16 "payload_size s"] len by (simp add: get_bytes_def)
  have "i * slot_size s + slot_size s \<le> length (spw_bytes t)"
    unfolding t_def using length_pwrite [OF ne, of "i * slot_size s" "spw_bytes s"] rlen b by simp
  with id sum blob show "slot_holds w t i page_id" by (simp add: slot_holds_def Let_def t_def)
  assume "j \<noteq> i" and held: "slot_holds w s j q"
  have disj: "j * slot_size s + slot_size s \<le> i * slot_size s \<or> i * slot_size s + slot_size s \<le> j * slot_size s"
    by (rule units_disjoint) fact
  have inb: "j * slot_size s + slot_size s \<le> length (spw_bytes s)" using held by (simp add: slot_holds_def Let_def)
  have same: "get_bytes (j * slot_size s + m) n (spw_bytes t) = get_bytes (j * slot_size s + m) n (spw_bytes s)"
    if "m + n \<le> slot_size s" for m n
    unfolding t_def using that disj inb rlen by (simp add: b) (rule get_pwrite_other, auto)
  have "length (spw_bytes s) \<le> length (spw_bytes t)" unfolding t_def by (simp add: b length_pwrite_ge)
  then show "slot_holds w t j q \<and> get_bytes (j * slot_size s + 16) (payload_size s) (spw_bytes t) =
      get_bytes (j * slot_size s + 16) (payload_size s) (spw_bytes s)"
    using held same [of 0 8] same [of 8 8] same [of 16 "payload_size s"]
    by (simp add: slot_holds_def Let_def get_u64_def t_def)
qed

lemma spw_ok_update:
  fixes k :: nat
  assumes ok: "spw_ok w s" and len: "length blob = payload_size s"
    and b: "backing_bytes b = pwrite (i * slot_size s)
      (to_le_bytes page_id @ to_le_bytes (slot_checksum w page_id blob) @ blob) (spw_bytes s)"
    and fresh: "\<And>q. q \<noteq> page_id \<Longrightarrow> map_of (spw_slots s) q \<noteq> Some i"
    and slots: "map_of sl = (map_of (spw_slots s))(page_id \<mapsto> i)" "distinct (map fst sl)"
    and n: "next_slot_index s \<le> n" "i < n"
  defines "t \<equiv> s\<lparr>next_slot_index := n, spw_slots := sl, spw_calls := k, spw_backing := b\<rparr>"
  shows "spw_ok w t" and "spw_blob t = (spw_blob s)(page_id \<mapsto> blob)"
proof -
  note written = slot_written [OF b len, where k = k]
  have holds: "slot_holds w t = slot_holds w (s\<lparr>spw_calls := k, spw_backing := b\<rparr>)"
    by (simp add: t_def slot_holds_def fun_eq_iff)
  have old: "slot_holds w t j q \<and> get_bytes (j * slot_size s + 16) (payload_size s) (backing_bytes b) =
      get_bytes (j * slot_size s + 16) (payload_size s) (spw_bytes s)"
    if "q \<noteq> page_id" and j: "map_of (spw_slots s) q = Some j" for q j
  proof -
    have "j \<noteq> i" using that fresh by auto
    then show ?thesis using written(3) [where j = j and q = q] ok j unfolding holds by (simp add: spw_ok_def)
  qed
  have "inj": "p = q" if "map_of sl p = Some j" and "map_of sl q = Some j" for p q j
    using that fresh ok unfolding slots(1) spw_ok_def by (metis fun_upd_other fun_upd_same option.inject)
  have "j < n \<and> slot_holds w t j q" if j: "map_of sl q = Some j" for q j
  proof (cases "q = page_id")
    case True
    then show ?thesis using j written(1) n slots(1) holds by simp
  next
    case False
    then have j': "map_of (spw_slots s) q = Some j" using j slots(1) by simp
    then have "j < next_slot_index s" using ok unfolding spw_ok_def by blast
    then show ?thesis using old [OF False j'] n(1) by simp
  qed
  with "inj" slots(2) show "spw_ok w t" unfolding spw_ok_def by (auto simp: t_def)
  show "spw_blob t = (spw_blob s)(page_id \<mapsto> blob)"
  proof
    fix q
    show "spw_blob t q = ((spw_blob s)(page_id \<mapsto> blob)) q"
    proof (cases "q = page_id")
      case True
      then show ?thesis using written(2) slots(1) by (simp add: spw_blob_def t_def)
    next
      case False
      then show ?thesis
        using old slots(1) by (cases "map_of (spw_slots s) q") (simp_all add: spw_blob_def t_def)
    qed
  qed
qed

lemma spw_spill_wp:
  assumes ok: "spw_ok w s" and len: "length blob = payload_size s"
  shows "wp (spw_spill w page_id blob)
    (\<lambda>_ t. spw_ok w t \<and> spw_same_params s t \<and> spw_blob t = (spw_blob s)(page_id \<mapsto> blob))
    (\<lambda>e t. e = SpillwayFull (spw_max_bytes s) \<and> t = s \<and> \<not> is_resident s page_id \<or>
       io_failure e \<and> \<not> no_faults w \<and> spw_wf t \<and> spw_same_params s t) s"
    (is "wp _ ?Q ?E s")
proof (cases "map_of (spw_slots s) page_id")
  case (Some i)
  have i: "i < next_slot_index s" and fresh: "\<And>q. q \<noteq> page_id \<Longrightarrow> map_of (spw_slots s) q \<noteq> Some i"
    using ok Some unfolding spw_ok_def by blast+
  have "wp (write_slot w i page_id blob) ?Q ?E s"
  proof (rule write_slot_wp [OF len])
    fix k b
    assume b: "backing_bytes b = pwrite (i * slot_size s)
      (to_le_bytes page_id @ to_le_bytes (slot_checksum w page_id blob) @ blob) (spw_bytes s)"
    have "map_of (spw_slots s) = (map_of (spw_slots s))(page_id \<mapsto> i)" using Some by auto
    from spw_ok_update [OF ok len b fresh this _ order_refl i, where k = k]
    show "?Q () (s\<lparr>spw_calls := k, spw_backing := b\<rparr>)"
      using ok by (simp add: spw_ok_def [of w s] spw_same_params_def)
  qed (use ok in \<open>auto simp: spw_wf_def spw_ok_def spw_same_params_def\<close>)
  then show ?thesis using Some by (simp add: spw_spill_def wp_simps)
next
  case None
  let ?i = "next_slot_index s"
  let ?s = "s\<lparr>next_slot_index := ?i + 1, spw_slots := AList.update page_id ?i (spw_slots s)\<rparr>"
  have "wp (write_slot w ?i page_id blob) ?Q ?E ?s"
  proof (rule write_slot_wp, goal_cases)
    case 1
    then show ?case using len by simp
  next
    case (2 k b)
    then have b: "backing_bytes b = pwrite (?i * slot_size s)
      (to_le_bytes page_id @ to_le_bytes (slot_checksum w page_id blob) @ blob) (spw_bytes s)" by simp
    have fresh: "map_of (spw_slots s) q \<noteq> Some ?i" for q
      using ok unfolding spw_ok_def by (metis less_irrefl)
    have "distinct (map fst (AList.update page_id ?i (spw_slots s)))" using ok by (simp add: spw_ok_def)
    from spw_ok_update [OF ok len b fresh _ this, of "Suc ?i" k]
    show ?case by (simp add: spw_same_params_def)
  qed (use ok in \<open>auto simp: spw_wf_def spw_ok_def spw_same_params_def\<close>)
  then show ?thesis using None by (simp add: spw_spill_def wp_simps Let_def is_resident_def)
qed

lemma read_slot_wp:
  assumes "slot_holds w s i page_id"
  shows "wp (read_slot w i)
    (\<lambda>r t. spw_same s t \<and> r = (page_id, slot_checksum w page_id (get_bytes (i * slot_size s + 16) (payload_size s) (spw_bytes s)),
       get_bytes (i * slot_size s + 16) (payload_size s) (spw_bytes s)))
    (\<lambda>e t. io_failure e \<and> \<not> no_faults w \<and> spw_same s t) s"
proof (cases "spw_backing s")
  case (File bs)
  then show ?thesis
    using assms
    by (auto simp: read_slot_def wp_simps slot_holds_def Let_def intro!: spw_call_wp) (blast intro: spw_same_trans)+
next
  case (Memory bs)
  then show ?thesis using assms by (simp add: read_slot_def wp_simps slot_holds_def Let_def)
qed

lemma spw_rehydrate_wp:
  assumes "spw_ok w s" and "spw_blob s page_id = Some blob"
  shows "wp (spw_rehydrate w page_id) (\<lambda>b t. b = blob \<and> spw_same s t)
    (\<lambda>e t. io_failure e \<and> \<not> no_faults w \<and> spw_same s t) s"
proof -
  obtain i where i: "map_of (spw_slots s) page_id = Some i"
    and blob: "blob = get_bytes (i * slot_size s + 16) (payload_size s) (spw_bytes s)"
    using assms(2) by (auto simp: spw_blob_def)
  have "slot_holds w s i page_id" using assms(1) i unfolding spw_ok_def by blast
  note r = read_slot_wp [OF this]
  show ?thesis
    using i by (simp add: spw_rehydrate_def wp_simps) (rule wp_mono [OF r], auto simp: wp_simps blob)
qed

lemma spw_ok_subset:
  assumes "spw_ok w s" and "distinct (map fst sl)" and "map_of sl \<subseteq>\<^sub>m map_of (spw_slots s)"
  shows "spw_ok w (s\<lparr>spw_slots := sl\<rparr>)"
proof -
  have m: "map_of (spw_slots s) p = Some i" if "map_of sl p = Some i" for p i
    using that assms(3) by (metis domI map_le_def)
  have same: "slot_holds w (s\<lparr>spw_slots := sl\<rparr>) i p = slot_holds w s i p" for i p
    by (simp add: slot_holds_def)
  show ?thesis
    unfolding spw_ok_def same using assms(1,2) m unfolding spw_ok_def [of w s] by (simp del: map_of_eq_Some_iff) blast
qed

lemma spw_forget_ok:
  assumes "spw_ok w s"
  shows "spw_ok w (spw_forget page_id s)" and "spw_blob (spw_forget page_id s) = (spw_blob s)(page_id := None)"
    and "spw_same_params s (spw_forget page_id s)"
proof -
  show "spw_ok w (spw_forget page_id s)"
    unfolding spw_forget_def using assms
    by (intro spw_ok_subset) (auto simp: spw_ok_def map_le_def)
qed (auto simp: spw_forget_def spw_blob_def spw_same_params_def)

lemma map_of_filter_keys: "map_of (filter (\<lambda>(k, _). P k) al) k = (if P k then map_of al k else None)"
  by (induction al) auto

lemma spw_forget_above_ok:
  assumes "spw_ok w s"
  shows "spw_ok w (spw_forget_above n s)"
    and "spw_blob (spw_forget_above n s) = (\<lambda>p. if p < n then spw_blob s p else None)"
    and "spw_same_params s (spw_forget_above n s)"
proof -
  have "distinct (map fst (filter (\<lambda>(p, _). p < n) (spw_slots s)))"
    using assms by (simp add: spw_ok_def distinct_map_filter)
  then show "spw_ok w (spw_forget_above n s)"
    unfolding spw_forget_above_def using assms
    by (intro spw_ok_subset) (auto simp: map_le_def map_of_filter_keys split: if_splits)
qed (auto simp: spw_forget_above_def spw_blob_def spw_same_params_def map_of_filter_keys)

lemma spw_forget_wf: "spw_wf s \<Longrightarrow> spw_wf (spw_forget page_id s)"
  by (simp add: spw_wf_def spw_forget_def)

lemma spw_forget_above_wf: "spw_wf s \<Longrightarrow> spw_wf (spw_forget_above n s)"
  by (simp add: spw_wf_def spw_forget_above_def distinct_map_filter)

lemma spw_empty_ok: "spw_slots s = [] \<Longrightarrow> spw_ok w s \<and> spw_blob s = Map.empty"
  by (simp add: spw_ok_def spw_blob_def fun_eq_iff)

lemma spw_truncate_wp:
  "wp (spw_truncate w) (\<lambda>_ t. spw_slots t = [] \<and> spw_same_params s t)
     (\<lambda>e t. io_failure e \<and> \<not> no_faults w \<and> spw_slots t = [] \<and> spw_same_params s t) s"
proof (cases "spw_backing s")
  case (File bs)
  then show ?thesis
    by (auto simp: spw_truncate_def wp_simps spw_same_params_def spw_same_def intro!: spw_call_wp)
next
  case (Memory bs)
  then show ?thesis by (simp add: spw_truncate_def wp_simps spw_same_params_def)
qed

lemma spw_open_file_wp:
  "wp (spw_open_file w mb payload)
     (\<lambda>s k. spw_slots s = [] \<and> payload_size s = payload \<and> spw_max_bytes s = mb)
     (\<lambda>e k. io_failure e \<and> \<not> no_faults w) k"
proof -
  have call: "wp (sidecar_call w) (\<lambda>_ _. True) (\<lambda>e k. \<not> no_faults w) k" for k
    by (auto simp: wp_def sidecar_call_def fault_not_ok split: option.splits)
  have again: "wp (or_else (sidecar_call w) (\<lambda>e. err (IoError e))) (\<lambda>_ _. True)
      (\<lambda>e k. io_failure e \<and> \<not> no_faults w) k" for k
    unfolding wp_or_else by (rule wp_mono [OF call]) (auto simp: wp_simps)
  have reclaim: "wp (reclaim_stale_sidecar w) (\<lambda>_ _. True) (\<lambda>e k. io_failure e \<and> \<not> no_faults w) k"
    if "\<not> no_faults w" for k
    unfolding reclaim_stale_sidecar_def wp_and_then
    by (rule wp_mono [OF again]) (use again that in \<open>auto simp: wp_gets wp_err\<close>)
  show ?thesis
    unfolding spw_open_file_def wp_and_then wp_or_else
    by (rule wp_mono [OF call])
      (auto simp: wp_gets wp_ok wp_err wp_and_then intro!: wp_mono [OF reclaim] wp_mono [OF again])
qed

section \<open>Properties\<close>



text \<open>
  C27. Whatever the sidecar holds, a rehydrated payload is checked: it comes from the slot of that
  page, whose header carries the page's id and the checksum of id and payload. Anything else is an
  error, and the spillway's bookkeeping is untouched.
\<close>

theorem rehydrate_is_checked:
  "wp (spw_rehydrate w page_id)
     (\<lambda>b t. spw_same s t \<and> (\<exists>i. map_of (spw_slots s) page_id = Some i \<and>
        get_u64 (i * slot_size s) (spw_bytes s) = page_id \<and>
        get_u64 (i * slot_size s + 8) (spw_bytes s) = slot_checksum w page_id b \<and>
        b = get_bytes (i * slot_size s + 16) (payload_size s) (spw_bytes s)))
     (\<lambda>e t. spw_same s t) s"
proof (cases "map_of (spw_slots s) page_id")
  case None
  then show ?thesis by (simp add: spw_rehydrate_def wp_simps)
next
  case (Some i)
  have "wp (read_slot w i)
      (\<lambda>r t. spw_same s t \<and> r = (get_u64 (i * slot_size s) (spw_bytes s), get_u64 (i * slot_size s + 8) (spw_bytes s),
         get_bytes (i * slot_size s + 16) (payload_size s) (spw_bytes s))) (\<lambda>e t. spw_same s t) s"
    by (cases "spw_backing s")
      (auto simp: read_slot_def wp_simps Let_def intro!: spw_call_wp dest: spw_same_trans)
  then show ?thesis
    using Some unfolding spw_rehydrate_def
    by (simp add: wp_simps) (rule wp_mono, assumption, auto simp: wp_simps)
qed

end
