(* ===== verification/Page_Cache.thy ===== *)
theory Page_Cache
  imports Lru_Index Page_Crypto Spill_Way
begin

text \<open>
  The page cache of \<open>src/src/page_cache.rs\<close>: a write-back cache over the page device, with an LRU
  recency list, a dirty count, a spillway for dirty pages that do not fit, an optional page cipher,
  and checksums that may be stamped late. A borrow \<open>&mut [u8]\<close> of a cached page is a read of the
  buffer followed by a store of the new contents (\<open>pc_store\<close>) before any other cache call.
  \<open>rng_draws\<close> and \<open>spill_clock\<close> are ghost counters of random draws and of sidecar open calls.
\<close>

section \<open>State\<close>

datatype drain_insertion = LruTail | Mru

datatype spillway_location = SpillPath string | InMemory

record cache_entry =
  ce_buf :: page
  ce_dirty :: bool
  ce_needs_stamp :: bool

definition stamp_deferred :: "world \<Rightarrow> cache_entry \<Rightarrow> cache_entry" where
  "stamp_deferred w e =
     (if ce_needs_stamp e then e\<lparr>ce_buf := stamp_checksum (w_xxh w) (ce_buf e), ce_needs_stamp := False\<rparr> else e)"

record page_cache =
  pc_io :: page_io
  entries :: "(u64 \<times> cache_entry) list"
  pc_lru :: lru_index
  dirty_count :: nat
  dirty_scratch :: "u64 list"
  max_pages :: nat
  spillway_max_bytes :: u64
  drain_policy :: drain_insertion
  spillway_loc :: spillway_location
  pc_spillway :: "spillway option"
  next_page_id :: u64
  cipher :: "u8 list option"
  cache_hits :: u64
  cache_misses :: u64
  pages_allocated :: u64
  rng_draws :: nat
  spill_clock :: nat

type_synonym 'a cache_op = "(page_cache, chisel_error, 'a) op"

section \<open>Operations\<close>

definition pages_for_bytes :: "u64 \<Rightarrow> nat" where
  "pages_for_bytes bytes = unat (max (bytes div word_of_nat PAGE_SIZE) 1)"

definition page_cache_new :: "page_io \<Rightarrow> u64 \<Rightarrow> u64 \<Rightarrow> drain_insertion \<Rightarrow> spillway_location \<Rightarrow> page_cache" where
  "page_cache_new io cache_max_bytes spill_max policy loc =
     \<lparr>pc_io = io, entries = [], pc_lru = lru_new, dirty_count = 0, dirty_scratch = [],
      max_pages = pages_for_bytes cache_max_bytes, spillway_max_bytes = spill_max,
      drain_policy = policy, spillway_loc = loc, pc_spillway = None,
      next_page_id = io_page_count io, cipher = None,
      cache_hits = 0, cache_misses = 0, pages_allocated = 0, rng_draws = 0, spill_clock = 0\<rparr>"

definition on_io :: "(page_io, chisel_error, 'a) op \<Rightarrow> 'a cache_op" where
  "on_io m = on_field pc_io (\<lambda>io s. s\<lparr>pc_io := io\<rparr>) m"

text \<open>\<open>self.spillway.as_mut().unwrap()\<close>\<close>

definition on_spw :: "(spillway, chisel_error, 'a) op \<Rightarrow> 'a cache_op" where
  "on_spw m = (\<lambda>s. case pc_spillway s of
     None \<Rightarrow> (Panic, s)
   | Some spw \<Rightarrow> (case m spw of (r, spw') \<Rightarrow> (r, s\<lparr>pc_spillway := Some spw'\<rparr>)))"

text \<open>\<open>if let Some(spw) = self.spillway.as_mut()\<close> around an infallible call\<close>

definition modify_spw :: "(spillway \<Rightarrow> spillway) \<Rightarrow> page_cache \<Rightarrow> page_cache" where
  "modify_spw f s = s\<lparr>pc_spillway := map_option f (pc_spillway s)\<rparr>"

definition touch_lru :: "u64 \<Rightarrow> page_cache \<Rightarrow> page_cache" where
  "touch_lru page_id s = s\<lparr>pc_lru := lru_push_front (pc_lru s) page_id\<rparr>"

definition untrack_dirty :: "bool \<Rightarrow> page_cache \<Rightarrow> page_cache" where
  "untrack_dirty was_dirty s = (if was_dirty then s\<lparr>dirty_count := dirty_count s - 1\<rparr> else s)"

definition insert_entry :: "u64 \<Rightarrow> cache_entry \<Rightarrow> page_cache \<Rightarrow> page_cache" where
  "insert_entry page_id e s = s\<lparr>entries := AList.update page_id e (entries s)\<rparr>"

definition remove_entry :: "u64 \<Rightarrow> page_cache \<Rightarrow> page_cache" where
  "remove_entry page_id s = s\<lparr>entries := AList.delete page_id (entries s)\<rparr>"

definition lru_drop :: "u64 \<Rightarrow> page_cache \<Rightarrow> page_cache" where
  "lru_drop page_id s = s\<lparr>pc_lru := snd (lru_remove (pc_lru s) page_id)\<rparr>"

text \<open>The first clean page in eviction order.\<close>

definition clean_victim :: "page_cache \<Rightarrow> u64 option" where
  "clean_victim s = find (\<lambda>i. case map_of (entries s) i of Some e \<Rightarrow> \<not> ce_dirty e | None \<Rightarrow> False)
     (iter_lru_to_mru (pc_lru s))"

lemma clean_victim_Some:
  "clean_victim s = Some i \<Longrightarrow> \<exists>e. map_of (entries s) i = Some e \<and> \<not> ce_dirty e"
  by (auto simp: clean_victim_def find_Some_iff split: option.splits)

function evict_clean_to_cap :: "page_cache \<Rightarrow> page_cache" where
  "evict_clean_to_cap s =
     (if max_pages s < length (entries s) then
        if dirty_count s = length (entries s) then s
        else case clean_victim s of
               Some i \<Rightarrow> evict_clean_to_cap (lru_drop i (remove_entry i s))
             | None \<Rightarrow> s
      else s)"
  by pat_completeness auto
termination
proof (relation "measure (\<lambda>s. length (entries s))", goal_cases)
  case (2 s i)
  then obtain e where "map_of (entries s) i = Some e" using clean_victim_Some by blast
  then have "length (AList.delete i (entries s)) < length (entries s)"
    by (intro length_delete_less) (rule map_of_SomeD_keys)
  then show ?case by (simp add: lru_drop_def remove_entry_def)
qed simp

declare evict_clean_to_cap.simps [simp del]

definition ensure_spillway :: "world \<Rightarrow> unit cache_op" where
  "ensure_spillway w =
     and_then (gets id) (\<lambda>s.
     case pc_spillway s of
       Some _ \<Rightarrow> ok ()
     | None \<Rightarrow>
         let payload = (if cipher s \<noteq> None then ENC_PAGE_SIZE else PAGE_SIZE)
         in and_then (case spillway_loc s of
                SpillPath _ \<Rightarrow> on_field spill_clock (\<lambda>k s. s\<lparr>spill_clock := k\<rparr>)
                                (spw_open_file w (spillway_max_bytes s) payload)
              | InMemory \<Rightarrow> ok (spw_open_memory (spillway_max_bytes s) payload (spill_clock s))) (\<lambda>spw.
            modify (\<lambda>s. s\<lparr>pc_spillway := Some spw\<rparr>)))"

definition seal_page :: "world \<Rightarrow> u64 \<Rightarrow> page \<Rightarrow> u8 list cache_op" where
  "seal_page w page_id plaintext = (\<lambda>s. case cipher s of
     None \<Rightarrow> (Ok plaintext, s)
   | Some dek \<Rightarrow>
       (case page_cipher_seal w dek (rng_draws s) page_id plaintext of
          None \<Rightarrow> (Panic, s)
        | Some blob \<Rightarrow> (Ok blob, s\<lparr>rng_draws := Suc (rng_draws s)\<rparr>)))"

text \<open>One iteration of the spill loop of \<open>maybe_evict\<close>; a failed spill puts the victim back.\<close>

definition spill_victim :: "world \<Rightarrow> u64 \<Rightarrow> cache_entry \<Rightarrow> unit cache_op" where
  "spill_victim w victim_id entry0 =
     (let entry = stamp_deferred w entry0
      in and_then (modify (untrack_dirty (ce_dirty entry) \<circ> lru_drop victim_id \<circ> remove_entry victim_id)) (\<lambda>_.
         and_then (seal_page w victim_id (ce_buf entry)) (\<lambda>spill_blob.
         or_else (and_then (ensure_spillway w) (\<lambda>_. on_spw (spw_spill w victim_id spill_blob))) (\<lambda>e.
         and_then (modify (\<lambda>s. if ce_dirty entry then s\<lparr>dirty_count := dirty_count s + 1\<rparr> else s)) (\<lambda>_.
         and_then (modify (\<lambda>s. s\<lparr>pc_lru := lru_push_back (pc_lru s) victim_id\<rparr>)) (\<lambda>_.
         and_then (modify (insert_entry victim_id entry)) (\<lambda>_.
         err e)))))))"

text \<open>The spill loop; every iteration removes an entry, so the number of entries is fuel enough.\<close>

fun spill_loop :: "world \<Rightarrow> nat \<Rightarrow> unit cache_op" where
  "spill_loop w 0 = ok ()"
| "spill_loop w (Suc n) =
     and_then (gets id) (\<lambda>s.
     if length (entries s) \<le> max_pages s then ok ()
     else if spillway_max_bytes s = 0 then err (CacheFull (max_pages s))
     else case iter_lru_to_mru (pc_lru s) of
            [] \<Rightarrow> ok ()
          | victim_id # _ \<Rightarrow>
              (case map_of (entries s) victim_id of
                 None \<Rightarrow> err (CorruptPage victim_id)
               | Some entry \<Rightarrow> and_then (spill_victim w victim_id entry) (\<lambda>_. spill_loop w n)))"

definition maybe_evict :: "world \<Rightarrow> unit cache_op" where
  "maybe_evict w =
     and_then (modify evict_clean_to_cap) (\<lambda>_.
     and_then (gets (\<lambda>s. length (entries s))) (\<lambda>n.
     spill_loop w n))"

text \<open>The plaintext of a spilled blob: \<open>try_into\<close> checks its length.\<close>

definition open_blob :: "world \<Rightarrow> u8 list option \<Rightarrow> u64 \<Rightarrow> u8 list \<Rightarrow> page option" where
  "open_blob w c page_id blob =
     (case c of
        Some dek \<Rightarrow> if length blob \<noteq> ENC_PAGE_SIZE then None
                    else (case page_cipher_open w dek page_id blob of Inl _ \<Rightarrow> None | Inr pt \<Rightarrow> Some pt)
      | None \<Rightarrow> if length blob \<noteq> PAGE_SIZE then None else Some blob)"

definition opt_or_err :: "chisel_error \<Rightarrow> 'a option \<Rightarrow> 'a cache_op" where
  "opt_or_err e x = (case x of None \<Rightarrow> err e | Some a \<Rightarrow> ok a)"

definition spilled :: "page_cache \<Rightarrow> u64 \<Rightarrow> bool" where
  "spilled s page_id = (case pc_spillway s of None \<Rightarrow> False | Some spw \<Rightarrow> is_resident spw page_id)"

definition load_spilled :: "world \<Rightarrow> u64 \<Rightarrow> unit cache_op" where
  "load_spilled w page_id =
     and_then (on_spw (spw_rehydrate w page_id)) (\<lambda>blob.
     and_then (modify (modify_spw (spw_forget page_id))) (\<lambda>_.
     and_then (gets cipher) (\<lambda>c.
     and_then (opt_or_err (DecryptionFailed page_id) (open_blob w c page_id blob)) (\<lambda>buf.
     modify (touch_lru page_id \<circ> (\<lambda>s. s\<lparr>dirty_count := dirty_count s + 1\<rparr>) \<circ>
       insert_entry page_id \<lparr>ce_buf = buf, ce_dirty = True, ce_needs_stamp = False\<rparr>)))))"

definition load_from_disk :: "world \<Rightarrow> u64 \<Rightarrow> unit cache_op" where
  "load_from_disk w page_id =
     and_then (gets (stride \<circ> pc_io)) (\<lambda>n.
     if ENC_PAGE_SIZE < n then panic
     else and_then (on_io (read_page_unit_into w page_id)) (\<lambda>unit.
     let on_disk = unit @ replicate (ENC_PAGE_SIZE - length unit) 0
     in and_then (gets cipher) (\<lambda>c.
     and_then (case c of
         Some dek \<Rightarrow> (case page_cipher_open w dek page_id on_disk of
                         Inl _ \<Rightarrow> err (DecryptionFailed page_id) | Inr pt \<Rightarrow> ok pt)
       | None \<Rightarrow> ok (take PAGE_SIZE on_disk)) (\<lambda>plaintext.
     if \<not> verify_checksum (w_xxh w) plaintext then err (ChecksumMismatch page_id)
     else modify (touch_lru page_id \<circ>
       insert_entry page_id \<lparr>ce_buf = plaintext, ce_dirty = False, ce_needs_stamp = False\<rparr>)))))"

definition load_page :: "world \<Rightarrow> u64 \<Rightarrow> unit cache_op" where
  "load_page w page_id =
     and_then (maybe_evict w) (\<lambda>_.
     and_then (gets (\<lambda>s. spilled s page_id)) (\<lambda>res.
     if res then load_spilled w page_id else load_from_disk w page_id))"

definition ensure_loaded :: "world \<Rightarrow> u64 \<Rightarrow> unit cache_op" where
  "ensure_loaded w page_id =
     and_then (gets (\<lambda>s. map_of (entries s) page_id \<noteq> None)) (\<lambda>hit.
     and_then (if hit then modify (\<lambda>s. s\<lparr>cache_hits := cache_hits s + 1\<rparr>)
               else and_then (modify (\<lambda>s. s\<lparr>cache_misses := cache_misses s + 1\<rparr>)) (\<lambda>_.
                    load_page w page_id)) (\<lambda>_.
     modify (touch_lru page_id)))"

text \<open>\<open>self.entries.get(&page_id).unwrap()\<close>\<close>

definition entry_at :: "u64 \<Rightarrow> cache_entry cache_op" where
  "entry_at page_id = and_then (gets (\<lambda>s. map_of (entries s) page_id)) (\<lambda>x.
     case x of None \<Rightarrow> panic | Some e \<Rightarrow> ok e)"

definition pc_get :: "world \<Rightarrow> u64 \<Rightarrow> page cache_op" where
  "pc_get w page_id =
     and_then (ensure_loaded w page_id) (\<lambda>_.
     and_then (entry_at page_id) (\<lambda>e. ok (ce_buf e)))"

definition pc_get_mut :: "world \<Rightarrow> u64 \<Rightarrow> page cache_op" where
  "pc_get_mut w page_id =
     and_then (ensure_loaded w page_id) (\<lambda>_.
     and_then (entry_at page_id) (\<lambda>e.
     and_then (if \<not> ce_dirty e
               then modify (\<lambda>s. insert_entry page_id (e\<lparr>ce_dirty := True\<rparr>) (s\<lparr>dirty_count := dirty_count s + 1\<rparr>))
               else ok ()) (\<lambda>_.
     ok (ce_buf e))))"

text \<open>Writing through the reference \<open>get_mut\<close> returned.\<close>

definition pc_store :: "u64 \<Rightarrow> page \<Rightarrow> unit cache_op" where
  "pc_store page_id buf = and_then (entry_at page_id) (\<lambda>e. modify (insert_entry page_id (e\<lparr>ce_buf := buf\<rparr>)))"

definition pc_with_mut :: "world \<Rightarrow> u64 \<Rightarrow> (page \<Rightarrow> page) \<Rightarrow> unit cache_op" where
  "pc_with_mut w page_id f = and_then (pc_get_mut w page_id) (\<lambda>buf. pc_store page_id (f buf))"

definition pc_get_mut_deferred_stamp :: "world \<Rightarrow> u64 \<Rightarrow> page cache_op" where
  "pc_get_mut_deferred_stamp w page_id =
     and_then (pc_get_mut w page_id) (\<lambda>_.
     and_then (entry_at page_id) (\<lambda>e.
     and_then (modify (insert_entry page_id (e\<lparr>ce_needs_stamp := True\<rparr>))) (\<lambda>_.
     ok (ce_buf e))))"

definition zero_entry :: cache_entry where
  "zero_entry = \<lparr>ce_buf = zero_page, ce_dirty = True, ce_needs_stamp = False\<rparr>"

definition pc_new_page :: "world \<Rightarrow> u64 cache_op" where
  "pc_new_page w =
     and_then (gets next_page_id) (\<lambda>page_id.
     and_then (modify (\<lambda>s. s\<lparr>next_page_id := next_page_id s + 1\<rparr>)) (\<lambda>_.
     and_then (modify (touch_lru page_id \<circ> (\<lambda>s. s\<lparr>dirty_count := dirty_count s + 1\<rparr>) \<circ>
       insert_entry page_id zero_entry)) (\<lambda>_.
     and_then (modify (\<lambda>s. s\<lparr>pages_allocated := pages_allocated s + 1\<rparr>)) (\<lambda>_.
     and_then (maybe_evict w) (\<lambda>_.
     ok page_id)))))"

definition write_sealed :: "world \<Rightarrow> u64 \<Rightarrow> page \<Rightarrow> unit cache_op" where
  "write_sealed w page_id plaintext =
     and_then (seal_page w page_id plaintext) (\<lambda>blob. on_io (write_page_unit w page_id blob))"

definition flush_one :: "world \<Rightarrow> u64 \<Rightarrow> unit cache_op" where
  "flush_one w page_id =
     and_then (entry_at page_id) (\<lambda>e0.
     let e = stamp_deferred w e0
     in and_then (modify (insert_entry page_id e)) (\<lambda>_.
        and_then (write_sealed w page_id (ce_buf e)) (\<lambda>_.
        and_then (entry_at page_id) (\<lambda>e.
        and_then (modify (insert_entry page_id (e\<lparr>ce_dirty := False\<rparr>))) (\<lambda>_.
        modify (\<lambda>s. s\<lparr>dirty_count := dirty_count s - 1\<rparr>))))))"

definition drain_one :: "world \<Rightarrow> u64 \<Rightarrow> unit cache_op" where
  "drain_one w page_id =
     and_then (on_spw (spw_rehydrate w page_id)) (\<lambda>blob.
     and_then (modify (modify_spw (spw_forget page_id))) (\<lambda>_.
     and_then (gets cipher) (\<lambda>c.
     if length blob \<noteq> (if c = None then PAGE_SIZE else ENC_PAGE_SIZE) then err (DecryptionFailed page_id)
     else and_then (on_io (write_page_unit w page_id blob)) (\<lambda>_.
     and_then (opt_or_err (DecryptionFailed page_id) (open_blob w c page_id blob)) (\<lambda>plaintext.
     modify (\<lambda>s. if map_of (entries s) page_id = None
       then (case drain_policy s of
               LruTail \<Rightarrow> s\<lparr>pc_lru := lru_push_back (pc_lru s) page_id\<rparr>
             | Mru \<Rightarrow> s\<lparr>pc_lru := lru_push_front (pc_lru s) page_id\<rparr>)
            \<lparr>entries := AList.update page_id
               \<lparr>ce_buf = plaintext, ce_dirty = False, ce_needs_stamp = False\<rparr> (entries s)\<rparr>
       else s))))))"

text \<open>The drain loop; every batch empties at least one slot, so the slot count is fuel enough.\<close>

fun drain_loop :: "world \<Rightarrow> nat \<Rightarrow> unit cache_op" where
  "drain_loop w 0 = ok ()"
| "drain_loop w (Suc n) =
     and_then (gets (\<lambda>s. case pc_spillway s of
         Some spw \<Rightarrow> if 0 < spw_slot_count spw then drain_batch spw (max_pages s) else []
       | None \<Rightarrow> [])) (\<lambda>batch.
     if batch = [] then ok ()
     else and_then (for_each batch (drain_one w)) (\<lambda>_.
          and_then (modify evict_clean_to_cap) (\<lambda>_.
          drain_loop w n)))"

definition truncate_spillway :: "world \<Rightarrow> unit cache_op" where
  "truncate_spillway w =
     and_then (gets pc_spillway) (\<lambda>x. if x = None then ok () else on_spw (spw_truncate w))"

definition dirty_ids :: "page_cache \<Rightarrow> u64 list" where
  "dirty_ids s = map fst (filter (\<lambda>(_, e). ce_dirty e) (entries s))"

definition pc_flush :: "world \<Rightarrow> unit cache_op" where
  "pc_flush w =
     and_then (gets (\<lambda>s. dirty_scratch s @ dirty_ids s)) (\<lambda>scratch.
     and_then (modify (\<lambda>s. s\<lparr>dirty_scratch := []\<rparr>)) (\<lambda>_.
     and_then (for_each scratch (flush_one w)) (\<lambda>_.
     and_then (modify (\<lambda>s. s\<lparr>dirty_scratch := [], dirty_count := 0\<rparr>)) (\<lambda>_.
     and_then (gets (\<lambda>s. case pc_spillway s of Some spw \<Rightarrow> spw_slot_count spw | None \<Rightarrow> 0)) (\<lambda>n.
     and_then (drain_loop w n) (\<lambda>_.
     and_then (truncate_spillway w) (\<lambda>_.
     on_io (fsync w))))))))"

definition drop_page :: "u64 \<Rightarrow> page_cache \<Rightarrow> page_cache" where
  \<comment> \<open>\<open>PageCache::discard\<close>\<close>
  "drop_page page_id s =
     lru_drop page_id
       (case map_of (entries s) page_id of
          None \<Rightarrow> s
        | Some e \<Rightarrow> untrack_dirty (ce_dirty e) (remove_entry page_id s))"

text \<open>\<open>let _ = spw.truncate()\<close>: the result is dropped.\<close>

definition discard_all_dirty :: "world \<Rightarrow> page_cache \<Rightarrow> page_cache" where
  "discard_all_dirty w s0 =
     (let s1 = fold (\<lambda>i s. lru_drop i (remove_entry i s)) (dirty_scratch s0 @ dirty_ids s0) s0;
          s2 = s1\<lparr>dirty_scratch := [], dirty_count := 0\<rparr>
      in modify_spw (\<lambda>spw. snd (spw_truncate w spw)) s2)"

definition pc_truncate :: "world \<Rightarrow> u64 \<Rightarrow> unit cache_op" where
  "pc_truncate w n =
     and_then (modify (\<lambda>s. fold drop_page (filter (\<lambda>i. n \<le> i) (map fst (entries s))) s)) (\<lambda>_.
     and_then (modify (modify_spw (spw_forget_above n))) (\<lambda>_.
     and_then (on_io (set_page_count w n)) (\<lambda>_.
     modify (\<lambda>s. if n < next_page_id s then s\<lparr>next_page_id := n\<rparr> else s))))"

definition reissue_page :: "world \<Rightarrow> u64 \<Rightarrow> unit cache_op" where
  "reissue_page w page_id =
     and_then (gets (\<lambda>s. case map_of (entries s) page_id of Some e \<Rightarrow> ce_dirty e | None \<Rightarrow> False)) (\<lambda>was_dirty.
     and_then (modify (untrack_dirty was_dirty \<circ> remove_entry page_id)) (\<lambda>_.
     and_then (modify (modify_spw (spw_forget page_id))) (\<lambda>_.
     and_then (modify (\<lambda>s. (insert_entry page_id zero_entry s)
       \<lparr>dirty_count := dirty_count s + 1, pages_allocated := pages_allocated s + 1\<rparr>)) (\<lambda>_.
     and_then (modify (touch_lru page_id)) (\<lambda>_.
     maybe_evict w)))))"

definition claim_page :: "world \<Rightarrow> u64 \<Rightarrow> unit cache_op" where
  "claim_page w page_id = reissue_page w page_id"

definition reclaim_dead_txn_page :: "world \<Rightarrow> u64 \<Rightarrow> unit cache_op" where
  "reclaim_dead_txn_page w page_id = reissue_page w page_id"

definition set_next_page_id :: "u64 \<Rightarrow> page_cache \<Rightarrow> page_cache" where
  "set_next_page_id i s = s\<lparr>next_page_id := i\<rparr>"

definition set_cache_max_bytes :: "u64 \<Rightarrow> page_cache \<Rightarrow> page_cache" where
  "set_cache_max_bytes bytes s = evict_clean_to_cap (s\<lparr>max_pages := pages_for_bytes bytes\<rparr>)"

definition set_spillway_max_bytes :: "u64 \<Rightarrow> page_cache \<Rightarrow> page_cache" where
  "set_spillway_max_bytes bytes s = modify_spw (set_max_bytes bytes) (s\<lparr>spillway_max_bytes := bytes\<rparr>)"

definition set_drain_insertion :: "drain_insertion \<Rightarrow> page_cache \<Rightarrow> page_cache" where
  "set_drain_insertion policy s = s\<lparr>drain_policy := policy\<rparr>"

definition set_cipher :: "u8 list \<Rightarrow> page_cache \<Rightarrow> page_cache" where
  "set_cipher dek s = s\<lparr>cipher := Some dek\<rparr>"

definition is_dirty :: "page_cache \<Rightarrow> u64 \<Rightarrow> bool" where
  "is_dirty s page_id \<longleftrightarrow>
     (case map_of (entries s) page_id of Some e \<Rightarrow> ce_dirty e | None \<Rightarrow> False) \<or> spilled s page_id"

definition copy_page :: "world \<Rightarrow> u64 \<Rightarrow> u64 \<Rightarrow> unit cache_op" where
  "copy_page w src dst = and_then (pc_get w src) (\<lambda>bytes. pc_with_mut w dst (\<lambda>_. bytes))"

definition spillway_capacity :: "page_cache \<Rightarrow> (u64 \<times> u64) option" where
  "spillway_capacity s = map_option (\<lambda>spw. (logical_bytes spw, spw_max_bytes spw)) (pc_spillway s)"

end
