(* ===== verification/Cache_Invariant.thy ===== *)
theory Cache_Invariant
  imports Page_Cache
begin

text \<open>
  What the page cache means and what it keeps. \<open>pc_view\<close> is the page a client sees: the cached
  buffer with its deferred checksum settled, else the spilled copy, else the page on disk.
  \<open>pc_wf\<close> is the bookkeeping every outcome keeps, failed writes included; \<open>pc_inv\<close> adds that the
  spillway is intact and disjoint from the cache.
\<close>

section \<open>Bookkeeping: entries, recency list, dirty count\<close>

definition tracked :: "(u64 \<times> cache_entry) list \<Rightarrow> lru_index \<Rightarrow> nat \<Rightarrow> bool" where
  "tracked al l dc \<longleftrightarrow> distinct (map fst al) \<and> lru_ok l \<and>
     set (iter_lru_to_mru l) = fst ` set al \<and> dc = count_if ce_dirty al"

lemma tracked_new: "tracked [] lru_new 0"
  by (simp add: tracked_def lru.new_invar lru.new_order count_if_def)

lemma tracked_insert_front:
  "tracked al l dc \<Longrightarrow> map_of al k = None \<Longrightarrow>
   tracked (AList.update k e al) (lru_push_front l k) (dc + (if ce_dirty e then 1 else 0))"
  by (simp add: tracked_def lru.front_invar lru.touch_set keys_update count_if_update_new map_of_None_keys)

lemma tracked_insert_back:
  "tracked al l dc \<Longrightarrow> map_of al k = None \<Longrightarrow>
   tracked (AList.update k e al) (lru_push_back l k) (dc + (if ce_dirty e then 1 else 0))"
  by (simp add: tracked_def lru.back_invar lru.back_set keys_update count_if_update_new map_of_None_keys)

lemma tracked_delete:
  assumes "tracked al l dc" and "map_of al k = Some e"
  shows "tracked (AList.delete k al) (snd (lru_remove l k)) (dc - (if ce_dirty e then 1 else 0))"
  using assms count_if_delete [of al k e ce_dirty]
  by (auto simp: tracked_def lru.remove_invar lru.remove_set keys_delete)

lemma tracked_drop_absent:
  assumes "tracked al l dc" and "map_of al k = None"
  shows "tracked al (snd (lru_remove l k)) dc"
  using assms by (simp add: tracked_def lru.remove_invar lru.remove_set map_of_None_keys)

lemma tracked_update:
  assumes "tracked al l dc" and "map_of al k = Some e" and "ce_dirty e' = ce_dirty e"
  shows "tracked (AList.update k e' al) l dc"
proof -
  have "k \<in> fst ` set al" using assms(2) by (rule map_of_SomeD_keys)
  then show ?thesis
    using assms count_if_update_old [of al k e ce_dirty e']
    by (auto simp: tracked_def keys_update insert_absorb)
qed

lemma tracked_set_dirty:
  assumes "tracked al l dc" and "map_of al k = Some e" and "\<not> ce_dirty e" and "ce_dirty e'"
  shows "tracked (AList.update k e' al) l (dc + 1)"
proof -
  have "k \<in> fst ` set al" using assms(2) by (rule map_of_SomeD_keys)
  then show ?thesis
    using assms count_if_update_old [of al k e ce_dirty e']
    by (auto simp: tracked_def keys_update insert_absorb)
qed

lemma tracked_set_clean:
  assumes "tracked al l dc" and "map_of al k = Some e" and "ce_dirty e" and "\<not> ce_dirty e'"
  shows "tracked (AList.update k e' al) l (dc - 1)"
proof -
  have "k \<in> fst ` set al" using assms(2) by (rule map_of_SomeD_keys)
  then show ?thesis
    using assms count_if_update_old [of al k e ce_dirty e']
    by (auto simp: tracked_def keys_update insert_absorb)
qed

lemma tracked_touch:
  assumes "tracked al l dc" and "map_of al k = Some e"
  shows "tracked al (lru_push_front l k) dc"
proof -
  have "k \<in> fst ` set al" using assms(2) by (rule map_of_SomeD_keys)
  then show ?thesis using assms(1) by (simp add: tracked_def lru.front_invar lru.touch_set insert_absorb)
qed

section \<open>Disk, spillway and cache contents\<close>

definition unit_size :: "u8 list option \<Rightarrow> nat" where
  "unit_size c = (if c = None then PAGE_SIZE else ENC_PAGE_SIZE)"

definition disk_page :: "world \<Rightarrow> u8 list option \<Rightarrow> page_io \<Rightarrow> u64 \<Rightarrow> page option" where
  "disk_page w c io page_id =
     (if page_id < cached_page_count io then open_blob w c page_id (io_unit io page_id) else None)"

definition spill_blob :: "spillway option \<Rightarrow> u64 \<Rightarrow> u8 list option" where
  "spill_blob so page_id = (case so of None \<Rightarrow> None | Some spw \<Rightarrow> spw_blob spw page_id)"

definition settled :: "world \<Rightarrow> cache_entry \<Rightarrow> page" where
  "settled w e = ce_buf (stamp_deferred w e)"

definition pc_view :: "world \<Rightarrow> page_cache \<Rightarrow> u64 \<Rightarrow> page option" where
  "pc_view w s page_id =
     (case map_of (entries s) page_id of
        Some e \<Rightarrow> Some (settled w e)
      | None \<Rightarrow> (case spill_blob (pc_spillway s) page_id of
                   Some blob \<Rightarrow> open_blob w (cipher s) page_id blob
                 | None \<Rightarrow> disk_page w (cipher s) (pc_io s) page_id))"

definition entry_ok :: "world \<Rightarrow> page option \<Rightarrow> cache_entry \<Rightarrow> bool" where
  "entry_ok w disk e \<longleftrightarrow> page_ok (ce_buf e) \<and>
     (\<not> ce_dirty e \<longrightarrow>
        \<not> ce_needs_stamp e \<and> disk = Some (ce_buf e) \<and> verify_checksum (w_xxh w) (ce_buf e))"

definition io_fits :: "page_cache \<Rightarrow> bool" where
  "io_fits s \<longleftrightarrow> io_ok (pc_io s) \<and> stride (pc_io s) = unit_size (cipher s) \<and>
     unat (next_page_id s) * ENC_PAGE_SIZE < 2 ^ 64"

definition pc_wf :: "world \<Rightarrow> page_cache \<Rightarrow> bool" where
  "pc_wf w s \<longleftrightarrow> tracked (entries s) (pc_lru s) (dirty_count s) \<and> dirty_scratch s = [] \<and>
     1 \<le> max_pages s \<and> io_fits s \<and>
     (\<forall>p e. map_of (entries s) p = Some e \<longrightarrow>
        (ce_dirty e \<longrightarrow> p < next_page_id s) \<and> entry_ok w (disk_page w (cipher s) (pc_io s) p) e) \<and>
     (\<forall>spw. pc_spillway s = Some spw \<longrightarrow> spw_wf spw \<and> payload_size spw = unit_size (cipher s))"

definition spill_inv :: "world \<Rightarrow> page_cache \<Rightarrow> bool" where
  "spill_inv w s \<longleftrightarrow>
     (\<forall>spw. pc_spillway s = Some spw \<longrightarrow> spw_ok w spw \<and> payload_size spw = unit_size (cipher s)) \<and>
     (\<forall>p b. spill_blob (pc_spillway s) p = Some b \<longrightarrow>
        p < next_page_id s \<and> map_of (entries s) p = None \<and>
        (\<exists>pg. open_blob w (cipher s) p b = Some pg \<and> page_ok pg))"

definition pc_inv :: "world \<Rightarrow> page_cache \<Rightarrow> bool" where
  "pc_inv w s \<longleftrightarrow> pc_wf w s \<and> spill_inv w s"

text \<open>The part of the state the pages' contents depend on, apart from the cached ones.\<close>

definition same_store :: "page_cache \<Rightarrow> page_cache \<Rightarrow> bool" where
  "same_store s t \<longleftrightarrow> io_same (pc_io s) (pc_io t) \<and> cipher t = cipher s \<and>
     next_page_id t = next_page_id s \<and> max_pages t = max_pages s \<and>
     spillway_max_bytes t = spillway_max_bytes s"

lemma same_store_refl [simp]: "same_store s s"
  by (simp add: same_store_def)

lemma same_store_trans: "same_store a b \<Longrightarrow> same_store b c \<Longrightarrow> same_store a c"
  by (auto simp: same_store_def intro: io_same_trans)

lemma disk_page_same: "io_same io io' \<Longrightarrow> disk_page w c io' = disk_page w c io"
  by (simp add: disk_page_def io_sameD io_same_unit fun_eq_iff)

lemma same_store_disk: "same_store s t \<Longrightarrow> disk_page w (cipher t) (pc_io t) = disk_page w (cipher s) (pc_io s)"
  by (simp add: same_store_def disk_page_same)

lemma same_store_fits: "same_store s t \<Longrightarrow> io_fits t = io_fits s"
  unfolding same_store_def io_fits_def by (metis io_same_ok io_sameD(2))

lemma spilled_blob: "spilled s p \<longleftrightarrow> spill_blob (pc_spillway s) p \<noteq> None"
  by (auto simp: spilled_def spill_blob_def spw_blob_resident [symmetric] split: option.splits)

lemma open_blob_ok: "aead_ok w \<Longrightarrow> open_blob w c p b = Some pg \<Longrightarrow> page_ok pg"
  by (auto simp: open_blob_def dest: page_cipher_open_ok split: option.splits if_splits sum.splits)

lemma settled_simps [simp]:
  "\<not> ce_needs_stamp e \<Longrightarrow> settled w e = ce_buf e"
  "stamp_deferred w e = e \<or> \<not> ce_needs_stamp (stamp_deferred w e)"
  "ce_dirty (stamp_deferred w e) = ce_dirty e" "\<not> ce_needs_stamp (stamp_deferred w e)"
  "settled w (stamp_deferred w e) = settled w e" "ce_buf (stamp_deferred w e) = settled w e"
  by (auto simp: settled_def stamp_deferred_def)

lemma settled_body: "page_body (settled w e) = page_body (ce_buf e)"
  if "page_ok (ce_buf e)"
  using that by (simp add: settled_def stamp_deferred_def page_body_stamp)

lemma page_ok_settled: "page_ok (ce_buf e) \<Longrightarrow> page_ok (settled w e)"
  by (simp add: settled_def stamp_deferred_def page_ok_stamp)

section \<open>Quiet steps: the cache moves pages, their contents stay\<close>

definition quiet :: "world \<Rightarrow> page_cache \<Rightarrow> page_cache \<Rightarrow> bool" where
  "quiet w s t \<longleftrightarrow> pc_inv w t \<and> pc_view w t = pc_view w s \<and> same_store s t \<and> is_dirty t = is_dirty s"

lemma quiet_refl: "pc_inv w s \<Longrightarrow> quiet w s s"
  by (simp add: quiet_def)

lemma quiet_trans: "quiet w a b \<Longrightarrow> quiet w b c \<Longrightarrow> quiet w a c"
  by (auto simp: quiet_def intro: same_store_trans)

text \<open>Counters and clocks are outside the invariant and the view.\<close>

lemma pc_inv_counters [simp]:
  "pc_inv w (s\<lparr>cache_hits := a\<rparr>) = pc_inv w s" "pc_inv w (s\<lparr>cache_misses := a\<rparr>) = pc_inv w s"
  "pc_inv w (s\<lparr>pages_allocated := a\<rparr>) = pc_inv w s" "pc_inv w (s\<lparr>rng_draws := k\<rparr>) = pc_inv w s"
  "pc_inv w (s\<lparr>spill_clock := k\<rparr>) = pc_inv w s"
  by (simp_all add: pc_inv_def pc_wf_def spill_inv_def io_fits_def)

lemma pc_view_counters [simp]:
  "pc_view w (s\<lparr>cache_hits := a\<rparr>) = pc_view w s" "pc_view w (s\<lparr>cache_misses := a\<rparr>) = pc_view w s"
  "pc_view w (s\<lparr>pages_allocated := a\<rparr>) = pc_view w s" "pc_view w (s\<lparr>rng_draws := k\<rparr>) = pc_view w s"
  "pc_view w (s\<lparr>spill_clock := k\<rparr>) = pc_view w s" "pc_view w (s\<lparr>next_page_id := a\<rparr>) = pc_view w s"
  "pc_view w (s\<lparr>dirty_count := k\<rparr>) = pc_view w s" "pc_view w (s\<lparr>pc_lru := l\<rparr>) = pc_view w s"
  by (simp_all add: pc_view_def fun_eq_iff cong: option.case_cong)

lemma is_dirty_counters [simp]:
  "is_dirty (s\<lparr>cache_hits := a\<rparr>) = is_dirty s" "is_dirty (s\<lparr>cache_misses := a\<rparr>) = is_dirty s"
  "is_dirty (s\<lparr>pages_allocated := a\<rparr>) = is_dirty s" "is_dirty (s\<lparr>rng_draws := k\<rparr>) = is_dirty s"
  "is_dirty (s\<lparr>spill_clock := k\<rparr>) = is_dirty s" "is_dirty (s\<lparr>next_page_id := a\<rparr>) = is_dirty s"
  "is_dirty (s\<lparr>dirty_count := k\<rparr>) = is_dirty s" "is_dirty (s\<lparr>pc_lru := l\<rparr>) = is_dirty s"
  by (simp_all add: is_dirty_def spilled_def fun_eq_iff cong: option.case_cong)

lemma same_store_counters [simp]:
  "same_store s (s\<lparr>cache_hits := a\<rparr>)" "same_store s (s\<lparr>cache_misses := a\<rparr>)"
  "same_store s (s\<lparr>pages_allocated := a\<rparr>)" "same_store s (s\<lparr>rng_draws := k\<rparr>)"
  "same_store s (s\<lparr>spill_clock := k\<rparr>)"
  by (simp_all add: same_store_def)

lemma pc_inv_entry:
  assumes "pc_inv w s" and "map_of (entries s) p = Some e"
  shows "ce_dirty e \<Longrightarrow> p < next_page_id s" and "entry_ok w (disk_page w (cipher s) (pc_io s) p) e"
    and "page_ok (ce_buf e)" and "spill_blob (pc_spillway s) p = None" and "\<not> spilled s p"
proof -
  show "ce_dirty e \<Longrightarrow> p < next_page_id s" and e: "entry_ok w (disk_page w (cipher s) (pc_io s) p) e"
    using assms unfolding pc_inv_def pc_wf_def by blast+
  then show "page_ok (ce_buf e)" by (simp add: entry_ok_def)
  show none: "spill_blob (pc_spillway s) p = None"
    using assms unfolding pc_inv_def spill_inv_def by (metis not_None_eq option.distinct(1))
  show "\<not> spilled s p" using none by (simp add: spilled_blob)
qed

lemma pc_view_entry: "map_of (entries s) p = Some e \<Longrightarrow> pc_view w s p = Some (settled w e)"
  by (simp add: pc_view_def)

lemma tracked_inv: "pc_inv w s \<Longrightarrow> tracked (entries s) (pc_lru s) (dirty_count s)"
  by (simp add: pc_inv_def pc_wf_def)

lemma pc_inv_touch:
  assumes "pc_inv w s" and "map_of (entries s) p = Some e"
  shows "quiet w s (touch_lru p s)"
proof -
  have "tracked (entries s) (lru_push_front (pc_lru s) p) (dirty_count s)"
    using tracked_touch tracked_inv assms by blast
  then show ?thesis
    using assms by (simp add: quiet_def touch_lru_def pc_inv_def pc_wf_def spill_inv_def io_fits_def same_store_def)
qed

text \<open>Removing a cached page: the view falls back to the page on disk.\<close>

lemma pc_inv_remove:
  fixes p :: u64
  assumes inv: "pc_inv w s" and e: "map_of (entries s) p = Some e"
  defines "t \<equiv> untrack_dirty (ce_dirty e) (lru_drop p (remove_entry p s))"
  shows "pc_inv w t" and "pc_view w t = (pc_view w s)(p := disk_page w (cipher s) (pc_io s) p)"
    and "same_store s t" and "is_dirty t = (is_dirty s)(p := False)"
    and "entries t = AList.delete p (entries s)"
proof -
  have t: "t = s\<lparr>entries := AList.delete p (entries s), pc_lru := snd (lru_remove (pc_lru s) p),
      dirty_count := dirty_count s - (if ce_dirty e then 1 else 0)\<rparr>"
    by (simp add: t_def untrack_dirty_def lru_drop_def remove_entry_def)
  have tr: "tracked (entries t) (pc_lru t) (dirty_count t)"
    using tracked_delete [OF tracked_inv [OF inv] e] by (simp add: t)
  have sp: "spill_blob (pc_spillway s) p = None" by (rule pc_inv_entry [OF inv e])
  show "pc_inv w t"
    using inv tr by (auto simp: pc_inv_def pc_wf_def spill_inv_def io_fits_def t)
  show "pc_view w t = (pc_view w s)(p := disk_page w (cipher s) (pc_io s) p)"
    using sp by (auto simp: pc_view_def t fun_eq_iff cong: option.case_cong)
  show "same_store s t" by (simp add: t same_store_def)
  show "is_dirty t = (is_dirty s)(p := False)"
    using pc_inv_entry(5) [OF inv e] by (auto simp: is_dirty_def t spilled_def fun_eq_iff cong: option.case_cong)
  show "entries t = AList.delete p (entries s)" by (simp add: t)
qed

text \<open>Adding a page that is neither cached nor spilled, at either end of the recency list.\<close>

lemma pc_inv_insert:
  assumes inv: "pc_inv w s" and p: "map_of (entries s) p = None" "spill_blob (pc_spillway s) p = None"
    "ce_dirty e \<Longrightarrow> p < next_page_id s"
    and e: "entry_ok w (disk_page w (cipher s) (pc_io s) p) e"
    and l: "l = lru_push_front (pc_lru s) p \<or> l = lru_push_back (pc_lru s) p"
    and t: "t = s\<lparr>entries := AList.update p e (entries s), pc_lru := l,
      dirty_count := dirty_count s + (if ce_dirty e then 1 else 0)\<rparr>"
  shows "pc_inv w t" and "pc_view w t = (pc_view w s)(p \<mapsto> settled w e)"
    and "same_store s t" and "is_dirty t = (is_dirty s)(p := ce_dirty e)"
proof -
  have tr: "tracked (entries t) (pc_lru t) (dirty_count t)"
    using tracked_insert_front [OF tracked_inv [OF inv] p(1), of e]
      tracked_insert_back [OF tracked_inv [OF inv] p(1), of e] l by (auto simp: t)
  show "pc_inv w t"
    using inv tr p e by (auto simp: pc_inv_def pc_wf_def spill_inv_def io_fits_def t)
  show "pc_view w t = (pc_view w s)(p \<mapsto> settled w e)" by (auto simp: pc_view_def t fun_eq_iff cong: option.case_cong)
  show "same_store s t" by (simp add: t same_store_def)
  show "is_dirty t = (is_dirty s)(p := ce_dirty e)"
    using p(2) by (auto simp: is_dirty_def t spilled_blob fun_eq_iff cong: option.case_cong)
qed

text \<open>Overwriting a cached page in place.\<close>

lemma pc_inv_update:
  assumes inv: "pc_inv w s" and e: "map_of (entries s) p = Some e"
    and e': "entry_ok w (disk_page w (cipher s) (pc_io s) p) e'" "ce_dirty e' \<Longrightarrow> p < next_page_id s"
    and dc: "tracked (AList.update p e' (entries s)) (pc_lru s) dc"
    and t: "t = s\<lparr>entries := AList.update p e' (entries s), dirty_count := dc\<rparr>"
  shows "pc_inv w t" and "pc_view w t = (pc_view w s)(p \<mapsto> settled w e')"
    and "same_store s t" and "is_dirty t = (is_dirty s)(p := ce_dirty e')"
proof -
  note f = pc_inv_entry [OF inv e]
  show "pc_inv w t"
    using inv dc f e' by (auto simp: pc_inv_def pc_wf_def spill_inv_def io_fits_def t)
  show "pc_view w t = (pc_view w s)(p \<mapsto> settled w e')" by (auto simp: pc_view_def t fun_eq_iff cong: option.case_cong)
  show "same_store s t" by (simp add: t same_store_def)
  show "is_dirty t = (is_dirty s)(p := ce_dirty e')"
    using f(5) by (auto simp: is_dirty_def t spilled_def fun_eq_iff cong: option.case_cong)
qed

end
