(* ===== verification/Cache_Access.thy ===== *)
theory Cache_Access
  imports Cache_Invariant
begin

text \<open>
  Contracts of eviction, loading, reading, writing and allocation in the page cache. A read or an
  eviction is \<open>quiet\<close>: it moves pages between memory, spillway and disk, and no client sees a
  difference. Errors are classified: a file-system failure keeps the bookkeeping, every other error
  leaves the contents exactly as they were.
\<close>

section \<open>Evicting clean pages\<close>

definition shrinks :: "page_cache \<Rightarrow> page_cache \<Rightarrow> bool" where
  "shrinks s t \<longleftrightarrow> length (entries t) \<le> length (entries s) \<and>
     (\<forall>p. map_of (entries s) p = None \<longrightarrow> map_of (entries t) p = None)"

lemma shrinks_refl [simp]: "shrinks s s"
  by (simp add: shrinks_def)

lemma shrinks_trans: "shrinks a b \<Longrightarrow> shrinks b c \<Longrightarrow> shrinks a c"
  by (auto simp: shrinks_def)

lemma shrinks_delete: "entries t = AList.delete p (entries s) \<Longrightarrow> shrinks s t"
  by (simp add: shrinks_def length_delete_le)

lemma clean_victim_None:
  assumes "pc_inv w s" and "clean_victim s = None" and "map_of (entries s) p = Some e"
  shows "ce_dirty e"
proof -
  have "p \<in> set (iter_lru_to_mru (pc_lru s))"
    using tracked_inv [OF assms(1)] map_of_SomeD_keys [OF assms(3)] by (simp add: tracked_def)
  then show ?thesis using assms(2,3) by (auto simp: clean_victim_def find_None_iff)
qed

lemma all_dirty_count:
  assumes "tracked al l dc" and "dc = length al" and "map_of al p = Some e"
  shows "ce_dirty e"
proof -
  have "\<forall>(k, v) \<in> set al. ce_dirty v" using assms(1,2) count_if_all [of ce_dirty al] by (simp add: tracked_def)
  then show ?thesis using map_of_SomeD [OF assms(3)] by auto
qed

lemma evict_step:
  assumes inv: "pc_inv w s" and v: "clean_victim s = Some i"
  shows "quiet w s (lru_drop i (remove_entry i s))" and "shrinks s (lru_drop i (remove_entry i s))"
proof -
  obtain e where e: "map_of (entries s) i = Some e" and c: "\<not> ce_dirty e" using clean_victim_Some [OF v] by blast
  have eq: "lru_drop i (remove_entry i s) = untrack_dirty (ce_dirty e) (lru_drop i (remove_entry i s))"
    using c by (simp add: untrack_dirty_def)
  note r = pc_inv_remove [OF inv e, folded eq]
  have "disk_page w (cipher s) (pc_io s) i = Some (settled w e)"
    using pc_inv_entry(2) [OF inv e] c by (simp add: entry_ok_def)
  then have "pc_view w (lru_drop i (remove_entry i s)) = pc_view w s"
    using r(2) pc_view_entry [OF e, of w] by (simp add: fun_upd_idem)
  moreover have "\<not> is_dirty s i" using pc_inv_entry(5) [OF inv e] e c by (simp add: is_dirty_def)
  ultimately show "quiet w s (lru_drop i (remove_entry i s))"
    using r by (simp add: quiet_def fun_upd_idem)
  show "shrinks s (lru_drop i (remove_entry i s))" by (rule shrinks_delete [OF r(5)])
qed

lemma evict_clean_quiet:
  assumes "pc_inv w s"
  shows "quiet w s (evict_clean_to_cap s) \<and> shrinks s (evict_clean_to_cap s) \<and>
    (length (entries (evict_clean_to_cap s)) \<le> max_pages s \<or>
     (\<forall>p e. map_of (entries (evict_clean_to_cap s)) p = Some e \<longrightarrow> ce_dirty e))"
  using assms
proof (induction s rule: evict_clean_to_cap.induct)
  case (1 s)
  note unf = evict_clean_to_cap.simps [of s]
  consider (fits) "length (entries s) \<le> max_pages s"
    | (dirty) "max_pages s < length (entries s)" "dirty_count s = length (entries s)"
    | (none) "max_pages s < length (entries s)" "dirty_count s \<noteq> length (entries s)" "clean_victim s = None"
    | (victim) i where "max_pages s < length (entries s)" "dirty_count s \<noteq> length (entries s)" "clean_victim s = Some i"
    by (cases "clean_victim s") force+
  then show ?case
  proof cases
    case fits
    then show ?thesis using unf quiet_refl [OF 1(2)] by simp
  next
    case dirty
    then have "evict_clean_to_cap s = s" using unf by simp
    moreover have "\<forall>p e. map_of (entries s) p = Some e \<longrightarrow> ce_dirty e"
      using all_dirty_count [OF tracked_inv [OF 1(2)] dirty(2)] by blast
    ultimately show ?thesis using quiet_refl [OF 1(2)] by (simp del: map_of_eq_Some_iff)
  next
    case none
    then have "evict_clean_to_cap s = s" using unf by simp
    moreover have "\<forall>p e. map_of (entries s) p = Some e \<longrightarrow> ce_dirty e"
      using clean_victim_None [OF 1(2) none(3)] by blast
    ultimately show ?thesis using quiet_refl [OF 1(2)] by (simp del: map_of_eq_Some_iff)
  next
    case (victim i)
    let ?t = "lru_drop i (remove_entry i s)"
    have t: "evict_clean_to_cap s = evict_clean_to_cap ?t" using unf victim by simp
    note st = evict_step [OF 1(2) victim(3)]
    have IH: "quiet w ?t (evict_clean_to_cap ?t) \<and> shrinks ?t (evict_clean_to_cap ?t) \<and>
      (length (entries (evict_clean_to_cap ?t)) \<le> max_pages ?t \<or>
       (\<forall>p e. map_of (entries (evict_clean_to_cap ?t)) p = Some e \<longrightarrow> ce_dirty e))"
      using 1(1) [OF victim] st(1) by (simp add: quiet_def del: map_of_eq_Some_iff)
    moreover have "max_pages ?t = max_pages s" using st(1) by (simp add: quiet_def same_store_def)
    ultimately show ?thesis unfolding t using st(2) quiet_trans [OF st(1)] shrinks_trans by auto
  qed
qed

lemma evict_clean_id: "length (entries s) \<le> max_pages s \<Longrightarrow> evict_clean_to_cap s = s"
  by (simp add: evict_clean_to_cap.simps)

section \<open>Spilling dirty pages\<close>

lemma wp_on_io [wp_simps]:
  "wp (on_io m) Q E = (\<lambda>s. wp m (\<lambda>a io. Q a (s\<lparr>pc_io := io\<rparr>)) (\<lambda>e io. E e (s\<lparr>pc_io := io\<rparr>)) (pc_io s))"
  by (simp add: on_io_def wp_on_field fun_eq_iff)

lemma wp_on_spw:
  "pc_spillway s = Some spw \<Longrightarrow>
   wp (on_spw m) Q E s =
     wp m (\<lambda>a spw'. Q a (s\<lparr>pc_spillway := Some spw'\<rparr>)) (\<lambda>e spw'. E e (s\<lparr>pc_spillway := Some spw'\<rparr>)) spw"
  by (auto simp: on_spw_def wp_def split: prod.splits res.splits)

lemma ensure_spillway_wp:
  assumes "\<And>spw k. pc_spillway s = Some spw \<or> pc_spillway s = None \<and> spw_slots spw = [] \<and>
      payload_size spw = unit_size (cipher s) \<Longrightarrow>
      Q () (s\<lparr>spill_clock := k, pc_spillway := Some spw\<rparr>)"
    and "\<And>e k. io_failure e \<Longrightarrow> \<not> no_faults w \<Longrightarrow> E e (s\<lparr>spill_clock := k\<rparr>)"
  shows "wp (ensure_spillway w) Q E s"
proof (cases "pc_spillway s")
  case (Some spw)
  have eq: "s\<lparr>spill_clock := spill_clock s, pc_spillway := Some spw\<rparr> = s" using Some by (cases s) simp
  have "Q () (s\<lparr>spill_clock := spill_clock s, pc_spillway := Some spw\<rparr>)" using Some by (intro assms(1)) simp
  then have "Q () s" unfolding eq .
  then show ?thesis using Some by (simp add: ensure_spillway_def wp_simps)
next
  case None
  show ?thesis
  proof (cases "spillway_loc s")
    case (SpillPath path)
    have "wp (spw_open_file w (spillway_max_bytes s) (unit_size (cipher s)))
        (\<lambda>spw k. Q () (s\<lparr>spill_clock := k, pc_spillway := Some spw\<rparr>)) (\<lambda>e k. E e (s\<lparr>spill_clock := k\<rparr>)) (spill_clock s)"
      by (rule wp_mono [OF spw_open_file_wp]) (use None assms in auto)
    then show ?thesis
      using None SpillPath by (auto simp: ensure_spillway_def wp_simps wp_on_field unit_size_def split: if_splits)
  next
    case InMemory
    have "Q () (s\<lparr>spill_clock := spill_clock s,
        pc_spillway := Some (spw_open_memory (spillway_max_bytes s) (unit_size (cipher s)) (spill_clock s))\<rparr>)"
      using None by (intro assms(1)) (simp add: spw_open_memory_def)
    then show ?thesis
      using None InMemory by (auto simp: ensure_spillway_def wp_simps unit_size_def split: if_splits)
  qed
qed

text \<open>What the device stores for a page opens to that page.\<close>

lemma seal_page_wp:
  assumes "world_ok w" and "page_ok pg"
    and "\<And>blob k. open_blob w (cipher s) p blob = Some pg \<Longrightarrow> length blob = unit_size (cipher s) \<Longrightarrow>
      Q blob (s\<lparr>rng_draws := k\<rparr>)"
  shows "wp (seal_page w p pg) Q E s"
proof (cases "cipher s")
  case None
  have "Q pg (s\<lparr>rng_draws := rng_draws s\<rparr>)"
    using None assms(2) by (intro assms(3)) (simp_all add: open_blob_def unit_size_def)
  then show ?thesis using None by (simp add: wp_def seal_page_def)
next
  case (Some dek)
  obtain blob where b: "page_cipher_seal w dek (rng_draws s) p pg = Some blob" "length blob = ENC_PAGE_SIZE"
    "page_cipher_open w dek p blob = Inr pg"
    by (rule page_cipher_seal_open [OF assms(1,2)])
  then have "Q blob (s\<lparr>rng_draws := Suc (rng_draws s)\<rparr>)"
    using Some by (intro assms(3)) (simp_all add: open_blob_def unit_size_def)
  then show ?thesis using Some b(1) by (simp add: wp_def seal_page_def)
qed

text \<open>The outcomes of an operation that failed.\<close>

definition cap_error :: "page_cache \<Rightarrow> chisel_error \<Rightarrow> bool" where
  \<comment> \<open>the cache is over its cap with dirty pages only, and the spillway is off or full\<close>
  "cap_error s e \<longleftrightarrow> max_pages s < length (entries s) \<and>
     (e = CacheFull (max_pages s) \<and> spillway_max_bytes s = 0 \<or> (\<exists>m. e = SpillwayFull m))"

definition evict_fail :: "world \<Rightarrow> page_cache \<Rightarrow> chisel_error \<Rightarrow> page_cache \<Rightarrow> bool" where
  "evict_fail w s e t \<longleftrightarrow>
     io_failure e \<and> \<not> no_faults w \<and> pc_wf w t \<and> same_store s t \<or> cap_error s e \<and> quiet w s t"

text \<open>Putting a page into the spillway.\<close>

lemma pc_inv_spilled:
  assumes inv: "pc_inv w s" and p: "map_of (entries s) p = None" "p < next_page_id s"
    and b: "open_blob w (cipher s) p blob = Some pg" "page_ok pg"
    and spw: "spw_ok w spw" "payload_size spw = unit_size (cipher s)"
      "spw_blob spw = (spill_blob (pc_spillway s))(p \<mapsto> blob)"
    and t: "t = s\<lparr>pc_spillway := Some spw\<rparr>"
  shows "pc_inv w t" and "pc_view w t = (pc_view w s)(p \<mapsto> pg)"
    and "same_store s t" and "is_dirty t = (is_dirty s)(p := True)"
proof -
  have blob: "spill_blob (pc_spillway t) = (spill_blob (pc_spillway s))(p \<mapsto> blob)"
    using spw(3) by (simp add: t spill_blob_def fun_eq_iff)
  have "pc_wf w t"
    using inv spw(2) spw_ok_wf [OF spw(1)] by (auto simp: pc_inv_def pc_wf_def io_fits_def t)
  moreover have "spill_inv w t"
    unfolding spill_inv_def blob using inv spw(1,2) p b by (auto simp: pc_inv_def spill_inv_def t)
  ultimately show "pc_inv w t" by (simp add: pc_inv_def)
  show "pc_view w t = (pc_view w s)(p \<mapsto> pg)"
    unfolding pc_view_def blob using p(1) b by (auto simp: t fun_eq_iff cong: option.case_cong)
  show "same_store s t" by (simp add: t same_store_def)
  show "is_dirty t = (is_dirty s)(p := True)"
    unfolding is_dirty_def spilled_blob blob using p(1) by (auto simp: t fun_eq_iff)
qed

text \<open>Replacing the spillway by one with the same contents.\<close>

lemma pc_inv_same_blobs:
  assumes inv: "pc_inv w s" and blobs: "spill_blob so = spill_blob (pc_spillway s)"
    and spw: "\<And>spw. so = Some spw \<Longrightarrow> spw_ok w spw \<and> payload_size spw = unit_size (cipher s)"
  shows "quiet w s (s\<lparr>pc_spillway := so\<rparr>)"
proof -
  have "pc_wf w (s\<lparr>pc_spillway := so\<rparr>)"
    using inv spw spw_ok_wf by (auto simp: pc_inv_def pc_wf_def io_fits_def)
  moreover have "spill_inv w (s\<lparr>pc_spillway := so\<rparr>)"
    using inv spw by (auto simp: pc_inv_def spill_inv_def blobs)
  ultimately show ?thesis
    by (simp add: quiet_def pc_inv_def same_store_def pc_view_def is_dirty_def spilled_blob blobs fun_eq_iff
        cong: option.case_cong)
qed

text \<open>Undoing the removal of a dirty victim after its spill failed.\<close>

lemma restore_victim:
  fixes v :: u64 and k j :: nat
  assumes inv: "pc_inv w s" and e: "map_of (entries s) v = Some e" and dirty: "ce_dirty e"
    and spw: "\<And>spw. so = Some spw \<Longrightarrow> spw_wf spw \<and> payload_size spw = unit_size (cipher s)"
  defines "r \<equiv> untrack_dirty True (lru_drop v (remove_entry v s))"
  defines "t \<equiv> insert_entry v (stamp_deferred w e)
      (r\<lparr>rng_draws := k, spill_clock := j, pc_spillway := so, dirty_count := dirty_count r + 1,
         pc_lru := lru_push_back (pc_lru r) v\<rparr>)"
  shows "pc_wf w t \<and> same_store s t"
    and "spill_blob so = spill_blob (pc_spillway s) \<Longrightarrow> (\<And>spw. so = Some spw \<Longrightarrow> spw_ok w spw) \<Longrightarrow> quiet w s t"
proof -
  note f = pc_inv_entry [OF inv e]
  note r = pc_inv_remove [OF inv e, unfolded eqTrueI [OF dirty], folded r_def]
  let ?e = "stamp_deferred w e"
  have e': "entry_ok w (disk_page w (cipher r) (pc_io r) v) ?e"
    using f(3) dirty page_ok_settled [of e w] by (simp add: entry_ok_def)
  have rv: "map_of (entries r) v = None" "spill_blob (pc_spillway r) v = None" "v < next_page_id r"
    using f(1) [OF dirty] f(4) r(3,5) by (simp_all add: same_store_def r_def untrack_dirty_def lru_drop_def remove_entry_def)
  define t0 where "t0 = r\<lparr>entries := AList.update v ?e (entries r), pc_lru := lru_push_back (pc_lru r) v,
      dirty_count := dirty_count r + (if ce_dirty ?e then 1 else 0)\<rparr>"
  have t: "t = t0\<lparr>pc_spillway := so, rng_draws := k, spill_clock := j\<rparr>"
    using dirty by (simp add: t_def t0_def insert_entry_def)
  note i = pc_inv_insert [OF r(1) rv e' _ t0_def]
  have ss: "same_store s t0" using same_store_trans [OF r(3) i(3)] by simp
  then have cip: "cipher t0 = cipher s" by (simp add: same_store_def)
  have "pc_wf w t" using i(1) spw cip by (auto simp: t pc_inv_def pc_wf_def io_fits_def)
  then show "pc_wf w t \<and> same_store s t" using ss by (simp add: t same_store_def)
  assume blobs: "spill_blob so = spill_blob (pc_spillway s)" and ok: "\<And>spw. so = Some spw \<Longrightarrow> spw_ok w spw"
  have "pc_spillway t0 = pc_spillway s"
    by (simp add: t0_def r_def untrack_dirty_def lru_drop_def remove_entry_def)
  then have q: "quiet w t0 (t0\<lparr>pc_spillway := so\<rparr>)"
    using i(1) blobs ok spw cip by (intro pc_inv_same_blobs) auto
  have "quiet w s t0"
    using i(1,2,4) r(2,4) ss pc_view_entry [OF e, of w] e dirty
    by (simp add: quiet_def is_dirty_def fun_upd_idem_iff fun_eq_iff)
  from quiet_trans [OF this q] show "quiet w s t" by (simp add: t quiet_def same_store_def)
qed

lemma spill_victim_wp:
  assumes inv: "pc_inv w s" and W: "world_ok w" and e: "map_of (entries s) v = Some e" and dirty: "ce_dirty e"
  shows "wp (spill_victim w v e)
    (\<lambda>_ t. quiet w s t \<and> entries t = AList.delete v (entries s))
    (\<lambda>x t. io_failure x \<and> \<not> no_faults w \<and> pc_wf w t \<and> same_store s t \<or>
       (\<exists>m. x = SpillwayFull m) \<and> quiet w s t) s"
    (is "wp _ ?Q ?E s")
proof -
  define r where "r = untrack_dirty True (lru_drop v (remove_entry v s))"
  note f = pc_inv_entry [OF inv e]
  note rm = pc_inv_remove [OF inv e, unfolded eqTrueI [OF dirty], folded r_def]
  have rv: "map_of (entries r) v = None" "v < next_page_id r" "pc_spillway r = pc_spillway s" "cipher r = cipher s"
    using f(1) [OF dirty] rm(3,5) by (simp_all add: same_store_def r_def untrack_dirty_def lru_drop_def remove_entry_def)
  have restore: "?E x (insert_entry v (stamp_deferred w e) ((r\<lparr>rng_draws := k, spill_clock := j, pc_spillway := so\<rparr>)
       \<lparr>dirty_count := dirty_count r + 1, pc_lru := lru_push_back (pc_lru r) v\<rparr>))"
    if "\<And>spw. so = Some spw \<Longrightarrow> spw_wf spw \<and> payload_size spw = unit_size (cipher s)"
      and "io_failure x \<and> \<not> no_faults w \<or> (\<exists>m. x = SpillwayFull m) \<and> spill_blob so = spill_blob (pc_spillway s) \<and>
        (\<forall>spw. so = Some spw \<longrightarrow> spw_ok w spw)" for x k j so
    using restore_victim [OF inv e dirty that(1), where k = k and j = j and so = so, folded r_def] that(2) by auto
  have old: "spw_ok w spw \<and> spw_wf spw \<and> payload_size spw = unit_size (cipher s)" if "pc_spillway s = Some spw" for spw
    using inv that spw_ok_wf by (auto simp: pc_inv_def spill_inv_def)
  have spill: "wp (on_spw (spw_spill w v blob)) ?Q
      (\<lambda>x t. ?E x (insert_entry v (stamp_deferred w e)
        (t\<lparr>dirty_count := dirty_count t + 1, pc_lru := lru_push_back (pc_lru t) v\<rparr>)))
      (r\<lparr>rng_draws := k, spill_clock := j, pc_spillway := Some spw\<rparr>)"
    if b: "open_blob w (cipher s) v blob = Some (settled w e)" "length blob = unit_size (cipher s)"
      and spw: "pc_spillway s = Some spw \<or> pc_spillway s = None \<and> spw_slots spw = [] \<and>
        payload_size spw = unit_size (cipher s)" for blob k j spw
  proof -
    have ok: "spw_ok w spw" "payload_size spw = unit_size (cipher s)" "spw_blob spw = spill_blob (pc_spillway s)"
      using spw old spw_empty_ok [of spw w] by (auto simp: spill_blob_def fun_eq_iff)
    have stored: "?Q () (r\<lparr>rng_draws := k, spill_clock := j, pc_spillway := Some spw'\<rparr>)"
      if spw': "spw_ok w spw'" "spw_same_params spw spw'" "spw_blob spw' = (spw_blob spw)(v \<mapsto> blob)" for spw'
    proof -
      let ?r = "r\<lparr>rng_draws := k, spill_clock := j\<rparr>"
      have "pc_inv w ?r" and "pc_view w ?r = pc_view w r" and "is_dirty ?r = is_dirty r" and "same_store r ?r"
        using rm(1) by (simp_all add: same_store_def)
      moreover note sp = pc_inv_spilled [of w ?r v blob "settled w e" spw' "?r\<lparr>pc_spillway := Some spw'\<rparr>"]
      ultimately have "pc_inv w (?r\<lparr>pc_spillway := Some spw'\<rparr>)"
        and "pc_view w (?r\<lparr>pc_spillway := Some spw'\<rparr>) = (pc_view w r)(v \<mapsto> settled w e)"
        and "same_store r (?r\<lparr>pc_spillway := Some spw'\<rparr>)"
        and "is_dirty (?r\<lparr>pc_spillway := Some spw'\<rparr>) = (is_dirty r)(v := True)"
        using rv b(1) ok(2,3) spw' page_ok_settled [OF f(3), of w]
        by (simp_all add: spw_same_params_def same_store_def)
      then show ?thesis
        using rm(2-5) pc_view_entry [OF e, of w] e dirty same_store_trans [OF rm(3)]
        by (simp add: quiet_def is_dirty_def fun_upd_idem_iff fun_eq_iff)
    qed
    show ?thesis
      unfolding wp_on_spw [of "r\<lparr>rng_draws := k, spill_clock := j, pc_spillway := Some spw\<rparr>" spw, simplified]
    proof (rule wp_mono [OF spw_spill_wp [OF ok(1)]], goal_cases)
      case 1
      then show ?case using b(2) ok(2) by simp
    next
      case (2 a spw')
      then show ?case using stored [of spw'] by auto
    next
      case (3 x spw')
      have wf: "spw_wf spw' \<and> payload_size spw' = unit_size (cipher s)"
        using 3 ok(1,2) spw_ok_wf by (auto simp: spw_same_params_def)
      have "io_failure x \<and> \<not> no_faults w \<or> (\<exists>m. x = SpillwayFull m) \<and>
          spill_blob (Some spw') = spill_blob (pc_spillway s) \<and> spw_ok w spw'"
        using 3 ok by (auto simp: spill_blob_def fun_eq_iff)
      then show ?case
        using restore [where so = "Some spw'" and x = x and k = k and j = j] wf by simp
    qed
  qed
  let ?E' = "\<lambda>x t. ?E x (insert_entry v (stamp_deferred w e)
        (t\<lparr>dirty_count := dirty_count t + 1, pc_lru := lru_push_back (pc_lru t) v\<rparr>))"
  have "wp (seal_page w v (settled w e))
      (\<lambda>blob. wp (ensure_spillway w) (\<lambda>_. wp (on_spw (spw_spill w v blob)) ?Q ?E') ?E') ?E r"
  proof (rule seal_page_wp [OF W page_ok_settled [OF f(3)]])
    fix blob k
    assume b: "open_blob w (cipher r) v blob = Some (settled w e)" "length blob = unit_size (cipher r)"
    show "wp (ensure_spillway w) (\<lambda>_. wp (on_spw (spw_spill w v blob)) ?Q ?E') ?E' (r\<lparr>rng_draws := k\<rparr>)"
    proof (rule ensure_spillway_wp, goal_cases)
      case (1 spw j)
      then show ?case using spill [where blob = blob and spw = spw and k = k and j = j] b rv by simp
    next
      case (2 x j)
      have eq: "r\<lparr>rng_draws := k, spill_clock := j, pc_spillway := pc_spillway s\<rparr> = r\<lparr>rng_draws := k, spill_clock := j\<rparr>"
        unfolding rv(3) [symmetric] by simp
      show ?case using restore [where so = "pc_spillway s" and x = x and k = k and j = j] old 2 unfolding eq by simp
    qed
  qed
  then show ?thesis
    using dirty by (simp add: spill_victim_def wp_simps r_def Let_def)
qed

lemma evict_fail_trans:
  assumes "quiet w s t" and "length (entries t) \<le> length (entries s)" and "evict_fail w t e u"
  shows "evict_fail w s e u"
proof -
  have ss: "same_store s t" using assms(1) by (simp add: quiet_def)
  then have "cap_error t e \<Longrightarrow> cap_error s e" using assms(2) by (auto simp: cap_error_def same_store_def)
  then show ?thesis
    using assms(3) quiet_trans [OF assms(1)] same_store_trans [OF ss] by (auto simp: evict_fail_def)
qed

lemma spill_loop_wp:
  assumes "pc_inv w s" and "world_ok w" and "length (entries s) \<le> n"
    and "length (entries s) \<le> max_pages s \<or> (\<forall>p e. map_of (entries s) p = Some e \<longrightarrow> ce_dirty e)"
  shows "wp (spill_loop w n)
    (\<lambda>_ t. quiet w s t \<and> length (entries t) \<le> max_pages s \<and> shrinks s t)
    (evict_fail w s) s"
  using assms(1,3,4)
proof (induction n arbitrary: s)
  case 0
  then show ?case by (simp add: wp_simps quiet_refl)
next
  case (Suc n)
  show ?case
  proof (cases "length (entries s) \<le> max_pages s \<or> spillway_max_bytes s = 0")
    case True
    then show ?thesis
      using Suc.prems(1) quiet_refl by (auto simp: wp_simps evict_fail_def cap_error_def)
  next
    case False
    then have alld: "map_of (entries s) p = Some e \<Longrightarrow> ce_dirty e" for p e using Suc.prems(3) by blast
    have keys: "set (iter_lru_to_mru (pc_lru s)) = fst ` set (entries s)" and dist: "distinct (map fst (entries s))"
      using tracked_inv [OF Suc.prems(1)] by (simp_all add: tracked_def)
    have "entries s \<noteq> []" using False by auto
    then obtain v vs where v: "iter_lru_to_mru (pc_lru s) = v # vs"
      using keys by (cases "iter_lru_to_mru (pc_lru s)") auto
    then have "v \<in> fst ` set (entries s)" using keys by auto
    then obtain e where e: "map_of (entries s) v = Some e" by (metis map_of_None_keys not_None_eq)
    have body: "wp (and_then (spill_victim w v e) (\<lambda>_. spill_loop w n))
        (\<lambda>_ t. quiet w s t \<and> length (entries t) \<le> max_pages s \<and> shrinks s t)
        (evict_fail w s) s"
      unfolding wp_and_then
    proof (rule wp_mono [OF spill_victim_wp [OF Suc.prems(1) assms(2) e alld [OF e]]], goal_cases)
      case (1 a t)
      then have q: "quiet w s t" and et: "entries t = AList.delete v (entries s)" by auto
      have less: "length (entries t) < length (entries s)"
        unfolding et using e by (intro length_delete_less) (rule map_of_SomeD_keys)
      have "wp (spill_loop w n)
          (\<lambda>_ u. quiet w t u \<and> length (entries u) \<le> max_pages t \<and> shrinks t u)
          (evict_fail w t) t"
      proof (rule Suc.IH)
        show "pc_inv w t" using q by (simp add: quiet_def)
        show "length (entries t) \<le> n" using less Suc.prems(2) by simp
        show "length (entries t) \<le> max_pages t \<or> (\<forall>p e. map_of (entries t) p = Some e \<longrightarrow> ce_dirty e)"
          using alld unfolding et by (simp add: fun_upd_def del: map_of_eq_Some_iff)
      qed
      then show ?case
        by (rule wp_mono)
          (use q less quiet_trans [OF q] evict_fail_trans [OF q] shrinks_trans [OF shrinks_delete [OF et]]
           in \<open>auto simp: quiet_def same_store_def\<close>)
    next
      case (2 x t)
      then show ?case using False by (auto simp: evict_fail_def cap_error_def)
    qed
    then show ?thesis using False v e by (simp add: wp_simps)
  qed
qed

lemma maybe_evict_wp:
  assumes inv: "pc_inv w s" and W: "world_ok w"
  shows "wp (maybe_evict w)
    (\<lambda>_ t. quiet w s t \<and> length (entries t) \<le> max_pages s \<and> shrinks s t)
    (evict_fail w s) s"
proof -
  let ?s = "evict_clean_to_cap s"
  note ev = evict_clean_quiet [OF inv]
  then have q: "quiet w s ?s" and sh: "shrinks s ?s" by auto
  then have le: "length (entries ?s) \<le> length (entries s)" by (simp add: shrinks_def)
  have mp: "max_pages ?s = max_pages s" and inv': "pc_inv w ?s" using q by (simp_all add: quiet_def same_store_def)
  have "wp (spill_loop w (length (entries ?s)))
      (\<lambda>_ t. quiet w ?s t \<and> length (entries t) \<le> max_pages ?s \<and> shrinks ?s t)
      (evict_fail w ?s) ?s"
    using ev mp by (intro spill_loop_wp [OF inv' W]) auto
  then show ?thesis
    unfolding maybe_evict_def wp_and_then wp_modify wp_gets
    by (rule wp_mono) (use q le mp quiet_trans [OF q] evict_fail_trans [OF q le] shrinks_trans [OF sh] in auto)
qed

text \<open>Below the cap nothing moves and nothing can fail.\<close>

lemma maybe_evict_id: "length (entries s) \<le> max_pages s \<Longrightarrow> maybe_evict w s = (Ok (), s)"
proof -
  assume le: "length (entries s) \<le> max_pages s"
  have "spill_loop w n s = (Ok (), s)" for n
    using le by (cases n) (simp_all add: and_then_def gets_def ok_def)
  then show ?thesis
    using le by (simp add: maybe_evict_def and_then_def modify_def gets_def evict_clean_id)
qed

section \<open>Loading a page\<close>

text \<open>A page is readable when it exists and, unless it is dirty, its checksum holds.\<close>

definition readable :: "world \<Rightarrow> page_cache \<Rightarrow> u64 \<Rightarrow> bool" where
  "readable w s p \<longleftrightarrow> (\<exists>pg. pc_view w s p = Some pg \<and> (is_dirty s p \<or> verify_checksum (w_xxh w) pg))"

lemma quiet_readable: "quiet w s t \<Longrightarrow> readable w t = readable w s"
  by (simp add: quiet_def readable_def fun_eq_iff)

definition get_fail :: "world \<Rightarrow> page_cache \<Rightarrow> u64 \<Rightarrow> chisel_error \<Rightarrow> page_cache \<Rightarrow> bool" where
  "get_fail w s p e t \<longleftrightarrow> evict_fail w s e t \<or>
     quiet w s t \<and> \<not> readable w s p \<and> e \<in> {InvalidPageId p, DecryptionFailed p, ChecksumMismatch p}"

lemma pc_inv_forget:
  assumes inv: "pc_inv w s" and p: "map_of (entries s) p = None"
  defines "t \<equiv> modify_spw (spw_forget p) s"
  shows "pc_inv w t" and "pc_view w t = (pc_view w s)(p := disk_page w (cipher s) (pc_io s) p)"
    and "same_store s t" and "is_dirty t = (is_dirty s)(p := False)"
    and "entries t = entries s" and "spill_blob (pc_spillway t) = (spill_blob (pc_spillway s))(p := None)"
proof -
  have ok: "pc_spillway s = Some spw \<Longrightarrow> spw_ok w spw \<and> payload_size spw = unit_size (cipher s)" for spw
    using inv by (simp add: pc_inv_def spill_inv_def)
  show blob: "spill_blob (pc_spillway t) = (spill_blob (pc_spillway s))(p := None)"
    using ok spw_forget_ok(2) by (cases "pc_spillway s") (auto simp: t_def modify_spw_def spill_blob_def fun_eq_iff)
  have t: "t = s\<lparr>pc_spillway := pc_spillway t\<rparr>" by (simp add: t_def modify_spw_def)
  have ok': "pc_spillway t = Some spw \<Longrightarrow> spw_ok w spw \<and> payload_size spw = unit_size (cipher s)" for spw
    using ok spw_forget_ok(1,3) by (auto simp: t_def modify_spw_def spw_same_params_def)
  have f: "entries t = entries s" "cipher t = cipher s" "pc_io t = pc_io s" "next_page_id t = next_page_id s"
    by (simp_all add: t_def modify_spw_def)
  have "pc_wf w t"
    using inv ok' spw_ok_wf by (auto simp: pc_inv_def pc_wf_def io_fits_def t_def modify_spw_def)
  moreover have "spill_inv w t"
    unfolding spill_inv_def blob f using inv ok' by (auto simp: pc_inv_def spill_inv_def)
  ultimately show "pc_inv w t" by (simp add: pc_inv_def)
  show "pc_view w t = (pc_view w s)(p := disk_page w (cipher s) (pc_io s) p)"
    unfolding pc_view_def blob f using p by (auto simp: fun_eq_iff cong: option.case_cong)
  show "same_store s t" by (simp add: t_def modify_spw_def same_store_def)
  show "is_dirty t = (is_dirty s)(p := False)"
    unfolding is_dirty_def spilled_blob blob f using p by (auto simp: fun_eq_iff)
  show "entries t = entries s" by (rule f)
qed

lemma load_spilled_wp:
  assumes inv: "pc_inv w s" and p: "map_of (entries s) p = None" and b: "spill_blob (pc_spillway s) p = Some blob"
  shows "wp (load_spilled w p)
    (\<lambda>_ t. quiet w s t \<and> map_of (entries t) p \<noteq> None \<and> length (entries t) = Suc (length (entries s)))
    (evict_fail w s) s"
proof -
  from b obtain spw where spw: "pc_spillway s = Some spw" "spw_blob spw p = Some blob"
    by (auto simp: spill_blob_def split: option.splits)
  have ok: "spw_ok w spw" "payload_size spw = unit_size (cipher s)" and pn: "p < next_page_id s"
    using inv spw(1) b by (auto simp: pc_inv_def spill_inv_def)
  obtain pg where pg: "open_blob w (cipher s) p blob = Some pg" "page_ok pg"
    using inv b unfolding pc_inv_def spill_inv_def by blast
  have q1: "quiet w s (s\<lparr>pc_spillway := Some spw'\<rparr>)" if "spw_same spw spw'" for spw'
    using spw_sameD [OF that] ok spw by (intro pc_inv_same_blobs [OF inv]) (auto simp: spill_blob_def)
  have fin: "quiet w s t \<and> map_of (entries t) p \<noteq> None \<and> length (entries t) = Suc (length (entries s))"
    if same: "spw_same spw spw'" and t: "t = touch_lru p ((insert_entry p \<lparr>ce_buf = pg, ce_dirty = True, ce_needs_stamp = False\<rparr> s2)
        \<lparr>dirty_count := dirty_count s2 + 1\<rparr>)" and s2: "s2 = modify_spw (spw_forget p) (s\<lparr>pc_spillway := Some spw'\<rparr>)"
    for spw' s2 t
  proof -
    let ?s1 = "s\<lparr>pc_spillway := Some spw'\<rparr>" and ?e = "\<lparr>ce_buf = pg, ce_dirty = True, ce_needs_stamp = False\<rparr>"
    note q = q1 [OF same]
    have inv1: "pc_inv w ?s1" using q by (simp add: quiet_def)
    have p1: "map_of (entries ?s1) p = None" using p by simp
    note fg = pc_inv_forget [OF inv1 p1, folded s2]
    have e: "entry_ok w (disk_page w (cipher s2) (pc_io s2) p) ?e" using pg(2) by (simp add: entry_ok_def)
    have t': "t = s2\<lparr>entries := AList.update p ?e (entries s2), pc_lru := lru_push_front (pc_lru s2) p,
        dirty_count := dirty_count s2 + (if ce_dirty ?e then 1 else 0)\<rparr>"
      by (simp add: t touch_lru_def insert_entry_def)
    have pre: "map_of (entries s2) p = None" "spill_blob (pc_spillway s2) p = None" "p < next_page_id s2"
      using p fg(3,5,6) pn by (simp_all add: same_store_def)
    note i = pc_inv_insert [OF fg(1) pre e _ t']
    have v: "pc_view w s p = Some pg" "is_dirty s p" using p b pg(1) by (simp_all add: pc_view_def is_dirty_def spilled_blob)
    have "quiet w s t"
      using i fg q v same_store_trans [OF _ same_store_trans [OF fg(3) i(3)], of s]
      by (simp add: quiet_def fun_upd_idem_iff fun_eq_iff)
    moreover have "length (entries t) = Suc (length (entries s))"
      using p fg(5) length_update_new [of p "entries s"] by (simp add: t' map_of_None_keys)
    ultimately show ?thesis by (simp add: t')
  qed
  show ?thesis
    unfolding load_spilled_def wp_and_then wp_on_spw [OF spw(1)]
  proof (rule wp_mono [OF spw_rehydrate_wp [OF ok(1) spw(2)]], goal_cases)
    case (1 a spw')
    then show ?case
      using fin [of spw'] pg(1) by (simp add: wp_simps opt_or_err_def modify_spw_def insert_entry_def)
  next
    case (2 x spw')
    then show ?case using q1 [of spw'] by (auto simp: evict_fail_def quiet_def pc_inv_def)
  qed
qed

lemma quiet_io:
  assumes inv: "pc_inv w s" and same: "io_same (pc_io s) io'"
  shows "quiet w s (s\<lparr>pc_io := io'\<rparr>)"
  using inv same disk_page_same [OF same] io_same_ok [OF same] io_sameD [OF same]
  by (simp add: quiet_def pc_inv_def pc_wf_def spill_inv_def io_fits_def same_store_def pc_view_def is_dirty_def
      spilled_def fun_eq_iff cong: option.case_cong)

lemma load_from_disk_wp:
  assumes inv: "pc_inv w s" and W: "world_ok w" and p: "map_of (entries s) p = None" "spill_blob (pc_spillway s) p = None"
  shows "wp (load_from_disk w p)
    (\<lambda>_ t. quiet w s t \<and> map_of (entries t) p \<noteq> None \<and> length (entries t) = Suc (length (entries s)))
    (get_fail w s p) s"
    (is "wp _ ?Q ?E s")
proof -
  have io: "io_ok (pc_io s)" and st: "stride (pc_io s) = unit_size (cipher s)"
    using inv by (simp_all add: pc_inv_def pc_wf_def io_fits_def)
  have view: "pc_view w s p = disk_page w (cipher s) (pc_io s) p" and clean: "\<not> is_dirty s p"
    using p by (simp_all add: pc_view_def is_dirty_def spilled_blob)
  note q = quiet_io [OF inv]
  show ?thesis
  proof (cases "p < cached_page_count (pc_io s)")
    case False
    then have "read_page_unit_into w p (pc_io s) = (Err (InvalidPageId p), pc_io s)"
      by (simp add: read_page_unit_into_eq read_page_unit_out_of_range)
    then have "wp (read_page_unit_into w p) Q' E' (pc_io s) = E' (InvalidPageId p) (pc_io s)" for Q' E'
      by (simp add: wp_def)
    moreover have "?E (InvalidPageId p) s"
      using quiet_refl [OF inv] view False by (simp add: get_fail_def readable_def disk_page_def)
    ultimately show ?thesis
      using st by (simp add: load_from_disk_def wp_simps unit_size_def)
  next
    case True
    note len = length_io_unit [OF io True]
    let ?u = "io_unit (pc_io s) p"
    let ?disk = "?u @ replicate (ENC_PAGE_SIZE - length ?u) 0"
    let ?decode = "case cipher s of Some dek \<Rightarrow> (case page_cipher_open w dek p ?disk of
        Inl _ \<Rightarrow> err (DecryptionFailed p) | Inr pt \<Rightarrow> ok pt) | None \<Rightarrow> ok (take PAGE_SIZE ?disk)"
    have dec: "?decode = opt_or_err (DecryptionFailed p) (disk_page w (cipher s) (pc_io s) p)"
      using True len st
      by (auto simp: disk_page_def open_blob_def opt_or_err_def unit_size_def split: option.splits sum.splits)
    have fin: "wp (and_then (opt_or_err (DecryptionFailed p) (disk_page w (cipher s) (pc_io s) p)) (\<lambda>plaintext.
       if \<not> verify_checksum (w_xxh w) plaintext then err (ChecksumMismatch p)
       else modify (touch_lru p \<circ> insert_entry p \<lparr>ce_buf = plaintext, ce_dirty = False, ce_needs_stamp = False\<rparr>)))
       ?Q ?E t" if same: "io_same (pc_io s) io'" and t: "t = s\<lparr>pc_io := io'\<rparr>" for io' t
    proof (cases "disk_page w (cipher s) (pc_io s) p")
      case None
      then show ?thesis
        using q [OF same] view by (simp add: t opt_or_err_def wp_simps get_fail_def readable_def)
    next
      case (Some pg)
      have pok: "page_ok pg"
        using W Some open_blob_ok by (auto simp: disk_page_def world_ok_def split: if_splits)
      show ?thesis
      proof (cases "verify_checksum (w_xxh w) pg")
        case False
        then show ?thesis
          using q [OF same] view clean Some by (simp add: t opt_or_err_def wp_simps get_fail_def readable_def)
      next
        case vf: True
        let ?e = "\<lparr>ce_buf = pg, ce_dirty = False, ce_needs_stamp = False\<rparr>"
        let ?t = "touch_lru p (insert_entry p ?e t)"
        have inv': "pc_inv w t" using q [OF same] by (simp add: t quiet_def)
        have pre: "map_of (entries t) p = None" "spill_blob (pc_spillway t) p = None" "ce_dirty ?e \<Longrightarrow> p < next_page_id t"
          using p by (simp_all add: t)
        have e: "entry_ok w (disk_page w (cipher t) (pc_io t) p) ?e"
          using pok Some vf disk_page_same [OF same] by (simp add: entry_ok_def t)
        have t': "?t = t\<lparr>entries := AList.update p ?e (entries t), pc_lru := lru_push_front (pc_lru t) p,
            dirty_count := dirty_count t + (if ce_dirty ?e then 1 else 0)\<rparr>"
          by (simp add: touch_lru_def insert_entry_def)
        note i = pc_inv_insert [OF inv' pre e _ t']
        have "quiet w s ?t"
          using i q [OF same] view Some clean same_store_trans [OF _ i(3), of s]
          by (simp add: t quiet_def fun_upd_idem_iff fun_eq_iff)
        moreover have "length (entries ?t) = Suc (length (entries s))"
          using p(1) length_update_new [of p "entries s"]
          by (simp add: t touch_lru_def insert_entry_def map_of_None_keys)
        ultimately show ?thesis using Some vf
          by (simp add: opt_or_err_def wp_simps touch_lru_def insert_entry_def)
      qed
    qed
    have "wp (on_io (read_page_unit_into w p)) (\<lambda>unit. wp (
        let on_disk = unit @ replicate (ENC_PAGE_SIZE - length unit) 0
        in and_then (gets cipher) (\<lambda>c. and_then (case c of
            Some dek \<Rightarrow> (case page_cipher_open w dek p on_disk of
               Inl _ \<Rightarrow> err (DecryptionFailed p) | Inr pt \<Rightarrow> ok pt)
          | None \<Rightarrow> ok (take PAGE_SIZE on_disk)) (\<lambda>plaintext.
          if \<not> verify_checksum (w_xxh w) plaintext then err (ChecksumMismatch p)
          else modify (touch_lru p \<circ>
            insert_entry p \<lparr>ce_buf = plaintext, ce_dirty = False, ce_needs_stamp = False\<rparr>)))) ?Q ?E) ?E s"
      unfolding wp_on_io read_page_unit_into_eq
    proof (rule wp_mono [OF read_page_unit_wp [OF io True]], goal_cases)
      case (1 u io')
      then have u: "u = ?u" and same: "io_same (pc_io s) io'" by auto
      have c: "cipher (s\<lparr>pc_io := io'\<rparr>) = cipher s" by simp
      show ?case
        using fin [OF same refl, unfolded wp_and_then]
        by (simp only: Let_def wp_and_then wp_gets u c dec)
    next
      case (2 x io')
      then show ?case using q [of io'] by (auto simp: get_fail_def evict_fail_def quiet_def pc_inv_def)
    qed
    then show ?thesis using st by (simp add: load_from_disk_def wp_and_then wp_gets wp_if unit_size_def)
  qed
qed

lemma get_fail_trans:
  assumes "quiet w s t" and "length (entries t) \<le> length (entries s)" and "get_fail w t p e u"
  shows "get_fail w s p e u"
  using assms(3) evict_fail_trans [OF assms(1,2)] quiet_trans [OF assms(1)] quiet_readable [OF assms(1)]
  by (auto simp: get_fail_def)

lemma load_page_wp:
  assumes inv: "pc_inv w s" and W: "world_ok w" and p: "map_of (entries s) p = None"
  shows "wp (load_page w p)
    (\<lambda>_ t. quiet w s t \<and> map_of (entries t) p \<noteq> None \<and> length (entries t) \<le> Suc (length (entries s)))
    (get_fail w s p) s"
  unfolding load_page_def wp_and_then
proof (rule wp_mono [OF maybe_evict_wp [OF inv W]], goal_cases)
  case (1 a t)
  then have q: "quiet w s t" and le: "length (entries t) \<le> length (entries s)" and p': "map_of (entries t) p = None"
    using p by (auto simp: shrinks_def)
  have inv': "pc_inv w t" using q by (simp add: quiet_def)
  let ?Q = "\<lambda>(_ :: unit) u. quiet w s u \<and> map_of (entries u) p \<noteq> None \<and> length (entries u) \<le> Suc (length (entries s))"
  show ?case
  proof (cases "spill_blob (pc_spillway t) p")
    case None
    have "wp (load_from_disk w p) ?Q (get_fail w s p) t"
      by (rule wp_mono [OF load_from_disk_wp [OF inv' W p' None]])
        (use le quiet_trans [OF q] get_fail_trans [OF q le] in auto)
    then show ?thesis using None by (simp add: wp_simps spilled_blob)
  next
    case (Some blob)
    have "wp (load_spilled w p) ?Q (get_fail w s p) t"
      by (rule wp_mono [OF load_spilled_wp [OF inv' p' Some]])
        (use le quiet_trans [OF q] evict_fail_trans [OF q le] in \<open>auto simp: get_fail_def\<close>)
    then show ?thesis using Some by (simp add: wp_simps spilled_blob)
  qed
next
  case (2 e t)
  then show ?case by (simp add: get_fail_def)
qed

end
