(* ===== verification/Cache_Ops.thy ===== *)
theory Cache_Ops
  imports Cache_Access
begin

text \<open>
  Contracts of the cache operations the tree layers call: read, write through a mutable borrow,
  allocate, reissue, copy.
\<close>

section \<open>Reading\<close>

lemma ensure_loaded_wp:
  assumes inv: "pc_inv w s" and W: "world_ok w"
  shows "wp (ensure_loaded w p)
    (\<lambda>_ t. quiet w s t \<and> (\<exists>e. map_of (entries t) p = Some e) \<and> length (entries t) \<le> Suc (length (entries s)))
    (get_fail w s p) s"
proof (cases "map_of (entries s) p")
  case (Some e)
  let ?s = "s\<lparr>cache_hits := cache_hits s + 1\<rparr>"
  have "quiet w ?s (touch_lru p ?s)" using inv Some by (intro pc_inv_touch) simp_all
  then have "quiet w s (touch_lru p ?s)" by (simp add: quiet_def same_store_def)
  then show ?thesis using Some by (simp add: ensure_loaded_def wp_simps touch_lru_def)
next
  case None
  let ?s = "s\<lparr>cache_misses := cache_misses s + 1\<rparr>"
  have q: "quiet w s ?s" using inv by (simp add: quiet_def same_store_def)
  have "wp (load_page w p) (\<lambda>_. wp (modify (touch_lru p))
      (\<lambda>_ t. quiet w s t \<and> (\<exists>e. map_of (entries t) p = Some e) \<and> length (entries t) \<le> Suc (length (entries s)))
      (get_fail w s p)) (get_fail w s p) ?s"
  proof (rule wp_mono [OF load_page_wp [OF _ W]], goal_cases)
    case (3 a t)
    then obtain e where e: "map_of (entries t) p = Some e" and q2: "quiet w ?s t" by auto
    then have "quiet w t (touch_lru p t)" by (intro pc_inv_touch) (simp_all add: quiet_def)
    then have "quiet w s (touch_lru p t)" using quiet_trans [OF quiet_trans [OF q q2]] by blast
    then show ?case using e 3 by (simp add: wp_simps touch_lru_def)
  next
    case (4 e t)
    then show ?case using get_fail_trans [OF q] by simp
  qed (use inv None in simp_all)
  then show ?thesis using None by (simp add: ensure_loaded_def wp_simps)
qed

lemma pc_get_wp:
  assumes inv: "pc_inv w s" and W: "world_ok w"
  shows "wp (pc_get w p)
    (\<lambda>b t. quiet w s t \<and> page_ok b \<and> (\<exists>pg. pc_view w s p = Some pg \<and> page_body b = page_body pg) \<and>
       readable w s p \<and> length (entries t) \<le> Suc (length (entries s)))
    (get_fail w s p) s"
  unfolding pc_get_def wp_and_then
proof (rule wp_mono [OF ensure_loaded_wp [OF inv W]], goal_cases)
  case (1 a t)
  then obtain e where e: "map_of (entries t) p = Some e" and q: "quiet w s t" by auto
  have ok: "page_ok (ce_buf e)" using q e by (intro pc_inv_entry(3) [of w t p e]) (simp_all add: quiet_def)
  have "pc_view w s p = Some (settled w e)" using q pc_view_entry [OF e, of w] by (simp add: quiet_def)
  moreover have "readable w s p"
    unfolding quiet_readable [OF q, symmetric]
  proof (cases "ce_dirty e")
    case True
    then show "readable w t p" using e pc_view_entry [OF e, of w] by (simp add: readable_def is_dirty_def)
  next
    case False
    then have "entry_ok w (disk_page w (cipher t) (pc_io t) p) e"
      using q e by (auto simp: quiet_def pc_inv_def pc_wf_def)
    then show "readable w t p"
      using False pc_view_entry [OF e, of w] by (simp add: readable_def entry_ok_def settled_def stamp_deferred_def)
  qed
  ultimately show ?case
    using 1 e q ok settled_body [OF ok, of w] by (simp add: entry_at_def wp_simps)
qed

section \<open>Writing\<close>

text \<open>The state after a page was marked dirty: same contents, one more dirty page.\<close>

definition marked :: "world \<Rightarrow> page_cache \<Rightarrow> u64 \<Rightarrow> page_cache \<Rightarrow> bool" where
  "marked w s p t \<longleftrightarrow> pc_inv w t \<and> pc_view w t = pc_view w s \<and> same_store s t \<and>
     is_dirty t = (is_dirty s)(p := True)"

lemma pc_get_mut_wp:
  assumes inv: "pc_inv w s" and W: "world_ok w" and pn: "p < next_page_id s"
  shows "wp (pc_get_mut w p)
    (\<lambda>b t. marked w s p t \<and> (\<exists>e. map_of (entries t) p = Some e \<and> ce_dirty e \<and> ce_buf e = b) \<and>
       length (entries t) \<le> Suc (length (entries s)))
    (get_fail w s p) s"
  unfolding pc_get_mut_def wp_and_then
proof (rule wp_mono [OF ensure_loaded_wp [OF inv W]], goal_cases)
  case (1 a t)
  then obtain e where e: "map_of (entries t) p = Some e" and q: "quiet w s t"
    and le: "length (entries t) \<le> Suc (length (entries s))" by auto
  have inv': "pc_inv w t" using q by (simp add: quiet_def)
  show ?case
  proof (cases "ce_dirty e")
    case True
    then have "is_dirty t p" using e by (simp add: is_dirty_def)
    then have "is_dirty s = (is_dirty s)(p := True)" using q by (auto simp: quiet_def fun_eq_iff)
    then show ?thesis using q e le True by (simp add: entry_at_def wp_simps marked_def quiet_def)
  next
    case False
    let ?e = "e\<lparr>ce_dirty := True\<rparr>"
    let ?t = "insert_entry p ?e (t\<lparr>dirty_count := dirty_count t + 1\<rparr>)"
    have t': "?t = t\<lparr>entries := AList.update p ?e (entries t), dirty_count := dirty_count t + 1\<rparr>"
      by (simp add: insert_entry_def)
    have eo: "entry_ok w (disk_page w (cipher t) (pc_io t) p) ?e"
      using pc_inv_entry(3) [OF inv' e] by (simp add: entry_ok_def)
    have pn': "p < next_page_id t" using q pn by (simp add: quiet_def same_store_def)
    note u = pc_inv_update [OF inv' e eo pn' tracked_set_dirty [OF tracked_inv [OF inv'] e False] t']
    have "settled w ?e = settled w e" by (simp add: settled_def stamp_deferred_def)
    then have "marked w s p ?t"
      using u q pc_view_entry [OF e, of w] same_store_trans [OF _ u(3), of s]
      by (simp add: marked_def quiet_def fun_upd_idem_iff)
    moreover have "length (entries ?t) = length (entries t)"
      using e by (simp add: insert_entry_def length_update_old map_of_SomeD_keys)
    ultimately show ?thesis
      using False e le by (simp add: entry_at_def wp_simps insert_entry_def)
  qed
qed

lemma pc_store_wp:
  assumes inv: "pc_inv w s" and e: "map_of (entries s) p = Some e" and dirty: "ce_dirty e" and b: "page_ok b"
  shows "wp (pc_store p b)
    (\<lambda>_ t. pc_inv w t \<and> same_store s t \<and> is_dirty t = is_dirty s \<and> length (entries t) = length (entries s) \<and>
       (\<exists>pg. pc_view w t = (pc_view w s)(p \<mapsto> pg) \<and> page_ok pg \<and> page_body pg = page_body b \<and>
         (verify_checksum (w_xxh w) b \<longrightarrow> verify_checksum (w_xxh w) pg))) E s"
proof -
  let ?e = "e\<lparr>ce_buf := b\<rparr>"
  let ?t = "insert_entry p ?e s"
  have t': "?t = s\<lparr>entries := AList.update p ?e (entries s), dirty_count := dirty_count s\<rparr>"
    by (simp add: insert_entry_def)
  have ok: "entry_ok w (disk_page w (cipher s) (pc_io s) p) ?e" using b dirty by (simp add: entry_ok_def)
  have tr: "tracked (AList.update p ?e (entries s)) (pc_lru s) (dirty_count s)"
    by (rule tracked_update [OF tracked_inv [OF inv] e]) simp
  note u = pc_inv_update [OF inv e ok pc_inv_entry(1) [OF inv e dirty] tr t']
  have "is_dirty s p" using e dirty by (simp add: is_dirty_def)
  then have "is_dirty ?t = is_dirty s" using u(4) dirty by (simp add: fun_upd_idem_iff)
  moreover have "verify_checksum (w_xxh w) b \<longrightarrow> verify_checksum (w_xxh w) (settled w ?e)"
    using b by (auto simp: settled_def stamp_deferred_def)
  moreover have "length (entries ?t) = length (entries s)"
    using e by (simp add: insert_entry_def length_update_old map_of_SomeD_keys)
  ultimately show ?thesis
    using u(1-3) e b page_ok_settled [of ?e w] settled_body [of ?e w]
    by (auto simp: pc_store_def entry_at_def wp_simps intro!: exI [of _ "settled w ?e"])
qed

text \<open>A whole mutation: the page's new contents are \<open>f\<close> of its old ones, up to the checksum.\<close>

definition wrote :: "world \<Rightarrow> page_cache \<Rightarrow> u64 \<Rightarrow> (page \<Rightarrow> page) \<Rightarrow> page_cache \<Rightarrow> bool" where
  "wrote w s p f t \<longleftrightarrow> pc_inv w t \<and> same_store s t \<and> is_dirty t = (is_dirty s)(p := True) \<and>
     (\<exists>old b new. pc_view w s p = Some old \<and> page_ok b \<and> page_body b = page_body old \<and>
        pc_view w t = (pc_view w s)(p \<mapsto> new) \<and> page_ok new \<and> page_body new = page_body (f b) \<and>
        (verify_checksum (w_xxh w) (f b) \<longrightarrow> verify_checksum (w_xxh w) new))"

lemma pc_with_mut_wp:
  assumes inv: "pc_inv w s" and W: "world_ok w" and pn: "p < next_page_id s"
    and f: "\<And>b. page_ok b \<Longrightarrow> page_ok (f b)"
  shows "wp (pc_with_mut w p f)
    (\<lambda>_ t. wrote w s p f t \<and> length (entries t) \<le> Suc (length (entries s))) (get_fail w s p) s"
  unfolding pc_with_mut_def wp_and_then
proof (rule wp_mono [OF pc_get_mut_wp [OF inv W pn]], goal_cases)
  case (1 b t)
  then obtain e where m: "marked w s p t" and e: "map_of (entries t) p = Some e" "ce_dirty e" "ce_buf e = b"
    and le: "length (entries t) \<le> Suc (length (entries s))" by auto
  have inv': "pc_inv w t" using m by (simp add: marked_def)
  have ok: "page_ok b" using pc_inv_entry(3) [OF inv' e(1)] e(3) by simp
  have old: "pc_view w s p = Some (settled w e)" using m pc_view_entry [OF e(1), of w] by (simp add: marked_def)
  have body: "page_body b = page_body (settled w e)" using settled_body [of e w] ok e(3) by simp
  show ?case
  proof (rule wp_mono [OF pc_store_wp [OF inv' e(1,2) f [OF ok]]], goal_cases)
    case (1 a u)
    then show ?case
      using m old body ok le same_store_trans [of s t u]
      by (auto simp: wrote_def marked_def)
  qed
qed

section \<open>Allocating\<close>

text \<open>A zeroed dirty page replaces whatever the id held; then the cache evicts to its cap.\<close>

definition reset :: "world \<Rightarrow> page_cache \<Rightarrow> u64 \<Rightarrow> page_cache \<Rightarrow> bool" where
  "reset w s p t \<longleftrightarrow> pc_inv w t \<and> same_store s t \<and> is_dirty t = (is_dirty s)(p := True) \<and>
     pc_view w t = (pc_view w s)(p \<mapsto> zero_page)"

definition alloc_fail :: "world \<Rightarrow> page_cache \<Rightarrow> u64 \<Rightarrow> chisel_error \<Rightarrow> page_cache \<Rightarrow> bool" where
  "alloc_fail w s p e t \<longleftrightarrow>
     io_failure e \<and> \<not> no_faults w \<and> pc_wf w t \<and> same_store s t \<or>
     max_pages s \<le> length (entries s) \<and> reset w s p t \<and>
       (e = CacheFull (max_pages s) \<and> spillway_max_bytes s = 0 \<or> (\<exists>m. e = SpillwayFull m))"

lemma reset_evict_wp:
  assumes W: "world_ok w" and r: "reset w s p t" and le: "length (entries t) \<le> Suc (length (entries s))"
  shows "wp (maybe_evict w) (\<lambda>_ u. reset w s p u \<and> length (entries u) \<le> Suc (length (entries s))) (alloc_fail w s p) t"
proof (rule wp_mono [OF maybe_evict_wp [OF _ W]], goal_cases)
  case 1
  then show ?case using r by (simp add: reset_def)
next
  case (2 a u)
  then show ?case
    using r le same_store_trans [of s t u] by (auto simp: reset_def quiet_def shrinks_def)
next
  case (3 e u)
  have ss: "same_store s t" using r by (simp add: reset_def)
  show ?case
    using 3 r le same_store_trans [OF ss] ss
    by (auto simp: evict_fail_def alloc_fail_def cap_error_def reset_def quiet_def same_store_def)
qed

lemma resetI:
  assumes inv: "pc_inv w s" and pn: "p < next_page_id s"
    and ents: "map_of (entries t) = (map_of (entries s))(p \<mapsto> zero_entry)"
    and tr: "tracked (entries t) (pc_lru t) (dirty_count t)" and ds: "dirty_scratch t = []"
    and blob: "spill_blob (pc_spillway t) = (spill_blob (pc_spillway s))(p := None)"
    and spw: "\<And>spw. pc_spillway t = Some spw \<Longrightarrow> spw_ok w spw \<and> payload_size spw = unit_size (cipher s)"
    and f: "cipher t = cipher s" "pc_io t = pc_io s" "next_page_id t = next_page_id s" "max_pages t = max_pages s"
      "spillway_max_bytes t = spillway_max_bytes s"
  shows "reset w s p t"
proof -
  have spw': "pc_spillway t = Some spw \<Longrightarrow> spw_ok w spw \<and> spw_wf spw \<and> payload_size spw = unit_size (cipher s)" for spw
    using spw by (auto intro: spw_ok_wf [of w])
  have "pc_wf w t"
    using inv pn spw' tr ds unfolding pc_inv_def pc_wf_def io_fits_def ents f
    by (auto simp: zero_entry_def entry_ok_def)
  moreover have "spill_inv w t"
    unfolding spill_inv_def blob ents f using inv spw' by (auto simp: pc_inv_def spill_inv_def)
  moreover have "pc_view w t = (pc_view w s)(p \<mapsto> zero_page)"
    unfolding pc_view_def blob ents f by (auto simp: fun_eq_iff zero_entry_def cong: option.case_cong)
  moreover have "is_dirty t = (is_dirty s)(p := True)"
    unfolding is_dirty_def spilled_blob blob ents by (auto simp: fun_eq_iff zero_entry_def)
  moreover have "same_store s t" using f by (simp add: same_store_def)
  ultimately show "reset w s p t" by (simp add: reset_def pc_inv_def)
qed

text \<open>A new dirty entry over no entry or over a clean one.\<close>

lemma tracked_put_dirty:
  assumes "tracked al l dc" and "ce_dirty e" and "\<And>e0. map_of al p = Some e0 \<Longrightarrow> \<not> ce_dirty e0"
  shows "tracked (AList.update p e al) (lru_push_front l p) (dc + 1)"
proof (cases "map_of al p")
  case None
  then show ?thesis using tracked_insert_front [OF assms(1) None, of e] assms(2) by simp
next
  case (Some e0)
  have "tracked (AList.update p e al) l (dc + 1)"
    by (rule tracked_set_dirty [OF assms(1) Some assms(3) [OF Some] assms(2)])
  then show ?thesis by (rule tracked_touch) simp
qed

lemma length_update_le: "length (AList.update k v al) \<le> Suc (length al)"
  by (cases "k \<in> fst ` set al") (simp_all add: length_update_new length_update_old)

text \<open>An id at or above \<open>next_page_id\<close> is not dirty.\<close>

lemma fresh_id:
  assumes "pc_inv w s" and "next_page_id s \<le> p"
  shows "map_of (entries s) p = Some e \<Longrightarrow> \<not> ce_dirty e" and "spill_blob (pc_spillway s) p = None"
    and "\<not> is_dirty s p"
proof -
  show e: "\<not> ce_dirty e" if "map_of (entries s) p = Some e" for e
    using pc_inv_entry(1) [OF assms(1) that] assms(2) by auto
  show b: "spill_blob (pc_spillway s) p = None"
    using assms unfolding pc_inv_def spill_inv_def by (metis leD not_None_eq)
  show "\<not> is_dirty s p" using e b by (auto simp: is_dirty_def spilled_blob split: option.splits)
qed

text \<open>Room for one more page id.\<close>

definition id_room :: "page_cache \<Rightarrow> nat \<Rightarrow> bool" where
  "id_room s k \<longleftrightarrow> (unat (next_page_id s) + k) * ENC_PAGE_SIZE < 2 ^ 64"

lemma id_room_Suc:
  assumes "id_room s (Suc k)"
  shows "unat (next_page_id s + 1) = Suc (unat (next_page_id s))" and "id_room (s\<lparr>next_page_id := next_page_id s + 1\<rparr>) k"
proof -
  have "Suc (unat (next_page_id s)) < 2 ^ 64" using assms by (simp add: id_room_def)
  then show u: "unat (next_page_id s + 1) = Suc (unat (next_page_id s))" by (simp add: unat_word_ariths)
  show "id_room (s\<lparr>next_page_id := next_page_id s + 1\<rparr>) k" using assms u by (simp add: id_room_def)
qed

abbreviation bump_id :: "page_cache \<Rightarrow> page_cache" where
  "bump_id s \<equiv> s\<lparr>next_page_id := next_page_id s + 1\<rparr>"

lemma pc_inv_bump:
  assumes inv: "pc_inv w s" and room: "id_room s (Suc k)"
  shows "pc_inv w (bump_id s)"
proof -
  note u = id_room_Suc [OF room]
  have lt: "p < next_page_id s \<Longrightarrow> p < next_page_id s + 1" for p
    using u(1) by (simp add: word_less_nat_alt)
  have "unat (next_page_id s + 1) * 8232 < 2 ^ 64"
    using u room by (simp add: id_room_def)
  then show ?thesis
    using inv lt unfolding pc_inv_def pc_wf_def spill_inv_def io_fits_def by (auto simp del: map_of_eq_Some_iff)
qed

lemma pc_new_page_wp:
  assumes inv: "pc_inv w s" and W: "world_ok w" and room: "id_room s (Suc k)"
  shows "wp (pc_new_page w)
    (\<lambda>p t. p = next_page_id s \<and> reset w (bump_id s) p t \<and> length (entries t) \<le> Suc (length (entries s)))
    (alloc_fail w (bump_id s) (next_page_id s)) s"
proof -
  let ?p = "next_page_id s" and ?s = "bump_id s"
  note inv' = pc_inv_bump [OF inv room] and fr = fresh_id [OF inv, of ?p]
  have pn: "?p < next_page_id ?s" using id_room_Suc(1) [OF room] by (simp add: word_less_nat_alt)
  let ?t = "touch_lru ?p ((insert_entry ?p zero_entry ?s)\<lparr>dirty_count := dirty_count ?s + 1\<rparr>)"
  let ?u = "?t\<lparr>pages_allocated := pages_allocated s + 1\<rparr>"
  have "tracked (AList.update ?p zero_entry (entries s)) (lru_push_front (pc_lru s) ?p) (dirty_count s + 1)"
    using fr(1) by (intro tracked_put_dirty [OF tracked_inv [OF inv]]) (simp_all add: zero_entry_def)
  moreover have "spill_blob (pc_spillway s) = (spill_blob (pc_spillway s))(?p := None)" using fr(2) by auto
  ultimately have "reset w ?s ?p ?u"
    using inv by (intro resetI [OF inv' pn])
      (auto simp: touch_lru_def insert_entry_def pc_inv_def pc_wf_def spill_inv_def)
  moreover have "length (entries ?u) \<le> Suc (length (entries ?s))"
    by (simp add: touch_lru_def insert_entry_def length_update_le)
  ultimately have "wp (maybe_evict w) (\<lambda>_ u. reset w ?s ?p u \<and> length (entries u) \<le> Suc (length (entries ?s)))
      (alloc_fail w ?s ?p) ?u"
    by (rule reset_evict_wp [OF W])
  then show ?thesis
    by (simp add: pc_new_page_def wp_simps touch_lru_def insert_entry_def)
qed

text \<open>Replacing an id's entry, if any, by a fresh dirty one at the recent end.\<close>

lemma tracked_replace:
  assumes "tracked al l dc" and "ce_dirty e"
    and "d = (case map_of al p of Some e0 \<Rightarrow> ce_dirty e0 | None \<Rightarrow> False)"
  shows "tracked (AList.update p e (AList.delete p al)) (lru_push_front l p) (dc - (if d then 1 else 0) + 1)"
proof -
  have "count_if ce_dirty (AList.delete p al) = dc - (if d then 1 else 0)"
  proof (cases "map_of al p")
    case None
    then have "\<not> d" using assms(3) by simp
    moreover have "AList.delete p al = al" using None by (simp add: delete_fresh map_of_None_keys)
    ultimately show ?thesis using assms(1) by (simp add: tracked_def)
  next
    case (Some e0)
    then show ?thesis using assms count_if_delete [of al p e0 ce_dirty] by (auto simp: tracked_def)
  qed
  moreover have "p \<notin> fst ` set (AList.delete p al)" by (simp add: keys_delete)
  ultimately show ?thesis
    using assms(1,2)
    by (auto simp: tracked_def lru.front_invar lru.touch_set keys_update keys_delete count_if_update_new)
qed

lemma replace_reset:
  assumes inv: "pc_inv w s" and pn: "p < next_page_id s"
    and t: "t = s\<lparr>entries := AList.update p zero_entry (AList.delete p (entries s)),
      pc_lru := lru_push_front (pc_lru s) p, dirty_count := dc, pc_spillway := map_option (spw_forget p) (pc_spillway s),
      pages_allocated := n\<rparr>"
    and dc: "dc = dirty_count s - (if (case map_of (entries s) p of Some e \<Rightarrow> ce_dirty e | None \<Rightarrow> False) then 1 else 0) + 1"
  shows "reset w s p t" and "length (entries t) \<le> Suc (length (entries s))"
proof -
  have ok: "pc_spillway s = Some spw \<Longrightarrow> spw_ok w spw \<and> payload_size spw = unit_size (cipher s)" for spw
    using inv by (simp add: pc_inv_def spill_inv_def)
  have ok': "pc_spillway t = Some spw \<Longrightarrow> spw_ok w spw \<and> spw_wf spw \<and> payload_size spw = unit_size (cipher s)" for spw
    using ok spw_forget_ok(1,3) by (auto simp: t spw_same_params_def intro: spw_ok_wf [of w])
  have blob: "spill_blob (pc_spillway t) = (spill_blob (pc_spillway s))(p := None)"
    using ok spw_forget_ok(2) by (cases "pc_spillway s") (auto simp: t spill_blob_def fun_eq_iff)
  have "tracked (entries t) (pc_lru t) (dirty_count t)"
    using tracked_replace [OF tracked_inv [OF inv], of zero_entry _ p] by (simp add: t dc zero_entry_def)
  then show "reset w s p t"
    using inv ok' blob by (intro resetI [OF inv pn]) (auto simp: t pc_inv_def pc_wf_def)
  have "length (entries t) = Suc (length (AList.delete p (entries s)))"
    by (simp add: t length_update_new keys_delete)
  then show "length (entries t) \<le> Suc (length (entries s))" by (simp add: length_delete_le)
qed

lemma reissue_page_wp:
  assumes inv: "pc_inv w s" and W: "world_ok w" and pn: "p < next_page_id s"
  shows "wp (reissue_page w p)
    (\<lambda>_ t. reset w s p t \<and> length (entries t) \<le> Suc (length (entries s))) (alloc_fail w s p) s"
proof -
  define d where "d = (case map_of (entries s) p of Some e \<Rightarrow> ce_dirty e | None \<Rightarrow> False)"
  define t where "t = s\<lparr>entries := AList.update p zero_entry (AList.delete p (entries s)),
      pc_lru := lru_push_front (pc_lru s) p, dirty_count := dirty_count s - (if d then 1 else 0) + 1,
      pc_spillway := map_option (spw_forget p) (pc_spillway s), pages_allocated := pages_allocated s + 1\<rparr>"
  note r = replace_reset [OF inv pn t_def, unfolded d_def [symmetric], OF refl]
  have t: "t = touch_lru p ((insert_entry p zero_entry s2)\<lparr>dirty_count := dirty_count s2 + 1,
      pages_allocated := pages_allocated s2 + 1\<rparr>)"
    if "s2 = modify_spw (spw_forget p) (untrack_dirty d (remove_entry p s))" for s2
    unfolding that t_def
    by (cases d) (simp_all add: untrack_dirty_def remove_entry_def modify_spw_def insert_entry_def touch_lru_def)
  show ?thesis
    using reset_evict_wp [OF W r] by (simp add: reissue_page_def wp_simps d_def [symmetric] t [OF refl])
qed

section \<open>Copying\<close>

lemma copy_page_wp:
  assumes inv: "pc_inv w s" and W: "world_ok w" and pn: "q < next_page_id s"
  shows "wp (copy_page w p q)
    (\<lambda>_ t. pc_inv w t \<and> same_store s t \<and> is_dirty t = (is_dirty s)(q := True) \<and>
       (\<exists>old new. pc_view w s p = Some old \<and> pc_view w t = (pc_view w s)(q \<mapsto> new) \<and> page_ok new \<and>
          page_body new = page_body old) \<and>
       length (entries t) \<le> length (entries s) + 2)
    (\<lambda>e t. get_fail w s p e t \<or> (\<exists>u. quiet w s u \<and> length (entries u) \<le> Suc (length (entries s)) \<and> get_fail w u q e t)) s"
  unfolding copy_page_def wp_and_then
proof (rule wp_mono [OF pc_get_wp [OF inv W]], goal_cases)
  case (1 b t)
  then obtain pg where q: "quiet w s t" and ok: "page_ok b" and pg: "pc_view w s p = Some pg" "page_body b = page_body pg"
    and le: "length (entries t) \<le> Suc (length (entries s))" by auto
  have inv': "pc_inv w t" and pn': "q < next_page_id t" using q pn by (auto simp: quiet_def same_store_def)
  show ?case
  proof (rule wp_mono [OF pc_with_mut_wp [OF inv' W pn']], goal_cases)
    case (2 a u)
    then show ?case
      using q pg le same_store_trans [of s t u] by (auto simp: wrote_def quiet_def)
  qed (use ok q le in auto)
qed simp

end
