(* ===== verification/Cache_Flush.thy ===== *)
theory Cache_Flush
  imports Cache_Ops
begin

text \<open>
  Contracts of the cache operations that touch the device for good: \<open>flush\<close> writes every dirty and
  spilled page and nothing else, \<open>discard_all_dirty\<close> falls back to the device, \<open>truncate\<close> cuts it.
\<close>

section \<open>Writing one page to the device\<close>

text \<open>Every dirty page carries a valid checksum, or will when its deferred stamp is settled.\<close>

definition stamped :: "world \<Rightarrow> page_cache \<Rightarrow> bool" where
  "stamped w s \<longleftrightarrow> (\<forall>p pg. is_dirty s p \<and> pc_view w s p = Some pg \<longrightarrow> verify_checksum (w_xxh w) pg)"

text \<open>No clean page on the device was touched.\<close>

definition keeps_clean :: "page_cache \<Rightarrow> page_cache \<Rightarrow> bool" where
  "keeps_clean s t \<longleftrightarrow> cached_page_count (pc_io s) \<le> cached_page_count (pc_io t) \<and>
     (\<forall>q. q < cached_page_count (pc_io s) \<and> \<not> is_dirty s q \<longrightarrow> io_unit (pc_io t) q = io_unit (pc_io s) q)"

text \<open>Progress of a flush: no page is lost, no clean page is touched, nothing becomes dirty.\<close>

definition flushed :: "world \<Rightarrow> page_cache \<Rightarrow> page_cache \<Rightarrow> bool" where
  "flushed w s t \<longleftrightarrow> cipher t = cipher s \<and> next_page_id t = next_page_id s \<and> max_pages t = max_pages s \<and>
     spillway_max_bytes t = spillway_max_bytes s \<and> read_only (pc_io t) = read_only (pc_io s) \<and>
     keeps_clean s t \<and> (\<forall>q. is_dirty t q \<longrightarrow> is_dirty s q) \<and> pc_view w s \<subseteq>\<^sub>m pc_view w t"

text \<open>A flush that failed half way: bookkeeping intact, no clean page touched.\<close>

definition flush_fail :: "world \<Rightarrow> page_cache \<Rightarrow> chisel_error \<Rightarrow> page_cache \<Rightarrow> bool" where
  "flush_fail w s e t \<longleftrightarrow> io_failure e \<and> \<not> no_faults w \<and> pc_wf w t \<and>
     cipher t = cipher s \<and> next_page_id t = next_page_id s \<and> max_pages t = max_pages s \<and> keeps_clean s t"

lemma keeps_clean_trans:
  assumes "keeps_clean a b" and "keeps_clean b c" and "\<And>q. is_dirty b q \<Longrightarrow> is_dirty a q"
  shows "keeps_clean a c"
proof -
  have "io_unit (pc_io c) q = io_unit (pc_io a) q" if "q < cached_page_count (pc_io a)" "\<not> is_dirty a q" for q
  proof -
    have "q < cached_page_count (pc_io b)" "\<not> is_dirty b q" using that assms(1,3) by (auto simp: keeps_clean_def)
    then show ?thesis using that assms(1,2) by (simp add: keeps_clean_def)
  qed
  then show ?thesis using assms(1,2) by (auto simp: keeps_clean_def)
qed

lemma flushed_refl: "flushed w s s"
  by (simp add: flushed_def keeps_clean_def)

lemma flushed_trans:
  assumes "flushed w a b" and "flushed w b c"
  shows "flushed w a c"
  using assms keeps_clean_trans [of a b c] unfolding flushed_def by (auto intro: map_le_trans)

lemma flush_fail_trans:
  assumes "flushed w a b" and "flush_fail w b e c"
  shows "flush_fail w a e c"
  using assms keeps_clean_trans [of a b c] unfolding flushed_def flush_fail_def by auto

lemma quiet_flushed: "quiet w s t \<Longrightarrow> flushed w s t"
  by (auto simp: quiet_def flushed_def same_store_def keeps_clean_def io_sameD io_same_unit)

lemma dirty_view:
  assumes "pc_inv w s" and "is_dirty s p"
  shows "\<exists>pg. pc_view w s p = Some pg"
proof (cases "map_of (entries s) p")
  case None
  then obtain b where b: "spill_blob (pc_spillway s) p = Some b" using assms(2) by (auto simp: is_dirty_def spilled_blob)
  then obtain pg where "open_blob w (cipher s) p b = Some pg"
    using assms(1) unfolding pc_inv_def spill_inv_def by blast
  then show ?thesis using None b by (simp add: pc_view_def)
qed (simp add: pc_view_def)

lemma flushed_stamped:
  assumes "flushed w s t" and "pc_inv w s" and "stamped w s"
  shows "stamped w t"
  unfolding stamped_def
proof (intro allI impI)
  fix p pg assume a: "is_dirty t p \<and> pc_view w t p = Some pg"
  then have d: "is_dirty s p" using assms(1) by (simp add: flushed_def)
  then obtain pg' where pg': "pc_view w s p = Some pg'" using dirty_view assms(2) by blast
  then have "pc_view w t p = Some pg'" using assms(1) unfolding flushed_def map_le_def by (metis domI)
  with a d pg' assms(3) show "verify_checksum (w_xxh w) pg" by (simp add: stamped_def)
qed

text \<open>The device after a unit was written, or half written.\<close>

lemma disk_page_written:
  assumes "io_frame io p io'" and "cached_page_count io' = max (cached_page_count io) (p + 1)"
    and "fits_offset io p" and "0 < stride io"
  shows "disk_page w c io' p = open_blob w c p (io_unit io' p)"
    and "q \<noteq> p \<Longrightarrow> disk_page w c io q = Some x \<Longrightarrow> disk_page w c io' q = Some x"
proof -
  have "Suc (unat p) * 1 \<le> Suc (unat p) * stride io" using assms(4) by (intro mult_le_mono2) simp
  then have "Suc (unat p) \<le> Suc (unat p) * stride io" by (simp only: mult.right_neutral)
  then have "Suc (unat p) < 2 ^ 64" using assms(3) [unfolded fits_offset_def] by (rule le_less_trans)
  then have "p < p + 1" by (simp add: word_less_nat_alt unat_word_ariths)
  then have "p < cached_page_count io'" using assms(2) by (simp add: less_max_iff_disj)
  then show "disk_page w c io' p = open_blob w c p (io_unit io' p)" by (simp add: disk_page_def)
  assume "q \<noteq> p" and "disk_page w c io q = Some x"
  then show "disk_page w c io' q = Some x"
    using assms(1,2) by (auto simp: disk_page_def io_frame_def less_max_iff_disj split: if_splits)
qed

lemma disk_page_torn:
  assumes "io_frame io p io'" and "cached_page_count io' = cached_page_count io" and "q \<noteq> p"
  shows "disk_page w c io' q = disk_page w c io q"
  using assms by (auto simp: disk_page_def io_frame_def)

lemma pc_fits_offset:
  assumes "io_fits s" and "p < next_page_id s"
  shows "fits_offset (pc_io s) p" and "0 < stride (pc_io s)"
proof -
  have "Suc (unat p) * stride (pc_io s) \<le> unat (next_page_id s) * ENC_PAGE_SIZE"
    using assms by (intro mult_le_mono) (auto simp: io_fits_def unit_size_def word_less_nat_alt)
  then show "fits_offset (pc_io s) p" using assms(1) unfolding fits_offset_def io_fits_def by linarith
  show "0 < stride (pc_io s)" using assms(1) by (auto simp: io_fits_def unit_size_def)
qed

text \<open>\<open>write_sealed\<close>, and the direct write of a blob that is already sealed.\<close>

lemma write_blob_wp:
  assumes fits: "io_fits s" and pn: "p < next_page_id s" and rw: "\<not> read_only (pc_io s)"
    and b: "length blob = unit_size (cipher s)"
    and Q: "\<And>io'. io_frame (pc_io s) p io' \<Longrightarrow> io_unit io' p = blob \<Longrightarrow>
      cached_page_count io' = max (cached_page_count (pc_io s)) (p + 1) \<Longrightarrow> Q () (s\<lparr>pc_io := io'\<rparr>)"
    and E: "\<And>e io'. io_failure e \<Longrightarrow> \<not> no_faults w \<Longrightarrow> io_frame (pc_io s) p io' \<Longrightarrow>
      cached_page_count io' = cached_page_count (pc_io s) \<Longrightarrow> E e (s\<lparr>pc_io := io'\<rparr>)"
  shows "wp (on_io (write_page_unit w p blob)) Q E s"
proof -
  have io: "io_ok (pc_io s)" and st: "length blob = stride (pc_io s)" using fits b by (simp_all add: io_fits_def)
  show ?thesis
    unfolding wp_on_io
    by (rule wp_mono [OF write_page_unit_wp [OF io rw st pc_fits_offset(1) [OF fits pn]]]) (use Q E in auto)
qed

text \<open>Both ways a page reaches the device: from the cache and from the spillway.\<close>

lemma page_on_disk:
  assumes inv: "pc_inv w s" and pn: "p < next_page_id s"
    and dirty: "is_dirty s p" and view: "pc_view w s p = Some pg" and pg: "page_ok pg" "verify_checksum (w_xxh w) pg"
    and io: "io_frame (pc_io s) p (pc_io t)" "cached_page_count (pc_io t) = max (cached_page_count (pc_io s)) (p + 1)"
      "open_blob w (cipher s) p (io_unit (pc_io t) p) = Some pg"
    and ents: "map_of (entries t) = (map_of (entries s))(p \<mapsto> \<lparr>ce_buf = pg, ce_dirty = False, ce_needs_stamp = False\<rparr>)"
    and tr: "tracked (entries t) (pc_lru t) (dirty_count t)" and ds: "dirty_scratch t = []"
    and blobs: "spill_blob (pc_spillway t) = (spill_blob (pc_spillway s))(p := None)"
    and spw: "\<And>spw. pc_spillway t = Some spw \<Longrightarrow> spw_ok w spw \<and> payload_size spw = unit_size (cipher s)"
    and f: "cipher t = cipher s" "next_page_id t = next_page_id s" "max_pages t = max_pages s"
      "spillway_max_bytes t = spillway_max_bytes s"
  shows "pc_inv w t" and "flushed w s t" and "is_dirty t = (is_dirty s)(p := False)"
proof -
  have fits: "io_fits s" using inv by (simp add: pc_inv_def pc_wf_def)
  note fo = pc_fits_offset [OF fits pn]
  note disk = disk_page_written [OF io(1,2) fo, where w = w and c = "cipher s"]
  have dp: "disk_page w (cipher s) (pc_io t) p = Some pg" using disk(1) io(3) by simp
  have io_t: "io_fits t" using fits io(1) f by (simp add: io_fits_def io_frame_def)
  have ent: "(ce_dirty e \<longrightarrow> q < next_page_id s) \<and> entry_ok w (disk_page w (cipher s) (pc_io t) q) e"
    if e: "map_of (entries t) q = Some e" for q e
  proof (cases "q = p")
    case True
    then show ?thesis using e ents dp pg pn by (auto simp: entry_ok_def)
  next
    case False
    then have e': "map_of (entries s) q = Some e" using e ents by simp
    have ok: "entry_ok w (disk_page w (cipher s) (pc_io s) q) e" by (rule pc_inv_entry(2) [OF inv e'])
    then have "entry_ok w (disk_page w (cipher s) (pc_io t) q) e"
      using disk(2) [OF False] by (auto simp: entry_ok_def)
    then show ?thesis using pc_inv_entry(1) [OF inv e'] by simp
  qed
  have "pc_wf w t"
    unfolding pc_wf_def f(1,2)
    using inv tr ds io_t ent spw spw_ok_wf f(3) by (auto simp: pc_inv_def pc_wf_def simp del: map_of_eq_Some_iff)
  moreover have "spill_inv w t"
    unfolding spill_inv_def blobs ents f(1,2) using inv spw by (auto simp: pc_inv_def spill_inv_def)
  ultimately show "pc_inv w t" by (simp add: pc_inv_def)
  show d: "is_dirty t = (is_dirty s)(p := False)"
    unfolding is_dirty_def spilled_blob blobs ents by (auto simp: fun_eq_iff)
  have "pc_view w s \<subseteq>\<^sub>m pc_view w t"
    unfolding map_le_def
  proof
    fix q assume "q \<in> dom (pc_view w s)"
    then obtain x where x: "pc_view w s q = Some x" by auto
    show "pc_view w s q = pc_view w t q"
    proof (cases "q = p")
      case True
      then show ?thesis using view by (simp add: pc_view_def ents)
    next
      case False
      then show ?thesis
        using x disk(2) [OF False] unfolding pc_view_def blobs ents f(1)
        by (auto split: option.splits)
    qed
  qed
  moreover have "keeps_clean s t"
    using io(1,2) dirty by (auto simp: keeps_clean_def io_frame_def)
  ultimately show "flushed w s t"
    using io(1) d f by (auto simp: flushed_def io_frame_def)
qed

lemma page_torn:
  assumes inv: "pc_inv w s" and dirty: "is_dirty s p"
    and io: "io_frame (pc_io s) p (pc_io t)" "cached_page_count (pc_io t) = cached_page_count (pc_io s)"
    and ents: "\<And>q. q \<noteq> p \<Longrightarrow> map_of (entries t) q = map_of (entries s) q"
    and ent: "\<And>e. map_of (entries t) p = Some e \<Longrightarrow> ce_dirty e \<and> page_ok (ce_buf e) \<and> p < next_page_id s"
    and tr: "tracked (entries t) (pc_lru t) (dirty_count t)" and ds: "dirty_scratch t = []"
    and spw: "\<And>spw. pc_spillway t = Some spw \<Longrightarrow> spw_wf spw \<and> payload_size spw = unit_size (cipher s)"
    and f: "cipher t = cipher s" "next_page_id t = next_page_id s" "max_pages t = max_pages s"
    and e: "io_failure e" "\<not> no_faults w"
  shows "flush_fail w s e t"
proof -
  have fits: "io_fits s" using inv by (simp add: pc_inv_def pc_wf_def)
  have io_t: "io_fits t" using fits io(1) f by (simp add: io_fits_def io_frame_def)
  have "(ce_dirty en \<longrightarrow> q < next_page_id s) \<and> entry_ok w (disk_page w (cipher s) (pc_io t) q) en"
    if en: "map_of (entries t) q = Some en" for q en
  proof (cases "q = p")
    case True
    then show ?thesis using ent en by (simp add: entry_ok_def del: map_of_eq_Some_iff)
  next
    case False
    then have "map_of (entries s) q = Some en" using en ents by simp
    then show ?thesis
      using pc_inv_entry(1,2) [OF inv] disk_page_torn [OF io False] by simp
  qed
  then have "pc_wf w t"
    unfolding pc_wf_def f(1,2)
    using inv tr ds io_t spw f(3) by (auto simp: pc_inv_def pc_wf_def simp del: map_of_eq_Some_iff)
  moreover have "keeps_clean s t" using io dirty by (auto simp: keeps_clean_def io_frame_def)
  ultimately show ?thesis using e f by (simp add: flush_fail_def)
qed

section \<open>The flush loop over the dirty pages\<close>

abbreviation clean_entry :: "page \<Rightarrow> cache_entry" where
  "clean_entry pg \<equiv> \<lparr>ce_buf = pg, ce_dirty = False, ce_needs_stamp = False\<rparr>"

lemma flush_one_wp:
  assumes inv: "pc_inv w s" and W: "world_ok w" and rw: "\<not> read_only (pc_io s)"
    and e: "map_of (entries s) p = Some e" and dirty: "ce_dirty e" and st: "stamped w s"
  shows "wp (flush_one w p)
    (\<lambda>_ t. pc_inv w t \<and> flushed w s t \<and> pc_spillway t = pc_spillway s \<and>
       map_of (entries t) = (map_of (entries s))(p \<mapsto> clean_entry (settled w e)))
    (flush_fail w s) s"
proof -
  let ?e = "stamp_deferred w e" and ?pg = "settled w e"
  note f = pc_inv_entry [OF inv e]
  have isd: "is_dirty s p" using e dirty by (simp add: is_dirty_def)
  have view: "pc_view w s p = Some ?pg" by (rule pc_view_entry [OF e])
  have pg: "page_ok ?pg" "verify_checksum (w_xxh w) ?pg"
    using page_ok_settled [OF f(3)] st isd view by (auto simp: stamped_def)
  have fits: "io_fits s" using inv by (simp add: pc_inv_def pc_wf_def)
  have tr1: "tracked (AList.update p ?e (entries s)) (pc_lru s) (dirty_count s)"
    by (rule tracked_update [OF tracked_inv [OF inv] e]) simp
  have fin: "?e\<lparr>ce_dirty := False\<rparr> = clean_entry ?pg" by (simp add: settled_def stamp_deferred_def)
  let ?s1 = "insert_entry p ?e s"
  have spw: "pc_spillway s = Some spw \<Longrightarrow> spw_ok w spw \<and> spw_wf spw \<and> payload_size spw = unit_size (cipher s)" for spw
    using inv spw_ok_wf by (auto simp: pc_inv_def spill_inv_def)
  have ds: "dirty_scratch s = []" using inv by (simp add: pc_inv_def pc_wf_def)
  have "wp (write_sealed w p ?pg)
      (\<lambda>_. wp (and_then (entry_at p) (\<lambda>e. and_then (modify (insert_entry p (e\<lparr>ce_dirty := False\<rparr>)))
          (\<lambda>_. modify (\<lambda>s. s\<lparr>dirty_count := dirty_count s - 1\<rparr>))))
        (\<lambda>_ t. pc_inv w t \<and> flushed w s t \<and> pc_spillway t = pc_spillway s \<and>
           map_of (entries t) = (map_of (entries s))(p \<mapsto> clean_entry ?pg)) (flush_fail w s))
      (flush_fail w s) ?s1"
    unfolding write_sealed_def wp_and_then
  proof (rule seal_page_wp [OF W pg(1)], rule write_blob_wp, goal_cases)
    case (1 blob k)
    then show ?case using fits by (simp add: io_fits_def insert_entry_def)
  next
    case (2 blob k)
    then show ?case using f(1) [OF dirty] by (simp add: insert_entry_def)
  next
    case (3 blob k)
    then show ?case using rw by (simp add: insert_entry_def)
  next
    case (4 blob k)
    then show ?case by (simp add: insert_entry_def)
  next
    case (5 blob k io')
    let ?t = "(insert_entry p (clean_entry ?pg) (?s1\<lparr>rng_draws := k, pc_io := io'\<rparr>))\<lparr>dirty_count := dirty_count s - 1\<rparr>"
    have tr2: "tracked (AList.update p (clean_entry ?pg) (AList.update p ?e (entries s))) (pc_lru s) (dirty_count s - 1)"
      by (rule tracked_set_clean [OF tr1, of p ?e]) (use dirty in simp_all)
    have "spill_blob (pc_spillway s) = (spill_blob (pc_spillway s))(p := None)" using f(4) by auto
    then have "pc_inv w ?t" and "flushed w s ?t"
      using page_on_disk [OF inv f(1) [OF dirty] isd view pg, of ?t] 5 tr2 spw ds by (simp_all add: insert_entry_def)
    then show ?case by (simp add: entry_at_def wp_simps insert_entry_def fin)
  next
    case (6 blob k x io')
    let ?t = "?s1\<lparr>rng_draws := k, pc_io := io'\<rparr>"
    show ?case
      by (rule page_torn [OF inv isd, of ?t]) (use 6 tr1 ds spw f dirty pg in \<open>auto simp: insert_entry_def\<close>)
  qed
  then show ?thesis using e by (simp add: flush_one_def entry_at_def wp_simps Let_def)
qed

lemma dirty_ids_set:
  assumes "distinct (map fst (entries s))"
  shows "set (dirty_ids s) = {p. \<exists>e. map_of (entries s) p = Some e \<and> ce_dirty e}" and "distinct (dirty_ids s)"
proof -
  show "set (dirty_ids s) = {p. \<exists>e. map_of (entries s) p = Some e \<and> ce_dirty e}"
    using assms by (auto simp: dirty_ids_def map_of_eq_Some_iff image_iff)
  show "distinct (dirty_ids s)" using assms by (simp add: dirty_ids_def distinct_map_filter)
qed

definition no_dirty_entry :: "page_cache \<Rightarrow> bool" where
  "no_dirty_entry s \<longleftrightarrow> (\<forall>p e. map_of (entries s) p = Some e \<longrightarrow> \<not> ce_dirty e)"

lemma flush_entries_wp:
  assumes inv: "pc_inv w s" and W: "world_ok w" and rw: "\<not> read_only (pc_io s)" and st: "stamped w s"
  shows "wp (for_each (dirty_ids s) (flush_one w))
    (\<lambda>_ t. pc_inv w t \<and> flushed w s t \<and> pc_spillway t = pc_spillway s \<and> no_dirty_entry t)
    (flush_fail w s) s"
proof -
  define I where "I ys t \<longleftrightarrow> pc_inv w t \<and> flushed w s t \<and> pc_spillway t = pc_spillway s \<and> distinct ys \<and>
      (\<forall>p. (\<exists>e. map_of (entries t) p = Some e \<and> ce_dirty e) \<longleftrightarrow> p \<in> set ys)" for ys t
  have "wp (for_each (dirty_ids s) (flush_one w)) (\<lambda>_. I []) (flush_fail w s) s"
  proof (rule wp_for_each)
    have "distinct (map fst (entries s))" using tracked_inv [OF inv] by (simp add: tracked_def)
    from dirty_ids_set [OF this] show "I (dirty_ids s) s"
      using inv flushed_refl by (simp add: I_def del: map_of_eq_Some_iff)
    fix y ys t
    assume I: "I (y # ys) t"
    then have inv': "pc_inv w t" and fl: "flushed w s t" and spw: "pc_spillway t = pc_spillway s"
      and dist: "distinct (y # ys)" and ids: "\<And>p. (\<exists>e. map_of (entries t) p = Some e \<and> ce_dirty e) \<longleftrightarrow> p \<in> set (y # ys)"
      by (simp_all add: I_def del: map_of_eq_Some_iff)
    obtain e where e: "map_of (entries t) y = Some e" "ce_dirty e" using ids [of y] by auto
    have rw': "\<not> read_only (pc_io t)" using rw fl by (simp add: flushed_def)
    show "wp (flush_one w y) (\<lambda>_. I ys) (flush_fail w s) t"
    proof (rule wp_mono [OF flush_one_wp [OF inv' W rw' e flushed_stamped [OF fl inv st]]], goal_cases)
      case (1 a u)
      then have ents: "map_of (entries u) = (map_of (entries t))(y \<mapsto> clean_entry (settled w e))" by auto
      have "(\<exists>e. map_of (entries u) p = Some e \<and> ce_dirty e) \<longleftrightarrow> p \<in> set ys" for p
        unfolding ents using ids [of p] dist by (cases "p = y") auto
      then show ?case using 1 flushed_trans [OF fl] spw dist by (simp add: I_def del: map_of_eq_Some_iff)
    next
      case (2 x u)
      then show ?case using flush_fail_trans [OF fl] by blast
    qed
  qed
  then show ?thesis by (rule wp_mono) (auto simp: I_def no_dirty_entry_def)
qed

section \<open>Draining the spillway\<close>

lemma drain_one_wp:
  assumes inv: "pc_inv w s" and rw: "\<not> read_only (pc_io s)" and st: "stamped w s"
    and spw: "pc_spillway s = Some spw" and blob: "spw_blob spw p = Some blob"
  shows "wp (drain_one w p)
    (\<lambda>_ t. pc_inv w t \<and> flushed w s t \<and> (no_dirty_entry s \<longrightarrow> no_dirty_entry t) \<and>
       (\<exists>spw'. pc_spillway t = Some spw' \<and> spw_slots spw' = AList.delete p (spw_slots spw)))
    (flush_fail w s) s"
    (is "wp _ ?Q _ s")
proof -
  have b: "spill_blob (pc_spillway s) p = Some blob" using spw blob by (simp add: spill_blob_def)
  have sp: "p < next_page_id s" "map_of (entries s) p = None" "spw_ok w spw" "payload_size spw = unit_size (cipher s)"
    using inv b spw by (auto simp: pc_inv_def spill_inv_def)
  obtain pg where pg: "open_blob w (cipher s) p blob = Some pg" "page_ok pg"
    using inv b unfolding pc_inv_def spill_inv_def by blast
  have isd: "is_dirty s p" and view: "pc_view w s p = Some pg"
    using b sp(2) pg(1) by (simp_all add: is_dirty_def spilled_blob pc_view_def)
  have vf: "verify_checksum (w_xxh w) pg" using st isd view by (simp add: stamped_def)
  have len: "length blob = unit_size (cipher s)"
    using pg(1) by (auto simp: open_blob_def unit_size_def split: option.splits if_splits)
  have fits: "io_fits s" and ds: "dirty_scratch s = []" using inv by (simp_all add: pc_inv_def pc_wf_def)
  show ?thesis
    unfolding drain_one_def wp_and_then wp_on_spw [OF spw]
  proof (rule wp_mono [OF spw_rehydrate_wp [OF sp(3) blob]], goal_cases)
    case (1 a spw')
    then have a: "a = blob" and same: "spw_same spw spw'" by auto
    note sd = spw_sameD [OF same]
    have ok': "spw_ok w spw'" using sd(6) [of w] sp(3) by simp
    note fg = spw_forget_ok [OF ok', of p]
    let ?f = "spw_forget p spw'"
    have fok: "spw_ok w ?f" "spw_wf ?f" "payload_size ?f = unit_size (cipher s)"
      using fg spw_ok_wf sd(7) sp(4) by (auto simp: spw_same_params_def)
    have fblob: "spill_blob (Some ?f) = (spill_blob (pc_spillway s))(p := None)"
      using fg(2) sd(5) spw by (simp add: spill_blob_def fun_eq_iff)
    have slots: "spw_slots ?f = AList.delete p (spw_slots spw)" using sd(2) by (simp add: spw_forget_def)
    let ?s1 = "s\<lparr>pc_spillway := Some ?f\<rparr>"
    have fin: "?Q () t" if io': "io_frame (pc_io s) p io'" "io_unit io' p = blob"
        "cached_page_count io' = max (cached_page_count (pc_io s)) (p + 1)"
        and t: "t = ?s1\<lparr>pc_io := io', pc_lru := l, entries := AList.update p (clean_entry pg) (entries s)\<rparr>"
        and l: "l = lru_push_back (pc_lru s) p \<or> l = lru_push_front (pc_lru s) p" for io' l t
    proof -
      have tr: "tracked (entries t) (pc_lru t) (dirty_count t)"
        using l tracked_insert_back [OF tracked_inv [OF inv] sp(2), of "clean_entry pg"]
          tracked_insert_front [OF tracked_inv [OF inv] sp(2), of "clean_entry pg"] by (auto simp: t)
      have "pc_inv w t" and "flushed w s t"
        using page_on_disk [OF inv sp(1) isd view pg(2) vf, of t] io' pg(1) tr ds fblob fok by (simp_all add: t)
      moreover have "no_dirty_entry s \<longrightarrow> no_dirty_entry t" by (auto simp: no_dirty_entry_def t)
      ultimately show ?thesis using slots by (simp add: t)
    qed
    have "wp (on_io (write_page_unit w p blob)) (\<lambda>_. wp (and_then (opt_or_err (DecryptionFailed p)
          (open_blob w (cipher s) p blob)) (\<lambda>plaintext. modify (\<lambda>s. if map_of (entries s) p = None
         then (case drain_policy s of
               LruTail \<Rightarrow> s\<lparr>pc_lru := lru_push_back (pc_lru s) p\<rparr>
             | Mru \<Rightarrow> s\<lparr>pc_lru := lru_push_front (pc_lru s) p\<rparr>)
            \<lparr>entries := AList.update p (clean_entry plaintext) (entries s)\<rparr>
         else s))) ?Q (flush_fail w s)) (flush_fail w s) ?s1"
    proof (rule write_blob_wp, goal_cases)
      case (5 io')
      then show ?case
        using fin [of io'] pg(1) sp(2) slots
        by (cases "drain_policy s") (simp_all add: opt_or_err_def wp_simps)
    next
      case (6 x io')
      then show ?case
        using page_torn [OF inv isd, of "?s1\<lparr>pc_io := io'\<rparr>" x] sp(2) tracked_inv [OF inv] ds fok
        by simp
    qed (use fits sp(1) rw len in \<open>simp_all add: io_fits_def\<close>)
    then show ?case
      using a len by (simp add: wp_simps modify_spw_def unit_size_def)
  next
    case (2 x spw')
    then have "quiet w s (s\<lparr>pc_spillway := Some spw'\<rparr>)"
      using sp(3,4) spw_sameD [of spw spw'] spw by (intro pc_inv_same_blobs [OF inv]) (auto simp: spill_blob_def)
    then show ?case
      using 2 quiet_flushed [of w s] by (auto simp: flush_fail_def flushed_def quiet_def pc_inv_def)
  qed
qed

lemma evict_clean_spillway: "pc_spillway (evict_clean_to_cap s) = pc_spillway s"
  by (induction s rule: evict_clean_to_cap.induct)
    (subst evict_clean_to_cap.simps, auto simp: lru_drop_def remove_entry_def split: option.splits)

lemma evict_clean_no_dirty:
  assumes "pc_inv w s" and "no_dirty_entry s"
  shows "no_dirty_entry (evict_clean_to_cap s)"
proof -
  note ev = evict_clean_quiet [OF assms(1)]
  then have inv: "pc_inv w (evict_clean_to_cap s)" and d: "is_dirty (evict_clean_to_cap s) = is_dirty s"
    by (auto simp: quiet_def)
  show ?thesis
    unfolding no_dirty_entry_def
  proof (intro allI impI notI)
    fix p e assume e: "map_of (entries (evict_clean_to_cap s)) p = Some e" and "ce_dirty e"
    then have "is_dirty s p" using d by (simp add: is_dirty_def fun_eq_iff [where f = "is_dirty _"] flip: d)
    moreover have "\<not> spilled s p"
      using pc_inv_entry(5) [OF inv e] by (simp add: spilled_def evict_clean_spillway)
    ultimately show False using assms(2) by (auto simp: is_dirty_def no_dirty_entry_def split: option.splits)
  qed
qed

abbreviation spill_count :: "page_cache \<Rightarrow> nat" where
  "spill_count s \<equiv> (case pc_spillway s of Some spw \<Rightarrow> spw_slot_count spw | None \<Rightarrow> 0)"

lemma drain_batch_wp:
  assumes inv: "pc_inv w s" and rw: "\<not> read_only (pc_io s)" and st: "stamped w s" and nd: "no_dirty_entry s"
    and spw: "pc_spillway s = Some spw" and batch: "batch = drain_batch spw n"
  shows "wp (for_each batch (drain_one w))
    (\<lambda>_ t. pc_inv w t \<and> flushed w s t \<and> no_dirty_entry t \<and> spill_count t + length batch = spill_count s)
    (flush_fail w s) s"
proof -
  have dist: "distinct (map fst (spw_slots spw))" using inv spw by (auto simp: pc_inv_def spill_inv_def spw_ok_def)
  define I where "I ys t \<longleftrightarrow> pc_inv w t \<and> flushed w s t \<and> no_dirty_entry t \<and> distinct ys \<and>
      (\<exists>spw'. pc_spillway t = Some spw' \<and> distinct (map fst (spw_slots spw')) \<and> set ys \<subseteq> fst ` set (spw_slots spw') \<and>
        length (spw_slots spw') + length batch = length (spw_slots spw) + length ys)" for ys t
  have "wp (for_each batch (drain_one w)) (\<lambda>_. I []) (flush_fail w s) s"
  proof (rule wp_for_each)
    have "set batch \<subseteq> fst ` set (spw_slots spw)"
      unfolding batch drain_batch_def by (metis list.set_map set_take_subset)
    moreover have "distinct batch" using dist by (simp add: batch drain_batch_def)
    ultimately show "I batch s" using inv nd spw dist flushed_refl by (simp add: I_def)
    fix y ys t
    assume I: "I (y # ys) t"
    then obtain spw' where inv': "pc_inv w t" and fl: "flushed w s t" and nd': "no_dirty_entry t"
      and spw': "pc_spillway t = Some spw'" and d': "distinct (map fst (spw_slots spw'))"
      and sub: "set (y # ys) \<subseteq> fst ` set (spw_slots spw')" and dy: "distinct (y # ys)"
      and len: "length (spw_slots spw') + length batch = length (spw_slots spw) + length (y # ys)"
      by (auto simp: I_def)
    have rw': "\<not> read_only (pc_io t)" using rw fl by (simp add: flushed_def)
    have y: "y \<in> fst ` set (spw_slots spw')" using sub by simp
    then obtain blob where b: "spw_blob spw' y = Some blob" using spw_blob_dom [of spw'] by blast
    show "wp (drain_one w y) (\<lambda>_. I ys) (flush_fail w s) t"
    proof (rule wp_mono [OF drain_one_wp [OF inv' rw' flushed_stamped [OF fl inv st] spw' b]], goal_cases)
      case (1 a u)
      then obtain v where v: "pc_spillway u = Some v" "spw_slots v = AList.delete y (spw_slots spw')" by auto
      have "length (spw_slots v) = length (spw_slots spw') - 1" unfolding v(2) by (rule length_delete_key [OF d' y])
      moreover have "0 < length (spw_slots spw')" using y by (cases "spw_slots spw'") auto
      ultimately have "length (spw_slots v) + length batch = length (spw_slots spw) + length ys"
        using len unfolding list.size by linarith
      moreover have "set ys \<subseteq> fst ` set (spw_slots v)" using sub dy by (auto simp: v(2) keys_delete)
      ultimately show ?case using 1 nd' v d' dy flushed_trans [OF fl] by (simp add: I_def)
    next
      case (2 x u)
      then show ?case using flush_fail_trans [OF fl] by blast
    qed
  qed
  then show ?thesis by (rule wp_mono) (auto simp: I_def spw spw_slot_count_def)
qed

lemma drain_loop_wp:
  assumes "pc_inv w s" and "\<not> read_only (pc_io s)" and "stamped w s" and "no_dirty_entry s" and "spill_count s \<le> n"
  shows "wp (drain_loop w n)
    (\<lambda>_ t. pc_inv w t \<and> flushed w s t \<and> no_dirty_entry t \<and> spill_count t = 0) (flush_fail w s) s"
  using assms
proof (induction n arbitrary: s)
  case 0
  then show ?case by (simp add: wp_simps flushed_refl)
next
  case (Suc n)
  show ?case
  proof (cases "spill_count s = 0")
    case True
    then have "(case pc_spillway s of Some spw \<Rightarrow> if 0 < spw_slot_count spw then drain_batch spw (max_pages s) else []
        | None \<Rightarrow> []) = []" by (simp split: option.splits)
    then show ?thesis using Suc.prems True by (simp add: wp_simps flushed_refl)
  next
    case False
    then obtain spw where spw: "pc_spillway s = Some spw" "0 < spw_slot_count spw" by (auto split: option.splits)
    let ?batch = "drain_batch spw (max_pages s)"
    have "1 \<le> max_pages s" using Suc.prems(1) by (simp add: pc_inv_def pc_wf_def)
    then have ne: "0 < length ?batch" using spw(2) by (simp add: drain_batch_def spw_slot_count_def)
    have "wp (and_then (for_each ?batch (drain_one w)) (\<lambda>_. and_then (modify evict_clean_to_cap) (\<lambda>_. drain_loop w n)))
        (\<lambda>_ t. pc_inv w t \<and> flushed w s t \<and> no_dirty_entry t \<and> spill_count t = 0) (flush_fail w s) s"
      unfolding wp_and_then wp_modify
    proof (rule wp_mono [OF drain_batch_wp [OF Suc.prems(1-4) spw(1) refl]], goal_cases)
      case (1 a t)
      let ?t = "evict_clean_to_cap t"
      have q: "quiet w t ?t" using evict_clean_quiet 1 by blast
      have fl: "flushed w s ?t" using flushed_trans quiet_flushed [OF q] 1 by blast
      have sc: "spill_count ?t = spill_count t" by (simp add: evict_clean_spillway)
      have "wp (drain_loop w n) (\<lambda>_ u. pc_inv w u \<and> flushed w ?t u \<and> no_dirty_entry u \<and> spill_count u = 0)
          (flush_fail w ?t) ?t"
      proof (rule Suc.IH)
        show "pc_inv w ?t" using q by (simp add: quiet_def)
        show "\<not> read_only (pc_io ?t)" using Suc.prems(2) fl by (simp add: flushed_def)
        show "stamped w ?t" using flushed_stamped fl Suc.prems(1,3) by blast
        show "no_dirty_entry ?t" using evict_clean_no_dirty 1 by blast
        show "spill_count ?t \<le> n" using 1 Suc.prems(5) ne sc by linarith
      qed
      then show ?case
        by (rule wp_mono) (use flushed_trans [OF fl] flush_fail_trans [OF fl] in auto)
    qed
    moreover have "?batch \<noteq> []" using ne by auto
    ultimately show ?thesis using spw by (simp add: wp_simps)
  qed
qed

section \<open>Flush\<close>

lemma no_dirty:
  assumes "no_dirty_entry s" and "spill_count s = 0"
  shows "\<not> is_dirty s p" and "spill_blob (pc_spillway s) p = None"
proof -
  show sp: "spill_blob (pc_spillway s) p = None"
    using assms(2) by (auto simp: spill_blob_def spw_slot_count_def spw_blob_def split: option.splits)
  show "\<not> is_dirty s p"
    using assms(1) sp by (auto simp: is_dirty_def spilled_blob no_dirty_entry_def split: option.splits)
qed

lemma clean_view_disk:
  assumes inv: "pc_inv w s" and nd: "no_dirty_entry s" "spill_count s = 0"
  shows "pc_view w s = disk_page w (cipher s) (pc_io s)"
proof
  fix p
  show "pc_view w s p = disk_page w (cipher s) (pc_io s) p"
  proof (cases "map_of (entries s) p")
    case None
    then show ?thesis using no_dirty(2) [OF nd] by (simp add: pc_view_def)
  next
    case (Some e)
    then have "\<not> ce_dirty e" using nd(1) unfolding no_dirty_entry_def by blast
    then show ?thesis using pc_inv_entry(2) [OF inv Some] Some by (simp add: pc_view_def entry_ok_def)
  qed
qed

text \<open>What a successful flush guarantees: everything is on the device, clean pages untouched.\<close>

definition all_on_disk :: "world \<Rightarrow> page_cache \<Rightarrow> page_cache \<Rightarrow> bool" where
  "all_on_disk w s t \<longleftrightarrow> pc_inv w t \<and> (\<forall>p. \<not> is_dirty t p) \<and> keeps_clean s t \<and>
     cipher t = cipher s \<and> next_page_id t = next_page_id s \<and> max_pages t = max_pages s \<and> read_only (pc_io t) = read_only (pc_io s) \<and>
     (\<forall>p pg. pc_view w s p = Some pg \<longrightarrow>
        pc_view w t p = Some pg \<and> disk_page w (cipher s) (pc_io t) p = Some pg)"

lemma truncate_spillway_wp:
  assumes inv: "pc_inv w s" and nd: "no_dirty_entry s" "spill_count s = 0"
  shows "wp (truncate_spillway w) (\<lambda>_ t. quiet w s t \<and> no_dirty_entry t \<and> spill_count t = 0)
    (\<lambda>e t. io_failure e \<and> \<not> no_faults w \<and> quiet w s t) s"
proof (cases "pc_spillway s")
  case None
  then show ?thesis using inv nd by (simp add: truncate_spillway_def wp_simps quiet_refl)
next
  case (Some spw)
  have ok: "payload_size spw = unit_size (cipher s)" using inv Some by (auto simp: pc_inv_def spill_inv_def)
  have q: "quiet w s (s\<lparr>pc_spillway := Some spw'\<rparr>)" if "spw_slots spw' = []" "spw_same_params spw spw'" for spw'
    using that ok no_dirty(2) [OF nd] spw_empty_ok [OF that(1)]
    by (intro pc_inv_same_blobs [OF inv]) (auto simp: spw_same_params_def spill_blob_def fun_eq_iff)
  have "wp (on_spw (spw_truncate w)) (\<lambda>_ t. quiet w s t \<and> no_dirty_entry t \<and> spill_count t = 0)
      (\<lambda>e t. io_failure e \<and> \<not> no_faults w \<and> quiet w s t) s"
    unfolding wp_on_spw [OF Some]
    by (rule wp_mono [OF spw_truncate_wp]) (use q nd in \<open>auto simp: no_dirty_entry_def spw_slot_count_def\<close>)
  then show ?thesis using Some by (simp add: truncate_spillway_def wp_simps)
qed

lemma quiet_flush_fail: "quiet w s t \<Longrightarrow> io_failure e \<Longrightarrow> \<not> no_faults w \<Longrightarrow> flush_fail w s e t"
  using quiet_flushed [of w s t] by (simp add: flush_fail_def flushed_def quiet_def pc_inv_def)

lemma pc_inv_fsynced:
  assumes "pc_inv w s" and "io' = (pc_io s)\<lparr>os_calls := k, fsync_calls := n, io_log := l\<rparr>"
  shows "pc_inv w (s\<lparr>pc_io := io'\<rparr>)" and "flushed w s (s\<lparr>pc_io := io'\<rparr>)"
    and "is_dirty (s\<lparr>pc_io := io'\<rparr>) = is_dirty s"
proof -
  have u: "io_unit io' = io_unit (pc_io s)" by (simp add: assms(2) io_unit_def fun_eq_iff)
  have d: "disk_page w c io' = disk_page w c (pc_io s)" for c by (simp add: disk_page_def u fun_eq_iff) (simp add: assms(2))
  have io: "io_ok io' = io_ok (pc_io s)" "stride io' = stride (pc_io s)" by (simp_all add: assms(2) io_ok_def)
  show "pc_inv w (s\<lparr>pc_io := io'\<rparr>)"
    using assms(1) io by (simp add: pc_inv_def pc_wf_def spill_inv_def io_fits_def d)
  have "pc_view w (s\<lparr>pc_io := io'\<rparr>) = pc_view w s" by (simp add: pc_view_def d fun_eq_iff cong: option.case_cong)
  moreover show dd: "is_dirty (s\<lparr>pc_io := io'\<rparr>) = is_dirty s" by (simp add: is_dirty_def spilled_def fun_eq_iff)
  ultimately show "flushed w s (s\<lparr>pc_io := io'\<rparr>)"
    by (simp add: flushed_def keeps_clean_def u) (simp add: assms(2))
qed

lemma no_dirty_count:
  assumes "pc_inv w s" and "no_dirty_entry s"
  shows "s\<lparr>dirty_scratch := [], dirty_count := 0\<rparr> = s"
proof -
  have tr: "distinct (map fst (entries s))" "dirty_count s = count_if ce_dirty (entries s)"
    using tracked_inv [OF assms(1)] by (simp_all add: tracked_def)
  have "\<not> ce_dirty e" if "(p, e) \<in> set (entries s)" for p e
    using that assms(2) tr(1) by (auto simp: no_dirty_entry_def)
  then have "count_if ce_dirty (entries s) = 0" by (auto simp: count_if_def filter_empty_conv)
  moreover have "dirty_scratch s = []" using assms(1) by (simp add: pc_inv_def pc_wf_def)
  ultimately show ?thesis using tr(2) by (cases s) simp
qed

lemma flushed_all_on_disk:
  assumes inv: "pc_inv w t" and fl: "flushed w s t" and nd: "no_dirty_entry t" "spill_count t = 0"
  shows "all_on_disk w s t"
proof -
  have "pc_view w t p = Some pg" if "pc_view w s p = Some pg" for p pg
    using fl that unfolding flushed_def map_le_def by (metis domI)
  moreover have "pc_view w t = disk_page w (cipher s) (pc_io t)"
    using clean_view_disk [OF inv nd] fl by (simp add: flushed_def)
  ultimately show ?thesis
    using inv fl no_dirty(1) [OF nd] by (simp add: all_on_disk_def flushed_def)
qed

lemma pc_flush_wp:
  assumes inv: "pc_inv w s" and W: "world_ok w" and rw: "\<not> read_only (pc_io s)" and st: "stamped w s"
  shows "wp (pc_flush w) (\<lambda>_ t. all_on_disk w s t \<and> (\<exists>l. io_log (pc_io t) = l @ [Fsynced])) (flush_fail w s) s"
    (is "wp _ ?Q _ s")
proof -
  have ds: "dirty_scratch s = []" using inv by (simp add: pc_inv_def pc_wf_def)
  then have s0: "s\<lparr>dirty_scratch := []\<rparr> = s" by (cases s) simp
  have tail: "wp (on_io (fsync w)) ?Q (flush_fail w s) t"
    if t: "pc_inv w t" "flushed w s t" "no_dirty_entry t" "spill_count t = 0" for t
  proof -
    have rw': "\<not> read_only (pc_io t)" using rw t(2) by (simp add: flushed_def)
    show ?thesis
      unfolding wp_on_io
    proof (rule wp_mono [OF fsync_wp [OF rw']], goal_cases)
      case (1 a io')
      then obtain k where io': "io' = (pc_io t)\<lparr>os_calls := k, fsync_calls := fsync_calls (pc_io t) + 1,
          io_log := io_log (pc_io t) @ [Fsynced]\<rparr>" by blast
      note p = pc_inv_fsynced [OF t(1) io']
      have "all_on_disk w s (t\<lparr>pc_io := io'\<rparr>)"
        using p flushed_trans [OF t(2)] t(3,4) by (intro flushed_all_on_disk) (auto simp: no_dirty_entry_def)
      then show ?case by (simp add: io')
    next
      case (2 e io')
      then obtain k where io': "io' = (pc_io t)\<lparr>os_calls := k, fsync_calls := fsync_calls (pc_io t),
          io_log := io_log (pc_io t)\<rparr>" by (auto simp: io_same_def)
      note p = pc_inv_fsynced [OF t(1) io']
      have "flushed w s (t\<lparr>pc_io := io'\<rparr>)" using p(2) flushed_trans [OF t(2)] by blast
      then show ?case using 2 p(1) by (simp add: flush_fail_def flushed_def pc_inv_def)
    qed
  qed
  have drained: "wp (and_then (truncate_spillway w) (\<lambda>_. on_io (fsync w))) ?Q (flush_fail w s) t"
    if t: "pc_inv w t" "flushed w s t" "no_dirty_entry t" "spill_count t = 0" for t
    unfolding wp_and_then
  proof (rule wp_mono [OF truncate_spillway_wp [OF t(1,3,4)]], goal_cases)
    case (1 a u)
    then show ?case
      using tail [of u] flushed_trans [OF t(2) quiet_flushed] by (auto simp: quiet_def)
  next
    case (2 e u)
    then show ?case using flush_fail_trans [OF t(2) quiet_flush_fail] by blast
  qed
  have "wp (for_each (dirty_ids s) (flush_one w)) (\<lambda>_ t. wp (and_then (drain_loop w (spill_count t)) (\<lambda>_.
      and_then (truncate_spillway w) (\<lambda>_. on_io (fsync w)))) ?Q (flush_fail w s) (t\<lparr>dirty_scratch := [], dirty_count := 0\<rparr>))
      (flush_fail w s) s"
  proof (rule wp_mono [OF flush_entries_wp [OF inv W rw st]], goal_cases)
    case (1 a t)
    then have t: "pc_inv w t" "flushed w s t" "no_dirty_entry t" by auto
    have rw': "\<not> read_only (pc_io t)" using rw t(2) by (simp add: flushed_def)
    show ?case
      unfolding no_dirty_count [OF t(1,3)] wp_and_then
      by (rule wp_mono [OF drain_loop_wp [OF t(1) rw' flushed_stamped [OF t(2) inv st] t(3) order_refl]])
        (use drained flushed_trans [OF t(2)] flush_fail_trans [OF t(2)] in \<open>auto simp: wp_and_then\<close>)
  qed
  then show ?thesis
    by (simp add: pc_flush_def wp_simps s0 ds)
qed

section \<open>Rollback\<close>

text \<open>Dropping a page from the cache keeps the bookkeeping.\<close>

lemma tracked_fold_delete:
  assumes "tracked al l dc" and "distinct ps" and "set ps \<subseteq> fst ` set al"
  shows "\<exists>dc'. tracked (fold AList.delete ps al) (fold (\<lambda>p l. snd (lru_remove l p)) ps l) dc'"
  using assms
proof (induction ps arbitrary: al l dc)
  case Nil
  then show ?case by auto
next
  case (Cons p ps)
  then obtain e where e: "map_of al p = Some e" by (metis list.set_intros(1) map_of_None_keys not_None_eq subsetD)
  have "set ps \<subseteq> fst ` set (AList.delete p al)" using Cons.prems by (auto simp: keys_delete)
  then show ?case using Cons.IH [OF tracked_delete [OF Cons.prems(1) e]] Cons.prems(2) by simp
qed

lemma map_of_fold_delete: "map_of (fold AList.delete ps al) q = (if q \<in> set ps then None else map_of al q)"
  by (induction ps arbitrary: al) auto

lemma fold_drop_entries:
  "fold (\<lambda>i s. lru_drop i (remove_entry i s)) ps s =
   s\<lparr>entries := fold AList.delete ps (entries s), pc_lru := fold (\<lambda>p l. snd (lru_remove l p)) ps (pc_lru s)\<rparr>"
  by (induction ps arbitrary: s) (simp_all add: lru_drop_def remove_entry_def)

lemma spw_truncate_state:
  "spw_slots (snd (spw_truncate w spw)) = [] \<and> spw_same_params spw (snd (spw_truncate w spw))"
  using spw_truncate_wp [of w spw] by (auto simp: wp_def split: prod.splits res.splits)

lemma discard_all_dirty_correct:
  assumes wf: "pc_wf w s"
  shows "pc_inv w (discard_all_dirty w s)"
    and "pc_view w (discard_all_dirty w s) = disk_page w (cipher s) (pc_io s)"
    and "\<not> is_dirty (discard_all_dirty w s) p"
    and "pc_io (discard_all_dirty w s) = pc_io s"
proof -
  let ?t = "discard_all_dirty w s" and ?al = "fold AList.delete (dirty_ids s) (entries s)"
  have tr: "tracked (entries s) (pc_lru s) (dirty_count s)" and ds: "dirty_scratch s = []" using wf by (simp_all add: pc_wf_def)
  then have d: "distinct (map fst (entries s))" by (simp add: tracked_def)
  note ids = dirty_ids_set [OF d]
  have t: "?t = s\<lparr>entries := ?al, pc_lru := fold (\<lambda>p l. snd (lru_remove l p)) (dirty_ids s) (pc_lru s),
      dirty_scratch := [], dirty_count := 0, pc_spillway := map_option (\<lambda>spw. snd (spw_truncate w spw)) (pc_spillway s)\<rparr>"
    by (simp add: discard_all_dirty_def Let_def ds fold_drop_entries modify_spw_def)
  have m: "map_of ?al q = Some e \<longleftrightarrow> map_of (entries s) q = Some e \<and> \<not> ce_dirty e" for q e
    unfolding map_of_fold_delete ids(1) by (auto simp del: map_of_eq_Some_iff)
  have nd: "no_dirty_entry ?t" unfolding no_dirty_entry_def t using m by (simp del: map_of_eq_Some_iff)
  have "set (dirty_ids s) \<subseteq> fst ` set (entries s)" by (auto simp: dirty_ids_def)
  from tracked_fold_delete [OF tr ids(2) this] obtain dc
    where tr': "tracked ?al (pc_lru ?t) dc" by (auto simp: t)
  have "\<not> ce_dirty e" if "(q, e) \<in> set ?al" for q e
    using that m [of q e] tr' by (simp add: tracked_def)
  then have "count_if ce_dirty ?al = 0" by (auto simp: count_if_def filter_empty_conv)
  then have tr0: "tracked (entries ?t) (pc_lru ?t) (dirty_count ?t)" using tr' by (simp add: tracked_def t)
  have spw: "spw_slots spw = [] \<and> payload_size spw = unit_size (cipher s)" if "pc_spillway ?t = Some spw" for spw
    using that wf spw_truncate_state by (auto simp: t pc_wf_def spw_same_params_def)
  then have sc: "spill_count ?t = 0" by (cases "pc_spillway ?t") (auto simp: spw_slot_count_def)
  have "pc_wf w ?t"
    using wf tr0 spw m unfolding pc_wf_def io_fits_def
    by (auto simp: t spw_wf_def simp del: map_of_eq_Some_iff)
  moreover have "spill_inv w ?t"
    using spw no_dirty(2) [OF nd sc] spw_empty_ok by (auto simp: spill_inv_def t)
  ultimately show inv: "pc_inv w ?t" by (simp add: pc_inv_def)
  show "pc_view w ?t = disk_page w (cipher s) (pc_io s)" using clean_view_disk [OF inv nd sc] by (simp add: t)
  show "\<not> is_dirty ?t p" by (rule no_dirty(1) [OF nd sc])
  show "pc_io ?t = pc_io s" by (simp add: t)
qed

end
