(* ===== verification/Page_Store.thy ===== *)
theory Page_Store
  imports Cache_Flush
begin

text \<open>
  The cache as the structures above it use it: a store of page bodies. \<open>env_error\<close> are the errors
  that come from the environment (the file system, the memory cap), never from a structure being
  ill-formed, and \<open>calm s k\<close> says that \<open>k\<close> more pages fit below the cap, so that, without
  file-system faults, the next \<open>k\<close> calls succeed.
\<close>

definition env_error :: "world \<Rightarrow> chisel_error \<Rightarrow> bool" where
  "env_error w e \<longleftrightarrow> io_failure e \<and> \<not> no_faults w \<or> (\<exists>m. e = CacheFull m) \<or> (\<exists>m. e = SpillwayFull m)"

definition calm :: "page_cache \<Rightarrow> nat \<Rightarrow> bool" where
  "calm s k \<longleftrightarrow> length (entries s) + k \<le> max_pages s"

text \<open>The device is as it was, since nothing reaches it before a flush; page numbers only grow.\<close>

definition same_device :: "page_cache \<Rightarrow> page_cache \<Rightarrow> bool" where
  "same_device s t \<longleftrightarrow> io_same (pc_io s) (pc_io t) \<and> cipher t = cipher s \<and> next_page_id s \<le> next_page_id t"

lemma same_device_refl [simp]: "same_device s s"
  by (simp add: same_device_def)

lemma same_device_trans: "same_device a b \<Longrightarrow> same_device b c \<Longrightarrow> same_device a c"
  by (auto simp: same_device_def intro: io_same_trans)

lemma same_store_device: "same_store s t \<Longrightarrow> same_device s t"
  by (simp add: same_store_def same_device_def)

definition fails :: "world \<Rightarrow> page_cache \<Rightarrow> nat \<Rightarrow> chisel_error \<Rightarrow> page_cache \<Rightarrow> bool" where
  "fails w s k e t \<longleftrightarrow> pc_wf w t \<and> same_device s t \<and> env_error w e \<and> (no_faults w \<longrightarrow> \<not> calm s k)"

text \<open>How far one state is from another in cached pages.\<close>

definition grown :: "page_cache \<Rightarrow> nat \<Rightarrow> page_cache \<Rightarrow> bool" where
  "grown s k t \<longleftrightarrow> length (entries t) \<le> length (entries s) + k \<and> max_pages t = max_pages s \<and> same_device s t"

lemma grown_refl [simp]: "grown s k s"
  by (simp add: grown_def)

lemma grown_trans: "grown a j b \<Longrightarrow> grown b k c \<Longrightarrow> grown a (j + k) c"
  using same_device_trans by (auto simp: grown_def)

lemma grown_mono: "grown a j b \<Longrightarrow> j \<le> k \<Longrightarrow> grown a k b"
  by (simp add: grown_def)

lemma fails_later: "grown s j t \<Longrightarrow> fails w t k e u \<Longrightarrow> fails w s (j + k) e u"
  using same_device_trans by (auto simp: fails_def grown_def calm_def)

lemma fails_mono: "fails w s j e t \<Longrightarrow> j \<le> k \<Longrightarrow> fails w s k e t"
  by (auto simp: fails_def calm_def)

lemma fails_calm: "no_faults w \<Longrightarrow> calm s k \<Longrightarrow> fails w s k e t \<Longrightarrow> False"
  by (simp add: fails_def)

lemma evict_fail_fails: "evict_fail w s e t \<Longrightarrow> fails w s 0 e t"
  by (auto simp: evict_fail_def fails_def env_error_def cap_error_def calm_def quiet_def pc_inv_def same_store_device)

lemma get_fail_fails: "get_fail w s p e t \<Longrightarrow> readable w s p \<Longrightarrow> fails w s 0 e t"
  using evict_fail_fails by (auto simp: get_fail_def)

lemma alloc_fail_fails: "alloc_fail w s p e t \<Longrightarrow> fails w s 1 e t"
  by (auto simp: alloc_fail_def fails_def env_error_def calm_def reset_def pc_inv_def same_store_device)

section \<open>Page bodies\<close>

definition body_at :: "world \<Rightarrow> page_cache \<Rightarrow> u64 \<Rightarrow> u8 list option" where
  "body_at w s p = map_option page_body (pc_view w s p)"

lemma quiet_body: "quiet w s t \<Longrightarrow> body_at w t = body_at w s"
  by (simp add: body_at_def quiet_def fun_eq_iff)

lemma quiet_grown: "quiet w s t \<Longrightarrow> length (entries t) \<le> length (entries s) + k \<Longrightarrow> grown s k t"
  by (simp add: grown_def quiet_def same_store_def same_device_def)

text \<open>The dirty pages whose checksum is not valid yet.\<close>

definition raw :: "world \<Rightarrow> page_cache \<Rightarrow> u64 set" where
  "raw w s = {p. is_dirty s p \<and> (\<exists>pg. pc_view w s p = Some pg \<and> \<not> verify_checksum (w_xxh w) pg)}"

lemma stamped_raw: "stamped w s \<longleftrightarrow> raw w s = {}"
  by (auto simp: stamped_def raw_def)

lemma quiet_raw: "quiet w s t \<Longrightarrow> raw w t = raw w s"
  by (simp add: quiet_def raw_def)

text \<open>Every page id handed out is on the device or dirty.\<close>

definition whole :: "page_cache \<Rightarrow> bool" where
  "whole s \<longleftrightarrow> (\<forall>p < next_page_id s. p < cached_page_count (pc_io s) \<or> is_dirty s p)"

text \<open>A change of some page bodies, the pages changed ending up dirty.\<close>

definition updates :: "world \<Rightarrow> page_cache \<Rightarrow> (u64 \<rightharpoonup> u8 list) \<Rightarrow> page_cache \<Rightarrow> bool" where
  "updates w s m t \<longleftrightarrow> pc_inv w t \<and> io_same (pc_io s) (pc_io t) \<and> cipher t = cipher s \<and>
     max_pages t = max_pages s \<and> next_page_id s \<le> next_page_id t \<and> body_at w t = body_at w s ++ m \<and>
     is_dirty t = (\<lambda>p. is_dirty s p \<or> p \<in> dom m) \<and> (\<forall>p. p \<notin> dom m \<longrightarrow> readable w t p = readable w s p) \<and>
     raw w t \<subseteq> raw w s \<union> dom m \<and> (\<forall>p. next_page_id s \<le> p \<and> p < next_page_id t \<longrightarrow> p \<in> dom m)"

lemma quiet_updates: "quiet w s t \<Longrightarrow> updates w s Map.empty t"
  by (auto simp: updates_def quiet_body quiet_readable quiet_raw) (auto simp: quiet_def same_store_def)

lemma updates_refl: "pc_inv w s \<Longrightarrow> updates w s Map.empty s"
  by (rule quiet_updates [OF quiet_refl])

lemma updates_trans: "updates w a m b \<Longrightarrow> updates w b n c \<Longrightarrow> updates w a (m ++ n) c"
  unfolding updates_def by (auto simp: not_less [symmetric] intro: io_same_trans)

lemma updates_whole: "updates w s m t \<Longrightarrow> whole s \<Longrightarrow> whole t"
  using io_sameD(3) [of "pc_io s" "pc_io t"] unfolding updates_def whole_def by (metis not_le)

lemma updates_device: "updates w s m t \<Longrightarrow> same_device s t"
  by (simp add: updates_def same_device_def)

lemma updates_inv: "updates w s m t \<Longrightarrow> pc_inv w t"
  by (simp add: updates_def)

lemma wrote_updates:
  assumes "wrote w s p f t"
  obtains old b where "body_at w s p = Some old" and "page_ok b" and "page_body b = old"
    and "updates w s [p \<mapsto> page_body (f b)] t" and "next_page_id t = next_page_id s"
    and "verify_checksum (w_xxh w) (f b) \<Longrightarrow> p \<notin> raw w t"
proof -
  obtain old b new where o: "pc_inv w t" "same_store s t" "is_dirty t = (is_dirty s)(p := True)"
      "pc_view w s p = Some old" "page_ok b" "page_body b = page_body old" "pc_view w t = (pc_view w s)(p \<mapsto> new)"
      "page_body new = page_body (f b)" "verify_checksum (w_xxh w) (f b) \<longrightarrow> verify_checksum (w_xxh w) new"
    using assms unfolding wrote_def by blast
  have "raw w t \<subseteq> raw w s \<union> {p}" "verify_checksum (w_xxh w) (f b) \<Longrightarrow> p \<notin> raw w t" using o(3,7,9) by (auto simp: raw_def split: if_splits)
  moreover have "body_at w t = (body_at w s)(p \<mapsto> page_body (f b))" using o(7,8) by (simp add: body_at_def fun_eq_iff)
  moreover have "is_dirty t = (\<lambda>q. is_dirty s q \<or> q \<in> dom [p \<mapsto> page_body (f b)])" using o(3) by auto
  ultimately have "updates w s [p \<mapsto> page_body (f b)] t"
    using o(1,2,3,7) by (auto simp: updates_def same_store_def readable_def)
  then show ?thesis
    using o \<open>_ \<Longrightarrow> p \<notin> raw w t\<close> that [of "page_body old" b] by (auto simp: body_at_def same_store_def)
qed

lemma reset_updates:
  "reset w s p t \<Longrightarrow> updates w s [p \<mapsto> replicate 8184 0] t \<and> next_page_id t = next_page_id s"
  by (auto simp: reset_def updates_def body_at_def same_store_def fun_eq_iff readable_def raw_def)

text \<open>A dirty page with a body is readable.\<close>

lemma dirty_readable: "is_dirty s p \<Longrightarrow> body_at w s p = Some b \<Longrightarrow> readable w s p"
  by (auto simp: readable_def body_at_def)

lemma dirty_below:
  assumes "pc_inv w s" and "is_dirty s p"
  shows "p < next_page_id s"
proof (cases "spilled s p")
  case True
  then have "spill_blob (pc_spillway s) p \<noteq> None"
    by (auto simp: spilled_def spill_blob_def spw_blob_def is_resident_def split: option.splits)
  then show ?thesis using assms(1) by (auto simp: pc_inv_def spill_inv_def)
next
  case False
  then obtain e where "map_of (entries s) p = Some e" "ce_dirty e"
    using assms(2) by (auto simp: is_dirty_def split: option.splits)
  then show ?thesis using assms(1) by (auto simp: pc_inv_def pc_wf_def)
qed

section \<open>Contracts for the structures above\<close>

lemma store_get_wp:
  assumes inv: "pc_inv w s" and W: "world_ok w" and b: "body_at w s p = Some b" and r: "readable w s p"
  shows "wp (pc_get w p) (\<lambda>buf t. quiet w s t \<and> grown s 1 t \<and> page_ok buf \<and> page_body buf = b) (fails w s 0) s"
proof (rule wp_mono [OF pc_get_wp [OF inv W]], goal_cases)
  case (1 buf t)
  then show ?case using b quiet_grown [of w s t 1] by (auto simp: body_at_def)
next
  case (2 e t)
  then show ?case using get_fail_fails r by blast
qed

lemma store_write_wp:
  assumes inv: "pc_inv w s" and W: "world_ok w" and pn: "p < next_page_id s"
    and b: "body_at w s p = Some b" and r: "readable w s p"
    and f: "\<And>buf. page_ok buf \<Longrightarrow> page_body buf = b \<Longrightarrow> page_body (f buf) = b'"
      "\<And>buf. page_ok buf \<Longrightarrow> page_ok (f buf)"
  shows "wp (pc_with_mut w p f)
    (\<lambda>_ t. updates w s [p \<mapsto> b'] t \<and> grown s 1 t \<and> next_page_id t = next_page_id s \<and>
       ((\<forall>buf. page_ok buf \<longrightarrow> verify_checksum (w_xxh w) (f buf)) \<longrightarrow> p \<notin> raw w t)) (fails w s 0) s"
proof (rule wp_mono [OF pc_with_mut_wp [OF inv W pn f(2)]], goal_cases)
  case (2 a t)
  then have wr: "wrote w s p f t" and le: "length (entries t) \<le> Suc (length (entries s))" by auto
  obtain old x where x: "body_at w s p = Some old" "page_ok x" "page_body x = old"
    "updates w s [p \<mapsto> page_body (f x)] t" "next_page_id t = next_page_id s"
    "verify_checksum (w_xxh w) (f x) \<longrightarrow> p \<notin> raw w t"
    using wrote_updates [OF wr] by metis
  have "max_pages t = max_pages s" using wr by (simp add: wrote_def same_store_def)
  then show ?case using x b f(1) [of x] le updates_device [OF x(4)] by (simp add: grown_def)
next
  case (3 e t)
  then show ?case using get_fail_fails r by blast
qed

lemma store_new_wp:
  assumes inv: "pc_inv w s" and W: "world_ok w" and room: "id_room s (Suc k)"
  shows "wp (pc_new_page w)
    (\<lambda>p t. p = next_page_id s \<and> updates w s [p \<mapsto> replicate 8184 0] t \<and> grown s 1 t \<and>
       next_page_id t = next_page_id s + 1 \<and> id_room t k)
    (fails w s 1) s"
proof (rule wp_mono [OF pc_new_page_wp [OF inv W room]], goal_cases)
  case (1 p t)
  then have r: "reset w (bump_id s) p t" and p: "p = next_page_id s"
    and le: "length (entries t) \<le> Suc (length (entries s))" by auto
  note rr = reset_updates [OF r]
  have up: "next_page_id s \<le> next_page_id s + 1" using id_room_Suc(1) [OF room] by (simp add: word_le_nat_alt)
  have new: "q = next_page_id s" if "next_page_id s \<le> q" "q < next_page_id s + 1" for q
    using that id_room_Suc(1) [OF room] by (simp add: word_le_nat_alt word_less_nat_alt word_unat_eq_iff)
  have "body_at w (bump_id s) = body_at w s" by (simp add: body_at_def fun_eq_iff)
  have "raw w (bump_id s) = raw w s" by (simp add: raw_def)
  then have "updates w s [p \<mapsto> replicate 8184 0] t"
    using \<open>body_at w (bump_id s) = _\<close> rr up p new by (auto simp: updates_def readable_def)
  moreover have "id_room t k" using rr id_room_Suc(2) [OF room] by (simp add: id_room_def)
  moreover have "max_pages t = max_pages s" using rr by (simp add: updates_def)
  ultimately show ?case using p rr le updates_device [of w s _ t] by (auto simp: grown_def)
next
  case (2 e t)
  then have f: "fails w (bump_id s) 1 e t" by (rule alloc_fail_fails)
  have "next_page_id s \<le> next_page_id s + 1" using id_room_Suc(1) [OF room] by (simp add: word_le_nat_alt)
  then show ?case using f by (auto simp: fails_def calm_def same_device_def)
qed

text \<open>A write that looks at the page first and refuses it.\<close>

lemma get_mut_body_wp:
  assumes inv: "pc_inv w s" and W: "world_ok w" and pn: "p < next_page_id s" and b: "body_at w s p = Some b"
  shows "wp (pc_get_mut w p) (\<lambda>buf t. page_ok buf \<and> page_body buf = b) (\<lambda>_ _. True) s"
proof (rule wp_mono [OF pc_get_mut_wp [OF inv W pn]], goal_cases)
  case (1 buf t)
  then obtain e where m: "marked w s p t" and e: "map_of (entries t) p = Some e" "ce_buf e = buf" by auto
  have inv': "pc_inv w t" using m by (simp add: marked_def)
  have ok: "page_ok buf" using pc_inv_entry(3) [OF inv' e(1)] e(2) by simp
  have "pc_view w s p = Some (settled w e)" using m pc_view_entry [OF e(1), of w] by (simp add: marked_def)
  then show ?case using ok settled_body [of e w] e(2) b by (simp add: body_at_def)
qed simp

lemma guarded_write_wp:
  assumes wr: "wp (pc_with_mut w p f) Q E s"
    and inv: "pc_inv w s" and W: "world_ok w" and pn: "p < next_page_id s" and b: "body_at w s p = Some b"
    and P: "\<And>buf. page_ok buf \<Longrightarrow> page_body buf = b \<Longrightarrow> g buf = ok ()"
  shows "wp (and_then (pc_get_mut w p) (\<lambda>buf. and_then (g buf) (\<lambda>_. pc_store p (f buf)))) Q E s"
  using wp_conj [OF wr [unfolded pc_with_mut_def wp_and_then] get_mut_body_wp [OF inv W pn b]] unfolding wp_and_then
  by (rule wp_mono) (auto simp: P wp_simps)

section \<open>Page ids as the bound on the cache\<close>

text \<open>
  A cached page is dirty and was allocated, or is clean and on the device, so the cache never holds
  more pages than \<open>space\<close>; when that fits under the cap no access can fail for want of memory.
\<close>

definition space :: "page_cache \<Rightarrow> nat" where
  "space s = max (unat (next_page_id s)) (unat (cached_page_count (pc_io s)))"

definition roomy :: "page_cache \<Rightarrow> nat \<Rightarrow> bool" where
  "roomy s k \<longleftrightarrow> space s + k \<le> max_pages s"

lemma entries_space:
  assumes "pc_inv w s"
  shows "length (entries s) \<le> space s"
proof -
  have wf: "pc_wf w s" using assms by (simp add: pc_inv_def)
  have d: "distinct (map fst (entries s))" using wf by (simp add: pc_wf_def tracked_def)
  have lt: "unat p < space s" if "p \<in> fst ` set (entries s)" for p
  proof -
    obtain e where e: "map_of (entries s) p = Some e" using \<open>p \<in> _\<close> by (metis map_of_None_keys not_None_eq)
    have ok: "(ce_dirty e \<longrightarrow> p < next_page_id s) \<and> entry_ok w (disk_page w (cipher s) (pc_io s) p) e"
      using wf e by (auto simp: pc_wf_def)
    show ?thesis
    proof (cases "ce_dirty e")
      case True
      then show ?thesis using ok by (simp add: space_def word_less_nat_alt less_max_iff_disj)
    next
      case False
      then have "p < cached_page_count (pc_io s)" using ok by (auto simp: entry_ok_def disk_page_def split: if_splits)
      then show ?thesis by (simp add: space_def word_less_nat_alt less_max_iff_disj)
    qed
  qed
  have "card (unat ` set (map fst (entries s))) \<le> card {..<space s}"
    using lt by (intro card_mono) auto
  moreover have "card (unat ` set (map fst (entries s))) = card (set (map fst (entries s)))"
    by (rule card_image) (simp add: inj_on_def word_unat_eq_iff)
  ultimately show ?thesis using distinct_card [OF d] by simp
qed

lemma roomy_calm: "pc_inv w s \<Longrightarrow> roomy s k \<Longrightarrow> calm s k"
  using entries_space [of w s] by (simp add: roomy_def calm_def)

lemma updates_roomy:
  "updates w s m t \<Longrightarrow> unat (next_page_id t) \<le> unat (next_page_id s) + j \<Longrightarrow> roomy s (j + k) \<Longrightarrow> roomy t k"
  by (auto simp: updates_def roomy_def space_def io_same_def)

text \<open>Reading a page, with that bound.\<close>

definition read_fails :: "world \<Rightarrow> page_cache \<Rightarrow> chisel_error \<Rightarrow> page_cache \<Rightarrow> bool" where
  "read_fails w s e t \<longleftrightarrow> pc_wf w t \<and> same_device s t \<and> env_error w e \<and> (no_faults w \<longrightarrow> \<not> roomy s 0)"

lemma quiet_roomy: "quiet w s t \<Longrightarrow> roomy t k = roomy s k"
  by (auto simp: quiet_def same_store_def roomy_def space_def io_same_def)

lemma quiet_device: "quiet w s t \<Longrightarrow> same_device s t"
  by (simp add: quiet_def same_store_device)

lemma read_fails_later: "quiet w s t \<Longrightarrow> read_fails w t e u \<Longrightarrow> read_fails w s e u"
  using same_device_trans [OF quiet_device] by (auto simp: read_fails_def quiet_roomy)

lemma read_fails_roomy: "no_faults w \<Longrightarrow> roomy s 0 \<Longrightarrow> read_fails w s e t \<Longrightarrow> False"
  by (simp add: read_fails_def)

lemma store_read_wp:
  assumes inv: "pc_inv w s" and W: "world_ok w" and b: "body_at w s p = Some b" and r: "readable w s p"
  shows "wp (pc_get w p) (\<lambda>buf t. quiet w s t \<and> page_ok buf \<and> page_body buf = b) (read_fails w s) s"
  by (rule wp_mono [OF store_get_wp [OF assms]])
    (use roomy_calm [OF inv] in \<open>auto simp: fails_def read_fails_def\<close>)

text \<open>What a computation leaves of the pages outside the ones it changed.\<close>

definition keeps :: "world \<Rightarrow> u64 set \<Rightarrow> page_cache \<Rightarrow> page_cache \<Rightarrow> bool" where
  "keeps w U s t \<longleftrightarrow> pc_inv w t \<and> io_same (pc_io s) (pc_io t) \<and> cipher t = cipher s \<and>
     max_pages t = max_pages s \<and> next_page_id s \<le> next_page_id t \<and>
     (whole s \<longrightarrow> whole t) \<and> (\<forall>p \<in> U. body_at w t p = body_at w s p \<and> readable w t p = readable w s p \<and> is_dirty t p = is_dirty s p)"

lemma keeps_device: "keeps w U s t \<Longrightarrow> same_device s t"
  by (simp add: keeps_def same_device_def)

lemma keeps_refl: "pc_inv w s \<Longrightarrow> keeps w U s s"
  by (simp add: keeps_def)

lemma keeps_trans: "keeps w U a b \<Longrightarrow> keeps w V b c \<Longrightarrow> T \<subseteq> U \<inter> V \<Longrightarrow> keeps w T a c"
  by (auto simp: keeps_def subset_iff intro: io_same_trans)

lemma keeps_mono: "keeps w U s t \<Longrightarrow> V \<subseteq> U \<Longrightarrow> keeps w V s t"
  by (auto simp: keeps_def)

lemma updates_keeps: "updates w s m t \<Longrightarrow> U \<inter> dom m = {} \<Longrightarrow> keeps w U s t"
  using updates_whole [of w s m t] by (auto simp: keeps_def updates_def map_add_def split: option.splits)

end
