(* ===== verification/Cache_Properties.thy ===== *)
theory Cache_Properties
  imports Page_Store
begin

text \<open>
  What the page cache promises, property by property, over the model of \<open>src/src/page_cache.rs\<close>,
  with a small cache on an in-memory device on which the properties are instantiated.
\<close>

section \<open>A cache over a device\<close>

lemma page_cache_new_inv:
  assumes "io_ok io" and "stride io = PAGE_SIZE" and "unat (cached_page_count io) * ENC_PAGE_SIZE < 2 ^ 64"
  shows "pc_inv w (page_cache_new io mb sb pol loc)"
    and "pc_view w (page_cache_new io mb sb pol loc) = disk_page w None io"
    and "\<not> is_dirty (page_cache_new io mb sb pol loc) p"
proof -
  have "(1::u64) \<le> max (mb div word_of_nat PAGE_SIZE) 1" by (rule max.cobounded2)
  then have "1 \<le> pages_for_bytes mb" by (simp add: pages_for_bytes_def word_le_nat_alt)
  then show "pc_inv w (page_cache_new io mb sb pol loc)"
    using assms
    by (simp add: pc_inv_def pc_wf_def spill_inv_def page_cache_new_def tracked_new io_fits_def unit_size_def
        spill_blob_def io_page_count_def)
qed (simp_all add: page_cache_new_def pc_view_def spill_blob_def is_dirty_def spilled_def fun_eq_iff)

definition sample_cache :: page_cache where
  "sample_cache = page_cache_new open_in_memory 81920 0 LruTail InMemory"

lemma sample_cache:
  "pc_inv toy_world sample_cache" "next_page_id sample_cache = 0" "max_pages sample_cache = 10"
  "entries sample_cache = []" "\<not> read_only (pc_io sample_cache)" "\<not> is_dirty sample_cache p"
proof -
  have io: "io_ok open_in_memory" "stride open_in_memory = PAGE_SIZE"
    "unat (cached_page_count open_in_memory) * ENC_PAGE_SIZE < 2 ^ 64"
    by (simp_all add: io_ok_def open_in_memory_def)
  show "pc_inv toy_world sample_cache" "\<not> is_dirty sample_cache p"
    unfolding sample_cache_def by (rule page_cache_new_inv [OF io])+
  show "next_page_id sample_cache = 0" "max_pages sample_cache = 10" "entries sample_cache = []"
    "\<not> read_only (pc_io sample_cache)"
    by (simp_all add: sample_cache_def page_cache_new_def io_page_count_def open_in_memory_def pages_for_bytes_def)
qed

definition sample_one :: page_cache where
  "sample_one = snd (pc_new_page toy_world sample_cache)"

lemma sample_one:
  "pc_inv toy_world sample_one" "next_page_id sample_one = 1" "max_pages sample_one = 10"
  "length (entries sample_one) \<le> 1" "\<not> read_only (pc_io sample_one)" "is_dirty sample_one p \<longleftrightarrow> p = 0"
  "pc_view toy_world sample_one 0 = Some zero_page"
proof -
  have room: "id_room sample_cache (Suc 0)" by (simp add: id_room_def sample_cache)
  note new = pc_new_page_wp [OF sample_cache(1) toy_world_ok room]
  have "\<not> alloc_fail toy_world (bump_id sample_cache) p e t" for p e t
    using toy_world_no_faults by (auto simp: alloc_fail_def sample_cache)
  then obtain q t where run: "pc_new_page toy_world sample_cache = (Ok q, t)"
    and post: "q = next_page_id sample_cache \<and> reset toy_world (bump_id sample_cache) q t \<and>
      length (entries t) \<le> Suc (length (entries sample_cache))"
    using wp_total [OF new] by metis
  have t: "sample_one = t" by (simp add: sample_one_def run)
  have r: "reset toy_world (bump_id sample_cache) 0 sample_one" using post t by (auto simp: sample_cache)
  show "pc_inv toy_world sample_one" using r by (simp add: reset_def)
  show "next_page_id sample_one = 1" "max_pages sample_one = 10"
    using r by (simp_all add: reset_def same_store_def sample_cache)
  show "length (entries sample_one) \<le> 1" using post t by (simp add: sample_cache)
  show "\<not> read_only (pc_io sample_one)"
    using r sample_cache(5) by (auto simp: reset_def same_store_def io_sameD)
  show "is_dirty sample_one p \<longleftrightarrow> p = 0"
    using r sample_cache(6) by (simp add: reset_def is_dirty_def spilled_def cong: option.case_cong)
  show "pc_view toy_world sample_one 0 = Some zero_page" using r by (simp add: reset_def)
qed

lemma sample_stamped: "stamped toy_world sample_one" and sample_readable: "readable toy_world sample_one 0"
proof -
  have "verify_checksum (w_xxh toy_world) zero_page"
    by (simp add: verify_checksum_def compute_checksum_def toy_world_def get_uint_replicate sum_list_replicate)
  then show "stamped toy_world sample_one" by (auto simp: stamped_def sample_one)
  show "readable toy_world sample_one 0" by (simp add: readable_def sample_one)
qed

lemma clean_on_disk:
  assumes "pc_inv w s" and "\<not> is_dirty s p"
  shows "pc_view w s p = disk_page w (cipher s) (pc_io s) p"
proof (cases "map_of (entries s) p")
  case (Some e)
  then have "\<not> ce_dirty e" using assms(2) by (simp add: is_dirty_def)
  then show ?thesis
    using assms(1) Some by (auto simp: pc_inv_def pc_wf_def entry_ok_def pc_view_def settled_def stamp_deferred_def)
next
  case None
  have "\<not> spilled s p" using assms(2) by (simp add: is_dirty_def)
  then have "spill_blob (pc_spillway s) p = None"
    by (auto simp: spilled_def spill_blob_def spw_blob_def is_resident_def split: option.splits)
  then show ?thesis using None by (simp add: pc_view_def)
qed

text \<open>A file of one page, on a system whose every call fails.\<close>

definition faulty_world :: world where
  "faulty_world = toy_world\<lparr>w_fault := (\<lambda>d k. Some OtherIo)\<rparr>"

definition sample_file :: page_cache where
  "sample_file = page_cache_new (open_in_memory\<lparr>backing := File zero_page, cached_page_count := 1\<rparr>) 0 0 Mru InMemory"

lemma sample_file:
  "world_ok faulty_world" "pc_inv faulty_world sample_file" "\<not> read_only (pc_io sample_file)"
  "stamped faulty_world sample_file" "\<not> is_dirty sample_file p" "pc_view faulty_world sample_file 0 = Some zero_page"
  "pc_flush faulty_world sample_file = (Err (IoError OtherIo), sample_file\<lparr>pc_io := (pc_io sample_file)\<lparr>os_calls := 1\<rparr>\<rparr>)"
proof -
  let ?io = "open_in_memory\<lparr>backing := File zero_page, cached_page_count := 1\<rparr>"
  show "world_ok faulty_world"
    using toy_world_ok by (simp add: faulty_world_def world_ok_def aead_ok_def rng_ok_def)
  have io: "io_ok ?io" "stride ?io = PAGE_SIZE" "unat (cached_page_count ?io) * ENC_PAGE_SIZE < 2 ^ 64"
    by (simp_all add: io_ok_def open_in_memory_def)
  note new = page_cache_new_inv [OF io, where mb = 0 and sb = 0 and pol = Mru and loc = InMemory]
  show "pc_inv faulty_world sample_file" unfolding sample_file_def by (rule new)
  show d: "\<not> is_dirty sample_file p" for p unfolding sample_file_def by (rule new)
  show "\<not> read_only (pc_io sample_file)" by (simp add: sample_file_def page_cache_new_def open_in_memory_def)
  show "stamped faulty_world sample_file" using d by (simp add: stamped_def)
  show "pc_view faulty_world sample_file 0 = Some zero_page"
    unfolding sample_file_def new(2)
    by (simp add: disk_page_def open_blob_def io_unit_def open_in_memory_def get_bytes_def)
  show "pc_flush faulty_world sample_file = (Err (IoError OtherIo), sample_file\<lparr>pc_io := (pc_io sample_file)\<lparr>os_calls := 1\<rparr>\<rparr>)"
    by (simp add: pc_flush_def sample_file_def page_cache_new_def dirty_ids_def truncate_spillway_def and_then_def gets_def
        modify_def ok_def on_io_def on_field_def fsync_def os_call_def open_in_memory_def faulty_world_def from_io_error_def)
qed

section \<open>Properties\<close>

text \<open>
  A cache opened over a well-formed device is in order, shows exactly the pages on the device
  and has nothing dirty.
\<close>

theorem cache_opens_clean:
  assumes "io_ok io" and "stride io = PAGE_SIZE" and "unat (cached_page_count io) * ENC_PAGE_SIZE < 2 ^ 64"
  shows "pc_inv w (page_cache_new io mb sb pol loc) \<and>
    pc_view w (page_cache_new io mb sb pol loc) = disk_page w None io \<and>
    (\<forall>p. \<not> is_dirty (page_cache_new io mb sb pol loc) p)"
  using page_cache_new_inv [OF assms] by blast

theorem cache_opens_clean_witness:
  "pc_inv toy_world (page_cache_new open_in_memory 0 0 Mru InMemory)"
proof -
  have io: "io_ok open_in_memory" "stride open_in_memory = PAGE_SIZE"
    "unat (cached_page_count open_in_memory) * ENC_PAGE_SIZE < 2 ^ 64"
    by (simp_all add: io_ok_def open_in_memory_def)
  from cache_opens_clean [OF io] show ?thesis by blast
qed

text \<open>
  C19. Reading a page returns the body every client last saw, whether it was cached, spilled or on
  disk; no page's contents and no dirty state change, whatever is evicted on the way. It succeeds
  only on a readable page (a page from the device verified), and never panics. An unreadable page is
  reported as such; the other errors are file-system failures and the memory cap.
\<close>

theorem cache_get_correct:
  assumes "pc_inv w s" and "world_ok w"
  shows "wp (pc_get w p)
    (\<lambda>b t. quiet w s t \<and> page_ok b \<and> readable w s p \<and> (\<exists>pg. pc_view w s p = Some pg \<and> page_body b = page_body pg))
    (\<lambda>e t. pc_wf w t \<and>
       (io_failure e \<and> \<not> no_faults w \<or>
        quiet w s t \<and> (cap_error s e \<or> \<not> readable w s p \<and> e \<in> {InvalidPageId p, DecryptionFailed p, ChecksumMismatch p}))) s"
  by (rule wp_mono [OF pc_get_wp [OF assms]])
    (auto simp: get_fail_def evict_fail_def quiet_def pc_inv_def)

theorem cache_get_correct_witness:
  "wp (pc_get toy_world 0) (\<lambda>b t. page_body b = page_body zero_page) (\<lambda>e t. False) sample_one"
  using sample_readable sample_one toy_world_no_faults
  by (intro wp_mono [OF cache_get_correct [OF sample_one(1) toy_world_ok]]) (auto simp: cap_error_def)

text \<open>
  C20. Writing through a mutable borrow changes the body of that page to what the writer left in the
  buffer, marks it dirty, and changes no other page; nothing reaches the device.
\<close>

theorem cache_write_correct:
  assumes "pc_inv w s" and "world_ok w" and "p < next_page_id s" and "\<And>b. page_ok b \<Longrightarrow> page_ok (f b)"
  shows "wp (pc_with_mut w p f)
    (\<lambda>_ t. pc_inv w t \<and> io_same (pc_io s) (pc_io t) \<and> is_dirty t = (is_dirty s)(p := True) \<and>
       (\<exists>old b new. pc_view w s p = Some old \<and> page_ok b \<and> page_body b = page_body old \<and>
          pc_view w t = (pc_view w s)(p \<mapsto> new) \<and> page_ok new \<and> page_body new = page_body (f b)))
    (\<lambda>e t. pc_wf w t \<and> io_same (pc_io s) (pc_io t)) s"
proof (rule wp_mono [OF pc_with_mut_wp [OF assms]], goal_cases)
  case (2 a t)
  then show ?case unfolding wrote_def same_store_def by blast
next
  case (3 e t)
  then show ?case by (auto simp: get_fail_def evict_fail_def quiet_def pc_inv_def same_store_def)
qed

theorem cache_write_correct_witness:
  "wp (pc_with_mut toy_world 0 (\<lambda>b. b[0 := 9]))
     (\<lambda>_ t. \<exists>new. pc_view toy_world t 0 = Some new \<and> new ! 0 = 9) (\<lambda>e t. True) sample_one"
proof (rule wp_mono [OF cache_write_correct [OF sample_one(1) toy_world_ok]], goal_cases)
  case (3 a t)
  then obtain b new where b: "page_ok b" "pc_view toy_world t 0 = Some new" "page_body new = page_body (b[0 := 9])"
    by (auto simp: fun_eq_iff)
  then show ?case using nth_body [OF b(3), of 0] by simp
qed (simp_all add: sample_one)

text \<open>
  C25. A fresh page gets the next page id and is all zeros and dirty; no other page changes. When the
  cap leaves no room the error is reported after the fact: the id is used up and the page is there,
  still in order.
\<close>

theorem cache_new_page_correct:
  assumes "pc_inv w s" and "world_ok w" and "id_room s 1"
  shows "wp (pc_new_page w)
    (\<lambda>p t. p = next_page_id s \<and> next_page_id t = p + 1 \<and> pc_inv w t \<and> io_same (pc_io s) (pc_io t) \<and>
       pc_view w t = (pc_view w s)(p \<mapsto> zero_page) \<and> is_dirty t = (is_dirty s)(p := True))
    (\<lambda>e t. pc_wf w t \<and> next_page_id t = next_page_id s + 1 \<and>
       (io_failure e \<and> \<not> no_faults w \<or>
        max_pages s \<le> length (entries s) \<and> pc_view w t = (pc_view w s)(next_page_id s \<mapsto> zero_page) \<and>
          (e = CacheFull (max_pages s) \<and> spillway_max_bytes s = 0 \<or> (\<exists>m. e = SpillwayFull m)))) s"
proof -
  have room: "id_room s (Suc 0)" using assms(3) by simp
  have "pc_view w (bump_id s) = pc_view w s" "is_dirty (bump_id s) = is_dirty s"
    by (simp_all add: pc_view_def is_dirty_def spilled_def fun_eq_iff cong: option.case_cong)
  then show ?thesis
    by (intro wp_mono [OF pc_new_page_wp [OF assms(1,2) room]])
      (auto simp: reset_def same_store_def alloc_fail_def pc_inv_def)
qed

theorem cache_new_page_correct_witness:
  "wp (pc_new_page toy_world) (\<lambda>p t. p = 0 \<and> pc_view toy_world t 0 = Some zero_page) (\<lambda>e t. False) sample_cache"
proof -
  have room: "id_room sample_cache 1" by (simp add: id_room_def sample_cache)
  show ?thesis
    by (rule wp_mono [OF cache_new_page_correct [OF sample_cache(1) toy_world_ok room]])
      (use toy_world_no_faults in \<open>auto simp: sample_cache\<close>)
qed

text \<open>
  Reissuing a page id (a claimed free page, or a dead page of the transaction) gives a zeroed
  dirty page whatever was cached, spilled or on disk under that id; no other page changes and the
  bookkeeping stays exact.
\<close>

theorem cache_reissue_correct:
  assumes "pc_inv w s" and "world_ok w" and "p < next_page_id s"
  shows "wp (reissue_page w p)
    (\<lambda>_ t. pc_inv w t \<and> same_store s t \<and> pc_view w t = (pc_view w s)(p \<mapsto> zero_page) \<and>
       is_dirty t = (is_dirty s)(p := True))
    (\<lambda>e t. pc_wf w t \<and> same_store s t \<and>
       (io_failure e \<and> \<not> no_faults w \<or>
        max_pages s \<le> length (entries s) \<and> pc_view w t = (pc_view w s)(p \<mapsto> zero_page))) s"
  by (rule wp_mono [OF reissue_page_wp [OF assms]]) (auto simp: reset_def alloc_fail_def pc_inv_def)

theorem cache_reissue_correct_witness:
  "wp (reissue_page toy_world 0) (\<lambda>_ t. pc_view toy_world t 0 = Some zero_page) (\<lambda>e t. False) sample_one"
proof -
  have p: "0 < next_page_id sample_one" by (simp add: sample_one)
  show ?thesis
    by (rule wp_mono [OF cache_reissue_correct [OF sample_one(1) toy_world_ok p]])
      (use toy_world_no_faults sample_one(3,4) in auto)
qed

text \<open>
  C23. Eviction brings the cache down to its cap and is invisible: every page reads as before,
  dirty pages stay dirty (now spilled), nothing reaches the device. It fails on a file-system fault,
  or, with everything still in place, when only dirty pages are left and the spillway is off or full.
\<close>

theorem eviction_is_invisible:
  assumes "pc_inv w s" and "world_ok w"
  shows "wp (maybe_evict w)
    (\<lambda>_ t. quiet w s t \<and> length (entries t) \<le> max_pages t)
    (\<lambda>e t. io_failure e \<and> \<not> no_faults w \<and> pc_wf w t \<and> same_store s t \<or> cap_error s e \<and> quiet w s t) s"
  by (rule wp_mono [OF maybe_evict_wp [OF assms]]) (auto simp: evict_fail_def quiet_def same_store_def)

theorem eviction_is_invisible_witness:
  "wp (maybe_evict toy_world) (\<lambda>_ t. quiet toy_world sample_one t) (\<lambda>e t. False) sample_one"
  by (rule wp_mono [OF eviction_is_invisible [OF sample_one(1) toy_world_ok]])
    (use toy_world_no_faults sample_one(3,4) in \<open>auto simp: cap_error_def\<close>)

text \<open>
  Copying a page gives the destination the source's body and marks it dirty; the source and
  every other page stay as they are. This is the copy of copy-on-write.
\<close>

theorem cache_copy_correct:
  assumes "pc_inv w s" and "world_ok w" and "dst < next_page_id s"
  shows "wp (copy_page w src dst)
    (\<lambda>_ t. pc_inv w t \<and> io_same (pc_io s) (pc_io t) \<and> is_dirty t = (is_dirty s)(dst := True) \<and>
       (\<exists>old new. pc_view w s src = Some old \<and> pc_view w t = (pc_view w s)(dst \<mapsto> new) \<and>
          page_body new = page_body old))
    (\<lambda>e t. pc_wf w t) s"
proof (rule wp_mono [OF copy_page_wp [OF assms]], goal_cases)
  case (1 a t)
  then show ?case unfolding same_store_def by blast
next
  case (2 e t)
  then show ?case by (auto simp: get_fail_def evict_fail_def quiet_def pc_inv_def)
qed

theorem cache_copy_correct_witness:
  "wp (copy_page toy_world 0 0) (\<lambda>_ t. pc_inv toy_world t) (\<lambda>e t. True) sample_one"
proof -
  have p: "0 < next_page_id sample_one" by (simp add: sample_one)
  show ?thesis by (rule wp_mono [OF cache_copy_correct [OF sample_one(1) toy_world_ok p]]) auto
qed

text \<open>
  C5. Durability: a successful flush leaves nothing dirty, every page a client could see is on the
  device with exactly that content, and the last thing that happened to the device is the sync. The
  one requirement on clients is that dirty pages carry their checksum, stamped or deferred.
\<close>

theorem flush_is_durable:
  assumes "pc_inv w s" and "world_ok w" and "\<not> read_only (pc_io s)" and "stamped w s"
  shows "wp (pc_flush w)
    (\<lambda>_ t. pc_inv w t \<and> (\<forall>p. \<not> is_dirty t p) \<and>
       (\<forall>p pg. pc_view w s p = Some pg \<longrightarrow> pc_view w t p = Some pg \<and> disk_page w (cipher s) (pc_io t) p = Some pg) \<and>
       (\<exists>l. io_log (pc_io t) = l @ [Fsynced]))
    (\<lambda>e t. io_failure e \<and> \<not> no_faults w \<and> pc_wf w t) s"
  by (rule wp_mono [OF pc_flush_wp [OF assms]]) (auto simp: all_on_disk_def flush_fail_def)

theorem flush_is_durable_witness:
  "wp (pc_flush toy_world) (\<lambda>_ t. disk_page toy_world (cipher sample_one) (pc_io t) 0 = Some zero_page) (\<lambda>e t. False) sample_one"
  by (rule wp_mono [OF flush_is_durable [OF sample_one(1) toy_world_ok sample_one(5) sample_stamped]])
    (use toy_world_no_faults sample_one(7) in auto)

text \<open>
  C24. Rollback: dropping the dirty pages, from any state a failure can leave, restores a cache in
  order that shows exactly the device, without touching the device.
\<close>

theorem rollback_shows_device:
  assumes "pc_wf w s"
  shows "pc_inv w (discard_all_dirty w s) \<and>
    pc_view w (discard_all_dirty w s) = disk_page w (cipher s) (pc_io s) \<and>
    (\<forall>p. \<not> is_dirty (discard_all_dirty w s) p) \<and> pc_io (discard_all_dirty w s) = pc_io s"
  using discard_all_dirty_correct [OF assms] by blast

theorem rollback_shows_device_witness:
  "\<not> is_dirty (discard_all_dirty toy_world sample_one) 0 \<and> pc_wf toy_world sample_one"
proof -
  have wf: "pc_wf toy_world sample_one" using sample_one(1) by (simp add: pc_inv_def)
  from rollback_shows_device [OF wf] wf show ?thesis by blast
qed

text \<open>
  C18. Crash safety of the data under a transaction: when a flush fails half way, torn writes
  included, and the dirty pages are then dropped, every page that was clean before the flush still
  shows the content it had.
\<close>

theorem failed_flush_keeps_clean_pages:
  assumes "pc_inv w s" and "world_ok w" and "\<not> read_only (pc_io s)" and "stamped w s"
    and "pc_flush w s = (Err e, t)"
  shows "pc_inv w (discard_all_dirty w t) \<and>
    (\<forall>p pg. pc_view w s p = Some pg \<and> \<not> is_dirty s p \<longrightarrow> pc_view w (discard_all_dirty w t) p = Some pg)"
proof -
  have f: "flush_fail w s e t" using pc_flush_wp [OF assms(1-4)] assms(5) by (rule wpD_Err)
  then have wf: "pc_wf w t" and k: "keeps_clean s t" and c: "cipher t = cipher s" by (auto simp: flush_fail_def)
  note roll = discard_all_dirty_correct [OF wf]
  have "disk_page w (cipher t) (pc_io t) p = Some pg" if view: "pc_view w s p = Some pg" "\<not> is_dirty s p" for p pg
  proof -
    have "disk_page w (cipher s) (pc_io s) p = Some pg"
      using clean_on_disk [OF assms(1) that(2)] view(1) by simp
    then show ?thesis using k c view(2) by (auto simp: disk_page_def keeps_clean_def split: if_splits)
  qed
  then show ?thesis using roll by simp
qed

theorem failed_flush_keeps_clean_pages_witness:
  "pc_view faulty_world (discard_all_dirty faulty_world (snd (pc_flush faulty_world sample_file))) 0 = Some zero_page"
  using failed_flush_keeps_clean_pages [OF sample_file(2,1,3,4,7)] sample_file(5-7) by simp

end
