(* ===== verification/Overflow_Chain.thy ===== *)
theory Overflow_Chain
  imports Cache_Properties
begin

text \<open>
  Values too large for a data page, \<open>src/src/overflow.rs\<close>: a singly linked chain of overflow pages,
  each with the total length, the next page id (0 ends the chain) and up to 8152 payload bytes. The
  read loop is bounded by the page count the stored length implies, so a cyclic or forged chain is
  an error, not a hang.
\<close>

section \<open>Definitions\<close>

definition OVERFLOW_HEADER_END :: nat where [simp]: "OVERFLOW_HEADER_END = 32"
definition OVERFLOW_PAYLOAD :: nat where [simp]: "OVERFLOW_PAYLOAD = CHECKSUM_OFFSET - OVERFLOW_HEADER_END"

definition div_ceil :: "nat \<Rightarrow> nat \<Rightarrow> nat" where
  "div_ceil a b = (a + b - 1) div b"

fun alloc_pages :: "world \<Rightarrow> nat \<Rightarrow> u64 list cache_op" where
  "alloc_pages w 0 = ok []"
| "alloc_pages w (Suc n) =
     and_then (pc_new_page w) (\<lambda>p. and_then (alloc_pages w n) (\<lambda>ps. ok (p # ps)))"

definition fill_overflow_page :: "world \<Rightarrow> u64 \<Rightarrow> u64 \<Rightarrow> u8 list \<Rightarrow> page \<Rightarrow> page" where
  "fill_overflow_page w total_length next_page chunk buf =
     stamp_checksum (w_xxh w)
       (put_bytes OVERFLOW_HEADER_END chunk
         (put_u64 24 next_page
           (put_u64 16 total_length
             ((replicate (length buf) 0)[0 := page_type_tag Overflow, 1 := current_version Overflow]))))"

definition overflow_write :: "world \<Rightarrow> u8 list \<Rightarrow> u64 cache_op" where
  "overflow_write w value =
     (if value = [] then panic
      else let total_length = word_of_nat (length value);
               num_pages = div_ceil (length value) OVERFLOW_PAYLOAD
           in and_then (alloc_pages w num_pages) (\<lambda>page_ids.
              and_then (for_each (zip [0..<length page_ids] page_ids) (\<lambda>(i, page_id).
                let start = i * OVERFLOW_PAYLOAD;
                    end = min (start + OVERFLOW_PAYLOAD) (length value);
                    chunk = get_bytes start (end - start) value;
                    next_page = (if i + 1 < length page_ids then page_ids ! (i + 1) else 0)
                in pc_with_mut w page_id (fill_overflow_page w total_length next_page chunk))) (\<lambda>_.
              ok (page_ids ! 0))))"

text \<open>The checks both readers make on the first page; they return the stored length.\<close>

definition overflow_length :: "world \<Rightarrow> u64 \<Rightarrow> nat cache_op" where
  "overflow_length w first_page =
     and_then (pc_get w first_page) (\<lambda>buf.
     if buf ! 0 \<noteq> page_type_tag Overflow then err (CorruptPage first_page)
     else let total_length = unat (get_u64 16 buf)
          in if total_length = 0 then err (CorruptPage first_page)
             else and_then (gets next_page_id) (\<lambda>n.
                  let ceiling = unat (saturating_mul n (word_of_nat OVERFLOW_PAYLOAD))
                  in if ceiling < total_length then err (CorruptPage first_page) else ok total_length))"

text \<open>The loop of \<open>read\<close>; the third argument is \<open>max_pages - pages_visited\<close>.\<close>

fun overflow_read_loop :: "world \<Rightarrow> u64 \<Rightarrow> nat \<Rightarrow> nat \<Rightarrow> u64 \<Rightarrow> u8 list \<Rightarrow> u8 list cache_op" where
  "overflow_read_loop w first_page total_length 0 current_page result = err (CorruptPage first_page)"
| "overflow_read_loop w first_page total_length (Suc left) current_page result =
     and_then (pc_get w current_page) (\<lambda>buf.
     if buf ! 0 \<noteq> page_type_tag Overflow then err (CorruptPage current_page)
     else let next_page = get_u64 24 buf;
              remaining = total_length - length result
          in if remaining = 0 then err (CorruptPage current_page)
             else let chunk_len = min remaining OVERFLOW_PAYLOAD;
                      result = result @ get_bytes OVERFLOW_HEADER_END chunk_len buf
                  in if next_page = 0 then ok result
                     else overflow_read_loop w first_page total_length left next_page result)"

definition overflow_read :: "world \<Rightarrow> u64 \<Rightarrow> u8 list cache_op" where
  "overflow_read w first_page =
     and_then (overflow_length w first_page) (\<lambda>total_length.
     let max_pages = div_ceil total_length OVERFLOW_PAYLOAD
     in and_then (overflow_read_loop w first_page total_length max_pages first_page []) (\<lambda>result.
        if length result \<noteq> total_length then err (CorruptPage first_page) else ok result))"

fun collect_loop :: "world \<Rightarrow> u64 \<Rightarrow> nat \<Rightarrow> u64 \<Rightarrow> u64 list \<Rightarrow> u64 list cache_op" where
  "collect_loop w first_page 0 current_page freed = err (CorruptPage first_page)"
| "collect_loop w first_page (Suc left) current_page freed =
     and_then (pc_get w current_page) (\<lambda>buf.
     if buf ! 0 \<noteq> page_type_tag Overflow then err (CorruptPage current_page)
     else let next_page = get_u64 24 buf;
              freed = freed @ [current_page]
          in if next_page = 0 then ok freed else collect_loop w first_page left next_page freed)"

definition collect_chain_pages :: "world \<Rightarrow> u64 \<Rightarrow> u64 list cache_op" where
  "collect_chain_pages w first_page =
     and_then (overflow_length w first_page) (\<lambda>total_length.
     collect_loop w first_page (div_ceil total_length OVERFLOW_PAYLOAD) first_page [])"

section \<open>The chain as a predicate on page bodies\<close>

abbreviation next_of :: "u64 list \<Rightarrow> u64" where
  "next_of ps \<equiv> (case ps of [] \<Rightarrow> 0 | q # _ \<Rightarrow> q)"

definition chain_page :: "u8 list \<Rightarrow> nat \<Rightarrow> u64 \<Rightarrow> u8 list \<Rightarrow> bool" where
  "chain_page b tlen nx chunk \<longleftrightarrow> b ! 0 = page_type_tag Overflow \<and> get_u64 16 b = word_of_nat tlen \<and>
     get_u64 24 b = nx \<and> get_bytes 32 (length chunk) b = chunk"

fun chain :: "(u64 \<rightharpoonup> u8 list) \<Rightarrow> nat \<Rightarrow> u64 list \<Rightarrow> u8 list \<Rightarrow> bool" where
  "chain m tlen [] v \<longleftrightarrow> False"
| "chain m tlen (p # ps) v \<longleftrightarrow> v \<noteq> [] \<and>
     (\<exists>b. m p = Some b \<and> chain_page b tlen (next_of ps) (take 8152 v)) \<and>
     (if length v \<le> 8152 then ps = [] else next_of ps \<noteq> 0 \<and> chain m tlen ps (drop 8152 v))"

lemma fill_overflow_body:
  assumes "page_ok buf" and "length chunk \<le> 8152"
  shows "page_ok (fill_overflow_page w tlen nx chunk buf)"
    and "page_body (fill_overflow_page w tlen nx chunk buf) = page_body (fill_overflow_page w tlen nx chunk zero_page)"
    and "chain_page (page_body (fill_overflow_page w (word_of_nat n) nx chunk buf)) n nx chunk"
    and "verify_checksum (w_xxh w) (fill_overflow_page w tlen nx chunk buf)"
proof -
  let ?p = "put_bytes 32 chunk (put_u64 24 nx (put_u64 16 tlen
      ((replicate 8192 0)[0 := page_type_tag Overflow, 1 := current_version Overflow])))"
  have eq: "fill_overflow_page w tlen nx chunk buf = stamp_checksum (w_xxh w) ?p"
    and eq0: "fill_overflow_page w tlen nx chunk zero_page = stamp_checksum (w_xxh w) ?p"
    using assms(1) by (simp_all add: fill_overflow_page_def)
  have ok: "page_ok ?p" using assms(2) by simp
  then show "page_ok (fill_overflow_page w tlen nx chunk buf)" unfolding eq by simp
  show "verify_checksum (w_xxh w) (fill_overflow_page w tlen nx chunk buf)" unfolding eq by (rule verify_stamp [OF ok])
  show "page_body (fill_overflow_page w tlen nx chunk buf) = page_body (fill_overflow_page w tlen nx chunk zero_page)"
    unfolding eq eq0 ..
  let ?q = "put_bytes 32 chunk (put_u64 24 nx (put_u64 16 (word_of_nat n)
      ((replicate 8192 0)[0 := page_type_tag Overflow, 1 := current_version Overflow])))"
  have "page_body (fill_overflow_page w (word_of_nat n) nx chunk buf) = page_body ?q"
    using assms by (simp add: fill_overflow_page_def)
  moreover have "chain_page (page_body ?q) n nx chunk"
    using assms(2)
    by (simp add: chain_page_def get_uint_take get_bytes_take byte_simps get_put_bytes_same
        get_uint_put_bytes_other nth_put_bytes_other)
  ultimately show "chain_page (page_body (fill_overflow_page w (word_of_nat n) nx chunk buf)) n nx chunk" by simp
qed

section \<open>Writing a chain\<close>

lemma updates_written: "updates w s m t \<Longrightarrow> m q = Some b \<Longrightarrow> is_dirty t q \<and> body_at w t q = Some b"
  unfolding updates_def by (elim conjE) (simp add: domI)

lemma updates_raw: "updates w s m t \<Longrightarrow> raw w t \<subseteq> raw w s \<union> dom m"
  unfolding updates_def by blast

text \<open>The allocated ids are consecutive, so distinct, and above everything allocated before.\<close>

lemma alloc_pages_wp:
  assumes "pc_inv w s" and "world_ok w" and "id_room s (n + k)"
  shows "wp (alloc_pages w n)
    (\<lambda>ps t. ps = map (\<lambda>i. next_page_id s + word_of_nat i) [0..<n] \<and>
       (\<exists>m. updates w s m t \<and> dom m = set ps) \<and> grown s n t \<and>
       next_page_id t = next_page_id s + word_of_nat n \<and> id_room t k)
    (fails w s n) s"
  using assms(1,3)
proof (induction n arbitrary: s)
  case 0
  then show ?case by (auto simp: wp_simps intro!: exI [of _ Map.empty] updates_refl)
next
  case (Suc n)
  have room: "id_room s (Suc (n + k))" using Suc.prems(2) by simp
  show ?case
    unfolding alloc_pages.simps wp_and_then
  proof (rule wp_mono [OF store_new_wp [OF Suc.prems(1) assms(2) room]], goal_cases)
    case (1 p t)
    then have p: "p = next_page_id s" and up: "updates w s [p \<mapsto> replicate 8184 0] t" and g: "grown s 1 t"
      and nt: "next_page_id t = next_page_id s + 1" and room': "id_room t (n + k)" by auto
    have "map (\<lambda>i. next_page_id s + word_of_nat i) [0..<Suc n] =
        p # map (\<lambda>i. next_page_id t + word_of_nat i) [0..<n]"
      by (simp add: map_upt_Suc p nt add.assoc del: upt_Suc)
    note ids = this
    show ?case
    proof (rule wp_mono [OF Suc.IH [OF updates_inv [OF up] room']], goal_cases)
      case (1 ps u)
      then obtain m where m: "updates w t m u" "dom m = set ps"
        and ps: "ps = map (\<lambda>i. next_page_id t + word_of_nat i) [0..<n]" and g': "grown t n u"
        and nu: "next_page_id u = next_page_id t + word_of_nat n" and ru: "id_room u k" by auto
      have "updates w s ([p \<mapsto> replicate 8184 0] ++ m) u" by (rule updates_trans [OF up m(1)])
      moreover have "dom ([p \<mapsto> replicate 8184 0] ++ m) = set (p # ps)" using m(2) by auto
      ultimately have "\<exists>m. updates w s m u \<and> dom m = set (p # ps)" by blast
      then show ?case
        unfolding wp_ok ids ps using grown_trans [OF g g'] nu nt ru by (simp add: add.assoc)
    next
      case (2 e u)
      then show ?case using fails_later [OF g] by fastforce
    qed
  next
    case (2 e t)
    then show ?case by (rule fails_mono) simp
  qed
qed

lemma div_ceil_step:
  assumes "v \<noteq> []"
  shows "div_ceil (length v) 8152 = Suc (if length v \<le> 8152 then 0 else div_ceil (length (drop 8152 v)) 8152)"
proof (cases "length v \<le> 8152")
  case True
  moreover have "1 \<le> length v" using assms by (cases v) auto
  ultimately have "(length v + 8152 - 1) div 8152 = 1" by (intro div_nat_eqI) auto
  then show ?thesis using True by (simp add: div_ceil_def)
next
  case False
  then have "length v + 8152 - 1 = (length v - 8152 + 8152 - 1) + 8152" by simp
  then show ?thesis using False by (simp add: div_ceil_def)
qed

lemma chain_length: "chain m tlen ps v \<Longrightarrow> length ps = div_ceil (length v) 8152"
proof (induction ps arbitrary: v)
  case (Cons p ps)
  then have ne: "v \<noteq> []" by simp
  show ?case
  proof (cases "length v \<le> 8152")
    case True
    then show ?thesis using Cons.prems div_ceil_step [OF ne] by simp
  next
    case False
    then show ?thesis using Cons.prems Cons.IH [of "drop 8152 v"] div_ceil_step [OF ne] by simp
  qed
qed simp

lemma chain_mono: "chain m tlen ps v \<Longrightarrow> (\<And>p. p \<in> set ps \<Longrightarrow> m' p = m p) \<Longrightarrow> chain m' tlen ps v"
  by (induction ps arbitrary: v) (auto split: if_splits)

text \<open>The pages written index by index form the chain.\<close>

lemma chainI:
  assumes "length ps = div_ceil (length v) 8152" and "v \<noteq> []" and "0 \<notin> set ps"
    and "\<And>j. j < length ps \<Longrightarrow> \<exists>b. m (ps ! j) = Some b \<and>
      chain_page b tlen (if j + 1 < length ps then ps ! (j + 1) else 0) (take 8152 (drop (j * 8152) v))"
  shows "chain m tlen ps v"
  using assms
proof (induction ps arbitrary: v)
  case Nil
  then show ?case using div_ceil_step [of v] by simp
next
  case (Cons p ps)
  have len: "length ps = (if length v \<le> 8152 then 0 else div_ceil (length (drop 8152 v)) 8152)"
    using Cons.prems(1) div_ceil_step [OF Cons.prems(2)] by simp
  have hd: "\<exists>b. m p = Some b \<and> chain_page b tlen (next_of ps) (take 8152 v)"
    using Cons.prems(4) [of 0] by (cases ps) auto
  show ?case
  proof (cases "length v \<le> 8152")
    case True
    then show ?thesis using hd len Cons.prems(2) by simp
  next
    case False
    have "chain m tlen ps (drop 8152 v)"
    proof (rule Cons.IH)
      show "length ps = div_ceil (length (drop 8152 v)) 8152" using len False by simp
      show "drop 8152 v \<noteq> []" using False by simp
      show "0 \<notin> set ps" using Cons.prems(3) by simp
      fix j assume "j < length ps"
      then show "\<exists>b. m (ps ! j) = Some b \<and> chain_page b tlen (if j + 1 < length ps then ps ! (j + 1) else 0)
          (take 8152 (drop (j * 8152) (drop 8152 v)))"
        using Cons.prems(4) [of "Suc j"] by (cases "Suc j < length ps") (simp_all add: add.commute)
    qed
    moreover have "next_of ps \<noteq> 0" using calculation Cons.prems(3) by (cases ps) auto
    ultimately show ?thesis using hd False Cons.prems(2) by simp
  qed
qed

lemma chunk_slice:
  "get_bytes (j * 8152) (min (j * 8152 + 8152) (length v) - j * 8152) v = take 8152 (drop (j * 8152) v)"
  by (simp add: get_bytes_def min_def)

text \<open>The write loop.\<close>

abbreviation overflow_body :: "world \<Rightarrow> u8 list \<Rightarrow> u64 list \<Rightarrow> nat \<times> u64 \<Rightarrow> unit cache_op" where
  "overflow_body w v ids \<equiv> (\<lambda>(i, page_id).
     let start = i * OVERFLOW_PAYLOAD;
         end = min (start + OVERFLOW_PAYLOAD) (length v);
         chunk = get_bytes start (end - start) v;
         next_page = (if i + 1 < length ids then ids ! (i + 1) else 0)
     in pc_with_mut w page_id (fill_overflow_page w (word_of_nat (length v)) next_page chunk))"

lemma overflow_fill_wp:
  assumes inv: "pc_inv w s" and W: "world_ok w" and dist: "distinct ids"
    and ids: "\<And>p. p \<in> set ids \<Longrightarrow> p < next_page_id s \<and> is_dirty s p \<and> body_at w s p \<noteq> None"
  shows "wp (for_each (zip [0..<length ids] ids) (overflow_body w v ids))
    (\<lambda>_ t. (\<exists>m. updates w s m t \<and> dom m \<subseteq> set ids) \<and> grown s (length ids) t \<and> next_page_id t = next_page_id s \<and>
       set ids \<inter> raw w t = {} \<and>
       (\<forall>j < length ids. \<exists>b. body_at w t (ids ! j) = Some b \<and>
          chain_page b (length v) (if j + 1 < length ids then ids ! (j + 1) else 0) (take 8152 (drop (j * 8152) v))))
    (fails w s (length ids)) s"
proof -
  let ?n = "length ids" and ?z = "zip [0..<length ids] ids"
  let ?nx = "\<lambda>j. if j + 1 < length ids then ids ! (j + 1) else 0"
  define I where "I ys t \<longleftrightarrow> (\<exists>i \<le> ?n. ys = drop i ?z \<and> (\<exists>m. updates w s m t \<and> dom m \<subseteq> set ids) \<and> grown s i t \<and>
      next_page_id t = next_page_id s \<and> (\<forall>j < i. ids ! j \<notin> raw w t) \<and> (\<forall>j < i. \<exists>b. body_at w t (ids ! j) = Some b \<and>
        chain_page b (length v) (?nx j) (take 8152 (drop (j * 8152) v))))" for ys t
  have "wp (for_each ?z (overflow_body w v ids)) (\<lambda>_. I []) (fails w s ?n) s"
  proof (rule wp_for_each)
    show "I ?z s" using updates_refl [OF inv] by (auto simp: I_def intro!: exI [of _ 0])
    fix y ys t
    assume "I (y # ys) t"
    then obtain i m where i: "i \<le> ?n" "y # ys = drop i ?z" and m: "updates w s m t" "dom m \<subseteq> set ids"
      and g: "grown s i t" and nt: "next_page_id t = next_page_id s" and st: "\<And>j. j < i \<Longrightarrow> ids ! j \<notin> raw w t"
      and pages: "\<And>j. j < i \<Longrightarrow> \<exists>b. body_at w t (ids ! j) = Some b \<and>
        chain_page b (length v) (?nx j) (take 8152 (drop (j * 8152) v))"
      by (auto simp: I_def)
    have lt: "i < ?n" using i by (cases "i = ?n") auto
    then have y: "y = (i, ids ! i)" and ys: "ys = drop (Suc i) ?z"
      using i(2) by (auto simp: Cons_nth_drop_Suc [symmetric])
    let ?p = "ids ! i" and ?c = "take 8152 (drop (i * 8152) v)"
    let ?f = "fill_overflow_page w (word_of_nat (length v)) (?nx i) ?c"
    have mem: "?p \<in> set ids" using lt by simp
    have d: "is_dirty t ?p" using m(1) ids [OF mem] by (simp add: updates_def)
    obtain b where b: "body_at w t ?p = Some b"
      using m(1) ids [OF mem] by (cases "m ?p") (auto simp: updates_def map_add_def)
    have "wp (pc_with_mut w ?p ?f) (\<lambda>_. I ys) (fails w s ?n) t"
    proof (rule wp_mono [OF store_write_wp [OF updates_inv [OF m(1)] W _ b dirty_readable [OF d b], of ?f "page_body (?f zero_page)"]], goal_cases)
      case 1
      then show ?case using ids [OF mem] nt by simp
    next
      case (2 buf)
      then show ?case by (intro fill_overflow_body(2)) auto
    next
      case (3 buf)
      then show ?case by (intro fill_overflow_body(1)) auto
    next
      case (4 a u)
      then have up: "updates w t [?p \<mapsto> page_body (?f zero_page)] u" and g': "grown t 1 u" and pr: "?p \<notin> raw w u"
        using fill_overflow_body(4) [of _ ?c w "word_of_nat (length v)" "?nx i"] by simp_all
      have "raw w u \<subseteq> raw w t \<union> {?p}" using up by (simp add: updates_def)
      then have st': "ids ! j \<notin> raw w u" if "j < Suc i" for j using st pr that by (cases "j = i") auto
      have bu: "body_at w u = body_at w t ++ [?p \<mapsto> page_body (?f zero_page)]" using up by (simp add: updates_def)
      have "\<exists>b. body_at w u (ids ! j) = Some b \<and> chain_page b (length v) (?nx j) (take 8152 (drop (j * 8152) v))"
        if "j < Suc i" for j
      proof (cases "j = i")
        case True
        then show ?thesis
          using fill_overflow_body(3) [where buf = zero_page and chunk = ?c and w = w and n = "length v" and nx = "?nx i"]
          by (cases "Suc i < length ids") (simp_all add: bu)
      next
        case False
        then have "ids ! j \<noteq> ?p" using that lt dist by (simp add: nth_eq_iff_index_eq)
        then show ?thesis using pages [of j] that False by (simp add: bu)
      qed
      moreover have "\<exists>m. updates w s m u \<and> dom m \<subseteq> set ids"
        using updates_trans [OF m(1) up] m(2) mem by (intro exI [of _ "m ++ [?p \<mapsto> page_body (?f zero_page)]"]) simp
      moreover have "Suc i \<le> ?n" "next_page_id u = next_page_id s" "grown s (Suc i) u" using 4 lt nt grown_trans [OF g g'] by simp_all
      ultimately show ?case
        unfolding I_def using ys st' by (intro exI [of _ "Suc i"] conjI) blast+
    next
      case (5 e u)
      then have "fails w s (i + 0) e u" by (rule fails_later [OF g])
      then show ?case by (rule fails_mono) (use lt in simp)
    qed
    then show "wp (overflow_body w v ids y) (\<lambda>_. I ys) (fails w s ?n) t"
      using chunk_slice [of i v] by (simp add: y Let_def)
  qed
  then show ?thesis
  proof (rule wp_mono, goal_cases)
    case (1 a t)
    then obtain i where "i \<le> ?n" "[] = drop i ?z" and I: "(\<exists>m. updates w s m t \<and> dom m \<subseteq> set ids) \<and> grown s i t \<and>
      next_page_id t = next_page_id s \<and> (\<forall>j < i. ids ! j \<notin> raw w t) \<and> (\<forall>j < i. \<exists>b. body_at w t (ids ! j) = Some b \<and>
        chain_page b (length v) (?nx j) (take 8152 (drop (j * 8152) v)))" unfolding I_def by blast
    then have "i = ?n" by simp
    then show ?case using I by (auto simp: in_set_conv_nth)
  qed
qed

lemma consecutive_ids:
  assumes "id_room s n" and "ids = map (\<lambda>i. next_page_id s + word_of_nat i) [0..<n]"
  shows "distinct ids" and "p \<in> set ids \<Longrightarrow> next_page_id s \<le> p \<and> p < next_page_id s + word_of_nat n"
    and "unat (next_page_id s + word_of_nat n) = unat (next_page_id s) + n"
proof -
  have lt: "unat (next_page_id s) + n < 2 ^ 64" using assms(1) by (simp add: id_room_def)
  have u: "unat (next_page_id s + word_of_nat i) = unat (next_page_id s) + i" if "i \<le> n" for i
    using lt that by (simp add: unat_word_ariths unat_of_nat)
  show "unat (next_page_id s + word_of_nat n) = unat (next_page_id s) + n" by (rule u) simp
  have "inj_on (\<lambda>i. next_page_id s + word_of_nat i) {0..<n}"
    by (rule inj_onI) (metis add_left_cancel atLeastLessThan_iff less_imp_le_nat u)
  then show "distinct ids" by (simp add: assms(2) distinct_map)
  assume "p \<in> set ids"
  then obtain i where "i < n" "p = next_page_id s + word_of_nat i" by (auto simp: assms(2))
  then show "next_page_id s \<le> p \<and> p < next_page_id s + word_of_nat n"
    using u [of i] u [of n] by (simp add: word_le_nat_alt word_less_nat_alt)
qed

text \<open>What \<open>Overflow::write\<close> leaves: a chain of new dirty pages holding the value.\<close>

definition chain_at :: "world \<Rightarrow> page_cache \<Rightarrow> u64 \<Rightarrow> u64 list \<Rightarrow> u8 list \<Rightarrow> bool" where
  "chain_at w s p ids v \<longleftrightarrow> ids \<noteq> [] \<and> p = hd ids \<and> chain (body_at w s) (length v) ids v \<and>
     (\<forall>q \<in> set ids. readable w s q) \<and> length v \<le> unat (next_page_id s) * 8152 \<and> length v < 2 ^ 64"

lemma overflow_write_wp:
  assumes inv: "pc_inv w s" and W: "world_ok w" and v: "v \<noteq> []" "length v < 2 ^ 64"
    and n: "n = div_ceil (length v) 8152" and room: "id_room s (n + k)" and pos: "0 < next_page_id s"
  shows "wp (overflow_write w v)
    (\<lambda>p t. (\<exists>ids. chain_at w t p ids v \<and> distinct ids \<and> (\<forall>q \<in> set ids. next_page_id s \<le> q \<and> is_dirty t q) \<and>
         (\<exists>m. updates w s m t \<and> dom m = set ids)) \<and> grown s (2 * n) t \<and> raw w t \<subseteq> raw w s \<and>
       next_page_id t = next_page_id s + word_of_nat n)
    (fails w s (2 * n)) s"
    (is "wp _ ?Q _ s")
proof -
  have room_n: "id_room s n" using room by (simp add: id_room_def)
  have "wp (alloc_pages w n) (\<lambda>ids. wp (and_then (for_each (zip [0..<length ids] ids) (overflow_body w v ids))
      (\<lambda>_. ok (ids ! 0))) ?Q (fails w s (2 * n))) (fails w s (2 * n)) s"
  proof (rule wp_mono [OF alloc_pages_wp [OF inv W room]], goal_cases)
    case (1 ids t)
    then obtain m where ids: "ids = map (\<lambda>i. next_page_id s + word_of_nat i) [0..<n]"
      and m: "updates w s m t" "dom m = set ids" and g: "grown s n t" and nt: "next_page_id t = next_page_id s + word_of_nat n"
      by auto
    note c = consecutive_ids [OF room_n ids]
    have ids_ok: "q < next_page_id t \<and> is_dirty t q \<and> body_at w t q \<noteq> None" if "q \<in> set ids" for q
    proof -
      have "q \<in> dom m" using that unfolding m(2) .
      then obtain b where "m q = Some b" by (auto simp: dom_def)
      then show ?thesis using c(2) [OF that] updates_written [OF m(1), of q b] nt by simp
    qed
    have len: "length ids = n" by (simp add: ids)
    have nz: "0 \<notin> set ids" using c(2) [of 0] pos by auto
    have ne: "ids \<noteq> []" using div_ceil_step [OF v(1)] n len by auto
    have big: "length v \<le> unat (next_page_id t) * 8152"
    proof -
      have "length v \<le> n * 8152" unfolding n div_ceil_def using div_mult_mod_eq [of "length v + 8151" 8152] by linarith
      also have "\<dots> \<le> unat (next_page_id t) * 8152" using c(3) nt by simp
      finally show ?thesis .
    qed
    show ?case
      unfolding wp_and_then
    proof (rule wp_mono [OF overflow_fill_wp [OF updates_inv [OF m(1)] W c(1) ids_ok]], goal_cases)
      case (1 q)
      then show ?case .
    next
      case (2 a u)
      then obtain m' where m': "updates w t m' u" "dom m' \<subseteq> set ids" and g': "grown t n u"
        and nu: "next_page_id u = next_page_id t" and ru: "set ids \<inter> raw w u = {}"
        and pages: "\<And>j. j < length ids \<Longrightarrow> \<exists>b. body_at w u (ids ! j) = Some b \<and>
          chain_page b (length v) (if j + 1 < length ids then ids ! (j + 1) else 0) (take 8152 (drop (j * 8152) v))"
        unfolding len by blast
      have ch: "chain (body_at w u) (length v) ids v"
        using pages by (intro chainI) (use len n v nz in auto)
      have dd: "is_dirty u q" if "q \<in> set ids" for q
      proof -
        have "is_dirty u = (\<lambda>p. is_dirty t p \<or> p \<in> dom m')" using m'(1) unfolding updates_def by blast
        then show ?thesis using ids_ok [OF that] by simp
      qed
      have rd: "readable w u q" if q: "q \<in> set ids" for q
      proof -
        obtain j where "j < length ids" "q = ids ! j" using q by (auto simp: in_set_conv_nth)
        then show ?thesis using pages [of j] dd [OF q] dirty_readable by blast
      qed
      have "chain_at w u (ids ! 0) ids v"
        using ch rd ne big nu v(2) by (simp add: chain_at_def hd_conv_nth)
      moreover have "updates w s (m ++ m') u" "dom (m ++ m') = set ids"
        using updates_trans [OF m(1) m'(1)] m(2) m'(2) by auto
      ultimately have "\<exists>l. chain_at w u (ids ! 0) l v \<and> distinct l \<and>
          (\<forall>q \<in> set l. next_page_id s \<le> q \<and> is_dirty u q) \<and> (\<exists>m. updates w s m u \<and> dom m = set l)"
        using c(1,2) dd by blast
      moreover have "raw w t \<subseteq> raw w s \<union> set ids" "raw w u \<subseteq> raw w t \<union> dom m'" using updates_raw [OF m(1)] updates_raw [OF m'(1)] m(2) by simp_all
      then have raw: "raw w u \<subseteq> raw w s" using ru m'(2) by blast
      ultimately show ?case
        unfolding wp_ok using grown_trans [OF g g'] nu nt raw by (simp add: mult_2)
    next
      case (3 e u)
      then show ?case using fails_later [OF g] len by (simp add: mult_2)
    qed
  next
    case (2 e t)
    then show ?case by (rule fails_mono) simp
  qed
  then show ?thesis using v n by (simp add: overflow_write_def wp_simps Let_def)
qed

section \<open>Reading a chain\<close>

lemma chain_at_quiet: "chain_at w s p ids v \<Longrightarrow> quiet w s t \<Longrightarrow> chain_at w t p ids v"
  by (simp add: chain_at_def quiet_body quiet_readable) (simp add: quiet_def same_store_def)

text \<open>The fields a page buffer shows are those of its body.\<close>

lemma body_fields:
  assumes "page_ok buf" and "page_body buf = b"
  shows "buf ! 0 = b ! 0" and "get_u64 16 buf = get_u64 16 b" and "get_u64 24 buf = get_u64 24 b"
    and "n \<le> 8152 \<Longrightarrow> get_bytes 32 n buf = get_bytes 32 n b"
  unfolding assms(2) [symmetric] by (simp_all add: get_uint_take get_bytes_take)

text \<open>A walk along a chain reads one page at a time: it fails as one read does, however long the chain.\<close>

definition loop_fails :: "world \<Rightarrow> page_cache \<Rightarrow> nat \<Rightarrow> chisel_error \<Rightarrow> page_cache \<Rightarrow> bool" where
  "loop_fails w s k e t \<longleftrightarrow> fails w s k e t \<and> read_fails w s e t"

lemma loop_fails_later: "grown s j t \<Longrightarrow> quiet w s t \<Longrightarrow> loop_fails w t k e u \<Longrightarrow> loop_fails w s (j + k) e u"
  by (simp add: loop_fails_def fails_later read_fails_later)

lemma loop_fails_mono: "loop_fails w s j e t \<Longrightarrow> j \<le> k \<Longrightarrow> loop_fails w s k e t"
  using fails_mono by (auto simp: loop_fails_def)

lemma loop_fails_calm: "no_faults w \<Longrightarrow> calm s k \<Longrightarrow> loop_fails w s k e t \<Longrightarrow> False"
  by (auto simp: loop_fails_def dest: fails_calm)

lemma loop_get_wp:
  assumes "pc_inv w s" and "world_ok w" and "body_at w s p = Some b" and "readable w s p"
  shows "wp (pc_get w p) (\<lambda>buf t. quiet w s t \<and> grown s 1 t \<and> page_ok buf \<and> page_body buf = b) (loop_fails w s 0) s"
  by (rule wp_mono [OF wp_conj [OF store_get_wp [OF assms] store_read_wp [OF assms]]]) (auto simp: loop_fails_def)

lemma overflow_length_wp:
  assumes inv: "pc_inv w s" and W: "world_ok w" and c: "chain_at w s p ids v"
  shows "wp (overflow_length w p) (\<lambda>n t. n = length v \<and> quiet w s t \<and> grown s 1 t) (loop_fails w s 0) s"
proof -
  obtain ps where ids: "ids = p # ps" using c by (cases ids) (auto simp: chain_at_def)
  then obtain b where b: "body_at w s p = Some b" "chain_page b (length v) (next_of ps) (take 8152 v)"
    and r: "readable w s p" and ne: "v \<noteq> []" and big: "length v \<le> unat (next_page_id s) * 8152" "length v < 2 ^ 64"
    using c by (auto simp: chain_at_def)
  have len: "unat (word_of_nat (length v) :: u64) = length v" using big(2) by (simp add: unat_of_nat)
  have ceil: "length v \<le> unat (saturating_mul (next_page_id s) (word_of_nat 8152))"
    using big by (simp add: unat_saturating_mul)
  show ?thesis
    unfolding overflow_length_def wp_and_then
  proof (rule wp_mono [OF loop_get_wp [OF inv W b(1) r]], goal_cases)
    case (1 buf t)
    then have "next_page_id t = next_page_id s" by (simp add: quiet_def same_store_def)
    then show ?case
      using 1 body_fields [of buf b] b(2) len ceil ne
      by (simp add: wp_simps chain_page_def Let_def)
  qed
qed

lemma overflow_read_loop_wp:
  assumes W: "world_ok w"
  shows "pc_inv w s \<Longrightarrow> chain (body_at w s) tlen ps v \<Longrightarrow> (\<And>q. q \<in> set ps \<Longrightarrow> readable w s q) \<Longrightarrow>
    length r + length v = tlen \<Longrightarrow> length ps \<le> left \<Longrightarrow>
    wp (overflow_read_loop w first tlen left (hd ps) r)
      (\<lambda>x t. x = r @ v \<and> quiet w s t \<and> grown s (length ps) t) (loop_fails w s (length ps)) s"
proof (induction ps arbitrary: s v r left)
  case (Cons p ps)
  from Cons.prems(2) obtain b where b: "body_at w s p = Some b" "chain_page b tlen (next_of ps) (take 8152 v)"
    and ne: "v \<noteq> []" by auto
  obtain l where l: "left = Suc l" using Cons.prems(5) by (cases left) auto
  have rem: "tlen - length r = length v" using Cons.prems(4) by simp
  have ch: "get_bytes 32 (min (length v) 8152) b = take 8152 v"
    using b(2) by (simp add: chain_page_def min.commute)
  have "wp (pc_get w p) (\<lambda>buf. wp (if buf ! 0 \<noteq> page_type_tag Overflow then err (CorruptPage p)
        else let next_page = get_u64 24 buf; remaining = tlen - length r
          in if remaining = 0 then err (CorruptPage p)
             else let chunk_len = min remaining OVERFLOW_PAYLOAD; result = r @ get_bytes OVERFLOW_HEADER_END chunk_len buf
                  in if next_page = 0 then ok result else overflow_read_loop w first tlen l next_page result)
      (\<lambda>x t. x = r @ v \<and> quiet w s t \<and> grown s (length (p # ps)) t) (loop_fails w s (length (p # ps))))
      (loop_fails w s (length (p # ps))) s"
  proof (rule wp_mono [OF loop_get_wp [OF Cons.prems(1) W b(1)]], goal_cases)
    case 1
    then show ?case using Cons.prems(3) by simp
  next
    case (2 buf t)
    then have q: "quiet w s t" and g: "grown s 1 t" and buf: "page_ok buf" "page_body buf = b" by auto
    note f = body_fields [OF buf]
    have fields: "buf ! 0 = page_type_tag Overflow" "get_u64 24 buf = next_of ps"
      "get_bytes 32 (min (length v) 8152) buf = take 8152 v"
      using f(1,3) f(4) [of "min (length v) 8152"] b(2) ch by (simp_all add: chain_page_def)
    show ?case
    proof (cases "length v \<le> 8152")
      case True
      then have "ps = []" using Cons.prems(2) by simp
      then show ?thesis using fields q g True rem ne by (simp add: wp_simps Let_def)
    next
      case False
      then have nz: "next_of ps \<noteq> 0" and c': "chain (body_at w s) tlen ps (drop 8152 v)" using Cons.prems(2) by auto
      then have hd: "next_of ps = hd ps" by (cases ps) auto
      have "wp (overflow_read_loop w first tlen l (hd ps) (r @ take 8152 v))
          (\<lambda>x u. x = (r @ take 8152 v) @ drop 8152 v \<and> quiet w t u \<and> grown t (length ps) u) (loop_fails w t (length ps)) t"
      proof (rule Cons.IH)
        show "pc_inv w t" using q by (simp add: quiet_def)
        show "chain (body_at w t) tlen ps (drop 8152 v)" using c' quiet_body [OF q] by simp
        show "length (r @ take 8152 v) + length (drop 8152 v) = tlen" using Cons.prems(4) False by simp
        show "length ps \<le> l" using Cons.prems(5) l by simp
        show "readable w t q'" if "q' \<in> set ps" for q' using that Cons.prems(3) quiet_readable [OF q] by simp
      qed
      then have "wp (overflow_read_loop w first tlen l (hd ps) (r @ take 8152 v))
          (\<lambda>x u. x = r @ v \<and> quiet w s u \<and> grown s (length (p # ps)) u) (loop_fails w s (length (p # ps))) t"
        by (rule wp_mono) (use quiet_trans [OF q] grown_trans [OF g] loop_fails_later [OF g q] in fastforce)+
      then show ?thesis
        using fields nz rem ne hd False by (simp add: Let_def)
    qed
  next
    case (3 e t)
    then show ?case by (rule loop_fails_mono) simp
  qed
  then show ?case by (simp add: l wp_and_then)
qed simp

lemma overflow_read_wp:
  assumes inv: "pc_inv w s" and W: "world_ok w" and c: "chain_at w s p ids v"
  shows "wp (overflow_read w p) (\<lambda>x t. x = v \<and> quiet w s t) (loop_fails w s (Suc (length ids))) s"
  unfolding overflow_read_def wp_and_then
proof (rule wp_mono [OF overflow_length_wp [OF inv W c]], goal_cases)
  case (1 n t)
  then have q: "quiet w s t" and g: "grown s 1 t" and n: "n = length v" by auto
  note c' = chain_at_quiet [OF c q]
  have ch: "chain (body_at w t) (length v) ids v" and rd: "\<And>q. q \<in> set ids \<Longrightarrow> readable w t q" and p: "p = hd ids"
    using c' by (auto simp: chain_at_def)
  have left: "length ids \<le> div_ceil (length v) 8152" using chain_length [OF ch] by simp
  have "wp (overflow_read_loop w p (length v) (div_ceil (length v) 8152) (hd ids) [])
      (\<lambda>x u. x = [] @ v \<and> quiet w t u \<and> grown t (length ids) u) (loop_fails w t (length ids)) t"
    by (rule overflow_read_loop_wp [OF W _ ch rd _ left]) (use q in \<open>simp_all add: quiet_def\<close>)
  then show ?case
    unfolding n Let_def wp_and_then
    by (simp add: p [symmetric]) (rule wp_mono, assumption,
      use quiet_trans [OF q] loop_fails_later [OF g q] in \<open>auto simp: wp_simps\<close>)
next
  case (2 e t)
  then show ?case by (rule loop_fails_mono) simp
qed

lemma collect_loop_wp:
  assumes W: "world_ok w"
  shows "pc_inv w s \<Longrightarrow> chain (body_at w s) tlen ps v \<Longrightarrow> (\<And>q. q \<in> set ps \<Longrightarrow> readable w s q) \<Longrightarrow> length ps \<le> left \<Longrightarrow>
    wp (collect_loop w first left (hd ps) freed)
      (\<lambda>x t. x = freed @ ps \<and> quiet w s t \<and> grown s (length ps) t) (loop_fails w s (length ps)) s"
proof (induction ps arbitrary: s v freed left)
  case (Cons p ps)
  from Cons.prems(2) obtain b where b: "body_at w s p = Some b" "chain_page b tlen (next_of ps) (take 8152 v)" by auto
  obtain l where l: "left = Suc l" using Cons.prems(4) by (cases left) auto
  have "wp (pc_get w p) (\<lambda>buf. wp (if buf ! 0 \<noteq> page_type_tag Overflow then err (CorruptPage p)
        else let next_page = get_u64 24 buf; freed = freed @ [p]
          in if next_page = 0 then ok freed else collect_loop w first l next_page freed)
      (\<lambda>x t. x = freed @ p # ps \<and> quiet w s t \<and> grown s (length (p # ps)) t) (loop_fails w s (length (p # ps))))
      (loop_fails w s (length (p # ps))) s"
  proof (rule wp_mono [OF loop_get_wp [OF Cons.prems(1) W b(1)]], goal_cases)
    case 1
    then show ?case using Cons.prems(3) by simp
  next
    case (2 buf t)
    then have q: "quiet w s t" and g: "grown s 1 t" and buf: "page_ok buf" "page_body buf = b" by auto
    have fields: "buf ! 0 = page_type_tag Overflow" "get_u64 24 buf = next_of ps"
      using body_fields [OF buf] b(2) by (simp_all add: chain_page_def)
    show ?case
    proof (cases "length v \<le> 8152")
      case True
      then have "ps = []" using Cons.prems(2) by simp
      then show ?thesis using fields q g by (simp add: wp_simps Let_def)
    next
      case False
      then have nz: "next_of ps \<noteq> 0" and c': "chain (body_at w s) tlen ps (drop 8152 v)" using Cons.prems(2) by auto
      then have hd: "next_of ps = hd ps" by (cases ps) auto
      have "wp (collect_loop w first l (hd ps) (freed @ [p]))
          (\<lambda>x u. x = (freed @ [p]) @ ps \<and> quiet w t u \<and> grown t (length ps) u) (loop_fails w t (length ps)) t"
        using Cons.prems(3,4) l q c' quiet_body [OF q] quiet_readable [OF q]
        by (intro Cons.IH) (auto simp: quiet_def)
      then have "wp (collect_loop w first l (hd ps) (freed @ [p]))
          (\<lambda>x u. x = freed @ p # ps \<and> quiet w s u \<and> grown s (length (p # ps)) u) (loop_fails w s (length (p # ps))) t"
        by (rule wp_mono) (use quiet_trans [OF q] grown_trans [OF g] loop_fails_later [OF g q] in fastforce)+
      then show ?thesis using fields nz hd by (simp add: Let_def)
    qed
  next
    case (3 e t)
    then show ?case by (rule loop_fails_mono) simp
  qed
  then show ?case by (simp add: l wp_and_then)
qed simp

lemma collect_chain_pages_wp:
  assumes inv: "pc_inv w s" and W: "world_ok w" and c: "chain_at w s p ids v"
  shows "wp (collect_chain_pages w p) (\<lambda>x t. x = ids \<and> quiet w s t) (loop_fails w s (Suc (length ids))) s"
  unfolding collect_chain_pages_def wp_and_then
proof (rule wp_mono [OF overflow_length_wp [OF inv W c]], goal_cases)
  case (1 n t)
  then have q: "quiet w s t" and g: "grown s 1 t" and n: "n = length v" by auto
  note c' = chain_at_quiet [OF c q]
  have ch: "chain (body_at w t) (length v) ids v" and rd: "\<And>q. q \<in> set ids \<Longrightarrow> readable w t q" and p: "p = hd ids"
    using c' by (auto simp: chain_at_def)
  have left: "length ids \<le> div_ceil (length v) 8152" using chain_length [OF ch] by simp
  have inv': "pc_inv w t" using q by (simp add: quiet_def)
  show ?case
    using collect_loop_wp [OF W inv' ch rd left, of p "[]"] unfolding n
    by (simp add: p [symmetric]) (rule wp_mono, assumption, use quiet_trans [OF q] loop_fails_later [OF g q] in auto)
next
  case (2 e t)
  then show ?case by (rule loop_fails_mono) simp
qed

section \<open>Reading anything: no panic, no hang, bounded memory\<close>

lemma get_any_wp:
  assumes inv: "pc_inv w s" and W: "world_ok w"
  shows "wp (pc_get w p) (\<lambda>b t. quiet w s t \<and> page_ok b) (\<lambda>e t. pc_wf w t) s"
  by (rule wp_mono [OF pc_get_wp [OF inv W]])
    (auto simp: get_fail_def evict_fail_def quiet_def pc_inv_def)

lemma quiet_wf: "quiet w s t \<Longrightarrow> pc_wf w t"
  by (simp add: quiet_def pc_inv_def)

lemma overflow_read_loop_safe:
  assumes W: "world_ok w"
  shows "pc_inv w s \<Longrightarrow> wp (overflow_read_loop w first tlen left p r) (\<lambda>_ t. quiet w s t) (\<lambda>e t. pc_wf w t) s"
proof (induction left arbitrary: s p r)
  case 0
  then show ?case by (simp add: wp_simps pc_inv_def)
next
  case (Suc left)
  show ?case
    unfolding overflow_read_loop.simps wp_and_then
  proof (rule wp_mono [OF get_any_wp [OF Suc.prems W]], goal_cases)
    case (1 buf t)
    then have q: "quiet w s t" by simp
    have inv: "pc_inv w t" using q by (simp add: quiet_def)
    have "wp (overflow_read_loop w first tlen left p' r') (\<lambda>_ u. quiet w s u) (\<lambda>e u. pc_wf w u) t" for p' r'
      by (rule wp_mono [OF Suc.IH [OF inv]]) (auto intro: quiet_trans [OF q])
    then show ?case using q quiet_wf [OF q] by (simp add: wp_simps Let_def)
  qed
qed

lemma overflow_read_safe:
  assumes inv: "pc_inv w s" and W: "world_ok w"
  shows "wp (overflow_read w p) (\<lambda>v t. quiet w s t \<and> v \<noteq> [] \<and> length v \<le> unat (next_page_id s) * 8152) (\<lambda>e t. pc_wf w t) s"
proof -
  have len: "wp (overflow_length w p) (\<lambda>n t. quiet w s t \<and> 0 < n \<and> n \<le> unat (next_page_id s) * 8152) (\<lambda>e t. pc_wf w t) s"
    unfolding overflow_length_def wp_and_then
  proof (rule wp_mono [OF get_any_wp [OF inv W]], goal_cases)
    case (1 buf t)
    then have q: "quiet w s t" and "next_page_id t = next_page_id s" by (auto simp: quiet_def same_store_def)
    then show ?case using quiet_wf [OF q] by (auto simp: wp_simps Let_def unat_saturating_mul not_less)
  qed
  show ?thesis
    unfolding overflow_read_def wp_and_then
  proof (rule wp_mono [OF len], goal_cases)
    case (1 n t)
    then have q: "quiet w s t" and n: "0 < n" "n \<le> unat (next_page_id s) * 8152" by auto
    have inv': "pc_inv w t" using q by (simp add: quiet_def)
    show ?case
      unfolding Let_def wp_and_then
      by (rule wp_mono [OF overflow_read_loop_safe [OF W inv']])
        (use n quiet_trans [OF q] in \<open>auto simp: wp_simps intro: quiet_wf\<close>)
  qed
qed

section \<open>Properties\<close>

text \<open>
  C17. Round trip of a large value: with room for the pages, writing a non-empty value succeeds and
  reading the returned page gives exactly the value back. The chain lies in pages the write
  allocated, distinct and new, so every page that existed before keeps its body; walking the chain
  to free it lists exactly those pages.
\<close>

theorem overflow_roundtrip:
  assumes inv: "pc_inv w s" and W: "world_ok w" and nf: "no_faults w" and v: "v \<noteq> []" "length v < 2 ^ 64"
    and n: "n = div_ceil (length v) OVERFLOW_PAYLOAD" and room: "id_room s n" and pos: "0 < next_page_id s"
    and calm: "calm s (3 * n + 1)"
  shows "\<exists>p t. overflow_write w v s = (Ok p, t) \<and> pc_inv w t \<and>
    (\<forall>q. q < next_page_id s \<longrightarrow> body_at w t q = body_at w s q) \<and>
    (\<exists>u. overflow_read w p t = (Ok v, u) \<and> quiet w t u) \<and>
    (\<exists>ids u. collect_chain_pages w p t = (Ok ids, u) \<and> quiet w t u \<and> length ids = n \<and> distinct ids \<and>
       (\<forall>q \<in> set ids. next_page_id s \<le> q \<and> q < next_page_id t))"
proof -
  have "n = div_ceil (length v) 8152" and "id_room s (n + 0)" using n room by simp_all
  note wr = overflow_write_wp [OF inv W v this pos]
  have calm2: "calm s (2 * n)" using calm by (simp add: calm_def)
  obtain p t ids m where run: "overflow_write w v s = (Ok p, t)" and c: "chain_at w t p ids v" and d: "distinct ids"
    and new: "\<And>q. q \<in> set ids \<Longrightarrow> next_page_id s \<le> q \<and> is_dirty t q" and m: "updates w s m t" "dom m = set ids"
    and g: "grown s (2 * n) t"
    by (rule wp_total [OF wr fails_calm [OF nf calm2]]) auto
  have invt: "pc_inv w t" using m(1) by (rule updates_inv)
  have len: "length ids = n" using c chain_length n by (auto simp: chain_at_def)
  have calmt: "calm t (Suc (length ids))" using g calm len by (simp add: grown_def calm_def)
  obtain u where rd: "overflow_read w p t = (Ok v, u)" "quiet w t u"
    by (rule wp_total [OF overflow_read_wp [OF invt W c] loop_fails_calm [OF nf calmt]]) auto
  obtain u' where col: "collect_chain_pages w p t = (Ok ids, u')" "quiet w t u'"
    by (rule wp_total [OF collect_chain_pages_wp [OF invt W c] loop_fails_calm [OF nf calmt]]) auto
  have old: "body_at w t q = body_at w s q" if "q < next_page_id s" for q
  proof -
    have "q \<notin> dom m" using that new [of q] m(2) by auto
    then show ?thesis using m(1) by (simp add: updates_def map_add_dom_app_simps)
  qed
  have "q < next_page_id t" if "q \<in> set ids" for q
    using new [OF that] invt dirty_below by blast
  then show ?thesis using run invt old rd col len d new by blast
qed

theorem overflow_roundtrip_witness:
  "\<exists>p t u. overflow_write toy_world [1, 2, 3] sample_one = (Ok p, t) \<and> overflow_read toy_world p t = (Ok [1, 2, 3], u)"
proof -
  have "id_room sample_one 1" "0 < next_page_id sample_one" "calm sample_one (3 * 1 + 1)"
    using sample_one by (simp_all add: id_room_def calm_def)
  from overflow_roundtrip [OF sample_one(1) toy_world_ok toy_world_no_faults _ _ _ this, of "[1, 2, 3]"]
  show ?thesis by (auto simp: div_ceil_def)
qed

text \<open>
  C30. Reading a chain of arbitrary contents is safe: no panic, and a result, when there is one, is
  never longer than the pages of the file can hold, so a forged length cannot make the reader
  allocate without bound; a cycle or a short chain is an error. The recursion is bounded by the
  stored length.
\<close>

theorem overflow_read_is_bounded:
  assumes "pc_inv w s" and "world_ok w"
  shows "wp (overflow_read w p)
    (\<lambda>v t. quiet w s t \<and> v \<noteq> [] \<and> length v \<le> unat (next_page_id s) * OVERFLOW_PAYLOAD) (\<lambda>e t. pc_wf w t) s"
  using overflow_read_safe [OF assms] by simp

theorem overflow_read_is_bounded_witness:
  "wp (overflow_read toy_world 0) (\<lambda>v t. length v \<le> 8152) (\<lambda>e t. pc_wf toy_world t) sample_one"
  by (rule wp_mono [OF overflow_read_is_bounded [OF sample_one(1) toy_world_ok]]) (auto simp: sample_one)

end
