(* ===== verification/Data_Page.thy ===== *)
theory Data_Page
  imports Page_Format
begin

text \<open>
  The slotted data page of \<open>src/src/data_page.rs\<close>. A page buffer holds a slot directory that
  grows forward from byte 16 and packed values that grow backward from the checksum. The model is
  at the byte level; \<open>usize\<close> arithmetic that the code checks with \<open>checked_add\<close> cannot overflow
  for these magnitudes and is plain \<open>nat\<close> arithmetic.
\<close>

section \<open>Definitions\<close>

definition SLOT_ENTRY_SIZE :: nat where
  [simp]: "SLOT_ENTRY_SIZE = 6"

definition SLOT_FLAG_LIVE :: u16 where
  [simp]: "SLOT_FLAG_LIVE = 1"

definition data_page_init_page :: "page \<Rightarrow> page" where
  "data_page_init_page buf =
     (let b0 = replicate (length buf) 0;
          b1 = b0[0 := page_type_tag Data];
          b2 = b1[1 := current_version Data];
          b3 = put_u16 4 (word_of_nat DATA_PAGE_HEADER_SIZE) b2
      in put_u16 6 (word_of_nat CHECKSUM_OFFSET) b3)"

definition data_page_slot_count :: "page \<Rightarrow> u16" where
  "data_page_slot_count buf = get_u16 2 buf"

definition validate_header :: "page \<Rightarrow> (nat \<times> nat \<times> u16) option" where
  "validate_header buf =
     (if buf ! 0 \<noteq> page_type_tag Data then None
      else let slot_count = get_u16 2 buf;
               free_start = unat (get_u16 4 buf);
               free_end = unat (get_u16 6 buf)
           in if free_start < DATA_PAGE_HEADER_SIZE then None
              else if CHECKSUM_OFFSET < free_end then None
              else if free_end < free_start then None
              else let dir_end = DATA_PAGE_HEADER_SIZE + unat slot_count * SLOT_ENTRY_SIZE
                   in if free_start < dir_end then None
                      else Some (free_start, free_end, slot_count))"

definition data_page_free_space :: "page \<Rightarrow> nat" where
  "data_page_free_space buf =
     (case validate_header buf of
        Some (free_start, free_end, _) \<Rightarrow> free_end - free_start
      | None \<Rightarrow> 0)"

definition data_page_insert :: "page \<Rightarrow> u8 list \<Rightarrow> (u16 \<times> page) option" where
  \<comment> \<open>the slot index and the mutated buffer; on \<open>None\<close> the buffer is untouched\<close>
  "data_page_insert buf value =
     (case validate_header buf of
        None \<Rightarrow> None
      | Some (free_start, free_end, slot_count) \<Rightarrow>
          let needed = SLOT_ENTRY_SIZE + length value
          in if free_end - free_start < needed then None
             else let data_offset = free_end - length value;
                      b1 = put_bytes data_offset value buf;
                      slot_offset = free_start;
                      b2 = put_u16 slot_offset (word_of_nat data_offset) b1;
                      b3 = put_u16 (slot_offset + 2) (word_of_nat (length value)) b2;
                      b4 = put_u16 (slot_offset + 4) SLOT_FLAG_LIVE b3;
                      b5 = put_u16 2 (slot_count + 1) b4;
                      b6 = put_u16 4 (word_of_nat (free_start + SLOT_ENTRY_SIZE)) b5;
                      b7 = put_u16 6 (word_of_nat data_offset) b6
                  in Some (slot_count, b7))"

definition read_slot_entry :: "page \<Rightarrow> u16 \<Rightarrow> (nat \<times> nat \<times> u16) option" where
  "read_slot_entry buf slot =
     (let base = DATA_PAGE_HEADER_SIZE + unat slot * SLOT_ENTRY_SIZE
      in if CHECKSUM_OFFSET < base + SLOT_ENTRY_SIZE then None
         else let offset = unat (get_u16 base buf);
                  len = unat (get_u16 (base + 2) buf);
                  flags = get_u16 (base + 4) buf
              in if offset < DATA_PAGE_HEADER_SIZE then None
                 else if CHECKSUM_OFFSET < offset + len then None
                 else Some (offset, len, flags))"

definition data_page_read :: "page \<Rightarrow> u16 \<Rightarrow> u8 list option" where
  "data_page_read buf slot =
     (case validate_header buf of
        None \<Rightarrow> None
      | Some (_, _, slot_count) \<Rightarrow>
          if slot_count \<le> slot then None
          else (case read_slot_entry buf slot of
                  None \<Rightarrow> None
                | Some (offset, len, flags) \<Rightarrow>
                    if flags \<noteq> SLOT_FLAG_LIVE then None
                    else Some (get_bytes offset len buf)))"

text \<open>
  The two directory walks, test-only in the code: a slot entry that does not parse empties the
  result.
\<close>

fun used_space_loop :: "page \<Rightarrow> nat \<Rightarrow> nat \<Rightarrow> nat \<Rightarrow> nat \<Rightarrow> nat" where
  "used_space_loop buf i 0 data_bytes live_slots = live_slots * SLOT_ENTRY_SIZE + data_bytes"
| "used_space_loop buf i (Suc n) data_bytes live_slots =
     (case read_slot_entry buf (word_of_nat i) of
        None \<Rightarrow> 0
      | Some (_, len, flags) \<Rightarrow>
          if flags = SLOT_FLAG_LIVE
          then used_space_loop buf (Suc i) n (data_bytes + len) (live_slots + 1)
          else used_space_loop buf (Suc i) n data_bytes live_slots)"

definition data_page_used_space :: "page \<Rightarrow> nat" where
  "data_page_used_space buf =
     (case validate_header buf of
        None \<Rightarrow> 0
      | Some (_, _, count) \<Rightarrow> used_space_loop buf 0 (unat count) 0 0)"

fun iter_live_loop :: "page \<Rightarrow> nat \<Rightarrow> nat \<Rightarrow> (u16 \<times> u8 list) list \<Rightarrow> (u16 \<times> u8 list) list" where
  "iter_live_loop buf i 0 result = result"
| "iter_live_loop buf i (Suc n) result =
     (case read_slot_entry buf (word_of_nat i) of
        None \<Rightarrow> []
      | Some (offset, len, flags) \<Rightarrow>
          if flags = SLOT_FLAG_LIVE
          then iter_live_loop buf (Suc i) n (result @ [(word_of_nat i, get_bytes offset len buf)])
          else iter_live_loop buf (Suc i) n result)"

definition data_page_iter_live :: "page \<Rightarrow> (u16 \<times> u8 list) list" where
  "data_page_iter_live buf =
     (case validate_header buf of
        None \<Rightarrow> []
      | Some (_, _, count) \<Rightarrow> iter_live_loop buf 0 (unat count) [])"

section \<open>The contract of a slotted page\<close>

text \<open>
  What the packing layer relies on: a page abstracts to the list of values stored in it, a fresh
  page holds none, an insertion appends and returns the new value's index, and reading index
  \<open>i\<close> gives the \<open>i\<close>-th value for as long as the page lives.
\<close>

locale slotted_page =
  fixes init :: "page \<Rightarrow> page"
    and ins :: "page \<Rightarrow> u8 list \<Rightarrow> (u16 \<times> page) option"
    and rd :: "page \<Rightarrow> u16 \<Rightarrow> u8 list option"
    and room :: "page \<Rightarrow> nat"
    and overhead :: nat
    and vals :: "page \<Rightarrow> u8 list list"
    and invar :: "page \<Rightarrow> bool"
  assumes init_invar: "page_ok buf \<Longrightarrow> invar (init buf)"
    and init_vals: "page_ok buf \<Longrightarrow> vals (init buf) = []"
    and init_room: "page_ok buf \<Longrightarrow> room (init buf) = PAGE_BODY_SIZE"
    and ins_iff: "invar buf \<Longrightarrow> (ins buf v = None) \<longleftrightarrow> room buf < overhead + length v"
    and ins_invar: "invar buf \<Longrightarrow> ins buf v = Some (i, buf') \<Longrightarrow> invar buf'"
    and ins_slot: "invar buf \<Longrightarrow> ins buf v = Some (i, buf') \<Longrightarrow> unat i = length (vals buf)"
    and ins_vals: "invar buf \<Longrightarrow> ins buf v = Some (i, buf') \<Longrightarrow> vals buf' = vals buf @ [v]"
    and ins_room: "invar buf \<Longrightarrow> ins buf v = Some (i, buf') \<Longrightarrow>
      room buf' = room buf - (overhead + length v)"
    and rd_vals: "invar buf \<Longrightarrow>
      rd buf i = (if unat i < length (vals buf) then Some (vals buf ! unat i) else None)"
begin

fun ins_all :: "page \<Rightarrow> u8 list list \<Rightarrow> (u16 list \<times> page) option" where
  "ins_all buf [] = Some ([], buf)"
| "ins_all buf (v # vs) =
     (case ins buf v of
        None \<Rightarrow> None
      | Some (i, buf') \<Rightarrow> map_option (apfst (Cons i)) (ins_all buf' vs))"

lemma ins_all_vals:
  "invar buf \<Longrightarrow> ins_all buf vs = Some (is, buf') \<Longrightarrow>
   invar buf' \<and> vals buf' = vals buf @ vs \<and> map unat is = [length (vals buf)..<length (vals buf')]"
proof (induction buf vs arbitrary: "is" buf' rule: ins_all.induct)
  case (1 buf)
  then show ?case by simp
next
  case (2 buf v vs)
  then obtain i b js where i: "ins buf v = Some (i, b)" and js: "ins_all b vs = Some (js, buf')"
    and eq: "is = i # js"
    by (auto split: option.splits)
  have b: "invar b" "vals b = vals buf @ [v]" "unat i = length (vals buf)"
    using ins_invar ins_vals ins_slot "2.prems"(1) i by auto
  have rest: "invar buf' \<and> vals buf' = vals b @ vs \<and>
      map unat js = [length (vals b)..<length (vals buf')]"
    using "2.IH" i b(1) js by auto
  then have "length (vals buf) < length (vals buf')" using b by simp
  then have "[length (vals buf)..<length (vals buf')] =
      length (vals buf) # [Suc (length (vals buf))..<length (vals buf')]"
    by (rule upt_conv_Cons)
  with rest b eq show ?case by auto
qed

lemma ins_all_fits:
  "invar buf \<Longrightarrow> (\<Sum>v\<leftarrow>vs. overhead + length v) \<le> room buf \<Longrightarrow> \<exists>is buf'. ins_all buf vs = Some (is, buf')"
proof (induction vs arbitrary: buf)
  case Nil
  then show ?case by simp
next
  case (Cons v vs)
  then have "ins buf v \<noteq> None" using ins_iff by auto
  then obtain i b where i: "ins buf v = Some (i, b)" by auto
  then have "invar b" and "(\<Sum>v\<leftarrow>vs. overhead + length v) \<le> room b"
    using Cons.prems ins_invar ins_room by auto
  then obtain js b' where "ins_all b vs = Some (js, b')" using Cons.IH by blast
  with i show ?case by auto
qed

lemma ins_stable:
  "invar buf \<Longrightarrow> ins buf v = Some (i, buf') \<Longrightarrow> rd buf j = Some w \<Longrightarrow> rd buf' j = Some w"
  using ins_invar ins_vals rd_vals by (auto simp: nth_append split: if_splits)

end

section \<open>The model satisfies it\<close>

definition data_page_ok :: "page \<Rightarrow> bool" where
  \<comment> \<open>the invariants of the module header: a directory without gaps, all slots live, every payload
     inside the packed region\<close>
  "data_page_ok buf \<longleftrightarrow> page_ok buf \<and>
     (case validate_header buf of
        None \<Rightarrow> False
      | Some (fs, fe, n) \<Rightarrow> fs = 16 + unat n * 6 \<and>
          (\<forall>i < unat n. unat (get_u16 (16 + i * 6) buf) + unat (get_u16 (18 + i * 6) buf) \<le> 8184 \<and>
             fe \<le> unat (get_u16 (16 + i * 6) buf) \<and> get_u16 (20 + i * 6) buf = 1))"

definition data_page_values :: "page \<Rightarrow> u8 list list" where
  "data_page_values buf =
     map (\<lambda>i. get_bytes (unat (get_u16 (16 + i * 6) buf)) (unat (get_u16 (18 + i * 6) buf)) buf)
       [0..<unat (data_page_slot_count buf)]"

lemma data_page_okE:
  assumes "data_page_ok buf"
  obtains fs fe n where "page_ok buf" and "validate_header buf = Some (fs, fe, n)"
    and "fs = 16 + unat n * 6" and "fs \<le> fe" and "fe \<le> 8184" and "buf ! 0 = 2"
    and "get_u16 2 buf = n" and "unat (get_u16 4 buf) = fs" and "unat (get_u16 6 buf) = fe"
    and "\<And>i. i < unat n \<Longrightarrow>
      unat (get_u16 (16 + i * 6) buf) + unat (get_u16 (18 + i * 6) buf) \<le> 8184 \<and>
      fe \<le> unat (get_u16 (16 + i * 6) buf) \<and> get_u16 (20 + i * 6) buf = 1"
  using assms by (auto simp: data_page_ok_def validate_header_def Let_def split: option.splits if_splits)

lemma validate_headerI:
  assumes "buf ! 0 = 2" and "unat (get_u16 4 buf) = fs" and "unat (get_u16 6 buf) = fe"
    and "get_u16 2 buf = n" and "16 + unat n * 6 \<le> fs" and "fs \<le> fe" and "fe \<le> 8184"
  shows "validate_header buf = Some (fs, fe, n)"
  using assms by (simp add: validate_header_def Let_def)

lemma unat_u16_of_nat: "k < 65536 \<Longrightarrow> unat (word_of_nat k :: u16) = k"
  by (simp add: unat_of_nat)

lemma data_page_init:
  assumes "page_ok buf"
  shows "data_page_ok (data_page_init_page buf)"
    and "data_page_values (data_page_init_page buf) = []"
    and "data_page_free_space (data_page_init_page buf) = PAGE_BODY_SIZE"
proof -
  let ?b = "data_page_init_page buf"
  note d = data_page_init_page_def current_version_def Let_def
  have len: "page_ok ?b" using assms by (simp add: d)
  have g: "?b ! 0 = 2" "get_u16 2 ?b = 0" "get_u16 4 ?b = 16" "get_u16 6 ?b = 8184"
    using assms by (simp_all add: d byte_simps get_uint_replicate)
  then have v: "validate_header ?b = Some (16, 8184, 0)"
    by (intro validate_headerI) simp_all
  show "data_page_ok ?b" using len v by (simp add: data_page_ok_def)
  show "data_page_values ?b = []" using g by (simp add: data_page_values_def data_page_slot_count_def)
  show "data_page_free_space ?b = PAGE_BODY_SIZE" using v by (simp add: data_page_free_space_def)
qed

lemma data_page_insert_None:
  "data_page_ok buf \<Longrightarrow> data_page_insert buf v = None \<longleftrightarrow> data_page_free_space buf < 6 + length v"
  by (erule data_page_okE) (simp add: data_page_insert_def data_page_free_space_def Let_def)

text \<open>What one insertion writes, field by field.\<close>

lemma data_page_insert_fields:
  assumes ok: "data_page_ok buf" and ins: "data_page_insert buf v = Some (slot, buf')"
    and vh: "validate_header buf = Some (fs, fe, n)"
  defines "d \<equiv> fe - length v"
  shows "slot = n" and "page_ok buf'" and "buf' ! 0 = 2" and "fs + 6 + length v \<le> fe"
    and "get_u16 2 buf' = n + 1" and "unat (get_u16 4 buf') = fs + 6" and "unat (get_u16 6 buf') = d"
    and "get_u16 fs buf' = word_of_nat d" and "get_u16 (fs + 2) buf' = word_of_nat (length v)"
    and "get_u16 (fs + 4) buf' = 1" and "get_bytes d (length v) buf' = v"
    and "\<And>p k. 16 \<le> p \<Longrightarrow> p + k \<le> fs \<or> (fe \<le> p \<and> p + k \<le> 8184) \<Longrightarrow>
      get_bytes p k buf' = get_bytes p k buf"
proof -
  from ok vh have p: "page_ok buf" and fs: "fs = 16 + unat n * 6" and fe: "fs \<le> fe" "fe \<le> 8184"
    and b0: "buf ! 0 = 2"
    by (auto elim!: data_page_okE)
  from ins vh have fit: "6 + length v \<le> fe - fs" and slot: "slot = n"
    and b': "buf' = put_u16 6 (word_of_nat d) (put_u16 4 (word_of_nat (fs + 6)) (put_u16 2 (n + 1)
      (put_u16 (fs + 4) 1 (put_u16 (fs + 2) (word_of_nat (length v)) (put_u16 fs (word_of_nat d)
      (put_bytes d v buf))))))"
    by (auto simp: data_page_insert_def d_def Let_def split: if_splits)
  then have d: "d + length v = fe" "fs + 6 \<le> d" using fe by (auto simp: d_def)
  note arith = p fs fe d
  show "slot = n" by (rule slot)
  show "fs + 6 + length v \<le> fe" using fit fe by simp
  show "page_ok buf'" unfolding b' using arith by simp
  show "buf' ! 0 = 2" unfolding b' using arith b0 by (simp add: byte_simps nth_put_bytes_other)
  show "get_u16 2 buf' = n + 1" unfolding b' using arith by (simp add: byte_simps)
  show "unat (get_u16 4 buf') = fs + 6"
    unfolding b' using arith by (simp add: byte_simps unat_u16_of_nat del: of_nat_add)
  show "unat (get_u16 6 buf') = d" unfolding b' using arith by (simp add: byte_simps unat_u16_of_nat)
  show "get_u16 fs buf' = word_of_nat d" unfolding b' using arith by (simp add: byte_simps)
  show "get_u16 (fs + 2) buf' = word_of_nat (length v)" unfolding b' using arith by (simp add: byte_simps)
  show "get_u16 (fs + 4) buf' = 1" unfolding b' using arith by (simp add: byte_simps)
  show "get_bytes d (length v) buf' = v"
    unfolding b' using arith by (simp add: byte_simps get_put_bytes_same)
  show "get_bytes p k buf' = get_bytes p k buf"
    if "16 \<le> p" and "p + k \<le> fs \<or> (fe \<le> p \<and> p + k \<le> 8184)" for p k
    unfolding b' using arith that by (auto simp: byte_simps get_put_bytes_other)
qed


lemma data_page_insert_ok:
  assumes ok: "data_page_ok buf" and ins: "data_page_insert buf v = Some (slot, buf')"
  shows "data_page_ok buf'" and "data_page_values buf' = data_page_values buf @ [v]"
    and "unat slot = length (data_page_values buf)"
    and "data_page_free_space buf' = data_page_free_space buf - (6 + length v)"
proof -
  from ok obtain fs fe n where p: "page_ok buf" and vh: "validate_header buf = Some (fs, fe, n)"
    and fs: "fs = 16 + unat n * 6" and fe: "fs \<le> fe" "fe \<le> 8184" and n: "get_u16 2 buf = n"
    and old: "\<And>i. i < unat n \<Longrightarrow>
      unat (get_u16 (16 + i * 6) buf) + unat (get_u16 (18 + i * 6) buf) \<le> 8184 \<and>
      fe \<le> unat (get_u16 (16 + i * 6) buf) \<and> get_u16 (20 + i * 6) buf = 1"
    by (rule data_page_okE) auto
  note f = data_page_insert_fields [OF ok ins vh]
  let ?d = "fe - length v"
  have un: "unat (n + 1) = Suc (unat n)"
    using fs fe f(4) by (simp add: unat_word_ariths)
  have vh': "validate_header buf' = Some (fs + 6, ?d, n + 1)"
    using f fs fe un by (intro validate_headerI) auto
  have dir: "get_u16 p buf' = get_u16 p buf" if "16 \<le> p" "p + 2 \<le> fs" for p
    using f(12) [of p 2] that by (simp add: get_u16_def)
  have new: "unat (get_u16 fs buf') = ?d" "unat (get_u16 (fs + 2) buf') = length v"
    unfolding f(8,9) by (rule unat_u16_of_nat, use f(4) fe in simp)+
  have slots: "unat (get_u16 (16 + i * 6) buf') + unat (get_u16 (18 + i * 6) buf') \<le> 8184 \<and>
      ?d \<le> unat (get_u16 (16 + i * 6) buf') \<and> get_u16 (20 + i * 6) buf' = 1"
    if "i < Suc (unat n)" for i
  proof (cases "i = unat n")
    case True
    then have "16 + i * 6 = fs" "18 + i * 6 = fs + 2" "20 + i * 6 = fs + 4" using fs by auto
    then show ?thesis using new f(4,10) fe by auto
  next
    case False
    then have i: "i < unat n" using that by simp
    then have "16 + i * 6 + 6 \<le> fs" using fs by simp
    then show ?thesis using old [OF i] dir [of "16 + i * 6"] dir [of "18 + i * 6"] dir [of "20 + i * 6"]
      by auto
  qed
  show "data_page_ok buf'"
    unfolding data_page_ok_def using f(2) vh' slots un fs by auto
  have vals: "get_bytes (unat (get_u16 (16 + i * 6) buf')) (unat (get_u16 (18 + i * 6) buf')) buf' =
      get_bytes (unat (get_u16 (16 + i * 6) buf)) (unat (get_u16 (18 + i * 6) buf)) buf"
    if i: "i < unat n" for i
  proof -
    have "16 + i * 6 + 6 \<le> fs" using i fs by simp
    then show ?thesis
      using old [OF i] dir [of "16 + i * 6"] dir [of "18 + i * 6"] f(12) fe fs by simp
  qed
  have last: "get_bytes (unat (get_u16 (16 + unat n * 6) buf'))
      (unat (get_u16 (18 + unat n * 6) buf')) buf' = v"
    using new f(11) fs by (simp add: add.commute add.left_commute)
  show "data_page_values buf' = data_page_values buf @ [v]"
    using vals last un n f(5) by (simp add: data_page_values_def data_page_slot_count_def)
  show "unat slot = length (data_page_values buf)"
    using f(1) n by (simp add: data_page_values_def data_page_slot_count_def)
  show "data_page_free_space buf' = data_page_free_space buf - (6 + length v)"
    using vh vh' by (simp add: data_page_free_space_def)
qed

lemma data_page_read_values:
  assumes "data_page_ok buf"
  shows "data_page_read buf i =
    (if unat i < length (data_page_values buf) then Some (data_page_values buf ! unat i) else None)"
proof -
  from assms obtain fs fe n where vh: "validate_header buf = Some (fs, fe, n)"
    and fs: "fs = 16 + unat n * 6" and fe: "fs \<le> fe" "fe \<le> 8184" and n: "get_u16 2 buf = n"
    and old: "\<And>i. i < unat n \<Longrightarrow>
      unat (get_u16 (16 + i * 6) buf) + unat (get_u16 (18 + i * 6) buf) \<le> 8184 \<and>
      fe \<le> unat (get_u16 (16 + i * 6) buf) \<and> get_u16 (20 + i * 6) buf = 1"
    by (rule data_page_okE) auto
  have len: "length (data_page_values buf) = unat n"
    using n by (simp add: data_page_values_def data_page_slot_count_def)
  show ?thesis
  proof (cases "unat i < unat n")
    case True
    then have "n \<le> i \<longleftrightarrow> False" by (simp add: word_le_nat_alt)
    then show ?thesis
      using True old [OF True] vh len n fs fe
      by (simp add: data_page_read_def read_slot_entry_def Let_def data_page_values_def
          data_page_slot_count_def add.commute)
  next
    case False
    then have "n \<le> i" by (simp add: word_le_nat_alt)
    then show ?thesis using False vh len by (simp add: data_page_read_def)
  qed
qed

interpretation dp: slotted_page data_page_init_page data_page_insert data_page_read
  data_page_free_space SLOT_ENTRY_SIZE data_page_values data_page_ok
proof (unfold_locales, goal_cases)
  case (1 buf)
  then show ?case by (rule data_page_init)
next
  case (2 buf)
  then show ?case by (rule data_page_init)
next
  case (3 buf)
  then show ?case by (rule data_page_init)
next
  case (4 buf v)
  then show ?case by (simp add: data_page_insert_None)
next
  case (5 buf v i buf')
  then show ?case by (rule data_page_insert_ok)
next
  case (6 buf v i buf')
  then show ?case by (rule data_page_insert_ok)
next
  case (7 buf v i buf')
  then show ?case by (rule data_page_insert_ok)
next
  case (8 buf v i buf')
  then show ?case by (simp add: data_page_insert_ok(4))
next
  case (9 buf i)
  then show ?case by (rule data_page_read_values)
qed

section \<open>Properties\<close>

text \<open>
  C21. Insertion into a well-formed page succeeds exactly when the value and its slot entry fit.
  It returns the next slot index, appends the value, keeps the page well-formed, and every value
  that could be read before still reads the same.
\<close>

theorem data_page_insert_correct:
  assumes "data_page_ok buf"
  shows "case data_page_insert buf v of
      None \<Rightarrow> data_page_free_space buf < SLOT_ENTRY_SIZE + length v
    | Some (slot, buf') \<Rightarrow> SLOT_ENTRY_SIZE + length v \<le> data_page_free_space buf \<and> data_page_ok buf' \<and>
        data_page_values buf' = data_page_values buf @ [v] \<and> unat slot = length (data_page_values buf) \<and>
        data_page_read buf' slot = Some v \<and>
        (\<forall>j x. data_page_read buf j = Some x \<longrightarrow> data_page_read buf' j = Some x)"
proof (cases "data_page_insert buf v")
  case None
  then show ?thesis using assms dp.ins_iff [of buf v] by simp
next
  case (Some r)
  obtain slot buf' where r: "data_page_insert buf v = Some (slot, buf')" using Some by (cases r) auto
  have "\<not> data_page_free_space buf < SLOT_ENTRY_SIZE + length v" using assms dp.ins_iff [of buf v] r by simp
  moreover have "data_page_read buf' slot = Some v"
    using data_page_read_values [OF data_page_insert_ok(1) [OF assms r]] data_page_insert_ok(2,3) [OF assms r] by simp
  ultimately show ?thesis
    using r data_page_insert_ok [OF assms r] dp.ins_stable [OF assms r] by simp
qed

theorem data_page_insert_correct_witness:
  "\<exists>slot buf'. data_page_insert (data_page_init_page zero_page) [1, 2, 3] = Some (slot, buf') \<and>
     data_page_read buf' slot = Some [1, 2, 3]"
  using data_page_insert_correct [of "data_page_init_page zero_page" "[1, 2, 3]"]
    data_page_init(1,3) [of zero_page] by (auto split: option.splits)

text \<open>
  Packing: values whose payloads and slot entries fit into the page body all go into a fresh
  page, in slots 0, 1, 2 and so on, and each reads back from its slot.
\<close>

theorem data_page_packs:
  assumes "page_ok buf" and "(\<Sum>v\<leftarrow>vs. SLOT_ENTRY_SIZE + length v) \<le> PAGE_BODY_SIZE"
  shows "\<exists>is buf'. dp.ins_all (data_page_init_page buf) vs = Some (is, buf') \<and> map unat is = [0..<length vs] \<and>
    (\<forall>i < length vs. data_page_read buf' (is ! i) = Some (vs ! i))"
proof -
  note init = data_page_init [OF assms(1)]
  obtain js buf' where j: "dp.ins_all (data_page_init_page buf) vs = Some (js, buf')"
    using dp.ins_all_fits [OF init(1), of vs] assms(2) init(3) by auto
  have v: "data_page_ok buf'" "data_page_values buf' = vs" "map unat js = [0..<length vs]"
    using dp.ins_all_vals [OF init(1) j] init(2) by auto
  have "data_page_read buf' (js ! i) = Some (vs ! i)" if "i < length vs" for i
  proof -
    have "length js = length vs" using v(3) by (metis length_map length_upt minus_nat.diff_0)
    then have "unat (js ! i) = i" using v(3) that by (metis add_0 nth_map nth_upt)
    then show ?thesis using data_page_read_values [OF v(1)] v(2) that by simp
  qed
  then show ?thesis using j v(3) by blast
qed

theorem data_page_packs_witness:
  "\<exists>is buf'. dp.ins_all (data_page_init_page zero_page) [[1], [2, 3], []] = Some (is, buf') \<and>
     data_page_read buf' (is ! 1) = Some [2, 3]"
  using data_page_packs [of zero_page "[[1], [2, 3], []]"] by auto

text \<open>
  C31. Reading a page with arbitrary contents is safe: what comes out is a slice between the page
  header and the checksum, and only for a slot the directory counts.
\<close>

theorem data_page_read_in_bounds:
  assumes "data_page_read buf slot = Some v" and "page_ok buf"
  shows "slot < data_page_slot_count buf \<and>
    (\<exists>off. DATA_PAGE_HEADER_SIZE \<le> off \<and> off + length v \<le> CHECKSUM_OFFSET \<and> v = get_bytes off (length v) buf)"
proof -
  obtain fs fe n off len fl where h: "validate_header buf = Some (fs, fe, n)" "\<not> n \<le> slot"
    and e: "read_slot_entry buf slot = Some (off, len, fl)" and v: "v = get_bytes off len buf"
    using assms(1) by (auto simp: data_page_read_def split: option.splits if_splits)
  have "n = data_page_slot_count buf"
    using h(1) by (auto simp: validate_header_def data_page_slot_count_def Let_def split: if_splits)
  moreover have b: "16 \<le> off" "off + len \<le> 8184"
    using e by (auto simp: read_slot_entry_def Let_def split: if_splits)
  moreover have "length v = len" using v b assms(2) by (simp add: get_bytes_def)
  ultimately show ?thesis using h(2) v by auto
qed

theorem data_page_read_in_bounds_witness:
  "\<exists>slot buf'. data_page_insert (data_page_init_page zero_page) [5] = Some (slot, buf') \<and>
     slot < data_page_slot_count buf'"
proof -
  obtain slot buf' where i: "data_page_insert (data_page_init_page zero_page) [5] = Some (slot, buf')"
    using data_page_insert_None [of "data_page_init_page zero_page" "[5]"] data_page_init [of zero_page]
    by (cases "data_page_insert (data_page_init_page zero_page) [5]") auto
  note ok = data_page_insert_ok [OF data_page_init(1) i, simplified]
  have "data_page_read buf' slot = Some [5]" using data_page_read_values [OF ok(1)] ok(2,3) by simp
  moreover have "page_ok buf'" using ok(1) by (simp add: data_page_ok_def)
  ultimately show ?thesis using data_page_read_in_bounds [of buf' slot "[5]"] i by blast
qed

end
