(* ===== verification/Free_Map.thy ===== *)
theory Free_Map
  imports Page_Format
begin

unbundle bit_operations_syntax

text \<open>
  The single-page free-page bitmap of \<open>src/src/freemap.rs\<close>: bit \<open>i\<close> of the bitmap body is set
  when page \<open>i\<close> (relative to the leaf) is free. Every accessor is total, as in the code: an id
  past the page's reach reads as not free and is ignored by the mutators.
\<close>

section \<open>Definitions\<close>

definition BITMAP_OFFSET :: nat where
  [simp]: "BITMAP_OFFSET = DATA_PAGE_HEADER_SIZE"

definition bit_position :: "u64 \<Rightarrow> nat \<times> nat" where
  "bit_position page_id = (unat page_id div 8, unat page_id mod 8)"

definition freemap_init_page :: "page \<Rightarrow> page" where
  "freemap_init_page buf =
     ((replicate (length buf) 0)[0 := page_type_tag FreeMap])[1 := current_version FreeMap]"

definition freemap_is_free :: "page \<Rightarrow> u64 \<Rightarrow> bool" where
  "freemap_is_free buf page_id =
     (case bit_position page_id of (byte_idx, bit_idx) \<Rightarrow>
        if PAGE_BODY_SIZE \<le> byte_idx then False
        else drop_bit bit_idx (buf ! (BITMAP_OFFSET + byte_idx)) AND 1 = 1)"

definition freemap_mark_free :: "page \<Rightarrow> u64 \<Rightarrow> page" where
  "freemap_mark_free buf page_id =
     (case bit_position page_id of (byte_idx, bit_idx) \<Rightarrow>
        if byte_idx < PAGE_BODY_SIZE
        then buf[BITMAP_OFFSET + byte_idx := buf ! (BITMAP_OFFSET + byte_idx) OR push_bit bit_idx 1]
        else buf)"

definition freemap_clear_bit :: "page \<Rightarrow> u64 \<Rightarrow> page" where
  "freemap_clear_bit buf page_id =
     (case bit_position page_id of (byte_idx, bit_idx) \<Rightarrow>
        if byte_idx < PAGE_BODY_SIZE
        then buf[BITMAP_OFFSET + byte_idx :=
               buf ! (BITMAP_OFFSET + byte_idx) AND NOT (push_bit bit_idx 1)]
        else buf)"

text \<open>\<open>u8::trailing_zeros\<close>: the index of the lowest set bit, 8 for zero.\<close>

definition trailing_zeros :: "u8 \<Rightarrow> nat" where
  "trailing_zeros b = length (takeWhile (\<lambda>i. \<not> bit b i) [0..<8])"

text \<open>The scan over the bitmap bytes; \<open>n\<close> counts the bytes left, so it ends at the page body's end.\<close>

fun first_free_loop :: "page \<Rightarrow> nat \<Rightarrow> nat \<Rightarrow> nat \<Rightarrow> nat \<Rightarrow> u64 option" where
  "first_free_loop buf start_byte start_bit byte_idx 0 = None"
| "first_free_loop buf start_byte start_bit byte_idx (Suc n) =
     (let byte0 = buf ! (BITMAP_OFFSET + byte_idx);
          byte = (if byte_idx = start_byte
                  then byte0 AND NOT (push_bit start_bit 1 - 1) else byte0)
      in if byte \<noteq> 0 then Some (word_of_nat (byte_idx * 8 + trailing_zeros byte))
         else first_free_loop buf start_byte start_bit (Suc byte_idx) n)"

definition first_free_bit_from :: "page \<Rightarrow> u64 \<Rightarrow> u64 option" where
  "first_free_bit_from buf lo =
     (let start_byte = unat (lo div 8)
      in if PAGE_BODY_SIZE \<le> start_byte then None
         else let start_bit = unat (lo mod 8)
              in first_free_loop buf start_byte start_bit start_byte (PAGE_BODY_SIZE - start_byte))"

section \<open>The contract of a free-page bitmap\<close>

locale free_bitmap =
  fixes free :: "'b \<Rightarrow> u64 \<Rightarrow> bool"
    and mark :: "'b \<Rightarrow> u64 \<Rightarrow> 'b"
    and clear :: "'b \<Rightarrow> u64 \<Rightarrow> 'b"
    and first_from :: "'b \<Rightarrow> u64 \<Rightarrow> u64 option"
    and reach :: nat
    and invar :: "'b \<Rightarrow> bool"
  assumes free_reach: "invar b \<Longrightarrow> free b i \<Longrightarrow> unat i < reach"
    and mark_free: "invar b \<Longrightarrow> free (mark b i) j \<longleftrightarrow> (j = i \<and> unat i < reach) \<or> free b j"
    and clear_free: "invar b \<Longrightarrow> free (clear b i) j \<longleftrightarrow> j \<noteq> i \<and> free b j"
    and mark_invar: "invar b \<Longrightarrow> invar (mark b i)"
    and clear_invar: "invar b \<Longrightarrow> invar (clear b i)"
    and first_Some: "invar b \<Longrightarrow> first_from b lo = Some k \<Longrightarrow>
      free b k \<and> lo \<le> k \<and> (\<forall>j. lo \<le> j \<and> j < k \<longrightarrow> \<not> free b j)"
    and first_None: "invar b \<Longrightarrow> first_from b lo = None \<Longrightarrow> lo \<le> j \<Longrightarrow> \<not> free b j"
begin

text \<open>
  Claiming as the allocator does it: find the lowest free id at or above the hint, clear its bit,
  resume from it.
\<close>

fun claim_all :: "'b \<Rightarrow> u64 \<Rightarrow> nat \<Rightarrow> u64 list \<times> 'b" where
  "claim_all b lo 0 = ([], b)"
| "claim_all b lo (Suc n) =
     (case first_from b lo of
        None \<Rightarrow> ([], b)
      | Some k \<Rightarrow> apfst (Cons k) (claim_all (clear b k) k n))"

lemma claim_all_sound:
  "invar b \<Longrightarrow> claim_all b lo n = (ks, b') \<Longrightarrow>
   invar b' \<and> distinct ks \<and> (\<forall>k\<in>set ks. free b k \<and> lo \<le> k) \<and>
   (\<forall>j. free b' j \<longleftrightarrow> free b j \<and> j \<notin> set ks)"
proof (induction n arbitrary: b lo ks)
  case 0
  then show ?case by simp
next
  case (Suc n)
  show ?case
  proof (cases "first_from b lo")
    case None
    with Suc.prems show ?thesis by simp
  next
    case (Some k)
    then obtain ks' where rec: "claim_all (clear b k) k n = (ks', b')" and ks: "ks = k # ks'"
      using Suc.prems(2) by (auto simp: apfst_def map_prod_def split: prod.splits)
    note IH = Suc.IH [OF clear_invar [OF Suc.prems(1)] rec]
    show ?thesis
      using IH first_Some [OF Suc.prems(1) Some] clear_free [OF Suc.prems(1)] ks by auto
  qed
qed

lemma claim_all_exhausts:
  "invar b \<Longrightarrow> claim_all b lo n = (ks, b') \<Longrightarrow> length ks < n \<Longrightarrow> lo \<le> j \<Longrightarrow> \<not> free b' j"
proof (induction n arbitrary: b lo ks)
  case 0
  then show ?case by simp
next
  case (Suc n)
  show ?case
  proof (cases "first_from b lo")
    case None
    with Suc.prems show ?thesis using first_None by auto
  next
    case (Some k)
    then obtain ks' where rec: "claim_all (clear b k) k n = (ks', b')" and ks: "ks = k # ks'"
      using Suc.prems(2) by (auto simp: apfst_def map_prod_def split: prod.splits)
    have inv: "invar (clear b k)" by (rule clear_invar [OF Suc.prems(1)])
    show ?thesis
    proof (cases "k \<le> j")
      case True
      then show ?thesis using Suc.IH [OF inv rec] Suc.prems(3) ks by simp
    next
      case False
      then have "\<not> free b j" using first_Some [OF Suc.prems(1) Some] Suc.prems(4) by auto
      then show ?thesis
        using claim_all_sound [OF inv rec] clear_free [OF Suc.prems(1)] by auto
    qed
  qed
qed

end

section \<open>The model satisfies it\<close>

definition freemap_ok :: "page \<Rightarrow> bool" where
  "freemap_ok buf \<longleftrightarrow> page_ok buf \<and> buf ! 0 = page_type_tag FreeMap"

abbreviation LEAF_BITS :: nat where
  "LEAF_BITS \<equiv> PAGE_BODY_SIZE * 8"

lemma freemap_is_free_bit:
  "freemap_is_free buf i \<longleftrightarrow> unat i < LEAF_BITS \<and> bit (buf ! (16 + unat i div 8)) (unat i mod 8)"
proof -
  have "drop_bit n w AND 1 = 1 \<longleftrightarrow> bit w n" for n and w :: u8
    by (simp add: and_one_eq bit_iff_odd_drop_bit odd_iff_mod_2_eq_one)
  then show ?thesis
    by (auto simp: freemap_is_free_def bit_position_def)
qed

lemma div_mod_8_inject: "(i::nat) div 8 = j div 8 \<Longrightarrow> i mod 8 = j mod 8 \<Longrightarrow> i = j"
  by (metis div_mult_mod_eq)

lemma freemap_mark_free_bit:
  assumes "page_ok buf"
  shows "freemap_is_free (freemap_mark_free buf i) j \<longleftrightarrow>
    (j = i \<and> unat i < LEAF_BITS) \<or> freemap_is_free buf j"
proof (cases "unat i < LEAF_BITS \<and> unat j < LEAF_BITS")
  case False
  then show ?thesis
    by (auto simp: freemap_is_free_bit freemap_mark_free_def bit_position_def)
next
  case True
  show ?thesis
  proof (cases "unat i div 8 = unat j div 8")
    case True
    then have "unat i mod 8 = unat j mod 8 \<longleftrightarrow> j = i"
      by (metis div_mod_8_inject word_unat_eq_iff)
    with \<open>unat i < LEAF_BITS \<and> unat j < LEAF_BITS\<close> True assms show ?thesis
      by (auto simp: freemap_is_free_bit freemap_mark_free_def bit_position_def bit_simps)
  next
    case False
    then have "j \<noteq> i" by auto
    with \<open>unat i < LEAF_BITS \<and> unat j < LEAF_BITS\<close> False assms show ?thesis
      by (auto simp: freemap_is_free_bit freemap_mark_free_def bit_position_def)
  qed
qed

lemma freemap_clear_bit_bit:
  assumes "page_ok buf"
  shows "freemap_is_free (freemap_clear_bit buf i) j \<longleftrightarrow> j \<noteq> i \<and> freemap_is_free buf j"
proof (cases "unat i < LEAF_BITS \<and> unat j < LEAF_BITS")
  case False
  then show ?thesis
    by (auto simp: freemap_is_free_bit freemap_clear_bit_def bit_position_def)
next
  case True
  show ?thesis
  proof (cases "unat i div 8 = unat j div 8")
    case True
    then have "unat i mod 8 = unat j mod 8 \<longleftrightarrow> j = i"
      by (metis div_mod_8_inject word_unat_eq_iff)
    with \<open>unat i < LEAF_BITS \<and> unat j < LEAF_BITS\<close> True assms show ?thesis
      by (auto simp: freemap_is_free_bit freemap_clear_bit_def bit_position_def bit_simps)
  next
    case False
    then have "j \<noteq> i" by auto
    with \<open>unat i < LEAF_BITS \<and> unat j < LEAF_BITS\<close> False assms show ?thesis
      by (auto simp: freemap_is_free_bit freemap_clear_bit_def bit_position_def)
  qed
qed

lemma freemap_ok_mark: "freemap_ok buf \<Longrightarrow> freemap_ok (freemap_mark_free buf i)"
  by (auto simp: freemap_ok_def freemap_mark_free_def bit_position_def)

lemma freemap_ok_clear: "freemap_ok buf \<Longrightarrow> freemap_ok (freemap_clear_bit buf i)"
  by (auto simp: freemap_ok_def freemap_clear_bit_def bit_position_def)

lemma freemap_ok_init: "page_ok buf \<Longrightarrow> freemap_ok (freemap_init_page buf)"
  by (simp add: freemap_ok_def freemap_init_page_def)

lemma freemap_init_in_use: "page_ok buf \<Longrightarrow> \<not> freemap_is_free (freemap_init_page buf) i"
  by (simp add: freemap_is_free_bit freemap_init_page_def)

subsection \<open>The scan\<close>

lemma trailing_zeros_lowest:
  assumes "b \<noteq> 0"
  shows "trailing_zeros b < 8 \<and> bit b (trailing_zeros b) \<and> (\<forall>j < trailing_zeros b. \<not> bit b j)"
proof -
  let ?xs = "[0..<8]" and ?P = "\<lambda>i. \<not> bit b i"
  from assms obtain m where "bit b m" by (auto simp: bit_eq_iff)
  moreover from this have "m < 8" using bit_imp_le_length by fastforce
  ultimately have ex: "\<exists>x \<in> set ?xs. \<not> ?P x" by auto
  then have lt: "trailing_zeros b < length ?xs"
    unfolding trailing_zeros_def
    by (metis length_takeWhile_le nat_less_le nth_mem set_takeWhileD takeWhile_eq_take take_all_iff order_refl)
  then have "bit b (?xs ! trailing_zeros b)"
    using nth_length_takeWhile [of ?P ?xs] by (simp add: trailing_zeros_def)
  moreover have "\<not> bit b j" if "j < trailing_zeros b" for j
  proof -
    have "takeWhile ?P ?xs ! j \<in> set (takeWhile ?P ?xs)"
      using that by (simp add: trailing_zeros_def)
    then have "\<not> bit b (takeWhile ?P ?xs ! j)" by (rule set_takeWhileD [THEN conjunct2])
    with that lt show ?thesis by (simp add: takeWhile_nth trailing_zeros_def)
  qed
  ultimately show ?thesis using lt by simp
qed

lemma bit_mask_low_byte:
  "n < 8 \<Longrightarrow> bit (w AND NOT (push_bit n 1 - 1) :: u8) j \<longleftrightarrow> bit w j \<and> n \<le> j"
proof -
  assume "n < 8"
  have "push_bit n 1 - 1 = (mask n :: u8)" by (simp add: mask_eq_exp_minus_1 push_bit_of_1)
  then show ?thesis by (auto simp: bit_simps dest: bit_imp_le_length)
qed

text \<open>What the scan has seen so far: the ids from byte \<open>k\<close> on, those below the hint masked out.\<close>

lemma first_free_loop_spec:
  assumes "start_bit < 8" and "start_byte \<le> k" and "k + n = PAGE_BODY_SIZE" and "page_ok buf"
  shows "case first_free_loop buf start_byte start_bit k n of
      Some i \<Rightarrow> freemap_is_free buf i \<and> max (start_byte * 8 + start_bit) (k * 8) \<le> unat i \<and>
        (\<forall>j. max (start_byte * 8 + start_bit) (k * 8) \<le> unat j \<and> unat j < unat i \<longrightarrow> \<not> freemap_is_free buf j)
    | None \<Rightarrow> (\<forall>j. max (start_byte * 8 + start_bit) (k * 8) \<le> unat j \<longrightarrow> \<not> freemap_is_free buf j)"
  using assms(2,3)
proof (induction n arbitrary: k)
  case 0
  then show ?case by (simp add: freemap_is_free_bit)
next
  case (Suc n)
  define b where "b = (if k = start_byte then buf ! (16 + k) AND NOT (push_bit start_bit 1 - 1)
    else buf ! (16 + k))"
  have bits: "bit b m \<longleftrightarrow> bit (buf ! (16 + k)) m \<and> start_byte * 8 + start_bit \<le> k * 8 + m" if "m < 8" for m
    using assms(1) Suc.prems(1) that
    by (cases "k = start_byte") (auto simp: b_def bit_mask_low_byte simp del: push_bit_of_1)
  have byte: "unat j div 8 = k \<Longrightarrow> freemap_is_free buf j \<and> start_byte * 8 + start_bit \<le> unat j \<longleftrightarrow>
      bit b (unat j mod 8)" for j
    using bits [of "unat j mod 8"] Suc.prems(2)
    by (auto simp: freemap_is_free_bit)
  show ?case
  proof (cases "b = 0")
    case False
    define i :: u64 where "i = word_of_nat (k * 8 + trailing_zeros b)"
    from False have tz: "trailing_zeros b < 8" "bit b (trailing_zeros b)"
      "\<And>j. j < trailing_zeros b \<Longrightarrow> \<not> bit b j"
      using trailing_zeros_lowest by auto
    have i: "unat i = k * 8 + trailing_zeros b"
      using tz(1) Suc.prems(2) by (simp add: i_def unat_of_nat del: of_nat_add of_nat_mult)
    then have idiv: "unat i div 8 = k" "unat i mod 8 = trailing_zeros b" using tz(1) by auto
    have res: "first_free_loop buf start_byte start_bit k (Suc n) = Some i"
      using False by (simp add: Let_def b_def i_def)
    have low: "\<not> freemap_is_free buf j"
      if "max (start_byte * 8 + start_bit) (k * 8) \<le> unat j" "unat j < unat i" for j
    proof -
      have "unat j div 8 = k" using that i tz(1) by auto
      moreover from this have "unat j mod 8 < trailing_zeros b"
        using that(2) i by (metis add_less_cancel_left div_mult_mod_eq)
      ultimately show ?thesis using byte [of j] tz(3) that(1) by auto
    qed
    show ?thesis using res byte [of i] idiv tz(2) i low by auto
  next
    case True
    then have step: "first_free_loop buf start_byte start_bit k (Suc n) =
        first_free_loop buf start_byte start_bit (Suc k) n"
      by (simp add: Let_def b_def)
    have none: "\<not> freemap_is_free buf j"
      if "max (start_byte * 8 + start_bit) (k * 8) \<le> unat j" "unat j < Suc k * 8" for j
    proof -
      have "unat j div 8 = k" using that by auto
      then show ?thesis using byte [of j] True that(1) by auto
    qed
    have IH: "case first_free_loop buf start_byte start_bit (Suc k) n of
        Some i \<Rightarrow> freemap_is_free buf i \<and> max (start_byte * 8 + start_bit) (Suc k * 8) \<le> unat i \<and>
          (\<forall>j. max (start_byte * 8 + start_bit) (Suc k * 8) \<le> unat j \<and> unat j < unat i \<longrightarrow>
             \<not> freemap_is_free buf j)
      | None \<Rightarrow> (\<forall>j. max (start_byte * 8 + start_bit) (Suc k * 8) \<le> unat j \<longrightarrow> \<not> freemap_is_free buf j)"
      using Suc.prems by (intro Suc.IH) auto
    show ?thesis
      unfolding step using IH none by (auto split: option.splits) (meson max.bounded_iff not_less)+
  qed
qed

lemma first_free_bit_from_spec:
  assumes "page_ok buf"
  shows "case first_free_bit_from buf lo of
      Some i \<Rightarrow> freemap_is_free buf i \<and> lo \<le> i \<and> (\<forall>j. lo \<le> j \<and> j < i \<longrightarrow> \<not> freemap_is_free buf j)
    | None \<Rightarrow> (\<forall>j. lo \<le> j \<longrightarrow> \<not> freemap_is_free buf j)"
proof (cases "PAGE_BODY_SIZE \<le> unat (lo div 8)")
  case True
  then have "\<not> freemap_is_free buf j" if "lo \<le> j" for j
    using that by (auto simp: freemap_is_free_bit unat_div word_le_nat_alt)
  with True show ?thesis by (simp add: first_free_bit_from_def Let_def)
next
  case False
  have lo: "unat (lo div 8) * 8 + unat (lo mod 8) = unat lo"
    by (simp add: unat_div unat_mod)
  have "unat (lo mod 8) < 8" by (simp add: unat_mod)
  from first_free_loop_spec [OF this order_refl _ assms, of "unat (lo div 8)" "PAGE_BODY_SIZE - unat (lo div 8)"]
  show ?thesis
    using False lo
    by (auto simp: first_free_bit_from_def Let_def word_le_nat_alt word_less_nat_alt split: option.splits)
qed

interpretation fm: free_bitmap freemap_is_free freemap_mark_free freemap_clear_bit
  first_free_bit_from LEAF_BITS freemap_ok
proof (unfold_locales, goal_cases)
  case (1 b i)
  then show ?case by (simp add: freemap_is_free_bit)
next
  case (2 b i j)
  then show ?case by (simp add: freemap_ok_def freemap_mark_free_bit)
next
  case (3 b i j)
  then show ?case by (simp add: freemap_ok_def freemap_clear_bit_bit)
next
  case (4 b i)
  then show ?case by (rule freemap_ok_mark)
next
  case (5 b i)
  then show ?case by (rule freemap_ok_clear)
next
  case (6 b lo k)
  then show ?case using first_free_bit_from_spec [of b lo] by (simp add: freemap_ok_def)
next
  case (7 b lo j)
  then show ?case using first_free_bit_from_spec [of b lo] by (simp add: freemap_ok_def)
qed

section \<open>Properties\<close>

text \<open>
  C32. The bitmap is a set of page ids: marking adds exactly the id marked when the page reaches
  it, clearing removes exactly the id cleared, a fresh page holds none.
\<close>

theorem freemap_is_a_set:
  assumes "page_ok buf"
  shows "{j. freemap_is_free (freemap_mark_free buf i) j} =
      {j. freemap_is_free buf j} \<union> (if unat i < LEAF_BITS then {i} else {}) \<and>
    {j. freemap_is_free (freemap_clear_bit buf i) j} = {j. freemap_is_free buf j} - {i} \<and>
    {j. freemap_is_free (freemap_init_page buf) j} = {}"
  using assms by (auto simp: freemap_mark_free_bit freemap_clear_bit_bit freemap_init_in_use)

theorem freemap_is_a_set_witness:
  "{j. freemap_is_free (freemap_mark_free (freemap_init_page zero_page) 9) j} = {9}"
proof -
  have ok: "page_ok (freemap_init_page zero_page)" by (simp add: freemap_init_page_def)
  show ?thesis using freemap_is_a_set [OF ok, of 9] freemap_init_in_use [of zero_page] by auto
qed

text \<open>
  C33. The scan finds the lowest free id at or above its start, and reports none only when there is
  none; in particular it never skips a free page.
\<close>

theorem first_free_is_least:
  assumes "page_ok buf"
  shows "case first_free_bit_from buf lo of
      Some i \<Rightarrow> freemap_is_free buf i \<and> lo \<le> i \<and> (\<forall>j. lo \<le> j \<and> j < i \<longrightarrow> \<not> freemap_is_free buf j)
    | None \<Rightarrow> (\<forall>j. lo \<le> j \<longrightarrow> \<not> freemap_is_free buf j)"
  using assms by (rule first_free_bit_from_spec)

theorem first_free_is_least_witness:
  "first_free_bit_from (freemap_mark_free (freemap_init_page zero_page) 9) 3 = Some 9"
proof -
  let ?b = "freemap_mark_free (freemap_init_page zero_page) 9"
  have ok: "freemap_ok ?b" by (intro freemap_ok_mark freemap_ok_init) simp
  have "page_ok (freemap_init_page zero_page)" by (simp add: freemap_init_page_def)
  note free = freemap_mark_free_bit [OF this, of 9]
  have free: "freemap_is_free ?b j \<longleftrightarrow> j = 9" for j
    using free [of j] freemap_init_in_use [of zero_page j] by simp
  have "page_ok ?b" using ok by (simp add: freemap_ok_def)
  note least = first_free_is_least [OF this, of 3]
  show ?thesis
  proof (cases "first_free_bit_from ?b 3")
    case None
    then have "\<not> freemap_is_free ?b 9" using least by simp
    then show ?thesis using free by simp
  next
    case (Some i)
    then have "freemap_is_free ?b i" using least by simp
    then show ?thesis using free Some by simp
  qed
qed



end
