(* ===== verification/Byte_Layout.thy ===== *)
theory Byte_Layout
  imports Page_Format
begin

text \<open>
  Arrays of fixed-size records inside a page, as the superblock's named-root table and the crypto
  header's key-slot table are: a loop over \<open>iter().enumerate()\<close> that writes record \<open>i\<close> at
  \<open>base + i * size\<close>, and the loop that reads them back. The locale states what one record's writer
  and reader promise and derives what the two loops do.
\<close>

definition write_array :: "(nat \<Rightarrow> 'r \<Rightarrow> u8 list \<Rightarrow> u8 list) \<Rightarrow> nat \<Rightarrow> nat \<Rightarrow> 'r list \<Rightarrow> u8 list \<Rightarrow> u8 list" where
  "write_array wr base sz xs buf = fold (\<lambda>(i, x). wr (base + i * sz) x) (enumerate 0 xs) buf"

definition read_array :: "(nat \<Rightarrow> u8 list \<Rightarrow> 'r) \<Rightarrow> nat \<Rightarrow> nat \<Rightarrow> nat \<Rightarrow> u8 list \<Rightarrow> 'r list" where
  "read_array rd base sz n buf = map (\<lambda>i. rd (base + i * sz) buf) [0..<n]"

lemma nth_of_get_bytes: "get_bytes p 1 a = get_bytes p 1 b \<Longrightarrow> p < length a \<Longrightarrow> p < length b \<Longrightarrow> a ! p = b ! p"
  by (metis One_nat_def add.right_neutral lessI nth_get_bytes)

lemma get_bytes_within:
  assumes "get_bytes b n x = get_bytes b n y" and "b \<le> p" and "p + k \<le> b + n"
  shows "get_bytes p k x = get_bytes p k y"
proof -
  have "get_bytes p k z = get_bytes (p - b) k (get_bytes b n z)" for z :: "'a list"
    using assms(2,3) by (simp add: get_bytes_def take_drop min_def add.commute)
  then show ?thesis using assms(1) by simp
qed

locale record_layout =
  fixes wr :: "nat \<Rightarrow> 'r \<Rightarrow> u8 list \<Rightarrow> u8 list"
    and rd :: "nat \<Rightarrow> u8 list \<Rightarrow> 'r"
    and sz :: nat
    and ok :: "'r \<Rightarrow> bool"
  assumes wr_length: "ok x \<Longrightarrow> b + sz \<le> length buf \<Longrightarrow> length (wr b x buf) = length buf"
    and wr_frame: "ok x \<Longrightarrow> b + sz \<le> length buf \<Longrightarrow> p + k \<le> b \<or> b + sz \<le> p \<Longrightarrow>
      get_bytes p k (wr b x buf) = get_bytes p k buf"
    and rd_wr: "ok x \<Longrightarrow> b + sz \<le> length buf \<Longrightarrow> rd b (wr b x buf) = x"
    and rd_local: "get_bytes b sz buf = get_bytes b sz buf' \<Longrightarrow> b + sz \<le> length buf \<Longrightarrow>
      b + sz \<le> length buf' \<Longrightarrow> rd b buf = rd b buf'"
begin

abbreviation writes :: "nat \<Rightarrow> nat \<Rightarrow> 'r list \<Rightarrow> u8 list \<Rightarrow> u8 list" where
  "writes base j xs buf \<equiv> fold (\<lambda>(i, x). wr (base + i * sz) x) (enumerate j xs) buf"

lemma writes_correct:
  "list_all ok xs \<Longrightarrow> base + (j + length xs) * sz \<le> length buf \<Longrightarrow>
   length (writes base j xs buf) = length buf \<and>
   (\<forall>p k. p + k \<le> base + j * sz \<or> base + (j + length xs) * sz \<le> p \<longrightarrow>
      get_bytes p k (writes base j xs buf) = get_bytes p k buf) \<and>
   (\<forall>i < length xs. rd (base + (j + i) * sz) (writes base j xs buf) = xs ! i)"
proof (induction xs arbitrary: j buf)
  case (Cons x xs)
  let ?b = "wr (base + j * sz) x buf"
  have ok: "ok x" "list_all ok xs" using Cons.prems by auto
  have fit: "base + j * sz + sz \<le> length buf" "base + (Suc j + length xs) * sz \<le> length buf"
    using Cons.prems by (simp_all add: algebra_simps)
  have len: "length ?b = length buf" by (rule wr_length [OF ok(1) fit(1)])
  let ?f = "writes base (Suc j) xs ?b"
  have IH: "length ?f = length buf"
      "\<And>p k. p + k \<le> base + Suc j * sz \<or> base + (Suc j + length xs) * sz \<le> p \<Longrightarrow> get_bytes p k ?f = get_bytes p k ?b"
      "\<And>i. i < length xs \<Longrightarrow> rd (base + (Suc j + i) * sz) ?f = xs ! i"
    using Cons.IH [OF ok(2), of "Suc j" ?b] fit(2) unfolding len by blast+
  have frame: "get_bytes p k ?f = get_bytes p k buf"
    if "p + k \<le> base + j * sz \<or> base + (j + length (x # xs)) * sz \<le> p" for p k
    using that IH(2) [of p k] wr_frame [OF ok(1) fit(1), of p k] by (auto simp: algebra_simps)
  have "get_bytes (base + j * sz) sz ?f = get_bytes (base + j * sz) sz ?b" by (rule IH(2)) simp
  then have "rd (base + j * sz) ?f = rd (base + j * sz) ?b" using fit(1) len IH(1) by (intro rd_local) auto
  then have first: "rd (base + j * sz) ?f = x" using rd_wr [OF ok(1) fit(1)] by simp
  have "rd (base + (j + i) * sz) ?f = (x # xs) ! i" if "i < length (x # xs)" for i
    using that first IH(3) by (cases i) auto
  then show ?case using IH(1) frame by simp
qed simp

lemma write_array_length:
  "list_all ok xs \<Longrightarrow> base + length xs * sz \<le> length buf \<Longrightarrow> length (write_array wr base sz xs buf) = length buf"
  using writes_correct [where j = 0] by (simp add: write_array_def)

lemma write_array_frame:
  "list_all ok xs \<Longrightarrow> base + length xs * sz \<le> length buf \<Longrightarrow> p + k \<le> base \<or> base + length xs * sz \<le> p \<Longrightarrow>
   get_bytes p k (write_array wr base sz xs buf) = get_bytes p k buf"
  using writes_correct [of xs base 0 buf] by (auto simp: write_array_def)

lemma write_array_frame_uint:
  assumes "list_all ok xs" and "base + length xs * sz \<le> length buf"
  shows "p + 4 \<le> base \<or> base + length xs * sz \<le> p \<Longrightarrow> get_u32 p (write_array wr base sz xs buf) = get_u32 p buf"
    and "p + 8 \<le> base \<or> base + length xs * sz \<le> p \<Longrightarrow> get_u64 p (write_array wr base sz xs buf) = get_u64 p buf"
    and "p < base \<or> base + length xs * sz \<le> p \<Longrightarrow> p < length buf \<Longrightarrow> write_array wr base sz xs buf ! p = buf ! p"
  using write_array_frame [OF assms, of p 4] write_array_frame [OF assms, of p 8]
    nth_of_get_bytes [OF write_array_frame [OF assms, of p 1]] write_array_length [OF assms]
  by (auto simp: get_u32_def get_u64_def)

lemma read_write_array:
  assumes "list_all ok xs" and "base + length xs * sz \<le> length buf" and "n = length xs"
  shows "read_array rd base sz n (write_array wr base sz xs buf) = xs"
  unfolding read_array_def write_array_def assms(3)
  by (rule nth_equalityI) (use writes_correct [OF assms(1), where j = 0] assms(2) in auto)

lemma read_array_local:
  assumes "get_bytes base (n * sz) buf = get_bytes base (n * sz) buf'"
    and "base + n * sz \<le> length buf" and "base + n * sz \<le> length buf'"
  shows "read_array rd base sz n buf = read_array rd base sz n buf'"
  unfolding read_array_def
proof (rule map_cong [OF refl])
  fix i assume "i \<in> set [0..<n]"
  then have "Suc i * sz \<le> n * sz" by (intro mult_le_mono1) simp
  then have "base + i * sz + sz \<le> base + n * sz" by simp
  then show "rd (base + i * sz) buf = rd (base + i * sz) buf'"
    using assms by (intro rd_local get_bytes_within [OF assms(1)]) auto
qed

end

end
