(* ===== verification/Crypto_Header.thy ===== *)
theory Crypto_Header
  imports Byte_Layout Page_Crypto
begin

text \<open>
  The crypto header of an encrypted database, \<open>src/src/superblock/crypto_header.rs\<close>: the cipher's
  algorithm id, the page stride and a table of eight key slots, each holding the data key wrapped
  under a key derived from one user key. A write into the sub-slice \<open>buf[base..base + 128]\<close> is a
  write at \<open>base\<close> plus the field's offset.
\<close>

section \<open>Definitions\<close>

definition KEY_SLOT_COUNT :: nat where [simp]: "KEY_SLOT_COUNT = 8"
definition KEY_SLOT_SIZE :: nat where [simp]: "KEY_SLOT_SIZE = 128"
definition KEY_SLOT_ACTIVE :: u8 where "KEY_SLOT_ACTIVE = 1"
definition CRYPTO_HEADER_OFFSET :: nat where [simp]: "CRYPTO_HEADER_OFFSET = 324"
definition CRYPTO_HEADER_SIZE :: nat where [simp]: "CRYPTO_HEADER_SIZE = 8 + KEY_SLOT_COUNT * KEY_SLOT_SIZE"
definition SLOT_TABLE_OFFSET :: nat where [simp]: "SLOT_TABLE_OFFSET = CRYPTO_HEADER_OFFSET + 8"
definition ALGO_XCHACHA20POLY1305 :: u8 where "ALGO_XCHACHA20POLY1305 = 1"

record key_slot =
  ks_state :: u8
  ks_kdf_id :: u8
  ks_argon2 :: argon2_params
  ks_salt :: "u8 list"
  ks_wrap_nonce :: "u8 list"
  ks_wrapped_dek :: "u8 list"
  ks_wrap_tag :: "u8 list"

definition KEY_SLOT_EMPTY :: key_slot where
  "KEY_SLOT_EMPTY = \<lparr>ks_state = 0, ks_kdf_id = 0, ks_argon2 = \<lparr>m_cost = 0, t_cost = 0, p_cost = 0\<rparr>,
     ks_salt = replicate SALT_LEN 0, ks_wrap_nonce = replicate NONCE_LEN 0,
     ks_wrapped_dek = replicate DEK_LEN 0, ks_wrap_tag = replicate TAG_LEN 0\<rparr>"

definition is_active :: "key_slot \<Rightarrow> bool" where
  "is_active s \<longleftrightarrow> ks_state s = KEY_SLOT_ACTIVE"

definition key_slot_aad :: "key_slot \<Rightarrow> u8 list" where
  "key_slot_aad s = [ks_state s, ks_kdf_id s] @ to_le_bytes (m_cost (ks_argon2 s)) @ to_le_bytes (t_cost (ks_argon2 s)) @
     to_le_bytes (p_cost (ks_argon2 s)) @ ks_salt s @ ks_wrap_nonce s"

definition key_slot_write :: "nat \<Rightarrow> key_slot \<Rightarrow> u8 list \<Rightarrow> u8 list" where
  "key_slot_write base s buf =
     put_bytes (base + 86) (ks_wrap_tag s) (put_bytes (base + 54) (ks_wrapped_dek s)
       (put_bytes (base + 30) (ks_wrap_nonce s) (put_bytes (base + 14) (ks_salt s)
         (put_u32 (base + 10) (p_cost (ks_argon2 s)) (put_u32 (base + 6) (t_cost (ks_argon2 s))
           (put_u32 (base + 2) (m_cost (ks_argon2 s)) (buf[base := ks_state s, base + 1 := ks_kdf_id s])))))))"

definition key_slot_read :: "nat \<Rightarrow> u8 list \<Rightarrow> key_slot" where
  "key_slot_read base buf =
     \<lparr>ks_state = buf ! base, ks_kdf_id = buf ! (base + 1),
      ks_argon2 = \<lparr>m_cost = get_u32 (base + 2) buf, t_cost = get_u32 (base + 6) buf, p_cost = get_u32 (base + 10) buf\<rparr>,
      ks_salt = get_bytes (base + 14) SALT_LEN buf, ks_wrap_nonce = get_bytes (base + 30) NONCE_LEN buf,
      ks_wrapped_dek = get_bytes (base + 54) DEK_LEN buf, ks_wrap_tag = get_bytes (base + 86) TAG_LEN buf\<rparr>"

record crypto_header =
  ch_algorithm :: u8
  ch_stride :: u32
  ch_slots :: "key_slot list"

definition crypto_header_serialize_into :: "crypto_header \<Rightarrow> page \<Rightarrow> page" where
  "crypto_header_serialize_into h buf =
     write_array key_slot_write SLOT_TABLE_OFFSET KEY_SLOT_SIZE (ch_slots h)
       (put_u32 (CRYPTO_HEADER_OFFSET + 1) (ch_stride h) (buf[CRYPTO_HEADER_OFFSET := ch_algorithm h]))"

definition crypto_header_deserialize :: "page \<Rightarrow> crypto_header option" where
  "crypto_header_deserialize buf =
     (let algorithm = buf ! CRYPTO_HEADER_OFFSET
      in if algorithm = 0 then None
         else Some \<lparr>ch_algorithm = algorithm, ch_stride = get_u32 (CRYPTO_HEADER_OFFSET + 1) buf,
                    ch_slots = read_array key_slot_read SLOT_TABLE_OFFSET KEY_SLOT_SIZE KEY_SLOT_COUNT buf\<rparr>)"

definition active_count :: "crypto_header \<Rightarrow> nat" where
  "active_count h = length (filter is_active (ch_slots h))"

definition free_slot :: "crypto_header \<Rightarrow> nat option" where
  "free_slot h = (let n = length (takeWhile is_active (ch_slots h)) in if n < length (ch_slots h) then Some n else None)"

fun kdf_id_tag :: "kdf_id \<Rightarrow> u8" where
  \<comment> \<open>the \<open>repr(u8)\<close> discriminants\<close>
  "kdf_id_tag Hkdf = 1"
| "kdf_id_tag Argon2id = 2"

text \<open>One iteration of \<open>unlock\<close>: \<open>None\<close> is \<open>continue\<close>.\<close>

definition unlock_slot :: "world \<Rightarrow> key \<Rightarrow> key_slot \<Rightarrow> u8 list option" where
  "unlock_slot w key s =
     (if \<not> is_active s then None
      else case (if ks_kdf_id s = kdf_id_tag Hkdf then Some Hkdf
                 else if ks_kdf_id s = kdf_id_tag Argon2id then Some Argon2id else None) of
             None \<Rightarrow> None
           | Some kdf \<Rightarrow>
               (case derive_kek w key kdf (ks_salt s) (ks_argon2 s) of
                  Inl _ \<Rightarrow> None
                | Inr kek \<Rightarrow>
                    (case unwrap_dek w kek (ks_wrapped_dek s) (ks_wrap_tag s) (ks_wrap_nonce s) (key_slot_aad s) of
                       Inl _ \<Rightarrow> None
                     | Inr dek \<Rightarrow> Some dek)))"

fun unlock_loop :: "world \<Rightarrow> key \<Rightarrow> nat \<Rightarrow> key_slot list \<Rightarrow> chisel_error + (nat \<times> u8 list)" where
  "unlock_loop w key i [] = Inl InvalidEncryptionKey"
| "unlock_loop w key i (s # ss) =
     (case unlock_slot w key s of Some dek \<Rightarrow> Inr (i, dek) | None \<Rightarrow> unlock_loop w key (Suc i) ss)"

definition unlock :: "world \<Rightarrow> crypto_header \<Rightarrow> key \<Rightarrow> chisel_error + (nat \<times> u8 list)" where
  "unlock w h key = unlock_loop w key 0 (ch_slots h)"

text \<open>
  \<open>k\<close> numbers the first of the two random draws; \<open>None\<close> is a panic, of the generator or of the slot
  index.
\<close>

definition wrap_into ::
  "world \<Rightarrow> nat \<Rightarrow> nat \<Rightarrow> key \<Rightarrow> u8 list \<Rightarrow> argon2_params option \<Rightarrow> crypto_header \<Rightarrow> (crypto_error + crypto_header) option" where
  "wrap_into w k slot key dek argon2_override h =
     (let (kdf, argon2) = (case key of
            Raw _ \<Rightarrow> (Hkdf, \<lparr>m_cost = 0, t_cost = 0, p_cost = 0\<rparr>)
          | Passphrase _ \<Rightarrow> (Argon2id, case argon2_override of None \<Rightarrow> argon2_params_default | Some p \<Rightarrow> p))
      in case (random_array w k SALT_LEN, random_array w (Suc k) NONCE_LEN) of
           (Some salt, Some wrap_nonce) \<Rightarrow>
             (let s = \<lparr>ks_state = KEY_SLOT_ACTIVE, ks_kdf_id = kdf_id_tag kdf, ks_argon2 = argon2, ks_salt = salt,
                       ks_wrap_nonce = wrap_nonce, ks_wrapped_dek = replicate DEK_LEN 0, ks_wrap_tag = replicate TAG_LEN 0\<rparr>
              in case derive_kek w key kdf (ks_salt s) (ks_argon2 s) of
                   Inl e \<Rightarrow> Some (Inl e)
                 | Inr kek \<Rightarrow>
                     (case wrap_dek w kek dek (ks_wrap_nonce s) (key_slot_aad s) of
                        (wrapped, tag) \<Rightarrow>
                          if slot < length (ch_slots h)
                          then Some (Inr (h\<lparr>ch_slots := (ch_slots h)[slot := s\<lparr>ks_wrapped_dek := wrapped, ks_wrap_tag := tag\<rparr>]\<rparr>))
                          else None))
         | _ \<Rightarrow> None)"

section \<open>The key-slot table is an array of records\<close>

definition key_slot_ok :: "key_slot \<Rightarrow> bool" where
  "key_slot_ok s \<longleftrightarrow> length (ks_salt s) = 16 \<and> length (ks_wrap_nonce s) = 24 \<and> length (ks_wrapped_dek s) = 32 \<and>
     length (ks_wrap_tag s) = 16"

interpretation ks: record_layout key_slot_write key_slot_read 128 key_slot_ok
proof (unfold_locales, goal_cases)
  case (1 x b buf)
  then show ?case by (simp add: key_slot_write_def key_slot_ok_def)
next
  case (2 x b buf p k)
  then show ?case
    by (auto simp: key_slot_write_def key_slot_ok_def get_put_bytes_other get_bytes_put_uint get_bytes_list_update)
next
  case (3 x b buf)
  then show ?case
    by (simp add: key_slot_write_def key_slot_read_def key_slot_ok_def byte_simps get_put_bytes_other get_put_bytes_same
        nth_put_bytes_other)
next
  case (4 b buf buf')
  note w = get_bytes_within [OF 4(1)]
  have u: "get_u32 (b + k) buf = get_u32 (b + k) buf'" if "k + 4 \<le> 128" for k
    unfolding get_u32_def using that by (intro arg_cong [of _ _ from_le_bytes] w) auto
  moreover have "get_bytes (b + k) n buf = get_bytes (b + k) n buf'" if "k + n \<le> 128" for k n
    using that by (intro w) auto
  moreover have "buf ! (b + k) = buf' ! (b + k)" if "k < 128" for k
    using that 4(2,3) by (intro nth_of_get_bytes w) auto
  from this [of 0] this [of 1] have "buf ! b = buf' ! b" "buf ! Suc b = buf' ! Suc b" by simp_all
  ultimately show ?case using u [of 2] u [of 6] u [of 10] by (simp add: key_slot_read_def)
qed

definition crypto_header_ok :: "crypto_header \<Rightarrow> bool" where
  "crypto_header_ok h \<longleftrightarrow> ch_algorithm h \<noteq> 0 \<and> length (ch_slots h) = 8 \<and> list_all key_slot_ok (ch_slots h)"

lemma crypto_header_frame:
  assumes "crypto_header_ok h" and "page_ok buf" and "p + k \<le> 324 \<or> 1356 \<le> p"
  shows "get_bytes p k (crypto_header_serialize_into h buf) = get_bytes p k buf"
    and "page_ok (crypto_header_serialize_into h buf)"
  using assms by (auto simp: crypto_header_serialize_into_def crypto_header_ok_def ks.write_array_frame
      ks.write_array_length get_bytes_put_uint get_bytes_list_update)

lemma crypto_header_roundtrip:
  assumes h: "crypto_header_ok h" and p: "page_ok buf"
  shows "crypto_header_deserialize (crypto_header_serialize_into h buf) = Some h"
proof -
  let ?b = "put_u32 325 (ch_stride h) (buf[324 := ch_algorithm h])"
  let ?w = "write_array key_slot_write 332 128 (ch_slots h) ?b"
  have len: "length ?b = 8192" using p by simp
  have s: "list_all key_slot_ok (ch_slots h)" "length (ch_slots h) = 8" and a: "ch_algorithm h \<noteq> 0"
    using h by (auto simp: crypto_header_ok_def)
  have fit: "332 + length (ch_slots h) * 128 \<le> length ?b" using s(2) len by simp
  note fr = ks.write_array_frame_uint [OF s(1) fit]
  have "?w ! 324 = ?b ! 324" by (rule fr(3)) (simp_all add: len)
  also have "\<dots> = ch_algorithm h" using p by (simp add: nth_put_uint_other)
  finally have "?w ! 324 = ch_algorithm h" .
  moreover have "get_u32 325 ?w = get_u32 325 ?b" by (rule fr(1)) simp
  then have "get_u32 325 ?w = ch_stride h" using p by (simp add: get_put_uint_same)
  moreover have "read_array key_slot_read 332 128 8 ?w = ch_slots h"
    by (rule ks.read_write_array [OF s(1) fit]) (simp add: s(2))
  ultimately show ?thesis
    using a by (simp add: crypto_header_deserialize_def crypto_header_serialize_into_def Let_def)
qed

text \<open>The header lives in its own bytes, so pages that agree on them carry the same header.\<close>

lemma crypto_header_local:
  assumes "get_bytes 324 1032 a = get_bytes 324 1032 b" and "page_ok a" and "page_ok b"
  shows "crypto_header_deserialize a = crypto_header_deserialize b"
proof -
  note w = get_bytes_within [OF assms(1)]
  have "a ! 324 = b ! 324" using assms(2,3) by (intro nth_of_get_bytes w) auto
  moreover have "get_u32 325 a = get_u32 325 b" unfolding get_u32_def by (intro arg_cong [of _ _ from_le_bytes] w) auto
  moreover have "read_array key_slot_read 332 128 8 a = read_array key_slot_read 332 128 8 b"
    using ks.read_array_local [of 332 8 a b] w [of 332 1024] assms(2,3) by simp
  ultimately show ?thesis by (simp add: crypto_header_deserialize_def Let_def)
qed

section \<open>Wrapping and unlocking\<close>

lemma unlock_loop_first:
  "i < length ss \<Longrightarrow> unlock_slot w key (ss ! i) = Some dek \<Longrightarrow> (\<And>j. j < i \<Longrightarrow> unlock_slot w key (ss ! j) = None) \<Longrightarrow>
   unlock_loop w key k ss = Inr (k + i, dek)"
proof (induction ss arbitrary: i k)
  case (Cons s ss)
  show ?case
  proof (cases i)
    case 0
    then show ?thesis using Cons.prems by simp
  next
    case (Suc m)
    have "unlock_slot w key s = None" using Cons.prems(3) [of 0] Suc by simp
    moreover have "unlock_loop w key (Suc k) ss = Inr (Suc k + m, dek)"
      using Cons.prems Suc by (intro Cons.IH) force+
    ultimately show ?thesis using Suc by simp
  qed
qed simp

lemma wrap_into_slot:
  assumes "aead_ok w" and "wrap_into w k slot key dek ov h = Some (Inr h')"
  obtains s where "slot < length (ch_slots h)" and "h' = h\<lparr>ch_slots := (ch_slots h)[slot := s]\<rparr>"
    and "unlock_slot w key s = Some dek" and "is_active s"
proof -
  obtain kdf argon2 where ka: "(case key of Raw _ \<Rightarrow> (Hkdf, \<lparr>m_cost = 0, t_cost = 0, p_cost = 0\<rparr>)
      | Passphrase _ \<Rightarrow> (Argon2id, case ov of None \<Rightarrow> argon2_params_default | Some p \<Rightarrow> p)) = (kdf, argon2)"
    by fastforce
  obtain salt nonce where sn: "random_array w k SALT_LEN = Some salt" "random_array w (Suc k) NONCE_LEN = Some nonce"
    using assms(2) unfolding wrap_into_def ka by (auto split: option.splits)
  let ?s = "\<lparr>ks_state = KEY_SLOT_ACTIVE, ks_kdf_id = kdf_id_tag kdf, ks_argon2 = argon2, ks_salt = salt,
    ks_wrap_nonce = nonce, ks_wrapped_dek = replicate DEK_LEN 0, ks_wrap_tag = replicate TAG_LEN 0\<rparr>"
  obtain kek wrapped tag where kek: "derive_kek w key kdf salt argon2 = Inr kek"
    and wr: "wrap_dek w kek dek nonce (key_slot_aad ?s) = (wrapped, tag)"
    and h': "slot < length (ch_slots h)"
      "h' = h\<lparr>ch_slots := (ch_slots h)[slot := ?s\<lparr>ks_wrapped_dek := wrapped, ks_wrap_tag := tag\<rparr>]\<rparr>"
    using assms(2) unfolding wrap_into_def ka sn by (auto simp: Let_def split: sum.splits prod.splits if_splits)
  have "unwrap_dek w kek wrapped tag nonce (key_slot_aad ?s) = Inr dek"
    using open_seal_detached [OF assms(1)] wr by (simp add: wrap_dek_def unwrap_dek_def)
  then have "unlock_slot w key (?s\<lparr>ks_wrapped_dek := wrapped, ks_wrap_tag := tag\<rparr>) = Some dek"
    using kek by (cases kdf) (simp_all add: unlock_slot_def is_active_def key_slot_aad_def)
  then show ?thesis using h' by (intro that) (auto simp: is_active_def)
qed

section \<open>Properties\<close>

text \<open>
  A header written into a page reads back, and writing it touches only its own bytes.
\<close>

theorem crypto_header_page_roundtrip:
  assumes "crypto_header_ok h" and "page_ok buf"
  shows "crypto_header_deserialize (crypto_header_serialize_into h buf) = Some h \<and>
    take CRYPTO_HEADER_OFFSET (crypto_header_serialize_into h buf) = take CRYPTO_HEADER_OFFSET buf \<and>
    drop (CRYPTO_HEADER_OFFSET + CRYPTO_HEADER_SIZE) (crypto_header_serialize_into h buf) =
      drop (CRYPTO_HEADER_OFFSET + CRYPTO_HEADER_SIZE) buf"
  using crypto_header_roundtrip [OF assms] crypto_header_frame(1) [OF assms, of 0 324]
    crypto_header_frame(1) [OF assms, of 1356 6836] crypto_header_frame(2) [OF assms, of 0 0] assms(2)
  by (simp add: get_bytes_def)

theorem crypto_header_page_roundtrip_witness:
  "crypto_header_deserialize (crypto_header_serialize_into
     \<lparr>ch_algorithm = ALGO_XCHACHA20POLY1305, ch_stride = 8232, ch_slots = replicate 8 KEY_SLOT_EMPTY\<rparr> zero_page) =
   Some \<lparr>ch_algorithm = ALGO_XCHACHA20POLY1305, ch_stride = 8232, ch_slots = replicate 8 KEY_SLOT_EMPTY\<rparr>"
proof -
  have "key_slot_ok KEY_SLOT_EMPTY" by (simp add: key_slot_ok_def KEY_SLOT_EMPTY_def)
  then have h: "crypto_header_ok \<lparr>ch_algorithm = ALGO_XCHACHA20POLY1305, ch_stride = 8232, ch_slots = replicate 8 KEY_SLOT_EMPTY\<rparr>"
    by (simp add: crypto_header_ok_def ALGO_XCHACHA20POLY1305_def list_all_iff)
  have p: "page_ok zero_page" by simp
  from crypto_header_page_roundtrip [OF h p] show ?thesis by (elim conjE)
qed

text \<open>
  C40. Adding a key to a slot makes that key open the database: unlocking with it yields the wrapped
  data key from that slot, provided no earlier slot opens with the same key; every other slot is
  left as it was, so the keys already in use keep working.
\<close>

theorem wrapped_key_unlocks:
  assumes "aead_ok w" and "wrap_into w k slot key dek ov h = Some (Inr h')"
    and "\<And>j. j < slot \<Longrightarrow> unlock_slot w key (ch_slots h ! j) = None"
  shows "unlock w h' key = Inr (slot, dek) \<and> (\<forall>j. j \<noteq> slot \<longrightarrow> ch_slots h' ! j = ch_slots h ! j) \<and>
    ch_algorithm h' = ch_algorithm h \<and> ch_stride h' = ch_stride h"
proof -
  obtain s where s: "slot < length (ch_slots h)" "h' = h\<lparr>ch_slots := (ch_slots h)[slot := s]\<rparr>"
    "unlock_slot w key s = Some dek" "is_active s"
    by (rule wrap_into_slot [OF assms(1,2)])
  have "unlock_loop w key 0 (ch_slots h') = Inr (0 + slot, dek)"
    using s assms(3) by (intro unlock_loop_first) auto
  then show ?thesis using s by (simp add: unlock_def)
qed

theorem wrapped_key_unlocks_witness:
  "\<exists>h'. wrap_into toy_world 0 0 (Raw [7]) [1, 2] None \<lparr>ch_algorithm = 1, ch_stride = 8232, ch_slots = [KEY_SLOT_EMPTY]\<rparr> =
     Some (Inr h') \<and> unlock toy_world h' (Raw [7]) = Inr (0, [1, 2])"
proof -
  let ?h = "\<lparr>ch_algorithm = 1, ch_stride = 8232, ch_slots = [KEY_SLOT_EMPTY]\<rparr>"
  obtain h' where w: "wrap_into toy_world 0 0 (Raw [7]) [1, 2] None ?h = Some (Inr h')"
    by (simp add: wrap_into_def toy_world_def random_array_def derive_kek_def wrap_dek_def seal_detached_def Let_def)
  have "aead_ok toy_world" using toy_world_ok by (simp add: world_ok_def)
  from wrapped_key_unlocks [OF this w] w show ?thesis by auto
qed

end
