(* ===== verification/Super_Block.thy ===== *)
theory Super_Block
  imports Crypto_Header
begin

text \<open>
  The superblock of \<open>src/src/superblock/mod.rs\<close>: the root pointers of a committed state, stored in
  \<open>superblock_count\<close> slots that take turns. A slot is valid when its checksum, magic, slot count and
  transaction counter pass \<open>validate\<close>; the valid slot with the highest counter is the state of the
  database.
\<close>

section \<open>Definitions\<close>

definition MIN_SUPERBLOCKS :: u32 where "MIN_SUPERBLOCKS = 2"
definition MAX_SUPERBLOCKS :: u32 where "MAX_SUPERBLOCKS = 16"
definition TXN_COUNTER_RESERVE :: u64 where "TXN_COUNTER_RESERVE = push_bit 32 1"
definition MAX_TXN_COUNTER :: u64 where "MAX_TXN_COUNTER = u64_max - TXN_COUNTER_RESERVE"

definition next_txn_counter :: "u64 \<Rightarrow> chisel_error + u64" where
  "next_txn_counter current =
     (let next = saturating_add current 1
      in if MAX_TXN_COUNTER < next then Inl (TxnCounterExhausted current) else Inr next)"

definition HANDLE_ID_RESERVE :: u64 where "HANDLE_ID_RESERVE = push_bit 32 1"
definition MAX_NEXT_HANDLE :: u64 where "MAX_NEXT_HANDLE = u64_max - HANDLE_ID_RESERVE"

definition next_handle_after :: "u64 \<Rightarrow> chisel_error + u64" where
  "next_handle_after current =
     (let next = saturating_add current 1
      in if MAX_NEXT_HANDLE < next then Inl (HandleSpaceExhausted current) else Inr next)"

definition SUPERBLOCK_COUNT_OFFSET :: nat where [simp]: "SUPERBLOCK_COUNT_OFFSET = 308"
definition ROOT_MEMBERSHIP_INDEX_OFFSET :: nat where [simp]: "ROOT_MEMBERSHIP_INDEX_OFFSET = 312"
definition FREEMAP_DEPTH_OFFSET :: nat where [simp]: "FREEMAP_DEPTH_OFFSET = 320"
definition NAMED_ROOT_COUNT :: nat where [simp]: "NAMED_ROOT_COUNT = 8"
definition NAMED_ROOT_NAME_LEN :: nat where [simp]: "NAMED_ROOT_NAME_LEN = 24"
definition NAMED_ROOT_ENTRY_SIZE :: nat where [simp]: "NAMED_ROOT_ENTRY_SIZE = NAMED_ROOT_NAME_LEN + 8"
definition NAMED_ROOTS_OFFSET :: nat where [simp]: "NAMED_ROOTS_OFFSET = 52"

record named_root =
  nr_name :: "u8 list"
  nr_handle :: u64

definition NAMED_ROOT_EMPTY :: named_root where
  "NAMED_ROOT_EMPTY = \<lparr>nr_name = replicate NAMED_ROOT_NAME_LEN 0, nr_handle = 0\<rparr>"

definition named_root_is_empty :: "named_root \<Rightarrow> bool" where
  "named_root_is_empty r \<longleftrightarrow> nr_name r ! 0 = 0"

definition named_root_write :: "nat \<Rightarrow> named_root \<Rightarrow> u8 list \<Rightarrow> u8 list" where
  "named_root_write base entry buf =
     put_u64 (base + NAMED_ROOT_NAME_LEN) (nr_handle entry) (put_bytes base (nr_name entry) buf)"

definition named_root_read :: "nat \<Rightarrow> u8 list \<Rightarrow> named_root" where
  "named_root_read base buf =
     \<lparr>nr_name = get_bytes base NAMED_ROOT_NAME_LEN buf, nr_handle = get_u64 (base + NAMED_ROOT_NAME_LEN) buf\<rparr>"

record superblock =
  sb_magic :: u32
  sb_format_version :: u32
  sb_txn_counter :: u64
  sb_root_handle_table_page :: u64
  sb_root_freemap_page :: u64
  sb_total_pages :: u64
  sb_next_handle :: u64
  sb_page_size :: u32
  sb_named_roots :: "named_root list"
  sb_superblock_count :: u32
  sb_root_membership_index_page :: u64
  sb_freemap_depth :: u32
  sb_encryption :: "crypto_header option"

definition validate :: "hash64 \<Rightarrow> page \<Rightarrow> superblock_defect option" where
  \<comment> \<open>\<open>None\<close> is \<open>Ok(())\<close>\<close>
  "validate xxh buf =
     (if \<not> verify_checksum xxh buf then Some BadChecksum
      else if get_u32 0 buf \<noteq> MAGIC then Some BadMagic
      else let count = get_u32 SUPERBLOCK_COUNT_OFFSET buf
           in if \<not> (MIN_SUPERBLOCKS \<le> count \<and> count \<le> MAX_SUPERBLOCKS) then Some (BadCount count)
              else let txn_counter = get_u64 8 buf
                   in if MAX_TXN_COUNTER < txn_counter then Some (BadTxnCounter txn_counter) else None)"

definition SEALED_BODY_OFFSET :: nat where
  [simp]: "SEALED_BODY_OFFSET = CRYPTO_HEADER_OFFSET + CRYPTO_HEADER_SIZE"
definition BODY_LEN :: nat where [simp]: "BODY_LEN = 8 * 5 + 4 + NAMED_ROOT_COUNT * NAMED_ROOT_ENTRY_SIZE"

definition serialize :: "hash64 \<Rightarrow> superblock \<Rightarrow> page" where
  "serialize xxh sb =
     (let b1 = put_u32 0 (sb_magic sb) zero_page;
          b2 = put_u32 4 (sb_format_version sb) b1;
          b3 = put_u64 8 (sb_txn_counter sb) b2;
          b4 = put_u64 16 (sb_root_handle_table_page sb) b3;
          b5 = put_u64 24 (sb_root_freemap_page sb) b4;
          b6 = put_u64 32 (sb_total_pages sb) b5;
          b7 = put_u64 40 (sb_next_handle sb) b6;
          b8 = put_u32 48 (sb_page_size sb) b7;
          b9 = write_array named_root_write NAMED_ROOTS_OFFSET NAMED_ROOT_ENTRY_SIZE (sb_named_roots sb) b8;
          b10 = put_u32 SUPERBLOCK_COUNT_OFFSET (sb_superblock_count sb) b9;
          b11 = put_u64 ROOT_MEMBERSHIP_INDEX_OFFSET (sb_root_membership_index_page sb) b10;
          b12 = put_u32 FREEMAP_DEPTH_OFFSET (sb_freemap_depth sb) b11
      in stamp_checksum xxh b12)"

definition sb_identity_aad :: "superblock \<Rightarrow> u8 list" where
  "sb_identity_aad sb =
     put_u32 16 (sb_superblock_count sb) (put_u64 8 (sb_txn_counter sb)
       (put_u32 4 (sb_format_version sb) (put_u32 0 (sb_magic sb) (replicate 24 0))))"

definition body_plaintext :: "superblock \<Rightarrow> u8 list" where
  "body_plaintext sb =
     to_le_bytes (sb_root_handle_table_page sb) @ to_le_bytes (sb_root_freemap_page sb) @
     to_le_bytes (sb_root_membership_index_page sb) @ to_le_bytes (sb_total_pages sb) @
     to_le_bytes (sb_next_handle sb) @ to_le_bytes (sb_freemap_depth sb) @
     concat (map (\<lambda>entry. nr_name entry @ to_le_bytes (nr_handle entry)) (sb_named_roots sb))"

text \<open>A slice past the end of the body panics.\<close>

definition load_body :: "superblock \<Rightarrow> u8 list \<Rightarrow> (crypto_error, superblock) res" where
  "load_body sb body =
     (if length body < BODY_LEN then Panic
      else Ok (sb\<lparr>sb_root_handle_table_page := get_u64 0 body, sb_root_freemap_page := get_u64 8 body,
                 sb_root_membership_index_page := get_u64 16 body, sb_total_pages := get_u64 24 body,
                 sb_next_handle := get_u64 32 body, sb_freemap_depth := get_u32 40 body,
                 sb_named_roots := read_array named_root_read 44 NAMED_ROOT_ENTRY_SIZE (length (sb_named_roots sb)) body\<rparr>))"

text \<open>\<open>k\<close> numbers the random draw; \<open>None\<close> is a panic (no header, or no randomness).\<close>

definition serialize_encrypted :: "world \<Rightarrow> u8 list \<Rightarrow> nat \<Rightarrow> superblock \<Rightarrow> page option" where
  "serialize_encrypted w dek k sb =
     (case sb_encryption sb of
        None \<Rightarrow> None
      | Some header \<Rightarrow>
          let b1 = put_u32 0 (sb_magic sb) zero_page;
              b2 = put_u32 4 (sb_format_version sb) b1;
              b3 = put_u64 8 (sb_txn_counter sb) b2;
              b4 = put_u32 48 (sb_page_size sb) b3;
              b5 = put_u32 SUPERBLOCK_COUNT_OFFSET (sb_superblock_count sb) b4;
              b6 = crypto_header_serialize_into header b5;
              aad = sb_identity_aad sb
          in case page_cipher_seal_body w dek k aad (body_plaintext sb) of
               None \<Rightarrow> None
             | Some (nonce, tag, ct) \<Rightarrow>
                 let base = SEALED_BODY_OFFSET;
                     b7 = put_bytes base nonce b6;
                     b8 = put_bytes (base + NONCE_LEN) tag b7;
                     b9 = put_u16 (base + NONCE_LEN + TAG_LEN) (word_of_nat (length ct)) b8;
                     coff = base + NONCE_LEN + TAG_LEN + 2;
                     b10 = put_bytes coff ct b9
                 in Some (stamp_checksum (w_xxh w) b10))"

definition decrypt_body :: "world \<Rightarrow> u8 list \<Rightarrow> page \<Rightarrow> superblock \<Rightarrow> (crypto_error, superblock) res" where
  "decrypt_body w dek raw sb =
     (let base = SEALED_BODY_OFFSET;
          nonce = get_bytes base NONCE_LEN raw;
          tag = get_bytes (base + NONCE_LEN) TAG_LEN raw;
          ct_len = unat (get_u16 (base + NONCE_LEN + TAG_LEN) raw);
          coff = base + NONCE_LEN + TAG_LEN + 2
      in if CHECKSUM_OFFSET < coff + ct_len then Err Auth
         else let ct = get_bytes coff ct_len raw;
                  aad = sb_identity_aad sb
              in case page_cipher_open_body w dek aad nonce tag ct of
                   Inl e \<Rightarrow> Err e
                 | Inr body \<Rightarrow> load_body sb body)"

definition deserialize :: "hash64 \<Rightarrow> page \<Rightarrow> superblock option" where
  "deserialize xxh buf =
     (if validate xxh buf \<noteq> None then None
      else case crypto_header_deserialize buf of
             Some h \<Rightarrow>
               Some \<lparr>sb_magic = get_u32 0 buf, sb_format_version = get_u32 4 buf, sb_txn_counter = get_u64 8 buf,
                     sb_root_handle_table_page = 0, sb_root_freemap_page = 0, sb_total_pages = 0, sb_next_handle = 0,
                     sb_page_size = get_u32 48 buf, sb_named_roots = replicate NAMED_ROOT_COUNT NAMED_ROOT_EMPTY,
                     sb_superblock_count = get_u32 SUPERBLOCK_COUNT_OFFSET buf, sb_root_membership_index_page = 0,
                     sb_freemap_depth = 0, sb_encryption = Some h\<rparr>
           | None \<Rightarrow>
               Some \<lparr>sb_magic = get_u32 0 buf, sb_format_version = get_u32 4 buf, sb_txn_counter = get_u64 8 buf,
                     sb_root_handle_table_page = get_u64 16 buf, sb_root_freemap_page = get_u64 24 buf,
                     sb_total_pages = get_u64 32 buf, sb_next_handle = get_u64 40 buf, sb_page_size = get_u32 48 buf,
                     sb_named_roots = read_array named_root_read NAMED_ROOTS_OFFSET NAMED_ROOT_ENTRY_SIZE NAMED_ROOT_COUNT buf,
                     sb_superblock_count = get_u32 SUPERBLOCK_COUNT_OFFSET buf,
                     sb_root_membership_index_page = get_u64 ROOT_MEMBERSHIP_INDEX_OFFSET buf,
                     sb_freemap_depth = get_u32 FREEMAP_DEPTH_OFFSET buf, sb_encryption = None\<rparr>)"

text \<open>\<open>Iterator::max_by_key\<close>: the last of the maximal elements.\<close>

fun max_by_key :: "('a \<Rightarrow> u64) \<Rightarrow> 'a list \<Rightarrow> 'a option" where
  "max_by_key f [] = None"
| "max_by_key f (x # xs) =
     (case max_by_key f xs of
        None \<Rightarrow> Some x
      | Some y \<Rightarrow> if f y < f x then Some x else Some y)"

definition select :: "hash64 \<Rightarrow> page list \<Rightarrow> superblock option" where
  "select xxh buffers = max_by_key sb_txn_counter (List.map_filter (deserialize xxh) buffers)"

definition diagnose :: "hash64 \<Rightarrow> page list \<Rightarrow> slot_defect list" where
  "diagnose xxh buffers =
     (let bound = unat (case find (\<lambda>n. MIN_SUPERBLOCKS \<le> n \<and> n \<le> MAX_SUPERBLOCKS)
                         (map (get_u32 SUPERBLOCK_COUNT_OFFSET) buffers) of
                    Some n \<Rightarrow> n | None \<Rightarrow> MIN_SUPERBLOCKS)
      in List.map_filter (\<lambda>(i, b). map_option (\<lambda>d. \<lparr>sd_slot = word_of_nat i, sd_defect = d\<rparr>) (validate xxh b))
           (enumerate 0 (take (min bound (length buffers)) buffers)))"

definition new_empty :: "u32 \<Rightarrow> superblock" where
  "new_empty superblock_count =
     \<lparr>sb_magic = MAGIC, sb_format_version = FORMAT_VERSION, sb_txn_counter = ucast (superblock_count - 1),
      sb_root_handle_table_page = PAGE_ID_NONE, sb_root_freemap_page = PAGE_ID_NONE,
      sb_total_pages = ucast superblock_count, sb_next_handle = 1, sb_page_size = word_of_nat PAGE_SIZE,
      sb_named_roots = replicate NAMED_ROOT_COUNT NAMED_ROOT_EMPTY, sb_superblock_count = superblock_count,
      sb_root_membership_index_page = PAGE_ID_NONE, sb_freemap_depth = 0, sb_encryption = None\<rparr>"

definition new_empty_encrypted :: "u32 \<Rightarrow> crypto_header \<Rightarrow> superblock" where
  "new_empty_encrypted superblock_count header =
     \<lparr>sb_magic = MAGIC, sb_format_version = format_version_encrypted, sb_txn_counter = ucast (superblock_count - 1),
      sb_root_handle_table_page = PAGE_ID_NONE, sb_root_freemap_page = PAGE_ID_NONE,
      sb_total_pages = ucast superblock_count, sb_next_handle = 1, sb_page_size = word_of_nat PAGE_SIZE,
      sb_named_roots = replicate NAMED_ROOT_COUNT NAMED_ROOT_EMPTY, sb_superblock_count = superblock_count,
      sb_root_membership_index_page = PAGE_ID_NONE, sb_freemap_depth = 0, sb_encryption = Some header\<rparr>"

definition overwrite_slot_table :: "hash64 \<Rightarrow> crypto_header \<Rightarrow> page \<Rightarrow> bool \<times> page" where
  "overwrite_slot_table xxh h buf =
     (if deserialize xxh buf = None then (False, buf)
      else (True, stamp_checksum xxh (write_array key_slot_write SLOT_TABLE_OFFSET KEY_SLOT_SIZE (ch_slots h) buf)))"

section \<open>The named-root table is an array of records\<close>

definition named_root_ok :: "named_root \<Rightarrow> bool" where
  "named_root_ok r \<longleftrightarrow> length (nr_name r) = 24"

interpretation nr: record_layout named_root_write named_root_read 32 named_root_ok
proof (unfold_locales, goal_cases)
  case (1 x b buf)
  then show ?case by (simp add: named_root_write_def named_root_ok_def)
next
  case (2 x b buf p k)
  then show ?case by (auto simp: named_root_write_def named_root_ok_def get_put_bytes_other get_bytes_put_uint)
next
  case (3 x b buf)
  then show ?case
    by (simp add: named_root_write_def named_root_read_def named_root_ok_def byte_simps get_put_bytes_same)
next
  case (4 b buf buf')
  have "get_bytes b 24 buf = get_bytes b 24 buf'" "get_bytes (b + 24) 8 buf = get_bytes (b + 24) 8 buf'"
    by (rule get_bytes_within [OF 4(1)]; simp)+
  then show ?case by (simp add: named_root_read_def get_u64_def)
qed

section \<open>Serialization\<close>

abbreviation roots_ok :: "superblock \<Rightarrow> bool" where
  "roots_ok sb \<equiv> length (sb_named_roots sb) = 8 \<and> list_all named_root_ok (sb_named_roots sb)"

text \<open>What \<open>serialize\<close> writes below the named-root table.\<close>

definition sb_low :: "superblock \<Rightarrow> page" where
  "sb_low sb = put_u32 48 (sb_page_size sb) (put_u64 40 (sb_next_handle sb) (put_u64 32 (sb_total_pages sb)
     (put_u64 24 (sb_root_freemap_page sb) (put_u64 16 (sb_root_handle_table_page sb) (put_u64 8 (sb_txn_counter sb)
     (put_u32 4 (sb_format_version sb) (put_u32 0 (sb_magic sb) zero_page)))))))"

lemma sb_low_fields:
  "length (sb_low sb) = 8192" "get_u32 0 (sb_low sb) = sb_magic sb" "get_u32 4 (sb_low sb) = sb_format_version sb"
  "get_u64 8 (sb_low sb) = sb_txn_counter sb" "get_u64 16 (sb_low sb) = sb_root_handle_table_page sb"
  "get_u64 24 (sb_low sb) = sb_root_freemap_page sb" "get_u64 32 (sb_low sb) = sb_total_pages sb"
  "get_u64 40 (sb_low sb) = sb_next_handle sb" "get_u32 48 (sb_low sb) = sb_page_size sb" "sb_low sb ! 324 = 0"
  by (simp_all add: sb_low_def byte_simps)

definition sb_mid :: "superblock \<Rightarrow> page" where
  "sb_mid sb = write_array named_root_write 52 32 (sb_named_roots sb) (sb_low sb)"

lemma sb_mid_fields:
  assumes "roots_ok sb"
  shows "length (sb_mid sb) = 8192" "get_u32 0 (sb_mid sb) = sb_magic sb" "get_u32 4 (sb_mid sb) = sb_format_version sb"
    "get_u64 8 (sb_mid sb) = sb_txn_counter sb" "get_u64 16 (sb_mid sb) = sb_root_handle_table_page sb"
    "get_u64 24 (sb_mid sb) = sb_root_freemap_page sb" "get_u64 32 (sb_mid sb) = sb_total_pages sb"
    "get_u64 40 (sb_mid sb) = sb_next_handle sb" "get_u32 48 (sb_mid sb) = sb_page_size sb" "sb_mid sb ! 324 = 0"
    "read_array named_root_read 52 32 8 (sb_mid sb) = sb_named_roots sb"
proof -
  have ok: "list_all named_root_ok (sb_named_roots sb)" using assms by simp
  have fit: "52 + length (sb_named_roots sb) * 32 \<le> length (sb_low sb)" using assms by (simp add: sb_low_fields)
  note fr = nr.write_array_frame_uint [OF ok fit, folded sb_mid_def] nr.write_array_length [OF ok fit, folded sb_mid_def]
  show "length (sb_mid sb) = 8192" by (simp add: fr sb_low_fields)
  show "get_u32 0 (sb_mid sb) = sb_magic sb" "get_u32 4 (sb_mid sb) = sb_format_version sb"
    "get_u32 48 (sb_mid sb) = sb_page_size sb"
    by (simp_all add: fr(1) sb_low_fields)
  show "get_u64 8 (sb_mid sb) = sb_txn_counter sb" "get_u64 16 (sb_mid sb) = sb_root_handle_table_page sb"
    "get_u64 24 (sb_mid sb) = sb_root_freemap_page sb" "get_u64 32 (sb_mid sb) = sb_total_pages sb"
    "get_u64 40 (sb_mid sb) = sb_next_handle sb"
    by (simp_all add: fr(2) sb_low_fields)
  show "sb_mid sb ! 324 = 0" using assms by (simp add: fr(3) sb_low_fields)
  show "read_array named_root_read 52 32 8 (sb_mid sb) = sb_named_roots sb"
    unfolding sb_mid_def by (rule nr.read_write_array [OF ok fit]) (use assms in simp)
qed

lemma serialize_fields:
  assumes "roots_ok sb"
  shows "page_ok (serialize xxh sb)" "verify_checksum xxh (serialize xxh sb)"
    "get_u32 0 (serialize xxh sb) = sb_magic sb" "get_u32 4 (serialize xxh sb) = sb_format_version sb"
    "get_u64 8 (serialize xxh sb) = sb_txn_counter sb" "get_u64 16 (serialize xxh sb) = sb_root_handle_table_page sb"
    "get_u64 24 (serialize xxh sb) = sb_root_freemap_page sb" "get_u64 32 (serialize xxh sb) = sb_total_pages sb"
    "get_u64 40 (serialize xxh sb) = sb_next_handle sb" "get_u32 48 (serialize xxh sb) = sb_page_size sb"
    "get_u32 308 (serialize xxh sb) = sb_superblock_count sb"
    "get_u64 312 (serialize xxh sb) = sb_root_membership_index_page sb"
    "get_u32 320 (serialize xxh sb) = sb_freemap_depth sb" "serialize xxh sb ! 324 = 0"
    "read_array named_root_read 52 32 8 (serialize xxh sb) = sb_named_roots sb"
proof -
  define t where "t = put_u32 320 (sb_freemap_depth sb) (put_u64 312 (sb_root_membership_index_page sb)
    (put_u32 308 (sb_superblock_count sb) (sb_mid sb)))"
  have s: "serialize xxh sb = stamp_checksum xxh t"
    by (simp add: serialize_def t_def sb_mid_def sb_low_def Let_def)
  note f = sb_mid_fields [OF assms]
  have t: "page_ok t" by (simp add: t_def f)
  have low: "p + n \<le> 308 \<Longrightarrow> get_bytes p n t = get_bytes p n (sb_mid sb)" for p n
    by (simp add: t_def byte_simps f)
  show ok: "page_ok (serialize xxh sb)" and "verify_checksum xxh (serialize xxh sb)" using t by (simp_all add: s)
  have body: "page_body (serialize xxh sb) = page_body t" using t by (simp add: s)
  note g = get_body [OF body]
  show "get_u32 0 (serialize xxh sb) = sb_magic sb" "get_u32 4 (serialize xxh sb) = sb_format_version sb"
    "get_u64 8 (serialize xxh sb) = sb_txn_counter sb" "get_u64 16 (serialize xxh sb) = sb_root_handle_table_page sb"
    "get_u64 24 (serialize xxh sb) = sb_root_freemap_page sb" "get_u64 32 (serialize xxh sb) = sb_total_pages sb"
    "get_u64 40 (serialize xxh sb) = sb_next_handle sb" "get_u32 48 (serialize xxh sb) = sb_page_size sb"
    "get_u32 308 (serialize xxh sb) = sb_superblock_count sb"
    "get_u64 312 (serialize xxh sb) = sb_root_membership_index_page sb"
    "get_u32 320 (serialize xxh sb) = sb_freemap_depth sb"
    by (simp_all add: g t_def byte_simps f)
  show "serialize xxh sb ! 324 = 0" using nth_body [OF body, of 324] by (simp add: t_def byte_simps f)
  have "read_array named_root_read 52 32 8 (serialize xxh sb) = read_array named_root_read 52 32 8 (sb_mid sb)"
    using g(1) [of 52 256] low [of 52 256] ok f(1) by (intro nr.read_array_local) simp_all
  then show "read_array named_root_read 52 32 8 (serialize xxh sb) = sb_named_roots sb" by (simp add: f)
qed

text \<open>The superblocks the engine writes.\<close>

definition sb_ok :: "superblock \<Rightarrow> bool" where
  "sb_ok sb \<longleftrightarrow> sb_magic sb = MAGIC \<and> MIN_SUPERBLOCKS \<le> sb_superblock_count sb \<and>
     sb_superblock_count sb \<le> MAX_SUPERBLOCKS \<and> sb_txn_counter sb \<le> MAX_TXN_COUNTER \<and> roots_ok sb"

lemma deserialize_serialize:
  assumes "sb_ok sb" and "sb_encryption sb = None"
  shows "deserialize xxh (serialize xxh sb) = Some sb"
proof -
  have r: "roots_ok sb" using assms(1) by (simp add: sb_ok_def)
  note f = serialize_fields [OF r, of xxh]
  have "validate xxh (serialize xxh sb) = None"
    using assms(1) by (simp add: validate_def sb_ok_def f Let_def not_less)
  then show ?thesis
    using assms(2) by (simp add: deserialize_def crypto_header_deserialize_def f Let_def)
qed

subsection \<open>The sealed form\<close>

abbreviation named_root_bytes :: "named_root \<Rightarrow> u8 list" where
  "named_root_bytes r \<equiv> nr_name r @ to_le_bytes (nr_handle r)"

lemma read_named_roots_concat:
  "list_all named_root_ok rs \<Longrightarrow>
   read_array named_root_read (length pre) 32 (length rs) (pre @ concat (map named_root_bytes rs)) = rs"
proof (induction rs arbitrary: pre)
  case (Cons r rs)
  have r: "length (nr_name r) = 24" using Cons.prems by (simp add: named_root_ok_def)
  have idx: "[0..<Suc n] = 0 # map Suc [0..<n]" for n by (simp add: map_Suc_upt upt_conv_Cons)
  have "named_root_read (length pre) (pre @ concat (map named_root_bytes (r # rs))) = r"
    using r by (simp add: named_root_read_def get_bytes_def get_u64_def)
  moreover have "map (\<lambda>i. named_root_read (length pre + Suc i * 32) (pre @ concat (map named_root_bytes (r # rs)))) [0..<length rs] = rs"
    using Cons.IH [of "pre @ named_root_bytes r"] Cons.prems r by (simp add: read_array_def add.assoc)
  ultimately show ?case unfolding read_array_def length_Cons idx by (simp add: comp_def)
qed (simp add: read_array_def)

lemma length_body_plaintext: "roots_ok sb \<Longrightarrow> length (body_plaintext sb) = 300"
proof -
  assume r: "roots_ok sb"
  then have "map (length \<circ> named_root_bytes) (sb_named_roots sb) = replicate 8 32"
    by (intro nth_equalityI) (auto simp: list_all_length named_root_ok_def)
  then show ?thesis by (simp add: body_plaintext_def length_concat comp_def sum_list_replicate)
qed

definition sb_blank :: "superblock \<Rightarrow> superblock" where
  \<comment> \<open>what an encrypted slot shows before its body is opened\<close>
  "sb_blank sb = sb\<lparr>sb_root_handle_table_page := 0, sb_root_freemap_page := 0, sb_total_pages := 0, sb_next_handle := 0,
     sb_named_roots := replicate NAMED_ROOT_COUNT NAMED_ROOT_EMPTY, sb_root_membership_index_page := 0, sb_freemap_depth := 0\<rparr>"

lemma load_body_plaintext:
  assumes "roots_ok sb"
  shows "load_body (sb_blank sb) (body_plaintext sb) = Ok sb"
proof -
  let ?pre = "to_le_bytes (sb_root_handle_table_page sb) @ to_le_bytes (sb_root_freemap_page sb) @
     to_le_bytes (sb_root_membership_index_page sb) @ to_le_bytes (sb_total_pages sb) @
     to_le_bytes (sb_next_handle sb) @ to_le_bytes (sb_freemap_depth sb)"
  have "read_array named_root_read 44 32 8 (body_plaintext sb) = sb_named_roots sb"
    using read_named_roots_concat [of "sb_named_roots sb" ?pre] assms by (simp add: body_plaintext_def)
  moreover have "get_u64 0 (body_plaintext sb) = sb_root_handle_table_page sb"
    "get_u64 8 (body_plaintext sb) = sb_root_freemap_page sb" "get_u64 16 (body_plaintext sb) = sb_root_membership_index_page sb"
    "get_u64 24 (body_plaintext sb) = sb_total_pages sb" "get_u64 32 (body_plaintext sb) = sb_next_handle sb"
    "get_u32 40 (body_plaintext sb) = sb_freemap_depth sb"
    by (simp_all add: body_plaintext_def get_u64_def get_u32_def get_bytes_def)
  ultimately show ?thesis using length_body_plaintext [OF assms] by (simp add: load_body_def sb_blank_def)
qed

lemma serialize_encrypted_fields:
  assumes ok: "sb_ok sb" and h: "sb_encryption sb = Some h" "crypto_header_ok h" and W: "world_ok w"
  obtains buf nonce tag ct where "serialize_encrypted w dek k sb = Some buf" and "page_ok buf"
    and "verify_checksum (w_xxh w) buf" and "get_u32 0 buf = sb_magic sb" and "get_u32 4 buf = sb_format_version sb"
    and "get_u64 8 buf = sb_txn_counter sb" and "get_u32 48 buf = sb_page_size sb"
    and "get_u32 308 buf = sb_superblock_count sb" and "crypto_header_deserialize buf = Some h"
    and "get_bytes 1356 24 buf = nonce" and "get_bytes 1380 16 buf = tag" and "get_u16 1396 buf = 300"
    and "get_bytes 1398 300 buf = ct" and "w_decrypt w dek nonce (sb_identity_aad sb) ct tag = Some (body_plaintext sb)"
proof -
  obtain nonce where n: "w_random w k 24 = Some nonce" "length nonce = 24"
    using W by (auto simp: world_ok_def elim: rng_okE)
  obtain ct tag where e: "w_encrypt w dek nonce (sb_identity_aad sb) (body_plaintext sb) = (ct, tag)" by fastforce
  have r: "roots_ok sb" using ok by (simp add: sb_ok_def)
  have aead: "aead_ok w" using W by (simp add: world_ok_def)
  have c: "length ct = 300" "length tag = 16"
    and d: "w_decrypt w dek nonce (sb_identity_aad sb) ct tag = Some (body_plaintext sb)"
    using encrypt_decrypt [OF aead e] length_body_plaintext [OF r] by auto
  define b5 where "b5 = put_u32 308 (sb_superblock_count sb) (put_u32 48 (sb_page_size sb) (put_u64 8 (sb_txn_counter sb)
    (put_u32 4 (sb_format_version sb) (put_u32 0 (sb_magic sb) zero_page))))"
  define b6 where "b6 = crypto_header_serialize_into h b5"
  define t where "t = put_bytes 1398 ct (put_u16 1396 300 (put_bytes 1380 tag (put_bytes 1356 nonce b6)))"
  have len5: "page_ok b5" by (simp add: b5_def)
  note hf = crypto_header_frame [OF h(2) len5, folded b6_def]
  have len6: "page_ok b6" using hf(2) [of 0 0] by simp
  have f6: "get_u32 0 b6 = sb_magic sb" "get_u32 4 b6 = sb_format_version sb" "get_u64 8 b6 = sb_txn_counter sb"
    "get_u32 48 b6 = sb_page_size sb" "get_u32 308 b6 = sb_superblock_count sb"
    using hf(1) by (simp_all add: get_u32_def get_u64_def)
      (simp_all add: b5_def byte_simps flip: get_u32_def get_u64_def)
  have lent: "page_ok t" using len6 n c by (simp add: t_def)
  have ser: "serialize_encrypted w dek k sb = Some (stamp_checksum (w_xxh w) t)"
    using h(1) n e c
    by (simp add: serialize_encrypted_def page_cipher_seal_body_def random_array_def seal_detached_def Let_def t_def b6_def b5_def)
  have body: "page_body (stamp_checksum (w_xxh w) t) = page_body t" using lent by simp
  note g = get_body [OF body]
  have th: "get_bytes 324 1032 t = get_bytes 324 1032 b6"
    using len6 n c by (simp add: t_def get_put_bytes_other get_bytes_put_uint)
  have "crypto_header_deserialize (stamp_checksum (w_xxh w) t) = crypto_header_deserialize b6"
    using g(1) [of 324 1032] th lent len6 by (intro crypto_header_local) auto
  then have "crypto_header_deserialize (stamp_checksum (w_xxh w) t) = Some h"
    using crypto_header_roundtrip [OF h(2) len5] by (simp add: b6_def)
  then show ?thesis
    using ser lent n c d len6 f6 g
    by (intro that [of "stamp_checksum (w_xxh w) t" nonce tag ct])
      (simp_all add: t_def get_put_bytes_same get_put_bytes_other byte_simps)
qed

lemma decrypt_serialize_encrypted:
  assumes ok: "sb_ok sb" and h: "sb_encryption sb = Some h" "crypto_header_ok h" and W: "world_ok w"
  shows "\<exists>buf. serialize_encrypted w dek k sb = Some buf \<and> page_ok buf \<and> deserialize (w_xxh w) buf = Some (sb_blank sb) \<and>
    decrypt_body w dek buf (sb_blank sb) = Ok sb"
proof (rule serialize_encrypted_fields [OF assms, of dek k])
  fix buf nonce tag ct
  assume f: "serialize_encrypted w dek k sb = Some buf" "page_ok buf" "verify_checksum (w_xxh w) buf"
    "get_u32 0 buf = sb_magic sb" "get_u32 4 buf = sb_format_version sb" "get_u64 8 buf = sb_txn_counter sb"
    "get_u32 48 buf = sb_page_size sb" "get_u32 308 buf = sb_superblock_count sb" "crypto_header_deserialize buf = Some h"
    "get_bytes 1356 24 buf = nonce" "get_bytes 1380 16 buf = tag" "get_u16 1396 buf = 300" "get_bytes 1398 300 buf = ct"
    "w_decrypt w dek nonce (sb_identity_aad sb) ct tag = Some (body_plaintext sb)"
  have "validate (w_xxh w) buf = None" using ok f by (simp add: validate_def sb_ok_def Let_def not_less)
  then have "deserialize (w_xxh w) buf = Some (sb_blank sb)"
    using f h(1) by (simp add: deserialize_def sb_blank_def)
  moreover have "sb_identity_aad (sb_blank sb) = sb_identity_aad sb" by (simp add: sb_identity_aad_def sb_blank_def)
  then have "decrypt_body w dek buf (sb_blank sb) = Ok sb"
    using f load_body_plaintext ok
    by (simp add: decrypt_body_def page_cipher_open_body_def open_detached_def Let_def sb_ok_def)
  ultimately show ?thesis using f by blast
qed

section \<open>Selecting the current slot\<close>

lemma max_by_key_None: "max_by_key f xs = None \<longleftrightarrow> xs = []"
  by (cases xs) (auto split: option.splits)

lemma max_by_key_Some:
  "max_by_key f xs = Some y \<Longrightarrow> y \<in> set xs \<and> (\<forall>x \<in> set xs. f x \<le> f y)"
  by (induction xs arbitrary: y) (fastforce simp: max_by_key_None split: option.splits if_splits)+

lemma set_select_candidates: "set (List.map_filter g xs) = {y. \<exists>x \<in> set xs. g x = Some y}"
  by (induction xs) (auto simp: map_filter_simps split: option.splits)

lemma select_Some:
  assumes "select xxh slots = Some sb"
  shows "\<exists>i < length slots. deserialize xxh (slots ! i) = Some sb"
    and "i < length slots \<Longrightarrow> deserialize xxh (slots ! i) = Some s \<Longrightarrow> sb_txn_counter s \<le> sb_txn_counter sb"
proof -
  have m: "sb \<in> {y. \<exists>x \<in> set slots. deserialize xxh x = Some y}"
    "\<And>s. s \<in> {y. \<exists>x \<in> set slots. deserialize xxh x = Some y} \<Longrightarrow> sb_txn_counter s \<le> sb_txn_counter sb"
    using max_by_key_Some [OF assms [unfolded select_def]] unfolding set_select_candidates by blast+
  show "\<exists>i < length slots. deserialize xxh (slots ! i) = Some sb" using m(1) by (auto simp: in_set_conv_nth)
  assume "i < length slots" and "deserialize xxh (slots ! i) = Some s"
  then show "sb_txn_counter s \<le> sb_txn_counter sb" by (intro m(2)) auto
qed

lemma select_unique:
  assumes "i < length slots" and "deserialize xxh (slots ! i) = Some sb"
    and "\<And>j s. j < length slots \<Longrightarrow> deserialize xxh (slots ! j) = Some s \<Longrightarrow>
      s = sb \<or> sb_txn_counter s < sb_txn_counter sb"
  shows "select xxh slots = Some sb"
proof (cases "select xxh slots")
  case None
  then have "List.map_filter (deserialize xxh) slots = []" by (simp add: select_def max_by_key_None)
  then have "{y. \<exists>x \<in> set slots. deserialize xxh x = Some y} = {}"
    using set_select_candidates [of "deserialize xxh" slots] by simp
  moreover have "slots ! i \<in> set slots" using assms(1) by simp
  ultimately show ?thesis using assms(2) by auto
next
  case (Some y)
  obtain j where "j < length slots" "deserialize xxh (slots ! j) = Some y" using select_Some(1) [OF Some] by blast
  then have "y = sb \<or> sb_txn_counter y < sb_txn_counter sb" by (rule assms(3))
  then show ?thesis using select_Some(2) [OF Some assms(1,2)] Some by auto
qed

text \<open>Slots hold counters that belong to them: the slot of counter \<open>c\<close> is \<open>c mod N\<close>.\<close>

definition placed :: "hash64 \<Rightarrow> page list \<Rightarrow> bool" where
  "placed xxh slots \<longleftrightarrow> (\<forall>j < length slots. \<forall>sb. deserialize xxh (slots ! j) = Some sb \<longrightarrow>
     unat (sb_txn_counter sb) mod length slots = j)"

lemma next_txn_counter_Inr:
  assumes "next_txn_counter c = Inr c'"
  shows "unat c' = Suc (unat c)" and "c' \<le> MAX_TXN_COUNTER"
proof -
  have eq: "c' = saturating_add c 1" and le: "c' \<le> MAX_TXN_COUNTER" using assms
    by (auto simp: next_txn_counter_def Let_def not_less split: if_splits)
  have "unat c' = min (2 ^ 64 - 1) (unat c + 1)" unfolding eq by (simp add: unat_saturating_add)
  moreover have "unat c' \<le> 2 ^ 64 - 1 - 2 ^ 32"
    using le by (simp add: word_le_nat_alt MAX_TXN_COUNTER_def TXN_COUNTER_RESERVE_def)
  ultimately show "unat c' = Suc (unat c)" by simp
  show "c' \<le> MAX_TXN_COUNTER" by (rule le)
qed

lemma mod_Suc_neq: "2 \<le> (n :: nat) \<Longrightarrow> Suc c mod n \<noteq> c mod n"
  by (simp add: mod_Suc)

lemma placed_unique:
  assumes "placed xxh slots" and "i < length slots" and "j < length slots"
    and "deserialize xxh (slots ! i) = Some a" and "deserialize xxh (slots ! j) = Some b"
    and "sb_txn_counter a = sb_txn_counter b"
  shows "a = b"
proof -
  have "i = j" using assms by (metis placed_def)
  then show ?thesis using assms(4,5) by simp
qed

lemma placed_update:
  assumes "placed xxh slots" and "\<And>sb. deserialize xxh page = Some sb \<Longrightarrow> unat (sb_txn_counter sb) mod length slots = i"
  shows "placed xxh (slots[i := page])"
  unfolding placed_def
proof (intro allI impI)
  fix j sb assume "j < length (slots[i := page])" and "deserialize xxh (slots[i := page] ! j) = Some sb"
  then show "unat (sb_txn_counter sb) mod length (slots[i := page]) = j"
    using assms by (cases "j = i") (auto simp: placed_def)
qed

lemma slot_write_atomic:
  assumes N: "2 \<le> length slots" and pl: "placed xxh slots" and sel: "select xxh slots = Some old"
    and c: "next_txn_counter (sb_txn_counter old) = Inr c'" and i: "i = unat c' mod length slots"
  shows "deserialize xxh page = Some new \<Longrightarrow> sb_txn_counter new = c' \<Longrightarrow>
      select xxh (slots[i := page]) = Some new \<and> placed xxh (slots[i := page])"
    and "deserialize xxh page = None \<Longrightarrow> select xxh (slots[i := page]) = Some old \<and> placed xxh (slots[i := page])"
proof -
  obtain k where k: "k < length slots" "deserialize xxh (slots ! k) = Some old" using select_Some(1) [OF sel] by blast
  note c' = next_txn_counter_Inr(1) [OF c]
  have ki: "k \<noteq> i"
    using pl k c' mod_Suc_neq [OF N, of "unat (sb_txn_counter old)"] by (auto simp: placed_def i)
  have "0 < length slots" by (rule less_le_trans [OF _ N]) simp
  then have il: "i < length slots" by (simp add: i)
  have le: "sb_txn_counter s \<le> sb_txn_counter old" if "j < length slots" "deserialize xxh (slots ! j) = Some s" for j s
    using select_Some(2) [OF sel that] .
  have lt: "sb_txn_counter old < c'" using c' by (simp add: word_less_nat_alt)
  {
    assume n: "deserialize xxh page = Some new" "sb_txn_counter new = c'"
    have "select xxh (slots[i := page]) = Some new"
    proof (rule select_unique)
      show "i < length (slots[i := page])" and "deserialize xxh (slots[i := page] ! i) = Some new" using il n by auto
      fix j s assume "j < length (slots[i := page])" and "deserialize xxh (slots[i := page] ! j) = Some s"
      then show "s = new \<or> sb_txn_counter s < sb_txn_counter new"
        using le [of j s] lt n by (cases "j = i") auto
    qed
    moreover have "placed xxh (slots[i := page])" using n i by (intro placed_update [OF pl]) auto
    ultimately show "select xxh (slots[i := page]) = Some new \<and> placed xxh (slots[i := page])" ..
  next
    assume n: "deserialize xxh page = None"
    have "select xxh (slots[i := page]) = Some old"
    proof (rule select_unique)
      show "k < length (slots[i := page])" and "deserialize xxh (slots[i := page] ! k) = Some old" using k ki by auto
      fix j s assume j: "j < length (slots[i := page])" and s: "deserialize xxh (slots[i := page] ! j) = Some s"
      then have s': "j \<noteq> i" "deserialize xxh (slots ! j) = Some s" using n il by (cases "j = i"; auto)+
      then show "s = old \<or> sb_txn_counter s < sb_txn_counter old"
        using le [of j s] placed_unique [OF pl _ k(1) s'(2) k(2)] j by fastforce
    qed
    moreover have "placed xxh (slots[i := page])" using n by (intro placed_update [OF pl]) auto
    ultimately show "select xxh (slots[i := page]) = Some old \<and> placed xxh (slots[i := page])" ..
  }
qed

section \<open>Rewriting the key slots\<close>

lemma overwrite_slot_table_body:
  assumes "page_ok buf" and "length ss = 8" and "list_all key_slot_ok ss"
  defines "t \<equiv> write_array key_slot_write 332 128 ss buf"
  shows "page_ok t" and "p + k \<le> 332 \<or> 1356 \<le> p \<Longrightarrow> get_bytes p k t = get_bytes p k buf"
    and "read_array key_slot_read 332 128 8 t = ss"
proof -
  have fit: "332 + length ss * 128 \<le> length buf" using assms(1,2) by simp
  show "page_ok t" unfolding t_def using ks.write_array_length [OF assms(3) fit] assms(1) by simp
  show "p + k \<le> 332 \<or> 1356 \<le> p \<Longrightarrow> get_bytes p k t = get_bytes p k buf"
    unfolding t_def using assms(2) by (intro ks.write_array_frame [OF assms(3) fit]) auto
  show "read_array key_slot_read 332 128 8 t = ss"
    unfolding t_def by (rule ks.read_write_array [OF assms(3) fit]) (simp add: assms(2))
qed

lemma overwrite_slot_table_deserialize:
  assumes p: "page_ok buf" and d: "deserialize xxh buf = Some sb" and e: "sb_encryption sb = Some h0"
    and h: "length (ch_slots h) = 8" "list_all key_slot_ok (ch_slots h)"
  defines "buf' \<equiv> snd (overwrite_slot_table xxh h buf)"
  shows "fst (overwrite_slot_table xxh h buf)" and "page_ok buf'"
    and "deserialize xxh buf' = Some (sb\<lparr>sb_encryption := Some (h0\<lparr>ch_slots := ch_slots h\<rparr>)\<rparr>)"
    and "get_bytes 1356 6828 buf' = get_bytes 1356 6828 buf"
proof -
  let ?t = "write_array key_slot_write 332 128 (ch_slots h) buf"
  note t = overwrite_slot_table_body [OF p h]
  have ow: "overwrite_slot_table xxh h buf = (True, stamp_checksum xxh ?t)" using d by (simp add: overwrite_slot_table_def)
  show "fst (overwrite_slot_table xxh h buf)" by (simp add: ow)
  have b': "buf' = stamp_checksum xxh ?t" by (simp add: buf'_def ow)
  show p': "page_ok buf'" unfolding b' using t(1) by simp
  have body: "page_body buf' = page_body ?t" unfolding b' using t(1) by simp
  have frame: "get_bytes q k buf' = get_bytes q k buf" if "q + k \<le> 332 \<or> 1356 \<le> q \<and> q + k \<le> 8184" for q k
    using that get_body(1) [OF body, of q k] t(2) [of q k] by auto
  show "get_bytes 1356 6828 buf' = get_bytes 1356 6828 buf" by (rule frame) simp
  have u: "get_u32 q buf' = get_u32 q buf" if "q + 4 \<le> 332" for q using frame [of q 4] that by (simp add: get_u32_def)
  have u8: "get_u64 q buf' = get_u64 q buf" if "q + 8 \<le> 332" for q using frame [of q 8] that by (simp add: get_u64_def)
  have n: "buf' ! 324 = buf ! 324" by (rule nth_of_get_bytes) (use frame [of 324 1] p p' in simp_all)
  have "verify_checksum xxh buf'" unfolding b' using t(1) by simp
  then have "validate xxh buf' = None" using d by (auto simp: deserialize_def validate_def u u8 Let_def split: if_splits)
  moreover have "read_array key_slot_read 332 128 8 buf' = ch_slots h"
    using ks.read_array_local [of 332 8 buf' ?t] get_body(1) [OF body, of 332 1024] t p' by simp
  moreover have "buf ! 324 \<noteq> 0" "h0 = \<lparr>ch_algorithm = buf ! 324, ch_stride = get_u32 325 buf,
      ch_slots = read_array key_slot_read 332 128 8 buf\<rparr>"
    using d e by (auto simp: deserialize_def crypto_header_deserialize_def Let_def split: if_splits)
  ultimately show "deserialize xxh buf' = Some (sb\<lparr>sb_encryption := Some (h0\<lparr>ch_slots := ch_slots h\<rparr>)\<rparr>)"
    using d by (auto simp: deserialize_def crypto_header_deserialize_def Let_def u u8 n split: if_splits)
qed

section \<open>Properties\<close>


lemma new_empty_ok: "sb_ok (new_empty 2)" "sb_encryption (new_empty 2) = None"
  by (simp_all add: sb_ok_def new_empty_def MIN_SUPERBLOCKS_def MAX_SUPERBLOCKS_def MAX_TXN_COUNTER_def
      TXN_COUNTER_RESERVE_def NAMED_ROOT_EMPTY_def named_root_ok_def list_all_iff)


text \<open>C36. A plaintext superblock the engine writes reads back field for field.\<close>

theorem superblock_roundtrip:
  assumes "sb_ok sb" and "sb_encryption sb = None"
  shows "deserialize xxh (serialize xxh sb) = Some sb"
  using assms by (rule deserialize_serialize)

theorem superblock_roundtrip_witness:
  "deserialize (\<lambda>_. 0) (serialize (\<lambda>_. 0) (new_empty 2)) = Some (new_empty 2)"
  by (rule superblock_roundtrip [OF new_empty_ok])

text \<open>
  C37. An encrypted superblock shows only its public fields and the crypto header until its body is
  opened; opening it with the data key restores every field.
\<close>

theorem sealed_superblock_roundtrip:
  assumes "sb_ok sb" and "sb_encryption sb = Some h" and "crypto_header_ok h" and "world_ok w"
  shows "\<exists>buf. serialize_encrypted w dek k sb = Some buf \<and> deserialize (w_xxh w) buf = Some (sb_blank sb) \<and>
    decrypt_body w dek buf (sb_blank sb) = Ok sb"
  using decrypt_serialize_encrypted [OF assms] by blast

theorem sealed_superblock_roundtrip_witness:
  "\<exists>buf. serialize_encrypted toy_world [1] 0 (new_empty_encrypted 2 \<lparr>ch_algorithm = 1, ch_stride = 8232, ch_slots = replicate 8 KEY_SLOT_EMPTY\<rparr>) = Some buf"
proof -
  let ?h = "\<lparr>ch_algorithm = 1, ch_stride = 8232, ch_slots = replicate 8 KEY_SLOT_EMPTY\<rparr>"
  have h: "crypto_header_ok ?h" by (simp add: crypto_header_ok_def key_slot_ok_def KEY_SLOT_EMPTY_def list_all_iff)
  have sb: "sb_ok (new_empty_encrypted 2 ?h)" "sb_encryption (new_empty_encrypted 2 ?h) = Some ?h"
    using new_empty_ok by (simp_all add: sb_ok_def new_empty_def new_empty_encrypted_def)
  from sealed_superblock_roundtrip [OF sb h toy_world_ok, of "[1]" 0] show ?thesis by blast
qed



text \<open>
  C39. Rewriting the key-slot table of a slot (key rotation) changes the key slots and nothing else:
  the slot still validates with the same counter, and its sealed body opens exactly as before.
\<close>

theorem key_rotation_keeps_body:
  assumes "page_ok buf" and "deserialize xxh buf = Some sb" and "sb_encryption sb = Some h0"
    and "length (ch_slots h) = 8" and "list_all key_slot_ok (ch_slots h)"
  shows "deserialize xxh (snd (overwrite_slot_table xxh h buf)) = Some (sb\<lparr>sb_encryption := Some (h0\<lparr>ch_slots := ch_slots h\<rparr>)\<rparr>) \<and>
    decrypt_body w dek (snd (overwrite_slot_table xxh h buf)) sb = decrypt_body w dek buf sb"
proof -
  let ?b = "snd (overwrite_slot_table xxh h buf)"
  note o = overwrite_slot_table_deserialize [OF assms]
  have b: "get_bytes q k ?b = get_bytes q k buf" if "1356 \<le> q" "q + k \<le> 8184" for q k
    using that by (intro get_bytes_within [OF o(4)]) auto
  have "get_u16 1396 ?b = get_u16 1396 buf" using b [of 1396 2] by (simp add: get_u16_def)
  then have "decrypt_body w dek ?b sb = decrypt_body w dek buf sb"
    using b by (simp add: decrypt_body_def Let_def)
  with o(3) show ?thesis by blast
qed

theorem key_rotation_keeps_body_witness:
  "\<exists>buf sb. deserialize (w_xxh toy_world) buf = Some sb \<and>
     decrypt_body toy_world [1] (snd (overwrite_slot_table (w_xxh toy_world)
       \<lparr>ch_algorithm = 1, ch_stride = 8232, ch_slots = replicate 8 KEY_SLOT_EMPTY\<rparr> buf)) sb = decrypt_body toy_world [1] buf sb"
proof -
  let ?h = "\<lparr>ch_algorithm = 1, ch_stride = 8232, ch_slots = replicate 8 KEY_SLOT_EMPTY\<rparr>"
  have h: "crypto_header_ok ?h" by (simp add: crypto_header_ok_def key_slot_ok_def KEY_SLOT_EMPTY_def list_all_iff)
  have sb: "sb_ok (new_empty_encrypted 2 ?h)" "sb_encryption (new_empty_encrypted 2 ?h) = Some ?h"
    using new_empty_ok by (simp_all add: sb_ok_def new_empty_def new_empty_encrypted_def)
  obtain buf where buf: "page_ok buf" "deserialize (w_xxh toy_world) buf = Some (sb_blank (new_empty_encrypted 2 ?h))"
    using decrypt_serialize_encrypted [OF sb h toy_world_ok, of "[1]" 0] by blast
  have e: "sb_encryption (sb_blank (new_empty_encrypted 2 ?h)) = Some ?h" using sb(2) by (simp add: sb_blank_def)
  have s: "length (ch_slots ?h) = 8" "list_all key_slot_ok (ch_slots ?h)" using h by (simp_all add: crypto_header_ok_def)
  from key_rotation_keeps_body [OF buf e s, of toy_world "[1]"] buf(2) show ?thesis by blast
qed

end
