(* ===== verification/Page_Alloc.thy ===== *)
theory Page_Alloc
  imports Page_Store
begin

text \<open>
  The copy-on-write structures (handle table, free-map tree, membership index) take their new pages
  from a closure \<open>alloc: &mut dyn FnMut(&mut PageCache) -> Result<u64>\<close>. An allocator is a
  computation on the closure's captured state paired with the cache; the structures run on a context
  of that state, the cache and what the call borrows mutably besides. The locale \<open>page_alloc\<close> is the
  contract of an allocator: the page it returns is none of the pages in use, it reads as zeros, and
  no page in use changes. Its lemmas are the rules by which the structures' proofs read, write and
  allocate pages.
\<close>

type_synonym 'x allocator = "('x \<times> page_cache, chisel_error, u64) op"

record ('x, 'o) tree_ctx =
  t_env :: 'x
  t_cache :: page_cache
  t_own :: 'o

type_synonym ('x, 'o, 'a) tree_op = "(('x, 'o) tree_ctx, chisel_error, 'a) op"

definition on_cache :: "'a cache_op \<Rightarrow> ('x, 'o, 'a) tree_op" where
  "on_cache m = on_field t_cache (\<lambda>c s. s\<lparr>t_cache := c\<rparr>) m"

definition call_alloc :: "'x allocator \<Rightarrow> ('x, 'o, u64) tree_op" where
  "call_alloc alloc = on_field (\<lambda>s. (t_env s, t_cache s)) (\<lambda>(x, c) s. s\<lparr>t_env := x, t_cache := c\<rparr>) alloc"

definition set_own :: "('o \<Rightarrow> 'o) \<Rightarrow> ('x, 'o, unit) tree_op" where
  "set_own f = modify (\<lambda>s. s\<lparr>t_own := f (t_own s)\<rparr>)"

text \<open>A slice \<open>buf[off..off + 8]\<close> read as a \<open>u64\<close>, or written: out of range it panics.\<close>

definition slice_u64 :: "nat \<Rightarrow> page \<Rightarrow> ('s, 'e, u64) op" where
  "slice_u64 off buf = (if off + 8 \<le> length buf then ok (get_u64 off buf) else panic)"

text \<open>The pages in use that can be read, by their bodies.\<close>

definition page_store :: "world \<Rightarrow> u64 set \<Rightarrow> page_cache \<Rightarrow> u64 \<rightharpoonup> u8 list" where
  "page_store w T c p = (if p \<in> T \<and> readable w c p then body_at w c p else None)"

lemma quiet_page_store: "quiet w s t \<Longrightarrow> page_store w T t = page_store w T s"
  by (simp add: page_store_def fun_eq_iff quiet_body quiet_readable)

lemma page_store_mono: "page_store w T c p = Some b \<Longrightarrow> page_store w UNIV c p = Some b"
  by (simp add: page_store_def split: if_splits)

lemma page_store_SomeD:
  "page_store w T c p = Some b \<Longrightarrow> p \<in> T \<and> readable w c p \<and> body_at w c p = Some b"
  by (simp add: page_store_def split: if_splits)

locale page_alloc =
  fixes w :: world
    and alloc :: "'x allocator"
    and taken :: "'x \<Rightarrow> page_cache \<Rightarrow> u64 set"
    and good :: "'x \<Rightarrow> page_cache \<Rightarrow> nat \<Rightarrow> bool"
    and room :: "'x \<Rightarrow> page_cache \<Rightarrow> nat \<Rightarrow> bool"
  assumes world: "good x c k \<Longrightarrow> world_ok w"
    and alloc_spec: "pc_inv w c \<Longrightarrow> good x c 1 \<Longrightarrow>
      wp alloc (\<lambda>p (y, d). keeps w (taken x c) c d \<and> p \<notin> taken x c \<and> p \<noteq> 0 \<and>
          taken y d = insert p (taken x c) \<and> body_at w d p = Some (replicate 8184 0) \<and> is_dirty d p \<and>
          raw w d \<subseteq> insert p (raw w c) \<and> (\<forall>k. good x c (Suc k) \<longrightarrow> good y d k) \<and> (\<forall>k. room x c (Suc k) \<longrightarrow> room y d k))
        (\<lambda>e (y, d). pc_wf w d \<and> same_device c d \<and> env_error w e \<and> (no_faults w \<longrightarrow> \<not> room x c 1)) (x, c)"
    and good_mono: "good x c k \<Longrightarrow> j \<le> k \<Longrightarrow> good x c j"
    and room_mono: "room x c k \<Longrightarrow> j \<le> k \<Longrightarrow> room x c j"
    and taken_below: "good x c k \<Longrightarrow> p \<in> taken x c \<Longrightarrow> p < next_page_id c"
    and room_roomy: "room x c k \<Longrightarrow> roomy c 0"
    and client_write: "good x c j \<Longrightarrow> updates w c m d \<Longrightarrow> dom m \<subseteq> taken x c \<Longrightarrow> next_page_id d = next_page_id c \<Longrightarrow>
      taken x d = taken x c \<and> (\<forall>k. good x c k \<longrightarrow> good x d k) \<and> (\<forall>k. room x c k \<longrightarrow> room x d k)"
begin

definition in_use :: "('x, 'o) tree_ctx \<Rightarrow> u64 set" where
  "in_use s = taken (t_env s) (t_cache s)"

definition store :: "('x, 'o) tree_ctx \<Rightarrow> u64 \<rightharpoonup> u8 list" where
  "store s = page_store w (in_use s) (t_cache s)"

definition fit :: "nat \<Rightarrow> ('x, 'o) tree_ctx \<Rightarrow> bool" where
  "fit k s \<longleftrightarrow> pc_inv w (t_cache s) \<and> good (t_env s) (t_cache s) k"

text \<open>
  A step writes no page that was in use but those in \<open>W\<close>, which are also the only ones it may leave
  without a valid checksum.
\<close>

abbreviation raws :: "('x, 'o) tree_ctx \<Rightarrow> u64 set" where
  "raws s \<equiv> raw w (t_cache s)"

definition step :: "u64 set \<Rightarrow> nat \<Rightarrow> ('x, 'o) tree_ctx \<Rightarrow> ('x, 'o) tree_ctx \<Rightarrow> bool" where
  "step W n s t \<longleftrightarrow> keeps w (in_use s - W) (t_cache s) (t_cache t) \<and> in_use s \<subseteq> in_use t \<and> raws t \<subseteq> raws s \<union> W \<and>
     (\<forall>k. good (t_env s) (t_cache s) (n + k) \<longrightarrow> good (t_env t) (t_cache t) k) \<and>
     (\<forall>k. room (t_env s) (t_cache s) (n + k) \<longrightarrow> room (t_env t) (t_cache t) k)"

definition stuck :: "nat \<Rightarrow> ('x, 'o) tree_ctx \<Rightarrow> chisel_error \<Rightarrow> ('x, 'o) tree_ctx \<Rightarrow> bool" where
  "stuck n s e t \<longleftrightarrow> pc_wf w (t_cache t) \<and> same_device (t_cache s) (t_cache t) \<and> env_error w e \<and> (no_faults w \<longrightarrow> \<not> room (t_env s) (t_cache s) n)"

lemma fit_mono: "fit k s \<Longrightarrow> j \<le> k \<Longrightarrow> fit j s"
  using good_mono by (auto simp: fit_def)

lemma step_refl: "fit k s \<Longrightarrow> step W 0 s s"
  by (simp add: step_def fit_def keeps_refl)

lemma step_trans: "step W n s t \<Longrightarrow> step V m t u \<Longrightarrow> step (W \<union> V) (n + m) s u"
  unfolding step_def by (auto simp: add.assoc intro: keeps_trans)

lemma step_sealed: "step W n s t \<Longrightarrow> W \<inter> in_use s \<subseteq> V \<Longrightarrow> W \<inter> raws t \<subseteq> raws s \<union> V \<Longrightarrow> n \<le> m \<Longrightarrow> step V m s t"
  unfolding step_def using good_mono room_mono
  by (auto intro: keeps_mono elim!: keeps_mono)

lemma step_weaken: "step W n s t \<Longrightarrow> W \<subseteq> V \<Longrightarrow> n \<le> m \<Longrightarrow> step V m s t"
  by (rule step_sealed) auto

lemma step_raw: "step W n s t \<Longrightarrow> raws t \<subseteq> raws s \<union> W"
  by (simp add: step_def)

lemma step_fit: "step W n s t \<Longrightarrow> fit (n + k) s \<Longrightarrow> fit k t"
  by (auto simp: step_def fit_def keeps_def)

lemma step_in_use: "step W n s t \<Longrightarrow> in_use s \<subseteq> in_use t"
  by (simp add: step_def)

lemma step_store: "step W n s t \<Longrightarrow> p \<in> in_use s \<Longrightarrow> p \<notin> W \<Longrightarrow> store t p = store s p"
  by (auto simp: step_def store_def page_store_def keeps_def)

lemma store_in_use: "store s p = Some b \<Longrightarrow> p \<in> in_use s"
  by (simp add: store_def page_store_def split: if_splits)

lemma step_store_Some: "step W n s t \<Longrightarrow> store s p = Some b \<Longrightarrow> p \<notin> W \<Longrightarrow> store t p = Some b"
  using step_store [of W n s t p] store_in_use [of s p b] by simp

lemma stuck_later: "step W n s t \<Longrightarrow> stuck m t e u \<Longrightarrow> stuck (n + m) s e u"
  using same_device_trans [OF keeps_device] by (fastforce simp: step_def stuck_def)

lemma stuck_mono: "stuck n s e t \<Longrightarrow> n \<le> m \<Longrightarrow> stuck m s e t"
  using room_mono by (auto simp: stuck_def)

lemma step_own [simp]: "step W n s (t\<lparr>t_own := v\<rparr>) = step W n s t" "step W n (s\<lparr>t_own := v\<rparr>) t = step W n s t"
  by (simp_all add: step_def in_use_def)

lemma store_own [simp]: "store (t\<lparr>t_own := v\<rparr>) = store t" "in_use (t\<lparr>t_own := v\<rparr>) = in_use t"
  "fit k (t\<lparr>t_own := v\<rparr>) = fit k t"
  by (simp_all add: store_def in_use_def fit_def)

lemma stuck_own [simp]: "stuck n (s\<lparr>t_own := v\<rparr>) e t = stuck n s e t" "stuck n s e (t\<lparr>t_own := v\<rparr>) = stuck n s e t"
  by (simp_all add: stuck_def)

lemma cache_step:
  assumes fit: "fit k s" and up: "updates w (t_cache s) m d" "dom m \<subseteq> in_use s"
    and n: "next_page_id d = next_page_id (t_cache s)"
  shows "step (dom m) 0 s (s\<lparr>t_cache := d\<rparr>)" and "in_use (s\<lparr>t_cache := d\<rparr>) = in_use s"
    and "store (s\<lparr>t_cache := d\<rparr>) = store s ++ m"
proof -
  have cw: "taken (t_env s) d = taken (t_env s) (t_cache s)"
      "\<And>k. good (t_env s) (t_cache s) k \<Longrightarrow> good (t_env s) d k" "\<And>k. room (t_env s) (t_cache s) k \<Longrightarrow> room (t_env s) d k"
    using client_write [OF _ up(1), of "t_env s" k] fit up(2) n by (auto simp: in_use_def fit_def)
  show iu: "in_use (s\<lparr>t_cache := d\<rparr>) = in_use s" using cw by (simp add: in_use_def)
  then show "step (dom m) 0 s (s\<lparr>t_cache := d\<rparr>)"
    using cw updates_keeps [OF up(1), of "in_use s - dom m"] up(1) by (auto simp: step_def updates_def)
  have "store (s\<lparr>t_cache := d\<rparr>) p = (store s ++ m) p" for p
  proof (cases "m p")
    case None
    then have "p \<notin> dom m" by auto
    then have "readable w d p = readable w (t_cache s) p" using up(1) by (simp add: updates_def)
    then show ?thesis using None up(1) iu by (simp add: store_def page_store_def updates_def map_add_def)
  next
    case (Some b)
    then have "is_dirty d p" "body_at w d p = Some b" "p \<in> in_use s" using up by (auto simp: updates_def map_add_def)
    then show ?thesis using Some iu dirty_readable by (simp add: store_def page_store_def map_add_def)
  qed
  then show "store (s\<lparr>t_cache := d\<rparr>) = store s ++ m" by blast
qed

lemma fails_stuck: "pc_inv w (t_cache s) \<Longrightarrow> fails w (t_cache s) 0 e d \<Longrightarrow> stuck n s e (s\<lparr>t_cache := d\<rparr>)"
  using room_roomy roomy_calm by (fastforce simp: fails_def stuck_def)

text \<open>A computation on the cache that changes no page.\<close>

lemma quiet_wp:
  assumes fit: "fit k s" and m: "wp m (\<lambda>r d. quiet w (t_cache s) d \<and> P r) (read_fails w (t_cache s)) (t_cache s)"
  shows "wp (on_cache m) (\<lambda>r t. P r \<and> step {} 0 s t \<and> store t = store s \<and> in_use t = in_use s \<and> t_own t = t_own s)
    (stuck 0 s) s"
  unfolding on_cache_def wp_on_field
proof (rule wp_mono [OF m], goal_cases)
  case (1 r d)
  then have q: "quiet w (t_cache s) d" by simp
  have "next_page_id d = next_page_id (t_cache s)" using q by (simp add: quiet_def same_store_def)
  note cs = cache_step [OF fit quiet_updates [OF q] _ this]
  show ?case using 1 cs by auto
next
  case (2 e d)
  then show ?case using room_roomy by (auto simp: read_fails_def stuck_def)
qed

text \<open>The three rules.\<close>

lemma read_wp:
  assumes fit: "fit k s" and b: "store s p = Some b"
  shows "wp (on_cache (pc_get w p))
    (\<lambda>buf t. (page_ok buf \<and> page_body buf = b) \<and> step {} 0 s t \<and> store t = store s \<and> in_use t = in_use s \<and> t_own t = t_own s)
    (stuck 0 s) s"
  using fit world page_store_SomeD [of w "in_use s" "t_cache s"] b
  by (intro quiet_wp [OF fit] store_read_wp) (auto simp: fit_def store_def)

lemma write_wp:
  assumes fit: "fit k s" and b: "store s p = Some b"
    and f: "\<And>buf. page_ok buf \<Longrightarrow> page_body buf = b \<Longrightarrow> page_body (f buf) = b'"
      "\<And>buf. page_ok buf \<Longrightarrow> page_ok (f buf)"
  shows "wp (on_cache (pc_with_mut w p f))
    (\<lambda>_ t. step {p} 0 s t \<and> store t = (store s)(p \<mapsto> b') \<and> in_use t = in_use s \<and> t_own t = t_own s \<and>
       ((\<forall>buf. page_ok buf \<longrightarrow> verify_checksum (w_xxh w) (f buf)) \<longrightarrow> p \<notin> raws t))
    (stuck 0 s) s"
proof -
  have inv: "pc_inv w (t_cache s)" and g: "good (t_env s) (t_cache s) k" using fit by (simp_all add: fit_def)
  have b': "body_at w (t_cache s) p = Some b" "readable w (t_cache s) p" and p: "p \<in> in_use s"
    using page_store_SomeD [of w "in_use s" "t_cache s"] b by (auto simp: store_def)
  have pn: "p < next_page_id (t_cache s)" using taken_below [OF g] p by (simp add: in_use_def)
  show ?thesis
    unfolding on_cache_def wp_on_field
  proof (rule wp_mono [OF store_write_wp [OF inv world [OF g] pn b', where f = f and b' = b']], goal_cases)
    case (1 buf)
    then show ?case by (rule f(1))
  next
    case (2 buf)
    then show ?case by (rule f(2))
  next
    case (3 a d)
    then have "updates w (t_cache s) [p \<mapsto> b'] d" "next_page_id d = next_page_id (t_cache s)" by auto
    note cs = cache_step [OF fit this(1) _ this(2)]
    show ?case using cs p 3 by auto
  next
    case (4 e d)
    then show ?case using fails_stuck [OF inv] by simp
  qed
qed

lemma guarded_wp:
  assumes fit: "fit k s" and b: "store s p = Some b"
    and f: "\<And>buf. page_ok buf \<Longrightarrow> page_body buf = b \<Longrightarrow> page_body (f buf) = b'"
      "\<And>buf. page_ok buf \<Longrightarrow> page_ok (f buf)"
    and g: "\<And>buf. page_ok buf \<Longrightarrow> page_body buf = b \<Longrightarrow> g buf = ok ()"
  shows "wp (on_cache (and_then (pc_get_mut w p) (\<lambda>buf. and_then (g buf) (\<lambda>_. pc_store p (f buf)))))
    (\<lambda>_ t. step {p} 0 s t \<and> store t = (store s)(p \<mapsto> b') \<and> in_use t = in_use s \<and> t_own t = t_own s \<and>
       ((\<forall>buf. page_ok buf \<longrightarrow> verify_checksum (w_xxh w) (f buf)) \<longrightarrow> p \<notin> raws t))
    (stuck 0 s) s"
proof -
  have g': "good (t_env s) (t_cache s) k" and inv: "pc_inv w (t_cache s)" using fit by (simp_all add: fit_def)
  have b': "body_at w (t_cache s) p = Some b" and p: "p \<in> in_use s"
    using page_store_SomeD [of w "in_use s" "t_cache s"] b by (auto simp: store_def)
  have pn: "p < next_page_id (t_cache s)" using taken_below [OF g'] p by (simp add: in_use_def)
  have "wp (on_cache (pc_with_mut w p f))
    (\<lambda>_ t. step {p} 0 s t \<and> store t = (store s)(p \<mapsto> b') \<and> in_use t = in_use s \<and> t_own t = t_own s \<and>
       ((\<forall>buf. page_ok buf \<longrightarrow> verify_checksum (w_xxh w) (f buf)) \<longrightarrow> p \<notin> raws t)) (stuck 0 s) s"
    by (rule write_wp [OF fit b]) (rule f, assumption+)+
  then show ?thesis
    unfolding on_cache_def wp_on_field by (rule guarded_write_wp [OF _ inv world [OF g'] pn b' g])
qed

lemma alloc_wp:
  assumes fit: "fit 1 s"
  shows "wp (call_alloc alloc)
    (\<lambda>p t. step {p} 1 s t \<and> p \<notin> in_use s \<and> p \<noteq> 0 \<and> in_use t = insert p (in_use s) \<and>
       store t = (store s)(p \<mapsto> replicate 8184 0) \<and> t_own t = t_own s)
    (stuck 1 s) s"
proof -
  have inv: "pc_inv w (t_cache s)" and g: "good (t_env s) (t_cache s) 1" using fit by (simp_all add: fit_def)
  show ?thesis
    unfolding call_alloc_def wp_on_field
  proof (rule wp_mono [OF alloc_spec [OF inv g]], goal_cases)
    case (1 p yd)
    obtain y d where yd: "yd = (y, d)" by (cases yd)
    let ?t = "s\<lparr>t_env := y, t_cache := d\<rparr>"
    have k: "keeps w (in_use s) (t_cache s) d" and p: "p \<notin> in_use s" "p \<noteq> 0"
      and iu: "in_use ?t = insert p (in_use s)" and z: "body_at w d p = Some (replicate 8184 0)" and dd: "is_dirty d p"
      using 1 yd by (auto simp: in_use_def)
    have "store ?t q = ((store s)(p \<mapsto> replicate 8184 0)) q" for q
      using k iu z dirty_readable [OF dd z] by (auto simp: store_def page_store_def keeps_def)
    moreover have "step {p} 1 s ?t" using 1 yd keeps_mono [OF k] iu by (auto simp: step_def)
    ultimately show ?case using p iu yd by auto
  next
    case (2 e yd)
    then show ?case by (cases yd) (simp add: stuck_def)
  qed
qed

end

section \<open>Extending the file\<close>

text \<open>The closure \<open>|c| c.new_page()\<close>: every page below the next id counts as in use.\<close>

definition new_page_alloc :: "world \<Rightarrow> unit allocator" where
  "new_page_alloc w = on_field snd (\<lambda>c (x, _). (x, c)) (pc_new_page w)"

definition ids_below :: "unit \<Rightarrow> page_cache \<Rightarrow> u64 set" where
  "ids_below x c = {p. p < next_page_id c}"

definition ids_good :: "world \<Rightarrow> unit \<Rightarrow> page_cache \<Rightarrow> nat \<Rightarrow> bool" where
  "ids_good w x c k \<longleftrightarrow> world_ok w \<and> 0 < next_page_id c \<and> id_room c k"

definition ids_room :: "unit \<Rightarrow> page_cache \<Rightarrow> nat \<Rightarrow> bool" where
  "ids_room x c k \<longleftrightarrow> roomy c k"

lemma new_page_alloc_spec:
  assumes inv: "pc_inv w c" and g: "ids_good w x c 1"
  shows "wp (new_page_alloc w) (\<lambda>p (y, d). keeps w (ids_below x c) c d \<and> p \<notin> ids_below x c \<and> p \<noteq> 0 \<and>
        ids_below y d = insert p (ids_below x c) \<and> body_at w d p = Some (replicate 8184 0) \<and> is_dirty d p \<and>
        raw w d \<subseteq> insert p (raw w c) \<and> (\<forall>k. ids_good w x c (Suc k) \<longrightarrow> ids_good w y d k) \<and> (\<forall>k. ids_room x c (Suc k) \<longrightarrow> ids_room y d k))
      (\<lambda>e (y, d). pc_wf w d \<and> same_device c d \<and> env_error w e \<and> (no_faults w \<longrightarrow> \<not> ids_room x c 1)) (x, c)"
proof -
  have W: "world_ok w" and r: "id_room c (Suc 0)" and pos: "0 < next_page_id c" using g by (simp_all add: ids_good_def)
  note nx = id_room_Suc(1) [OF r]
  show ?thesis
    unfolding new_page_alloc_def wp_on_field snd_conv
  proof (rule wp_mono [OF store_new_wp [OF inv W r]], goal_cases)
    case (1 p d)
    then have p: "p = next_page_id c" and up: "updates w c [p \<mapsto> replicate 8184 0] d"
      and n: "next_page_id d = next_page_id c + 1" by auto
    have "ids_below () d = insert p (ids_below () c)"
      using nx unfolding ids_below_def n p by (auto simp: word_less_nat_alt word_unat_eq_iff)
    moreover have "keeps w (ids_below x c) c d" using p by (intro updates_keeps [OF up]) (auto simp: ids_below_def)
    moreover have "ids_good w x d k" if "ids_good w x c (Suc k)" for k
      using that nx n by (auto simp: ids_good_def id_room_def word_less_nat_alt)
    moreover have "roomy d k" if "roomy c (Suc k)" for k
      by (rule updates_roomy [OF up, of 1]) (use that nx n in simp_all)
    ultimately show ?case using p up pos by (auto simp: updates_def ids_below_def ids_room_def)
  next
    case (2 e d)
    then show ?case using roomy_calm [OF inv, of 1] by (auto simp: fails_def ids_room_def)
  qed
qed

interpretation np: page_alloc w "new_page_alloc w" ids_below "ids_good w" ids_room for w :: world
proof (unfold_locales, goal_cases)
  case (2 c x)
  then show ?case by (rule new_page_alloc_spec)
next
  case (7 x c j m d)
  then show ?case using updates_roomy [OF 7(2), of 0]
    by (auto simp: ids_below_def ids_good_def id_room_def ids_room_def)
qed (auto simp: ids_good_def ids_room_def id_room_def roomy_def ids_below_def)

section \<open>Reads only\<close>

lemma store_page_wp:
  assumes "pc_inv w c" and "world_ok w" and "page_store w T c p = Some b"
  shows "wp (pc_get w p) (\<lambda>buf d. quiet w c d \<and> page_ok buf \<and> page_body buf = b) (read_fails w c) c"
  using page_store_SomeD [OF assms(3)] by (intro store_read_wp assms) auto

text \<open>A loop that folds a function over its elements and changes no page.\<close>

lemma fold_each_quiet:
  assumes "pc_inv w c"
    and "\<And>x acc d. x \<in> set xs \<Longrightarrow> quiet w c d \<Longrightarrow> wp (f x acc) (\<lambda>r e. quiet w d e \<and> r = h x acc) (read_fails w d) d"
  shows "wp (fold_each xs f acc) (\<lambda>r d. quiet w c d \<and> r = fold h xs acc) (read_fails w c) c"
  using assms
proof (induction xs arbitrary: c acc)
  case Nil
  then show ?case by (simp add: wp_simps quiet_refl)
next
  case (Cons x xs)
  show ?case
    unfolding fold_each.simps wp_and_then
  proof (rule wp_mono [OF Cons.prems(2) [of x c acc]], simp, rule quiet_refl [OF Cons.prems(1)], goal_cases)
    case (1 a d)
    then have q: "quiet w c d" and a: "a = h x acc" by auto
    have "wp (fold_each xs f a) (\<lambda>r e. quiet w d e \<and> r = fold h xs a) (read_fails w d) d"
      by (rule Cons.IH) (use q Cons.prems(2) quiet_trans [OF q] in \<open>auto simp: quiet_def\<close>)
    then show ?case
      by (rule wp_mono) (auto simp: a intro: quiet_trans [OF q] read_fails_later [OF q])
  qed
qed

lemma fold_append: "fold (\<lambda>x acc. acc @ g x) xs acc = acc @ concat (map g xs)"
  by (induction xs arbitrary: acc) simp_all

lemma fold_each_quiet_wp:
  assumes "pc_inv w c"
    and "\<And>x acc d. x \<in> set xs \<Longrightarrow> quiet w c d \<Longrightarrow> wp (f x acc) (\<lambda>r e. quiet w d e \<and> r = acc @ g x) (read_fails w d) d"
  shows "wp (fold_each xs f acc) (\<lambda>r d. quiet w c d \<and> r = acc @ concat (map g xs)) (read_fails w c) c"
  using fold_each_quiet [where h = "\<lambda>x acc. acc @ g x", OF assms] by (simp add: fold_append)

text \<open>The pages below the next page id.\<close>

definition in_file :: "world \<Rightarrow> page_cache \<Rightarrow> u64 \<rightharpoonup> u8 list" where
  "in_file w c = page_store w {p. p < next_page_id c} c"

lemma np_store [simp]: "np.store w s = in_file w (t_cache s)"
  by (simp add: np.store_def np.in_use_def ids_below_def in_file_def)

lemma np_in_use: "np.in_use s = {p. p < next_page_id (t_cache s)}"
  by (simp add: np.in_use_def ids_below_def)

lemma np_fit: "np.fit w k s \<longleftrightarrow> pc_inv w (t_cache s) \<and> world_ok w \<and> 0 < next_page_id (t_cache s) \<and> id_room (t_cache s) k"
  by (auto simp: np.fit_def ids_good_def)

lemma np_fresh:
  assumes "np.in_use t = np.in_use s \<union> F" and "F \<inter> np.in_use s = {}"
  shows "F = {p. next_page_id (t_cache s) \<le> p \<and> p < next_page_id (t_cache t)}"
  using assms by (auto simp: np_in_use set_eq_iff not_le)

lemma np_step_bodies:
  "np.step w {} n s t \<Longrightarrow> p < next_page_id (t_cache s) \<Longrightarrow> body_at w (t_cache t) p = body_at w (t_cache s) p"
  by (simp add: np.step_def np_in_use keeps_def)

lemma call_new_page: "call_alloc (new_page_alloc w) = on_cache (pc_new_page w)"
  by (auto simp: call_alloc_def new_page_alloc_def on_cache_def on_field_def fun_eq_iff split: prod.splits)

end
