(* ===== verification/Radix_Tree.thy ===== *)
theory Radix_Tree
  imports Page_Format
begin

text \<open>
  What the three on-disk radix trees have in common, as functions of a map from page ids to page
  bodies: an interior page holds 1021 child ids (0 for an absent subtree), a leaf page holds the
  slots of one format. \<open>rt_get\<close> is the reference meaning of a tree, the value at every key;
  \<open>rt_wf\<close> says that its pages are there and carry the right tags, \<open>rt_tree\<close> that no page occurs
  twice in it, \<open>rt_spine\<close> that its leftmost path reaches the leaves.
\<close>

record 'v rt_format =
  rt_slots :: nat
  rt_slot :: "u8 list \<Rightarrow> nat \<Rightarrow> 'v"
  rt_absent :: 'v
  rt_leaf :: "u8 list \<Rightarrow> bool"
  rt_node :: "u8 list \<Rightarrow> bool"

definition child_at :: "u8 list \<Rightarrow> nat \<Rightarrow> u64" where
  "child_at b i = get_u64 (16 + i * 8) b"

definition rt_span :: "'v rt_format \<Rightarrow> nat \<Rightarrow> nat" where
  "rt_span K l = rt_slots K * 1021 ^ l"

fun rt_get :: "'v rt_format \<Rightarrow> (u64 \<rightharpoonup> u8 list) \<Rightarrow> nat \<Rightarrow> u64 \<Rightarrow> nat \<Rightarrow> 'v" where
  "rt_get K B 0 p k = rt_slot K (the (B p)) k"
| "rt_get K B (Suc l) p k =
     (let c = child_at (the (B p)) (k div rt_span K l)
      in if c = 0 then rt_absent K else rt_get K B l c (k mod rt_span K l))"

fun rt_wf :: "'v rt_format \<Rightarrow> (u64 \<rightharpoonup> u8 list) \<Rightarrow> nat \<Rightarrow> u64 \<Rightarrow> bool" where
  "rt_wf K B 0 p \<longleftrightarrow> (\<exists>b. B p = Some b \<and> length b = 8184 \<and> rt_leaf K b)"
| "rt_wf K B (Suc l) p \<longleftrightarrow> (\<exists>b. B p = Some b \<and> length b = 8184 \<and> rt_node K b \<and>
     (\<forall>i < 1021. child_at b i \<noteq> 0 \<longrightarrow> rt_wf K B l (child_at b i)))"

fun rt_pages :: "(u64 \<rightharpoonup> u8 list) \<Rightarrow> nat \<Rightarrow> u64 \<Rightarrow> u64 set" where
  "rt_pages B 0 p = {p}"
| "rt_pages B (Suc l) p = insert p (\<Union>i < 1021.
     if child_at (the (B p)) i = 0 then {} else rt_pages B l (child_at (the (B p)) i))"

definition kid_pages :: "(u64 \<rightharpoonup> u8 list) \<Rightarrow> nat \<Rightarrow> u64 \<Rightarrow> u64 set" where
  "kid_pages B l c = (if c = 0 then {} else rt_pages B l c)"

definition other_pages :: "(u64 \<rightharpoonup> u8 list) \<Rightarrow> nat \<Rightarrow> u8 list \<Rightarrow> nat \<Rightarrow> u64 set" where
  "other_pages B l b i = (\<Union>j \<in> {..<1021} - {i}. kid_pages B l (child_at b j))"

fun rt_tree :: "(u64 \<rightharpoonup> u8 list) \<Rightarrow> nat \<Rightarrow> u64 \<Rightarrow> bool" where
  "rt_tree B 0 p \<longleftrightarrow> True"
| "rt_tree B (Suc l) p \<longleftrightarrow> (\<forall>i < 1021. p \<notin> kid_pages B l (child_at (the (B p)) i) \<and>
     (child_at (the (B p)) i \<noteq> 0 \<longrightarrow> rt_tree B l (child_at (the (B p)) i)) \<and>
     kid_pages B l (child_at (the (B p)) i) \<inter> other_pages B l (the (B p)) i = {})"

fun rt_spine :: "(u64 \<rightharpoonup> u8 list) \<Rightarrow> nat \<Rightarrow> u64 \<Rightarrow> bool" where
  "rt_spine B 0 p \<longleftrightarrow> True"
| "rt_spine B (Suc l) p \<longleftrightarrow> child_at (the (B p)) 0 \<noteq> 0 \<and> rt_spine B l (child_at (the (B p)) 0)"

text \<open>The state a tree's owner keeps: present, well formed and unshared.\<close>

definition rt_ok :: "'v rt_format \<Rightarrow> (u64 \<rightharpoonup> u8 list) \<Rightarrow> nat \<Rightarrow> u64 \<Rightarrow> bool" where
  "rt_ok K B l p \<longleftrightarrow> p \<noteq> 0 \<and> rt_wf K B l p \<and> rt_tree B l p"

lemma rt_span_0 [simp]: "rt_span K 0 = rt_slots K"
  by (simp add: rt_span_def)

lemma rt_span_Suc: "rt_span K (Suc l) = 1021 * rt_span K l"
  by (simp add: rt_span_def)

lemma rt_index: "k < rt_span K (Suc l) \<Longrightarrow> k div rt_span K l < 1021"
  by (simp add: rt_span_Suc less_mult_imp_div_less)

lemma rt_pages_kids: "rt_pages B (Suc l) p = insert p (\<Union>i < 1021. kid_pages B l (child_at (the (B p)) i))"
  by (simp add: kid_pages_def)

declare rt_pages.simps(2) [simp del]

lemma rt_pages_root [simp]: "p \<in> rt_pages B l p"
  by (cases l) (simp_all add: rt_pages_kids)

lemma rt_pages_Suc: "i < 1021 \<Longrightarrow> B p = Some b \<Longrightarrow>
  rt_pages B (Suc l) p = insert p (kid_pages B l (child_at b i) \<union> other_pages B l b i)"
  by (force simp: rt_pages_kids other_pages_def)

lemma kid_in_pages: "i < 1021 \<Longrightarrow> B p = Some b \<Longrightarrow> child_at b i \<noteq> 0 \<Longrightarrow>
  rt_pages B l (child_at b i) \<subseteq> rt_pages B (Suc l) p"
  by (auto simp: rt_pages_Suc kid_pages_def)

lemma other_in_pages: "i < 1021 \<Longrightarrow> B p = Some b \<Longrightarrow> other_pages B l b i \<subseteq> rt_pages B (Suc l) p"
  by (auto simp: rt_pages_Suc)

lemma rt_wf_dom: "rt_wf K B l p \<Longrightarrow> q \<in> rt_pages B l p \<Longrightarrow> \<exists>b. B q = Some b"
  by (induction l arbitrary: p) (auto simp: rt_pages_kids kid_pages_def split: if_splits)

lemma rt_wf_root: "rt_wf K B l p \<Longrightarrow> \<exists>b. B p = Some b \<and> length b = 8184"
  by (cases l) auto

subsection \<open>A tree depends on its own pages only\<close>

lemma rt_frame:
  assumes "\<And>q. q \<in> rt_pages B l p \<Longrightarrow> B' q = B q"
  shows "rt_pages B' l p = rt_pages B l p \<and> rt_wf K B' l p = rt_wf K B l p \<and> rt_tree B' l p = rt_tree B l p \<and>
    rt_spine B' l p = rt_spine B l p \<and> (\<forall>k < rt_span K l. rt_get K B' l p k = rt_get K B l p k)"
  using assms
proof (induction l arbitrary: p)
  case (Suc l)
  have p: "B' p = B p" using Suc.prems by simp
  let ?b = "the (B p)"
  have IH: "rt_pages B' l (child_at ?b i) = rt_pages B l (child_at ?b i) \<and>
      rt_wf K B' l (child_at ?b i) = rt_wf K B l (child_at ?b i) \<and>
      rt_tree B' l (child_at ?b i) = rt_tree B l (child_at ?b i) \<and>
      rt_spine B' l (child_at ?b i) = rt_spine B l (child_at ?b i) \<and>
      (\<forall>k < rt_span K l. rt_get K B' l (child_at ?b i) k = rt_get K B l (child_at ?b i) k)"
    if "i < 1021" "child_at ?b i \<noteq> 0" for i
    by (rule Suc.IH, rule Suc.prems) (use that in \<open>auto simp: rt_pages_kids kid_pages_def\<close>)
  have kid: "kid_pages B' l (child_at ?b i) = kid_pages B l (child_at ?b i)" if "i < 1021" for i
    using IH [OF that] by (simp add: kid_pages_def)
  have oth: "other_pages B' l ?b i = other_pages B l ?b i" for i
    using kid by (auto simp: other_pages_def)
  have "rt_pages B' (Suc l) p = rt_pages B (Suc l) p"
    using kid p by (simp add: rt_pages_kids)
  moreover have "rt_wf K B' (Suc l) p = rt_wf K B (Suc l) p"
    using IH p by auto
  moreover have "rt_tree B' (Suc l) p = rt_tree B (Suc l) p"
    using IH kid oth p by simp
  moreover have "rt_spine B' (Suc l) p = rt_spine B (Suc l) p"
    using IH [of 0] p by auto
  moreover have "rt_get K B' (Suc l) p k = rt_get K B (Suc l) p k" if k: "k < rt_span K (Suc l)" for k
  proof -
    have "0 < rt_span K l" using k by (cases "rt_span K l") (auto simp: rt_span_Suc)
    then show ?thesis using IH [OF rt_index [OF k]] p by (simp add: Let_def)
  qed
  ultimately show ?case by blast
qed simp

lemma rt_ok_frame: "rt_ok K B l p \<Longrightarrow> (\<And>q. q \<in> rt_pages B l p \<Longrightarrow> B' q = B q) \<Longrightarrow> rt_ok K B' l p"
  using rt_frame [of B l p B' K] by (simp add: rt_ok_def)

subsection \<open>Replacing one child\<close>

lemma child_at_put:
  assumes "length b = 8184" and "i < 1021" and "j < 1021"
  shows "child_at (put_u64 (16 + i * 8) c b) j = (if j = i then c else child_at b j)"
proof (cases "j = i")
  case False
  then have "16 + j * 8 + 8 \<le> 16 + i * 8 \<or> 16 + i * 8 + 8 \<le> 16 + j * 8" by linarith
  then show ?thesis using assms False by (simp add: child_at_def byte_simps)
qed (use assms in \<open>simp add: child_at_def byte_simps\<close>)

text \<open>
  The interior page at \<open>q\<close> is the one at \<open>p\<close> with child \<open>i\<close> replaced by the root of a tree \<open>c\<close>, and
  the other children are as they were.
\<close>

definition child_replaced ::
  "'v rt_format \<Rightarrow> (u64 \<rightharpoonup> u8 list) \<Rightarrow> (u64 \<rightharpoonup> u8 list) \<Rightarrow> nat \<Rightarrow> u64 \<Rightarrow> u64 \<Rightarrow> nat \<Rightarrow> u64 \<Rightarrow> u8 list \<Rightarrow> bool" where
  "child_replaced K B B' l p q i c b \<longleftrightarrow> rt_wf K B (Suc l) p \<and> B p = Some b \<and> i < 1021 \<and>
     B' q = Some (put_u64 (16 + i * 8) c b) \<and> rt_node K (put_u64 (16 + i * 8) c b) \<and>
     c \<noteq> 0 \<and> rt_wf K B' l c \<and> (\<forall>r \<in> other_pages B l b i. B' r = B r)"

lemma child_replacedD:
  assumes "child_replaced K B B' l p q i c b"
  shows "length b = 8184" and "B p = Some b" and "i < 1021" and "B' q = Some (put_u64 (16 + i * 8) c b)"
    and "c \<noteq> 0" and "j < 1021 \<Longrightarrow> child_at (put_u64 (16 + i * 8) c b) j = (if j = i then c else child_at b j)"
proof -
  show len: "length b = 8184" and "B p = Some b" and i: "i < 1021"
    and "B' q = Some (put_u64 (16 + i * 8) c b)" and "c \<noteq> 0"
    using assms by (auto simp: child_replaced_def)
  show "child_at (put_u64 (16 + i * 8) c b) j = (if j = i then c else child_at b j)" if "j < 1021"
    by (rule child_at_put [OF len i that])
qed

lemma other_frame:
  assumes "child_replaced K B B' l p q i c b" and "j < 1021" and "j \<noteq> i" and "child_at b j \<noteq> 0"
  shows "rt_pages B' l (child_at b j) = rt_pages B l (child_at b j) \<and>
    rt_wf K B' l (child_at b j) = rt_wf K B l (child_at b j) \<and>
    rt_tree B' l (child_at b j) = rt_tree B l (child_at b j) \<and>
    rt_spine B' l (child_at b j) = rt_spine B l (child_at b j) \<and>
    (\<forall>k < rt_span K l. rt_get K B' l (child_at b j) k = rt_get K B l (child_at b j) k)"
  by (rule rt_frame) (use assms in \<open>auto simp: child_replaced_def other_pages_def kid_pages_def\<close>)

lemma kid_frame:
  "child_replaced K B B' l p q i c b \<Longrightarrow> j < 1021 \<Longrightarrow> j \<noteq> i \<Longrightarrow>
   kid_pages B' l (child_at b j) = kid_pages B l (child_at b j)"
  using other_frame [of K B B' l p q i c b j] by (simp add: kid_pages_def)

lemma replaced_wf:
  assumes "child_replaced K B B' l p q i c b"
  shows "rt_wf K B' (Suc l) q"
proof -
  have "rt_wf K B' l (child_at (put_u64 (16 + i * 8) c b) j)"
    if "j < 1021" "child_at (put_u64 (16 + i * 8) c b) j \<noteq> 0" for j
    using that child_replacedD(6) [OF assms that(1)] other_frame [OF assms that(1)] assms
    by (auto simp: child_replaced_def split: if_splits)
  then show ?thesis using assms child_replacedD(1) [OF assms] by (simp add: child_replaced_def)
qed

lemma replaced_pages:
  assumes "child_replaced K B B' l p q i c b"
  shows "rt_pages B' (Suc l) q = insert q (rt_pages B' l c \<union> other_pages B l b i)"
proof -
  note d = child_replacedD [OF assms]
  have "other_pages B' l (put_u64 (16 + i * 8) c b) i = other_pages B l b i"
    using kid_frame [OF assms] d(6) by (auto simp: other_pages_def)
  then show ?thesis using rt_pages_Suc [where B = B', OF d(3,4)] d(5) d(6) [OF d(3)] by (simp add: kid_pages_def)
qed

lemma replaced_get:
  assumes "child_replaced K B B' l p q i c b" and k: "k < rt_span K (Suc l)"
  shows "rt_get K B' (Suc l) q k =
    (if k div rt_span K l = i then rt_get K B' l c (k mod rt_span K l) else rt_get K B (Suc l) p k)"
proof -
  have "0 < rt_span K l" using k by (cases "rt_span K l") (auto simp: rt_span_Suc)
  then show ?thesis
    using other_frame [OF assms(1) rt_index [OF k]] child_replacedD(6) [OF assms(1) rt_index [OF k]]
      child_replacedD(2,4,5) [OF assms(1)] by (auto simp: Let_def)
qed

lemma replaced_spine:
  "child_replaced K B B' l p q i c b \<Longrightarrow> rt_spine B (Suc l) p \<Longrightarrow> (i = 0 \<Longrightarrow> rt_spine B' l c) \<Longrightarrow>
   rt_spine B' (Suc l) q"
  using child_replacedD(2,4,5) [of K B B' l p q i c b] child_replacedD(6) [of K B B' l p q i c b 0]
    other_frame [of K B B' l p q i c b 0] by auto

lemma replaced_tree:
  assumes r: "child_replaced K B B' l p q i c b"
    and tree: "rt_tree B (Suc l) p" "rt_tree B' l c" and q: "q \<notin> rt_pages B' l c" "q \<notin> other_pages B l b i"
    and apart: "rt_pages B' l c \<inter> other_pages B l b i = {}"
  shows "rt_tree B' (Suc l) q"
proof -
  let ?b = "put_u64 (16 + i * 8) c b"
  note d = child_replacedD [OF r]
  have kid: "kid_pages B' l (child_at ?b j) = (if j = i then rt_pages B' l c else kid_pages B l (child_at b j))"
    if "j < 1021" for j using d(5) d(6) [OF that] kid_frame [OF r that] by (cases "j = i") (simp_all add: kid_pages_def)
  have sub: "kid_pages B l (child_at b j) \<subseteq> other_pages B l b i" if "j < 1021" "j \<noteq> i" for j
    using that by (auto simp: other_pages_def)
  have old: "kid_pages B l (child_at b j) \<inter> kid_pages B l (child_at b m) = {}" if "j < 1021" "m < 1021" "m \<noteq> j" for j m
  proof -
    have "kid_pages B l (child_at b j) \<inter> other_pages B l b j = {}" using tree(1) d(2) that(1) by auto
    moreover have "kid_pages B l (child_at b m) \<subseteq> other_pages B l b j" using that by (auto simp: other_pages_def)
    ultimately show ?thesis by blast
  qed
  have disj: "kid_pages B' l (child_at ?b j) \<inter> kid_pages B' l (child_at ?b m) = {}" if "j < 1021" "m < 1021" "m \<noteq> j" for j m
    using old [OF that] sub [of j] sub [of m] apart that by (auto simp: kid)
  have "kid_pages B' l (child_at ?b j) \<inter> other_pages B' l ?b j = {}" if "j < 1021" for j
    using disj [OF that] by (fastforce simp: other_pages_def)
  moreover have "q \<notin> kid_pages B' l (child_at ?b j)" if "j < 1021" for j
    using that q sub [OF that] by (auto simp: kid)
  moreover have "rt_tree B' l (child_at ?b j)" if "j < 1021" "child_at ?b j \<noteq> 0" for j
    using that d(2,6) tree other_frame [OF r that(1)] by (auto split: if_splits)
  ultimately show ?thesis using d(4) by simp
qed

subsection \<open>Pages in, pages out\<close>

text \<open>
  What a copy-on-write change does with pages: the pages of the old tree and the fresh ones are the
  pages of the new tree and the ones it hands back, each in one of the two.
\<close>

definition accounted :: "u64 set \<Rightarrow> u64 set \<Rightarrow> u64 set \<Rightarrow> u64 list \<Rightarrow> bool" where
  "accounted old fresh new freed \<longleftrightarrow> new \<union> set freed = old \<union> fresh \<and> new \<inter> set freed = {} \<and> distinct freed"

lemma accounted_new: "accounted old fresh new freed \<Longrightarrow> new \<subseteq> old \<union> fresh"
  by (auto simp: accounted_def)

lemma accounted_path:
  assumes "accounted (kid \<union> F) G new fs" and "F \<inter> kid = {}" and "p \<notin> kid" and "p \<notin> oth" and "kid \<inter> oth = {}"
    and "q \<notin> insert p (kid \<union> oth)" and "(F \<union> G) \<inter> insert q (insert p (kid \<union> oth)) = {}"
  shows "accounted (insert p (kid \<union> oth)) (insert q (F \<union> G)) (insert q (new \<union> oth)) (p # fs)"
    and "accounted (insert p (kid \<union> oth)) (insert q (F \<union> G)) (insert q (new \<union> oth)) (fs @ [p])"
  using assms by (auto simp: accounted_def)

text \<open>
  A new root \<open>q\<close> over a new child: the tree is well formed, agrees with the old one outside the child,
  and its pages are accounted for when the child's are.
\<close>

lemma path_copied:
  assumes ok: "rt_ok K B (Suc l) p" and r: "child_replaced K B B' l p q i c b" and c: "rt_ok K B' l c"
    and acc: "accounted (kid_pages B l (child_at b i) \<union> F) G (rt_pages B' l c) fs" and qz: "q \<noteq> 0"
    and fresh: "q \<notin> rt_pages B (Suc l) p" "(F \<union> G) \<inter> insert q (rt_pages B (Suc l) p) = {}"
  shows "rt_ok K B' (Suc l) q"
    and "accounted (rt_pages B (Suc l) p) (insert q (F \<union> G)) (rt_pages B' (Suc l) q) (p # fs)"
    and "accounted (rt_pages B (Suc l) p) (insert q (F \<union> G)) (rt_pages B' (Suc l) q) (fs @ [p])"
proof -
  note d = child_replacedD [OF r]
  let ?kid = "kid_pages B l (child_at b i)" and ?oth = "other_pages B l b i"
  have old: "rt_pages B (Suc l) p = insert p (?kid \<union> ?oth)" by (rule rt_pages_Suc) (rule d(3), rule d(2))
  have tree: "rt_tree B (Suc l) p" using ok by (simp add: rt_ok_def)
  have kid: "p \<notin> kid_pages B l (child_at b j)" "?kid \<inter> ?oth = {}" if "j < 1021" for j
    using tree d(2,3) that by auto
  have p: "p \<notin> ?oth" using kid(1) by (auto simp: other_pages_def)
  have new: "rt_pages B' l c \<subseteq> ?kid \<union> F \<union> G" by (rule accounted_new [OF acc])
  have q: "q \<notin> rt_pages B' l c" "q \<notin> ?oth" using new fresh old by auto
  have "rt_pages B' l c \<inter> ?oth = {}" using new fresh old kid(2) [OF d(3)] by auto
  with q have "rt_tree B' (Suc l) q" using c by (intro replaced_tree [OF r tree]) (auto simp: rt_ok_def)
  then show "rt_ok K B' (Suc l) q" using replaced_wf [OF r] qz by (simp add: rt_ok_def)
  have F: "F \<inter> ?kid = {}" "q \<notin> insert p (?kid \<union> ?oth)" "(F \<union> G) \<inter> insert q (insert p (?kid \<union> ?oth)) = {}"
    using fresh old by auto
  note a = accounted_path [OF acc F(1) kid(1) [OF d(3)] p kid(2) [OF d(3)] F(2,3)]
  show "accounted (rt_pages B (Suc l) p) (insert q (F \<union> G)) (rt_pages B' (Suc l) q) (p # fs)"
    "accounted (rt_pages B (Suc l) p) (insert q (F \<union> G)) (rt_pages B' (Suc l) q) (fs @ [p])"
    using a by (simp_all add: old replaced_pages [OF r])
qed

subsection \<open>Empty trees and new roots\<close>

lemma rt_blank:
  assumes "B p = Some b" and "\<And>i. i < 1021 \<Longrightarrow> child_at b i = 0" and "p \<noteq> 0" and "length b = 8184"
    and "if l = 0 then rt_leaf K b \<and> (\<forall>k < rt_slots K. rt_slot K b k = rt_absent K) else rt_node K b"
  shows "rt_ok K B l p" and "rt_pages B l p = {p}" and "k < rt_span K l \<Longrightarrow> rt_get K B l p k = rt_absent K"
proof -
  have kid: "kid_pages B m (child_at b i) = {}" if "i < 1021" for i m using assms(2) [OF that] by (simp add: kid_pages_def)
  show "rt_pages B l p = {p}" using assms(1) kid by (cases l) (auto simp: rt_pages_kids)
  show "rt_ok K B l p" using assms kid by (cases l) (auto simp: rt_ok_def)
  show "rt_get K B l p k = rt_absent K" if k: "k < rt_span K l"
  proof (cases l)
    case (Suc m)
    then show ?thesis using assms(1,2) rt_index [of k K m] k by (simp add: Let_def)
  qed (use assms k in simp)
qed

lemma rt_grown:
  assumes ok: "rt_ok K B l p" and q: "B' q = Some b" "length b = 8184" "rt_node K b" "q \<noteq> 0" "q \<notin> rt_pages B l p"
    and b: "child_at b 0 = p" "\<And>i. i < 1021 \<Longrightarrow> i \<noteq> 0 \<Longrightarrow> child_at b i = 0"
    and same: "\<And>r. r \<in> rt_pages B l p \<Longrightarrow> B' r = B r"
  shows "rt_ok K B' (Suc l) q" and "rt_pages B' (Suc l) q = insert q (rt_pages B l p)"
    and "k < rt_span K (Suc l) \<Longrightarrow> rt_get K B' (Suc l) q k = (if k < rt_span K l then rt_get K B l p k else rt_absent K)"
    and "rt_spine B l p \<Longrightarrow> rt_spine B' (Suc l) q"
proof -
  note f = rt_frame [of B l p B' K, OF same]
  have pz: "p \<noteq> 0" and wf: "rt_wf K B' l p" and tr: "rt_tree B' l p" using ok f by (auto simp: rt_ok_def)
  have kid: "kid_pages B' l (child_at b i) = (if i = 0 then rt_pages B l p else {})" if "i < 1021" for i
    using b(1) b(2) [OF that] f pz by (cases "i = 0") (simp_all add: kid_pages_def)
  have oth: "other_pages B' l b i = (if i = 0 then {} else rt_pages B l p)" if "i < 1021" for i
    using kid that by (auto simp: other_pages_def split: if_splits)
  show "rt_pages B' (Suc l) q = insert q (rt_pages B l p)"
    using kid q(1) by (auto simp: rt_pages_kids split: if_splits)
  have "rt_wf K B' (Suc l) q" using q b wf by auto
  moreover have "rt_tree B' (Suc l) q" using q(1,5) kid oth b tr by auto
  ultimately show "rt_ok K B' (Suc l) q" using q(4) by (simp add: rt_ok_def)
  show "rt_spine B' (Suc l) q" if "rt_spine B l p" using that f pz q(1) b(1) by simp
  show "rt_get K B' (Suc l) q k = (if k < rt_span K l then rt_get K B l p k else rt_absent K)"
    if k: "k < rt_span K (Suc l)"
  proof (cases "k < rt_span K l")
    case True
    then show ?thesis using q(1) b(1) pz f by (simp add: Let_def)
  next
    case False
    have "0 < rt_span K l" using k by (cases "rt_span K l") (auto simp: rt_span_Suc)
    then have "k div rt_span K l \<noteq> 0" using False by (simp add: div_eq_0_iff)
    then show ?thesis using q(1) b(2) [OF rt_index [OF k]] False by (simp add: Let_def)
  qed
qed

text \<open>A copy of the root page alone, sharing the rest.\<close>

lemma rt_copied_root:
  assumes ok: "rt_ok K B l p" and q: "B' q = B p" "q \<noteq> 0" "q \<notin> rt_pages B l p"
    and same: "\<And>r. r \<in> rt_pages B l p \<Longrightarrow> B' r = B r"
  shows "rt_ok K B' l q" and "accounted (rt_pages B l p) {q} (rt_pages B' l q) [p]"
    and "k < rt_span K l \<Longrightarrow> rt_get K B' l q k = rt_get K B l p k"
proof -
  have wf: "rt_wf K B l p" "rt_tree B l p" using ok by (simp_all add: rt_ok_def)
  have all: "rt_wf K B' l q \<and> rt_tree B' l q \<and> rt_pages B' l q = insert q (rt_pages B l p - {p}) \<and>
      (\<forall>k < rt_span K l. rt_get K B' l q k = rt_get K B l p k)"
  proof (cases l)
    case 0
    then show ?thesis using wf q(1) by auto
  next
    case (Suc m)
    obtain b where b: "B p = Some b" using wf Suc by auto
    have kid: "rt_pages B' m c = rt_pages B m c \<and> rt_wf K B' m c = rt_wf K B m c \<and> rt_tree B' m c = rt_tree B m c \<and>
        rt_spine B' m c = rt_spine B m c \<and> (\<forall>k < rt_span K m. rt_get K B' m c k = rt_get K B m c k)"
      if "i < 1021" "c = child_at b i" "c \<noteq> 0" for i c
      by (rule rt_frame, rule same) (use kid_in_pages [OF that(1), of B p b m] b that Suc in auto)
    have kp: "kid_pages B' m (child_at b i) = kid_pages B m (child_at b i)" if "i < 1021" for i
      using kid [OF that refl] by (simp add: kid_pages_def)
    have op: "other_pages B' m b i = other_pages B m b i" for i using kp by (auto simp: other_pages_def)
    have pk: "p \<notin> kid_pages B m (child_at b i)" if "i < 1021" for i using wf(2) b that Suc by auto
    have qk: "q \<notin> kid_pages B m (child_at b i)" if "i < 1021" for i
      using q(3) b that unfolding Suc rt_pages_kids by auto
    have pages: "rt_pages B' l q = insert q (rt_pages B l p - {p})"
      using pk q(1) b kp by (auto simp: Suc rt_pages_kids)
    have "rt_get K B' l q k = rt_get K B l p k" if k: "k < rt_span K l" for k
    proof -
      have "0 < rt_span K m" using k by (cases "rt_span K m") (auto simp: Suc rt_span_Suc)
      then show ?thesis using kid [OF rt_index refl, of k K m] k q(1) b by (simp add: Suc Let_def)
    qed
    moreover have "rt_wf K B' l q" using wf(1) kid q(1) b by (auto simp: Suc)
    moreover have "rt_tree B' l q" using wf(2) kid kp op qk q(1) b by (simp add: Suc)
    ultimately show ?thesis using pages by blast
  qed
  then show "rt_ok K B' l q" using q(2) by (simp add: rt_ok_def)
  show "accounted (rt_pages B l p) {q} (rt_pages B' l q) [p]" using all q(3) by (auto simp: accounted_def)
  show "rt_get K B' l q k = rt_get K B l p k" if "k < rt_span K l" using all that by blast
qed

text \<open>A child replaced in place.\<close>

lemma edited_in_place:
  assumes ok: "rt_ok K B (Suc l) p" and r: "child_replaced K B B' l p p i c b" and c: "rt_ok K B' l c"
    and acc: "accounted (kid_pages B l (child_at b i)) F (rt_pages B' l c) fs"
    and fresh: "F \<inter> rt_pages B (Suc l) p = {}"
  shows "rt_ok K B' (Suc l) p" and "accounted (rt_pages B (Suc l) p) F (rt_pages B' (Suc l) p) fs"
proof -
  note d = child_replacedD [OF r]
  let ?kid = "kid_pages B l (child_at b i)" and ?oth = "other_pages B l b i"
  have old: "rt_pages B (Suc l) p = insert p (?kid \<union> ?oth)" by (rule rt_pages_Suc) (rule d(3), rule d(2))
  have tree: "rt_tree B (Suc l) p" using ok by (simp add: rt_ok_def)
  have kid: "p \<notin> kid_pages B l (child_at b j)" "?kid \<inter> ?oth = {}" if "j < 1021" for j
    using tree d(2,3) that by auto
  have p: "p \<notin> ?oth" using kid(1) by (auto simp: other_pages_def)
  have new: "rt_pages B' l c \<subseteq> ?kid \<union> F" by (rule accounted_new [OF acc])
  have pc: "p \<notin> rt_pages B' l c" using new fresh old kid(1) [OF d(3)] by auto
  have apart: "rt_pages B' l c \<inter> ?oth = {}" using new fresh old kid(2) [OF d(3)] by auto
  have "rt_tree B' (Suc l) p" using c pc p apart by (intro replaced_tree [OF r tree]) (auto simp: rt_ok_def)
  then show "rt_ok K B' (Suc l) p" using replaced_wf [OF r] ok by (simp add: rt_ok_def)
  show "accounted (rt_pages B (Suc l) p) F (rt_pages B' (Suc l) p) fs"
    using acc fresh kid(2) [OF d(3)] kid(1) [OF d(3)] p unfolding replaced_pages [OF r] old accounted_def by auto
qed

lemma accounted_trans:
  "accounted old F mid fs \<Longrightarrow> accounted mid G new gs \<Longrightarrow> G \<inter> (old \<union> F) = {} \<Longrightarrow> accounted old (F \<union> G) new (fs @ gs)"
  by (auto simp: accounted_def)

lemma accounted_none [simp]: "accounted old {} old []"
  by (simp add: accounted_def)

end
