(* ===== verification/Radix_Cow.thy ===== *)
theory Radix_Cow
  imports Page_Alloc Radix_Tree Cache_Properties
begin

text \<open>
  What the copy-on-write trees share besides their shape: the depth and the \<open>freed\<close> vector a call
  borrows, the saturating spans and capacities, and the two page operations every one of them is
  built from, copying a page to a fresh one and initialising a fresh one.
\<close>

record radix_own =
  ro_depth :: nat
  ro_freed :: "u64 list"

definition push_freed :: "u64 \<Rightarrow> ('x, radix_own, unit) tree_op" where
  "push_freed p = set_own (\<lambda>r. r\<lparr>ro_freed := ro_freed r @ [p]\<rparr>)"

lemma wp_push_freed [wp_simps]:
  "wp (push_freed p) Q E = (\<lambda>s. Q () (s\<lparr>t_own := (t_own s)\<lparr>ro_freed := ro_freed (t_own s) @ [p]\<rparr>\<rparr>))"
  by (simp add: push_freed_def set_own_def wp_simps)

text \<open>\<open>base\<close> multiplied \<open>n\<close> times by the fanout, saturating: the loops of \<open>capacity\<close> and \<open>span_at_level\<close>.\<close>

fun sat_scale :: "u64 \<Rightarrow> nat \<Rightarrow> u64" where
  "sat_scale base 0 = base"
| "sat_scale base (Suc n) = saturating_mul (sat_scale base n) 1021"

lemma min_scale: "0 < m \<Longrightarrow> min M (min M x * m) = min M (x * (m :: nat))"
proof (cases "x \<le> M")
  case False
  assume "0 < m"
  then have "M \<le> M * m" "M * m \<le> x * m" using False by simp_all
  then have "M \<le> x * m" by (rule le_trans)
  then show ?thesis using False \<open>M \<le> M * m\<close> by (simp add: min_def)
qed (simp add: min_def)

lemma unat_sat_scale: "unat (sat_scale base n) = min (2 ^ 64 - 1) (unat base * 1021 ^ n)"
proof (induction n)
  case 0
  have "unat base \<le> 2 ^ 64 - 1" using unat_u64_less [of base] by simp
  then show ?case by (simp add: min_absorb2)
next
  case (Suc n)
  have "unat (sat_scale base (Suc n)) = min (2 ^ 64 - 1) (min (2 ^ 64 - 1) (unat base * 1021 ^ n) * 1021)"
    using Suc by (simp add: unat_saturating_mul)
  then show ?case by (simp only: min_scale [OF zero_less_numeral] power_Suc mult.assoc mult.commute [of 1021])
qed

lemma sat_scale_max: "sat_scale base n = - 1 \<longleftrightarrow> 2 ^ 64 - 1 \<le> unat base * 1021 ^ n"
proof -
  have "unat (- 1 :: u64) = 2 ^ 64 - 1" by (simp add: unat_minus_one_max)
  then show ?thesis by (simp only: word_unat_eq_iff unat_sat_scale min_def) auto
qed

lemma on_cache_and_then: "on_cache (and_then m f) = and_then (on_cache m) (\<lambda>a. on_cache (f a))"
  by (auto simp: on_cache_def on_field_def and_then_def fun_eq_iff split: prod.splits res.splits)

lemma wp_slice [wp_simps]:
  "wp (slice_u64 off buf) Q E = (\<lambda>s. off + 8 \<le> length buf \<and> Q (get_u64 off buf) s)"
  by (simp add: slice_u64_def wp_simps fun_eq_iff)

lemma child_of_body: "page_body buf = b \<Longrightarrow> i < 1021 \<Longrightarrow> get_u64 (16 + i * 8) buf = child_at b i"
  using get_uint_take(3) [of "16 + i * 8" 8184 buf] by (auto simp: child_at_def)

lemma nth_of_body: "page_body buf = b \<Longrightarrow> i < 8184 \<Longrightarrow> buf ! i = b ! i"
  by auto

lemma body_put: "off + 8 \<le> 8184 \<Longrightarrow> page_ok buf \<Longrightarrow> page_body (put_u64 off v buf) = put_u64 off v (page_body buf)"
  by (simp add: put_u64_def put_bytes_def take_drop)

context page_alloc
begin

text \<open>Copying a page in use over another, and filling one.\<close>

lemma copy_wp:
  assumes fit: "fit k s" and src: "store s p = Some b" and dst: "store s q = Some d"
  shows "wp (on_cache (pc_get w p)) (\<lambda>buf. wp (on_cache (pc_with_mut w q (\<lambda>_. buf)))
      (\<lambda>_ t. step {q} 0 s t \<and> store t = (store s)(q \<mapsto> b) \<and> in_use t = in_use s \<and> t_own t = t_own s) (stuck 0 s)) (stuck 0 s) s"
proof (rule wp_mono [OF read_wp [OF fit src]], goal_cases)
  case (1 buf t)
  then have buf: "page_ok buf" "page_body buf = b" and st: "step {} 0 s t" and same: "store t = store s" "in_use t = in_use s" "t_own t = t_own s"
    by auto
  have ft: "fit k t" using step_fit [OF st, of k] fit by simp
  have dt: "store t q = Some d" using dst same by simp
  show ?case
  proof (rule wp_mono [OF write_wp [OF ft dt, where f = "\<lambda>_. buf" and b' = b]], goal_cases)
    case (3 a u)
    then show ?case using step_trans [OF st] same by fastforce
  next
    case (4 e u)
    then show ?case using stuck_later [OF st] by fastforce
  qed (use buf in auto)
qed

lemma page_copy_wp:
  assumes "fit k s" and "store s p = Some b" and "store s q = Some d"
  shows "wp (on_cache (copy_page w p q))
    (\<lambda>_ t. step {q} 0 s t \<and> store t = (store s)(q \<mapsto> b) \<and> in_use t = in_use s \<and> t_own t = t_own s) (stuck 0 s) s"
  using copy_wp [OF assms] by (simp add: copy_page_def on_cache_and_then wp_simps)

text \<open>A page that was not in use holding \<open>b\<close>, its checksum valid only once it was stamped.\<close>

definition opened :: "('x, 'o) tree_ctx \<Rightarrow> u64 \<Rightarrow> u8 list \<Rightarrow> ('x, 'o) tree_ctx \<Rightarrow> bool" where
  "opened s q b t \<longleftrightarrow> step {q} 1 s t \<and> q \<notin> in_use s \<and> q \<noteq> 0 \<and> in_use t = insert q (in_use s) \<and>
     store t = (store s)(q \<mapsto> b) \<and> t_own t = t_own s"

definition fresh_page :: "('x, 'o) tree_ctx \<Rightarrow> u64 \<Rightarrow> u8 list \<Rightarrow> ('x, 'o) tree_ctx \<Rightarrow> bool" where
  "fresh_page s q b t \<longleftrightarrow> step {} 1 s t \<and> q \<notin> in_use s \<and> q \<noteq> 0 \<and> in_use t = insert q (in_use s) \<and>
     store t = (store s)(q \<mapsto> b) \<and> t_own t = t_own s"

lemma opened_write:
  assumes "opened s q b t" and "step {q} 0 t u" and "store u = (store t)(q \<mapsto> b')" and "in_use u = in_use t" and "t_own u = t_own t"
  shows "opened s q b' u"
proof -
  have a: "step {q} 1 s t" "q \<notin> in_use s" using assms(1) by (simp_all add: opened_def)
  have "step {q} 1 s u" using step_trans [OF a(1) assms(2)] by simp
  then show ?thesis using assms by (simp add: opened_def)
qed

lemma opened_stamped: "opened s q b t \<Longrightarrow> q \<notin> raws t \<Longrightarrow> fresh_page s q b t"
  using step_sealed [of "{q}" 1 s t "{}" 1] by (auto simp: opened_def fresh_page_def)

lemma fresh_alloc_wp: "fit 1 s \<Longrightarrow> wp (call_alloc alloc) (\<lambda>q. opened s q (replicate 8184 0)) (stuck 1 s) s"
  unfolding opened_def by (rule alloc_wp)

lemma fresh_init_wp:
  assumes fit: "fit 1 s" and f: "\<And>buf. page_ok buf \<Longrightarrow> page_ok (f buf) \<and> page_body (f buf) = b \<and> verify_checksum (w_xxh w) (f buf)"
  shows "wp (call_alloc alloc) (\<lambda>q. wp (on_cache (pc_with_mut w q f)) (\<lambda>_. fresh_page s q b) (stuck 1 s)) (stuck 1 s) s"
proof (rule wp_mono [OF fresh_alloc_wp [OF fit]], goal_cases)
  case (1 q t)
  then have ft: "fit 0 t" using step_fit [of "{q}" 1 s t 0] fit by (simp add: opened_def)
  have qt: "store t q = Some (replicate 8184 0)" and st: "step {q} 1 s t" using 1 by (simp_all add: opened_def)
  show ?case
  proof (rule wp_mono [OF write_wp [OF ft qt, where f = f and b' = b]], goal_cases)
    case (3 a u)
    then show ?case using 1 f by (intro opened_stamped opened_write [OF 1]) auto
  next
    case (4 e u)
    then show ?case using stuck_later [OF st] by fastforce
  qed (use f in auto)
qed simp

lemma fresh_copy_wp:
  assumes fit: "fit 1 s" and src: "store s p = Some b"
  shows "wp (call_alloc alloc) (\<lambda>q. wp (on_cache (copy_page w p q)) (\<lambda>_. opened s q b) (stuck 1 s)) (stuck 1 s) s"
proof (rule wp_mono [OF fresh_alloc_wp [OF fit]], goal_cases)
  case (1 q t)
  then have ft: "fit 0 t" using step_fit [of "{q}" 1 s t 0] fit by (simp add: opened_def)
  have qt: "store t q = Some (replicate 8184 0)" and st: "step {q} 1 s t" and "q \<noteq> p"
    using 1 store_in_use [OF src] by (auto simp: opened_def)
  then have pt: "store t p = Some b" using 1 src by (simp add: opened_def)
  show ?case
  proof (rule wp_mono [OF page_copy_wp [OF ft pt qt]], goal_cases)
    case (1 a u)
    then show ?case using \<open>opened s q (replicate 8184 0) t\<close> by (auto intro: opened_write)
  next
    case (2 e u)
    then show ?case using stuck_later [OF st] by fastforce
  qed
qed simp

text \<open>A copy that is then edited: the page is fresh, with the edited body.\<close>

lemma copy_edit_wp:
  assumes fit: "fit 1 s" and src: "store s p = Some b"
    and f: "\<And>buf. page_ok buf \<Longrightarrow> page_ok (f buf) \<and> (page_body buf = b \<longrightarrow> page_body (f buf) = b') \<and> verify_checksum (w_xxh w) (f buf)"
    and g: "\<And>q t. opened s q b t \<Longrightarrow> wp m (\<lambda>_ u. \<exists>v. u = t\<lparr>t_own := v\<rparr> \<and> V v) (stuck 1 s) t"
  shows "wp (call_alloc alloc) (\<lambda>q. wp (on_cache (copy_page w p q)) (\<lambda>_. wp m (\<lambda>_. wp (on_cache (pc_with_mut w q f))
      (\<lambda>_ t. fresh_page s q b' (t\<lparr>t_own := t_own s\<rparr>) \<and> V (t_own t)) (stuck 1 s)) (stuck 1 s)) (stuck 1 s)) (stuck 1 s) s"
proof (rule wp_mono [OF fresh_copy_wp [OF fit src]], erule wp_mono, goal_cases)
  case (1 q t1 x t)
  show ?case
  proof (rule wp_mono [OF g [OF 1]], goal_cases)
    case (1 y u)
    then obtain v where u: "u = t\<lparr>t_own := v\<rparr>" "V v" by auto
    have t: "opened s q b t" by fact
    have st: "step {q} 1 s t" and qu: "store u q = Some b" using t u by (simp_all add: opened_def)
    have fu: "fit 0 u" using step_fit [OF st, of 0] fit u by simp
    show ?case
    proof (rule wp_mono [OF write_wp [OF fu qu, where f = f and b' = b']], goal_cases)
      case (3 z x)
      have "opened s q b' (x\<lparr>t_own := t_own s\<rparr>)"
        by (rule opened_write [OF t]) (use 3 u t in \<open>simp_all add: opened_def\<close>)
      then have "fresh_page s q b' (x\<lparr>t_own := t_own s\<rparr>)" by (rule opened_stamped) (use 3 f in simp)
      then show ?case using 3 u by simp
    next
      case (4 e x)
      then show ?case using stuck_later [OF st, of 0] u by simp
    qed (use f in auto)
  qed
qed simp_all

subsection \<open>Path copying\<close>

text \<open>
  The outcome of a copy-on-write change of the tree at \<open>p\<close>: a tree at \<open>q\<close>, made of old pages and of
  pages that were not in use, every page it no longer needs reported once.
\<close>

definition moved :: "'v rt_format \<Rightarrow> nat \<Rightarrow> u64 \<Rightarrow> ('x, radix_own) tree_ctx \<Rightarrow> u64 \<Rightarrow> ('x, radix_own) tree_ctx \<Rightarrow> bool" where
  "moved K l p s q t \<longleftrightarrow> rt_ok K (store t) l q \<and> (rt_spine (store s) l p \<longrightarrow> rt_spine (store t) l q) \<and>
     (\<exists>fs F. in_use t = in_use s \<union> F \<and> F \<inter> in_use s = {} \<and>
        accounted (rt_pages (store s) l p) F (rt_pages (store t) l q) fs \<and>
        t_own t = (t_own s)\<lparr>ro_freed := ro_freed (t_own s) @ fs\<rparr>)"

lemma root_not_none:
  assumes "fit k s" and "store s p = Some b"
  shows "p \<noteq> PAGE_ID_NONE"
proof -
  have "p < next_page_id (t_cache s)"
    using taken_below [of "t_env s" "t_cache s" k p] store_in_use [OF assms(2)] assms(1) by (simp add: fit_def in_use_def)
  then have "unat p < unat (next_page_id (t_cache s))" by (simp add: word_less_nat_alt)
  then have "unat p < 2 ^ 64 - 1" using unat_u64_less [of "next_page_id (t_cache s)"] by simp
  then show ?thesis by (auto simp: PAGE_ID_NONE_def)
qed

lemma pages_in_use: "rt_wf K (store s) l p \<Longrightarrow> rt_pages (store s) l p \<subseteq> in_use s"
  using rt_wf_dom [of K "store s" l p] store_in_use by blast

lemma moved_leaf:
  assumes ok: "rt_ok K (store s) 0 p" and q: "fresh_page s q b t" and b: "length b = 8184" "rt_leaf K b"
    and own: "u = t\<lparr>t_own := (t_own s)\<lparr>ro_freed := ro_freed (t_own s) @ [p]\<rparr>\<rparr>"
  shows "moved K 0 p s q u" and "rt_get K (store u) 0 q k = rt_slot K b k"
proof -
  have "p \<in> in_use s" using pages_in_use [of K s 0 p] ok by (simp add: rt_ok_def)
  then have "accounted {p} {q} {q} [p]" using q by (auto simp: accounted_def fresh_page_def)
  moreover have "{q} \<inter> in_use s = {}" "in_use t = in_use s \<union> {q}" using q by (auto simp: fresh_page_def)
  ultimately have "\<exists>fs F. in_use t = in_use s \<union> F \<and> F \<inter> in_use s = {} \<and> accounted {p} F {q} fs \<and>
      (t_own s)\<lparr>ro_freed := ro_freed (t_own s) @ [p]\<rparr> = (t_own s)\<lparr>ro_freed := ro_freed (t_own s) @ fs\<rparr>"
    by (intro exI [of _ "[p]"] exI [of _ "{q}"]) simp
  then show "moved K 0 p s q u" using q b unfolding moved_def own by (simp add: rt_ok_def fresh_page_def)
  show "rt_get K (store u) 0 q k = rt_slot K b k" using q by (simp add: own fresh_page_def)
qed

lemma moved_up:
  assumes ok: "rt_ok K (store s) (Suc l) p" and b: "store s p = Some b" and i: "i < 1021"
    and node: "rt_node K (put_u64 (16 + i * 8) c b)"
    and q: "store u q = Some (put_u64 (16 + i * 8) c b)" "q \<notin> in_use s" "q \<noteq> 0"
    and c: "rt_ok K (store u) l c" "accounted (kid_pages (store s) l (child_at b i) \<union> F) G (rt_pages (store u) l c) fs"
    and fresh: "(F \<union> G) \<inter> insert q (in_use s) = {}" and iu: "in_use u = in_use s \<union> insert q (F \<union> G)"
    and keep: "\<And>r. r \<in> in_use s \<Longrightarrow> store u r = store s r"
    and spine: "child_at b i \<noteq> 0 \<Longrightarrow> rt_spine (store s) l (child_at b i) \<Longrightarrow> rt_spine (store u) l c"
    and own: "t_own u = (t_own s)\<lparr>ro_freed := ro_freed (t_own s) @ gs\<rparr>" "gs = p # fs \<or> gs = fs @ [p]"
  shows "moved K (Suc l) p s q u"
    and "k < rt_span K (Suc l) \<Longrightarrow> rt_get K (store u) (Suc l) q k =
      (if k div rt_span K l = i then rt_get K (store u) l c (k mod rt_span K l) else rt_get K (store s) (Suc l) p k)"
proof -
  have wf: "rt_wf K (store s) (Suc l) p" using ok by (simp add: rt_ok_def)
  have sub: "rt_pages (store s) (Suc l) p \<subseteq> in_use s" by (rule pages_in_use [OF wf])
  have oth: "other_pages (store s) l b i \<subseteq> in_use s" using sub other_in_pages [OF i, of "store s" p b l] b by auto
  have r: "child_replaced K (store s) (store u) l p q i c b"
    using wf b i q(1) node c(1) keep oth by (auto simp: child_replaced_def rt_ok_def)
  have f: "q \<notin> rt_pages (store s) (Suc l) p" "(F \<union> G) \<inter> insert q (rt_pages (store s) (Suc l) p) = {}"
    using q(2) fresh sub by auto
  note pc = path_copied [OF ok r c q(3) f]
  have acc: "accounted (rt_pages (store s) (Suc l) p) (insert q (F \<union> G)) (rt_pages (store u) (Suc l) q) gs"
    using own(2) pc(2,3) by auto
  have "rt_spine (store u) (Suc l) q" if "rt_spine (store s) (Suc l) p"
    by (rule replaced_spine [OF r that]) (use that spine b in auto)
  moreover have "insert q (F \<union> G) \<inter> in_use s = {}" using fresh q(2) by auto
  ultimately show "moved K (Suc l) p s q u"
    unfolding moved_def using pc(1) acc iu own(1) by blast
  show "rt_get K (store u) (Suc l) q k =
      (if k div rt_span K l = i then rt_get K (store u) l c (k mod rt_span K l) else rt_get K (store s) (Suc l) p k)"
    if "k < rt_span K (Suc l)" by (rule replaced_get [OF r that])
qed

text \<open>The parent copied before its child is changed (\<open>insert_recursive\<close>), and after (\<open>delete_recursive\<close>).\<close>

lemma path_down:
  assumes ok: "rt_ok K (store s) (Suc l) p" and b: "store s p = Some b" and i: "i < 1021"
    and node: "rt_node K (put_u64 (16 + i * 8) c b)"
    and new: "opened s q b s1"
    and kid: "step {} n s1 s3" "in_use s3 = in_use s1 \<union> F" "F \<inter> in_use s1 = {}" "rt_ok K (store s3) l a"
      "rt_pages (store s3) l a = kid_pages (store s) l (child_at b i) \<union> F"
      "child_at b i \<noteq> 0 \<longrightarrow> rt_spine (store s) l (child_at b i) \<longrightarrow> rt_spine (store s3) l a"
      "t_own s3 = (t_own s)\<lparr>ro_freed := ro_freed (t_own s) @ [p]\<rparr>"
    and rec: "step {} m s3 s4" "moved K l a s3 c s4"
    and wr: "step {q} 0 s4 u" "store u = (store s4)(q \<mapsto> put_u64 (16 + i * 8) c b)" "in_use u = in_use s4" "t_own u = t_own s4" "q \<notin> raws u"
  shows "moved K (Suc l) p s q u" and "step {} (Suc (n + m)) s u"
    and "k < rt_span K (Suc l) \<Longrightarrow> rt_get K (store u) (Suc l) q k =
      (if k div rt_span K l = i then rt_get K (store s4) l c (k mod rt_span K l) else rt_get K (store s) (Suc l) p k)"
proof -
  have q: "q \<notin> in_use s" "q \<noteq> 0" "in_use s1 = insert q (in_use s)" and st: "step {q} 1 s s1"
    using new by (auto simp: opened_def)
  have "step {q} (Suc (n + m)) s u" using step_trans [OF step_trans [OF step_trans [OF st kid(1)] rec(1)] wr(1)] by simp
  then show st_u: "step {} (Suc (n + m)) s u" by (rule step_sealed) (use q wr(5) in auto)
  obtain fs G where G: "in_use s4 = in_use s3 \<union> G" "G \<inter> in_use s3 = {}"
      "accounted (rt_pages (store s3) l a) G (rt_pages (store s4) l c) fs"
      "t_own s4 = (t_own s3)\<lparr>ro_freed := ro_freed (t_own s3) @ fs\<rparr>"
    and c: "rt_ok K (store s4) l c" "rt_spine (store s3) l a \<Longrightarrow> rt_spine (store s4) l c"
    using rec(2) by (auto simp: moved_def)
  have "kid_pages (store s) l (child_at b i) \<subseteq> in_use s"
    using pages_in_use [of K s "Suc l" p] ok rt_pages_Suc [OF i, of "store s" p b l] b by (auto simp: rt_ok_def)
  then have qc: "q \<notin> rt_pages (store s4) l c" using accounted_new [OF G(3)] kid q G(2) by auto
  have fr: "store u r = store s4 r" if "r \<in> rt_pages (store s4) l c" for r using that qc wr(2) by auto
  note f = rt_frame [of "store s4" l c "store u" K, OF fr]
  have 1: "rt_ok K (store u) l c" by (rule rt_ok_frame [OF c(1) fr])
  have 2: "accounted (kid_pages (store s) l (child_at b i) \<union> F) G (rt_pages (store u) l c) fs" using f G(3) kid(5) by simp
  have 3: "(F \<union> G) \<inter> insert q (in_use s) = {}" "in_use u = in_use s \<union> insert q (F \<union> G)"
    using kid q G wr(3) by auto
  have 4: "store u r = store s r" if "r \<in> in_use s" for r by (rule step_store [OF st_u that]) simp
  have 5: "rt_spine (store u) l c" if "child_at b i \<noteq> 0" "rt_spine (store s) l (child_at b i)" using kid(6) that c(2) f by simp
  have 6: "t_own u = (t_own s)\<lparr>ro_freed := ro_freed (t_own s) @ (p # fs)\<rparr>" using wr(4) G(4) kid(7) by simp
  have 7: "store u q = Some (put_u64 (16 + i * 8) c b)" using wr(2) by simp
  note up = moved_up [OF ok b i node 7 q(1,2) 1 2 3 4 5 6]
  show "moved K (Suc l) p s q u" by (rule up(1)) simp_all
  show "rt_get K (store u) (Suc l) q k =
      (if k div rt_span K l = i then rt_get K (store s4) l c (k mod rt_span K l) else rt_get K (store s) (Suc l) p k)"
    if k: "k < rt_span K (Suc l)"
  proof -
    have "0 < rt_span K l" using k by (cases "rt_span K l") (auto simp: rt_span_Suc)
    moreover have "rt_get K (store u) (Suc l) q k = (if k div rt_span K l = i then rt_get K (store u) l c (k mod rt_span K l)
        else rt_get K (store s) (Suc l) p k)" by (rule up(2)) (use k in simp_all)
    ultimately show ?thesis using f by simp
  qed
qed

lemma path_up:
  assumes ok: "rt_ok K (store s) (Suc l) p" and b: "store s p = Some b" and i: "i < 1021" and ch: "child_at b i \<noteq> 0"
    and node: "rt_node K (put_u64 (16 + i * 8) c b)"
    and rec: "step {} n s s1" "moved K l (child_at b i) s c s1"
    and new: "fresh_page s1 q (put_u64 (16 + i * 8) c b) (u\<lparr>t_own := t_own s1\<rparr>)"
      "t_own u = (t_own s1)\<lparr>ro_freed := ro_freed (t_own s1) @ [p]\<rparr>"
  shows "moved K (Suc l) p s q u" and "step {} (Suc n) s u"
    and "k < rt_span K (Suc l) \<Longrightarrow> rt_get K (store u) (Suc l) q k =
      (if k div rt_span K l = i then rt_get K (store s1) l c (k mod rt_span K l) else rt_get K (store s) (Suc l) p k)"
proof -
  have q: "q \<notin> in_use s1" "q \<noteq> 0" "in_use u = insert q (in_use s1)" and st: "step {} 1 s1 u"
    and u: "store u = (store s1)(q \<mapsto> put_u64 (16 + i * 8) c b)" using new by (auto simp: fresh_page_def)
  have qs: "q \<notin> in_use s" using q(1) step_in_use [OF rec(1)] by auto
  show st_u: "step {} (Suc n) s u" using step_trans [OF rec(1) st] by simp
  obtain fs G where G: "in_use s1 = in_use s \<union> G" "G \<inter> in_use s = {}"
      "accounted (rt_pages (store s) l (child_at b i)) G (rt_pages (store s1) l c) fs"
      "t_own s1 = (t_own s)\<lparr>ro_freed := ro_freed (t_own s) @ fs\<rparr>"
    and c: "rt_ok K (store s1) l c" "rt_spine (store s) l (child_at b i) \<Longrightarrow> rt_spine (store s1) l c"
    using rec(2) by (auto simp: moved_def)
  have "rt_pages (store s1) l c \<subseteq> in_use s1" using pages_in_use [of K s1 l c] c(1) by (simp add: rt_ok_def)
  then have qc: "q \<notin> rt_pages (store s1) l c" using q(1) by auto
  have fr: "store u r = store s1 r" if "r \<in> rt_pages (store s1) l c" for r using that qc u by auto
  note f = rt_frame [of "store s1" l c "store u" K, OF fr]
  have 1: "rt_ok K (store u) l c" by (rule rt_ok_frame [OF c(1) fr])
  have 2: "accounted (kid_pages (store s) l (child_at b i) \<union> {}) G (rt_pages (store u) l c) fs" using f G(3) ch by (simp add: kid_pages_def)
  have 3: "({} \<union> G) \<inter> insert q (in_use s) = {}" "in_use u = in_use s \<union> insert q ({} \<union> G)"
    using q G by auto
  have 4: "store u r = store s r" if "r \<in> in_use s" for r by (rule step_store [OF st_u that]) simp
  have 5: "rt_spine (store u) l c" if "child_at b i \<noteq> 0" "rt_spine (store s) l (child_at b i)" using c(2) [OF that(2)] f by simp
  have 6: "t_own u = (t_own s)\<lparr>ro_freed := ro_freed (t_own s) @ (fs @ [p])\<rparr>" using new(2) G(4) by simp
  have 7: "store u q = Some (put_u64 (16 + i * 8) c b)" using u by simp
  note up = moved_up [OF ok b i node 7 qs q(2) 1 2 3 4 5 6]
  show "moved K (Suc l) p s q u" by (rule up(1)) simp_all
  show "rt_get K (store u) (Suc l) q k =
      (if k div rt_span K l = i then rt_get K (store s1) l c (k mod rt_span K l) else rt_get K (store s) (Suc l) p k)"
    if k: "k < rt_span K (Suc l)"
  proof -
    have "0 < rt_span K l" using k by (cases "rt_span K l") (auto simp: rt_span_Suc)
    moreover have "rt_get K (store u) (Suc l) q k = (if k div rt_span K l = i then rt_get K (store u) l c (k mod rt_span K l)
        else rt_get K (store s) (Suc l) p k)" by (rule up(2)) (use k in simp_all)
    ultimately show ?thesis using f by simp
  qed
qed

end

text \<open>A key is beyond a saturated capacity when it is beyond the true one.\<close>

lemma beyond_scale:
  assumes "unat base * 1021 ^ n \<noteq> 2 ^ 64 - 1"
  shows "sat_scale base n \<noteq> - 1 \<and> sat_scale base n \<le> key \<longleftrightarrow> unat base * 1021 ^ n \<le> unat key"
proof (cases "2 ^ 64 - 1 \<le> unat base * 1021 ^ n")
  case True
  moreover have "unat key \<le> 2 ^ 64 - 1" using unat_u64_less [of key] by simp
  ultimately show ?thesis using assms sat_scale_max [of base n] by linarith
next
  case False
  then have "unat (sat_scale base n) = unat base * 1021 ^ n" by (simp add: unat_sat_scale min_def)
  then show ?thesis using False sat_scale_max [of base n] by (simp add: word_le_nat_alt)
qed

section \<open>Listing a tree\<close>

text \<open>Keys are accumulated with saturating arithmetic, so the key of slot \<open>k\<close> is \<open>k\<close> up to the maximum.\<close>

definition sat :: "nat \<Rightarrow> u64" where
  "sat n = word_of_nat (min (2 ^ 64 - 1) n)"

lemma unat_sat: "unat (sat n) = min (2 ^ 64 - 1) n"
proof -
  have "min (2 ^ 64 - 1) n < 2 ^ 64" by (simp add: min_less_iff_disj)
  then show ?thesis by (simp add: sat_def unat_of_nat)
qed

lemma sat_unat: "sat (unat x) = x"
  using unat_u64_less [of x] by (simp add: word_unat_eq_iff unat_sat)

lemma sat_small: "n < 2 ^ 64 \<Longrightarrow> sat n = word_of_nat n"
  by (simp add: sat_def min_absorb2)

lemma min_add: "min M (min M a + min M b) = min M (a + b :: nat)"
  by (simp add: min_def)

lemma min_mult: "min M (min M a * min M b) = min M (a * b :: nat)"
proof (cases "b = 0 \<or> a = 0 \<or> M = 0")
  case False
  then have "min M (min M a * min M b) = min M (a * min M b)" by (intro min_scale) (simp add: min_def)
  also have "\<dots> = min M (min M b * a)" by (simp only: mult.commute)
  also have "\<dots> = min M (b * a)" using False by (intro min_scale) simp
  finally show ?thesis by (simp only: mult.commute)
qed auto

lemma unat_saturating64:
  "unat (saturating_add (x :: u64) y) = min (2 ^ 64 - 1) (unat x + unat y)"
  "unat (saturating_mul (x :: u64) y) = min (2 ^ 64 - 1) (unat x * unat y)"
  using unat_saturating_add [of x y] unat_saturating_mul [of x y] by simp_all

lemma sat_add: "saturating_add (sat a) (sat b) = sat (a + b)"
  unfolding word_unat_eq_iff unat_saturating64 unat_sat by (rule min_add)

lemma sat_mul: "saturating_mul (sat a) (sat b) = sat (a * b)"
  unfolding word_unat_eq_iff unat_saturating64 unat_sat by (rule min_mult)

definition rt_list :: "'v rt_format \<Rightarrow> ('v \<Rightarrow> bool) \<Rightarrow> (u64 \<rightharpoonup> u8 list) \<Rightarrow> nat \<Rightarrow> u64 \<Rightarrow> nat \<Rightarrow> (u64 \<times> 'v) list" where
  "rt_list K P B l p n = [(sat (n + k), rt_get K B l p k). k \<leftarrow> [0..<rt_span K l], P (rt_get K B l p k)]"

definition children :: "u8 list \<Rightarrow> (nat \<times> u64) list" where
  "children b = filter (\<lambda>(i, c). c \<noteq> 0) (map (\<lambda>i. (i, child_at b i)) [0..<1021])"

lemma concat_blocks:
  "concat (map f [0..<m * n]) = concat (map (\<lambda>i. concat (map (\<lambda>k. f (i * n + k)) [0..<n])) [0..<m])"
proof (induction m)
  case (Suc m)
  have "[0..<Suc m * n] = [0..<m * n] @ [m * n..<m * n + n]" using upt_add_eq_append [of 0 "m * n" n] by (simp add: add.commute)
  also have "[m * n..<m * n + n] = map (\<lambda>k. m * n + k) [0..<n]" by (rule nth_equalityI) simp_all
  finally show ?case using Suc by (simp add: comp_def)
qed simp

lemma concat_map_Nil: "concat (map (\<lambda>_. []) xs) = []"
  by (induction xs) auto

lemma concat_children:
  "concat (map (\<lambda>i. if h i = 0 then [] else g i (h i)) xs) =
   concat (map (\<lambda>(i, c). g i c) (filter (\<lambda>(i, c). c \<noteq> 0) (map (\<lambda>i. (i, h i)) xs)))"
  by (induction xs) auto

lemma rt_list_Suc:
  assumes b: "B p = Some b" and absent: "\<not> P (rt_absent K)" and pos: "0 < rt_span K l"
  shows "rt_list K P B (Suc l) p n = concat (map (\<lambda>(i, c). rt_list K P B l c (n + i * rt_span K l)) (children b))"
proof -
  let ?S = "rt_span K l" and ?e = "\<lambda>k. if P (rt_get K B (Suc l) p k) then [(sat (n + k), rt_get K B (Suc l) p k)] else []"
  have get: "rt_get K B (Suc l) p (i * ?S + k) = (if child_at b i = 0 then rt_absent K else rt_get K B l (child_at b i) k)"
    if "k < ?S" for i k using that b pos by (simp add: Let_def)
  have block: "concat (map (\<lambda>k. ?e (i * ?S + k)) [0..<?S]) =
      (if child_at b i = 0 then [] else rt_list K P B l (child_at b i) (n + i * ?S))" for i
  proof -
    have "map (\<lambda>k. ?e (i * ?S + k)) [0..<?S] = map (\<lambda>k. if child_at b i \<noteq> 0 \<and> P (rt_get K B l (child_at b i) k)
        then [(sat (n + i * ?S + k), rt_get K B l (child_at b i) k)] else []) [0..<?S]"
      by (rule map_cong) (use absent in \<open>simp_all only: get set_upt atLeastLessThan_iff, auto simp: add.assoc\<close>)
    then show ?thesis unfolding rt_list_def by (cases "child_at b i = 0") (simp_all only: refl simp_thms if_True if_False concat_map_Nil)
  qed
  have "rt_list K P B (Suc l) p n = concat (map (\<lambda>i. concat (map (\<lambda>k. ?e (i * ?S + k)) [0..<?S])) [0..<1021])"
    unfolding rt_list_def rt_span_Suc by (rule concat_blocks)
  also have "\<dots> = concat (map (\<lambda>(i, c). rt_list K P B l c (n + i * ?S)) (children b))"
    unfolding block children_def by (rule concat_children)
  finally show ?thesis .
qed

lemma rt_list_filter:
  "rt_list K P B l p n = map (\<lambda>k. (sat (n + k), rt_get K B l p k)) (filter (\<lambda>k. P (rt_get K B l p k)) [0..<rt_span K l])"
proof -
  have "concat (map (\<lambda>k. if Q k then [f k] else []) xs) = map f (filter Q xs)" for Q and f :: "nat \<Rightarrow> u64 \<times> 'a" and xs
    by (induction xs) auto
  then show ?thesis by (simp add: rt_list_def)
qed

lemma rt_list_sorted:
  assumes "\<And>k. k < rt_span K l \<Longrightarrow> P (rt_get K B l p k) \<Longrightarrow> k < 2 ^ 64"
  shows "sorted_wrt (<) (map fst (rt_list K P B l p 0))"
    and "(x, v) \<in> set (rt_list K P B l p 0) \<longleftrightarrow> unat x < rt_span K l \<and> v = rt_get K B l p (unat x) \<and> P v"
proof -
  let ?ks = "filter (\<lambda>k. P (rt_get K B l p k)) [0..<rt_span K l]"
  have u: "unat (sat k) = k" if "k \<in> set ?ks" for k using that assms [of k] by (simp add: unat_sat)
  have "sorted_wrt (\<lambda>x y. sat x < sat y) ?ks"
  proof (rule sorted_wrt_mono_rel)
    show "sorted_wrt (<) ?ks" by (intro sorted_wrt_filter) simp
    show "sat x < sat y" if "x \<in> set ?ks" "y \<in> set ?ks" "x < y" for x y
      using that u [OF that(1)] u [OF that(2)] by (simp only: word_less_nat_alt)
  qed
  then show "sorted_wrt (<) (map fst (rt_list K P B l p 0))" by (simp add: rt_list_filter sorted_wrt_map)
  show "(x, v) \<in> set (rt_list K P B l p 0) \<longleftrightarrow> unat x < rt_span K l \<and> v = rt_get K B l p (unat x) \<and> P v"
  proof
    assume "(x, v) \<in> set (rt_list K P B l p 0)"
    then obtain k where "k \<in> set ?ks" "x = sat k" "v = rt_get K B l p k" by (auto simp: rt_list_filter)
    then show "unat x < rt_span K l \<and> v = rt_get K B l p (unat x) \<and> P v" using u [of k] by simp
  next
    assume "unat x < rt_span K l \<and> v = rt_get K B l p (unat x) \<and> P v"
    then show "(x, v) \<in> set (rt_list K P B l p 0)"
      using sat_unat [of x] by (auto simp: rt_list_filter image_iff intro!: bexI [of _ "unat x"])
  qed
qed

text \<open>The key of the first slot below child \<open>i\<close>, accumulated with saturation.\<close>

lemma sat_base:
  assumes "i < 1021" and "unat sp = S"
  shows "saturating_add (sat n) (saturating_mul (word_of_nat i) sp) = sat (n + i * S)"
proof -
  have "sp = sat S" using assms(2) by (metis sat_unat)
  then show ?thesis using assms(1) by (simp add: sat_add sat_mul sat_small [symmetric])
qed

text \<open>Listing an interior page: its children one after the other, each added to what is there.\<close>

lemma fold_adds:
  assumes "\<And>acc. add acc [] = acc" and "\<And>acc xs ys. add (add acc xs) ys = add acc (xs @ ys)"
  shows "fold (\<lambda>x acc. add acc (g x)) xs acc = add acc (concat (map g xs))"
  using assms by (induction xs arbitrary: acc) simp_all

lemma list_children_wp:
  assumes q: "quiet w c d" and b: "page_store w T c p = Some b" and absent: "\<not> P (rt_absent K)" and pos: "0 < rt_span K l"
    and add: "\<And>acc. add acc [] = acc" "\<And>acc xs ys. add (add acc xs) ys = add acc (xs @ ys)"
    and rec: "\<And>i acc e. i < 1021 \<Longrightarrow> child_at b i \<noteq> 0 \<Longrightarrow> pc_inv w e \<Longrightarrow> page_store w T e = page_store w T c \<Longrightarrow>
      wp (f i (child_at b i) acc) (\<lambda>r g. quiet w e g \<and>
        r = add acc (rt_list K P (page_store w T c) l (child_at b i) (n + i * rt_span K l))) (read_fails w e) e"
  shows "wp (fold_each (children b) (\<lambda>(i, child). f i child) acc)
    (\<lambda>r e. quiet w c e \<and> r = add acc (rt_list K P (page_store w T c) (Suc l) p n)) (read_fails w c) d"
proof -
  let ?B = "page_store w T c" and ?g = "\<lambda>(i, q). rt_list K P (page_store w T c) l q (n + i * rt_span K l)"
  have inv: "pc_inv w d" using q by (simp add: quiet_def)
  have "wp (fold_each (children b) (\<lambda>(i, child). f i child) acc)
      (\<lambda>r e. quiet w d e \<and> r = fold (\<lambda>x acc. add acc (?g x)) (children b) acc) (read_fails w d) d"
  proof (rule fold_each_quiet [OF inv], clarify)
    fix i child acc e
    assume x: "(i, child) \<in> set (children b)" and e: "quiet w d e"
    then have i: "i < 1021" "child = child_at b i" "child \<noteq> 0" by (auto simp: children_def)
    have "page_store w T e = ?B" "pc_inv w e" using quiet_page_store [OF quiet_trans [OF q e]] e by (simp_all add: quiet_def)
    then show "wp (f i child acc) (\<lambda>r g. quiet w e g \<and> r = add acc (rt_list K P ?B l child (n + i * rt_span K l))) (read_fails w e) e"
      using rec [of i e acc] i by simp
  qed
  then show ?thesis
    unfolding fold_adds [of add, OF add] rt_list_Suc [where B = ?B and K = K and P = P and p = p and b = b and l = l and n = n, OF b absent pos]
    by (rule wp_mono) (auto intro: quiet_trans [OF q] read_fails_later [OF q])
qed

section \<open>A sample state\<close>

abbreviation ctx :: "page_cache \<Rightarrow> nat \<Rightarrow> u64 list \<Rightarrow> (unit, radix_own) tree_ctx" where
  "ctx c depth freed \<equiv> \<lparr>t_env = (), t_cache = c, t_own = \<lparr>ro_depth = depth, ro_freed = freed\<rparr>\<rparr>"

text \<open>A cache of 100 pages over an empty in-memory device with page 0 taken, and a new table in it.\<close>

definition wide_cache :: page_cache where
  "wide_cache = page_cache_new open_in_memory 819200 0 LruTail InMemory"

definition wide_one :: "(unit, radix_own) tree_ctx" where
  "wide_one = ctx (snd (pc_new_page toy_world wide_cache)) 0 []"

lemma wide_one:
  "pc_inv toy_world (t_cache wide_one)" "next_page_id (t_cache wide_one) = 1" "roomy (t_cache wide_one) 99"
  "id_room (t_cache wide_one) 1000" "t_own wide_one = \<lparr>ro_depth = 0, ro_freed = []\<rparr>"
proof -
  have io: "io_ok open_in_memory" "stride open_in_memory = PAGE_SIZE" "unat (cached_page_count open_in_memory) * ENC_PAGE_SIZE < 2 ^ 64"
    by (simp_all add: io_ok_def open_in_memory_def)
  have w: "pc_inv toy_world wide_cache" unfolding wide_cache_def by (rule page_cache_new_inv [OF io])
  have n: "next_page_id wide_cache = 0" "roomy wide_cache 100" "entries wide_cache = []" "max_pages wide_cache = 100"
    by (simp_all add: wide_cache_def page_cache_new_def io_page_count_def open_in_memory_def pages_for_bytes_def roomy_def space_def)
  have room: "id_room wide_cache (Suc 1000)" by (simp add: id_room_def n)
  have calm: "calm wide_cache 1" by (simp add: calm_def n)
  obtain p c where run: "pc_new_page toy_world wide_cache = (Ok p, c)"
    and post: "p = next_page_id wide_cache \<and> updates toy_world wide_cache [p \<mapsto> replicate 8184 0] c \<and> grown wide_cache 1 c \<and>
      next_page_id c = next_page_id wide_cache + 1 \<and> id_room c 1000"
    by (rule wp_total [OF store_new_wp [OF w toy_world_ok room] fails_calm [OF toy_world_no_faults calm]]) auto
  have c: "t_cache wide_one = c" by (simp add: wide_one_def run)
  show "pc_inv toy_world (t_cache wide_one)" "next_page_id (t_cache wide_one) = 1" "id_room (t_cache wide_one) 1000"
    using post by (simp_all add: c n updates_def)
  show "roomy (t_cache wide_one) 99" unfolding c
    by (rule updates_roomy [where j = 1]) (use post n in auto)
  show "t_own wide_one = \<lparr>ro_depth = 0, ro_freed = []\<rparr>" by (simp add: wide_one_def)
qed

end
