(* ===== verification/Radix_Ops.thy ===== *)
theory Radix_Ops
  imports Radix_Cow
begin

text \<open>
  What inserting into and deleting from a copy-on-write radix tree have in common, for any page
  format and any allocator: the descent that copies the path, the new roots that make room for a
  key, and the outcome of the whole.
\<close>

definition rt_fmt :: "'v rt_format \<Rightarrow> bool" where
  "rt_fmt K \<longleftrightarrow> 0 < rt_slots K \<and>
     (\<forall>b i c. length b = 8184 \<longrightarrow> i < 1021 \<longrightarrow> rt_node K b \<longrightarrow> rt_node K (put_u64 (16 + i * 8) c b))"

lemma rt_fmt_span: "rt_fmt K \<Longrightarrow> 0 < rt_span K l"
  by (simp add: rt_fmt_def rt_span_def)

lemma rt_fmt_node: "rt_fmt K \<Longrightarrow> length b = 8184 \<Longrightarrow> i < 1021 \<Longrightarrow> rt_node K b \<Longrightarrow> rt_node K (put_u64 (16 + i * 8) c b)"
  by (simp add: rt_fmt_def)

lemma rt_span_le: "l \<le> m \<Longrightarrow> rt_span K l \<le> rt_span K m"
  by (simp add: rt_span_def power_increasing)

lemma digits_eq: "k div n = h div n \<Longrightarrow> k mod n = h mod n \<longleftrightarrow> k = (h :: nat)"
  by (metis div_mult_mod_eq)

definition rt_entry :: "'v rt_format \<Rightarrow> (u64 \<rightharpoonup> u8 list) \<Rightarrow> nat \<Rightarrow> u64 \<Rightarrow> nat \<Rightarrow> 'v" where
  "rt_entry K B l p k = (if k < rt_span K l then rt_get K B l p k else rt_absent K)"

text \<open>Writing a child's id into a page.\<close>

lemma put_child:
  assumes "i < 1021" and "page_ok buf"
  shows "page_ok (stamp_checksum xxh (put_u64 (16 + i * 8) c buf))"
    and "page_body (stamp_checksum xxh (put_u64 (16 + i * 8) c buf)) = put_u64 (16 + i * 8) c (page_body buf)"
    and "verify_checksum xxh (stamp_checksum xxh (put_u64 (16 + i * 8) c buf))"
  using assms by (simp_all add: body_put)

text \<open>
  \<open>while self.depth < MAX_DEPTH && key >= self.capacity()\<close>: new roots until the key fits; the handle
  table and the membership index have the same loop.
\<close>

function raise_root ::
  "nat \<Rightarrow> (nat \<Rightarrow> u64) \<Rightarrow> (u64 \<Rightarrow> ('x, radix_own, u64) tree_op) \<Rightarrow> nat \<Rightarrow> u64 \<Rightarrow> u64 \<Rightarrow> ('x, radix_own, u64) tree_op" where
  "raise_root max_depth capacity grow depth current_root key =
     (if depth < max_depth \<and> capacity depth \<le> key
      then and_then (grow current_root) (\<lambda>new_root. raise_root max_depth capacity grow (depth + 1) new_root key)
      else ok current_root)"
  by pat_completeness auto
termination by (relation "measure (\<lambda>(m, cap, grow, depth, root, key). m - depth)") auto

declare raise_root.simps [simp del]

context page_alloc
begin

definition pushed :: "u64 \<Rightarrow> radix_own \<Rightarrow> radix_own" where
  "pushed p v = v\<lparr>ro_freed := ro_freed v @ [p]\<rparr>"

lemma copy_push_wp:
  assumes "fit 1 s" and "store s p = Some b"
  shows "wp (and_then (call_alloc alloc) (\<lambda>q. and_then (on_cache (copy_page w p q)) (\<lambda>_. and_then (push_freed p) (\<lambda>_. ok q))))
    (\<lambda>q t. \<exists>u. opened s q b u \<and> t = u\<lparr>t_own := pushed p (t_own s)\<rparr>) (stuck 1 s) s"
proof -
  have "wp (call_alloc alloc) (\<lambda>q. wp (on_cache (copy_page w p q)) (\<lambda>_ t. \<exists>u. opened s q b u \<and>
      t\<lparr>t_own := (t_own t)\<lparr>ro_freed := ro_freed (t_own t) @ [p]\<rparr>\<rparr> = u\<lparr>t_own := pushed p (t_own s)\<rparr>) (stuck 1 s)) (stuck 1 s) s"
    by (rule wp_mono [OF fresh_copy_wp [OF assms]], erule wp_mono) (auto simp: opened_def pushed_def)
  then show ?thesis by (simp add: wp_simps)
qed

text \<open>The page a descent goes on with: the child there is, or a blank one.\<close>

lemma actual_child_wp:
  assumes fmt: "rt_fmt K" and fit: "fit 1 s1" and ok: "rt_ok K (store s) (Suc l) p" and b: "store s p = Some b" and i: "i < 1021"
    and new: "opened s q b u1" and s1: "s1 = u1\<lparr>t_own := v\<rparr>"
    and mk: "wp mk (\<lambda>a. fresh_page s1 a bb) (stuck 1 s1) s1"
    and blank: "\<And>B a. B a = Some bb \<Longrightarrow> a \<noteq> 0 \<Longrightarrow>
      rt_ok K B l a \<and> rt_pages B l a = {a} \<and> (\<forall>k < rt_span K l. rt_get K B l a k = rt_absent K)"
  shows "wp (if child_at b i = 0 then mk else ok (child_at b i))
    (\<lambda>a t. \<exists>F. step {} 1 s1 t \<and> in_use t = in_use s1 \<union> F \<and> F \<inter> in_use s1 = {} \<and> rt_ok K (store t) l a \<and>
       rt_pages (store t) l a = kid_pages (store s) l (child_at b i) \<union> F \<and> t_own t = v \<and>
       (child_at b i \<noteq> 0 \<longrightarrow> rt_spine (store s) l (child_at b i) \<longrightarrow> rt_spine (store t) l a) \<and>
       (\<forall>k < rt_span K (Suc l). k div rt_span K l = i \<longrightarrow>
          rt_get K (store t) l a (k mod rt_span K l) = rt_get K (store s) (Suc l) p k))
    (stuck 1 s1) s1"
proof (cases "child_at b i = 0")
  case True
  show ?thesis
    unfolding if_P [OF True]
  proof (rule wp_mono [OF mk], goal_cases)
    case (1 a t)
    then have t: "store t a = Some bb" "a \<noteq> 0" by (simp_all add: fresh_page_def)
    note bl = blank [of "store t" a, OF t]
    show ?case
      using 1 bl rt_fmt_span [OF fmt, of l] b True s1 by (intro exI [of _ "{a}"]) (auto simp: fresh_page_def kid_pages_def Let_def)
  qed
next
  case False
  let ?c = "child_at b i"
  have wf: "rt_wf K (store s) (Suc l) p" "rt_tree (store s) (Suc l) p" using ok by (simp_all add: rt_ok_def)
  have st: "step {q} 1 s u1" "q \<notin> in_use s" using new by (simp_all add: opened_def)
  have sub: "rt_pages (store s) l ?c \<subseteq> in_use s" using pages_in_use [OF wf(1)] kid_in_pages [OF i, of "store s" p b l] b False by blast
  have fr: "store s1 r = store s r" if "r \<in> rt_pages (store s) l ?c" for r
    using step_store [OF st(1), of r] st(2) that sub s1 by auto
  note f = rt_frame [of "store s" l ?c "store s1" K, OF fr]
  have "rt_ok K (store s) l ?c" using wf b i False by (auto simp: rt_ok_def)
  then have okc: "rt_ok K (store s1) l ?c" by (rule rt_ok_frame) (rule fr)
  show ?thesis
    using False okc f b rt_fmt_span [OF fmt, of l] s1 step_weaken [OF step_refl [OF fit, of "{}"], of "{}" 1]
    by (simp add: wp_simps kid_pages_def Let_def exI [of _ "{}"])
qed

subsection \<open>Inserting\<close>

text \<open>The tree at \<open>q\<close> is the one at \<open>p\<close> with the value at \<open>h\<close> replaced.\<close>

definition inserted ::
  "'v rt_format \<Rightarrow> nat \<Rightarrow> u64 \<Rightarrow> nat \<Rightarrow> 'v \<Rightarrow> ('x, radix_own) tree_ctx \<Rightarrow> u64 \<Rightarrow> ('x, radix_own) tree_ctx \<Rightarrow> bool" where
  "inserted K l p h e s q t \<longleftrightarrow> moved K l p s q t \<and> step {} (2 * l + 1) s t \<and>
     (\<forall>k < rt_span K l. rt_get K (store t) l q k = (if k = h then e else rt_get K (store s) l p k))"

lemma inserted_leaf:
  assumes ok: "rt_ok K (store s) 0 p" and b: "store s p = Some b"
    and fx: "fresh_page s q b' (x\<lparr>t_own := t_own s\<rparr>)" and own: "t_own x = pushed p (t_own s)"
    and b': "length b' = 8184" "rt_leaf K b'" "\<And>k. k < rt_slots K \<Longrightarrow> rt_slot K b' k = (if k = h then e else rt_slot K b k)"
  shows "inserted K 0 p h e s q x"
proof -
  have x: "x = (x\<lparr>t_own := t_own s\<rparr>)\<lparr>t_own := (t_own s)\<lparr>ro_freed := ro_freed (t_own s) @ [p]\<rparr>\<rparr>" using own by (simp add: pushed_def)
  note m = moved_leaf [OF ok fx b'(1,2) x]
  have "step {} 1 s x" using fx by (simp add: fresh_page_def)
  then show ?thesis using m b b'(3) by (simp add: inserted_def)
qed

text \<open>Editing the leaf's copy.\<close>

lemma insert_leaf_wp:
  assumes fit: "fit 1 s" and ok: "rt_ok K (store s) 0 p" and b: "store s p = Some b"
    and copy: "wp m (\<lambda>q t. \<exists>u. opened s q b u \<and> t = u\<lparr>t_own := pushed p (t_own s)\<rparr>) (stuck 1 s) s"
    and f: "\<And>buf. page_ok buf \<Longrightarrow> page_ok (f buf)" "\<And>buf. page_ok buf \<Longrightarrow> page_body buf = b \<Longrightarrow> page_body (f buf) = b'"
      "\<And>buf. page_ok buf \<Longrightarrow> verify_checksum (w_xxh w) (f buf)"
    and b': "length b' = 8184" "rt_leaf K b'" "\<And>k. k < rt_slots K \<Longrightarrow> rt_slot K b' k = (if k = h then e else rt_slot K b k)"
  shows "wp m (\<lambda>q. wp (on_cache (pc_with_mut w q f)) (\<lambda>_. inserted K 0 p h e s q) (stuck 1 s)) (stuck 1 s) s"
proof (rule wp_mono [OF copy], goal_cases)
  case (1 q t)
  then obtain u where u: "opened s q b u" and t: "t = u\<lparr>t_own := pushed p (t_own s)\<rparr>" by auto
  have st: "step {q} 1 s u" and qb: "store t q = Some b" using u t by (simp_all add: opened_def)
  have ft: "fit 0 t" using step_fit [OF st, of 0] fit t by simp
  show ?case
  proof (rule wp_mono [OF write_wp [OF ft qb, where f = f and b' = b']], goal_cases)
    case (3 a x)
    have "opened s q b' (x\<lparr>t_own := t_own s\<rparr>)"
      by (rule opened_write [OF u]) (use 3 t u in \<open>simp_all add: opened_def\<close>)
    then have "fresh_page s q b' (x\<lparr>t_own := t_own s\<rparr>)" by (rule opened_stamped) (use 3 f(3) in simp)
    then show ?case using inserted_leaf [OF ok b _ _ b'] 3 t by simp
  next
    case (4 e' x)
    then show ?case using stuck_later [OF st, of 0] t by simp
  qed (use f in auto)
qed simp

text \<open>From the child on: the recursive call, then the new child's id into the copied page.\<close>

lemma insert_tail_wp:
  assumes fmt: "rt_fmt K" and ok: "rt_ok K (store s) (Suc l) p" and b: "store s p = Some b" "length b = 8184" "rt_node K b"
    and i: "i < 1021" "i = h div rt_span K l" and new: "opened s q b u"
    and kid: "step {} 1 u t" "in_use t = in_use u \<union> F" "F \<inter> in_use u = {}" "rt_ok K (store t) l a"
      "rt_pages (store t) l a = kid_pages (store s) l (child_at b i) \<union> F"
      "child_at b i \<noteq> 0 \<longrightarrow> rt_spine (store s) l (child_at b i) \<longrightarrow> rt_spine (store t) l a"
      "t_own t = (t_own s)\<lparr>ro_freed := ro_freed (t_own s) @ [p]\<rparr>"
    and kid_get: "\<forall>k < rt_span K (Suc l). k div rt_span K l = i \<longrightarrow>
        rt_get K (store t) l a (k mod rt_span K l) = rt_get K (store s) (Suc l) p k"
    and fit: "fit (2 * l + 1) t"
    and rec: "wp m (inserted K l a (h mod rt_span K l) e t) (stuck (2 * l + 1) t) t"
  shows "wp m (\<lambda>c. wp (on_cache (pc_with_mut w q (\<lambda>buf. stamp_checksum (w_xxh w) (put_u64 (16 + i * 8) c buf))))
      (\<lambda>_. wp (ok q) (inserted K (Suc l) p h e s) (stuck (2 * Suc l + 1) s)) (stuck (2 * Suc l + 1) s)) (stuck (2 * Suc l + 1) s) t"
proof (rule wp_mono [OF rec], goal_cases)
  let ?sp = "rt_span K l"
  have st: "step {q} 2 s t" using step_trans [of "{q}" 1 s u "{}" 1 t] kid(1) new by (simp add: opened_def numeral_2_eq_2)
  case (1 c t4)
  then have r: "step {} (2 * l + 1) t t4" "moved K l a t c t4"
    and get4: "\<And>k. k < ?sp \<Longrightarrow> rt_get K (store t4) l c k = (if k = h mod ?sp then e else rt_get K (store t) l a k)"
    by (auto simp: inserted_def)
  have st4: "step {q} (2 * Suc l + 1) s t4" using step_trans [OF st r(1)] by simp
  have f4: "fit 0 t4" using step_fit [OF r(1), of 0] fit by simp
  have qb: "store u q = Some b" using new by (simp add: opened_def)
  have q4: "store t4 q = Some b" using step_store_Some [OF r(1)] step_store_Some [OF kid(1) qb] by simp
  show ?case
  proof (rule wp_mono [OF write_wp [OF f4 q4, where b' = "put_u64 (16 + i * 8) c b"]], goal_cases)
    case (3 x y)
    then have y: "step {q} 0 t4 y" "store y = (store t4)(q \<mapsto> put_u64 (16 + i * 8) c b)" "in_use y = in_use t4" "t_own y = t_own t4" "q \<notin> raws y" using put_child(3) [OF i(1)] by auto
    note pd = path_down [OF ok b(1) i(1) rt_fmt_node [OF fmt b(2) i(1) b(3)] new kid r y]
    have "rt_get K (store y) (Suc l) q k = (if k = h then e else rt_get K (store s) (Suc l) p k)"
      if k: "k < rt_span K (Suc l)" for k
    proof (cases "k div ?sp = i")
      case True
      then show ?thesis using pd(3) [OF k] get4 [of "k mod ?sp"] kid_get k rt_fmt_span [OF fmt, of l] i(2) digits_eq [of k ?sp h] by simp
    next
      case False
      then show ?thesis using pd(3) [OF k] i(2) by auto
    qed
    moreover have "step {} (2 * Suc l + 1) s y" using pd(2) by simp
    ultimately show ?case using pd(1) by (simp add: wp_simps inserted_def)
  next
    case (4 e' y)
    then show ?case using stuck_later [OF st4, of 0] by simp
  qed (use i put_child in auto)
next
  have st: "step {q} 2 s t" using step_trans [of "{q}" 1 s u "{}" 1 t] kid(1) new by (simp add: opened_def numeral_2_eq_2)
  case (2 e' y)
  then show ?case using stuck_later [OF st] by fastforce
qed

text \<open>Reading the child to go on with, out of the copied page, then the rest.\<close>

lemma insert_node_wp:
  assumes fmt: "rt_fmt K" and fit: "fit (2 * Suc l + 1) s" and ok: "rt_ok K (store s) (Suc l) p"
    and b: "store s p = Some b" "length b = 8184" "rt_node K b" and i: "i < 1021" "i = h div rt_span K l"
    and copy: "fit 1 s \<Longrightarrow> wp m (\<lambda>q t. \<exists>u. opened s q b u \<and> t = u\<lparr>t_own := pushed p (t_own s)\<rparr>) (stuck 1 s) s"
    and mk: "\<And>t. fit 1 t \<Longrightarrow> wp mk (\<lambda>a. fresh_page t a bb) (stuck 1 t) t"
    and blank: "\<And>B a. B a = Some bb \<Longrightarrow> a \<noteq> 0 \<Longrightarrow>
      rt_ok K B l a \<and> rt_pages B l a = {a} \<and> (\<forall>k < rt_span K l. rt_get K B l a k = rt_absent K)"
    and rec: "\<And>t a. fit (2 * l + 1) t \<Longrightarrow> rt_ok K (store t) l a \<Longrightarrow>
      wp (ins a) (inserted K l a (h mod rt_span K l) e t) (stuck (2 * l + 1) t) t"
  shows "wp (and_then m (\<lambda>q. and_then (on_cache (pc_get w q)) (\<lambda>buf. and_then (slice_u64 (16 + i * 8) buf) (\<lambda>child.
      and_then (if child = 0 then mk else ok child) (\<lambda>a. and_then (ins a) (\<lambda>c.
      and_then (on_cache (pc_with_mut w q (\<lambda>buf. stamp_checksum (w_xxh w) (put_u64 (16 + i * 8) c buf)))) (\<lambda>_. ok q)))))))
    (inserted K (Suc l) p h e s) (stuck (2 * Suc l + 1) s) s"
  unfolding wp_and_then
proof (rule wp_mono [OF copy [OF fit_mono [OF fit]]], simp, goal_cases)
  let ?v = "pushed p (t_own s)" and ?n = "2 * Suc l + 1"
  case (1 q t)
  then obtain u where u: "opened s q b u" and t: "t = u\<lparr>t_own := ?v\<rparr>" by auto
  have st: "step {q} 1 s t" and qb: "store t q = Some b" using u t by (simp_all add: opened_def)
  have ft: "fit (2 * l + 2) t" using step_fit [OF st, of "2 * l + 2"] fit by simp
  show ?case
  proof (rule wp_mono [OF read_wp [OF ft qb]], goal_cases)
    case (1 buf t2)
    then have buf: "page_ok buf" "page_body buf = b" and t2: "step {} 0 t t2" "store t2 = store t" "in_use t2 = in_use t" "t_own t2 = ?v" using t by auto
    define u2 where "u2 = t2\<lparr>t_own := t_own s\<rparr>"
    have st2: "step {q} 1 s t2" using step_trans [OF st t2(1)] by simp
    then have u2: "opened s q b u2" using u t t2 by (simp add: opened_def u2_def)
    have t2u: "t2 = u2\<lparr>t_own := ?v\<rparr>" using t2(4) by (simp add: u2_def)
    have f2: "fit (2 * l + 2) t2" using step_fit [OF t2(1)] ft by simp
    have f1: "fit 1 t2" by (rule fit_mono [OF f2]) simp
    have ch: "get_u64 (16 + i * 8) buf = child_at b i" by (rule child_of_body [OF buf(2) i(1)])
    have main: "wp (if child_at b i = 0 then mk else ok (child_at b i)) (\<lambda>a. wp (ins a) (\<lambda>c.
        wp (on_cache (pc_with_mut w q (\<lambda>buf. stamp_checksum (w_xxh w) (put_u64 (16 + i * 8) c buf))))
          (\<lambda>_. wp (ok q) (inserted K (Suc l) p h e s) (stuck ?n s)) (stuck ?n s)) (stuck ?n s)) (stuck ?n s) t2"
    proof (rule wp_mono [OF actual_child_wp [OF fmt f1 ok b(1) i(1) u2 t2u mk [OF f1] blank]], goal_cases)
      case (3 a t3)
      then obtain F where t3: "step {} 1 u2 t3" "in_use t3 = in_use u2 \<union> F" "F \<inter> in_use u2 = {}"
        "rt_ok K (store t3) l a" "rt_pages (store t3) l a = kid_pages (store s) l (child_at b i) \<union> F"
        "child_at b i \<noteq> 0 \<longrightarrow> rt_spine (store s) l (child_at b i) \<longrightarrow> rt_spine (store t3) l a"
        "t_own t3 = (t_own s)\<lparr>ro_freed := ro_freed (t_own s) @ [p]\<rparr>"
        and get3: "\<forall>k < rt_span K (Suc l). k div rt_span K l = i \<longrightarrow>
          rt_get K (store t3) l a (k mod rt_span K l) = rt_get K (store s) (Suc l) p k"
        unfolding t2u pushed_def by auto
      have f3: "fit (2 * l + 1) t3" using step_fit [OF t3(1), of "2 * l + 1"] f2 t2u by simp
      show ?case by (rule insert_tail_wp [OF fmt ok b i u2 t3 get3 f3 rec [OF f3 t3(4)]])
    next
      case (4 e' y)
      then have "stuck (1 + 1) s e' y" by (rule stuck_later [OF st2])
      then show ?case by (rule stuck_mono) simp
    qed auto
    show ?case unfolding wp_slice ch by (rule conjI [OF _ main]) (use buf(1) i in simp)
  next
    case (2 e' y)
    then show ?case using stuck_mono [OF stuck_later [OF st]] by fastforce
  qed
next
  case (2 e' y)
  then show ?case by (rule stuck_mono) simp
qed

text \<open>The tree at \<open>q\<close>, of depth \<open>m\<close>, is the one at \<open>p\<close> under \<open>m - l\<close> new roots.\<close>

definition raised ::
  "'v rt_format \<Rightarrow> nat \<Rightarrow> u64 \<Rightarrow> ('x, radix_own) tree_ctx \<Rightarrow> nat \<Rightarrow> u64 \<Rightarrow> ('x, radix_own) tree_ctx \<Rightarrow> bool" where
  "raised K l p s m q t \<longleftrightarrow> l \<le> m \<and> step {} (m - l) s t \<and> rt_ok K (store t) m q \<and>
     (rt_spine (store s) l p \<longrightarrow> rt_spine (store t) m q) \<and> t_own t = (t_own s)\<lparr>ro_depth := m\<rparr> \<and>
     (\<exists>F. in_use t = in_use s \<union> F \<and> F \<inter> in_use s = {} \<and> rt_pages (store t) m q = rt_pages (store s) l p \<union> F) \<and>
     (\<forall>k < rt_span K m. rt_get K (store t) m q k = (if k < rt_span K l then rt_get K (store s) l p k else rt_absent K))"

lemma raised_refl: "fit n s \<Longrightarrow> rt_ok K (store s) l p \<Longrightarrow> ro_depth (t_own s) = l \<Longrightarrow> raised K l p s l p s"
  using step_refl [of n s "{}"] by (auto simp: raised_def intro: exI [of _ "{}"])

lemma raised_trans:
  assumes "raised K l p s m q t" and "raised K m q t n r u"
  shows "raised K l p s n r u"
proof -
  have le: "l \<le> m" "m \<le> n" and st: "step {} (m - l) s t" "step {} (n - m) t u" using assms by (auto simp: raised_def)
  have "step {} (n - l) s u" using step_trans [OF st] le by simp
  moreover obtain F G where "in_use t = in_use s \<union> F" "F \<inter> in_use s = {}" "rt_pages (store t) m q = rt_pages (store s) l p \<union> F"
    "in_use u = in_use t \<union> G" "G \<inter> in_use t = {}" "rt_pages (store u) n r = rt_pages (store t) m q \<union> G"
    using assms by (auto simp: raised_def)
  then have "\<exists>F. in_use u = in_use s \<union> F \<and> F \<inter> in_use s = {} \<and> rt_pages (store u) n r = rt_pages (store s) l p \<union> F"
    by (intro exI [of _ "F \<union> G"]) auto
  ultimately show ?thesis using assms rt_span_le [OF le(1), of K] unfolding raised_def by auto
qed

lemma grown_root_wp:
  assumes fit: "fit 1 s" and ok: "rt_ok K (store s) l p" and depth: "ro_depth (t_own s) = l"
    and bb: "length bb = 8184" "rt_node K (put_u64 16 p bb)" "\<And>i. i < 1021 \<Longrightarrow> child_at bb i = 0"
    and f: "\<And>buf. page_ok buf \<Longrightarrow> page_ok (f buf) \<and> page_body (f buf) = put_u64 16 p bb \<and> verify_checksum (w_xxh w) (f buf)"
  shows "wp (call_alloc alloc) (\<lambda>q. wp (on_cache (pc_with_mut w q f)) (\<lambda>_ t.
      raised K l p s (Suc l) q (t\<lparr>t_own := (t_own t)\<lparr>ro_depth := ro_depth (t_own t) + 1\<rparr>\<rparr>)) (stuck 1 s)) (stuck 1 s) s"
proof (rule wp_mono [OF fresh_init_wp [OF fit f]], simp, erule wp_mono, goal_cases)
  let ?b = "put_u64 16 p bb"
  have ch: "child_at ?b 0 = p" "i < 1021 \<Longrightarrow> i \<noteq> 0 \<Longrightarrow> child_at ?b i = 0" for i
    using child_at_put [OF bb(1), of 0 _ p] bb(3) by simp_all
  case (1 q t0 x t)
  then have t: "step {} 1 s t" "q \<notin> in_use s" "q \<noteq> 0" "in_use t = insert q (in_use s)" "store t = (store s)(q \<mapsto> ?b)" "t_own t = t_own s"
    by (auto simp: fresh_page_def)
  have sub: "rt_pages (store s) l p \<subseteq> in_use s" using pages_in_use [of K s l p] ok by (simp add: rt_ok_def)
  have q: "store t q = Some ?b" "q \<notin> rt_pages (store s) l p" and len: "length ?b = 8184" using t sub bb(1) by auto
  have same: "store t r = store s r" if "r \<in> rt_pages (store s) l p" for r using that q(2) t(5) by auto
  note g = rt_grown [OF ok q(1) len bb(2) t(3) q(2) ch same]
  have "\<exists>F. in_use t = in_use s \<union> F \<and> F \<inter> in_use s = {} \<and> rt_pages (store t) (Suc l) q = rt_pages (store s) l p \<union> F"
    using g(2) t(2,4) by (intro exI [of _ "{q}"]) auto
  then show ?case using g t(1,6) depth by (simp add: raised_def)
qed simp_all

lemma raise_root_wp:
  assumes grow: "\<And>l s p. fit 1 s \<Longrightarrow> rt_ok K (store s) l p \<Longrightarrow> ro_depth (t_own s) = l \<Longrightarrow> wp (grow p) (raised K l p s (Suc l)) (stuck 1 s) s"
    and cap: "\<And>l. \<not> cap l \<le> h \<Longrightarrow> unat h < rt_span K l" and top: "unat h < rt_span K n"
  shows "fit (n - l) s \<Longrightarrow> rt_ok K (store s) l p \<Longrightarrow> ro_depth (t_own s) = l \<Longrightarrow> l \<le> n \<Longrightarrow>
    wp (raise_root n cap grow l p h) (\<lambda>q t. \<exists>m \<le> n. raised K l p s m q t \<and> unat h < rt_span K m) (stuck (n - l) s) s"
proof (induction "n - l" arbitrary: l s p)
  case 0
  then show ?case using top raised_refl [of 0 s K l p] by (subst raise_root.simps) (auto simp: wp_simps)
next
  case (Suc k)
  have l: "l < n" "n - l = Suc (n - Suc l)" using Suc.hyps(2) by auto
  show ?case
  proof (cases "cap l \<le> h")
    case False
    then show ?thesis using l cap [of l] raised_refl [OF Suc.prems(1-3)]
      by (auto simp: raise_root.simps [of n cap grow l] wp_simps intro!: exI [of _ l])
  next
    case True
    then have un: "raise_root n cap grow l p h = and_then (grow p) (\<lambda>q. raise_root n cap grow (Suc l) q h)"
      using l by (simp add: raise_root.simps [of n cap grow l])
    show ?thesis
      unfolding un wp_and_then
    proof (rule wp_mono [OF grow [OF fit_mono [OF Suc.prems(1)] Suc.prems(2,3)]], use l in simp, goal_cases)
      case (1 q t)
      have st: "step {} 1 s t" using 1 by (simp add: raised_def)
      have f: "fit (n - Suc l) t" using step_fit [OF st, of "n - Suc l"] Suc.prems(1) l(2) by simp
      show ?case
      proof (rule wp_mono [OF Suc.hyps(1) [of "Suc l" t q]], goal_cases)
        case (6 r u)
        then show ?case using raised_trans [OF 1] by blast
      next
        case (7 e u)
        then show ?case using stuck_later [OF st, of "n - Suc l"] l(2) by simp
      qed (use f 1 l Suc.hyps(2) in \<open>auto simp: raised_def\<close>)
    next
      case (2 e u)
      then show ?case by (rule stuck_mono) (use l in simp)
    qed
  qed
qed

text \<open>The whole of an insertion: at most 6 new roots and 13 pages on the path.\<close>

definition updated ::
  "'v rt_format \<Rightarrow> nat \<Rightarrow> u64 \<Rightarrow> nat \<Rightarrow> 'v \<Rightarrow> ('x, radix_own) tree_ctx \<Rightarrow> nat \<Rightarrow> u64 \<Rightarrow> ('x, radix_own) tree_ctx \<Rightarrow> bool" where
  "updated K l p h e s m q t \<longleftrightarrow> l \<le> m \<and> m \<le> 6 \<and> step {} 19 s t \<and> rt_ok K (store t) m q \<and>
     (rt_spine (store s) l p \<longrightarrow> rt_spine (store t) m q) \<and>
     (\<exists>fs F. in_use t = in_use s \<union> F \<and> F \<inter> in_use s = {} \<and>
        accounted (rt_pages (store s) l p) F (rt_pages (store t) m q) fs \<and>
        t_own t = \<lparr>ro_depth = m, ro_freed = ro_freed (t_own s) @ fs\<rparr>) \<and>
     h < rt_span K m \<and> (\<forall>k. rt_entry K (store t) m q k = (if k = h then e else rt_entry K (store s) l p k))"

lemma updated_insert:
  assumes r: "raised K l p s m c t" and m: "m \<le> 6" "h < rt_span K m" and ins: "inserted K m c h e t q u"
  shows "updated K l p h e s m q u"
proof -
  obtain F where F: "in_use t = in_use s \<union> F" "F \<inter> in_use s = {}" "rt_pages (store t) m c = rt_pages (store s) l p \<union> F"
    and st: "step {} (m - l) s t" and lm: "l \<le> m" and own: "t_own t = (t_own s)\<lparr>ro_depth := m\<rparr>" using r by (auto simp: raised_def)
  obtain fs G where G: "in_use u = in_use t \<union> G" "G \<inter> in_use t = {}" "accounted (rt_pages (store t) m c) G (rt_pages (store u) m q) fs"
      "t_own u = (t_own t)\<lparr>ro_freed := ro_freed (t_own t) @ fs\<rparr>"
    and su: "step {} (2 * m + 1) t u" and oku: "rt_ok K (store u) m q" "rt_spine (store t) m c \<longrightarrow> rt_spine (store u) m q"
    using ins by (auto simp: inserted_def moved_def)
  have "step {} (m - l + (2 * m + 1)) s u" using step_trans [OF st su] by simp
  then have s19: "step {} 19 s u" by (rule step_weaken) (use m(1) in auto)
  have "accounted (rt_pages (store s) l p) (F \<union> G) (rt_pages (store u) m q) fs"
    using G(3) F(3) by (simp add: accounted_def Un_assoc)
  then have "\<exists>fs F. in_use u = in_use s \<union> F \<and> F \<inter> in_use s = {} \<and>
    accounted (rt_pages (store s) l p) F (rt_pages (store u) m q) fs \<and> t_own u = \<lparr>ro_depth = m, ro_freed = ro_freed (t_own s) @ fs\<rparr>"
    using F G own by (intro exI [of _ fs] exI [of _ "F \<union> G"]) auto
  moreover have "rt_entry K (store u) m q k = (if k = h then e else rt_entry K (store s) l p k)" for k
    using ins r m(2) rt_span_le [OF lm, of K] by (auto simp: rt_entry_def inserted_def raised_def)
  ultimately show ?thesis using s19 oku m lm r unfolding updated_def raised_def by auto
qed

lemma insert_radix_wp:
  assumes fit: "fit 19 s" and ok: "rt_ok K (store s) l p" and depth: "ro_depth (t_own s) = l" "l \<le> 6"
    and grow: "\<And>l s p. fit 1 s \<Longrightarrow> rt_ok K (store s) l p \<Longrightarrow> ro_depth (t_own s) = l \<Longrightarrow> wp (grow p) (raised K l p s (Suc l)) (stuck 1 s) s"
    and cap: "\<And>l. \<not> cap l \<le> h \<Longrightarrow> unat h < rt_span K l" and top: "unat h < rt_span K 6"
    and rec: "\<And>m t c. fit (2 * m + 1) t \<Longrightarrow> rt_ok K (store t) m c \<Longrightarrow> unat h < rt_span K m \<Longrightarrow> m \<le> 6 \<Longrightarrow>
      wp (ins m c) (inserted K m c (unat h) e t) (stuck (2 * m + 1) t) t"
  shows "wp (raise_root 6 cap grow l p h) (\<lambda>c. wp (and_then (gets (\<lambda>s. ro_depth (t_own s))) (\<lambda>d. ins d c))
      (\<lambda>q t. \<exists>m. updated K l p (unat h) e s m q t) (stuck 19 s)) (stuck 19 s) s"
proof (rule wp_mono [OF raise_root_wp [OF grow cap top fit_mono [OF fit] ok depth]], goal_cases)
  case (6 c t)
  then obtain m where m: "m \<le> 6" "raised K l p s m c t" "unat h < rt_span K m" by auto
  then have st: "step {} (m - l) s t" and okt: "rt_ok K (store t) m c" and own: "ro_depth (t_own t) = m" by (auto simp: raised_def)
  have ft: "fit (2 * m + 1) t" using step_fit [OF st, of "2 * m + 1"] fit_mono [OF fit, of "m - l + (2 * m + 1)"] m(1) by simp
  have "wp (ins m c) (\<lambda>q t. \<exists>m. updated K l p (unat h) e s m q t) (stuck 19 s) t"
  proof (rule wp_mono [OF rec [OF ft okt m(3,1)]], goal_cases)
    case (1 q u)
    then show ?case using updated_insert [OF m(2,1,3)] by blast
  next
    case (2 x u)
    then have "stuck (m - l + (2 * m + 1)) s x u" by (rule stuck_later [OF st])
    then show ?case by (rule stuck_mono) (use m(1) in simp)
  qed
  then show ?case using own by (simp add: wp_simps)
next
  case (7 x u)
  then show ?case by (rule stuck_mono) simp
qed auto

subsection \<open>Deleting\<close>

text \<open>
  The outcome of a deletion that reports \<open>f\<close> of the old value: nothing happens when the report says
  that there was none, and else the path is copied.
\<close>

definition removed ::
  "'v rt_format \<Rightarrow> ('v \<Rightarrow> 'r) \<Rightarrow> ('r \<Rightarrow> bool) \<Rightarrow> nat \<Rightarrow> u64 \<Rightarrow> nat \<Rightarrow> ('x, radix_own) tree_ctx \<Rightarrow> u64 \<times> 'r \<Rightarrow> ('x, radix_own) tree_ctx \<Rightarrow> bool" where
  "removed K f gone l p h s = (\<lambda>(q, prev) t. prev = f (rt_get K (store s) l p h) \<and> step {} (l + 1) s t \<and>
     (if gone prev then q = p \<and> store t = store s \<and> in_use t = in_use s \<and> t_own t = t_own s
      else moved K l p s q t \<and> (\<forall>k < rt_span K l. rt_get K (store t) l q k =
        (if k = h then rt_absent K else rt_get K (store s) l p k))))"

lemma removed_same:
  assumes "step {} 0 s t" and "store t = store s" and "in_use t = in_use s" and "t_own t = t_own s" and "removed K f gone l p h t r u"
  shows "removed K f gone l p h s r u"
proof -
  have "moved K l p s q u = moved K l p t q u" for q using assms(2-4) by (simp add: moved_def)
  then show ?thesis using assms step_trans [OF assms(1), of "{}" "l + 1" u]
    by (cases r) (auto simp: removed_def split: if_splits)
qed

text \<open>The edit of a copy, reported: what the code does between the recursive call and the return.\<close>

definition edited :: "u64 \<Rightarrow> u8 list \<Rightarrow> ('x, radix_own) tree_ctx \<Rightarrow> u64 \<Rightarrow> ('x, radix_own) tree_ctx \<Rightarrow> bool" where
  "edited p b' t q u \<longleftrightarrow> fresh_page t q b' (u\<lparr>t_own := t_own t\<rparr>) \<and> t_own u = pushed p (t_own t)"

lemma push_edit_wp:
  assumes "fit 1 s" and "store s p = Some b"
    and "\<And>buf. page_ok buf \<Longrightarrow> page_ok (f buf) \<and> (page_body buf = b \<longrightarrow> page_body (f buf) = b') \<and> verify_checksum (w_xxh w) (f buf)"
  shows "wp (and_then (call_alloc alloc) (\<lambda>q. and_then (on_cache (copy_page w p q)) (\<lambda>_. and_then (push_freed p) (\<lambda>_.
    and_then (on_cache (pc_with_mut w q f)) (\<lambda>_. ok q))))) (edited p b' s) (stuck 1 s) s"
  unfolding wp_and_then wp_ok edited_def
  by (rule copy_edit_wp [OF assms]) (auto simp: wp_simps opened_def pushed_def)

lemma edit_push_wp:
  assumes "fit 1 s" and "store s p = Some b"
    and "\<And>buf. page_ok buf \<Longrightarrow> page_ok (f buf) \<and> (page_body buf = b \<longrightarrow> page_body (f buf) = b') \<and> verify_checksum (w_xxh w) (f buf)"
  shows "wp (and_then (call_alloc alloc) (\<lambda>q. and_then (on_cache (copy_page w p q)) (\<lambda>_.
    and_then (on_cache (pc_with_mut w q f)) (\<lambda>_. and_then (push_freed p) (\<lambda>_. ok q))))) (edited p b' s) (stuck 1 s) s"
proof -
  have id: "wp (ok ()) (\<lambda>_ u. \<exists>v. u = t\<lparr>t_own := v\<rparr> \<and> v = t_own s) (stuck 1 s) t" if "opened s q b t" for q t
  proof -
    have "t = t\<lparr>t_own := t_own s\<rparr>" using that by (cases t) (simp add: opened_def)
    then show ?thesis by (simp add: wp_simps)
  qed
  have "wp (call_alloc alloc) (\<lambda>q. wp (on_cache (copy_page w p q)) (\<lambda>_. wp (ok ()) (\<lambda>_. wp (on_cache (pc_with_mut w q f))
      (\<lambda>_ t. fresh_page s q b' (t\<lparr>t_own := t_own s\<rparr>) \<and> t_own t = t_own s) (stuck 1 s)) (stuck 1 s)) (stuck 1 s)) (stuck 1 s) s"
    by (rule copy_edit_wp [OF assms], assumption) (rule id)
  then show ?thesis
    unfolding wp_and_then wp_ok edited_def by (elim wp_mono) (auto simp: wp_simps pushed_def)
qed

lemma removed_leaf_wp:
  assumes ok: "rt_ok K (store s) 0 p" and b: "store s p = Some b" and h: "h < rt_slots K" and fit: "fit 1 s"
    and b': "length b' = 8184" "rt_leaf K b'" "\<And>k. k < rt_slots K \<Longrightarrow> rt_slot K b' k = (if k = h then rt_absent K else rt_slot K b k)"
    and old: "old = f (rt_slot K b h)"
    and edit: "\<not> gone old \<Longrightarrow> wp e (edited p b' s) (stuck 1 s) s"
  shows "wp (if gone old then ok (p, old) else and_then e (\<lambda>q. ok (q, old))) (removed K f gone 0 p h s) (stuck 1 s) s"
proof (cases "gone old")
  case True
  then show ?thesis using old b step_weaken [OF step_refl [OF fit, of "{}"], of "{}" 1] by (simp add: wp_simps removed_def)
next
  case False
  have "wp e (\<lambda>q. removed K f gone 0 p h s (q, old)) (stuck 1 s) s"
  proof (rule wp_mono [OF edit [OF False]], goal_cases)
    case (1 q u)
    then have fx: "fresh_page s q b' (u\<lparr>t_own := t_own s\<rparr>)" and own: "t_own u = pushed p (t_own s)" by (simp_all add: edited_def)
    note ins = inserted_leaf [OF ok b fx own b']
    then show ?case using False old b by (auto simp: removed_def inserted_def)
  qed simp
  then show ?thesis using False by (simp add: wp_simps)
qed

text \<open>From the child on.\<close>

lemma removed_tail_wp:
  assumes fmt: "rt_fmt K" and ok: "rt_ok K (store s) (Suc l) p" and b: "store s p = Some b" "length b = 8184" "rt_node K b"
    and i: "i < 1021" "i = h div rt_span K l" and ch: "child_at b i \<noteq> 0" and fit: "fit (l + 1 + 1) s"
    and edit: "\<And>c t. fit 1 t \<Longrightarrow> store t p = Some b \<Longrightarrow> wp (e c) (edited p (put_u64 (16 + i * 8) c b) t) (stuck 1 t) t"
    and rec: "wp m (removed K f gone l (child_at b i) (h mod rt_span K l) s) (stuck (l + 1) s) s"
  shows "wp (and_then m (\<lambda>(c, prev). if gone prev then ok (p, prev) else and_then (e c) (\<lambda>q. ok (q, prev))))
      (removed K f gone (Suc l) p h s) (stuck (Suc l + 1) s) s"
  unfolding wp_and_then [of m]
proof (rule wp_mono [OF rec], goal_cases)
  case (2 e t)
  then show ?case by (rule stuck_mono) simp
next
  let ?sp = "rt_span K l"
  have get: "rt_get K (store s) (Suc l) p h = rt_get K (store s) l (child_at b i) (h mod ?sp)"
    using b(1) ch i(2) by (simp add: Let_def)
  case (1 cp t)
  obtain c prev where cp: "cp = (c, prev)" by (cases cp)
  have st: "step {} (l + 1) s t" and prev: "prev = f (rt_get K (store s) (Suc l) p h)"
    using 1 get by (simp_all add: cp removed_def del: rt_get.simps)
  show ?case
  proof (cases "gone prev")
    case True
    then show ?thesis using 1 prev step_weaken [OF st, of "{}" "Suc l + 1"]
      by (simp add: cp wp_simps removed_def del: rt_get.simps)
  next
    case False
    then have mv: "moved K l (child_at b i) s c t" and get1: "\<And>k. k < ?sp \<Longrightarrow> rt_get K (store t) l c k =
        (if k = h mod ?sp then rt_absent K else rt_get K (store s) l (child_at b i) k)"
      using 1 by (simp_all add: cp removed_def)
    have ft: "fit 1 t" using step_fit [OF st, of 1] fit by simp
    have bt: "store t p = Some b" by (rule step_store_Some [OF st b(1)]) simp
    have "wp (e c) (\<lambda>q. removed K f gone (Suc l) p h s (q, prev)) (stuck (Suc l + 1) s) t"
    proof (rule wp_mono [OF edit [OF ft bt]], goal_cases)
      case (1 q y)
      then have fy: "fresh_page t q (put_u64 (16 + i * 8) c b) (y\<lparr>t_own := t_own t\<rparr>)"
        and own: "t_own y = (t_own t)\<lparr>ro_freed := ro_freed (t_own t) @ [p]\<rparr>" by (simp_all add: edited_def pushed_def)
      note pu = path_up [OF ok b(1) i(1) ch rt_fmt_node [OF fmt b(2) i(1) b(3)] st mv fy own]
      have "rt_get K (store y) (Suc l) q k = (if k = h then rt_absent K else rt_get K (store s) (Suc l) p k)"
        if k: "k < rt_span K (Suc l)" for k
      proof (cases "k div ?sp = i")
        case True
        then show ?thesis using pu(3) [OF k] get1 [of "k mod ?sp"] rt_fmt_span [OF fmt, of l] b(1) ch i(2) digits_eq [of k ?sp h]
          by (simp add: Let_def)
      next
        case False
        then show ?thesis using pu(3) [OF k] i(2) by auto
      qed
      then show ?case using pu(1,2) prev False by (auto simp: removed_def simp del: rt_get.simps)
    next
      case (2 e u)
      then show ?case using stuck_later [OF st, of 1] by simp
    qed
    then show ?thesis using False by (auto simp: cp wp_simps)
  qed
qed

lemma remove_node_wp:
  assumes fmt: "rt_fmt K" and fit: "fit (Suc l + 1) s" and ok: "rt_ok K (store s) (Suc l) p"
    and b: "store s p = Some b" "length b = 8184" "rt_node K b" and i: "i < 1021" "i = h div rt_span K l"
    and none: "gone (f (rt_absent K))" "none = f (rt_absent K)"
    and chk: "\<And>buf. page_body buf = b \<Longrightarrow> chk buf = ok ()"
    and edit: "\<And>c t. fit 1 t \<Longrightarrow> store t p = Some b \<Longrightarrow> wp (e c) (edited p (put_u64 (16 + i * 8) c b) t) (stuck 1 t) t"
    and rec: "\<And>t. fit (l + 1) t \<Longrightarrow> rt_ok K (store t) l (child_at b i) \<Longrightarrow>
      wp (del (child_at b i)) (removed K f gone l (child_at b i) (h mod rt_span K l) t) (stuck (l + 1) t) t"
  shows "wp (and_then (on_cache (pc_get w p)) (\<lambda>buf. and_then (chk buf) (\<lambda>_. and_then (slice_u64 (16 + i * 8) buf) (\<lambda>child.
      if child = 0 then ok (p, none)
      else and_then (del child) (\<lambda>(c, prev). if gone prev then ok (p, prev) else and_then (e c) (\<lambda>q. ok (q, prev)))))))
    (removed K f gone (Suc l) p h s) (stuck (Suc l + 1) s) s"
  unfolding wp_and_then [of "on_cache (pc_get w p)"]
proof (rule wp_mono [OF read_wp [OF fit b(1)]], goal_cases)
  let ?c = "child_at b i"
  case (1 buf t)
  then have buf: "page_ok buf" "page_body buf = b" and t: "step {} 0 s t" "store t = store s" "in_use t = in_use s" "t_own t = t_own s" by auto
  have ch: "get_u64 (16 + i * 8) buf = ?c" by (rule child_of_body [OF buf(2) i(1)])
  have ft: "fit (l + 1 + 1) t" using step_fit [OF t(1), of "l + 1 + 1"] fit by simp
  show ?case
  proof (cases "?c = 0")
    case True
    then have "rt_get K (store s) (Suc l) p h = rt_absent K" using b(1) i(2) by (simp add: Let_def)
    then show ?thesis using t none buf i True step_weaken [OF t(1), of "{}" "Suc (Suc l)"] unfolding chk [OF buf(2)] and_then_ok wp_and_then wp_slice ch
      by (simp add: wp_simps removed_def del: rt_get.simps)
  next
    case False
    have okc: "rt_ok K (store t) l ?c" using ok b(1) i False t(2) by (auto simp: rt_ok_def)
    have okp: "rt_ok K (store t) (Suc l) p" and bt: "store t p = Some b" using ok b(1) t(2) by simp_all
    note tail = removed_tail_wp [OF fmt okp bt b(2,3) i False ft edit rec [OF fit_mono [OF ft] okc]]
    have main: "wp (and_then (del ?c) (\<lambda>(c, prev). if gone prev then ok (p, prev) else and_then (e c) (\<lambda>q. ok (q, prev))))
        (removed K f gone (Suc l) p h s) (stuck (Suc l + 1) s) t"
      by (rule wp_mono [OF tail]) (use removed_same [OF t] stuck_later [OF t(1)] in fastforce)+
    show ?thesis unfolding chk [OF buf(2)] and_then_ok wp_and_then [of "slice_u64 _ _"] wp_slice ch if_not_P [OF False] by (rule conjI [OF _ main]) (use buf(1) i in simp)
  qed
next
  case (2 e' t)
  then show ?case by (rule stuck_mono) simp
qed

end

end
