(* ===== verification/Handle_Table.thy ===== *)
theory Handle_Table
  imports Radix_Ops Byte_Layout
begin

text \<open>
  The handle table, \<open>src/src/handle_table.rs\<close>: a copy-on-write radix tree from handles to entries,
  510 entries of 16 bytes per leaf and 1021 child ids per interior page, at most 6 interior levels.
  \<open>insert\<close> and \<open>delete\<close> never write to a page of the tree they are given: they copy the path to the
  leaf and return a new root, and report the pages the new tree no longer uses.
\<close>

section \<open>Definitions\<close>

definition ENTRY_SIZE :: nat where [simp]: "ENTRY_SIZE = 16"
definition ENTRIES_PER_LEAF :: nat where [simp]: "ENTRIES_PER_LEAF = (CHECKSUM_OFFSET - DATA_PAGE_HEADER_SIZE) div ENTRY_SIZE"
definition CHILD_PTR_SIZE :: nat where [simp]: "CHILD_PTR_SIZE = 8"
definition PTRS_PER_INTERIOR :: nat where [simp]: "PTRS_PER_INTERIOR = (CHECKSUM_OFFSET - DATA_PAGE_HEADER_SIZE) div CHILD_PTR_SIZE"
definition HT_MAX_DEPTH :: nat where [simp]: "HT_MAX_DEPTH = 6"
definition FLAG_LEAF :: u8 where [simp]: "FLAG_LEAF = 0x01"
definition FLAG_INTERIOR :: u8 where [simp]: "FLAG_INTERIOR = 0x02"

datatype handle_flags = Live | Deleted | OverflowValue

fun flags_to_u8 :: "handle_flags \<Rightarrow> u8" where
  "flags_to_u8 Live = 0x01"
| "flags_to_u8 Deleted = 0x00"
| "flags_to_u8 OverflowValue = 0x02"

definition flags_from_u8 :: "u8 \<Rightarrow> handle_flags" where
  "flags_from_u8 v = (if v = 0x01 then Live else if v = 0x02 then OverflowValue else Deleted)"

record handle_entry =
  he_page_id :: u64
  he_slot_index :: u16
  he_flags :: handle_flags
  he_tag :: u32
  he_client_byte :: u8

definition read_entry :: "u8 list \<Rightarrow> nat \<Rightarrow> handle_entry" where
  "read_entry buf index =
     (let base = DATA_PAGE_HEADER_SIZE + index * ENTRY_SIZE
      in \<lparr>he_page_id = get_u64 base buf, he_slot_index = get_u16 (base + 8) buf,
          he_flags = flags_from_u8 (buf ! (base + 10)), he_tag = get_u32 (base + 11) buf,
          he_client_byte = buf ! (base + 15)\<rparr>)"

definition write_entry :: "u8 list \<Rightarrow> nat \<Rightarrow> handle_entry \<Rightarrow> u8 list" where
  "write_entry buf index entry =
     (let base = DATA_PAGE_HEADER_SIZE + index * ENTRY_SIZE;
          buf = put_u64 base (he_page_id entry) buf;
          buf = put_u16 (base + 8) (he_slot_index entry) buf;
          buf = buf[base + 10 := flags_to_u8 (he_flags entry)];
          buf = put_u32 (base + 11) (he_tag entry) buf
      in buf[base + 15 := he_client_byte entry])"

definition tombstone :: handle_entry where
  "tombstone = \<lparr>he_page_id = 0, he_slot_index = 0, he_flags = Deleted, he_tag = 0, he_client_byte = 0\<rparr>"

text \<open>The four places that initialise a page of the table, up to the flag.\<close>

definition ht_blank :: "u8 \<Rightarrow> page \<Rightarrow> page" where
  "ht_blank flag buf = (replicate (length buf) 0)
     [0 := page_type_tag HandleTable, 1 := flag, 2 := current_version HandleTable]"

subsection \<open>Capacity\<close>

definition ht_capacity :: "nat \<Rightarrow> u64" where
  "ht_capacity depth = sat_scale (word_of_nat ENTRIES_PER_LEAF) depth"

definition ht_span_at_level :: "nat \<Rightarrow> u64" where
  "ht_span_at_level level = sat_scale (word_of_nat ENTRIES_PER_LEAF) (level - 1)"

abbreviation beyond :: "u64 \<Rightarrow> u64 \<Rightarrow> bool" where
  "beyond cap handle \<equiv> cap \<noteq> - 1 \<and> cap \<le> handle"

subsection \<open>Reading\<close>

text \<open>The loop of \<open>find_leaf\<close>, \<open>for level in (1..=self.depth).rev()\<close>.\<close>

fun ht_descend :: "world \<Rightarrow> nat \<Rightarrow> u64 \<Rightarrow> u64 \<Rightarrow> (u64 \<times> nat) option cache_op" where
  "ht_descend w 0 current remaining = ok (Some (current, unat (remaining mod word_of_nat ENTRIES_PER_LEAF)))"
| "ht_descend w (Suc l) current remaining =
     (let child_span = ht_span_at_level (Suc l);
          child_idx = unat (remaining div child_span)
      in if PTRS_PER_INTERIOR \<le> child_idx then ok None
         else let remaining = remaining mod child_span
              in and_then (pc_get w current) (\<lambda>buf.
                 if buf ! 0 \<noteq> page_type_tag HandleTable \<or> buf ! 1 \<noteq> FLAG_INTERIOR then err (CorruptPage current)
                 else let offset = DATA_PAGE_HEADER_SIZE + child_idx * CHILD_PTR_SIZE
                      in and_then (slice_u64 offset buf) (\<lambda>child.
                         if child = 0 then ok None else ht_descend w l child remaining)))"

definition ht_find_leaf :: "world \<Rightarrow> nat \<Rightarrow> u64 \<Rightarrow> u64 \<Rightarrow> (u64 \<times> nat) option cache_op" where
  "ht_find_leaf w depth page_id handle =
     (let cap = ht_capacity depth
      in if beyond cap handle then ok None
         else if depth = 0 then ok (Some (page_id, unat (handle mod word_of_nat ENTRIES_PER_LEAF)))
         else ht_descend w depth page_id handle)"

definition ht_lookup :: "world \<Rightarrow> nat \<Rightarrow> u64 \<Rightarrow> u64 \<Rightarrow> handle_entry option cache_op" where
  "ht_lookup w depth root handle =
     (if root = PAGE_ID_NONE then ok None
      else and_then (ht_find_leaf w depth root handle) (\<lambda>leaf.
           case leaf of
             None \<Rightarrow> ok None
           | Some (leaf_page, index) \<Rightarrow>
               and_then (pc_get w leaf_page) (\<lambda>buf.
               let entry = read_entry buf index
               in if he_flags entry = Deleted then ok None else ok (Some entry))))"

definition live_entries :: "u64 \<Rightarrow> page \<Rightarrow> (u64 \<times> handle_entry) list" where
  "live_entries base_handle buf =
     [(saturating_add base_handle (word_of_nat i), read_entry buf i).
        i \<leftarrow> [0..<ENTRIES_PER_LEAF], he_flags (read_entry buf i) \<noteq> Deleted]"

definition child_list :: "page \<Rightarrow> (nat \<times> u64) list" where
  "child_list buf = filter (\<lambda>(_, child). child \<noteq> 0)
     (map (\<lambda>i. (i, get_u64 (DATA_PAGE_HEADER_SIZE + i * CHILD_PTR_SIZE) buf)) [0..<PTRS_PER_INTERIOR])"

fun ht_iter_recursive ::
  "world \<Rightarrow> nat \<Rightarrow> u64 \<Rightarrow> u64 \<Rightarrow> (u64 \<times> handle_entry) list \<Rightarrow> (u64 \<times> handle_entry) list cache_op" where
  "ht_iter_recursive w 0 page_id base_handle result =
     and_then (pc_get w page_id) (\<lambda>buf. ok (result @ live_entries base_handle buf))"
| "ht_iter_recursive w (Suc l) page_id base_handle result =
     (let child_span = ht_span_at_level (Suc l)
      in and_then (pc_get w page_id) (\<lambda>buf.
         fold_each (child_list buf) (\<lambda>(i, child) result.
           let next_base = saturating_add base_handle (saturating_mul (word_of_nat i) child_span)
           in ht_iter_recursive w l child next_base result) result))"

definition ht_iter_live :: "world \<Rightarrow> nat \<Rightarrow> u64 \<Rightarrow> (u64 \<times> handle_entry) list cache_op" where
  "ht_iter_live w depth root =
     (if root = PAGE_ID_NONE then ok [] else ht_iter_recursive w depth root 0 [])"

text \<open>The loop of \<open>recover_depth\<close>: it gives up beyond \<open>HT_MAX_DEPTH\<close>, so it ends on any page graph.\<close>

function ht_recover_loop :: "world \<Rightarrow> nat \<Rightarrow> u64 \<Rightarrow> nat cache_op" where
  "ht_recover_loop w depth current =
     and_then (pc_get w current) (\<lambda>buf.
     if buf ! 1 \<noteq> FLAG_INTERIOR then ok depth
     else if buf ! 0 \<noteq> page_type_tag HandleTable then err (CorruptPage current)
     else if HT_MAX_DEPTH < depth + 1 then err (CorruptPage current)
     else let child = get_u64 DATA_PAGE_HEADER_SIZE buf
          in if child = 0 then ok (depth + 1) else ht_recover_loop w (depth + 1) child)"
  by pat_completeness auto
termination by (relation "measure (\<lambda>(w, depth, current). 7 - depth)") auto

definition ht_recover_depth :: "world \<Rightarrow> u64 \<Rightarrow> nat cache_op" where
  "ht_recover_depth w root = (if root = PAGE_ID_NONE then ok 0 else ht_recover_loop w 0 root)"

subsection \<open>Changing\<close>

definition set_depth :: "nat \<Rightarrow> ('x, radix_own, unit) tree_op" where
  "set_depth depth = set_own (\<lambda>r. r\<lparr>ro_depth := depth\<rparr>)"

definition ht_create_root :: "world \<Rightarrow> ('x, radix_own, u64) tree_op" where
  "ht_create_root w =
     and_then (on_cache (pc_new_page w)) (\<lambda>page_id.
     and_then (on_cache (pc_with_mut w page_id (\<lambda>buf. stamp_checksum (w_xxh w) (ht_blank FLAG_LEAF buf)))) (\<lambda>_.
     and_then (set_depth 0) (\<lambda>_. ok page_id)))"

definition ht_grow :: "world \<Rightarrow> 'x allocator \<Rightarrow> u64 \<Rightarrow> ('x, radix_own, u64) tree_op" where
  "ht_grow w alloc old_root =
     and_then (call_alloc alloc) (\<lambda>new_root.
     and_then (on_cache (pc_with_mut w new_root (\<lambda>buf.
       stamp_checksum (w_xxh w) (put_u64 DATA_PAGE_HEADER_SIZE old_root (ht_blank FLAG_INTERIOR buf))))) (\<lambda>_.
     and_then (set_own (\<lambda>r. r\<lparr>ro_depth := ro_depth r + 1\<rparr>)) (\<lambda>_. ok new_root)))"

definition ht_fresh_child :: "world \<Rightarrow> 'x allocator \<Rightarrow> u8 \<Rightarrow> ('x, radix_own, u64) tree_op" where
  "ht_fresh_child w alloc flag =
     and_then (call_alloc alloc) (\<lambda>page.
     and_then (on_cache (pc_with_mut w page (\<lambda>buf. stamp_checksum (w_xxh w) (ht_blank flag buf)))) (\<lambda>_. ok page))"

text \<open>The head of \<open>insert_recursive\<close>: copy the page and report the old one.\<close>

definition ht_copy_node :: "world \<Rightarrow> 'x allocator \<Rightarrow> u64 \<Rightarrow> ('x, radix_own, u64) tree_op" where
  "ht_copy_node w alloc page_id =
     and_then (call_alloc alloc) (\<lambda>new_page.
     and_then (on_cache (pc_get w page_id)) (\<lambda>old_data.
     and_then (on_cache (pc_with_mut w new_page (\<lambda>_. old_data))) (\<lambda>_.
     and_then (push_freed page_id) (\<lambda>_. ok new_page))))"

fun ht_insert_recursive ::
  "world \<Rightarrow> 'x allocator \<Rightarrow> nat \<Rightarrow> u64 \<Rightarrow> u64 \<Rightarrow> handle_entry \<Rightarrow> ('x, radix_own, u64) tree_op" where
  "ht_insert_recursive w alloc 0 page_id handle entry =
     and_then (ht_copy_node w alloc page_id) (\<lambda>new_page.
     let index = unat (handle mod word_of_nat ENTRIES_PER_LEAF)
     in and_then (on_cache (pc_with_mut w new_page (\<lambda>buf.
          stamp_checksum (w_xxh w) (write_entry buf index entry)))) (\<lambda>_. ok new_page))"
| "ht_insert_recursive w alloc (Suc l) page_id handle entry =
     and_then (ht_copy_node w alloc page_id) (\<lambda>new_page.
     let child_span = ht_span_at_level (Suc l);
         child_idx = unat (handle div child_span);
         offset = DATA_PAGE_HEADER_SIZE + child_idx * CHILD_PTR_SIZE
     in and_then (on_cache (pc_get w new_page)) (\<lambda>buf.
        and_then (slice_u64 offset buf) (\<lambda>child_page.
        and_then (if child_page = 0 then ht_fresh_child w alloc (if Suc l = 1 then FLAG_LEAF else FLAG_INTERIOR)
                  else ok child_page) (\<lambda>actual_child.
        and_then (ht_insert_recursive w alloc l actual_child (handle mod child_span) entry) (\<lambda>new_child.
        and_then (on_cache (pc_with_mut w new_page (\<lambda>buf.
          stamp_checksum (w_xxh w) (put_u64 offset new_child buf)))) (\<lambda>_. ok new_page))))))"

text \<open>The loop of \<open>insert\<close> that raises the root until the handle fits.\<close>

definition ht_grow_loop :: "world \<Rightarrow> 'x allocator \<Rightarrow> nat \<Rightarrow> u64 \<Rightarrow> u64 \<Rightarrow> ('x, radix_own, u64) tree_op" where
  "ht_grow_loop w alloc = raise_root HT_MAX_DEPTH ht_capacity (ht_grow w alloc)"

definition ht_insert ::
  "world \<Rightarrow> 'x allocator \<Rightarrow> u64 \<Rightarrow> u64 \<Rightarrow> handle_entry \<Rightarrow> ('x, radix_own, u64) tree_op" where
  "ht_insert w alloc root handle entry =
     and_then (gets (\<lambda>s. ro_depth (t_own s))) (\<lambda>saved_depth.
     or_else
       (and_then (ht_grow_loop w alloc saved_depth root handle) (\<lambda>current_root.
        and_then (gets (\<lambda>s. ro_depth (t_own s))) (\<lambda>depth.
        ht_insert_recursive w alloc depth current_root handle entry)))
       (\<lambda>e. and_then (set_depth saved_depth) (\<lambda>_. err e)))"

fun ht_delete_recursive ::
  "world \<Rightarrow> 'x allocator \<Rightarrow> nat \<Rightarrow> u64 \<Rightarrow> u64 \<Rightarrow> ('x, radix_own, u64 \<times> handle_entry option) tree_op" where
  "ht_delete_recursive w alloc 0 page handle =
     (let index = unat (handle mod word_of_nat ENTRIES_PER_LEAF)
      in and_then (on_cache (pc_get w page)) (\<lambda>buf.
         let entry = read_entry buf index
         in if he_flags entry = Deleted then ok (page, None)
            else and_then (call_alloc alloc) (\<lambda>new_leaf.
                 and_then (on_cache (copy_page w page new_leaf)) (\<lambda>_.
                 and_then (push_freed page) (\<lambda>_.
                 and_then (on_cache (pc_with_mut w new_leaf (\<lambda>new_buf.
                   stamp_checksum (w_xxh w) (write_entry new_buf index tombstone)))) (\<lambda>_.
                 ok (new_leaf, Some entry)))))))"
| "ht_delete_recursive w alloc (Suc l) page handle =
     (let child_span = ht_span_at_level (Suc l);
          child_idx = unat (handle div child_span);
          offset = DATA_PAGE_HEADER_SIZE + child_idx * CHILD_PTR_SIZE
      in and_then (on_cache (pc_get w page)) (\<lambda>buf.
         and_then (slice_u64 offset buf) (\<lambda>child_page.
         if child_page = 0 then ok (page, None)
         else and_then (ht_delete_recursive w alloc l child_page (handle mod child_span)) (\<lambda>(new_child, prev_entry).
              if prev_entry = None then ok (page, None)
              else and_then (call_alloc alloc) (\<lambda>new_page.
                   and_then (on_cache (copy_page w page new_page)) (\<lambda>_.
                   and_then (push_freed page) (\<lambda>_.
                   and_then (on_cache (pc_with_mut w new_page (\<lambda>new_buf.
                     stamp_checksum (w_xxh w) (put_u64 offset new_child new_buf)))) (\<lambda>_.
                   ok (new_page, prev_entry)))))))))"

definition ht_delete ::
  "world \<Rightarrow> 'x allocator \<Rightarrow> u64 \<Rightarrow> u64 \<Rightarrow> ('x, radix_own, u64 \<times> handle_entry option) tree_op" where
  "ht_delete w alloc root handle =
     (if root = PAGE_ID_NONE then ok (root, None)
      else and_then (gets (\<lambda>s. ro_depth (t_own s))) (\<lambda>depth.
           if beyond (ht_capacity depth) handle then ok (root, None)
           else ht_delete_recursive w alloc depth root handle))"

declare ht_recover_loop.simps [simp del]

section \<open>The page format\<close>

definition ht_format :: "handle_entry rt_format" where
  "ht_format = \<lparr>rt_slots = 510, rt_slot = read_entry, rt_absent = tombstone,
     rt_leaf = (\<lambda>b. b ! 0 = page_type_tag HandleTable \<and> b ! 1 = FLAG_LEAF),
     rt_node = (\<lambda>b. b ! 0 = page_type_tag HandleTable \<and> b ! 1 = FLAG_INTERIOR)\<rparr>"

lemma ht_format_simps [simp]:
  "rt_slots ht_format = 510" "rt_slot ht_format = read_entry" "rt_absent ht_format = tombstone"
  "rt_leaf ht_format b \<longleftrightarrow> b ! 0 = 1 \<and> b ! 1 = 1" "rt_node ht_format b \<longleftrightarrow> b ! 0 = 1 \<and> b ! 1 = 2"
  by (simp_all add: ht_format_def)

lemma flags_roundtrip [simp]: "flags_from_u8 (flags_to_u8 f) = f"
  by (cases f) (simp_all add: flags_from_u8_def)

text \<open>An entry through its 16 bytes, at offset \<open>b\<close>.\<close>

definition entry_bytes :: "handle_entry \<Rightarrow> u8 list" where
  "entry_bytes e = to_le_bytes (he_page_id e) @ to_le_bytes (he_slot_index e) @ [flags_to_u8 (he_flags e)] @
     to_le_bytes (he_tag e) @ [he_client_byte e]"

lemma length_entry_bytes [simp]: "length (entry_bytes e) = 16"
  by (simp add: entry_bytes_def)

lemma put_bytes_append:
  "off + length xs + length ys \<le> length buf \<Longrightarrow> put_bytes (off + length xs) ys (put_bytes off xs buf) = put_bytes off (xs @ ys) buf"
  by (cases xs) (auto simp: put_bytes_def min_def ac_simps)

lemma list_update_put: "i < length buf \<Longrightarrow> buf[i := x] = put_bytes i [x] buf"
  by (simp add: put_bytes_def upd_conv_take_nth_drop)

lemma write_entry_bytes:
  assumes "index < 510" and "8184 \<le> length buf"
  shows "write_entry buf index e = put_bytes (16 + index * 16) (entry_bytes e) buf"
proof -
  let ?b = "16 + index * 16"
  have b: "?b + 16 \<le> length buf" using assms by simp
  note ap = put_bytes_append [where off = ?b and buf = buf]
  have 1: "put_u16 (?b + 8) (he_slot_index e) (put_u64 ?b (he_page_id e) buf) =
      put_bytes ?b (to_le_bytes (he_page_id e) @ to_le_bytes (he_slot_index e)) buf"
    using ap [of "to_le_bytes (he_page_id e)"] b by (simp add: put_u16_def put_u64_def)
  show ?thesis
    using b ap [of "to_le_bytes (he_page_id e) @ to_le_bytes (he_slot_index e)" "[flags_to_u8 (he_flags e)]"]
      ap [of "to_le_bytes (he_page_id e) @ to_le_bytes (he_slot_index e) @ [flags_to_u8 (he_flags e)]" "to_le_bytes (he_tag e)"]
      ap [of "to_le_bytes (he_page_id e) @ to_le_bytes (he_slot_index e) @ [flags_to_u8 (he_flags e)] @ to_le_bytes (he_tag e)" "[he_client_byte e]"]
    unfolding write_entry_def Let_def DATA_PAGE_HEADER_SIZE_def ENTRY_SIZE_def 1
    by (simp add: put_u32_def list_update_put entry_bytes_def)
qed

lemma length_write_entry [simp]: "index < 510 \<Longrightarrow> 8184 \<le> length buf \<Longrightarrow> length (write_entry buf index e) = length buf"
  by (simp add: write_entry_bytes)

lemma body_write_entry:
  "index < 510 \<Longrightarrow> page_ok buf \<Longrightarrow> page_body (write_entry buf index e) = write_entry (page_body buf) index e"
  by (simp add: write_entry_bytes put_bytes_def take_drop)

lemma read_entry_local:
  assumes "get_bytes (16 + i * 16) 16 x = get_bytes (16 + i * 16) 16 y" and "16 + i * 16 + 16 \<le> length x"
    and "16 + i * 16 + 16 \<le> length y"
  shows "read_entry x i = read_entry y i"
proof -
  have g: "get_bytes p k x = get_bytes p k y" if "16 + i * 16 \<le> p" "p + k \<le> 16 + i * 16 + 16" for p k
    by (rule get_bytes_within [OF assms(1) that])
  have "x ! p = y ! p" if "16 + i * 16 \<le> p" "p < 16 + i * 16 + 16" for p
    using nth_of_get_bytes [OF g [of p 1]] that assms by simp
  then show ?thesis
    using g [of "16 + i * 16" 8] g [of "16 + i * 16 + 8" 2] g [of "16 + i * 16 + 11" 4]
    by (simp add: read_entry_def Let_def get_u64_def get_u32_def get_u16_def)
qed

lemma read_entry_body: "page_body buf = b \<Longrightarrow> page_ok buf \<Longrightarrow> i < 510 \<Longrightarrow> read_entry buf i = read_entry b i"
  by (rule read_entry_local) (auto simp: get_bytes_take)

lemma read_write_entry:
  assumes "length b = 8184" and "i < 510" and "j < 510"
  shows "read_entry (write_entry b i e) j = (if j = i then e else read_entry b j)"
proof (cases "j = i")
  case True
  let ?b = "16 + i * 16" and ?x = "put_bytes (16 + i * 16) (entry_bytes e) b"
  have fit: "?b + length (entry_bytes e) \<le> length b" using assms by simp
  have g: "get_bytes (?b + p) k ?x = get_bytes p k (entry_bytes e)" if "p + k \<le> 16" for p k
    using get_put_bytes_inside [OF fit, of "?b + p" k] that by simp
  have n: "?x ! (?b + p) = entry_bytes e ! p" if "p < 16" for p
    using nth_put_bytes [OF fit, of "?b + p"] that assms by simp
  have "get_bytes 0 8 (entry_bytes e) = to_le_bytes (he_page_id e)" "get_bytes 8 2 (entry_bytes e) = to_le_bytes (he_slot_index e)"
    "get_bytes 11 4 (entry_bytes e) = to_le_bytes (he_tag e)" "entry_bytes e ! 10 = flags_to_u8 (he_flags e)" "entry_bytes e ! 15 = he_client_byte e"
    by (simp_all add: entry_bytes_def get_bytes_def nth_append)
  then show ?thesis
    using True assms g [of 0 8] g [of 8 2] g [of 11 4] n [of 10] n [of 15]
    by (simp add: write_entry_bytes read_entry_def Let_def get_u64_def get_u32_def get_u16_def)
next
  case False
  have "get_bytes (16 + j * 16) 16 (write_entry b i e) = get_bytes (16 + j * 16) 16 b"
    unfolding write_entry_bytes [OF assms(2) eq_refl [OF assms(1) [symmetric]]]
  proof (rule get_put_bytes_other)
    show "16 + j * 16 + 16 \<le> 16 + i * 16 \<or> 16 + i * 16 + length (entry_bytes e) \<le> 16 + j * 16"
      using False by (cases "j < i") auto
  qed (use assms in simp)
  then have "read_entry (write_entry b i e) j = read_entry b j" by (rule read_entry_local) (use assms in simp_all)
  then show ?thesis using False by simp
qed

lemma ht_blank_body:
  assumes "page_ok buf"
  shows "page_ok (ht_blank flag buf)" and "page_body (ht_blank flag buf) = (replicate 8184 0)[0 := 1, 1 := flag, 2 := 0]"
  using assms by (simp_all add: ht_blank_def current_version_def take_update_swap)

lemma ht_blank_reads:
  assumes "b = (replicate 8184 0)[0 := 1, 1 := flag, 2 := 0]"
  shows "length b = 8184" and "b ! 0 = 1" and "b ! 1 = flag" and "i < 1021 \<Longrightarrow> child_at b i = 0"
    and "i < 510 \<Longrightarrow> read_entry b i = tombstone"
proof -
  show "length b = 8184" "b ! 0 = 1" "b ! 1 = flag" by (simp_all add: assms)
  have g: "get_bytes p k b = replicate (min k (8184 - p)) 0" if "3 \<le> p" for p k
    using that by (simp add: assms get_bytes_list_update get_bytes_replicate)
  show "child_at b i = 0" if "i < 1021"
    using that by (simp add: assms child_at_def byte_simps get_uint_replicate)
  show "read_entry b i = tombstone" if "i < 510"
    using that by (simp add: assms read_entry_def tombstone_def byte_simps get_uint_replicate flags_from_u8_def Let_def)
qed

section \<open>Spans\<close>

lemma ht_rt_span: "rt_span ht_format l = 510 * 1021 ^ l"
  by (simp add: rt_span_def)

lemma ht_span:
  assumes "l \<le> 5"
  shows "unat (ht_span_at_level (Suc l)) = rt_span ht_format l"
proof -
  have "510 * 1021 ^ l \<le> 510 * (1021 :: nat) ^ 5" using assms by (intro mult_le_mono2 power_increasing) simp_all
  then have "510 * 1021 ^ l < (2 :: nat) ^ 64 - 1" by simp
  then show ?thesis by (simp add: ht_span_at_level_def unat_sat_scale ht_rt_span)
qed

lemma ht_beyond: "beyond (ht_capacity d) h \<longleftrightarrow> rt_span ht_format d \<le> unat h"
proof -
  have "even (510 * (1021 :: nat) ^ d)" "odd ((2 :: nat) ^ 64 - 1)" by simp_all
  then have "510 * (1021 :: nat) ^ d \<noteq> 2 ^ 64 - 1" by metis
  then show ?thesis using beyond_scale [of 510 d h] by (simp add: ht_capacity_def ht_rt_span)
qed

text \<open>The top level of the deepest tree covers every handle.\<close>

lemma ht_top: "unat (h :: u64) < rt_span ht_format 6"
  using unat_u64_less [of h] by (simp add: ht_rt_span)

lemma ht_digit:
  assumes "l \<le> 5"
  shows "unat (h div ht_span_at_level (Suc l)) = unat h div rt_span ht_format l"
    and "unat (h mod ht_span_at_level (Suc l)) = unat h mod rt_span ht_format l"
  by (simp_all add: unat_div unat_mod ht_span [OF assms])

lemma ht_leaf_index: "unat h < 510 \<Longrightarrow> unat (h mod (510 :: u64)) = unat h"
  by (simp add: unat_mod)

section \<open>Reading\<close>

definition live :: "handle_entry \<Rightarrow> handle_entry option" where
  "live e = (if he_flags e = Deleted then None else Some e)"

text \<open>What the table holds: the entry of every handle, a tombstone beyond the capacity.\<close>

abbreviation ht_entry :: "(u64 \<rightharpoonup> u8 list) \<Rightarrow> nat \<Rightarrow> u64 \<Rightarrow> nat \<Rightarrow> handle_entry" where
  "ht_entry \<equiv> rt_entry ht_format"

definition ht_view :: "(u64 \<rightharpoonup> u8 list) \<Rightarrow> nat \<Rightarrow> u64 \<Rightarrow> u64 \<Rightarrow> handle_entry option" where
  "ht_view B depth root h = live (ht_entry B depth root (unat h))"

lemma live_tombstone [simp]: "live tombstone = None"
  by (simp add: live_def tombstone_def)

lemma ht_descend_in_range:
  assumes "l \<le> 5" and "unat h < rt_span ht_format (Suc l)"
  shows "ht_descend w (Suc l) p h = and_then (pc_get w p) (\<lambda>buf.
    if buf ! 0 \<noteq> 1 \<or> buf ! 1 \<noteq> 2 then err (CorruptPage p)
    else and_then (slice_u64 (16 + unat h div rt_span ht_format l * 8) buf) (\<lambda>child.
      if child = 0 then ok None else ht_descend w l child (h mod ht_span_at_level (Suc l))))"
  using rt_index [OF assms(2)] by (simp add: Let_def ht_digit [OF assms(1)] not_le cong: if_cong)

lemma ht_descend_wp:
  assumes "pc_inv w c" and W: "world_ok w" and "rt_wf ht_format (page_store w T c) l p"
    and "unat h < rt_span ht_format l" and "l \<le> 6"
  shows "wp (ht_descend w l p h)
    (\<lambda>r d. quiet w c d \<and> (case r of
         None \<Rightarrow> rt_get ht_format (page_store w T c) l p (unat h) = tombstone
       | Some (q, i) \<Rightarrow> \<exists>b. page_store w T c q = Some b \<and> i < 510 \<and>
           read_entry b i = rt_get ht_format (page_store w T c) l p (unat h)))
    (read_fails w c) c"
  using assms(1,3-)
proof (induction l arbitrary: c p h)
  case 0
  then show ?case using ht_leaf_index [of h] by (auto simp: wp_simps quiet_refl)
next
  case (Suc l)
  let ?B = "page_store w T c"
  obtain b where b: "?B p = Some b" "length b = 8184" "b ! 0 = 1" "b ! 1 = 2"
    and kids: "\<And>i. i < 1021 \<Longrightarrow> child_at b i \<noteq> 0 \<Longrightarrow> rt_wf ht_format ?B l (child_at b i)"
    using Suc.prems(2) by auto
  have l5: "l \<le> 5" using Suc.prems(4) by simp
  let ?i = "unat h div rt_span ht_format l"
  have i: "?i < 1021" by (rule rt_index [OF Suc.prems(3)])
  have pos: "0 < rt_span ht_format l" by (simp add: ht_rt_span)
  have "wp (pc_get w p) (\<lambda>buf. wp (if buf ! 0 \<noteq> 1 \<or> buf ! 1 \<noteq> 2 then err (CorruptPage p)
      else and_then (slice_u64 (16 + ?i * 8) buf) (\<lambda>child. if child = 0 then ok None
        else ht_descend w l child (h mod ht_span_at_level (Suc l))))
      (\<lambda>r d. quiet w c d \<and> (case r of None \<Rightarrow> rt_get ht_format ?B (Suc l) p (unat h) = tombstone
       | Some (q, i) \<Rightarrow> \<exists>b. ?B q = Some b \<and> i < 510 \<and> read_entry b i = rt_get ht_format ?B (Suc l) p (unat h)))
      (read_fails w c)) (read_fails w c) c"
  proof (rule wp_mono [OF store_page_wp [OF Suc.prems(1) W b(1)]], goal_cases)
    case (1 buf d)
    then have q: "quiet w c d" and buf: "page_ok buf" "page_body buf = b" by auto
    have tags: "buf ! 0 = 1" "buf ! 1 = 2" using b(3,4) nth_of_body [OF buf(2), of 0] nth_of_body [OF buf(2), of 1] by simp_all
    have ch: "get_u64 (16 + ?i * 8) buf = child_at b ?i" by (rule child_of_body [OF buf(2) i])
    have Bd: "page_store w T d = ?B" by (rule quiet_page_store [OF q])
    have inv_d: "pc_inv w d" using q by (simp add: quiet_def)
    show ?case
    proof (cases "child_at b ?i = 0")
      case True
      then show ?thesis using q b i buf tags ch by (simp add: wp_simps Let_def)
    next
      case False
      have "wp (ht_descend w l (child_at b ?i) (h mod ht_span_at_level (Suc l)))
        (\<lambda>r e. quiet w d e \<and> (case r of None \<Rightarrow> rt_get ht_format ?B l (child_at b ?i) (unat h mod rt_span ht_format l) = tombstone
         | Some (q, i) \<Rightarrow> \<exists>ba. ?B q = Some ba \<and> i < 510 \<and>
             read_entry ba i = rt_get ht_format ?B l (child_at b ?i) (unat h mod rt_span ht_format l)))
        (read_fails w d) d"
        by (rule Suc.IH [OF inv_d, of "child_at b ?i" "h mod ht_span_at_level (Suc l)", unfolded Bd ht_digit [OF l5]])
          (use kids [OF i False] l5 pos in simp_all)
      note IH = this
      show ?thesis
        using buf tags ch i False
        by (simp add: wp_simps, intro wp_mono [OF IH])
          (auto simp: Let_def b(1) split: option.splits intro: quiet_trans [OF q] read_fails_later [OF q])
    qed
  qed
  then show ?case unfolding ht_descend_in_range [OF l5 Suc.prems(3)] wp_and_then .
qed

lemma ht_lookup_wp:
  assumes inv: "pc_inv w c" and W: "world_ok w" and wf: "rt_wf ht_format (page_store w T c) depth root"
    and root: "root \<noteq> PAGE_ID_NONE" and depth: "depth \<le> 6"
  shows "wp (ht_lookup w depth root h) (\<lambda>r d. quiet w c d \<and> r = ht_view (page_store w T c) depth root h) (read_fails w c) c"
proof (cases "unat h < rt_span ht_format depth")
  case False
  then have "ht_find_leaf w depth root h = ok None"
    using ht_beyond [of depth h] by (simp add: ht_find_leaf_def Let_def)
  then show ?thesis using False inv root by (simp add: ht_lookup_def wp_simps ht_view_def rt_entry_def quiet_refl)
next
  case True
  let ?B = "page_store w T c"
  let ?e = "rt_get ht_format ?B depth root (unat h)"
  have find: "ht_find_leaf w depth root h = ht_descend w depth root h"
    using True ht_beyond [of depth h] by (auto simp: ht_find_leaf_def Let_def)
  have view: "ht_view ?B depth root h = live ?e" using True by (simp add: ht_view_def rt_entry_def)
  have "wp (ht_descend w depth root h) (\<lambda>leaf. wp (case leaf of None \<Rightarrow> ok None
      | Some (leaf_page, index) \<Rightarrow> and_then (pc_get w leaf_page) (\<lambda>buf.
          let entry = read_entry buf index in if he_flags entry = Deleted then ok None else ok (Some entry)))
      (\<lambda>r d. quiet w c d \<and> r = live ?e) (read_fails w c)) (read_fails w c) c"
  proof (rule wp_mono [OF ht_descend_wp [OF inv W wf True depth]], goal_cases)
    case (1 leaf d)
    show ?case
    proof (cases leaf)
      case None
      then show ?thesis using 1 by (simp add: wp_simps)
    next
      case (Some qi)
      obtain q i where qi: "qi = (q, i)" by (cases qi)
      obtain b where b: "?B q = Some b" "i < 510" "read_entry b i = ?e" and q: "quiet w c d"
        using 1 Some qi by auto
      have bd: "page_store w T d q = Some b" and invd: "pc_inv w d"
        using b(1) quiet_page_store [OF q] q by (simp_all add: quiet_def)
      have "wp (pc_get w q) (\<lambda>buf. wp (let entry = read_entry buf i in if he_flags entry = Deleted then ok None else ok (Some entry))
          (\<lambda>r d. quiet w c d \<and> r = live ?e) (read_fails w c)) (read_fails w c) d"
      proof (rule wp_mono [OF store_page_wp [OF invd W bd]], goal_cases)
        case (1 buf u)
        then show ?case using b(3) read_entry_body [of buf b i] b(2) quiet_trans [OF q] by (auto simp: wp_simps live_def Let_def)
      next
        case (2 e u)
        then show ?case by (rule read_fails_later [OF q])
      qed
      then show ?thesis using Some qi by (simp add: wp_and_then)
    qed
  qed
  then show ?thesis using root view by (simp add: ht_lookup_def wp_and_then find)
qed

lemma ht_recover_loop_wp:
  assumes "pc_inv w c" and W: "world_ok w" and "rt_wf ht_format (page_store w T c) l p"
    and "rt_spine (page_store w T c) l p" and "n + l \<le> 6"
  shows "wp (ht_recover_loop w n p) (\<lambda>r d. quiet w c d \<and> r = n + l) (read_fails w c) c"
  using assms(1,3-)
proof (induction l arbitrary: c p n)
  case 0
  then obtain b where b: "page_store w T c p = Some b" "b ! 1 = 1" by auto
  show ?case
    unfolding ht_recover_loop.simps [of w n p] wp_and_then
  proof (rule wp_mono [OF store_page_wp [OF 0(1) W b(1)]], goal_cases)
    case (1 buf d)
    then show ?case using nth_of_body [of buf b 1] b(2) by (simp add: wp_simps)
  qed
next
  case (Suc l)
  let ?B = "page_store w T c"
  obtain b where b: "?B p = Some b" "b ! 0 = 1" "b ! 1 = 2" and kid: "child_at b 0 \<noteq> 0" "rt_wf ht_format ?B l (child_at b 0)"
    "rt_spine ?B l (child_at b 0)"
    using Suc.prems(2,3) by auto
  show ?case
    unfolding ht_recover_loop.simps [of w n p] wp_and_then
  proof (rule wp_mono [OF store_page_wp [OF Suc.prems(1) W b(1)]], goal_cases)
    case (1 buf d)
    then have q: "quiet w c d" and buf: "page_body buf = b" by auto
    have tags: "buf ! 0 = 1" "buf ! 1 = 2" using b nth_of_body [OF buf, of 0] nth_of_body [OF buf, of 1] by simp_all
    have ch: "get_u64 16 buf = child_at b 0" using child_of_body [OF buf, of 0] by simp
    have "wp (ht_recover_loop w (n + 1) (child_at b 0)) (\<lambda>r e. quiet w d e \<and> r = n + 1 + l) (read_fails w d) d"
      by (rule Suc.IH) (use q kid Suc.prems(4) quiet_page_store [OF q] in \<open>simp_all add: quiet_def\<close>)
    note IH = this
    have "wp (ht_recover_loop w (n + 1) (child_at b 0)) (\<lambda>r d. quiet w c d \<and> r = n + Suc l) (read_fails w c) d"
      by (rule wp_mono [OF IH]) (auto intro: quiet_trans [OF q] read_fails_later [OF q])
    then show ?case using tags ch kid(1) Suc.prems(4) by (simp add: wp_simps)
  qed
qed

section \<open>Inserting\<close>

definition blank_body :: "u8 \<Rightarrow> u8 list" where
  "blank_body flag = (replicate 8184 0)[0 := 1, 1 := flag, 2 := 0]"

lemma ht_blank_page:
  assumes "B q = Some (blank_body flag)" and "flag = (if l = 0 then 1 else 2)" and "q \<noteq> 0"
  shows "rt_ok ht_format B l q" and "rt_pages B l q = {q}"
    and "k < rt_span ht_format l \<Longrightarrow> rt_get ht_format B l q k = tombstone"
proof -
  note r = ht_blank_reads [OF blank_body_def]
  have "if l = 0 then rt_leaf ht_format (blank_body flag) \<and>
      (\<forall>k < rt_slots ht_format. rt_slot ht_format (blank_body flag) k = rt_absent ht_format)
    else rt_node ht_format (blank_body flag)" using r assms(2) by simp
  note b = rt_blank [where K = ht_format and B = B and p = q and b = "blank_body flag" and l = l, OF assms(1) _ assms(3) r(1) this]
  show "rt_ok ht_format B l q" by (rule b(1)) (rule r(4))
  show "rt_pages B l q = {q}" by (rule b(2)) (rule r(4))
  show "rt_get ht_format B l q k = tombstone" if "k < rt_span ht_format l" using b(3) [OF r(4) that] by simp
qed

lemma live_none: "live e = None \<longleftrightarrow> he_flags e = Deleted"
  and live_gone: "he_flags e = Deleted \<Longrightarrow> live e = None"
  and live_some: "he_flags e \<noteq> Deleted \<Longrightarrow> live e = Some e"
  by (simp_all add: live_def)

lemma ht_fmt: "rt_fmt ht_format"
  by (simp add: rt_fmt_def nth_put_uint_other)

lemma ht_put_entry:
  assumes "i < 510" and "page_ok buf"
  shows "page_ok (stamp_checksum xxh (write_entry buf i e))"
    and "page_body (stamp_checksum xxh (write_entry buf i e)) = write_entry (page_body buf) i e"
    and "verify_checksum xxh (stamp_checksum xxh (write_entry buf i e))"
  using assms by (simp_all add: body_write_entry)

lemma write_entry_tags:
  "length b = 8184 \<Longrightarrow> i < 510 \<Longrightarrow> rt_leaf ht_format b \<Longrightarrow> rt_leaf ht_format (write_entry b i e)"
  by (simp add: write_entry_bytes nth_put_bytes)

lemmas ht_span_pos = rt_fmt_span [OF ht_fmt]

context page_alloc
begin

lemma ht_copy_node_wp:
  assumes "fit 1 s" and "store s p = Some b"
  shows "wp (ht_copy_node w alloc p) (\<lambda>q t. \<exists>u. opened s q b u \<and> t = u\<lparr>t_own := pushed p (t_own s)\<rparr>) (stuck 1 s) s"
proof -
  have "ht_copy_node w alloc p = and_then (call_alloc alloc) (\<lambda>q. and_then (on_cache (copy_page w p q))
      (\<lambda>_. and_then (push_freed p) (\<lambda>_. ok q)))"
    by (simp add: ht_copy_node_def copy_page_def on_cache_and_then and_then_assoc)
  then show ?thesis using copy_push_wp [OF assms] by simp
qed

lemma ht_fresh_child_wp:
  assumes "fit 1 s"
  shows "wp (ht_fresh_child w alloc flag) (\<lambda>q. fresh_page s q (blank_body flag)) (stuck 1 s) s"
  using fresh_init_wp [OF assms, of "\<lambda>buf. stamp_checksum (w_xxh w) (ht_blank flag buf)" "blank_body flag"]
  by (simp add: ht_fresh_child_def wp_simps ht_blank_body blank_body_def)

lemma ht_insert_wp_rec:
  assumes "fit (2 * l + 1) s" and "rt_ok ht_format (store s) l p" and "unat h < rt_span ht_format l" and "l \<le> 6"
  shows "wp (ht_insert_recursive w alloc l p h e) (inserted ht_format l p (unat h) e s) (stuck (2 * l + 1) s) s"
  using assms
proof (induction l arbitrary: s p h)
  case 0
  obtain b where b: "store s p = Some b" "length b = 8184" "rt_leaf ht_format b" using 0(2) by (auto simp: rt_ok_def)
  let ?f = "\<lambda>buf. stamp_checksum (w_xxh w) (write_entry buf (unat h) e)"
  have h: "unat h < 510" and f: "fit 1 s" using 0 by simp_all
  have "wp (ht_copy_node w alloc p) (\<lambda>q. wp (on_cache (pc_with_mut w q ?f)) (\<lambda>_. inserted ht_format 0 p (unat h) e s q) (stuck 1 s)) (stuck 1 s) s"
    by (rule insert_leaf_wp [OF f 0(2) b(1) ht_copy_node_wp [OF f b(1)], where b' = "write_entry b (unat h) e"])
      (use h b ht_put_entry [OF h] write_entry_tags [OF b(2) h b(3)] read_write_entry [OF b(2) h] in auto)
  then show ?case using h by (simp add: wp_simps Let_def ht_leaf_index)
next
  case (Suc l)
  have l5: "l \<le> 5" using Suc.prems(4) by simp
  obtain b where b: "store s p = Some b" "length b = 8184" "rt_node ht_format b" using Suc.prems(2) by (auto simp: rt_ok_def)
  let ?i = "unat h div rt_span ht_format l" and ?h = "h mod ht_span_at_level (Suc l)"
  let ?flag = "if Suc l = 1 then FLAG_LEAF else FLAG_INTERIOR"
  have i: "?i < 1021" by (rule rt_index [OF Suc.prems(3)])
  have un: "ht_insert_recursive w alloc (Suc l) p h e = and_then (ht_copy_node w alloc p) (\<lambda>q.
      and_then (on_cache (pc_get w q)) (\<lambda>buf. and_then (slice_u64 (16 + ?i * 8) buf) (\<lambda>child.
      and_then (if child = 0 then ht_fresh_child w alloc ?flag else ok child) (\<lambda>a.
      and_then (ht_insert_recursive w alloc l a ?h e) (\<lambda>c.
      and_then (on_cache (pc_with_mut w q (\<lambda>buf. stamp_checksum (w_xxh w) (put_u64 (16 + ?i * 8) c buf)))) (\<lambda>_. ok q))))))"
    by (simp add: Let_def ht_digit [OF l5])
  show ?case
    unfolding un
  proof (rule insert_node_wp [where bb = "blank_body ?flag", OF ht_fmt Suc.prems(1,2) b i refl ht_copy_node_wp [OF _ b(1)]], goal_cases)
    case (2 t)
    then show ?case by (rule ht_fresh_child_wp)
  next
    case (3 B a)
    then show ?case using ht_blank_page [of B a ?flag l] by simp
  next
    case (4 t a)
    have "unat ?h < rt_span ht_format l" by (simp add: ht_digit [OF l5] ht_span_pos)
    then show ?case using Suc.IH [OF 4, of ?h] l5 by (simp add: ht_digit [OF l5])
  qed (use Suc.prems(1) in \<open>auto intro: fit_mono\<close>)
qed

lemma ht_grow_wp:
  assumes fit: "fit 1 s" and ok: "rt_ok ht_format (store s) l p" and depth: "ro_depth (t_own s) = l"
  shows "wp (ht_grow w alloc p) (raised ht_format l p s (Suc l)) (stuck 1 s) s"
proof -
  let ?f = "\<lambda>buf. stamp_checksum (w_xxh w) (put_u64 DATA_PAGE_HEADER_SIZE p (ht_blank FLAG_INTERIOR buf))"
  note r = ht_blank_reads [OF blank_body_def]
  have node: "rt_node ht_format (put_u64 16 p (blank_body 2))" using r(1-3) by (simp add: nth_put_uint_other)
  have f: "page_ok (?f buf) \<and> page_body (?f buf) = put_u64 16 p (blank_body 2) \<and> verify_checksum (w_xxh w) (?f buf)" if "page_ok buf" for buf
    using ht_blank_body [OF that] by (simp add: body_put blank_body_def)
  show ?thesis using grown_root_wp [OF fit ok depth r(1) node r(4) f] by (simp add: ht_grow_def wp_simps set_own_def)
qed

lemma ht_insert_wp:
  assumes fit: "fit 19 s" and ok: "rt_ok ht_format (store s) l p" and depth: "ro_depth (t_own s) = l" "l \<le> 6"
  shows "wp (ht_insert w alloc p h e) (\<lambda>q t. \<exists>m. updated ht_format l p (unat h) e s m q t)
    (\<lambda>x t. stuck 19 s x t \<and> ro_depth (t_own t) = l) s"
proof -
  have cap: "unat h < rt_span ht_format l" if "\<not> ht_capacity l \<le> h" for l
    using that ht_beyond [of l h] by (cases "ht_capacity l = - 1") auto
  have "wp (ht_grow_loop w alloc l p h) (\<lambda>c. wp (and_then (gets (\<lambda>s. ro_depth (t_own s))) (\<lambda>d. ht_insert_recursive w alloc d c h e))
      (\<lambda>q t. \<exists>m. updated ht_format l p (unat h) e s m q t) (stuck 19 s)) (stuck 19 s) s"
    unfolding ht_grow_loop_def HT_MAX_DEPTH_def by (rule insert_radix_wp [OF fit ok depth ht_grow_wp cap ht_top ht_insert_wp_rec])
  then show ?thesis unfolding ht_insert_def wp_and_then wp_gets wp_or_else depth(1)
    by (rule wp_mono) (auto elim!: wp_mono simp: wp_simps set_depth_def set_own_def)
qed

section \<open>Deleting\<close>

abbreviation ht_removed :: "nat \<Rightarrow> u64 \<Rightarrow> nat \<Rightarrow> ('x, radix_own) tree_ctx \<Rightarrow> u64 \<times> handle_entry option \<Rightarrow> ('x, radix_own) tree_ctx \<Rightarrow> bool" where
  "ht_removed \<equiv> removed ht_format live (\<lambda>prev. prev = None)"

lemma ht_delete_leaf_wp:
  assumes fit: "fit 1 s" and ok: "rt_ok ht_format (store s) 0 p" and h: "unat h < 510"
  shows "wp (ht_delete_recursive w alloc 0 p h) (ht_removed 0 p (unat h) s) (stuck 1 s) s"
proof -
  obtain b where b: "store s p = Some b" "length b = 8184" "rt_leaf ht_format b" using ok by (auto simp: rt_ok_def)
  let ?i = "unat h" and ?b = "write_entry b (unat h) tombstone"
  let ?f = "\<lambda>buf. stamp_checksum (w_xxh w) (write_entry buf ?i tombstone)"
  let ?e = "and_then (call_alloc alloc) (\<lambda>q. and_then (on_cache (copy_page w p q)) (\<lambda>_. and_then (push_freed p) (\<lambda>_.
    and_then (on_cache (pc_with_mut w q ?f)) (\<lambda>_. ok q))))"
  have un: "ht_delete_recursive w alloc 0 p h = and_then (on_cache (pc_get w p)) (\<lambda>buf.
      if live (read_entry buf ?i) = None then ok (p, live (read_entry buf ?i)) else and_then ?e (\<lambda>q. ok (q, live (read_entry buf ?i))))"
    using h by (simp add: ht_leaf_index Let_def and_then_assoc and_then_ok live_none live_some live_gone cong: if_cong)
  show ?thesis
    unfolding un wp_and_then [of "on_cache (pc_get w p)"]
  proof (rule wp_mono [OF read_wp [OF fit b(1)]], goal_cases)
    case (1 buf t)
    then have buf: "page_ok buf" "page_body buf = b" and t: "step {} 0 s t" "store t = store s" "in_use t = in_use s" "t_own t = t_own s" by auto
    have en: "read_entry buf ?i = read_entry b ?i" by (rule read_entry_body [OF buf(2,1) h])
    have ft: "fit 1 t" and bt: "store t p = Some b" and okt: "rt_ok ht_format (store t) 0 p"
      using step_fit [OF t(1), of 1] fit t(2) b(1) ok by simp_all
    have edit: "wp ?e (edited p ?b t) (stuck 1 t) t" by (rule push_edit_wp [OF ft bt]) (use ht_put_entry [OF h] in auto)
    have "wp (if live (read_entry b ?i) = None then ok (p, live (read_entry b ?i)) else and_then ?e (\<lambda>q. ok (q, live (read_entry b ?i))))
        (ht_removed 0 p ?i t) (stuck 1 t) t"
      by (rule removed_leaf_wp [where K = ht_format and gone = "\<lambda>prev. prev = None" and f = live, OF okt bt _ ft, where b' = ?b])
        (use h b(2) write_entry_tags [OF b(2) h b(3)] read_write_entry [OF b(2) h] edit in simp_all)
    then show ?case unfolding en by (rule wp_mono) (use removed_same [OF t] stuck_later [OF t(1), of 1] in auto)
  next
    case (2 e t)
    then show ?case by (rule stuck_mono) simp
  qed
qed

lemma ht_delete_wp_rec:
  assumes "fit (l + 1) s" and "rt_ok ht_format (store s) l p" and "unat h < rt_span ht_format l" and "l \<le> 6"
  shows "wp (ht_delete_recursive w alloc l p h) (ht_removed l p (unat h) s) (stuck (l + 1) s) s"
  using assms
proof (induction l arbitrary: s p h)
  case 0
  then show ?case using ht_delete_leaf_wp [of s p h] by simp
next
  case (Suc l)
  have l5: "l \<le> 5" using Suc.prems(4) by simp
  obtain b where b: "store s p = Some b" "length b = 8184" "rt_node ht_format b" using Suc.prems(2) by (auto simp: rt_ok_def)
  let ?i = "unat h div rt_span ht_format l" and ?h = "h mod ht_span_at_level (Suc l)"
  let ?e = "\<lambda>c. and_then (call_alloc alloc) (\<lambda>q. and_then (on_cache (copy_page w p q)) (\<lambda>_. and_then (push_freed p) (\<lambda>_.
    and_then (on_cache (pc_with_mut w q (\<lambda>buf. stamp_checksum (w_xxh w) (put_u64 (16 + ?i * 8) c buf)))) (\<lambda>_. ok q))))"
  have i: "?i < 1021" by (rule rt_index [OF Suc.prems(3)])
  have un: "ht_delete_recursive w alloc (Suc l) p h = and_then (on_cache (pc_get w p)) (\<lambda>buf.
      and_then (ok ()) (\<lambda>_. and_then (slice_u64 (16 + ?i * 8) buf) (\<lambda>child. if child = 0 then ok (p, None)
      else and_then (ht_delete_recursive w alloc l child ?h) (\<lambda>(c, prev). if prev = None then ok (p, prev) else and_then (?e c) (\<lambda>q. ok (q, prev))))))"
    by (simp add: Let_def ht_digit [OF l5] and_then_assoc and_then_ok cong: if_cong)
  show ?case
    unfolding un
  proof (rule remove_node_wp [where gone = "\<lambda>prev. prev = None" and f = live and chk = "\<lambda>_. ok ()", OF ht_fmt Suc.prems(1,2) b i refl], goal_cases)
    case (4 c t)
    then show ?case using i put_child by (intro push_edit_wp) auto
  next
    case (5 t)
    have "unat ?h < rt_span ht_format l" by (simp add: ht_digit [OF l5] ht_span_pos)
    then show ?case using Suc.IH [OF 5, of ?h] l5 by (simp add: ht_digit [OF l5])
  qed (simp_all add: live_def tombstone_def)
qed

lemma ht_delete_wp:
  assumes fit: "fit 7 s" and ok: "rt_ok ht_format (store s) l p" and depth: "ro_depth (t_own s) = l" "l \<le> 6"
  shows "wp (ht_delete w alloc p h)
    (\<lambda>(q, prev) t. prev = ht_view (store s) l p h \<and> step {} 7 s t \<and>
       (if prev = None then q = p \<and> store t = store s \<and> in_use t = in_use s \<and> t_own t = t_own s
        else moved ht_format l p s q t \<and>
          (\<forall>k. ht_entry (store t) l q k = (if k = unat h then tombstone else ht_entry (store s) l p k))))
    (stuck 7 s) s"
proof -
  have "p \<noteq> PAGE_ID_NONE" using ok rt_wf_root [of ht_format "store s" l p] root_not_none [OF fit] by (auto simp: rt_ok_def)
  then have un: "ht_delete w alloc p h = and_then (gets (\<lambda>s. ro_depth (t_own s))) (\<lambda>d.
      if beyond (ht_capacity d) h then ok (p, None) else ht_delete_recursive w alloc d p h)" by (simp add: ht_delete_def)
  show ?thesis
  proof (cases "unat h < rt_span ht_format l")
    case False
    then show ?thesis
      using ht_beyond [of l h] depth step_weaken [OF step_refl [OF fit, of "{}"], of "{}" 7]
      by (simp add: un wp_simps ht_view_def rt_entry_def)
  next
    case True
    have f: "fit (l + 1) s" by (rule fit_mono [OF fit]) (use depth in simp)
    have "wp (ht_delete_recursive w alloc l p h) (\<lambda>(q, prev) t. prev = ht_view (store s) l p h \<and> step {} 7 s t \<and>
       (if prev = None then q = p \<and> store t = store s \<and> in_use t = in_use s \<and> t_own t = t_own s
        else moved ht_format l p s q t \<and>
          (\<forall>k. ht_entry (store t) l q k = (if k = unat h then tombstone else ht_entry (store s) l p k)))) (stuck 7 s) s"
    proof (rule wp_mono [OF ht_delete_wp_rec [OF f ok True depth(2)]], goal_cases)
      case (1 r t)
      then have "step {} (l + 1) s t" by (simp add: removed_def split: prod.splits)
      then have "step {} 7 s t" by (rule step_weaken) (use depth in auto)
      then show ?case using 1 True by (auto simp: removed_def ht_view_def rt_entry_def split: prod.splits if_splits)
    next
      case (2 e t)
      then show ?case by (rule stuck_mono) (use depth in simp)
    qed
    then show ?thesis using True ht_beyond [of l h] depth by (auto simp: un wp_simps)
  qed
qed

end

section \<open>Listing\<close>

abbreviation ht_list :: "(u64 \<rightharpoonup> u8 list) \<Rightarrow> nat \<Rightarrow> u64 \<Rightarrow> nat \<Rightarrow> (u64 \<times> handle_entry) list" where
  "ht_list \<equiv> rt_list ht_format (\<lambda>e. he_flags e \<noteq> Deleted)"

lemma live_entries_list:
  assumes "B p = Some b" and "page_body buf = b" and "page_ok buf"
  shows "live_entries (sat n) buf = ht_list B 0 p n"
proof -
  have E: "ENTRIES_PER_LEAF = 510" and g: "rt_get ht_format B 0 p k = read_entry b k" for k using assms(1) by simp_all
  have "map (\<lambda>i. if he_flags (read_entry buf i) \<noteq> Deleted then [(saturating_add (sat n) (word_of_nat i), read_entry buf i)] else []) [0..<510] =
    map (\<lambda>i. if he_flags (read_entry b i) \<noteq> Deleted then [(sat (n + i), read_entry b i)] else []) [0..<510]"
    using read_entry_body [OF assms(2,3)] by (intro map_cong) (auto simp: sat_add sat_small [symmetric])
  then show ?thesis unfolding live_entries_def rt_list_def E g rt_span_0 ht_format_simps(1) by (rule arg_cong)
qed

lemma ht_child_list: "page_body buf = b \<Longrightarrow> child_list buf = children b"
  by (auto simp: child_list_def children_def child_of_body intro!: filter_cong)

lemma ht_iter_wp:
  assumes "pc_inv w c" and W: "world_ok w" and "rt_wf ht_format (page_store w T c) l p" and "l \<le> 6"
  shows "wp (ht_iter_recursive w l p (sat n) acc)
    (\<lambda>r d. quiet w c d \<and> r = acc @ ht_list (page_store w T c) l p n) (read_fails w c) c"
  using assms(1,3-)
proof (induction l arbitrary: c p n acc)
  case 0
  then obtain b where b: "page_store w T c p = Some b" by auto
  show ?case
    unfolding ht_iter_recursive.simps wp_and_then
    by (rule wp_mono [OF store_page_wp [OF 0(1) W b]]) (auto simp: wp_simps live_entries_list [where B = "page_store w T c" and p = p and b = b, OF b])
next
  case (Suc l)
  let ?B = "page_store w T c" and ?sp = "rt_span ht_format l"
  obtain b where b: "?B p = Some b" and kids: "\<And>i. i < 1021 \<Longrightarrow> child_at b i \<noteq> 0 \<Longrightarrow> rt_wf ht_format ?B l (child_at b i)"
    using Suc.prems(2) by auto
  have l5: "l \<le> 5" using Suc.prems(3) by simp
  show ?case
    unfolding ht_iter_recursive.simps Let_def wp_and_then
  proof (rule wp_mono [OF store_page_wp [OF Suc.prems(1) W b]], goal_cases)
    case (1 buf d)
    then have q: "quiet w c d" and ch: "child_list buf = children b" using ht_child_list by auto
    show ?case
      unfolding ch
    proof (rule list_children_wp [where add = append, OF q b], goal_cases)
      case (5 i acc e)
      then show ?case
        using Suc.IH [of e "child_at b i" "n + i * ?sp" acc] kids [of i] l5 by (simp add: sat_base ht_span)
    qed (simp_all add: tombstone_def ht_span_pos)
  qed
qed

section \<open>The table over a growing file\<close>

text \<open>
  The invariant of the table: a well-formed tree of at most 6 levels without shared pages, whose
  leftmost path is complete and which holds nothing beyond the handles.
\<close>

definition ht_ok :: "(u64 \<rightharpoonup> u8 list) \<Rightarrow> nat \<Rightarrow> u64 \<Rightarrow> bool" where
  "ht_ok B depth root \<longleftrightarrow> depth \<le> 6 \<and> rt_ok ht_format B depth root \<and> rt_spine B depth root \<and>
     (\<forall>k \<ge> 2 ^ 64. ht_entry B depth root k = tombstone)"

lemma ht_create_root_wp:
  assumes fit: "np.fit w 1 s"
  shows "wp (ht_create_root w) (\<lambda>q t. np.step w {} 1 s t \<and> next_page_id (t_cache s) \<le> q \<and> ht_ok (in_file w (t_cache t)) 0 q \<and>
      (\<forall>h. ht_view (in_file w (t_cache t)) 0 q h = None) \<and> t_own t = (t_own s)\<lparr>ro_depth := 0\<rparr>) (np.stuck w 1 s) s"
proof -
  let ?f = "\<lambda>buf. stamp_checksum (w_xxh w) (ht_blank FLAG_LEAF buf)"
  have f: "page_ok (?f buf) \<and> page_body (?f buf) = blank_body 1 \<and> verify_checksum (w_xxh w) (?f buf)" if "page_ok buf" for buf
    using ht_blank_body [OF that, of 1] that by (simp add: blank_body_def)
  have "wp (on_cache (pc_new_page w)) (\<lambda>q. wp (on_cache (pc_with_mut w q ?f)) (\<lambda>_. np.fresh_page w s q (blank_body 1)) (np.stuck w 1 s))
      (np.stuck w 1 s) s"
    using np.fresh_init_wp [OF fit f] by (simp add: call_new_page)
  then have "wp (on_cache (pc_new_page w)) (\<lambda>q. wp (on_cache (pc_with_mut w q ?f)) (\<lambda>_ t. np.step w {} 1 s t \<and>
      next_page_id (t_cache s) \<le> q \<and> ht_ok (in_file w (t_cache t)) 0 q \<and> (\<forall>h. ht_view (in_file w (t_cache t)) 0 q h = None) \<and>
      t_own t = t_own s) (np.stuck w 1 s)) (np.stuck w 1 s) s"
  proof (elim wp_mono, goal_cases)
    case (1 q _ _ t)
    then have t: "in_file w (t_cache t) q = Some (blank_body 1)" "q \<noteq> 0" by (simp_all add: np.fresh_page_def)
    note bl = ht_blank_page [where l = 0 and flag = 1 and B = "in_file w (t_cache t)", OF t(1) _ t(2), simplified]
    have e: "ht_entry (in_file w (t_cache t)) 0 q k = tombstone" for k using bl(3) [of k] by (simp add: rt_entry_def)
    then show ?case using 1 bl(1) by (auto simp: np.fresh_page_def np_in_use ht_ok_def ht_view_def)
  qed
  then show ?thesis by (auto simp: ht_create_root_def wp_simps set_depth_def set_own_def elim!: wp_mono)
qed

subsection \<open>A sample table\<close>

definition sample_root :: u64 where
  "sample_root = (case fst (ht_create_root toy_world wide_one) of Ok q \<Rightarrow> q | _ \<Rightarrow> 0)"

definition sample_table :: page_cache where
  "sample_table = t_cache (snd (ht_create_root toy_world wide_one))"

lemma sample_table:
  "pc_inv toy_world sample_table" "0 < next_page_id sample_table" "roomy sample_table 98" "id_room sample_table 999"
  "ht_ok (in_file toy_world sample_table) 0 sample_root"
  "ht_view (in_file toy_world sample_table) 0 sample_root h = None"
proof -
  have f: "np.fit toy_world 1000 wide_one" "np.fit toy_world 1 wide_one"
    using wide_one toy_world_ok by (simp_all add: np_fit id_room_def)
  have room: "ids_room (t_env wide_one) (t_cache wide_one) 1" using wide_one(3) by (simp add: ids_room_def roomy_def)
  obtain q t where run: "ht_create_root toy_world wide_one = (Ok q, t)"
    and t: "np.step toy_world {} 1 wide_one t" "ht_ok (in_file toy_world (t_cache t)) 0 q"
      "\<And>h. ht_view (in_file toy_world (t_cache t)) 0 q h = None"
    by (rule wp_total [OF ht_create_root_wp [OF f(2)]]) (use toy_world_no_faults room in \<open>auto simp: np.stuck_def\<close>)
  have c: "sample_table = t_cache t" "sample_root = q" by (simp_all add: sample_table_def sample_root_def run)
  have "np.fit toy_world 999 t" using np.step_fit [OF t(1), of 999] f(1) by simp
  then show "pc_inv toy_world sample_table" "0 < next_page_id sample_table" "id_room sample_table 999" by (simp_all add: np_fit c)
  have "ids_room () (t_cache wide_one) (1 + 98)" using wide_one(3) by (simp add: ids_room_def)
  then show "roomy sample_table 98" using t(1) by (auto simp: np.step_def ids_room_def c)
  show "ht_ok (in_file toy_world sample_table) 0 sample_root" "ht_view (in_file toy_world sample_table) 0 sample_root h = None"
    using t by (simp_all add: c)
qed

section \<open>Properties\<close>

text \<open>
  C7. Inserting an entry yields the root of a well-formed table that maps the handle to the entry and
  every other handle to what it had; no page of the file as it was before changes, so the old root
  still shows the old table; the pages of the old table and the new ones are exactly the pages of the
  new table and the ones handed back in \<open>freed\<close>, none in both. The only errors are those of the
  environment, and they leave the depth as it was.
\<close>

theorem ht_insert_correct:
  assumes inv: "pc_inv w c" and W: "world_ok w" and pos: "0 < next_page_id c" and room: "id_room c 19"
    and ok: "ht_ok (in_file w c) depth root"
  shows "wp (ht_insert w (new_page_alloc w) root h e)
    (\<lambda>q t. let B = in_file w (t_cache t); d = ro_depth (t_own t) in
       ht_ok B d q \<and> (\<forall>h'. ht_view B d q h' = (if h' = h then live e else ht_view (in_file w c) depth root h')) \<and>
       (\<forall>p < next_page_id c. body_at w (t_cache t) p = body_at w c p) \<and>
       (\<exists>fs. ro_freed (t_own t) = freed @ fs \<and>
          accounted (rt_pages (in_file w c) depth root) {p. next_page_id c \<le> p \<and> p < next_page_id (t_cache t)} (rt_pages B d q) fs))
    (\<lambda>x t. env_error w x \<and> ro_depth (t_own t) = depth \<and> (no_faults w \<longrightarrow> \<not> roomy c 19))
    (ctx c depth freed)"
proof -
  let ?s = "ctx c depth freed"
  have f: "np.fit w 19 ?s" and okr: "rt_ok ht_format (np.store w ?s) depth root" and d: "ro_depth (t_own ?s) = depth" "depth \<le> 6"
    using assms by (simp_all add: np_fit ht_ok_def)
  show ?thesis
  proof (rule wp_mono [OF np.ht_insert_wp [OF f okr d]], goal_cases)
    case (1 q t)
    then obtain m fs F where m: "m \<le> 6" "np.step w {} 19 ?s t" "rt_ok ht_format (in_file w (t_cache t)) m q"
        "rt_spine (in_file w c) depth root \<Longrightarrow> rt_spine (in_file w (t_cache t)) m q"
        "np.in_use t = np.in_use ?s \<union> F" "F \<inter> np.in_use ?s = {}"
        "accounted (rt_pages (in_file w c) depth root) F (rt_pages (in_file w (t_cache t)) m q) fs"
        "t_own t = \<lparr>ro_depth = m, ro_freed = freed @ fs\<rparr>"
      and e: "\<And>k. ht_entry (in_file w (t_cache t)) m q k = (if k = unat h then e else ht_entry (in_file w c) depth root k)"
      by (auto simp: np.updated_def)
    have F: "F = {p. next_page_id c \<le> p \<and> p < next_page_id (t_cache t)}" using np_fresh [OF m(5,6)] by simp
    have "ht_ok (in_file w (t_cache t)) m q" using m ok e unat_u64_less [of h] by (auto simp: ht_ok_def)
    moreover have "ht_view (in_file w (t_cache t)) m q h' = (if h' = h then live e else ht_view (in_file w c) depth root h')" for h'
      by (simp add: ht_view_def e word_unat_eq_iff)
    ultimately show ?case using m(7,8) np_step_bodies [OF m(2)] by (auto simp: Let_def F)
  next
    case (2 x t)
    then show ?case by (auto simp: np.stuck_def ids_room_def)
  qed
qed

theorem ht_insert_correct_witness:
  "\<exists>q t. ht_insert toy_world (new_page_alloc toy_world) sample_root 5000 (tombstone\<lparr>he_page_id := 7, he_flags := Live\<rparr>)
      (ctx sample_table 0 []) = (Ok q, t) \<and>
    ht_view (in_file toy_world (t_cache t)) (ro_depth (t_own t)) q 5000 = Some (tombstone\<lparr>he_page_id := 7, he_flags := Live\<rparr>) \<and>
    ht_view (in_file toy_world (t_cache t)) (ro_depth (t_own t)) q 3 = None"
proof -
  have room: "id_room sample_table 19" "roomy sample_table 19" using sample_table(3,4) by (simp_all add: id_room_def roomy_def)
  show ?thesis
    by (rule wp_total [OF ht_insert_correct [OF sample_table(1) toy_world_ok sample_table(2) room(1) sample_table(5),
          where h = 5000 and freed = "[]" and e = "tombstone\<lparr>he_page_id := 7, he_flags := Live\<rparr>"]])
      (use toy_world_no_faults room(2) sample_table(6) in \<open>auto simp: Let_def live_def\<close>)
qed

text \<open>
  C8. Deleting a handle returns the entry it had, if any, and a table without it and otherwise equal;
  again no page of the file as it was changes and every page is accounted for. Deleting a handle that
  has no live entry changes nothing at all and allocates nothing.
\<close>

theorem ht_delete_correct:
  assumes inv: "pc_inv w c" and W: "world_ok w" and pos: "0 < next_page_id c" and room: "id_room c 7"
    and ok: "ht_ok (in_file w c) depth root"
  shows "wp (ht_delete w (new_page_alloc w) root h)
    (\<lambda>(q, prev) t. let B = in_file w (t_cache t) in prev = ht_view (in_file w c) depth root h \<and>
       ht_ok B depth q \<and> (\<forall>h'. ht_view B depth q h' = (if h' = h then None else ht_view (in_file w c) depth root h')) \<and>
       (\<forall>p < next_page_id c. body_at w (t_cache t) p = body_at w c p) \<and>
       (prev = None \<longrightarrow> q = root \<and> next_page_id (t_cache t) = next_page_id c) \<and>
       (\<exists>fs. t_own t = \<lparr>ro_depth = depth, ro_freed = freed @ fs\<rparr> \<and>
          accounted (rt_pages (in_file w c) depth root) {p. next_page_id c \<le> p \<and> p < next_page_id (t_cache t)} (rt_pages B depth q) fs))
    (\<lambda>x t. env_error w x \<and> (no_faults w \<longrightarrow> \<not> roomy c 7))
    (ctx c depth freed)"
proof -
  let ?s = "ctx c depth freed" and ?B = "in_file w c"
  have f: "np.fit w 7 ?s" and okr: "rt_ok ht_format (np.store w ?s) depth root" and d: "ro_depth (t_own ?s) = depth" "depth \<le> 6"
    using assms by (simp_all add: np_fit ht_ok_def)
  show ?thesis
  proof (rule wp_mono [OF np.ht_delete_wp [OF f okr d]], goal_cases)
    case (1 r t)
    obtain q prev where r: "r = (q, prev)" by (cases r)
    have prev: "prev = ht_view ?B depth root h" and st: "np.step w {} 7 ?s t" using 1 by (auto simp: r)
    note bodies = np_step_bodies [OF st, simplified]
    show ?case
    proof (cases "prev = None")
      case True
      then have t: "q = root" "in_file w (t_cache t) = ?B" "np.in_use t = np.in_use ?s" "t_own t = t_own ?s" using 1 by (auto simp: r)
      have "np.in_use t = np.in_use ?s \<union> {}" "{} \<inter> np.in_use ?s = {}" using t(3) by simp_all
      then have F: "{p. next_page_id c \<le> p \<and> p < next_page_id (t_cache t)} = {}" using np_fresh [of t ?s "{}"] by simp
      have le: "next_page_id c \<le> next_page_id (t_cache t)" using st by (simp add: np.step_def keeps_def)
      have n: "next_page_id (t_cache t) = next_page_id c"
        using F le by (metis (mono_tags, lifting) Collect_empty_eq order_le_imp_less_or_eq order_refl)
      show ?thesis using True t prev ok bodies n by (auto simp: r Let_def accounted_def)
    next
      case False
      then have mv: "np.moved w ht_format depth root ?s q t" and e: "\<And>k. ht_entry (in_file w (t_cache t)) depth q k =
          (if k = unat h then tombstone else ht_entry ?B depth root k)" using 1 by (auto simp: r)
      then obtain fs F where m: "np.in_use t = np.in_use ?s \<union> F" "F \<inter> np.in_use ?s = {}"
          "accounted (rt_pages ?B depth root) F (rt_pages (in_file w (t_cache t)) depth q) fs"
          "t_own t = \<lparr>ro_depth = depth, ro_freed = freed @ fs\<rparr>" by (auto simp: np.moved_def)
      have F: "F = {p. next_page_id c \<le> p \<and> p < next_page_id (t_cache t)}" using np_fresh [OF m(1,2)] by simp
      have "ht_ok (in_file w (t_cache t)) depth q" using mv ok e by (auto simp: ht_ok_def np.moved_def)
      moreover have "ht_view (in_file w (t_cache t)) depth q h' = (if h' = h then None else ht_view ?B depth root h')" for h'
        by (simp add: ht_view_def e word_unat_eq_iff)
      ultimately show ?thesis using m(3,4) prev False bodies by (auto simp: r Let_def F)
    qed
  next
    case (2 x t)
    then show ?case by (auto simp: np.stuck_def ids_room_def)
  qed
qed

theorem ht_delete_correct_witness:
  "\<exists>t. ht_delete toy_world (new_page_alloc toy_world) sample_root 9 (ctx sample_table 0 []) = (Ok (sample_root, None), t) \<and>
     ht_view (in_file toy_world (t_cache t)) 0 sample_root 9 = None"
proof -
  have room: "id_room sample_table 7" "roomy sample_table 7" using sample_table(3,4) by (simp_all add: id_room_def roomy_def)
  show ?thesis
    by (rule wp_total [OF ht_delete_correct [OF sample_table(1) toy_world_ok sample_table(2) room(1) sample_table(5),
          where h = 9 and freed = "[]"]])
      (use toy_world_no_faults room(2) sample_table(6) in \<open>auto simp: Let_def\<close>)
qed

lemma ht_list_live:
  assumes ok: "ht_ok B depth root"
  shows "sorted_wrt (<) (map fst (ht_list B depth root 0))" and "(h, e) \<in> set (ht_list B depth root 0) \<longleftrightarrow> ht_view B depth root h = Some e"
proof -
  have small: "k < 2 ^ 64" if "k < rt_span ht_format depth" "he_flags (rt_get ht_format B depth root k) \<noteq> Deleted" for k
  proof (rule ccontr)
    assume "\<not> k < 2 ^ 64"
    then have "ht_entry B depth root k = tombstone" using ok by (simp add: ht_ok_def)
    then show False using that by (simp add: rt_entry_def tombstone_def)
  qed
  show "sorted_wrt (<) (map fst (ht_list B depth root 0))" by (rule rt_list_sorted(1)) (rule small)
  have "(h, e) \<in> set (ht_list B depth root 0) \<longleftrightarrow> unat h < rt_span ht_format depth \<and> e = rt_get ht_format B depth root (unat h) \<and> he_flags e \<noteq> Deleted"
    by (rule rt_list_sorted(2)) (rule small)
  then show "(h, e) \<in> set (ht_list B depth root 0) \<longleftrightarrow> ht_view B depth root h = Some e"
    by (auto simp: ht_view_def rt_entry_def live_def tombstone_def split: if_splits)
qed

lemma ht_iter_live_wp:
  assumes inv: "pc_inv w c" and W: "world_ok w" and ok: "ht_ok (page_store w T c) depth root" and root: "root \<noteq> PAGE_ID_NONE"
  shows "wp (ht_iter_live w depth root) (\<lambda>r d. quiet w c d \<and> sorted_wrt (<) (map fst r) \<and>
      (\<forall>h e. (h, e) \<in> set r \<longleftrightarrow> ht_view (page_store w T c) depth root h = Some e)) (read_fails w c) c"
proof -
  have d: "depth \<le> 6" and wf: "rt_wf ht_format (page_store w T c) depth root" using ok by (auto simp: ht_ok_def rt_ok_def)
  have "ht_iter_live w depth root = ht_iter_recursive w depth root (sat 0) []" using root by (simp add: ht_iter_live_def sat_def)
  then show ?thesis using ht_iter_wp [OF inv W wf d, of 0 "[]"] ht_list_live [OF ok] by (auto elim!: wp_mono)
qed

lemma ht_recover_depth_wp:
  assumes "pc_inv w c" and "world_ok w" and ok: "ht_ok (page_store w T c) depth root" and "root \<noteq> PAGE_ID_NONE"
  shows "wp (ht_recover_depth w root) (\<lambda>r d. quiet w c d \<and> r = depth) (read_fails w c) c"
proof -
  have d: "depth \<le> 6" and wf: "rt_wf ht_format (page_store w T c) depth root" and sp: "rt_spine (page_store w T c) depth root"
    using ok by (auto simp: ht_ok_def rt_ok_def)
  show ?thesis using ht_recover_loop_wp [OF assms(1,2) wf sp, of 0] d assms(4) by (simp add: ht_recover_depth_def)
qed

text \<open>
  C9. \<open>lookup\<close> returns what the table holds at the handle, \<open>recover_depth\<close> finds the depth of a
  table from its root page, and \<open>iter_live\<close> lists the handles with a live entry in ascending order,
  each once and with its entry. None of them changes a page.
\<close>

theorem ht_reads_correct:
  assumes inv: "pc_inv w c" and W: "world_ok w" and ok: "ht_ok (in_file w c) depth root" and root: "root \<noteq> PAGE_ID_NONE"
  shows "wp (ht_lookup w depth root h) (\<lambda>r d. quiet w c d \<and> r = ht_view (in_file w c) depth root h) (read_fails w c) c \<and>
    wp (ht_recover_depth w root) (\<lambda>r d. quiet w c d \<and> r = depth) (read_fails w c) c \<and>
    wp (ht_iter_live w depth root) (\<lambda>r d. quiet w c d \<and> sorted_wrt (<) (map fst r) \<and>
      (\<forall>h e. (h, e) \<in> set r \<longleftrightarrow> ht_view (in_file w c) depth root h = Some e)) (read_fails w c) c"
proof (intro conjI)
  note ok' = ok [unfolded in_file_def]
  have wf: "rt_wf ht_format (page_store w {p. p < next_page_id c} c) depth root" and d: "depth \<le> 6" using ok' by (auto simp: ht_ok_def rt_ok_def)
  show "wp (ht_lookup w depth root h) (\<lambda>r d. quiet w c d \<and> r = ht_view (in_file w c) depth root h) (read_fails w c) c"
    unfolding in_file_def by (rule ht_lookup_wp [OF inv W wf root d])
  show "wp (ht_recover_depth w root) (\<lambda>r d. quiet w c d \<and> r = depth) (read_fails w c) c"
    by (rule ht_recover_depth_wp [OF inv W ok' root])
  show "wp (ht_iter_live w depth root) (\<lambda>r d. quiet w c d \<and> sorted_wrt (<) (map fst r) \<and>
      (\<forall>h e. (h, e) \<in> set r \<longleftrightarrow> ht_view (in_file w c) depth root h = Some e)) (read_fails w c) c"
    unfolding in_file_def by (rule ht_iter_live_wp [OF inv W ok' root])
qed

theorem ht_reads_correct_witness:
  "wp (ht_lookup toy_world 0 sample_root 3) (\<lambda>r d. r = None) (\<lambda>e t. False) sample_table"
proof -
  have root: "sample_root \<noteq> PAGE_ID_NONE"
    using sample_table(5) np.root_not_none [of toy_world 0 "ctx sample_table 0 []" sample_root] sample_table(1,2,4) toy_world_ok
    by (auto simp: ht_ok_def rt_ok_def np_fit id_room_def)
  have "roomy sample_table 0" using sample_table(3) by (simp add: roomy_def)
  then show ?thesis
    using ht_reads_correct [OF sample_table(1) toy_world_ok sample_table(5) root, of 3] sample_table(6) toy_world_no_faults
    by (auto elim!: wp_mono simp: read_fails_def)
qed

end
