(* ===== verification/Radix_U64.thy ===== *)
theory Radix_U64
  imports Radix_Ops
begin

text \<open>
  \<open>RadixU64\<close> of \<open>src/membership_index.rs\<close>: a copy-on-write radix tree from keys to nonzero words,
  1021 to a page, 0 for an absent key. The membership index is built of such trees, one inside the
  other. The depth lives beside the list of superseded pages in the state of an operation
  (\<open>radix_own\<close>), as the code passes \<open>&mut self\<close> and \<open>freed\<close> along.
\<close>

section \<open>Definitions\<close>

definition SLOT_SIZE :: nat where [simp]: "SLOT_SIZE = 8"
definition SLOTS_PER_PAGE :: nat where [simp]: "SLOTS_PER_PAGE = (CHECKSUM_OFFSET - DATA_PAGE_HEADER_SIZE) div SLOT_SIZE"
definition RU_MAX_DEPTH :: nat where [simp]: "RU_MAX_DEPTH = 6"

text \<open>Reading a slot at a computed index is a bounds-checked slice; the loops stay below the slot count.\<close>

abbreviation slot_offset :: "nat \<Rightarrow> nat" where
  "slot_offset index \<equiv> DATA_PAGE_HEADER_SIZE + index * SLOT_SIZE"

definition slot_at :: "page \<Rightarrow> nat \<Rightarrow> u64" where
  "slot_at buf index = get_u64 (slot_offset index) buf"

definition ru_read_slot :: "page \<Rightarrow> nat \<Rightarrow> ('s, 'e, u64) op" where
  "ru_read_slot buf index = slice_u64 (slot_offset index) buf"

definition ru_write_slot :: "page \<Rightarrow> nat \<Rightarrow> u64 \<Rightarrow> page" where
  "ru_write_slot buf index value = put_u64 (slot_offset index) value buf"

definition ru_blank :: "page_type \<Rightarrow> page \<Rightarrow> page" where
  "ru_blank page_type buf = (replicate (length buf) 0)[0 := page_type_tag page_type, 1 := current_version page_type]"

definition ru_init_page :: "world \<Rightarrow> page_type \<Rightarrow> 'x allocator \<Rightarrow> ('x, 'o, u64) tree_op" where
  "ru_init_page w page_type alloc =
     and_then (call_alloc alloc) (\<lambda>id.
     and_then (on_cache (pc_with_mut w id (\<lambda>buf. stamp_checksum (w_xxh w) (ru_blank page_type buf)))) (\<lambda>_. ok id))"

definition expected_type_at :: "nat \<Rightarrow> page_type" where
  "expected_type_at level = (if level = 0 then MembershipLeaf else MembershipInterior)"

definition check_type_at :: "page \<Rightarrow> u64 \<Rightarrow> nat \<Rightarrow> ('s, chisel_error, unit) op" where
  "check_type_at buf page_id level =
     (if buf ! 0 \<noteq> page_type_tag (expected_type_at level) then err (CorruptPage page_id) else ok ())"

definition ru_children :: "page \<Rightarrow> (nat \<times> u64) list" where
  "ru_children buf = filter (\<lambda>(_, c). c \<noteq> 0) (map (\<lambda>i. (i, slot_at buf i)) [0..<SLOTS_PER_PAGE])"

fun free_subtree :: "world \<Rightarrow> nat \<Rightarrow> u64 \<Rightarrow> ('x, radix_own, unit) tree_op" where
  "free_subtree w 0 root =
     (if root = PAGE_ID_NONE then ok ()
      else and_then (on_cache (pc_get w root)) (\<lambda>buf.
           and_then (check_type_at buf root 0) (\<lambda>_. push_freed root)))"
| "free_subtree w (Suc depth) root =
     (if root = PAGE_ID_NONE then ok ()
      else and_then (on_cache (pc_get w root)) (\<lambda>buf.
           and_then (check_type_at buf root (Suc depth)) (\<lambda>_.
           and_then (on_cache (pc_get w root)) (\<lambda>buf.
           and_then (for_each (map snd (ru_children buf)) (free_subtree w depth)) (\<lambda>_. push_freed root)))))"

subsection \<open>Capacity\<close>

definition ru_capacity :: "nat \<Rightarrow> u64" where
  "ru_capacity depth = sat_scale (word_of_nat SLOTS_PER_PAGE) depth"

definition ru_span_at_level :: "nat \<Rightarrow> u64" where
  "ru_span_at_level level = sat_scale (word_of_nat SLOTS_PER_PAGE) (level - 1)"

abbreviation ru_beyond :: "nat \<Rightarrow> u64 \<Rightarrow> bool" where
  "ru_beyond depth key \<equiv> ru_capacity depth \<noteq> - 1 \<and> ru_capacity depth \<le> key"

subsection \<open>Reading\<close>

fun ru_descend :: "world \<Rightarrow> nat \<Rightarrow> u64 \<Rightarrow> u64 \<Rightarrow> (u64 \<times> nat) option cache_op" where
  "ru_descend w 0 current remaining = ok (Some (current, unat (remaining mod word_of_nat SLOTS_PER_PAGE)))"
| "ru_descend w (Suc l) current remaining =
     (let span = ru_span_at_level (Suc l);
          child_idx = unat (remaining div span)
      in if SLOTS_PER_PAGE \<le> child_idx then ok None
         else and_then (pc_get w current) (\<lambda>buf.
              and_then (check_type_at buf current (Suc l)) (\<lambda>_.
              and_then (ru_read_slot buf child_idx) (\<lambda>child.
              if child = 0 then ok None else ru_descend w l child (remaining mod span)))))"

definition ru_find_leaf :: "world \<Rightarrow> nat \<Rightarrow> u64 \<Rightarrow> u64 \<Rightarrow> (u64 \<times> nat) option cache_op" where
  "ru_find_leaf w depth root key =
     (if ru_beyond depth key then ok None
      else if depth = 0 then ok (Some (root, unat (key mod word_of_nat SLOTS_PER_PAGE)))
      else ru_descend w depth root key)"

definition ru_lookup :: "world \<Rightarrow> nat \<Rightarrow> u64 \<Rightarrow> u64 \<Rightarrow> u64 cache_op" where
  "ru_lookup w depth root key =
     (if root = PAGE_ID_NONE then ok 0
      else and_then (ru_find_leaf w depth root key) (\<lambda>found.
           case found of
             None \<Rightarrow> ok 0
           | Some (leaf, idx) \<Rightarrow>
               and_then (pc_get w leaf) (\<lambda>buf.
               and_then (check_type_at buf leaf 0) (\<lambda>_. ru_read_slot buf idx))))"

definition slot_entries :: "u64 \<Rightarrow> page \<Rightarrow> (u64 \<times> u64) list" where
  "slot_entries base buf =
     [(saturating_add base (word_of_nat i), slot_at buf i). i \<leftarrow> [0..<SLOTS_PER_PAGE], slot_at buf i \<noteq> 0]"

abbreviation next_base :: "u64 \<Rightarrow> nat \<Rightarrow> nat \<Rightarrow> u64" where
  "next_base base i level \<equiv> saturating_add base (saturating_mul (word_of_nat i) (ru_span_at_level level))"

fun ru_iter_recursive :: "world \<Rightarrow> nat \<Rightarrow> u64 \<Rightarrow> u64 \<Rightarrow> (u64 \<times> u64) list \<Rightarrow> (u64 \<times> u64) list cache_op" where
  "ru_iter_recursive w 0 page base out =
     and_then (pc_get w page) (\<lambda>buf.
     and_then (check_type_at buf page 0) (\<lambda>_. ok (out @ slot_entries base buf)))"
| "ru_iter_recursive w (Suc l) page base out =
     and_then (pc_get w page) (\<lambda>buf.
     and_then (check_type_at buf page (Suc l)) (\<lambda>_.
     fold_each (ru_children buf) (\<lambda>(i, child). ru_iter_recursive w l child (next_base base i (Suc l))) out))"

definition ru_iter :: "world \<Rightarrow> nat \<Rightarrow> u64 \<Rightarrow> (u64 \<times> u64) list cache_op" where
  "ru_iter w depth root = (if root = PAGE_ID_NONE then ok [] else ru_iter_recursive w depth root 0 [])"

text \<open>The loop over a leaf's slots leaves at the limit; nothing is pushed from there on.\<close>

definition push_bounded :: "nat \<Rightarrow> (u64 \<times> u64) \<Rightarrow> (u64 \<times> u64) list \<Rightarrow> (u64 \<times> u64) list" where
  "push_bounded limit x out = (if limit \<le> length out then out else out @ [x])"

fun ru_iter_bounded_recursive ::
  "world \<Rightarrow> nat \<Rightarrow> nat \<Rightarrow> u64 \<Rightarrow> u64 \<Rightarrow> (u64 \<times> u64) list \<Rightarrow> (u64 \<times> u64) list cache_op" where
  "ru_iter_bounded_recursive w limit 0 page base out =
     (if limit \<le> length out then ok out
      else and_then (pc_get w page) (\<lambda>buf.
           and_then (check_type_at buf page 0) (\<lambda>_. ok (fold (push_bounded limit) (slot_entries base buf) out))))"
| "ru_iter_bounded_recursive w limit (Suc l) page base out =
     (if limit \<le> length out then ok out
      else and_then (pc_get w page) (\<lambda>buf.
           and_then (check_type_at buf page (Suc l)) (\<lambda>_.
           fold_each (ru_children buf) (\<lambda>(i, child) out.
             if limit \<le> length out then ok out
             else ru_iter_bounded_recursive w limit l child (next_base base i (Suc l)) out) out)))"

definition ru_iter_bounded :: "world \<Rightarrow> nat \<Rightarrow> u64 \<Rightarrow> nat \<Rightarrow> (u64 \<times> u64) list cache_op" where
  "ru_iter_bounded w depth root limit =
     (if root = PAGE_ID_NONE \<or> limit = 0 then ok [] else ru_iter_bounded_recursive w limit depth root 0 [])"

fun any_each :: "'x list \<Rightarrow> ('x \<Rightarrow> ('s, 'e, bool) op) \<Rightarrow> ('s, 'e, bool) op" where
  "any_each [] f = ok False"
| "any_each (x # xs) f = and_then (f x) (\<lambda>r. if r then ok True else any_each xs f)"

fun any_recursive :: "world \<Rightarrow> nat \<Rightarrow> u64 \<Rightarrow> bool cache_op" where
  "any_recursive w 0 page =
     and_then (pc_get w page) (\<lambda>buf.
     and_then (check_type_at buf page 0) (\<lambda>_. ok (list_ex (\<lambda>i. slot_at buf i \<noteq> 0) [0..<SLOTS_PER_PAGE])))"
| "any_recursive w (Suc l) page =
     and_then (pc_get w page) (\<lambda>buf.
     and_then (check_type_at buf page (Suc l)) (\<lambda>_.
     any_each (map snd (ru_children buf)) (any_recursive w l)))"

definition any_present :: "world \<Rightarrow> nat \<Rightarrow> u64 \<Rightarrow> bool cache_op" where
  "any_present w depth root = (if root = PAGE_ID_NONE then ok False else any_recursive w depth root)"

function ru_recover_loop :: "world \<Rightarrow> nat \<Rightarrow> u64 \<Rightarrow> nat cache_op" where
  "ru_recover_loop w depth current =
     and_then (pc_get w current) (\<lambda>buf.
     if buf ! 0 \<noteq> page_type_tag MembershipInterior then ok depth
     else if RU_MAX_DEPTH < depth + 1 then err (CorruptPage current)
     else let child = slot_at buf 0
          in if child = 0 then ok (depth + 1) else ru_recover_loop w (depth + 1) child)"
  by pat_completeness auto
termination by (relation "measure (\<lambda>(w, depth, current). 7 - depth)") auto

definition ru_recover_depth :: "world \<Rightarrow> u64 \<Rightarrow> nat cache_op" where
  "ru_recover_depth w root = (if root = PAGE_ID_NONE then ok 0 else ru_recover_loop w 0 root)"

declare ru_recover_loop.simps [simp del]

subsection \<open>Changing\<close>

definition ru_set_depth :: "(nat \<Rightarrow> nat) \<Rightarrow> ('x, radix_own, unit) tree_op" where
  "ru_set_depth f = set_own (\<lambda>r. r\<lparr>ro_depth := f (ro_depth r)\<rparr>)"

definition ru_create_root :: "world \<Rightarrow> 'x allocator \<Rightarrow> ('x, radix_own, u64) tree_op" where
  "ru_create_root w alloc = and_then (ru_set_depth (\<lambda>_. 0)) (\<lambda>_. ru_init_page w MembershipLeaf alloc)"

definition ru_grow :: "world \<Rightarrow> 'x allocator \<Rightarrow> u64 \<Rightarrow> ('x, radix_own, u64) tree_op" where
  "ru_grow w alloc old_root =
     and_then (call_alloc alloc) (\<lambda>new_root.
     and_then (on_cache (pc_with_mut w new_root (\<lambda>buf.
       stamp_checksum (w_xxh w) (ru_write_slot (ru_blank MembershipInterior buf) 0 old_root)))) (\<lambda>_.
     and_then (ru_set_depth Suc) (\<lambda>_. ok new_root)))"

text \<open>The head of \<open>insert_recursive\<close>: check the page, copy it and report the old one.\<close>

definition ru_copy_node :: "world \<Rightarrow> 'x allocator \<Rightarrow> u64 \<Rightarrow> nat \<Rightarrow> ('x, radix_own, u64) tree_op" where
  "ru_copy_node w alloc page level =
     and_then (on_cache (pc_get w page)) (\<lambda>buf.
     and_then (check_type_at buf page level) (\<lambda>_.
     and_then (call_alloc alloc) (\<lambda>new_page.
     and_then (on_cache (copy_page w page new_page)) (\<lambda>_.
     and_then (push_freed page) (\<lambda>_. ok new_page)))))"

fun ru_insert_recursive :: "world \<Rightarrow> 'x allocator \<Rightarrow> nat \<Rightarrow> u64 \<Rightarrow> u64 \<Rightarrow> u64 \<Rightarrow> ('x, radix_own, u64) tree_op" where
  "ru_insert_recursive w alloc 0 page key value =
     and_then (ru_copy_node w alloc page 0) (\<lambda>new_page.
     let idx = unat (key mod word_of_nat SLOTS_PER_PAGE)
     in and_then (on_cache (pc_with_mut w new_page (\<lambda>buf.
          stamp_checksum (w_xxh w) (ru_write_slot buf idx value)))) (\<lambda>_. ok new_page))"
| "ru_insert_recursive w alloc (Suc l) page key value =
     and_then (ru_copy_node w alloc page (Suc l)) (\<lambda>new_page.
     let span = ru_span_at_level (Suc l);
         child_idx = unat (key div span)
     in and_then (on_cache (pc_get w new_page)) (\<lambda>buf.
        and_then (ru_read_slot buf child_idx) (\<lambda>child.
        and_then (if child = 0 then ru_init_page w (if Suc l = 1 then MembershipLeaf else MembershipInterior) alloc
                  else ok child) (\<lambda>actual_child.
        and_then (ru_insert_recursive w alloc l actual_child (key mod span) value) (\<lambda>new_child.
        and_then (on_cache (pc_with_mut w new_page (\<lambda>buf.
          stamp_checksum (w_xxh w) (ru_write_slot buf child_idx new_child)))) (\<lambda>_. ok new_page))))))"

definition ru_insert :: "world \<Rightarrow> 'x allocator \<Rightarrow> u64 \<Rightarrow> u64 \<Rightarrow> u64 \<Rightarrow> ('x, radix_own, u64) tree_op" where
  "ru_insert w alloc root key value =
     and_then (gets (\<lambda>s. ro_depth (t_own s))) (\<lambda>depth.
     and_then (raise_root RU_MAX_DEPTH ru_capacity (ru_grow w alloc) depth root key) (\<lambda>current_root.
     and_then (gets (\<lambda>s. ro_depth (t_own s))) (\<lambda>depth.
     ru_insert_recursive w alloc depth current_root key value)))"

text \<open>The tail of \<open>delete_recursive\<close>: the copy is complete before the old page is reported.\<close>

definition ru_replace_node :: "world \<Rightarrow> 'x allocator \<Rightarrow> u64 \<Rightarrow> nat \<Rightarrow> u64 \<Rightarrow> ('x, radix_own, u64) tree_op" where
  "ru_replace_node w alloc page idx value =
     and_then (call_alloc alloc) (\<lambda>new_page.
     and_then (on_cache (copy_page w page new_page)) (\<lambda>_.
     and_then (on_cache (pc_with_mut w new_page (\<lambda>buf. stamp_checksum (w_xxh w) (ru_write_slot buf idx value)))) (\<lambda>_.
     and_then (push_freed page) (\<lambda>_. ok new_page))))"

fun ru_delete_recursive :: "world \<Rightarrow> 'x allocator \<Rightarrow> nat \<Rightarrow> u64 \<Rightarrow> u64 \<Rightarrow> ('x, radix_own, u64 \<times> u64) tree_op" where
  "ru_delete_recursive w alloc 0 page key =
     (let idx = unat (key mod word_of_nat SLOTS_PER_PAGE)
      in and_then (on_cache (pc_get w page)) (\<lambda>pbuf.
         and_then (check_type_at pbuf page 0) (\<lambda>_.
         and_then (ru_read_slot pbuf idx) (\<lambda>prev.
         if prev = 0 then ok (page, 0)
         else and_then (ru_replace_node w alloc page idx 0) (\<lambda>new_leaf. ok (new_leaf, prev))))))"
| "ru_delete_recursive w alloc (Suc l) page key =
     (let span = ru_span_at_level (Suc l);
          child_idx = unat (key div span)
      in and_then (on_cache (pc_get w page)) (\<lambda>pbuf.
         and_then (check_type_at pbuf page (Suc l)) (\<lambda>_.
         and_then (ru_read_slot pbuf child_idx) (\<lambda>child.
         if child = 0 then ok (page, 0)
         else and_then (ru_delete_recursive w alloc l child (key mod span)) (\<lambda>(new_child, prev).
              if prev = 0 then ok (page, 0)
              else and_then (ru_replace_node w alloc page child_idx new_child) (\<lambda>new_page. ok (new_page, prev)))))))"

definition ru_delete :: "world \<Rightarrow> 'x allocator \<Rightarrow> u64 \<Rightarrow> u64 \<Rightarrow> ('x, radix_own, u64 \<times> u64) tree_op" where
  "ru_delete w alloc root key =
     and_then (gets (\<lambda>s. ro_depth (t_own s))) (\<lambda>depth.
     if root = PAGE_ID_NONE \<or> ru_beyond depth key then ok (root, 0)
     else ru_delete_recursive w alloc depth root key)"

section \<open>The format\<close>

definition mi_format :: "u64 rt_format" where
  "mi_format = \<lparr>rt_slots = 1021, rt_slot = child_at, rt_absent = 0,
     rt_leaf = (\<lambda>b. b ! 0 = page_type_tag MembershipLeaf), rt_node = (\<lambda>b. b ! 0 = page_type_tag MembershipInterior)\<rparr>"

lemma mi_format_simps [simp]:
  "rt_slots mi_format = 1021" "rt_slot mi_format = child_at" "rt_absent mi_format = 0"
  "rt_leaf mi_format b \<longleftrightarrow> b ! 0 = page_type_tag MembershipLeaf" "rt_node mi_format b \<longleftrightarrow> b ! 0 = page_type_tag MembershipInterior"
  by (simp_all add: mi_format_def)

lemma mi_fmt: "rt_fmt mi_format"
  by (simp add: rt_fmt_def nth_put_uint_other)

lemmas mi_span_pos = rt_fmt_span [OF mi_fmt]

lemma mi_rt_span: "rt_span mi_format l = 1021 ^ Suc l"
  by (simp add: rt_span_def)

lemma ru_span:
  assumes "l \<le> 5"
  shows "unat (ru_span_at_level (Suc l)) = rt_span mi_format l"
proof -
  have "1021 * 1021 ^ l \<le> 1021 * (1021 :: nat) ^ 5" using assms by (intro mult_le_mono2 power_increasing) simp_all
  then have "1021 * 1021 ^ l < (2 :: nat) ^ 64 - 1" by simp
  then show ?thesis by (simp add: ru_span_at_level_def unat_sat_scale mi_rt_span)
qed

lemma ru_beyond_span: "ru_beyond d key \<longleftrightarrow> rt_span mi_format d \<le> unat key"
proof -
  have "(1021 :: nat) ^ Suc d mod 3 = (1021 mod 3) ^ Suc d mod 3" by (rule power_mod [symmetric])
  also have "\<dots> = 1" by simp
  finally have "(1021 :: nat) ^ Suc d mod 3 = 1" .
  moreover have "((2 :: nat) ^ 64 - 1) mod 3 = 0" by simp
  ultimately have "(1021 :: nat) * 1021 ^ d \<noteq> 2 ^ 64 - 1" by (metis power_Suc zero_neq_one)
  then show ?thesis using beyond_scale [of 1021 d key] by (simp add: ru_capacity_def mi_rt_span)
qed

lemma ru_top: "unat (key :: u64) < rt_span mi_format 6"
  using unat_u64_less [of key] by (simp add: mi_rt_span)

lemma ru_digit:
  assumes "l \<le> 5"
  shows "unat (key div ru_span_at_level (Suc l)) = unat key div rt_span mi_format l"
    and "unat (key mod ru_span_at_level (Suc l)) = unat key mod rt_span mi_format l"
  by (simp_all add: unat_div unat_mod ru_span [OF assms])

lemma ru_leaf_index: "unat key < 1021 \<Longrightarrow> unat (key mod (1021 :: u64)) = unat key"
  by (simp add: unat_mod)

section \<open>Reading\<close>

lemma slot_of_body: "page_body buf = b \<Longrightarrow> i < 1021 \<Longrightarrow> slot_at buf i = child_at b i"
  using child_of_body [of buf b i] by (simp add: slot_at_def)

lemma tree_slot_wp:
  assumes "page_ok buf" and "page_body buf = b" and "i < 1021"
  shows "wp (ru_read_slot buf i) Q E s \<longleftrightarrow> Q (child_at b i) s"
  using assms child_of_body [of buf b i] by (simp add: ru_read_slot_def wp_simps)

lemma check_type_at_ok:
  assumes "page_body buf = b" and "if level = 0 then rt_leaf mi_format b else rt_node mi_format b"
  shows "check_type_at buf p level = ok ()"
proof -
  have "buf ! 0 = page_type_tag (expected_type_at level)"
    using assms(2) unfolding expected_type_at_def nth_of_body [OF assms(1) zero_less_numeral] by (simp split: if_splits)
  then show ?thesis by (simp add: check_type_at_def)
qed

lemma ru_children_eq:
  assumes "page_body buf = b"
  shows "ru_children buf = children b"
proof -
  have n: "SLOTS_PER_PAGE = 1021" by simp
  have "map (\<lambda>i. (i, slot_at buf i)) [0..<SLOTS_PER_PAGE] = map (\<lambda>i. (i, child_at b i)) [0..<1021]"
    unfolding n by (rule map_cong) (use slot_of_body [OF assms] in auto)
  then show ?thesis unfolding ru_children_def children_def by (rule arg_cong)
qed

text \<open>The slot a descent ends at.\<close>

definition slot_for :: "(u64 \<rightharpoonup> u8 list) \<Rightarrow> u64 \<Rightarrow> (u64 \<times> nat) option \<Rightarrow> bool" where
  "slot_for B v r \<longleftrightarrow> (case r of None \<Rightarrow> v = 0
     | Some (q, i) \<Rightarrow> \<exists>b. B q = Some b \<and> length b = 8184 \<and> rt_leaf mi_format b \<and> i < 1021 \<and> child_at b i = v)"

lemma ru_descend_wp:
  assumes "pc_inv w c" and W: "world_ok w" and "rt_wf mi_format (page_store w T c) l p"
    and "unat key < rt_span mi_format l" and "l \<le> 6"
  shows "wp (ru_descend w l p key)
    (\<lambda>r d. quiet w c d \<and> slot_for (page_store w T c) (rt_get mi_format (page_store w T c) l p (unat key)) r) (read_fails w c) c"
  using assms(1,3-)
proof (induction l arbitrary: c p key)
  case 0
  then show ?case using ru_leaf_index [of key] by (auto simp: wp_simps quiet_refl slot_for_def)
next
  case (Suc l)
  let ?B = "page_store w T c" and ?i = "unat key div rt_span mi_format l" and ?k = "key mod ru_span_at_level (Suc l)"
  obtain b where b: "?B p = Some b" "length b = 8184" "rt_node mi_format b"
    and kids: "\<And>i. i < 1021 \<Longrightarrow> child_at b i \<noteq> 0 \<Longrightarrow> rt_wf mi_format ?B l (child_at b i)"
    using Suc.prems(2) by auto
  have l5: "l \<le> 5" using Suc.prems(4) by simp
  have i: "?i < 1021" by (rule rt_index [OF Suc.prems(3)])
  have un: "ru_descend w (Suc l) p key = and_then (pc_get w p) (\<lambda>buf. and_then (check_type_at buf p (Suc l)) (\<lambda>_.
      and_then (ru_read_slot buf ?i) (\<lambda>child. if child = 0 then ok None else ru_descend w l child ?k)))"
    using i by (simp add: Let_def ru_digit [OF l5])
  show ?case
    unfolding un wp_and_then [of "pc_get w p"]
  proof (rule wp_mono [OF store_page_wp [OF Suc.prems(1) W b(1)]], goal_cases)
    case (1 buf d)
    then have q: "quiet w c d" and buf: "page_ok buf" "page_body buf = b" by auto
    have Bd: "page_store w T d = ?B" and inv: "pc_inv w d" using quiet_page_store [OF q] q by (simp_all add: quiet_def)
    show ?case
    proof (cases "child_at b ?i = 0")
      case True
      then show ?thesis using q b(1) by (simp add: check_type_at_ok [OF buf(2)] b(3) [simplified] wp_simps tree_slot_wp [OF buf i] Let_def slot_for_def)
    next
      case False
      have get: "rt_get mi_format ?B (Suc l) p (unat key) = rt_get mi_format ?B l (child_at b ?i) (unat ?k)"
        using False b(1) by (simp add: Let_def ru_digit [OF l5])
      have IH: "wp (ru_descend w l (child_at b ?i) ?k) (\<lambda>r e. quiet w d e \<and>
          slot_for ?B (rt_get mi_format ?B l (child_at b ?i) (unat ?k)) r) (read_fails w d) d"
        using Suc.IH [OF inv, of "child_at b ?i" ?k, unfolded Bd] kids [OF i False] l5 by (simp add: ru_digit [OF l5] mi_span_pos)
      show ?thesis
        unfolding get using wp_mono [OF IH, of "\<lambda>r d. quiet w c d \<and> slot_for ?B (rt_get mi_format ?B l (child_at b ?i) (unat ?k)) r" "read_fails w c"] False
        by (simp add: check_type_at_ok [OF buf(2)] b(3) [simplified] wp_simps tree_slot_wp [OF buf i] quiet_trans [OF q] read_fails_later [OF q] del: rt_get.simps)
    qed
  qed
qed

lemma ru_lookup_wp:
  assumes inv: "pc_inv w c" and W: "world_ok w" and wf: "rt_wf mi_format (page_store w T c) depth root"
    and root: "root \<noteq> PAGE_ID_NONE" and depth: "depth \<le> 6"
  shows "wp (ru_lookup w depth root key)
    (\<lambda>r d. quiet w c d \<and> r = rt_entry mi_format (page_store w T c) depth root (unat key)) (read_fails w c) c"
proof (cases "unat key < rt_span mi_format depth")
  case False
  then have "ru_find_leaf w depth root key = ok None" using ru_beyond_span [of depth key] by (simp add: ru_find_leaf_def)
  then show ?thesis using False inv root by (simp add: ru_lookup_def wp_simps rt_entry_def quiet_refl)
next
  case True
  let ?B = "page_store w T c" and ?v = "rt_get mi_format (page_store w T c) depth root (unat key)"
  have find: "ru_find_leaf w depth root key = ru_descend w depth root key"
    using True ru_beyond_span [of depth key] by (auto simp: ru_find_leaf_def)
  have "wp (ru_descend w depth root key) (\<lambda>found. wp (case found of None \<Rightarrow> ok 0
      | Some (leaf, idx) \<Rightarrow> and_then (pc_get w leaf) (\<lambda>buf. and_then (check_type_at buf leaf 0) (\<lambda>_. ru_read_slot buf idx)))
      (\<lambda>r d. quiet w c d \<and> r = ?v) (read_fails w c)) (read_fails w c) c"
  proof (rule wp_mono [OF ru_descend_wp [OF inv W wf True depth]], goal_cases)
    case (1 found d)
    then have q: "quiet w c d" and at: "slot_for ?B ?v found" by auto
    show ?case
    proof (cases found)
      case None
      then show ?thesis using q at by (simp add: wp_simps slot_for_def)
    next
      case (Some qi)
      then obtain leaf idx b where qi: "qi = (leaf, idx)" and b: "?B leaf = Some b" "rt_leaf mi_format b" "idx < 1021" "child_at b idx = ?v"
        using at by (cases qi) (auto simp: slot_for_def)
      have bd: "page_store w T d leaf = Some b" and invd: "pc_inv w d"
        using b(1) quiet_page_store [OF q] q by (simp_all add: quiet_def)
      show ?thesis
        unfolding Some qi option.case prod.case wp_and_then
        by (rule wp_mono [OF store_page_wp [OF invd W bd]])
          (use b(2) in \<open>auto simp: check_type_at_ok tree_slot_wp b(3,4) wp_simps intro: quiet_trans [OF q] read_fails_later [OF q]\<close>)
    qed
  qed
  then show ?thesis using root True by (simp add: ru_lookup_def wp_and_then find rt_entry_def)
qed

text \<open>The keys that are present, in order.\<close>

abbreviation ru_list :: "(u64 \<rightharpoonup> u8 list) \<Rightarrow> nat \<Rightarrow> u64 \<Rightarrow> nat \<Rightarrow> (u64 \<times> u64) list" where
  "ru_list \<equiv> rt_list mi_format (\<lambda>v. v \<noteq> 0)"

lemma slot_entries_list:
  assumes "B p = Some b" and "page_body buf = b"
  shows "slot_entries (sat n) buf = ru_list B 0 p n"
proof -
  have g: "rt_get mi_format B 0 p k = child_at b k" for k using assms(1) by simp
  have n: "SLOTS_PER_PAGE = 1021" by simp
  have "map (\<lambda>i. if slot_at buf i \<noteq> 0 then [(saturating_add (sat n) (word_of_nat i), slot_at buf i)] else []) [0..<1021] =
      map (\<lambda>k. if child_at b k \<noteq> 0 then [(sat (n + k), child_at b k)] else []) [0..<1021]"
    using slot_of_body [OF assms(2)] by (intro map_cong) (auto simp: sat_add sat_small [symmetric])
  then show ?thesis unfolding slot_entries_def rt_list_def g rt_span_0 mi_format_simps(1) n by (rule arg_cong)
qed

lemma ru_iter_wp:
  assumes "pc_inv w c" and W: "world_ok w" and "rt_wf mi_format (page_store w T c) l p" and "l \<le> 6"
  shows "wp (ru_iter_recursive w l p (sat n) acc)
    (\<lambda>r d. quiet w c d \<and> r = acc @ ru_list (page_store w T c) l p n) (read_fails w c) c"
  using assms(1,3-)
proof (induction l arbitrary: c p n acc)
  case 0
  then obtain b where b: "page_store w T c p = Some b" "rt_leaf mi_format b" by auto
  show ?case
    unfolding ru_iter_recursive.simps wp_and_then
    by (rule wp_mono [OF store_page_wp [OF 0(1) W b(1)]])
      (use b(2) in \<open>auto simp: wp_simps check_type_at_ok slot_entries_list [where B = "page_store w T c" and p = p and b = b, OF b(1)]\<close>)
next
  case (Suc l)
  let ?B = "page_store w T c"
  obtain b where b: "?B p = Some b" "rt_node mi_format b"
    and kids: "\<And>i. i < 1021 \<Longrightarrow> child_at b i \<noteq> 0 \<Longrightarrow> rt_wf mi_format ?B l (child_at b i)"
    using Suc.prems(2) by auto
  have l5: "l \<le> 5" using Suc.prems(3) by simp
  show ?case
    unfolding ru_iter_recursive.simps wp_and_then [of "pc_get w p"]
  proof (rule wp_mono [OF store_page_wp [OF Suc.prems(1) W b(1)]], goal_cases)
    case (1 buf d)
    then have q: "quiet w c d" and body: "page_body buf = b" by auto
    have chk: "check_type_at buf p (Suc l) = ok ()" by (rule check_type_at_ok [OF body]) (use b in simp)
    show ?case
      unfolding ru_children_eq [OF body] chk and_then_ok
    proof (rule list_children_wp [where add = append, OF q b(1)], goal_cases)
      case (5 i acc e)
      then show ?case
        using Suc.IH [of e "child_at b i" "n + i * rt_span mi_format l" acc] kids [of i] l5 by (simp add: sat_base ru_span)
    qed (simp_all add: mi_span_pos)
  qed
qed

lemma fold_push_bounded: "fold (push_bounded limit) xs out = out @ take (limit - length out) xs"
proof (induction xs arbitrary: out)
  case (Cons x xs)
  show ?case
  proof (cases "limit - length out")
    case (Suc n)
    then have "\<not> limit \<le> length out" "limit - Suc (length out) = n" by simp_all
    then show ?thesis using Cons [of "out @ [x]"] Suc by (simp add: push_bounded_def [of limit x])
  qed (use Cons [of out] in \<open>simp add: push_bounded_def [of limit x]\<close>)
qed simp

lemma ru_iter_bounded_wp:
  assumes "pc_inv w c" and W: "world_ok w" and "rt_wf mi_format (page_store w T c) l p" and "l \<le> 6"
  shows "wp (ru_iter_bounded_recursive w limit l p (sat n) acc)
    (\<lambda>r d. quiet w c d \<and> r = acc @ take (limit - length acc) (ru_list (page_store w T c) l p n)) (read_fails w c) c"
  using assms(1,3-)
proof (induction l arbitrary: c p n acc)
  case 0
  then obtain b where b: "page_store w T c p = Some b" "rt_leaf mi_format b" by auto
  have "wp (and_then (pc_get w p) (\<lambda>buf. and_then (check_type_at buf p 0) (\<lambda>_. ok (fold (push_bounded limit) (slot_entries (sat n) buf) acc))))
      (\<lambda>r d. quiet w c d \<and> r = acc @ take (limit - length acc) (ru_list (page_store w T c) 0 p n)) (read_fails w c) c"
    unfolding wp_and_then
    by (rule wp_mono [OF store_page_wp [OF 0(1) W b(1)]])
      (use b(2) in \<open>auto simp: wp_simps check_type_at_ok fold_push_bounded slot_entries_list [where B = "page_store w T c" and p = p and b = b, OF b(1)]\<close>)
  then show ?case using 0(1) by (simp add: wp_simps quiet_refl)
next
  case (Suc l)
  let ?B = "page_store w T c"
  obtain b where b: "?B p = Some b" "rt_node mi_format b"
    and kids: "\<And>i. i < 1021 \<Longrightarrow> child_at b i \<noteq> 0 \<Longrightarrow> rt_wf mi_format ?B l (child_at b i)"
    using Suc.prems(2) by auto
  have l5: "l \<le> 5" using Suc.prems(3) by simp
  let ?f = "\<lambda>i child out. if limit \<le> length out then ok out else ru_iter_bounded_recursive w limit l child (next_base (sat n) i (Suc l)) out"
  have "wp (and_then (pc_get w p) (\<lambda>buf. and_then (check_type_at buf p (Suc l)) (\<lambda>_. fold_each (ru_children buf) (\<lambda>(i, child). ?f i child) acc)))
      (\<lambda>r d. quiet w c d \<and> r = acc @ take (limit - length acc) (ru_list ?B (Suc l) p n)) (read_fails w c) c"
    unfolding wp_and_then [of "pc_get w p"]
  proof (rule wp_mono [OF store_page_wp [OF Suc.prems(1) W b(1)]], goal_cases)
    case (1 buf d)
    then have q: "quiet w c d" and body: "page_body buf = b" by auto
    have chk: "check_type_at buf p (Suc l) = ok ()" by (rule check_type_at_ok [OF body]) (use b in simp)
    show ?case
      unfolding ru_children_eq [OF body] chk and_then_ok
    proof (rule list_children_wp [where add = "\<lambda>acc xs. acc @ take (limit - length acc) xs", OF q b(1)], goal_cases)
      case (4 acc xs ys)
      then show ?case by (simp add: min_def)
    next
      case (5 i acc e)
      then show ?case
        using Suc.IH [of e "child_at b i" "n + i * rt_span mi_format l" acc] kids [of i] l5
        by (simp add: sat_base ru_span wp_simps quiet_refl)
    qed (simp_all add: mi_span_pos)
  qed
  then show ?case using Suc.prems(1) by (simp add: wp_simps quiet_refl)
qed

lemma any_each_quiet:
  assumes "pc_inv w c"
    and "\<And>x d. x \<in> set xs \<Longrightarrow> quiet w c d \<Longrightarrow> wp (f x) (\<lambda>r e. quiet w d e \<and> r = h x) (read_fails w d) d"
  shows "wp (any_each xs f) (\<lambda>r d. quiet w c d \<and> r = (\<exists>x \<in> set xs. h x)) (read_fails w c) c"
  using assms
proof (induction xs arbitrary: c)
  case Nil
  then show ?case by (simp add: wp_simps quiet_refl)
next
  case (Cons x xs)
  show ?case
    unfolding any_each.simps wp_and_then
  proof (rule wp_mono [OF Cons.prems(2) [of x c]], simp, rule quiet_refl [OF Cons.prems(1)], goal_cases)
    case (1 a d)
    then have q: "quiet w c d" and a: "a = h x" by auto
    have "wp (any_each xs f) (\<lambda>r e. quiet w d e \<and> r = (\<exists>x \<in> set xs. h x)) (read_fails w d) d"
      by (rule Cons.IH) (use q Cons.prems(2) quiet_trans [OF q] in \<open>auto simp: quiet_def\<close>)
    then have "wp (any_each xs f) (\<lambda>r e. quiet w c e \<and> r = (\<exists>x \<in> set xs. h x)) (read_fails w c) d"
      by (rule wp_mono) (auto intro: quiet_trans [OF q] read_fails_later [OF q])
    then show ?case using a q by (simp add: wp_simps)
  qed
qed

lemma rt_get_nonzero:
  assumes "B p = Some b"
  shows "(\<exists>k < rt_span mi_format (Suc l). rt_get mi_format B (Suc l) p k \<noteq> 0) \<longleftrightarrow>
    (\<exists>c \<in> set (map snd (children b)). \<exists>k < rt_span mi_format l. rt_get mi_format B l c k \<noteq> 0)"
proof
  assume "\<exists>k < rt_span mi_format (Suc l). rt_get mi_format B (Suc l) p k \<noteq> 0"
  then obtain k where k: "k < rt_span mi_format (Suc l)" "rt_get mi_format B (Suc l) p k \<noteq> 0" by blast
  let ?i = "k div rt_span mi_format l"
  have i: "?i < 1021" by (rule rt_index [OF k(1)])
  have c: "child_at b ?i \<noteq> 0" "rt_get mi_format B l (child_at b ?i) (k mod rt_span mi_format l) \<noteq> 0"
    using k(2) assms by (auto simp: Let_def split: if_splits)
  moreover have "child_at b ?i \<in> set (map snd (children b))" using i c(1) by (force simp: children_def)
  ultimately show "\<exists>c \<in> set (map snd (children b)). \<exists>k < rt_span mi_format l. rt_get mi_format B l c k \<noteq> 0"
    using mi_span_pos [of l] mod_less_divisor by blast
next
  assume "\<exists>c \<in> set (map snd (children b)). \<exists>k < rt_span mi_format l. rt_get mi_format B l c k \<noteq> 0"
  then obtain i k where i: "i < 1021" "child_at b i \<noteq> 0" and k: "k < rt_span mi_format l" "rt_get mi_format B l (child_at b i) k \<noteq> 0"
    by (auto simp: children_def)
  have "rt_get mi_format B (Suc l) p (i * rt_span mi_format l + k) \<noteq> 0" using i k assms mi_span_pos [of l] by (simp add: Let_def)
  moreover have "i * rt_span mi_format l + k < rt_span mi_format (Suc l)"
  proof -
    have "i * rt_span mi_format l + k < Suc i * rt_span mi_format l" using k(1) by simp
    also have "\<dots> \<le> 1021 * rt_span mi_format l" using i(1) by (intro mult_le_mono1) simp
    finally show ?thesis by (simp only: rt_span_Suc)
  qed
  ultimately show "\<exists>k < rt_span mi_format (Suc l). rt_get mi_format B (Suc l) p k \<noteq> 0" by blast
qed

lemma any_recursive_wp:
  assumes "pc_inv w c" and W: "world_ok w" and "rt_wf mi_format (page_store w T c) l p"
  shows "wp (any_recursive w l p)
    (\<lambda>r d. quiet w c d \<and> r = (\<exists>k < rt_span mi_format l. rt_get mi_format (page_store w T c) l p k \<noteq> 0)) (read_fails w c) c"
  using assms(1,3)
proof (induction l arbitrary: c p)
  case 0
  then obtain b where b: "page_store w T c p = Some b" "rt_leaf mi_format b" by auto
  have any: "list_ex (\<lambda>i. slot_at buf i \<noteq> 0) [0..<SLOTS_PER_PAGE] \<longleftrightarrow> (\<exists>k < 1021. child_at b k \<noteq> 0)" if "page_body buf = b" for buf
    using slot_of_body [OF that] by (auto simp: list_ex_iff)
  show ?case
    unfolding any_recursive.simps wp_and_then
    by (rule wp_mono [OF store_page_wp [OF 0(1) W b(1)]]) (use b in \<open>auto simp: wp_simps check_type_at_ok any simp del: SLOTS_PER_PAGE_def\<close>)
next
  case (Suc l)
  let ?B = "page_store w T c"
  obtain b where b: "?B p = Some b" "rt_node mi_format b"
    and kids: "\<And>i. i < 1021 \<Longrightarrow> child_at b i \<noteq> 0 \<Longrightarrow> rt_wf mi_format ?B l (child_at b i)"
    using Suc.prems(2) by auto
  show ?case
    unfolding any_recursive.simps wp_and_then [of "pc_get w p"] rt_get_nonzero [of ?B, OF b(1)]
  proof (rule wp_mono [OF store_page_wp [OF Suc.prems(1) W b(1)]], goal_cases)
    case (1 buf d)
    then have q: "quiet w c d" and body: "page_body buf = b" by auto
    have chk: "check_type_at buf p (Suc l) = ok ()" by (rule check_type_at_ok [OF body]) (use b in simp)
    have inv: "pc_inv w d" using q by (simp add: quiet_def)
    have "wp (any_each (map snd (children b)) (any_recursive w l)) (\<lambda>r e. quiet w d e \<and>
        r = (\<exists>x \<in> set (map snd (children b)). \<exists>k < rt_span mi_format l. rt_get mi_format ?B l x k \<noteq> 0)) (read_fails w d) d"
    proof (rule any_each_quiet [OF inv], goal_cases)
      case (1 x e)
      then have "page_store w T e = ?B" "pc_inv w e" "rt_wf mi_format ?B l x"
        using quiet_page_store [OF quiet_trans [OF q 1(2)]] kids by (auto simp: quiet_def children_def)
      then show ?case using Suc.IH [of e x] by simp
    qed
    then show ?case unfolding ru_children_eq [OF body] chk and_then_ok
      by (rule wp_mono) (auto intro: quiet_trans [OF q] read_fails_later [OF q])
  qed
qed

lemma ru_recover_loop_wp:
  assumes "pc_inv w c" and W: "world_ok w" and "rt_wf mi_format (page_store w T c) l p"
    and "rt_spine (page_store w T c) l p" and "n + l \<le> 6"
  shows "wp (ru_recover_loop w n p) (\<lambda>r d. quiet w c d \<and> r = n + l) (read_fails w c) c"
  using assms(1,3-)
proof (induction l arbitrary: c p n)
  case 0
  then obtain b where b: "page_store w T c p = Some b" "rt_leaf mi_format b" by auto
  show ?case
    unfolding ru_recover_loop.simps [of w n p] wp_and_then
  proof (rule wp_mono [OF store_page_wp [OF 0(1) W b(1)]], goal_cases)
    case (1 buf d)
    then have "buf ! 0 = b ! 0" using nth_of_body [of buf b 0] by simp
    then show ?case using 1 b(2) by (simp add: wp_simps)
  qed
next
  case (Suc l)
  let ?B = "page_store w T c"
  obtain b where b: "?B p = Some b" "rt_node mi_format b" and kid: "child_at b 0 \<noteq> 0" "rt_wf mi_format ?B l (child_at b 0)"
    "rt_spine ?B l (child_at b 0)"
    using Suc.prems(2,3) by auto
  show ?case
    unfolding ru_recover_loop.simps [of w n p] wp_and_then
  proof (rule wp_mono [OF store_page_wp [OF Suc.prems(1) W b(1)]], goal_cases)
    case (1 buf d)
    then have q: "quiet w c d" and buf: "page_body buf = b" by auto
    have tags: "buf ! 0 = page_type_tag MembershipInterior" using b nth_of_body [OF buf, of 0] by simp
    have IH: "wp (ru_recover_loop w (n + 1) (child_at b 0)) (\<lambda>r e. quiet w d e \<and> r = n + 1 + l) (read_fails w d) d"
      by (rule Suc.IH) (use q kid Suc.prems(4) quiet_page_store [OF q] in \<open>simp_all add: quiet_def\<close>)
    have "wp (ru_recover_loop w (n + 1) (child_at b 0)) (\<lambda>r d. quiet w c d \<and> r = n + Suc l) (read_fails w c) d"
      by (rule wp_mono [OF IH]) (auto intro: quiet_trans [OF q] read_fails_later [OF q])
    then show ?case using tags slot_of_body [OF buf, of 0] kid(1) Suc.prems(4) by (simp add: wp_simps)
  qed
qed

section \<open>Freeing a subtree\<close>

lemma children_disjoint:
  assumes "B p = Some b" and "rt_tree B (Suc l) p"
  shows "sorted_wrt (\<lambda>c d. rt_pages B l c \<inter> rt_pages B l d = {}) (map snd (children b))"
proof -
  have dis: "rt_pages B l (child_at b i) \<inter> rt_pages B l (child_at b j) = {}"
    if "i < 1021" "j < 1021" "i \<noteq> j" "child_at b i \<noteq> 0" "child_at b j \<noteq> 0" for i j
    using that assms by (fastforce simp: kid_pages_def other_pages_def)
  have "sorted_wrt (\<lambda>x y. fst x < fst y) (children b)"
    unfolding children_def by (rule sorted_wrt_filter) (simp add: sorted_wrt_map)
  then have "sorted_wrt (\<lambda>x y. rt_pages B l (snd x) \<inter> rt_pages B l (snd y) = {}) (children b)"
  proof (rule sorted_wrt_mono_rel [rotated])
    fix x y assume "x \<in> set (children b)" "y \<in> set (children b)" "fst x < fst y"
    then show "rt_pages B l (snd x) \<inter> rt_pages B l (snd y) = {}"
      using dis [of "fst x" "fst y"] by (auto simp: children_def)
  qed
  then show ?thesis by (simp add: sorted_wrt_map)
qed

context page_alloc
begin

definition freed_by :: "u64 set \<Rightarrow> ('x, radix_own) tree_ctx \<Rightarrow> ('x, radix_own) tree_ctx \<Rightarrow> bool" where
  "freed_by P s t \<longleftrightarrow> step {} 0 s t \<and> store t = store s \<and> in_use t = in_use s \<and>
     (\<exists>fs. t_own t = (t_own s)\<lparr>ro_freed := ro_freed (t_own s) @ fs\<rparr> \<and> distinct fs \<and> set fs = P)"

lemma freed_by_refl: "fit k s \<Longrightarrow> freed_by {} s s"
  by (simp add: freed_by_def step_refl)

lemma freed_by_trans:
  assumes "freed_by P s t" and "freed_by Q t u" and "P \<inter> Q = {}"
  shows "freed_by (P \<union> Q) s u"
proof -
  obtain fs gs where "t_own t = (t_own s)\<lparr>ro_freed := ro_freed (t_own s) @ fs\<rparr>" "distinct fs" "set fs = P"
    "t_own u = (t_own t)\<lparr>ro_freed := ro_freed (t_own t) @ gs\<rparr>" "distinct gs" "set gs = Q"
    using assms(1,2) by (auto simp: freed_by_def)
  then have "t_own u = (t_own s)\<lparr>ro_freed := ro_freed (t_own s) @ (fs @ gs)\<rparr> \<and> distinct (fs @ gs) \<and> set (fs @ gs) = P \<union> Q"
    using assms(3) by simp
  moreover have "step {} 0 s u" using assms(1,2) step_trans [of "{}" 0 s t "{}" 0 u] by (simp add: freed_by_def)
  ultimately show ?thesis using assms(1,2) unfolding freed_by_def by metis
qed

lemma freed_by_same:
  "step {} 0 s t \<Longrightarrow> store t = store s \<Longrightarrow> in_use t = in_use s \<Longrightarrow> t_own t = t_own s \<Longrightarrow> freed_by {} s t"
  by (simp add: freed_by_def)

lemma freed_by_push: "freed_by P s t \<Longrightarrow> p \<notin> P \<Longrightarrow> freed_by (insert p P) s (t\<lparr>t_own := (t_own t)\<lparr>ro_freed := ro_freed (t_own t) @ [p]\<rparr>\<rparr>)"
  using freed_by_trans [of P s t "{p}" "t\<lparr>t_own := (t_own t)\<lparr>ro_freed := ro_freed (t_own t) @ [p]\<rparr>\<rparr>"]
  by (auto simp: freed_by_def step_def)

lemma for_each_freed:
  assumes "fit 0 s" and "sorted_wrt (\<lambda>x y. G x \<inter> G y = {}) xs"
    and "\<And>x t. x \<in> set xs \<Longrightarrow> fit 0 t \<Longrightarrow> store t = store s \<Longrightarrow> wp (f x) (\<lambda>_. freed_by (G x) t) (stuck 0 t) t"
  shows "wp (for_each xs f) (\<lambda>_. freed_by (\<Union>x \<in> set xs. G x) s) (stuck 0 s) s"
  using assms
proof (induction xs arbitrary: s)
  case Nil
  then show ?case by (simp add: wp_simps freed_by_refl)
next
  case (Cons x xs)
  show ?case
    unfolding for_each.simps wp_and_then
  proof (rule wp_mono [OF Cons.prems(3) [of x s]], simp, rule Cons.prems(1), rule refl, goal_cases)
    case (1 a t)
    have f: "fit 0 t" and st: "step {} 0 s t" and same: "store t = store s"
      using 1 step_fit [of "{}" 0 s t 0] Cons.prems(1) by (auto simp: freed_by_def)
    have "wp (for_each xs f) (\<lambda>_. freed_by (\<Union>x \<in> set xs. G x) t) (stuck 0 t) t"
      by (rule Cons.IH [OF f]) (use Cons.prems(2,3) same in auto)
    moreover have "G x \<inter> (\<Union>x \<in> set xs. G x) = {}" using Cons.prems(2) by auto
    ultimately show ?case using freed_by_trans [OF 1] stuck_later [OF st, of 0] by (auto elim!: wp_mono)
  qed
qed

lemma free_subtree_wp:
  assumes "fit 0 s" and "rt_wf mi_format (store s) l p" and "rt_tree (store s) l p"
  shows "wp (free_subtree w l p) (\<lambda>_. freed_by (rt_pages (store s) l p) s) (stuck 0 s) s"
  using assms
proof (induction l arbitrary: s p)
  case 0
  then obtain b where b: "store s p = Some b" "rt_leaf mi_format b" by auto
  have "wp (on_cache (pc_get w p)) (\<lambda>buf. wp (and_then (check_type_at buf p 0) (\<lambda>_. push_freed p)) (\<lambda>_. freed_by {p} s) (stuck 0 s)) (stuck 0 s) s"
    by (rule wp_mono [OF read_wp [OF 0(1) b(1)]])
      (use b(2) freed_by_push [OF freed_by_same] in \<open>auto simp: check_type_at_ok wp_simps\<close>)
  then show ?case using root_not_none [OF 0(1) b(1)] by (simp add: wp_and_then)
next
  case (Suc l)
  obtain b where b: "store s p = Some b" "rt_node mi_format b"
    and kids: "\<And>i. i < 1021 \<Longrightarrow> child_at b i \<noteq> 0 \<Longrightarrow> rt_wf mi_format (store s) l (child_at b i)"
    using Suc.prems(2) by auto
  let ?P = "\<Union>c \<in> set (map snd (children b)). rt_pages (store s) l c"
  have pages: "rt_pages (store s) (Suc l) p = insert p ?P"
    using b(1) by (force simp: children_def rt_pages_kids kid_pages_def split: if_splits)
  have p: "p \<notin> ?P" using Suc.prems(3) b(1) by (force simp: children_def kid_pages_def)
  have loop: "wp (for_each (map snd (children b)) (free_subtree w l)) (\<lambda>_. freed_by ?P t) (stuck 0 t) t"
    if t: "fit 0 t" "store t = store s" for t
  proof (rule for_each_freed [OF t(1) children_disjoint [OF b(1) Suc.prems(3)]], goal_cases)
    case (1 c u)
    then obtain i where i: "i < 1021" "c = child_at b i" "c \<noteq> 0" by (auto simp: children_def)
    have "rt_tree (store s) l c" using Suc.prems(3) b(1) i by auto
    then show ?case using Suc.IH [of u c] 1 t(2) kids [OF i(1)] i by simp
  qed
  show ?case
    unfolding free_subtree.simps if_not_P [OF root_not_none [OF Suc.prems(1) b(1)]] wp_and_then [of "on_cache _"] pages
  proof (rule wp_mono [OF read_wp [OF Suc.prems(1) b(1)]], goal_cases)
    case (1 buf t)
    then have t: "step {} 0 s t" "store t = store s" "in_use t = in_use s" "t_own t = t_own s" and body: "page_body buf = b" by auto
    have ft: "fit 0 t" and bt: "store t p = Some b" using step_fit [OF t(1), of 0] Suc.prems(1) t(2) b(1) by simp_all
    have "wp (on_cache (pc_get w p)) (\<lambda>buf. wp (for_each (map snd (ru_children buf)) (free_subtree w l))
        (\<lambda>_ u. freed_by (insert p ?P) s (u\<lparr>t_own := (t_own u)\<lparr>ro_freed := ro_freed (t_own u) @ [p]\<rparr>\<rparr>)) (stuck 0 s)) (stuck 0 s) t"
    proof (rule wp_mono [OF read_wp [OF ft bt]], goal_cases)
      case (1 buf2 u)
      then have u: "step {} 0 t u" "store u = store s" "in_use u = in_use s" "t_own u = t_own s" and body: "page_body buf2 = b" using t by auto
      have su: "step {} 0 s u" and fu: "fit 0 u" using step_trans [OF t(1) u(1)] step_fit [OF u(1), of 0] ft by simp_all
      note f = freed_by_same [OF su u(2-4)]
      show ?case
        unfolding ru_children_eq [OF body]
        by (rule wp_mono [OF loop [OF fu u(2)]])
          (use freed_by_push [OF freed_by_trans [OF f]] p stuck_later [OF su, of 0] in auto)
    qed (use stuck_later [OF t(1), of 0] in auto)
    then show ?case by (simp add: wp_simps check_type_at_ok [OF body] b(2) [simplified])
  qed
qed

end

section \<open>Inserting and deleting\<close>

definition ru_blank_body :: "page_type \<Rightarrow> u8 list" where
  "ru_blank_body ty = (replicate 8184 0)[0 := page_type_tag ty, 1 := current_version ty]"

lemma ru_blank_page_body:
  assumes "page_ok buf"
  shows "page_ok (ru_blank ty buf)" and "page_body (ru_blank ty buf) = ru_blank_body ty"
  using assms by (simp_all add: ru_blank_def ru_blank_body_def take_update_swap)

lemma ru_blank_reads:
  "length (ru_blank_body ty) = 8184" "ru_blank_body ty ! 0 = page_type_tag ty" "i < 1021 \<Longrightarrow> child_at (ru_blank_body ty) i = 0"
  by (simp_all add: ru_blank_body_def child_at_def byte_simps get_uint_replicate)

lemma ru_blank_tree:
  assumes "B q = Some (ru_blank_body (expected_type_at l))" and "q \<noteq> 0"
  shows "rt_ok mi_format B l q \<and> rt_pages B l q = {q} \<and> (\<forall>k < rt_span mi_format l. rt_get mi_format B l q k = rt_absent mi_format)"
proof -
  let ?b = "ru_blank_body (expected_type_at l)"
  have "if l = 0 then rt_leaf mi_format ?b \<and> (\<forall>k < rt_slots mi_format. rt_slot mi_format ?b k = rt_absent mi_format) else rt_node mi_format ?b"
    using ru_blank_reads by (auto simp: expected_type_at_def)
  note b = rt_blank [where K = mi_format and B = B and p = q and b = ?b and l = l, OF assms(1) ru_blank_reads(3) assms(2) ru_blank_reads(1) this]
  show ?thesis using b by blast
qed

lemma ru_put_slot:
  assumes "i < 1021" and "page_ok buf"
  shows "page_ok (stamp_checksum xxh (ru_write_slot buf i v))"
    and "page_body (stamp_checksum xxh (ru_write_slot buf i v)) = put_u64 (16 + i * 8) v (page_body buf)"
    and "verify_checksum xxh (stamp_checksum xxh (ru_write_slot buf i v))"
  using put_child [OF assms, of xxh v] by (simp_all add: ru_write_slot_def)

lemma ru_put_reads:
  assumes "length b = 8184" and "i < 1021" and "rt_leaf mi_format b"
  shows "length (put_u64 (16 + i * 8) v b) = 8184" and "rt_leaf mi_format (put_u64 (16 + i * 8) v b)"
    and "k < 1021 \<Longrightarrow> child_at (put_u64 (16 + i * 8) v b) k = (if k = i then v else child_at b k)"
  using assms child_at_put [of b i k v] by (simp_all add: nth_put_uint_other)

context page_alloc
begin

lemma ru_init_wp:
  assumes "fit 1 s"
  shows "wp (ru_init_page w ty alloc) (\<lambda>q. fresh_page s q (ru_blank_body ty)) (stuck 1 s) s"
  using fresh_init_wp [OF assms, of "\<lambda>buf. stamp_checksum (w_xxh w) (ru_blank ty buf)" "ru_blank_body ty"] ru_blank_page_body
  by (simp add: ru_init_page_def wp_simps)

lemma ru_copy_node_wp:
  assumes fit: "fit 1 s" and b: "store s p = Some b" "if level = 0 then rt_leaf mi_format b else rt_node mi_format b"
  shows "wp (ru_copy_node w alloc p level) (\<lambda>q t. \<exists>u. opened s q b u \<and> t = u\<lparr>t_own := pushed p (t_own s)\<rparr>) (stuck 1 s) s"
  unfolding ru_copy_node_def wp_and_then [of "on_cache (pc_get w p)"]
proof (rule wp_mono [OF read_wp [OF fit b(1)]], goal_cases)
  case (1 buf t)
  then have t: "step {} 0 s t" "store t = store s" "in_use t = in_use s" "t_own t = t_own s" and body: "page_body buf = b" by auto
  have ft: "fit 1 t" and bt: "store t p = Some b" using step_fit [OF t(1), of 1] fit t(2) b(1) by simp_all
  have same: "opened s q b u" if "opened t q b u" for q u
    using that t step_trans [OF t(1), of "{q}" 1 u] by (simp add: opened_def)
  show ?case
    unfolding check_type_at_ok [OF body b(2)] and_then_ok
    by (rule wp_mono [OF copy_push_wp [OF ft bt]]) (use same t(4) stuck_later [OF t(1), of 1] in auto)
next
  case (2 e t)
  then show ?case by (rule stuck_mono) simp
qed

lemma ru_insert_wp_rec:
  assumes "fit (2 * l + 1) s" and "rt_ok mi_format (store s) l p" and "unat key < rt_span mi_format l" and "l \<le> 6"
  shows "wp (ru_insert_recursive w alloc l p key v) (inserted mi_format l p (unat key) v s) (stuck (2 * l + 1) s) s"
  using assms
proof (induction l arbitrary: s p key)
  case 0
  obtain b where b: "store s p = Some b" "length b = 8184" "rt_leaf mi_format b" using 0(2) by (auto simp: rt_ok_def)
  let ?f = "\<lambda>buf. stamp_checksum (w_xxh w) (ru_write_slot buf (unat key) v)"
  have h: "unat key < 1021" and f: "fit 1 s" using 0 by simp_all
  have "wp (ru_copy_node w alloc p 0) (\<lambda>q. wp (on_cache (pc_with_mut w q ?f)) (\<lambda>_. inserted mi_format 0 p (unat key) v s q) (stuck 1 s)) (stuck 1 s) s"
    by (rule insert_leaf_wp [OF f 0(2) b(1) ru_copy_node_wp [OF f b(1)], where b' = "put_u64 (16 + unat key * 8) v b"])
      (use b(3) ru_put_slot [OF h] ru_put_reads [OF b(2) h b(3)] in auto)
  then show ?case using h by (simp add: wp_simps Let_def ru_leaf_index)
next
  case (Suc l)
  have l5: "l \<le> 5" using Suc.prems(4) by simp
  obtain b where b: "store s p = Some b" "length b = 8184" "rt_node mi_format b" using Suc.prems(2) by (auto simp: rt_ok_def)
  let ?i = "unat key div rt_span mi_format l" and ?h = "key mod ru_span_at_level (Suc l)"
  have i: "?i < 1021" by (rule rt_index [OF Suc.prems(3)])
  have ty: "(if Suc l = 1 then MembershipLeaf else MembershipInterior) = expected_type_at l" by (simp add: expected_type_at_def)
  have un: "ru_insert_recursive w alloc (Suc l) p key v = and_then (ru_copy_node w alloc p (Suc l)) (\<lambda>q.
      and_then (on_cache (pc_get w q)) (\<lambda>buf. and_then (slice_u64 (16 + ?i * 8) buf) (\<lambda>child.
      and_then (if child = 0 then ru_init_page w (expected_type_at l) alloc else ok child) (\<lambda>a.
      and_then (ru_insert_recursive w alloc l a ?h v) (\<lambda>c.
      and_then (on_cache (pc_with_mut w q (\<lambda>buf. stamp_checksum (w_xxh w) (put_u64 (16 + ?i * 8) c buf)))) (\<lambda>_. ok q))))))"
    unfolding ru_insert_recursive.simps ty by (simp add: Let_def ru_digit [OF l5] ru_read_slot_def ru_write_slot_def)
  show ?case
    unfolding un
  proof (rule insert_node_wp [where bb = "ru_blank_body (expected_type_at l)", OF mi_fmt Suc.prems(1,2) b i refl ru_copy_node_wp [OF _ b(1)]], goal_cases)
    case (3 t)
    then show ?case by (rule ru_init_wp)
  next
    case (4 B a)
    then show ?case by (rule ru_blank_tree)
  next
    case (5 t a)
    have "unat ?h < rt_span mi_format l" by (simp add: ru_digit [OF l5] mi_span_pos)
    then show ?case using Suc.IH [OF 5, of ?h] l5 by (simp add: ru_digit [OF l5])
  qed (use b(3) in auto)
qed

lemma ru_grow_wp:
  assumes fit: "fit 1 s" and ok: "rt_ok mi_format (store s) l p" and depth: "ro_depth (t_own s) = l"
  shows "wp (ru_grow w alloc p) (raised mi_format l p s (Suc l)) (stuck 1 s) s"
proof -
  let ?b = "ru_blank_body MembershipInterior"
  let ?f = "\<lambda>buf. stamp_checksum (w_xxh w) (ru_write_slot (ru_blank MembershipInterior buf) 0 p)"
  have node: "rt_node mi_format (put_u64 16 p ?b)" using ru_blank_reads(1,2) [of MembershipInterior] by (simp add: nth_put_uint_other)
  have f: "page_ok (?f buf) \<and> page_body (?f buf) = put_u64 16 p ?b \<and> verify_checksum (w_xxh w) (?f buf)" if "page_ok buf" for buf
    using ru_blank_page_body [OF that] by (simp add: body_put ru_write_slot_def)
  show ?thesis using grown_root_wp [OF fit ok depth ru_blank_reads(1) node ru_blank_reads(3) f]
    by (simp add: ru_grow_def wp_simps set_own_def ru_set_depth_def)
qed

lemma ru_insert_wp:
  assumes fit: "fit 19 s" and ok: "rt_ok mi_format (store s) l p" and depth: "ro_depth (t_own s) = l" "l \<le> 6"
  shows "wp (ru_insert w alloc p key v) (\<lambda>q t. \<exists>m. updated mi_format l p (unat key) v s m q t) (stuck 19 s) s"
proof -
  have cap: "unat key < rt_span mi_format l" if "\<not> ru_capacity l \<le> key" for l
    using that ru_beyond_span [of l key] by (cases "ru_capacity l = - 1") auto
  show ?thesis
    unfolding ru_insert_def wp_and_then [of "gets _"] wp_gets depth(1) wp_and_then [of "raise_root _ _ _ _ _ _"] RU_MAX_DEPTH_def
    by (rule insert_radix_wp [OF fit ok depth ru_grow_wp cap ru_top ru_insert_wp_rec, unfolded wp_and_then wp_gets])
qed

abbreviation ru_removed :: "nat \<Rightarrow> u64 \<Rightarrow> nat \<Rightarrow> ('x, radix_own) tree_ctx \<Rightarrow> u64 \<times> u64 \<Rightarrow> ('x, radix_own) tree_ctx \<Rightarrow> bool" where
  "ru_removed \<equiv> removed mi_format (\<lambda>v. v) (\<lambda>v. v = 0)"

lemma ru_replace_wp:
  assumes "fit 1 s" and "store s p = Some b" and "i < 1021"
  shows "wp (ru_replace_node w alloc p i v) (edited p (put_u64 (16 + i * 8) v b) s) (stuck 1 s) s"
  unfolding ru_replace_node_def by (rule edit_push_wp [OF assms(1,2)]) (use ru_put_slot [OF assms(3)] in auto)

lemma ru_delete_leaf_wp:
  assumes fit: "fit 1 s" and ok: "rt_ok mi_format (store s) 0 p" and h: "unat key < 1021"
  shows "wp (ru_delete_recursive w alloc 0 p key) (ru_removed 0 p (unat key) s) (stuck 1 s) s"
proof -
  obtain b where b: "store s p = Some b" "length b = 8184" "rt_leaf mi_format b" using ok by (auto simp: rt_ok_def)
  let ?i = "unat key"
  have un: "ru_delete_recursive w alloc 0 p key = and_then (on_cache (pc_get w p)) (\<lambda>buf. and_then (check_type_at buf p 0) (\<lambda>_.
      and_then (ru_read_slot buf ?i) (\<lambda>prev. if prev = 0 then ok (p, prev)
        else and_then (ru_replace_node w alloc p ?i 0) (\<lambda>q. ok (q, prev)))))"
    using h by (simp add: ru_leaf_index Let_def cong: if_cong)
  show ?thesis
    unfolding un wp_and_then [of "on_cache (pc_get w p)"]
  proof (rule wp_mono [OF read_wp [OF fit b(1)]], goal_cases)
    case (1 buf t)
    then have buf: "page_ok buf" "page_body buf = b" and t: "step {} 0 s t" "store t = store s" "in_use t = in_use s" "t_own t = t_own s" by auto
    have ft: "fit 1 t" and bt: "store t p = Some b" and okt: "rt_ok mi_format (store t) 0 p"
      using step_fit [OF t(1), of 1] fit t(2) b(1) ok by simp_all
    have "wp (if child_at b ?i = 0 then ok (p, child_at b ?i) else and_then (ru_replace_node w alloc p ?i 0) (\<lambda>q. ok (q, child_at b ?i)))
        (ru_removed 0 p ?i t) (stuck 1 t) t"
      by (rule removed_leaf_wp [where K = mi_format and gone = "\<lambda>v. v = 0" and f = "\<lambda>v. v", OF okt bt _ ft, where b' = "put_u64 (16 + ?i * 8) 0 b"])
        (use h ru_put_reads [OF b(2) h b(3)] ru_replace_wp [OF ft bt h] in simp_all)
    then have main: "wp (if child_at b ?i = 0 then ok (p, child_at b ?i) else and_then (ru_replace_node w alloc p ?i 0) (\<lambda>q. ok (q, child_at b ?i)))
        (ru_removed 0 p ?i s) (stuck 1 s) t"
      by (rule wp_mono) (use removed_same [OF t] stuck_later [OF t(1), of 1] in auto)
    have leaf: "if (0 :: nat) = 0 then rt_leaf mi_format b else rt_node mi_format b" using b(3) by simp
    show ?case
      unfolding check_type_at_ok [OF buf(2) leaf] and_then_ok wp_and_then [of "ru_read_slot _ _"] tree_slot_wp [OF buf h] by (rule main)
  next
    case (2 e t)
    then show ?case by (rule stuck_mono) simp
  qed
qed

lemma ru_delete_wp_rec:
  assumes "fit (l + 1) s" and "rt_ok mi_format (store s) l p" and "unat key < rt_span mi_format l" and "l \<le> 6"
  shows "wp (ru_delete_recursive w alloc l p key) (ru_removed l p (unat key) s) (stuck (l + 1) s) s"
  using assms
proof (induction l arbitrary: s p key)
  case 0
  then show ?case using ru_delete_leaf_wp [of s p key] by simp
next
  case (Suc l)
  have l5: "l \<le> 5" using Suc.prems(4) by simp
  obtain b where b: "store s p = Some b" "length b = 8184" "rt_node mi_format b" using Suc.prems(2) by (auto simp: rt_ok_def)
  let ?i = "unat key div rt_span mi_format l" and ?h = "key mod ru_span_at_level (Suc l)"
  have i: "?i < 1021" by (rule rt_index [OF Suc.prems(3)])
  have un: "ru_delete_recursive w alloc (Suc l) p key = and_then (on_cache (pc_get w p)) (\<lambda>buf.
      and_then (check_type_at buf p (Suc l)) (\<lambda>_. and_then (slice_u64 (16 + ?i * 8) buf) (\<lambda>child. if child = 0 then ok (p, 0)
      else and_then (ru_delete_recursive w alloc l child ?h) (\<lambda>(c, prev). if prev = 0 then ok (p, prev)
        else and_then (ru_replace_node w alloc p ?i c) (\<lambda>q. ok (q, prev))))))"
    by (simp add: Let_def ru_digit [OF l5] ru_read_slot_def cong: if_cong)
  show ?case
    unfolding un
  proof (rule remove_node_wp [where gone = "\<lambda>v. v = 0" and f = "\<lambda>v. v", OF mi_fmt Suc.prems(1,2) b i refl], goal_cases)
    case (3 buf)
    then show ?case by (rule check_type_at_ok) (use b(3) in simp)
  next
    case (4 c t)
    then show ?case using ru_replace_wp i by blast
  next
    case (5 t)
    have "unat ?h < rt_span mi_format l" by (simp add: ru_digit [OF l5] mi_span_pos)
    then show ?case using Suc.IH [OF 5, of ?h] l5 by (simp add: ru_digit [OF l5])
  qed simp_all
qed

text \<open>Deleting: the value that was there; the tree without it, or the very same tree when there was none.\<close>

lemma ru_delete_wp:
  assumes fit: "fit 7 s" and ok: "rt_ok mi_format (store s) l p" and depth: "ro_depth (t_own s) = l" "l \<le> 6"
  shows "wp (ru_delete w alloc p key)
    (\<lambda>(q, old) t. old = rt_entry mi_format (store s) l p (unat key) \<and> step {} 7 s t \<and>
       (if old = 0 then q = p \<and> store t = store s \<and> in_use t = in_use s \<and> t_own t = t_own s
        else moved mi_format l p s q t \<and> (\<forall>k. rt_entry mi_format (store t) l q k =
          (if k = unat key then 0 else rt_entry mi_format (store s) l p k))))
    (stuck 7 s) s"
proof -
  have "p \<noteq> PAGE_ID_NONE" using ok rt_wf_root [of mi_format "store s" l p] root_not_none [OF fit] by (auto simp: rt_ok_def)
  then have un: "ru_delete w alloc p key = and_then (gets (\<lambda>s. ro_depth (t_own s))) (\<lambda>d.
      if ru_beyond d key then ok (p, 0) else ru_delete_recursive w alloc d p key)" by (simp add: ru_delete_def)
  show ?thesis
  proof (cases "unat key < rt_span mi_format l")
    case False
    then show ?thesis
      using ru_beyond_span [of l key] depth step_weaken [OF step_refl [OF fit, of "{}"], of "{}" 7]
      by (simp add: un wp_simps rt_entry_def)
  next
    case True
    have f: "fit (l + 1) s" by (rule fit_mono [OF fit]) (use depth in simp)
    have "wp (ru_delete_recursive w alloc l p key) (\<lambda>(q, old) t. old = rt_entry mi_format (store s) l p (unat key) \<and> step {} 7 s t \<and>
       (if old = 0 then q = p \<and> store t = store s \<and> in_use t = in_use s \<and> t_own t = t_own s
        else moved mi_format l p s q t \<and> (\<forall>k. rt_entry mi_format (store t) l q k =
          (if k = unat key then 0 else rt_entry mi_format (store s) l p k)))) (stuck 7 s) s"
    proof (rule wp_mono [OF ru_delete_wp_rec [OF f ok True depth(2)]], goal_cases)
      case (1 r t)
      then have "step {} (l + 1) s t" by (simp add: removed_def split: prod.splits)
      then have "step {} 7 s t" by (rule step_weaken) (use depth in auto)
      then show ?case using 1 True by (auto simp: removed_def rt_entry_def split: prod.splits if_splits)
    next
      case (2 e t)
      then show ?case by (rule stuck_mono) (use depth in simp)
    qed
    then show ?thesis using True ru_beyond_span [of l key] depth by (auto simp: un wp_simps)
  qed
qed

end

end
