(* ===== verification/Membership_Index.thy ===== *)
theory Membership_Index
  imports Radix_U64
begin

text \<open>
  The membership index of \<open>src/membership_index.rs\<close>: an outer radix tree from tags to inner radix
  trees, each holding the handles that carry the tag. A slot of the outer tree packs the root page
  and the depth of the inner one into a word. The index promises a set of handles for every tag.
\<close>

unbundle bit_operations_syntax

section \<open>Definitions\<close>

definition INNER_ROOT_BITS :: nat where [simp]: "INNER_ROOT_BITS = 58"
definition INNER_ROOT_MASK :: u64 where "INNER_ROOT_MASK = push_bit INNER_ROOT_BITS 1 - 1"

definition pack_inner :: "u64 \<Rightarrow> nat \<Rightarrow> u64" where
  "pack_inner root depth = push_bit INNER_ROOT_BITS (word_of_nat depth) OR root"

definition unpack_inner :: "u64 \<Rightarrow> u64 \<times> nat" where
  "unpack_inner packed = (packed AND INNER_ROOT_MASK, unat (drop_bit INNER_ROOT_BITS packed))"

text \<open>
  The index itself is its outer depth, kept where the trees keep theirs. \<open>with_radix d m\<close> runs \<open>m\<close> on
  a tree \<open>RadixU64 { depth: d }\<close> of its own and returns the depth it ends with.
\<close>

definition with_radix :: "nat \<Rightarrow> ('x, radix_own, 'a) tree_op \<Rightarrow> ('x, radix_own, 'a \<times> nat) tree_op" where
  "with_radix d m = on_field (\<lambda>s. s\<lparr>t_own := (t_own s)\<lparr>ro_depth := d\<rparr>\<rparr>)
     (\<lambda>t s. t\<lparr>t_own := (t_own t)\<lparr>ro_depth := ro_depth (t_own s)\<rparr>\<rparr>)
     (and_then m (\<lambda>a. and_then (gets (\<lambda>s. ro_depth (t_own s))) (\<lambda>d. ok (a, d))))"

definition set_outer_depth :: "nat \<Rightarrow> ('x, radix_own, unit) tree_op" where
  "set_outer_depth depth = ru_set_depth (\<lambda>_. depth)"

definition mi_insert :: "world \<Rightarrow> 'x allocator \<Rightarrow> u64 \<Rightarrow> u32 \<Rightarrow> u64 \<Rightarrow> ('x, radix_own, u64) tree_op" where
  "mi_insert w alloc outer_root tag handle =
     and_then (gets (\<lambda>s. ro_depth (t_own s))) (\<lambda>outer.
     and_then (if outer_root = PAGE_ID_NONE then with_radix outer (ru_create_root w alloc)
               else ok (outer_root, outer)) (\<lambda>(root, outer).
     and_then (on_cache (ru_lookup w outer root (ucast tag))) (\<lambda>packed.
     let (inner_root, inner) = unpack_inner packed
     in if inner_root \<noteq> 0 \<and> RU_MAX_DEPTH < inner then err (CorruptPage inner_root)
        else and_then (if inner_root = 0 then with_radix inner (ru_create_root w alloc)
                       else ok (inner_root, inner)) (\<lambda>(inner_root, inner).
             and_then (with_radix inner (ru_insert w alloc inner_root handle 1)) (\<lambda>(new_inner_root, inner).
             and_then (with_radix outer (ru_insert w alloc root (ucast tag) (pack_inner new_inner_root inner)))
               (\<lambda>(new_outer_root, outer).
             and_then (set_outer_depth outer) (\<lambda>_. ok new_outer_root)))))))"

definition mi_remove :: "world \<Rightarrow> 'x allocator \<Rightarrow> u64 \<Rightarrow> u32 \<Rightarrow> u64 \<Rightarrow> ('x, radix_own, u64 \<times> bool) tree_op" where
  "mi_remove w alloc outer_root tag handle =
     (if outer_root = PAGE_ID_NONE then ok (outer_root, False)
      else and_then (gets (\<lambda>s. ro_depth (t_own s))) (\<lambda>outer.
           and_then (on_cache (ru_lookup w outer outer_root (ucast tag))) (\<lambda>packed.
           let (inner_root, inner) = unpack_inner packed
           in if inner_root \<noteq> 0 \<and> RU_MAX_DEPTH < inner then err (CorruptPage inner_root)
              else if inner_root = 0 then ok (outer_root, False)
              else and_then (with_radix inner (ru_delete w alloc inner_root handle)) (\<lambda>((new_inner_root, prev), inner).
                   if prev = 0 then ok (outer_root, False)
                   else and_then (on_cache (any_present w inner new_inner_root)) (\<lambda>present.
                        and_then (if present
                                  then with_radix outer (ru_insert w alloc outer_root (ucast tag) (pack_inner new_inner_root inner))
                                  else and_then (free_subtree w inner new_inner_root) (\<lambda>_.
                                       and_then (with_radix outer (ru_delete w alloc outer_root (ucast tag)))
                                         (\<lambda>((r, _), outer). ok (r, outer)))) (\<lambda>(new_outer_root, outer).
                        and_then (set_outer_depth outer) (\<lambda>_. ok (new_outer_root, True))))))))"

text \<open>The head the three readers share: the inner tree of a tag.\<close>

definition mi_inner :: "world \<Rightarrow> nat \<Rightarrow> u64 \<Rightarrow> u32 \<Rightarrow> (u64 \<times> nat) cache_op" where
  "mi_inner w outer outer_root tag =
     and_then (ru_lookup w outer outer_root (ucast tag)) (\<lambda>packed.
     let (inner_root, inner) = unpack_inner packed
     in if inner_root \<noteq> 0 \<and> RU_MAX_DEPTH < inner then err (CorruptPage inner_root) else ok (inner_root, inner))"

definition mi_contains :: "world \<Rightarrow> nat \<Rightarrow> u64 \<Rightarrow> u32 \<Rightarrow> u64 \<Rightarrow> bool cache_op" where
  "mi_contains w outer outer_root tag handle =
     (if outer_root = PAGE_ID_NONE then ok False
      else and_then (mi_inner w outer outer_root tag) (\<lambda>(inner_root, inner).
           if inner_root = 0 then ok False
           else and_then (ru_lookup w inner inner_root handle) (\<lambda>v. ok (v \<noteq> 0))))"

definition handles_for_tag :: "world \<Rightarrow> nat \<Rightarrow> u64 \<Rightarrow> u32 \<Rightarrow> u64 list cache_op" where
  "handles_for_tag w outer outer_root tag =
     (if outer_root = PAGE_ID_NONE then ok []
      else and_then (mi_inner w outer outer_root tag) (\<lambda>(inner_root, inner).
           if inner_root = 0 then ok []
           else and_then (ru_iter w inner inner_root) (\<lambda>xs. ok (map fst xs))))"

definition handles_for_tag_bounded :: "world \<Rightarrow> nat \<Rightarrow> u64 \<Rightarrow> u32 \<Rightarrow> nat \<Rightarrow> u64 list cache_op" where
  "handles_for_tag_bounded w outer outer_root tag limit =
     (if outer_root = PAGE_ID_NONE then ok []
      else and_then (mi_inner w outer outer_root tag) (\<lambda>(inner_root, inner).
           if inner_root = 0 then ok []
           else and_then (ru_iter_bounded w inner inner_root limit) (\<lambda>xs. ok (map fst xs))))"

section \<open>Packing\<close>

lemma bit_above: "unat (x :: u64) < 2 ^ k \<Longrightarrow> k \<le> n \<Longrightarrow> \<not> bit x n"
proof -
  assume "unat x < 2 ^ k" and "k \<le> n"
  moreover have "(2 :: nat) ^ k \<le> 2 ^ n" using \<open>k \<le> n\<close> by (rule power_increasing) simp
  ultimately have "unat x < 2 ^ n" by linarith
  then have "\<not> bit (unat x) n" by (simp add: bit_iff_odd)
  then show "\<not> bit x n" by (simp add: bit_unsigned_iff)
qed

lemma unpack_pack:
  assumes "unat root < 2 ^ 58" and "depth < 64"
  shows "unpack_inner (pack_inner root depth) = (root, depth)"
proof -
  have r: "\<not> bit root n" if "58 \<le> n" for n by (rule bit_above [OF assms(1) that])
  have d: "unat (word_of_nat depth :: u64) = depth" using assms(2) by (simp add: unat_of_nat)
  have dn: "\<not> bit (word_of_nat depth :: u64) n" if "6 \<le> n" for n by (rule bit_above [OF _ that]) (use assms(2) d in simp)
  have m: "INNER_ROOT_MASK = mask 58" by (simp add: INNER_ROOT_MASK_def mask_eq_exp_minus_1)
  have "pack_inner root depth AND INNER_ROOT_MASK = root"
    by (rule bit_word_eqI) (use r in \<open>auto simp: m pack_inner_def bit_simps not_le not_less [symmetric]\<close>)
  moreover have "drop_bit 58 (pack_inner root depth) = word_of_nat depth"
  proof (rule bit_word_eqI)
    fix n assume "n < LENGTH(64)"
    have "bit (drop_bit 58 (pack_inner root depth)) n \<longleftrightarrow> n < 6 \<and> bit (word_of_nat depth :: u64) n"
      using r [of "58 + n"] by (auto simp: pack_inner_def bit_drop_bit_eq bit_or_iff bit_push_bit_iff)
    then show "bit (drop_bit 58 (pack_inner root depth)) n \<longleftrightarrow> bit (word_of_nat depth :: u64) n"
      using dn [of n] by (cases "n < 6") auto
  qed
  ultimately show ?thesis using d by (simp add: unpack_inner_def)
qed

section \<open>The index as a family of trees\<close>

text \<open>The inner tree a packed slot stands for: its pages, its invariant, the handles in it.\<close>

definition packed_pages :: "(u64 \<rightharpoonup> u8 list) \<Rightarrow> u64 \<Rightarrow> u64 set" where
  "packed_pages B e = (if e = 0 then {} else let (r, d) = unpack_inner e in rt_pages B d r)"

definition packed_ok :: "(u64 \<rightharpoonup> u8 list) \<Rightarrow> u64 \<Rightarrow> bool" where
  "packed_ok B e \<longleftrightarrow> e \<noteq> 0 \<longrightarrow> (let (r, d) = unpack_inner e
     in d \<le> 6 \<and> rt_ok mi_format B d r \<and> (\<forall>k \<ge> 2 ^ 64. rt_entry mi_format B d r k = 0))"

definition packed_set :: "(u64 \<rightharpoonup> u8 list) \<Rightarrow> u64 \<Rightarrow> u64 set" where
  "packed_set B e = (if e = 0 then {} else let (r, d) = unpack_inner e in {h. rt_entry mi_format B d r (unat h) \<noteq> 0})"

abbreviation mi_slot :: "(u64 \<rightharpoonup> u8 list) \<Rightarrow> nat \<Rightarrow> u64 \<Rightarrow> nat \<Rightarrow> u64" where
  "mi_slot \<equiv> rt_entry mi_format"

text \<open>The pages of the inner trees, all of them or all but the one of a tag.\<close>

definition inner_pages :: "(u64 \<rightharpoonup> u8 list) \<Rightarrow> nat \<Rightarrow> u64 \<Rightarrow> nat set \<Rightarrow> u64 set" where
  "inner_pages B depth root K = (\<Union>k \<in> K. packed_pages B (mi_slot B depth root k))"

definition mi_tree :: "(u64 \<rightharpoonup> u8 list) \<Rightarrow> nat \<Rightarrow> u64 \<Rightarrow> bool" where
  "mi_tree B depth root \<longleftrightarrow> depth \<le> 6 \<and> rt_ok mi_format B depth root \<and> rt_spine B depth root \<and>
     (\<forall>k. packed_ok B (mi_slot B depth root k) \<and> (mi_slot B depth root k \<noteq> 0 \<longrightarrow> k < 2 ^ 32) \<and>
        packed_pages B (mi_slot B depth root k) \<inter> (rt_pages B depth root \<union> inner_pages B depth root (- {k})) = {})"

text \<open>An index without pages is the empty one.\<close>

definition mi_ok :: "(u64 \<rightharpoonup> u8 list) \<Rightarrow> nat \<Rightarrow> u64 \<Rightarrow> bool" where
  "mi_ok B depth root \<longleftrightarrow> root = PAGE_ID_NONE \<or> mi_tree B depth root"

definition mi_pages :: "(u64 \<rightharpoonup> u8 list) \<Rightarrow> nat \<Rightarrow> u64 \<Rightarrow> u64 set" where
  "mi_pages B depth root = (if root = PAGE_ID_NONE then {} else rt_pages B depth root \<union> inner_pages B depth root UNIV)"

definition mi_view :: "(u64 \<rightharpoonup> u8 list) \<Rightarrow> nat \<Rightarrow> u64 \<Rightarrow> u32 \<Rightarrow> u64 set" where
  "mi_view B depth root tag = (if root = PAGE_ID_NONE then {} else packed_set B (mi_slot B depth root (unat tag)))"

lemma inner_split: "inner_pages B depth root UNIV = packed_pages B (mi_slot B depth root k) \<union> inner_pages B depth root (- {k})"
  by (auto simp: inner_pages_def)

lemma rt_entry_frame:
  assumes "\<And>q. q \<in> rt_pages B l p \<Longrightarrow> B' q = B q"
  shows "rt_entry K B' l p = rt_entry K B l p"
  using rt_frame [of B l p B' K, OF assms] by (auto simp: rt_entry_def fun_eq_iff)

lemma packed_frame:
  assumes "\<And>q. q \<in> packed_pages B e \<Longrightarrow> B' q = B q"
  shows "packed_ok B' e = packed_ok B e" and "packed_pages B' e = packed_pages B e" and "packed_set B' e = packed_set B e"
proof -
  obtain r d where u: "unpack_inner e = (r, d)" by (cases "unpack_inner e")
  have f: "B' q = B q" if "e \<noteq> 0" "q \<in> rt_pages B d r" for q using assms that by (simp add: packed_pages_def u)
  note a = rt_frame [of B d r B' mi_format, OF f] and b = rt_entry_frame [of B d r B' mi_format, OF f]
  show "packed_ok B' e = packed_ok B e" using a b by (auto simp: packed_ok_def u rt_ok_def)
  show "packed_pages B' e = packed_pages B e" using a by (simp add: packed_pages_def u)
  show "packed_set B' e = packed_set B e" using b by (simp add: packed_set_def u)
qed

lemma packed_unpack:
  assumes "packed_ok B e" and "unpack_inner e = (r, l)"
  shows "r = 0 \<longleftrightarrow> e = 0" and "l \<le> 6"
proof -
  have "unpack_inner 0 = (0, 0)" by (simp add: unpack_inner_def)
  then show "r = 0 \<longleftrightarrow> e = 0" "l \<le> 6" using assms by (cases "e = 0"; auto simp: packed_ok_def rt_ok_def)+
qed

lemma packed_none: "packed_set B 0 = {}"
  by (simp add: packed_set_def)

lemma unat_ucast_tag: "unat (ucast (tag :: u32) :: u64) = unat tag"
  using unat_u32_less [of tag] by (simp add: unsigned_ucast_eq take_bit_nat_eq_self)

text \<open>
  A new outer tree that differs in one slot, with the inner trees of the other slots where they were.
\<close>

lemma mi_replaced:
  assumes ok: "mi_tree B d p" and tag: "tag < 2 ^ 32"
    and outer: "m \<le> 6" "rt_ok mi_format B' m q" "rt_spine B' m q"
      "\<And>k. mi_slot B' m q k = (if k = tag then e else mi_slot B d p k)"
    and inner: "packed_ok B' e" "packed_pages B' e \<inter> rt_pages B' m q = {}"
    and rest: "\<And>x. x \<in> inner_pages B d p (- {tag}) \<Longrightarrow> B' x = B x"
      "inner_pages B d p (- {tag}) \<inter> (rt_pages B' m q \<union> packed_pages B' e) = {}"
  shows "mi_tree B' m q"
    and "rt_pages B' m q \<union> inner_pages B' m q UNIV = rt_pages B' m q \<union> packed_pages B' e \<union> inner_pages B d p (- {tag})"
    and "k \<noteq> tag \<Longrightarrow> packed_set B' (mi_slot B' m q k) = packed_set B (mi_slot B d p k)"
proof -
  let ?R = "inner_pages B d p (- {tag})" and ?e = "\<lambda>k. mi_slot B d p k"
  have sub: "packed_pages B (?e k) \<subseteq> ?R" if "k \<noteq> tag" for k using that by (auto simp: inner_pages_def)
  have fr: "packed_ok B' (?e k) = packed_ok B (?e k)" "packed_pages B' (?e k) = packed_pages B (?e k)"
    "packed_set B' (?e k) = packed_set B (?e k)" if "k \<noteq> tag" for k
    using packed_frame [of B "?e k" B'] sub [OF that] rest(1) by blast+
  have oth: "inner_pages B' m q (- {tag}) = ?R" using fr(2) by (auto simp: inner_pages_def outer(4))
  show "rt_pages B' m q \<union> inner_pages B' m q UNIV = rt_pages B' m q \<union> packed_pages B' e \<union> ?R"
    using inner_split [of B' m q tag] oth by (auto simp: outer(4))
  show "k \<noteq> tag \<Longrightarrow> packed_set B' (mi_slot B' m q k) = packed_set B (mi_slot B d p k)" using fr(3) by (simp add: outer(4))
  have bef: "packed_ok B (?e k)" "?e k \<noteq> 0 \<Longrightarrow> k < 2 ^ 32" "packed_pages B (?e k) \<inter> inner_pages B d p (- {k}) = {}" for k
    using ok by (auto simp: mi_tree_def)
  have "packed_pages B' (mi_slot B' m q k) \<inter> inner_pages B' m q (- {k}) = {}" for k
  proof (cases "k = tag")
    case True
    then show ?thesis using rest(2) by (auto simp: oth outer(4))
  next
    case False
    have "inner_pages B' m q (- {k}) \<subseteq> packed_pages B' e \<union> inner_pages B d p (- {k})"
      using fr(2) by (auto simp: inner_pages_def outer(4) split: if_splits)
    moreover have "packed_pages B' (mi_slot B' m q k) = packed_pages B (?e k)" using False fr(2) by (simp add: outer(4))
    ultimately show ?thesis using bef(3) [of k] sub [OF False] rest(2) by blast
  qed
  moreover have "packed_pages B' (mi_slot B' m q k) \<inter> rt_pages B' m q = {}" for k
    using inner(2) rest(2) sub [of k] fr(2) [of k] by (cases "k = tag") (auto simp: outer(4))
  moreover have "packed_ok B' (mi_slot B' m q k) \<and> (mi_slot B' m q k \<noteq> 0 \<longrightarrow> k < 2 ^ 32)" for k
    using inner(1) bef(1,2) [of k] fr(1) [of k] tag by (cases "k = tag") (auto simp: outer(4))
  ultimately show "mi_tree B' m q" unfolding mi_tree_def using outer(1-3) by (simp add: Int_Un_distrib)
qed

text \<open>Two disjoint trees change one after the other.\<close>

lemma accounted_two:
  assumes "accounted P F P' fs" and "accounted Q G Q' gs" and "P \<inter> Q = {}" and "R \<inter> (P \<union> Q) = {}"
    and "F \<inter> (P \<union> Q \<union> R) = {}" and "G \<inter> (P \<union> Q \<union> R \<union> F) = {}"
  shows "accounted (P \<union> Q \<union> R) (F \<union> G) (P' \<union> Q' \<union> R) (fs @ gs)"
proof -
  have P: "P' \<union> set fs = P \<union> F" "P' \<inter> set fs = {}" "distinct fs" and Q: "Q' \<union> set gs = Q \<union> G" "Q' \<inter> set gs = {}" "distinct gs"
    using assms(1,2) by (auto simp: accounted_def)
  have d: "(P \<union> F) \<inter> (Q \<union> G) = {}" "R \<inter> (P \<union> F) = {}" "R \<inter> (Q \<union> G) = {}" using assms(3-6) by auto
  have "P' \<union> Q' \<union> R \<union> (set fs \<union> set gs) = (P' \<union> set fs) \<union> (Q' \<union> set gs) \<union> R" by blast
  then have "P' \<union> Q' \<union> R \<union> (set fs \<union> set gs) = P \<union> Q \<union> R \<union> (F \<union> G)" unfolding P(1) Q(1) by blast
  moreover have s: "P' \<subseteq> P \<union> F" "set fs \<subseteq> P \<union> F" "Q' \<subseteq> Q \<union> G" "set gs \<subseteq> Q \<union> G" using P(1) Q(1) by blast+
  have "P' \<inter> set gs = {}" using s(1,4) d(1) by blast
  moreover have "Q' \<inter> set fs = {}" using s(2,3) d(1) by blast
  moreover have "R \<inter> set fs = {}" "R \<inter> set gs = {}" using s(2,4) d(2,3) by blast+
  moreover have "set fs \<inter> set gs = {}" using s(2,4) d(1) by blast
  ultimately show ?thesis using P(2,3) Q(2,3) by (simp add: accounted_def Int_Un_distrib Int_Un_distrib2)
qed

section \<open>Changing the index\<close>

context page_alloc
begin

lemma with_radix_wp:
  "wp (with_radix d m) Q E s = wp m (\<lambda>a t. Q (a, ro_depth (t_own t)) (t\<lparr>t_own := (t_own t)\<lparr>ro_depth := ro_depth (t_own s)\<rparr>\<rparr>))
     (\<lambda>e t. E e (t\<lparr>t_own := (t_own t)\<lparr>ro_depth := ro_depth (t_own s)\<rparr>\<rparr>)) (s\<lparr>t_own := (t_own s)\<lparr>ro_depth := d\<rparr>\<rparr>)"
  unfolding with_radix_def wp_on_field by (simp add: wp_simps)

lemma small_id:
  assumes "fit k s" and "p \<in> in_use s"
  shows "unat p < 2 ^ 58"
proof -
  have "p < next_page_id (t_cache s)" using taken_below [of "t_env s" "t_cache s" k p] assms by (simp add: fit_def in_use_def)
  then have "unat p < unat (next_page_id (t_cache s))" by (simp add: word_less_nat_alt)
  moreover have "unat (next_page_id (t_cache s)) * ENC_PAGE_SIZE < 2 ^ 64" using assms(1) by (simp add: fit_def pc_inv_def pc_wf_def io_fits_def)
  ultimately show ?thesis by simp
qed

lemma packed_in_use: "packed_ok (store s) e \<Longrightarrow> packed_pages (store s) e \<subseteq> in_use s"
  by (cases "unpack_inner e") (use pages_in_use [of mi_format s] in \<open>auto simp: packed_ok_def packed_pages_def rt_ok_def split: if_splits\<close>)

lemma mi_in_use:
  assumes "mi_tree (store s) d p"
  shows "rt_pages (store s) d p \<subseteq> in_use s" and "inner_pages (store s) d p K \<subseteq> in_use s"
  using assms pages_in_use [of mi_format s d p] packed_in_use [of s] by (auto simp: mi_tree_def rt_ok_def inner_pages_def)

text \<open>What the inner tree of a tag has become, the rest of the index being untouched so far.\<close>

definition inner_done :: "nat \<Rightarrow> nat \<Rightarrow> u64 \<Rightarrow> nat \<Rightarrow> ('x, radix_own) tree_ctx \<Rightarrow> u64 \<Rightarrow> ('x, radix_own) tree_ctx \<Rightarrow> bool" where
  "inner_done tag d p n s e t \<longleftrightarrow> step {} n s t \<and> packed_ok (store t) e \<and> ro_depth (t_own t) = ro_depth (t_own s) \<and>
     (\<exists>F fs. in_use t = in_use s \<union> F \<and> F \<inter> in_use s = {} \<and>
        accounted (packed_pages (store s) (mi_slot (store s) d p tag)) F (packed_pages (store t) e) fs \<and>
        ro_freed (t_own t) = ro_freed (t_own s) @ fs)"

definition mi_evolved :: "nat \<Rightarrow> nat \<Rightarrow> u64 \<Rightarrow> ('x, radix_own) tree_ctx \<Rightarrow> nat \<Rightarrow> u64 \<Rightarrow> ('x, radix_own) tree_ctx \<Rightarrow> bool" where
  "mi_evolved n d p s m q t \<longleftrightarrow> mi_ok (store t) m q \<and> step {} n s t \<and>
     (\<exists>F fs. in_use t = in_use s \<union> F \<and> F \<inter> in_use s = {} \<and>
        accounted (mi_pages (store s) d p) F (mi_pages (store t) m q) fs \<and> ro_freed (t_own t) = ro_freed (t_own s) @ fs)"

lemma disjoint_sub: "A \<subseteq> X \<Longrightarrow> B \<subseteq> Y \<Longrightarrow> X \<inter> Y = {} \<Longrightarrow> A \<inter> B = {}"
  by blast

lemma mi_joined:
  assumes fit: "fit j u" and ok: "mi_tree (store s) d p" and tag: "tag < 2 ^ 32" and inner: "inner_done tag d p n s e t"
    and outer: "step {} n' t u" "m \<le> 6" "rt_ok mi_format (store u) m q" "rt_spine (store u) m q"
      "\<And>k. mi_slot (store u) m q k = (if k = tag then e else mi_slot (store t) d p k)"
      "in_use u = in_use t \<union> G" "G \<inter> in_use t = {}" "accounted (rt_pages (store t) d p) G (rt_pages (store u) m q) gs"
      "ro_freed (t_own u) = ro_freed (t_own t) @ gs"
  shows "mi_evolved (n + n') d p s m q u" and "q \<noteq> PAGE_ID_NONE"
    and "packed_set (store u) (mi_slot (store u) m q k) =
      (if k = tag then packed_set (store t) e else packed_set (store s) (mi_slot (store s) d p k))"
proof -
  obtain F fs where st: "step {} n s t" and e: "packed_ok (store t) e"
    and F: "in_use t = in_use s \<union> F" "F \<inter> in_use s = {}" "ro_freed (t_own t) = ro_freed (t_own s) @ fs"
      "accounted (packed_pages (store s) (mi_slot (store s) d p tag)) F (packed_pages (store t) e) fs"
    using inner by (auto simp: inner_done_def)
  let ?P = "rt_pages (store s) d p" and ?Q = "packed_pages (store s) (mi_slot (store s) d p tag)" and ?R = "inner_pages (store s) d p (- {tag})"
  have su: "step {} (n + n') s u" using step_trans [OF st outer(1)] by simp
  have sub: "?P \<subseteq> in_use s" "?R \<subseteq> in_use s" "?Q \<subseteq> in_use s"
    using mi_in_use(1) [OF ok] mi_in_use(2) [OF ok, of UNIV] mi_in_use(2) [OF ok, of "- {tag}"] inner_split [of "store s" d p tag] by auto
  have ft: "store t x = store s x" if "x \<in> ?P" for x by (rule step_store [OF st]) (use that sub(1) in auto)
  have slots: "mi_slot (store t) d p = mi_slot (store s) d p" "rt_pages (store t) d p = ?P"
    using rt_entry_frame [of "store s" d p "store t" mi_format, OF ft] rt_frame [of "store s" d p "store t" mi_format, OF ft] by simp_all
  have fu: "store u x = store s x" if "x \<in> ?R" for x by (rule step_store [OF su]) (use that sub(2) in auto)
  have fe: "store u x = store t x" if "x \<in> packed_pages (store t) e" for x
    by (rule step_store [OF outer(1)]) (use that packed_in_use [OF e] in auto)
  have pf: "packed_ok (store u) e = packed_ok (store t) e" "packed_pages (store u) e = packed_pages (store t) e"
    "packed_set (store u) e = packed_set (store t) e"
    by (rule packed_frame, erule fe)+
  have dis: "?P \<inter> ?Q = {}" "?Q \<inter> ?R = {}" "?R \<inter> ?P = {}" using ok by (auto simp: mi_tree_def inner_pages_def)
  have P': "rt_pages (store u) m q \<subseteq> ?P \<union> G" and Q': "packed_pages (store t) e \<subseteq> ?Q \<union> F"
    using accounted_new [OF outer(8)] accounted_new [OF F(4)] slots(2) by simp_all
  have dF: "F \<inter> ?Q = {}" "F \<inter> ?P = {}" "F \<inter> ?R = {}" using F(2) sub by blast+
  have dG: "G \<inter> ?Q = {}" "G \<inter> ?P = {}" "G \<inter> ?R = {}" "G \<inter> F = {}" using F(1) outer(7) sub by blast+
  have dPQ: "packed_pages (store u) e \<inter> rt_pages (store u) m q = {}"
  proof -
    have "(?Q \<union> F) \<inter> (?P \<union> G) = {}" using dis(1) dF(2) dG(1,4) by (simp add: Int_Un_distrib Int_Un_distrib2 Int_commute)
    then show ?thesis unfolding pf(2) by (rule disjoint_sub [OF Q' P'])
  qed
  have dR: "?R \<inter> (rt_pages (store u) m q \<union> packed_pages (store u) e) = {}"
  proof -
    have "?R \<inter> (?P \<union> G) = {}" "?R \<inter> (?Q \<union> F) = {}" using dis(2,3) dF(3) dG(3) by (simp_all add: Int_Un_distrib Int_Un_distrib2 Int_commute)
    then show ?thesis
      using disjoint_sub [OF subset_refl P', of ?R] disjoint_sub [OF subset_refl Q', of ?R] by (simp add: pf(2) Int_Un_distrib)
  qed
  have sl: "mi_slot (store u) m q k = (if k = tag then e else mi_slot (store s) d p k)" for k using outer(5) slots(1) by simp
  have oke: "packed_ok (store u) e" using pf(1) e by simp
  note rep = mi_replaced [OF ok tag outer(2-4) sl oke dPQ fu dR]
  show "q \<noteq> PAGE_ID_NONE" using outer(3) root_not_none [OF fit] rt_wf_root [of mi_format "store u" m q] by (auto simp: rt_ok_def)
  have p: "p \<noteq> PAGE_ID_NONE"
  proof -
    have "fit j u \<Longrightarrow> store u p = store s p" by (rule step_store [OF su]) (use sub(1) in auto)
    then show ?thesis using fit ok root_not_none [OF fit, of p] rt_wf_root [of mi_format "store s" d p] by (auto simp: mi_tree_def rt_ok_def)
  qed
  have "accounted (?Q \<union> ?P \<union> ?R) (F \<union> G) (packed_pages (store t) e \<union> rt_pages (store u) m q \<union> ?R) (fs @ gs)"
  proof (rule accounted_two [OF F(4)])
    show "accounted ?P G (rt_pages (store u) m q) gs" using outer(8) slots(2) by simp
    show "?Q \<inter> ?P = {}" "?R \<inter> (?Q \<union> ?P) = {}" "F \<inter> (?Q \<union> ?P \<union> ?R) = {}" "G \<inter> (?Q \<union> ?P \<union> ?R \<union> F) = {}"
      using dis dF dG by (simp_all add: Int_Un_distrib Int_Un_distrib2 Int_commute)
  qed
  moreover have "mi_pages (store s) d p = ?Q \<union> ?P \<union> ?R" using p inner_split [of "store s" d p tag] by (auto simp: mi_pages_def)
  moreover have "mi_pages (store u) m q = packed_pages (store t) e \<union> rt_pages (store u) m q \<union> ?R"
    using rep(2) pf(2) \<open>q \<noteq> PAGE_ID_NONE\<close> by (auto simp: mi_pages_def)
  moreover have "in_use u = in_use s \<union> (F \<union> G)" "(F \<union> G) \<inter> in_use s = {}" using outer(6,7) F(1,2) by blast+
  ultimately show "mi_evolved (n + n') d p s m q u" unfolding mi_evolved_def mi_ok_def using su rep(1) F(3) outer(9)
    by (intro conjI exI [of _ "F \<union> G"] exI [of _ "fs @ gs"]) simp_all
  show "packed_set (store u) (mi_slot (store u) m q k) = (if k = tag then packed_set (store t) e else packed_set (store s) (mi_slot (store s) d p k))"
    using rep(3) [of k] pf(3) sl [of tag] by simp
qed

lemma ru_create_root_wp:
  assumes "fit 1 s"
  shows "wp (ru_create_root w alloc)
    (\<lambda>q t. \<exists>u. fresh_page s q (ru_blank_body (expected_type_at 0)) u \<and> t = u\<lparr>t_own := (t_own s)\<lparr>ro_depth := 0\<rparr>\<rparr>) (stuck 1 s) s"
proof -
  let ?s = "s\<lparr>t_own := (t_own s)\<lparr>ro_depth := 0\<rparr>\<rparr>"
  have "fit 1 ?s" using assms by simp
  from ru_init_wp [OF this, of MembershipLeaf]
  have "wp (ru_init_page w MembershipLeaf alloc) (\<lambda>q t. \<exists>u. fresh_page s q (ru_blank_body (expected_type_at 0)) u \<and>
      t = u\<lparr>t_own := (t_own s)\<lparr>ro_depth := 0\<rparr>\<rparr>) (stuck 1 s) ?s"
  proof (rule wp_mono, goal_cases)
    case (1 q t)
    then show ?case
      by (intro exI [of _ "t\<lparr>t_own := t_own s\<rparr>"]) (auto simp: fresh_page_def expected_type_at_def)
  qed simp
  then show ?thesis by (simp add: ru_create_root_def ru_set_depth_def set_own_def wp_simps)
qed

lemma pack_in_use:
  assumes "fit k s" and "rt_ok mi_format (store s) m q" and "m \<le> 6"
  shows "unpack_inner (pack_inner q m) = (q, m)" and "pack_inner q m \<noteq> 0"
proof -
  have "q \<in> in_use s" using assms(2) pages_in_use [of mi_format s m q] by (auto simp: rt_ok_def)
  then show u: "unpack_inner (pack_inner q m) = (q, m)" using unpack_pack [OF small_id [OF assms(1)]] assms(3) by simp
  have "unpack_inner 0 = (0, 0)" by (simp add: unpack_inner_def)
  then show "pack_inner q m \<noteq> 0" using u assms(2) by (auto simp: rt_ok_def)
qed

lemma inner_inserted:
  assumes s1: "step {} 1 s s1" "in_use s1 = in_use s \<union> X" "X \<inter> in_use s = {}" "ro_freed (t_own s1) = ro_freed (t_own s)"
      "rt_pages (store s1) l r = packed_pages (store s) (mi_slot (store s) d p tag) \<union> X"
    and absent: "\<And>k. 2 ^ 64 \<le> k \<Longrightarrow> rt_entry mi_format (store s1) l r k = 0"
    and up: "updated mi_format l r (unat h) 1 s1 m q t" and fit: "fit 0 t"
  defines "u \<equiv> t\<lparr>t_own := (t_own t)\<lparr>ro_depth := ro_depth (t_own s)\<rparr>\<rparr>"
  shows "inner_done tag d p 20 s (pack_inner q m) u"
    and "packed_set (store u) (pack_inner q m) = insert h {h. rt_entry mi_format (store s1) l r (unat h) \<noteq> 0}"
proof -
  obtain fs F where m: "m \<le> 6" "step {} 19 s1 t" "rt_ok mi_format (store t) m q" "in_use t = in_use s1 \<union> F" "F \<inter> in_use s1 = {}"
      "accounted (rt_pages (store s1) l r) F (rt_pages (store t) m q) fs" "ro_freed (t_own t) = ro_freed (t_own s1) @ fs"
      and ent: "\<And>k. rt_entry mi_format (store t) m q k = (if k = unat h then 1 else rt_entry mi_format (store s1) l r k)"
    using up by (auto simp: updated_def)
  note pk = pack_in_use [OF fit m(3,1)]
  have ok: "packed_ok (store u) (pack_inner q m)"
    using m(1,3) absent unat_u64_less [of h] by (auto simp: packed_ok_def pk ent u_def)
  have "step {} 20 s u" using step_trans [OF s1(1) m(2)] by (simp add: u_def)
  moreover have "in_use u = in_use s \<union> (X \<union> F)" "(X \<union> F) \<inter> in_use s = {}" using s1(2,3) m(4,5) by (auto simp: u_def)
  moreover have "accounted (packed_pages (store s) (mi_slot (store s) d p tag)) (X \<union> F) (packed_pages (store u) (pack_inner q m)) fs"
    using m(6) unfolding s1(5) by (simp add: accounted_def packed_pages_def pk u_def Un_assoc)
  ultimately show "inner_done tag d p 20 s (pack_inner q m) u"
    unfolding inner_done_def using ok m(7) s1(4) by (intro conjI exI [of _ "X \<union> F"] exI [of _ fs]) (simp_all add: u_def)
  show "packed_set (store u) (pack_inner q m) = insert h {h. rt_entry mi_format (store s1) l r (unat h) \<noteq> 0}"
    using pk(2) by (auto simp: packed_set_def pk(1) ent u_def word_unat_eq_iff [of _ h])
qed

lemma inner_insert_wp:
  assumes fit: "fit 20 s" and ok: "mi_tree (store s) d p" and u: "unpack_inner (mi_slot (store s) d p tag) = (r, l)"
  shows "wp (and_then (if r = 0 then with_radix l (ru_create_root w alloc) else ok (r, l))
      (\<lambda>(r, l). with_radix l (ru_insert w alloc r h 1)))
    (\<lambda>(q, m) t. inner_done tag d p 20 s (pack_inner q m) t \<and>
       packed_set (store t) (pack_inner q m) = insert h (packed_set (store s) (mi_slot (store s) d p tag))) (stuck 20 s) s"
proof -
  let ?e = "mi_slot (store s) d p tag"
  let ?Q = "\<lambda>(q, m) t. inner_done tag d p 20 s (pack_inner q m) t \<and> packed_set (store t) (pack_inner q m) = insert h (packed_set (store s) ?e)"
  have pk: "packed_ok (store s) ?e" using ok by (simp add: mi_tree_def)
  have f1: "fit 1 s" by (rule fit_mono [OF fit]) simp
  have ins: "wp (with_radix l' (ru_insert w alloc r' h 1)) ?Q (stuck 20 s) s1"
    if s1: "step {} 1 s s1" "in_use s1 = in_use s \<union> X" "X \<inter> in_use s = {}" "t_own s1 = t_own s"
        "rt_pages (store s1) l' r' = packed_pages (store s) ?e \<union> X"
      and tr: "rt_ok mi_format (store s1) l' r'" "l' \<le> 6" "\<And>k. 2 ^ 64 \<le> k \<Longrightarrow> rt_entry mi_format (store s1) l' r' k = 0"
        "{h. rt_entry mi_format (store s1) l' r' (unat h) \<noteq> 0} = packed_set (store s) ?e" for s1 l' r' X
  proof -
    let ?s = "s1\<lparr>t_own := (t_own s1)\<lparr>ro_depth := l'\<rparr>\<rparr>"
    have f: "fit 19 ?s" using step_fit [OF s1(1), of 19] fit by simp
    show ?thesis
      unfolding with_radix_wp
    proof (rule wp_mono [OF ru_insert_wp [OF f, of l' r']], goal_cases)
      case (4 q t)
      then obtain m where up: "updated mi_format l' r' (unat h) 1 ?s m q t" by blast
      have dm: "ro_depth (t_own t) = m" and ft: "fit 0 t" using up step_fit [of "{}" 19 ?s t 0] f by (auto simp: updated_def)
      note inn = inner_inserted [where s = s and ?s1.0 = ?s and X = X and d = d and p = p and tag = tag, OF _ _ _ _ _ _ up ft]
      show ?case using inn s1 tr(3,4) dm by simp
    next
      case (5 e t)
      then show ?case using stuck_later [OF s1(1), of 19 e t] by simp
    qed (use tr in simp_all)
  qed
  show ?thesis
  proof (cases "r = 0")
    case True
    then have e: "?e = 0" using pk u by (auto simp: packed_ok_def rt_ok_def)
    have fl: "fit 1 (s\<lparr>t_own := (t_own s)\<lparr>ro_depth := l\<rparr>\<rparr>)" using f1 by simp
    show ?thesis
      unfolding wp_and_then if_P [OF True] with_radix_wp
    proof (rule wp_mono [OF ru_create_root_wp [OF fl]], goal_cases)
      case (1 q t)
      then obtain v where v: "fresh_page (s\<lparr>t_own := (t_own s)\<lparr>ro_depth := l\<rparr>\<rparr>) q (ru_blank_body (expected_type_at 0)) v"
        and t: "t = v\<lparr>t_own := (t_own s)\<lparr>ro_depth := 0\<rparr>\<rparr>" by auto
      have v': "step {} 1 s v" "in_use v = in_use s \<union> {q}" "{q} \<inter> in_use s = {}" "store v q = Some (ru_blank_body (expected_type_at 0))" "q \<noteq> 0"
        using v by (auto simp: fresh_page_def)
      note bl = ru_blank_tree [where l = 0 and B = "store v", OF v'(4,5)]
      have z: "rt_entry mi_format (store v) 0 q k = 0" for k using bl by (simp add: rt_entry_def)
      show ?case using ins [of "t\<lparr>t_own := t_own s\<rparr>" "{q}" 0 q] v' bl z by (simp add: t packed_pages_def packed_set_def e)
    next
      case (2 x t)
      then have "stuck 1 s x t" by simp
      then show ?case using stuck_mono [of 1 s x t 20] by simp
    qed
  next
    case False
    then have e: "?e \<noteq> 0" using u by (auto simp: unpack_inner_def)
    then have r: "l \<le> 6" "rt_ok mi_format (store s) l r" "\<And>k. 2 ^ 64 \<le> k \<Longrightarrow> rt_entry mi_format (store s) l r k = 0"
      using pk by (auto simp: packed_ok_def u)
    have "step {} 1 s s" using step_weaken [OF step_refl [OF fit, of "{}"], of "{}" 1] by simp
    then have "wp (with_radix l (ru_insert w alloc r h 1)) ?Q (stuck 20 s) s"
      by (rule ins [of s "{}" l r]) (use r e u in \<open>auto simp: packed_pages_def packed_set_def\<close>)
    then show ?thesis using False by (simp add: wp_simps)
  qed
qed

text \<open>Linking the new inner tree into the outer one.\<close>

definition mi_linked :: "nat \<Rightarrow> nat \<Rightarrow> u64 \<Rightarrow> nat \<Rightarrow> u64 set \<Rightarrow> ('x, radix_own) tree_ctx \<Rightarrow> u64 \<times> nat \<Rightarrow> ('x, radix_own) tree_ctx \<Rightarrow> bool" where
  "mi_linked n d p tag H s = (\<lambda>(q, m) u. mi_evolved n d p s m q u \<and> q \<noteq> PAGE_ID_NONE \<and> ro_depth (t_own u) = ro_depth (t_own s) \<and>
     (\<forall>k. packed_set (store u) (mi_slot (store u) m q k) = (if k = tag then H else packed_set (store s) (mi_slot (store s) d p k))))"

lemma tree_in:
  assumes "mi_tree (store s) d p" and "step {} n s t"
  shows "rt_ok mi_format (store t) d p" and "rt_spine (store t) d p" and "d \<le> 6"
proof -
  have f: "store t x = store s x" if "x \<in> rt_pages (store s) d p" for x
    by (rule step_store [OF assms(2)]) (use that mi_in_use(1) [OF assms(1)] in auto)
  show "rt_ok mi_format (store t) d p" "rt_spine (store t) d p" "d \<le> 6"
    using assms(1) rt_frame [of "store s" d p "store t" mi_format, OF f] by (auto simp: mi_tree_def rt_ok_def)
qed

lemma mi_link_wp:
  assumes fit: "fit (n + 19) s" and ok: "mi_tree (store s) d p" and inner: "inner_done (unat tag) d p n s e t"
  shows "wp (with_radix d (ru_insert w alloc p (ucast (tag :: u32)) e))
    (mi_linked (n + 19) d p (unat tag) (packed_set (store t) e) s) (stuck (n + 19) s) t"
proof -
  let ?t = "t\<lparr>t_own := (t_own t)\<lparr>ro_depth := d\<rparr>\<rparr>"
  have st: "step {} n s t" and dt: "ro_depth (t_own t) = ro_depth (t_own s)" using inner by (simp_all add: inner_done_def)
  have f: "fit 19 ?t" using step_fit [OF st fit] by simp
  have tag: "unat (ucast tag :: u64) = unat tag" "unat tag < 2 ^ 32" using unat_u32_less [of tag] by (simp_all add: unat_ucast_tag)
  note tr = tree_in [OF ok st]
  show ?thesis
    unfolding with_radix_wp
  proof (rule wp_mono [OF ru_insert_wp [OF f, of d p]], goal_cases)
    case (4 q u)
    then obtain m fs F where up: "updated mi_format d p (unat tag) e ?t m q u" unfolding tag(1) by blast
    then obtain fs F where m: "m \<le> 6" "step {} 19 t u" "rt_ok mi_format (store u) m q" "rt_spine (store u) m q" "in_use u = in_use t \<union> F" "F \<inter> in_use t = {}"
        "accounted (rt_pages (store t) d p) F (rt_pages (store u) m q) fs" "ro_freed (t_own u) = ro_freed (t_own t) @ fs" "ro_depth (t_own u) = m"
      and ent: "\<And>k. rt_entry mi_format (store u) m q k = (if k = unat tag then e else rt_entry mi_format (store t) d p k)"
      using tr(2) by (auto simp: updated_def)
    let ?u = "u\<lparr>t_own := (t_own u)\<lparr>ro_depth := ro_depth (t_own t)\<rparr>\<rparr>"
    have fu: "fit 0 ?u" using step_fit [OF m(2), of 0] f by simp
    note j = mi_joined [where u = ?u, OF fu ok tag(2) inner, of 19 m q F fs]
    show ?case using j m ent dt by (simp add: mi_linked_def)
  next
    case (5 x u)
    then have "stuck 19 t x u" by simp
    then show ?case using stuck_later [OF st, of 19 x u] by simp
  qed (use tr in simp_all)
qed

text \<open>The outer tree is created with the first tag.\<close>

definition mi_started :: "nat \<Rightarrow> u64 \<Rightarrow> ('x, radix_own) tree_ctx \<Rightarrow> u64 \<times> nat \<Rightarrow> ('x, radix_own) tree_ctx \<Rightarrow> bool" where
  "mi_started d p s = (\<lambda>(q, m) t. mi_tree (store t) m q \<and> q \<noteq> PAGE_ID_NONE \<and> step {} 1 s t \<and> t_own t = t_own s \<and>
     (\<forall>k. packed_set (store t) (mi_slot (store t) m q k) = (if p = PAGE_ID_NONE then {} else packed_set (store s) (mi_slot (store s) d p k))) \<and>
     (\<exists>X. in_use t = in_use s \<union> X \<and> X \<inter> in_use s = {} \<and> mi_pages (store t) m q = mi_pages (store s) d p \<union> X))"

lemma mi_start_wp:
  assumes fit: "fit 1 s" and ok: "mi_ok (store s) d p"
  shows "wp (if p = PAGE_ID_NONE then with_radix d (ru_create_root w alloc) else ok (p, d)) (mi_started d p s) (stuck 1 s) s"
proof (cases "p = PAGE_ID_NONE")
  case True
  have fd: "fit 1 (s\<lparr>t_own := (t_own s)\<lparr>ro_depth := d\<rparr>\<rparr>)" using fit by simp
  show ?thesis
    unfolding if_P [OF True] with_radix_wp
  proof (rule wp_mono [OF ru_create_root_wp [OF fd]], goal_cases)
    case (1 q t)
    then obtain v where v: "fresh_page (s\<lparr>t_own := (t_own s)\<lparr>ro_depth := d\<rparr>\<rparr>) q (ru_blank_body (expected_type_at 0)) v"
      and t: "t = v\<lparr>t_own := (t_own s)\<lparr>ro_depth := 0\<rparr>\<rparr>" by auto
    have v': "step {} 1 s v" "in_use v = in_use s \<union> {q}" "{q} \<inter> in_use s = {}" "store v q = Some (ru_blank_body (expected_type_at 0))" "q \<noteq> 0"
      using v by (auto simp: fresh_page_def)
    note bl = ru_blank_tree [where l = 0 and B = "store v", OF v'(4,5)]
    have z: "mi_slot (store v) 0 q k = 0" for k using bl by (simp add: rt_entry_def)
    then have "inner_pages (store v) 0 q K = {}" for K by (simp add: inner_pages_def packed_pages_def)
    moreover have "mi_tree (store v) 0 q" using bl z calculation by (simp add: mi_tree_def packed_ok_def packed_pages_def)
    moreover have "q \<noteq> PAGE_ID_NONE" using root_not_none [of 0 v q] v'(4) step_fit [OF v'(1), of 0] fit by simp
    ultimately show ?case
      using v' bl z True by (auto simp: mi_started_def t mi_pages_def packed_set_def)
  next
    case (2 x t)
    then show ?case by simp
  qed
next
  case False
  have "step {} 1 s s" using step_weaken [OF step_refl [OF fit, of "{}"], of "{}" 1] by simp
  then show ?thesis using False ok by (auto simp: wp_simps mi_started_def mi_ok_def intro!: exI [of _ "{}"])
qed

lemma mi_evolved_started:
  assumes st: "step {} j s s1" "in_use s1 = in_use s \<union> X" "X \<inter> in_use s = {}" "ro_freed (t_own s1) = ro_freed (t_own s)"
      "mi_pages (store s1) m root = mi_pages (store s) d p \<union> X"
    and ev: "mi_evolved n m root s1 l q t"
  shows "mi_evolved (j + n) d p s l q t"
proof -
  obtain F fs where t: "mi_ok (store t) l q" "step {} n s1 t" "in_use t = in_use s1 \<union> F" "F \<inter> in_use s1 = {}"
    "accounted (mi_pages (store s) d p \<union> X) F (mi_pages (store t) l q) fs" "ro_freed (t_own t) = ro_freed (t_own s1) @ fs"
    using ev st(5) by (auto simp: mi_evolved_def)
  have "accounted (mi_pages (store s) d p) (X \<union> F) (mi_pages (store t) l q) fs" using t(5) by (simp add: accounted_def Un_assoc)
  moreover have "in_use t = in_use s \<union> (X \<union> F)" "(X \<union> F) \<inter> in_use s = {}" using st(2,3) t(3,4) by blast+
  moreover have "step {} (j + n) s t" using step_trans [OF st(1) t(2)] by simp
  ultimately show ?thesis unfolding mi_evolved_def using t(1,6) st(4) by (intro conjI exI [of _ "X \<union> F"] exI [of _ fs]) simp_all
qed

lemma mi_lookup_wp:
  assumes fit: "fit k s" and ok: "mi_tree (store s) d p"
  shows "wp (on_cache (ru_lookup w d p (ucast (tag :: u32))))
    (\<lambda>r t. r = mi_slot (store s) d p (unat tag) \<and> step {} 0 s t \<and> store t = store s \<and> in_use t = in_use s \<and> t_own t = t_own s)
    (stuck 0 s) s"
proof -
  have inv: "pc_inv w (t_cache s)" and W: "world_ok w" using fit world by (auto simp: fit_def)
  have wf: "rt_wf mi_format (store s) d p" "d \<le> 6" using ok by (simp_all add: mi_tree_def rt_ok_def)
  have root: "p \<noteq> PAGE_ID_NONE" using root_not_none [OF fit, of p] rt_wf_root [OF wf(1)] by auto
  have utag: "unat (ucast tag :: u64) = unat tag" by (rule unat_ucast_tag)
  show ?thesis
    by (rule quiet_wp [OF fit]) (use ru_lookup_wp [OF inv W _ root wf(2), of "in_use s" "ucast tag"] wf(1) in \<open>simp add: store_def utag\<close>)
qed

lemma mi_put_wp:
  assumes fit: "fit 39 s" and ok: "mi_tree (store s) d p" and u: "unpack_inner (mi_slot (store s) d p (unat (tag :: u32))) = (r, l)"
  shows "wp (and_then (if r = 0 then with_radix l (ru_create_root w alloc) else ok (r, l)) (\<lambda>(r, l). with_radix l (ru_insert w alloc r h 1)))
    (\<lambda>(q, m) t. wp (with_radix d (ru_insert w alloc p (ucast tag) (pack_inner q m)))
       (mi_linked 39 d p (unat tag) (insert h (packed_set (store s) (mi_slot (store s) d p (unat tag)))) s) (stuck 39 s) t)
    (stuck 39 s) s"
proof -
  have f20: "fit 20 s" and f39: "fit (20 + 19) s" using fit fit_mono [OF fit, of 20] by simp_all
  show ?thesis
  proof (rule wp_mono [OF inner_insert_wp [OF f20 ok u]], goal_cases)
    case (1 qm t)
    obtain q m where "qm = (q, m)" by (cases qm)
    then show ?case using 1 mi_link_wp [OF f39 ok, of tag "pack_inner q m" t] by auto
  next
    case (2 x t)
    then show ?case by (rule stuck_mono) simp
  qed
qed

lemma mi_insert_wp:
  assumes fit: "fit 40 s" and ok: "mi_ok (store s) d p" and depth: "ro_depth (t_own s) = d"
  shows "wp (mi_insert w alloc p tag h)
    (\<lambda>q t. mi_evolved 40 d p s (ro_depth (t_own t)) q t \<and>
       mi_view (store t) (ro_depth (t_own t)) q = (mi_view (store s) d p)(tag := insert h (mi_view (store s) d p tag)))
    (stuck 40 s) s"
proof -
  let ?Q = "\<lambda>q t. mi_evolved 40 d p s (ro_depth (t_own t)) q t \<and>
    mi_view (store t) (ro_depth (t_own t)) q = (mi_view (store s) d p)(tag := insert h (mi_view (store s) d p tag))"
  have f1: "fit 1 s" by (rule fit_mono [OF fit]) simp
  show ?thesis
    unfolding mi_insert_def wp_and_then [of "gets _"] wp_gets depth wp_and_then [of "if p = _ then _ else _"]
  proof (rule wp_mono [OF mi_start_wp [OF f1 ok]], goal_cases)
    case (1 rd s1)
    obtain root m where rd: "rd = (root, m)" by (cases rd)
    obtain X where s1: "mi_tree (store s1) m root" "step {} 1 s s1" "t_own s1 = t_own s"
        "in_use s1 = in_use s \<union> X" "X \<inter> in_use s = {}" "mi_pages (store s1) m root = mi_pages (store s) d p \<union> X"
      and view: "\<And>k. packed_set (store s1) (mi_slot (store s1) m root k) = (if p = PAGE_ID_NONE then {} else packed_set (store s) (mi_slot (store s) d p k))"
      using 1 by (auto simp: rd mi_started_def)
    have fit1: "fit 39 s1" using step_fit [OF s1(2), of 39] fit by simp
    show ?case
      unfolding rd prod.case wp_and_then [of "on_cache (ru_lookup w m root (ucast tag))"]
    proof (rule wp_mono [OF mi_lookup_wp [OF fit1 s1(1)]], goal_cases)
      case (1 packed s2)
      then have s2: "packed = mi_slot (store s2) m root (unat tag)" "step {} 0 s1 s2" "store s2 = store s1" "in_use s2 = in_use s1" "t_own s2 = t_own s1" by auto
      obtain r l where u: "unpack_inner packed = (r, l)" by (cases "unpack_inner packed")
      have ok2: "mi_tree (store s2) m root" using s1(1) s2(3) by simp
      have fit2: "fit 39 s2" using step_fit [OF s2(2), of 39] fit1 by simp
      have st: "step {} 1 s s2" using step_trans [OF s1(2) s2(2)] by simp
      have cheap: "\<not> (r \<noteq> 0 \<and> RU_MAX_DEPTH < l)"
        using packed_unpack [of "store s2" packed r l] ok2 u s2(1) by (auto simp: mi_tree_def)
      have "wp (and_then (if r = 0 then with_radix l (ru_create_root w alloc) else ok (r, l)) (\<lambda>(r, l). with_radix l (ru_insert w alloc r h 1)))
        (\<lambda>(q, m') t. wp (with_radix m (ru_insert w alloc root (ucast tag) (pack_inner q m'))) (\<lambda>(q, m') t. ?Q q (t\<lparr>t_own := (t_own t)\<lparr>ro_depth := m'\<rparr>\<rparr>)) (stuck 40 s) t)
        (stuck 40 s) s2"
      proof (rule wp_mono [OF mi_put_wp [OF fit2 ok2 u [unfolded s2(1)]]], goal_cases)
        case (1 qm t)
        then show ?case
        proof (cases qm, simp only: prod.case, elim wp_mono, goal_cases)
          case (1 q m' q'm t')
          obtain q' m'' where qq: "q'm = (q', m'')" by (cases q'm)
          have ev: "mi_evolved 39 m root s2 m'' q' t'" and q': "q' \<noteq> PAGE_ID_NONE"
            and sets: "\<And>k. packed_set (store t') (mi_slot (store t') m'' q' k) = (if k = unat tag then insert h (packed_set (store s2) (mi_slot (store s2) m root (unat tag)))
              else packed_set (store s2) (mi_slot (store s2) m root k))"
            using 1 by (auto simp: qq mi_linked_def)
          have "mi_evolved (1 + 39) d p s m'' q' t'" by (rule mi_evolved_started [OF st _ _ _ _ ev]) (use s1 s2 in simp_all)
          then have "mi_evolved 40 d p s m'' q' (t'\<lparr>t_own := (t_own t')\<lparr>ro_depth := m''\<rparr>\<rparr>)" by (simp add: mi_evolved_def)
          moreover have "mi_view (store t') m'' q' g = ((mi_view (store s) d p)(tag := insert h (mi_view (store s) d p tag))) g" for g
            using q' sets [of "unat g"] view [of "unat g"] view [of "unat tag"] s2(3) by (auto simp: mi_view_def word_unat_eq_iff)
          ultimately show ?case by (auto simp: qq fun_eq_iff)
        qed (use stuck_later [OF st, of 39] in auto)
      qed (use stuck_later [OF st, of 39] in auto)
      then show ?case unfolding u prod.case Let_def if_not_P [OF cheap]
        by (simp add: wp_simps set_outer_depth_def ru_set_depth_def set_own_def case_prod_unfold cong: if_cong)
    next
      case (2 x t)
      then have "stuck (1 + 0) s x t" by (rule stuck_later [OF s1(2)])
      then show ?case by (rule stuck_mono) simp
    qed
  next
    case (2 x t)
    then show ?case by (rule stuck_mono) simp
  qed
qed

section \<open>Removing\<close>

lemma any_present_wp:
  assumes fit: "fit k s" and ok: "rt_ok mi_format (store s) l q"
  shows "wp (on_cache (any_present w l q))
    (\<lambda>r t. r = (\<exists>k. rt_entry mi_format (store s) l q k \<noteq> 0) \<and> step {} 0 s t \<and> store t = store s \<and> in_use t = in_use s \<and> t_own t = t_own s)
    (stuck 0 s) s"
proof -
  have inv: "pc_inv w (t_cache s)" and W: "world_ok w" using fit world by (auto simp: fit_def)
  have wf: "rt_wf mi_format (store s) l q" using ok by (simp add: rt_ok_def)
  have "q \<noteq> PAGE_ID_NONE" using root_not_none [OF fit, of q] rt_wf_root [OF wf] by auto
  moreover have "(\<exists>k < rt_span mi_format l. rt_get mi_format (store s) l q k \<noteq> 0) \<longleftrightarrow> (\<exists>k. rt_entry mi_format (store s) l q k \<noteq> 0)"
    by (auto simp: rt_entry_def)
  ultimately show ?thesis
    by (intro quiet_wp [OF fit]) (use any_recursive_wp [OF inv W, of "in_use s" l q] wf in \<open>simp add: any_present_def store_def\<close>)
qed

lemma inner_deleted:
  assumes st: "step {} n s t" and mv: "moved mi_format l r s' q t" and s': "s' = s\<lparr>t_own := (t_own s)\<lparr>ro_depth := l\<rparr>\<rparr>"
    and e: "mi_slot (store s) d p tag \<noteq> 0" "unpack_inner (mi_slot (store s) d p tag) = (r, l)" "packed_ok (store s) (mi_slot (store s) d p tag)"
    and ent: "\<And>k. rt_entry mi_format (store t) l q k = (if k = unat h then 0 else rt_entry mi_format (store s) l r k)"
    and fit: "fit 0 t"
  defines "u \<equiv> t\<lparr>t_own := (t_own t)\<lparr>ro_depth := ro_depth (t_own s)\<rparr>\<rparr>"
  shows "inner_done tag d p n s (pack_inner q l) u"
    and "packed_set (store u) (pack_inner q l) = packed_set (store s) (mi_slot (store s) d p tag) - {h}"
    and "(\<exists>k. rt_entry mi_format (store t) l q k \<noteq> 0) \<longleftrightarrow> packed_set (store s) (mi_slot (store s) d p tag) - {h} \<noteq> {}"
proof -
  have l: "l \<le> 6" and far: "\<And>k. 2 ^ 64 \<le> k \<Longrightarrow> rt_entry mi_format (store s) l r k = 0" using e by (auto simp: packed_ok_def)
  obtain fs F where q: "rt_ok mi_format (store t) l q" "in_use t = in_use s \<union> F" "F \<inter> in_use s = {}"
      "accounted (rt_pages (store s) l r) F (rt_pages (store t) l q) fs" "ro_freed (t_own t) = ro_freed (t_own s) @ fs"
    using mv by (auto simp: moved_def s')
  note pk = pack_in_use [OF fit q(1) l]
  have ok: "packed_ok (store u) (pack_inner q l)" using q(1) l far by (simp add: packed_ok_def pk ent u_def)
  show "inner_done tag d p n s (pack_inner q l) u"
    unfolding inner_done_def using ok q st e(1)
    by (intro conjI exI [of _ F] exI [of _ fs]) (simp_all add: u_def packed_pages_def pk e(2))
  show set: "packed_set (store u) (pack_inner q l) = packed_set (store s) (mi_slot (store s) d p tag) - {h}"
    using pk(2) e(1) by (auto simp: packed_set_def pk(1) e(2) ent u_def word_unat_eq_iff [of _ h])
  have "k < 2 ^ 64" if "rt_entry mi_format (store t) l q k \<noteq> 0" for k using that far [of k] by (cases "k < 2 ^ 64") (auto simp: ent split: if_splits)
  then have "unat (word_of_nat k :: u64) = k" if "rt_entry mi_format (store t) l q k \<noteq> 0" for k using that by (simp add: unat_of_nat)
  then have "(\<exists>k. rt_entry mi_format (store t) l q k \<noteq> 0) \<longleftrightarrow> (\<exists>x :: u64. rt_entry mi_format (store t) l q (unat x) \<noteq> 0)"
    by metis
  then show "(\<exists>k. rt_entry mi_format (store t) l q k \<noteq> 0) \<longleftrightarrow> packed_set (store s) (mi_slot (store s) d p tag) - {h} \<noteq> {}"
    unfolding set [symmetric] using pk(2) by (simp add: packed_set_def pk(1) u_def)
qed

text \<open>An inner tree without handles goes altogether.\<close>

lemma inner_freed:
  assumes inn: "inner_done tag d p n s (pack_inner q l) t" and u: "unpack_inner (pack_inner q l) = (q, l)" "pack_inner q l \<noteq> 0"
    and fr: "freed_by (rt_pages (store t) l q) t v"
  shows "inner_done tag d p n s 0 v"
proof -
  obtain F fs where t: "step {} n s t" "in_use t = in_use s \<union> F" "F \<inter> in_use s = {}" "ro_freed (t_own t) = ro_freed (t_own s) @ fs"
      "accounted (packed_pages (store s) (mi_slot (store s) d p tag)) F (rt_pages (store t) l q) fs" "ro_depth (t_own t) = ro_depth (t_own s)"
    using inn u by (auto simp: inner_done_def packed_pages_def)
  obtain gs where v: "step {} 0 t v" "in_use v = in_use t" "t_own v = (t_own t)\<lparr>ro_freed := ro_freed (t_own t) @ gs\<rparr>" "distinct gs" "set gs = rt_pages (store t) l q"
    using fr by (auto simp: freed_by_def)
  have "accounted (packed_pages (store s) (mi_slot (store s) d p tag)) F {} (fs @ gs)" using t(5) v(4,5) by (auto simp: accounted_def)
  then show ?thesis
    unfolding inner_done_def using t v step_trans [OF t(1) v(1)]
    by (intro conjI exI [of _ F] exI [of _ "fs @ gs"]) (simp_all add: packed_ok_def packed_pages_def)
qed

lemma mi_unlink_wp:
  assumes fit: "fit (n + 7) s" and ok: "mi_tree (store s) d p" and inner: "inner_done (unat tag) d p n s 0 t"
    and has: "mi_slot (store s) d p (unat tag) \<noteq> 0"
  shows "wp (with_radix d (ru_delete w alloc p (ucast (tag :: u32))))
    (\<lambda>((q, _), m) u. mi_linked (n + 7) d p (unat tag) {} s (q, m) u) (stuck (n + 7) s) t"
proof -
  let ?t = "t\<lparr>t_own := (t_own t)\<lparr>ro_depth := d\<rparr>\<rparr>"
  have st: "step {} n s t" and dt: "ro_depth (t_own t) = ro_depth (t_own s)" using inner by (simp_all add: inner_done_def)
  have f: "fit 7 ?t" using step_fit [OF st fit] by simp
  have tag: "unat tag < 2 ^ 32" using unat_u32_less [of tag] by simp
  note tr = tree_in [OF ok st]
  have f0: "store t x = store s x" if "x \<in> rt_pages (store s) d p" for x
    by (rule step_store [OF st]) (use that mi_in_use(1) [OF ok] in auto)
  have slot: "mi_slot (store t) d p (unat tag) \<noteq> 0" using has rt_entry_frame [of "store s" d p "store t" mi_format, OF f0] by simp
  show ?thesis
    unfolding with_radix_wp
  proof (rule wp_mono [OF ru_delete_wp [OF f, of d p]], goal_cases)
    case (4 r u)
    obtain q old where r: "r = (q, old)" by (cases r)
    have su: "step {} 7 t u" and mv: "moved mi_format d p ?t q u"
      and ent: "\<And>k. mi_slot (store u) d q k = (if k = unat tag then 0 else mi_slot (store t) d p k)"
      using 4 slot by (auto simp: r unat_ucast_tag split: if_splits)
    obtain fs F where m: "rt_ok mi_format (store u) d q" "rt_spine (store u) d q" "in_use u = in_use t \<union> F" "F \<inter> in_use t = {}"
        "accounted (rt_pages (store t) d p) F (rt_pages (store u) d q) fs" "t_own u = (t_own ?t)\<lparr>ro_freed := ro_freed (t_own t) @ fs\<rparr>"
      using mv tr(2) by (auto simp: moved_def)
    let ?u = "u\<lparr>t_own := (t_own u)\<lparr>ro_depth := ro_depth (t_own t)\<rparr>\<rparr>"
    have fu: "fit 0 ?u" using step_fit [OF su, of 0] f fit_mono [of 7 t 0] by simp
    note j = mi_joined [where u = ?u, OF fu ok tag inner, of 7 d q F fs]
    show ?case using j m su ent dt tr(3) packed_none by (simp add: mi_linked_def r)
  next
    case (5 x u)
    then have "stuck 7 t x u" by simp
    then show ?case using stuck_later [OF st, of 7 x u] by simp
  qed (use tr in simp_all)
qed

lemma mi_linked_mono: "mi_linked n d p tag H s r t \<Longrightarrow> n \<le> k \<Longrightarrow> mi_linked k d p tag H s r t"
  using step_weaken [of "{}" n s t "{}" k] by (cases r) (simp add: mi_linked_def mi_evolved_def)

lemma inner_done_same:
  assumes "inner_done tag d p n s e t" and "step {} 0 t u" and "store u = store t" and "in_use u = in_use t" and "t_own u = t_own t"
  shows "inner_done tag d p n s e u"
  using assms step_trans [of "{}" n s t "{}" 0 u] by (auto simp: inner_done_def)

lemma mi_relink_wp:
  assumes fit: "fit 26 s" and ok: "mi_tree (store s) d p" and inn: "inner_done (unat (tag :: u32)) d p 7 s (pack_inner q l) t"
    and q: "rt_ok mi_format (store t) l q" "l \<le> 6" and has: "mi_slot (store s) d p (unat tag) \<noteq> 0"
    and any: "(\<exists>k. rt_entry mi_format (store t) l q k \<noteq> 0) \<longleftrightarrow> H \<noteq> {}" and set: "packed_set (store t) (pack_inner q l) = H"
  shows "wp (and_then (on_cache (any_present w l q)) (\<lambda>present.
      if present then with_radix d (ru_insert w alloc p (ucast tag) (pack_inner q l))
      else and_then (free_subtree w l q) (\<lambda>_. and_then (with_radix d (ru_delete w alloc p (ucast tag))) (\<lambda>((r, _), m). ok (r, m)))))
    (mi_linked 26 d p (unat tag) H s) (stuck 26 s) t"
proof -
  have st: "step {} 7 s t" using inn by (simp add: inner_done_def)
  have ft: "fit 19 t" using step_fit [OF st, of 19] fit by simp
  have f26: "fit (7 + 19) s" and f14: "fit (7 + 7) s" using fit fit_mono [OF fit, of 14] by simp_all
  show ?thesis
    unfolding wp_and_then [of "on_cache _"]
  proof (rule wp_mono [OF any_present_wp [OF ft q(1)]], goal_cases)
    case (1 present u)
    then have pr: "present = (H \<noteq> {})" and u: "step {} 0 t u" "store u = store t" "in_use u = in_use t" "t_own u = t_own t" using any by auto
    have su: "step {} 7 s u" and inu: "inner_done (unat tag) d p 7 s (pack_inner q l) u"
      using step_trans [OF st u(1)] inner_done_same [OF inn u] by simp_all
    have fu: "fit 0 u" using step_fit [OF u(1), of 0] fit_mono [OF ft, of 0] by simp
    show ?case
    proof (cases "H = {}")
      case False
      then show ?thesis using pr mi_link_wp [OF f26 ok inu] set u(2) by simp
    next
      case True
      have wf: "rt_wf mi_format (store u) l q" "rt_tree (store u) l q" "rt_ok mi_format (store u) l q" using q(1) u(2) by (simp_all add: rt_ok_def)
      have "wp (free_subtree w l q) (\<lambda>_. wp (with_radix d (ru_delete w alloc p (ucast tag)))
          (\<lambda>((r, _), m). mi_linked 26 d p (unat tag) H s (r, m)) (stuck 26 s)) (stuck 26 s) u"
      proof (rule wp_mono [OF free_subtree_wp [OF fu wf(1,2)]], goal_cases)
        case (1 x v)
        have inv: "inner_done (unat tag) d p 7 s 0 v" by (rule inner_freed [OF inu pack_in_use [OF fu wf(3) q(2)] 1])
        show ?case
          by (rule wp_mono [OF mi_unlink_wp [OF f14 ok inv has]])
            (use mi_linked_mono [of 14] stuck_mono [of 14 s _ _ 26] True in \<open>auto split: prod.splits\<close>)
      next
        case (2 e v)
        then have "stuck (7 + 0) s e v" by (rule stuck_later [OF su])
        then show ?case by (rule stuck_mono) simp
      qed
      then show ?thesis using pr True by (simp add: wp_simps case_prod_unfold)
    qed
  next
    case (2 e u)
    then have "stuck (7 + 0) s e u" by (rule stuck_later [OF st])
    then show ?case by (rule stuck_mono) simp
  qed
qed

definition mi_removed :: "nat \<Rightarrow> u64 \<Rightarrow> u32 \<Rightarrow> u64 \<Rightarrow> ('x, radix_own) tree_ctx \<Rightarrow> u64 \<times> bool \<Rightarrow> ('x, radix_own) tree_ctx \<Rightarrow> bool" where
  "mi_removed d p tag h s = (\<lambda>(q, gone) t. gone = (h \<in> mi_view (store s) d p tag) \<and> step {} 26 s t \<and>
     (if gone then mi_evolved 26 d p s (ro_depth (t_own t)) q t \<and>
          mi_view (store t) (ro_depth (t_own t)) q = (mi_view (store s) d p)(tag := mi_view (store s) d p tag - {h})
      else q = p \<and> store t = store s \<and> in_use t = in_use s \<and> t_own t = t_own s))"

lemma mi_removed_none:
  assumes "h \<notin> mi_view (store s) d p tag" and "step {} n s t" and "store t = store s" and "in_use t = in_use s" and "t_own t = t_own s" and "n \<le> 26"
  shows "mi_removed d p tag h s (p, False) t"
  using assms step_weaken [OF assms(2), of "{}" 26] by (simp add: mi_removed_def)

lemma mi_removed_linked:
  assumes "mi_linked 26 d p (unat tag) (mi_view (store s) d p tag - {h}) s (q, m) t" and "p \<noteq> PAGE_ID_NONE" and "h \<in> mi_view (store s) d p tag"
  shows "mi_removed d p tag h s (q, True) (t\<lparr>t_own := (t_own t)\<lparr>ro_depth := m\<rparr>\<rparr>)"
  using assms by (auto simp: mi_removed_def mi_linked_def mi_evolved_def mi_view_def fun_eq_iff word_unat_eq_iff)

lemma mi_remove_inner_wp:
  assumes fit: "fit 26 s" and ok: "mi_tree (store s) d p" and p: "p \<noteq> PAGE_ID_NONE" and has: "mi_slot (store s) d p (unat tag) \<noteq> 0"
    and u: "unpack_inner (mi_slot (store s) d p (unat tag)) = (r, l)"
  shows "wp (and_then (with_radix l (ru_delete w alloc r h)) (\<lambda>((new_inner_root, prev), inner).
      if prev = 0 then ok (p, False)
      else and_then (on_cache (any_present w inner new_inner_root)) (\<lambda>present.
           and_then (if present then with_radix d (ru_insert w alloc p (ucast (tag :: u32)) (pack_inner new_inner_root inner))
                     else and_then (free_subtree w inner new_inner_root) (\<lambda>_.
                          and_then (with_radix d (ru_delete w alloc p (ucast tag))) (\<lambda>((r, _), outer). ok (r, outer))))
             (\<lambda>(new_outer_root, outer). and_then (set_outer_depth outer) (\<lambda>_. ok (new_outer_root, True))))))
    (mi_removed d p tag h s) (stuck 26 s) s"
proof -
  let ?e = "mi_slot (store s) d p (unat tag)" and ?s = "s\<lparr>t_own := (t_own s)\<lparr>ro_depth := l\<rparr>\<rparr>"
  have pk: "packed_ok (store s) ?e" using ok by (simp add: mi_tree_def)
  then have r: "rt_ok mi_format (store s) l r" "l \<le> 6" using has by (simp_all add: packed_ok_def u)
  have view: "h \<in> mi_view (store s) d p tag \<longleftrightarrow> rt_entry mi_format (store s) l r (unat h) \<noteq> 0"
    using p has by (simp add: mi_view_def packed_set_def u)
  have f7: "fit 7 ?s" using fit_mono [OF fit, of 7] by simp
  show ?thesis
    unfolding wp_and_then [of "with_radix l _"] with_radix_wp [of l]
  proof (rule wp_mono [OF ru_delete_wp [OF f7, of l r]], goal_cases)
    case (4 qo t)
    obtain q old where qo: "qo = (q, old)" by (cases qo)
    have old: "old = rt_entry mi_format (store s) l r (unat h)" and st: "step {} 7 s t" using 4 by (simp_all add: qo)
    let ?t = "t\<lparr>t_own := (t_own t)\<lparr>ro_depth := ro_depth (t_own s)\<rparr>\<rparr>"
    show ?case
    proof (cases "old = 0")
      case True
      have "mi_removed d p tag h s (p, False) ?t"
        by (rule mi_removed_none [of _ _ _ _ _ 7]) (use 4 True view old st in \<open>simp_all add: qo\<close>)
      then show ?thesis using True by (simp add: qo wp_simps)
    next
      case False
      have mv: "moved mi_format l r ?s q t" and ent: "\<And>k. rt_entry mi_format (store t) l q k = (if k = unat h then 0 else rt_entry mi_format (store s) l r k)"
        using 4 False by (simp_all add: qo)
      have ft: "fit 0 t" using step_fit [OF st, of 0] fit_mono [OF f7, of 7] by simp
      note inn = inner_deleted [OF st mv refl has u pk ent ft]
      have d: "ro_depth (t_own t) = l" and q: "rt_ok mi_format (store ?t) l q" using mv by (auto simp: moved_def)
      have H: "packed_set (store s) ?e - {h} = mi_view (store s) d p tag - {h}" using p by (simp add: mi_view_def)
      have hv: "h \<in> mi_view (store s) d p tag" using view False old by simp
      note re = mi_relink_wp [OF fit ok inn(1) q r(2) has _ inn(2)]
      have "wp (and_then (on_cache (any_present w l q)) (\<lambda>present.
          if present then with_radix d (ru_insert w alloc p (ucast tag) (pack_inner q l))
          else and_then (free_subtree w l q) (\<lambda>_. and_then (with_radix d (ru_delete w alloc p (ucast tag))) (\<lambda>((r, _), m). ok (r, m)))))
        (\<lambda>(q, m) u. mi_removed d p tag h s (q, True) (u\<lparr>t_own := (t_own u)\<lparr>ro_depth := m\<rparr>\<rparr>)) (stuck 26 s) ?t"
        by (rule wp_mono [OF re]) (use inn(3) mi_removed_linked [OF _ p hv] H in \<open>auto split: prod.splits\<close>)
      then show ?thesis
        using False by (simp add: qo d wp_simps set_outer_depth_def ru_set_depth_def set_own_def case_prod_unfold cong: if_cong)
    qed
  next
    case (5 x t)
    then have "stuck 7 s x t" by simp
    then show ?case using stuck_mono [of 7 s x t 26] by simp
  qed (use r in simp_all)
qed

lemma mi_remove_wp:
  assumes fit: "fit 26 s" and ok: "mi_ok (store s) d p" and depth: "ro_depth (t_own s) = d"
  shows "wp (mi_remove w alloc p tag h) (mi_removed d p tag h s) (stuck 26 s) s"
proof (cases "p = PAGE_ID_NONE")
  case True
  have "mi_removed d p tag h s (p, False) s"
    by (rule mi_removed_none [OF _ step_refl [OF fit]]) (simp_all add: mi_view_def True)
  then show ?thesis using True by (simp add: mi_remove_def wp_simps)
next
  case False
  have tr: "mi_tree (store s) d p" using ok False by (simp add: mi_ok_def)
  show ?thesis
    unfolding mi_remove_def if_not_P [OF False] wp_and_then [of "gets _"] wp_gets depth wp_and_then [of "on_cache (ru_lookup w d p (ucast tag))"]
  proof (rule wp_mono [OF mi_lookup_wp [OF fit tr]], goal_cases)
    case (1 packed t)
    then have t: "packed = mi_slot (store t) d p (unat tag)" "step {} 0 s t" "store t = store s" "in_use t = in_use s" "t_own t = t_own s" by auto
    obtain r l where u: "unpack_inner packed = (r, l)" by (cases "unpack_inner packed")
    have trt: "mi_tree (store t) d p" and ft: "fit 26 t" using tr t(3) step_fit [OF t(2), of 26] fit by simp_all
    have rl: "r = 0 \<longleftrightarrow> packed = 0" "\<not> (r \<noteq> 0 \<and> RU_MAX_DEPTH < l)"
      using packed_unpack [of "store t" packed r l] trt u t(1) by (auto simp: mi_tree_def)
    show ?case
    proof (cases "packed = 0")
      case True
      have "mi_removed d p tag h s (p, False) t"
        by (rule mi_removed_none [OF _ t(2-5)]) (use True t(1,3) False in \<open>simp_all add: mi_view_def packed_none\<close>)
      then show ?thesis unfolding u prod.case Let_def using True rl(1) by (simp add: wp_simps)
    next
      case pos: False
      have from_s: "mi_removed d p tag h s x v" if "mi_removed d p tag h t x v" for x v
        using that t step_trans [OF t(2), of "{}" 26 v] by (auto simp: mi_removed_def mi_evolved_def split: prod.splits if_splits)
      have "r \<noteq> 0" using pos rl(1) by simp
      then show ?thesis
        unfolding u prod.case Let_def if_not_P [OF rl(2)] if_not_P [OF \<open>r \<noteq> 0\<close>]
        by (rule_tac wp_mono [OF mi_remove_inner_wp [OF ft trt False]])
          (use pos u t(1) from_s stuck_later [OF t(2), of 26] in auto)
    qed
  next
    case (2 x t)
    then show ?case by (rule stuck_mono) simp
  qed
qed

end

section \<open>Reading\<close>

text \<open>The handles of a tag, in order.\<close>

definition tag_list :: "(u64 \<rightharpoonup> u8 list) \<Rightarrow> nat \<Rightarrow> u64 \<Rightarrow> u32 \<Rightarrow> u64 list" where
  "tag_list B d p tag = (if p = PAGE_ID_NONE \<or> mi_slot B d p (unat tag) = 0 then []
     else let (r, l) = unpack_inner (mi_slot B d p (unat tag)) in map fst (ru_list B l r 0))"

lemma tag_list_set:
  assumes "mi_ok B d p"
  shows "sorted_wrt (<) (tag_list B d p tag)" and "set (tag_list B d p tag) = mi_view B d p tag"
proof -
  obtain r l where u: "unpack_inner (mi_slot B d p (unat tag)) = (r, l)" by (cases "unpack_inner (mi_slot B d p (unat tag))")
  have "sorted_wrt (<) (tag_list B d p tag) \<and> set (tag_list B d p tag) = mi_view B d p tag"
  proof (cases "p = PAGE_ID_NONE \<or> mi_slot B d p (unat tag) = 0")
    case True
    then show ?thesis by (auto simp: tag_list_def mi_view_def packed_set_def)
  next
    case False
    then have far: "\<And>k. 2 ^ 64 \<le> k \<Longrightarrow> rt_entry mi_format B l r k = 0"
      using assms u by (auto simp: mi_ok_def mi_tree_def packed_ok_def)
    have "k < 2 ^ 64" if "k < rt_span mi_format l" "rt_get mi_format B l r k \<noteq> 0" for k
      using that far [of k] by (cases "k < 2 ^ 64") (auto simp: rt_entry_def)
    note srt = rt_list_sorted [where K = mi_format and P = "\<lambda>v. v \<noteq> 0" and B = B and l = l and p = r, OF this]
    have "h \<in> set (map fst (ru_list B l r 0)) \<longleftrightarrow> rt_entry mi_format B l r (unat h) \<noteq> 0" for h
      using srt(2) [of h] by (force simp: rt_entry_def)
    then show ?thesis using False srt(1) by (auto simp: tag_list_def mi_view_def packed_set_def u)
  qed
  then show "sorted_wrt (<) (tag_list B d p tag)" "set (tag_list B d p tag) = mi_view B d p tag" by auto
qed

lemma mi_inner_wp:
  assumes inv: "pc_inv w c" and W: "world_ok w" and ok: "mi_tree (page_store w T c) d p" and p: "p \<noteq> PAGE_ID_NONE"
  shows "wp (mi_inner w d p tag) (\<lambda>r e. quiet w c e \<and> r = unpack_inner (mi_slot (page_store w T c) d p (unat tag))) (read_fails w c) c"
proof -
  have wf: "rt_wf mi_format (page_store w T c) d p" "d \<le> 6" and pk: "packed_ok (page_store w T c) (mi_slot (page_store w T c) d p (unat tag))"
    using ok by (auto simp: mi_tree_def rt_ok_def)
  show ?thesis
    unfolding mi_inner_def wp_and_then
  proof (rule wp_mono [OF ru_lookup_wp [OF inv W wf(1) p wf(2)]], goal_cases)
    case (1 packed e)
    obtain r l where u: "unpack_inner packed = (r, l)" by (cases "unpack_inner packed")
    then show ?case using 1 packed_unpack [OF pk, of r l] by (simp add: unat_ucast_tag wp_simps)
  qed
qed

text \<open>What the three readers do with the inner tree, in one rule.\<close>

lemma mi_read_wp:
  assumes inv: "pc_inv w c" and W: "world_ok w" and ok: "mi_ok (page_store w T c) d p"
    and f: "\<And>e r l. p \<noteq> PAGE_ID_NONE \<Longrightarrow> quiet w c e \<Longrightarrow> mi_slot (page_store w T c) d p (unat tag) \<noteq> 0 \<Longrightarrow>
      unpack_inner (mi_slot (page_store w T c) d p (unat tag)) = (r, l) \<Longrightarrow> l \<le> 6 \<Longrightarrow> rt_wf mi_format (page_store w T e) l r \<Longrightarrow>
      r \<noteq> PAGE_ID_NONE \<Longrightarrow> wp (f r l) (\<lambda>x g. quiet w e g \<and> x = v) (read_fails w e) e"
    and z: "p = PAGE_ID_NONE \<or> mi_slot (page_store w T c) d p (unat tag) = 0 \<Longrightarrow> v = z"
    and T: "PAGE_ID_NONE \<notin> T"
  shows "wp (if p = PAGE_ID_NONE then ok z else and_then (mi_inner w d p tag) (\<lambda>(r, l). if r = 0 then ok z else f r l))
    (\<lambda>x e. quiet w c e \<and> x = v) (read_fails w c) c"
proof (cases "p = PAGE_ID_NONE")
  case True
  then show ?thesis using z inv by (simp add: wp_simps quiet_refl)
next
  case False
  let ?B = "page_store w T c"
  let ?e = "mi_slot ?B d p (unat tag)"
  have tr: "mi_tree ?B d p" using ok False by (simp add: mi_ok_def)
  then have pk: "packed_ok ?B ?e" by (simp add: mi_tree_def)
  show ?thesis
    unfolding if_not_P [OF False] wp_and_then
  proof (rule wp_mono [OF mi_inner_wp [OF inv W tr False]], goal_cases)
    case (1 rl e)
    obtain r l where rl: "rl = (r, l)" by (cases rl)
    then have q: "quiet w c e" and u: "unpack_inner ?e = (r, l)" using 1 by auto
    note pu = packed_unpack [OF pk u]
    show ?case
    proof (cases "r = 0")
      case True
      then show ?thesis using q z pu(1) by (simp add: rl wp_simps)
    next
      case nz: False
      have wf: "rt_wf mi_format ?B l r" using pk nz pu u by (auto simp: packed_ok_def rt_ok_def)
      then have "r \<in> T" using rt_wf_root [of mi_format ?B l r] by (auto dest: page_store_SomeD)
      then have "wp (f r l) (\<lambda>x g. quiet w e g \<and> x = v) (read_fails w e) e"
        using f [OF False q _ u pu(2)] nz pu(1) wf T quiet_page_store [OF q] by auto
      then show ?thesis using nz
        by (simp add: rl) (erule wp_mono, auto intro: quiet_trans [OF q] read_fails_later [OF q])
    qed
  qed
qed

lemma handles_for_tag_wp:
  assumes "pc_inv w c" and W: "world_ok w" and "mi_ok (page_store w T c) d p" and "PAGE_ID_NONE \<notin> T"
  shows "wp (handles_for_tag w d p tag) (\<lambda>r e. quiet w c e \<and> r = tag_list (page_store w T c) d p tag) (read_fails w c) c"
  unfolding handles_for_tag_def
proof (rule mi_read_wp [OF assms(1) W assms(3)], goal_cases)
  case (1 e r l)
  then have q: "pc_inv w e" "page_store w T e = page_store w T c" using quiet_page_store by (auto simp: quiet_def)
  show ?case
    using 1 q(2) ru_iter_wp [OF q(1) W 1(6,5), of 0 "[]"] by (auto simp: ru_iter_def wp_simps tag_list_def sat_def elim!: wp_mono)
qed (use assms(4) in \<open>auto simp: tag_list_def\<close>)

lemma handles_for_tag_bounded_wp:
  assumes "pc_inv w c" and W: "world_ok w" and "mi_ok (page_store w T c) d p" and "PAGE_ID_NONE \<notin> T"
  shows "wp (handles_for_tag_bounded w d p tag limit)
    (\<lambda>r e. quiet w c e \<and> r = take limit (tag_list (page_store w T c) d p tag)) (read_fails w c) c"
  unfolding handles_for_tag_bounded_def
proof (rule mi_read_wp [OF assms(1) W assms(3)], goal_cases)
  case (1 e r l)
  then have q: "pc_inv w e" "page_store w T e = page_store w T c" using quiet_page_store by (auto simp: quiet_def)
  show ?case
    using 1 q ru_iter_bounded_wp [OF q(1) W 1(6,5), of limit 0 "[]"]
    by (cases "limit = 0") (auto simp: ru_iter_bounded_def wp_simps tag_list_def sat_def take_map quiet_refl elim!: wp_mono)
qed (use assms(4) in \<open>auto simp: tag_list_def\<close>)

lemma mi_contains_wp:
  assumes "pc_inv w c" and W: "world_ok w" and "mi_ok (page_store w T c) d p" and "PAGE_ID_NONE \<notin> T"
  shows "wp (mi_contains w d p tag h) (\<lambda>r e. quiet w c e \<and> r = (h \<in> mi_view (page_store w T c) d p tag)) (read_fails w c) c"
  unfolding mi_contains_def
proof (rule mi_read_wp [OF assms(1) W assms(3)], goal_cases)
  case (1 e r l)
  then have q: "pc_inv w e" "page_store w T e = page_store w T c" using quiet_page_store by (auto simp: quiet_def)
  show ?case
    using 1 q(2) ru_lookup_wp [OF q(1) W 1(6,7,5), of h] by (auto simp: wp_simps mi_view_def packed_set_def elim!: wp_mono)
qed (use assms(4) in \<open>auto simp: mi_view_def packed_set_def\<close>)

section \<open>The index over a growing file\<close>

lemma np_evolved:
  assumes "np.mi_evolved w n d p s m q t"
  shows "mi_ok (in_file w (t_cache t)) m q"
    and "x < next_page_id (t_cache s) \<Longrightarrow> body_at w (t_cache t) x = body_at w (t_cache s) x"
    and "\<exists>fs. ro_freed (t_own t) = ro_freed (t_own s) @ fs \<and> accounted (mi_pages (in_file w (t_cache s)) d p)
      {x. next_page_id (t_cache s) \<le> x \<and> x < next_page_id (t_cache t)} (mi_pages (in_file w (t_cache t)) m q) fs"
proof -
  obtain F fs where e: "mi_ok (in_file w (t_cache t)) m q" "np.step w {} n s t" "np.in_use t = np.in_use s \<union> F" "F \<inter> np.in_use s = {}"
    "accounted (mi_pages (in_file w (t_cache s)) d p) F (mi_pages (in_file w (t_cache t)) m q) fs" "ro_freed (t_own t) = ro_freed (t_own s) @ fs"
    using assms by (auto simp: np.mi_evolved_def)
  then show "mi_ok (in_file w (t_cache t)) m q"
    "x < next_page_id (t_cache s) \<Longrightarrow> body_at w (t_cache t) x = body_at w (t_cache s) x"
    "\<exists>fs. ro_freed (t_own t) = ro_freed (t_own s) @ fs \<and> accounted (mi_pages (in_file w (t_cache s)) d p)
      {x. next_page_id (t_cache s) \<le> x \<and> x < next_page_id (t_cache t)} (mi_pages (in_file w (t_cache t)) m q) fs"
    using np_step_bodies [OF e(2)] np_fresh [OF e(3,4)] by auto
qed

text \<open>C10. Adding a handle to a tag: the index afterwards gives that tag its old handles and the new one, every
  other tag the handles it had. The old version stays readable, page for page, and the pages of the
  old index and the new pages are exactly the pages of the new index and the ones reported as
  superseded. The only failures are those of the file system and of the memory cap.
\<close>

theorem mi_insert_correct:
  assumes inv: "pc_inv w c" and W: "world_ok w" and pos: "0 < next_page_id c" and room: "id_room c 40"
    and ok: "mi_ok (in_file w c) depth root"
  shows "wp (mi_insert w (new_page_alloc w) root tag h)
    (\<lambda>q t. let B = in_file w (t_cache t); d = ro_depth (t_own t) in mi_ok B d q \<and>
       mi_view B d q = (mi_view (in_file w c) depth root)(tag := insert h (mi_view (in_file w c) depth root tag)) \<and>
       (\<forall>p < next_page_id c. body_at w (t_cache t) p = body_at w c p) \<and>
       (\<exists>fs. ro_freed (t_own t) = freed @ fs \<and> accounted (mi_pages (in_file w c) depth root)
          {p. next_page_id c \<le> p \<and> p < next_page_id (t_cache t)} (mi_pages B d q) fs))
    (\<lambda>x t. env_error w x \<and> (no_faults w \<longrightarrow> \<not> roomy c 40)) (ctx c depth freed)"
proof -
  have f: "np.fit w 40 (ctx c depth freed)" and okr: "mi_ok (np.store w (ctx c depth freed)) depth root"
    using assms by (simp_all add: np_fit)
  show ?thesis
    by (rule wp_mono [OF np.mi_insert_wp [OF f okr]])
      (use np_evolved [where w = w and s = "ctx c depth freed"] in \<open>auto simp: Let_def np.stuck_def ids_room_def\<close>)
qed

text \<open>The first handle of the first tag of a fresh file.\<close>

definition index_state :: "(unit, radix_own) tree_ctx" where
  "index_state = snd (mi_insert toy_world (new_page_alloc toy_world) PAGE_ID_NONE 7 42 wide_one)"

definition index_root :: u64 where
  "index_root = (case fst (mi_insert toy_world (new_page_alloc toy_world) PAGE_ID_NONE 7 42 wide_one) of Ok q \<Rightarrow> q | _ \<Rightarrow> 0)"

theorem mi_insert_correct_witness:
  "\<exists>q t. mi_insert toy_world (new_page_alloc toy_world) PAGE_ID_NONE 7 42 wide_one = (Ok q, t) \<and>
     mi_view (in_file toy_world (t_cache t)) (ro_depth (t_own t)) q = (\<lambda>_. {})(7 := {42})"
proof -
  let ?c = "t_cache wide_one"
  have room: "id_room ?c 40" "roomy ?c 40" using wide_one(3,4) by (simp_all add: id_room_def roomy_def)
  have ok: "mi_ok (in_file toy_world ?c) 0 PAGE_ID_NONE" by (simp add: mi_ok_def)
  have s: "wide_one = ctx ?c 0 []" by (simp add: wide_one_def)
  note wp = mi_insert_correct [OF wide_one(1) toy_world_ok _ room(1) ok, of 7 42 "[]", folded s]
  obtain q t where "mi_insert toy_world (new_page_alloc toy_world) PAGE_ID_NONE 7 42 wide_one = (Ok q, t)"
    and "mi_view (in_file toy_world (t_cache t)) (ro_depth (t_own t)) q = (mi_view (in_file toy_world ?c) 0 PAGE_ID_NONE)(7 := insert 42 (mi_view (in_file toy_world ?c) 0 PAGE_ID_NONE 7))"
    by (rule wp_total [OF wp]) (use room wide_one(2) toy_world_no_faults in \<open>auto simp: Let_def\<close>)
  moreover have "mi_view (in_file toy_world ?c) 0 PAGE_ID_NONE = (\<lambda>_. {})" by (simp add: mi_view_def fun_eq_iff)
  ultimately show ?thesis by auto
qed

lemma index_state:
  "pc_inv toy_world (t_cache index_state)" "0 < next_page_id (t_cache index_state)" "roomy (t_cache index_state) 59"
  "id_room (t_cache index_state) 900" "mi_ok (in_file toy_world (t_cache index_state)) (ro_depth (t_own index_state)) index_root"
  "mi_view (in_file toy_world (t_cache index_state)) (ro_depth (t_own index_state)) index_root = (\<lambda>_. {})(7 := {42})"
proof -
  have f: "np.fit toy_world 1000 wide_one" "np.fit toy_world 40 wide_one"
    using wide_one toy_world_ok by (simp_all add: np_fit id_room_def)
  have ok: "mi_ok (np.store toy_world wide_one) 0 PAGE_ID_NONE" by (simp add: mi_ok_def)
  have room: "ids_room (t_env wide_one) (t_cache wide_one) 40" using wide_one(3) by (simp add: ids_room_def roomy_def)
  have v0: "mi_view B 0 PAGE_ID_NONE = (\<lambda>_. {})" for B by (simp add: mi_view_def fun_eq_iff)
  obtain q t where run: "mi_insert toy_world (new_page_alloc toy_world) PAGE_ID_NONE 7 42 wide_one = (Ok q, t)"
    and t: "np.mi_evolved toy_world 40 0 PAGE_ID_NONE wide_one (ro_depth (t_own t)) q t"
      "mi_view (in_file toy_world (t_cache t)) (ro_depth (t_own t)) q = (\<lambda>_. {})(7 := {42})"
    by (rule wp_total [OF np.mi_insert_wp [OF f(2) ok, of 7 42]])
      (use wide_one(5) toy_world_no_faults room v0 in \<open>auto simp: np.stuck_def\<close>)
  have c: "index_state = t" "index_root = q" by (simp_all add: index_state_def index_root_def run)
  have st: "np.step toy_world {} 40 wide_one t" using t(1) by (simp add: np.mi_evolved_def)
  have "np.fit toy_world 960 t" using np.step_fit [OF st, of 960] f(1) by simp
  then show "pc_inv toy_world (t_cache index_state)" "0 < next_page_id (t_cache index_state)" "id_room (t_cache index_state) 900"
    by (simp_all add: np_fit c id_room_def)
  have "ids_room () (t_cache wide_one) (40 + 59)" using wide_one(3) by (simp add: ids_room_def)
  then show "roomy (t_cache index_state) 59" using st by (auto simp: np.step_def ids_room_def c)
  show "mi_ok (in_file toy_world (t_cache index_state)) (ro_depth (t_own index_state)) index_root"
    "mi_view (in_file toy_world (t_cache index_state)) (ro_depth (t_own index_state)) index_root = (\<lambda>_. {})(7 := {42})"
    using np_evolved(1) [OF t(1)] t(2) by (simp_all add: c)
qed



text \<open>C12. Listing the handles of a tag gives exactly the handles that carry it, each once and in increasing
  order; the bounded listing gives the first of them up to the limit; the membership test agrees.
  None of the three changes a page.
\<close>

theorem mi_reads_correct:
  assumes inv: "pc_inv w c" and W: "world_ok w" and ok: "mi_ok (in_file w c) depth root"
  shows "\<exists>hs. sorted_wrt (<) hs \<and> set hs = mi_view (in_file w c) depth root tag \<and>
    wp (handles_for_tag w depth root tag) (\<lambda>r d. quiet w c d \<and> r = hs) (read_fails w c) c \<and>
    wp (handles_for_tag_bounded w depth root tag limit) (\<lambda>r d. quiet w c d \<and> r = take limit hs) (read_fails w c) c \<and>
    wp (mi_contains w depth root tag h) (\<lambda>r d. quiet w c d \<and> r = (h \<in> set hs)) (read_fails w c) c"
proof -
  have "unat PAGE_ID_NONE = 18446744073709551615" by (simp add: PAGE_ID_NONE_def)
  then have "\<not> unat PAGE_ID_NONE < unat (next_page_id c)" using unat_u64_less [of "next_page_id c"] by linarith
  then have "\<not> PAGE_ID_NONE < next_page_id c" by (simp add: word_less_nat_alt)
  then have T: "PAGE_ID_NONE \<notin> {p. p < next_page_id c}" by simp
  note ok' = ok [unfolded in_file_def]
  show ?thesis
    using tag_list_set [OF ok'] handles_for_tag_wp [OF inv W ok' T] handles_for_tag_bounded_wp [OF inv W ok' T] mi_contains_wp [OF inv W ok' T]
    by (intro exI [of _ "tag_list (in_file w c) depth root tag"]) (simp add: in_file_def)
qed

theorem mi_reads_correct_witness:
  "\<exists>c. handles_for_tag toy_world (ro_depth (t_own index_state)) index_root 7 (t_cache index_state) = (Ok [42], c)"
proof -
  obtain hs where hs: "sorted_wrt (<) hs" "set hs = {42}"
    and wp: "wp (handles_for_tag toy_world (ro_depth (t_own index_state)) index_root 7) (\<lambda>r d. quiet toy_world (t_cache index_state) d \<and> r = hs)
      (read_fails toy_world (t_cache index_state)) (t_cache index_state)"
    using mi_reads_correct [OF index_state(1) toy_world_ok index_state(5), of 7 1 0] index_state(6) by auto
  have "hs = [42]"
  proof (cases hs)
    case (Cons x xs)
    then have "x = 42" "set xs \<subseteq> {42}" "\<forall>y \<in> set xs. x < y" using hs by auto
    then show ?thesis using Cons by (cases xs) auto
  qed (use hs(2) in simp)
  moreover have room: "roomy (t_cache index_state) 0" using index_state(3) by (simp add: roomy_def)
  obtain r c where "handles_for_tag toy_world (ro_depth (t_own index_state)) index_root 7 (t_cache index_state) = (Ok r, c)" "r = hs"
    by (rule wp_total [OF wp read_fails_roomy [OF toy_world_no_faults room]]) simp_all
  ultimately show ?thesis by blast
qed

end
