(* ===== verification/Free_Map_Tree.thy ===== *)
theory Free_Map_Tree
  imports Radix_Cow Free_Map
begin

text \<open>
  The free map of the whole file, \<open>src/src/freemap_tree.rs\<close>: a radix tree with bitmap pages as
  leaves, one bit per page id. A page the tree allocated since the last commit (\<open>session_owned\<close>) is
  changed in place; any other page is copied first and its old id kept in \<open>pending_superseded\<close> until
  the commit. The pages the tree itself needs come from the \<open>extend\<close> closure.
\<close>

section \<open>Definitions\<close>

definition LEAF_CAPACITY :: nat where [simp]: "LEAF_CAPACITY = PAGE_BODY_SIZE * 8"
definition FM_PTRS_PER_INTERIOR :: nat where [simp]: "FM_PTRS_PER_INTERIOR = (CHECKSUM_OFFSET - DATA_PAGE_HEADER_SIZE) div 8"
definition FM_MAX_DEPTH :: nat where [simp]: "FM_MAX_DEPTH = 5"

record freemap_tree =
  fm_root :: u64
  fm_depth :: nat
  pending_superseded :: "u64 list"
  session_owned :: "u64 set"

definition read_child :: "page \<Rightarrow> nat \<Rightarrow> u64" where
  "read_child buf index = get_u64 (DATA_PAGE_HEADER_SIZE + index * 8) buf"

definition write_child :: "page \<Rightarrow> nat \<Rightarrow> u64 \<Rightarrow> page" where
  "write_child buf index value = put_u64 (DATA_PAGE_HEADER_SIZE + index * 8) value buf"

definition init_interior :: "world \<Rightarrow> page \<Rightarrow> page" where
  "init_interior w buf = stamp_checksum (w_xxh w)
     ((replicate (length buf) 0)[0 := page_type_tag FreeMapInterior, 1 := current_version FreeMapInterior])"

definition check_type :: "page \<Rightarrow> page_type \<Rightarrow> u64 \<Rightarrow> ('s, chisel_error, unit) op" where
  "check_type buf expected page_id = (if buf ! 0 \<noteq> page_type_tag expected then err (CorruptPage page_id) else ok ())"

definition from_roots :: "u64 \<Rightarrow> nat \<Rightarrow> freemap_tree" where
  "from_roots root depth = \<lparr>fm_root = root, fm_depth = depth, pending_superseded = [], session_owned = {}\<rparr>"

definition fm_create :: "world \<Rightarrow> 'x allocator \<Rightarrow> ('x, 'o, freemap_tree) tree_op" where
  "fm_create w ext =
     and_then (call_alloc ext) (\<lambda>root.
     and_then (on_cache (pc_with_mut w root (\<lambda>buf. stamp_checksum (w_xxh w) (freemap_init_page buf)))) (\<lambda>_.
     ok \<lparr>fm_root = root, fm_depth = 0, pending_superseded = [], session_owned = {root}\<rparr>))"

definition fm_capacity :: "nat \<Rightarrow> u64" where
  "fm_capacity depth = sat_scale (word_of_nat LEAF_CAPACITY) depth"

definition child_span :: "nat \<Rightarrow> u64" where
  "child_span level = sat_scale (word_of_nat LEAF_CAPACITY) (level - 1)"

definition check_depth :: "freemap_tree \<Rightarrow> ('s, chisel_error, unit) op" where
  "check_depth t = (if FM_MAX_DEPTH < fm_depth t then err (CorruptPage (fm_root t)) else ok ())"

abbreviation past :: "u64 \<Rightarrow> u64 \<Rightarrow> bool" where
  "past cap i \<equiv> cap \<noteq> - 1 \<and> cap \<le> i"

subsection \<open>Reading\<close>

fun fm_descend :: "world \<Rightarrow> nat \<Rightarrow> u64 \<Rightarrow> u64 \<Rightarrow> u64 option cache_op" where
  "fm_descend w 0 current remaining =
     and_then (pc_get w current) (\<lambda>buf. and_then (check_type buf FreeMap current) (\<lambda>_. ok (Some current)))"
| "fm_descend w (Suc l) current remaining =
     and_then (pc_get w current) (\<lambda>buf.
     and_then (check_type buf FreeMapInterior current) (\<lambda>_.
     let span = child_span (Suc l);
         child_idx = unat (remaining div span)
     in if FM_PTRS_PER_INTERIOR \<le> child_idx then ok None
        else let child = read_child buf child_idx
             in if child = 0 then ok None else fm_descend w l child (remaining mod span)))"

definition fm_find_leaf :: "world \<Rightarrow> freemap_tree \<Rightarrow> u64 \<Rightarrow> u64 option cache_op" where
  "fm_find_leaf w t i =
     and_then (check_depth t) (\<lambda>_.
     if past (fm_capacity (fm_depth t)) i then ok None
     else fm_descend w (fm_depth t) (fm_root t) i)"

definition fm_is_free :: "world \<Rightarrow> freemap_tree \<Rightarrow> u64 \<Rightarrow> bool cache_op" where
  "fm_is_free w t i =
     and_then (fm_find_leaf w t i) (\<lambda>leaf.
     case leaf of
       None \<Rightarrow> ok False
     | Some leaf \<Rightarrow> and_then (pc_get w leaf) (\<lambda>buf. ok (freemap_is_free buf (i mod word_of_nat LEAF_CAPACITY))))"

definition fm_children :: "page \<Rightarrow> (nat \<times> u64) list" where
  "fm_children buf = filter (\<lambda>(_, c). c \<noteq> 0) (map (\<lambda>i. (i, read_child buf i)) [0..<FM_PTRS_PER_INTERIOR])"

text \<open>The loop over the children stops at the first subtree with a free id.\<close>

fun first_found :: "'x list \<Rightarrow> ('x \<Rightarrow> ('s, 'e, 'a option) op) \<Rightarrow> ('s, 'e, 'a option) op" where
  "first_found [] f = ok None"
| "first_found (x # xs) f = and_then (f x) (\<lambda>r. case r of None \<Rightarrow> first_found xs f | Some a \<Rightarrow> ok (Some a))"

fun scan_node :: "world \<Rightarrow> nat \<Rightarrow> u64 \<Rightarrow> u64 \<Rightarrow> u64 \<Rightarrow> u64 option cache_op" where
  "scan_node w 0 page_id base lo =
     and_then (pc_get w page_id) (\<lambda>buf.
     and_then (check_type buf FreeMap page_id) (\<lambda>_.
     let local_lo = saturating_sub lo base
     in ok (map_option (\<lambda>b. base + b) (first_free_bit_from buf local_lo))))"
| "scan_node w (Suc l) page_id base lo =
     and_then (pc_get w page_id) (\<lambda>buf.
     and_then (check_type buf FreeMapInterior page_id) (\<lambda>_.
     let span = child_span (Suc l)
     in first_found (fm_children buf) (\<lambda>(i, child).
          let child_base = saturating_add base (saturating_mul (word_of_nat i) span);
              child_end = saturating_add child_base span
          in if child_end \<le> lo then ok None else scan_node w l child child_base lo)))"

definition scan_from :: "world \<Rightarrow> freemap_tree \<Rightarrow> u64 \<Rightarrow> u64 option cache_op" where
  "scan_from w t lo = and_then (check_depth t) (\<lambda>_. scan_node w (fm_depth t) (fm_root t) 0 lo)"

fun collect_reachable :: "world \<Rightarrow> nat \<Rightarrow> u64 \<Rightarrow> u64 set \<Rightarrow> u64 set cache_op" where
  "collect_reachable w 0 page reached =
     and_then (pc_get w page) (\<lambda>buf. and_then (check_type buf FreeMap page) (\<lambda>_. ok (insert page reached)))"
| "collect_reachable w (Suc l) page reached =
     and_then (pc_get w page) (\<lambda>buf.
     and_then (check_type buf FreeMapInterior page) (\<lambda>_.
     and_then (pc_get w page) (\<lambda>buf.
     fold_each (fm_children buf) (\<lambda>(_, child) reached. collect_reachable w l child reached) (insert page reached))))"

definition reachable_pages :: "world \<Rightarrow> freemap_tree \<Rightarrow> u64 set cache_op" where
  "reachable_pages w t =
     and_then (check_depth t) (\<lambda>_.
     if fm_root t \<noteq> PAGE_ID_NONE then collect_reachable w (fm_depth t) (fm_root t) {} else ok {})"

subsection \<open>Changing\<close>

type_synonym ('x, 'a) fm_op = "('x, freemap_tree, 'a) tree_op"

abbreviation own_page :: "u64 \<Rightarrow> ('x, unit) fm_op" where
  "own_page p \<equiv> set_own (\<lambda>t. t\<lparr>session_owned := insert p (session_owned t)\<rparr>)"

definition fm_grow :: "world \<Rightarrow> 'x allocator \<Rightarrow> ('x, unit) fm_op" where
  "fm_grow w ext =
     and_then (gets t_own) (\<lambda>t.
     if FM_MAX_DEPTH \<le> fm_depth t then ok ()
     else and_then (call_alloc ext) (\<lambda>new_root.
          and_then (on_cache (pc_with_mut w new_root (\<lambda>buf.
            stamp_checksum (w_xxh w) (write_child (init_interior w buf) 0 (fm_root t))))) (\<lambda>_.
          and_then (own_page new_root) (\<lambda>_.
          set_own (\<lambda>t. t\<lparr>fm_root := new_root, fm_depth := fm_depth t + 1\<rparr>)))))"

definition cow_node :: "world \<Rightarrow> 'x allocator \<Rightarrow> u64 \<Rightarrow> page_type \<Rightarrow> ('x, u64) fm_op" where
  "cow_node w ext page_id expected =
     and_then (gets t_own) (\<lambda>t.
     if page_id \<in> session_owned t then ok page_id
     else and_then (on_cache (pc_get w page_id)) (\<lambda>buf.
          and_then (check_type buf expected page_id) (\<lambda>_.
          and_then (call_alloc ext) (\<lambda>new_id.
          and_then (on_cache (copy_page w page_id new_id)) (\<lambda>_.
          and_then (own_page new_id) (\<lambda>_.
          and_then (set_own (\<lambda>t. t\<lparr>pending_superseded := pending_superseded t @ [page_id]\<rparr>)) (\<lambda>_.
          ok new_id)))))))"

text \<open>A child for the descent: an absent one is allocated, another is made writable.\<close>

definition fm_new_child :: "world \<Rightarrow> 'x allocator \<Rightarrow> page_type \<Rightarrow> ('x, u64) fm_op" where
  "fm_new_child w ext child_expected =
     and_then (call_alloc ext) (\<lambda>id_new.
     and_then (on_cache (pc_with_mut w id_new (\<lambda>buf.
       if child_expected = FreeMap then stamp_checksum (w_xxh w) (freemap_init_page buf) else init_interior w buf))) (\<lambda>_.
     and_then (own_page id_new) (\<lambda>_. ok id_new)))"

text \<open>The loop \<open>for level in (1..=self.depth).rev()\<close> of \<open>cow_descend\<close> and the leaf operation after it.\<close>

fun cow_loop :: "world \<Rightarrow> 'x allocator \<Rightarrow> (page \<Rightarrow> u64 \<Rightarrow> page) \<Rightarrow> nat \<Rightarrow> u64 \<Rightarrow> u64 \<Rightarrow> ('x, unit) fm_op" where
  "cow_loop w ext leaf_op 0 current remaining =
     on_cache (and_then (pc_get_mut w current) (\<lambda>buf.
     and_then (check_type buf FreeMap current) (\<lambda>_.
     pc_store current (stamp_checksum (w_xxh w) (leaf_op buf (remaining mod word_of_nat LEAF_CAPACITY))))))"
| "cow_loop w ext leaf_op (Suc l) current remaining =
     (let span = child_span (Suc l);
          child_idx = unat (remaining div span)
      in if FM_PTRS_PER_INTERIOR \<le> child_idx then err (CorruptPage current)
         else and_then (on_cache (pc_get w current)) (\<lambda>buf.
              let child = read_child buf child_idx;
                  child_expected = (if Suc l = 1 then FreeMap else FreeMapInterior)
              in and_then (if child = 0 then fm_new_child w ext child_expected
                           else cow_node w ext child child_expected) (\<lambda>new_child.
                 and_then (on_cache (pc_with_mut w current (\<lambda>buf.
                   stamp_checksum (w_xxh w) (write_child buf child_idx new_child)))) (\<lambda>_.
                 cow_loop w ext leaf_op l new_child (remaining mod span)))))"

definition cow_descend :: "world \<Rightarrow> 'x allocator \<Rightarrow> (page \<Rightarrow> u64 \<Rightarrow> page) \<Rightarrow> u64 \<Rightarrow> ('x, unit) fm_op" where
  "cow_descend w ext leaf_op i =
     and_then (gets t_own) (\<lambda>t.
     and_then (check_depth t) (\<lambda>_.
     if past (fm_capacity (fm_depth t)) i then err (CorruptPage (fm_root t))
     else let root_expected = (if 0 < fm_depth t then FreeMapInterior else FreeMap)
          in and_then (cow_node w ext (fm_root t) root_expected) (\<lambda>new_root.
             and_then (set_own (\<lambda>t. t\<lparr>fm_root := new_root\<rparr>)) (\<lambda>_.
             cow_loop w ext leaf_op (fm_depth t) new_root i))))"

definition fm_mark_free :: "world \<Rightarrow> 'x allocator \<Rightarrow> u64 \<Rightarrow> ('x, unit) fm_op" where
  "fm_mark_free w ext i = cow_descend w ext freemap_mark_free i"

definition fm_clear_bit :: "world \<Rightarrow> 'x allocator \<Rightarrow> u64 \<Rightarrow> ('x, unit) fm_op" where
  "fm_clear_bit w ext i = cow_descend w ext freemap_clear_bit i"

text \<open>The loop of \<open>mark_free_growing\<close>; the second argument is \<open>MAX_DEPTH - depth\<close>, which each turn lowers.\<close>

fun fm_grow_loop :: "world \<Rightarrow> 'x allocator \<Rightarrow> nat \<Rightarrow> u64 \<Rightarrow> ('x, unit) fm_op" where
  "fm_grow_loop w ext 0 i = ok ()"
| "fm_grow_loop w ext (Suc n) i =
     and_then (gets t_own) (\<lambda>t.
     if fm_capacity (fm_depth t) \<le> i \<and> fm_depth t < FM_MAX_DEPTH
     then and_then (fm_grow w ext) (\<lambda>_. fm_grow_loop w ext n i)
     else ok ())"

definition mark_free_growing :: "world \<Rightarrow> 'x allocator \<Rightarrow> u64 \<Rightarrow> ('x, unit) fm_op" where
  "mark_free_growing w ext i =
     and_then (gets t_own) (\<lambda>t.
     and_then (check_depth t) (\<lambda>_.
     and_then (fm_grow_loop w ext (FM_MAX_DEPTH - fm_depth t) i) (\<lambda>_.
     fm_mark_free w ext i)))"

text \<open>The hint is returned with the id: it moves to the id on success only.\<close>

definition allocate_first :: "world \<Rightarrow> 'x allocator \<Rightarrow> u64 \<Rightarrow> ('x, u64 option \<times> u64) fm_op" where
  "allocate_first w ext hint =
     and_then (gets t_own) (\<lambda>t.
     and_then (on_cache (scan_from w t hint)) (\<lambda>found.
     case found of
       None \<Rightarrow> ok (None, hint)
     | Some found \<Rightarrow> and_then (fm_clear_bit w ext found) (\<lambda>_. ok (Some found, found))))"

section \<open>The page format\<close>

definition fm_format :: "bool rt_format" where
  "fm_format = \<lparr>rt_slots = 65344, rt_slot = (\<lambda>b k. freemap_is_free b (word_of_nat k)), rt_absent = False,
     rt_leaf = (\<lambda>b. b ! 0 = page_type_tag FreeMap), rt_node = (\<lambda>b. b ! 0 = page_type_tag FreeMapInterior)\<rparr>"

lemma fm_format_simps [simp]:
  "rt_slots fm_format = 65344" "rt_slot fm_format b k = freemap_is_free b (word_of_nat k)" "rt_absent fm_format = False"
  "rt_leaf fm_format b \<longleftrightarrow> b ! 0 = 4" "rt_node fm_format b \<longleftrightarrow> b ! 0 = 7"
  by (simp_all add: fm_format_def)

lemma fm_rt_span: "rt_span fm_format l = 65344 * 1021 ^ l"
  by (simp add: rt_span_def)

lemma fm_span:
  assumes "l \<le> 4"
  shows "unat (child_span (Suc l)) = rt_span fm_format l"
proof -
  have "65344 * 1021 ^ l \<le> 65344 * (1021 :: nat) ^ 4" using assms by (intro mult_le_mono2 power_increasing) simp_all
  then have "65344 * 1021 ^ l < (2 :: nat) ^ 64 - 1" by simp
  then show ?thesis by (simp add: child_span_def unat_sat_scale fm_rt_span)
qed

lemma fm_past: "past (fm_capacity d) i \<longleftrightarrow> rt_span fm_format d \<le> unat i"
proof -
  have "even (65344 * (1021 :: nat) ^ d)" "odd ((2 :: nat) ^ 64 - 1)" by simp_all
  then have "65344 * (1021 :: nat) ^ d \<noteq> 2 ^ 64 - 1" by metis
  then show ?thesis using beyond_scale [of 65344 d i] by (simp add: fm_capacity_def fm_rt_span)
qed

lemma fm_top: "unat (i :: u64) < rt_span fm_format 5"
  using unat_u64_less [of i] by (simp add: fm_rt_span)

lemma fm_digit:
  assumes "l \<le> 4"
  shows "unat (i div child_span (Suc l)) = unat i div rt_span fm_format l"
    and "unat (i mod child_span (Suc l)) = unat i mod rt_span fm_format l"
  by (simp_all add: unat_div unat_mod fm_span [OF assms])

lemma is_free_body: "page_body buf = b \<Longrightarrow> freemap_is_free buf i = freemap_is_free b i"
  using nth_of_body [of buf b "16 + unat i div 8"] by (auto simp: freemap_is_free_bit)

text \<open>A leaf operation that sets one bit to \<open>v\<close>.\<close>

definition sets_bit :: "(page \<Rightarrow> u64 \<Rightarrow> page) \<Rightarrow> bool \<Rightarrow> bool" where
  "sets_bit leaf_op v \<longleftrightarrow> (\<forall>buf i. 8184 \<le> length buf \<longrightarrow> unat i < 65344 \<longrightarrow>
     length (leaf_op buf i) = length buf \<and> leaf_op buf i ! 0 = buf ! 0 \<and>
     page_body (leaf_op buf i) = leaf_op (page_body buf) i \<and>
     (\<forall>j. unat j < 65344 \<longrightarrow> freemap_is_free (leaf_op buf i) j = (if j = i then v else freemap_is_free buf j)))"

lemma mark_sets_bit: "sets_bit freemap_mark_free True"
  unfolding sets_bit_def
proof (intro allI impI)
  fix buf :: page and i :: u64
  assume len: "8184 \<le> length buf" and i: "unat i < 65344"
  have ix: "unat i div 8 < 8168" using i by simp
  have inj: "j = i \<longleftrightarrow> unat j div 8 = unat i div 8 \<and> unat j mod 8 = unat i mod 8" for j :: u64
    using div_mod_8_inject [of "unat j" "unat i"] by (auto simp: word_unat_eq_iff)
  show "length (freemap_mark_free buf i) = length buf \<and> freemap_mark_free buf i ! 0 = buf ! 0 \<and>
     page_body (freemap_mark_free buf i) = freemap_mark_free (page_body buf) i \<and>
     (\<forall>j. unat j < 65344 \<longrightarrow> freemap_is_free (freemap_mark_free buf i) j = (if j = i then True else freemap_is_free buf j))"
    using len ix by (auto simp: freemap_mark_free_def bit_position_def take_update_swap freemap_is_free_bit nth_list_update inj bit_simps)
qed

lemma clear_sets_bit: "sets_bit freemap_clear_bit False"
  unfolding sets_bit_def
proof (intro allI impI)
  fix buf :: page and i :: u64
  assume len: "8184 \<le> length buf" and i: "unat i < 65344"
  have ix: "unat i div 8 < 8168" using i by simp
  have inj: "j = i \<longleftrightarrow> unat j div 8 = unat i div 8 \<and> unat j mod 8 = unat i mod 8" for j :: u64
    using div_mod_8_inject [of "unat j" "unat i"] by (auto simp: word_unat_eq_iff)
  show "length (freemap_clear_bit buf i) = length buf \<and> freemap_clear_bit buf i ! 0 = buf ! 0 \<and>
     page_body (freemap_clear_bit buf i) = freemap_clear_bit (page_body buf) i \<and>
     (\<forall>j. unat j < 65344 \<longrightarrow> freemap_is_free (freemap_clear_bit buf i) j = (if j = i then False else freemap_is_free buf j))"
    using len ix by (auto simp: freemap_clear_bit_def bit_position_def take_update_swap freemap_is_free_bit nth_list_update inj bit_simps)
qed

definition fm_blank :: "u8 \<Rightarrow> u8 list" where
  "fm_blank tag = (replicate 8184 0)[0 := tag]"

lemma fm_blank_reads:
  "length (fm_blank tag) = 8184" "fm_blank tag ! 0 = tag" "i < 1021 \<Longrightarrow> child_at (fm_blank tag) i = 0"
  "\<not> freemap_is_free (fm_blank tag) j"
  by (simp_all add: fm_blank_def child_at_def byte_simps get_uint_replicate freemap_is_free_bit)

lemma fm_init_bodies:
  assumes "page_ok buf"
  shows "page_ok (init_interior w buf) \<and> page_body (init_interior w buf) = fm_blank 7 \<and> verify_checksum (w_xxh w) (init_interior w buf)"
    and "page_ok (freemap_init_page buf) \<and> page_body (freemap_init_page buf) = fm_blank 4"
  using assms
  by (simp_all add: init_interior_def freemap_init_page_def fm_blank_def current_version_def take_update_swap
      list_update_same_conv nth_list_update)

lemma fm_blank_page:
  assumes "B q = Some (fm_blank (if l = 0 then 4 else 7))" and "q \<noteq> 0"
  shows "rt_ok fm_format B l q" and "rt_pages B l q = {q}" and "k < rt_span fm_format l \<Longrightarrow> \<not> rt_get fm_format B l q k"
proof -
  let ?b = "fm_blank (if l = 0 then 4 else 7)"
  have c: "\<And>i. i < 1021 \<Longrightarrow> child_at ?b i = 0" and len: "length ?b = 8184" using fm_blank_reads by simp_all
  have "if l = 0 then rt_leaf fm_format ?b \<and> (\<forall>k < rt_slots fm_format. rt_slot fm_format ?b k = rt_absent fm_format)
    else rt_node fm_format ?b" using fm_blank_reads(2,4) by simp
  note b = rt_blank [where K = fm_format and B = B and p = q and b = ?b and l = l, OF assms(1) c assms(2) len this]
  show "rt_ok fm_format B l q" by (rule b(1))
  show "rt_pages B l q = {q}" by (rule b(2))
  show "\<not> rt_get fm_format B l q k" if "k < rt_span fm_format l" using b(3) [OF _ that] by simp
qed

lemma fm_node_put: "length b = 8184 \<Longrightarrow> i < 1021 \<Longrightarrow> rt_node fm_format b \<Longrightarrow> rt_node fm_format (put_u64 (16 + i * 8) c b)"
  by (simp add: nth_put_uint_other)

lemma fm_put_child:
  assumes "i < 1021" and "page_ok buf"
  shows "page_ok (stamp_checksum xxh (write_child buf i c))"
    and "page_body (stamp_checksum xxh (write_child buf i c)) = put_u64 (16 + i * 8) c (page_body buf)"
    and "verify_checksum xxh (stamp_checksum xxh (write_child buf i c))"
  using assms by (simp_all add: write_child_def body_put)

lemma check_type_ok: "buf ! 0 = page_type_tag ty \<Longrightarrow> check_type buf ty p = ok ()"
  by (simp add: check_type_def)

section \<open>Changing\<close>

context page_alloc
begin

text \<open>
  What a change of the tree at \<open>p\<close> may do to the rest: only the tree's own writable pages are
  written; every new page is writable from now on, every page left behind is pending. Only the new
  root may still wait for its checksum.
\<close>

definition fm_moved :: "nat \<Rightarrow> u64 \<Rightarrow> ('x, freemap_tree) tree_ctx \<Rightarrow> nat \<Rightarrow> u64 \<Rightarrow> ('x, freemap_tree) tree_ctx \<Rightarrow> bool" where
  "fm_moved l p s n q t \<longleftrightarrow> step (insert q (rt_pages (store s) l p \<inter> session_owned (t_own s))) n s t \<and>
     raws t \<subseteq> insert q (raws s) \<and> rt_ok fm_format (store t) l q \<and> q \<in> session_owned (t_own t) \<and>
     (\<exists>F sup. in_use t = in_use s \<union> F \<and> F \<inter> in_use s = {} \<and> set sup \<inter> (session_owned (t_own s) \<union> F) = {} \<and>
        accounted (rt_pages (store s) l p) F (rt_pages (store t) l q) sup \<and>
        t_own t = (t_own s)\<lparr>session_owned := session_owned (t_own s) \<union> F, pending_superseded := pending_superseded (t_own s) @ sup\<rparr>)"

lemma cow_node_wp:
  assumes fit: "fit 1 s" and ok: "rt_ok fm_format (store s) l p" and ty: "ty = (if l = 0 then FreeMap else FreeMapInterior)"
  shows "wp (cow_node w alloc p ty)
    (\<lambda>q t. fm_moved l p s 1 q t \<and> step {q} 1 s t \<and>
       (\<forall>k < rt_span fm_format l. rt_get fm_format (store t) l q k = rt_get fm_format (store s) l p k)) (stuck 1 s) s"
proof (cases "p \<in> session_owned (t_own s)")
  case True
  have st: "step W 1 s s" for W by (rule step_weaken [OF step_refl [OF fit, of W]]) auto
  show ?thesis
    using True ok st by (simp add: cow_node_def wp_simps fm_moved_def exI [of _ "{}"] exI [of _ "[]"] subset_insertI)
next
  case False
  obtain b where b: "store s p = Some b" "b ! 0 = page_type_tag ty" using ok ty by (cases l) (auto simp: rt_ok_def)
  let ?v = "\<lambda>q. (t_own s)\<lparr>session_owned := insert q (session_owned (t_own s)), pending_superseded := pending_superseded (t_own s) @ [p]\<rparr>"
  have "wp (on_cache (pc_get w p)) (\<lambda>buf. wp (check_type buf ty p) (\<lambda>_. wp (call_alloc alloc) (\<lambda>q. wp (on_cache (copy_page w p q))
      (\<lambda>_ t. opened s q b t) (stuck 1 s)) (stuck 1 s)) (stuck 1 s)) (stuck 1 s) s"
  proof (rule wp_mono [OF read_wp [OF fit b(1)]], goal_cases)
    case (1 buf t)
    then have t: "step {} 0 s t" "store t = store s" "in_use t = in_use s" "t_own t = t_own s" and buf: "page_body buf = b" by auto
    have c: "check_type buf ty p = ok ()" using nth_of_body [OF buf, of 0] b(2) by (simp add: check_type_ok)
    have ft: "fit 1 t" using step_fit [OF t(1)] fit by simp
    have bt: "store t p = Some b" using t(2) b(1) by simp
    have "opened s q b u" if "opened t q b u" for q u
      using that t step_trans [OF t(1), of "{q}" 1 u] by (simp add: opened_def)
    then show ?case
      unfolding c wp_ok using fresh_copy_wp [OF ft bt] stuck_later [OF t(1)] by (fastforce elim!: wp_mono)
  next
    case (2 e t)
    then show ?case by (rule stuck_mono) simp
  qed
  then have "wp (on_cache (pc_get w p)) (\<lambda>buf. wp (check_type buf ty p) (\<lambda>_. wp (call_alloc alloc) (\<lambda>q. wp (on_cache (copy_page w p q))
      (\<lambda>_ t. fm_moved l p s 1 q (t\<lparr>t_own := ?v q\<rparr>) \<and> step {q} 1 s t \<and> t_own t = t_own s \<and>
         (\<forall>k < rt_span fm_format l. rt_get fm_format (store t) l q k = rt_get fm_format (store s) l p k)) (stuck 1 s)) (stuck 1 s)) (stuck 1 s)) (stuck 1 s) s"
  proof (elim wp_mono, goal_cases)
    case (1 _ _ _ _ q _ _ t)
    then have t: "step {q} 1 s t" "q \<notin> in_use s" "q \<noteq> 0" "in_use t = insert q (in_use s)" "store t = (store s)(q \<mapsto> b)" "t_own t = t_own s"
      by (auto simp: opened_def)
    have sub: "rt_pages (store s) l p \<subseteq> in_use s" using pages_in_use [of fm_format s l p] ok by (simp add: rt_ok_def)
    have q: "store t q = store s p" "q \<notin> rt_pages (store s) l p" using t sub b(1) by auto
    have same: "store t r = store s r" if "r \<in> rt_pages (store s) l p" for r using that q(2) t(5) by auto
    note cr = rt_copied_root [where B = "store s" and B' = "store t", OF ok q(1) t(3) q(2) same]
    have "\<exists>F sup. in_use t = in_use s \<union> F \<and> F \<inter> in_use s = {} \<and> set sup \<inter> (session_owned (t_own s) \<union> F) = {} \<and>
        accounted (rt_pages (store s) l p) F (rt_pages (store t) l q) sup \<and>
        ?v q = (t_own s)\<lparr>session_owned := session_owned (t_own s) \<union> F, pending_superseded := pending_superseded (t_own s) @ sup\<rparr>"
      using cr(2) t(2,4) False store_in_use [OF b(1)] by (intro exI [of _ "{q}"] exI [of _ "[p]"]) auto
    then have "fm_moved l p s 1 q (t\<lparr>t_own := ?v q\<rparr>)"
      using cr(1) step_weaken [OF t(1), of _ 1] step_raw [OF t(1)] by (simp add: fm_moved_def)
    then show ?case using t(1,6) cr(3) by blast
  qed
  then show ?thesis using False by (simp add: cow_node_def wp_simps set_own_def) (elim wp_mono, auto)
qed

lemma fm_new_child_wp:
  assumes "fit 1 s"
  shows "wp (fm_new_child w alloc (if l = 0 then FreeMap else FreeMapInterior))
    (\<lambda>a t. \<exists>u. fresh_page s a (fm_blank (if l = 0 then 4 else 7)) u \<and>
       t = u\<lparr>t_own := (t_own s)\<lparr>session_owned := insert a (session_owned (t_own s))\<rparr>\<rparr>) (stuck 1 s) s"
proof -
  let ?ty = "if l = 0 then FreeMap else FreeMapInterior" and ?b = "fm_blank (if l = 0 then 4 else 7)"
  let ?f = "\<lambda>buf. if ?ty = FreeMap then stamp_checksum (w_xxh w) (freemap_init_page buf) else init_interior w buf"
  have "page_ok (?f buf) \<and> page_body (?f buf) = ?b \<and> verify_checksum (w_xxh w) (?f buf)" if "page_ok buf" for buf
    using fm_init_bodies [OF that] by auto
  then have "wp (call_alloc alloc) (\<lambda>q. wp (on_cache (pc_with_mut w q ?f)) (\<lambda>_. fresh_page s q ?b) (stuck 1 s)) (stuck 1 s) s"
    by (rule fresh_init_wp [OF assms])
  then have "wp (call_alloc alloc) (\<lambda>q. wp (on_cache (pc_with_mut w q ?f)) (\<lambda>_ t. \<exists>u. fresh_page s q ?b u \<and>
      t\<lparr>t_own := (t_own t)\<lparr>session_owned := insert q (session_owned (t_own t))\<rparr>\<rparr> =
      u\<lparr>t_own := (t_own s)\<lparr>session_owned := insert q (session_owned (t_own s))\<rparr>\<rparr>) (stuck 1 s)) (stuck 1 s) s"
    by (elim wp_mono) (auto simp: fresh_page_def)
  then show ?thesis by (simp add: fm_new_child_def wp_simps set_own_def)
qed

text \<open>The child the descent goes on with, writable and holding what the old child held.\<close>

definition fm_child :: "nat \<Rightarrow> u64 \<Rightarrow> u8 list \<Rightarrow> nat \<Rightarrow> ('x, freemap_tree) tree_ctx \<Rightarrow> u64 \<Rightarrow> ('x, freemap_tree) tree_ctx \<Rightarrow> bool" where
  "fm_child l p b i s a t \<longleftrightarrow> step {a} 1 s t \<and> rt_ok fm_format (store t) l a \<and> a \<in> session_owned (t_own t) \<and>
     (\<exists>F sup. in_use t = in_use s \<union> F \<and> F \<inter> in_use s = {} \<and> set sup \<inter> (session_owned (t_own s) \<union> F) = {} \<and>
        accounted (kid_pages (store s) l (child_at b i)) F (rt_pages (store t) l a) sup \<and>
        t_own t = (t_own s)\<lparr>session_owned := session_owned (t_own s) \<union> F, pending_superseded := pending_superseded (t_own s) @ sup\<rparr>) \<and>
     (\<forall>k < rt_span fm_format (Suc l). k div rt_span fm_format l = i \<longrightarrow>
        rt_get fm_format (store t) l a (k mod rt_span fm_format l) = rt_get fm_format (store s) (Suc l) p k)"

lemma fm_child_wp:
  assumes fit: "fit 1 s" and ok: "rt_ok fm_format (store s) (Suc l) p" and b: "store s p = Some b" and i: "i < 1021"
  shows "wp (if child_at b i = 0 then fm_new_child w alloc (if l = 0 then FreeMap else FreeMapInterior)
      else cow_node w alloc (child_at b i) (if l = 0 then FreeMap else FreeMapInterior)) (fm_child l p b i s) (stuck 1 s) s"
proof -
  let ?ty = "if l = 0 then FreeMap else FreeMapInterior"
  have pos: "0 < rt_span fm_format l" by (simp add: fm_rt_span)
  show ?thesis
  proof (cases "child_at b i = 0")
    case True
    have "wp (fm_new_child w alloc ?ty) (fm_child l p b i s) (stuck 1 s) s"
    proof (rule wp_mono [OF fm_new_child_wp [OF fit]], goal_cases)
      case (1 a t)
      then obtain u where u: "fresh_page s a (fm_blank (if l = 0 then 4 else 7)) u"
        and t: "t = u\<lparr>t_own := (t_own s)\<lparr>session_owned := insert a (session_owned (t_own s))\<rparr>\<rparr>" by auto
      have q: "store t a = Some (fm_blank (if l = 0 then 4 else 7))" "a \<noteq> 0" "in_use t = insert a (in_use s)" "a \<notin> in_use s" "step {} 1 s t"
        using u t by (simp_all add: fresh_page_def)
      note bl = fm_blank_page [where B = "store t", OF q(1,2)]
      have "\<exists>F sup. in_use t = in_use s \<union> F \<and> F \<inter> in_use s = {} \<and> set sup \<inter> (session_owned (t_own s) \<union> F) = {} \<and>
        accounted (kid_pages (store s) l (child_at b i)) F (rt_pages (store t) l a) sup \<and>
        t_own t = (t_own s)\<lparr>session_owned := session_owned (t_own s) \<union> F, pending_superseded := pending_superseded (t_own s) @ sup\<rparr>"
        using q bl(2) True t by (intro exI [of _ "{a}"] exI [of _ "[]"]) (auto simp: kid_pages_def accounted_def)
      then show ?case using bl pos step_weaken [OF q(5), of "{a}" 1] True b t by (simp add: fm_child_def Let_def)
    qed
    then show ?thesis using True by simp
  next
    case False
    have okc: "rt_ok fm_format (store s) l (child_at b i)" using ok b i False by (auto simp: rt_ok_def)
    have "wp (cow_node w alloc (child_at b i) ?ty) (fm_child l p b i s) (stuck 1 s) s"
      by (rule wp_mono [OF cow_node_wp [OF fit okc refl]])
        (use False b pos in \<open>auto simp: fm_child_def fm_moved_def kid_pages_def Let_def\<close>)
    then show ?thesis using False by simp
  qed
qed

text \<open>The tree at \<open>p\<close> with the bit at \<open>k\<close> set to \<open>v\<close>.\<close>

definition fm_set :: "nat \<Rightarrow> u64 \<Rightarrow> nat \<Rightarrow> bool \<Rightarrow> ('x, freemap_tree) tree_ctx \<Rightarrow> nat \<Rightarrow> u64 \<Rightarrow> ('x, freemap_tree) tree_ctx \<Rightarrow> bool" where
  "fm_set l p k v s n q t \<longleftrightarrow> fm_moved l p s n q t \<and> q \<notin> raws t \<and>
     (\<forall>j < rt_span fm_format l. rt_get fm_format (store t) l q j = (if j = k then v else rt_get fm_format (store s) l p j))"

lemma cow_leaf_wp:
  assumes fit: "fit 0 s" and ok: "rt_ok fm_format (store s) 0 p" and own: "p \<in> session_owned (t_own s)"
    and op: "sets_bit leaf_op v" and i: "unat i < 65344"
  shows "wp (cow_loop w alloc leaf_op 0 p i) (\<lambda>_. fm_set 0 p (unat i) v s 0 p) (stuck 0 s) s"
proof -
  obtain b where b: "store s p = Some b" "length b = 8184" "b ! 0 = 4" using ok by (auto simp: rt_ok_def)
  have m: "i mod word_of_nat LEAF_CAPACITY = i" using i by (simp add: word_unat_eq_iff unat_mod)
  let ?f = "\<lambda>buf. stamp_checksum (w_xxh w) (leaf_op buf i)"
  have f: "page_body (?f buf) = leaf_op b i" "page_ok (?f buf)" if "page_ok buf" "page_body buf = b" for buf
    using op i that by (auto simp: sets_bit_def)
  have f': "page_ok (?f buf)" if "page_ok buf" for buf using op i that by (auto simp: sets_bit_def)
  have v: "\<forall>buf. page_ok buf \<longrightarrow> verify_checksum (w_xxh w) (?f buf)" using op i by (auto simp: sets_bit_def)
  have g: "check_type buf FreeMap p = ok ()" if "page_body buf = b" for buf
    using nth_of_body [OF that, of 0] b(3) by (intro check_type_ok) simp
  have "wp (on_cache (and_then (pc_get_mut w p) (\<lambda>buf. and_then (check_type buf FreeMap p) (\<lambda>_. pc_store p (?f buf)))))
    (\<lambda>_ t. step {p} 0 s t \<and> store t = (store s)(p \<mapsto> leaf_op b i) \<and> in_use t = in_use s \<and> t_own t = t_own s \<and>
      ((\<forall>buf. page_ok buf \<longrightarrow> verify_checksum (w_xxh w) (?f buf)) \<longrightarrow> p \<notin> raws t)) (stuck 0 s) s"
    by (rule guarded_wp [OF fit b(1)]) (use f f' g in auto)
  then have "wp (on_cache (and_then (pc_get_mut w p) (\<lambda>buf. and_then (check_type buf FreeMap p) (\<lambda>_. pc_store p (?f buf)))))
    (\<lambda>_. fm_set 0 p (unat i) v s 0 p) (stuck 0 s) s"
  proof (rule wp_mono, goal_cases)
    case (1 x t)
    have lo: "length (leaf_op b i) = 8184" "leaf_op b i ! 0 = 4" using op i b(2,3) by (auto simp: sets_bit_def)
    have get: "freemap_is_free (leaf_op b i) (word_of_nat j) = (if j = unat i then v else freemap_is_free b (word_of_nat j))" if "j < 65344" for j
    proof -
      have u: "unat (word_of_nat j :: u64) = j" using that by (simp add: unat_of_nat)
      then have "word_of_nat j = i \<longleftrightarrow> j = unat i" by (auto simp: word_unat_eq_iff)
      then show ?thesis using op i b(2) that u by (auto simp: sets_bit_def)
    qed
    have "\<exists>F sup. in_use t = in_use s \<union> F \<and> F \<inter> in_use s = {} \<and> set sup \<inter> (session_owned (t_own s) \<union> F) = {} \<and>
        accounted {p} F {p} sup \<and>
        t_own t = (t_own s)\<lparr>session_owned := session_owned (t_own s) \<union> F, pending_superseded := pending_superseded (t_own s) @ sup\<rparr>"
      using 1 by (intro exI [of _ "{}"] exI [of _ "[]"]) simp
    moreover have "p \<notin> raws t" "raws t \<subseteq> insert p (raws s)" using 1 v step_raw [of "{p}" 0 s t] by auto
    ultimately show ?case using 1 own ok lo get b(1) by (simp add: fm_set_def fm_moved_def rt_ok_def)
  qed
  then show ?thesis by (simp only: cow_loop.simps m)
qed

lemma fm_child_fresh:
  assumes ok: "rt_ok fm_format (store s) (Suc l) p" and b: "store s p = Some b" and i: "i < 1021" and ch: "fm_child l p b i s a t"
  shows "p \<notin> rt_pages (store t) l a"
proof -
  obtain F sup where F: "F \<inter> in_use s = {}" "accounted (kid_pages (store s) l (child_at b i)) F (rt_pages (store t) l a) sup"
    using ch by (auto simp: fm_child_def)
  have "p \<in> in_use s" "p \<notin> kid_pages (store s) l (child_at b i)" using store_in_use [OF b] ok b i by (auto simp: rt_ok_def)
  then show ?thesis using accounted_new [OF F(2)] F(1) by auto
qed

text \<open>One level of the descent: the child's id goes into the writable page, then the child changes.\<close>

lemma fm_set_up:
  assumes ok: "rt_ok fm_format (store s) (Suc l) p" and b: "store s p = Some b" "length b = 8184" "rt_node fm_format b"
    and i: "i < 1021" "i = k div rt_span fm_format l" and own: "p \<in> session_owned (t_own s)"
    and ch: "fm_child l p b i s a s1"
    and wr: "step {p} 0 s1 s2" "store s2 = (store s1)(p \<mapsto> put_u64 (16 + i * 8) a b)" "in_use s2 = in_use s1" "t_own s2 = t_own s1"
      "p \<notin> raws s2"
    and rec: "fm_set l a (k mod rt_span fm_format l) v s2 n a s3"
  shows "fm_set (Suc l) p k v s (Suc n) p s3"
proof -
  let ?B = "store s" and ?kid = "kid_pages (store s) l (child_at b i)" and ?oth = "other_pages (store s) l b i" and ?K = fm_format
  obtain F sup where F: "in_use s1 = in_use s \<union> F" "F \<inter> in_use s = {}" "set sup \<inter> (session_owned (t_own s) \<union> F) = {}"
      "accounted ?kid F (rt_pages (store s1) l a) sup"
      "t_own s1 = (t_own s)\<lparr>session_owned := session_owned (t_own s) \<union> F, pending_superseded := pending_superseded (t_own s) @ sup\<rparr>"
    and st1: "step {a} 1 s s1" and a: "rt_ok ?K (store s1) l a" "a \<in> session_owned (t_own s1)"
    and get1: "\<And>j. j < rt_span ?K (Suc l) \<Longrightarrow> j div rt_span ?K l = i \<Longrightarrow> rt_get ?K (store s1) l a (j mod rt_span ?K l) = rt_get ?K ?B (Suc l) p j"
    using ch by (auto simp: fm_child_def)
  have sub: "rt_pages ?B (Suc l) p \<subseteq> in_use s" using pages_in_use [of ?K s "Suc l" p] ok by (simp add: rt_ok_def)
  have old: "rt_pages ?B (Suc l) p = insert p (?kid \<union> ?oth)" by (rule rt_pages_Suc) (rule i(1), rule b(1))
  have tree: "rt_tree ?B (Suc l) p" using ok by (simp add: rt_ok_def)
  have dj: "p \<notin> ?kid" "?kid \<inter> ?oth = {}" using tree b(1) i(1) by auto
  have poth: "p \<notin> ?oth" using tree b(1) by (auto simp: other_pages_def)
  have new1: "rt_pages (store s1) l a \<subseteq> ?kid \<union> F" by (rule accounted_new [OF F(4)])
  have p1: "p \<notin> rt_pages (store s1) l a" using new1 dj(1) F(2) sub old by auto
  have fr2: "store s2 r = store s1 r" if "r \<in> rt_pages (store s1) l a" for r using that p1 wr(2) by auto
  note f2 = rt_frame [of "store s1" l a "store s2" ?K, OF fr2]
  have pg2: "rt_pages (store s2) l a = rt_pages (store s1) l a" using f2 by blast
  have aP: "a \<in> rt_pages (store s1) l a" using a(1) by (cases l) (auto simp: rt_ok_def)
  have aK: "a \<in> ?kid \<union> F" using new1 aP by blast
  let ?W = "insert a (rt_pages (store s2) l a \<inter> session_owned (t_own s2))"
  obtain G sup' where G: "in_use s3 = in_use s2 \<union> G" "G \<inter> in_use s2 = {}" "set sup' \<inter> (session_owned (t_own s2) \<union> G) = {}"
      "accounted (rt_pages (store s2) l a) G (rt_pages (store s3) l a) sup'"
      "t_own s3 = (t_own s2)\<lparr>session_owned := session_owned (t_own s2) \<union> G, pending_superseded := pending_superseded (t_own s2) @ sup'\<rparr>"
    and st3: "step ?W n s2 s3" and r3: "raws s3 \<subseteq> insert a (raws s2)" "a \<notin> raws s3" and a3: "rt_ok ?K (store s3) l a"
    and get3: "\<And>j. j < rt_span ?K l \<Longrightarrow> rt_get ?K (store s3) l a j = (if j = k mod rt_span ?K l then v else rt_get ?K (store s2) l a j)"
    using rec by (auto simp: fm_set_def fm_moved_def)
  have stp: "step ({p} \<union> ?W) (Suc n) s s3" using step_trans [OF step_trans [OF st1 wr(1)] st3] by (simp add: insert_commute)
  have raw: "p \<notin> raws s3" "raws s3 \<subseteq> raws s"
    using r3 wr(5) step_raw [OF st1] step_raw [OF wr(1)] p1 aP by auto
  have Wsub: "({p} \<union> ?W) \<inter> in_use s \<subseteq> rt_pages ?B (Suc l) p \<inter> session_owned (t_own s)"
    using pg2 new1 F(2,5) wr(4) own old aK a(2) by auto
  then have st: "step (insert p (rt_pages ?B (Suc l) p \<inter> session_owned (t_own s))) (Suc n) s s3"
    by (intro step_sealed [OF stp]) (use raw in auto)
  have s3p: "store s3 p = Some (put_u64 (16 + i * 8) a b)"
    by (rule step_store_Some [OF st3]) (use wr(2) p1 pg2 in auto)
  have oth3: "store s3 r = ?B r" if "r \<in> ?oth" for r
  proof (rule step_store [OF stp])
    show ru: "r \<in> in_use s" using that old sub by auto
    have "r \<notin> rt_pages (store s1) l a" using that new1 F(2) dj(2) ru by auto
    then show "r \<notin> {p} \<union> ?W" using that poth pg2 aP by auto
  qed
  have r: "child_replaced ?K ?B (store s3) l p p i a b"
    using ok b i(1) s3p fm_node_put [OF b(2) i(1) b(3)] a3 oth3 by (simp add: child_replaced_def rt_ok_def)
  have acc: "accounted ?kid (F \<union> G) (rt_pages (store s3) l a) (sup @ sup')"
    by (rule accounted_trans [OF F(4)]) (use G(2,4) pg2 F(1) wr(3) sub old in auto)
  have fresh: "(F \<union> G) \<inter> rt_pages ?B (Suc l) p = {}" using F(1,2) G(2) wr(3) sub by auto
  note ip = edited_in_place [OF ok r a3 acc fresh]
  have "set sup \<subseteq> in_use s2" using F(1,4) wr(3) sub old by (auto simp: accounted_def)
  then have supG: "set sup \<inter> G = {}" using G(2) by auto
  have sup: "set (sup @ sup') \<inter> (session_owned (t_own s) \<union> (F \<union> G)) = {}" using F(3,5) G(3) wr(4) supG by auto
  have own3: "t_own s3 = (t_own s)\<lparr>session_owned := session_owned (t_own s) \<union> (F \<union> G), pending_superseded := pending_superseded (t_own s) @ (sup @ sup')\<rparr>"
    using G(5) wr(4) F(5) by (simp add: Un_assoc)
  have iu: "in_use s3 = in_use s \<union> (F \<union> G)" "(F \<union> G) \<inter> in_use s = {}" using G(1,2) wr(3) F(1,2) by auto
  have "rt_get ?K (store s3) (Suc l) p j = (if j = k then v else rt_get ?K ?B (Suc l) p j)" if j: "j < rt_span ?K (Suc l)" for j
  proof (cases "j div rt_span ?K l = i")
    case True
    have pos: "0 < rt_span ?K l" by (simp add: fm_rt_span)
    have "j mod rt_span ?K l = k mod rt_span ?K l \<longleftrightarrow> j = k" using True i(2) by (metis div_mult_mod_eq)
    then show ?thesis using replaced_get [OF r j] get3 [of "j mod rt_span ?K l"] get1 [OF j True] f2 pos True by simp
  next
    case False
    then show ?thesis using replaced_get [OF r j] i(2) by auto
  qed
  then show ?thesis
    using st ip(1) own own3 sup iu ip(2) raw unfolding fm_set_def fm_moved_def by (intro conjI exI [of _ "F \<union> G"] exI [of _ "sup @ sup'"]) auto
qed

lemma cow_loop_wp:
  assumes "fit l s" and "rt_ok fm_format (store s) l p" and "p \<in> session_owned (t_own s)"
    and op: "sets_bit leaf_op v" and "unat i < rt_span fm_format l" and "l \<le> 5"
  shows "wp (cow_loop w alloc leaf_op l p i) (\<lambda>_. fm_set l p (unat i) v s l p) (stuck l s) s"
  using assms(1-3,5,6)
proof (induction l arbitrary: s p i)
  case 0
  then show ?case using cow_leaf_wp [OF 0(1-3) op, of i] by simp
next
  case (Suc l)
  have l4: "l \<le> 4" using Suc.prems(5) by simp
  obtain b where b: "store s p = Some b" "length b = 8184" "rt_node fm_format b" using Suc.prems(2) by (auto simp: rt_ok_def)
  let ?i = "unat i div rt_span fm_format l" and ?r = "i mod child_span (Suc l)" and ?ty = "if l = 0 then FreeMap else FreeMapInterior"
  have ix: "?i < 1021" by (rule rt_index [OF Suc.prems(4)])
  have un: "cow_loop w alloc leaf_op (Suc l) p i = and_then (on_cache (pc_get w p)) (\<lambda>buf.
      and_then (if read_child buf ?i = 0 then fm_new_child w alloc ?ty else cow_node w alloc (read_child buf ?i) ?ty) (\<lambda>a.
      and_then (on_cache (pc_with_mut w p (\<lambda>buf. stamp_checksum (w_xxh w) (write_child buf ?i a)))) (\<lambda>_.
      cow_loop w alloc leaf_op l a ?r)))"
    using ix by (simp add: Let_def fm_digit [OF l4] not_le)
  show ?case
    unfolding un wp_and_then
  proof (rule wp_mono [OF read_wp [OF Suc.prems(1) b(1)]], goal_cases)
    case (1 buf t)
    then have t: "step {} 0 s t" "store t = store s" "in_use t = in_use s" "t_own t = t_own s" and buf: "page_body buf = b" by auto
    have ch: "read_child buf ?i = child_at b ?i" using child_of_body [OF buf ix] by (simp add: read_child_def)
    have ft: "fit (Suc l) t" using step_fit [OF t(1)] Suc.prems(1) by simp
    have okt: "rt_ok fm_format (store t) (Suc l) p" and bt: "store t p = Some b" using Suc.prems(2) b(1) t(2) by simp_all
    have same: "fm_set (Suc l) p (unat i) v s (Suc l) p u" if "fm_set (Suc l) p (unat i) v t (Suc l) p u" for u
      using that t(2-4) step_trans [OF t(1), of _ "Suc l" u] step_raw [OF t(1)] by (auto simp: fm_set_def fm_moved_def)
    have "wp (if child_at b ?i = 0 then fm_new_child w alloc ?ty else cow_node w alloc (child_at b ?i) ?ty) (\<lambda>a.
        wp (on_cache (pc_with_mut w p (\<lambda>buf. stamp_checksum (w_xxh w) (write_child buf ?i a)))) (\<lambda>_.
        wp (cow_loop w alloc leaf_op l a ?r) (\<lambda>_. fm_set (Suc l) p (unat i) v t (Suc l) p) (stuck (Suc l) t)) (stuck (Suc l) t)) (stuck (Suc l) t) t"
    proof (rule wp_mono [OF fm_child_wp [OF fit_mono [OF ft] okt bt ix]], simp, goal_cases)
      case (1 a s1)
      have st1: "step {a} 1 t s1" and okc: "rt_ok fm_format (store s1) l a" using 1 by (simp_all add: fm_child_def)
      have f1: "fit l s1" using step_fit [OF st1, of l] ft by simp
      have pa: "p \<noteq> a" using fm_child_fresh [OF okt bt ix 1] okc by (cases l) (auto simp: rt_ok_def)
      have b1: "store s1 p = Some b" by (rule step_store_Some [OF st1 bt]) (use pa in simp)
      show ?case
      proof (rule wp_mono [OF write_wp [OF f1 b1, where b' = "put_u64 (16 + ?i * 8) a b"]], goal_cases)
        case (3 x s2)
        then have wr: "step {p} 0 s1 s2" "store s2 = (store s1)(p \<mapsto> put_u64 (16 + ?i * 8) a b)" "in_use s2 = in_use s1" "t_own s2 = t_own s1"
            "p \<notin> raws s2" using fm_put_child(3) [OF ix] by auto
        have st2: "step ({a} \<union> {p}) 1 t s2" using step_trans [OF st1 wr(1)] by simp
        have f2: "fit l s2" using step_fit [OF wr(1)] f1 by simp
        have ca: "rt_ok fm_format (store s1) l a" "a \<in> session_owned (t_own s2)" using 1 wr(4) by (simp_all add: fm_child_def)
        have "p \<notin> rt_pages (store s1) l a" by (rule fm_child_fresh [OF okt bt ix 1])
        then have a2: "rt_ok fm_format (store s2) l a" by (intro rt_ok_frame [OF ca(1)]) (auto simp: wr(2))
        have "unat ?r < rt_span fm_format l" by (simp add: fm_digit [OF l4] fm_rt_span)
        note IH = Suc.IH [OF f2 a2 ca(2) this, unfolded fm_digit [OF l4]]
        show ?case
        proof (rule wp_mono [OF IH], use l4 in simp, goal_cases)
          case (1 y s3)
          show ?case by (rule fm_set_up [OF okt bt b(2,3) ix refl _ \<open>fm_child l p b ?i t a s1\<close> wr 1]) (use Suc.prems(3) t(4) in simp)
        next
          case (2 e y)
          then show ?case using stuck_later [OF st2] by fastforce
        qed
      next
        case (4 e y)
        then show ?case using stuck_mono [OF stuck_later [OF st1]] by fastforce
      qed (use ix fm_put_child in auto)
    next
      case (2 e y)
      then show ?case by (rule stuck_mono) simp
    qed
    then show ?case unfolding ch by (elim wp_mono) (use same stuck_later [OF t(1)] in fastforce)+
  next
    case (2 e t)
    then show ?case by (rule stuck_mono) simp
  qed
qed

end

section \<open>The tree as a set of page ids\<close>

definition fm_free :: "(u64 \<rightharpoonup> u8 list) \<Rightarrow> freemap_tree \<Rightarrow> u64 set" where
  "fm_free B T = {i. unat i < rt_span fm_format (fm_depth T) \<and> rt_get fm_format B (fm_depth T) (fm_root T) (unat i)}"

definition fm_pages :: "(u64 \<rightharpoonup> u8 list) \<Rightarrow> freemap_tree \<Rightarrow> u64 set" where
  "fm_pages B T = rt_pages B (fm_depth T) (fm_root T)"

text \<open>The invariant: a well-formed tree of at most 5 levels with no bit at or beyond the reserved id.\<close>

definition fm_ok :: "(u64 \<rightharpoonup> u8 list) \<Rightarrow> freemap_tree \<Rightarrow> bool" where
  "fm_ok B T \<longleftrightarrow> fm_depth T \<le> 5 \<and> rt_ok fm_format B (fm_depth T) (fm_root T) \<and>
     (\<forall>k < rt_span fm_format (fm_depth T). rt_get fm_format B (fm_depth T) (fm_root T) k \<longrightarrow> k < 2 ^ 64 - 1)"

context page_alloc
begin

definition fm_evolved :: "nat \<Rightarrow> ('x, freemap_tree) tree_ctx \<Rightarrow> ('x, freemap_tree) tree_ctx \<Rightarrow> bool" where
  "fm_evolved n s t \<longleftrightarrow> step (fm_pages (store s) (t_own s) \<inter> session_owned (t_own s)) n s t \<and> raws t \<subseteq> raws s \<and> fm_ok (store t) (t_own t) \<and>
     (\<exists>F sup. in_use t = in_use s \<union> F \<and> F \<inter> in_use s = {} \<and> set sup \<inter> (session_owned (t_own s) \<union> F) = {} \<and>
        accounted (fm_pages (store s) (t_own s)) F (fm_pages (store t) (t_own t)) sup \<and>
        session_owned (t_own t) = session_owned (t_own s) \<union> F \<and>
        pending_superseded (t_own t) = pending_superseded (t_own s) @ sup)"

lemma fm_evolved_mono: "fm_evolved n s t \<Longrightarrow> n \<le> m \<Longrightarrow> fm_evolved m s t"
  unfolding fm_evolved_def using step_weaken [of _ n s t _ m] by blast

lemma fm_evolved_refl: "fit k s \<Longrightarrow> fm_ok (store s) (t_own s) \<Longrightarrow> fm_evolved 0 s s"
  using step_refl [of k s] by (auto simp: fm_evolved_def intro!: exI [of _ "{}"] exI [of _ "[]"])

text \<open>The pages the tree may write in its second step are among the ones it may write in the first, or new.\<close>

lemma writable_later:
  assumes "accounted P F Q fs" and "S' = S \<union> F" and "F \<inter> U = {}"
  shows "(P \<inter> S \<union> Q \<inter> S') \<inter> U \<subseteq> P \<inter> S"
  using assms by (auto simp: accounted_def)

lemma fm_evolved_trans:
  assumes a: "fm_evolved n s t" and b: "fm_evolved m t u" and sub: "fm_pages (store s) (t_own s) \<subseteq> in_use s"
  shows "fm_evolved (n + m) s u"
proof -
  let ?P = "fm_pages (store s) (t_own s)" and ?Q = "fm_pages (store t) (t_own t)"
  obtain F sup where F: "in_use t = in_use s \<union> F" "F \<inter> in_use s = {}" "set sup \<inter> (session_owned (t_own s) \<union> F) = {}"
      "accounted ?P F ?Q sup" "session_owned (t_own t) = session_owned (t_own s) \<union> F"
      "pending_superseded (t_own t) = pending_superseded (t_own s) @ sup"
    using a by (auto simp: fm_evolved_def)
  obtain G sup' where G: "in_use u = in_use t \<union> G" "G \<inter> in_use t = {}" "set sup' \<inter> (session_owned (t_own t) \<union> G) = {}"
      "accounted ?Q G (fm_pages (store u) (t_own u)) sup'" "session_owned (t_own u) = session_owned (t_own t) \<union> G"
      "pending_superseded (t_own u) = pending_superseded (t_own t) @ sup'"
    using b by (auto simp: fm_evolved_def)
  have st: "step (?P \<inter> session_owned (t_own s) \<union> ?Q \<inter> session_owned (t_own t)) (n + m) s u"
    using a b step_trans by (auto simp: fm_evolved_def)
  have "raws t \<subseteq> raws s" "raws u \<subseteq> raws t" using a b by (simp_all add: fm_evolved_def)
  then have raw: "raws u \<subseteq> raws s" by (rule order.trans [rotated])
  have "step (?P \<inter> session_owned (t_own s)) (n + m) s u"
    by (rule step_sealed [OF st]) (use writable_later [OF F(4,5,2)] raw in auto)
  moreover have "accounted ?P (F \<union> G) (fm_pages (store u) (t_own u)) (sup @ sup')"
    by (rule accounted_trans [OF F(4) G(4)]) (use F(1) G(2) sub in auto)
  moreover have "set (sup @ sup') \<inter> (session_owned (t_own s) \<union> (F \<union> G)) = {}"
  proof -
    have "set sup \<subseteq> in_use t" using F(1,4) sub by (auto simp: accounted_def)
    then show ?thesis using F(3,5) G(2,3) by auto
  qed
  moreover have "fm_ok (store u) (t_own u)" using b by (simp add: fm_evolved_def)
  ultimately show ?thesis
    using raw F(1,2,5,6) G(1,2,5,6) unfolding fm_evolved_def
    by (intro conjI exI [of _ "F \<union> G"] exI [of _ "sup @ sup'"]) auto
qed

lemma fm_pages_in_use: "fm_ok (store s) (t_own s) \<Longrightarrow> fm_pages (store s) (t_own s) \<subseteq> in_use s"
  using pages_in_use [of fm_format s] by (simp add: fm_ok_def fm_pages_def rt_ok_def)

lemma fm_moved_trans:
  assumes a: "fm_moved l p s n q t" and b: "fm_moved l q t m q u" and sub: "rt_pages (store s) l p \<subseteq> in_use s"
  shows "fm_moved l p s (n + m) q u"
proof -
  let ?P = "rt_pages (store s) l p" and ?Q = "rt_pages (store t) l q"
  obtain F sup where F: "in_use t = in_use s \<union> F" "F \<inter> in_use s = {}" "set sup \<inter> (session_owned (t_own s) \<union> F) = {}" "accounted ?P F ?Q sup"
      "t_own t = (t_own s)\<lparr>session_owned := session_owned (t_own s) \<union> F, pending_superseded := pending_superseded (t_own s) @ sup\<rparr>"
    using a by (auto simp: fm_moved_def)
  obtain G sup' where G: "in_use u = in_use t \<union> G" "G \<inter> in_use t = {}" "set sup' \<inter> (session_owned (t_own t) \<union> G) = {}"
      "accounted ?Q G (rt_pages (store u) l q) sup'"
      "t_own u = (t_own t)\<lparr>session_owned := session_owned (t_own t) \<union> G, pending_superseded := pending_superseded (t_own t) @ sup'\<rparr>"
    using b by (auto simp: fm_moved_def)
  have own: "session_owned (t_own t) = session_owned (t_own s) \<union> F" by (simp add: F(5))
  have st: "step (insert q (?P \<inter> session_owned (t_own s)) \<union> insert q (?Q \<inter> session_owned (t_own t))) (n + m) s u"
    by (rule step_trans [of _ _ _ t]) (use a b in \<open>simp_all add: fm_moved_def\<close>)
  have "raws t \<subseteq> insert q (raws s)" "raws u \<subseteq> insert q (raws t)" using a b by (simp_all add: fm_moved_def)
  then have raw: "raws u \<subseteq> insert q (raws s)" by blast
  have "step (insert q (?P \<inter> session_owned (t_own s))) (n + m) s u"
    by (rule step_sealed [OF st]) (use writable_later [OF F(4) own F(2)] raw in auto)
  moreover have "accounted ?P (F \<union> G) (rt_pages (store u) l q) (sup @ sup')"
    by (rule accounted_trans [OF F(4) G(4)]) (use F(1) G(2) sub in auto)
  moreover have "set (sup @ sup') \<inter> (session_owned (t_own s) \<union> (F \<union> G)) = {}"
  proof -
    have "set sup \<subseteq> in_use t" using F(1,4) sub by (auto simp: accounted_def)
    then show ?thesis using F(3) own G(2,3) by auto
  qed
  moreover have "rt_ok fm_format (store u) l q" "q \<in> session_owned (t_own u)" using b by (simp_all add: fm_moved_def)
  ultimately show ?thesis
    using raw F(1,2,5) G(1,2,5) unfolding fm_moved_def
    by (intro conjI exI [of _ "F \<union> G"] exI [of _ "sup @ sup'"]) (auto simp: Un_assoc)
qed

lemma fm_moved_evolved:
  assumes mv: "fm_moved (fm_depth (t_own s)) (fm_root (t_own s)) s n q t" and raw: "q \<notin> raws t" and u: "u = t\<lparr>t_own := (t_own t)\<lparr>fm_root := q\<rparr>\<rparr>"
    and ok: "fm_ok (store u) (t_own u)"
  shows "fm_evolved n s u"
proof -
  let ?P = "fm_pages (store s) (t_own s)"
  obtain F sup where F: "in_use t = in_use s \<union> F" "F \<inter> in_use s = {}" "set sup \<inter> (session_owned (t_own s) \<union> F) = {}"
      "accounted ?P F (rt_pages (store t) (fm_depth (t_own s)) q) sup"
      "t_own t = (t_own s)\<lparr>session_owned := session_owned (t_own s) \<union> F, pending_superseded := pending_superseded (t_own s) @ sup\<rparr>"
    and st': "step (insert q (?P \<inter> session_owned (t_own s))) n s t" and rt: "raws t \<subseteq> insert q (raws s)"
      and q: "q \<in> session_owned (t_own t)" "rt_ok fm_format (store t) (fm_depth (t_own s)) q"
    using mv unfolding fm_moved_def fm_pages_def by blast
  have "q \<in> rt_pages (store t) (fm_depth (t_own s)) q" using q(2) by (cases "fm_depth (t_own s)") (auto simp: rt_ok_def)
  then have "q \<in> ?P \<union> F" using accounted_new [OF F(4)] by blast
  then have "q \<in> ?P \<inter> session_owned (t_own s) \<union> F" using q(1) F(5) by auto
  then have st: "step (?P \<inter> session_owned (t_own s)) n s t" using F(2) raw by (intro step_sealed [OF st']) auto
  have p: "fm_pages (store u) (t_own u) = rt_pages (store t) (fm_depth (t_own s)) q" by (simp add: fm_pages_def u F(5))
  have "step (?P \<inter> session_owned (t_own s)) n s u" "in_use u = in_use s \<union> F" using st F(1) by (simp_all add: u)
  moreover have "session_owned (t_own u) = session_owned (t_own s) \<union> F" "pending_superseded (t_own u) = pending_superseded (t_own s) @ sup"
    by (simp_all add: u F(5))
  moreover have "raws u \<subseteq> raws s" using rt raw by (auto simp: u)
  ultimately show ?thesis unfolding fm_evolved_def p using ok F(2-4) by blast
qed

text \<open>The root moves first, then the tree below it changes.\<close>

lemma fm_rerooted:
  assumes mv: "fm_moved (fm_depth (t_own s)) (fm_root (t_own s)) s n q t"
    and mu: "fm_moved (fm_depth (t_own s)) q (t\<lparr>t_own := (t_own t)\<lparr>fm_root := q\<rparr>\<rparr>) m q u"
    and raw: "q \<notin> raws u" and ok: "fm_ok (store u) (t_own u)" and sub: "fm_pages (store s) (t_own s) \<subseteq> in_use s"
  shows "fm_evolved (n + m) s u"
proof -
  let ?u = "u\<lparr>t_own := (t_own u)\<lparr>fm_root := fm_root (t_own t)\<rparr>\<rparr>"
  obtain F sup where F: "in_use u = in_use t \<union> F" "F \<inter> in_use t = {}" "set sup \<inter> (session_owned (t_own t) \<union> F) = {}"
      "accounted (rt_pages (store t) (fm_depth (t_own s)) q) F (rt_pages (store u) (fm_depth (t_own s)) q) sup"
      "t_own u = ((t_own t)\<lparr>fm_root := q\<rparr>)\<lparr>session_owned := session_owned (t_own t) \<union> F,
         pending_superseded := pending_superseded (t_own t) @ sup\<rparr>"
    using mu unfolding fm_moved_def by auto
  have "fm_moved (fm_depth (t_own s)) q t m q ?u"
    using mu F unfolding fm_moved_def by (intro conjI exI [of _ F] exI [of _ sup]) simp_all
  then have "fm_moved (fm_depth (t_own s)) (fm_root (t_own s)) s (n + m) q ?u"
    by (rule fm_moved_trans [OF mv]) (use sub in \<open>simp add: fm_pages_def\<close>)
  then show ?thesis by (rule fm_moved_evolved) (use raw ok F(5) in simp_all)
qed

lemma fm_moved_ok:
  assumes mv: "fm_moved d r s n q t" and d: "fm_depth (t_own t) = d" "d \<le> 5"
    and get: "\<And>k. k < rt_span fm_format d \<Longrightarrow> rt_get fm_format (store t) d q k \<Longrightarrow> k < 2 ^ 64 - 1"
  shows "fm_ok (store t) ((t_own t)\<lparr>fm_root := q\<rparr>)"
  unfolding fm_ok_def using mv d get by (simp add: fm_moved_def)

lemma cow_descend_wp:
  assumes fit: "fit (fm_depth (t_own s) + 1) s" and ok: "fm_ok (store s) (t_own s)"
    and op: "sets_bit leaf_op v" and i: "unat i < rt_span fm_format (fm_depth (t_own s))" "unat i < 2 ^ 64 - 1"
  shows "wp (cow_descend w alloc leaf_op i)
    (\<lambda>_ t. fm_evolved (fm_depth (t_own s) + 1) s t \<and> fm_depth (t_own t) = fm_depth (t_own s) \<and>
       fm_free (store t) (t_own t) = (if v then insert i (fm_free (store s) (t_own s)) else fm_free (store s) (t_own s) - {i}))
    (stuck (fm_depth (t_own s) + 1) s) s"
proof -
  let ?d = "fm_depth (t_own s)" and ?r = "fm_root (t_own s)" and ?ty = "if 0 < fm_depth (t_own s) then FreeMapInterior else FreeMap"
  have d: "?d \<le> 5" and okr: "rt_ok fm_format (store s) ?d ?r" using ok by (simp_all add: fm_ok_def)
  have ty: "?ty = (if ?d = 0 then FreeMap else FreeMapInterior)" by simp
  have "wp (cow_node w alloc ?r ?ty) (\<lambda>q. wp (set_own (\<lambda>t. t\<lparr>fm_root := q\<rparr>)) (\<lambda>_. wp (cow_loop w alloc leaf_op ?d q i)
    (\<lambda>_ t. fm_evolved (?d + 1) s t \<and> fm_depth (t_own t) = ?d \<and>
       fm_free (store t) (t_own t) = (if v then insert i (fm_free (store s) (t_own s)) else fm_free (store s) (t_own s) - {i}))
    (stuck (?d + 1) s)) (stuck (?d + 1) s)) (stuck (?d + 1) s) s"
  proof (rule wp_mono [OF cow_node_wp [OF fit_mono [OF fit] okr ty]], simp, goal_cases)
    case (1 q t)
    let ?t = "t\<lparr>t_own := (t_own t)\<lparr>fm_root := q\<rparr>\<rparr>"
    have mv: "fm_moved ?d ?r s 1 q t" and st: "step {q} 1 s t" and get: "\<And>k. k < rt_span fm_format ?d \<Longrightarrow>
        rt_get fm_format (store t) ?d q k = rt_get fm_format (store s) ?d ?r k" using 1 by auto
    have ft: "fit ?d ?t" using step_fit [OF st, of ?d] fit by simp
    have q: "rt_ok fm_format (store ?t) ?d q" "q \<in> session_owned (t_own ?t)" and dt: "fm_depth (t_own t) = ?d"
      using mv by (auto simp: fm_moved_def)
    have bits: "k < 2 ^ 64 - 1" if "k < rt_span fm_format ?d" "rt_get fm_format (store s) ?d ?r k" for k using that ok by (simp add: fm_ok_def)
    have "wp (cow_loop w alloc leaf_op ?d q i) (\<lambda>_. fm_set ?d q (unat i) v ?t ?d q) (stuck ?d ?t) ?t"
      by (rule cow_loop_wp [OF ft q op i(1) d])
    then have "wp (cow_loop w alloc leaf_op ?d q i) (\<lambda>_ u. fm_evolved (?d + 1) s u \<and> fm_depth (t_own u) = ?d \<and>
       fm_free (store u) (t_own u) = (if v then insert i (fm_free (store s) (t_own s)) else fm_free (store s) (t_own s) - {i}))
      (stuck (?d + 1) s) ?t"
    proof (rule wp_mono, goal_cases)
      case (1 x u)
      have mu: "fm_moved ?d q ?t ?d q u" and qu: "q \<notin> raws u" and gu: "\<And>j. j < rt_span fm_format ?d \<Longrightarrow> rt_get fm_format (store u) ?d q j =
          (if j = unat i then v else rt_get fm_format (store s) ?d ?r j)" using 1 get by (simp_all add: fm_set_def)
      have own: "fm_depth (t_own u) = ?d" "fm_root (t_own u) = q" using mu dt by (auto simp: fm_moved_def)
      have "k < 2 ^ 64 - 1" if "k < rt_span fm_format ?d" "rt_get fm_format (store u) ?d q k" for k
        using that bits [OF that(1)] gu [OF that(1)] i(2) by (cases "k = unat i") simp_all
      then have "fm_ok (store u) ((t_own u)\<lparr>fm_root := q\<rparr>)" by (rule fm_moved_ok [OF mu own(1) d])
      moreover have "(t_own u)\<lparr>fm_root := q\<rparr> = t_own u" using own(2) by (cases "t_own u") simp
      ultimately have "fm_ok (store u) (t_own u)" by simp
      then have "fm_evolved (1 + ?d) s u" by (rule fm_rerooted [OF mv mu qu _ fm_pages_in_use [OF ok]])
      moreover have "fm_free (store u) (t_own u) = (if v then insert i (fm_free (store s) (t_own s)) else fm_free (store s) (t_own s) - {i})"
      proof -
        have "j \<in> fm_free (store u) (t_own u) \<longleftrightarrow> unat j < rt_span fm_format ?d \<and> (if j = i then v else rt_get fm_format (store s) ?d ?r (unat j))" for j
          unfolding fm_free_def own using gu [of "unat j"] by (auto simp: word_unat_eq_iff [of j i])
        then show ?thesis using i(1) unfolding fm_free_def by auto
      qed
      ultimately show ?case using own by simp
    next
      case (2 e u)
      then show ?case using stuck_later [OF st, of ?d] by simp
    qed
    then show ?case by (simp add: set_own_def wp_simps)
  next
    case (2 e t)
    then show ?case by (rule stuck_mono) simp
  qed
  then show ?thesis
    using d fm_past [of ?d i] i(1) by (auto simp: cow_descend_def check_depth_def wp_simps Let_def)
qed

lemma fm_grow_wp:
  assumes fit: "fit 1 s" and ok: "fm_ok (store s) (t_own s)" and d: "fm_depth (t_own s) < 5"
  shows "wp (fm_grow w alloc)
    (\<lambda>_ t. fm_evolved 1 s t \<and> fm_depth (t_own t) = Suc (fm_depth (t_own s)) \<and>
       fm_free (store t) (t_own t) = fm_free (store s) (t_own s)) (stuck 1 s) s"
proof -
  let ?d = "fm_depth (t_own s)" and ?r = "fm_root (t_own s)"
  let ?b = "put_u64 16 ?r (fm_blank 7)"
  let ?f = "\<lambda>buf. stamp_checksum (w_xxh w) (write_child (init_interior w buf) 0 ?r)"
  let ?v = "\<lambda>q. (t_own s)\<lparr>session_owned := insert q (session_owned (t_own s)), fm_root := q, fm_depth := Suc ?d\<rparr>"
  have okr: "rt_ok fm_format (store s) ?d ?r" using ok by (simp add: fm_ok_def)
  have f: "page_ok (?f buf) \<and> page_body (?f buf) = ?b \<and> verify_checksum (w_xxh w) (?f buf)" if "page_ok buf" for buf
    using fm_init_bodies(1) [OF that, of w] by (simp add: write_child_def body_put)
  have len: "length ?b = 8184" and node: "rt_node fm_format ?b" using fm_blank_reads(1,2) [of 7] by (simp_all add: nth_put_uint_other)
  have ch: "child_at ?b 0 = ?r" "i < 1021 \<Longrightarrow> i \<noteq> 0 \<Longrightarrow> child_at ?b i = 0" for i
    using child_at_put [OF fm_blank_reads(1), of 0 _ ?r 7] fm_blank_reads(3) by simp_all
  have "wp (call_alloc alloc) (\<lambda>q. wp (on_cache (pc_with_mut w q ?f)) (\<lambda>_ t.
      fm_evolved 1 s (t\<lparr>t_own := ?v q\<rparr>) \<and> fm_free (store t) (?v q) = fm_free (store s) (t_own s) \<and> t_own t = t_own s) (stuck 1 s)) (stuck 1 s) s"
  proof (rule wp_mono [OF fresh_init_wp [OF fit f]], simp, erule wp_mono, goal_cases)
    case (1 q t0 x t)
    then have t: "step {} 1 s t" "q \<notin> in_use s" "q \<noteq> 0" "in_use t = insert q (in_use s)" "store t = (store s)(q \<mapsto> ?b)" "t_own t = t_own s"
      by (auto simp: fresh_page_def)
    have sub: "rt_pages (store s) ?d ?r \<subseteq> in_use s" using pages_in_use [of fm_format s ?d ?r] okr by (simp add: rt_ok_def)
    have q: "store t q = Some ?b" "q \<notin> rt_pages (store s) ?d ?r" using t sub by auto
    have same: "store t r = store s r" if "r \<in> rt_pages (store s) ?d ?r" for r using that q(2) t(5) by auto
    note g = rt_grown [OF okr q(1) len node t(3) q(2) ch same]
    have le: "rt_span fm_format ?d \<le> rt_span fm_format (Suc ?d)" by (simp add: fm_rt_span)
    have okt: "fm_ok (store t) (?v q)" using ok g(1) d by (auto simp: fm_ok_def g(3) simp del: rt_get.simps split: if_splits)
    have "\<exists>F sup. in_use t = in_use s \<union> F \<and> F \<inter> in_use s = {} \<and> set sup \<inter> (session_owned (t_own s) \<union> F) = {} \<and>
        accounted (fm_pages (store s) (t_own s)) F (fm_pages (store t) (?v q)) sup \<and>
        session_owned (?v q) = session_owned (t_own s) \<union> F \<and> pending_superseded (?v q) = pending_superseded (t_own s) @ sup"
      using g(2) t(2,4) sub by (intro exI [of _ "{q}"] exI [of _ "[]"]) (auto simp: fm_pages_def accounted_def)
    then have "fm_evolved 1 s (t\<lparr>t_own := ?v q\<rparr>)" using okt step_weaken [OF t(1), of _ 1] step_raw [OF t(1)] unfolding fm_evolved_def by simp
    moreover have "fm_free (store t) (?v q) = fm_free (store s) (t_own s)" using le by (auto simp: fm_free_def g(3) simp del: rt_get.simps split: if_splits)
    ultimately show ?case using t(6) by blast
  qed simp_all
  then have "wp (call_alloc alloc) (\<lambda>q. wp (on_cache (pc_with_mut w q ?f)) (\<lambda>_ t.
      fm_evolved 1 s (t\<lparr>t_own := (t_own t)\<lparr>session_owned := insert q (session_owned (t_own t)), fm_root := q, fm_depth := Suc (fm_depth (t_own t))\<rparr>\<rparr>) \<and>
      fm_depth (t_own t) = ?d \<and>
      fm_free (store t) ((t_own t)\<lparr>session_owned := insert q (session_owned (t_own t)), fm_root := q, fm_depth := Suc (fm_depth (t_own t))\<rparr>) =
        fm_free (store s) (t_own s)) (stuck 1 s)) (stuck 1 s) s"
    by (elim wp_mono) auto
  then show ?thesis using d by (simp add: fm_grow_def wp_simps set_own_def)
qed

lemma fm_grow_loop_wp:
  assumes "fit n s" and "fm_ok (store s) (t_own s)" and "n = 5 - fm_depth (t_own s)"
  shows "wp (fm_grow_loop w alloc n i)
    (\<lambda>_ t. fm_evolved n s t \<and> unat i < rt_span fm_format (fm_depth (t_own t)) \<and>
       fm_free (store t) (t_own t) = fm_free (store s) (t_own s)) (stuck n s) s"
  using assms
proof (induction n arbitrary: s)
  case 0
  then have "fm_depth (t_own s) = 5" by (auto simp: fm_ok_def)
  then show ?case using 0 fm_top [of i] fm_evolved_refl by (simp add: wp_simps)
next
  case (Suc n)
  have d: "fm_depth (t_own s) < 5" using Suc.prems(3) by simp
  show ?case
  proof (cases "fm_capacity (fm_depth (t_own s)) \<le> i")
    case False
    then have "unat i < rt_span fm_format (fm_depth (t_own s))" using fm_past [of "fm_depth (t_own s)" i] by (cases "fm_capacity (fm_depth (t_own s)) = - 1") auto
    then show ?thesis using False fm_evolved_mono [OF fm_evolved_refl [OF Suc.prems(1,2)]] by (simp add: wp_simps)
  next
    case True
    have "wp (fm_grow w alloc) (\<lambda>_. wp (fm_grow_loop w alloc n i) (\<lambda>_ t. fm_evolved (Suc n) s t \<and>
        unat i < rt_span fm_format (fm_depth (t_own t)) \<and> fm_free (store t) (t_own t) = fm_free (store s) (t_own s)) (stuck (Suc n) s)) (stuck (Suc n) s) s"
    proof (rule wp_mono [OF fm_grow_wp [OF fit_mono [OF Suc.prems(1)] Suc.prems(2) d]], simp, goal_cases)
      case (1 x t)
      then have e: "fm_evolved 1 s t" and st: "step (fm_pages (store s) (t_own s) \<inter> session_owned (t_own s)) 1 s t" by (simp_all add: fm_evolved_def)
      have ft: "fit n t" using step_fit [OF st, of n] Suc.prems(1) by simp
      show ?case
      proof (rule wp_mono [OF Suc.IH [OF ft]], goal_cases)
        case (3 y u)
        then show ?case using 1 fm_evolved_trans [OF e, of n u] fm_pages_in_use [OF Suc.prems(2)] by simp
      next
        case (4 z u)
        then show ?case using stuck_later [OF st, of n] by simp
      qed (use 1 Suc.prems(3) in \<open>auto simp: fm_evolved_def\<close>)
    next
      case (2 e t)
      then show ?case by (rule stuck_mono) simp
    qed
    then show ?thesis using True d by (simp add: wp_simps)
  qed
qed

lemma mark_free_growing_wp:
  assumes fit: "fit 11 s" and ok: "fm_ok (store s) (t_own s)" and i: "unat i < 2 ^ 64 - 1"
  shows "wp (mark_free_growing w alloc i)
    (\<lambda>_ t. fm_evolved 11 s t \<and> fm_free (store t) (t_own t) = insert i (fm_free (store s) (t_own s))) (stuck 11 s) s"
proof -
  let ?n = "5 - fm_depth (t_own s)"
  have d: "fm_depth (t_own s) \<le> 5" using ok by (simp add: fm_ok_def)
  have f: "fit ?n s" by (rule fit_mono [OF fit]) simp
  have "wp (fm_grow_loop w alloc ?n i) (\<lambda>_. wp (fm_mark_free w alloc i) (\<lambda>_ t. fm_evolved 11 s t \<and>
      fm_free (store t) (t_own t) = insert i (fm_free (store s) (t_own s))) (stuck 11 s)) (stuck 11 s) s"
  proof (rule wp_mono [OF fm_grow_loop_wp [OF f ok refl]], goal_cases)
    case (1 x t)
    then have e: "fm_evolved ?n s t" and st: "step (fm_pages (store s) (t_own s) \<inter> session_owned (t_own s)) ?n s t"
      and okt: "fm_ok (store t) (t_own t)" by (simp_all add: fm_evolved_def)
    have dt: "fm_depth (t_own t) \<le> 5" using okt by (simp add: fm_ok_def)
    have "fit 6 t" using step_fit [OF st, of 6] fit_mono [OF fit, of "?n + 6"] by simp
    then have ft: "fit (fm_depth (t_own t) + 1) t" by (rule fit_mono) (use dt in simp)
    show ?case
      unfolding fm_mark_free_def
    proof (rule wp_mono [OF cow_descend_wp [OF ft okt mark_sets_bit _ i]], use 1 in simp, goal_cases)
      case (1 y u)
      then have "fm_evolved (?n + (fm_depth (t_own t) + 1)) s u" using fm_evolved_trans [OF e, of "fm_depth (t_own t) + 1" u] fm_pages_in_use [OF ok] by simp
      then have "fm_evolved 11 s u" by (rule fm_evolved_mono) (use dt in simp)
      then show ?case using 1 \<open>fm_evolved ?n s t \<and> _\<close> by simp
    next
      case (2 z u)
      then have "stuck (?n + (fm_depth (t_own t) + 1)) s z u" using stuck_later [OF st, of "fm_depth (t_own t) + 1" z u] by simp
      then show ?case by (rule stuck_mono) (use dt in simp)
    qed
  next
    case (2 z u)
    then show ?case by (rule stuck_mono) simp
  qed
  then show ?thesis using d by (simp add: mark_free_growing_def check_depth_def wp_simps)
qed

end

section \<open>Reading\<close>

lemma fm_children_eq: "page_body buf = b \<Longrightarrow> fm_children buf = children b"
  by (auto simp: fm_children_def children_def read_child_def child_of_body intro!: filter_cong)

lemma check_type_wp: "page_body buf = b \<Longrightarrow> b ! 0 = page_type_tag t \<Longrightarrow> length b = 8184 \<Longrightarrow> check_type buf t p = ok ()"
  using nth_of_body [of buf b 0] by (auto simp: check_type_def)

lemma find_append: "find P (xs @ ys) = (case find P xs of None \<Rightarrow> find P ys | Some y \<Rightarrow> Some y)"
  by (induction xs) auto

lemma first_found_quiet:
  assumes "pc_inv w c"
    and "\<And>x d. x \<in> set xs \<Longrightarrow> quiet w c d \<Longrightarrow> wp (f x) (\<lambda>r e. quiet w d e \<and> r = find P (h x)) (read_fails w d) d"
  shows "wp (first_found xs f) (\<lambda>r d. quiet w c d \<and> r = find P (concat (map h xs))) (read_fails w c) c"
  using assms
proof (induction xs arbitrary: c)
  case Nil
  then show ?case by (simp add: wp_simps quiet_refl)
next
  case (Cons x xs)
  show ?case
    unfolding first_found.simps wp_and_then
  proof (rule wp_mono [OF Cons.prems(2) [of x c]], simp, rule quiet_refl [OF Cons.prems(1)], goal_cases)
    case (1 a d)
    then have q: "quiet w c d" and a: "a = find P (h x)" by auto
    have "wp (first_found xs f) (\<lambda>r e. quiet w d e \<and> r = find P (concat (map h xs))) (read_fails w d) d"
      by (rule Cons.IH) (use q Cons.prems(2) quiet_trans [OF q] in \<open>auto simp: quiet_def\<close>)
    then have "wp (first_found xs f) (\<lambda>r e. quiet w c e \<and> r = find P (concat (map h xs))) (read_fails w c) d"
      by (rule wp_mono) (auto intro: quiet_trans [OF q] read_fails_later [OF q])
    then show ?case using q a by (cases "find P (h x)") (simp_all add: find_append wp_simps)
  qed
qed

definition fm_list :: "(u64 \<rightharpoonup> u8 list) \<Rightarrow> nat \<Rightarrow> u64 \<Rightarrow> nat \<Rightarrow> u64 list" where
  "fm_list B l p n = map fst (rt_list fm_format (\<lambda>v. v) B l p n)"

lemma fm_list_filter:
  "fm_list B l p n = map (\<lambda>k. sat (n + k)) (filter (rt_get fm_format B l p) [0..<rt_span fm_format l])"
  by (simp add: fm_list_def rt_list_filter)

lemma fm_list_Suc:
  "B p = Some b \<Longrightarrow> fm_list B (Suc l) p n = concat (map (\<lambda>(i, c). fm_list B l c (n + i * rt_span fm_format l)) (children b))"
  unfolding fm_list_def
  by (subst rt_list_Suc [where b = b]) (auto simp: map_concat fm_rt_span comp_def case_prod_unfold)

lemma upt_split: "k < n \<Longrightarrow> [0..<n] = [0..<k] @ k # [Suc k..<n]"
  using upt_add_eq_append [of 0 k "n - k"] by (simp add: upt_conv_Cons)

lemma leaf_scan:
  assumes b: "B p = Some (page_body buf)" and buf: "page_ok buf"
    and fits: "\<And>k. k < 65344 \<Longrightarrow> rt_get fm_format B 0 p k \<Longrightarrow> n + k < 2 ^ 64 - 1"
  shows "map_option (\<lambda>b. sat n + b) (first_free_bit_from buf (saturating_sub lo (sat n))) = find (\<lambda>x. lo \<le> x) (fm_list B 0 p n)"
proof -
  let ?lo = "saturating_sub lo (sat n)" and ?g = "rt_get fm_format B 0 p" and ?f = "\<lambda>k. sat (n + k)"
  have g: "?g k \<longleftrightarrow> freemap_is_free buf (word_of_nat k)" for k using b is_free_body [OF refl, of buf] by simp
  have u: "unat (?f k) = n + k" "lo \<le> ?f k \<longleftrightarrow> ?lo \<le> word_of_nat k" if "k < 65344" "?g k" for k
    using fits [OF that] that(1)
    by (auto simp: unat_sat word_le_nat_alt unat_saturating_sub unat_of_nat)
  note spec = first_free_bit_from_spec [OF buf, of ?lo]
  show ?thesis
  proof (cases "first_free_bit_from buf ?lo")
    case None
    then have "\<not> lo \<le> ?f k" if "k < 65344" "?g k" for k using spec u [OF that] g that by auto
    then have "find (\<lambda>x. lo \<le> x) (fm_list B 0 p n) = None" by (auto simp: find_None_iff fm_list_filter fm_rt_span)
    then show ?thesis using None by simp
  next
    case (Some i)
    let ?i = "unat i"
    have i: "freemap_is_free buf i" "?lo \<le> i" "\<And>j. ?lo \<le> j \<Longrightarrow> j < i \<Longrightarrow> \<not> freemap_is_free buf j" using spec Some by auto
    have small: "?i < 65344" and gi: "?g ?i" using i(1) g [of ?i] by (simp_all add: freemap_is_free_bit)
    have before: "find (\<lambda>x. lo \<le> x) (map ?f (filter ?g [0..<?i])) = None"
    proof -
      have "\<not> lo \<le> ?f k" if "k < ?i" "?g k" for k
        using i(3) [of "word_of_nat k"] u(2) [of k] g [of k] that small by (auto simp: word_less_nat_alt unat_of_nat)
      then show ?thesis by (auto simp: find_None_iff)
    qed
    have "fm_list B 0 p n = map ?f (filter ?g [0..<?i]) @ ?f ?i # map ?f (filter ?g [Suc ?i..<65344])"
      unfolding fm_list_filter rt_span_0 fm_format_simps(1) upt_split [OF small] using gi by simp
    then have "find (\<lambda>x. lo \<le> x) (fm_list B 0 p n) = Some (?f ?i)"
      using before u(2) [OF small gi] i(2) by (simp add: find_append)
    moreover have "?f ?i = sat n + i"
      using fits [OF small gi] by (simp add: sat_small)
    ultimately show ?thesis using Some by simp
  qed
qed

lemma scan_node_wp:
  assumes "pc_inv w c" and W: "world_ok w" and "rt_wf fm_format (page_store w T c) l p" and "l \<le> 5"
    and "\<And>k. k < rt_span fm_format l \<Longrightarrow> rt_get fm_format (page_store w T c) l p k \<Longrightarrow> n + k < 2 ^ 64 - 1"
  shows "wp (scan_node w l p (sat n) lo)
    (\<lambda>r d. quiet w c d \<and> r = find (\<lambda>x. lo \<le> x) (fm_list (page_store w T c) l p n)) (read_fails w c) c"
  using assms(1,3-)
proof (induction l arbitrary: c p n)
  case 0
  then obtain b where b: "page_store w T c p = Some b" "length b = 8184" "b ! 0 = page_type_tag FreeMap" by auto
  show ?case
    unfolding scan_node.simps wp_and_then
  proof (rule wp_mono [OF store_page_wp [OF 0(1) W b(1)]], goal_cases)
    case (1 buf d)
    then have b': "page_store w T c p = Some (page_body buf)" "page_ok buf" and q: "quiet w c d" using b(1) by auto
    have body: "page_body buf = b" using 1 by simp
    show ?case using leaf_scan [where B = "page_store w T c", OF b', of n lo] 0(4) q
      by (simp add: check_type_wp [OF body b(3,2)] wp_simps Let_def del: rt_get.simps)
  qed
next
  case (Suc l)
  let ?B = "page_store w T c" and ?sp = "rt_span fm_format l"
  obtain b where b: "?B p = Some b" "length b = 8184" "b ! 0 = page_type_tag FreeMapInterior"
    and kids: "\<And>i. i < 1021 \<Longrightarrow> child_at b i \<noteq> 0 \<Longrightarrow> rt_wf fm_format ?B l (child_at b i)"
    using Suc.prems(2) by auto
  have l4: "l \<le> 4" using Suc.prems(3) by simp
  have sp: "child_span (Suc l) = sat ?sp" using fm_span [OF l4] by (metis sat_unat)
  have pos: "0 < ?sp" by (simp add: fm_rt_span)
  show ?case
    unfolding scan_node.simps Let_def wp_and_then
  proof (rule wp_mono [OF store_page_wp [OF Suc.prems(1) W b(1)]], goal_cases)
    case (1 buf d)
    then have q: "quiet w c d" and ch: "fm_children buf = children b" using fm_children_eq by auto
    have inv: "pc_inv w d" using q by (simp add: quiet_def)
    let ?step = "\<lambda>(i, child). if saturating_add (saturating_add (sat n) (saturating_mul (word_of_nat i) (child_span (Suc l)))) (child_span (Suc l)) \<le> lo
        then ok None else scan_node w l child (saturating_add (sat n) (saturating_mul (word_of_nat i) (child_span (Suc l)))) lo"
    have "wp (first_found (children b) ?step)
        (\<lambda>r e. quiet w d e \<and> r = find (\<lambda>x. lo \<le> x) (concat (map (\<lambda>(i, c). fm_list ?B l c (n + i * ?sp)) (children b)))) (read_fails w d) d"
    proof (rule first_found_quiet [OF inv], clarify)
      fix i child e
      assume x: "(i, child) \<in> set (children b)" and e: "quiet w d e"
      have i: "i < 1021" "child = child_at b i" "child \<noteq> 0" using x by (auto simp: children_def)
      have base: "saturating_add (sat n) (saturating_mul (word_of_nat i) (child_span (Suc l))) = sat (n + i * ?sp)"
        using i(1) by (simp add: sp sat_add sat_mul sat_small [symmetric])
      have fits: "n + i * ?sp + k < 2 ^ 64 - 1" if "k < ?sp" "rt_get fm_format ?B l child k" for k
      proof -
        have "Suc i * ?sp \<le> 1021 * ?sp" using i(1) by (intro mult_le_mono1) simp
        then have "i * ?sp + k < rt_span fm_format (Suc l)" using that(1) unfolding rt_span_Suc mult_Suc by linarith
        then show ?thesis using Suc.prems(4) [of "i * ?sp + k"] b(1) i that by (simp add: add.assoc Let_def)
      qed
      have skip: "find (\<lambda>x. lo \<le> x) (fm_list ?B l child (n + i * ?sp)) = None" if "sat (n + i * ?sp + ?sp) \<le> lo"
      proof -
        have "\<not> lo \<le> sat (n + i * ?sp + k)" if k: "k < ?sp" "rt_get fm_format ?B l child k" for k
        proof -
          have "sat (n + i * ?sp + k) < sat (n + i * ?sp + ?sp)" using fits [OF k] k(1) by (simp add: word_less_nat_alt unat_sat)
          then show ?thesis using \<open>sat (n + i * ?sp + ?sp) \<le> lo\<close> by simp
        qed
        then show ?thesis by (auto simp: find_None_iff fm_list_filter)
      qed
      have B: "page_store w T e = ?B" and inve: "pc_inv w e" using quiet_page_store [OF quiet_trans [OF q e]] e by (simp_all add: quiet_def)
      have "wp (scan_node w l child (sat (n + i * ?sp)) lo)
          (\<lambda>r f. quiet w e f \<and> r = find (\<lambda>x. lo \<le> x) (fm_list ?B l child (n + i * ?sp))) (read_fails w e) e"
        using Suc.IH [of e child "n + i * ?sp"] inve kids [OF i(1)] i l4 fits by (simp add: B)
      then show "wp (if saturating_add (saturating_add (sat n) (saturating_mul (word_of_nat i) (child_span (Suc l)))) (child_span (Suc l)) \<le> lo
          then ok None else scan_node w l child (saturating_add (sat n) (saturating_mul (word_of_nat i) (child_span (Suc l)))) lo)
          (\<lambda>r f. quiet w e f \<and> r = find (\<lambda>x. lo \<le> x) (fm_list ?B l child (n + i * ?sp))) (read_fails w e) e"
        using skip quiet_refl [OF inve] unfolding base by (simp add: sp sat_add wp_simps)
    qed
    moreover have body: "page_body buf = b" using 1 by simp
    ultimately show ?case
      unfolding ch fm_list_Suc [where B = ?B and p = p, OF b(1)]
      by (simp add: check_type_wp [OF body b(3,2)] wp_simps) (elim wp_mono, auto intro: quiet_trans [OF q] read_fails_later [OF q])
  qed
qed

definition least_free :: "u64 set \<Rightarrow> u64 \<Rightarrow> u64 option \<Rightarrow> bool" where
  "least_free F lo r \<longleftrightarrow> (case r of None \<Rightarrow> \<forall>i \<in> F. i < lo | Some x \<Rightarrow> x \<in> F \<and> lo \<le> x \<and> (\<forall>i \<in> F. lo \<le> i \<longrightarrow> x \<le> i))"

lemma find_least: "sorted_wrt (<) xs \<Longrightarrow> least_free (set xs) lo (find (\<lambda>x. lo \<le> x) xs)"
  unfolding least_free_def by (induction xs) (auto split: option.splits)

lemma scan_from_wp:
  assumes inv: "pc_inv w c" and W: "world_ok w" and ok: "fm_ok (page_store w T c) t"
  shows "wp (scan_from w t lo) (\<lambda>r d. quiet w c d \<and> least_free (fm_free (page_store w T c) t) lo r) (read_fails w c) c"
proof -
  let ?B = "page_store w T c" and ?d = "fm_depth t" and ?r = "fm_root t"
  have d: "?d \<le> 5" and wf: "rt_wf fm_format ?B ?d ?r" using ok by (auto simp: fm_ok_def rt_ok_def)
  have bits: "k < 2 ^ 64 - 1" if "k < rt_span fm_format ?d" "rt_get fm_format ?B ?d ?r k" for k
    using ok that by (auto simp: fm_ok_def)
  have big: "k < 2 ^ 64" if "k < rt_span fm_format ?d" "rt_get fm_format ?B ?d ?r k" for k
    using bits [OF that] by (rule less_le_trans) simp
  have srt: "sorted_wrt (<) (fm_list ?B ?d ?r 0)"
    "(x, v) \<in> set (rt_list fm_format (\<lambda>v. v) ?B ?d ?r 0) \<longleftrightarrow> unat x < rt_span fm_format ?d \<and> v = rt_get fm_format ?B ?d ?r (unat x) \<and> v" for x v
    unfolding fm_list_def using rt_list_sorted [of fm_format ?d "\<lambda>v. v" ?B ?r] big by blast+
  have "x \<in> set (fm_list ?B ?d ?r 0) \<longleftrightarrow> (\<exists>v. (x, v) \<in> set (rt_list fm_format (\<lambda>v. v) ?B ?d ?r 0))" for x
    unfolding fm_list_def by force
  then have lst: "sorted_wrt (<) (fm_list ?B ?d ?r 0)" "set (fm_list ?B ?d ?r 0) = fm_free ?B t"
    using srt(1) unfolding srt(2) fm_free_def by auto
  have "wp (scan_node w ?d ?r (sat 0) lo) (\<lambda>r e. quiet w c e \<and> r = find (\<lambda>x. lo \<le> x) (fm_list ?B ?d ?r 0)) (read_fails w c) c"
    by (rule scan_node_wp [OF inv W wf d]) (use bits in simp)
  then show ?thesis
    using d find_least [OF lst(1), of lo]
    by (simp add: scan_from_def check_depth_def wp_simps sat_def lst(2)) (elim wp_mono, auto)
qed

definition leaf_for :: "(u64 \<rightharpoonup> u8 list) \<Rightarrow> u64 \<Rightarrow> bool \<Rightarrow> u64 option \<Rightarrow> bool" where
  "leaf_for B i v r \<longleftrightarrow> (case r of None \<Rightarrow> \<not> v | Some q \<Rightarrow> \<exists>b. B q = Some b \<and> freemap_is_free b (i mod 65344) = v)"

lemma fm_descend_wp:
  assumes "pc_inv w c" and W: "world_ok w" and "rt_wf fm_format (page_store w T c) l p" and "l \<le> 5"
    and "unat i < rt_span fm_format l"
  shows "wp (fm_descend w l p i)
    (\<lambda>r d. quiet w c d \<and> leaf_for (page_store w T c) i (rt_get fm_format (page_store w T c) l p (unat i)) r) (read_fails w c) c"
  using assms(1,3-)
proof (induction l arbitrary: c p i)
  case 0
  then obtain b where b: "page_store w T c p = Some b" "length b = 8184" "b ! 0 = page_type_tag FreeMap" by auto
  have "i mod 65344 = i" using 0(4) by (simp add: word_unat_eq_iff unat_mod)
  then show ?case
    unfolding fm_descend.simps wp_and_then
    by (intro wp_mono [OF store_page_wp [OF 0(1) W b(1)]]) (auto simp: wp_simps b check_type_wp [OF _ b(3,2)] leaf_for_def)
next
  case (Suc l)
  let ?B = "page_store w T c" and ?sp = "rt_span fm_format l" and ?j = "i mod child_span (Suc l)"
  let ?k = "unat i div rt_span fm_format l"
  obtain b where b: "?B p = Some b" "length b = 8184" "b ! 0 = page_type_tag FreeMapInterior"
    and kids: "\<And>i. i < 1021 \<Longrightarrow> child_at b i \<noteq> 0 \<Longrightarrow> rt_wf fm_format ?B l (child_at b i)"
    using Suc.prems(2) by auto
  have l4: "l \<le> 4" using Suc.prems(3) by simp
  have k: "?k < 1021" using Suc.prems(4) by (simp add: rt_span_Suc less_mult_imp_div_less)
  have j: "unat ?j < ?sp" "unat ?j = unat i mod ?sp" using fm_digit(2) [OF l4, of i] by (simp_all add: fm_rt_span)
  have m: "?j mod 65344 = i mod 65344"
    by (simp add: word_unat_eq_iff unat_mod [of _ 65344] j(2) fm_rt_span mod_mod_cancel)
  show ?case
    unfolding fm_descend.simps Let_def wp_and_then
  proof (rule wp_mono [OF store_page_wp [OF Suc.prems(1) W b(1)]], goal_cases)
    case (1 buf d)
    then have q: "quiet w c d" and body: "page_body buf = b" by auto
    have B: "page_store w T d = ?B" and inv: "pc_inv w d" using quiet_page_store [OF q] q by (simp_all add: quiet_def)
    have ch: "read_child buf ?k = child_at b ?k" using child_of_body [OF body k] by (simp add: read_child_def)
    show ?case
    proof (cases "child_at b ?k = 0")
      case True
      then show ?thesis using k ch q b(1) by (simp add: check_type_wp [OF body b(3,2)] wp_simps fm_digit(1) [OF l4] Let_def leaf_for_def)
    next
      case False
      have get: "rt_get fm_format ?B (Suc l) p (unat i) = rt_get fm_format ?B l (child_at b ?k) (unat ?j)"
        using False b(1) j(2) by (simp add: Let_def)
      have lf: "leaf_for ?B ?j v r \<longleftrightarrow> leaf_for ?B i v r" for v r unfolding leaf_for_def m ..
      show ?thesis
        unfolding get using Suc.IH [of d "child_at b ?k" ?j] inv kids [OF k False] l4 j(1) False k ch
        by (simp add: check_type_wp [OF body b(3,2)] wp_simps fm_digit(1) [OF l4] Let_def B lf del: rt_get.simps)
          (elim wp_mono, auto intro: quiet_trans [OF q] read_fails_later [OF q] simp del: rt_get.simps)
    qed
  qed
qed

lemma fm_is_free_wp:
  assumes inv: "pc_inv w c" and W: "world_ok w" and ok: "fm_ok (page_store w T c) t"
  shows "wp (fm_is_free w t i) (\<lambda>r d. quiet w c d \<and> r = (i \<in> fm_free (page_store w T c) t)) (read_fails w c) c"
proof -
  let ?B = "page_store w T c" and ?d = "fm_depth t" and ?r = "fm_root t"
  have d: "?d \<le> 5" and wf: "rt_wf fm_format ?B ?d ?r" using ok by (auto simp: fm_ok_def rt_ok_def)
  show ?thesis
  proof (cases "unat i < rt_span fm_format ?d")
    case False
    then show ?thesis using fm_past [of ?d i] d inv
      by (simp add: fm_is_free_def fm_find_leaf_def check_depth_def wp_simps fm_free_def quiet_refl)
  next
    case True
    let ?v = "rt_get fm_format ?B ?d ?r (unat i)"
    have v: "i \<in> fm_free ?B t \<longleftrightarrow> ?v" using True by (simp add: fm_free_def)
    have find: "fm_find_leaf w t i = fm_descend w ?d ?r i"
      using True fm_past [of ?d i] d by (auto simp: fm_find_leaf_def check_depth_def and_then_def ok_def)
    have "wp (fm_descend w ?d ?r i) (\<lambda>leaf. wp (case leaf of None \<Rightarrow> ok False
        | Some leaf \<Rightarrow> and_then (pc_get w leaf) (\<lambda>buf. ok (freemap_is_free buf (i mod word_of_nat LEAF_CAPACITY))))
        (\<lambda>r d. quiet w c d \<and> r = ?v) (read_fails w c)) (read_fails w c) c"
    proof (rule wp_mono [OF fm_descend_wp [OF inv W wf d True]], goal_cases)
      case (1 leaf e)
      then have q: "quiet w c e" and lf: "leaf_for ?B i ?v leaf" by auto
      show ?case
      proof (cases leaf)
        case None
        then show ?thesis using q lf by (simp add: wp_simps leaf_for_def)
      next
        case (Some p)
        then obtain b where b: "?B p = Some b" "freemap_is_free b (i mod 65344) = ?v" using lf by (auto simp: leaf_for_def)
        have be: "page_store w T e p = Some b" and inve: "pc_inv w e"
          using b(1) quiet_page_store [OF q] q by (simp_all add: quiet_def)
        show ?thesis
          unfolding Some option.case wp_and_then
          by (rule wp_mono [OF store_page_wp [OF inve W be]])
            (auto simp: wp_simps b(2) is_free_body [of _ b] intro: quiet_trans [OF q] read_fails_later [OF q])
      qed
    qed
    then show ?thesis unfolding fm_is_free_def find v wp_and_then .
  qed
qed

lemma fold_union: "fold (\<lambda>x acc. acc \<union> g x) xs acc = acc \<union> (\<Union>x \<in> set xs. g x)"
  by (induction xs arbitrary: acc) auto

lemma collect_reachable_wp:
  assumes "pc_inv w c" and W: "world_ok w" and "rt_wf fm_format (page_store w T c) l p"
  shows "wp (collect_reachable w l p reached)
    (\<lambda>r d. quiet w c d \<and> r = reached \<union> rt_pages (page_store w T c) l p) (read_fails w c) c"
  using assms(1,3)
proof (induction l arbitrary: c p reached)
  case 0
  then obtain b where b: "page_store w T c p = Some b" "length b = 8184" "b ! 0 = page_type_tag FreeMap" by auto
  show ?case
    unfolding collect_reachable.simps wp_and_then
    by (rule wp_mono [OF store_page_wp [OF 0(1) W b(1)]]) (auto simp: wp_simps check_type_wp [OF _ b(3,2)])
next
  case (Suc l)
  let ?B = "page_store w T c"
  obtain b where b: "?B p = Some b" "length b = 8184" "b ! 0 = page_type_tag FreeMapInterior"
    and kids: "\<And>i. i < 1021 \<Longrightarrow> child_at b i \<noteq> 0 \<Longrightarrow> rt_wf fm_format ?B l (child_at b i)"
    using Suc.prems(2) by auto
  let ?loop = "\<lambda>buf. fold_each (fm_children buf) (\<lambda>(_, child) reached. collect_reachable w l child reached) (insert p reached)"
  have pages: "insert p reached \<union> (\<Union>(i, child) \<in> set (children b). rt_pages ?B l child) = reached \<union> rt_pages ?B (Suc l) p"
    using b(1) by (force simp: children_def rt_pages_kids kid_pages_def split: if_splits)
  have loop: "wp (?loop buf) (\<lambda>r f. quiet w e f \<and> r = reached \<union> rt_pages ?B (Suc l) p) (read_fails w e) e"
    if e: "quiet w c e" and body: "page_body buf = b" for e buf
  proof -
    have inv: "pc_inv w e" using e by (simp add: quiet_def)
    have "wp (?loop buf) (\<lambda>r f. quiet w e f \<and> r = fold (\<lambda>x acc. acc \<union> (case x of (i, child) \<Rightarrow> rt_pages ?B l child)) (children b) (insert p reached)) (read_fails w e) e"
      unfolding fm_children_eq [OF body]
    proof (rule fold_each_quiet [OF inv], clarify)
      fix i child acc f
      assume x: "(i, child) \<in> set (children b)" and f: "quiet w e f"
      have i: "i < 1021" "child = child_at b i" "child \<noteq> 0" using x by (auto simp: children_def)
      have "page_store w T f = ?B" "pc_inv w f" using quiet_page_store [OF quiet_trans [OF e f]] f by (simp_all add: quiet_def)
      then show "wp (collect_reachable w l child acc) (\<lambda>r g. quiet w f g \<and> r = acc \<union> rt_pages ?B l child) (read_fails w f) f"
        using Suc.IH [of f child acc] kids [OF i(1)] i by simp
    qed
    then show ?thesis unfolding fold_union pages .
  qed
  show ?case
    unfolding collect_reachable.simps wp_and_then
  proof (rule wp_mono [OF store_page_wp [OF Suc.prems(1) W b(1)]], goal_cases)
    case (1 buf d)
    then have q: "quiet w c d" and body: "page_body buf = b" by auto
    have bd: "page_store w T d p = Some b" and invd: "pc_inv w d"
      using b(1) quiet_page_store [OF q] q by (simp_all add: quiet_def)
    have "wp (pc_get w p) (\<lambda>buf. wp (?loop buf) (\<lambda>r e. quiet w c e \<and> r = reached \<union> rt_pages ?B (Suc l) p) (read_fails w c)) (read_fails w c) d"
    proof (rule wp_mono [OF store_page_wp [OF invd W bd]], goal_cases)
      case (1 buf e)
      then have e: "quiet w c e" using quiet_trans [OF q] by simp
      show ?case
        by (rule wp_mono [OF loop [OF e]]) (use 1 in \<open>auto intro: quiet_trans [OF e] read_fails_later [OF e]\<close>)
    qed (rule read_fails_later [OF q])
    then show ?case by (simp add: check_type_wp [OF body b(3,2)] wp_simps)
  qed
qed

lemma reachable_pages_wp:
  assumes "pc_inv w c" and "world_ok w" and "fm_ok (page_store w T c) t" and "fm_root t \<noteq> PAGE_ID_NONE"
  shows "wp (reachable_pages w t) (\<lambda>r d. quiet w c d \<and> r = fm_pages (page_store w T c) t) (read_fails w c) c"
  using collect_reachable_wp [OF assms(1,2), of T "fm_depth t" "fm_root t" "{}"] assms(3,4)
  by (auto simp: reachable_pages_def check_depth_def wp_simps fm_ok_def rt_ok_def fm_pages_def)

section \<open>Taking the first free page\<close>

context page_alloc
begin

lemma allocate_first_wp:
  assumes fit: "fit 6 s" and ok: "fm_ok (store s) (t_own s)"
  shows "wp (allocate_first w alloc hint)
    (\<lambda>(r, h) t. least_free (fm_free (store s) (t_own s)) hint r \<and> h = (case r of None \<Rightarrow> hint | Some x \<Rightarrow> x) \<and>
       fm_evolved 6 s t \<and> fm_depth (t_own t) = fm_depth (t_own s) \<and>
       fm_free (store t) (t_own t) = (case r of None \<Rightarrow> fm_free (store s) (t_own s) | Some x \<Rightarrow> fm_free (store s) (t_own s) - {x}))
    (stuck 6 s) s"
proof -
  let ?T = "t_own s" and ?F = "fm_free (store s) (t_own s)"
  let ?Q = "\<lambda>(r, h) t. least_free ?F hint r \<and> h = (case r of None \<Rightarrow> hint | Some x \<Rightarrow> x) \<and> fm_evolved 6 s t \<and>
    fm_depth (t_own t) = fm_depth ?T \<and> fm_free (store t) (t_own t) = (case r of None \<Rightarrow> ?F | Some x \<Rightarrow> ?F - {x})"
  have inv: "pc_inv w (t_cache s)" and W: "world_ok w" using fit world by (auto simp: fit_def)
  have d: "fm_depth ?T \<le> 5" using ok by (simp add: fm_ok_def)
  have scan: "wp (on_cache (scan_from w ?T hint))
      (\<lambda>r t. least_free ?F hint r \<and> step {} 0 s t \<and> store t = store s \<and> in_use t = in_use s \<and> t_own t = t_own s) (stuck 0 s) s"
    unfolding store_def by (rule quiet_wp [OF fit, unfolded store_def], rule scan_from_wp [OF inv W])
      (use ok in \<open>simp add: store_def\<close>)
  have "wp (on_cache (scan_from w ?T hint)) (\<lambda>found. wp (case found of None \<Rightarrow> ok (None, hint)
      | Some found \<Rightarrow> and_then (fm_clear_bit w alloc found) (\<lambda>_. ok (Some found, found))) ?Q (stuck 6 s)) (stuck 6 s) s"
  proof (rule wp_mono [OF scan], goal_cases)
    case (1 r t)
    then have lf: "least_free ?F hint r" and st: "step {} 0 s t" and same: "store t = store s" "in_use t = in_use s" "t_own t = ?T" by auto
    have e0: "fm_evolved 0 s t"
    proof -
      have "step (fm_pages (store s) ?T \<inter> session_owned ?T) 0 s t" by (rule step_weaken [OF st]) simp_all
      then show ?thesis using fm_evolved_refl [of 0 s] fit_mono [OF fit] ok same step_raw [OF st] unfolding fm_evolved_def by simp
    qed
    show ?case
    proof (cases r)
      case None
      then show ?thesis using lf fm_evolved_mono [OF e0, of 6] same by (simp add: wp_simps)
    next
      case (Some x)
      then have x: "x \<in> ?F" using lf by (simp add: least_free_def)
      then have xr: "unat x < rt_span fm_format (fm_depth ?T)" "unat x < 2 ^ 64 - 1" using ok by (auto simp: fm_free_def fm_ok_def)
      have ft: "fit (fm_depth (t_own t) + 1) t" by (rule step_fit [OF st]) (use fit_mono [OF fit] d same in simp)
      have okt: "fm_ok (store t) (t_own t)" using ok same by simp
      have "wp (fm_clear_bit w alloc x) (\<lambda>_ u. ?Q (Some x, x) u) (stuck 6 s) t"
        unfolding fm_clear_bit_def
      proof (rule wp_mono [OF cow_descend_wp [OF ft okt clear_sets_bit]], goal_cases)
        case (3 a u)
        then have "fm_evolved (0 + (fm_depth ?T + 1)) s u" using fm_evolved_trans [OF e0, of "fm_depth ?T + 1" u] same fm_pages_in_use [OF ok] by simp
        then have "fm_evolved 6 s u" by (rule fm_evolved_mono) (use d in simp)
        then show ?case using 3 lf Some same by simp
      next
        case (4 e u)
        then have "stuck (0 + (fm_depth ?T + 1)) s e u" using stuck_later [OF st, of "fm_depth ?T + 1" e u] same by simp
        then show ?case by (rule stuck_mono) (use d in simp)
      qed (use xr same in simp_all)
      then show ?thesis using Some by (simp add: wp_simps)
    qed
  next
    case (2 e t)
    then show ?case by (rule stuck_mono) simp
  qed
  then show ?thesis by (simp add: allocate_first_def wp_simps)
qed

lemma fm_create_wp:
  assumes fit: "fit 1 s"
  shows "wp (fm_create w alloc)
    (\<lambda>T t. step {} 1 s t \<and> fm_root T \<notin> in_use s \<and> in_use t = insert (fm_root T) (in_use s) \<and> fm_ok (store t) T \<and>
       fm_free (store t) T = {} \<and> fm_pages (store t) T = {fm_root T} \<and> fm_depth T = 0 \<and> pending_superseded T = [] \<and>
       session_owned T = {fm_root T} \<and> t_own t = t_own s) (stuck 1 s) s"
proof -
  let ?f = "\<lambda>buf. stamp_checksum (w_xxh w) (freemap_init_page buf)"
  have f: "page_ok (?f buf) \<and> page_body (?f buf) = fm_blank 4 \<and> verify_checksum (w_xxh w) (?f buf)" if "page_ok buf" for buf
    using fm_init_bodies(2) [OF that] by simp
  show ?thesis
    unfolding fm_create_def wp_and_then wp_ok
  proof (rule wp_mono [OF fresh_init_wp [OF fit f]], simp, erule wp_mono, goal_cases)
    case (1 q t0 x t)
    then have t: "step {} 1 s t" "q \<notin> in_use s" "q \<noteq> 0" "in_use t = insert q (in_use s)" "store t = (store s)(q \<mapsto> fm_blank 4)" "t_own t = t_own s"
      by (auto simp: fresh_page_def)
    have "rt_ok fm_format (store t) 0 q" and "\<not> rt_get fm_format (store t) 0 q k" for k
      using t(3,5) fm_blank_reads [of 4] by (auto simp: rt_ok_def)
    then show ?case using t fm_blank_reads(4) [of 4] by (auto simp: fm_ok_def fm_free_def fm_pages_def)
  qed simp_all
qed

end

end
