(* ===== verification/Txn_Recycle.thy ===== *)
theory Txn_Recycle
  imports Free_Map_Tree Super_Block Handle_Table Membership_Index
begin

text \<open>
  Where a transaction takes its pages from and where the pages it gives up go:
  \<open>src/transaction/freemap.rs\<close>. \<open>structural_extend\<close> is the allocator of the free-map tree (a dead
  page of an earlier version of the tree, else a new page); \<open>cow_alloc\<close> is the allocator of everything
  else (a page this transaction gave up itself, else a page free in the committed map, else a new
  one). Both meet the contract \<open>page_alloc\<close>: the page handed out is none of the pages in use.
\<close>

section \<open>Definitions\<close>

record roots =
  handle_table_page :: u64
  freemap_page :: u64
  freemap_depth :: nat
  next_handle :: u64
  total_pages :: u64
  named_roots :: "named_root list"
  membership_index_page :: u64

subsection \<open>The pages of one transaction\<close>

record txn_recycle =
  allocated :: "u64 set"
  recyclable :: "u64 list"

definition txn_recycle_new :: txn_recycle where
  "txn_recycle_new = \<lparr>allocated = {}, recyclable = []\<rparr>"

definition record_id :: "u64 \<Rightarrow> txn_recycle \<Rightarrow> txn_recycle" where
  "record_id i pool = pool\<lparr>allocated := insert i (allocated pool)\<rparr>"

abbreviation on_snd :: "('c, 'e, 'a) op \<Rightarrow> ('b \<times> 'c, 'e, 'a) op" where
  "on_snd m \<equiv> on_field snd (\<lambda>c (b, _). (b, c)) m"

definition draw :: "world \<Rightarrow> (txn_recycle \<times> page_cache, chisel_error, u64 option) op" where
  "draw w =
     and_then (gets (\<lambda>s. recyclable (fst s))) (\<lambda>v.
     if v = [] then ok None
     else and_then (on_snd (reclaim_dead_txn_page w (last v))) (\<lambda>_.
          and_then (modify (\<lambda>(pool, c). (pool\<lparr>recyclable := butlast (recyclable pool)\<rparr>, c))) (\<lambda>_.
          ok (Some (last v)))))"

definition retire_one :: "u64 \<Rightarrow> txn_recycle \<times> u64 list \<Rightarrow> txn_recycle \<times> u64 list" where
  "retire_one i = (\<lambda>(pool, txn_freed_pages).
     if i \<in> allocated pool then (pool\<lparr>recyclable := recyclable pool @ [i]\<rparr>, txn_freed_pages)
     else (pool, txn_freed_pages @ [i]))"

definition retire :: "u64 list \<Rightarrow> bool \<Rightarrow> txn_recycle \<times> u64 list \<Rightarrow> txn_recycle \<times> u64 list" where
  "retire freed pool_enabled st =
     (if \<not> pool_enabled then (fst st, snd st @ freed) else fold retire_one freed st)"

definition drain_into :: "txn_recycle \<times> u64 list \<Rightarrow> txn_recycle \<times> u64 list" where
  "drain_into = (\<lambda>(pool, txn_freed_pages). (pool\<lparr>recyclable := []\<rparr>, txn_freed_pages @ recyclable pool))"

definition txn_recycle_reset :: "txn_recycle \<Rightarrow> txn_recycle" where
  "txn_recycle_reset pool = pool\<lparr>allocated := {}, recyclable := []\<rparr>"

subsection \<open>The allocators\<close>

definition structural_extend :: "world \<Rightarrow> u64 list allocator" where
  "structural_extend w =
     and_then (gets fst) (\<lambda>structural_reuse.
     if structural_reuse \<noteq> []
     then and_then (modify (\<lambda>(v, c). (butlast v, c))) (\<lambda>_.
          and_then (on_snd (claim_page w (last structural_reuse))) (\<lambda>_. ok (last structural_reuse)))
     else on_snd (pc_new_page w))"

text \<open>What the closures around \<open>cow_alloc\<close> capture.\<close>

record cow_env =
  al_tree :: freemap_tree
  al_hint :: u64
  al_reuse :: "u64 list"
  al_pool :: txn_recycle

definition on_pool :: "(txn_recycle \<times> page_cache, chisel_error, 'a) op \<Rightarrow> (cow_env \<times> page_cache, chisel_error, 'a) op" where
  "on_pool m = on_field (\<lambda>(x, c). (al_pool x, c)) (\<lambda>(pool, c) (x, _). (x\<lparr>al_pool := pool\<rparr>, c)) m"

definition on_tree :: "(u64 list, 'a) fm_op \<Rightarrow> (cow_env \<times> page_cache, chisel_error, 'a) op" where
  "on_tree m = on_field (\<lambda>(x, c). \<lparr>t_env = al_reuse x, t_cache = c, t_own = al_tree x\<rparr>)
     (\<lambda>s (x, _). (x\<lparr>al_tree := t_own s, al_reuse := t_env s\<rparr>, t_cache s)) m"

definition hand_out :: "u64 \<Rightarrow> (cow_env \<times> page_cache, chisel_error, u64) op" where
  "hand_out i = and_then (modify (\<lambda>(x, c). (x\<lparr>al_pool := record_id i (al_pool x)\<rparr>, c))) (\<lambda>_. ok i)"

definition claim_free :: "world \<Rightarrow> (cow_env \<times> page_cache, chisel_error, u64 option) op" where
  "claim_free w =
     and_then (gets (\<lambda>s. al_hint (fst s))) (\<lambda>hint.
     and_then (on_tree (allocate_first w (structural_extend w) hint)) (\<lambda>(found, hint').
     and_then (modify (\<lambda>(x, c). (x\<lparr>al_hint := hint'\<rparr>, c))) (\<lambda>_. ok found)))"

definition cow_alloc :: "world \<Rightarrow> bool \<Rightarrow> cow_env allocator" where
  "cow_alloc w reuse_enabled =
     and_then (if reuse_enabled then on_pool (draw w) else ok None) (\<lambda>drawn.
     case drawn of
       Some i \<Rightarrow> hand_out i
     | None \<Rightarrow>
         and_then (gets (\<lambda>s. fm_root (al_tree (fst s)))) (\<lambda>root.
         and_then (if reuse_enabled \<and> root \<noteq> PAGE_ID_NONE then claim_free w else ok None) (\<lambda>found.
         case found of
           Some i \<Rightarrow> and_then (on_snd (claim_page w i)) (\<lambda>_. hand_out i)
         | None \<Rightarrow> and_then (on_snd (pc_new_page w)) hand_out)))"

subsection \<open>The free map of a manager\<close>

record freemap_recycle =
  fr_hint :: u64
  fr_hint_at_begin :: u64
  structural_reuse :: "u64 list"
  structural_superseded :: "u64 list"
  pending_structural_frees :: "u64 list"
  fr_session_owned :: "u64 set"

record freemap_mark =
  superseded_len :: nat
  mark_session_owned :: "u64 set"

definition freemap_recycle_new :: freemap_recycle where
  "freemap_recycle_new = \<lparr>fr_hint = 0, fr_hint_at_begin = 0, structural_reuse = [], structural_superseded = [],
     pending_structural_frees = [], fr_session_owned = {}\<rparr>"

definition take_tree :: "roots \<Rightarrow> freemap_recycle \<Rightarrow> freemap_tree" where
  "take_tree rs f = (from_roots (freemap_page rs) (freemap_depth rs))\<lparr>session_owned := fr_session_owned f\<rparr>"

definition put_tree :: "freemap_tree \<Rightarrow> freemap_recycle \<times> roots \<Rightarrow> freemap_recycle \<times> roots" where
  "put_tree tree = (\<lambda>(f, rs).
     (f\<lparr>structural_superseded := structural_superseded f @ pending_superseded tree, fr_session_owned := session_owned tree\<rparr>,
      rs\<lparr>freemap_page := fm_root tree, freemap_depth := fm_depth tree\<rparr>))"

type_synonym 'a recycle_op = "(freemap_recycle \<times> roots \<times> page_cache, chisel_error, 'a) op"

text \<open>The closure of \<open>mark_free_committed_path\<close>: on the tree taken, the pool and the cache.\<close>

definition mark_free_body :: "world \<Rightarrow> u64 \<Rightarrow> (u64 list, unit) fm_op" where
  "mark_free_body w i =
     and_then (gets t_own) (\<lambda>tree.
     and_then (if fm_root tree = PAGE_ID_NONE
       then and_then (set_own (\<lambda>t. t\<lparr>session_owned := {}\<rparr>)) (\<lambda>_.
            and_then (fm_create w (structural_extend w)) (\<lambda>t'.
            set_own (\<lambda>_. t'\<lparr>session_owned := session_owned t' \<union> session_owned tree\<rparr>)))
       else ok ()) (\<lambda>_.
     mark_free_growing w (structural_extend w) i))"

definition mark_free_committed_path :: "world \<Rightarrow> u64 \<Rightarrow> unit recycle_op" where
  "mark_free_committed_path w i = on_field
     (\<lambda>(f, rs, c). \<lparr>t_env = structural_reuse f, t_cache = c, t_own = take_tree rs f\<rparr>)
     (\<lambda>s (f, rs, _). case put_tree (t_own s) (f\<lparr>fr_hint := min (fr_hint f) i, structural_reuse := t_env s\<rparr>, rs) of
        (f', rs') \<Rightarrow> (f', rs', t_cache s))
     (mark_free_body w i)"

definition persist :: "world \<Rightarrow> u64 list \<Rightarrow> unit recycle_op" where
  "persist w txn_freed_pages =
     (if txn_freed_pages = [] then ok () else for_each txn_freed_pages (mark_free_committed_path w))"

definition on_third :: "'a cache_op \<Rightarrow> 'a recycle_op" where
  "on_third m = on_field (\<lambda>(f, rs, c). c) (\<lambda>c (f, rs, _). (f, rs, c)) m"

text \<open>The page at \<open>id\<close> joins the orphans when it has the type of a free-map page and is not free.\<close>

definition orphan_scan :: "world \<Rightarrow> freemap_tree \<Rightarrow> u64 set \<Rightarrow> u64 \<Rightarrow> u64 list \<Rightarrow> u64 list cache_op" where
  "orphan_scan w tree skipped i orphans =
     (if i \<in> skipped then ok orphans
      else and_then (or_else (and_then (pc_get w i) (\<lambda>buf. ok (Some buf)))
             (\<lambda>e. case e of CorruptPage _ \<Rightarrow> ok None | ChecksumMismatch _ \<Rightarrow> ok None | _ \<Rightarrow> err e)) (\<lambda>r.
           case r of
             None \<Rightarrow> ok orphans
           | Some buf \<Rightarrow>
               if buf ! 0 = page_type_tag FreeMap \<or> buf ! 0 = page_type_tag FreeMapInterior
               then and_then (fm_is_free w tree i) (\<lambda>free. ok (if free then orphans else orphans @ [i]))
               else ok orphans))"

definition reclaim_orphans :: "world \<Rightarrow> bool \<Rightarrow> u32 \<Rightarrow> u64 recycle_op" where
  "reclaim_orphans w savepoint_active superblock_count =
     (if savepoint_active then ok 0
      else and_then (gets (\<lambda>(f, rs, c). (f, rs, next_page_id c))) (\<lambda>(f, rs, total).
        if freemap_page rs = PAGE_ID_NONE then ok 0
        else let excluded = set (structural_reuse f) \<union> set (structural_superseded f) \<union> set (pending_structural_frees f);
                 tree = from_roots (freemap_page rs) (freemap_depth rs)
             in and_then (on_third (reachable_pages w tree)) (\<lambda>reachable.
                and_then (on_third (fold_each (map word_of_nat [unat superblock_count..<unat total])
                   (orphan_scan w tree (reachable \<union> excluded)) [])) (\<lambda>orphans.
                and_then (for_each orphans (mark_free_committed_path w)) (\<lambda>_.
                ok (word_of_nat (length orphans)))))))"

definition fr_begin :: "freemap_recycle \<Rightarrow> freemap_recycle" where
  "fr_begin f = f\<lparr>fr_session_owned := {}, structural_reuse := pending_structural_frees f, structural_superseded := [],
     fr_hint_at_begin := fr_hint f\<rparr>"

definition fr_commit :: "freemap_recycle \<Rightarrow> freemap_recycle" where
  "fr_commit f = f\<lparr>fr_session_owned := {}, pending_structural_frees := structural_superseded f @ structural_reuse f,
     structural_superseded := [], structural_reuse := []\<rparr>"

definition fr_rollback :: "freemap_recycle \<Rightarrow> freemap_recycle" where
  "fr_rollback f = f\<lparr>structural_superseded := [], structural_reuse := [], fr_session_owned := {}, fr_hint := fr_hint_at_begin f\<rparr>"

definition savepoint_mark :: "freemap_recycle \<Rightarrow> freemap_mark" where
  "savepoint_mark f = \<lparr>superseded_len = length (structural_superseded f), mark_session_owned = fr_session_owned f\<rparr>"

definition rollback_to_mark :: "freemap_mark \<Rightarrow> freemap_recycle \<Rightarrow> freemap_recycle" where
  "rollback_to_mark mark f = f\<lparr>structural_superseded := take (superseded_len mark) (structural_superseded f),
     fr_session_owned := mark_session_owned mark\<rparr>"

section \<open>The allocator of the free-map tree\<close>

text \<open>
  Reissuing the id of a dead page, as a step on page bodies.
\<close>

lemma store_reissue_wp:
  assumes inv: "pc_inv w c" and W: "world_ok w" and p: "p < next_page_id c"
  shows "wp (reissue_page w p)
    (\<lambda>_ d. updates w c [p \<mapsto> replicate 8184 0] d \<and> next_page_id d = next_page_id c) (\<lambda>e d. fails w c 1 e d) c"
  by (rule wp_mono [OF reissue_page_wp [OF inv W p]]) (auto simp: reset_updates dest: alloc_fail_fails)

text \<open>The pages of the file that are not waiting for reuse; those that wait are in a set \<open>X\<close> fixed beforehand.\<close>

definition se_taken :: "u64 list \<Rightarrow> page_cache \<Rightarrow> u64 set" where
  "se_taken v c = {p. p < next_page_id c} - set v"

definition se_good :: "world \<Rightarrow> u64 set \<Rightarrow> u64 list \<Rightarrow> page_cache \<Rightarrow> nat \<Rightarrow> bool" where
  "se_good w X v c k \<longleftrightarrow> world_ok w \<and> set v \<subseteq> X \<and> 0 < next_page_id c \<and> id_room c k \<and> distinct v \<and> (\<forall>p \<in> set v. 0 < p \<and> p < next_page_id c)"

definition se_room :: "u64 list \<Rightarrow> page_cache \<Rightarrow> nat \<Rightarrow> bool" where
  "se_room v c k \<longleftrightarrow> roomy c k"

lemma id_room_mono: "id_room c k \<Longrightarrow> j \<le> k \<Longrightarrow> id_room c j"
  unfolding id_room_def using mult_le_mono1 [of "unat (next_page_id c) + j" "unat (next_page_id c) + k" ENC_PAGE_SIZE] by linarith

lemma last_butlast: "v \<noteq> [] \<Longrightarrow> set v = insert (last v) (set (butlast v))"
  by (metis append_butlast_last_id list.simps(15) rotate1.simps(2) set_rotate1)

lemma distinct_last: "v \<noteq> [] \<Longrightarrow> distinct v \<Longrightarrow> last v \<notin> set (butlast v)"
  by (metis append_butlast_last_id distinct.simps(2) distinct1_rotate rotate1.simps(2))

lemma structural_extend_spec:
  assumes inv: "pc_inv w c" and g: "se_good w X v c 1"
  shows "wp (structural_extend w) (\<lambda>p (u, d). keeps w (se_taken v c) c d \<and> p \<notin> se_taken v c \<and> p \<noteq> 0 \<and>
        se_taken u d = insert p (se_taken v c) \<and> body_at w d p = Some (replicate 8184 0) \<and> is_dirty d p \<and>
        raw w d \<subseteq> insert p (raw w c) \<and>
        (\<forall>k. se_good w X v c (Suc k) \<longrightarrow> se_good w X u d k) \<and> (\<forall>k. se_room v c (Suc k) \<longrightarrow> se_room u d k))
      (\<lambda>e (u, d). pc_wf w d \<and> same_device c d \<and> env_error w e \<and> (no_faults w \<longrightarrow> \<not> se_room v c 1)) (v, c)"
proof (cases "v = []")
  case True
  have ids: "ids_good w () c k = se_good w X [] c k" "se_taken [] c = ids_below () c" for c k
    by (auto simp: ids_good_def se_good_def se_taken_def ids_below_def)
  have "wp (new_page_alloc w) (\<lambda>p (y, d). keeps w (ids_below () c) c d \<and> p \<notin> ids_below () c \<and> p \<noteq> 0 \<and>
        ids_below y d = insert p (ids_below () c) \<and> body_at w d p = Some (replicate 8184 0) \<and> is_dirty d p \<and>
        raw w d \<subseteq> insert p (raw w c) \<and>
        (\<forall>k. ids_good w () c (Suc k) \<longrightarrow> ids_good w y d k) \<and> (\<forall>k. ids_room () c (Suc k) \<longrightarrow> ids_room y d k))
      (\<lambda>e (y, d). pc_wf w d \<and> same_device c d \<and> env_error w e \<and> (no_faults w \<longrightarrow> \<not> ids_room () c 1)) ((), c)"
    using new_page_alloc_spec [OF inv, of "()"] g True by (simp add: ids)
  then show ?thesis
    unfolding True structural_extend_def new_page_alloc_def wp_and_then wp_gets wp_on_field
    by (simp add: wp_on_field ids ids_room_def se_room_def)
next
  case False
  let ?p = "last v"
  have W: "world_ok w" and p: "?p < next_page_id c" "?p \<noteq> 0" and d: "distinct v"
    using g last_in_set [OF False] by (auto simp: se_good_def)
  have "wp (reissue_page w ?p) (\<lambda>_ d. keeps w (se_taken v c) c d \<and>
        se_taken (butlast v) d = insert ?p (se_taken v c) \<and> body_at w d ?p = Some (replicate 8184 0) \<and> is_dirty d ?p \<and>
        raw w d \<subseteq> insert ?p (raw w c) \<and>
        (\<forall>k. se_good w X v c (Suc k) \<longrightarrow> se_good w X (butlast v) d k) \<and> (\<forall>k. roomy c (Suc k) \<longrightarrow> roomy d k))
      (\<lambda>e d. pc_wf w d \<and> same_device c d \<and> env_error w e \<and> (no_faults w \<longrightarrow> \<not> roomy c 1)) c"
  proof (rule wp_mono [OF store_reissue_wp [OF inv W p(1)]], goal_cases)
    case (1 x d)
    then have up: "updates w c [?p \<mapsto> replicate 8184 0] d" and n: "next_page_id d = next_page_id c" by auto
    have "keeps w (se_taken v c) c d" using False by (intro updates_keeps [OF up]) (simp add: se_taken_def)
    moreover have "se_taken (butlast v) d = insert ?p (se_taken v c)"
      using p(1) distinct_last [OF False d] unfolding se_taken_def n by (auto simp: last_butlast [OF False])
    moreover have "se_good w X (butlast v) d k" if "se_good w X v c (Suc k)" for k
      using that id_room_mono [of c "Suc k" k] by (auto simp: se_good_def n id_room_def distinct_butlast dest: in_set_butlastD)
    moreover have "roomy d k" if "roomy c (Suc k)" for k
      by (rule updates_roomy [OF up, of 0]) (use that n in \<open>simp_all add: roomy_def\<close>)
    ultimately show ?case using up by (auto simp: updates_def)
  next
    case (2 e d)
    then show ?case using roomy_calm [OF inv, of 1] by (auto simp: fails_def)
  qed
  then show ?thesis
    unfolding structural_extend_def claim_page_def using False p(2)
    by (simp add: wp_simps wp_on_field se_room_def se_taken_def)
qed

interpretation se: page_alloc w "structural_extend w" se_taken "se_good w X" se_room for w :: world and X :: "u64 set"
proof (unfold_locales, goal_cases)
  case (2 c x)
  then show ?case by (rule structural_extend_spec)
next
  case (3 x c k j)
  then show ?case using id_room_mono [of c k j] by (auto simp: se_good_def)
next
  case (7 x c j m d)
  then show ?case using updates_roomy [OF 7(2), of 0]
    by (auto simp: se_taken_def se_good_def id_room_def se_room_def)
qed (auto simp: se_good_def se_room_def roomy_def se_taken_def)

section \<open>The allocator of a transaction\<close>

text \<open>
  The allocator keeps to itself the pages it may hand out (given up by this transaction, free in the
  committed map, dead pages of the map) and the pages of the map: those of the current tree, those the
  transaction made and those it superseded. Every other page of the file is in use.
\<close>

definition fm_set :: "world \<Rightarrow> u64 list \<Rightarrow> page_cache \<Rightarrow> freemap_tree \<Rightarrow> u64 set" where
  "fm_set w v c T = (if fm_root T = PAGE_ID_NONE then {} else fm_free (page_store w (se_taken v c) c) T)"

definition fm_used :: "world \<Rightarrow> u64 list \<Rightarrow> page_cache \<Rightarrow> freemap_tree \<Rightarrow> u64 set" where
  "fm_used w v c T = (if fm_root T = PAGE_ID_NONE then {} else fm_pages (page_store w (se_taken v c) c) T)"

definition map_pages :: "world \<Rightarrow> cow_env \<Rightarrow> page_cache \<Rightarrow> u64 set" where
  "map_pages w x c = session_owned (al_tree x) \<union> fm_used w (al_reuse x) c (al_tree x) \<union> set (pending_superseded (al_tree x))"

abbreviation free_ids :: "world \<Rightarrow> cow_env \<Rightarrow> page_cache \<Rightarrow> u64 set" where
  "free_ids w x c \<equiv> fm_set w (al_reuse x) c (al_tree x)"

definition spare :: "world \<Rightarrow> cow_env \<Rightarrow> page_cache \<Rightarrow> u64 set" where
  "spare w x c = set (recyclable (al_pool x)) \<union> free_ids w x c \<union> set (al_reuse x)"

definition ca_taken :: "world \<Rightarrow> cow_env \<Rightarrow> page_cache \<Rightarrow> u64 set" where
  "ca_taken w x c = {p. p < next_page_id c} - spare w x c - map_pages w x c"

definition tidy :: "world \<Rightarrow> cow_env \<Rightarrow> page_cache \<Rightarrow> bool" where
  "tidy w x c \<longleftrightarrow>
     (fm_root (al_tree x) \<noteq> PAGE_ID_NONE \<longrightarrow> fm_ok (page_store w (se_taken (al_reuse x) c) c) (al_tree x)) \<and>
     distinct (recyclable (al_pool x)) \<and> distinct (al_reuse x) \<and>
     (\<forall>p \<in> spare w x c. 0 < p \<and> p < next_page_id c) \<and> map_pages w x c \<subseteq> {p. p < next_page_id c} \<and>
     set (recyclable (al_pool x)) \<inter> free_ids w x c = {} \<and> set (recyclable (al_pool x)) \<inter> set (al_reuse x) = {} \<and>
     free_ids w x c \<inter> set (al_reuse x) = {} \<and> spare w x c \<inter> map_pages w x c = {} \<and>
     distinct (pending_superseded (al_tree x)) \<and>
     set (pending_superseded (al_tree x)) \<inter> (session_owned (al_tree x) \<union> fm_used w (al_reuse x) c (al_tree x)) = {}"

text \<open>
  The committed pages \<open>K\<close>: none is spare, none was handed out, and those of the map are as they are on
  the device.
\<close>

definition guarded :: "world \<Rightarrow> u64 set \<Rightarrow> cow_env \<Rightarrow> page_cache \<Rightarrow> bool" where
  "guarded w K x c \<longleftrightarrow> K \<subseteq> ca_taken w x c \<union> (map_pages w x c - session_owned (al_tree x)) \<and>
     (\<forall>p \<in> K \<inter> map_pages w x c. \<not> is_dirty c p) \<and> allocated (al_pool x) \<inter> K = {}"

definition ca_ok :: "world \<Rightarrow> u64 set \<Rightarrow> cow_env \<Rightarrow> page_cache \<Rightarrow> nat \<Rightarrow> bool" where
  "ca_ok w K x c n \<longleftrightarrow> world_ok w \<and> 0 < next_page_id c \<and> id_room c n \<and> tidy w x c \<and> guarded w K x c"

text \<open>One page of the transaction costs up to seven page ids: the page and a path of the map.\<close>

definition ca_good :: "world \<Rightarrow> u64 set \<Rightarrow> u64 set \<Rightarrow> cow_env \<Rightarrow> page_cache \<Rightarrow> nat \<Rightarrow> bool" where
  "ca_good w K M x c k \<longleftrightarrow> ca_ok w K x c (7 * k) \<and> M \<subseteq> map_pages w x c"

definition ca_room :: "cow_env \<Rightarrow> page_cache \<Rightarrow> nat \<Rightarrow> bool" where
  "ca_room x c k = roomy c (7 * k)"

lemma fm_frame:
  assumes "\<And>p. p \<in> fm_pages B T \<Longrightarrow> B' p = B p"
  shows "fm_ok B T \<Longrightarrow> fm_ok B' T" and "fm_free B' T = fm_free B T" and "fm_pages B' T = fm_pages B T"
proof -
  note f = rt_frame [of B "fm_depth T" "fm_root T" B' fm_format, OF assms [unfolded fm_pages_def]]
  show "fm_free B' T = fm_free B T" "fm_pages B' T = fm_pages B T" using f by (auto simp: fm_free_def fm_pages_def)
  show "fm_ok B T \<Longrightarrow> fm_ok B' T" using f by (auto simp: fm_ok_def rt_ok_def)
qed

lemma fm_ok_pages: "fm_ok B T \<Longrightarrow> p \<in> fm_pages B T \<Longrightarrow> \<exists>b. B p = Some b"
  using rt_wf_dom [of fm_format B "fm_depth T" "fm_root T" p] by (auto simp: fm_ok_def fm_pages_def rt_ok_def)

text \<open>A change outside the map leaves the map alone.\<close>

lemma updates_map:
  assumes ok: "fm_root T \<noteq> PAGE_ID_NONE \<longrightarrow> fm_ok (page_store w (se_taken v c) c) T"
    and up: "updates w c m d" and dis: "dom m \<inter> fm_used w v c T = {}"
  shows "fm_root T \<noteq> PAGE_ID_NONE \<longrightarrow> fm_ok (page_store w (se_taken v d) d) T"
    and "fm_set w v d T = fm_set w v c T" and "fm_used w v d T = fm_used w v c T"
proof -
  let ?B = "page_store w (se_taken v c) c" and ?B' = "page_store w (se_taken v d) d"
  have same: "?B' p = ?B p" if r: "fm_root T \<noteq> PAGE_ID_NONE" and p: "p \<in> fm_pages ?B T" for p
  proof -
    obtain b where b: "?B p = Some b" using fm_ok_pages ok r p by blast
    have "p \<notin> dom m" using dis r p by (auto simp: fm_used_def)
    then have "readable w d p = readable w c p" "body_at w d p = body_at w c p"
      using up by (auto simp: updates_def map_add_def split: option.splits)
    moreover have "p \<in> se_taken v d" using page_store_SomeD [OF b] up by (auto simp: se_taken_def updates_def)
    ultimately show ?thesis using page_store_SomeD [OF b] by (simp add: page_store_def)
  qed
  show "fm_root T \<noteq> PAGE_ID_NONE \<longrightarrow> fm_ok ?B' T" using fm_frame(1) [of ?B T ?B'] same ok by blast
  show "fm_set w v d T = fm_set w v c T" "fm_used w v d T = fm_used w v c T"
    using fm_frame(2,3) [of ?B T ?B'] same by (cases "fm_root T = PAGE_ID_NONE"; simp add: fm_set_def fm_used_def)+
qed

lemma updates_ca:
  assumes ok: "tidy w x c" and g: "guarded w K x c" and up: "updates w c m d" and dis: "dom m \<inter> map_pages w x c = {}"
  shows "free_ids w x d = free_ids w x c" and "map_pages w x d = map_pages w x c" and "spare w x d = spare w x c"
    and "tidy w x d" and "guarded w K x d"
proof -
  have fm: "fm_root (al_tree x) \<noteq> PAGE_ID_NONE \<longrightarrow> fm_ok (page_store w (se_taken (al_reuse x) c) c) (al_tree x)"
    using ok by (simp add: tidy_def)
  have "dom m \<inter> fm_used w (al_reuse x) c (al_tree x) = {}" using dis by (auto simp: map_pages_def)
  note um = updates_map [OF fm up this]
  have n: "next_page_id c \<le> next_page_id d" using up by (simp add: updates_def)
  show f: "free_ids w x d = free_ids w x c" and mp: "map_pages w x d = map_pages w x c" and sp: "spare w x d = spare w x c"
    using um by (simp_all add: map_pages_def spare_def)
  show "tidy w x d" using ok um(1) n unfolding tidy_def f mp sp um(3) by (auto intro: less_le_trans)
  have tk: "ca_taken w x c \<subseteq> ca_taken w x d" using n unfolding ca_taken_def mp sp by (auto intro: less_le_trans)
  have "is_dirty d p = is_dirty c p" if "p \<in> map_pages w x c" for p using that up dis by (auto simp: updates_def)
  then show "guarded w K x d" using g tk unfolding guarded_def mp by auto
qed

lemma client_ca:
  assumes "ca_ok w K x c n" and up: "updates w c m d" and "dom m \<inter> map_pages w x c = {}" and "next_page_id d = next_page_id c"
  shows "ca_ok w K x d n" and "ca_taken w x d = ca_taken w x c"
  using updates_ca [OF _ _ up, of x K] assms by (simp_all add: ca_ok_def id_room_def ca_taken_def)

definition ca_ctx :: "cow_env \<Rightarrow> page_cache \<Rightarrow> (u64 list, freemap_tree) tree_ctx" where
  "ca_ctx x c = \<lparr>t_env = al_reuse x, t_cache = c, t_own = al_tree x\<rparr>"

lemma ca_ctx_simps [simp]:
  "t_env (ca_ctx x c) = al_reuse x" "t_cache (ca_ctx x c) = c" "t_own (ca_ctx x c) = al_tree x"
  "se.in_use (ca_ctx x c) = se_taken (al_reuse x) c" "se.store w (ca_ctx x c) = page_store w (se_taken (al_reuse x) c) c"
  by (simp_all add: ca_ctx_def se.in_use_def se.store_def)

text \<open>A step of the map is a step of the allocator.\<close>

definition al_moved :: "world \<Rightarrow> cow_env \<Rightarrow> page_cache \<Rightarrow> u64 option \<Rightarrow> cow_env \<Rightarrow> page_cache \<Rightarrow> bool" where
  "al_moved w x c r y d \<longleftrightarrow> keeps w (ca_taken w x c) c d \<and> ca_taken w y d = ca_taken w x c \<union> set_option r \<and>
     set_option r \<inter> ca_taken w x c = {} \<and> al_pool y = al_pool x \<and> raw w d \<subseteq> raw w c \<and>
     map_pages w x c \<subseteq> map_pages w y d \<and> (\<forall>i. r = Some i \<longrightarrow> i \<noteq> 0 \<and> i < next_page_id c)"

lemma al_moved_device: "al_moved w x c r y d \<Longrightarrow> same_device c d"
  using keeps_device by (auto simp: al_moved_def)

definition map_moved :: "world \<Rightarrow> cow_env \<Rightarrow> page_cache \<Rightarrow> u64 set \<Rightarrow> (u64 list, freemap_tree) tree_ctx \<Rightarrow> bool" where
  "map_moved w x c F t \<longleftrightarrow> keeps w (se_taken (al_reuse x) c - session_owned (al_tree x)) c (t_cache t) \<and>
     se_taken (t_env t) (t_cache t) = se_taken (al_reuse x) c \<union> F \<and> F \<inter> se_taken (al_reuse x) c = {} \<and>
     set (t_env t) \<subseteq> set (al_reuse x) \<and> distinct (t_env t) \<and> raw w (t_cache t) \<subseteq> raw w c \<and>
     fm_root (t_own t) \<noteq> PAGE_ID_NONE \<and> fm_ok (se.store w t) (t_own t) \<and>
     session_owned (t_own t) = session_owned (al_tree x) \<union> F \<and>
     (\<exists>sup. accounted (fm_used w (al_reuse x) c (al_tree x)) F (fm_pages (se.store w t) (t_own t)) sup \<and>
        set sup \<inter> session_owned (t_own t) = {} \<and> pending_superseded (t_own t) = pending_superseded (al_tree x) @ sup)"

lemma se_good_tidy: "ca_ok w K x c n \<Longrightarrow> se_good w (set (al_reuse x)) (al_reuse x) c n"
  by (auto simp: ca_ok_def tidy_def spare_def se_good_def)

lemma se_root: "se.fit w X 0 t \<Longrightarrow> fm_ok (se.store w t) (t_own t) \<Longrightarrow> fm_root (t_own t) \<noteq> PAGE_ID_NONE"
  using fm_ok_pages [of "se.store w t" "t_own t" "fm_root (t_own t)"] se.root_not_none [of w X 0 t] by (auto simp: fm_pages_def)

lemma evolved_moved:
  assumes good: "se_good w (set (al_reuse x)) (al_reuse x) c n" and r: "fm_root (al_tree x) \<noteq> PAGE_ID_NONE" and n: "m \<le> n" and inv: "pc_inv w c"
    and ev: "se.fm_evolved w (set (al_reuse x)) m (ca_ctx x c) t"
  shows "\<exists>F. map_moved w x c F t" and "se_good w (set (al_reuse x)) (t_env t) (t_cache t) (n - m)"
    and "roomy c (m + k) \<Longrightarrow> roomy (t_cache t) k"
proof -
  let ?X = "set (al_reuse x)" and ?s = "ca_ctx x c" and ?T = "al_tree x"
  have used: "fm_pages (page_store w (se_taken (al_reuse x) c) c) ?T = fm_used w (al_reuse x) c ?T" using r by (simp add: fm_used_def)
  have st: "se.step w ?X (fm_used w (al_reuse x) c ?T \<inter> session_owned ?T) m ?s t" and okt: "fm_ok (se.store w t) (t_own t)"
      and raw: "raw w (t_cache t) \<subseteq> raw w c"
    using ev by (simp_all add: se.fm_evolved_def used)
  obtain F sup where ac: "se.in_use t = se_taken (al_reuse x) c \<union> F" "F \<inter> se_taken (al_reuse x) c = {}" "set sup \<inter> (session_owned ?T \<union> F) = {}"
      "accounted (fm_used w (al_reuse x) c ?T) F (fm_pages (se.store w t) (t_own t)) sup"
      "session_owned (t_own t) = session_owned ?T \<union> F" "pending_superseded (t_own t) = pending_superseded ?T @ sup"
    using ev unfolding se.fm_evolved_def ca_ctx_simps used by auto
  show gt: "se_good w ?X (t_env t) (t_cache t) (n - m)" using st n good by (auto simp: se.step_def dest!: spec [of _ "n - m"])
  have inv': "pc_inv w (t_cache t)" and kp: "keeps w (se_taken (al_reuse x) c - (fm_used w (al_reuse x) c ?T \<inter> session_owned ?T)) c (t_cache t)"
    using st by (auto simp: se.step_def keeps_def)
  show "roomy c (m + k) \<Longrightarrow> roomy (t_cache t) k" using st by (auto simp: se.step_def se_room_def)
  have "fm_root (t_own t) \<noteq> PAGE_ID_NONE"
    by (rule se_root [of w ?X]) (use inv' gt okt se.good_mono [of w ?X "t_env t" "t_cache t" "n - m" 0] in \<open>auto simp: se.fit_def\<close>)
  moreover have "keeps w (se_taken (al_reuse x) c - session_owned ?T) c (t_cache t)" by (rule keeps_mono [OF kp]) auto
  ultimately have "map_moved w x c F t" unfolding map_moved_def using ac gt okt raw by (auto simp: se.in_use_def se_good_def)
  then show "\<exists>F. map_moved w x c F t" ..
qed

abbreviation with_map :: "(u64 list, freemap_tree) tree_ctx \<Rightarrow> u64 \<Rightarrow> cow_env \<Rightarrow> cow_env" where
  "with_map t h x \<equiv> x\<lparr>al_tree := t_own t, al_reuse := t_env t, al_hint := h\<rparr>"

lemma map_moved_sets:
  assumes mv: "map_moved w x c F t" and y: "y = with_map t h x"
  shows "free_ids w y (t_cache t) = fm_free (se.store w t) (t_own t)" and "map_pages w y (t_cache t) = map_pages w x c \<union> F"
    and "next_page_id c \<le> next_page_id (t_cache t)" and "pc_inv w (t_cache t)"
proof -
  show "free_ids w y (t_cache t) = fm_free (se.store w t) (t_own t)"
    using mv by (auto simp: y map_moved_def fm_set_def se.store_def se.in_use_def)
  have "fm_used w (t_env t) (t_cache t) (t_own t) = fm_pages (se.store w t) (t_own t)"
    using mv by (auto simp: map_moved_def fm_used_def se.store_def se.in_use_def)
  then show "map_pages w y (t_cache t) = map_pages w x c \<union> F"
    using mv by (auto simp: y map_moved_def map_pages_def accounted_def)
  show "next_page_id c \<le> next_page_id (t_cache t)" "pc_inv w (t_cache t)" using mv by (simp_all add: map_moved_def keeps_def)
qed

lemma tidy_taken:
  assumes "tidy w x c"
  shows "ca_taken w x c = se_taken (al_reuse x) c - set (recyclable (al_pool x)) - free_ids w x c - map_pages w x c"
    and "map_pages w x c \<subseteq> se_taken (al_reuse x) c" and "free_ids w x c \<subseteq> se_taken (al_reuse x) c"
    and "set (recyclable (al_pool x)) \<subseteq> se_taken (al_reuse x) c" and "0 \<notin> free_ids w x c"
  using assms by (auto simp: ca_taken_def spare_def se_taken_def tidy_def)

lemma pending_moved:
  assumes ti: "tidy w x c" and mv: "map_moved w x c F t"
  shows "set (pending_superseded (t_own t)) \<inter> (session_owned (t_own t) \<union> fm_used w (t_env t) (t_cache t) (t_own t)) = {}"
    and "distinct (pending_superseded (t_own t))"
proof -
  let ?P = "fm_used w (al_reuse x) c (al_tree x)" and ?Q = "fm_pages (se.store w t) (t_own t)"
  have Q: "fm_used w (t_env t) (t_cache t) (t_own t) = ?Q"
    using mv by (auto simp: map_moved_def fm_used_def se.store_def se.in_use_def)
  obtain sup where sup: "accounted ?P F ?Q sup" "set sup \<inter> session_owned (t_own t) = {}"
      "pending_superseded (t_own t) = pending_superseded (al_tree x) @ sup" "session_owned (t_own t) = session_owned (al_tree x) \<union> F"
      "F \<inter> se_taken (al_reuse x) c = {}"
    using mv by (auto simp: map_moved_def)
  have old: "set (pending_superseded (al_tree x)) \<inter> (session_owned (al_tree x) \<union> ?P) = {}" "distinct (pending_superseded (al_tree x))"
    "set (pending_superseded (al_tree x)) \<subseteq> se_taken (al_reuse x) c"
    using ti tidy_taken(2) [OF ti] by (auto simp: tidy_def map_pages_def)
  have "set (pending_superseded (al_tree x)) \<inter> (F \<union> ?P) = {}" using old sup(5) by auto
  moreover have "?Q \<union> set sup = ?P \<union> F" "?Q \<inter> set sup = {}" "distinct sup" using sup(1) by (auto simp: accounted_def)
  ultimately show "set (pending_superseded (t_own t)) \<inter> (session_owned (t_own t) \<union> fm_used w (t_env t) (t_cache t) (t_own t)) = {}"
    "distinct (pending_superseded (t_own t))"
    unfolding Q sup(3) using sup(2,4) old by auto
qed

text \<open>A step of the map that leaves the free set \<open>G\<close>: ids leave the free set into use or the other way.\<close>

lemma map_moved_taken:
  assumes ti: "tidy w x c" and mv: "map_moved w x c F t" and y: "y = with_map t h x"
    and G: "fm_free (se.store w t) (t_own t) = G" "G \<subseteq> free_ids w x c \<union> ca_taken w x c" "0 \<notin> G"
  shows "ca_taken w y (t_cache t) = ca_taken w x c \<union> free_ids w x c - G" and "tidy w y (t_cache t)"
proof -
  let ?d = "t_cache t" and ?R = "set (recyclable (al_pool x))"
  note T = tidy_taken [OF ti] and ms = map_moved_sets [OF mv y]
  have iu: "se_taken (t_env t) ?d = se_taken (al_reuse x) c \<union> F" "F \<inter> se_taken (al_reuse x) c = {}" "set (t_env t) \<subseteq> set (al_reuse x)"
    "distinct (t_env t)" "fm_ok (se.store w t) (t_own t)" using mv by (auto simp: map_moved_def)
  have sets: "free_ids w y ?d = G" "map_pages w y ?d = map_pages w x c \<union> F" using ms G(1) by auto
  have Gs: "G \<subseteq> se_taken (al_reuse x) c" "G \<inter> ?R = {}" "G \<inter> map_pages w x c = {}"
    using G(2) T ti by (auto simp: tidy_def spare_def)
  have tk: "ca_taken w y ?d = se_taken (t_env t) ?d - ?R - G - (map_pages w x c \<union> F)"
    unfolding ca_taken_def spare_def sets by (auto simp: se_taken_def y)
  show "ca_taken w y ?d = ca_taken w x c \<union> free_ids w x c - G"
    unfolding tk T(1) iu(1) using T iu(2) ti by (auto simp: tidy_def spare_def)
  have sub: "?R \<union> G \<union> set (t_env t) \<subseteq> {p. p < next_page_id ?d} - F"
  proof -
    have "?R \<union> G \<subseteq> se_taken (t_env t) ?d - F" using iu T(4) Gs by auto
    moreover have "set (t_env t) \<inter> F = {}" using iu(1) by (auto simp: se_taken_def)
    moreover have "set (t_env t) \<subseteq> {p. p < next_page_id ?d}" using iu(3) ti ms(3) unfolding tidy_def spare_def by (auto intro: less_le_trans)
    ultimately show ?thesis by (auto simp: se_taken_def)
  qed
  have sp: "spare w y ?d = ?R \<union> G \<union> set (t_env t)" by (simp add: spare_def sets) (simp add: y)
  have nz: "0 < p" if "p \<in> spare w y ?d" for p using that sp iu(3) ti G(3) by (auto simp: tidy_def spare_def word_gt_0)
  have "F \<subseteq> {p. p < next_page_id ?d}" using iu(1) by (auto simp: se_taken_def)
  then have below: "map_pages w y ?d \<subseteq> {p. p < next_page_id ?d}" unfolding sets using ti ms(3) unfolding tidy_def by (auto intro: less_le_trans)
  have "set (t_env t) \<inter> map_pages w x c = {}" "?R \<inter> map_pages w x c = {}" using iu(3) ti by (auto simp: tidy_def spare_def)
  then have dis: "spare w y ?d \<inter> map_pages w y ?d = {}" unfolding sp sets using sub Gs(3) by auto
  have "?R \<inter> set (t_env t) = {}" "G \<inter> set (t_env t) = {}" using iu(3) ti Gs(1) by (auto simp: tidy_def se_taken_def)
  moreover have "set (pending_superseded (t_own t)) \<inter> (session_owned (t_own t) \<union> fm_used w (t_env t) ?d (t_own t)) = {}"
      "distinct (pending_superseded (t_own t))"
    using pending_moved [OF ti mv] by auto
  ultimately show "tidy w y ?d"
    unfolding tidy_def sets(1) using dis nz sub iu(4,5) below Gs(2) ti sp
    by (auto simp: y se.store_def se.in_use_def tidy_def)
qed

lemma map_moved_guarded:
  assumes ti: "tidy w x c" and mv: "map_moved w x c F t" and y: "y = with_map t h x" and g: "guarded w K x c"
    and tk: "ca_taken w x c \<subseteq> ca_taken w y (t_cache t)"
  shows "guarded w K y (t_cache t)"
proof -
  note T = tidy_taken [OF ti] and ms = map_moved_sets [OF mv y]
  have F: "F \<inter> se_taken (al_reuse x) c = {}" "session_owned (t_own t) = session_owned (al_tree x) \<union> F"
    and kp: "keeps w (se_taken (al_reuse x) c - session_owned (al_tree x)) c (t_cache t)" using mv by (auto simp: map_moved_def)
  have K: "K \<subseteq> se_taken (al_reuse x) c - session_owned (al_tree x)"
    using g T(1,2) by (auto simp: guarded_def map_pages_def)
  have "\<not> is_dirty (t_cache t) p" if "p \<in> K \<inter> map_pages w y (t_cache t)" for p
  proof -
    have p: "p \<in> K \<inter> map_pages w x c" using that F(1) K unfolding ms(2) by auto
    then have "\<not> is_dirty c p" using g by (simp add: guarded_def)
    then show ?thesis using kp K p by (auto simp: keeps_def)
  qed
  moreover have "K \<subseteq> ca_taken w y (t_cache t) \<union> (map_pages w y (t_cache t) - session_owned (al_tree y))"
    using g tk F K unfolding guarded_def ms(2) by (auto simp: y)
  ultimately show ?thesis using g by (simp add: guarded_def y)
qed

lemma map_evolved:
  assumes ok: "ca_ok w K x c n" and r: "fm_root (al_tree x) \<noteq> PAGE_ID_NONE" and n: "6 \<le> n" and inv: "pc_inv w c"
    and ev: "se.fm_evolved w (set (al_reuse x)) 6 (ca_ctx x c) t"
    and free: "fm_free (se.store w t) (t_own t) = free_ids w x c - set_option found" "set_option found \<subseteq> free_ids w x c"
    and y: "y = with_map t h x"
  shows "al_moved w x c found y (t_cache t)" and "ca_ok w K y (t_cache t) (n - 6)" and "pc_inv w (t_cache t)"
    and "roomy c (6 + k) \<Longrightarrow> roomy (t_cache t) k"
proof -
  have ti: "tidy w x c" and gu: "guarded w K x c" using ok by (auto simp: ca_ok_def)
  note em = evolved_moved [OF se_good_tidy [OF ok] r n inv ev]
  obtain F where mv: "map_moved w x c F t" using em(1) by blast
  note T = tidy_taken [OF ti] and ms = map_moved_sets [OF mv y]
  have mt: "ca_taken w y (t_cache t) = ca_taken w x c \<union> free_ids w x c - (free_ids w x c - set_option found)" "tidy w y (t_cache t)"
    by (rule map_moved_taken [OF ti mv y free(1)]; use T(5) in auto)+
  have un: "ca_taken w y (t_cache t) = ca_taken w x c \<union> set_option found" using mt(1) free(2) T(1) by auto
  have "guarded w K y (t_cache t)" by (rule map_moved_guarded [OF ti mv y gu]) (simp add: un)
  then show "ca_ok w K y (t_cache t) (n - 6)" using mt(2) em(2) by (simp add: ca_ok_def se_good_def)
  have "ca_taken w x c \<subseteq> se_taken (al_reuse x) c - session_owned (al_tree x)" using T(1) by (auto simp: map_pages_def)
  then have "keeps w (ca_taken w x c) c (t_cache t)" using mv keeps_mono by (auto simp: map_moved_def)
  moreover have "i \<noteq> 0 \<and> i < next_page_id c" if "found = Some i" for i
    using that free(2) ti by (auto simp: tidy_def spare_def)
  moreover have "set_option found \<inter> ca_taken w x c = {}" using free(2) T(1) by auto
  moreover have "raw w (t_cache t) \<subseteq> raw w c" using mv by (simp add: map_moved_def)
  ultimately show "al_moved w x c found y (t_cache t)" unfolding al_moved_def using un ms(2) by (simp add: y)
  show "pc_inv w (t_cache t)" by (rule ms(4))
  show "roomy c (6 + k) \<Longrightarrow> roomy (t_cache t) k" by (rule em(3))
qed

text \<open>The three sources of \<open>cow_alloc\<close>, then the whole.\<close>

definition al_fails :: "world \<Rightarrow> page_cache \<Rightarrow> chisel_error \<Rightarrow> cow_env \<times> page_cache \<Rightarrow> bool" where
  "al_fails w c e = (\<lambda>(y, d). pc_wf w d \<and> same_device c d \<and> env_error w e \<and> (no_faults w \<longrightarrow> \<not> roomy c 7))"

definition al_given :: "world \<Rightarrow> u64 set \<Rightarrow> nat \<Rightarrow> cow_env \<Rightarrow> page_cache \<Rightarrow> u64 \<Rightarrow> cow_env \<times> page_cache \<Rightarrow> bool" where
  "al_given w K n x c p = (\<lambda>(y, d). keeps w (ca_taken w x c) c d \<and> p \<notin> ca_taken w x c \<and> p \<noteq> 0 \<and>
     ca_taken w y d = insert p (ca_taken w x c) \<and> body_at w d p = Some (replicate 8184 0) \<and> is_dirty d p \<and> raw w d \<subseteq> insert p (raw w c) \<and>
     map_pages w x c \<subseteq> map_pages w y d \<and> ca_ok w K y d n \<and> (\<forall>k. roomy c (7 + k) \<longrightarrow> roomy d k) \<and> allocated (al_pool y) = insert p (allocated (al_pool x)))"

lemma roomy_mono: "roomy c k \<Longrightarrow> j \<le> k \<Longrightarrow> roomy c j"
  by (simp add: roomy_def)

lemma claim_free_wp:
  assumes ok: "ca_ok w K x c n" and inv: "pc_inv w c" and n: "6 \<le> n" and r: "fm_root (al_tree x) \<noteq> PAGE_ID_NONE"
  shows "wp (claim_free w) (\<lambda>found (y, d). least_free (free_ids w x c) (al_hint x) found \<and> al_moved w x c found y d \<and>
      ca_ok w K y d (n - 6) \<and> pc_inv w d \<and> (\<forall>k. roomy c (6 + k) \<longrightarrow> roomy d k)) (al_fails w c) (x, c)"
proof -
  let ?X = "set (al_reuse x)" and ?F = "free_ids w x c"
  have free: "fm_free (page_store w (se_taken (al_reuse x) c) c) (al_tree x) = ?F" using r by (simp add: fm_set_def)
  have fit: "se.fit w ?X 6 (ca_ctx x c)"
    using ok inv id_room_mono [of c n 6] n by (auto simp: se.fit_def ca_ok_def se_good_def tidy_def spare_def)
  have fok: "fm_ok (se.store w (ca_ctx x c)) (t_own (ca_ctx x c))" using ok r by (simp add: ca_ok_def tidy_def)
  note af = se.allocate_first_wp [OF fit fok, of "al_hint x", unfolded ca_ctx_simps free]
  show ?thesis
    unfolding claim_free_def on_tree_def wp_and_then wp_gets wp_on_field fst_conv case_prod_conv ca_ctx_def [symmetric]
  proof (rule wp_mono [OF af], goal_cases)
    case (1 rh t)
    obtain found h where rh: "rh = (found, h)" by (cases rh)
    let ?y = "x\<lparr>al_tree := t_own t, al_reuse := t_env t, al_hint := h\<rparr>"
    have lf: "least_free ?F (al_hint x) found" and ev: "se.fm_evolved w ?X 6 (ca_ctx x c) t"
      and fr: "fm_free (se.store w t) (t_own t) = (case found of None \<Rightarrow> ?F | Some x \<Rightarrow> ?F - {x})" using 1 rh by auto
    have sub: "set_option found \<subseteq> ?F" using lf by (cases found) (auto simp: least_free_def)
    have "fm_free (se.store w t) (t_own t) = ?F - set_option found" using fr by (cases found) auto
    note me = map_evolved [where h = h, OF ok r n inv ev this sub refl]
    show ?case using lf me by (simp add: rh wp_simps)
  next
    case (2 e t)
    then show ?case using roomy_mono [of c 7 6] by (auto simp: se.stuck_def al_fails_def se_room_def)
  qed
qed

lemma hand_out_wp: "wp (hand_out p) Q E = (\<lambda>(y, d). Q p (y\<lparr>al_pool := record_id p (al_pool y)\<rparr>, d))"
  by (simp add: hand_out_def wp_simps fun_eq_iff)

lemma recorded [simp]:
  "recyclable pool = recyclable (al_pool y) \<Longrightarrow> ca_taken w (y\<lparr>al_pool := record_id p pool\<rparr>) d = ca_taken w y d"
  "recyclable pool = recyclable (al_pool y) \<Longrightarrow> allocated pool = allocated (al_pool y) \<Longrightarrow> p \<notin> K \<Longrightarrow>
     ca_ok w K (y\<lparr>al_pool := record_id p pool\<rparr>) d n = ca_ok w K y d n"
  "allocated (record_id p pool) = insert p (allocated pool)" "map_pages w (y\<lparr>al_pool := pool'\<rparr>) d = map_pages w y d"
  by (simp_all add: ca_taken_def ca_ok_def tidy_def guarded_def spare_def map_pages_def record_id_def)

lemma unguarded: "ca_ok w K x c n \<Longrightarrow> p \<notin> ca_taken w x c \<Longrightarrow> p \<notin> map_pages w x c \<Longrightarrow> p \<notin> K"
  by (auto simp: ca_ok_def guarded_def)

lemma new_given:
  assumes ok: "ca_ok w K y d (Suc n)" and inv: "pc_inv w d" and mv: "al_moved w x c None y d"
    and room: "\<And>k. roomy c (6 + k) \<Longrightarrow> roomy d k"
  shows "wp (and_then (on_snd (pc_new_page w)) hand_out) (\<lambda>p. al_given w K n x c p) (al_fails w c) (y, d)"
proof -
  have W: "world_ok w" and ir: "id_room d (Suc n)" and pos: "0 < next_page_id d" and ti: "tidy w y d" and gu: "guarded w K y d"
    using ok by (auto simp: ca_ok_def)
  show ?thesis
    unfolding wp_and_then wp_on_field hand_out_wp snd_conv case_prod_conv
  proof (rule wp_mono [OF store_new_wp [OF inv W ir]], goal_cases)
    case (1 p e)
    then have p: "p = next_page_id d" and up: "updates w d [p \<mapsto> replicate 8184 0] e" and nx: "next_page_id e = next_page_id d + 1"
      and ir': "id_room e n" by auto
    have below: "map_pages w y d \<subseteq> {q. q < next_page_id d}" "spare w y d \<subseteq> {q. q < next_page_id d}" using ti by (auto simp: tidy_def)
    have dis: "dom [p \<mapsto> replicate 8184 0] \<inter> map_pages w y d = {}" using p below by auto
    note u = updates_ca [OF ti gu up dis]
    have lt: "q < next_page_id e \<longleftrightarrow> q = p \<or> q < next_page_id d" for q
      using id_room_Suc(1) [OF ir] by (auto simp: nx p word_less_nat_alt word_unat_eq_iff)
    have "ca_taken w y e = insert p (ca_taken w y d)"
      unfolding ca_taken_def u(2,3) using below p by (auto simp: lt)
    moreover have "keeps w (ca_taken w x c) c e"
      using keeps_trans [of w "ca_taken w x c" c d "ca_taken w x c" e] mv updates_keeps [OF up, of "ca_taken w x c"] p
      by (auto simp: al_moved_def ca_taken_def)
    moreover have "ca_ok w K y e n" using u W ir' pos lt by (auto simp: ca_ok_def)
    moreover have "roomy e k" if "roomy c (7 + k)" for k
      using updates_roomy [OF up, of 1 k] room [of "Suc k"] that id_room_Suc(1) [OF ir] by (simp add: nx)
    moreover have "p \<notin> ca_taken w y d" "p \<notin> K" using p unguarded [OF ok, of p] below by (auto simp: ca_taken_def)
    ultimately show ?case using mv up p pos u(2) by (auto simp: al_given_def al_moved_def updates_def)
  next
    case (2 er e)
    then show ?case using roomy_calm [OF inv, of 1] room [of 1] al_moved_device [OF mv] by (auto simp: fails_def al_fails_def intro: same_device_trans)
  qed
qed

lemma claim_given:
  assumes ok: "ca_ok w K y d n" and inv: "pc_inv w d" and mv: "al_moved w x c (Some i) y d" and iK: "i \<notin> K"
    and room: "\<And>k. roomy c (6 + k) \<Longrightarrow> roomy d k"
  shows "wp (and_then (on_snd (claim_page w i)) (\<lambda>_. hand_out i)) (\<lambda>p. al_given w K n x c p) (al_fails w c) (y, d)"
proof -
  have W: "world_ok w" using ok by (simp add: ca_ok_def)
  have i: "i \<noteq> 0" "i \<notin> ca_taken w x c" "ca_taken w y d = insert i (ca_taken w x c)" "keeps w (ca_taken w x c) c d"
    using mv by (auto simp: al_moved_def)
  then have lt: "i < next_page_id d" and out: "i \<notin> map_pages w y d" by (auto simp: ca_taken_def)
  show ?thesis
    unfolding wp_and_then wp_on_field hand_out_wp claim_page_def snd_conv case_prod_conv
  proof (rule wp_mono [OF store_reissue_wp [OF inv W lt]], goal_cases)
    case (1 u e)
    then have up: "updates w d [i \<mapsto> replicate 8184 0] e" and nx: "next_page_id e = next_page_id d" by auto
    note cl = client_ca [OF ok up _ nx]
    have "keeps w (ca_taken w x c) c e"
      using keeps_trans [OF i(4) updates_keeps [OF up, of "ca_taken w x c"]] i(2) by auto
    moreover have "roomy e k" if "roomy c (7 + k)" for k
      using updates_roomy [OF up, of 0 k] room [of k] roomy_mono [OF that, of "6 + k"] by (simp add: nx)
    moreover have "map_pages w y e = map_pages w y d" using updates_ca(2) [OF _ _ up] ok out by (auto simp: ca_ok_def)
    ultimately show ?case using cl out i mv up iK by (auto simp: al_given_def al_moved_def updates_def)
  next
    case (2 er e)
    then show ?case using roomy_calm [OF inv, of 1] room [of 1] al_moved_device [OF mv] by (auto simp: fails_def al_fails_def intro: same_device_trans)
  qed
qed

lemma drawn_ca:
  assumes "ca_ok w K x c n" and v: "recyclable (al_pool x) \<noteq> []"
    and y: "y = x\<lparr>al_pool := (al_pool x)\<lparr>recyclable := butlast (recyclable (al_pool x))\<rparr>\<rparr>"
  shows "ca_ok w K y c n" and "ca_taken w y c = insert (last (recyclable (al_pool x))) (ca_taken w x c)"
    and "last (recyclable (al_pool x)) \<notin> ca_taken w x c"
proof -
  let ?v = "recyclable (al_pool x)"
  have ti: "tidy w x c" using assms(1) by (simp add: ca_ok_def)
  then have d: "distinct ?v" by (simp add: tidy_def)
  have sets: "free_ids w y c = free_ids w x c" "map_pages w y c = map_pages w x c" "al_reuse y = al_reuse x" "al_tree y = al_tree x"
    by (simp_all add: y map_pages_def)
  have R: "set ?v = insert (last ?v) (set (recyclable (al_pool y)))" "last ?v \<notin> set (recyclable (al_pool y))"
    using last_butlast [OF v] distinct_last [OF v d] by (simp_all add: y)
  have sp: "spare w x c = insert (last ?v) (spare w y c)" "last ?v \<notin> spare w y c"
    using R ti by (auto simp: spare_def sets tidy_def)
  have last: "last ?v < next_page_id c" "last ?v \<notin> map_pages w x c" using ti sp(1) by (auto simp: tidy_def)
  show "ca_taken w y c = insert (last ?v) (ca_taken w x c)" "last ?v \<notin> ca_taken w x c"
    using sp last by (auto simp: ca_taken_def sets)
  have "tidy w y c" using ti sp R d unfolding tidy_def sets by (auto simp: y distinct_butlast)
  moreover have "guarded w K y c"
    using assms(1) \<open>ca_taken w y c = _\<close> unfolding ca_ok_def guarded_def sets by (auto simp: y)
  ultimately show "ca_ok w K y c n" using assms(1) by (simp add: ca_ok_def)
qed

lemma draw_given:
  assumes ok: "ca_ok w K x c n" and inv: "pc_inv w c" and v: "recyclable (al_pool x) \<noteq> []"
  shows "wp (and_then (on_pool (draw w)) (\<lambda>r. hand_out (the r))) (\<lambda>p. al_given w K n x c p) (al_fails w c) (x, c)"
proof -
  let ?p = "last (recyclable (al_pool x))"
  define y where "y = x\<lparr>al_pool := (al_pool x)\<lparr>recyclable := butlast (recyclable (al_pool x))\<rparr>\<rparr>"
  have W: "world_ok w" and ti: "tidy w x c" using ok by (auto simp: ca_ok_def)
  have pool: "allocated (al_pool y) = allocated (al_pool x)" by (simp add: y_def)
  note dr = drawn_ca [OF ok v y_def]
  have p: "?p \<noteq> 0" "?p < next_page_id c" "?p \<notin> map_pages w x c" using ti last_in_set [OF v] by (auto simp: tidy_def spare_def)
  have "wp (reissue_page w ?p) (\<lambda>_ d. al_given w K n x c ?p (y\<lparr>al_pool := record_id ?p (al_pool y)\<rparr>, d))
      (\<lambda>e d. al_fails w c e (x, d)) c"
  proof (rule wp_mono [OF store_reissue_wp [OF inv W p(2)]], goal_cases)
    case (1 u e)
    then have up: "updates w c [?p \<mapsto> replicate 8184 0] e" and nx: "next_page_id e = next_page_id c" by auto
    have "map_pages w y c = map_pages w x c" by (simp add: map_pages_def y_def)
    then have cl: "ca_ok w K y e n" "ca_taken w y e = ca_taken w y c" "map_pages w y e = map_pages w x c"
      using client_ca [OF dr(1) up _ nx] updates_ca(2) [OF _ _ up] dr(1) p(3) by (auto simp: ca_ok_def)
    moreover have "keeps w (ca_taken w x c) c e" using updates_keeps [OF up, of "ca_taken w x c"] dr(3) by auto
    moreover have "roomy e k" if "roomy c (7 + k)" for k
      using updates_roomy [OF up, of 0 k] roomy_mono [OF that, of k] by (simp add: nx)
    moreover have "?p \<notin> K" by (rule unguarded [OF ok dr(3) p(3)])
    ultimately show ?case using dr(2,3) p up pool by (auto simp: al_given_def updates_def)
  next
    case (2 er e)
    then show ?case using roomy_calm [OF inv, of 1] roomy_mono [of c 7 1] by (auto simp: fails_def al_fails_def)
  qed
  then show ?thesis
    using v by (simp add: y_def on_pool_def draw_def wp_simps wp_on_field hand_out_wp reclaim_dead_txn_page_def)
qed

lemma al_moved_refl: "pc_inv w c \<Longrightarrow> al_moved w x c None x c"
  by (simp add: al_moved_def keeps_refl)

lemma cow_alloc_wp:
  assumes ok: "ca_ok w K x c (n + 7)" and inv: "pc_inv w c"
  shows "wp (cow_alloc w reuse) (\<lambda>p. al_given w K n x c p) (al_fails w c) (x, c)"
proof -
  have given_mono: "al_given w K n x c p yd" if "al_given w K m x c p yd" "n \<le> m" for p yd m
    using that id_room_mono by (auto simp: al_given_def ca_ok_def split: prod.splits)
  have new: "wp (and_then (on_snd (pc_new_page w)) hand_out) (\<lambda>p. al_given w K n x c p) (al_fails w c) (x, c)"
    by (rule wp_mono [OF new_given [where n = "n + 6" and K = K, OF _ inv al_moved_refl [OF inv]]])
      (use ok roomy_mono in \<open>auto intro: given_mono simp: numeral_eq_Suc\<close>)
  let ?rest = "and_then (gets (\<lambda>s. fm_root (al_tree (fst s)))) (\<lambda>root.
      and_then (if reuse \<and> root \<noteq> PAGE_ID_NONE then claim_free w else ok None) (\<lambda>found.
      case found of Some i \<Rightarrow> and_then (on_snd (claim_page w i)) (\<lambda>_. hand_out i)
      | None \<Rightarrow> and_then (on_snd (pc_new_page w)) hand_out))"
  have rest: "wp ?rest (\<lambda>p. al_given w K n x c p) (al_fails w c) (x, c)"
  proof (cases "reuse \<and> fm_root (al_tree x) \<noteq> PAGE_ID_NONE")
    case False
    then show ?thesis using new by (auto simp: wp_simps)
  next
    case True
    have "wp (claim_free w) (\<lambda>found. wp (case found of Some i \<Rightarrow> and_then (on_snd (claim_page w i)) (\<lambda>_. hand_out i)
        | None \<Rightarrow> and_then (on_snd (pc_new_page w)) hand_out) (\<lambda>p. al_given w K n x c p) (al_fails w c)) (al_fails w c) (x, c)"
    proof (rule wp_mono [OF claim_free_wp [OF ok inv]], goal_cases)
      case (3 found yd)
      obtain y d where yd: "yd = (y, d)" by (cases yd)
      have m: "al_moved w x c found y d" "ca_ok w K y d (Suc n)" "pc_inv w d" "\<And>k. roomy c (6 + k) \<Longrightarrow> roomy d k"
        using 3 yd by auto
      have "ca_ok w K y d n" using m(2) id_room_mono [of d "Suc n" n] by (simp add: ca_ok_def)
      moreover have "i \<notin> K" if "found = Some i" for i
      proof -
        have "i \<in> free_ids w x c" using 3 that by (auto simp: yd least_free_def)
        then have "i \<in> spare w x c" by (simp add: spare_def)
        moreover have "spare w x c \<inter> map_pages w x c = {}" using ok by (simp add: ca_ok_def tidy_def)
        ultimately show ?thesis using unguarded [OF ok, of i] by (auto simp: ca_taken_def)
      qed
      ultimately show ?case
        using new_given [OF m(2,3) _ m(4), of x] claim_given [OF _ m(3) _ _ m(4), of K y n x] m(1)
        by (cases found) (simp_all add: yd)
    qed (use True in auto)
    then show ?thesis using True by (simp add: wp_simps)
  qed
  show ?thesis
  proof (cases "reuse \<and> recyclable (al_pool x) \<noteq> []")
    case True
    have "wp (and_then (on_pool (draw w)) (\<lambda>r. hand_out (the r))) (\<lambda>p. al_given w K n x c p) (al_fails w c) (x, c)"
      by (rule wp_mono [OF draw_given [OF ok inv]]) (use True in \<open>auto intro: given_mono\<close>)
    then show ?thesis using True by (simp add: cow_alloc_def on_pool_def draw_def wp_simps wp_on_field)
  next
    case False
    then show ?thesis using rest by (cases reuse) (simp_all add: cow_alloc_def on_pool_def draw_def wp_simps wp_on_field)
  qed
qed

interpretation ca: page_alloc w "cow_alloc w reuse" "ca_taken w" "ca_good w K M" ca_room
  for w :: world and reuse :: bool and K M :: "u64 set"
proof (unfold_locales, goal_cases)
  case (2 c x)
  have given: "wp (cow_alloc w reuse) (\<lambda>p. al_given w K (7 * k) x c p) (al_fails w c) (x, c)" if "ca_good w K M x c (Suc k)" for k
    using cow_alloc_wp [of w K x c "7 * k" reuse] 2(1) that by (simp add: ca_good_def add.commute)
  have "wp (cow_alloc w reuse) (\<lambda>p yd. al_given w K 0 x c p yd \<and> (\<forall>k. ca_good w K M x c (Suc k) \<longrightarrow> al_given w K (7 * k) x c p yd)) (al_fails w c) (x, c)"
    by (rule wp_all) (use given [of 0] given 2(2) in auto)
  then show ?case
  proof (rule wp_mono, goal_cases)
    case (1 p yd)
    then show ?case by (cases yd) (auto simp: al_given_def ca_good_def ca_room_def)
  next
    case (2 e yd)
    then show ?case by (cases yd) (auto simp: al_fails_def ca_room_def)
  qed
next
  case (3 x c k j)
  then show ?case using id_room_mono [of c "7 * k" "7 * j"] by (simp add: ca_good_def ca_ok_def)
next
  case (7 x c j m d)
  have dis: "dom m \<inter> map_pages w x c = {}" using 7(3) by (auto simp: ca_taken_def)
  then have "ca_taken w x d = ca_taken w x c" using client_ca(2) [OF _ 7(2) dis 7(4)] 7(1) by (auto simp: ca_good_def)
  moreover have "roomy d k" if "roomy c k" for k using updates_roomy [OF 7(2), of 0 k] 7(4) that by simp
  moreover have "map_pages w x d = map_pages w x c" using updates_ca(2) [OF _ _ 7(2) dis] 7(1) by (auto simp: ca_good_def ca_ok_def)
  ultimately show ?case using client_ca(1) [OF _ 7(2) dis 7(4)] by (auto simp: ca_good_def ca_room_def)
qed (auto simp: ca_good_def ca_ok_def ca_room_def roomy_def ca_taken_def)

end
