(* ===== verification/Txn_Persist.thy ===== *)
theory Txn_Persist
  imports Txn_Recycle
begin

text \<open>
  How the free map of a transaction takes back pages: \<open>mark_free_committed_path\<close> and \<open>persist\<close> of
  \<open>src/transaction/freemap.rs\<close>. The map gains exactly the ids given to it, no page outside the map's
  own pages is written, and the pages of the map left behind are listed.
\<close>

section \<open>Taking the tree and putting it back\<close>

definition env_of :: "freemap_recycle \<Rightarrow> roots \<Rightarrow> txn_recycle \<Rightarrow> cow_env" where
  "env_of f rs pool = \<lparr>al_tree = take_tree rs f, al_hint = fr_hint f, al_reuse = structural_reuse f, al_pool = pool\<rparr>"

lemma env_of_simps [simp]:
  "al_tree (env_of f rs pool) = take_tree rs f" "al_hint (env_of f rs pool) = fr_hint f"
  "al_reuse (env_of f rs pool) = structural_reuse f" "al_pool (env_of f rs pool) = pool"
  "pending_superseded (take_tree rs f) = []" "session_owned (take_tree rs f) = fr_session_owned f"
  "fm_root (take_tree rs f) = freemap_page rs" "fm_depth (take_tree rs f) = freemap_depth rs"
  by (simp_all add: env_of_def take_tree_def from_roots_def)

abbreviation retake :: "cow_env \<Rightarrow> cow_env" where
  "retake y \<equiv> y\<lparr>al_tree := (al_tree y)\<lparr>pending_superseded := []\<rparr>\<rparr>"

lemma retake_sets [simp]:
  "fm_set w v c (T\<lparr>pending_superseded := ps\<rparr>) = fm_set w v c T" "fm_used w v c (T\<lparr>pending_superseded := ps\<rparr>) = fm_used w v c T"
  "fm_ok B (T\<lparr>pending_superseded := ps\<rparr>) = fm_ok B T" "fm_pages B (T\<lparr>pending_superseded := ps\<rparr>) = fm_pages B T" "spare w (retake y) c = spare w y c"
  by (simp_all add: fm_set_def fm_used_def fm_ok_def fm_free_def fm_pages_def spare_def)

text \<open>The pages the map left behind count as in use from then on.\<close>

lemma retake_tidy:
  assumes ti: "tidy w y c"
  shows "tidy w (retake y) c" and "ca_taken w (retake y) c = ca_taken w y c \<union> set (pending_superseded (al_tree y))"
    and "guarded w K y c \<Longrightarrow> guarded w K (retake y) c"
proof -
  let ?P = "set (pending_superseded (al_tree y))"
  have mp: "map_pages w y c = map_pages w (retake y) c \<union> ?P" by (simp add: map_pages_def)
  have dis: "?P \<inter> map_pages w (retake y) c = {}" using ti by (auto simp: tidy_def map_pages_def)
  show "tidy w (retake y) c" using ti unfolding tidy_def mp by auto
  show tk: "ca_taken w (retake y) c = ca_taken w y c \<union> ?P"
    using ti dis unfolding ca_taken_def retake_sets mp tidy_def by auto
  show "guarded w K (retake y) c" if g: "guarded w K y c" using g tk dis unfolding guarded_def mp by auto
qed

lemma put_take:
  assumes "put_tree T (f\<lparr>fr_hint := h, structural_reuse := v\<rparr>, rs) = (f', rs')"
  shows "env_of f' rs' pool = retake \<lparr>al_tree = T, al_hint = h, al_reuse = v, al_pool = pool\<rparr>"
    and "structural_superseded f' = structural_superseded f @ pending_superseded T"
  using assms by (auto simp: put_tree_def env_of_def take_tree_def from_roots_def)

section \<open>Marking one id\<close>

lemma map_moved_trans:
  assumes a: "map_moved w x c F s" and b: "map_moved w (with_map s h x) (t_cache s) G t"
    and sub: "fm_used w (al_reuse x) c (al_tree x) \<subseteq> se_taken (al_reuse x) c"
  shows "map_moved w x c (F \<union> G) t"
proof -
  let ?P = "fm_used w (al_reuse x) c (al_tree x)" and ?Q = "fm_pages (se.store w s) (t_own s)"
  have Q: "fm_used w (t_env s) (t_cache s) (t_own s) = ?Q"
    using a by (auto simp: map_moved_def fm_used_def se.store_def se.in_use_def)
  obtain sup where sup: "accounted ?P F ?Q sup" "set sup \<inter> session_owned (t_own s) = {}"
      "pending_superseded (t_own s) = pending_superseded (al_tree x) @ sup"
    using a by (auto simp: map_moved_def)
  obtain sup' where sup': "accounted ?Q G (fm_pages (se.store w t) (t_own t)) sup'" "set sup' \<inter> session_owned (t_own t) = {}"
      "pending_superseded (t_own t) = pending_superseded (t_own s) @ sup'"
    using b by (auto simp: map_moved_def Q)
  have iu: "se_taken (t_env s) (t_cache s) = se_taken (al_reuse x) c \<union> F" "G \<inter> se_taken (t_env s) (t_cache s) = {}"
    and so: "session_owned (t_own s) = session_owned (al_tree x) \<union> F" "session_owned (t_own t) = session_owned (t_own s) \<union> G"
    using a b by (auto simp: map_moved_def)
  have "accounted ?P (F \<union> G) (fm_pages (se.store w t) (t_own t)) (sup @ sup')"
    by (rule accounted_trans [OF sup(1) sup'(1)]) (use iu sub in auto)
  moreover have "set (sup @ sup') \<inter> session_owned (t_own t) = {}"
  proof -
    have "set sup \<subseteq> se_taken (t_env s) (t_cache s)" using sup(1) sub iu(1) by (auto simp: accounted_def)
    then show ?thesis using sup(2) sup'(2) iu(2) so by auto
  qed
  moreover have "keeps w (se_taken (al_reuse x) c - session_owned (al_tree x)) c (t_cache t)"
    by (rule keeps_trans [of _ _ _ "t_cache s" "se_taken (t_env s) (t_cache s) - session_owned (t_own s)"])
      (use a b so in \<open>auto simp: map_moved_def\<close>)
  ultimately show ?thesis
    using a b sup(3) sup'(3) unfolding map_moved_def by (auto intro!: exI [of _ "sup @ sup'"])
qed

text \<open>The outcome of marking \<open>i\<close>: the map moved and its free set has \<open>i\<close> besides.\<close>

definition marked_free :: "world \<Rightarrow> u64 \<Rightarrow> nat \<Rightarrow> nat \<Rightarrow> cow_env \<Rightarrow> page_cache \<Rightarrow> (u64 list, freemap_tree) tree_ctx \<Rightarrow> bool" where
  "marked_free w i m n x c t \<longleftrightarrow> (\<exists>F. map_moved w x c F t) \<and> fm_free (se.store w t) (t_own t) = insert i (free_ids w x c) \<and>
     se_good w (set (al_reuse x)) (t_env t) (t_cache t) n \<and> (\<forall>k. roomy c (m + k) \<longrightarrow> roomy (t_cache t) k)"

lemma mark_growing_moved:
  assumes good: "se_good w (set (al_reuse x)) (al_reuse x) c (n + 11)" and r: "fm_root (al_tree x) \<noteq> PAGE_ID_NONE" and inv: "pc_inv w c"
    and ok: "fm_ok (page_store w (se_taken (al_reuse x) c) c) (al_tree x)" and i: "unat i < 2 ^ 64 - 1"
  shows "wp (mark_free_growing w (structural_extend w) i) (\<lambda>_. marked_free w i 11 n x c) (se.stuck w 11 (ca_ctx x c)) (ca_ctx x c)"
proof -
  let ?X = "set (al_reuse x)"
  have fit: "se.fit w ?X 11 (ca_ctx x c)" using inv se.good_mono [OF good, of 11] by (simp add: se.fit_def)
  have free: "fm_free (page_store w (se_taken (al_reuse x) c) c) (al_tree x) = free_ids w x c" using r by (simp add: fm_set_def)
  show ?thesis
  proof (rule wp_mono [OF se.mark_free_growing_wp [OF fit _ i]], goal_cases)
    case 1
    then show ?case using ok by simp
  next
    case (2 u t)
    then have ev: "se.fm_evolved w ?X 11 (ca_ctx x c) t" by simp
    have "11 \<le> n + 11" by simp
    note em = evolved_moved [OF good r this inv ev]
    show ?case using 2 em free by (simp add: marked_free_def)
  qed simp
qed

lemma created_moved:
  assumes inv: "pc_inv w c" and good: "se_good w (set (al_reuse x)) (al_reuse x) c (Suc n)" and r: "fm_root (al_tree x) = PAGE_ID_NONE"
    and pend: "pending_superseded (al_tree x) = []" and ti: "tidy w x c"
    and s: "se.step w (set (al_reuse x)) {} 1 (ca_ctx x c) t" "fm_root T \<notin> se_taken (al_reuse x) c"
      "se.in_use t = insert (fm_root T) (se_taken (al_reuse x) c)" "fm_ok (se.store w t) T" "fm_pages (se.store w t) T = {fm_root T}"
      "pending_superseded T = []" "session_owned T = {fm_root T}"
    and v: "v = t\<lparr>t_own := T\<lparr>session_owned := session_owned T \<union> session_owned (al_tree x)\<rparr>\<rparr>"
  shows "map_moved w x c {fm_root T} v" and "se_good w (set (al_reuse x)) (t_env v) (t_cache v) n"
proof -
  let ?X = "set (al_reuse x)"
  show g: "se_good w ?X (t_env v) (t_cache v) n" using s(1) good by (auto simp: se.step_def v dest!: spec [of _ n])
  have fr: "fm_ok B (T\<lparr>session_owned := so\<rparr>) = fm_ok B T" "fm_pages B (T\<lparr>session_owned := so\<rparr>) = fm_pages B T" for B so
    by (simp_all add: fm_ok_def fm_pages_def)
  have kp: "keeps w (se_taken (al_reuse x) c) c (t_cache t)" using s(1) by (simp add: se.step_def)
  then have inv': "pc_inv w (t_cache t)" by (simp add: keeps_def)
  have "fm_root (t_own v) \<noteq> PAGE_ID_NONE"
    by (rule se_root [of w ?X]) (use inv' g se.good_mono [of w ?X "t_env v" "t_cache v" n 0] s(4) fr in \<open>auto simp: se.fit_def v\<close>)
  then show "map_moved w x c {fm_root T} v"
    unfolding map_moved_def using s g keeps_mono [OF kp] r pend se.step_raw [OF s(1)]
    by (auto simp: v fr se.in_use_def fm_used_def se_good_def accounted_def)
qed

lemma mark_free_body_wp:
  assumes good: "se_good w (set (al_reuse x)) (al_reuse x) c (n + 12)" and ti: "tidy w x c" and inv: "pc_inv w c"
    and pend: "pending_superseded (al_tree x) = []" and i: "i < next_page_id c"
  shows "wp (mark_free_body w i) (\<lambda>_. marked_free w i 12 n x c) (se.stuck w 12 (ca_ctx x c)) (ca_ctx x c)"
proof -
  let ?X = "set (al_reuse x)" and ?s = "ca_ctx x c"
  have ib: "unat i < 2 ^ 64 - 1" using i unat_u64_less [of "next_page_id c"] by (simp add: word_less_nat_alt)
  show ?thesis
  proof (cases "fm_root (al_tree x) = PAGE_ID_NONE")
    case False
    have g: "se_good w ?X (al_reuse x) c (Suc n + 11)" using good by (simp add: eval_nat_numeral)
    have "wp (mark_free_growing w (structural_extend w) i) (\<lambda>_. marked_free w i 11 (Suc n) x c) (se.stuck w 11 ?s) ?s"
      by (rule mark_growing_moved [OF g False inv _ ib]) (use ti False in \<open>simp add: tidy_def\<close>)
    then have "wp (mark_free_growing w (structural_extend w) i) (\<lambda>_. marked_free w i 12 n x c) (se.stuck w 12 ?s) ?s"
    proof (rule wp_mono, goal_cases)
      case (1 a t)
      have "se_good w ?X (t_env t) (t_cache t) n" by (rule se.good_mono [of _ _ _ _ "Suc n"]) (use 1 in \<open>auto simp: marked_free_def\<close>)
      moreover have "roomy (t_cache t) k" if "roomy c (12 + k)" for k
        using 1 roomy_mono [OF that, of "11 + k"] by (simp add: marked_free_def)
      ultimately show ?case using 1 by (simp add: marked_free_def)
    qed (erule se.stuck_mono, simp)
    then show ?thesis using False by (simp add: mark_free_body_def wp_simps)
  next
    case True
    let ?blank = "?s\<lparr>t_own := (al_tree x)\<lparr>session_owned := {}\<rparr>\<rparr>"
    have fit: "se.fit w ?X 1 ?blank" using inv se.good_mono [OF good, of 1] by (simp add: se.fit_def)
    have "wp (fm_create w (structural_extend w)) (\<lambda>T t. wp (mark_free_growing w (structural_extend w) i)
        (\<lambda>_. marked_free w i 12 n x c) (se.stuck w 12 ?s) (t\<lparr>t_own := T\<lparr>session_owned := session_owned T \<union> session_owned (al_tree x)\<rparr>\<rparr>))
        (se.stuck w 12 ?s) ?blank"
    proof (rule wp_mono [OF se.fm_create_wp [OF fit]], goal_cases)
      case (1 T t)
      define v where "v = t\<lparr>t_own := T\<lparr>session_owned := session_owned T \<union> session_owned (al_tree x)\<rparr>\<rparr>"
      have s: "se.step w ?X {} 1 ?s t" "fm_root T \<notin> se_taken (al_reuse x) c" "se.in_use t = insert (fm_root T) (se_taken (al_reuse x) c)"
        "fm_ok (se.store w t) T" "fm_pages (se.store w t) T = {fm_root T}" "pending_superseded T = []" "session_owned T = {fm_root T}"
        "fm_free (se.store w t) T = {}" using 1 by simp_all
      have g1: "se_good w ?X (al_reuse x) c (Suc (n + 11))" using good by (simp add: eval_nat_numeral)
      note cm = created_moved [OF inv g1 True pend ti s(1-7) v_def]
      define x1 where "x1 = with_map v (al_hint x) x"
      have x1: "ca_ctx x1 (t_cache v) = v" "al_reuse x1 = t_env v" "al_tree x1 = t_own v" by (simp_all add: x1_def ca_ctx_def)
      have mi: "next_page_id c \<le> next_page_id (t_cache v)" "pc_inv w (t_cache v)" using map_moved_sets [OF cm(1) refl] by auto
      have g2: "se_good w (set (al_reuse x1)) (al_reuse x1) (t_cache v) (n + 11)"
        using cm(2) by (auto simp: x1 se_good_def)
      have free1: "free_ids w x1 (t_cache v) = {}" using map_moved_sets(1) [OF cm(1) x1_def] s(8) by (simp add: v_def fm_free_def)
      have root: "fm_root (al_tree x1) \<noteq> PAGE_ID_NONE" and ok1: "fm_ok (page_store w (se_taken (al_reuse x1) (t_cache v)) (t_cache v)) (al_tree x1)"
        using cm(1) unfolding x1 map_moved_def se.store_def se.in_use_def by blast+
      have st: "se.step w ?X {} 1 ?s v" using s(1) by (simp add: v_def)
      have "wp (mark_free_growing w (structural_extend w) i) (\<lambda>_. marked_free w i 12 n x c) (se.stuck w 12 ?s) v"
      proof (rule wp_mono [OF mark_growing_moved [OF g2 root mi(2) ok1 ib, unfolded x1(1)]], goal_cases)
        case (1 a u)
        then obtain G where G: "map_moved w x1 (t_cache v) G u" "fm_free (se.store w u) (t_own u) = {i}"
            "se_good w (set (t_env v)) (t_env u) (t_cache u) n" "\<And>k. roomy (t_cache v) (11 + k) \<Longrightarrow> roomy (t_cache u) k"
          using free1 by (auto simp: marked_free_def x1)
        have "map_moved w x c ({fm_root T} \<union> G) u"
          by (rule map_moved_trans [OF cm(1) G(1) [unfolded x1_def]]) (simp add: fm_used_def True)
        moreover have "se_good w ?X (t_env u) (t_cache u) n" using G(3) cm(1) by (auto simp: se_good_def map_moved_def)
        moreover have "free_ids w x c = {}" by (simp add: fm_set_def True)
        moreover have "roomy (t_cache u) k" if "roomy c (12 + k)" for k
          by (rule G(4)) (use st that in \<open>auto simp: se.step_def se_room_def\<close>)
        ultimately show ?case using G(2) unfolding marked_free_def by auto
      next
        case (2 e u)
        then show ?case using se.stuck_later [OF st, of 11 e u] by simp
      qed
      then show ?case by (simp add: v_def)
    next
      case (2 e t)
      then show ?case using se.stuck_mono [of w 1 ?s e t 12] by simp
    qed
    then show ?thesis using True by (simp add: mark_free_body_def wp_simps set_own_def)
  qed
qed

text \<open>
  From one state of the recycling to another: the ids \<open>A\<close> went from in use to free; the pages \<open>F\<close> are
  new to the map, the pages \<open>sup\<close> it left behind are listed and stay untouched.
\<close>

definition took_back :: "world \<Rightarrow> txn_recycle \<Rightarrow> nat \<Rightarrow> u64 set \<Rightarrow> freemap_recycle \<times> roots \<times> page_cache \<Rightarrow> freemap_recycle \<times> roots \<times> page_cache \<Rightarrow> bool" where
  "took_back w pool n A = (\<lambda>(f, rs, c) (f', rs', d).
     tidy w (env_of f' rs' pool) d \<and> keeps w (se_taken (structural_reuse f) c - fr_session_owned f) c d \<and>
     set (structural_reuse f') \<subseteq> set (structural_reuse f) \<and> distinct (structural_reuse f') \<and> raw w d \<subseteq> raw w c \<and>
     free_ids w (env_of f' rs' pool) d = free_ids w (env_of f rs pool) c \<union> A \<and>
     rs'\<lparr>freemap_page := 0, freemap_depth := 0\<rparr> = rs\<lparr>freemap_page := 0, freemap_depth := 0\<rparr> \<and>
     fr_hint_at_begin f' = fr_hint_at_begin f \<and> pending_structural_frees f' = pending_structural_frees f \<and>
     (\<forall>k. roomy c (n + k) \<longrightarrow> roomy d k) \<and>
     (\<exists>F sup. se_taken (structural_reuse f') d = se_taken (structural_reuse f) c \<union> F \<and> F \<inter> se_taken (structural_reuse f) c = {} \<and>
        fr_session_owned f' = fr_session_owned f \<union> F \<and> structural_superseded f' = structural_superseded f @ sup \<and>
        accounted (fm_used w (structural_reuse f) c (take_tree rs f)) F (fm_used w (structural_reuse f') d (take_tree rs' f')) sup \<and>
        set sup \<inter> fr_session_owned f' = {} \<and>
        ca_taken w (env_of f' rs' pool) d = ca_taken w (env_of f rs pool) c - A \<union> set sup))"

lemma took_back_refl:
  assumes "pc_inv w c" and "tidy w (env_of f rs pool) c"
  shows "took_back w pool 0 {} (f, rs, c) (f, rs, c)"
  using assms by (auto simp: took_back_def keeps_refl tidy_def intro!: exI [of _ "{}"] exI [of _ "[]"])

lemma tidy_used: "tidy w x c \<Longrightarrow> fm_used w (al_reuse x) c (al_tree x) \<subseteq> se_taken (al_reuse x) c"
  using tidy_taken(2) [of w x c] by (auto simp: map_pages_def)

lemma took_back_trans:
  assumes a: "took_back w pool m A (f, rs, c) (f', rs', d)" and b: "took_back w pool n B (f', rs', d) (g, rt, e)"
    and ti: "tidy w (env_of f rs pool) c" and B: "B \<subseteq> ca_taken w (env_of f rs pool) c"
  shows "took_back w pool (m + n) (A \<union> B) (f, rs, c) (g, rt, e)"
proof -
  let ?P = "fm_used w (structural_reuse f) c (take_tree rs f)" and ?Q = "fm_used w (structural_reuse f') d (take_tree rs' f')"
    and ?R = "fm_used w (structural_reuse g) e (take_tree rt g)" and ?U = "se_taken (structural_reuse f) c"
  have P: "?P \<subseteq> ?U" "?P \<inter> ca_taken w (env_of f rs pool) c = {}"
    using tidy_used [OF ti] tidy_taken(1) [OF ti] by (auto simp: map_pages_def)
  obtain F sup where F: "se_taken (structural_reuse f') d = ?U \<union> F" "F \<inter> ?U = {}" "fr_session_owned f' = fr_session_owned f \<union> F"
      "structural_superseded f' = structural_superseded f @ sup" "accounted ?P F ?Q sup" "set sup \<inter> fr_session_owned f' = {}"
      "ca_taken w (env_of f' rs' pool) d = ca_taken w (env_of f rs pool) c - A \<union> set sup"
    using a by (auto simp: took_back_def)
  obtain G sup' where G: "se_taken (structural_reuse g) e = ?U \<union> F \<union> G" "G \<inter> (?U \<union> F) = {}" "fr_session_owned g = fr_session_owned f' \<union> G"
      "structural_superseded g = structural_superseded f' @ sup'" "accounted ?Q G ?R sup'" "set sup' \<inter> fr_session_owned g = {}"
      "ca_taken w (env_of g rt pool) e = ca_taken w (env_of f' rs' pool) d - B \<union> set sup'"
    using b F(1) unfolding took_back_def by auto
  have s: "set sup \<subseteq> ?P" using F(3,5,6) by (auto simp: accounted_def)
  have "accounted ?P (F \<union> G) ?R (sup @ sup')" by (rule accounted_trans [OF F(5) G(5)]) (use P(1) G(2) in auto)
  moreover have "set (sup @ sup') \<inter> fr_session_owned g = {}" using s F(6) G(2,3,6) P(1) by auto
  moreover have "ca_taken w (env_of g rt pool) e = ca_taken w (env_of f rs pool) c - (A \<union> B) \<union> set (sup @ sup')"
    using F(7) G(7) s P(2) B by auto
  moreover have "keeps w (?U - fr_session_owned f) c e"
    by (rule keeps_trans [of _ _ _ d "se_taken (structural_reuse f') d - fr_session_owned f'"])
      (use a b F in \<open>auto simp: took_back_def\<close>)
  moreover have "roomy e k" if "roomy c (m + n + k)" for k using a b that by (auto simp: took_back_def add.assoc)
  moreover have "raw w d \<subseteq> raw w c" "raw w e \<subseteq> raw w d" using a b by (simp_all add: took_back_def)
  then have "raw w e \<subseteq> raw w c" by blast
  ultimately show ?thesis
    using a b F(1-4) G(1-4) unfolding took_back_def by (auto intro!: exI [of _ "F \<union> G"] exI [of _ "sup @ sup'"])
qed

text \<open>What a failure of the recycling leaves: a cache that can be rolled back, over the same device.\<close>

definition back_fails :: "world \<Rightarrow> nat \<Rightarrow> page_cache \<Rightarrow> chisel_error \<Rightarrow> freemap_recycle \<times> roots \<times> page_cache \<Rightarrow> bool" where
  "back_fails w n c e = (\<lambda>(f, rs, d). pc_wf w d \<and> same_device c d \<and> env_error w e \<and> (no_faults w \<longrightarrow> \<not> roomy c n))"

definition recycle_ok :: "world \<Rightarrow> txn_recycle \<Rightarrow> nat \<Rightarrow> freemap_recycle \<times> roots \<times> page_cache \<Rightarrow> bool" where
  "recycle_ok w pool n = (\<lambda>(f, rs, c). world_ok w \<and> pc_inv w c \<and> 0 < next_page_id c \<and> id_room c n \<and> tidy w (env_of f rs pool) c)"

lemma recycle_good: "recycle_ok w pool n (f, rs, c) \<Longrightarrow> se_good w (set (structural_reuse f)) (structural_reuse f) c n"
  by (auto simp: recycle_ok_def tidy_def spare_def se_good_def)

lemma marked_took_back:
  assumes ok: "recycle_ok w pool m (f, rs, c)" and i: "i \<in> ca_taken w (env_of f rs pool) c" "i \<noteq> 0"
    and mf: "marked_free w i 12 n (env_of f rs pool) c t"
    and put: "put_tree (t_own t) (f\<lparr>fr_hint := h, structural_reuse := t_env t\<rparr>, rs) = (f', rs')"
  shows "took_back w pool 12 {i} (f, rs, c) (f', rs', t_cache t)" and "recycle_ok w pool n (f', rs', t_cache t)"
proof -
  let ?x = "env_of f rs pool"
  define y where "y = with_map t h ?x"
  have ti: "tidy w ?x c" and W: "world_ok w" and pos: "0 < next_page_id c" using ok by (simp_all add: recycle_ok_def)
  obtain F where mv: "map_moved w ?x c F t" and free: "fm_free (se.store w t) (t_own t) = insert i (free_ids w ?x c)"
    and gd: "se_good w (set (structural_reuse f)) (t_env t) (t_cache t) n" and room: "\<And>k. roomy c (12 + k) \<Longrightarrow> roomy (t_cache t) k"
    using mf by (auto simp: marked_free_def)
  note T = tidy_taken [OF ti] and ms = map_moved_sets [OF mv y_def]
  have mt: "ca_taken w y (t_cache t) = ca_taken w ?x c \<union> free_ids w ?x c - insert i (free_ids w ?x c)" "tidy w y (t_cache t)"
    by (rule map_moved_taken [OF ti mv y_def free]; use T(5) i in auto)+
  have tk: "ca_taken w y (t_cache t) = ca_taken w ?x c - {i}" using mt(1) T(1) by auto
  have e: "env_of f' rs' pool = retake y" using put_take(1) [OF put, of pool] by (simp add: y_def env_of_def)
  have fr: "free_ids w (env_of f' rs' pool) (t_cache t) = insert i (free_ids w ?x c)"
    using ms(1) free unfolding e by simp
  have put': "structural_reuse f' = t_env t" "fr_session_owned f' = session_owned (t_own t)" "take_tree rs' f' = (t_own t)\<lparr>pending_superseded := []\<rparr>"
    "rs'\<lparr>freemap_page := 0, freemap_depth := 0\<rparr> = rs\<lparr>freemap_page := 0, freemap_depth := 0\<rparr>"
    "fr_hint_at_begin f' = fr_hint_at_begin f" "pending_structural_frees f' = pending_structural_frees f"
    "structural_superseded f' = structural_superseded f @ pending_superseded (t_own t)"
    using put by (auto simp: put_tree_def take_tree_def from_roots_def)
  have used: "fm_used w (structural_reuse f') (t_cache t) (take_tree rs' f') = fm_pages (se.store w t) (t_own t)"
    using mv by (auto simp: put' map_moved_def fm_used_def se.store_def se.in_use_def)
  have rt: "tidy w (retake y) (t_cache t)" "ca_taken w (retake y) (t_cache t) = ca_taken w ?x c - {i} \<union> set (pending_superseded (t_own t))"
    using retake_tidy [OF mt(2)] tk by (simp_all add: y_def)
  show "took_back w pool 12 {i} (f, rs, c) (f', rs', t_cache t)"
    unfolding took_back_def case_prod_conv e used using mv rt fr [unfolded e] put' room
    by (auto simp: map_moved_def intro!: exI [of _ F])
  show "recycle_ok w pool n (f', rs', t_cache t)"
    using W ms(3,4) pos gd rt(1) e by (auto simp: recycle_ok_def se_good_def)
qed

lemma mark_free_committed_path_wp:
  assumes ok: "recycle_ok w pool (n + 12) (f, rs, c)" and i: "i \<in> ca_taken w (env_of f rs pool) c" "i \<noteq> 0"
  shows "wp (mark_free_committed_path w i) (\<lambda>_ t. took_back w pool 12 {i} (f, rs, c) t \<and> recycle_ok w pool n t)
    (back_fails w 12 c) (f, rs, c)"
proof -
  let ?x = "env_of f rs pool"
  have ctx: "\<lparr>t_env = structural_reuse f, t_cache = c, t_own = take_tree rs f\<rparr> = ca_ctx ?x c" by (simp add: ca_ctx_def)
  have inv: "pc_inv w c" and ti: "tidy w ?x c" and lt: "i < next_page_id c" using ok i by (auto simp: recycle_ok_def ca_taken_def)
  have good: "se_good w (set (al_reuse ?x)) (al_reuse ?x) c (n + 12)" using recycle_good [OF ok] by simp
  show ?thesis
    unfolding mark_free_committed_path_def wp_on_field case_prod_conv ctx
  proof (rule wp_mono [OF mark_free_body_wp [OF good ti inv _ lt]], goal_cases)
    case (2 u t)
    then show ?case using marked_took_back [OF ok i] by (auto split: prod.splits)
  next
    case (3 e t)
    then show ?case by (auto simp: se.stuck_def back_fails_def se_room_def put_tree_def split: prod.splits)
  qed simp
qed

section \<open>Marking a list\<close>

lemma took_back_device: "took_back w pool n A (f, rs, c) (f', rs', d) \<Longrightarrow> same_device c d"
  using keeps_device by (auto simp: took_back_def)

lemma back_fails_later:
  assumes "took_back w pool m A (f, rs, c) (f', rs', d)" and "back_fails w n d e t"
  shows "back_fails w (m + n) c e t"
  using assms took_back_device [OF assms(1)] same_device_trans [of c d]
  by (cases t) (auto simp: back_fails_def took_back_def)

lemma persist_loop_wp:
  assumes "recycle_ok w pool (n + 12 * length ids) (f, rs, c)" and "set ids \<subseteq> ca_taken w (env_of f rs pool) c" and "0 \<notin> set ids" and "distinct ids"
  shows "wp (for_each ids (mark_free_committed_path w))
    (\<lambda>_ t. took_back w pool (12 * length ids) (set ids) (f, rs, c) t \<and> recycle_ok w pool n t) (back_fails w (12 * length ids) c) (f, rs, c)"
  using assms
proof (induction ids arbitrary: f rs c)
  case Nil
  then show ?case using took_back_refl [of w c f rs pool] by (simp add: wp_simps recycle_ok_def)
next
  case (Cons i ids)
  let ?l = "length ids"
  have ok: "recycle_ok w pool (n + 12 * ?l + 12) (f, rs, c)" using Cons.prems(1) by (simp add: algebra_simps)
  then have ti: "tidy w (env_of f rs pool) c" by (simp add: recycle_ok_def)
  have i: "i \<in> ca_taken w (env_of f rs pool) c" "i \<noteq> 0" using Cons.prems(2,3) by auto
  have "wp (mark_free_committed_path w i) (\<lambda>_. wp (for_each ids (mark_free_committed_path w))
      (\<lambda>_ t. took_back w pool (12 + 12 * ?l) (insert i (set ids)) (f, rs, c) t \<and> recycle_ok w pool n t) (back_fails w (12 + 12 * ?l) c))
      (back_fails w (12 + 12 * ?l) c) (f, rs, c)"
  proof (rule wp_mono [OF mark_free_committed_path_wp [OF ok i]], goal_cases)
    case (1 u t)
    obtain f' rs' d where t: "t = (f', rs', d)" by (cases t)
    have tb: "took_back w pool 12 {i} (f, rs, c) (f', rs', d)" and ok': "recycle_ok w pool (n + 12 * ?l) (f', rs', d)" using 1 by (auto simp: t)
    have sub: "set ids \<subseteq> ca_taken w (env_of f' rs' pool) d" using tb Cons.prems(2,4) by (auto simp: took_back_def)
    show ?case
      unfolding t
    proof (rule wp_mono [OF Cons.IH [OF ok' sub]], goal_cases)
      case (3 v u)
      then show ?case using took_back_trans [OF tb _ ti, of "12 * ?l" "set ids"] Cons.prems(2) by (cases u) simp
    next
      case (4 e u)
      then show ?case by (rule back_fails_later [OF tb])
    qed (use Cons.prems in auto)
  next
    case (2 e t)
    then show ?case using roomy_mono [of c "12 + 12 * ?l" 12] by (auto simp: back_fails_def)
  qed
  then show ?case by (simp add: wp_simps)
qed

lemma persist_wp:
  assumes "recycle_ok w pool (n + 12 * length ids) (f, rs, c)" and "set ids \<subseteq> ca_taken w (env_of f rs pool) c" and "0 \<notin> set ids" and "distinct ids"
  shows "wp (persist w ids)
    (\<lambda>_ t. took_back w pool (12 * length ids) (set ids) (f, rs, c) t \<and> recycle_ok w pool n t) (back_fails w (12 * length ids) c) (f, rs, c)"
  using persist_loop_wp [OF assms] by (cases ids) (simp_all add: persist_def)

end
