(* ===== verification/Slot_Packer.thy ===== *)
theory Slot_Packer
  imports Txn_Persist Data_Page
begin

text \<open>
  \<open>src/transaction/packing.rs\<close>: small values go into the slots of data pages. The packer counts the
  live slots of every data page, so that a page whose last value goes away can be given up, and keeps
  a cursor on the page this transaction is filling.
\<close>

section \<open>Definitions\<close>

record slot_packer =
  committed_live_slots :: "u64 \<rightharpoonup> u32"
  current_live_slots :: "u64 \<rightharpoonup> u32"
  insert_cursor :: "u64 option"

definition slot_packer_new :: slot_packer where
  "slot_packer_new = \<lparr>committed_live_slots = Map.empty, current_live_slots = Map.empty, insert_cursor = None\<rparr>"

definition from_committed :: "(u64 \<rightharpoonup> u32) \<Rightarrow> slot_packer" where
  "from_committed committed =
     \<lparr>committed_live_slots = committed, current_live_slots = committed, insert_cursor = None\<rparr>"

definition count_slot :: "u64 \<Rightarrow> slot_packer \<Rightarrow> slot_packer" where
  "count_slot page_id p = p\<lparr>current_live_slots := (current_live_slots p)(page_id \<mapsto>
     (case current_live_slots p page_id of Some n \<Rightarrow> n | None \<Rightarrow> 0) + 1)\<rparr>"

definition insert_deferred :: "world \<Rightarrow> u64 \<Rightarrow> u8 list \<Rightarrow> u16 option cache_op" where
  "insert_deferred w cursor_page_id value =
     and_then (pc_get_mut_deferred_stamp w cursor_page_id) (\<lambda>buf.
     case data_page_insert buf value of
       None \<Rightarrow> ok None
     | Some (slot, buf') \<Rightarrow> and_then (pc_store cursor_page_id buf') (\<lambda>_. ok (Some slot)))"

definition insert_fresh :: "world \<Rightarrow> u64 \<Rightarrow> u8 list \<Rightarrow> u16 cache_op" where
  "insert_fresh w page_id value =
     and_then (pc_get_mut w page_id) (\<lambda>buf.
     case data_page_insert (data_page_init_page buf) value of
       None \<Rightarrow> panic
     | Some (slot, buf') \<Rightarrow> and_then (pc_store page_id (stamp_checksum (w_xxh w) buf')) (\<lambda>_. ok slot))"

definition packer_insert :: "world \<Rightarrow> 'x allocator \<Rightarrow> bool \<Rightarrow> u8 list \<Rightarrow> ('x, slot_packer, u64 \<times> u16) tree_op" where
  "packer_insert w alloc packing_enabled value =
     and_then (gets (\<lambda>s. insert_cursor (t_own s))) (\<lambda>cursor.
     and_then (case cursor of
         None \<Rightarrow> ok None
       | Some cursor_page_id \<Rightarrow>
           and_then (on_cache (insert_deferred w cursor_page_id value)) (\<lambda>slot_option.
           case slot_option of
             None \<Rightarrow> ok None
           | Some slot \<Rightarrow> and_then (set_own (count_slot cursor_page_id)) (\<lambda>_. ok (Some (cursor_page_id, slot))))) (\<lambda>r.
     case r of
       Some found \<Rightarrow> ok found
     | None \<Rightarrow>
         and_then (call_alloc alloc) (\<lambda>page_id.
         and_then (on_cache (insert_fresh w page_id value)) (\<lambda>slot.
         and_then (set_own (\<lambda>p. if packing_enabled then p\<lparr>insert_cursor := Some page_id\<rparr> else p)) (\<lambda>_.
         and_then (set_own (count_slot page_id)) (\<lambda>_. ok (page_id, slot)))))))"

definition packer_release :: "u64 \<Rightarrow> slot_packer \<Rightarrow> u64 option \<times> slot_packer" where
  "packer_release page_id p =
     (case current_live_slots p page_id of
        None \<Rightarrow> (None, p)
      | Some count \<Rightarrow>
          let count' = (if 0 < count then count - 1 else count);
              p' = p\<lparr>current_live_slots := (current_live_slots p)(page_id \<mapsto> count')\<rparr>
          in if count' = 0
             then (Some page_id, p'\<lparr>current_live_slots := (current_live_slots p')(page_id := None),
                     insert_cursor := (if insert_cursor p' = Some page_id then None else insert_cursor p')\<rparr>)
             else (None, p'))"

definition packer_begin :: "slot_packer \<Rightarrow> slot_packer" where
  "packer_begin p = p\<lparr>current_live_slots := committed_live_slots p, insert_cursor := None\<rparr>"

definition packer_commit :: "slot_packer \<Rightarrow> slot_packer" where
  "packer_commit p = p\<lparr>committed_live_slots := current_live_slots p, insert_cursor := None\<rparr>"

definition packer_rollback :: "slot_packer \<Rightarrow> slot_packer" where
  "packer_rollback p = p\<lparr>current_live_slots := committed_live_slots p, insert_cursor := None\<rparr>"

definition packer_restore :: "(u64 \<rightharpoonup> u32) \<Rightarrow> slot_packer \<Rightarrow> slot_packer" where
  "packer_restore live_slots p = p\<lparr>current_live_slots := live_slots, insert_cursor := None\<rparr>"

definition clear_cursor :: "slot_packer \<Rightarrow> slot_packer" where
  "clear_cursor p = p\<lparr>insert_cursor := None\<rparr>"

end
