(* ===== verification/Txn_Manager.thy ===== *)
theory Txn_Manager
  imports Slot_Packer Handle_Table Membership_Index Overflow_Chain
begin

text \<open>
  The transaction manager: \<open>src/transaction/mod.rs\<close> and the files beside it. One record holds what the
  struct holds; every public method is an operation on it, composed as in the source: a check that the
  manager is not poisoned, the inner method, and the poisoning on a fatal error.
\<close>

section \<open>State\<close>

definition MAX_INLINE_VALUE :: nat where
  [simp]: "MAX_INLINE_VALUE = CHECKSUM_OFFSET - DATA_PAGE_HEADER_SIZE - SLOT_ENTRY_SIZE"

record savepoint =
  sp_name :: string
  sp_roots :: roots
  sp_watermark :: u64
  sp_freed_pages :: "u64 list"
  sp_live_slots :: "u64 \<rightharpoonup> u32"
  sp_freemap :: freemap_mark

record txn_manager =
  tm_cache :: page_cache
  committed_roots :: roots
  current_roots :: roots
  ht_depth :: nat
  mi_depth :: nat
  tm_txn_counter :: u64
  tm_superblock_count :: u32
  active_txn :: bool
  savepoints :: "savepoint list"
  txn_freed_pages :: "u64 list"
  txn_pages :: txn_recycle
  tm_freemap :: freemap_recycle
  packer :: slot_packer
  poisoned :: bool
  tm_cipher :: "u8 list option"
  tm_crypto_header :: "crypto_header option"

type_synonym 'a txn_op = "(txn_manager, chisel_error, 'a) op"

definition on_tm_cache :: "'a cache_op \<Rightarrow> 'a txn_op" where
  "on_tm_cache m = on_field tm_cache (\<lambda>c s. s\<lparr>tm_cache := c\<rparr>) m"

definition of_result :: "'e + 'a \<Rightarrow> ('s, 'e, 'a) op" where
  "of_result r = (case r of Inl e \<Rightarrow> err e | Inr a \<Rightarrow> ok a)"

definition ok_or :: "'e \<Rightarrow> 'a option \<Rightarrow> ('s, 'e, 'a) op" where
  "ok_or e r = (case r of None \<Rightarrow> err e | Some a \<Rightarrow> ok a)"

text \<open>
  The frame around every use of the transaction's allocator: take the free-map tree, run, put the
  tree back whatever the outcome.
\<close>

definition cow_run ::
  "(txn_manager \<Rightarrow> 'o) \<Rightarrow> ('o \<Rightarrow> txn_manager \<Rightarrow> txn_manager) \<Rightarrow> (cow_env, 'o, 'a) tree_op \<Rightarrow> 'a txn_op" where
  "cow_run g p m = on_field
     (\<lambda>s. \<lparr>t_env = env_of (tm_freemap s) (current_roots s) (txn_pages s), t_cache = tm_cache s, t_own = g s\<rparr>)
     (\<lambda>t s. case put_tree (al_tree (t_env t))
              ((tm_freemap s)\<lparr>fr_hint := al_hint (t_env t), structural_reuse := al_reuse (t_env t)\<rparr>, current_roots s) of
        (f, rs) \<Rightarrow> p (t_own t) (s\<lparr>tm_freemap := f, current_roots := rs, txn_pages := al_pool (t_env t), tm_cache := t_cache t\<rparr>)) m"

text \<open>A radix operation of the handle table or the membership index, with the pages it supersedes.\<close>

definition with_freed :: "('x, radix_own, 'a) tree_op \<Rightarrow> ('x, radix_own, 'a \<times> u64 list) tree_op" where
  "with_freed m = and_then m (\<lambda>r. and_then (gets (\<lambda>s. ro_freed (t_own s))) (\<lambda>freed. ok (r, freed)))"

definition ht_run :: "(cow_env, radix_own, 'a) tree_op \<Rightarrow> ('a \<times> u64 list) txn_op" where
  "ht_run m = cow_run (\<lambda>s. \<lparr>ro_depth = ht_depth s, ro_freed = []\<rparr>) (\<lambda>r s. s\<lparr>ht_depth := ro_depth r\<rparr>) (with_freed m)"

definition mi_run :: "(cow_env, radix_own, 'a) tree_op \<Rightarrow> ('a \<times> u64 list) txn_op" where
  "mi_run m = cow_run (\<lambda>s. \<lparr>ro_depth = mi_depth s, ro_freed = []\<rparr>) (\<lambda>r s. s\<lparr>mi_depth := ro_depth r\<rparr>) (with_freed m)"

section \<open>Guards\<close>

definition check_alive :: "unit txn_op" where
  "check_alive = and_then (gets poisoned) (\<lambda>p. if p then err Poisoned else ok ())"

definition poison_on_fatal :: "'a txn_op \<Rightarrow> 'a txn_op" where
  "poison_on_fatal m = or_else m (\<lambda>e.
     and_then (modify (\<lambda>s. if is_fatal e then s\<lparr>poisoned := True\<rparr> else s)) (\<lambda>_. err e))"

abbreviation entry_point :: "'a txn_op \<Rightarrow> 'a txn_op" where
  "entry_point m \<equiv> and_then check_alive (\<lambda>_. poison_on_fatal m)"

abbreviation in_txn :: "'a txn_op \<Rightarrow> 'a txn_op" where
  "in_txn m \<equiv> and_then (gets active_txn) (\<lambda>active. if \<not> active then err NoActiveTransaction else m)"

section \<open>Begin and rollback\<close>

definition begin_inner :: "unit txn_op" where
  "begin_inner =
     and_then (gets id) (\<lambda>s.
     if read_only (pc_io (tm_cache s)) then err ReadOnlyMode
     else if active_txn s then err TransactionAlreadyActive
     else modify (\<lambda>s. s\<lparr>current_roots := committed_roots s, tm_freemap := fr_begin (tm_freemap s),
            txn_pages := txn_recycle_reset (txn_pages s), packer := packer_begin (packer s), active_txn := True,
            savepoints := [], txn_freed_pages := []\<rparr>))"

definition txn_begin :: "unit txn_op" where
  "txn_begin = entry_point begin_inner"

definition recover_depths :: "world \<Rightarrow> unit txn_op" where
  "recover_depths w =
     and_then (gets (\<lambda>s. membership_index_page (current_roots s))) (\<lambda>root.
     and_then (on_tm_cache (ru_recover_depth w root)) (\<lambda>depth.
     and_then (modify (\<lambda>s. s\<lparr>mi_depth := depth\<rparr>)) (\<lambda>_.
     and_then (gets (\<lambda>s. handle_table_page (current_roots s))) (\<lambda>root.
     and_then (on_tm_cache (ht_recover_depth w root)) (\<lambda>depth.
     modify (\<lambda>s. s\<lparr>ht_depth := depth\<rparr>))))))"

definition rollback_inner :: "world \<Rightarrow> unit txn_op" where
  "rollback_inner w = in_txn
     (and_then (modify (\<lambda>s. s\<lparr>tm_cache := discard_all_dirty w (tm_cache s)\<rparr>)) (\<lambda>_.
      and_then (gets (\<lambda>s. total_pages (committed_roots s))) (\<lambda>n.
      and_then (on_tm_cache (pc_truncate w n)) (\<lambda>_.
      and_then (modify (\<lambda>s. s\<lparr>current_roots := committed_roots s\<rparr>)) (\<lambda>_.
      and_then (recover_depths w) (\<lambda>_.
      modify (\<lambda>s. s\<lparr>tm_freemap := fr_rollback (tm_freemap s), txn_pages := txn_recycle_reset (txn_pages s),
        packer := packer_rollback (packer s), active_txn := False, savepoints := [], txn_freed_pages := []\<rparr>)))))))"

definition txn_rollback :: "world \<Rightarrow> unit txn_op" where
  "txn_rollback w = entry_point (rollback_inner w)"

section \<open>Placing values\<close>

definition insert_into_data_page :: "world \<Rightarrow> u8 list \<Rightarrow> (u64 \<times> u16) txn_op" where
  "insert_into_data_page w value =
     and_then (gets (\<lambda>s. savepoints s = [])) (\<lambda>reuse.
     cow_run packer (\<lambda>p s. s\<lparr>packer := p\<rparr>) (packer_insert w (cow_alloc w reuse) reuse value))"

definition release_data_slot :: "u64 \<Rightarrow> txn_manager \<Rightarrow> txn_manager" where
  "release_data_slot page_id s =
     (case packer_release page_id (packer s) of
        (freed, p) \<Rightarrow> (case freed of
           None \<Rightarrow> s\<lparr>packer := p\<rparr>
         | Some i \<Rightarrow> s\<lparr>packer := p, txn_freed_pages := txn_freed_pages s @ [i]\<rparr>))"

definition ensure_handle_table :: "world \<Rightarrow> unit txn_op" where
  "ensure_handle_table w =
     and_then (gets (\<lambda>s. handle_table_page (current_roots s))) (\<lambda>root.
     if root = PAGE_ID_NONE
     then and_then (on_field (\<lambda>s. \<lparr>t_env = (), t_cache = tm_cache s, t_own = \<lparr>ro_depth = ht_depth s, ro_freed = []\<rparr>\<rparr>)
            (\<lambda>t s. s\<lparr>tm_cache := t_cache t, ht_depth := ro_depth (t_own t)\<rparr>) (ht_create_root w)) (\<lambda>root.
          modify (\<lambda>s. s\<lparr>current_roots := (current_roots s)\<lparr>handle_table_page := root\<rparr>\<rparr>))
     else ok ())"

definition retire_superseded :: "u64 list \<Rightarrow> txn_manager \<Rightarrow> txn_manager" where
  "retire_superseded freed s =
     (case retire freed (savepoints s = []) (txn_pages s, txn_freed_pages s) of
        (pool, fs) \<Rightarrow> s\<lparr>txn_pages := pool, txn_freed_pages := fs\<rparr>)"

abbreviation set_ht_root :: "u64 \<Rightarrow> txn_manager \<Rightarrow> txn_manager" where
  "set_ht_root root s \<equiv> s\<lparr>current_roots := (current_roots s)\<lparr>handle_table_page := root\<rparr>\<rparr>"

abbreviation set_mi_root :: "u64 \<Rightarrow> txn_manager \<Rightarrow> txn_manager" where
  "set_mi_root root s \<equiv> s\<lparr>current_roots := (current_roots s)\<lparr>membership_index_page := root\<rparr>\<rparr>"

section \<open>Candidates\<close>

text \<open>New roots of the two indexes, not yet published.\<close>

definition membership_insert_candidate :: "world \<Rightarrow> u32 \<Rightarrow> u64 \<Rightarrow> (u64 \<times> u64 list) txn_op" where
  "membership_insert_candidate w tag handle =
     and_then (gets id) (\<lambda>s.
     mi_run (mi_insert w (cow_alloc w (savepoints s = [])) (membership_index_page (current_roots s)) tag handle))"

definition handle_table_insert_candidate :: "world \<Rightarrow> u64 \<Rightarrow> handle_entry \<Rightarrow> (u64 \<times> u64 list) txn_op" where
  "handle_table_insert_candidate w handle entry =
     and_then (gets id) (\<lambda>s.
     ht_run (ht_insert w (cow_alloc w (savepoints s = [])) (handle_table_page (current_roots s)) handle entry))"

definition membership_remove_candidate :: "world \<Rightarrow> u32 \<Rightarrow> u64 \<Rightarrow> ((u64 \<times> bool) \<times> u64 list) txn_op" where
  "membership_remove_candidate w tag handle =
     and_then (gets id) (\<lambda>s.
     mi_run (mi_remove w (cow_alloc w (savepoints s = [])) (membership_index_page (current_roots s)) tag handle))"

definition handle_table_delete_candidate :: "world \<Rightarrow> u64 \<Rightarrow> ((u64 \<times> handle_entry option) \<times> u64 list) txn_op" where
  "handle_table_delete_candidate w handle =
     and_then (gets id) (\<lambda>s.
     ht_run (ht_delete w (cow_alloc w (savepoints s = [])) (handle_table_page (current_roots s)) handle))"

definition abort_allocate_prepare :: "u64 \<Rightarrow> nat \<Rightarrow> u64 option \<Rightarrow> txn_manager \<Rightarrow> txn_manager" where
  "abort_allocate_prepare saved_root saved_depth inline_page s =
     (let s' = (set_ht_root saved_root s)\<lparr>ht_depth := saved_depth\<rparr>
      in case inline_page of None \<Rightarrow> s' | Some page_id \<Rightarrow> release_data_slot page_id s')"

section \<open>Reading\<close>

definition live_handle_table_root :: "txn_manager \<Rightarrow> u64" where
  "live_handle_table_root s = handle_table_page (if active_txn s then current_roots s else committed_roots s)"

definition lookup_live :: "world \<Rightarrow> u64 \<Rightarrow> handle_entry txn_op" where
  "lookup_live w handle =
     and_then (gets id) (\<lambda>s.
     and_then (on_tm_cache (ht_lookup w (ht_depth s) (live_handle_table_root s) handle)) (\<lambda>r.
     ok_or (InvalidHandle handle) r))"

definition txn_tag :: "world \<Rightarrow> u64 \<Rightarrow> u32 txn_op" where
  "txn_tag w handle = entry_point (and_then (lookup_live w handle) (\<lambda>e. ok (he_tag e)))"

definition txn_client_byte :: "world \<Rightarrow> u64 \<Rightarrow> u8 txn_op" where
  "txn_client_byte w handle = entry_point (and_then (lookup_live w handle) (\<lambda>e. ok (he_client_byte e)))"

definition read_inner :: "world \<Rightarrow> u64 \<Rightarrow> u8 list txn_op" where
  "read_inner w handle =
     and_then (lookup_live w handle) (\<lambda>entry.
     case he_flags entry of
       Live \<Rightarrow> and_then (on_tm_cache (pc_get w (he_page_id entry))) (\<lambda>buf.
                 ok_or (CorruptPage (he_page_id entry)) (data_page_read buf (he_slot_index entry)))
     | OverflowValue \<Rightarrow> on_tm_cache (overflow_read w (he_page_id entry))
     | Deleted \<Rightarrow> err (InvalidHandle handle))"

definition txn_read :: "world \<Rightarrow> u64 \<Rightarrow> u8 list txn_op" where
  "txn_read w handle = entry_point (read_inner w handle)"

definition handles_with_tag :: "world \<Rightarrow> u32 \<Rightarrow> u64 list txn_op" where
  "handles_with_tag w tag = entry_point
     (and_then (gets id) (\<lambda>s.
      on_tm_cache (handles_for_tag w (mi_depth s)
        (membership_index_page (if active_txn s then current_roots s else committed_roots s)) tag)))"

definition txn_handles :: "world \<Rightarrow> u64 list txn_op" where
  "txn_handles w = entry_point
     (and_then (gets id) (\<lambda>s.
      if live_handle_table_root s = PAGE_ID_NONE then ok []
      else and_then (on_tm_cache (ht_iter_live w (ht_depth s) (live_handle_table_root s))) (\<lambda>es. ok (map fst es))))"

section \<open>Allocating\<close>

text \<open>The value goes to an overflow chain or to a slot; the entry says where, the option names the data page.\<close>

definition place_value :: "world \<Rightarrow> u8 list \<Rightarrow> u32 \<Rightarrow> u8 \<Rightarrow> (handle_entry \<times> u64 option) txn_op" where
  "place_value w value tag client_byte =
     (if MAX_INLINE_VALUE < length value
      then and_then (on_tm_cache (overflow_write w value)) (\<lambda>first_page.
           ok (\<lparr>he_page_id = first_page, he_slot_index = 0, he_flags = OverflowValue, he_tag = tag, he_client_byte = client_byte\<rparr>, None))
      else and_then (insert_into_data_page w value) (\<lambda>(data_page_id, slot).
           ok (\<lparr>he_page_id = data_page_id, he_slot_index = slot, he_flags = Live, he_tag = tag, he_client_byte = client_byte\<rparr>,
               Some data_page_id)))"

abbreviation undo_with :: "'a txn_op \<Rightarrow> (txn_manager \<Rightarrow> txn_manager) \<Rightarrow> 'a txn_op" where
  "undo_with m undo \<equiv> or_else m (\<lambda>e. and_then (modify undo) (\<lambda>_. err e))"

definition allocate_inner :: "world \<Rightarrow> u8 list \<Rightarrow> u32 \<Rightarrow> u64 txn_op" where
  "allocate_inner w value tag = in_txn
     (and_then (gets (\<lambda>s. next_handle (current_roots s))) (\<lambda>handle.
      and_then (of_result (next_handle_after handle)) (\<lambda>next.
      and_then (place_value w value tag 0) (\<lambda>(entry, inline_page).
      and_then (gets (\<lambda>s. (handle_table_page (current_roots s), ht_depth s))) (\<lambda>(saved_ht_root, saved_ht_depth).
      and_then (ensure_handle_table w) (\<lambda>_.
      and_then (undo_with (handle_table_insert_candidate w handle entry)
                 (abort_allocate_prepare saved_ht_root saved_ht_depth inline_page)) (\<lambda>(ht_new_root, ht_freed).
      and_then (if tag \<noteq> 0
                then and_then (undo_with (membership_insert_candidate w tag handle)
                       (abort_allocate_prepare saved_ht_root saved_ht_depth inline_page)) (\<lambda>r. ok (Some r))
                else ok None) (\<lambda>mi.
      and_then (modify (\<lambda>s. s\<lparr>current_roots := (current_roots s)\<lparr>next_handle := next, handle_table_page := ht_new_root\<rparr>\<rparr>)) (\<lambda>_.
      and_then (modify (retire_superseded ht_freed)) (\<lambda>_.
      and_then (case mi of
          None \<Rightarrow> ok ()
        | Some (root, mi_freed) \<Rightarrow> modify (\<lambda>s. retire_superseded mi_freed (set_mi_root root s))) (\<lambda>_.
      ok handle)))))))))))"

definition txn_allocate :: "world \<Rightarrow> u8 list \<Rightarrow> u64 txn_op" where
  "txn_allocate w value = entry_point (allocate_inner w value 0)"

definition allocate_tagged :: "world \<Rightarrow> u8 list \<Rightarrow> u32 \<Rightarrow> u64 txn_op" where
  "allocate_tagged w value tag = entry_point (allocate_inner w value tag)"

section \<open>Updating\<close>

text \<open>What the old entry held, to be given up once the new one is published.\<close>

datatype old_release = Inline u64 | Chain "u64 list"

definition release_old :: "old_release \<Rightarrow> txn_manager \<Rightarrow> txn_manager" where
  "release_old r s = (case r of
     Inline page_id \<Rightarrow> release_data_slot page_id s
   | Chain freed \<Rightarrow> s\<lparr>txn_freed_pages := txn_freed_pages s @ freed\<rparr>)"

abbreviation release_inline :: "u64 option \<Rightarrow> txn_manager \<Rightarrow> txn_manager" where
  "release_inline new_inline_page s \<equiv> (case new_inline_page of None \<Rightarrow> s | Some page_id \<Rightarrow> release_data_slot page_id s)"

definition update_inner :: "world \<Rightarrow> u64 \<Rightarrow> u8 list \<Rightarrow> unit txn_op" where
  "update_inner w handle value = in_txn
     (and_then (lookup_live w handle) (\<lambda>entry.
      and_then (place_value w value (he_tag entry) (he_client_byte entry)) (\<lambda>(new_entry, new_inline_page).
      and_then (gets ht_depth) (\<lambda>saved_ht_depth.
      and_then (undo_with (handle_table_insert_candidate w handle new_entry) (release_inline new_inline_page)) (\<lambda>(ht_new_root, ht_freed).
      and_then (case he_flags entry of
          Live \<Rightarrow> ok (Inline (he_page_id entry))
        | OverflowValue \<Rightarrow>
            and_then (undo_with (on_tm_cache (collect_chain_pages w (he_page_id entry)))
              (\<lambda>s. (release_inline new_inline_page s)\<lparr>ht_depth := saved_ht_depth\<rparr>)) (\<lambda>freed. ok (Chain freed))
        | Deleted \<Rightarrow> err (CorruptPage (he_page_id entry))) (\<lambda>old_release.
      modify (\<lambda>s. release_old old_release (retire_superseded ht_freed (set_ht_root ht_new_root s)))))))))"

definition txn_update :: "world \<Rightarrow> u64 \<Rightarrow> u8 list \<Rightarrow> unit txn_op" where
  "txn_update w handle value = entry_point (update_inner w handle value)"

definition ht_insert_published :: "world \<Rightarrow> u64 \<Rightarrow> handle_entry \<Rightarrow> unit txn_op" where
  "ht_insert_published w handle entry =
     and_then (gets id) (\<lambda>s.
     and_then (ht_run (ht_insert w (cow_alloc w (savepoints s = [])) (handle_table_page (current_roots s)) handle entry))
       (\<lambda>(new_root, freed).
     modify (\<lambda>s. retire_superseded freed (set_ht_root new_root s))))"

definition set_client_byte :: "world \<Rightarrow> u64 \<Rightarrow> u8 \<Rightarrow> unit txn_op" where
  "set_client_byte w handle byte = entry_point (in_txn
     (and_then (lookup_live w handle) (\<lambda>entry.
      ht_insert_published w handle (entry\<lparr>he_client_byte := byte\<rparr>))))"

section \<open>Deleting\<close>

definition delete_inner :: "world \<Rightarrow> u64 \<Rightarrow> unit txn_op" where
  "delete_inner w handle = in_txn
     (and_then (handle_table_delete_candidate w handle) (\<lambda>((ht_new_root, prev_entry), ht_freed).
      and_then (ok_or (InvalidHandle handle) prev_entry) (\<lambda>entry.
      and_then (case he_flags entry of
          Live \<Rightarrow> ok (Inline (he_page_id entry))
        | OverflowValue \<Rightarrow> and_then (on_tm_cache (collect_chain_pages w (he_page_id entry))) (\<lambda>freed. ok (Chain freed))
        | Deleted \<Rightarrow> err (CorruptPage (he_page_id entry))) (\<lambda>release.
      and_then (if he_tag entry \<noteq> 0
                then and_then (membership_remove_candidate w (he_tag entry) handle) (\<lambda>((root, _), idx_freed). ok (Some (root, idx_freed)))
                else ok None) (\<lambda>mi.
      and_then (modify (\<lambda>s. release_old release (retire_superseded ht_freed (set_ht_root ht_new_root s)))) (\<lambda>_.
      case mi of
        None \<Rightarrow> ok ()
      | Some (root, idx_freed) \<Rightarrow> modify (\<lambda>s. retire_superseded idx_freed (set_mi_root root s))))))))"

definition txn_delete :: "world \<Rightarrow> u64 \<Rightarrow> unit txn_op" where
  "txn_delete w handle = entry_point (delete_inner w handle)"

definition delete_tagged :: "world \<Rightarrow> u64 \<Rightarrow> u32 \<Rightarrow> unit txn_op" where
  "delete_tagged w handle tag = entry_point (in_txn
     (and_then (lookup_live w handle) (\<lambda>entry.
      if he_tag entry \<noteq> tag then err (TagMismatch handle tag (he_tag entry)) else delete_inner w handle)))"

definition delete_with_tag :: "world \<Rightarrow> u32 \<Rightarrow> nat \<Rightarrow> (u64 list \<times> bool) txn_op" where
  "delete_with_tag w tag limit = entry_point (in_txn
     (if limit = 0 then ok ([], False)
      else and_then (gets id) (\<lambda>s.
           and_then (on_tm_cache (handles_for_tag_bounded w (mi_depth s) (membership_index_page (current_roots s)) tag
             (min (limit + 1) (2 ^ 64 - 1)))) (\<lambda>members.
           and_then (for_each (take limit members) (delete_inner w)) (\<lambda>_.
           ok (take limit members, length members \<le> limit))))))"

definition delete_many :: "world \<Rightarrow> u64 list \<Rightarrow> unit txn_op" where
  "delete_many w handles = entry_point (in_txn (for_each handles (delete_inner w)))"

section \<open>Savepoints\<close>

fun position :: "('a \<Rightarrow> bool) \<Rightarrow> 'a list \<Rightarrow> nat option" where
  "position P [] = None"
| "position P (x # xs) = (if P x then Some 0 else map_option Suc (position P xs))"

definition savepoint_inner :: "string \<Rightarrow> unit txn_op" where
  "savepoint_inner name = in_txn
     (and_then (gets savepoints) (\<lambda>sps.
      if list_ex (\<lambda>sp. sp_name sp = name) sps then err (DuplicateSavepoint name)
      else modify (\<lambda>s.
        case drain_into (txn_pages s, txn_freed_pages s) of
          (pool, freed) \<Rightarrow> s\<lparr>packer := clear_cursor (packer s), txn_pages := pool, txn_freed_pages := [],
            savepoints := savepoints s @ [\<lparr>sp_name = name, sp_roots = current_roots s,
              sp_watermark = next_page_id (tm_cache s), sp_freed_pages = freed,
              sp_live_slots = current_live_slots (packer s), sp_freemap = savepoint_mark (tm_freemap s)\<rparr>]\<rparr>)))"

definition txn_savepoint :: "string \<Rightarrow> unit txn_op" where
  "txn_savepoint name = entry_point (savepoint_inner name)"

definition rollback_to_inner :: "world \<Rightarrow> string \<Rightarrow> unit txn_op" where
  "rollback_to_inner w name = in_txn
     (and_then (gets (\<lambda>s. position (\<lambda>sp. sp_name sp = name) (savepoints s))) (\<lambda>found.
      and_then (ok_or (SavepointNotFound name) found) (\<lambda>idx.
      and_then (gets (\<lambda>s. savepoints s ! idx)) (\<lambda>sp.
      and_then (on_tm_cache (pc_truncate w (sp_watermark sp))) (\<lambda>_.
      and_then (modify (\<lambda>s. s\<lparr>current_roots := sp_roots sp\<rparr>)) (\<lambda>_.
      and_then (recover_depths w) (\<lambda>_.
      modify (\<lambda>s. s\<lparr>packer := packer_restore (sp_live_slots sp) (packer s),
        tm_freemap := rollback_to_mark (sp_freemap sp) (tm_freemap s),
        savepoints := take (idx + 1) (savepoints s), txn_freed_pages := []\<rparr>))))))))"

definition rollback_to :: "world \<Rightarrow> string \<Rightarrow> unit txn_op" where
  "rollback_to w name = entry_point (rollback_to_inner w name)"

definition release_inner :: "string \<Rightarrow> unit txn_op" where
  "release_inner name = in_txn
     (and_then (gets (\<lambda>s. position (\<lambda>sp. sp_name sp = name) (savepoints s))) (\<lambda>found.
      and_then (ok_or (SavepointNotFound name) found) (\<lambda>idx.
      modify (\<lambda>s. s\<lparr>txn_freed_pages := concat (map sp_freed_pages (drop idx (savepoints s))) @ txn_freed_pages s,
        savepoints := take idx (savepoints s)\<rparr>))))"

definition txn_release :: "string \<Rightarrow> unit txn_op" where
  "txn_release name = entry_point (release_inner name)"

section \<open>Named roots\<close>

definition encode_root_name :: "u8 list \<Rightarrow> chisel_error + u8 list" where
  "encode_root_name bytes =
     (if bytes = [] \<or> NAMED_ROOT_NAME_LEN < length bytes then Inl InvalidRootName
      else if 0 \<in> set bytes then Inl InvalidRootName
      else Inr (bytes @ replicate (NAMED_ROOT_NAME_LEN - length bytes) 0))"

abbreviation set_named :: "nat \<Rightarrow> named_root \<Rightarrow> txn_manager \<Rightarrow> txn_manager" where
  "set_named i r s \<equiv> s\<lparr>current_roots := (current_roots s)\<lparr>named_roots := (named_roots (current_roots s))[i := r]\<rparr>\<rparr>"

definition set_root_name :: "u8 list \<Rightarrow> u64 \<Rightarrow> unit txn_op" where
  "set_root_name name handle = entry_point (in_txn
     (and_then (of_result (encode_root_name name)) (\<lambda>encoded.
      and_then (gets (\<lambda>s. named_roots (current_roots s))) (\<lambda>table.
      case position (\<lambda>r. \<not> named_root_is_empty r \<and> nr_name r = encoded) table of
        Some i \<Rightarrow> modify (set_named i ((table ! i)\<lparr>nr_handle := handle\<rparr>))
      | None \<Rightarrow> (case position named_root_is_empty table of
          Some i \<Rightarrow> modify (set_named i \<lparr>nr_name = encoded, nr_handle = handle\<rparr>)
        | None \<Rightarrow> err RootNameTableFull)))))"

definition get_root_name :: "u8 list \<Rightarrow> u64 option txn_op" where
  "get_root_name name = entry_point
     (and_then (of_result (encode_root_name name)) (\<lambda>encoded.
      and_then (gets (\<lambda>s. named_roots (if active_txn s then current_roots s else committed_roots s))) (\<lambda>table.
      ok (map_option nr_handle (find (\<lambda>r. \<not> named_root_is_empty r \<and> nr_name r = encoded) table)))))"

definition clear_root_name :: "u8 list \<Rightarrow> unit txn_op" where
  "clear_root_name name = entry_point (in_txn
     (and_then (of_result (encode_root_name name)) (\<lambda>encoded.
      and_then (gets (\<lambda>s. named_roots (current_roots s))) (\<lambda>table.
      case position (\<lambda>r. \<not> named_root_is_empty r \<and> nr_name r = encoded) table of
        Some i \<Rightarrow> modify (set_named i NAMED_ROOT_EMPTY)
      | None \<Rightarrow> ok ()))))"

section \<open>Committing\<close>

definition commit_superblock :: "u64 \<Rightarrow> txn_manager \<Rightarrow> superblock" where
  "commit_superblock n s =
     \<lparr>sb_magic = MAGIC,
      sb_format_version = (if tm_crypto_header s \<noteq> None then format_version_encrypted else FORMAT_VERSION),
      sb_txn_counter = tm_txn_counter s,
      sb_root_handle_table_page = handle_table_page (current_roots s),
      sb_root_freemap_page = freemap_page (current_roots s),
      sb_total_pages = n,
      sb_next_handle = next_handle (current_roots s),
      sb_page_size = word_of_nat PAGE_SIZE,
      sb_named_roots = named_roots (current_roots s),
      sb_superblock_count = tm_superblock_count s,
      sb_root_membership_index_page = membership_index_page (current_roots s),
      sb_freemap_depth = word_of_nat (freemap_depth (current_roots s)),
      sb_encryption = tm_crypto_header s\<rparr>"

text \<open>The random source counts its draws in the cache; sealing the superblock takes one.\<close>

definition superblock_bytes :: "world \<Rightarrow> superblock \<Rightarrow> page txn_op" where
  "superblock_bytes w sb =
     and_then (gets id) (\<lambda>s.
     case (tm_cipher s, tm_crypto_header s) of
       (Some dek, Some _) \<Rightarrow>
         (case serialize_encrypted w dek (rng_draws (tm_cache s)) sb of
            None \<Rightarrow> panic
          | Some buf \<Rightarrow> and_then (modify (\<lambda>s. s\<lparr>tm_cache := (tm_cache s)\<lparr>rng_draws := Suc (rng_draws (tm_cache s))\<rparr>\<rparr>)) (\<lambda>_. ok buf))
     | _ \<Rightarrow> ok (serialize (w_xxh w) sb))"

definition write_superblock :: "world \<Rightarrow> u64 \<Rightarrow> page \<Rightarrow> unit txn_op" where
  "write_superblock w inactive buf =
     and_then (gets tm_cipher) (\<lambda>dek.
     if dek \<noteq> None
     then on_tm_cache (on_io (write_page_unit w inactive (buf @ replicate (ENC_PAGE_SIZE - length buf) 0)))
     else on_tm_cache (on_io (write_page w inactive buf)))"

definition run_commit :: "world \<Rightarrow> unit txn_op" where
  "run_commit w =
     and_then (gets tm_txn_counter) (\<lambda>counter.
     and_then (of_result (next_txn_counter counter)) (\<lambda>next_counter.
     and_then (modify (\<lambda>s. s\<lparr>txn_freed_pages := txn_freed_pages s @ concat (map sp_freed_pages (savepoints s)),
       savepoints := map (\<lambda>sp. sp\<lparr>sp_freed_pages := []\<rparr>) (savepoints s)\<rparr>)) (\<lambda>_.
     and_then (modify (\<lambda>s. case drain_into (txn_pages s, txn_freed_pages s) of
       (pool, freed) \<Rightarrow> s\<lparr>txn_pages := pool, txn_freed_pages := freed\<rparr>)) (\<lambda>_.
     and_then (on_tm_cache (pc_flush w)) (\<lambda>_.
     and_then (gets txn_freed_pages) (\<lambda>freed.
     and_then (on_field (\<lambda>s. (tm_freemap s, current_roots s, tm_cache s))
       (\<lambda>(f, rs, c) s. s\<lparr>tm_freemap := f, current_roots := rs, tm_cache := c\<rparr>) (persist w freed)) (\<lambda>_.
     and_then (on_tm_cache (pc_flush w)) (\<lambda>_.
     and_then (modify (\<lambda>s. s\<lparr>tm_txn_counter := next_counter\<rparr>)) (\<lambda>_.
     and_then (gets (\<lambda>s. io_page_count (pc_io (tm_cache s)))) (\<lambda>total_pages.
     and_then (gets (commit_superblock total_pages)) (\<lambda>sb.
     and_then (superblock_bytes w sb) (\<lambda>buf.
     and_then (and_then (gets id) (\<lambda>s. if tm_superblock_count s = 0 then panic
       else ok (tm_txn_counter s mod ucast (tm_superblock_count s)))) (\<lambda>inactive.
     and_then (write_superblock w inactive buf) (\<lambda>_.
     and_then (on_tm_cache (on_io (fsync w))) (\<lambda>_.
     modify (\<lambda>s. s\<lparr>committed_roots := (current_roots s)\<lparr>total_pages := total_pages\<rparr>, packer := packer_commit (packer s),
       active_txn := False, savepoints := [], txn_freed_pages := [], txn_pages := txn_recycle_reset (txn_pages s),
       tm_freemap := fr_commit (tm_freemap s)\<rparr>))))))))))))))))"

definition txn_commit :: "world \<Rightarrow> unit txn_op" where
  "txn_commit w =
     and_then check_alive (\<lambda>_.
     in_txn (or_else (run_commit w) (\<lambda>e. and_then (modify (\<lambda>s. s\<lparr>poisoned := True\<rparr>)) (\<lambda>_. err e))))"

section \<open>Configuration and counters\<close>

abbreviation between_txns :: "'a txn_op \<Rightarrow> 'a txn_op" where
  "between_txns m \<equiv> and_then check_alive (\<lambda>_.
     and_then (gets active_txn) (\<lambda>active. if active then err TransactionInProgress else m))"

definition txn_set_cache_max_bytes :: "u64 \<Rightarrow> unit txn_op" where
  "txn_set_cache_max_bytes bytes = between_txns (modify (\<lambda>s. s\<lparr>tm_cache := set_cache_max_bytes bytes (tm_cache s)\<rparr>))"

definition txn_set_spillway_max_bytes :: "u64 \<Rightarrow> unit txn_op" where
  "txn_set_spillway_max_bytes bytes = between_txns (modify (\<lambda>s. s\<lparr>tm_cache := set_spillway_max_bytes bytes (tm_cache s)\<rparr>))"

definition txn_set_drain_insertion :: "drain_insertion \<Rightarrow> unit txn_op" where
  "txn_set_drain_insertion policy = between_txns (modify (\<lambda>s. s\<lparr>tm_cache := set_drain_insertion policy (tm_cache s)\<rparr>))"

definition txn_spillway_capacity :: "(u64 \<times> u64) option txn_op" where
  "txn_spillway_capacity = and_then check_alive (\<lambda>_. gets (\<lambda>s. spillway_capacity (tm_cache s)))"

definition txn_file_page_count :: "u64 txn_op" where
  "txn_file_page_count = and_then check_alive (\<lambda>_. gets (\<lambda>s. io_page_count (pc_io (tm_cache s))))"

definition data_page_ids_snapshot :: "txn_manager \<Rightarrow> u64 set" where
  "data_page_ids_snapshot s = dom (current_live_slots (packer s))"

definition handle_live_page_id :: "world \<Rightarrow> u64 \<Rightarrow> u64 option txn_op" where
  "handle_live_page_id w handle = entry_point
     (and_then (gets id) (\<lambda>s.
      if live_handle_table_root s = PAGE_ID_NONE then ok None
      else and_then (on_tm_cache (ht_lookup w (ht_depth s) (live_handle_table_root s) handle)) (\<lambda>r.
           case r of
             None \<Rightarrow> ok None
           | Some entry \<Rightarrow> ok (if he_flags entry = Live then Some (he_page_id entry) else None))))"

definition reclaim_freemap_orphans :: "world \<Rightarrow> u64 txn_op" where
  "reclaim_freemap_orphans w =
     and_then check_alive (\<lambda>_.
     and_then (gets id) (\<lambda>s.
     if \<not> active_txn s then err NoActiveTransaction
     else poison_on_fatal (on_field (\<lambda>s. (tm_freemap s, current_roots s, tm_cache s))
            (\<lambda>(f, rs, c) s. s\<lparr>tm_freemap := f, current_roots := rs, tm_cache := c\<rparr>)
            (reclaim_orphans w (savepoints s \<noteq> []) (tm_superblock_count s)))))"

end
