(* ===== verification/Value_Layout.thy ===== *)
theory Value_Layout
  imports Handle_Table Overflow_Chain Slot_Packer
begin

text \<open>
  Where the values of a database are: each entry of the handle table names a slot of a data page or an
  overflow chain. A layout is a family of entries with their chains and values over a store of page
  bodies; it says that every entry's value is where the entry says, that no two entries share a slot or
  a chain page, and that the packer counts exactly the live slots of every data page. The family has a
  key for every handle and one more key for the value that is being placed or given up.
\<close>

section \<open>Data pages as bodies\<close>

abbreviation as_page :: "u8 list \<Rightarrow> page" where
  "as_page b \<equiv> b @ replicate 8 0"

definition data_body :: "u8 list \<Rightarrow> bool" where
  "data_body b \<longleftrightarrow> length b = 8184 \<and> data_page_ok (as_page b)"

definition body_values :: "u8 list \<Rightarrow> u8 list list" where
  "body_values b = data_page_values (as_page b)"

lemma get_u16_body: "p + 2 \<le> 8184 \<Longrightarrow> get_u16 p buf = get_u16 p (page_body buf)"
  by (simp add: get_uint_take)

lemma get_bytes_body: "p + n \<le> 8184 \<Longrightarrow> get_bytes p n buf = get_bytes p n (page_body buf)"
  by (simp add: get_bytes_take)

lemma header_of_body:
  assumes "page_ok a" and "page_ok b" and "page_body a = page_body b"
  shows "validate_header a = validate_header b"
proof -
  have "a ! 0 = b ! 0" using assms nth_take [of 0 8184 a] nth_take [of 0 8184 b] by simp
  then show ?thesis using assms get_u16_body [of _ a] get_u16_body [of _ b] by (simp add: validate_header_def)
qed

lemma data_page_of_body:
  assumes ok: "data_page_ok a" and b: "page_ok b" and eq: "page_body a = page_body b"
  shows "data_page_ok b" and "data_page_values b = data_page_values a"
proof -
  from ok obtain fs fe n where p: "page_ok a" and vh: "validate_header a = Some (fs, fe, n)"
    and fs: "fs = 16 + unat n * 6" "fs \<le> fe" "fe \<le> 8184" and n: "get_u16 2 a = n"
    and old: "\<And>i. i < unat n \<Longrightarrow> unat (get_u16 (16 + i * 6) a) + unat (get_u16 (18 + i * 6) a) \<le> 8184 \<and>
      fe \<le> unat (get_u16 (16 + i * 6) a) \<and> get_u16 (20 + i * 6) a = 1"
    by (rule data_page_okE) auto
  have u: "get_u16 q b = get_u16 q a" if "q + 2 \<le> 8184" for q
    using get_u16_body [OF that, of a] get_u16_body [OF that, of b] eq by simp
  have d: "get_u16 (16 + i * 6) b = get_u16 (16 + i * 6) a" "get_u16 (18 + i * 6) b = get_u16 (18 + i * 6) a"
    "get_u16 (20 + i * 6) b = get_u16 (20 + i * 6) a" if "i < unat n" for i
    using that fs u by simp_all
  have vb: "validate_header b = Some (fs, fe, n)" using header_of_body [OF p b eq] vh by simp
  show "data_page_ok b" using b vb fs(1) old d by (simp add: data_page_ok_def)
  have "get_bytes x k b = get_bytes x k a" if "x + k \<le> 8184" for x k
    using get_bytes_body [OF that, of a] get_bytes_body [OF that, of b] eq by simp
  then show "data_page_values b = data_page_values a"
    using old d n u [of 2] by (simp add: data_page_values_def data_page_slot_count_def)
qed

lemma data_body_page:
  assumes "page_ok buf"
  shows "data_body (page_body buf) \<longleftrightarrow> data_page_ok buf"
    and "data_page_ok buf \<Longrightarrow> body_values (page_body buf) = data_page_values buf"
proof -
  have p: "page_ok (as_page (page_body buf))" "page_body (as_page (page_body buf)) = page_body buf" using assms by simp_all
  show "data_body (page_body buf) \<longleftrightarrow> data_page_ok buf"
    using data_page_of_body(1) [of "as_page (page_body buf)" buf] data_page_of_body(1) [of buf "as_page (page_body buf)"] p assms
    by (auto simp: data_body_def)
  show "body_values (page_body buf) = data_page_values buf" if "data_page_ok buf"
    using data_page_of_body(2) [OF that p(1)] p(2) by (simp add: body_values_def)
qed

text \<open>A page has room for fewer than 1362 slots.\<close>

lemma body_values_few: "data_body b \<Longrightarrow> length (body_values b) \<le> 1361"
proof -
  assume "data_body b"
  then have "data_page_ok (as_page b)" by (simp add: data_body_def)
  then obtain fs fe n where "fs = 16 + unat n * 6" "fs \<le> fe" "fe \<le> 8184" "get_u16 2 (as_page b) = n"
    by (rule data_page_okE) auto
  then show ?thesis by (simp add: body_values_def data_page_values_def data_page_slot_count_def)
qed

section \<open>Entries and values\<close>

definition val_at :: "(u64 \<rightharpoonup> u8 list) \<Rightarrow> handle_entry \<Rightarrow> u64 list \<Rightarrow> u8 list \<Rightarrow> bool" where
  "val_at B e ids v = (case he_flags e of
     Live \<Rightarrow> ids = [] \<and> (\<exists>b. B (he_page_id e) = Some b \<and> data_body b \<and>
       unat (he_slot_index e) < length (body_values b) \<and> body_values b ! unat (he_slot_index e) = v)
   | OverflowValue \<Rightarrow> ids \<noteq> [] \<and> hd ids = he_page_id e \<and> distinct ids \<and> chain B (length v) ids v \<and> length v < 2 ^ 64
   | Deleted \<Rightarrow> False)"

type_synonym key = "u64 option"

abbreviation slot_of :: "handle_entry \<Rightarrow> u64 \<times> u16" where
  "slot_of e \<equiv> (he_page_id e, he_slot_index e)"

definition in_page :: "(key \<rightharpoonup> handle_entry) \<Rightarrow> u64 \<Rightarrow> key set" where
  "in_page S p = {k. \<exists>e. S k = Some e \<and> he_flags e = Live \<and> he_page_id e = p}"

definition counted :: "(u64 \<rightharpoonup> u32) \<Rightarrow> (key \<rightharpoonup> handle_entry) \<Rightarrow> bool" where
  "counted ls S \<longleftrightarrow> (\<forall>p. finite (in_page S p)) \<and> (\<forall>p. ls p = None \<longrightarrow> in_page S p = {}) \<and>
     (\<forall>p n. ls p = Some n \<longrightarrow> 0 < n \<and> unat n = card (in_page S p))"

definition chains_apart :: "(key \<Rightarrow> u64 list) \<Rightarrow> bool" where
  "chains_apart C \<longleftrightarrow> (\<forall>j k. j \<noteq> k \<longrightarrow> set (C j) \<inter> set (C k) = {})"

definition chain_pages :: "(key \<Rightarrow> u64 list) \<Rightarrow> u64 set" where
  "chain_pages C = (\<Union>k. set (C k))"

definition slots_apart :: "(key \<rightharpoonup> handle_entry) \<Rightarrow> bool" where
  "slots_apart S \<longleftrightarrow> (\<forall>j k d e. j \<noteq> k \<longrightarrow> S j = Some d \<longrightarrow> S k = Some e \<longrightarrow> he_flags d = Live \<longrightarrow> he_flags e = Live \<longrightarrow>
     slot_of d \<noteq> slot_of e)"

definition layout ::
  "(u64 \<rightharpoonup> u8 list) \<Rightarrow> (u64 \<rightharpoonup> u32) \<Rightarrow> (key \<rightharpoonup> handle_entry) \<Rightarrow> (key \<Rightarrow> u64 list) \<Rightarrow> (key \<rightharpoonup> u8 list) \<Rightarrow> bool" where
  "layout B ls S C V \<longleftrightarrow>
     (\<forall>k. S k = None \<longrightarrow> C k = [] \<and> V k = None) \<and> (\<forall>k e. S k = Some e \<longrightarrow> (\<exists>v. V k = Some v \<and> val_at B e (C k) v)) \<and>
     slots_apart S \<and> chains_apart C \<and> counted ls S \<and> dom ls \<inter> chain_pages C = {}"

abbreviation value_pages :: "(u64 \<rightharpoonup> u32) \<Rightarrow> (key \<Rightarrow> u64 list) \<Rightarrow> u64 set" where
  "value_pages ls C \<equiv> dom ls \<union> chain_pages C"

lemma layout_entry: "layout B ls S C V \<Longrightarrow> S k = Some e \<Longrightarrow> \<exists>v. V k = Some v \<and> val_at B e (C k) v"
  by (simp add: layout_def)

lemma layout_none: "layout B ls S C V \<Longrightarrow> S k = None \<Longrightarrow> C k = [] \<and> V k = None"
  by (simp add: layout_def)

lemma counted_dom:
  assumes "counted ls S"
  shows "p \<in> dom ls \<longleftrightarrow> in_page S p \<noteq> {}"
proof (cases "ls p")
  case None
  then show ?thesis using assms by (auto simp: counted_def)
next
  case (Some n)
  then have "0 < n" "unat n = card (in_page S p)" using assms by (auto simp: counted_def)
  then have "0 < card (in_page S p)" by (simp add: word_less_nat_alt)
  then show ?thesis using Some by auto
qed

lemma live_in_dom: "layout B ls S C V \<Longrightarrow> S k = Some e \<Longrightarrow> he_flags e = Live \<Longrightarrow> he_page_id e \<in> dom ls"
  using counted_dom [of ls S "he_page_id e"] by (auto simp: layout_def in_page_def)

lemma layout_data_body:
  assumes l: "layout B ls S C V" and p: "p \<in> dom ls"
  shows "\<exists>b. B p = Some b \<and> data_body b"
proof -
  obtain k e where "S k = Some e" "he_flags e = Live" "he_page_id e = p"
    using l p counted_dom [of ls S p] by (auto simp: layout_def in_page_def)
  then show ?thesis using layout_entry [OF l, of k e] by (auto simp: val_at_def)
qed

lemma val_at_frame:
  "val_at B e ids v \<Longrightarrow> (he_flags e = Live \<Longrightarrow> B' (he_page_id e) = B (he_page_id e)) \<Longrightarrow> (\<And>p. p \<in> set ids \<Longrightarrow> B' p = B p) \<Longrightarrow>
   val_at B' e ids v"
  by (auto simp: val_at_def chain_mono split: handle_flags.splits)

lemma layout_frame:
  assumes l: "layout B ls S C V" and same: "\<And>p. p \<in> value_pages ls C \<Longrightarrow> B' p = B p"
  shows "layout B' ls S C V"
proof -
  have "\<exists>v. V k = Some v \<and> val_at B' e (C k) v" if e: "S k = Some e" for k e
  proof -
    obtain v where v: "V k = Some v" "val_at B e (C k) v" using layout_entry [OF l e] by blast
    have "val_at B' e (C k) v" by (rule val_at_frame [OF v(2)]) (use live_in_dom [OF l e] same in \<open>auto simp: chain_pages_def\<close>)
    then show ?thesis using v(1) by blast
  qed
  then show ?thesis using l unfolding layout_def by simp
qed

section \<open>Changing a layout\<close>

text \<open>One more value in a slot of the page \<open>p\<close>, whose values so far stay in place.\<close>

lemma in_page_add:
  "S None = None \<Longrightarrow> in_page (S(None \<mapsto> e)) p = (if he_flags e = Live \<and> he_page_id e = p then insert None (in_page S p) else in_page S p)"
  by (auto simp: in_page_def)

lemma in_page_few:
  assumes l: "layout B ls S C V" and b: "B p = Some b" "data_body b"
  shows "card (in_page S p) \<le> 1361"
proof -
  let ?f = "\<lambda>k. unat (he_slot_index (the (S k)))"
  have "inj_on ?f (in_page S p)"
  proof (rule inj_onI, rule ccontr)
    fix j k assume a: "j \<in> in_page S p" "k \<in> in_page S p" "?f j = ?f k" "j \<noteq> k"
    then show False using l unfolding layout_def slots_apart_def in_page_def by (auto simp: word_unat_eq_iff)
  qed
  moreover have "?f ` in_page S p \<subseteq> {..<length (body_values b)}"
  proof
    fix x assume "x \<in> ?f ` in_page S p"
    then obtain k e where "x = unat (he_slot_index e)" "S k = Some e" "he_flags e = Live" "he_page_id e = p" by (auto simp: in_page_def)
    then show "x \<in> {..<length (body_values b)}" using layout_entry [OF l, of k e] b by (auto simp: val_at_def)
  qed
  ultimately have "card (in_page S p) \<le> length (body_values b)"
    by (metis card_inj_on_le card_lessThan finite_lessThan)
  then show ?thesis using body_values_few [OF b(2)] by simp
qed

lemma counted_add:
  assumes c: "counted ls S" and S: "S None = None" and e: "he_flags e = Live" and few: "card (in_page S (he_page_id e)) \<le> 1361"
  shows "counted (ls(he_page_id e \<mapsto> (case ls (he_page_id e) of Some n \<Rightarrow> n | None \<Rightarrow> 0) + 1)) (S(None \<mapsto> e))"
proof -
  let ?p = "he_page_id e" and ?n = "case ls (he_page_id e) of Some n \<Rightarrow> n | None \<Rightarrow> 0"
  have fin: "finite (in_page S q)" for q using c by (simp add: counted_def)
  have new: "None \<notin> in_page S ?p" using S by (simp add: in_page_def)
  have "unat ?n = card (in_page S ?p)" using c by (auto simp: counted_def split: option.splits)
  then have n: "unat (?n + 1) = Suc (card (in_page S ?p))" using few by (simp add: unat_word_ariths)
  then have "0 < ?n + 1" by (simp add: word_less_nat_alt)
  then show ?thesis using c n fin new unfolding counted_def in_page_add [where S = S, OF S] by (auto simp: e)
qed

lemma layout_add_slot:
  assumes l: "layout B ls S C V" and S: "S None = None" and e: "he_flags e = Live" "he_page_id e = p"
    and p: "p \<notin> chain_pages C" "p \<in> dom ls \<Longrightarrow> B p = Some b \<and> data_body b \<and> body_values b = vs" "p \<notin> dom ls \<Longrightarrow> vs = []"
    and b': "B' p = Some b'" "data_body b'" "body_values b' = vs @ [v]" "unat (he_slot_index e) = length vs"
    and same: "\<And>q. q \<in> value_pages ls C \<Longrightarrow> q \<noteq> p \<Longrightarrow> B' q = B q"
  shows "layout B' (ls(p \<mapsto> (case ls p of Some n \<Rightarrow> n | None \<Rightarrow> 0) + 1)) (S(None \<mapsto> e)) C (V(None \<mapsto> v))"
proof -
  have few: "card (in_page S p) \<le> 1361"
  proof (cases "p \<in> dom ls")
    case True
    then show ?thesis using in_page_few [OF l, of p b] p(2) by blast
  next
    case False
    then show ?thesis using counted_dom [of ls S p] l by (simp add: layout_def)
  qed
  have old: "unat (he_slot_index d) < length vs \<and> body_values b' ! unat (he_slot_index d) = body_values b ! unat (he_slot_index d)"
    if d: "S k = Some d" "he_flags d = Live" "he_page_id d = p" for k d
  proof -
    have "p \<in> dom ls" using live_in_dom [OF l d(1,2)] d(3) by simp
    then show ?thesis using layout_entry [OF l d(1)] d p(2) b'(3) by (auto simp: val_at_def nth_append)
  qed
  have val: "\<exists>x. V k = Some x \<and> val_at B' d (C k) x" if d: "S k = Some d" for k d
  proof -
    obtain x where x: "V k = Some x" "val_at B d (C k) x" using layout_entry [OF l d] by blast
    have "val_at B' d (C k) x"
    proof (cases "he_flags d = Live \<and> he_page_id d = p")
      case True
      then have "p \<in> dom ls" using live_in_dom [OF l d] by simp
      then show ?thesis using x(2) old [OF d] True b' p(2) by (auto simp: val_at_def)
    next
      case False
      show ?thesis by (rule val_at_frame [OF x(2)]; use False live_in_dom [OF l d] p(1) same in \<open>force simp: chain_pages_def\<close>)
    qed
    then show ?thesis using x(1) by blast
  qed
  have "C None = []" using layout_none [OF l S] by simp
  then have new: "val_at B' e (C None) v" using e b' by (simp add: val_at_def nth_append)
  have "slot_of d \<noteq> slot_of e" if "S k = Some d" "he_flags d = Live" for k d
  proof
    assume eq: "slot_of d = slot_of e"
    then have "unat (he_slot_index d) < length vs" using old [OF that] e(2) by simp
    then show False using eq b'(4) by simp
  qed
  then have apart: "slots_apart (S(None \<mapsto> e))" using l unfolding layout_def slots_apart_def
    by (auto split: if_splits) blast
  have cnt: "counted (ls(p \<mapsto> (case ls p of Some n \<Rightarrow> n | None \<Rightarrow> 0) + 1)) (S(None \<mapsto> e))"
    using counted_add [of ls S e] l S e few by (simp add: layout_def)
  have "k \<noteq> None \<Longrightarrow> S k = None \<Longrightarrow> C k = [] \<and> V k = None" for k using layout_none [OF l] by simp
  then show ?thesis using val new apart cnt l p(1) unfolding layout_def by auto
qed

text \<open>One more chain.\<close>

lemma layout_add_chain:
  assumes l: "layout B ls S C V" and S: "S None = None" and e: "he_flags e = OverflowValue" "he_page_id e = hd ids"
    and ids: "ids \<noteq> []" "distinct ids" "chain B' (length v) ids v" "length v < 2 ^ 64" "set ids \<inter> value_pages ls C = {}"
    and same: "\<And>q. q \<in> value_pages ls C \<Longrightarrow> B' q = B q"
  shows "layout B' ls (S(None \<mapsto> e)) (C(None := ids)) (V(None \<mapsto> v))"
proof -
  have l': "layout B' ls S C V" by (rule layout_frame [OF l same])
  have new: "val_at B' e ids v" using e ids by (simp add: val_at_def)
  have CN: "C None = []" using layout_none [OF l S] by simp
  have cp: "chain_pages (C(None := ids)) = set ids \<union> chain_pages C"
    using CN by (auto simp: chain_pages_def split: if_splits) (metis empty_iff list.set(1))
  have "chains_apart (C(None := ids))"
    using l ids(5) CN unfolding layout_def chains_apart_def by (auto simp: chain_pages_def)
  moreover have "in_page (S(None \<mapsto> e)) p = in_page S p" for p using e(1) in_page_add [where S = S and e = e and p = p, OF S] by simp
  then have "counted ls (S(None \<mapsto> e))" using l by (simp add: layout_def counted_def)
  moreover have "slots_apart (S(None \<mapsto> e))" using l e(1) unfolding layout_def slots_apart_def by auto
  ultimately show ?thesis using l' new ids(5) unfolding layout_def cp by auto
qed

text \<open>The value in the hand and the value of a handle change places.\<close>

abbreviation swap :: "u64 \<Rightarrow> (key \<Rightarrow> 'a) \<Rightarrow> key \<Rightarrow> 'a" where
  "swap h f \<equiv> f(Some h := f None, None := f (Some h))"

lemma swap_at: "swap h f k = f (if k = None then Some h else if k = Some h then None else k)"
  by auto

lemma layout_swap:
  assumes l: "layout B ls S C V"
  shows "layout B ls (swap h S) (swap h C) (swap h V)"
proof -
  define \<pi> where "\<pi> k = (if k = None then Some h else if k = Some h then None else k)" for k
  have inv: "\<pi> (\<pi> k) = k" for k by (auto simp: \<pi>_def)
  have sw: "swap h S = S \<circ> \<pi>" "swap h C = C \<circ> \<pi>" "swap h V = V \<circ> \<pi>" by (auto simp: \<pi>_def fun_eq_iff)
  have inj: "inj \<pi>" using inv by (metis injI)
  have ip: "in_page (S \<circ> \<pi>) p = \<pi> ` in_page S p" for p
    using inv by (auto simp: in_page_def image_iff) (metis inv)
  have "counted ls (S \<circ> \<pi>)"
    using l inj unfolding layout_def counted_def ip by (simp add: card_image [OF inj_on_subset [OF inj]])
  moreover have "slots_apart (S \<circ> \<pi>)" using l inj unfolding layout_def slots_apart_def comp_def by (metis injD)
  moreover have "chains_apart (C \<circ> \<pi>)" using l inj unfolding layout_def chains_apart_def comp_def by (metis injD)
  moreover have "chain_pages (C \<circ> \<pi>) = chain_pages C" using inv by (auto simp: chain_pages_def) metis
  ultimately show ?thesis using l unfolding sw layout_def by simp
qed

text \<open>The value in the hand is given up.\<close>

lemma in_page_drop: "in_page (S(None := None)) p = in_page S p - {None}"
  by (auto simp: in_page_def)

lemma hand_in_page: "S None = Some e \<Longrightarrow> None \<in> in_page S p \<longleftrightarrow> he_flags e = Live \<and> he_page_id e = p"
  by (auto simp: in_page_def)

lemma layout_drop_chain:
  assumes l: "layout B ls S C V" and e: "S None = Some e" "he_flags e = OverflowValue"
  shows "layout B ls (S(None := None)) (C(None := [])) (V(None := None))"
proof -
  have "in_page (S(None := None)) p = in_page S p" for p using e hand_in_page [where S = S and p = p, OF e(1)] by (simp add: in_page_drop)
  then have "counted ls (S(None := None))" using l by (simp add: layout_def counted_def)
  moreover have "slots_apart (S(None := None))" using l unfolding layout_def slots_apart_def by auto
  moreover have "chains_apart (C(None := []))" using l unfolding layout_def chains_apart_def by auto
  moreover have "chain_pages (C(None := [])) \<subseteq> chain_pages C" by (auto simp: chain_pages_def split: if_splits)
  ultimately show ?thesis using l unfolding layout_def by auto
qed

lemma packer_release_counted:
  assumes c: "counted (current_live_slots p) S" and e: "S None = Some e" "he_flags e = Live"
    and r: "packer_release (he_page_id e) p = (r, p')"
  shows "counted (current_live_slots p') (S(None := None))"
    and "current_live_slots p' = (current_live_slots p)(he_page_id e := current_live_slots p' (he_page_id e))"
    and "r = (if current_live_slots p' (he_page_id e) = None then Some (he_page_id e) else None)"
    and "r = Some (he_page_id e) \<longrightarrow> insert_cursor p' \<noteq> Some (he_page_id e)"
    and "he_page_id e \<in> dom (current_live_slots p)" and "insert_cursor p' \<in> {None, insert_cursor p}"
    and "committed_live_slots p' = committed_live_slots p"
proof -
  let ?q = "he_page_id e" and ?ls = "current_live_slots p"
  note ip = in_page_drop [of S]
  have ip': "in_page (S(None := None)) x = in_page S x" if "x \<noteq> ?q" for x using that hand_in_page [where S = S and p = x, OF e(1)] by (simp add: ip)
  have None: "None \<in> in_page S ?q" using e by (simp add: in_page_def)
  have dom: "?q \<in> dom ?ls" using counted_dom [OF c, of ?q] None by auto
  then obtain n where n: "?ls ?q = Some n" by auto
  then have cn: "0 < n" "unat n = card (in_page S ?q)" and fin: "finite (in_page S x)" for x using c by (auto simp: counted_def)
  have card: "card (in_page S ?q - {None}) = unat n - 1" using cn(2) fin None by simp
  have un: "unat (n - 1) = unat n - 1" using cn(1) by (simp add: unat_sub word_le_nat_alt word_less_nat_alt)
  have zero: "n - 1 = 0 \<longleftrightarrow> in_page S ?q - {None} = {}"
  proof -
    have "n - 1 = 0 \<longleftrightarrow> card (in_page S ?q - {None}) = 0" using card un by (simp add: word_unat_eq_iff)
    also have "\<dots> \<longleftrightarrow> in_page S ?q - {None} = {}" using fin [of ?q] by (intro card_eq_0_iff [THEN trans]) auto
    finally show ?thesis .
  qed
  have q': "n - 1 \<noteq> 0 \<Longrightarrow> 0 < n - 1" by (simp add: word_gt_0)
  have res: "(r, p') = (if n - 1 = 0
      then (Some ?q, p\<lparr>current_live_slots := ?ls(?q := None), insert_cursor := if insert_cursor p = Some ?q then None else insert_cursor p\<rparr>)
      else (None, p\<lparr>current_live_slots := ?ls(?q \<mapsto> n - 1)\<rparr>))"
    using r n cn(1) by (auto simp: packer_release_def Let_def split: if_splits)
  show "?q \<in> dom ?ls" by (rule dom)
  show "counted (current_live_slots p') (S(None := None))"
    using res zero ip ip' c card un q' fin unfolding counted_def by (cases "n - 1 = 0") (auto split: if_splits)
  show "current_live_slots p' = ?ls(?q := current_live_slots p' ?q)" "r = (if current_live_slots p' ?q = None then Some ?q else None)"
    "r = Some ?q \<longrightarrow> insert_cursor p' \<noteq> Some ?q" "insert_cursor p' \<in> {None, insert_cursor p}" "committed_live_slots p' = committed_live_slots p"
    using res by (auto split: if_splits)
qed

lemma layout_drop_slot:
  assumes l: "layout B (current_live_slots p) S C V" and e: "S None = Some e" "he_flags e = Live"
    and r: "packer_release (he_page_id e) p = (r, p')"
  shows "layout B (current_live_slots p') (S(None := None)) C (V(None := None))"
proof -
  have c: "counted (current_live_slots p) S" using l by (simp add: layout_def)
  note pr = packer_release_counted [OF c e r]
  have "C None = []" using layout_entry [OF l e(1)] e(2) by (auto simp: val_at_def)
  moreover have "slots_apart (S(None := None))" using l unfolding layout_def slots_apart_def by auto
  moreover have "dom (current_live_slots p') \<subseteq> dom (current_live_slots p)" using pr(2,5) by (metis dom_fun_upd insert_Diff_single insert_absorb subset_insertI subset_refl)
  moreover from this have "dom (current_live_slots p') \<inter> chain_pages C = {}" using l unfolding layout_def by blast
  ultimately show ?thesis using l pr(1) unfolding layout_def by simp
qed

text \<open>An entry may change in what does not say where the value is.\<close>

lemma layout_same_place:
  assumes l: "layout B ls S C V" and e: "S k = Some e" and d: "he_flags d = he_flags e" "he_page_id d = he_page_id e" "he_slot_index d = he_slot_index e"
  shows "layout B ls (S(k \<mapsto> d)) C V"
proof -
  have "in_page (S(k \<mapsto> d)) p = in_page S p" for p using e d by (auto simp: in_page_def)
  then have "counted ls (S(k \<mapsto> d))" using l by (simp add: layout_def counted_def)
  moreover have "slots_apart (S(k \<mapsto> d))" using l e d unfolding layout_def slots_apart_def by auto
  moreover have "val_at B d (C k) v = val_at B e (C k) v" for v unfolding val_at_def d ..
  ultimately show ?thesis using l e unfolding layout_def by auto
qed

end
