(* ===== verification/Value_Place.thy ===== *)
theory Value_Place
  imports Value_Layout
begin

text \<open>
  What \<open>SlotPacker::insert\<close> does to the pages: the value is appended to the page under the cursor when
  it fits, else to a fresh page. Nothing else changes, and no page is left without a valid checksum.
\<close>

section \<open>The cursor page\<close>

lemma put_entry:
  assumes inv: "pc_inv w s" and e: "map_of (entries s) p = Some e" and dirty: "ce_dirty e"
    and e': "ce_dirty e'" "page_ok (ce_buf e')"
  shows "pc_inv w (insert_entry p e' s)" and "same_store s (insert_entry p e' s)" and "is_dirty (insert_entry p e' s) = is_dirty s"
    and "pc_view w (insert_entry p e' s) = (pc_view w s)(p \<mapsto> settled w e')"
    and "map_of (entries (insert_entry p e' s)) p = Some e'"
proof -
  let ?t = "insert_entry p e' s"
  have t': "?t = s\<lparr>entries := AList.update p e' (entries s), dirty_count := dirty_count s\<rparr>" by (simp add: insert_entry_def)
  have ok: "entry_ok w (disk_page w (cipher s) (pc_io s) p) e'" using e' by (simp add: entry_ok_def)
  have tr: "tracked (AList.update p e' (entries s)) (pc_lru s) (dirty_count s)"
    by (rule tracked_update [OF tracked_inv [OF inv] e]) (simp add: dirty e')
  note u = pc_inv_update [OF inv e ok pc_inv_entry(1) [OF inv e dirty] tr t']
  have "is_dirty s p" using e dirty by (simp add: is_dirty_def)
  then show "is_dirty ?t = is_dirty s" using u(4) e'(1) by (simp add: fun_upd_idem_iff)
  show "pc_inv w ?t" "same_store s ?t" "pc_view w ?t = (pc_view w s)(p \<mapsto> settled w e')" using u(1-3) by simp_all
  show "map_of (entries ?t) p = Some e'" by (simp add: insert_entry_def)
qed

lemma stamped_entry: "ce_needs_stamp e \<Longrightarrow> page_ok (ce_buf e) \<Longrightarrow> settled w e = stamp_checksum (w_xxh w) (ce_buf e)"
  by (simp add: settled_def stamp_deferred_def)

text \<open>A dirty page whose contents become those of \<open>pg\<close>, checksum valid.\<close>

lemma edited_updates:
  assumes m: "marked w s p t" and i: "pc_inv w u" "same_store t u" "is_dirty u = is_dirty t" "pc_view w u = (pc_view w t)(p \<mapsto> pg)"
    and v: "verify_checksum (w_xxh w) pg"
  shows "updates w s [p \<mapsto> page_body pg] u" and "next_page_id u = next_page_id s" and "raw w u \<subseteq> raw w s" and "p \<notin> raw w u"
proof -
  have t: "pc_view w t = pc_view w s" "same_store s t" "is_dirty t = (is_dirty s)(p := True)" using m by (auto simp: marked_def)
  have st: "same_store s u" using t(2) i(2) io_same_trans by (auto simp: same_store_def)
  have d: "is_dirty u = (is_dirty s)(p := True)" using i(3) t(3) by simp
  have vu: "pc_view w u = (pc_view w s)(p \<mapsto> pg)" using i(4) t(1) by simp
  show "p \<notin> raw w u" "raw w u \<subseteq> raw w s" using vu d v by (auto simp: raw_def split: if_splits)
  then show "updates w s [p \<mapsto> page_body pg] u"
    using i(1) st d vu by (auto simp: updates_def same_store_def readable_def body_at_def fun_eq_iff)
  show "next_page_id u = next_page_id s" using st by (simp add: same_store_def)
qed

lemma get_deferred_wp:
  assumes inv: "pc_inv w s" and W: "world_ok w" and pn: "p < next_page_id s" and b: "body_at w s p = Some b" and r: "readable w s p"
  shows "wp (pc_get_mut_deferred_stamp w p) (\<lambda>buf t. page_ok buf \<and> page_body buf = b \<and>
      (\<exists>m e. marked w s p m \<and> pc_inv w t \<and> same_store m t \<and> is_dirty t = is_dirty m \<and> map_of (entries t) p = Some e \<and> ce_dirty e \<and>
         ce_needs_stamp e \<and> ce_buf e = buf \<and> pc_view w t = (pc_view w m)(p \<mapsto> settled w e))) (fails w s 0) s"
  unfolding pc_get_mut_deferred_stamp_def wp_and_then
proof (rule wp_mono [OF wp_conj [OF pc_get_mut_wp [OF inv W pn] get_mut_body_wp [OF inv W pn b]]], goal_cases)
  case (1 buf m)
  then obtain e where m: "marked w s p m" and e: "map_of (entries m) p = Some e" "ce_dirty e" "ce_buf e = buf"
    and buf: "page_ok buf" "page_body buf = b" by auto
  let ?e = "e\<lparr>ce_needs_stamp := True\<rparr>"
  have im: "pc_inv w m" using m by (simp add: marked_def)
  note pe = put_entry [OF im e(1,2), of ?e]
  have "ce_dirty ?e" "page_ok (ce_buf ?e)" using e buf by simp_all
  note pe = pe [OF this]
  show ?case using m e buf pe by (auto simp: entry_at_def wp_simps intro!: exI [of _ m])
next
  case (2 e t)
  then show ?case using get_fail_fails r by blast
qed

lemma insert_deferred_wp:
  assumes inv: "pc_inv w s" and W: "world_ok w" and pn: "p < next_page_id s" and b: "body_at w s p = Some b" and r: "readable w s p"
    and d: "data_body b"
  shows "wp (insert_deferred w p v)
    (\<lambda>r t. \<exists>b'. updates w s [p \<mapsto> b'] t \<and> next_page_id t = next_page_id s \<and> raw w t \<subseteq> raw w s \<and> data_body b' \<and>
       (case r of None \<Rightarrow> b' = b | Some slot \<Rightarrow> body_values b' = body_values b @ [v] \<and> unat slot = length (body_values b)))
    (fails w s 0) s"
  unfolding insert_deferred_def wp_and_then
proof (rule wp_mono [OF get_deferred_wp [OF inv W pn b r]], goal_cases)
  case (1 buf t)
  then obtain m e where buf: "page_ok buf" "page_body buf = b" and m: "marked w s p m"
    and t: "pc_inv w t" "same_store m t" "is_dirty t = is_dirty m" "pc_view w t = (pc_view w m)(p \<mapsto> settled w e)"
    and e: "map_of (entries t) p = Some e" "ce_dirty e" "ce_needs_stamp e" "ce_buf e = buf" by auto
  have se: "settled w e = stamp_checksum (w_xxh w) buf" using stamped_entry e buf by simp
  have ok: "data_page_ok buf" and vals: "body_values b = data_page_values buf" using data_body_page [OF buf(1)] buf(2) d by auto
  show ?case
  proof (cases "data_page_insert buf v")
    case None
    have "verify_checksum (w_xxh w) (settled w e)" using se buf by simp
    note up = edited_updates [OF m t this]
    have "page_body (settled w e) = b" using se buf by simp
    then show ?thesis using None up d by (auto simp: wp_simps)
  next
    case (Some x)
    then obtain slot buf' where x: "data_page_insert buf v = Some (slot, buf')" by (cases x) auto
    note ins = data_page_insert_ok [OF ok x]
    have ok': "page_ok buf'" using ins(1) by (simp add: data_page_ok_def)
    let ?e = "e\<lparr>ce_buf := buf'\<rparr>" and ?u = "insert_entry p (e\<lparr>ce_buf := buf'\<rparr>) t"
    have "ce_dirty ?e" "page_ok (ce_buf ?e)" using e ok' by simp_all
    note pe = put_entry [OF t(1) e(1,2) this]
    have se': "settled w ?e = stamp_checksum (w_xxh w) buf'" using stamped_entry [of ?e] e ok' by simp
    have "same_store m ?u" using t(2) pe(2) io_same_trans by (auto simp: same_store_def)
    moreover have "is_dirty ?u = is_dirty m" using t(3) pe(3) by simp
    moreover have "pc_view w ?u = (pc_view w m)(p \<mapsto> settled w ?e)" using pe(4) t(4) by simp
    moreover have "verify_checksum (w_xxh w) (settled w ?e)" using se' ok' by simp
    ultimately have up: "updates w s [p \<mapsto> page_body (settled w ?e)] ?u" "next_page_id ?u = next_page_id s" "raw w ?u \<subseteq> raw w s"
      using edited_updates [OF m pe(1)] by auto
    have "page_body (settled w ?e) = page_body buf'" using se' ok' by simp
    then have "data_body (page_body (settled w ?e))" "body_values (page_body (settled w ?e)) = body_values b @ [v]"
      using data_body_page [OF ok'] ins vals by auto
    then show ?thesis
      using x e up ins(3) vals by (auto simp: pc_store_def entry_at_def wp_simps intro!: exI [of _ "page_body (settled w ?e)"])
  qed
qed simp

section \<open>A fresh page\<close>

lemma insert_fresh_wp:
  assumes inv: "pc_inv w s" and W: "world_ok w" and pn: "p < next_page_id s" and b: "body_at w s p = Some b" and r: "readable w s p"
    and len: "length v \<le> 8162"
  shows "wp (insert_fresh w p v)
    (\<lambda>slot t. \<exists>b'. updates w s [p \<mapsto> b'] t \<and> next_page_id t = next_page_id s \<and> p \<notin> raw w t \<and> data_body b' \<and>
       body_values b' = [v] \<and> slot = 0)
    (fails w s 0) s"
  unfolding insert_fresh_def wp_and_then
proof (rule wp_mono [OF wp_conj [OF pc_get_mut_wp [OF inv W pn] get_mut_body_wp [OF inv W pn b]]], goal_cases)
  case (1 buf m)
  then obtain e where m: "marked w s p m" and e: "map_of (entries m) p = Some e" "ce_dirty e" "ce_buf e = buf"
    and buf: "page_ok buf" by auto
  note ini = data_page_init [OF buf]
  obtain slot buf' where x: "data_page_insert (data_page_init_page buf) v = Some (slot, buf')"
    using data_page_insert_None [OF ini(1), of v] ini(3) len by (cases "data_page_insert (data_page_init_page buf) v") auto
  note ins = data_page_insert_ok [OF ini(1) x]
  have ok': "page_ok buf'" using ins(1) by (simp add: data_page_ok_def)
  let ?e = "e\<lparr>ce_buf := stamp_checksum (w_xxh w) buf'\<rparr>" and ?u = "insert_entry p (e\<lparr>ce_buf := stamp_checksum (w_xxh w) buf'\<rparr>) m"
  have im: "pc_inv w m" using m by (simp add: marked_def)
  have "ce_dirty ?e" "page_ok (ce_buf ?e)" using e ok' by simp_all
  note pe = put_entry [OF im e(1,2) this]
  have se: "page_body (settled w ?e) = page_body buf'" "verify_checksum (w_xxh w) (settled w ?e)"
    using ok' by (simp_all add: settled_def stamp_deferred_def)
  note up = edited_updates [OF m pe(1-4) se(2)]
  have "data_body (page_body buf')" "body_values (page_body buf') = [v]" using data_body_page [OF ok'] ins ini(2) by auto
  moreover have "slot = 0" using ins(3) ini(2) by (simp add: unat_eq_0)
  ultimately show ?case
    using x e up se(1) by (auto simp: pc_store_def entry_at_def wp_simps intro!: exI [of _ "page_body buf'"])
next
  case (2 e t)
  then show ?case using get_fail_fails r by blast
qed

section \<open>Placing a value\<close>

definition slot_placed :: "u8 list \<Rightarrow> bool \<Rightarrow> slot_packer \<Rightarrow> (u64 \<rightharpoonup> u8 list) \<Rightarrow> u64 set \<Rightarrow> u64 \<times> u16 \<Rightarrow> slot_packer \<Rightarrow> (u64 \<rightharpoonup> u8 list) \<Rightarrow> u64 set \<Rightarrow> bool" where
  "slot_placed v packing k B U = (\<lambda>(p, slot) k' B' U'. p \<noteq> 0 \<and>
     (\<exists>vs b'. B' = B(p \<mapsto> b') \<and> data_body b' \<and> body_values b' = vs @ [v] \<and> unat slot = length vs \<and>
        (insert_cursor k = Some p \<and> (\<exists>b. B p = Some b \<and> data_body b \<and> body_values b = vs) \<and> U' = U \<and> k' = count_slot p k \<or>
         p \<notin> U \<and> vs = [] \<and> U' = insert p U \<and>
           k' = count_slot p (if packing then k\<lparr>insert_cursor := Some p\<rparr> else k))))"

context page_alloc
begin

lemma on_cache_updates_wp:
  assumes fit: "fit k s" and b: "store s p = Some b"
    and m: "\<And>c. pc_inv w c \<Longrightarrow> p < next_page_id c \<Longrightarrow> body_at w c p = Some b \<Longrightarrow> readable w c p \<Longrightarrow>
      wp m (\<lambda>r d. \<exists>b'. updates w c [p \<mapsto> b'] d \<and> next_page_id d = next_page_id c \<and> P (raw w c) (raw w d) r b') (fails w c 0) c"
  shows "wp (on_cache m) (\<lambda>r t. \<exists>b'. step {p} 0 s t \<and> store t = (store s)(p \<mapsto> b') \<and> in_use t = in_use s \<and> t_own t = t_own s \<and>
      P (raws s) (raws t) r b') (stuck 0 s) s"
proof -
  have inv: "pc_inv w (t_cache s)" and g: "good (t_env s) (t_cache s) k" using fit by (simp_all add: fit_def)
  have b': "body_at w (t_cache s) p = Some b" "readable w (t_cache s) p" and p: "p \<in> in_use s"
    using page_store_SomeD [of w "in_use s" "t_cache s"] b by (auto simp: store_def)
  have pn: "p < next_page_id (t_cache s)" using taken_below [OF g] p by (simp add: in_use_def)
  show ?thesis
    unfolding on_cache_def wp_on_field
  proof (rule wp_mono [OF m [OF inv pn b']], goal_cases)
    case (1 r d)
    then obtain b2 where u: "updates w (t_cache s) [p \<mapsto> b2] d" "next_page_id d = next_page_id (t_cache s)" "P (raws s) (raw w d) r b2" by auto
    note cs = cache_step [OF fit u(1) _ u(2)]
    show ?case using cs p u(3) by (auto intro!: exI [of _ b2])
  next
    case (2 e d)
    then show ?case using fails_stuck [OF inv] by simp
  qed
qed

text \<open>The attempt on the page under the cursor.\<close>

lemma cursor_insert_wp:
  assumes fit: "fit k s" and b: "store s p = Some b" "data_body b"
  shows "wp (on_cache (insert_deferred w p v)) (\<lambda>r t. \<exists>b'. step {p} 0 s t \<and> store t = (store s)(p \<mapsto> b') \<and> in_use t = in_use s \<and>
      t_own t = t_own s \<and> raws t \<subseteq> raws s \<and> data_body b' \<and>
      (case r of None \<Rightarrow> b' = b | Some slot \<Rightarrow> body_values b' = body_values b @ [v] \<and> unat slot = length (body_values b))) (stuck 0 s) s"
proof -
  have "world_ok w" using fit world by (auto simp: fit_def)
  then show ?thesis by (intro on_cache_updates_wp [OF fit b(1)] insert_deferred_wp b(2))
qed

lemma fresh_insert_wp:
  assumes fit: "fit 1 s" and len: "length v \<le> 8162"
  shows "wp (and_then (call_alloc alloc) (\<lambda>page_id. and_then (on_cache (insert_fresh w page_id v)) (\<lambda>slot. ok (page_id, slot))))
    (\<lambda>(p, slot) t. \<exists>b'. step {} 1 s t \<and> raws t \<subseteq> raws s \<and> p \<notin> in_use s \<and> p \<noteq> 0 \<and> in_use t = insert p (in_use s) \<and>
       store t = (store s)(p \<mapsto> b') \<and> t_own t = t_own s \<and> data_body b' \<and> body_values b' = [v] \<and> slot = 0) (stuck 1 s) s"
  unfolding wp_and_then
proof (rule wp_mono [OF alloc_wp [OF fit]], goal_cases)
  case (1 p t)
  then have t: "step {p} 1 s t" "p \<notin> in_use s" "p \<noteq> 0" "in_use t = insert p (in_use s)" "store t = (store s)(p \<mapsto> replicate 8184 0)" "t_own t = t_own s"
    by auto
  have ft: "fit 0 t" using step_fit [OF t(1), of 0] fit by simp
  have sp: "store t p = Some (replicate 8184 0)" using t(5) by simp
  have W: "world_ok w" using fit world by (auto simp: fit_def)
  have "wp (on_cache (insert_fresh w p v)) (\<lambda>r u. \<exists>b'. step {p} 0 t u \<and> store u = (store t)(p \<mapsto> b') \<and> in_use u = in_use t \<and> t_own u = t_own t \<and>
      p \<notin> raws u \<and> data_body b' \<and> body_values b' = [v] \<and> r = 0) (stuck 0 t) t"
    by (rule on_cache_updates_wp [OF ft sp, where P = "\<lambda>_ R r b'. p \<notin> R \<and> data_body b' \<and> body_values b' = [v] \<and> r = 0"]) (intro insert_fresh_wp W len)
  then show ?case
  proof (rule wp_mono, goal_cases)
    case (1 r u)
    then obtain b' where u: "step {p} 0 t u" "store u = (store t)(p \<mapsto> b')" "in_use u = in_use t" "t_own u = t_own t" "p \<notin> raws u"
      "data_body b'" "body_values b' = [v]" "r = 0" by auto
    have su: "step {p} 1 s u" using step_trans [OF t(1) u(1)] by simp
    have "step {} 1 s u" by (rule step_sealed [OF su]) (use t(2) u(5) in auto)
    then show ?case using u t step_raw [of "{}" 1 s u] by (auto simp: wp_simps)
  next
    case (2 e u)
    then show ?case using stuck_later [OF t(1), of 0 e u] by simp
  qed
qed simp

lemma packer_insert_wp:
  assumes fit: "fit 1 s" and len: "length v \<le> 8162"
    and cur: "\<And>c. insert_cursor (t_own s) = Some c \<Longrightarrow> c \<noteq> 0 \<and> (\<exists>b. store s c = Some b \<and> data_body b)"
  shows "wp (packer_insert w alloc packing v)
    (\<lambda>r t. step (set_option (insert_cursor (t_own s))) 1 s t \<and> raws t \<subseteq> raws s \<and>
       slot_placed v packing (t_own s) (store s) (in_use s) r (t_own t) (store t) (in_use t)) (stuck 1 s) s"
proof -
  let ?W = "set_option (insert_cursor (t_own s))"
  define fresh where "fresh = (and_then (call_alloc alloc) (\<lambda>page_id.
         and_then (on_cache (insert_fresh w page_id v)) (\<lambda>slot.
         and_then (set_own (\<lambda>p. if packing then p\<lparr>insert_cursor := Some page_id\<rparr> else p)) (\<lambda>_.
         and_then (set_own (count_slot page_id)) (\<lambda>_. ok (page_id, slot))))))"
  have fresh: "wp fresh (\<lambda>r t. step ?W 1 s t \<and> raws t \<subseteq> raws s \<and>
       slot_placed v packing (t_own s) (store s) (in_use s) r (t_own t) (store t) (in_use t)) (stuck 1 s) u"
    if u: "step ?W 0 s u" "raws u \<subseteq> raws s" "store u = store s" "in_use u = in_use s" "t_own u = t_own s" for u
  proof -
    have "fit 1 u" using step_fit [OF u(1), of 1] fit by simp
    note fw = fresh_insert_wp [OF this len]
    have "wp fresh (\<lambda>(p, slot) t. \<exists>b'. step {} 1 u t \<and> raws t \<subseteq> raws u \<and> p \<notin> in_use u \<and> p \<noteq> 0 \<and> in_use t = insert p (in_use u) \<and>
       store t = (store u)(p \<mapsto> b') \<and> t_own t = count_slot p (if packing then (t_own u)\<lparr>insert_cursor := Some p\<rparr> else t_own u) \<and>
       data_body b' \<and> body_values b' = [v] \<and> slot = 0) (stuck 1 u) u"
      using fw unfolding fresh_def wp_and_then
      by (auto simp: wp_simps set_own_def elim!: wp_mono)
    then show ?thesis
    proof (rule wp_mono, goal_cases)
      case (1 r t)
      then obtain p slot b' where r: "r = (p, slot)" and st: "step {} 1 u t" "raws t \<subseteq> raws u" and t: "p \<notin> in_use u" "p \<noteq> 0" "in_use t = insert p (in_use u)"
       "store t = (store u)(p \<mapsto> b')" "t_own t = count_slot p (if packing then (t_own u)\<lparr>insert_cursor := Some p\<rparr> else t_own u)"
       "data_body b'" "body_values b' = [v]" "slot = 0" by (cases r) auto
      have "step ?W 1 s t" using step_trans [OF u(1) st(1)] by simp
      moreover have "slot_placed v packing (t_own s) (store s) (in_use s) r (t_own t) (store t) (in_use t)"
        unfolding slot_placed_def r case_prod_conv using t u by (intro conjI exI [of _ "[]"] exI [of _ b']) simp_all
      ultimately show ?case using st(2) u(2) by auto
    next
      case (2 e t)
      then show ?case using stuck_later [OF u(1), of 1 e t] by simp
    qed
  qed
  show ?thesis
  proof (cases "insert_cursor (t_own s)")
    case None
    then show ?thesis using fresh [OF step_refl [OF fit]] by (simp add: packer_insert_def wp_simps fresh_def)
  next
    case (Some c)
    obtain b where b: "c \<noteq> 0" "store s c = Some b" "data_body b" using cur [OF Some] by auto
    show ?thesis
      unfolding packer_insert_def wp_and_then wp_gets Some option.case
    proof (rule wp_mono [OF cursor_insert_wp [OF fit b(2,3), of v]], goal_cases)
      case (1 r t)
      then obtain b' where t: "step {c} 0 s t" "store t = (store s)(c \<mapsto> b')" "in_use t = in_use s" "t_own t = t_own s" "raws t \<subseteq> raws s" "data_body b'"
        and r: "case r of None \<Rightarrow> b' = b | Some slot \<Rightarrow> body_values b' = body_values b @ [v] \<and> unat slot = length (body_values b)" by blast
      show ?case
      proof (cases r)
        case None
        have "store t = store s" using t(2) r None b(2) by (simp add: fun_upd_idem)
        then show ?thesis using None fresh [of t] t by (simp add: wp_simps Some fresh_def)
      next
        case (Some slot)
        have "step {c} 1 s t" by (rule step_weaken [OF t(1)]) simp_all
        moreover have "slot_placed v packing (t_own s) (store s) (in_use s) (c, slot) (count_slot c (t_own t)) (store t) (in_use t)"
          unfolding slot_placed_def case_prod_conv using t r Some b \<open>insert_cursor (t_own s) = Some c\<close>
          by (intro conjI exI [of _ "body_values b"] exI [of _ b']) simp_all
        ultimately show ?thesis using Some t(5) by (simp add: wp_simps set_own_def)
      qed
    next
      case (2 e t)
      then show ?case using stuck_mono [of 0 s e t 1] by simp
    qed
  qed
qed

end

end
