(* ===== verification/Txn_Frame.thy ===== *)
theory Txn_Frame
  imports Txn_Manager Value_Place
begin

text \<open>
  The manager as a user of pages. \<open>used\<close> are the pages the allocator counts as in use, \<open>bodies\<close> what
  they hold. A run of a copy-on-write operation inside the manager is its run on the allocator's
  contract, seen from the manager's state: nothing in use changes, the new pages and the pages the
  free map leaves behind come to it. What every operation leaves alone, whatever its outcome, is what
  a rollback needs.
\<close>

section \<open>What an operation never touches\<close>

definition preserves :: "('s \<Rightarrow> 'b) \<Rightarrow> ('s, 'e, 'a) op \<Rightarrow> bool" where
  "preserves f m \<longleftrightarrow> (\<forall>s. f (snd (m s)) = f s)"

named_theorems preserves_intros \<open>operations that leave a part of the state alone\<close>

lemma wp_preserves:
  assumes "preserves f m" and "wp m Q E s"
  shows "wp m (\<lambda>r t. Q r t \<and> f t = f s) (\<lambda>e t. E e t \<and> f t = f s) s"
  using assms by (cases "m s") (auto simp: wp_def preserves_def dest: spec [of _ s] split: res.splits)

lemma preserves_simple [preserves_intros]:
  "preserves f (ok x)" "preserves f (err e)" "preserves f (gets g)" "preserves f panic"
  by (simp_all add: preserves_def ok_def err_def gets_def panic_def)

lemma preserves_modify: "(\<And>s. f (g s) = f s) \<Longrightarrow> preserves f (modify g)"
  by (simp add: preserves_def modify_def)

lemma preserves_and_then [preserves_intros]: "preserves f m \<Longrightarrow> (\<And>a. preserves f (k a)) \<Longrightarrow> preserves f (and_then m k)"
  by (auto simp: preserves_def and_then_def split: prod.splits res.splits) (metis snd_conv)+

lemma preserves_or_else [preserves_intros]: "preserves f m \<Longrightarrow> (\<And>a. preserves f (k a)) \<Longrightarrow> preserves f (or_else m k)"
  by (auto simp: preserves_def or_else_def split: prod.splits res.splits) (metis snd_conv)+

lemma preserves_on_field: "(\<And>s t. f (p t s) = f s) \<Longrightarrow> preserves f (on_field g p m)"
  by (auto simp: preserves_def on_field_def split: prod.splits)

lemma preserves_on_field_inner:
  assumes "preserves h m" and "\<And>s t. h t = h (g s) \<Longrightarrow> f (p t s) = f s"
  shows "preserves f (on_field g p m)"
  unfolding preserves_def on_field_def
proof
  fix s
  have "h (snd (m (g s))) = h (g s)" using assms(1) by (simp add: preserves_def)
  then show "f (snd (case m (g s) of (r, t) \<Rightarrow> (r, p t s))) = f s" using assms(2) [of _ s] by (cases "m (g s)") simp
qed

lemma preserves_if [preserves_intros]: "(b \<Longrightarrow> preserves f m) \<Longrightarrow> (\<not> b \<Longrightarrow> preserves f n) \<Longrightarrow> preserves f (if b then m else n)"
  by simp

lemma preserves_option [preserves_intros]:
  "(x = None \<Longrightarrow> preserves f m) \<Longrightarrow> (\<And>a. x = Some a \<Longrightarrow> preserves f (n a)) \<Longrightarrow> preserves f (case x of None \<Rightarrow> m | Some a \<Rightarrow> n a)"
  by (cases x) simp_all

lemma preserves_prod [preserves_intros]: "(\<And>a b. x = (a, b) \<Longrightarrow> preserves f (m a b)) \<Longrightarrow> preserves f (case x of (a, b) \<Rightarrow> m a b)"
  by (cases x) simp

lemma preserves_for_each [preserves_intros]: "(\<And>x. preserves f (m x)) \<Longrightarrow> preserves f (for_each xs m)"
  by (induction xs) (auto intro: preserves_intros)

section \<open>Pages of the manager\<close>

abbreviation menv :: "txn_manager \<Rightarrow> cow_env" where
  "menv m \<equiv> env_of (tm_freemap m) (current_roots m) (txn_pages m)"

definition used :: "world \<Rightarrow> txn_manager \<Rightarrow> u64 set" where
  "used w m = ca_taken w (menv m) (tm_cache m)"

definition bodies :: "world \<Rightarrow> txn_manager \<Rightarrow> u64 \<rightharpoonup> u8 list" where
  "bodies w m = page_store w (used w m) (tm_cache m)"

text \<open>
  \<open>K\<close> are the pages of the last commit, never written before the next one. Page ids and room in the
  cache are counted in units of seven, what one call of the allocator takes at most.
\<close>

definition mgr_ok :: "world \<Rightarrow> u64 set \<Rightarrow> nat \<Rightarrow> txn_manager \<Rightarrow> bool" where
  "mgr_ok w K n m \<longleftrightarrow> pc_inv w (tm_cache m) \<and> ca_ok w K (menv m) (tm_cache m) (7 * n) \<and> raw w (tm_cache m) = {} \<and>
     whole (tm_cache m) \<and> (\<forall>p \<in> K. \<not> is_dirty (tm_cache m) p)"

lemma mgr_okD:
  assumes "mgr_ok w K n m"
  shows "pc_inv w (tm_cache m)" and "world_ok w" and "0 < next_page_id (tm_cache m)" and "id_room (tm_cache m) (7 * n)" and "tidy w (menv m) (tm_cache m)"
    and "guarded w K (menv m) (tm_cache m)"
  using assms by (auto simp: mgr_ok_def ca_ok_def)

lemma mgr_ok_mono: "mgr_ok w K n m \<Longrightarrow> k \<le> n \<Longrightarrow> mgr_ok w K k m"
  using id_room_mono by (auto simp: mgr_ok_def ca_ok_def)

lemma used_below: "p \<in> used w m \<Longrightarrow> p < next_page_id (tm_cache m)"
  by (simp add: used_def ca_taken_def)

lemma bodies_used: "bodies w m p = Some b \<Longrightarrow> p \<in> used w m"
  by (simp add: bodies_def page_store_def split: if_splits)

text \<open>The parts no operation between begin and the end of a transaction changes, savepoints apart.\<close>

definition base :: "txn_manager \<Rightarrow> roots \<times> u64 \<times> u32 \<times> bool \<times> bool \<times> u8 list option \<times> crypto_header option \<times> u64 list \<times> u64 \<times> (u64 \<rightharpoonup> u32)" where
  "base m = (committed_roots m, tm_txn_counter m, tm_superblock_count m, active_txn m, poisoned m, tm_cipher m, tm_crypto_header m,
     pending_structural_frees (tm_freemap m), fr_hint_at_begin (tm_freemap m), committed_live_slots (packer m))"

definition failed :: "world \<Rightarrow> nat \<Rightarrow> txn_manager \<Rightarrow> chisel_error \<Rightarrow> txn_manager \<Rightarrow> bool" where
  "failed w n m e m' \<longleftrightarrow> pc_wf w (tm_cache m') \<and> same_device (tm_cache m) (tm_cache m') \<and> env_error w e \<and>
     (no_faults w \<longrightarrow> \<not> roomy (tm_cache m) (7 * n)) \<and> base m' = base m"

lemma failed_mono: "failed w n m e m' \<Longrightarrow> n \<le> k \<Longrightarrow> failed w k m e m'"
  using roomy_mono by (auto simp: failed_def)

section \<open>A run of the allocator\<close>

abbreviation run_ctx :: "(txn_manager \<Rightarrow> 'o) \<Rightarrow> txn_manager \<Rightarrow> (cow_env, 'o) tree_ctx" where
  "run_ctx g m \<equiv> \<lparr>t_env = menv m, t_cache = tm_cache m, t_own = g m\<rparr>"

definition landed :: "(cow_env, 'o) tree_ctx \<Rightarrow> txn_manager \<Rightarrow> txn_manager" where
  "landed t s = (case put_tree (al_tree (t_env t))
              ((tm_freemap s)\<lparr>fr_hint := al_hint (t_env t), structural_reuse := al_reuse (t_env t)\<rparr>, current_roots s) of
        (f, rs) \<Rightarrow> s\<lparr>tm_freemap := f, current_roots := rs, txn_pages := al_pool (t_env t), tm_cache := t_cache t\<rparr>)"

lemma cow_run_landed: "cow_run g p m = on_field (run_ctx g) (\<lambda>t s. p (t_own t) (landed t s)) m"
  by (auto simp: cow_run_def landed_def fun_eq_iff on_field_def split: prod.splits)

lemma landed_fields [simp]:
  "tm_cache (landed t m) = t_cache t" "committed_roots (landed t m) = committed_roots m" "savepoints (landed t m) = savepoints m"
  "txn_freed_pages (landed t m) = txn_freed_pages m" "packer (landed t m) = packer m" "ht_depth (landed t m) = ht_depth m"
  "mi_depth (landed t m) = mi_depth m" "base (landed t m) = base m" "txn_pages (landed t m) = al_pool (t_env t)" "active_txn (landed t m) = active_txn m"
  "handle_table_page (current_roots (landed t m)) = handle_table_page (current_roots m)"
  "membership_index_page (current_roots (landed t m)) = membership_index_page (current_roots m)"
  "next_handle (current_roots (landed t m)) = next_handle (current_roots m)"
  "named_roots (current_roots (landed t m)) = named_roots (current_roots m)"
  by (simp_all add: landed_def put_tree_def base_def)

lemma landed_env: "env_of (tm_freemap (landed t m)) (current_roots (landed t m)) (al_pool (t_env t)) = retake (t_env t)"
  "structural_superseded (tm_freemap (landed t m)) = structural_superseded (tm_freemap m) @ pending_superseded (al_tree (t_env t))"
  by (simp_all add: landed_def put_tree_def env_of_def take_tree_def from_roots_def)

text \<open>
  From \<open>m\<close> to \<open>m'\<close> the pages \<open>F\<close> came into use for the caller, and those the free map left behind; in
  use nothing but \<open>W\<close> was written.
\<close>

definition extends :: "world \<Rightarrow> u64 set \<Rightarrow> u64 set \<Rightarrow> u64 set \<Rightarrow> nat \<Rightarrow> txn_manager \<Rightarrow> txn_manager \<Rightarrow> bool" where
  "extends w K W F j m m' \<longleftrightarrow> keeps w (used w m - W) (tm_cache m) (tm_cache m') \<and> F \<inter> (used w m \<union> K) = {} \<and>
     (\<exists>sup. structural_superseded (tm_freemap m') = structural_superseded (tm_freemap m) @ sup \<and> distinct sup \<and>
        set sup \<inter> (used w m \<union> F) = {} \<and> used w m' = used w m \<union> F \<union> set sup) \<and>
     (\<forall>n. mgr_ok w K (j + n) m \<longrightarrow> mgr_ok w K n m') \<and> (\<forall>k. roomy (tm_cache m) (7 * (j + k)) \<longrightarrow> roomy (tm_cache m') (7 * k))"

lemma landed_extends:
  assumes ok: "mgr_ok w K j m" and W: "W \<inter> K = {}"
    and st: "ca.step w K (K \<inter> map_pages w (menv m) (tm_cache m)) W j (run_ctx g m) t" "raw w (t_cache t) \<subseteq> raw w (tm_cache m)"
      "ca.in_use w t = used w m \<union> F" "F \<inter> used w m = {}"
  shows "extends w K W F j m (landed t m)"
proof -
  let ?y = "t_env t" and ?P = "set (pending_superseded (al_tree (t_env t)))" and ?M = "K \<inter> map_pages w (menv m) (tm_cache m)"
  have iu: "ca_taken w ?y (t_cache t) = used w m \<union> F" using st(3) by (simp add: ca.in_use_def)
  have good: "ca_ok w K ?y (t_cache t) (7 * n) \<and> ?M \<subseteq> map_pages w ?y (t_cache t)" if "mgr_ok w K (j + n) m" for n
    using st(1) that by (auto simp: ca.step_def ca_good_def mgr_ok_def dest!: spec [of _ n])
  have kp: "keeps w (used w m - W) (tm_cache m) (t_cache t)" using st(1) by (simp add: ca.step_def ca.in_use_def used_def)
  have ok0: "ca_ok w K ?y (t_cache t) 0" "?M \<subseteq> map_pages w ?y (t_cache t)" using good [of 0] ok by simp_all
  then have ti: "tidy w ?y (t_cache t)" and gu: "guarded w K ?y (t_cache t)" by (auto simp: ca_ok_def)
  note rt = retake_tidy [OF ti]
  have "?P \<subseteq> map_pages w ?y (t_cache t)" by (auto simp: map_pages_def)
  then have dis: "?P \<inter> (used w m \<union> F) = {}" using iu by (auto simp: ca_taken_def)
  have us: "used w (landed t m) = used w m \<union> F \<union> ?P" using rt(2) iu by (simp add: used_def landed_env)
  have clean: "\<not> is_dirty (t_cache t) p" if "p \<in> K" for p
  proof (cases "p \<in> map_pages w (menv m) (tm_cache m)")
    case True
    then show ?thesis using gu ok0(2) that by (auto simp: guarded_def)
  next
    case False
    then have "p \<in> used w m - W" using mgr_okD(6) [OF ok] that W by (auto simp: guarded_def used_def)
    then show ?thesis using kp ok that by (auto simp: keeps_def mgr_ok_def)
  qed
  have "F \<inter> K = {}"
  proof -
    have "p \<in> map_pages w ?y (t_cache t)" if "p \<in> F \<inter> K" for p
      using that st(4) mgr_okD(6) [OF ok] ok0(2) by (auto simp: guarded_def used_def)
    then show ?thesis using iu by (auto simp: ca_taken_def)
  qed
  moreover have "mgr_ok w K n (landed t m)" if "mgr_ok w K (j + n) m" for n
    using good [OF that] rt(1) rt(3) [OF gu] clean kp st(2) ok by (auto simp: mgr_ok_def landed_env ca_ok_def keeps_def)
  moreover have "distinct (pending_superseded (al_tree ?y))" using ti by (simp add: tidy_def)
  moreover have "roomy (t_cache t) (7 * k)" if "roomy (tm_cache m) (7 * (j + k))" for k
    using st(1) that by (simp add: ca.step_def ca_room_def)
  ultimately show ?thesis
    unfolding extends_def landed_env using kp st(4) dis us
    by (auto simp: exI [of _ "pending_superseded (al_tree ?y)"])
qed

lemma cow_run_wp:
  assumes ok: "mgr_ok w K j m" and W: "W \<inter> K = {}"
    and run: "wp op (\<lambda>r t. ca.step w K (K \<inter> map_pages w (menv m) (tm_cache m)) W j (run_ctx g m) t \<and> raw w (t_cache t) \<subseteq> raw w (tm_cache m) \<and>
        (\<exists>F. ca.in_use w t = used w m \<union> F \<and> F \<inter> used w m = {} \<and> Q r t F)) (\<lambda>e t. ca.stuck w j (run_ctx g m) e t \<and> E e t) (run_ctx g m)"
  shows "wp (cow_run g p op) (\<lambda>r m'. \<exists>t F. m' = p (t_own t) (landed t m) \<and> extends w K W F j m (landed t m) \<and> ca.in_use w t = used w m \<union> F \<and> Q r t F)
    (\<lambda>e m'. \<exists>t. m' = p (t_own t) (landed t m) \<and> failed w j m e (landed t m) \<and> E e t) m"
  unfolding cow_run_landed wp_on_field
proof (rule wp_mono [OF run], goal_cases)
  case (1 r t)
  then show ?case using landed_extends [OF ok W] by blast
next
  case (2 e t)
  then show ?case by (auto simp: ca.stuck_def failed_def ca_room_def)
qed

lemma landed_bodies: "extends w K W F j m (landed t m) \<Longrightarrow> ca.in_use w t = used w m \<union> F \<Longrightarrow> p \<in> used w m \<union> F \<Longrightarrow> bodies w (landed t m) p = ca.store w t p"
  by (auto simp: extends_def bodies_def ca.store_def page_store_def)

lemma run_store [simp]:
  "ca.store w \<lparr>t_env = menv m, t_cache = tm_cache m, t_own = own\<rparr> = bodies w m" "ca.in_use w \<lparr>t_env = menv m, t_cache = tm_cache m, t_own = own\<rparr> = used w m"
  by (simp_all add: ca.store_def bodies_def ca.in_use_def used_def)

lemma run_fit: "mgr_ok w K j m \<Longrightarrow> ca.fit w K (K \<inter> map_pages w (menv m) (tm_cache m)) j (run_ctx g m)"
  by (auto simp: ca.fit_def ca_good_def mgr_ok_def)

section \<open>New pages\<close>

text \<open>Pages appended to the file without the allocator.\<close>

lemma appended_extends:
  assumes up: "updates w (tm_cache m) mp d" and dom: "dom mp = {p. next_page_id (tm_cache m) \<le> p \<and> p < next_page_id d}"
    and raw: "raw w d \<subseteq> raw w (tm_cache m)" and ids: "\<And>k. id_room (tm_cache m) (j + k) \<Longrightarrow> id_room d k"
    and room: "\<And>k. roomy (tm_cache m) (j + k) \<Longrightarrow> roomy d k" and ok: "mgr_ok w K i m"
  shows "extends w K {} (dom mp) j m (m\<lparr>tm_cache := d\<rparr>)"
proof -
  let ?c = "tm_cache m"
  note t = mgr_okD [OF ok]
  have below: "map_pages w (menv m) ?c \<subseteq> {q. q < next_page_id ?c}" "spare w (menv m) ?c \<subseteq> {q. q < next_page_id ?c}" using t(5) by (auto simp: tidy_def)
  have "dom mp \<inter> map_pages w (menv m) ?c = {}" using below dom by auto
  note u = updates_ca [OF t(5,6) up this]
  have le: "next_page_id ?c \<le> next_page_id d" using up by (simp add: updates_def)
  have us: "used w (m\<lparr>tm_cache := d\<rparr>) = used w m \<union> dom mp"
    using below le unfolding used_def ca_taken_def dom by (auto simp: u)
  have dis: "dom mp \<inter> used w m = {}" using dom by (auto simp: used_def ca_taken_def)
  have K: "K \<subseteq> {q. q < next_page_id ?c}" using t(6) below by (auto simp: guarded_def ca_taken_def)
  have dK: "dom mp \<inter> K = {}" using K dom by auto
  have "mgr_ok w K n (m\<lparr>tm_cache := d\<rparr>)" if "mgr_ok w K (j + n) m" for n
  proof -
    have "id_room ?c (j + 7 * n)" using id_room_mono [of ?c "7 * (j + n)"] mgr_okD(4) [OF that] by simp
    then show ?thesis
      using u t le raw ok dK ids [of "7 * n"] updates_whole [OF up] up by (auto simp: mgr_ok_def ca_ok_def updates_def)
  qed
  moreover have "roomy d (7 * k)" if "roomy ?c (7 * (j + k))" for k
    using room [of "7 * k"] roomy_mono [OF that, of "j + 7 * k"] by simp
  ultimately show ?thesis
    unfolding extends_def using us dis dK updates_keeps [OF up, of "used w m"] by (auto simp: Int_commute)
qed

lemma quiet_extends:
  assumes q: "quiet w (tm_cache m) d" and ok: "mgr_ok w K i m"
  shows "extends w K {} {} 0 m (m\<lparr>tm_cache := d\<rparr>)"
proof -
  have "next_page_id d = next_page_id (tm_cache m)" using q by (simp add: quiet_def same_store_def)
  then show ?thesis
    using appended_extends [OF quiet_updates [OF q] _ _ _ _ ok, of 0] q
    by (auto simp: quiet_raw quiet_roomy id_room_def quiet_def same_store_def not_less)
qed

end
