(* ===== verification/Txn_Invariant.thy ===== *)
theory Txn_Invariant
  imports Txn_Frame
begin

text \<open>
  The invariant of the manager inside a transaction. A view says where the handle table, the
  membership index and the values are and what they hold; the invariant says that the pages in use
  hold just that, that no page serves two purposes, and that the pages waiting to be freed are none of
  these. The view is carried apart from the manager's fields because an operation builds new roots
  before it publishes them.
\<close>

record db_view =
  v_ht :: "u64 \<times> nat"
  v_table :: "u64 \<rightharpoonup> handle_entry"
  v_mi :: "u64 \<times> nat"
  v_tags :: "u32 \<Rightarrow> u64 set"
  v_slots :: "u64 \<rightharpoonup> u32"
  v_entries :: "key \<rightharpoonup> handle_entry"
  v_chains :: "key \<Rightarrow> u64 list"
  v_values :: "key \<rightharpoonup> u8 list"

section \<open>The parts\<close>

definition ht_at :: "(u64 \<rightharpoonup> u8 list) \<Rightarrow> u64 \<times> nat \<Rightarrow> (u64 \<rightharpoonup> handle_entry) \<Rightarrow> bool" where
  "ht_at B r T \<longleftrightarrow> (if fst r = PAGE_ID_NONE then T = Map.empty else ht_ok B (snd r) (fst r) \<and> ht_view B (snd r) (fst r) = T)"

definition ht_region :: "(u64 \<rightharpoonup> u8 list) \<Rightarrow> u64 \<times> nat \<Rightarrow> u64 set" where
  "ht_region B r = (if fst r = PAGE_ID_NONE then {} else rt_pages B (snd r) (fst r))"

definition mi_at :: "(u64 \<rightharpoonup> u8 list) \<Rightarrow> u64 \<times> nat \<Rightarrow> (u32 \<Rightarrow> u64 set) \<Rightarrow> bool" where
  "mi_at B r G \<longleftrightarrow> mi_ok B (snd r) (fst r) \<and> mi_view B (snd r) (fst r) = G"

abbreviation mi_region :: "(u64 \<rightharpoonup> u8 list) \<Rightarrow> u64 \<times> nat \<Rightarrow> u64 set" where
  "mi_region B r \<equiv> mi_pages B (snd r) (fst r)"

definition superblocks :: "txn_manager \<Rightarrow> u64 set" where
  "superblocks m = {p. p < ucast (tm_superblock_count m)}"

text \<open>The pages waiting for the next commit to free them.\<close>

definition limbo :: "txn_manager \<Rightarrow> u64 list" where
  "limbo m = txn_freed_pages m @ structural_superseded (tm_freemap m) @ concat (map sp_freed_pages (savepoints m))"

definition apart :: "u64 set list \<Rightarrow> bool" where
  "apart As \<longleftrightarrow> sorted_wrt (\<lambda>A B. A \<inter> B = {}) As"

lemma apart_simps [simp]: "apart []" "apart (A # As) \<longleftrightarrow> (\<forall>B \<in> set As. A \<inter> B = {}) \<and> apart As"
  by (simp_all add: apart_def)

lemma apart_mono: "apart Bs \<Longrightarrow> list_all2 (\<subseteq>) As Bs \<Longrightarrow> apart As"
proof (induction Bs arbitrary: As)
  case Nil
  then show ?case by simp
next
  case (Cons B Bs)
  then obtain A As' where As: "As = A # As'" "A \<subseteq> B" "list_all2 (\<subseteq>) As' Bs" by (auto simp: list_all2_Cons2)
  have "A \<inter> X = {}" if X: "X \<in> set As'" for X
  proof -
    obtain i where "i < length As'" "X = As' ! i" using X by (auto simp: in_set_conv_nth)
    then have "X \<subseteq> Bs ! i" "Bs ! i \<in> set Bs" using list_all2_nthD [OF As(3)] list_all2_lengthD [OF As(3)] by auto
    then show ?thesis using Cons.prems(1) As(2) by fastforce
  qed
  then show ?case using Cons As by simp
qed

definition regions :: "(u64 \<rightharpoonup> u8 list) \<Rightarrow> db_view \<Rightarrow> u64 set list" where
  "regions B v = [ht_region B (v_ht v), mi_region B (v_mi v), dom (v_slots v), chain_pages (v_chains v)]"

text \<open>\<open>P\<close> are pages in use that an operation in progress holds.\<close>

definition holds :: "world \<Rightarrow> u64 set \<Rightarrow> nat \<Rightarrow> txn_manager \<Rightarrow> db_view \<Rightarrow> u64 set \<Rightarrow> bool" where
  "holds w K n m v P \<longleftrightarrow> mgr_ok w K n m \<and> ht_at (bodies w m) (v_ht v) (v_table v) \<and> mi_at (bodies w m) (v_mi v) (v_tags v) \<and>
     layout (bodies w m) (v_slots v) (v_entries v) (v_chains v) (v_values v) \<and> distinct (limbo m) \<and>
     apart (superblocks m # set (limbo m) # P # regions (bodies w m) v) \<and> superblocks m \<union> set (limbo m) \<union> P \<subseteq> used w m \<and>
     0 \<in> superblocks m"

lemma holdsD:
  assumes "holds w K n m v P"
  shows "mgr_ok w K n m" and "ht_at (bodies w m) (v_ht v) (v_table v)" and "mi_at (bodies w m) (v_mi v) (v_tags v)"
    and "layout (bodies w m) (v_slots v) (v_entries v) (v_chains v) (v_values v)" and "distinct (limbo m)"
    and "apart (superblocks m # set (limbo m) # P # regions (bodies w m) v)"
    and "superblocks m \<subseteq> used w m" and "set (limbo m) \<subseteq> used w m" and "P \<subseteq> used w m"
    and "0 \<in> superblocks m"
  using assms by (simp_all add: holds_def)

section \<open>Frames\<close>

lemma ht_frame:
  assumes "\<And>q. q \<in> ht_region B r \<Longrightarrow> B' q = B q"
  shows "ht_region B' r = ht_region B r" and "ht_at B r T \<Longrightarrow> ht_at B' r T"
proof -
  show "ht_region B' r = ht_region B r"
    using assms rt_frame [of B "snd r" "fst r" B', where K = ht_format] by (simp add: ht_region_def)
  show "ht_at B' r T" if at: "ht_at B r T"
  proof (cases "fst r = PAGE_ID_NONE")
    case False
    then have same: "\<And>q. q \<in> rt_pages B (snd r) (fst r) \<Longrightarrow> B' q = B q" using assms by (simp add: ht_region_def)
    note f = rt_frame [where B = B and B' = B' and l = "snd r" and p = "fst r" and K = ht_format, OF same]
    have "rt_entry ht_format B' (snd r) (fst r) k = rt_entry ht_format B (snd r) (fst r) k" for k
      using f by (simp add: rt_entry_def)
    then show ?thesis
      using at False f by (simp add: ht_at_def ht_ok_def ht_view_def rt_ok_def fun_eq_iff)
  qed (use at in \<open>simp add: ht_at_def\<close>)
qed

lemma mi_frame:
  assumes same: "\<And>q. q \<in> mi_region B r \<Longrightarrow> B' q = B q"
  shows "mi_region B' r = mi_region B r" and "mi_at B r G \<Longrightarrow> mi_at B' r G"
proof -
  consider "fst r = PAGE_ID_NONE" | "fst r \<noteq> PAGE_ID_NONE" by blast
  then have "mi_region B' r = mi_region B r \<and> (mi_at B r G \<longrightarrow> mi_at B' r G)"
  proof cases
    case 1
    then show ?thesis by (simp add: mi_pages_def mi_at_def mi_ok_def mi_view_def fun_eq_iff)
  next
    case 2
    let ?p = "fst r" and ?d = "snd r"
    have out: "\<And>q. q \<in> rt_pages B ?d ?p \<Longrightarrow> B' q = B q" and inn: "\<And>k q. q \<in> packed_pages B (mi_slot B ?d ?p k) \<Longrightarrow> B' q = B q"
      using same 2 by (auto simp: mi_pages_def inner_pages_def)
    note f = rt_frame [where B = B and B' = B' and l = ?d and p = ?p and K = mi_format, OF out]
    have sl: "mi_slot B' ?d ?p k = mi_slot B ?d ?p k" for k using f by (simp add: rt_entry_def)
    note pf = packed_frame [OF inn]
    have ip: "inner_pages B' ?d ?p X = inner_pages B ?d ?p X" for X by (simp add: inner_pages_def sl pf)
    have "mi_region B' r = mi_region B r" using 2 f ip by (simp add: mi_pages_def)
    moreover have "mi_tree B' ?d ?p = mi_tree B ?d ?p" using f by (simp add: mi_tree_def sl pf ip rt_ok_def)
    ultimately show ?thesis using 2 by (auto simp: mi_at_def mi_ok_def mi_view_def sl pf fun_eq_iff)
  qed
  then show "mi_region B' r = mi_region B r" and "mi_at B r G \<Longrightarrow> mi_at B' r G" by auto
qed

lemma ht_region_dom: "ht_at B r T \<Longrightarrow> q \<in> ht_region B r \<Longrightarrow> \<exists>b. B q = Some b"
  using rt_wf_dom by (fastforce simp: ht_at_def ht_region_def ht_ok_def rt_ok_def split: if_splits)

lemma mi_region_dom:
  assumes at: "mi_at B r G" and q: "q \<in> mi_region B r"
  shows "\<exists>b. B q = Some b"
proof -
  have t: "mi_tree B (snd r) (fst r)" and r: "fst r \<noteq> PAGE_ID_NONE" using at q by (auto simp: mi_at_def mi_ok_def mi_pages_def split: if_splits)
  show ?thesis
  proof (cases "q \<in> rt_pages B (snd r) (fst r)")
    case True
    then show ?thesis using t rt_wf_dom by (auto simp: mi_tree_def rt_ok_def)
  next
    case False
    then obtain k where k: "q \<in> packed_pages B (mi_slot B (snd r) (fst r) k)" using q r by (auto simp: mi_pages_def inner_pages_def)
    obtain c l where u: "unpack_inner (mi_slot B (snd r) (fst r) k) = (c, l)" by fastforce
    have "packed_ok B (mi_slot B (snd r) (fst r) k)" using t by (simp add: mi_tree_def)
    then show ?thesis using k u rt_wf_dom by (auto simp: packed_pages_def packed_ok_def rt_ok_def split: if_splits)
  qed
qed

lemma chain_dom: "chain B n ids v \<Longrightarrow> q \<in> set ids \<Longrightarrow> \<exists>b. B q = Some b"
proof (induction ids arbitrary: v)
  case (Cons p ps)
  show ?case
  proof (cases "q = p")
    case False
    then have q: "q \<in> set ps" using Cons.prems by simp
    then have "chain B n ps (drop 8152 v)" using Cons.prems(1) by (auto split: if_splits)
    then show ?thesis using Cons.IH q by blast
  qed (use Cons.prems in auto)
qed simp

lemma chain_pages_dom:
  assumes l: "layout B ls S C V" and q: "q \<in> chain_pages C"
  shows "\<exists>b. B q = Some b"
proof -
  obtain k where k: "q \<in> set (C k)" using q by (auto simp: chain_pages_def)
  then obtain e where "S k = Some e" using layout_none [OF l, of k] by (cases "S k") auto
  then obtain v where "val_at B e (C k) v" using layout_entry [OF l, of k] by auto
  then show ?thesis using k chain_dom by (fastforce simp: val_at_def split: handle_flags.splits)
qed

lemma regions_used:
  assumes "holds w K n m v P" and "A \<in> set (regions (bodies w m) v)"
  shows "A \<subseteq> used w m"
proof
  fix q
  assume "q \<in> A"
  then consider "q \<in> ht_region (bodies w m) (v_ht v)" | "q \<in> mi_region (bodies w m) (v_mi v)" | "q \<in> dom (v_slots v)" | "q \<in> chain_pages (v_chains v)"
    using assms(2) by (auto simp: regions_def)
  then have "\<exists>b. bodies w m q = Some b"
  proof cases
    case 1
    then show ?thesis by (rule ht_region_dom [OF holdsD(2) [OF assms(1)]])
  next
    case 2
    then show ?thesis by (rule mi_region_dom [OF holdsD(3) [OF assms(1)]])
  next
    case 3
    then show ?thesis using layout_data_body [OF holdsD(4) [OF assms(1)]] by blast
  next
    case 4
    then show ?thesis by (rule chain_pages_dom [OF holdsD(4) [OF assms(1)]])
  qed
  then show "q \<in> used w m" using bodies_used by blast
qed

lemma extends_bodies: "extends w K W F j m m' \<Longrightarrow> q \<in> used w m \<Longrightarrow> q \<notin> W \<Longrightarrow> bodies w m' q = bodies w m q"
  by (auto simp: extends_def bodies_def page_store_def keeps_def)

lemma extends_used: "extends w K W F j m m' \<Longrightarrow> used w m \<union> F \<subseteq> used w m'"
  by (auto simp: extends_def)

lemma apart_rearrange:
  assumes a: "apart [A, L, P, H, I, D, C]" and U: "A \<subseteq> U" "L \<subseteq> U" "P \<subseteq> U" "H \<subseteq> U" "I \<subseteq> U" "D \<subseteq> U" "C \<subseteq> U"
    and F: "F \<inter> U = {}" "S \<inter> (U \<union> F) = {}" and X: "D' \<subseteq> D \<union> X" "X \<subseteq> P \<union> F" and Y: "C' \<subseteq> C \<union> Y" "Y \<subseteq> P \<union> F - X"
  shows "apart [A, L \<union> S, P \<union> F - X - Y, H, I, D', C']"
proof -
  have disjD: "Q \<inter> D' = {}" if "Q \<inter> D = {}" "Q \<inter> (P \<union> F) = {}" for Q using that X by blast
  have disjC: "Q \<inter> C' = {}" if "Q \<inter> C = {}" "Q \<inter> (P \<union> F) = {}" for Q using that Y by blast
  have disjP: "Q \<inter> (P \<union> F - X - Y) = {} \<and> (P \<union> F - X - Y) \<inter> Q = {}" if "Q \<inter> (P \<union> F) = {}" for Q using that by blast
  have PF: "A \<inter> (P \<union> F) = {}" "(L \<union> S) \<inter> (P \<union> F) = {}" "H \<inter> (P \<union> F) = {}" "I \<inter> (P \<union> F) = {}" "D \<inter> (P \<union> F) = {}" "C \<inter> (P \<union> F) = {}"
    using a U F by auto
  have "(P \<union> F - X - Y) \<inter> D' = {}" "(P \<union> F - X - Y) \<inter> C' = {}" using PF(5,6) X Y by blast+
  moreover have "D \<inter> C = {}" using a by simp
  then have "D' \<inter> C' = {}" using PF(5,6) X Y by blast
  moreover have "A \<inter> (L \<union> S) = {}" "(L \<union> S) \<inter> H = {}" "(L \<union> S) \<inter> I = {}" "(L \<union> S) \<inter> D = {}" "(L \<union> S) \<inter> C = {}" using a U F by auto
  moreover have "A \<inter> H = {}" "A \<inter> I = {}" "A \<inter> D = {}" "A \<inter> C = {}" "H \<inter> I = {}" "H \<inter> D = {}" "H \<inter> C = {}" "I \<inter> D = {}" "I \<inter> C = {}" using a by auto
  ultimately show ?thesis
    using PF disjD disjC disjP by simp
qed

text \<open>A step that leaves the two indexes alone and may rearrange the values.\<close>

lemma holds_step:
  assumes h: "holds w K (j + n) m v P" and ext: "extends w K W F j m m'" and W: "W \<subseteq> dom (v_slots v)"
    and same: "tm_superblock_count m' = tm_superblock_count m" "txn_freed_pages m' = txn_freed_pages m" "savepoints m' = savepoints m"
    and l: "layout (bodies w m') ls S C V" and X: "dom ls \<subseteq> dom (v_slots v) \<union> X" "X \<subseteq> P \<union> F"
    and Y: "chain_pages C \<subseteq> chain_pages (v_chains v) \<union> Y" "Y \<subseteq> P \<union> F - X"
  shows "holds w K n m' (v\<lparr>v_slots := ls, v_entries := S, v_chains := C, v_values := V\<rparr>) (P \<union> F - X - Y)"
proof -
  let ?B = "bodies w m" and ?B' = "bodies w m'"
  obtain sup where sup: "structural_superseded (tm_freemap m') = structural_superseded (tm_freemap m) @ sup" "distinct sup"
      "set sup \<inter> (used w m \<union> F) = {}" "used w m' = used w m \<union> F \<union> set sup"
    using ext by (auto simp: extends_def)
  have ru: "A \<subseteq> used w m" if "A \<in> set (regions ?B v)" for A using regions_used [OF h that] .
  have dis: "apart (superblocks m # set (limbo m) # P # regions ?B v)" and inu: "superblocks m \<union> set (limbo m) \<union> P \<subseteq> used w m"
    using h by (auto simp: holds_def)
  have fr: "\<And>q. q \<in> ht_region ?B (v_ht v) \<Longrightarrow> ?B' q = ?B q" "\<And>q. q \<in> mi_region ?B (v_mi v) \<Longrightarrow> ?B' q = ?B q"
    by (rule extends_bodies [OF ext]; use ru [of "ht_region ?B (v_ht v)"] ru [of "mi_region ?B (v_mi v)"] dis W in \<open>auto simp: regions_def\<close>)+
  have hf: "ht_region ?B' (v_ht v) = ht_region ?B (v_ht v)" "ht_at ?B' (v_ht v) (v_table v)"
    using ht_frame [where B = ?B and B' = ?B' and r = "v_ht v", OF fr(1)] holdsD(2) [OF h] by blast+
  have mf: "mi_region ?B' (v_mi v) = mi_region ?B (v_mi v)" "mi_at ?B' (v_mi v) (v_tags v)"
    using mi_frame [where B = ?B and B' = ?B' and r = "v_mi v", OF fr(2)] holdsD(3) [OF h] by blast+
  have F: "F \<inter> used w m = {}" using ext by (auto simp: extends_def)
  have lim: "set (limbo m') = set (limbo m) \<union> set sup" "distinct (limbo m')"
    using holdsD(5,8) [OF h] sup(1-3) by (auto simp: limbo_def same)
  have "apart [superblocks m, set (limbo m) \<union> set sup, P \<union> F - X - Y, ht_region ?B (v_ht v), mi_region ?B (v_mi v), dom ls, chain_pages C]"
    by (rule apart_rearrange [OF dis [unfolded regions_def] _ _ _ _ _ _ _ F sup(3) X Y]) (use inu ru in \<open>auto simp: regions_def\<close>)
  moreover have sb: "superblocks m' = superblocks m" by (simp add: superblocks_def same)
  ultimately have ap: "apart (superblocks m' # set (limbo m') # (P \<union> F - X - Y) #
      regions ?B' (v\<lparr>v_slots := ls, v_entries := S, v_chains := C, v_values := V\<rparr>))"
    unfolding regions_def lim sb by (simp add: hf(1) mf(1))
  have "superblocks m' \<union> set (limbo m') \<union> (P \<union> F - X - Y) \<subseteq> used w m'" unfolding sb lim sup(4) using inu by blast
  then show ?thesis
    unfolding holds_def using l lim(2) ap hf(2) mf(2) holdsD(1,10) [OF h] ext sb by (simp add: extends_def)
qed

lemma holds_extends:
  assumes h: "holds w K (j + n) m v P" and ext: "extends w K {} F j m m'"
    and same: "tm_superblock_count m' = tm_superblock_count m" "txn_freed_pages m' = txn_freed_pages m" "savepoints m' = savepoints m"
  shows "holds w K n m' v (P \<union> F)"
proof -
  have "bodies w m' q = bodies w m q" if "q \<in> value_pages (v_slots v) (v_chains v)" for q
    using that regions_used [OF h, of "dom (v_slots v)"] regions_used [OF h, of "chain_pages (v_chains v)"]
    by (intro extends_bodies [OF ext]) (auto simp: regions_def)
  note l = layout_frame [OF holdsD(4) [OF h] this]
  show ?thesis using holds_step [OF h ext _ same l, of "{}" "{}"] by simp
qed

lemma holds_cong:
  assumes "tm_cache m' = tm_cache m" and "menv m' = menv m" and "limbo m' = limbo m" and "tm_superblock_count m' = tm_superblock_count m"
  shows "holds w K n m' v P = holds w K n m v P"
  using assms by (simp add: holds_def mgr_ok_def bodies_def used_def superblocks_def)

lemma holds_fewer:
  assumes h: "holds w K n m v P" and P: "P' \<subseteq> P"
  shows "holds w K n m v P'"
  unfolding holds_def using holdsD [OF h] P apart_mono [OF holdsD(6) [OF h], of "superblocks m # set (limbo m) # P' # regions (bodies w m) v"]
  by (auto simp: list_all2_same)

lemma holds_mono: "holds w K n m v P \<Longrightarrow> k \<le> n \<Longrightarrow> holds w K k m v P"
  using mgr_ok_mono by (auto simp: holds_def)

section \<open>Publishing\<close>

text \<open>Pages exchanged between the operation in progress and one of the parts.\<close>

lemma apart_exchange:
  assumes "apart (P # X # Cs)" and "P' \<union> X' \<subseteq> P \<union> X" and "P' \<inter> X' = {}"
  shows "apart (P' # X' # Cs)"
proof -
  have "P' \<inter> B = {}" "X' \<inter> B = {}" if "B \<in> set Cs" for B
    using assms(1,2) that by (simp, blast)+
  then show ?thesis using assms(1,3) by simp
qed

lemma apart_move:
  assumes "apart [A, L, P, H, I, D, C]"
  shows "P' \<union> H' \<subseteq> P \<union> H \<Longrightarrow> P' \<inter> H' = {} \<Longrightarrow> apart [A, L, P', H', I, D, C]"
    and "P' \<union> I' \<subseteq> P \<union> I \<Longrightarrow> P' \<inter> I' = {} \<Longrightarrow> apart [A, L, P', H, I', D, C]"
    and "P' \<union> D' \<subseteq> P \<union> D \<Longrightarrow> P' \<inter> D' = {} \<Longrightarrow> apart [A, L, P', H, I, D', C]"
    and "P' \<union> C' \<subseteq> P \<union> C \<Longrightarrow> P' \<inter> C' = {} \<Longrightarrow> apart [A, L, P', H, I, D, C']"
    and "P' \<union> L' \<subseteq> P \<union> L \<Longrightarrow> P' \<inter> L' = {} \<Longrightarrow> apart [A, L', P', H, I, D, C]"
  using assms apart_exchange [of P H "[A, L, I, D, C]" P' H'] apart_exchange [of P I "[A, L, H, D, C]" P' I']
    apart_exchange [of P D "[A, L, H, I, C]" P' D'] apart_exchange [of P C "[A, L, H, I, D]" P' C'] apart_exchange [of P L "[A, H, I, D, C]" P' L']
  by (simp_all add: Int_commute)

lemma publish_ht:
  assumes h: "holds w K n m v P" and at: "ht_at (bodies w m) r T"
    and acc: "accounted (ht_region (bodies w m) (v_ht v)) F (ht_region (bodies w m) r) fs" "F \<subseteq> P"
  shows "holds w K n m (v\<lparr>v_ht := r, v_table := T\<rparr>) (P - F \<union> set fs)"
proof -
  let ?B = "bodies w m"
  have eq: "ht_region ?B r \<union> set fs = ht_region ?B (v_ht v) \<union> F" "ht_region ?B r \<inter> set fs = {}" using acc by (auto simp: accounted_def)
  have ap: "apart [superblocks m, set (limbo m), P, ht_region ?B (v_ht v), mi_region ?B (v_mi v), dom (v_slots v), chain_pages (v_chains v)]"
    using holdsD(6) [OF h] by (simp add: regions_def)
  have "ht_region ?B (v_ht v) \<subseteq> used w m" using regions_used [OF h] by (simp add: regions_def)
  then have "P - F \<union> set fs \<subseteq> used w m" using holdsD(9) [OF h] eq acc(2) by blast
  moreover have "apart [superblocks m, set (limbo m), P - F \<union> set fs, ht_region ?B r, mi_region ?B (v_mi v), dom (v_slots v), chain_pages (v_chains v)]"
    by (rule apart_move(1) [OF ap]) (use ap eq acc(2) in auto)
  ultimately show ?thesis using holdsD [OF h] at by (simp add: holds_def regions_def)
qed

lemma publish_mi:
  assumes h: "holds w K n m v P" and at: "mi_at (bodies w m) r G"
    and acc: "accounted (mi_region (bodies w m) (v_mi v)) F (mi_region (bodies w m) r) fs" "F \<subseteq> P"
  shows "holds w K n m (v\<lparr>v_mi := r, v_tags := G\<rparr>) (P - F \<union> set fs)"
proof -
  let ?B = "bodies w m"
  have eq: "mi_region ?B r \<union> set fs = mi_region ?B (v_mi v) \<union> F" "mi_region ?B r \<inter> set fs = {}" using acc by (auto simp: accounted_def)
  have ap: "apart [superblocks m, set (limbo m), P, ht_region ?B (v_ht v), mi_region ?B (v_mi v), dom (v_slots v), chain_pages (v_chains v)]"
    using holdsD(6) [OF h] by (simp add: regions_def)
  have "mi_region ?B (v_mi v) \<subseteq> used w m" using regions_used [OF h] by (simp add: regions_def)
  then have "P - F \<union> set fs \<subseteq> used w m" using holdsD(9) [OF h] eq acc(2) by blast
  moreover have "apart [superblocks m, set (limbo m), P - F \<union> set fs, ht_region ?B (v_ht v), mi_region ?B r, dom (v_slots v), chain_pages (v_chains v)]"
    by (rule apart_move(2) [OF ap]) (use ap eq acc(2) in auto)
  ultimately show ?thesis using holdsD [OF h] at by (simp add: holds_def regions_def)
qed

text \<open>Values given up: their pages are left to the caller.\<close>

lemma holds_release:
  assumes h: "holds w K n m v P" and l: "layout (bodies w m) ls S C V" and D: "dom ls \<subseteq> dom (v_slots v)" and C: "chain_pages C \<subseteq> chain_pages (v_chains v)"
  shows "holds w K n m (v\<lparr>v_slots := ls, v_entries := S, v_chains := C, v_values := V\<rparr>)
    (P \<union> (dom (v_slots v) - dom ls) \<union> (chain_pages (v_chains v) - chain_pages C))"
proof -
  let ?B = "bodies w m" and ?R = "(dom (v_slots v) - dom ls) \<union> (chain_pages (v_chains v) - chain_pages C)"
  have ap: "apart [superblocks m, set (limbo m), P, ht_region ?B (v_ht v), mi_region ?B (v_mi v), dom (v_slots v), chain_pages (v_chains v)]"
    using holdsD(6) [OF h] by (simp add: regions_def)
  then have PD: "P \<inter> dom (v_slots v) = {}" and PC: "P \<inter> chain_pages (v_chains v) = {}" "dom (v_slots v) \<inter> chain_pages (v_chains v) = {}" by simp_all
  have "?R \<subseteq> used w m" using regions_used [OF h, of "dom (v_slots v)"] regions_used [OF h, of "chain_pages (v_chains v)"] by (auto simp: regions_def)
  moreover have a1: "apart [superblocks m, set (limbo m), P \<union> (dom (v_slots v) - dom ls), ht_region ?B (v_ht v), mi_region ?B (v_mi v), dom ls, chain_pages (v_chains v)]"
    by (rule apart_move(3) [OF ap]) (use PD D in blast)+
  have "apart [superblocks m, set (limbo m), P \<union> (dom (v_slots v) - dom ls) \<union> (chain_pages (v_chains v) - chain_pages C), ht_region ?B (v_ht v),
      mi_region ?B (v_mi v), dom ls, chain_pages C]"
    by (rule apart_move(4) [OF a1]) (use PC C in blast)+
  ultimately show ?thesis using holdsD [OF h] l by (simp add: holds_def regions_def Un_assoc)
qed

section \<open>Freed pages\<close>

lemma freed_holds:
  assumes h: "holds w K n m v P" and fs: "set fs \<subseteq> P" "distinct fs"
  shows "holds w K n (m\<lparr>txn_freed_pages := txn_freed_pages m @ fs\<rparr>) v (P - set fs)"
proof -
  let ?m = "m\<lparr>txn_freed_pages := txn_freed_pages m @ fs\<rparr>" and ?B = "bodies w m"
  have same: "mgr_ok w K n ?m = mgr_ok w K n m" "bodies w ?m = ?B" "used w ?m = used w m" "superblocks ?m = superblocks m"
    by (simp_all add: mgr_ok_def bodies_def used_def superblocks_def)
  have ap: "apart [superblocks m, set (limbo m), P, ht_region ?B (v_ht v), mi_region ?B (v_mi v), dom (v_slots v), chain_pages (v_chains v)]"
    using holdsD(6) [OF h] by (simp add: regions_def)
  then have LP: "set (limbo m) \<inter> P = {}" by simp
  have lim: "set (limbo ?m) = set (limbo m) \<union> set fs" "distinct (limbo ?m)" using holdsD(5) [OF h] fs LP by (auto simp: limbo_def)
  have "apart [superblocks m, set (limbo m) \<union> set fs, P - set fs, ht_region ?B (v_ht v), mi_region ?B (v_mi v), dom (v_slots v), chain_pages (v_chains v)]"
    by (rule apart_move(5) [OF ap]) (use fs(1) LP in blast)+
  then show ?thesis
    unfolding holds_def same lim regions_def using holdsD(1-4,7-10) [OF h] fs(1) lim(2) by auto
qed

lemma pool_tidy:
  assumes ti: "tidy w x c" and R: "set R \<subseteq> ca_taken w x c" "distinct R" "0 \<notin> set R"
    and y: "y = x\<lparr>al_pool := (al_pool x)\<lparr>recyclable := recyclable (al_pool x) @ R\<rparr>\<rparr>"
  shows "tidy w y c" and "ca_taken w y c = ca_taken w x c - set R" and "guarded w K x c \<Longrightarrow> set R \<inter> K = {} \<Longrightarrow> guarded w K y c"
proof -
  have sp: "spare w y c = spare w x c \<union> set R" "map_pages w y c = map_pages w x c" by (auto simp: spare_def y map_pages_def)
  show tk: "ca_taken w y c = ca_taken w x c - set R" by (auto simp: ca_taken_def sp)
  have R': "set R \<inter> spare w x c = {}" "set R \<inter> map_pages w x c = {}" "set R \<subseteq> {p. p < next_page_id c}" using R(1) by (auto simp: ca_taken_def)
  have "0 < p" if "p \<in> set R" for p using that R(3) by (auto simp: word_gt_0)
  then show "tidy w y c" using ti R' R(2) unfolding tidy_def sp by (auto simp: y spare_def)
  show "guarded w K y c" if "guarded w K x c" "set R \<inter> K = {}" using that unfolding guarded_def sp tk by (auto simp: y)
qed

text \<open>Pages of this transaction that go back to its pool leave the pages in use.\<close>

lemma pooled_holds:
  assumes h: "holds w K n m v P" and R: "set R \<subseteq> P" "distinct R" "set R \<subseteq> allocated (txn_pages m)"
  shows "holds w K n (m\<lparr>txn_pages := (txn_pages m)\<lparr>recyclable := recyclable (txn_pages m) @ R\<rparr>\<rparr>) v (P - set R)"
proof -
  let ?m = "m\<lparr>txn_pages := (txn_pages m)\<lparr>recyclable := recyclable (txn_pages m) @ R\<rparr>\<rparr>" and ?B = "bodies w m"
  note d = holdsD [OF h] and ok = mgr_okD [OF holdsD(1) [OF h]]
  have ap: "apart [superblocks m, set (limbo m), P, ht_region ?B (v_ht v), mi_region ?B (v_mi v), dom (v_slots v), chain_pages (v_chains v)]"
    using d(6) by (simp add: regions_def)
  have "0 \<notin> P" using ap d(10) by auto
  then have R0: "set R \<subseteq> ca_taken w (menv m) (tm_cache m)" "0 \<notin> set R" using R(1) d(9) by (auto simp: used_def)
  have env: "menv ?m = (menv m)\<lparr>al_pool := (al_pool (menv m))\<lparr>recyclable := recyclable (al_pool (menv m)) @ R\<rparr>\<rparr>" by (simp add: env_of_def)
  have RK: "set R \<inter> K = {}" using ok(6) R(3) by (auto simp: guarded_def)
  note pt = pool_tidy [OF ok(5) R0(1) R(2) R0(2) env]
  have us: "used w ?m = used w m - set R" using pt(2) by (simp add: used_def)
  have bod: "bodies w ?m q = ?B q" if "q \<notin> set R" for q using that us by (simp add: bodies_def page_store_def)
  have dis: "set R \<inter> A = {}" if "A \<in> set (regions ?B v)" for A using ap R(1) that by (auto simp: regions_def)
  have out: "bodies w ?m q = ?B q" if "q \<in> A" "A \<in> set (regions ?B v)" for q A using bod dis that by blast
  have fr: "\<And>q. q \<in> ht_region ?B (v_ht v) \<Longrightarrow> bodies w ?m q = ?B q" "\<And>q. q \<in> mi_region ?B (v_mi v) \<Longrightarrow> bodies w ?m q = ?B q"
    "\<And>q. q \<in> value_pages (v_slots v) (v_chains v) \<Longrightarrow> bodies w ?m q = ?B q"
    using out [of _ "ht_region ?B (v_ht v)"] out [of _ "mi_region ?B (v_mi v)"] out [of _ "dom (v_slots v)"] out [of _ "chain_pages (v_chains v)"]
    by (simp_all add: regions_def del: domIff) blast
  have hf: "ht_region (bodies w ?m) (v_ht v) = ht_region ?B (v_ht v)" "ht_at (bodies w ?m) (v_ht v) (v_table v)"
    using ht_frame [where B = ?B and B' = "bodies w ?m" and r = "v_ht v", OF fr(1)] d(2) by blast+
  have mf: "mi_region (bodies w ?m) (v_mi v) = mi_region ?B (v_mi v)" "mi_at (bodies w ?m) (v_mi v) (v_tags v)"
    using mi_frame [where B = ?B and B' = "bodies w ?m" and r = "v_mi v", OF fr(2)] d(3) by blast+
  have "mgr_ok w K n ?m" using d(1) pt(1) pt(3) [OF ok(6) RK] by (simp add: mgr_ok_def ca_ok_def)
  moreover have "layout (bodies w ?m) (v_slots v) (v_entries v) (v_chains v) (v_values v)" by (rule layout_frame [OF d(4) fr(3)])
  moreover have "apart [superblocks m, set (limbo m), P - set R, ht_region ?B (v_ht v), mi_region ?B (v_mi v), dom (v_slots v), chain_pages (v_chains v)]"
    by (rule apart_mono [OF ap]) (simp add: list_all2_same)
  moreover have "limbo ?m = limbo m" "superblocks ?m = superblocks m" by (simp_all add: limbo_def superblocks_def)
  moreover have "superblocks m \<inter> set R = {}" "set (limbo m) \<inter> set R = {}" using ap R(1) by auto
  ultimately show ?thesis
    unfolding holds_def us regions_def using hf mf d(5,7-10) by auto
qed

lemma retire_fold:
  "fold retire_one fs (pool, l) = (pool\<lparr>recyclable := recyclable pool @ filter (\<lambda>i. i \<in> allocated pool) fs\<rparr>, l @ filter (\<lambda>i. i \<notin> allocated pool) fs)"
  by (induction fs arbitrary: pool l) (simp_all add: retire_one_def)

lemma retire_holds:
  assumes h: "holds w K n m v P" and fs: "set fs \<subseteq> P" "distinct fs"
  shows "holds w K n (retire_superseded fs m) v (P - set fs)"
proof (cases "savepoints m = []")
  case False
  have "retire_superseded fs m = m\<lparr>txn_freed_pages := txn_freed_pages m @ fs\<rparr>" using False by (simp add: retire_superseded_def retire_def)
  then show ?thesis using freed_holds [OF h fs] by simp
next
  case True
  let ?a = "allocated (txn_pages m)"
  let ?R = "filter (\<lambda>i. i \<in> ?a) fs" and ?S = "filter (\<lambda>i. i \<notin> ?a) fs"
  let ?m = "m\<lparr>txn_pages := (txn_pages m)\<lparr>recyclable := recyclable (txn_pages m) @ ?R\<rparr>\<rparr>"
  have "holds w K n ?m v (P - set ?R)" by (rule pooled_holds [OF h]) (use fs in auto)
  then have "holds w K n (?m\<lparr>txn_freed_pages := txn_freed_pages ?m @ ?S\<rparr>) v (P - set ?R - set ?S)"
    by (rule freed_holds) (use fs in auto)
  moreover have "P - set ?R - set ?S = P - set fs" by auto
  moreover have "?m\<lparr>txn_freed_pages := txn_freed_pages ?m @ ?S\<rparr> = retire_superseded fs m"
    using True by (simp add: retire_superseded_def retire_def retire_fold)
  ultimately show ?thesis by simp
qed

lemma retire_fields [simp]:
  "committed_roots (retire_superseded fs m) = committed_roots m" "current_roots (retire_superseded fs m) = current_roots m"
  "ht_depth (retire_superseded fs m) = ht_depth m" "mi_depth (retire_superseded fs m) = mi_depth m" "savepoints (retire_superseded fs m) = savepoints m"
  "packer (retire_superseded fs m) = packer m" "tm_cache (retire_superseded fs m) = tm_cache m" "base (retire_superseded fs m) = base m"
  "active_txn (retire_superseded fs m) = active_txn m" "tm_freemap (retire_superseded fs m) = tm_freemap m"
  "tm_superblock_count (retire_superseded fs m) = tm_superblock_count m"
  by (simp_all add: retire_superseded_def base_def split: prod.splits)

end
