(* ===== verification/Txn_Steps.thy ===== *)
theory Txn_Steps
  imports Txn_Invariant
begin

text \<open>
  The steps the manager's operations are made of, each with its contract on the invariant: looking a
  handle up, placing a value, building a new root of either index, publishing it, giving a value up.
\<close>

section \<open>Progress and failure\<close>

definition reached :: "nat \<Rightarrow> txn_manager \<Rightarrow> txn_manager \<Rightarrow> bool" where
  "reached j m m' \<longleftrightarrow> same_device (tm_cache m) (tm_cache m') \<and> base m' = base m \<and>
     (\<forall>k. roomy (tm_cache m) (7 * (j + k)) \<longrightarrow> roomy (tm_cache m') (7 * k))"

lemma reached_refl [simp]: "reached 0 m m"
  by (simp add: reached_def)

lemma reached_trans: "reached i m m1 \<Longrightarrow> reached j m1 m2 \<Longrightarrow> reached (i + j) m m2"
  using same_device_trans [of "tm_cache m" "tm_cache m1" "tm_cache m2"] unfolding reached_def add.assoc by metis

lemma reached_mono:
  assumes "reached i m m'" and "i \<le> j"
  shows "reached j m m'"
proof -
  have "roomy (tm_cache m') (7 * k)" if "roomy (tm_cache m) (7 * (j + k))" for k
    using assms roomy_mono [OF that, of "7 * (i + k)"] by (simp add: reached_def)
  then show ?thesis using assms(1) by (simp add: reached_def)
qed

lemma failed_later: "reached i m m1 \<Longrightarrow> failed w j m1 e m2 \<Longrightarrow> failed w (i + j) m e m2"
  using same_device_trans [of "tm_cache m" "tm_cache m1" "tm_cache m2"] by (auto simp: reached_def failed_def)

lemma extends_reached: "extends w K W F j m m' \<Longrightarrow> base m' = base m \<Longrightarrow> reached j m m'"
  using keeps_device by (auto simp: extends_def reached_def)

lemma reached_cong: "tm_cache m2 = tm_cache m1 \<Longrightarrow> base m2 = base m1 \<Longrightarrow> reached j m m2 = reached j m m1"
  by (simp add: reached_def)

lemma failed_cong: "tm_cache m2 = tm_cache m1 \<Longrightarrow> base m2 = base m1 \<Longrightarrow> failed w j m e m2 = failed w j m e m1"
  by (simp add: failed_def)

lemma seq_wp:
  assumes "wp a P (failed w i m) m" and "\<And>r m'. P r m' \<Longrightarrow> reached i m m' \<and> wp (f r) R (failed w j m') m'"
  shows "wp (and_then a f) R (failed w (i + j) m) m"
  unfolding wp_and_then
proof (rule wp_mono [OF assms(1)], goal_cases)
  case (1 r m')
  then have "reached i m m'" "wp (f r) R (failed w j m') m'" using assms(2) by blast+
  then show ?case using failed_later by (blast intro: wp_mono)
next
  case (2 e m')
  then show ?case by (rule failed_mono) simp
qed

lemma wp_gets_then: "wp (and_then (gets f) g) Q E s = wp (g (f s)) Q E s" and wp_ok_then: "wp (and_then (ok x) g') Q E s = wp (g' x) Q E s"
  by (simp_all add: wp_simps)

text \<open>The fields an operation may leave as they are: everything but the page bookkeeping.\<close>

abbreviation ht_loc :: "txn_manager \<Rightarrow> u64 \<times> nat" where
  "ht_loc m \<equiv> (handle_table_page (current_roots m), ht_depth m)"

abbreviation mi_loc :: "txn_manager \<Rightarrow> u64 \<times> nat" where
  "mi_loc m \<equiv> (membership_index_page (current_roots m), mi_depth m)"

definition rest :: "txn_manager \<Rightarrow> savepoint list \<times> u64 \<times> named_root list \<times> u64 list" where
  "rest m = (savepoints m, next_handle (current_roots m), named_roots (current_roots m), txn_freed_pages m)"

lemma rest_landed [simp]: "rest (landed t m) = rest m"
  by (simp add: rest_def)

lemma base_fields:
  assumes "base m' = base m"
  shows "tm_superblock_count m' = tm_superblock_count m" and "active_txn m' = active_txn m" and "committed_roots m' = committed_roots m" and "poisoned m' = poisoned m"
  using assms by (simp_all add: base_def)

lemma holds_landed:
  assumes "holds w K (j + n) m v P" and "extends w K {} F j m (landed t m)"
  shows "holds w K n (landed t m) v (P \<union> F)"
  using holds_extends [OF assms] base_fields(1) [of "landed t m" m] by simp

lemma holds_depth [simp]:
  "holds w K n (m\<lparr>ht_depth := d\<rparr>) v P = holds w K n m v P" "holds w K n (m\<lparr>mi_depth := d\<rparr>) v P = holds w K n m v P"
  "holds w K n (m\<lparr>packer := k\<rparr>) v P = holds w K n m v P"
  "freemap_page r = freemap_page (current_roots m) \<Longrightarrow> freemap_depth r = freemap_depth (current_roots m) \<Longrightarrow>
     holds w K n (m\<lparr>current_roots := r\<rparr>) v P = holds w K n m v P"
  by (rule holds_cong; simp add: limbo_def env_of_def take_tree_def)+

lemma bodies_depth [simp]:
  "bodies w (m\<lparr>ht_depth := d\<rparr>) = bodies w m" "bodies w (m\<lparr>mi_depth := d\<rparr>) = bodies w m" "bodies w (m\<lparr>packer := k\<rparr>) = bodies w m"
  "freemap_page r = freemap_page (current_roots m) \<Longrightarrow> freemap_depth r = freemap_depth (current_roots m) \<Longrightarrow> bodies w (m\<lparr>current_roots := r\<rparr>) = bodies w m"
  by (simp_all add: bodies_def used_def env_of_def take_tree_def)

lemma base_depth [simp]:
  "base (m\<lparr>ht_depth := d\<rparr>) = base m" "base (m\<lparr>mi_depth := d\<rparr>) = base m" "base (m\<lparr>tm_cache := c\<rparr>) = base m" "base (m\<lparr>current_roots := r\<rparr>) = base m"
  "base (m\<lparr>txn_freed_pages := fs\<rparr>) = base m"
  "rest (m\<lparr>ht_depth := d\<rparr>) = rest m" "rest (m\<lparr>mi_depth := d\<rparr>) = rest m" "rest (m\<lparr>tm_cache := c\<rparr>) = rest m" "rest (m\<lparr>packer := k\<rparr>) = rest m"
  "rest (m\<lparr>current_roots := (current_roots m)\<lparr>handle_table_page := r'\<rparr>\<rparr>) = rest m"
  "rest (m\<lparr>current_roots := (current_roots m)\<lparr>membership_index_page := r'\<rparr>\<rparr>) = rest m"
  by (simp_all add: base_def rest_def)

section \<open>Reading\<close>

lemma quiet_op_wp:
  assumes ok: "mgr_ok w K n m" and op: "wp op (\<lambda>r d. quiet w (tm_cache m) d \<and> Q r) (read_fails w (tm_cache m)) (tm_cache m)"
  shows "wp (on_tm_cache op) (\<lambda>r m'. Q r \<and> (\<exists>d. quiet w (tm_cache m) d \<and> m' = m\<lparr>tm_cache := d\<rparr>)) (failed w 0 m) m"
  unfolding on_tm_cache_def wp_on_field
proof (rule wp_mono [OF op], goal_cases)
  case (1 r d)
  then show ?case by blast
next
  case (2 e d)
  then show ?case by (auto simp: read_fails_def failed_def)
qed

lemma quiet_reached: "quiet w (tm_cache m) d \<Longrightarrow> reached 0 m (m\<lparr>tm_cache := d\<rparr>)"
  using quiet_device by (auto simp: reached_def quiet_roomy)

lemma quiet_holds: "holds w K n m v P \<Longrightarrow> quiet w (tm_cache m) d \<Longrightarrow> holds w K n (m\<lparr>tm_cache := d\<rparr>) v P"
  using holds_extends [of w K 0 n m v P "{}" "m\<lparr>tm_cache := d\<rparr>"] quiet_extends holdsD(1) by fastforce

lemma quiet_bodies: "quiet w (tm_cache m) d \<Longrightarrow> holds w K n m v P \<Longrightarrow> q \<in> used w m \<Longrightarrow> bodies w (m\<lparr>tm_cache := d\<rparr>) q = bodies w m q"
  using extends_bodies [OF quiet_extends] holdsD(1) by fastforce

lemma lookup_live_wp:
  assumes h: "holds w K n m v P" and at: "v_ht v = ht_loc m" and act: "active_txn m"
  shows "wp (lookup_live w handle)
    (\<lambda>e m'. v_table v handle = Some e \<and> (\<exists>d. quiet w (tm_cache m) d \<and> m' = m\<lparr>tm_cache := d\<rparr>))
    (\<lambda>x m'. failed w 0 m x m' \<or> x = InvalidHandle handle \<and> v_table v handle = None \<and> (\<exists>d. quiet w (tm_cache m) d \<and> m' = m\<lparr>tm_cache := d\<rparr>)) m"
proof -
  note ok = holdsD(1) [OF h]
  let ?r = "handle_table_page (current_roots m)"
  have "wp (ht_lookup w (ht_depth m) ?r handle) (\<lambda>r d. quiet w (tm_cache m) d \<and> r = v_table v handle) (read_fails w (tm_cache m)) (tm_cache m)"
  proof (cases "?r = PAGE_ID_NONE")
    case True
    then show ?thesis using holdsD(2) [OF h] at mgr_okD(1) [OF ok] by (simp add: ht_lookup_def wp_simps quiet_refl ht_at_def)
  next
    case False
    have "ht_ok (bodies w m) (ht_depth m) ?r" "ht_view (bodies w m) (ht_depth m) ?r = v_table v"
      using holdsD(2) [OF h] at False by (simp_all add: ht_at_def)
    then show ?thesis
      using ht_lookup_wp [OF mgr_okD(1,2) [OF ok], of "used w m" "ht_depth m" ?r handle] False by (simp add: bodies_def ht_ok_def rt_ok_def)
  qed
  note q = quiet_op_wp [OF ok this]
  show ?thesis
    unfolding lookup_live_def wp_and_then wp_gets id_apply live_handle_table_root_def using act
    by (auto simp: ok_or_def wp_simps split: option.splits elim!: wp_mono intro!: wp_mono [OF q])
qed

section \<open>New roots\<close>

lemma radix_run_wp:
  assumes ok: "mgr_ok w K j m"
    and op: "wp op (\<lambda>r t. ca.step w K (K \<inter> map_pages w (menv m) (tm_cache m)) {} j (run_ctx g m) t \<and>
        (\<exists>F. ca.in_use w t = used w m \<union> F \<and> F \<inter> used w m = {} \<and> Q r t F)) (\<lambda>e t. ca.stuck w j (run_ctx g m) e t \<and> E e t) (run_ctx g m)"
  shows "wp (cow_run g p (with_freed op))
    (\<lambda>(r, fs) m'. \<exists>t F. m' = p (t_own t) (landed t m) \<and> extends w K {} F j m (landed t m) \<and> ca.in_use w t = used w m \<union> F \<and>
       fs = ro_freed (t_own t) \<and> Q r t F)
    (\<lambda>e m'. \<exists>t. m' = p (t_own t) (landed t m) \<and> failed w j m e (landed t m) \<and> E e t) m"
proof -
  let ?M = "K \<inter> map_pages w (menv m) (tm_cache m)"
  have "wp (with_freed op) (\<lambda>r t. ca.step w K ?M {} j (run_ctx g m) t \<and> raw w (t_cache t) \<subseteq> raw w (tm_cache m) \<and>
      (\<exists>F. ca.in_use w t = used w m \<union> F \<and> F \<inter> used w m = {} \<and> snd r = ro_freed (t_own t) \<and> Q (fst r) t F))
      (\<lambda>e t. ca.stuck w j (run_ctx g m) e t \<and> E e t) (run_ctx g m)"
    unfolding with_freed_def wp_and_then wp_gets wp_ok
  proof (rule wp_mono [OF op], goal_cases)
    case (1 r t)
    then show ?case using ca.step_raw [of w K ?M "{}" j "run_ctx g m" t] by auto
  qed
  note r = cow_run_wp [where g = g and m = m and p = p and W = "{}", OF ok _ this]
  show ?thesis
  proof (rule wp_mono [OF r], goal_cases)
    case (2 x m')
    then show ?case by (cases x) simp
  qed simp_all
qed

lemma landed_at:
  assumes ext: "extends w K {} F j m (landed t m)" and iu: "ca.in_use w t = used w m \<union> F"
  shows "ht_at (ca.store w t) r T \<Longrightarrow> ht_at (bodies w (landed t m)) r T"
    and "ht_at (ca.store w t) r T \<Longrightarrow> ht_region (bodies w (landed t m)) r = ht_region (ca.store w t) r"
    and "mi_at (ca.store w t) r G \<Longrightarrow> mi_at (bodies w (landed t m)) r G"
    and "mi_at (ca.store w t) r G \<Longrightarrow> mi_region (bodies w (landed t m)) r = mi_region (ca.store w t) r"
proof -
  have same: "bodies w (landed t m) q = ca.store w t q" if "\<exists>b. ca.store w t q = Some b" for q
    using landed_bodies [OF ext iu] ca.store_in_use that iu by blast
  {
    assume at: "ht_at (ca.store w t) r T"
    have "bodies w (landed t m) q = ca.store w t q" if "q \<in> ht_region (ca.store w t) r" for q using same ht_region_dom [OF at that] .
    then show "ht_at (bodies w (landed t m)) r T" and "ht_region (bodies w (landed t m)) r = ht_region (ca.store w t) r"
      using ht_frame [where B = "ca.store w t" and B' = "bodies w (landed t m)" and r = r] at by blast+
  }
  {
    assume at: "mi_at (ca.store w t) r G"
    have "bodies w (landed t m) q = ca.store w t q" if "q \<in> mi_region (ca.store w t) r" for q using same mi_region_dom [OF at that] .
    then show "mi_at (bodies w (landed t m)) r G" and "mi_region (bodies w (landed t m)) r = mi_region (ca.store w t) r"
      using mi_frame [where B = "ca.store w t" and B' = "bodies w (landed t m)" and r = r] at by blast+
  }
qed

lemma old_regions:
  assumes h: "holds w K n m v P" and ext: "extends w K {} F j m m'"
  shows "ht_region (bodies w m') (v_ht v) = ht_region (bodies w m) (v_ht v)" and "mi_region (bodies w m') (v_mi v) = mi_region (bodies w m) (v_mi v)"
proof -
  have "bodies w m' q = bodies w m q" if "q \<in> A" "A \<in> set (regions (bodies w m) v)" for q A
    using extends_bodies [OF ext] regions_used [OF h that(2)] that(1) by blast
  then show "ht_region (bodies w m') (v_ht v) = ht_region (bodies w m) (v_ht v)" "mi_region (bodies w m') (v_mi v) = mi_region (bodies w m) (v_mi v)"
    using ht_frame(1) [where B = "bodies w m" and B' = "bodies w m'" and r = "v_ht v"]
      mi_frame(1) [where B = "bodies w m" and B' = "bodies w m'" and r = "v_mi v"] by (simp_all add: regions_def)
qed

text \<open>A root not yet published: the invariant still holds for the old one, the new pages are at hand.\<close>

definition ht_built :: "world \<Rightarrow> u64 set \<Rightarrow> nat \<Rightarrow> txn_manager \<Rightarrow> db_view \<Rightarrow> u64 set \<Rightarrow> (u64 \<rightharpoonup> handle_entry) \<Rightarrow> u64 \<Rightarrow> u64 list \<Rightarrow> txn_manager \<Rightarrow> bool" where
  "ht_built w K n m v P T q fs m' \<longleftrightarrow> (\<exists>F. holds w K n m' v (P \<union> F) \<and> F \<inter> P = {} \<and> ht_at (bodies w m') (q, ht_depth m') T \<and>
     accounted (ht_region (bodies w m') (v_ht v)) F (ht_region (bodies w m') (q, ht_depth m')) fs) \<and>
     (\<forall>p \<in> used w m. bodies w m' p = bodies w m p) \<and>
     rest m' = rest m \<and> packer m' = packer m \<and> mi_loc m' = mi_loc m \<and> handle_table_page (current_roots m') = handle_table_page (current_roots m)"

definition mi_built :: "world \<Rightarrow> u64 set \<Rightarrow> nat \<Rightarrow> txn_manager \<Rightarrow> db_view \<Rightarrow> u64 set \<Rightarrow> (u32 \<Rightarrow> u64 set) \<Rightarrow> u64 \<Rightarrow> u64 list \<Rightarrow> txn_manager \<Rightarrow> bool" where
  "mi_built w K n m v P G q fs m' \<longleftrightarrow> (\<exists>F. holds w K n m' v (P \<union> F) \<and> F \<inter> P = {} \<and> mi_at (bodies w m') (q, mi_depth m') G \<and>
     accounted (mi_region (bodies w m') (v_mi v)) F (mi_region (bodies w m') (q, mi_depth m')) fs) \<and>
     (\<forall>p \<in> used w m. bodies w m' p = bodies w m p) \<and>
     rest m' = rest m \<and> packer m' = packer m \<and> ht_loc m' = ht_loc m \<and> membership_index_page (current_roots m') = membership_index_page (current_roots m)"

lemma ht_built_landed:
  assumes h: "holds w K (j + n) m v P" and at: "v_ht v = ht_loc m" and ext: "extends w K {} F j m (landed t m)" "ca.in_use w t = used w m \<union> F"
    and new: "ht_at (ca.store w t) (q, d) T" "accounted (ht_region (bodies w m) (v_ht v)) F (ht_region (ca.store w t) (q, d)) fs"
  shows "ht_built w K n m v P T q fs ((landed t m)\<lparr>ht_depth := d\<rparr>)"
proof -
  have F: "F \<inter> P = {}" using ext(1) holdsD(9) [OF h] by (auto simp: extends_def)
  note la = landed_at(1,2) [OF ext new(1)]
  show ?thesis
    unfolding ht_built_def using holds_landed [OF h ext(1)] F la new(2) old_regions(1) [OF h ext(1)] extends_bodies [OF ext(1)] by (auto intro!: exI [of _ F])
qed

lemma mi_built_landed:
  assumes h: "holds w K (j + n) m v P" and at: "v_mi v = mi_loc m" and ext: "extends w K {} F j m (landed t m)" "ca.in_use w t = used w m \<union> F"
    and new: "mi_at (ca.store w t) (q, d) G" "accounted (mi_region (bodies w m) (v_mi v)) F (mi_region (ca.store w t) (q, d)) fs"
  shows "mi_built w K n m v P G q fs ((landed t m)\<lparr>mi_depth := d\<rparr>)"
proof -
  have F: "F \<inter> P = {}" using ext(1) holdsD(9) [OF h] by (auto simp: extends_def)
  note la = landed_at(3,4) [OF ext new(1)]
  show ?thesis
    unfolding mi_built_def using holds_landed [OF h ext(1)] F la new(2) old_regions(2) [OF h ext(1)] extends_bodies [OF ext(1)] by (auto intro!: exI [of _ F])
qed

text \<open>The four builders.\<close>

lemma ht_insert_at:
  assumes at: "ht_at (bodies w m) (r, d) T" and r: "r \<noteq> PAGE_ID_NONE" and e: "he_flags e \<noteq> Deleted"
    and fit: "ca.fit w K M 19 (run_ctx g m)" and up: "ca.updated w K M ht_format d r (unat h) e (run_ctx g m) d' q t"
  shows "ca.step w K M {} 19 (run_ctx g m) t" and "ro_depth (t_own t) = d'"
    and "\<exists>F. ca.in_use w t = used w m \<union> F \<and> F \<inter> used w m = {} \<and> ht_at (ca.store w t) (q, d') (T(h \<mapsto> e)) \<and>
      (ro_freed (g m) = [] \<longrightarrow> accounted (ht_region (bodies w m) (r, d)) F (ht_region (ca.store w t) (q, d')) (ro_freed (t_own t)))"
proof -
  obtain fs F where u: "d' \<le> 6" "rt_ok ht_format (ca.store w t) d' q" "rt_spine (bodies w m) d r \<longrightarrow> rt_spine (ca.store w t) d' q"
      "ca.in_use w t = used w m \<union> F" "F \<inter> used w m = {}" "accounted (rt_pages (bodies w m) d r) F (rt_pages (ca.store w t) d' q) fs"
      "t_own t = \<lparr>ro_depth = d', ro_freed = ro_freed (g m) @ fs\<rparr>"
      "\<And>k. ht_entry (ca.store w t) d' q k = (if k = unat h then e else ht_entry (bodies w m) d r k)"
    using up by (auto simp: ca.updated_def)
  show "ca.step w K M {} 19 (run_ctx g m) t" "ro_depth (t_own t) = d'" using up u(7) by (simp_all add: ca.updated_def)
  have ok: "ht_ok (bodies w m) d r" "ht_view (bodies w m) d r = T" using at r by (simp_all add: ht_at_def)
  have "ca.fit w K M 0 t" using ca.step_fit [OF \<open>ca.step w K M {} 19 (run_ctx g m) t\<close>, of 0] fit by simp
  then have q: "q \<noteq> PAGE_ID_NONE" using rt_wf_root [of ht_format "ca.store w t" d' q] u(2) ca.root_not_none [of w K M 0 t q] by (auto simp: rt_ok_def)
  have "ht_view (ca.store w t) d' q h' = (T(h \<mapsto> e)) h'" for h'
    using u(8) [of "unat h'"] e ok(2) by (auto simp: ht_view_def live_some word_unat_eq_iff)
  moreover have "ht_ok (ca.store w t) d' q" using u ok(1) unat_u64_less [of h] by (auto simp: ht_ok_def)
  ultimately have "ht_at (ca.store w t) (q, d') (T(h \<mapsto> e))" using q by (simp add: ht_at_def fun_eq_iff)
  then show "\<exists>F. ca.in_use w t = used w m \<union> F \<and> F \<inter> used w m = {} \<and> ht_at (ca.store w t) (q, d') (T(h \<mapsto> e)) \<and>
      (ro_freed (g m) = [] \<longrightarrow> accounted (ht_region (bodies w m) (r, d)) F (ht_region (ca.store w t) (q, d')) (ro_freed (t_own t)))"
    using u q r by (intro exI [of _ F]) (simp add: ht_region_def)
qed

lemma ht_run_wp:
  assumes h: "holds w K (j + n) m v P" and at: "v_ht v = ht_loc m"
    and op: "wp op (\<lambda>r t. ca.step w K (K \<inter> map_pages w (menv m) (tm_cache m)) {} j (run_ctx (\<lambda>s. \<lparr>ro_depth = ht_depth s, ro_freed = []\<rparr>) m) t \<and>
        (\<exists>F. ca.in_use w t = used w m \<union> F \<and> F \<inter> used w m = {} \<and>
          (ht_at (ca.store w t) (q r, ro_depth (t_own t)) (T r) \<and> Z r (ro_depth (t_own t)) \<and>
           accounted (ht_region (bodies w m) (v_ht v)) F (ht_region (ca.store w t) (q r, ro_depth (t_own t))) (ro_freed (t_own t)))))
      (\<lambda>x t. ca.stuck w j (run_ctx (\<lambda>s. \<lparr>ro_depth = ht_depth s, ro_freed = []\<rparr>) m) x t \<and> E (ro_depth (t_own t)))
      (run_ctx (\<lambda>s. \<lparr>ro_depth = ht_depth s, ro_freed = []\<rparr>) m)"
  shows "wp (ht_run op) (\<lambda>(r, fs) m'. reached j m m' \<and> ht_built w K n m v P (T r) (q r) fs m' \<and> Z r (ht_depth m'))
    (\<lambda>x m'. failed w j m x m' \<and> E (ht_depth m')) m"
proof -
  have ok: "mgr_ok w K j m" using mgr_ok_mono [OF holdsD(1) [OF h], of j] by simp
  show ?thesis
    unfolding ht_run_def
  proof (rule wp_mono [OF radix_run_wp [where g = "\<lambda>s. \<lparr>ro_depth = ht_depth s, ro_freed = []\<rparr>" and m = m and p = "\<lambda>r s. s\<lparr>ht_depth := ro_depth r\<rparr>", OF ok op]], goal_cases)
    case (1 x m')
    obtain r fs where x: "x = (r, fs)" by (cases x)
    then obtain t :: "(cow_env, radix_own) tree_ctx" and F where m': "m' = (landed t m)\<lparr>ht_depth := ro_depth (t_own t)\<rparr>" and ext: "extends w K {} F j m (landed t m)" "ca.in_use w t = used w m \<union> F"
      and new: "ht_at (ca.store w t) (q r, ro_depth (t_own t)) (T r)" and z: "Z r (ro_depth (t_own t))" and acc:
        "accounted (ht_region (bodies w m) (v_ht v)) F (ht_region (ca.store w t) (q r, ro_depth (t_own t))) (ro_freed (t_own t))" and fs: "fs = ro_freed (t_own t)"
      using 1 [unfolded x case_prod_conv] by blast
    have "reached j m m'" using extends_reached [OF ext(1)] by (simp add: m' reached_def)
    then show ?case using ht_built_landed [OF h at ext new acc] z by (simp add: x m' fs)
  next
    case (2 x m')
    then show ?case by (auto simp: failed_def)
  qed
qed

lemma ht_insert_candidate_wp:
  assumes h: "holds w K (19 + n) m v P" and at: "v_ht v = ht_loc m" and r: "handle_table_page (current_roots m) \<noteq> PAGE_ID_NONE"
    and e: "he_flags e \<noteq> Deleted"
  shows "wp (handle_table_insert_candidate w handle e)
    (\<lambda>(q, fs) m'. reached 19 m m' \<and> ht_built w K n m v P ((v_table v)(handle \<mapsto> e)) q fs m')
    (\<lambda>x m'. failed w 19 m x m' \<and> ht_depth m' = ht_depth m) m"
proof -
  let ?g = "\<lambda>s. \<lparr>ro_depth = ht_depth s, ro_freed = []\<rparr>" and ?r = "handle_table_page (current_roots m)" and ?d = "ht_depth m"
  have ok: "mgr_ok w K 19 m" using mgr_ok_mono [OF holdsD(1) [OF h], of 19] by simp
  have ha: "ht_at (bodies w m) (?r, ?d) (v_table v)" using holdsD(2) [OF h] at by simp
  have ro: "rt_ok ht_format (bodies w m) ?d ?r" "?d \<le> 6" using ha r by (simp_all add: ht_at_def ht_ok_def)
  note fit = run_fit [OF ok, of ?g]
  let ?M = "K \<inter> map_pages w (menv m) (tm_cache m)"
  show ?thesis
    unfolding handle_table_insert_candidate_def wp_and_then wp_gets id_apply
  proof (rule ht_run_wp [where q = "\<lambda>q. q" and T = "\<lambda>_. (v_table v)(handle \<mapsto> e)" and Z = "\<lambda>_ _. True", OF h at, simplified], rule wp_mono [OF ca.ht_insert_wp [OF fit, of ?d ?r]], goal_cases)
    case (4 q t)
    then obtain d' where up: "ca.updated w K ?M ht_format ?d ?r (unat handle) e (run_ctx ?g m) d' q t" by auto
    show ?case using ht_insert_at [where g = ?g, OF ha r e fit up] at by auto
  qed (use ro in auto)
qed

lemma ht_delete_at:
  assumes at: "ht_at (bodies w m) (r, d) T" and r: "r \<noteq> PAGE_ID_NONE" and fit: "ca.fit w K M 7 (run_ctx g m)" and st: "ca.step w K M {} 7 (run_ctx g m) t"
    and mv: "ca.moved w ht_format d r (run_ctx g m) q t" and en: "\<And>k. ht_entry (ca.store w t) d q k = (if k = unat h then tombstone else ht_entry (bodies w m) d r k)"
  shows "ro_depth (t_own t) = ro_depth (g m)" and "\<exists>F. ca.in_use w t = used w m \<union> F \<and> F \<inter> used w m = {} \<and> ht_at (ca.store w t) (q, d) (T(h := None)) \<and>
      (ro_freed (g m) = [] \<longrightarrow> accounted (ht_region (bodies w m) (r, d)) F (ht_region (ca.store w t) (q, d)) (ro_freed (t_own t)))"
proof -
  obtain fs F where u: "rt_ok ht_format (ca.store w t) d q" "rt_spine (bodies w m) d r \<longrightarrow> rt_spine (ca.store w t) d q"
      "ca.in_use w t = used w m \<union> F" "F \<inter> used w m = {}" "accounted (rt_pages (bodies w m) d r) F (rt_pages (ca.store w t) d q) fs"
      "t_own t = (g m)\<lparr>ro_freed := ro_freed (g m) @ fs\<rparr>"
    using mv by (auto simp: ca.moved_def)
  show "ro_depth (t_own t) = ro_depth (g m)" using u(6) by simp
  have ok: "ht_ok (bodies w m) d r" "ht_view (bodies w m) d r = T" using at r by (simp_all add: ht_at_def)
  have "ca.fit w K M 0 t" using ca.step_fit [OF st, of 0] fit by simp
  then have q: "q \<noteq> PAGE_ID_NONE" using rt_wf_root [of ht_format "ca.store w t" d q] u(1) ca.root_not_none [of w K M 0 t q] by (auto simp: rt_ok_def)
  have "ht_view (ca.store w t) d q h' = (T(h := None)) h'" for h'
    using en [of "unat h'"] ok(2) by (auto simp: ht_view_def word_unat_eq_iff)
  moreover have "ht_ok (ca.store w t) d q" using u ok(1) en by (auto simp: ht_ok_def)
  ultimately have "ht_at (ca.store w t) (q, d) (T(h := None))" using q by (simp add: ht_at_def fun_eq_iff)
  then show "\<exists>F. ca.in_use w t = used w m \<union> F \<and> F \<inter> used w m = {} \<and> ht_at (ca.store w t) (q, d) (T(h := None)) \<and>
      (ro_freed (g m) = [] \<longrightarrow> accounted (ht_region (bodies w m) (r, d)) F (ht_region (ca.store w t) (q, d)) (ro_freed (t_own t)))"
    using u q r by (intro exI [of _ F]) (simp add: ht_region_def)
qed

lemma ht_delete_candidate_wp:
  assumes h: "holds w K (7 + n) m v P" and at: "v_ht v = ht_loc m"
  shows "wp (handle_table_delete_candidate w handle)
    (\<lambda>((q, prev), fs) m'. reached 7 m m' \<and> prev = v_table v handle \<and> ht_built w K n m v P ((v_table v)(handle := None)) q fs m' \<and>
       (prev = None \<longrightarrow> q = handle_table_page (current_roots m) \<and> ht_depth m' = ht_depth m)) (failed w 7 m) m"
proof -
  let ?g = "\<lambda>s. \<lparr>ro_depth = ht_depth s, ro_freed = []\<rparr>" and ?r = "handle_table_page (current_roots m)" and ?d = "ht_depth m"
  let ?M = "K \<inter> map_pages w (menv m) (tm_cache m)" and ?T = "(v_table v)(handle := None)" and ?H = "ht_region (bodies w m) (v_ht v)"
  have ok: "mgr_ok w K 7 m" using mgr_ok_mono [OF holdsD(1) [OF h], of 7] by simp
  note fit = run_fit [OF ok, of ?g] and ha = holdsD(2) [OF h, unfolded at]
  have st0: "ca.step w K ?M {} 7 (run_ctx ?g m) (run_ctx ?g m)" using ca.step_weaken [OF ca.step_refl [OF fit, of "{}"], of "{}" 7] by simp
  have "wp (ht_delete w (cow_alloc w (savepoints m = [])) ?r handle)
      (\<lambda>r t. ca.step w K ?M {} 7 (run_ctx ?g m) t \<and>
        (\<exists>F. ca.in_use w t = used w m \<union> F \<and> F \<inter> used w m = {} \<and> (ht_at (ca.store w t) (fst r, ro_depth (t_own t)) ?T \<and>
          (snd r = v_table v handle \<and> (snd r = None \<longrightarrow> fst r = ?r \<and> ro_depth (t_own t) = ?d)) \<and> accounted ?H F (ht_region (ca.store w t) (fst r, ro_depth (t_own t))) (ro_freed (t_own t)))))
      (\<lambda>x t. ca.stuck w 7 (run_ctx ?g m) x t \<and> True) (run_ctx ?g m)"
  proof (cases "?r = PAGE_ID_NONE")
    case True
    then show ?thesis
      using ha st0 by (auto simp: ht_delete_def wp_simps ht_at_def at ht_region_def intro!: exI [of _ "{}"])
  next
    case False
    then have ro: "rt_ok ht_format (bodies w m) ?d ?r" "?d \<le> 6" and vw: "ht_view (bodies w m) ?d ?r = v_table v" using ha by (simp_all add: ht_at_def ht_ok_def)
    show ?thesis
    proof (rule wp_mono [OF ca.ht_delete_wp [OF fit, of ?d ?r]], goal_cases)
      case (4 x t)
      obtain q prev where x: "x = (q, prev)" by (cases x)
      have p: "prev = v_table v handle" "ca.step w K ?M {} 7 (run_ctx ?g m) t" using 4 x vw by auto
      show ?case
      proof (cases "prev = None")
        case True
        have "ht_at (bodies w m) (?r, ?d) ?T" using ha True p(1) by (simp add: fun_upd_idem)
        then show ?thesis using 4 x p True at by (auto intro!: exI [of _ "{}"])
      next
        case pv: False
        have "ca.moved w ht_format ?d ?r (run_ctx ?g m) q t"
          and "\<And>k. ht_entry (ca.store w t) ?d q k = (if k = unat handle then tombstone else ht_entry (bodies w m) ?d ?r k)"
          using 4 x pv by auto
        note da = ht_delete_at [where g = ?g, OF ha False fit p(2) this]
        then obtain F where "ca.in_use w t = used w m \<union> F" "F \<inter> used w m = {}" "ht_at (ca.store w t) (q, ?d) ?T"
            "accounted ?H F (ht_region (ca.store w t) (q, ?d)) (ro_freed (t_own t))" unfolding at by auto
        then show ?thesis using x p pv da(1) by (intro conjI exI [of _ F]) auto
      qed
    qed (use ro in auto)
  qed
  note run = ht_run_wp [where q = fst and T = "\<lambda>_. ?T" and Z = "\<lambda>r d. snd r = v_table v handle \<and> (snd r = None \<longrightarrow> fst r = ?r \<and> d = ?d)"
      and E = "\<lambda>_. True", OF h at this]
  show ?thesis
    unfolding handle_table_delete_candidate_def wp_and_then wp_gets id_apply
    by (rule wp_mono [OF run]) auto
qed

lemma mi_run_wp:
  assumes h: "holds w K (j + n) m v P" and at: "v_mi v = mi_loc m"
    and op: "wp op (\<lambda>r t. ca.step w K (K \<inter> map_pages w (menv m) (tm_cache m)) {} j (run_ctx (\<lambda>s. \<lparr>ro_depth = mi_depth s, ro_freed = []\<rparr>) m) t \<and>
        (\<exists>F. ca.in_use w t = used w m \<union> F \<and> F \<inter> used w m = {} \<and>
          (mi_at (ca.store w t) (q r, ro_depth (t_own t)) (G r) \<and>
           accounted (mi_region (bodies w m) (v_mi v)) F (mi_region (ca.store w t) (q r, ro_depth (t_own t))) (ro_freed (t_own t)))))
      (ca.stuck w j (run_ctx (\<lambda>s. \<lparr>ro_depth = mi_depth s, ro_freed = []\<rparr>) m))
      (run_ctx (\<lambda>s. \<lparr>ro_depth = mi_depth s, ro_freed = []\<rparr>) m)"
  shows "wp (mi_run op) (\<lambda>(r, fs) m'. reached j m m' \<and> mi_built w K n m v P (G r) (q r) fs m')
    (\<lambda>x m'. failed w j m x m' \<and> ht_loc m' = ht_loc m) m"
proof -
  have ok: "mgr_ok w K j m" using mgr_ok_mono [OF holdsD(1) [OF h], of j] by simp
  have op': "wp op (\<lambda>r t. ca.step w K (K \<inter> map_pages w (menv m) (tm_cache m)) {} j (run_ctx (\<lambda>s. \<lparr>ro_depth = mi_depth s, ro_freed = []\<rparr>) m) t \<and>
        (\<exists>F. ca.in_use w t = used w m \<union> F \<and> F \<inter> used w m = {} \<and>
          (mi_at (ca.store w t) (q r, ro_depth (t_own t)) (G r) \<and>
           accounted (mi_region (bodies w m) (v_mi v)) F (mi_region (ca.store w t) (q r, ro_depth (t_own t))) (ro_freed (t_own t)))))
      (\<lambda>x t. ca.stuck w j (run_ctx (\<lambda>s. \<lparr>ro_depth = mi_depth s, ro_freed = []\<rparr>) m) x t \<and> True)
      (run_ctx (\<lambda>s. \<lparr>ro_depth = mi_depth s, ro_freed = []\<rparr>) m)" using op by simp
  show ?thesis
    unfolding mi_run_def
  proof (rule wp_mono [OF radix_run_wp [where g = "\<lambda>s. \<lparr>ro_depth = mi_depth s, ro_freed = []\<rparr>" and m = m
        and p = "\<lambda>r s. s\<lparr>mi_depth := ro_depth r\<rparr>", OF ok op']], goal_cases)
    case (1 x m')
    obtain r fs where x: "x = (r, fs)" by (cases x)
    then obtain t :: "(cow_env, radix_own) tree_ctx" and F where m': "m' = (landed t m)\<lparr>mi_depth := ro_depth (t_own t)\<rparr>"
      and ext: "extends w K {} F j m (landed t m)" "ca.in_use w t = used w m \<union> F"
      and new: "mi_at (ca.store w t) (q r, ro_depth (t_own t)) (G r)"
        "accounted (mi_region (bodies w m) (v_mi v)) F (mi_region (ca.store w t) (q r, ro_depth (t_own t))) (ro_freed (t_own t))" and fs: "fs = ro_freed (t_own t)"
      using 1 [unfolded x case_prod_conv] by blast
    have "reached j m m'" using extends_reached [OF ext(1)] by (simp add: m' reached_def)
    then show ?case using mi_built_landed [OF h at ext new] by (simp add: x m' fs)
  next
    case (2 x m')
    then show ?case by (auto simp: failed_def)
  qed
qed

lemma mi_insert_candidate_wp:
  assumes h: "holds w K (40 + n) m v P" and at: "v_mi v = mi_loc m"
  shows "wp (membership_insert_candidate w tag handle)
    (\<lambda>(q, fs) m'. reached 40 m m' \<and> mi_built w K n m v P ((v_tags v)(tag := insert handle (v_tags v tag))) q fs m')
    (\<lambda>x m'. failed w 40 m x m' \<and> ht_loc m' = ht_loc m) m"
proof -
  let ?g = "\<lambda>s. \<lparr>ro_depth = mi_depth s, ro_freed = []\<rparr>" and ?r = "membership_index_page (current_roots m)" and ?d = "mi_depth m"
  have ok: "mgr_ok w K 40 m" using mgr_ok_mono [OF holdsD(1) [OF h], of 40] by simp
  have ma: "mi_ok (bodies w m) ?d ?r" "mi_view (bodies w m) ?d ?r = v_tags v" using holdsD(3) [OF h] at by (simp_all add: mi_at_def)
  show ?thesis
    unfolding membership_insert_candidate_def wp_and_then wp_gets id_apply
  proof (rule mi_run_wp [where q = "\<lambda>q. q" and G = "\<lambda>_. (v_tags v)(tag := insert handle (v_tags v tag))", OF h at],
      rule wp_mono [OF ca.mi_insert_wp [OF run_fit [OF ok, of ?g], of ?d ?r]], goal_cases)
    case (3 q t)
    then show ?case using ma(2) at by (auto simp: ca.mi_evolved_def mi_at_def)
  qed (use ma in auto)
qed

lemma mi_remove_candidate_wp:
  assumes h: "holds w K (26 + n) m v P" and at: "v_mi v = mi_loc m"
  shows "wp (membership_remove_candidate w tag handle)
    (\<lambda>((q, gone), fs) m'. reached 26 m m' \<and> mi_built w K n m v P ((v_tags v)(tag := v_tags v tag - {handle})) q fs m')
    (failed w 26 m) m"
proof -
  let ?g = "\<lambda>s. \<lparr>ro_depth = mi_depth s, ro_freed = []\<rparr>" and ?r = "membership_index_page (current_roots m)" and ?d = "mi_depth m"
  let ?G = "(v_tags v)(tag := v_tags v tag - {handle})"
  have ok: "mgr_ok w K 26 m" using mgr_ok_mono [OF holdsD(1) [OF h], of 26] by simp
  have ma: "mi_ok (bodies w m) ?d ?r" "mi_view (bodies w m) ?d ?r = v_tags v" using holdsD(3) [OF h] at by (simp_all add: mi_at_def)
  have "wp (membership_remove_candidate w tag handle) (\<lambda>(r, fs) m'. reached 26 m m' \<and> mi_built w K n m v P ?G (fst r) fs m')
    (\<lambda>x m'. failed w 26 m x m' \<and> ht_loc m' = ht_loc m) m"
    unfolding membership_remove_candidate_def wp_and_then wp_gets id_apply
  proof (rule mi_run_wp [where q = fst and G = "\<lambda>_. ?G", OF h at],
      rule wp_mono [OF ca.mi_remove_wp [OF run_fit [OF ok, of ?g], of ?d ?r]], goal_cases)
    case (3 x t)
    obtain q gone where x: "x = (q, gone)" by (cases x)
    show ?case
    proof (cases gone)
      case True
      then show ?thesis using 3 ma(2) at by (auto simp: x ca.mi_removed_def ca.mi_evolved_def mi_at_def)
    next
      case False
      then have "handle \<notin> v_tags v tag" using 3 ma(2) by (simp add: x ca.mi_removed_def)
      then have "?G = v_tags v" by (auto simp: fun_upd_idem)
      then show ?thesis using 3 False ma at by (auto simp: x ca.mi_removed_def mi_at_def intro!: exI [of _ "{}"])
    qed
  qed (use ma in auto)
  then show ?thesis by (rule wp_mono) auto
qed

section \<open>Placing a value\<close>

definition packs :: "u64 set \<Rightarrow> txn_manager \<Rightarrow> db_view \<Rightarrow> bool" where
  "packs K m v \<longleftrightarrow> v_slots v = current_live_slots (packer m) \<and> (\<forall>c. insert_cursor (packer m) = Some c \<longrightarrow> c \<in> dom (v_slots v) \<and> c \<notin> K)"

abbreviation placed :: "db_view \<Rightarrow> handle_entry \<Rightarrow> u64 list \<Rightarrow> u8 list \<Rightarrow> txn_manager \<Rightarrow> db_view" where
  "placed v e ids val m \<equiv> v\<lparr>v_slots := current_live_slots (packer m), v_entries := (v_entries v)(None \<mapsto> e),
     v_chains := (v_chains v)(None := ids), v_values := (v_values v)(None \<mapsto> val)\<rparr>"

lemma packer_insert_preserves: "preserves (\<lambda>t. committed_live_slots (t_own t)) (packer_insert w alloc packing val)"
  unfolding packer_insert_def on_cache_def call_alloc_def set_own_def
  by (intro preserves_intros preserves_on_field preserves_modify) (auto simp: count_slot_def)

lemma placed_holds:
  assumes h: "holds w K (1 + n) m v P" and S: "v_entries v None = None" and pk: "packs K m v"
    and ext: "extends w K (set_option (insert_cursor (packer m))) F 1 m (landed t m)" and iu: "ca.in_use w t = used w m \<union> F"
    and sp: "slot_placed val packing (packer m) (bodies w m) (used w m) (p, slot) k (ca.store w t) (ca.in_use w t)"
    and e: "he_flags e = Live" "slot_of e = (p, slot)" and m': "m' = (landed t m)\<lparr>packer := k\<rparr>"
  shows "holds w K n m' (placed v e [] val m') P" and "packs K m' (placed v e [] val m')"
proof -
  let ?B = "bodies w m" and ?B' = "bodies w (landed t m)" and ?ls = "v_slots v"
  have F: "F \<inter> used w m = {}" "F \<inter> K = {}" using ext by (auto simp: extends_def)
  have reg: "dom ?ls \<subseteq> used w m" "chain_pages (v_chains v) \<subseteq> used w m" using regions_used [OF h] by (auto simp: regions_def)
  have ap: "dom ?ls \<inter> chain_pages (v_chains v) = {}" using holdsD(6) [OF h] by (simp add: regions_def)
  have ls: "?ls = current_live_slots (packer m)" and cur: "\<And>c. insert_cursor (packer m) = Some c \<Longrightarrow> c \<in> dom ?ls \<and> c \<notin> K" using pk by (auto simp: packs_def)
  obtain vs b' where s: "ca.store w t = ?B(p \<mapsto> b')" "data_body b'" "body_values b' = vs @ [val]" "unat slot = length vs"
    and alt0: "insert_cursor (packer m) = Some p \<and> (\<exists>b. ?B p = Some b \<and> data_body b \<and> body_values b = vs) \<and> ca.in_use w t = used w m \<and> k = count_slot p (packer m) \<or>
         p \<notin> used w m \<and> vs = [] \<and> ca.in_use w t = insert p (used w m) \<and> k = count_slot p (if packing then (packer m)\<lparr>insert_cursor := Some p\<rparr> else packer m)"
    using sp unfolding slot_placed_def case_prod_conv by blast
  have "ca.in_use w t = used w m \<Longrightarrow> F = {}" "p \<notin> used w m \<Longrightarrow> ca.in_use w t = insert p (used w m) \<Longrightarrow> F = {p}" using iu F(1) by auto
  then have alt: "insert_cursor (packer m) = Some p \<and> (\<exists>b. ?B p = Some b \<and> data_body b \<and> body_values b = vs) \<and> F = {} \<and> k = count_slot p (packer m) \<or>
         p \<notin> used w m \<and> vs = [] \<and> F = {p} \<and> k = count_slot p (if packing then (packer m)\<lparr>insert_cursor := Some p\<rparr> else packer m)"
    using alt0 by blast
  have cls: "current_live_slots k = ?ls(p \<mapsto> (case ?ls p of Some n \<Rightarrow> n | None \<Rightarrow> 0) + 1)" using alt by (auto simp: count_slot_def ls)
  have pin: "p \<in> used w m \<union> F" using alt cur reg by blast
  have B': "?B' q = ca.store w t q" if "q \<in> used w m \<union> F" for q by (rule landed_bodies [OF ext iu that])
  have C: "(v_chains v)(None := []) = v_chains v" using layout_none [OF holdsD(4) [OF h] S] by (simp add: fun_upd_idem)
  have "layout ?B' (current_live_slots k) ((v_entries v)(None \<mapsto> e)) (v_chains v) ((v_values v)(None \<mapsto> val))"
    unfolding cls
  proof (rule layout_add_slot [where B = ?B and vs = vs and b = "the (?B p)" and b' = b', OF holdsD(4) [OF h] S e(1)], goal_cases)
    case 1
    then show ?case using e(2) by simp
  next
    case 2
    then show ?case using alt cur [of p] ap reg by blast
  next
    case 3
    then show ?case using alt reg by auto
  next
    case 4
    then show ?case using alt cur [of p] by auto
  next
    case 5
    then show ?case using B' [OF pin] s(1) by simp
  next
    case (9 q)
    then show ?case using B' [of q] reg s(1) by auto
  qed (use s e(2) in auto)
  note l = this
  have X: "dom (current_live_slots k) \<subseteq> dom ?ls \<union> F" "F \<subseteq> P \<union> F" using alt cur [of p] by (auto simp: cls)
  have W: "set_option (insert_cursor (packer m)) \<subseteq> dom ?ls" using cur by (cases "insert_cursor (packer m)") auto
  have same: "tm_superblock_count (landed t m) = tm_superblock_count m" using base_fields(1) [of "landed t m" m] by simp
  have "holds w K n (landed t m) (v\<lparr>v_slots := current_live_slots k, v_entries := (v_entries v)(None \<mapsto> e), v_chains := v_chains v,
      v_values := (v_values v)(None \<mapsto> val)\<rparr>) (P \<union> F - F - {})"
    by (rule holds_step [OF h ext W same _ _ l X]) simp_all
  moreover have "P \<union> F - F - {} = P" using F(1) holdsD(9) [OF h] by blast
  ultimately show "holds w K n m' (placed v e [] val m') P" by (simp add: m' C)
  show "packs K m' (placed v e [] val m')"
    using alt cur F(2) by (auto simp: packs_def m' cls count_slot_def split: if_splits)
qed

definition same_index :: "txn_manager \<Rightarrow> txn_manager \<Rightarrow> bool" where
  "same_index m m' \<longleftrightarrow> rest m' = rest m \<and> ht_loc m' = ht_loc m \<and> mi_loc m' = mi_loc m"

lemma insert_into_data_page_wp:
  assumes h: "holds w K (1 + n) m v P" and S: "v_entries v None = None" and pk: "packs K m v" and len: "length val \<le> 8162"
  shows "wp (insert_into_data_page w val)
    (\<lambda>(p, slot) m'. reached 1 m m' \<and> same_index m m' \<and>
       (\<forall>e. he_flags e = Live \<longrightarrow> slot_of e = (p, slot) \<longrightarrow> holds w K n m' (placed v e [] val m') P \<and> packs K m' (placed v e [] val m')))
    (failed w 1 m) m"
proof -
  let ?M = "K \<inter> map_pages w (menv m) (tm_cache m)" and ?W = "set_option (insert_cursor (packer m))" and ?r = "savepoints m = []"
  have ok: "mgr_ok w K 1 m" using mgr_ok_mono [OF holdsD(1) [OF h], of 1] by simp
  have cur: "c \<in> dom (v_slots v) \<and> c \<notin> K" if "insert_cursor (packer m) = Some c" for c using pk that by (auto simp: packs_def)
  have W: "?W \<inter> K = {}" using cur by (cases "insert_cursor (packer m)") auto
  have "superblocks m \<inter> dom (v_slots v) = {}" using holdsD(6) [OF h] by (simp add: regions_def)
  then have data: "c \<noteq> 0 \<and> (\<exists>b. bodies w m c = Some b \<and> data_body b)" if "insert_cursor (packer m) = Some c" for c
    using cur [OF that] layout_data_body [OF holdsD(4) [OF h], of c] holdsD(10) [OF h] by blast
  have "wp (packer_insert w (cow_alloc w ?r) ?r val)
      (\<lambda>r t. (ca.step w K ?M ?W 1 (run_ctx packer m) t \<and> raw w (t_cache t) \<subseteq> raw w (tm_cache m) \<and>
         slot_placed val ?r (packer m) (bodies w m) (used w m) r (t_own t) (ca.store w t) (ca.in_use w t)) \<and>
         committed_live_slots (t_own t) = committed_live_slots (packer m))
      (\<lambda>e t. ca.stuck w 1 (run_ctx packer m) e t \<and> committed_live_slots (t_own t) = committed_live_slots (packer m)) (run_ctx packer m)"
    using wp_preserves [OF packer_insert_preserves ca.packer_insert_wp [OF run_fit [OF ok, of packer] len, of ?r ?r]] data by simp
  then have run: "wp (packer_insert w (cow_alloc w ?r) ?r val)
      (\<lambda>r t. ca.step w K ?M ?W 1 (run_ctx packer m) t \<and> raw w (t_cache t) \<subseteq> raw w (tm_cache m) \<and>
         (\<exists>F. ca.in_use w t = used w m \<union> F \<and> F \<inter> used w m = {} \<and>
           (slot_placed val ?r (packer m) (bodies w m) (used w m) r (t_own t) (ca.store w t) (ca.in_use w t) \<and>
            committed_live_slots (t_own t) = committed_live_slots (packer m))))
      (\<lambda>e t. ca.stuck w 1 (run_ctx packer m) e t \<and> committed_live_slots (t_own t) = committed_live_slots (packer m)) (run_ctx packer m)"
  proof (rule wp_mono, goal_cases)
    case (1 r t)
    then have "used w m \<subseteq> ca.in_use w t" using ca.step_in_use [of w K ?M ?W 1 "run_ctx packer m" t] by simp
    then have "ca.in_use w t = used w m \<union> (ca.in_use w t - used w m)" "(ca.in_use w t - used w m) \<inter> used w m = {}" by blast+
    then show ?case using 1 by blast
  qed
  show ?thesis
    unfolding insert_into_data_page_def wp_and_then wp_gets
  proof (rule wp_mono [OF cow_run_wp [where g = packer and m = m and p = "\<lambda>p s. s\<lparr>packer := p\<rparr>" and W = ?W, OF ok W run]], goal_cases)
    case (1 x m')
    obtain p slot where x: "x = (p, slot)" by (cases x)
    obtain t :: "(cow_env, slot_packer) tree_ctx" and F where m': "m' = (landed t m)\<lparr>packer := t_own t\<rparr>"
      and ext: "extends w K ?W F 1 m (landed t m)" "ca.in_use w t = used w m \<union> F"
      and sp: "slot_placed val ?r (packer m) (bodies w m) (used w m) (p, slot) (t_own t) (ca.store w t) (ca.in_use w t)"
      and cl: "committed_live_slots (t_own t) = committed_live_slots (packer m)" using 1 [unfolded x] by blast
    have "base m' = base m" using cl by (simp add: m' base_def landed_def put_tree_def)
    then have "reached 1 m m'" using extends_reached [OF ext(1)] by (simp add: m' reached_def)
    moreover have "same_index m m'" by (simp add: same_index_def m')
    ultimately show ?case using placed_holds [OF h S pk ext sp _ _ m'] by (auto simp: x)
  next
    case (2 e m')
    then obtain t :: "(cow_env, slot_packer) tree_ctx" where m': "m' = (landed t m)\<lparr>packer := t_own t\<rparr>" and f: "failed w 1 m e (landed t m)"
      and cl: "committed_live_slots (t_own t) = committed_live_slots (packer m)" by blast
    have "base m' = base m" using cl by (simp add: m' base_def landed_def put_tree_def)
    then show ?case using f by (simp add: failed_def m')
  qed
qed

end
