(* ===== verification/Txn_Values.thy ===== *)
theory Txn_Values
  imports Txn_Steps
begin

text \<open>
  Values under the invariant: placing one in a slot or in a chain, giving one up, and the first
  root of the handle table.
\<close>

section \<open>Placing\<close>

definition place_cost :: "u8 list \<Rightarrow> nat" where
  "place_cost val = (if MAX_INLINE_VALUE < length val then div_ceil (length val) 8152 else 1)"

lemma id_room_add:
  assumes "id_room c (n + k)" and "next_page_id d = next_page_id c + word_of_nat n"
  shows "unat (next_page_id d) = unat (next_page_id c) + n" and "id_room d k"
proof -
  have "unat (next_page_id c) + n < 2 ^ 64" using assms(1) by (simp add: id_room_def)
  then show u: "unat (next_page_id d) = unat (next_page_id c) + n" unfolding assms(2) by (simp add: unat_word_ariths unat_of_nat take_bit_nat_def)
  show "id_room d k" using assms(1) u by (simp add: id_room_def add.assoc)
qed

lemma fails_failed:
  assumes "fails w (tm_cache m) k e d" and "pc_inv w (tm_cache m)" and "k \<le> 7 * n"
  shows "failed w n m e (m\<lparr>tm_cache := d\<rparr>)"
  using assms roomy_calm [of w "tm_cache m" k] roomy_mono [of "tm_cache m" "7 * n" k] by (auto simp: fails_def failed_def)

lemma chain_holds:
  assumes h: "holds w K (j + n) m v P" and S: "v_entries v None = None" and pk: "packs K m v"
    and ch: "chain_at w d p ids val" "distinct ids" "\<And>q. q \<in> set ids \<Longrightarrow> next_page_id (tm_cache m) \<le> q \<and> is_dirty d q"
    and up: "updates w (tm_cache m) mp d" "dom mp = set ids" and raw: "raw w d \<subseteq> raw w (tm_cache m)"
    and nx: "next_page_id d = next_page_id (tm_cache m) + word_of_nat j" and e: "he_flags e = OverflowValue" "he_page_id e = p"
    and m': "m' = m\<lparr>tm_cache := d\<rparr>"
  shows "holds w K n m' (placed v e ids val m') P" and "packs K m' (placed v e ids val m')" and "reached j m m'" and "same_index m m'"
proof -
  let ?c = "tm_cache m"
  note ok = holdsD(1) [OF h]
  have ir: "id_room ?c (j + 0)" using id_room_mono [OF mgr_okD(4) [OF ok], of j] by simp
  then have nn: "unat (next_page_id d) \<le> unat (next_page_id ?c) + j" using id_room_add(1) [OF _ nx, of 0] by simp
  have inv: "pc_inv w d" using up(1) by (rule updates_inv)
  have dom: "dom mp = {q. next_page_id ?c \<le> q \<and> q < next_page_id d}"
  proof (intro set_eqI iffI)
    fix q
    show "q \<in> dom mp" if "q \<in> {q. next_page_id ?c \<le> q \<and> q < next_page_id d}" using up(1) that unfolding updates_def by blast
    show "q \<in> {q. next_page_id ?c \<le> q \<and> q < next_page_id d}" if "q \<in> dom mp" using that ch(3) dirty_below [OF inv] unfolding up(2) by blast
  qed
  have ext: "extends w K {} (dom mp) j m m'"
    unfolding m' by (rule appended_extends [OF up(1) dom raw _ _ ok])
      (use id_room_add(2) [OF _ nx] updates_roomy [OF up(1) nn] in auto)
  have new: "set ids \<subseteq> used w m'" "set ids \<inter> used w m = {}" using extends_used [OF ext] ext up(2) by (auto simp: extends_def)
  have rd: "readable w d q \<and> bodies w m' q = body_at w d q" if "q \<in> set ids" for q
    using that new(1) ch(1) by (auto simp: bodies_def page_store_def m' chain_at_def)
  have reg: "dom (v_slots v) \<subseteq> used w m" "chain_pages (v_chains v) \<subseteq> used w m" using regions_used [OF h] by (auto simp: regions_def)
  have old: "bodies w m' q = bodies w m q" if "q \<in> value_pages (v_slots v) (v_chains v)" for q
    using extends_bodies [OF ext] reg that by blast
  have "layout (bodies w m') (v_slots v) ((v_entries v)(None \<mapsto> e)) ((v_chains v)(None := ids)) ((v_values v)(None \<mapsto> val))"
  proof (rule layout_add_chain [OF holdsD(4) [OF h] S e(1)], goal_cases)
    case 4
    then show ?case using ch(1) rd by (auto simp: chain_at_def elim!: chain_mono)
  next
    case 6
    then show ?case using new(2) reg by blast
  next
    case (7 q)
    then show ?case by (rule old)
  qed (use ch e in \<open>auto simp: chain_at_def\<close>)
  note l = this
  have Y: "chain_pages ((v_chains v)(None := ids)) \<subseteq> chain_pages (v_chains v) \<union> set ids" by (auto simp: chain_pages_def split: if_splits)
  have sl: "v_slots v = current_live_slots (packer m')" using pk by (simp add: packs_def m')
  have "holds w K n m' (v\<lparr>v_slots := v_slots v, v_entries := (v_entries v)(None \<mapsto> e), v_chains := (v_chains v)(None := ids),
      v_values := (v_values v)(None \<mapsto> val)\<rparr>) (P \<union> dom mp - {} - set ids)"
    by (rule holds_step [OF h ext _ _ _ _ l _ _ Y]) (simp_all add: m' up(2))
  moreover have "P \<union> dom mp - {} - set ids = P" using new(2) holdsD(9) [OF h] up(2) by blast
  ultimately show "holds w K n m' (placed v e ids val m') P" using sl by simp
  show "packs K m' (placed v e ids val m')" using pk by (auto simp: packs_def m')
  show "reached j m m'" by (rule extends_reached [OF ext]) (simp add: m')
  show "same_index m m'" by (simp add: same_index_def m')
qed

lemma place_value_wp:
  assumes h: "holds w K (place_cost val + n) m v P" and S: "v_entries v None = None" and pk: "packs K m v" and len: "length val < 2 ^ 64"
  shows "wp (place_value w val tag byte)
    (\<lambda>(e, ip) m'. reached (place_cost val) m m' \<and> same_index m m' \<and> he_tag e = tag \<and> he_client_byte e = byte \<and> he_flags e \<noteq> Deleted \<and>
       ip = (if he_flags e = Live then Some (he_page_id e) else None) \<and>
       (\<exists>ids. holds w K n m' (placed v e ids val m') P \<and> packs K m' (placed v e ids val m')))
    (failed w (place_cost val) m) m"
proof (cases "MAX_INLINE_VALUE < length val")
  case False
  then have len': "length val \<le> 8162" and c: "place_cost val = 1" by (simp_all add: place_cost_def)
  show ?thesis
    unfolding place_value_def c if_not_P [OF False] wp_and_then
  proof (rule wp_mono [OF insert_into_data_page_wp [OF h [unfolded c] S pk len']], goal_cases)
    case (1 x m')
    then show ?case by (cases x) (auto simp: wp_simps intro!: exI [of _ "[]"])
  qed
next
  case True
  let ?j = "div_ceil (length val) 8152"
  have c: "place_cost val = ?j" using True by (simp add: place_cost_def)
  note ok = holdsD(1) [OF h]
  have ir: "id_room (tm_cache m) (?j + 0)" using id_room_mono [OF mgr_okD(4) [OF ok], of ?j] c by simp
  have val: "val \<noteq> []" using True by auto
  show ?thesis
    unfolding place_value_def c if_P [OF True] wp_and_then on_tm_cache_def wp_on_field
  proof (rule wp_mono [OF overflow_write_wp [OF mgr_okD(1,2) [OF ok] val len refl ir mgr_okD(3) [OF ok]]], goal_cases)
    case (1 p d)
    then obtain ids mp where ch: "chain_at w d p ids val" "distinct ids" "\<And>q. q \<in> set ids \<Longrightarrow> next_page_id (tm_cache m) \<le> q \<and> is_dirty d q"
      and up: "updates w (tm_cache m) mp d" "dom mp = set ids" and rw: "raw w d \<subseteq> raw w (tm_cache m)"
      and nx: "next_page_id d = next_page_id (tm_cache m) + word_of_nat ?j" by blast
    note cd = chain_holds [OF h [unfolded c] S pk ch up rw nx _ _ refl]
    let ?e = "\<lparr>he_page_id = p, he_slot_index = 0, he_flags = OverflowValue, he_tag = tag, he_client_byte = byte\<rparr>"
    show ?case unfolding wp_ok case_prod_conv using cd [of ?e] by (intro conjI exI [of _ ids]) auto
  next
    case (2 e d)
    then show ?case by (rule fails_failed [OF _ mgr_okD(1) [OF ok]]) simp
  qed
qed

section \<open>The first root of the handle table\<close>

text \<open>A fresh page with given contents.\<close>

lemma new_init_wp:
  assumes inv: "pc_inv w c" and W: "world_ok w" and room: "id_room c (Suc k)"
    and f: "\<And>buf. page_ok buf \<Longrightarrow> page_ok (f buf) \<and> page_body (f buf) = b \<and> verify_checksum (w_xxh w) (f buf)"
  shows "wp (and_then (pc_new_page w) (\<lambda>p. and_then (pc_with_mut w p f) (\<lambda>_. ok p)))
    (\<lambda>p d. p = next_page_id c \<and> updates w c [p \<mapsto> b] d \<and> next_page_id d = next_page_id c + 1 \<and> p \<notin> raw w d) (fails w c 1) c"
  unfolding wp_and_then
proof (rule wp_mono [OF store_new_wp [OF inv W room]], goal_cases)
  case (1 p d)
  then have p: "p = next_page_id c" and up: "updates w c [p \<mapsto> replicate 8184 0] d" and gr: "grown c 1 d" and nx: "next_page_id d = next_page_id c + 1" by auto
  have inv': "pc_inv w d" using up by (rule updates_inv)
  have bd: "body_at w d p = Some (replicate 8184 0)" "is_dirty d p" using up by (auto simp: updates_def)
  have lt: "p < next_page_id d" by (rule dirty_below [OF inv' bd(2)])
  show ?case
  proof (rule wp_mono [OF store_write_wp [OF inv' W lt bd(1) dirty_readable [OF bd(2,1)], of f b]], goal_cases)
    case (3 u e)
    then have u: "updates w d [p \<mapsto> b] e" "next_page_id e = next_page_id d" "p \<notin> raw w e" using f by auto
    have "updates w c [p \<mapsto> b] e" using updates_trans [OF up u(1)] by (simp add: map_add_def fun_upd_def if_distrib cong: if_cong)
    then show ?case using p nx u by (simp add: wp_simps)
  next
    case (4 x e)
    then show ?case using fails_later [OF gr, of w 0] by simp
  qed (use f in auto)
qed simp

lemma ht_create_root_cache:
  "ht_create_root w t = (case and_then (pc_new_page w) (\<lambda>p. and_then (pc_with_mut w p (\<lambda>buf. stamp_checksum (w_xxh w) (ht_blank FLAG_LEAF buf))) (\<lambda>_. ok p)) (t_cache t) of
     (Ok p, d) \<Rightarrow> (Ok p, t\<lparr>t_cache := d, t_own := (t_own t)\<lparr>ro_depth := 0\<rparr>\<rparr>) | (Err e, d) \<Rightarrow> (Err e, t\<lparr>t_cache := d\<rparr>) | (Panic, d) \<Rightarrow> (Panic, t\<lparr>t_cache := d\<rparr>))"
  by (auto simp: ht_create_root_def and_then_def on_cache_def on_field_def ok_def set_depth_def set_own_def modify_def split: prod.splits res.splits)

lemma create_root_wp:
  assumes "wp (and_then (pc_new_page w) (\<lambda>p. and_then (pc_with_mut w p (\<lambda>buf. stamp_checksum (w_xxh w) (ht_blank FLAG_LEAF buf))) (\<lambda>_. ok p)))
    (\<lambda>p d. Q p (t\<lparr>t_cache := d, t_own := (t_own t)\<lparr>ro_depth := 0\<rparr>\<rparr>)) (\<lambda>e d. E e (t\<lparr>t_cache := d\<rparr>)) (t_cache t)"
  shows "wp (ht_create_root w) Q E t"
  using assms unfolding wp_def ht_create_root_cache by (auto split: prod.splits res.splits)

lemma used_not_none: "p \<in> used w m \<Longrightarrow> p \<noteq> PAGE_ID_NONE"
proof -
  assume "p \<in> used w m"
  then have "unat p < unat (next_page_id (tm_cache m))" using used_below by (simp add: word_less_nat_alt)
  then have "unat p < 2 ^ 64 - 1" using unat_u64_less [of "next_page_id (tm_cache m)"] by simp
  then show ?thesis by (auto simp: PAGE_ID_NONE_def)
qed

lemma ensure_handle_table_wp:
  assumes h: "holds w K (1 + n) m v P" and at: "v_ht v = ht_loc m"
  shows "wp (ensure_handle_table w)
    (\<lambda>_ m'. reached 1 m m' \<and> handle_table_page (current_roots m') \<noteq> PAGE_ID_NONE \<and> holds w K n m' (v\<lparr>v_ht := ht_loc m'\<rparr>) P \<and>
       rest m' = rest m \<and> packer m' = packer m \<and> mi_loc m' = mi_loc m) (failed w 1 m) m"
proof (cases "handle_table_page (current_roots m) = PAGE_ID_NONE")
  case False
  have "holds w K n m v P" by (rule holds_mono [OF h]) simp
  moreover have "v\<lparr>v_ht := ht_loc m\<rparr> = v" using at by (metis db_view.surjective db_view.update_convs(1))
  ultimately show ?thesis using False reached_mono [of 0 m m 1] by (simp add: ensure_handle_table_def wp_simps)
next
  case True
  let ?f = "\<lambda>buf. stamp_checksum (w_xxh w) (ht_blank FLAG_LEAF buf)" and ?c = "tm_cache m"
  note ok = holdsD(1) [OF h]
  have f: "page_ok (?f buf) \<and> page_body (?f buf) = blank_body 1 \<and> verify_checksum (w_xxh w) (?f buf)" if "page_ok buf" for buf
    using ht_blank_body [OF that, of 1] that by (simp add: blank_body_def)
  have ir: "id_room ?c (Suc 0)" using id_room_mono [OF mgr_okD(4) [OF ok], of "Suc 0"] by simp
  have "wp (and_then (pc_new_page w) (\<lambda>p. and_then (pc_with_mut w p ?f) (\<lambda>_. ok p)))
      (\<lambda>q d. let m' = m\<lparr>tm_cache := d, ht_depth := 0, current_roots := (current_roots m)\<lparr>handle_table_page := q\<rparr>\<rparr> in
        reached 1 m m' \<and> q \<noteq> PAGE_ID_NONE \<and> holds w K n m' (v\<lparr>v_ht := (q, 0)\<rparr>) P) (\<lambda>e d. failed w 1 m e (m\<lparr>tm_cache := d\<rparr>)) ?c"
  proof (rule wp_mono [OF new_init_wp [OF mgr_okD(1,2) [OF ok] ir f]], goal_cases)
    case (2 q d)
    then have q: "q = next_page_id ?c" and up: "updates w ?c [q \<mapsto> blank_body 1] d" and nx: "next_page_id d = next_page_id ?c + 1" and rw: "q \<notin> raw w d" by auto
    let ?m = "m\<lparr>tm_cache := d\<rparr>"
    have n1: "unat (next_page_id d) = unat (next_page_id ?c) + 1" using id_room_add(1) [of ?c 1 0 d] ir nx by simp
    have dom: "dom [q \<mapsto> blank_body 1] = {p. next_page_id ?c \<le> p \<and> p < next_page_id d}"
      using n1 by (auto simp: q word_le_nat_alt word_less_nat_alt word_unat_eq_iff)
    have ext: "extends w K {} {q} 1 m ?m"
      using appended_extends [OF up dom _ _ _ ok, of 1] up rw id_room_add(2) [of ?c 1 _ d] nx n1 updates_roomy [OF up, of 1] by (auto simp: updates_def)
    have hd: "holds w K n ?m v (P \<union> {q})" by (rule holds_extends [OF h ext]) simp_all
    have "q \<noteq> 0" using mgr_okD(3) [OF ok] q by auto
    moreover have "q \<in> used w ?m" using extends_used [OF ext] by auto
    moreover have "is_dirty d q" "body_at w d q = Some (blank_body 1)" using up by (auto simp: updates_def)
    ultimately have B: "bodies w ?m q = Some (blank_body 1)" using dirty_readable by (simp add: bodies_def page_store_def)
    note bl = ht_blank_page [where l = 0 and flag = 1 and B = "bodies w ?m", OF B _ \<open>q \<noteq> 0\<close>, simplified]
    have en: "ht_entry (bodies w ?m) 0 q k = tombstone" for k using bl(3) [of k] by (simp add: rt_entry_def)
    have qn: "q \<noteq> PAGE_ID_NONE" by (rule used_not_none) fact
    have "ht_at (bodies w ?m) (q, 0) Map.empty" using bl(1) en qn by (simp add: ht_at_def ht_ok_def ht_view_def fun_eq_iff)
    moreover have "v_table v = Map.empty" using holdsD(2) [OF h] at True by (simp add: ht_at_def)
    moreover have "accounted (ht_region (bodies w ?m) (v_ht v)) {q} (ht_region (bodies w ?m) (q, 0)) []"
      using at True qn by (simp add: ht_region_def accounted_def)
    ultimately have "holds w K n ?m (v\<lparr>v_ht := (q, 0), v_table := v_table v\<rparr>) (P \<union> {q} - {q} \<union> set [])" by (intro publish_ht [OF hd]) simp_all
    moreover have "P \<union> {q} - {q} \<union> set [] = P" using ext holdsD(9) [OF h] by (auto simp: extends_def)
    ultimately have "holds w K n ?m (v\<lparr>v_ht := (q, 0)\<rparr>) P" by simp
    moreover have "reached 1 m ?m" by (rule extends_reached [OF ext]) simp
    ultimately show ?case using qn by (simp add: Let_def reached_def)
  next
    case (3 e d)
    then show ?case by (rule fails_failed [OF _ mgr_okD(1) [OF ok]]) simp
  qed (use f in auto)
  note created = this
  show ?thesis
    unfolding ensure_handle_table_def wp_and_then wp_gets if_P [OF True] wp_on_field wp_modify
  proof (rule create_root_wp, goal_cases)
    case 1
    show ?case
      unfolding tree_ctx.simps by (rule wp_mono [OF created]) (auto simp: Let_def rest_def)
  qed
qed

section \<open>Giving a value up\<close>

abbreviation dropped :: "db_view \<Rightarrow> txn_manager \<Rightarrow> db_view" where
  "dropped v m \<equiv> v\<lparr>v_slots := current_live_slots (packer m), v_entries := (v_entries v)(None := None),
     v_chains := (v_chains v)(None := []), v_values := (v_values v)(None := None)\<rparr>"

text \<open>The value at hand, as the manager releases it: by its data page, or by the pages of its chain.\<close>

definition old_place :: "handle_entry \<Rightarrow> u64 list \<Rightarrow> old_release" where
  "old_place e ids = (if he_flags e = Live then Inline (he_page_id e) else Chain ids)"

lemma release_slot_holds:
  assumes h: "holds w K n m v P" and pk: "packs K m v" and S: "v_entries v None = Some e" and e: "he_flags e = Live"
    and m': "m' = release_data_slot (he_page_id e) m"
  shows "holds w K n m' (dropped v m') P" and "packs K m' (dropped v m')"
proof -
  let ?p = "he_page_id e"
  obtain r k where rk: "packer_release ?p (packer m) = (r, k)" by fastforce
  have ls: "v_slots v = current_live_slots (packer m)" using pk by (simp add: packs_def)
  note l = holdsD(4) [OF h, unfolded ls]
  have co: "counted (current_live_slots (packer m)) (v_entries v)" using l by (simp add: layout_def)
  note rc = packer_release_counted [OF co S e rk] and dl = layout_drop_slot [OF l S e rk]
  have C0: "v_chains v None = []" using layout_entry [OF l S] e by (auto simp: val_at_def)
  then have C: "(v_chains v)(None := []) = v_chains v" by (simp add: fun_upd_idem)
  have D: "dom (v_slots v) - dom (current_live_slots k) = set_option r" "dom (current_live_slots k) \<subseteq> dom (v_slots v)"
    using rc(2,3,5) unfolding ls by (auto simp: dom_def split: if_splits)
  let ?v = "v\<lparr>v_slots := current_live_slots k, v_entries := (v_entries v)(None := None), v_chains := v_chains v, v_values := (v_values v)(None := None)\<rparr>"
  have h1: "holds w K n m ?v (P \<union> set_option r)"
    using holds_release [OF h dl D(2)] D(1) by simp
  have pk': "packs K (m\<lparr>packer := k\<rparr>) ?v"
  proof -
    have "c \<in> dom (current_live_slots k) \<and> c \<notin> K" if c: "insert_cursor k = Some c" for c
    proof -
      have "insert_cursor (packer m) = Some c" using rc(6) c by auto
      then have "c \<in> dom (v_slots v)" "c \<notin> K" using pk by (auto simp: packs_def)
      moreover have "c \<notin> set_option r" using rc(3,4) c by (auto split: if_splits)
      ultimately show ?thesis using D(1) by blast
    qed
    then show ?thesis by (simp add: packs_def)
  qed
  have mm: "m' = (case r of None \<Rightarrow> m\<lparr>packer := k\<rparr> | Some i \<Rightarrow> m\<lparr>packer := k, txn_freed_pages := txn_freed_pages m @ [i]\<rparr>)"
    by (simp add: m' release_data_slot_def rk)
  have kk: "packer m' = k" by (simp add: mm split: option.splits)
  show "holds w K n m' (dropped v m') P"
  proof (cases r)
    case None
    then show ?thesis using h1 by (simp add: mm C)
  next
    case (Some i)
    have "i \<notin> P"
    proof -
      have "P \<inter> dom (v_slots v) = {}" using holdsD(6) [OF h] by (simp add: regions_def)
      then show ?thesis using D(1) Some by auto
    qed
    then have "P \<union> set_option r - set [i] = P" using Some by auto
    then have "holds w K n (m\<lparr>txn_freed_pages := txn_freed_pages m @ [i]\<rparr>) ?v P" using freed_holds [OF h1, of "[i]"] Some by simp
    moreover have "m' = (m\<lparr>txn_freed_pages := txn_freed_pages m @ [i]\<rparr>)\<lparr>packer := k\<rparr>" by (simp add: mm Some)
    ultimately show ?thesis using kk C by simp
  qed
  show "packs K m' (dropped v m')" using pk' by (simp add: packs_def kk C)
qed

lemma release_chain_holds:
  assumes h: "holds w K n m v P" and pk: "packs K m v" and S: "v_entries v None = Some e" and e: "he_flags e = OverflowValue"
    and m': "m' = m\<lparr>txn_freed_pages := txn_freed_pages m @ v_chains v None\<rparr>"
  shows "holds w K n m' (dropped v m') P" and "packs K m' (dropped v m')"
proof -
  note l = holdsD(4) [OF h] and dl = layout_drop_chain [OF holdsD(4) [OF h] S e]
  have d: "distinct (v_chains v None)" using layout_entry [OF l S] e by (auto simp: val_at_def)
  have "x \<notin> set (v_chains v (Some k))" if "x \<in> set (v_chains v None)" for x k
    using l that unfolding layout_def chains_apart_def by blast
  then have C: "chain_pages (v_chains v) - chain_pages ((v_chains v)(None := [])) = set (v_chains v None)" "chain_pages ((v_chains v)(None := [])) \<subseteq> chain_pages (v_chains v)"
    by (auto simp: chain_pages_def split: if_splits) metis
  have h1: "holds w K n m (v\<lparr>v_slots := v_slots v, v_entries := (v_entries v)(None := None), v_chains := (v_chains v)(None := []),
      v_values := (v_values v)(None := None)\<rparr>) (P \<union> set (v_chains v None))"
    using holds_release [OF h dl _ C(2)] C(1) by simp
  have "P \<inter> chain_pages (v_chains v) = {}" using holdsD(6) [OF h] by (simp add: regions_def)
  then have P: "P \<union> set (v_chains v None) - set (v_chains v None) = P" by (auto simp: chain_pages_def)
  have ls: "current_live_slots (packer m') = v_slots v" using pk by (simp add: packs_def m')
  show "holds w K n m' (dropped v m') P"
    using freed_holds [OF h1 _ d] unfolding P by (simp add: m' ls [unfolded m', simplified])
  show "packs K m' (dropped v m')" using pk by (auto simp: packs_def m')
qed

lemma release_old_holds:
  assumes h: "holds w K n m v P" and pk: "packs K m v" and S: "v_entries v None = Some e"
    and m': "m' = release_old (old_place e (v_chains v None)) m"
  shows "holds w K n m' (dropped v m') P" and "packs K m' (dropped v m')"
proof -
  have "he_flags e \<noteq> Deleted" using layout_entry [OF holdsD(4) [OF h] S] by (auto simp: val_at_def)
  then show "holds w K n m' (dropped v m') P" "packs K m' (dropped v m')"
    using release_slot_holds [OF h pk S, of m'] release_chain_holds [OF h pk S, of m'] m'
    by (cases "he_flags e"; simp add: release_old_def old_place_def)+
qed

lemma release_fields [simp]:
  "tm_cache (release_old r m) = tm_cache m" "base (release_old r m) = base m" "current_roots (release_old r m) = current_roots m"
  "ht_depth (release_old r m) = ht_depth m" "mi_depth (release_old r m) = mi_depth m" "savepoints (release_old r m) = savepoints m"
  "tm_cache (release_data_slot p m) = tm_cache m" "base (release_data_slot p m) = base m"
  by (auto simp: release_old_def release_data_slot_def base_def packer_release_def Let_def split: old_release.splits option.splits prod.splits)

end
