(* ===== verification/Txn_Data.thy ===== *)
theory Txn_Data
  imports Txn_Values
begin

text \<open>
  The data operations of the manager refine a map from handles to values with their tag and client
  byte. Each one either has the effect it should on the map and keeps the invariant, or fails for a
  reason of the environment and leaves what a rollback needs; with enough room and no faults it
  succeeds.
\<close>

section \<open>The invariant between operations\<close>

type_synonym db = "u64 \<rightharpoonup> u8 list \<times> u32 \<times> u8"

definition db_of :: "db_view \<Rightarrow> db" where
  "db_of v h = map_option (\<lambda>e. (the (v_values v (Some h)), he_tag e, he_client_byte e)) (v_table v h)"

definition tagged :: "(u64 \<rightharpoonup> handle_entry) \<Rightarrow> u32 \<Rightarrow> u64 set" where
  "tagged T tag = {h. \<exists>e. T h = Some e \<and> he_tag e = tag \<and> tag \<noteq> 0}"

definition rests :: "u64 set \<Rightarrow> txn_manager \<Rightarrow> db_view \<Rightarrow> bool" where
  "rests K m v \<longleftrightarrow> v_ht v = ht_loc m \<and> v_mi v = mi_loc m \<and> packs K m v \<and> v_entries v None = None \<and>
     (\<forall>h. v_table v h = v_entries v (Some h)) \<and> v_tags v = tagged (v_table v) \<and>
     (\<forall>h e. v_table v h = Some e \<longrightarrow> h < next_handle (current_roots m))"

definition mgr_inv :: "world \<Rightarrow> u64 set \<Rightarrow> nat \<Rightarrow> txn_manager \<Rightarrow> db \<Rightarrow> bool" where
  "mgr_inv w K n m D \<longleftrightarrow> active_txn m \<and> \<not> poisoned m \<and> (\<exists>v. holds w K n m v {} \<and> rests K m v \<and> db_of v = D)"

lemma mgr_inv_mono: "mgr_inv w K n m D \<Longrightarrow> k \<le> n \<Longrightarrow> mgr_inv w K k m D"
  using holds_mono by (fastforce simp: mgr_inv_def)

lemma restsD:
  assumes "rests K m v"
  shows "v_ht v = ht_loc m" and "v_mi v = mi_loc m" and "packs K m v" and "v_entries v None = None"
    and "v_table v h = v_entries v (Some h)" and "v_tags v = tagged (v_table v)" and "v_table v h = Some e \<Longrightarrow> h < next_handle (current_roots m)"
  using assms by (auto simp: rests_def)

lemma quiet_rests: "rests K m v \<Longrightarrow> rests K (m\<lparr>tm_cache := d\<rparr>) v"
  by (auto simp: rests_def packs_def)

lemma quiet_inv:
  assumes "mgr_inv w K n m D" and "quiet w (tm_cache m) d"
  shows "mgr_inv w K n (m\<lparr>tm_cache := d\<rparr>) D"
  using assms quiet_holds [of w K n m _ "{}" d] quiet_rests by (fastforce simp: mgr_inv_def)

section \<open>Moving values between handles and the hand\<close>

lemma chain_pages_swap: "chain_pages (swap h C) = chain_pages C"
proof (rule set_eqI)
  fix x
  have eq: "x \<in> chain_pages f \<longleftrightarrow> x \<in> set (f None) \<or> x \<in> set (f (Some h)) \<or> (\<exists>k. k \<noteq> None \<and> k \<noteq> Some h \<and> x \<in> set (f k))" for f
    unfolding chain_pages_def UN_iff by (metis UNIV_I)
  have "(\<exists>k. k \<noteq> None \<and> k \<noteq> Some h \<and> x \<in> set (swap h C k)) \<longleftrightarrow> (\<exists>k. k \<noteq> None \<and> k \<noteq> Some h \<and> x \<in> set (C k))" by (rule ex_cong1) auto
  then show "x \<in> chain_pages (swap h C) \<longleftrightarrow> x \<in> chain_pages C" unfolding eq [of "swap h C"] eq [of C] by (simp add: disj_left_commute)
qed

abbreviation swapped :: "u64 \<Rightarrow> db_view \<Rightarrow> db_view" where
  "swapped h v \<equiv> v\<lparr>v_entries := swap h (v_entries v), v_chains := swap h (v_chains v), v_values := swap h (v_values v)\<rparr>"

lemma holds_swap:
  assumes "holds w K n m v P"
  shows "holds w K n m (swapped h v) P"
  using assms layout_swap [OF holdsD(4) [OF assms], of h] unfolding holds_def regions_def by (simp add: chain_pages_swap)

lemma packs_swap [simp]: "packs K m (swapped h v) = packs K m v" "packs K m (v\<lparr>v_ht := a\<rparr>) = packs K m v" "packs K m (v\<lparr>v_table := T\<rparr>) = packs K m v"
  "packs K m (v\<lparr>v_mi := a\<rparr>) = packs K m v" "packs K m (v\<lparr>v_tags := G\<rparr>) = packs K m v"
  by (simp_all add: packs_def)

text \<open>Publishing new roots of both indexes and retiring the pages they supersede.\<close>

lemma retire_disjoint:
  assumes "accounted H F H' fs" and "H \<inter> P = {}" and "F \<subseteq> P"
  shows "P - F \<union> set fs - set fs = P - F" and "distinct fs" and "set fs \<subseteq> P - F \<union> set fs"
  using assms by (auto simp: accounted_def)

lemma publish_ht_retire:
  assumes h: "holds w K n m v P" and at: "ht_at (bodies w m) (q, ht_depth m) T"
    and acc: "accounted (ht_region (bodies w m) (v_ht v)) F (ht_region (bodies w m) (q, ht_depth m)) fs" "F \<subseteq> P"
    and m': "m' = retire_superseded fs (set_ht_root q m)"
  shows "holds w K n m' (v\<lparr>v_ht := ht_loc m', v_table := T\<rparr>) (P - F)"
proof -
  have "ht_region (bodies w m) (v_ht v) \<inter> P = {}" using holdsD(6) [OF h] by (simp add: regions_def Int_commute)
  note rd = retire_disjoint [OF acc(1) this acc(2)]
  have "holds w K n (set_ht_root q m) (v\<lparr>v_ht := (q, ht_depth m), v_table := T\<rparr>) (P - F \<union> set fs)"
    using publish_ht [OF h at acc] by simp
  from retire_holds [OF this rd(3,2)] show ?thesis unfolding rd(1) by (simp add: m')
qed

text \<open>Both candidates published in the view: what the roots supersede is on hand.\<close>

lemma publish_views:
  assumes h: "holds w K n m v P" and at: "ht_at (bodies w m) (q, ht_depth m) T"
    and acc: "accounted (ht_region (bodies w m) (v_ht v)) F (ht_region (bodies w m) (q, ht_depth m)) fs" "F \<subseteq> P"
    and at': "mi_at (bodies w m) (q', mi_depth m) G"
    and acc': "accounted (mi_region (bodies w m) (v_mi v)) F' (mi_region (bodies w m) (q', mi_depth m)) fs'" "F' \<subseteq> P" "F \<inter> F' = {}"
  shows "\<exists>X. holds w K n m (v\<lparr>v_ht := (q, ht_depth m), v_table := T, v_mi := (q', mi_depth m), v_tags := G\<rparr>) X \<and>
      set fs \<subseteq> X \<and> set fs' \<subseteq> X - set fs \<and> P - F - F' \<subseteq> X - set fs - set fs'" and "distinct fs" and "distinct fs'"
proof -
  let ?H = "ht_region (bodies w m) (v_ht v)" and ?I = "mi_region (bodies w m) (v_mi v)"
  have ap: "?H \<inter> P = {}" "?I \<inter> P = {}" "?H \<inter> ?I = {}" using holdsD(6) [OF h] by (simp_all add: regions_def Int_commute)
  have sub: "set fs \<subseteq> ?H \<union> F" "set fs' \<subseteq> ?I \<union> F'" "distinct fs" "distinct fs'" using acc acc' by (auto simp: accounted_def)
  have "holds w K n m (v\<lparr>v_ht := (q, ht_depth m), v_table := T\<rparr>) (P - F \<union> set fs)" by (rule publish_ht [OF h at acc])
  then have "holds w K n m (v\<lparr>v_ht := (q, ht_depth m), v_table := T, v_mi := (q', mi_depth m), v_tags := G\<rparr>) (P - F \<union> set fs - F' \<union> set fs')"
    using publish_mi [of w K n m _ _ "(q', mi_depth m)" G F' fs'] at' acc' by fastforce
  moreover have "set fs \<subseteq> P - F \<union> set fs - F' \<union> set fs'" "set fs' \<subseteq> P - F \<union> set fs - F' \<union> set fs' - set fs"
    "P - F - F' \<subseteq> P - F \<union> set fs - F' \<union> set fs' - set fs - set fs'" using sub ap acc acc' by blast+
  ultimately show "\<exists>X. holds w K n m (v\<lparr>v_ht := (q, ht_depth m), v_table := T, v_mi := (q', mi_depth m), v_tags := G\<rparr>) X \<and>
      set fs \<subseteq> X \<and> set fs' \<subseteq> X - set fs \<and> P - F - F' \<subseteq> X - set fs - set fs'" by blast
  show "distinct fs" "distinct fs'" by fact+
qed

lemma publish_both:
  assumes "holds w K n m v P" and "ht_at (bodies w m) (q, ht_depth m) T"
    and "accounted (ht_region (bodies w m) (v_ht v)) F (ht_region (bodies w m) (q, ht_depth m)) fs" "F \<subseteq> P"
    and "mi_at (bodies w m) (q', mi_depth m) G"
    and "accounted (mi_region (bodies w m) (v_mi v)) F' (mi_region (bodies w m) (q', mi_depth m)) fs'" "F' \<subseteq> P" "F \<inter> F' = {}"
    and m1: "m1 = retire_superseded fs (set_ht_root q m)" and m': "m' = retire_superseded fs' (set_mi_root q' m1)"
  shows "holds w K n m' (v\<lparr>v_ht := ht_loc m', v_table := T, v_mi := mi_loc m', v_tags := G\<rparr>) (P - F - F')"
proof -
  note pv = publish_views [OF assms(1-8)]
  let ?v = "v\<lparr>v_ht := (q, ht_depth m), v_table := T, v_mi := (q', mi_depth m), v_tags := G\<rparr>"
  obtain X where X: "holds w K n m ?v X" "set fs \<subseteq> X" "set fs' \<subseteq> X - set fs" "P - F - F' \<subseteq> X - set fs - set fs'" using pv(1) by blast
  have "holds w K n (set_ht_root q m) ?v X" using X(1) by simp
  then have "holds w K n (set_mi_root q' m1) ?v (X - set fs)" using retire_holds [OF _ X(2) pv(2)] by (simp add: m1)
  then have "holds w K n m' ?v (X - set fs - set fs')" unfolding m' by (rule retire_holds [OF _ X(3) pv(3)])
  then show ?thesis using holds_fewer [OF _ X(4)] by (simp add: m' m1)
qed

lemma next_handle_after_Inr: "next_handle_after h = Inr n \<Longrightarrow> unat n = Suc (unat h)"
  using next_txn_counter_Inr(1) [of h n]
  by (simp add: next_handle_after_def next_txn_counter_def MAX_NEXT_HANDLE_def MAX_TXN_COUNTER_def
        HANDLE_ID_RESERVE_def TXN_COUNTER_RESERVE_def Let_def split: if_splits)

section \<open>Allocating\<close>

lemma tagged_add: "T h = None \<Longrightarrow> he_tag e \<noteq> 0 \<Longrightarrow> tagged (T(h \<mapsto> e)) = (tagged T)(he_tag e := insert h (tagged T (he_tag e)))"
  by (auto simp: tagged_def fun_eq_iff)

lemma tagged_add_zero: "T h = None \<Longrightarrow> he_tag e = 0 \<Longrightarrow> tagged (T(h \<mapsto> e)) = tagged T"
  by (auto simp: tagged_def fun_eq_iff)

text \<open>The view once a new handle is published.\<close>

abbreviation added :: "db_view \<Rightarrow> u64 \<Rightarrow> handle_entry \<Rightarrow> u64 list \<Rightarrow> u8 list \<Rightarrow> txn_manager \<Rightarrow> db_view" where
  "added v h e ids val m \<equiv> swapped h ((placed v e ids val m)\<lparr>v_ht := ht_loc m, v_table := (v_table v)(h \<mapsto> e), v_mi := mi_loc m,
     v_tags := tagged ((v_table v)(h \<mapsto> e))\<rparr>)"

lemma rests_added:
  assumes r: "rests K m v" and T: "v_table v h = None" and pk: "packs K m' (placed v e ids val m')"
    and h: "h < next_handle (current_roots m')" "next_handle (current_roots m) \<le> next_handle (current_roots m')"
  shows "rests K m' (added v h e ids val m')" and "db_of (added v h e ids val m') = (db_of v)(h \<mapsto> (val, he_tag e, he_client_byte e))"
proof -
  have S: "v_entries v (Some h) = None" using restsD(5) [OF r, of h] T by simp
  have "h' < next_handle (current_roots m')" if "((v_table v)(h \<mapsto> e)) h' = Some x" for h' x
    using that h restsD(7) [OF r, of h' x] by (auto split: if_splits)
  then show "rests K m' (added v h e ids val m')"
    using restsD(5) [OF r] S pk by (auto simp: rests_def packs_def)
  show "db_of (added v h e ids val m') = (db_of v)(h \<mapsto> (val, he_tag e, he_client_byte e))"
    by (auto simp: db_of_def fun_eq_iff)
qed

lemma undo_wp:
  assumes "wp a Q (\<lambda>e m'. failed w j m e m' \<and> E e m') m" and "\<And>s. tm_cache (f s) = tm_cache s \<and> base (f s) = base s"
  shows "wp (undo_with a f) Q (failed w j m) m"
  unfolding wp_or_else wp_and_then wp_modify wp_err
  by (rule wp_mono [OF assms(1)]) (use assms(2) in \<open>auto simp: failed_def\<close>)

lemma abort_fields: "tm_cache (abort_allocate_prepare r d i s) = tm_cache s \<and> base (abort_allocate_prepare r d i s) = base s"
  by (auto simp: abort_allocate_prepare_def Let_def split: option.splits)

lemma ht_at_later:
  assumes h: "holds w K n m v P" and at: "ht_at (bodies w m) r T" and same: "\<And>p. p \<in> used w m \<Longrightarrow> bodies w m' p = bodies w m p"
  shows "ht_at (bodies w m') r T" and "ht_region (bodies w m') r = ht_region (bodies w m) r" and "ht_region (bodies w m') (v_ht v) = ht_region (bodies w m) (v_ht v)"
proof -
  have "bodies w m' q = bodies w m q" if "ht_at (bodies w m) x X" "q \<in> ht_region (bodies w m) x" for q x X
    using same bodies_used ht_region_dom [OF that] by blast
  then show "ht_at (bodies w m') r T" "ht_region (bodies w m') r = ht_region (bodies w m) r" "ht_region (bodies w m') (v_ht v) = ht_region (bodies w m) (v_ht v)"
    using ht_frame [where B = "bodies w m" and B' = "bodies w m'"] at holdsD(2) [OF h] by blast+
qed

text \<open>The index candidate of \<open>allocate\<close>: built only for a tag other than zero.\<close>

lemma allocate_index_wp:
  assumes h: "holds w K (40 + n) m v P" and at: "v_mi v = mi_loc m" and f: "\<And>s. tm_cache (f s) = tm_cache s \<and> base (f s) = base s"
  shows "wp (if tag \<noteq> 0 then and_then (undo_with (membership_insert_candidate w tag handle) f) (\<lambda>r. ok (Some r)) else ok None)
    (\<lambda>mi m'. reached 40 m m' \<and> (case mi of
        None \<Rightarrow> tag = 0 \<and> holds w K n m v P \<and> m' = m
      | Some (q, fs) \<Rightarrow> tag \<noteq> 0 \<and> mi_built w K n m v P ((v_tags v)(tag := insert handle (v_tags v tag))) q fs m'))
    (failed w 40 m) m"
proof (cases "tag = 0")
  case True
  then show ?thesis using reached_mono [of 0 m m 40] holds_mono [OF h, of n] by (simp add: wp_simps)
next
  case False
  have "wp (undo_with (membership_insert_candidate w tag handle) f)
      (\<lambda>(q, fs) m'. reached 40 m m' \<and> mi_built w K n m v P ((v_tags v)(tag := insert handle (v_tags v tag))) q fs m') (failed w 40 m) m"
    by (rule undo_wp [OF mi_insert_candidate_wp [OF h at] f])
  then show ?thesis
    using False unfolding wp_and_then if_P [of "tag \<noteq> 0"] by (auto simp: wp_simps elim!: wp_mono)
qed

abbreviation set_next :: "u64 \<Rightarrow> txn_manager \<Rightarrow> txn_manager" where
  "set_next h m \<equiv> m\<lparr>current_roots := (current_roots m)\<lparr>next_handle := h\<rparr>\<rparr>"

lemma allocate_published:
  assumes h3: "holds w K (40 + n) m3 v2 F" and at3: "ht_at (bodies w m3) (q, ht_depth m3) T"
    and acc3: "accounted (ht_region (bodies w m3) (v_ht v2)) F (ht_region (bodies w m3) (q, ht_depth m3)) fs"
    and mi: "case mi of None \<Rightarrow> tag = 0 \<and> holds w K n m3 v2 F \<and> m4 = m3
      | Some (q', fs') \<Rightarrow> tag \<noteq> 0 \<and> mi_built w K n m3 v2 F ((v_tags v2)(tag := insert handle (v_tags v2 tag))) q' fs' m4"
    and at2: "v_mi v2 = mi_loc m3"
    and m5: "m5 = retire_superseded fs (set_ht_root q (set_next next m4))"
    and m': "m' = (case mi of None \<Rightarrow> m5 | Some (q', fs') \<Rightarrow> retire_superseded fs' (set_mi_root q' m5))"
  shows "holds w K n m' (v2\<lparr>v_ht := ht_loc m', v_table := T, v_mi := mi_loc m',
    v_tags := (if tag = 0 then v_tags v2 else (v_tags v2)(tag := insert handle (v_tags v2 tag)))\<rparr>) {}"
proof (cases mi)
  case None
  have h4: "holds w K n (set_next next m4) v2 F" and m4: "m4 = m3" "tag = 0" using mi None by simp_all
  note ph = publish_ht_retire [OF h4 _ _ order_refl, of q T fs m5]
  have "holds w K n m5 (v2\<lparr>v_ht := ht_loc m5, v_table := T\<rparr>) (F - F)" by (rule ph) (use at3 acc3 m4 m5 in simp_all)
  moreover have "mi_loc m5 = v_mi v2" using at2 by (simp add: m5 m4)
  ultimately show ?thesis using None m4 by (simp add: m')
next
  case (Some x)
  obtain q' fs' where x: "x = (q', fs')" by (cases x)
  let ?G = "(v_tags v2)(tag := insert handle (v_tags v2 tag))"
  have tg: "tag \<noteq> 0" and mb: "mi_built w K n m3 v2 F ?G q' fs' m4" using mi Some x by simp_all
  obtain F' where h4: "holds w K n m4 v2 (F \<union> F')" and dis: "F' \<inter> F = {}" and ma: "mi_at (bodies w m4) (q', mi_depth m4) ?G"
    and acc': "accounted (mi_region (bodies w m4) (v_mi v2)) F' (mi_region (bodies w m4) (q', mi_depth m4)) fs'"
    and same: "\<forall>p \<in> used w m3. bodies w m4 p = bodies w m3 p" and loc: "ht_loc m4 = ht_loc m3"
    using mb unfolding mi_built_def by blast
  have d: "ht_depth m4 = ht_depth m3" using loc by simp
  note lt = ht_at_later [OF h3 at3 same [rule_format]]
  have "holds w K n m' (v2\<lparr>v_ht := ht_loc m', v_table := T, v_mi := mi_loc m', v_tags := ?G\<rparr>) (F \<union> F' - F - F')"
    by (rule publish_both [where m = "set_next next m4" and q = q and q' = q' and fs = fs and fs' = fs' and F = F and F' = F'])
      (use h4 lt acc3 ma acc' dis d m5 m' Some x in auto)
  moreover have "F \<union> F' - F - F' = {}" by blast
  ultimately show ?thesis using tg by simp
qed

lemma allocated_inv:
  assumes r: "rests K m v" and T: "v_table v h = None" and act: "active_txn m" "\<not> poisoned m" and pk: "packs K m1 (placed v e ids val m1)"
    and v2: "v2 = (placed v e ids val m1)\<lparr>v_ht := l2\<rparr>" and e: "he_tag e = tag" and hn: "h < next" "next_handle (current_roots m) \<le> next"
    and h': "holds w K n m' (v2\<lparr>v_ht := ht_loc m', v_table := (v_table v)(h \<mapsto> e), v_mi := mi_loc m',
      v_tags := (if tag = 0 then v_tags v2 else (v_tags v2)(tag := insert h (v_tags v2 tag)))\<rparr>) {}"
    and s: "packer m' = packer m1" "next_handle (current_roots m') = next" "base m' = base m"
  shows "mgr_inv w K n m' ((db_of v)(h \<mapsto> (val, tag, he_client_byte e)))"
proof -
  have tg: "(if tag = 0 then v_tags v2 else (v_tags v2)(tag := insert h (v_tags v2 tag))) = tagged ((v_table v)(h \<mapsto> e))"
    using T restsD(6) [OF r] tagged_add [of "v_table v" h e] tagged_add_zero [of "v_table v" h e] e by (simp add: v2)
  have pl: "placed v e ids val m' = placed v e ids val m1" "packs K m' (placed v e ids val m')" using pk s(1) by (simp_all add: packs_def)
  have h1: "holds w K n m' ((placed v e ids val m')\<lparr>v_ht := ht_loc m', v_table := (v_table v)(h \<mapsto> e), v_mi := mi_loc m',
      v_tags := tagged ((v_table v)(h \<mapsto> e))\<rparr>) {}" using h' [unfolded tg] unfolding pl(1) by (simp add: v2)
  have "holds w K n m' (added v h e ids val m') {}" using holds_swap [OF h1, of h] by simp
  moreover have "rests K m' (added v h e ids val m')" "db_of (added v h e ids val m') = (db_of v)(h \<mapsto> (val, he_tag e, he_client_byte e))"
    by (rule rests_added [OF r T pl(2)]; use s(2) hn in simp)+
  ultimately show ?thesis using act base_fields(2,4) [OF s(3)] e unfolding mgr_inv_def by auto
qed

lemma allocate_inner_wp:
  assumes inv: "mgr_inv w K (place_cost val + (1 + (19 + (40 + n)))) m D" and len: "length val < 2 ^ 64"
  defines "h \<equiv> next_handle (current_roots m)"
  shows "wp (allocate_inner w val tag)
    (\<lambda>r m'. r = h \<and> D h = None \<and> next_handle_after h = Inr (next_handle (current_roots m')) \<and> mgr_inv w K n m' (D(h \<mapsto> (val, tag, 0))) \<and> reached (place_cost val + (1 + (19 + 40))) m m')
    (\<lambda>e m'. failed w (place_cost val + (1 + (19 + 40))) m e m' \<or> next_handle_after h = Inl e \<and> m' = m) m"
proof -
  obtain v where act: "active_txn m" "\<not> poisoned m" and hd: "holds w K (place_cost val + (1 + (19 + (40 + n)))) m v {}" and r: "rests K m v" and D: "db_of v = D"
    using inv by (auto simp: mgr_inv_def)
  show ?thesis
  proof (cases "next_handle_after h")
    case (Inl e)
    then show ?thesis
      using act by (simp add: allocate_inner_def wp_simps of_result_def h_def)
  next
    case (Inr hn)
    have T: "v_table v h = None" using restsD(7) [OF r, of h] by (cases "v_table v h") (auto simp: h_def)
    have nh: "h < hn" using next_handle_after_Inr [OF Inr] by (simp add: word_less_nat_alt)
    have "wp (allocate_inner w val tag)
      (\<lambda>r m'. r = h \<and> D h = None \<and> next_handle_after h = Inr (next_handle (current_roots m')) \<and> mgr_inv w K n m' (D(h \<mapsto> (val, tag, 0))) \<and> reached (place_cost val + (1 + (19 + 40))) m m')
      (failed w (place_cost val + (1 + (19 + 40))) m) m"
      (is "wp _ ?R _ m")
    proof (simp only: allocate_inner_def wp_gets_then act(1) not_True_eq_False if_False h_def [symmetric] of_result_def Inr sum.case wp_ok_then, rule seq_wp [OF place_value_wp [OF hd restsD(4,3) [OF r] len]], goal_cases)
      case (1 x m1)
      then obtain e ip ids where x: "x = (e, ip)" and r1: "reached (place_cost val) m m1" "same_index m m1" and e: "he_tag e = tag" "he_client_byte e = 0" "he_flags e \<noteq> Deleted"
        and h1: "holds w K (1 + (19 + (40 + n))) m1 (placed v e ids val m1) {}" "packs K m1 (placed v e ids val m1)" by (cases x) auto
      have l1: "v_ht (placed v e ids val m1) = ht_loc m1" using r1(2) restsD(1) [OF r] by (simp add: same_index_def)
      show ?case
        unfolding x case_prod_conv wp_gets_then
      proof (rule conjI [OF r1(1)], rule seq_wp [OF ensure_handle_table_wp [OF h1(1) l1]], goal_cases)
        case (1 u m2)
        let ?v2 = "(placed v e ids val m1)\<lparr>v_ht := ht_loc m2\<rparr>"
        have r2: "reached 1 m1 m2" and n2: "handle_table_page (current_roots m2) \<noteq> PAGE_ID_NONE" and h2: "holds w K (19 + (40 + n)) m2 ?v2 {}"
          and s2: "rest m2 = rest m1" "packer m2 = packer m1" "mi_loc m2 = mi_loc m1" using 1 by auto
        have l2: "v_ht ?v2 = ht_loc m2" by simp
        note cand = undo_wp [OF ht_insert_candidate_wp [OF h2 l2 n2 e(3), of h] abort_fields]
        show ?case
        proof (rule conjI [OF r2], rule seq_wp [OF cand], goal_cases)
          case (1 y m3)
          then obtain q fs F where y: "y = (q, fs)" and r3: "reached 19 m2 m3" and h3: "holds w K (40 + n) m3 ?v2 F"
            and at3: "ht_at (bodies w m3) (q, ht_depth m3) ((v_table v)(h \<mapsto> e))"
            and acc3: "accounted (ht_region (bodies w m3) (v_ht ?v2)) F (ht_region (bodies w m3) (q, ht_depth m3)) fs"
            and s3: "rest m3 = rest m2" "packer m3 = packer m2" "mi_loc m3 = mi_loc m2" by (cases y) (auto simp: ht_built_def)
          have l3: "v_mi ?v2 = mi_loc m3" using restsD(2) [OF r] r1(2) s2 s3 by (simp add: same_index_def)
          show ?case
            unfolding y case_prod_conv
          proof (rule conjI [OF r3], subst wp_and_then, rule wp_mono [OF allocate_index_wp [OF h3 l3 abort_fields]], goal_cases)
            case (1 mi m4)
            then have r4: "reached 40 m3 m4" and mi: "case mi of None \<Rightarrow> tag = 0 \<and> holds w K n m3 ?v2 F \<and> m4 = m3
              | Some (q', fs') \<Rightarrow> tag \<noteq> 0 \<and> mi_built w K n m3 ?v2 F ((v_tags ?v2)(tag := insert h (v_tags ?v2 tag))) q' fs' m4" by auto
            have s4: "packer m4 = packer m3" using mi by (auto simp: mi_built_def split: option.splits prod.splits)
            have rr: "reached (place_cost val + (1 + (19 + 40))) m m4" by (rule reached_trans [OF r1(1) reached_trans [OF r2 reached_trans [OF r3 r4]]])
            then have b: "base m4 = base m" by (simp add: reached_def)
            define m5 where "m5 = retire_superseded fs (set_ht_root q (set_next hn m4))"
            define m' where "m' = (case mi of None \<Rightarrow> m5 | Some (q', fs') \<Rightarrow> retire_superseded fs' (set_mi_root q' m5))"
            have fin: "packer m' = packer m1" "next_handle (current_roots m') = hn" "base m' = base m" "tm_cache m' = tm_cache m4"
              using s2 s3 s4 b by (auto simp: m'_def m5_def split: option.splits)
            have "mgr_inv w K n m' ((db_of v)(h \<mapsto> (val, tag, he_client_byte e)))"
              by (rule allocated_inv [OF r T act h1(2) refl e(1) nh _ allocate_published [OF h3 at3 acc3 mi l3 m5_def m'_def] fin(1-3)])
                (use nh in \<open>simp add: h_def\<close>)
            moreover have "reached (place_cost val + (1 + (19 + 40))) m m'" using rr fin(3,4) by (simp add: reached_def b)
            moreover have "D h = None" using T D by (auto simp: db_of_def)
            ultimately have R: "?R h m'" using D e(2) Inr fin(2) by simp
            show ?case
              using R unfolding m'_def m5_def by (cases mi) (auto simp: wp_simps)
          qed
        qed
      qed
    qed
    then show ?thesis by (rule wp_mono) simp_all
  qed
qed

end
