(* ===== verification/Txn_Update.thy ===== *)
theory Txn_Update
  imports Txn_Data
begin

text \<open>
  Reading, updating and deleting through the manager, over the same invariant as allocating: a read
  returns what the map has, an update and a deletion change it at one handle, and an unknown handle is
  reported with everything left as it was.
\<close>

section \<open>Where the values are\<close>

lemma card_below:
  assumes "\<And>p :: u64. p \<in> A \<Longrightarrow> p < n"
  shows "card A \<le> unat n"
proof -
  have "card (unat ` A) \<le> card {..< unat n}" using assms by (intro card_mono) (auto simp: word_less_nat_alt)
  moreover have "card (unat ` A) = card A" by (rule card_image) (simp add: inj_on_def word_unat_eq_iff)
  ultimately show ?thesis by simp
qed

lemma value_chain_at:
  assumes h: "holds w K n m v P" and S: "v_entries v k = Some e" and f: "he_flags e = OverflowValue"
  shows "\<exists>val. v_values v k = Some val \<and> chain_at w (tm_cache m) (he_page_id e) (v_chains v k) val"
proof -
  obtain val where V: "v_values v k = Some val" and va: "val_at (bodies w m) e (v_chains v k) val"
    using layout_entry [OF holdsD(4) [OF h] S] by blast
  have ids: "v_chains v k \<noteq> []" "hd (v_chains v k) = he_page_id e" "distinct (v_chains v k)"
    and ch: "chain (bodies w m) (length val) (v_chains v k) val" and len: "length val < 2 ^ 64"
    using va f unfolding val_at_def by simp_all
  have B: "q \<in> used w m \<and> readable w (tm_cache m) q \<and> bodies w m q = body_at w (tm_cache m) q" if q: "q \<in> set (v_chains v k)" for q
  proof -
    obtain b where "bodies w m q = Some b" using chain_dom [OF ch q] by blast
    then show ?thesis unfolding bodies_def page_store_def by (metis option.discI)
  qed
  have ch': "chain (body_at w (tm_cache m)) (length val) (v_chains v k) val" by (rule chain_mono [OF ch]) (use B in simp)
  have "card (set (v_chains v k)) \<le> unat (next_page_id (tm_cache m))" by (rule card_below) (use B used_below in blast)
  then have "div_ceil (length val) 8152 \<le> unat (next_page_id (tm_cache m))" using ids(3) chain_length [OF ch] by (simp add: distinct_card)
  then have "length val \<le> unat (next_page_id (tm_cache m)) * 8152" by (auto simp: div_ceil_def)
  then show ?thesis using V ids ch' len B by (auto simp: chain_at_def)
qed

lemma live_flags: "holds w K n m v P \<Longrightarrow> v_entries v k = Some e \<Longrightarrow> he_flags e \<noteq> Deleted"
  using layout_entry [OF holdsD(4)] by (fastforce simp: val_at_def)

lemma collect_old_wp:
  assumes h: "holds w K n m v P" and S: "v_entries v k = Some e" and f: "he_flags e = OverflowValue"
  shows "wp (on_tm_cache (collect_chain_pages w (he_page_id e)))
    (\<lambda>r m'. r = v_chains v k \<and> (\<exists>d. quiet w (tm_cache m) d \<and> m' = m\<lparr>tm_cache := d\<rparr>)) (failed w 0 m) m"
proof -
  note ok = holdsD(1) [OF h]
  obtain val where c: "chain_at w (tm_cache m) (he_page_id e) (v_chains v k) val" using value_chain_at [OF assms] by blast
  show ?thesis
    by (rule quiet_op_wp [OF ok], rule wp_mono [OF collect_chain_pages_wp [OF mgr_okD(1,2) [OF ok] c]]) (simp_all add: loop_fails_def)
qed

lemma lookup_some_wp:
  assumes "holds w K n m v P" and "v_ht v = ht_loc m" and "active_txn m" and "v_table v handle = Some e"
  shows "wp (lookup_live w handle) (\<lambda>r m'. r = e \<and> (\<exists>d. quiet w (tm_cache m) d \<and> m' = m\<lparr>tm_cache := d\<rparr>)) (failed w 0 m) m"
  by (rule wp_mono [OF lookup_live_wp [OF assms(1-3)]]) (use assms(4) in auto)

lemma lookup_none_wp:
  assumes "holds w K n m v P" and "v_ht v = ht_loc m" and "active_txn m" and "v_table v handle = None"
  shows "wp (lookup_live w handle) (\<lambda>_ _. False)
    (\<lambda>x m'. failed w 0 m x m' \<or> x = InvalidHandle handle \<and> (\<exists>d. quiet w (tm_cache m) d \<and> m' = m\<lparr>tm_cache := d\<rparr>)) m"
  by (rule wp_mono [OF lookup_live_wp [OF assms(1-3)]]) (use assms(4) in auto)

section \<open>Updating\<close>

lemma tagged_same: "T h = Some e \<Longrightarrow> he_tag e' = he_tag e \<Longrightarrow> tagged (T(h \<mapsto> e')) = tagged T"
  by (auto simp: tagged_def fun_eq_iff)

lemma replaced_inv:
  assumes r: "rests K m v" and T: "v_table v h = Some e" and act: "active_txn m" "\<not> poisoned m" and pk: "packs K m1 (placed v e' ids val m1)"
    and e': "he_tag e' = he_tag e"
    and h': "holds w K n m5 ((placed v e' ids val m1)\<lparr>v_ht := ht_loc m5, v_table := (v_table v)(h \<mapsto> e')\<rparr>) {}" (is "holds _ _ _ _ ?v1 _")
    and s: "packer m5 = packer m1" "mi_loc m5 = mi_loc m" "next_handle (current_roots m5) = next_handle (current_roots m)" "base m5 = base m"
    and m': "m' = release_old (old_place e (v_chains v (Some h))) m5"
  shows "mgr_inv w K n m' ((db_of v)(h \<mapsto> (val, he_tag e, he_client_byte e')))"
proof -
  have E: "v_entries v (Some h) = Some e" using restsD(5) [OF r, of h] T by simp
  have pk5: "packs K m5 (swapped h ?v1)" using pk s(1) by (simp add: packs_def)
  have rel: "holds w K n m' (dropped (swapped h ?v1) m') {}" "packs K m' (dropped (swapped h ?v1) m')"
    by (rule release_old_holds [OF holds_swap [OF h'] pk5, of e]; use E m' in simp)+
  have "rests K m' (dropped (swapped h ?v1) m')"
    using rel(2) restsD(5,6,7,2) [OF r] s(2,3) tagged_same [of "v_table v" h e e'] T e' by (auto simp: rests_def m' split: if_splits)
  moreover have "db_of (dropped (swapped h ?v1) m') = (db_of v)(h \<mapsto> (val, he_tag e, he_client_byte e'))"
    using e' by (auto simp: db_of_def fun_eq_iff)
  moreover have "active_txn m'" "\<not> poisoned m'" using act s(4) base_fields(2,4) [of m' m] by (simp_all add: m')
  ultimately show ?thesis using rel(1) unfolding mgr_inv_def by blast
qed

lemma quiet_now: "holds w K n m v P \<Longrightarrow> \<exists>d. quiet w (tm_cache m) d \<and> m = m\<lparr>tm_cache := d\<rparr>"
  using quiet_refl [OF mgr_okD(1) [OF holdsD(1)]] by (intro exI [of _ "tm_cache m"]) simp

text \<open>What the old entry held, read before anything is published.\<close>

lemma delete_old_wp:
  assumes h: "holds w K n m v P" and S: "v_entries v k = Some e"
  shows "wp (case he_flags e of
          Live \<Rightarrow> ok (Inline (he_page_id e))
        | OverflowValue \<Rightarrow> and_then (on_tm_cache (collect_chain_pages w (he_page_id e))) (\<lambda>freed. ok (Chain freed))
        | Deleted \<Rightarrow> err (CorruptPage (he_page_id e)))
    (\<lambda>r m'. r = old_place e (v_chains v k) \<and> (\<exists>d. quiet w (tm_cache m) d \<and> m' = m\<lparr>tm_cache := d\<rparr>)) (failed w 0 m) m"
  using live_flags [OF h S] quiet_now [OF h] collect_old_wp [OF h S]
  by (cases "he_flags e") (auto simp: wp_simps old_place_def elim!: wp_mono)

lemma update_old_wp:
  assumes h: "holds w K n m v P" and S: "v_entries v k = Some e" and f: "\<And>s. tm_cache (f s) = tm_cache s \<and> base (f s) = base s"
  shows "wp (case he_flags e of
          Live \<Rightarrow> ok (Inline (he_page_id e))
        | OverflowValue \<Rightarrow> and_then (undo_with (on_tm_cache (collect_chain_pages w (he_page_id e))) f) (\<lambda>freed. ok (Chain freed))
        | Deleted \<Rightarrow> err (CorruptPage (he_page_id e)))
    (\<lambda>r m'. r = old_place e (v_chains v k) \<and> (\<exists>d. quiet w (tm_cache m) d \<and> m' = m\<lparr>tm_cache := d\<rparr>)) (failed w 0 m) m"
proof (cases "he_flags e")
  case OverflowValue
  have "wp (undo_with (on_tm_cache (collect_chain_pages w (he_page_id e))) f)
      (\<lambda>r m'. r = v_chains v k \<and> (\<exists>d. quiet w (tm_cache m) d \<and> m' = m\<lparr>tm_cache := d\<rparr>)) (failed w 0 m) m"
    by (rule undo_wp [where E = "\<lambda>_ _. True", OF _ f], rule wp_mono [OF collect_old_wp [OF h S OverflowValue]]) auto
  then have "wp (and_then (undo_with (on_tm_cache (collect_chain_pages w (he_page_id e))) f) (\<lambda>freed. ok (Chain freed)))
      (\<lambda>r m'. r = old_place e (v_chains v k) \<and> (\<exists>d. quiet w (tm_cache m) d \<and> m' = m\<lparr>tm_cache := d\<rparr>)) (failed w 0 m) m"
    by (subst wp_and_then, elim wp_mono) (auto simp: wp_simps old_place_def OverflowValue)
  then show ?thesis by (simp add: OverflowValue)
qed (use live_flags [OF h S] quiet_now [OF h] in \<open>auto simp: wp_simps old_place_def\<close>)

lemma quiet_built:
  assumes h: "holds w K n m v P" and at: "ht_at (bodies w m) r T" and q: "quiet w (tm_cache m) d" and m': "m' = m\<lparr>tm_cache := d\<rparr>"
  shows "holds w K n m' v P" and "ht_at (bodies w m') r T" and "ht_region (bodies w m') r = ht_region (bodies w m) r"
    and "ht_region (bodies w m') (v_ht v) = ht_region (bodies w m) (v_ht v)"
  using quiet_holds [OF h q] ht_at_later [OF h at, of m'] quiet_bodies [OF q h] by (simp_all add: m')

lemma release_inline_fields:
  "tm_cache (release_inline x s) = tm_cache s \<and> base (release_inline x s) = base s"
  "tm_cache ((release_inline x s)\<lparr>ht_depth := k\<rparr>) = tm_cache s \<and> base ((release_inline x s)\<lparr>ht_depth := k\<rparr>) = base s"
  by (cases x; simp)+

lemma update_some_wp:
  assumes h: "holds w K (place_cost val + (19 + n)) m v {}" and r: "rests K m v" and act: "active_txn m" "\<not> poisoned m"
    and len: "length val < 2 ^ 64" and T: "v_table v h = Some e"
  shows "wp (update_inner w h val)
    (\<lambda>_ m'. mgr_inv w K n m' ((db_of v)(h \<mapsto> (val, he_tag e, he_client_byte e))) \<and> reached (place_cost val + 19) m m')
    (failed w (0 + (place_cost val + (19 + 0))) m) m"
proof (simp only: update_inner_def wp_gets_then act(1) not_True_eq_False if_False, rule seq_wp [OF lookup_some_wp [OF h restsD(1) [OF r] act(1) T]], goal_cases)
  case (1 x m1)
  then obtain d where x: "x = e" and q1: "quiet w (tm_cache m) d" and m1: "m1 = m\<lparr>tm_cache := d\<rparr>" by auto
  have r1: "reached 0 m m1" and h1: "holds w K (place_cost val + (19 + n)) m1 v {}" and rs1: "rests K m1 v"
    using quiet_reached [OF q1] quiet_holds [OF h q1] quiet_rests [OF r, of d] by (simp_all add: m1)
  show ?case
    unfolding x
  proof (rule conjI [OF r1], rule seq_wp [OF place_value_wp [OF h1 restsD(4,3) [OF rs1] len]], goal_cases)
    case (1 y m2)
    then obtain e' ip ids where y: "y = (e', ip)" and r2: "reached (place_cost val) m1 m2" "same_index m1 m2"
      and e': "he_tag e' = he_tag e" "he_client_byte e' = he_client_byte e" "he_flags e' \<noteq> Deleted"
      and h2: "holds w K (19 + n) m2 (placed v e' ids val m2) {}" and pk: "packs K m2 (placed v e' ids val m2)" by (cases y) auto
    let ?v2 = "placed v e' ids val m2"
    have l2: "v_ht ?v2 = ht_loc m2" using restsD(1) [OF rs1] r2(2) by (simp add: same_index_def)
    have n2: "handle_table_page (current_roots m2) \<noteq> PAGE_ID_NONE" using holdsD(2) [OF h2] T l2 by (auto simp: ht_at_def)
    note cand = undo_wp [OF ht_insert_candidate_wp [OF h2 l2 n2 e'(3), of h] release_inline_fields(1)]
    show ?case
      unfolding y case_prod_conv wp_gets_then
    proof (rule conjI [OF r2(1)], rule seq_wp [OF cand], goal_cases)
      case (1 z m3)
      then obtain qr fs F where z: "z = (qr, fs)" and r3: "reached 19 m2 m3" and h3: "holds w K n m3 ?v2 F"
        and at3: "ht_at (bodies w m3) (qr, ht_depth m3) ((v_table v)(h \<mapsto> e'))"
        and acc3: "accounted (ht_region (bodies w m3) (v_ht ?v2)) F (ht_region (bodies w m3) (qr, ht_depth m3)) fs"
        and s3: "rest m3 = rest m2" "packer m3 = packer m2" "mi_loc m3 = mi_loc m2" by (cases z) (auto simp: ht_built_def)
      have E: "v_entries ?v2 (Some h) = Some e" using restsD(5) [OF r, of h] T by simp
      show ?case
        unfolding z case_prod_conv
      proof (rule conjI [OF r3], subst wp_and_then, rule wp_mono [OF update_old_wp [OF h3 E release_inline_fields(2)]], goal_cases)
        case (1 o' m4)
        then obtain d4 where o': "o' = old_place e (v_chains ?v2 (Some h))" and q4: "quiet w (tm_cache m3) d4" and m4: "m4 = m3\<lparr>tm_cache := d4\<rparr>" by auto
        note b4 = quiet_built [OF h3 at3 q4 m4]
        define m5 where "m5 = retire_superseded fs (set_ht_root qr m4)"
        have h5: "holds w K n m5 (?v2\<lparr>v_ht := ht_loc m5, v_table := (v_table v)(h \<mapsto> e')\<rparr>) (F - F)"
          by (rule publish_ht_retire [OF b4(1) _ _ order_refl m5_def]) (use b4 acc3 m4 in simp_all)
        have rr: "reached (place_cost val + (19 + 0)) m m4"
          using reached_trans [OF r1 reached_trans [OF r2(1) reached_trans [OF r3 quiet_reached [OF q4]]]] by (simp add: m4)
        have s5: "packer m5 = packer m2" "mi_loc m5 = mi_loc m" "next_handle (current_roots m5) = next_handle (current_roots m)" "base m5 = base m"
          using s3 r2(2) rr by (simp_all add: m5_def m4 m1 same_index_def rest_def reached_def)
        have "mgr_inv w K n (release_old o' m5) ((db_of v)(h \<mapsto> (val, he_tag e, he_client_byte e')))"
          by (rule replaced_inv [OF r T act pk e'(1) _ s5]) (use h5 o' in simp_all)
        moreover have "reached (place_cost val + 19) m (release_old o' m5)"
          using rr reached_cong [of "release_old o' m5" m4 "place_cost val + 19" m] by (simp add: m5_def)
        ultimately show ?case by (simp add: wp_simps m5_def e'(2))
      qed
    qed
  qed
qed

lemma unknown_wp:
  assumes inv: "mgr_inv w K n m D" and D: "D h = None" and k: "k \<le> n"
  shows "wp (and_then (lookup_live w h) f) Q
    (\<lambda>e m'. failed w j m e m' \<or> e = InvalidHandle h \<and> D h = None \<and> mgr_inv w K k m' D \<and> reached 0 m m') m"
proof -
  obtain v where act: "active_txn m" and h: "holds w K n m v {}" and r: "rests K m v" and dv: "db_of v = D"
    using inv by (auto simp: mgr_inv_def)
  have T: "v_table v h = None" using D by (auto simp: dv [symmetric] db_of_def)
  show ?thesis
    unfolding wp_and_then
    by (rule wp_mono [OF lookup_none_wp [OF h restsD(1) [OF r] act T]]) (use quiet_inv [OF mgr_inv_mono [OF inv k]] quiet_reached failed_mono [of w 0 m _ _ j] D in auto)
qed

lemma mgr_inv_cases:
  assumes "mgr_inv w K n m D"
  obtains (unknown) "active_txn m" and "D h = None"
  | (known) v e val where "active_txn m" and "\<not> poisoned m" and "holds w K n m v {}" and "rests K m v" and "db_of v = D"
      and "v_table v h = Some e" and "D h = Some (val, he_tag e, he_client_byte e)" and "v_values v (Some h) = Some val"
proof (cases "D h")
  case None
  then show ?thesis using unknown assms by (simp add: mgr_inv_def)
next
  case (Some x)
  obtain v where v: "active_txn m" "\<not> poisoned m" "holds w K n m v {}" "rests K m v" "db_of v = D" using assms by (auto simp: mgr_inv_def)
  obtain e where e: "v_table v h = Some e" using Some unfolding v(5) [symmetric] db_of_def by auto
  obtain val where val: "v_values v (Some h) = Some val" using layout_entry [OF holdsD(4) [OF v(3)], of "Some h" e] restsD(5) [OF v(4), of h] e by auto
  have "D h = Some (val, he_tag e, he_client_byte e)" using e val by (simp add: v(5) [symmetric] db_of_def)
  then show ?thesis by (rule known [OF v e _ val])
qed

lemma update_inner_wp:
  assumes inv: "mgr_inv w K (place_cost val + (19 + n)) m D" and len: "length val < 2 ^ 64"
  shows "wp (update_inner w h val)
    (\<lambda>_ m'. \<exists>old tag byte. D h = Some (old, tag, byte) \<and> mgr_inv w K n m' (D(h \<mapsto> (val, tag, byte))) \<and> reached (place_cost val + 19) m m')
    (\<lambda>e m'. failed w (place_cost val + 19) m e m' \<or> e = InvalidHandle h \<and> D h = None \<and> mgr_inv w K n m' D \<and> reached 0 m m') m"
  using inv
proof (cases rule: mgr_inv_cases [where h = h])
  case unknown
  show ?thesis
    by (simp only: update_inner_def wp_gets_then unknown(1) not_True_eq_False if_False, rule unknown_wp [OF inv unknown(2)]) simp
next
  case (known v e old)
  show ?thesis
    by (rule wp_mono [OF update_some_wp [OF known(3,4,1,2) len known(6)]]) (use known(5,7) in auto)
qed

section \<open>The client byte\<close>

lemma holds_same_place:
  assumes h: "holds w K n m v P" and E: "v_entries v k = Some e" and d: "he_flags d = he_flags e" "he_page_id d = he_page_id e" "he_slot_index d = he_slot_index e"
  shows "holds w K n m (v\<lparr>v_entries := (v_entries v)(k \<mapsto> d)\<rparr>) P"
  using h layout_same_place [OF holdsD(4) [OF h] E d] unfolding holds_def regions_def by simp

lemma published_byte_wp:
  assumes h: "holds w K (19 + n) m v {}" and r: "rests K m v" and act: "active_txn m" "\<not> poisoned m" and T: "v_table v h = Some e"
  shows "wp (ht_insert_published w h (e\<lparr>he_client_byte := b\<rparr>))
    (\<lambda>_ m'. mgr_inv w K n m' ((db_of v)(h \<mapsto> (the (v_values v (Some h)), he_tag e, b))) \<and> reached 19 m m') (failed w 19 m) m"
proof -
  let ?e = "e\<lparr>he_client_byte := b\<rparr>"
  have E: "v_entries v (Some h) = Some e" using restsD(5) [OF r, of h] T by simp
  have n0: "handle_table_page (current_roots m) \<noteq> PAGE_ID_NONE" using holdsD(2) [OF h] T restsD(1) [OF r] by (auto simp: ht_at_def)
  have fl: "he_flags ?e \<noteq> Deleted" using live_flags [OF h E] by simp
  have eq: "ht_insert_published w h ?e = and_then (handle_table_insert_candidate w h ?e) (\<lambda>(new_root, freed). modify (\<lambda>s. retire_superseded freed (set_ht_root new_root s)))"
    by (auto simp: ht_insert_published_def handle_table_insert_candidate_def and_then_def gets_def fun_eq_iff split: prod.splits)
  show ?thesis
    unfolding eq wp_and_then
  proof (rule wp_mono [OF ht_insert_candidate_wp [OF h restsD(1) [OF r] n0 fl, of h]], goal_cases)
    case (1 z m3)
    then obtain q fs F where z: "z = (q, fs)" and r3: "reached 19 m m3" and h3: "holds w K n m3 v F"
      and at3: "ht_at (bodies w m3) (q, ht_depth m3) ((v_table v)(h \<mapsto> ?e))"
      and acc3: "accounted (ht_region (bodies w m3) (v_ht v)) F (ht_region (bodies w m3) (q, ht_depth m3)) fs"
      and s3: "rest m3 = rest m" "packer m3 = packer m" "mi_loc m3 = mi_loc m" by (cases z) (auto simp: ht_built_def)
    define m5 where "m5 = retire_superseded fs (set_ht_root q m3)"
    let ?v = "v\<lparr>v_ht := ht_loc m5, v_table := (v_table v)(h \<mapsto> ?e)\<rparr>"
    have h5: "holds w K n m5 ?v (F - F)" by (rule publish_ht_retire [OF h3 at3 acc3 order_refl m5_def])
    have hv: "holds w K n m5 (?v\<lparr>v_entries := (v_entries ?v)(Some h \<mapsto> ?e)\<rparr>) {}" by (rule holds_same_place [of _ _ _ _ _ _ _ e]) (use h5 E in simp_all)
    have s5: "packer m5 = packer m" "mi_loc m5 = mi_loc m" "next_handle (current_roots m5) = next_handle (current_roots m)" "base m5 = base m"
      using s3 r3 by (simp_all add: m5_def rest_def reached_def)
    have "rests K m5 (?v\<lparr>v_entries := (v_entries ?v)(Some h \<mapsto> ?e)\<rparr>)"
      using restsD(3-7,2) [OF r] s5 tagged_same [of "v_table v" h e ?e] T by (auto simp: rests_def packs_def split: if_splits)
    moreover have "db_of (?v\<lparr>v_entries := (v_entries ?v)(Some h \<mapsto> ?e)\<rparr>) = (db_of v)(h \<mapsto> (the (v_values v (Some h)), he_tag e, b))"
      by (auto simp: db_of_def fun_eq_iff)
    moreover have "active_txn m5" "\<not> poisoned m5" using act s5(4) base_fields(2,4) [of m5 m] by simp_all
    ultimately have "mgr_inv w K n m5 ((db_of v)(h \<mapsto> (the (v_values v (Some h)), he_tag e, b)))" using hv unfolding mgr_inv_def by blast
    moreover have "reached 19 m m5" using r3 reached_cong [of m5 m3 19 m] by (simp add: m5_def)
    ultimately show ?case by (simp add: z wp_simps m5_def)
  qed simp
qed

lemma set_byte_inner_wp:
  assumes inv: "mgr_inv w K (19 + n) m D"
  shows "wp (in_txn (and_then (lookup_live w h) (\<lambda>entry. ht_insert_published w h (entry\<lparr>he_client_byte := b\<rparr>))))
    (\<lambda>_ m'. \<exists>val tag byte. D h = Some (val, tag, byte) \<and> mgr_inv w K n m' (D(h \<mapsto> (val, tag, b))) \<and> reached 19 m m')
    (\<lambda>e m'. failed w 19 m e m' \<or> e = InvalidHandle h \<and> D h = None \<and> mgr_inv w K n m' D \<and> reached 0 m m') m"
  using inv
proof (cases rule: mgr_inv_cases [where h = h])
  case unknown
  show ?thesis
    by (simp only: wp_gets_then unknown(1) not_True_eq_False if_False, rule unknown_wp [OF inv unknown(2)]) simp
next
  case (known v e val)
  note look = lookup_some_wp [OF known(3) restsD(1) [OF known(4)] known(1,6)]
  have "wp (and_then (lookup_live w h) (\<lambda>entry. ht_insert_published w h (entry\<lparr>he_client_byte := b\<rparr>)))
    (\<lambda>_ m'. mgr_inv w K n m' (D(h \<mapsto> (val, he_tag e, b))) \<and> reached 19 m m') (failed w (0 + 19) m) m"
  proof (rule seq_wp [OF look], goal_cases)
    case (1 x m1)
    then obtain d where x: "x = e" and q1: "quiet w (tm_cache m) d" and m1: "m1 = m\<lparr>tm_cache := d\<rparr>" by auto
    have r1: "reached 0 m m1" and h1: "holds w K (19 + n) m1 v {}" and rs1: "rests K m1 v" and a1: "active_txn m1" "\<not> poisoned m1"
      using quiet_reached [OF q1] quiet_holds [OF known(3) q1] quiet_rests [OF known(4), of d] known(1,2) by (simp_all add: m1)
    show ?case
      unfolding x
      by (rule conjI [OF r1], rule wp_mono [OF published_byte_wp [OF h1 rs1 a1 known(6), of b]]) (use known(5,8) reached_trans [OF r1] in auto)
  qed
  then show ?thesis
    by (simp only: wp_gets_then known(1) not_True_eq_False if_False add_0, elim wp_mono) (use known(7) in auto)
qed

section \<open>Deleting\<close>

lemma tagged_remove: "T h = Some e \<Longrightarrow> tagged (T(h := None)) = (tagged T)(he_tag e := tagged T (he_tag e) - {h})"
  by (auto simp: tagged_def fun_eq_iff)

lemma retire_nothing: "retire_superseded [] (set_mi_root (membership_index_page (current_roots s)) s) = s"
  by (simp add: retire_superseded_def retire_def)

abbreviation publish_index :: "(u64 \<times> u64 list) option \<Rightarrow> txn_manager \<Rightarrow> txn_manager" where
  "publish_index mi s \<equiv> (case mi of None \<Rightarrow> s | Some (root, freed) \<Rightarrow> retire_superseded freed (set_mi_root root s))"

text \<open>The index candidate of a deletion; with no tag the index stays, as a candidate that supersedes nothing.\<close>

lemma delete_index_wp:
  assumes h: "holds w K (26 + n) m v P" and at: "v_mi v = mi_loc m" and zero: "v_tags v 0 = {}"
  shows "wp (if tag \<noteq> 0
      then and_then (membership_remove_candidate w tag handle) (\<lambda>((root, _), idx_freed). ok (Some (root, idx_freed))) else ok None)
    (\<lambda>mi m'. reached 26 m m' \<and> (\<exists>q fs. (mi = Some (q, fs) \<or> mi = None \<and> q = membership_index_page (current_roots m') \<and> fs = []) \<and>
        mi_built w K n m v P ((v_tags v)(tag := v_tags v tag - {handle})) q fs m'))
    (failed w 26 m) m"
proof (cases "tag = 0")
  case True
  have "mi_at (bodies w m) (membership_index_page (current_roots m), mi_depth m) (v_tags v)" using holdsD(3) [OF h] at by simp
  moreover have "(v_tags v)(0 := {}) = v_tags v" using zero by (simp add: fun_eq_iff)
  moreover have "accounted H {} H []" for H by (auto simp: accounted_def)
  ultimately have "mi_built w K n m v P ((v_tags v)(0 := {})) (membership_index_page (current_roots m)) [] m"
    using holds_mono [OF h, of n] at by (auto simp: mi_built_def intro!: exI [of _ "{}"])
  then show ?thesis using True zero reached_mono [of 0 m m 26] by (simp add: wp_simps)
next
  case False
  have "wp (and_then (membership_remove_candidate w tag handle) (\<lambda>((root, _), idx_freed). ok (Some (root, idx_freed))))
    (\<lambda>mi m'. reached 26 m m' \<and> (\<exists>q fs. (mi = Some (q, fs) \<or> mi = None \<and> q = membership_index_page (current_roots m') \<and> fs = []) \<and>
        mi_built w K n m v P ((v_tags v)(tag := v_tags v tag - {handle})) q fs m')) (failed w 26 m) m"
    unfolding wp_and_then by (rule wp_mono [OF mi_remove_candidate_wp [OF h at]]) (auto simp: wp_simps)
  then show ?thesis using False by simp
qed

lemma delete_published:
  assumes "holds w K n m v P" and "ht_at (bodies w m) (q, ht_depth m) T"
    and "accounted (ht_region (bodies w m) (v_ht v)) F (ht_region (bodies w m) (q, ht_depth m)) fs" "F \<subseteq> P"
    and "mi_at (bodies w m) (q', mi_depth m) G"
    and "accounted (mi_region (bodies w m) (v_mi v)) F' (mi_region (bodies w m) (q', mi_depth m)) fs'" "F' \<subseteq> P" "F \<inter> F' = {}"
    and pk: "packs K m v" and E: "v_entries v (Some h) = Some e"
    and m2: "m2 = release_old (old_place e (v_chains v (Some h))) (retire_superseded fs (set_ht_root q m))" and m': "m' = retire_superseded fs' (set_mi_root q' m2)"
  defines "v' \<equiv> dropped (swapped h (v\<lparr>v_ht := ht_loc m', v_table := T, v_mi := mi_loc m', v_tags := G\<rparr>)) m'"
  shows "holds w K n m' v' {}" and "packs K m' v'"
proof -
  note pv = publish_views [OF assms(1-8)]
  let ?v = "v\<lparr>v_ht := (q, ht_depth m), v_table := T, v_mi := (q', mi_depth m), v_tags := G\<rparr>" and ?m1 = "retire_superseded fs (set_ht_root q m)"
  obtain X where X: "holds w K n m ?v X" "set fs \<subseteq> X" "set fs' \<subseteq> X - set fs" "P - F - F' \<subseteq> X - set fs - set fs'" using pv(1) by blast
  have "holds w K n (set_ht_root q m) ?v X" using X(1) by simp
  then have h1: "holds w K n ?m1 (swapped h ?v) (X - set fs)" by (intro holds_swap retire_holds X(2) pv(2))
  have pk1: "packs K ?m1 (swapped h ?v)" using pk by (auto simp: packs_def)
  have "holds w K n m2 (dropped (swapped h ?v) m2) (X - set fs)" "packs K m2 (dropped (swapped h ?v) m2)"
    by (rule release_old_holds [OF h1 pk1, of e]; use E m2 in simp)+
  note h2 = this
  have "holds w K n (set_mi_root q' m2) (dropped (swapped h ?v) m2) (X - set fs)" using h2(1) by simp
  then have "holds w K n m' (dropped (swapped h ?v) m2) (X - set fs - set fs')" unfolding m' by (rule retire_holds [OF _ X(3) pv(3)])
  moreover have eq: "v' = dropped (swapped h ?v) m2" by (simp add: v'_def m' m2)
  ultimately show "holds w K n m' v' {}" "packs K m' v'" using h2(2) unfolding eq by (auto simp: m' packs_def elim!: holds_fewer)
qed

lemma removed_inv:
  assumes r: "rests K m v" and T: "v_table v h = Some e" and act: "active_txn m" "\<not> poisoned m"
    and v': "v' = dropped (swapped h (v\<lparr>v_ht := ht_loc m', v_table := (v_table v)(h := None), v_mi := mi_loc m', v_tags := tagged ((v_table v)(h := None))\<rparr>)) m'"
    and h': "holds w K n m' v' {}" "packs K m' v'" and s: "next_handle (current_roots m') = next_handle (current_roots m)" "base m' = base m"
  shows "mgr_inv w K n m' ((db_of v)(h := None))"
proof -
  have "rests K m' v'" using h'(2) restsD(4,5,7) [OF r] s(1) by (auto simp: rests_def v' split: if_splits)
  moreover have "db_of v' = (db_of v)(h := None)" by (auto simp: db_of_def fun_eq_iff v')
  moreover have "active_txn m'" "\<not> poisoned m'" using act base_fields(2,4) [OF s(2)] by simp_all
  ultimately show ?thesis using h'(1) unfolding mgr_inv_def by blast
qed

lemma delete_unknown_wp:
  assumes inv: "mgr_inv w K (7 + n) m D" and D: "D h = None"
  shows "wp (delete_inner w h) Q (\<lambda>x m'. failed w 7 m x m' \<or> x = InvalidHandle h \<and> D h = None \<and> mgr_inv w K n m' D \<and> reached 7 m m') m"
proof -
  obtain v where act: "active_txn m" "\<not> poisoned m" and h: "holds w K (7 + n) m v {}" and r: "rests K m v" and dv: "db_of v = D"
    using inv by (auto simp: mgr_inv_def)
  have T: "v_table v h = None" using D by (auto simp: dv [symmetric] db_of_def)
  show ?thesis
  proof (simp only: delete_inner_def wp_gets_then act(1) not_True_eq_False if_False, subst wp_and_then, rule wp_mono [OF ht_delete_candidate_wp [OF h restsD(1) [OF r], of h]], goal_cases)
    case (1 x m1)
    then obtain q fs F where x: "x = ((q, None), fs)" and r1: "reached 7 m m1" and h1: "holds w K n m1 v F"
      and s: "rest m1 = rest m" "packer m1 = packer m" "mi_loc m1 = mi_loc m" "ht_loc m1 = ht_loc m" using T by (cases x) (auto simp: ht_built_def)
    have "rests K m1 v" using restsD [OF r] r s by (auto simp: rests_def packs_def rest_def)
    moreover have "holds w K n m1 v {}" using holds_fewer [OF h1] by simp
    moreover have "base m1 = base m" using r1 by (simp add: reached_def)
    ultimately have "mgr_inv w K n m1 D" using act base_fields(2,4) [of m1 m] dv unfolding mgr_inv_def by auto
    then show ?case using r1 D by (simp add: x wp_simps ok_or_def)
  qed simp
qed

lemma delete_known_wp:
  assumes h: "holds w K (7 + (26 + n)) m v {}" and r: "rests K m v" and act: "active_txn m" "\<not> poisoned m" and T: "v_table v h = Some e"
  shows "wp (delete_inner w h) (\<lambda>_ m'. mgr_inv w K n m' ((db_of v)(h := None)) \<and> reached (7 + 26) m m') (failed w (7 + (0 + (26 + 0))) m) m"
proof (simp only: delete_inner_def wp_gets_then act(1) not_True_eq_False if_False, rule seq_wp [OF ht_delete_candidate_wp [OF h restsD(1) [OF r], of h]], goal_cases)
  case (1 x m1)
  then obtain q fs F where x: "x = ((q, Some e), fs)" and r1: "reached 7 m m1" and h1: "holds w K (26 + n) m1 v F"
    and at1: "ht_at (bodies w m1) (q, ht_depth m1) ((v_table v)(h := None))"
    and acc1: "accounted (ht_region (bodies w m1) (v_ht v)) F (ht_region (bodies w m1) (q, ht_depth m1)) fs"
    and s1: "rest m1 = rest m" "packer m1 = packer m" "mi_loc m1 = mi_loc m" using T by (cases x) (auto simp: ht_built_def)
  have E: "v_entries v (Some h) = Some e" using restsD(5) [OF r, of h] T by simp
  show ?case
    unfolding x case_prod_conv ok_or_def option.case wp_ok_then
  proof (rule conjI [OF r1], rule seq_wp [OF delete_old_wp [OF h1 E]], goal_cases)
    case (1 rel m2)
    then obtain d where rel: "rel = old_place e (v_chains v (Some h))" and q2: "quiet w (tm_cache m1) d" and m2: "m2 = m1\<lparr>tm_cache := d\<rparr>" by auto
    note b2 = quiet_built [OF h1 at1 q2 m2]
    have r2: "reached 0 m1 m2" using quiet_reached [OF q2] by (simp add: m2)
    have at2: "v_mi v = mi_loc m2" "v_tags v 0 = {}" using restsD(2,6) [OF r] s1(3) by (simp_all add: m2 tagged_def)
    show ?case
    proof (rule conjI [OF r2], rule seq_wp [OF delete_index_wp [OF b2(1) at2]], goal_cases)
      case (1 mi m3)
      then obtain q' fs' F' where r3: "reached 26 m2 m3" and mi: "mi = Some (q', fs') \<or> mi = None \<and> q' = membership_index_page (current_roots m3) \<and> fs' = []"
        and h3: "holds w K n m3 v (F \<union> F')" and dis: "F' \<inter> F = {}" and ma: "mi_at (bodies w m3) (q', mi_depth m3) ((v_tags v)(he_tag e := v_tags v (he_tag e) - {h}))"
        and acc3: "accounted (mi_region (bodies w m3) (v_mi v)) F' (mi_region (bodies w m3) (q', mi_depth m3)) fs'"
        and same: "\<forall>p \<in> used w m2. bodies w m3 p = bodies w m2 p" and s3: "rest m3 = rest m2" "packer m3 = packer m2" "ht_loc m3 = ht_loc m2"
        by (auto simp: mi_built_def)
      have G: "(v_tags v)(he_tag e := v_tags v (he_tag e) - {h}) = tagged ((v_table v)(h := None))"
        using tagged_remove [of "v_table v" h e] T restsD(6) [OF r] by simp
      note lt = ht_at_later [OF b2(1,2) same [rule_format]]
      have d3: "ht_depth m3 = ht_depth m1" using s3(3) by (simp add: m2)
      define m4 where "m4 = release_old rel (retire_superseded fs (set_ht_root q m3))"
      define m' where "m' = retire_superseded fs' (set_mi_root q' m4)"
      have "membership_index_page (current_roots m4) = membership_index_page (current_roots m3)" by (simp add: m4_def)
      then have pub: "publish_index mi m4 = m'" using mi retire_nothing [of m4] by (cases mi) (simp_all only: m'_def option.case prod.case option.inject prod.inject option.distinct simp_thms)
      have pk: "packs K m3 v" using restsD(3) [OF r] s1(2) s3(2) by (auto simp: m2 packs_def)
      note dp = delete_published [of w K n m3 v "F \<union> F'" q "(v_table v)(h := None)" F fs q' "tagged ((v_table v)(h := None))" F' fs' h e m4 m']
      have rr: "reached (7 + 26) m m3" using reached_trans [OF r1 reached_trans [OF r2 r3]] by simp
      have s': "next_handle (current_roots m') = next_handle (current_roots m)" "base m' = base m"
        using s1 s3 rr by (simp_all add: m'_def m4_def m2 rest_def reached_def)
      have "mgr_inv w K n m' ((db_of v)(h := None))"
        by (rule removed_inv [OF r T act refl dp(1) dp(2) s'])
          (use h3 lt b2 at1 acc1 ma acc3 dis d3 pk E rel G m4_def m'_def in auto)
      moreover have "reached (7 + 26) m m'" using rr reached_cong [of m' m3 "7 + 26" m] by (simp add: m'_def m4_def)
      ultimately show ?case
        using pub r3 unfolding m4_def by (cases mi) (auto simp: wp_simps)
    qed
  qed
qed

lemma delete_inner_wp:
  assumes inv: "mgr_inv w K (33 + n) m D"
  shows "wp (delete_inner w h)
    (\<lambda>_ m'. D h \<noteq> None \<and> mgr_inv w K n m' (D(h := None)) \<and> reached 33 m m')
    (\<lambda>e m'. failed w 33 m e m' \<or> e = InvalidHandle h \<and> D h = None \<and> mgr_inv w K n m' D \<and> reached 33 m m') m"
  using inv
proof (cases rule: mgr_inv_cases [where h = h])
  case unknown
  have inv': "mgr_inv w K (7 + n) m D" by (rule mgr_inv_mono [OF inv]) simp
  show ?thesis
    by (rule wp_mono [OF delete_unknown_wp [OF inv' unknown(2), where Q = "\<lambda>_ _. False"]]) (use failed_mono reached_mono in fastforce)+
next
  case (known v e val)
  have h: "holds w K (7 + (26 + n)) m v {}" using known(3) by simp
  show ?thesis by (rule wp_mono [OF delete_known_wp [OF h known(4,1,2,6)]]) (use known(5,7) in auto)
qed

section \<open>Reading\<close>

lemma read_value_wp:
  assumes h: "holds w K n m v P" and S: "v_entries v (Some handle) = Some e" and V: "v_values v (Some handle) = Some val"
  shows "wp (case he_flags e of
       Live \<Rightarrow> and_then (on_tm_cache (pc_get w (he_page_id e))) (\<lambda>buf. ok_or (CorruptPage (he_page_id e)) (data_page_read buf (he_slot_index e)))
     | OverflowValue \<Rightarrow> on_tm_cache (overflow_read w (he_page_id e))
     | Deleted \<Rightarrow> err (InvalidHandle handle))
    (\<lambda>r m'. r = val \<and> (\<exists>d. quiet w (tm_cache m) d \<and> m' = m\<lparr>tm_cache := d\<rparr>)) (failed w 0 m) m"
proof -
  note ok = holdsD(1) [OF h]
  have va: "val_at (bodies w m) e (v_chains v (Some handle)) val" using layout_entry [OF holdsD(4) [OF h] S] V by auto
  show ?thesis
  proof (cases "he_flags e")
    case Live
    then obtain b where b: "bodies w m (he_page_id e) = Some b" "data_body b"
      and i: "unat (he_slot_index e) < length (body_values b)" "body_values b ! unat (he_slot_index e) = val" using va by (auto simp: val_at_def)
    have B: "body_at w (tm_cache m) (he_page_id e) = Some b" "readable w (tm_cache m) (he_page_id e)"
      using b(1) unfolding bodies_def page_store_def by (metis option.discI)+
    have "wp (on_tm_cache (pc_get w (he_page_id e)))
        (\<lambda>buf m'. (page_ok buf \<and> page_body buf = b) \<and> (\<exists>d. quiet w (tm_cache m) d \<and> m' = m\<lparr>tm_cache := d\<rparr>)) (failed w 0 m) m"
      by (rule quiet_op_wp [OF ok]) (rule wp_mono [OF store_read_wp [OF mgr_okD(1,2) [OF ok] B]], simp_all)
    moreover have "data_page_read buf (he_slot_index e) = Some val" if "page_ok buf" "page_body buf = b" for buf
      using data_body_page [OF that(1)] that(2) b(2) i by (simp add: data_page_read_values)
    ultimately show ?thesis
      unfolding Live handle_flags.case wp_and_then by (elim wp_mono) (auto simp: ok_or_def wp_simps)
  next
    case OverflowValue
    then obtain val' where "v_values v (Some handle) = Some val'" and c: "chain_at w (tm_cache m) (he_page_id e) (v_chains v (Some handle)) val'"
      using value_chain_at [OF h S] by blast
    then have "val' = val" using V by simp
    then have "wp (on_tm_cache (overflow_read w (he_page_id e))) (\<lambda>r m'. r = val \<and> (\<exists>d. quiet w (tm_cache m) d \<and> m' = m\<lparr>tm_cache := d\<rparr>)) (failed w 0 m) m"
      using c by (intro quiet_op_wp [OF ok] wp_mono [OF overflow_read_wp [OF mgr_okD(1,2) [OF ok]]]) (auto simp: loop_fails_def)
    then show ?thesis by (simp add: OverflowValue)
  qed (use live_flags [OF h S] in simp)
qed

end
