(* ===== verification/Txn_Session.thy ===== *)
theory Txn_Session
  imports Txn_Update
begin

text \<open>
  The manager as its callers see it: the public methods around the inner ones, and sequences of
  requests. A sequence that meets no failure of the environment answers as a map from handles to values
  does.
\<close>

section \<open>Reads\<close>

lemma read_inner_wp:
  assumes inv: "mgr_inv w K n m D"
  shows "wp (read_inner w h) (\<lambda>r m'. \<exists>tag byte. D h = Some (r, tag, byte) \<and> mgr_inv w K n m' D \<and> reached 0 m m')
    (\<lambda>e m'. failed w 0 m e m' \<or> e = InvalidHandle h \<and> D h = None \<and> mgr_inv w K n m' D \<and> reached 0 m m') m"
  using inv
proof (cases rule: mgr_inv_cases [where h = h])
  case unknown
  show ?thesis unfolding read_inner_def by (rule unknown_wp [OF inv unknown(2) order_refl])
next
  case (known v e val)
  have E: "v_entries v (Some h) = Some e" using restsD(5) [OF known(4), of h] known(6) by simp
  have "wp (read_inner w h) (\<lambda>r m'. r = val \<and> mgr_inv w K n m' D \<and> reached 0 m m') (failed w (0 + 0) m) m"
    unfolding read_inner_def
  proof (rule seq_wp [OF lookup_some_wp [OF known(3) restsD(1) [OF known(4)] known(1,6)]], goal_cases)
    case (1 x m1)
    then obtain d where x: "x = e" and q1: "quiet w (tm_cache m) d" and m1: "m1 = m\<lparr>tm_cache := d\<rparr>" by auto
    have r1: "reached 0 m m1" and h1: "holds w K n m1 v {}" and i1: "mgr_inv w K n m1 D"
      using quiet_reached [OF q1] quiet_holds [OF known(3) q1] quiet_inv [OF inv q1] by (simp_all add: m1)
    show ?case
      unfolding x
      by (rule conjI [OF r1], rule wp_mono [OF read_value_wp [OF h1 E known(8)]])
        (use quiet_inv [OF i1] reached_trans [OF r1 quiet_reached] in auto)
  qed
  then show ?thesis by (rule wp_mono) (use known(7) in auto)
qed

lemma entry_field_wp:
  assumes inv: "mgr_inv w K n m D"
  shows "wp (and_then (lookup_live w h) (\<lambda>e. ok (f (he_tag e) (he_client_byte e))))
    (\<lambda>r m'. \<exists>val tag byte. D h = Some (val, tag, byte) \<and> r = f tag byte \<and> mgr_inv w K n m' D \<and> reached 0 m m')
    (\<lambda>e m'. failed w 0 m e m' \<or> e = InvalidHandle h \<and> D h = None \<and> mgr_inv w K n m' D \<and> reached 0 m m') m"
  using inv
proof (cases rule: mgr_inv_cases [where h = h])
  case unknown
  show ?thesis by (rule unknown_wp [OF inv unknown(2) order_refl])
next
  case (known v e val)
  show ?thesis
    unfolding wp_and_then
    by (rule wp_mono [OF lookup_some_wp [OF known(3) restsD(1) [OF known(4)] known(1,6)]])
      (use known(7) quiet_inv [OF inv] quiet_reached in \<open>auto simp: wp_simps\<close>)
qed

text \<open>A list of the handles: those of a tag, or all of them, in ascending order.\<close>

lemma tag_members_wp:
  assumes inv: "mgr_inv w K n m D"
  shows "wp (and_then (gets id) (\<lambda>s. on_tm_cache (handles_for_tag w (mi_depth s)
        (membership_index_page (if active_txn s then current_roots s else committed_roots s)) tag)))
    (\<lambda>r m'. sorted_wrt (<) r \<and> set r = {h. tag \<noteq> 0 \<and> (\<exists>val byte. D h = Some (val, tag, byte))} \<and> mgr_inv w K n m' D \<and> reached 0 m m') (failed w 0 m) m"
proof -
  obtain v where act: "active_txn m" and h: "holds w K n m v {}" and r: "rests K m v" and D: "db_of v = D" using inv by (auto simp: mgr_inv_def)
  note ok = holdsD(1) [OF h]
  let ?l = "tag_list (bodies w m) (mi_depth m) (membership_index_page (current_roots m)) tag"
  have mi: "mi_ok (bodies w m) (mi_depth m) (membership_index_page (current_roots m))"
    and view: "mi_view (bodies w m) (mi_depth m) (membership_index_page (current_roots m)) tag = tagged (v_table v) tag"
    using holdsD(3) [OF h] restsD(2,6) [OF r] by (simp_all add: mi_at_def)
  have l: "sorted_wrt (<) ?l" "set ?l = {h. tag \<noteq> 0 \<and> (\<exists>val byte. D h = Some (val, tag, byte))}"
    using tag_list_set [OF mi, of tag] view by (auto simp: tagged_def D [symmetric] db_of_def)
  have "PAGE_ID_NONE \<notin> used w m" using used_not_none by blast
  then have "wp (on_tm_cache (handles_for_tag w (mi_depth m) (membership_index_page (current_roots m)) tag))
      (\<lambda>r m'. r = ?l \<and> (\<exists>d. quiet w (tm_cache m) d \<and> m' = m\<lparr>tm_cache := d\<rparr>)) (failed w 0 m) m"
    using handles_for_tag_wp [OF mgr_okD(1,2) [OF ok] mi [unfolded bodies_def]] unfolding bodies_def by (intro quiet_op_wp [OF ok]) blast
  then show ?thesis
    unfolding wp_gets_then id_apply using act by simp (elim wp_mono, use l quiet_inv [OF inv] quiet_reached in auto)
qed

lemma all_handles_wp:
  assumes inv: "mgr_inv w K n m D"
  shows "wp (and_then (gets id) (\<lambda>s.
      if live_handle_table_root s = PAGE_ID_NONE then ok []
      else and_then (on_tm_cache (ht_iter_live w (ht_depth s) (live_handle_table_root s))) (\<lambda>es. ok (map fst es))))
    (\<lambda>r m'. sorted_wrt (<) r \<and> set r = dom D \<and> mgr_inv w K n m' D \<and> reached 0 m m') (failed w 0 m) m"
proof -
  obtain v where act: "active_txn m" and h: "holds w K n m v {}" and r: "rests K m v" and D: "db_of v = D" using inv by (auto simp: mgr_inv_def)
  note ok = holdsD(1) [OF h]
  let ?r = "handle_table_page (current_roots m)"
  have root: "live_handle_table_root m = ?r" using act by (simp add: live_handle_table_root_def)
  have dm: "dom D = dom (v_table v)" by (auto simp: D [symmetric] db_of_def)
  show ?thesis
  proof (cases "?r = PAGE_ID_NONE")
    case True
    then have "dom D = {}" using holdsD(2) [OF h] restsD(1) [OF r] dm by (simp add: ht_at_def)
    then show ?thesis using inv True root by (simp add: wp_gets_then wp_simps)
  next
    case False
    have t: "ht_ok (bodies w m) (ht_depth m) ?r" "ht_view (bodies w m) (ht_depth m) ?r = v_table v"
      using holdsD(2) [OF h] restsD(1) [OF r] False by (simp_all add: ht_at_def)
    have "wp (on_tm_cache (ht_iter_live w (ht_depth m) ?r))
        (\<lambda>r m'. (sorted_wrt (<) (map fst r) \<and> (\<forall>h e. (h, e) \<in> set r \<longleftrightarrow> v_table v h = Some e)) \<and>
          (\<exists>d. quiet w (tm_cache m) d \<and> m' = m\<lparr>tm_cache := d\<rparr>)) (failed w 0 m) m"
      using ht_iter_live_wp [OF mgr_okD(1,2) [OF ok] t(1) [unfolded bodies_def] False] t(2) unfolding bodies_def by (intro quiet_op_wp [OF ok]) simp
    note it = this
    have all: "set (map fst r) = dom D" if es: "\<forall>h e. (h, e) \<in> set r \<longleftrightarrow> v_table v h = Some e" for r
    proof -
      have "h \<in> set (map fst r) \<longleftrightarrow> (\<exists>e. (h, e) \<in> set r)" for h by force
      then show ?thesis unfolding dm using es by blast
    qed
    show ?thesis
      unfolding wp_gets_then root id_apply if_not_P [OF False]
    proof (subst wp_and_then, rule wp_mono [OF it], goal_cases)
      case (1 r m')
      then obtain d where "sorted_wrt (<) (map fst r)" "set (map fst r) = dom D" "quiet w (tm_cache m) d" "m' = m\<lparr>tm_cache := d\<rparr>" using all by blast
      then show ?case using quiet_inv [OF inv] quiet_reached by (simp add: wp_simps)
    qed
  qed
qed

section \<open>The public methods\<close>

text \<open>
  A public method that gives up: the inner method failed for a reason of the environment, and a fatal
  error has poisoned the manager.
\<close>

definition gave_up :: "world \<Rightarrow> nat \<Rightarrow> txn_manager \<Rightarrow> chisel_error \<Rightarrow> txn_manager \<Rightarrow> bool" where
  "gave_up w j m e m' \<longleftrightarrow> (\<exists>m1. failed w j m e m1 \<and> m' = (if is_fatal e then m1\<lparr>poisoned := True\<rparr> else m1))"

lemma gave_up_mono: "gave_up w i m e m' \<Longrightarrow> i \<le> j \<Longrightarrow> gave_up w j m e m'"
  unfolding gave_up_def using failed_mono by blast

lemma gave_up_later: "reached i m m1 \<Longrightarrow> gave_up w j m1 e m2 \<Longrightarrow> gave_up w (i + j) m e m2"
  unfolding gave_up_def using failed_later by blast

lemma gave_up_roomy: "no_faults w \<Longrightarrow> roomy (tm_cache m) (7 * j) \<Longrightarrow> gave_up w j m e m' \<Longrightarrow> False"
  by (auto simp: gave_up_def failed_def)

lemma entry_wp:
  assumes "\<not> poisoned m" and "wp op Q (\<lambda>e m'. failed w j m e m' \<or> R e m') m" and "\<And>e m'. R e m' \<Longrightarrow> \<not> is_fatal e"
  shows "wp (entry_point op) Q (\<lambda>e m'. gave_up w j m e m' \<or> R e m') m"
  unfolding check_alive_def poison_on_fatal_def wp_and_then wp_gets wp_or_else using assms(1)
  by (simp add: wp_simps) (rule wp_mono [OF assms(2)], use assms(3) in \<open>auto simp: gave_up_def\<close>)

lemma inv_alive: "mgr_inv w K n m D \<Longrightarrow> \<not> poisoned m"
  by (simp add: mgr_inv_def)

section \<open>The counter of handles\<close>

lemma cow_run_preserves:
  assumes "\<And>r s. next_handle (current_roots (p r s)) = next_handle (current_roots s)"
  shows "preserves (\<lambda>m. next_handle (current_roots m)) (cow_run g p op)"
  unfolding cow_run_landed by (rule preserves_on_field) (simp add: assms)

lemma on_tm_cache_preserves: "preserves (\<lambda>m. next_handle (current_roots m)) (on_tm_cache op)"
  unfolding on_tm_cache_def by (rule preserves_on_field) simp

lemma insert_candidate_preserves:
  "preserves (\<lambda>m. next_handle (current_roots m)) (handle_table_insert_candidate w h e)"
  "preserves (\<lambda>m. next_handle (current_roots m)) (handle_table_delete_candidate w h)"
  "preserves (\<lambda>m. next_handle (current_roots m)) (membership_remove_candidate w tag h)"
  "preserves (\<lambda>m. next_handle (current_roots m)) (ht_insert_published w h e)"
  by (auto simp: handle_table_insert_candidate_def handle_table_delete_candidate_def membership_remove_candidate_def ht_insert_published_def
        ht_run_def mi_run_def intro!: preserves_intros cow_run_preserves preserves_modify)

lemma place_preserves: "preserves (\<lambda>m. next_handle (current_roots m)) (place_value w val tag byte)"
  by (auto simp: place_value_def insert_into_data_page_def intro!: preserves_intros cow_run_preserves on_tm_cache_preserves)

lemma lookup_preserves: "preserves (\<lambda>m. next_handle (current_roots m)) (lookup_live w h)"
  by (auto simp: lookup_live_def ok_or_def intro!: preserves_intros on_tm_cache_preserves split: option.split)

lemma release_roots [simp]: "current_roots (release_inline x s) = current_roots s"
  by (cases x) (simp_all add: release_data_slot_def split: prod.split option.split)

lemma update_preserves: "preserves (\<lambda>m. next_handle (current_roots m)) (update_inner w h val)"
  unfolding update_inner_def
  by (intro preserves_intros lookup_preserves place_preserves insert_candidate_preserves preserves_modify)
    (auto intro!: preserves_intros preserves_modify on_tm_cache_preserves split: handle_flags.split)

lemma delete_preserves: "preserves (\<lambda>m. next_handle (current_roots m)) (delete_inner w h)"
  unfolding delete_inner_def
  by (intro preserves_intros insert_candidate_preserves preserves_modify)
    (auto simp: ok_or_def intro!: preserves_intros preserves_modify on_tm_cache_preserves insert_candidate_preserves split: handle_flags.split option.split)

section \<open>Requests\<close>

text \<open>What a caller may ask of an open transaction, and what it hears.\<close>

datatype request =
    Allocate "u8 list" u32
  | Update u64 "u8 list"
  | SetClientByte u64 u8
  | Delete u64
  | Read u64
  | Tag u64
  | ClientByte u64
  | HandlesWithTag u32
  | Handles

datatype reply =
    Handle u64
  | Bytes "u8 list"
  | TagIs u32
  | ByteIs u8
  | HandleList "u64 list"
  | Done
  | NoSuchHandle

fun request_op :: "world \<Rightarrow> request \<Rightarrow> reply txn_op" where
  "request_op w (Allocate val tag) = and_then (allocate_tagged w val tag) (\<lambda>h. ok (Handle h))"
| "request_op w (Update h val) = and_then (txn_update w h val) (\<lambda>_. ok Done)"
| "request_op w (SetClientByte h b) = and_then (set_client_byte w h b) (\<lambda>_. ok Done)"
| "request_op w (Delete h) = and_then (txn_delete w h) (\<lambda>_. ok Done)"
| "request_op w (Read h) = and_then (txn_read w h) (\<lambda>v. ok (Bytes v))"
| "request_op w (Tag h) = and_then (txn_tag w h) (\<lambda>t. ok (TagIs t))"
| "request_op w (ClientByte h) = and_then (txn_client_byte w h) (\<lambda>b. ok (ByteIs b))"
| "request_op w (HandlesWithTag tag) = and_then (handles_with_tag w tag) (\<lambda>hs. ok (HandleList hs))"
| "request_op w Handles = and_then (txn_handles w) (\<lambda>hs. ok (HandleList hs))"

definition is_invalid_handle :: "chisel_error \<Rightarrow> bool" where
  "is_invalid_handle e = (case e of InvalidHandle _ \<Rightarrow> True | _ \<Rightarrow> False)"

definition serve :: "world \<Rightarrow> request \<Rightarrow> reply txn_op" where
  "serve w q = or_else (request_op w q) (\<lambda>e. if is_invalid_handle e then ok NoSuchHandle else err e)"

primrec serve_all :: "world \<Rightarrow> request list \<Rightarrow> reply list txn_op" where
  "serve_all w [] = ok []"
| "serve_all w (q # qs) = and_then (serve w q) (\<lambda>r. and_then (serve_all w qs) (\<lambda>rs. ok (r # rs)))"

text \<open>The same requests on the abstract database: the next handle and a finite map.\<close>

fun answer :: "request \<Rightarrow> u64 \<times> db \<Rightarrow> reply \<times> u64 \<times> db" where
  "answer (Allocate val tag) (h, D) = (Handle h, h + 1, D(h \<mapsto> (val, tag, 0)))"
| "answer (Update h val) (nx, D) = (case D h of None \<Rightarrow> (NoSuchHandle, nx, D) | Some (_, tag, byte) \<Rightarrow> (Done, nx, D(h \<mapsto> (val, tag, byte))))"
| "answer (SetClientByte h b) (nx, D) = (case D h of None \<Rightarrow> (NoSuchHandle, nx, D) | Some (val, tag, _) \<Rightarrow> (Done, nx, D(h \<mapsto> (val, tag, b))))"
| "answer (Delete h) (nx, D) = (case D h of None \<Rightarrow> (NoSuchHandle, nx, D) | Some _ \<Rightarrow> (Done, nx, D(h := None)))"
| "answer (Read h) (nx, D) = (case D h of None \<Rightarrow> (NoSuchHandle, nx, D) | Some (val, _, _) \<Rightarrow> (Bytes val, nx, D))"
| "answer (Tag h) (nx, D) = (case D h of None \<Rightarrow> (NoSuchHandle, nx, D) | Some (_, tag, _) \<Rightarrow> (TagIs tag, nx, D))"
| "answer (ClientByte h) (nx, D) = (case D h of None \<Rightarrow> (NoSuchHandle, nx, D) | Some (_, _, byte) \<Rightarrow> (ByteIs byte, nx, D))"
| "answer (HandlesWithTag tag) (nx, D) = (HandleList (sorted_list_of_set {h. tag \<noteq> 0 \<and> (\<exists>val byte. D h = Some (val, tag, byte))}), nx, D)"
| "answer Handles (nx, D) = (HandleList (sorted_list_of_set (dom D)), nx, D)"

primrec answers :: "request list \<Rightarrow> u64 \<times> db \<Rightarrow> reply list \<times> u64 \<times> db" where
  "answers [] s = ([], s)"
| "answers (q # qs) s = (let (r, s1) = answer q s; (rs, s2) = answers qs s1 in (r # rs, s2))"

text \<open>Room in pages, in units of seven: a value and the copies of the paths to it in the two indexes.\<close>

fun cost :: "request \<Rightarrow> nat" where
  "cost (Allocate val tag) = place_cost val + 60"
| "cost (Update h val) = place_cost val + 19"
| "cost (SetClientByte h b) = 19"
| "cost (Delete h) = 33"
| "cost _ = 0"

fun payload :: "request \<Rightarrow> u8 list" where
  "payload (Allocate val tag) = val"
| "payload (Update h val) = val"
| "payload _ = []"

section \<open>Every request is answered as the abstract database answers it\<close>

abbreviation next_of_mgr :: "txn_manager \<Rightarrow> u64" where
  "next_of_mgr m \<equiv> next_handle (current_roots m)"

definition answered :: "world \<Rightarrow> u64 set \<Rightarrow> nat \<Rightarrow> nat \<Rightarrow> txn_manager \<Rightarrow> reply \<times> u64 \<times> db \<Rightarrow> reply \<Rightarrow> txn_manager \<Rightarrow> bool" where
  "answered w K j n m a r m' \<longleftrightarrow> (\<exists>D'. a = (r, next_of_mgr m', D') \<and> mgr_inv w K n m' D') \<and> reached j m m'"

lemma entry_serve_wp:
  assumes al: "\<not> poisoned m"
    and op: "wp op (\<lambda>x m'. answered w K j n m a (f x) m')
      (\<lambda>e m'. failed w j m e m' \<or> (\<exists>h. e = InvalidHandle h) \<and> answered w K j n m a NoSuchHandle m') m"
  shows "wp (or_else (and_then (entry_point op) (\<lambda>x. ok (f x))) (\<lambda>e. if is_invalid_handle e then ok NoSuchHandle else err e))
    (answered w K j n m a) (gave_up w j m) m"
proof -
  have "wp (entry_point op) (\<lambda>x m'. answered w K j n m a (f x) m')
      (\<lambda>e m'. gave_up w j m e m' \<or> (\<exists>h. e = InvalidHandle h) \<and> answered w K j n m a NoSuchHandle m') m"
    by (rule entry_wp [OF al op]) auto
  moreover have "\<not> is_invalid_handle e" if "gave_up w j m e m'" for e m'
    using that by (auto simp: gave_up_def failed_def env_error_def is_invalid_handle_def split: chisel_error.splits)
  ultimately show ?thesis
    unfolding wp_or_else by (subst wp_and_then) (elim wp_mono; auto simp: wp_simps is_invalid_handle_def)
qed

lemma byte_preserves:
  "preserves (\<lambda>m. next_handle (current_roots m)) (in_txn (and_then (lookup_live w h) (\<lambda>entry. ht_insert_published w h (entry\<lparr>he_client_byte := b\<rparr>))))"
  by (intro preserves_intros lookup_preserves insert_candidate_preserves)

lemma field_preserves: "preserves (\<lambda>m. next_handle (current_roots m)) (and_then (lookup_live w h) (\<lambda>e. ok (f e)))"
  by (intro preserves_intros lookup_preserves)

lemma serve_allocate_wp:
  assumes inv: "mgr_inv w K (place_cost val + 60 + n) m D" and len: "length val < 2 ^ 64" and hn: "next_handle_after (next_of_mgr m) = Inr hn"
  shows "wp (serve w (Allocate val tag)) (answered w K (place_cost val + 60) n m (answer (Allocate val tag) (next_of_mgr m, D))) (gave_up w (place_cost val + 60) m) m"
proof -
  have i: "mgr_inv w K (place_cost val + (1 + (19 + (40 + n)))) m D" using inv by (simp add: add.assoc)
  have "hn = next_of_mgr m + 1" using next_handle_after_Inr [OF hn] unat_u64_less [of hn] by (simp add: word_unat_eq_iff unat_word_ariths)
  then show ?thesis
    unfolding serve_def request_op.simps allocate_tagged_def
    by (intro entry_serve_wp [OF inv_alive [OF inv]] wp_mono [OF allocate_inner_wp [OF i len, of tag]])
      (use hn in \<open>auto simp: answered_def add.assoc\<close>)
qed

lemma serve_update_wp:
  assumes inv: "mgr_inv w K (place_cost val + 19 + n) m D" and len: "length val < 2 ^ 64"
  shows "wp (serve w (Update h val)) (answered w K (place_cost val + 19) n m (answer (Update h val) (next_of_mgr m, D))) (gave_up w (place_cost val + 19) m) m"
proof -
  have i: "mgr_inv w K (place_cost val + (19 + n)) m D" using inv by (simp add: add.assoc)
  show ?thesis
    unfolding serve_def request_op.simps txn_update_def
    by (intro entry_serve_wp [OF inv_alive [OF inv]] wp_mono [OF wp_preserves [OF update_preserves update_inner_wp [OF i len, of h]]])
      (auto simp: answered_def intro: reached_mono [of 0])
qed

lemma serve_byte_wp:
  assumes inv: "mgr_inv w K (19 + n) m D"
  shows "wp (serve w (SetClientByte h b)) (answered w K 19 n m (answer (SetClientByte h b) (next_of_mgr m, D))) (gave_up w 19 m) m"
  unfolding serve_def request_op.simps set_client_byte_def
  by (intro entry_serve_wp [OF inv_alive [OF inv]] wp_mono [OF wp_preserves [OF byte_preserves set_byte_inner_wp [OF inv, of h b]]])
    (auto simp: answered_def intro: reached_mono [of 0])

lemma serve_delete_wp:
  assumes inv: "mgr_inv w K (33 + n) m D"
  shows "wp (serve w (Delete h)) (answered w K 33 n m (answer (Delete h) (next_of_mgr m, D))) (gave_up w 33 m) m"
  unfolding serve_def request_op.simps txn_delete_def
  by (intro entry_serve_wp [OF inv_alive [OF inv]] wp_mono [OF wp_preserves [OF delete_preserves delete_inner_wp [OF inv, of h]]])
    (auto simp: answered_def intro: reached_mono [of 0])

lemma read_preserves: "preserves (\<lambda>m. next_handle (current_roots m)) (read_inner w h)"
  unfolding read_inner_def
  by (intro preserves_intros lookup_preserves) (auto simp: ok_or_def intro!: preserves_intros on_tm_cache_preserves split: handle_flags.split option.split)

lemma sorted_list_unique: "sorted_wrt (<) (r :: u64 list) \<Longrightarrow> sorted_list_of_set (set r) = r"
  by (metis sorted_list_of_set.idem_if_sorted_distinct strict_sorted_iff)

lemma serve_read_wp:
  assumes inv: "mgr_inv w K n m D"
  shows "wp (serve w (Read h)) (answered w K 0 n m (answer (Read h) (next_of_mgr m, D))) (gave_up w 0 m) m"
  unfolding serve_def request_op.simps txn_read_def
  by (intro entry_serve_wp [OF inv_alive [OF inv]] wp_mono [OF wp_preserves [OF read_preserves read_inner_wp [OF inv, of h]]])
    (auto simp: answered_def)

lemma serve_field_wp:
  assumes inv: "mgr_inv w K n m D"
  shows "wp (serve w (Tag h)) (answered w K 0 n m (answer (Tag h) (next_of_mgr m, D))) (gave_up w 0 m) m"
    and "wp (serve w (ClientByte h)) (answered w K 0 n m (answer (ClientByte h) (next_of_mgr m, D))) (gave_up w 0 m) m"
  unfolding serve_def request_op.simps txn_tag_def txn_client_byte_def
  by (intro entry_serve_wp [OF inv_alive [OF inv]],
      rule wp_mono [OF wp_preserves [OF field_preserves entry_field_wp [OF inv, of h "\<lambda>t b. t"]]], auto simp: answered_def)
    (intro entry_serve_wp [OF inv_alive [OF inv]],
      rule wp_mono [OF wp_preserves [OF field_preserves entry_field_wp [OF inv, of h "\<lambda>t b. b"]]], auto simp: answered_def)

lemma list_preserves:
  "preserves (\<lambda>m. next_handle (current_roots m)) (and_then (gets id) (\<lambda>s. on_tm_cache (op s)))"
  "preserves (\<lambda>m. next_handle (current_roots m)) (and_then (gets id) (\<lambda>s. if P s then ok [] else and_then (on_tm_cache (op s)) (\<lambda>es. ok (f es))))"
  by (intro preserves_intros on_tm_cache_preserves)+

lemma serve_list_wp:
  assumes inv: "mgr_inv w K n m D"
  shows "wp (serve w (HandlesWithTag tag)) (answered w K 0 n m (answer (HandlesWithTag tag) (next_of_mgr m, D))) (gave_up w 0 m) m"
    and "wp (serve w Handles) (answered w K 0 n m (answer Handles (next_of_mgr m, D))) (gave_up w 0 m) m"
  unfolding serve_def request_op.simps handles_with_tag_def txn_handles_def
  by (intro entry_serve_wp [OF inv_alive [OF inv]],
      rule wp_mono [OF wp_preserves [OF list_preserves(1) tag_members_wp [OF inv, of tag]]], auto simp: answered_def dest!: sorted_list_unique)
    (intro entry_serve_wp [OF inv_alive [OF inv]],
      rule wp_mono [OF wp_preserves [OF list_preserves(2) all_handles_wp [OF inv]]], auto simp: answered_def dest!: sorted_list_unique)

lemma serve_wp:
  assumes inv: "mgr_inv w K (cost q + n) m D" and len: "length (payload q) < 2 ^ 64" and hn: "next_handle_after (next_of_mgr m) = Inr hn"
  shows "wp (serve w q) (answered w K (cost q) n m (answer q (next_of_mgr m, D))) (gave_up w (cost q) m) m"
  using assms serve_allocate_wp serve_update_wp serve_byte_wp serve_delete_wp serve_read_wp serve_field_wp serve_list_wp
  by (cases q) (simp_all only: cost.simps payload.simps add_0)

lemma next_handle_room: "Suc (unat h) \<le> unat MAX_NEXT_HANDLE \<Longrightarrow> next_handle_after h = Inr (h + 1)"
  by (simp add: next_handle_after_def Let_def MAX_NEXT_HANDLE_def HANDLE_ID_RESERVE_def saturating_add_def word_less_nat_alt unat_word_ariths not_less)

lemma answer_next: "answer q (nx, D) = (r, nx', D') \<Longrightarrow> nx' \<in> {nx, nx + 1}"
  by (cases q) (auto split: option.splits)

lemma serve_all_wp:
  assumes "mgr_inv w K (sum_list (map cost qs) + n) m D" and "\<forall>q \<in> set qs. length (payload q) < 2 ^ 64"
    and "unat (next_of_mgr m) + length qs \<le> unat MAX_NEXT_HANDLE"
  shows "wp (serve_all w qs)
    (\<lambda>rs m'. \<exists>D'. answers qs (next_of_mgr m, D) = (rs, next_of_mgr m', D') \<and> mgr_inv w K n m' D' \<and> reached (sum_list (map cost qs)) m m')
    (gave_up w (sum_list (map cost qs)) m) m"
  using assms
proof (induction qs arbitrary: m D)
  case (Cons q qs)
  have i: "mgr_inv w K (cost q + (sum_list (map cost qs) + n)) m D" using Cons.prems(1) by (simp add: add.assoc)
  have hn: "next_handle_after (next_of_mgr m) = Inr (next_of_mgr m + 1)" by (rule next_handle_room) (use Cons.prems(3) in simp)
  show ?case
    unfolding serve_all.simps
  proof (subst wp_and_then, rule wp_mono [OF serve_wp [OF i _ hn]], goal_cases)
    case (2 r m1)
    then obtain D1 where a: "answer q (next_of_mgr m, D) = (r, next_of_mgr m1, D1)" and i1: "mgr_inv w K (sum_list (map cost qs) + n) m1 D1"
      and r1: "reached (cost q) m m1" by (auto simp: answered_def)
    have "unat (next_of_mgr m + 1) \<le> Suc (unat (next_of_mgr m))" using Cons.prems(3) by (simp add: unat_word_ariths)
    then have "unat (next_of_mgr m1) + length qs \<le> unat MAX_NEXT_HANDLE" using answer_next [OF a] Cons.prems(3) by auto
    from Cons.IH [OF i1 _ this] Cons.prems(2)
    have "wp (serve_all w qs) (\<lambda>rs m'. \<exists>D'. answers qs (next_of_mgr m1, D1) = (rs, next_of_mgr m', D') \<and> mgr_inv w K n m' D' \<and> reached (sum_list (map cost qs)) m1 m')
      (gave_up w (sum_list (map cost qs)) m1) m1" by simp
    then show ?case
      unfolding wp_and_then by (elim wp_mono) (auto simp: wp_simps a intro: reached_trans [OF r1] gave_up_later [OF r1])
  next
    case (3 e m1)
    then show ?case by (rule gave_up_mono) simp
  qed (use Cons.prems in simp)
qed (simp add: wp_simps)

end
