(* ===== verification/Cache_Truncate.thy ===== *)
theory Cache_Truncate
  imports Page_Store
begin

text \<open>
  Cutting the file back: \<open>PageCache::truncate\<close> forgets every page from the new end on and keeps what
  the pages below it hold.
\<close>

lemma drop_page_entry:
  assumes "map_of (entries s) p = Some e"
  shows "drop_page p s = untrack_dirty (ce_dirty e) (lru_drop p (remove_entry p s))"
  using assms by (simp add: drop_page_def untrack_dirty_def lru_drop_def remove_entry_def)

lemma drop_pages:
  assumes "pc_inv w s" and "distinct ids" and "set ids \<subseteq> dom (map_of (entries s))"
  shows "pc_inv w (fold drop_page ids s) \<and> same_store s (fold drop_page ids s) \<and>
    is_dirty (fold drop_page ids s) = (\<lambda>p. is_dirty s p \<and> p \<notin> set ids) \<and>
    pc_view w (fold drop_page ids s) = (\<lambda>p. if p \<in> set ids then disk_page w (cipher s) (pc_io s) p else pc_view w s p) \<and>
    map_of (entries (fold drop_page ids s)) = (\<lambda>p. if p \<in> set ids then None else map_of (entries s) p)"
  using assms
proof (induction ids arbitrary: s)
  case (Cons i ids)
  obtain e where e: "map_of (entries s) i = Some e" using Cons.prems(3) by auto
  note r = pc_inv_remove [OF Cons.prems(1) e, folded drop_page_entry [OF e]]
  have "set ids \<subseteq> dom (map_of (entries (drop_page i s)))" using Cons.prems(2,3) by (auto simp: r(5) AList.delete_conv')
  note IH = Cons.IH [OF r(1) _ this]
  have d: "cipher (drop_page i s) = cipher s" "disk_page w (cipher s) (pc_io (drop_page i s)) = disk_page w (cipher s) (pc_io s)"
    using r(3) same_store_disk [OF r(3), of w] by (simp_all add: same_store_def)
  show ?case
    using IH Cons.prems(2) r(2,3,4,5) same_store_trans [OF r(3)] d by (auto simp: fun_eq_iff AList.delete_conv')
qed simp

lemma forget_above:
  assumes inv: "pc_inv w s" and ids: "\<And>p. n \<le> p \<Longrightarrow> map_of (entries s) p = None"
  defines "t \<equiv> modify_spw (spw_forget_above n) s"
  shows "pc_inv w t" and "same_store s t" and "is_dirty t = (\<lambda>p. is_dirty s p \<and> p < n)" and "\<And>p. p < n \<Longrightarrow> pc_view w t p = pc_view w s p"
    and "entries t = entries s"
proof -
  have blob: "spill_blob (pc_spillway t) = (\<lambda>p. if p < n then spill_blob (pc_spillway s) p else None)"
    using inv spw_forget_above_ok(2) by (cases "pc_spillway s") (auto simp: t_def modify_spw_def spill_blob_def fun_eq_iff pc_inv_def spill_inv_def)
  have "spw_ok w spw \<and> spw_wf spw \<and> payload_size spw = unit_size (cipher t)" if "pc_spillway t = Some spw" for spw
    using that inv spw_forget_above_ok(1,3) spw_forget_above_wf
    by (auto simp: t_def modify_spw_def pc_inv_def spill_inv_def pc_wf_def spw_same_params_def)
  then show "pc_inv w t"
    using inv blob unfolding pc_inv_def spill_inv_def pc_wf_def io_fits_def by (auto simp: t_def modify_spw_def split: if_splits)
  show "same_store s t" by (simp add: t_def modify_spw_def same_store_def)
  have st: "entries t = entries s" "cipher t = cipher s" "pc_io t = pc_io s" by (simp_all add: t_def modify_spw_def)
  have lt: "p < n" if "map_of (entries s) p = Some e" for p e using that ids [of p] by (cases "n \<le> p") auto
  show "is_dirty t = (\<lambda>p. is_dirty s p \<and> p < n)"
    using lt by (auto simp: is_dirty_def spilled_blob blob fun_eq_iff st split: option.splits)
  show "pc_view w t p = pc_view w s p" if "p < n" for p
    using that blob by (auto simp: pc_view_def st split: option.splits)
  show "entries t = entries s" by (rule st(1))
qed

lemma truncated_cache:
  assumes inv: "pc_inv w s" and none: "\<And>p. n \<le> p \<Longrightarrow> map_of (entries s) p = None" and dirty: "\<And>p. is_dirty s p \<Longrightarrow> p < n" and n: "n \<le> next_page_id s"
    and t: "t = s\<lparr>pc_io := io', next_page_id := n\<rparr>" and io': "io_ok io'" "stride io' = stride (pc_io s)"
      "\<forall>q. q < n \<and> q < cached_page_count (pc_io s) \<longrightarrow> io_unit io' q = io_unit (pc_io s) q" "cached_page_count io' = n"
  shows "pc_inv w t \<and> is_dirty t = is_dirty s \<and> (\<forall>p < n. p < cached_page_count (pc_io s) \<or> is_dirty s p \<longrightarrow> pc_view w t p = pc_view w s p)"
proof -
  have disk: "disk_page w (cipher t) (pc_io t) p = disk_page w (cipher s) (pc_io s) p" if "p < n" "p < cached_page_count (pc_io s)" for p
    using that io' by (simp add: t disk_page_def)
  have "(ce_dirty e \<longrightarrow> p < n) \<and> entry_ok w (disk_page w (cipher t) (pc_io t) p) e" if e: "map_of (entries s) p = Some e" for p e
  proof -
    have pn: "p < n" using e none [of p] by (cases "n \<le> p") auto
    have ok: "entry_ok w (disk_page w (cipher s) (pc_io s) p) e" by (rule pc_inv_entry(2) [OF inv e])
    have "p < cached_page_count (pc_io s)" if "\<not> ce_dirty e" using ok that by (auto simp: entry_ok_def disk_page_def split: if_splits)
    then show ?thesis using pn ok disk [OF pn] by (cases "ce_dirty e") (simp_all add: entry_ok_def)
  qed
  note ents = this
  have "unat n * ENC_PAGE_SIZE \<le> unat (next_page_id s) * ENC_PAGE_SIZE" using n by (intro mult_right_mono) (simp_all add: word_le_nat_alt)
  then have "pc_wf w t"
    using inv ents io' unfolding pc_inv_def pc_wf_def io_fits_def by (auto simp: t simp del: map_of_eq_Some_iff)
  moreover have "spill_inv w t" using inv dirty unfolding pc_inv_def spill_inv_def by (auto simp: t is_dirty_def spilled_blob simp del: map_of_eq_Some_iff)
  moreover have "is_dirty t = is_dirty s" by (simp add: t is_dirty_def fun_eq_iff spilled_def)
  moreover have "pc_view w t p = pc_view w s p" if "p < n" "p < cached_page_count (pc_io s) \<or> is_dirty s p" for p
    using that disk by (auto simp: pc_view_def is_dirty_def spilled_blob t split: option.splits)
  ultimately show ?thesis by (simp add: pc_inv_def)
qed

lemma pc_truncate_wp:
  assumes inv: "pc_inv w s" and ro: "\<not> read_only (pc_io s)" and n: "n \<le> next_page_id s"
  shows "wp (pc_truncate w n)
    (\<lambda>_ t. pc_inv w t \<and> next_page_id t = n \<and> cipher t = cipher s \<and> max_pages t = max_pages s \<and> cached_page_count (pc_io t) = n \<and>
       \<not> read_only (pc_io t) \<and> is_dirty t = (\<lambda>p. is_dirty s p \<and> p < n) \<and>
       (\<forall>p < n. p < cached_page_count (pc_io s) \<or> is_dirty s p \<longrightarrow> pc_view w t p = pc_view w s p))
    (\<lambda>e t. io_failure e \<and> \<not> no_faults w \<and> pc_inv w t \<and> same_store s t) s"
proof -
  let ?ids = "filter (\<lambda>i. n \<le> i) (map fst (entries s))"
  have d: "distinct ?ids" using inv by (simp add: pc_inv_def pc_wf_def tracked_def)
  have "set ?ids \<subseteq> dom (map_of (entries s))" by (auto simp: dom_map_of_conv_image_fst)
  note dp = drop_pages [OF inv d this]
  define s1 where "s1 = fold drop_page ?ids s"
  have none: "map_of (entries s1) p = None" if "n \<le> p" for p
    using that dp by (auto simp: s1_def fun_eq_iff map_of_eq_None_iff)
  have inv1: "pc_inv w s1" and st1: "same_store s s1" using dp by (simp_all add: s1_def)
  note fa = forget_above [OF inv1 none]
  define s2 where "s2 = modify_spw (spw_forget_above n) s1"
  have inv2: "pc_inv w s2" and st2: "same_store s s2" and dirty2: "is_dirty s2 = (\<lambda>p. is_dirty s p \<and> p < n)"
    and view2: "\<And>p. p < n \<Longrightarrow> pc_view w s2 p = pc_view w s p" and none2: "\<And>p. n \<le> p \<Longrightarrow> map_of (entries s2) p = None"
    using fa same_store_trans [OF st1 fa(2)] dp none by (auto simp: s2_def s1_def fun_eq_iff)
  have io: "io_ok (pc_io s2)" "\<not> read_only (pc_io s2)" "unat n * stride (pc_io s2) < 2 ^ 64" "cached_page_count (pc_io s2) = cached_page_count (pc_io s)"
    and n2: "n \<le> next_page_id s2" "cipher s2 = cipher s" "max_pages s2 = max_pages s"
  proof -
    have f: "io_fits s2" using inv2 by (simp add: pc_inv_def pc_wf_def)
    have sm: "io_same (pc_io s) (pc_io s2)" "next_page_id s2 = next_page_id s" "cipher s2 = cipher s" "max_pages s2 = max_pages s"
      using st2 by (simp_all add: same_store_def)
    show "io_ok (pc_io s2)" "\<not> read_only (pc_io s2)" "cached_page_count (pc_io s2) = cached_page_count (pc_io s)"
      "n \<le> next_page_id s2" "cipher s2 = cipher s" "max_pages s2 = max_pages s"
      using f sm io_sameD [OF sm(1)] ro n by (simp_all add: io_fits_def)
    have "unat n * stride (pc_io s2) \<le> unat (next_page_id s2) * ENC_PAGE_SIZE"
      using n sm(2) f by (intro mult_mono) (auto simp: word_le_nat_alt io_fits_def unit_size_def)
    then show "unat n * stride (pc_io s2) < 2 ^ 64" using f by (simp add: io_fits_def)
  qed
  have cut: "pc_inv w t \<and> is_dirty t = (\<lambda>p. is_dirty s p \<and> p < n) \<and> (\<forall>p < n. p < cached_page_count (pc_io s) \<or> is_dirty s p \<longrightarrow> pc_view w t p = pc_view w s p)"
    if t: "t = s2\<lparr>pc_io := io', next_page_id := n\<rparr>" and io': "io_ok io'" "stride io' = stride (pc_io s2)"
      "\<forall>q. q < n \<and> q < cached_page_count (pc_io s2) \<longrightarrow> io_unit io' q = io_unit (pc_io s2) q" "cached_page_count io' = n" for t io'
    using truncated_cache [OF inv2 none2 _ n2(1) t io'] dirty2 view2 io(4) by auto
  show ?thesis
    unfolding pc_truncate_def wp_and_then wp_modify s1_def [symmetric] s2_def [symmetric] on_io_def wp_on_field
  proof (rule wp_mono [OF set_page_count_wp [OF io(1,2,3)]], goal_cases)
    case (1 u io')
    have t: "(if n < next_page_id (s2\<lparr>pc_io := io'\<rparr>) then s2\<lparr>pc_io := io', next_page_id := n\<rparr> else s2\<lparr>pc_io := io'\<rparr>) = s2\<lparr>pc_io := io', next_page_id := n\<rparr>"
      using n2(1) by (auto simp: not_less)
    show ?case using 1 cut [OF refl, of io'] n2 unfolding t by simp
  next
    case (2 e io')
    then show ?case using quiet_io [OF inv2, of io'] same_store_trans [OF st2] by (simp add: quiet_def)
  qed
qed

end
