(* ===== verification/Txn_Rollback.thy ===== *)
theory Txn_Rollback
  imports Txn_Session Cache_Truncate
begin

text \<open>
  Transactions from the outside: between transactions the manager shows the committed database;
  \<open>begin\<close> opens it for change, and \<open>rollback\<close> brings back what was committed, whatever happened in
  between and also after a failure.
\<close>

section \<open>A cache that shows the same pages\<close>

definition mirrors :: "world \<Rightarrow> page_cache \<Rightarrow> page_cache \<Rightarrow> bool" where
  "mirrors w c d \<longleftrightarrow> pc_inv w d \<and> pc_view w d = pc_view w c \<and> is_dirty d = is_dirty c \<and> next_page_id d = next_page_id c \<and>
     cached_page_count (pc_io d) = cached_page_count (pc_io c)"

lemma mirror_store:
  assumes "mirrors w c d"
  shows "page_store w T d = page_store w T c" and "raw w d = raw w c" and "whole d = whole c" and "id_room d n = id_room c n" and "se_taken v d = se_taken v c"
proof -
  have eq: "pc_view w d = pc_view w c" "is_dirty d = is_dirty c" "next_page_id d = next_page_id c" "cached_page_count (pc_io d) = cached_page_count (pc_io c)"
    using assms by (simp_all add: mirrors_def)
  show "page_store w T d = page_store w T c" unfolding page_store_def [abs_def] body_at_def [abs_def] readable_def [abs_def] eq ..
  show "raw w d = raw w c" "whole d = whole c" "id_room d n = id_room c n" "se_taken v d = se_taken v c"
    by (simp_all add: raw_def whole_def id_room_def se_taken_def eq)
qed

lemma mirror_env:
  assumes "mirrors w c d"
  shows "fm_set w v d T = fm_set w v c T" and "fm_used w v d T = fm_used w v c T" and "ca_taken w x d = ca_taken w x c" and "map_pages w x d = map_pages w x c"
    and "spare w x d = spare w x c"
  using mirror_store [OF assms] assms by (simp_all add: fm_set_def fm_used_def ca_taken_def spare_def map_pages_def mirrors_def)

lemma mirror_holds:
  assumes m: "mirrors w (tm_cache m) d"
  shows "bodies w (m\<lparr>tm_cache := d\<rparr>) = bodies w m" and "holds w K n m v P \<Longrightarrow> holds w K n (m\<lparr>tm_cache := d\<rparr>) v P"
proof -
  have u: "used w (m\<lparr>tm_cache := d\<rparr>) = used w m" by (simp add: used_def mirror_env [OF m])
  show b: "bodies w (m\<lparr>tm_cache := d\<rparr>) = bodies w m" by (simp add: bodies_def u mirror_store [OF m])
  have "ca_ok w K x d k = ca_ok w K x (tm_cache m) k" for x k
    using m by (simp add: ca_ok_def tidy_def guarded_def mirror_env [OF m] mirror_store [OF m]) (simp add: mirrors_def)
  then have "mgr_ok w K n m \<Longrightarrow> mgr_ok w K n (m\<lparr>tm_cache := d\<rparr>)" using m by (simp add: mgr_ok_def mirror_store [OF m]) (simp add: mirrors_def)
  then show "holds w K n m v P \<Longrightarrow> holds w K n (m\<lparr>tm_cache := d\<rparr>) v P" by (simp add: holds_def u b limbo_def superblocks_def)
qed

section \<open>Recovering the depths\<close>

lemma ht_depth_wp:
  assumes "pc_inv w c" and "world_ok w" and "ht_at (page_store w T c) (r, d) X"
  shows "wp (ht_recover_depth w r) (\<lambda>k t. quiet w c t \<and> (r \<noteq> PAGE_ID_NONE \<longrightarrow> k = d)) (read_fails w c) c"
proof (cases "r = PAGE_ID_NONE")
  case True
  then show ?thesis using quiet_refl [OF assms(1)] by (simp add: ht_recover_depth_def wp_simps)
next
  case False
  have "ht_ok (page_store w T c) d r" using assms(3) False by (simp add: ht_at_def)
  from ht_recover_depth_wp [OF assms(1,2) this False] show ?thesis by (rule wp_mono) auto
qed

lemma mi_depth_wp:
  assumes "pc_inv w c" and "world_ok w" and "mi_at (page_store w T c) (r, d) G"
  shows "wp (ru_recover_depth w r) (\<lambda>k t. quiet w c t \<and> (r \<noteq> PAGE_ID_NONE \<longrightarrow> k = d)) (read_fails w c) c"
proof (cases "r = PAGE_ID_NONE")
  case True
  then show ?thesis using quiet_refl [OF assms(1)] by (simp add: ru_recover_depth_def wp_simps)
next
  case False
  then have "rt_wf mi_format (page_store w T c) d r" "rt_spine (page_store w T c) d r" "d \<le> 6"
    using assms(3) by (simp_all add: mi_at_def mi_ok_def mi_tree_def rt_ok_def)
  then show ?thesis using ru_recover_loop_wp [OF assms(1,2), of T d r 0] False by (auto simp: ru_recover_depth_def elim!: wp_mono)
qed

lemma recover_depths_wp:
  assumes inv: "pc_inv w (tm_cache m)" and W: "world_ok w"
    and ht: "ht_at (page_store w T (tm_cache m)) (handle_table_page (current_roots m), d) X"
    and mi: "mi_at (page_store w T (tm_cache m)) (membership_index_page (current_roots m), d') G"
  shows "wp (recover_depths w)
    (\<lambda>_ m'. \<exists>c i k. quiet w (tm_cache m) c \<and> m' = m\<lparr>tm_cache := c, mi_depth := i, ht_depth := k\<rparr> \<and>
       (handle_table_page (current_roots m) \<noteq> PAGE_ID_NONE \<longrightarrow> k = d) \<and> (membership_index_page (current_roots m) \<noteq> PAGE_ID_NONE \<longrightarrow> i = d'))
    (\<lambda>x m'. read_fails w (tm_cache m) x (tm_cache m')) m"
  unfolding recover_depths_def wp_gets_then on_tm_cache_def wp_and_then wp_gets wp_modify wp_on_field
proof (rule wp_mono [OF mi_depth_wp [OF inv W mi]], goal_cases)
  case (1 i c)
  then have q: "quiet w (tm_cache m) c" by simp
  have inv': "pc_inv w c" and ht': "ht_at (page_store w T c) (handle_table_page (current_roots m), d) X"
    using q ht quiet_page_store [OF q] by (simp_all add: quiet_def)
  show ?case
  proof (simp, rule wp_mono [OF ht_depth_wp [OF inv' W ht']], goal_cases)
    case (1 k e)
    then show ?case using quiet_trans [OF q] \<open>_ \<and> (_ \<longrightarrow> i = d')\<close> by - (rule exI [of _ e], rule conjI, simp, rule exI [of _ i], rule exI [of _ k], simp)
  next
    case (2 x e)
    then show ?case using read_fails_later [OF q] by simp
  qed
qed simp

section \<open>Between transactions\<close>

text \<open>The state \<open>begin\<close> leaves: the committed roots, nothing allocated, nothing freed.\<close>

definition begun :: "txn_manager \<Rightarrow> txn_manager" where
  "begun s = s\<lparr>current_roots := committed_roots s, tm_freemap := fr_begin (tm_freemap s), txn_pages := txn_recycle_reset (txn_pages s),
     packer := packer_begin (packer s), active_txn := True, savepoints := [], txn_freed_pages := []\<rparr>"

definition at_rest :: "world \<Rightarrow> u64 set \<Rightarrow> nat \<Rightarrow> txn_manager \<Rightarrow> db \<Rightarrow> bool" where
  "at_rest w K n m D \<longleftrightarrow> \<not> active_txn m \<and> \<not> poisoned m \<and> \<not> read_only (pc_io (tm_cache m)) \<and> (\<forall>p. \<not> is_dirty (tm_cache m) p) \<and>
     next_page_id (tm_cache m) = total_pages (committed_roots m) \<and> cached_page_count (pc_io (tm_cache m)) = total_pages (committed_roots m) \<and>
     mgr_inv w K n (begun m) D"

lemma begun_fields [simp]:
  "tm_cache (begun m) = tm_cache m" "committed_roots (begun m) = committed_roots m" "current_roots (begun m) = committed_roots m"
  "ht_depth (begun m) = ht_depth m" "mi_depth (begun m) = mi_depth m" "savepoints (begun m) = []" "poisoned (begun m) = poisoned m"
  by (simp_all add: begun_def)

lemma begin_rest: "at_rest w K n m D \<Longrightarrow> txn_begin m = (Ok (), begun m)"
  by (simp add: at_rest_def txn_begin_def check_alive_def poison_on_fatal_def begin_inner_def begun_def and_then_def or_else_def gets_def modify_def ok_def)

text \<open>In a transaction begun from \<open>m\<close>, or after one of its methods gave up without poisoning the manager.\<close>

definition within :: "world \<Rightarrow> txn_manager \<Rightarrow> txn_manager \<Rightarrow> bool" where
  "within w m m1 \<longleftrightarrow> pc_wf w (tm_cache m1) \<and> same_device (tm_cache m) (tm_cache m1) \<and> base m1 = base (begun m)"

lemma reached_within: "reached j (begun m) m1 \<Longrightarrow> mgr_inv w K n m1 D \<Longrightarrow> within w m m1"
  using mgr_okD(1) [OF holdsD(1)] by (fastforce simp: within_def reached_def mgr_inv_def pc_inv_def)

lemma gave_up_within: "gave_up w j (begun m) e m1 \<Longrightarrow> \<not> is_fatal e \<Longrightarrow> within w m m1"
  by (auto simp: within_def gave_up_def failed_def)

text \<open>Rolled back: the manager as it was, on a cache that shows the same pages.\<close>

definition rolled :: "txn_manager \<Rightarrow> page_cache \<Rightarrow> nat \<Rightarrow> nat \<Rightarrow> txn_manager" where
  "rolled m1 c i k = m1\<lparr>current_roots := committed_roots m1, tm_cache := c, mi_depth := i, ht_depth := k, tm_freemap := fr_rollback (tm_freemap m1),
     txn_pages := txn_recycle_reset (txn_pages m1), packer := packer_rollback (packer m1), active_txn := False, savepoints := [], txn_freed_pages := []\<rparr>"

lemma begun_rolled:
  assumes "base m1 = base (begun m)"
  shows "begun (rolled m1 c i k) = (begun m)\<lparr>tm_cache := c, ht_depth := k, mi_depth := i\<rparr>"
  using assms by (auto simp: begun_def rolled_def base_def fr_begin_def fr_rollback_def packer_begin_def packer_rollback_def txn_recycle_reset_def
      intro!: txn_manager.equality freemap_recycle.equality slot_packer.equality txn_recycle.equality)

lemma discard_fields:
  "next_page_id (discard_all_dirty w s) = next_page_id s" "cipher (discard_all_dirty w s) = cipher s" "max_pages (discard_all_dirty w s) = max_pages s"
proof -
  have "next_page_id (fold (\<lambda>i s. lru_drop i (remove_entry i s)) xs t) = next_page_id t \<and> cipher (fold (\<lambda>i s. lru_drop i (remove_entry i s)) xs t) = cipher t \<and>
      max_pages (fold (\<lambda>i s. lru_drop i (remove_entry i s)) xs t) = max_pages t" for xs and t :: page_cache
    by (induction xs arbitrary: t) (simp_all add: lru_drop_def remove_entry_def)
  then show "next_page_id (discard_all_dirty w s) = next_page_id s" "cipher (discard_all_dirty w s) = cipher s" "max_pages (discard_all_dirty w s) = max_pages s"
    by (simp_all add: discard_all_dirty_def Let_def modify_spw_def)
qed

text \<open>The cache after \<open>discard_all_dirty\<close> and \<open>truncate\<close> shows what it showed when the transaction began.\<close>

lemma discard_truncate_wp:
  assumes inv: "pc_inv w c" and ro: "\<not> read_only (pc_io c)" and clean: "\<And>p. \<not> is_dirty c p" and n: "next_page_id c = n" "cached_page_count (pc_io c) = n"
    and wf: "pc_wf w c1" and dev: "same_device c c1"
  shows "wp (pc_truncate w n) (\<lambda>_ d. mirrors w c d \<and> max_pages d = max_pages c1 \<and> \<not> read_only (pc_io d)) (\<lambda>e d. io_failure e \<and> \<not> no_faults w) (discard_all_dirty w c1)"
proof -
  let ?c2 = "discard_all_dirty w c1"
  note d2 = discard_all_dirty_correct [OF wf] and f2 = discard_fields [of w c1]
  have io: "io_same (pc_io c) (pc_io ?c2)" "n \<le> next_page_id ?c2" "cipher ?c2 = cipher c" using dev d2(4) f2 n by (simp_all add: same_device_def)
  have view0: "pc_view w c p = disk_page w (cipher c) (pc_io c) p" for p by (rule clean_on_disk [OF inv clean])
  have view2: "pc_view w ?c2 p = pc_view w c p" for p using d2(2) dev disk_page_same [of "pc_io c" "pc_io c1"] view0 by (simp add: same_device_def)
  have ro2: "\<not> read_only (pc_io ?c2)" "cached_page_count (pc_io ?c2) = n" using ro n(2) io_sameD [OF io(1)] by simp_all
  show ?thesis
  proof (rule wp_mono [OF pc_truncate_wp [OF d2(1) ro2(1) io(2)]], goal_cases)
    case (1 u d)
    have nd: "\<not> is_dirty d p" for p using 1 d2(3) by simp
    have "pc_view w d p = pc_view w c p" for p
    proof (cases "p < n")
      case True
      then show ?thesis using 1 view2 [of p] ro2(2) by simp
    next
      case False
      then have "disk_page w (cipher d) (pc_io d) p = None" "pc_view w c p = None" using 1 n(2) view0 [of p] by (simp_all add: disk_page_def)
      then show ?thesis using clean_on_disk [of w d p] nd 1 by simp
    qed
    then show ?case using 1 nd clean n f2(3) by (auto simp: mirrors_def fun_eq_iff)
  qed simp
qed

lemma mirrors_quiet: "mirrors w c d \<Longrightarrow> quiet w d e \<Longrightarrow> mirrors w c e"
  using io_sameD(3) [of "pc_io d" "pc_io e"] by (simp add: mirrors_def quiet_def same_store_def)

text \<open>The depth of a table that has no pages does not matter.\<close>

lemma mi_none: "mi_at B (PAGE_ID_NONE, i) G = mi_at B (PAGE_ID_NONE, k) G" "mi_pages B i PAGE_ID_NONE = mi_pages B k PAGE_ID_NONE"
  by (simp_all add: mi_at_def mi_ok_def mi_view_def [abs_def] mi_pages_def)

lemma holds_redepth:
  assumes h: "holds w K n m v P" and at: "v_ht v = ht_loc m" "v_mi v = mi_loc m"
    and k: "handle_table_page (current_roots m) \<noteq> PAGE_ID_NONE \<longrightarrow> k = ht_depth m" and i: "membership_index_page (current_roots m) \<noteq> PAGE_ID_NONE \<longrightarrow> i = mi_depth m"
  shows "holds w K n (m\<lparr>ht_depth := k, mi_depth := i\<rparr>)
    (v\<lparr>v_ht := (handle_table_page (current_roots m), k), v_mi := (membership_index_page (current_roots m), i)\<rparr>) P"
proof -
  have ht: "ht_at B (handle_table_page (current_roots m), k) T = ht_at B (v_ht v) T" "ht_region B (handle_table_page (current_roots m), k) = ht_region B (v_ht v)" for B T
    using at(1) k by (auto simp: ht_at_def ht_region_def)
  have mi: "mi_at B (membership_index_page (current_roots m), i) G = mi_at B (v_mi v) G" "mi_region B (membership_index_page (current_roots m), i) = mi_region B (v_mi v)" for B G
    using i mi_none(1) [of B i G "mi_depth m"] mi_none(2) [of B i "mi_depth m"] by (cases "membership_index_page (current_roots m) = PAGE_ID_NONE"; simp add: at(2))+
  have "holds w K n m (v\<lparr>v_ht := (handle_table_page (current_roots m), k), v_mi := (membership_index_page (current_roots m), i)\<rparr>) P"
    using h unfolding holds_def regions_def by (simp add: ht mi [unfolded fst_conv snd_conv])
  then show ?thesis by simp
qed

lemma rolled_rest:
  assumes rest: "at_rest w K n m D" and win: "within w m m1" and c: "mirrors w (tm_cache m) c" "\<not> read_only (pc_io c)"
    and k: "handle_table_page (committed_roots m) \<noteq> PAGE_ID_NONE \<longrightarrow> k = ht_depth m"
    and i: "membership_index_page (committed_roots m) \<noteq> PAGE_ID_NONE \<longrightarrow> i = mi_depth m"
  shows "at_rest w K n (rolled m1 c i k) D"
proof -
  have b: "base m1 = base (begun m)" using win by (simp add: within_def)
  note br = begun_rolled [OF b, of c i k]
  obtain v where v: "holds w K n (begun m) v {}" "rests K (begun m) v" "db_of v = D" using rest by (auto simp: at_rest_def mgr_inv_def)
  let ?v = "v\<lparr>v_ht := (handle_table_page (committed_roots m), k), v_mi := (membership_index_page (committed_roots m), i)\<rparr>"
  let ?m = "(begun m)\<lparr>tm_cache := c, ht_depth := k, mi_depth := i\<rparr>"
  have "holds w K n ((begun m)\<lparr>tm_cache := c\<rparr>) v {}" by (rule mirror_holds(2)) (use c v in simp_all)
  from holds_redepth [OF this, of k i] have h: "holds w K n ?m ?v {}" using restsD(1,2) [OF v(2)] k i by simp
  have "rests K ?m ?v" using v(2) by (auto simp: rests_def packs_def)
  moreover have "db_of ?v = D" using v(3) by (simp add: db_of_def fun_eq_iff)
  moreover have "active_txn ?m" "\<not> poisoned ?m" using rest by (simp_all add: at_rest_def begun_def)
  ultimately have "mgr_inv w K n ?m D" using h unfolding mgr_inv_def by blast
  then have "mgr_inv w K n (begun (rolled m1 c i k)) D" by (simp add: br)
  moreover have "committed_roots m1 = committed_roots m" "poisoned m1 = poisoned m" using b by (simp_all add: base_def begun_def)
  ultimately show ?thesis using rest c by (simp add: at_rest_def rolled_def mirrors_def)
qed

lemma rollback_inner_wp:
  assumes rest: "at_rest w K n m D" and win: "within w m m1"
  shows "wp (rollback_inner w) (\<lambda>_ m2. at_rest w K n m2 D \<and> committed_roots m2 = committed_roots m)
    (\<lambda>e m2. env_error w e \<and> (no_faults w \<longrightarrow> max_pages (tm_cache m1) < unat (total_pages (committed_roots m)))) m1"
proof -
  obtain v where v: "holds w K n (begun m) v {}" "rests K (begun m) v" using rest by (auto simp: at_rest_def mgr_inv_def)
  have b: "base m1 = base (begun m)" and wf: "pc_wf w (tm_cache m1)" and dev: "same_device (tm_cache m) (tm_cache m1)" using win by (simp_all add: within_def)
  have act: "active_txn m1" and cr: "committed_roots m1 = committed_roots m" using b by (simp_all add: base_def begun_def)
  have ok: "pc_inv w (tm_cache m)" "world_ok w" using mgr_okD(1,2) [OF holdsD(1) [OF v(1)]] by simp_all
  have R: "\<not> read_only (pc_io (tm_cache m))" "\<And>p. \<not> is_dirty (tm_cache m) p" "next_page_id (tm_cache m) = total_pages (committed_roots m)"
    "cached_page_count (pc_io (tm_cache m)) = total_pages (committed_roots m)" using rest by (simp_all add: at_rest_def)
  note cut = discard_truncate_wp [OF ok(1) R wf dev]
  show ?thesis
    unfolding rollback_inner_def wp_gets_then using act
  proof (simp add: wp_and_then wp_modify wp_gets on_tm_cache_def wp_on_field cr, intro wp_mono [OF cut], goal_cases)
    case (1 u d)
    then have mir: "mirrors w (tm_cache m) d" and md: "max_pages d = max_pages (tm_cache m1)" "\<not> read_only (pc_io d)" by auto
    let ?m = "m1\<lparr>tm_cache := d, current_roots := committed_roots m\<rparr>"
    have store: "page_store w (used w (begun m)) d = bodies w (begun m)" using mirror_store(1) [OF mir] by (simp add: bodies_def)
    have inv: "pc_inv w (tm_cache ?m)" using mir by (simp add: mirrors_def)
    have ht: "ht_at (page_store w (used w (begun m)) (tm_cache ?m)) (handle_table_page (current_roots ?m), ht_depth m) (v_table v)"
      and mi: "mi_at (page_store w (used w (begun m)) (tm_cache ?m)) (membership_index_page (current_roots ?m), mi_depth m) (v_tags v)"
      using holdsD(2,3) [OF v(1)] restsD(1,2) [OF v(2)] by (simp_all add: store)
    have sp: "space d = unat (total_pages (committed_roots m))" using mir R(3,4) by (simp add: mirrors_def space_def)
    show ?case
    proof (rule wp_mono [OF recover_depths_wp [OF inv ok(2) ht mi]], goal_cases)
      case (1 u' m3)
      then obtain c i k where q: "quiet w d c" and m3: "m3 = ?m\<lparr>tm_cache := c, mi_depth := i, ht_depth := k\<rparr>"
        and ik: "handle_table_page (committed_roots m) \<noteq> PAGE_ID_NONE \<longrightarrow> k = ht_depth m" "membership_index_page (committed_roots m) \<noteq> PAGE_ID_NONE \<longrightarrow> i = mi_depth m" by auto
      have ro: "\<not> read_only (pc_io c)" using q md(2) io_sameD(4) [of "pc_io d" "pc_io c"] by (simp add: quiet_def same_store_def)
      note r = rolled_rest [OF rest win mirrors_quiet [OF mir q] ro ik]
      then show ?case by (simp add: m3 rolled_def cr)
    next
      case (2 e m3)
      then show ?case using sp md by (auto simp: read_fails_def roomy_def)
    qed
  next
    case (2 e d)
    then show ?case by (simp add: env_error_def)
  qed
qed

end
