(* ===== verification/Txn_Commit.thy ===== *)
theory Txn_Commit
  imports Txn_Rollback
begin

text \<open>
  Committing: what reaches the device and in which order. A commit that returns has put the whole
  database and a superblock that names it on the device; one that fails, at any point, has left every
  page of the committed database alone, with the possible exception of the superblock slot it was
  about to replace.
\<close>

section \<open>A flush seen page by page\<close>

abbreviation below :: "page_cache \<Rightarrow> u64 set" where
  "below c \<equiv> {p. p < next_page_id c}"

lemma flush_view:
  assumes inv: "pc_inv w c" and wh: "whole c" and f: "all_on_disk w c d" and p: "p < next_page_id c"
  shows "pc_view w d p = pc_view w c p" and "raw w c = {} \<Longrightarrow> readable w d p = readable w c p"
proof -
  show v: "pc_view w d p = pc_view w c p"
  proof (cases "is_dirty c p")
    case True
    then obtain pg where "pc_view w c p = Some pg" using dirty_view [OF inv] by blast
    then show ?thesis using f by (simp add: all_on_disk_def)
  next
    case False
    then have "p < cached_page_count (pc_io c)" using wh p unfolding whole_def by blast
    then have "disk_page w (cipher d) (pc_io d) p = disk_page w (cipher c) (pc_io c) p"
      using f False by (auto simp: all_on_disk_def keeps_clean_def disk_page_def)
    then show ?thesis using clean_on_disk [OF inv False] clean_on_disk [of w d p] f by (simp add: all_on_disk_def)
  qed
  show "readable w d p = readable w c p" if "raw w c = {}"
    using that f v by (auto simp: readable_def all_on_disk_def raw_def)
qed

lemma flush_store:
  assumes "pc_inv w c" and "whole c" and "raw w c = {}" and f: "all_on_disk w c d" and T: "T \<subseteq> below c"
  shows "page_store w T d = page_store w T c"
proof (rule ext)
  fix p
  show "page_store w T d p = page_store w T c p"
    using flush_view [OF assms(1,2) f, of p] assms(3) T by (cases "p \<in> T") (auto simp: page_store_def body_at_def)
qed

lemma flush_tidy:
  assumes "pc_inv w c" and "whole c" and "raw w c = {}" and f: "all_on_disk w c d" and ti: "tidy w x c"
  shows "tidy w x d" and "ca_taken w x d = ca_taken w x c" and "map_pages w x d = map_pages w x c"
proof -
  have nx: "next_page_id d = next_page_id c" using f by (simp add: all_on_disk_def)
  have "se_taken v c \<subseteq> below c" for v by (auto simp: se_taken_def)
  then have st: "page_store w (se_taken v c) d = page_store w (se_taken v c) c" for v by (rule flush_store [OF assms(1-4)])
  have se: "se_taken v d = se_taken v c" for v by (simp add: se_taken_def nx)
  have fm: "fm_set w v d T = fm_set w v c T" "fm_used w v d T = fm_used w v c T" for v T by (simp_all add: fm_set_def fm_used_def se st)
  then show mp: "map_pages w x d = map_pages w x c" by (simp add: map_pages_def)
  have sp: "spare w x d = spare w x c" by (simp add: spare_def fm)
  show "ca_taken w x d = ca_taken w x c" by (simp add: ca_taken_def sp mp nx)
  show "tidy w x d" using ti unfolding tidy_def by (simp add: se st fm sp mp nx)
qed

section \<open>The device\<close>

text \<open>The units of some pages are what they were.\<close>

definition intact :: "u64 set \<Rightarrow> page_io \<Rightarrow> page_io \<Rightarrow> bool" where
  "intact K io io' \<longleftrightarrow> (\<forall>p \<in> K. p < cached_page_count io \<longrightarrow> p < cached_page_count io' \<and> io_unit io' p = io_unit io p)"

lemma intact_trans: "intact K a b \<Longrightarrow> intact K b c \<Longrightarrow> intact K a c"
  by (simp add: intact_def)

lemma intact_mono: "intact K a b \<Longrightarrow> L \<subseteq> K \<Longrightarrow> intact L a b"
  by (auto simp: intact_def)

lemma same_intact: "io_same io io' \<Longrightarrow> intact K io io'"
  by (simp add: intact_def io_sameD io_same_unit)

lemma clean_intact: "keeps_clean s t \<Longrightarrow> (\<And>p. p \<in> K \<Longrightarrow> \<not> is_dirty s p) \<Longrightarrow> intact K (pc_io s) (pc_io t)"
  by (auto simp: intact_def keeps_clean_def)

lemma frame_intact: "io_frame io q io' \<Longrightarrow> cached_page_count io \<le> cached_page_count io' \<Longrightarrow> intact (K - {q}) io io'"
  by (auto simp: intact_def io_frame_def)

text \<open>What a reader of the device alone sees: the bodies of the pages whose checksum holds.\<close>

definition disk_bodies :: "world \<Rightarrow> u8 list option \<Rightarrow> page_io \<Rightarrow> u64 \<rightharpoonup> u8 list" where
  "disk_bodies w c io p = (case disk_page w c io p of None \<Rightarrow> None | Some pg \<Rightarrow> if verify_checksum (w_xxh w) pg then Some (page_body pg) else None)"

lemma disk_bodies_intact:
  assumes "intact {p} io io'" and "stride io' = stride io" and "disk_bodies w c io p = Some b"
  shows "disk_bodies w c io' p = Some b"
  using assms by (auto simp: disk_bodies_def disk_page_def intact_def split: if_splits)

lemma flush_bodies:
  assumes f: "all_on_disk w c d" and st: "raw w c = {}" and b: "page_store w T c p = Some b"
  shows "disk_bodies w (cipher d) (pc_io d) p = Some b"
proof -
  have r: "readable w c p" and bo: "body_at w c p = Some b" using b by (auto simp: page_store_def split: if_splits)
  then obtain pg where pg: "pc_view w c p = Some pg" "page_body pg = b" by (auto simp: body_at_def)
  have "verify_checksum (w_xxh w) pg" using r pg(1) st by (auto simp: readable_def raw_def)
  moreover have "disk_page w (cipher d) (pc_io d) p = Some pg" using f pg(1) by (simp add: all_on_disk_def)
  ultimately show ?thesis using pg(2) by (simp add: disk_bodies_def)
qed

section \<open>Handing back what the transaction freed\<close>

lemma drain_tidy:
  assumes ti: "tidy w x c" and y: "y = x\<lparr>al_pool := (al_pool x)\<lparr>recyclable := []\<rparr>\<rparr>"
  shows "tidy w y c" and "ca_taken w y c = ca_taken w x c \<union> set (recyclable (al_pool x))" and "map_pages w y c = map_pages w x c"
proof -
  have sets: "free_ids w y c = free_ids w x c" "map_pages w y c = map_pages w x c" "spare w y c = free_ids w x c \<union> set (al_reuse x)"
    by (auto simp: y map_pages_def spare_def)
  show "map_pages w y c = map_pages w x c" by (rule sets)
  show "tidy w y c" using ti unfolding tidy_def sets by (auto simp: y spare_def)
  have "set (recyclable (al_pool x)) \<subseteq> {p. p < next_page_id c} - free_ids w x c - set (al_reuse x) - map_pages w x c"
    using ti unfolding tidy_def spare_def by blast
  then show "ca_taken w y c = ca_taken w x c \<union> set (recyclable (al_pool x))" unfolding ca_taken_def sets spare_def [of w x c] by blast
qed

lemma kept_set:
  assumes "tidy w x c"
  shows "ca_taken w x c \<union> (map_pages w x c - session_owned (al_tree x)) \<subseteq> se_taken (al_reuse x) c - session_owned (al_tree x)"
proof -
  have "session_owned (al_tree x) \<subseteq> map_pages w x c" by (auto simp: map_pages_def)
  then show ?thesis using tidy_taken(1,2) [OF assms] by blast
qed

definition released :: "txn_manager \<Rightarrow> u64 list" where
  "released m = txn_freed_pages m @ concat (map sp_freed_pages (savepoints m)) @ recyclable (txn_pages m)"

abbreviation drained :: "txn_manager \<Rightarrow> txn_recycle" where
  "drained m \<equiv> (txn_pages m)\<lparr>recyclable := []\<rparr>"

lemma released_ok:
  assumes h: "holds w K n m v P"
  shows "tidy w (env_of (tm_freemap m) (current_roots m) (drained m)) (tm_cache m)"
    and "set (released m) \<subseteq> ca_taken w (env_of (tm_freemap m) (current_roots m) (drained m)) (tm_cache m)"
    and "0 \<notin> set (released m)" and "distinct (released m)"
proof -
  note ti = mgr_okD(5) [OF holdsD(1) [OF h]]
  have y: "env_of (tm_freemap m) (current_roots m) (drained m) = (menv m)\<lparr>al_pool := (al_pool (menv m))\<lparr>recyclable := []\<rparr>\<rparr>" by (simp add: env_of_def)
  note dr = drain_tidy [OF ti y]
  show "tidy w (env_of (tm_freemap m) (current_roots m) (drained m)) (tm_cache m)" by (rule dr)
  have lim: "set (txn_freed_pages m @ concat (map sp_freed_pages (savepoints m))) \<subseteq> used w m" using holdsD(8) [OF h] by (auto simp: limbo_def)
  then show "set (released m) \<subseteq> ca_taken w (env_of (tm_freemap m) (current_roots m) (drained m)) (tm_cache m)"
    unfolding dr(2) by (auto simp: released_def used_def)
  have "0 \<notin> set (limbo m)" using holdsD(6,10) [OF h] by auto
  moreover have rec: "\<forall>p \<in> set (recyclable (txn_pages m)). 0 < p" "distinct (recyclable (txn_pages m))" "set (recyclable (txn_pages m)) \<inter> used w m = {}"
    using ti by (auto simp: tidy_def spare_def used_def ca_taken_def)
  ultimately show "0 \<notin> set (released m)" by (auto simp: released_def limbo_def)
  have "distinct (txn_freed_pages m @ concat (map sp_freed_pages (savepoints m)))" using holdsD(5) [OF h] by (auto simp: limbo_def)
  then show "distinct (released m)" using rec lim unfolding released_def append_assoc [symmetric] by (subst distinct_append) blast
qed

text \<open>From the flush of the data to the flush of the free map.\<close>

lemma persisted:
  assumes h: "holds w K n m v P" and f: "all_on_disk w (tm_cache m) c1"
    and tb: "took_back w pool j A (tm_freemap m, current_roots m, c1) (f', rs', d)"
  shows "keeps w (used w m \<union> K) c1 d" and "raw w d = {}" and "rs'\<lparr>freemap_page := 0, freemap_depth := 0\<rparr> = (current_roots m)\<lparr>freemap_page := 0, freemap_depth := 0\<rparr>"
    and "page_store w (used w m) d = bodies w m" and "p \<in> K \<Longrightarrow> \<not> is_dirty d p"
proof -
  note ok = holdsD(1) [OF h]
  have c: "pc_inv w (tm_cache m)" "whole (tm_cache m)" "raw w (tm_cache m) = {}" using ok by (simp_all add: mgr_ok_def)
  note ti = mgr_okD(5) [OF ok] and gd = mgr_okD(6) [OF ok]
  have "se_taken (structural_reuse (tm_freemap m)) c1 = se_taken (structural_reuse (tm_freemap m)) (tm_cache m)" using f by (simp add: se_taken_def all_on_disk_def)
  then have sub: "used w m \<union> K \<subseteq> se_taken (structural_reuse (tm_freemap m)) c1 - fr_session_owned (tm_freemap m)"
    using kept_set [OF ti] gd unfolding guarded_def used_def by (auto simp: env_of_def)
  show k: "keeps w (used w m \<union> K) c1 d" by (rule keeps_mono [OF _ sub]) (use tb in \<open>simp add: took_back_def\<close>)
  have nd: "\<not> is_dirty c1 p" for p using f by (simp add: all_on_disk_def)
  then have "raw w c1 = {}" by (simp add: raw_def)
  then show "raw w d = {}" using tb by (auto simp: took_back_def)
  show "rs'\<lparr>freemap_page := 0, freemap_depth := 0\<rparr> = (current_roots m)\<lparr>freemap_page := 0, freemap_depth := 0\<rparr>" using tb by (simp add: took_back_def)
  have "used w m \<subseteq> below (tm_cache m)" using used_below by blast
  note fs = flush_store [OF c f this]
  have "page_store w (used w m) d = page_store w (used w m) c1" using k by (auto simp: keeps_def page_store_def fun_eq_iff)
  then show "page_store w (used w m) d = bodies w m" by (simp add: fs bodies_def)
  show "\<not> is_dirty d p" if "p \<in> K" using k nd that by (auto simp: keeps_def)
qed

section \<open>The committed database on the device\<close>

text \<open>Pages that stand for a database: the tables the roots name and the values their entries point to.\<close>

definition stored :: "(u64 \<rightharpoonup> u8 list) \<Rightarrow> roots \<Rightarrow> db \<Rightarrow> bool" where
  "stored B rs D \<longleftrightarrow> (\<exists>v. fst (v_ht v) = handle_table_page rs \<and> fst (v_mi v) = membership_index_page rs \<and>
     ht_at B (v_ht v) (v_table v) \<and> mi_at B (v_mi v) (v_tags v) \<and> layout B (v_slots v) (v_entries v) (v_chains v) (v_values v) \<and>
     v_entries v None = None \<and> (\<forall>h. v_table v h = v_entries v (Some h)) \<and> v_tags v = tagged (v_table v) \<and> db_of v = D)"

lemma stored_on:
  assumes h: "holds w K n m v P" and r: "rests K m v"
    and same: "\<And>p b. bodies w m p = Some b \<Longrightarrow> p \<notin> superblocks m \<Longrightarrow> B p = Some b"
    and rs: "handle_table_page rs = handle_table_page (current_roots m)" "membership_index_page rs = membership_index_page (current_roots m)"
  shows "stored B rs (db_of v)"
proof -
  have out: "p \<notin> superblocks m" if "p \<in> X" "X \<in> set (regions (bodies w m) v)" for p X
    using holdsD(6) [OF h] that by auto
  have ht: "B p = bodies w m p" if "p \<in> ht_region (bodies w m) (v_ht v)" for p
    using ht_region_dom [OF holdsD(2) [OF h] that] same out [OF that] by (auto simp: regions_def)
  have mi: "B p = bodies w m p" if "p \<in> mi_region (bodies w m) (v_mi v)" for p
    using mi_region_dom [OF holdsD(3) [OF h] that] same out [OF that] by (auto simp: regions_def)
  have val: "B p = bodies w m p" if "p \<in> value_pages (v_slots v) (v_chains v)" for p
  proof -
    have "\<exists>b. bodies w m p = Some b" using that layout_data_body [OF holdsD(4) [OF h], of p] chain_pages_dom [OF holdsD(4) [OF h], of p] by blast
    moreover have "p \<notin> superblocks m" using that out [of p "dom (v_slots v)"] out [of p "chain_pages (v_chains v)"] by (auto simp: regions_def)
    ultimately show ?thesis using same by fastforce
  qed
  have "ht_at B (v_ht v) (v_table v)" using ht_frame(2) [OF ht holdsD(2) [OF h]] .
  moreover have "mi_at B (v_mi v) (v_tags v)" using mi_frame(2) [OF mi holdsD(3) [OF h]] .
  moreover have "layout B (v_slots v) (v_entries v) (v_chains v) (v_values v)" using layout_frame [OF holdsD(4) [OF h] val] .
  ultimately show ?thesis using restsD [OF r] rs unfolding stored_def by (intro exI [of _ v]) auto
qed

text \<open>Writing the superblock: its slot and nothing else.\<close>

lemma slot_write_wp:
  assumes io: "io_ok io" "\<not> read_only io" and p: "p < cached_page_count io" and len: "length buf = stride io"
  shows "wp (and_then (write_page w p buf) (\<lambda>_. fsync w))
    (\<lambda>_ io'. intact (K - {p}) io io' \<and> stride io' = stride io \<and> io_unit io' p = buf \<and> cached_page_count io' = cached_page_count io \<and> (\<exists>l. io_log io' = l @ [Fsynced]))
    (\<lambda>e io'. intact (K - {p}) io io') io"
  unfolding write_page_def wp_and_then
proof (rule wp_mono [OF write_page_unit_wp [OF io len io_ok_unit(1) [OF io(1) p]]], goal_cases)
  case (1 u io1)
  have "p + 1 \<le> cached_page_count io" using p by (metis add.commute inc_le)
  then have io1: "io_frame io p io1" "io_unit io1 p = buf" "cached_page_count io1 = cached_page_count io" "\<not> read_only io1" "stride io1 = stride io"
    using 1 io(2) by (auto simp: io_frame_def max_def)
  show ?case
    by (rule wp_mono [OF fsync_wp [OF io1(4)]])
      (use io1 frame_intact [OF io1(1), of K] same_intact intact_trans in \<open>auto simp: io_unit_def intact_def io_sameD io_same_unit\<close>)
next
  case (2 e io1)
  then show ?case by (auto intro: frame_intact)
qed

section \<open>The commit\<close>

definition commit_slot :: "u64 \<Rightarrow> txn_manager \<Rightarrow> u64" where
  "commit_slot counter m = counter mod ucast (tm_superblock_count m)"

text \<open>
  A committed database is on the device: the pages the committed roots name stand for it, the slot
  holds the superblock with these roots, and the last thing that happened to the device is a sync.
\<close>

definition durable :: "world \<Rightarrow> u64 \<Rightarrow> db \<Rightarrow> txn_manager \<Rightarrow> bool" where
  "durable w slot D m \<longleftrightarrow> \<not> active_txn m \<and> stored (disk_bodies w None (pc_io (tm_cache m))) (committed_roots m) D \<and>
     io_unit (pc_io (tm_cache m)) slot = serialize (w_xxh w) (commit_superblock (total_pages (committed_roots m)) m) \<and>
     current_roots m = (committed_roots m)\<lparr>total_pages := total_pages (current_roots m)\<rparr> \<and> (\<exists>l. io_log (pc_io (tm_cache m)) = l @ [Fsynced])"

text \<open>The end of the commit, from the second flush on.\<close>

abbreviation seal_commit :: "world \<Rightarrow> unit txn_op" where
  "seal_commit w \<equiv>
     and_then (gets (\<lambda>s. io_page_count (pc_io (tm_cache s)))) (\<lambda>total_pages.
     and_then (gets (commit_superblock total_pages)) (\<lambda>sb.
     and_then (superblock_bytes w sb) (\<lambda>buf.
     and_then (and_then (gets id) (\<lambda>s. if tm_superblock_count s = 0 then panic
       else ok (tm_txn_counter s mod ucast (tm_superblock_count s)))) (\<lambda>inactive.
     and_then (write_superblock w inactive buf) (\<lambda>_.
     and_then (on_tm_cache (on_io (fsync w))) (\<lambda>_.
     modify (\<lambda>s. s\<lparr>committed_roots := (current_roots s)\<lparr>total_pages := total_pages\<rparr>, packer := packer_commit (packer s),
       active_txn := False, savepoints := [], txn_freed_pages := [], txn_pages := txn_recycle_reset (txn_pages s),
       tm_freemap := fr_commit (tm_freemap s)\<rparr>)))))))"

lemma seal_commit_wp:
  assumes h: "holds w K n m v {}" and r: "rests K m v" and plain: "cipher d1 = None" "tm_cipher m = None"
    and slot: "slot = commit_slot nc m" and d1: "pc_inv w d1" "\<not> read_only (pc_io d1)" "next_page_id (tm_cache m) \<le> cached_page_count (pc_io d1)"
    and old: "intact (K - {slot}) (pc_io (tm_cache m)) (pc_io d1)"
    and new: "\<And>p b. bodies w m p = Some b \<Longrightarrow> disk_bodies w None (pc_io d1) p = Some b"
    and rs: "handle_table_page rs = handle_table_page (current_roots m)" "membership_index_page rs = membership_index_page (current_roots m)"
    and s: "tm_cache s = d1" "current_roots s = rs" "tm_cipher s = tm_cipher m" "tm_superblock_count s = tm_superblock_count m" "tm_txn_counter s = nc"
  shows "wp (seal_commit w)
    (\<lambda>_ m'. intact (K - {slot}) (pc_io (tm_cache m)) (pc_io (tm_cache m')) \<and> durable w slot (db_of v) m')
    (\<lambda>e m'. intact (K - {slot}) (pc_io (tm_cache m)) (pc_io (tm_cache m'))) s"
proof -
  have z: "0 \<in> superblocks m" "superblocks m \<subseteq> used w m" using holdsD(7,10) [OF h] by auto
  have cnt: "tm_superblock_count m \<noteq> 0" using z(1) by (auto simp: superblocks_def)
  have "0 < unat (ucast (tm_superblock_count m) :: u64)" using z(1) by (simp add: superblocks_def word_less_nat_alt)
  then have sb: "slot \<in> superblocks m" by (simp add: superblocks_def slot commit_slot_def word_less_nat_alt unat_mod)
  then have "slot < next_page_id (tm_cache m)" using z(2) used_below by blast
  then have lt: "slot < cached_page_count (pc_io d1)" using d1(3) by simp
  have io: "io_ok (pc_io d1)" "stride (pc_io d1) = 8192" using d1(1) plain by (simp_all add: pc_inv_def pc_wf_def io_fits_def unit_size_def)
  let ?t = "io_page_count (pc_io d1)"
  let ?buf = "serialize (w_xxh w) (commit_superblock ?t s)"
  let ?fin = "\<lambda>io. s\<lparr>tm_cache := d1\<lparr>pc_io := io\<rparr>, committed_roots := rs\<lparr>total_pages := ?t\<rparr>, packer := packer_commit (packer s),
       active_txn := False, savepoints := [], txn_freed_pages := [], txn_pages := txn_recycle_reset (txn_pages s), tm_freemap := fr_commit (tm_freemap s)\<rparr>"
  have "durable w slot (db_of v) (?fin io)"
    if i: "intact (UNIV - {slot}) (pc_io d1) io" and st: "stride io = stride (pc_io d1)" and u: "io_unit io slot = ?buf" "\<exists>l. io_log io = l @ [Fsynced]" for io
  proof -
    have "disk_bodies w None io p = Some b" if b: "bodies w m p = Some b" and "p \<notin> superblocks m" for p b
      by (rule disk_bodies_intact [OF intact_mono [OF i] st new [OF b]]) (use that sb in auto)
    then have "stored (disk_bodies w None io) (rs\<lparr>total_pages := ?t\<rparr>) (db_of v)" by (rule stored_on [OF h r]) (use rs in simp_all)
    moreover have "commit_superblock ?t (?fin io) = commit_superblock ?t s" by (simp add: commit_superblock_def s)
    ultimately show ?thesis using u by (simp add: durable_def s)
  qed
  note fin = this
  show ?thesis
  proof (cases "length ?buf = 8192")
    case True
    have len: "length ?buf = stride (pc_io d1)" using True io(2) by simp
    have out: "intact (K - {slot}) (pc_io (tm_cache m)) io" if "intact (UNIV - {slot}) (pc_io d1) io" for io
      by (rule intact_trans [OF old intact_mono [OF that]]) auto
    show ?thesis
    proof (simp add: wp_and_then wp_simps superblock_bytes_def write_superblock_def on_tm_cache_def on_io_def wp_on_field s plain cnt slot [unfolded commit_slot_def, symmetric],
        rule wp_mono [OF slot_write_wp [OF io(1) d1(2) lt len, of w UNIV, unfolded wp_and_then]], goal_cases)
      case (1 u io)
      then show ?case by (rule wp_mono) (use fin out in auto)
    next
      case (2 e io)
      then show ?case by (rule out)
    qed
  next
    case False
    then show ?thesis
      using old d1(2) io(2) by (simp add: wp_and_then wp_simps superblock_bytes_def write_superblock_def on_tm_cache_def on_io_def wp_on_field s plain cnt write_page_def write_page_unit_def)
  qed
qed

lemma flushed_whole:
  assumes "whole c" and "pc_inv w c" and f: "all_on_disk w c d"
  shows "next_page_id c \<le> cached_page_count (pc_io d)" and "whole d"
proof -
  have p: "p < cached_page_count (pc_io d)" if "p < next_page_id c" for p
  proof (cases "is_dirty c p")
    case True
    then obtain pg where "pc_view w c p = Some pg" using dirty_view [OF assms(2)] by blast
    then have "disk_page w (cipher c) (pc_io d) p = Some pg" using f by (simp add: all_on_disk_def)
    then show ?thesis by (simp add: disk_page_def split: if_splits)
  next
    case False
    then have "p < cached_page_count (pc_io c)" using assms(1) that unfolding whole_def by blast
    moreover have "cached_page_count (pc_io c) \<le> cached_page_count (pc_io d)" using f by (simp add: all_on_disk_def keeps_clean_def)
    ultimately show ?thesis by (rule order_less_le_trans)
  qed
  then show "next_page_id c \<le> cached_page_count (pc_io d)" by (meson leI order_less_irrefl)
  show "whole d" using p f by (simp add: whole_def all_on_disk_def)
qed

text \<open>The free map taking back the released pages, and the second flush.\<close>

lemma second_flush_wp:
  assumes h: "holds w K n m v {}" and r: "rests K m v" and plain: "cipher (tm_cache m) = None" "tm_cipher m = None"
    and f: "all_on_disk w (tm_cache m) c1" and ro: "\<not> read_only (pc_io c1)"
    and tb: "took_back w pool j A (tm_freemap m, current_roots m, c1) (f', rs', d)"
    and s: "tm_cache s = d" "current_roots s = rs'" "tm_cipher s = tm_cipher m" "tm_superblock_count s = tm_superblock_count m"
    and slot: "slot = commit_slot nc m"
  shows "wp (and_then (on_tm_cache (pc_flush w)) (\<lambda>_. and_then (modify (\<lambda>s. s\<lparr>tm_txn_counter := nc\<rparr>)) (\<lambda>_. seal_commit w)))
    (\<lambda>_ m'. intact (K - {slot}) (pc_io (tm_cache m)) (pc_io (tm_cache m')) \<and> durable w slot (db_of v) m')
    (\<lambda>e m'. intact (K - {slot}) (pc_io (tm_cache m)) (pc_io (tm_cache m'))) s"
proof -
  note ok = holdsD(1) [OF h] and pe = persisted [OF h f tb]
  have c: "pc_inv w (tm_cache m)" "world_ok w" "whole (tm_cache m)" "\<And>p. p \<in> K \<Longrightarrow> \<not> is_dirty (tm_cache m) p"
    using ok mgr_okD(2) [OF ok] by (simp_all add: mgr_ok_def)
  have i1: "intact K (pc_io (tm_cache m)) (pc_io c1)" by (rule clean_intact) (use f c(4) in \<open>auto simp: all_on_disk_def\<close>)
  have d: "pc_inv w d" "io_same (pc_io c1) (pc_io d)" "cipher d = None" "next_page_id (tm_cache m) \<le> next_page_id d" "whole d"
    using pe(1) f plain flushed_whole(2) [OF c(3,1) f] by (simp_all add: keeps_def all_on_disk_def)
  have i2: "intact K (pc_io (tm_cache m)) (pc_io d)" by (rule intact_trans [OF i1 same_intact [OF d(2)]])
  have ro2: "\<not> read_only (pc_io d)" using ro d(2) by (simp add: io_sameD)
  have out: "intact (K - {slot}) (pc_io (tm_cache m)) (pc_io d1)" if "keeps_clean d d1" for d1
    by (rule intact_mono [OF intact_trans [OF i2 clean_intact [OF that]]]) (use pe(5) in auto)
  have st: "stamped w d" using pe(2) by (simp add: stamped_raw)
  have rs: "handle_table_page rs' = handle_table_page (current_roots m)" "membership_index_page rs' = membership_index_page (current_roots m)"
    using arg_cong [OF pe(3), of handle_table_page] arg_cong [OF pe(3), of membership_index_page] by simp_all
  show ?thesis
  proof (subst wp_and_then, simp add: on_tm_cache_def [of "pc_flush w"] wp_on_field s, rule wp_mono [OF pc_flush_wp [OF d(1) c(2) ro2 st]], goal_cases)
    case (1 u d1)
    then have a: "all_on_disk w d d1" by blast
    then have d1: "pc_inv w d1" "\<not> read_only (pc_io d1)" "cipher d1 = None" "keeps_clean d d1" using ro2 d(3) by (simp_all add: all_on_disk_def)
    have len: "next_page_id (tm_cache m) \<le> cached_page_count (pc_io d1)" using flushed_whole(1) [OF d(5,1) a] d(4) by simp
    have new: "disk_bodies w None (pc_io d1) p = Some b" if "bodies w m p = Some b" for p b
      using flush_bodies [OF a pe(2), of "used w m" p b] that pe(4) d1(3) by simp
    show ?case
      by (subst wp_and_then, simp add: wp_modify, rule seal_commit_wp [OF h r d1(3) plain(2) slot d1(1,2) len out [OF d1(4)] new rs]) (simp_all add: s)
  next
    case (2 e d1)
    then show ?case using out by (simp add: flush_fail_def)
  qed
qed

lemma run_commit_wp:
  assumes h: "holds w K n m v {}" and r: "rests K m v" and ro: "\<not> read_only (pc_io (tm_cache m))" and plain: "cipher (tm_cache m) = None" "tm_cipher m = None"
    and nc: "next_txn_counter (tm_txn_counter m) = Inr nc" and room: "12 * length (released m) \<le> 7 * n"
  shows "wp (run_commit w)
    (\<lambda>_ m'. intact (K - {commit_slot nc m}) (pc_io (tm_cache m)) (pc_io (tm_cache m')) \<and> durable w (commit_slot nc m) (db_of v) m')
    (\<lambda>e m'. intact (K - {commit_slot nc m}) (pc_io (tm_cache m)) (pc_io (tm_cache m'))) m"
proof -
  note ok = holdsD(1) [OF h] and rel = released_ok [OF h]
  let ?c = "tm_cache m" and ?K = "K - {commit_slot nc m}"
  have c: "pc_inv w ?c" "world_ok w" "whole ?c" "raw w ?c = {}" "stamped w ?c" "\<And>p. p \<in> K \<Longrightarrow> \<not> is_dirty ?c p" "0 < next_page_id ?c" "id_room ?c (7 * n)"
    using ok mgr_okD(2,3,4) [OF ok] by (simp_all add: mgr_ok_def stamped_raw)
  have out: "intact ?K (pc_io ?c) (pc_io c1)" if "keeps_clean ?c c1" for c1
    by (rule intact_mono [OF clean_intact [OF that c(6)]]) auto
  show ?thesis
    unfolding run_commit_def
  proof (simp only: wp_gets_then of_result_def nc sum.case wp_ok_then, simp add: wp_and_then [of "modify _"] wp_modify drain_into_def released_def [symmetric] del: released_def,
      subst wp_and_then, simp add: on_tm_cache_def [of "pc_flush w"] wp_on_field wp_gets_then, rule wp_mono [OF pc_flush_wp [OF c(1,2) ro c(5)]], goal_cases)
    case (1 u c1)
    then have f: "all_on_disk w ?c c1" by blast
    then have c1: "pc_inv w c1" "\<not> read_only (pc_io c1)" "next_page_id c1 = next_page_id ?c" "keeps_clean ?c c1" using ro by (simp_all add: all_on_disk_def)
    note ti = flush_tidy [OF c(1,3,4) f rel(1)]
    have "id_room c1 (0 + 12 * length (released m))" using id_room_mono [OF c(8), of "12 * length (released m)"] room c1(3) by (simp add: id_room_def)
    then have rc: "recycle_ok w (drained m) (0 + 12 * length (released m)) (tm_freemap m, current_roots m, c1)"
      using c c1 ti(1) by (simp add: recycle_ok_def)
    have sub: "set (released m) \<subseteq> ca_taken w (env_of (tm_freemap m) (current_roots m) (drained m)) c1" using rel(2) ti(2) by simp
    show ?case
    proof (subst wp_and_then, simp add: wp_on_field, rule wp_mono [OF persist_wp [OF rc sub rel(3,4)]], goal_cases)
      case (1 u t)
      obtain f' rs' d where t: "t = (f', rs', d)" by (cases t)
      have tb: "took_back w (drained m) (12 * length (released m)) (set (released m)) (tm_freemap m, current_roots m, c1) (f', rs', d)" using 1 t by simp
      show ?case unfolding t prod.case on_tm_cache_def [of "pc_flush w", symmetric] by (rule second_flush_wp [OF h r plain f c1(2) tb _ _ _ _ refl]) simp_all
    next
      case (2 e t)
      then have "same_device c1 (snd (snd t))" by (cases t) (simp add: back_fails_def)
      then have "intact ?K (pc_io ?c) (pc_io (snd (snd t)))" using intact_trans [OF out [OF c1(4)] same_intact] by (simp add: same_device_def)
      then show ?case by (cases t) simp
    qed
  next
    case (2 e c1)
    then show ?case using out by (simp add: flush_fail_def)
  qed
qed

end
