(* ===== verification/Txn_Properties.thy ===== *)
theory Txn_Properties
  imports Txn_Commit Cache_Properties
begin

text \<open>
  What the transaction manager promises its callers, property by property, with a new database of
  one superblock on which the properties are instantiated.
\<close>

section \<open>A new database\<close>

definition sample_disk :: page_cache where
  "sample_disk = page_cache_new (open_in_memory\<lparr>backing := File zero_page, cached_page_count := 1\<rparr>) 16384000 0 Mru InMemory"

definition sample_roots :: roots where
  "sample_roots = \<lparr>handle_table_page = PAGE_ID_NONE, freemap_page = PAGE_ID_NONE, freemap_depth = 0, next_handle = 1, total_pages = 1,
     named_roots = replicate NAMED_ROOT_COUNT NAMED_ROOT_EMPTY, membership_index_page = PAGE_ID_NONE\<rparr>"

definition sample_db :: txn_manager where
  "sample_db = \<lparr>tm_cache = sample_disk, committed_roots = sample_roots, current_roots = sample_roots, ht_depth = 0, mi_depth = 0, tm_txn_counter = 1,
     tm_superblock_count = 1, active_txn = False, savepoints = [], txn_freed_pages = [], txn_pages = txn_recycle_new,
     tm_freemap = \<lparr>fr_hint = 0, fr_hint_at_begin = 0, structural_reuse = [], structural_superseded = [], pending_structural_frees = [], fr_session_owned = {}\<rparr>,
     packer = slot_packer_new, poisoned = False, tm_cipher = None, tm_crypto_header = None\<rparr>"

lemma sample_disk:
  "pc_inv toy_world sample_disk" "next_page_id sample_disk = 1" "max_pages sample_disk = 2000" "\<not> is_dirty sample_disk p"
  "\<not> read_only (pc_io sample_disk)" "cached_page_count (pc_io sample_disk) = 1"
proof -
  let ?io = "open_in_memory\<lparr>backing := File zero_page, cached_page_count := 1\<rparr>"
  have io: "io_ok ?io" "stride ?io = PAGE_SIZE" "unat (cached_page_count ?io) * ENC_PAGE_SIZE < 2 ^ 64"
    by (simp_all add: io_ok_def open_in_memory_def)
  note new = page_cache_new_inv [OF io, where mb = 16384000 and sb = 0 and pol = Mru and loc = InMemory]
  show "pc_inv toy_world sample_disk" "\<not> is_dirty sample_disk p" unfolding sample_disk_def by (rule new)+
  show "next_page_id sample_disk = 1" "max_pages sample_disk = 2000" "\<not> read_only (pc_io sample_disk)" "cached_page_count (pc_io sample_disk) = 1"
    by (simp_all add: sample_disk_def page_cache_new_def open_in_memory_def io_page_count_def pages_for_bytes_def)
qed

lemma sample_fields:
  "tm_cache sample_db = sample_disk" "committed_roots sample_db = sample_roots" "freemap_page sample_roots = PAGE_ID_NONE" "active_txn (begun sample_db)"
  "txn_pages (begun sample_db) = \<lparr>allocated = {}, recyclable = []\<rparr>" "structural_reuse (tm_freemap (begun sample_db)) = []"
  "fr_session_owned (tm_freemap (begun sample_db)) = {}" "limbo (begun sample_db) = []" "superblocks (begun sample_db) = {0}"
  "current_live_slots (packer (begun sample_db)) = Map.empty" "insert_cursor (packer (begun sample_db)) = None" "\<not> poisoned sample_db" "\<not> active_txn sample_db"
  "handle_table_page sample_roots = PAGE_ID_NONE" "membership_index_page sample_roots = PAGE_ID_NONE" "ht_depth sample_db = 0" "mi_depth sample_db = 0"
  "total_pages sample_roots = 1" "next_handle sample_roots = 1"
  by (simp_all add: sample_db_def sample_roots_def begun_def fr_begin_def txn_recycle_reset_def txn_recycle_new_def limbo_def superblocks_def packer_begin_def
      slot_packer_new_def set_eq_iff word_less_1)

lemma sample_used: "mgr_ok toy_world {0} 200 (begun sample_db)" "used toy_world (begun sample_db) = {0}"
proof -
  have sets: "fm_set toy_world v c (take_tree sample_roots f) = {}" "fm_used toy_world v c (take_tree sample_roots f) = {}" for v c f
    by (simp_all add: fm_set_def fm_used_def sample_fields)
  have below: "{p. p < next_page_id sample_disk} = {0}" by (auto simp: sample_disk word_less_1)
  show us: "used toy_world (begun sample_db) = {0}"
    unfolding used_def ca_taken_def spare_def map_pages_def by (simp add: sample_fields sets below)
  have "tidy toy_world (menv (begun sample_db)) sample_disk"
    unfolding tidy_def spare_def map_pages_def by (simp add: sample_fields sets)
  moreover have "guarded toy_world {0} (menv (begun sample_db)) sample_disk"
    using us unfolding guarded_def used_def by (simp add: sample_fields sample_disk)
  moreover have "raw toy_world sample_disk = {}" "whole sample_disk" using sample_disk by (simp_all add: raw_def whole_def)
  ultimately show "mgr_ok toy_world {0} 200 (begun sample_db)"
    using sample_disk toy_world_ok by (simp add: mgr_ok_def ca_ok_def sample_fields id_room_def)
qed

lemma sample_rest: "at_rest toy_world {0} 200 sample_db Map.empty"
proof -
  let ?m = "begun sample_db"
  let ?v = "\<lparr>v_ht = (PAGE_ID_NONE, 0), v_table = Map.empty, v_mi = (PAGE_ID_NONE, 0), v_tags = (\<lambda>_. {}), v_slots = Map.empty, v_entries = Map.empty,
    v_chains = (\<lambda>_. []), v_values = Map.empty\<rparr>"
  have "layout B Map.empty Map.empty (\<lambda>_. []) Map.empty" for B
    by (simp add: layout_def slots_apart_def chains_apart_def counted_def in_page_def)
  then have "holds toy_world {0} 200 ?m ?v {}"
    using sample_used by (simp add: holds_def sample_fields ht_at_def mi_at_def mi_ok_def mi_view_def [abs_def] regions_def ht_region_def mi_pages_def chain_pages_def)
  moreover have "rests {0} ?m ?v" by (simp add: rests_def packs_def sample_fields tagged_def [abs_def])
  moreover have "db_of ?v = Map.empty" by (simp add: db_of_def fun_eq_iff)
  ultimately have "mgr_inv toy_world {0} 200 ?m Map.empty" unfolding mgr_inv_def using sample_fields by (auto simp: begun_fields)
  then show ?thesis using sample_disk by (simp add: at_rest_def sample_fields)
qed

section \<open>Properties\<close>

definition session :: "world \<Rightarrow> request list \<Rightarrow> reply list txn_op" where
  "session w qs = and_then txn_begin (\<lambda>_. serve_all w qs)"

definition abandoned :: "world \<Rightarrow> request list \<Rightarrow> unit txn_op" where
  "abandoned w qs = and_then txn_begin (\<lambda>_. and_then (or_else (and_then (serve_all w qs) (\<lambda>_. ok ())) (\<lambda>_. ok ())) (\<lambda>_. txn_rollback w))"

abbreviation requests_ok :: "txn_manager \<Rightarrow> request list \<Rightarrow> bool" where
  "requests_ok m qs \<equiv> list_all (\<lambda>q. length (payload q) < 2 ^ 64) qs \<and> unat (next_handle (committed_roots m)) + length qs \<le> unat MAX_NEXT_HANDLE"

abbreviation total_cost :: "request list \<Rightarrow> nat" where
  "total_cost qs \<equiv> sum_list (map cost qs)"

lemma rest_inv: "at_rest w K n m D \<Longrightarrow> mgr_inv w K n (begun m) D"
  by (simp add: at_rest_def)

lemma wp_begin: "at_rest w K n m D \<Longrightarrow> wp (and_then txn_begin f) Q E m = wp (f ()) Q E (begun m)"
  by (simp add: wp_def and_then_def begin_rest)

lemma session_wp:
  assumes rest: "at_rest w K (total_cost qs + n) m D" and ok: "requests_ok m qs"
  shows "wp (serve_all w qs)
    (\<lambda>rs m'. \<exists>D'. answers qs (next_handle (committed_roots m), D) = (rs, next_of_mgr m', D') \<and> mgr_inv w K n m' D' \<and> reached (total_cost qs) (begun m) m')
    (gave_up w (total_cost qs) (begun m)) (begun m)"
  using serve_all_wp [OF rest_inv [OF rest]] ok by (simp add: list_all_iff)

text \<open>
  C1. A transaction is a session on a map from handles to values. From the committed database, a
  sequence of allocations, updates, deletions and reads is answered exactly as the abstract database
  answers it, unknown handles included, and the manager ends in a state that stands for the resulting
  map. The only other outcome is a failure of the environment, which without input/output faults
  means that the cache had no room; it leaves the committed roots and the device untouched.
\<close>

theorem session_refines_map:
  assumes "at_rest w K (total_cost qs + n) m D" and "requests_ok m qs"
  shows "wp (session w qs)
    (\<lambda>rs m'. \<exists>D'. answers qs (next_handle (committed_roots m), D) = (rs, next_handle (current_roots m'), D') \<and> mgr_inv w K n m' D')
    (\<lambda>e m'. env_error w e \<and> (no_faults w \<longrightarrow> \<not> roomy (tm_cache m) (7 * total_cost qs)) \<and>
       committed_roots m' = committed_roots m \<and> same_device (tm_cache m) (tm_cache m')) m"
  unfolding session_def wp_begin [OF assms(1)]
  by (rule wp_mono [OF session_wp [OF assms]]) (auto simp: gave_up_def failed_def base_def)

theorem session_refines_map_witness:
  "wp (session toy_world [Allocate [7, 8] 5, Read 1, HandlesWithTag 5])
     (\<lambda>rs m'. rs = [Handle 1, Bytes [7, 8], HandleList [1]]) (\<lambda>e m'. False) sample_db"
proof -
  let ?qs = "[Allocate [7, 8] 5, Read 1, HandlesWithTag 5]"
  have n: "total_cost ?qs + 139 = 200" by (simp add: place_cost_def)
  have tag: "{h. \<exists>val byte. [1 \<mapsto> ([7, 8], 5, 0)] h = Some (val, 5, byte)} = {1 :: u64}" by (auto split: if_splits)
  show ?thesis
    by (rule wp_mono [OF session_refines_map [of toy_world "{0}" ?qs 139 sample_db Map.empty]])
      (use sample_rest n toy_world_no_faults in \<open>auto simp: sample_fields sample_disk tag Let_def roomy_def space_def place_cost_def MAX_NEXT_HANDLE_def
        HANDLE_ID_RESERVE_def\<close>)
qed

lemma length_answers: "length (fst (answers qs s)) = length qs"
proof (induction qs arbitrary: s)
  case (Cons q qs)
  obtain r s1 where "answer q s = (r, s1)" by (cases "answer q s")
  moreover obtain rs s2 where "answers qs s1 = (rs, s2)" by (cases "answers qs s1")
  ultimately show ?case using Cons.IH [of s1] by (simp add: Let_def)
qed simp

text \<open>
  C6. With no input/output faults and a cache that can hold the file and the pages the requests may
  touch, a session always completes: every request gets an answer.
\<close>

theorem session_completes:
  assumes "at_rest w K (total_cost qs) m D" and "requests_ok m qs" and "no_faults w"
    and "unat (total_pages (committed_roots m)) + 7 * total_cost qs \<le> max_pages (tm_cache m)"
  shows "\<exists>rs m'. session w qs m = (Ok rs, m') \<and> rs = fst (answers qs (next_handle (committed_roots m), D)) \<and> length rs = length qs"
proof -
  have "roomy (tm_cache m) (7 * total_cost qs)" using assms(1,4) by (simp add: at_rest_def roomy_def space_def)
  then have no: "gave_up w (total_cost qs) (begun m) e m' \<Longrightarrow> False" for e m' using gave_up_roomy [OF assms(3)] by fastforce
  have rest: "at_rest w K (total_cost qs + 0) m D" using assms(1) by simp
  obtain rs m' where "serve_all w qs (begun m) = (Ok rs, m')" "fst (answers qs (next_handle (committed_roots m), D)) = rs"
    by (rule wp_total [OF session_wp [OF rest assms(2)] no]) force+
  then show ?thesis using length_answers [of qs "(next_handle (committed_roots m), D)"] by (auto simp: session_def and_then_def begin_rest [OF rest])
qed

theorem session_completes_witness:
  "\<exists>m'. session toy_world [Allocate [1] 0, Update 1 [2, 3], Delete 9, Read 1] sample_db = (Ok [Handle 1, Done, NoSuchHandle, Bytes [2, 3]], m')"
proof -
  let ?qs = "[Allocate [1] 0, Update 1 [2, 3], Delete 9, Read 1]"
  have rest: "at_rest toy_world {0} (total_cost ?qs) sample_db Map.empty"
    using sample_rest mgr_inv_mono [of toy_world "{0}" 200 "begun sample_db" Map.empty "total_cost ?qs"] by (simp add: at_rest_def place_cost_def)
  show ?thesis
    using session_completes [OF rest] toy_world_no_faults
    by (simp add: sample_fields sample_disk place_cost_def MAX_NEXT_HANDLE_def HANDLE_ID_RESERVE_def Let_def)
qed

lemma within_rollback_wp:
  assumes rest: "at_rest w K n m D" and win: "within w m m1"
  shows "wp (txn_rollback w) (\<lambda>_ m2. at_rest w K n m2 D \<and> committed_roots m2 = committed_roots m) (\<lambda>e m2. env_error w e) m1"
proof -
  have "\<not> poisoned m1" using rest win by (simp add: at_rest_def within_def base_def begun_def)
  then show ?thesis
    unfolding txn_rollback_def check_alive_def poison_on_fatal_def wp_and_then wp_gets wp_or_else
    by (simp add: wp_simps) (rule wp_mono [OF rollback_inner_wp [OF assms]], simp_all)
qed

lemma poisoned_rollback: "poisoned m \<Longrightarrow> wp (txn_rollback w) Q E m = E Poisoned m"
  by (simp add: txn_rollback_def check_alive_def wp_simps)



section \<open>Durability\<close>



section \<open>Poisoning\<close>

lemma poisoned_entry:
  "poisoned m \<Longrightarrow> entry_point op m = (Err Poisoned, m)" "poisoned m \<Longrightarrow> between_txns op m = (Err Poisoned, m)"
  "poisoned m \<Longrightarrow> and_then check_alive (\<lambda>_. op) m = (Err Poisoned, m)"
  by (simp_all add: check_alive_def and_then_def gets_def err_def)



lemma poison_fatal:
  assumes "entry_point op m = (Err e, m')" and "is_fatal e"
  shows "poisoned m'"
  using assms by (auto simp: check_alive_def poison_on_fatal_def and_then_def or_else_def gets_def modify_def err_def ok_def split: if_splits prod.splits res.splits)

lemma and_then_ok_Err: "and_then op (\<lambda>x. ok (f x)) m = (Err e, m') \<Longrightarrow> op m = (Err e, m')"
  by (auto simp: and_then_def ok_def split: prod.splits res.splits)

lemma request_fatal:
  assumes "request_op w q m = (Err e, m')" and "is_fatal e"
  shows "poisoned m'"
  using assms
  by (cases q) (auto simp: allocate_tagged_def txn_update_def set_client_byte_def txn_delete_def txn_read_def txn_tag_def txn_client_byte_def
      handles_with_tag_def txn_handles_def dest!: and_then_ok_Err intro: poison_fatal)

text \<open>
  C14. Failures are not forgotten: a fatal error of a request, and any error of a commit that has
  started, leave the manager poisoned.
\<close>

theorem failures_poison:
  shows "(request_op w q m = (Err e, m') \<and> is_fatal e \<longrightarrow> poisoned m') \<and>
    (active_txn m \<and> \<not> poisoned m \<and> txn_commit w m = (Err e, m') \<longrightarrow> poisoned m')"
  using request_fatal
  by (auto simp: txn_commit_def check_alive_def and_then_def or_else_def gets_def modify_def err_def ok_def split: if_splits prod.splits res.splits)

theorem failures_poison_witness:
  "\<exists>m'. txn_commit faulty_world (sample_db\<lparr>tm_cache := sample_file, active_txn := True\<rparr>) = (Err (IoError OtherIo), m') \<and> poisoned m'"
proof -
  let ?m = "sample_db\<lparr>tm_cache := sample_file, active_txn := True\<rparr>"
  obtain m' where "txn_commit faulty_world ?m = (Err (IoError OtherIo), m')"
    using sample_file(7)
    by (simp add: txn_commit_def run_commit_def check_alive_def and_then_def or_else_def gets_def modify_def err_def ok_def sample_db_def of_result_def
        next_txn_counter_def Let_def MAX_TXN_COUNTER_def TXN_COUNTER_RESERVE_def drain_into_def txn_recycle_new_def on_tm_cache_def on_field_def saturating_add_def)
  moreover have "active_txn ?m" "\<not> poisoned ?m" by (simp_all add: sample_db_def)
  ultimately show ?thesis using failures_poison by blast
qed

section \<open>Named roots\<close>

definition used_root :: "u8 list \<Rightarrow> named_root \<Rightarrow> bool" where
  "used_root name r \<longleftrightarrow> \<not> named_root_is_empty r \<and> nr_name r = name"

definition roots_map :: "named_root list \<Rightarrow> u8 list \<rightharpoonup> u64" where
  "roots_map table name = map_option nr_handle (find (used_root name) table)"

definition roots_table :: "named_root list \<Rightarrow> bool" where
  "roots_table table \<longleftrightarrow> length table = NAMED_ROOT_COUNT \<and> (\<forall>r \<in> set table. length (nr_name r) = NAMED_ROOT_NAME_LEN) \<and>
     (\<forall>name. \<forall>i < length table. \<forall>j < length table. used_root name (table ! i) \<longrightarrow> used_root name (table ! j) \<longrightarrow> i = j)"

lemma position_Some: "position P xs = Some i \<Longrightarrow> i < length xs \<and> P (xs ! i)"
  by (induction xs arbitrary: i) (auto split: if_splits)

lemma position_None: "position P xs = None \<longleftrightarrow> (\<forall>x \<in> set xs. \<not> P x)"
  by (induction xs) auto

lemma find_unique:
  assumes "i < length xs" and "P (xs ! i)" and "\<And>j. j < length xs \<Longrightarrow> P (xs ! j) \<Longrightarrow> j = i"
  shows "find P xs = Some (xs ! i)"
proof -
  obtain x where x: "find P xs = Some x" using assms(1,2) by (metis find_None_iff nth_mem option.exhaust)
  then obtain j where "j < length xs" "x = xs ! j" "P (xs ! j)" by (auto simp: find_Some_iff)
  then show ?thesis using x assms(3) by auto
qed

lemma encode_root_name:
  assumes "encode_root_name name = Inr enc"
  shows "length enc = NAMED_ROOT_NAME_LEN" and "enc ! 0 \<noteq> 0" and "\<not> named_root_is_empty \<lparr>nr_name = enc, nr_handle = h\<rparr>"
  using assms by (cases name; auto simp: encode_root_name_def named_root_is_empty_def split: if_splits)+

lemma roots_map_Some:
  assumes "roots_table t"
  shows "roots_map t n = Some h \<longleftrightarrow> (\<exists>i < length t. used_root n (t ! i) \<and> nr_handle (t ! i) = h)"
proof
  assume "roots_map t n = Some h"
  then show "\<exists>i < length t. used_root n (t ! i) \<and> nr_handle (t ! i) = h" by (auto simp: roots_map_def find_Some_iff)
next
  assume "\<exists>i < length t. used_root n (t ! i) \<and> nr_handle (t ! i) = h"
  then obtain i where i: "i < length t" "used_root n (t ! i)" "nr_handle (t ! i) = h" by blast
  have "find (used_root n) t = Some (t ! i)" by (rule find_unique) (use assms i in \<open>auto simp: roots_table_def\<close>)
  then show "roots_map t n = Some h" by (simp add: roots_map_def i(3))
qed

lemma roots_put:
  assumes t: "roots_table t" and i: "i < length t" and r: "length (nr_name r) = NAMED_ROOT_NAME_LEN"
    and only: "\<And>j. j < length t \<Longrightarrow> used_root n (t ! j) \<Longrightarrow> j = i"
    and old: "\<And>x. used_root x (t ! i) \<Longrightarrow> x = n" and new: "\<And>x. used_root x r \<Longrightarrow> x = n"
  shows "roots_table (t[i := r])" and "roots_map (t[i := r]) = (roots_map t)(n := if used_root n r then Some (nr_handle r) else None)"
proof -
  have at: "used_root x (t[i := r] ! j) \<longleftrightarrow> (if j = i then used_root x r else used_root x (t ! j))" if "j < length t" for x j using that by simp
  have "length (nr_name x) = NAMED_ROOT_NAME_LEN" if "x \<in> set (t[i := r])" for x
    using that t r set_update_subset_insert [of t i r] by (auto simp: roots_table_def)
  moreover have "j = k" if "j < length t" "k < length t" "used_root x (t[i := r] ! j)" "used_root x (t[i := r] ! k)" for x j k
  proof (cases "x = n")
    case True
    then have "j = i" "k = i" using that only [of j] only [of k] at [of j n] at [of k n] by metis+
    then show ?thesis by simp
  next
    case False
    then have "j \<noteq> i" "k \<noteq> i" using that new [of x] at [of j x] at [of k x] by metis+
    then have "used_root x (t ! j)" "used_root x (t ! k)" using that by simp_all
    then show ?thesis using that(1,2) t unfolding roots_table_def by blast
  qed
  ultimately show t': "roots_table (t[i := r])" using t unfolding roots_table_def length_list_update by blast
  have "roots_map (t[i := r]) x = Some h \<longleftrightarrow> ((roots_map t)(n := if used_root n r then Some (nr_handle r) else None)) x = Some h" for x h
  proof (cases "x = n")
    case True
    have "roots_map (t[i := r]) n = Some h \<longleftrightarrow> used_root n r \<and> nr_handle r = h"
      unfolding roots_map_Some [OF t'] using i only at by (auto simp: nth_list_update)
    then show ?thesis by (simp add: True)
  next
    case False
    have "used_root x (t[i := r] ! j) \<and> nr_handle (t[i := r] ! j) = h \<longleftrightarrow> used_root x (t ! j) \<and> nr_handle (t ! j) = h" if "j < length t" for j
      using False old [of x] new [of x] i by (cases "j = i") auto
    then have "roots_map (t[i := r]) x = Some h \<longleftrightarrow> roots_map t x = Some h"
      unfolding roots_map_Some [OF t'] roots_map_Some [OF t] length_list_update by blast
    then show ?thesis by (simp add: False)
  qed
  then show "roots_map (t[i := r]) = (roots_map t)(n := if used_root n r then Some (nr_handle r) else None)"
    by (metis ext not_Some_eq)
qed

lemmas run_simps = check_alive_def poison_on_fatal_def and_then_def or_else_def gets_def modify_def err_def ok_def of_result_def

lemma used_root_alt: "(\<lambda>r. \<not> named_root_is_empty r \<and> nr_name r = enc) = used_root enc"
  by (simp add: used_root_def fun_eq_iff)

lemma roots_map_None: "roots_map t n = None \<longleftrightarrow> position (used_root n) t = None"
  by (auto simp: roots_map_def find_None_iff position_None)

lemma set_root_result:
  assumes "active_txn m" and "\<not> poisoned m" and enc: "encode_root_name name = Inr enc" and t: "roots_table t" "t = named_roots (current_roots m)"
  defines "full \<equiv> roots_map t enc = None \<and> position named_root_is_empty t = None"
  shows "\<exists>m'. set_root_name name h m = (if full then Err RootNameTableFull else Ok (), m') \<and> roots_table (named_roots (current_roots m')) \<and>
    roots_map (named_roots (current_roots m')) = (if full then roots_map t else (roots_map t)(enc \<mapsto> h))"
proof -
  note e = encode_root_name [OF enc]
  have ur: "used_root x \<lparr>nr_name = enc, nr_handle = h\<rparr> \<longleftrightarrow> x = enc" for x using e(3) by (auto simp: used_root_def)
  have put: "roots_table (t[i := r]) \<and> roots_map (t[i := r]) = (roots_map t)(enc \<mapsto> h)"
    if "i < length t" "r = \<lparr>nr_name = enc, nr_handle = h\<rparr>" "\<And>j. j < length t \<Longrightarrow> used_root enc (t ! j) \<Longrightarrow> j = i" "\<And>x. used_root x (t ! i) \<Longrightarrow> x = enc" for i r
  proof -
    have len: "length (nr_name r) = NAMED_ROOT_NAME_LEN" and new: "\<And>x. used_root x r \<Longrightarrow> x = enc" and u: "used_root enc r" "nr_handle r = h"
      using that(2) e(1) ur by simp_all
    show ?thesis using roots_put [OF t(1) that(1) len that(3,4) new] u by simp
  qed
  show ?thesis
  proof (cases "position (used_root enc) t")
    case (Some i)
    then have i: "i < length t" "used_root enc (t ! i)" using position_Some by blast+
    have eq: "(t ! i)\<lparr>nr_handle := h\<rparr> = \<lparr>nr_name = enc, nr_handle = h\<rparr>" and old: "\<And>x. used_root x (t ! i) \<Longrightarrow> x = enc"
      using i(2) by (simp_all add: used_root_def)
    have only: "\<And>j. j < length t \<Longrightarrow> used_root enc (t ! j) \<Longrightarrow> j = i" using t(1) i unfolding roots_table_def by blast
    have "roots_table (t[i := (t ! i)\<lparr>nr_handle := h\<rparr>]) \<and> roots_map (t[i := (t ! i)\<lparr>nr_handle := h\<rparr>]) = (roots_map t)(enc \<mapsto> h)"
      by (rule put [OF i(1) eq only old])
    moreover have "\<not> full" using Some by (simp add: full_def roots_map_None)
    ultimately show ?thesis using assms(1,2) enc Some t(2) by (simp add: set_root_name_def run_simps used_root_alt)
  next
    case None
    show ?thesis
    proof (cases "position named_root_is_empty t")
      case (Some i)
      then have i: "i < length t" "named_root_is_empty (t ! i)" using position_Some by blast+
      have no: "\<not> used_root enc (t ! j)" if "j < length t" for j using None that by (simp add: position_None)
      have old: "\<And>x. used_root x (t ! i) \<Longrightarrow> x = enc" using i(2) by (simp add: used_root_def)
      have "roots_table (t[i := \<lparr>nr_name = enc, nr_handle = h\<rparr>]) \<and> roots_map (t[i := \<lparr>nr_name = enc, nr_handle = h\<rparr>]) = (roots_map t)(enc \<mapsto> h)"
        by (rule put [OF i(1) refl _ old]) (use no in blast)
      moreover have "\<not> full" using Some by (simp add: full_def)
      ultimately show ?thesis using assms(1,2) enc None Some t(2) by (simp add: set_root_name_def run_simps used_root_alt)
    next
      case none: None
      then have "full" using None by (simp add: full_def roots_map_None)
      then show ?thesis using assms(1,2) enc None none t by (simp add: set_root_name_def run_simps used_root_alt)
    qed
  qed
qed

lemma clear_root_result:
  assumes "active_txn m" and "\<not> poisoned m" and enc: "encode_root_name name = Inr enc" and t: "roots_table t" "t = named_roots (current_roots m)"
  shows "\<exists>m'. clear_root_name name m = (Ok (), m') \<and> roots_table (named_roots (current_roots m')) \<and>
    roots_map (named_roots (current_roots m')) = (roots_map t)(enc := None)"
proof (cases "position (used_root enc) t")
  case (Some i)
  then have i: "i < length t" "used_root enc (t ! i)" using position_Some by blast+
  have empty: "length (nr_name NAMED_ROOT_EMPTY) = NAMED_ROOT_NAME_LEN" "\<And>x. \<not> used_root x NAMED_ROOT_EMPTY"
    by (simp_all add: used_root_def NAMED_ROOT_EMPTY_def named_root_is_empty_def)
  have only: "\<And>j. j < length t \<Longrightarrow> used_root enc (t ! j) \<Longrightarrow> j = i" using t(1) i unfolding roots_table_def by blast
  have old: "\<And>x. used_root x (t ! i) \<Longrightarrow> x = enc" using i(2) by (simp add: used_root_def)
  have new: "\<And>x. used_root x NAMED_ROOT_EMPTY \<Longrightarrow> x = enc" using empty(2) by blast
  show ?thesis
    using roots_put [OF t(1) i(1) empty(1) only old new] assms(1,2) enc Some t(2) empty(2) by (simp add: clear_root_name_def run_simps used_root_alt)
next
  case None
  then have "roots_map t enc = None" by (simp add: roots_map_None)
  then have "(roots_map t)(enc := None) = roots_map t" by (simp add: fun_upd_idem)
  then show ?thesis using assms(1,2) enc None t by (simp add: clear_root_name_def run_simps used_root_alt)
qed

text \<open>
  C15. The table of named roots is a map from names to handles. Its form is kept by every operation:
  eight entries with names of full length, no name twice. Setting a name updates the map at that name
  unless it is new and the table is full, looking it up reads the map, and clearing it removes it.
\<close>

theorem named_roots_are_a_map:
  assumes "active_txn m" and "\<not> poisoned m" and "encode_root_name name = Inr enc" and "roots_table (named_roots (current_roots m))"
  shows "(\<exists>m'. set_root_name name h m =
        (if roots_map (named_roots (current_roots m)) enc = None \<and> position named_root_is_empty (named_roots (current_roots m)) = None
         then Err RootNameTableFull else Ok (), m') \<and> roots_table (named_roots (current_roots m')) \<and>
      roots_map (named_roots (current_roots m')) =
        (if roots_map (named_roots (current_roots m)) enc = None \<and> position named_root_is_empty (named_roots (current_roots m)) = None
         then roots_map (named_roots (current_roots m)) else (roots_map (named_roots (current_roots m)))(enc \<mapsto> h))) \<and>
    get_root_name name m = (Ok (roots_map (named_roots (current_roots m)) enc), m) \<and>
    (\<exists>m'. clear_root_name name m = (Ok (), m') \<and> roots_table (named_roots (current_roots m')) \<and>
      roots_map (named_roots (current_roots m')) = (roots_map (named_roots (current_roots m)))(enc := None))"
proof (intro conjI)
  show "get_root_name name m = (Ok (roots_map (named_roots (current_roots m)) enc), m)"
    using assms by (simp add: get_root_name_def run_simps used_root_alt roots_map_def)
qed (rule set_root_result clear_root_result; use assms in simp)+

theorem named_roots_are_a_map_witness:
  "\<exists>m'. set_root_name [97] 5 (begun sample_db) = (Ok (), m') \<and> roots_map (named_roots (current_roots m')) ([97] @ replicate 23 0) = Some 5"
proof -
  have enc: "encode_root_name [97] = Inr ([97] @ replicate 23 0)" by (simp add: encode_root_name_def)
  have t: "named_roots (current_roots (begun sample_db)) = replicate 8 NAMED_ROOT_EMPTY" by (simp add: sample_fields) (simp add: sample_roots_def)
  have ok: "roots_table (replicate 8 NAMED_ROOT_EMPTY)"
    by (simp add: roots_table_def used_root_def NAMED_ROOT_EMPTY_def named_root_is_empty_def)
  have free: "position named_root_is_empty (replicate 8 NAMED_ROOT_EMPTY) \<noteq> None"
    by (simp add: position_None NAMED_ROOT_EMPTY_def named_root_is_empty_def)
  show ?thesis
    using named_roots_are_a_map [of "begun sample_db" "[97]" "[97] @ replicate 23 0" 5] enc ok free unfolding t
    by (auto simp: sample_fields)
qed

section \<open>Depth recovery ends on any file\<close>

lemma recover_any:
  assumes W: "world_ok w"
  shows "pc_inv w c \<Longrightarrow> depth + k = 6 \<Longrightarrow> wp (ht_recover_loop w depth p) (\<lambda>d t. quiet w c t \<and> d \<le> 6) (\<lambda>e t. pc_wf w t) c"
    and "pc_inv w c \<Longrightarrow> depth + k = 6 \<Longrightarrow> wp (ru_recover_loop w depth p) (\<lambda>d t. quiet w c t \<and> d \<le> 6) (\<lambda>e t. pc_wf w t) c"
proof (induction k arbitrary: c depth p)
  case 0
  {
    case 1
    then show ?case
      unfolding ht_recover_loop.simps [of w depth p] wp_and_then
      by (intro wp_mono [OF get_any_wp [OF 1(1) W]]) (use 1 quiet_wf in \<open>auto simp: wp_simps\<close>)
  next
    case 2
    then show ?case
      unfolding ru_recover_loop.simps [of w depth p] wp_and_then
      by (intro wp_mono [OF get_any_wp [OF 2(1) W]]) (use 2 quiet_wf in \<open>auto simp: wp_simps\<close>)
  }
next
  case (Suc k)
  have later: "wp (loop (depth + 1) q) (\<lambda>d t. quiet w c t \<and> d \<le> 6) (\<lambda>e t. pc_wf w t) c'"
    if "quiet w c c'" "wp (loop (depth + 1) q) (\<lambda>d t. quiet w c' t \<and> d \<le> 6) (\<lambda>e t. pc_wf w t) c'" for loop :: "nat \<Rightarrow> u64 \<Rightarrow> nat cache_op" and depth c c' q
    by (rule wp_mono [OF that(2)]) (use quiet_trans [OF that(1)] in auto)
  {
    case 1
    show ?case
      unfolding ht_recover_loop.simps [of w depth p] wp_and_then
    proof (rule wp_mono [OF get_any_wp [OF 1(1) W]], goal_cases)
      case (1 buf t)
      then have q: "quiet w c t" and inv: "pc_inv w t" by (simp_all add: quiet_def)
      have "wp (ht_recover_loop w (depth + 1) x) (\<lambda>d u. quiet w c u \<and> d \<le> 6) (\<lambda>e t. pc_wf w t) t" for x
        by (rule later [OF q Suc.IH(1) [OF inv]]) (use \<open>depth + Suc k = 6\<close> in simp)
      then show ?case using q quiet_wf [OF q] \<open>depth + Suc k = 6\<close> by (auto simp: wp_simps Let_def)
    qed
  next
    case 2
    show ?case
      unfolding ru_recover_loop.simps [of w depth p] wp_and_then
    proof (rule wp_mono [OF get_any_wp [OF 2(1) W]], goal_cases)
      case (1 buf t)
      then have q: "quiet w c t" and inv: "pc_inv w t" by (simp_all add: quiet_def)
      have "wp (ru_recover_loop w (depth + 1) x) (\<lambda>d u. quiet w c u \<and> d \<le> 6) (\<lambda>e t. pc_wf w t) t" for x
        by (rule later [OF q Suc.IH(2) [OF inv]]) (use \<open>depth + Suc k = 6\<close> in simp)
      then show ?case using q quiet_wf [OF q] \<open>depth + Suc k = 6\<close> by (auto simp: wp_simps Let_def)
    qed
  }
qed

text \<open>
  C16. Recovering the depth of a handle table or a membership index ends on any file, however corrupt:
  the descent along the first children visits at most seven pages, so a cycle of pages is reported
  instead of followed for ever. It returns a depth of at most six or an error, never panics, and
  changes nothing a reader can see.
\<close>

theorem recover_depth_terminates:
  assumes "pc_inv w c" and "world_ok w"
  shows "wp (ht_recover_depth w root) (\<lambda>d t. quiet w c t \<and> d \<le> HT_MAX_DEPTH) (\<lambda>e t. pc_wf w t) c \<and>
    wp (ru_recover_depth w root) (\<lambda>d t. quiet w c t \<and> d \<le> RU_MAX_DEPTH) (\<lambda>e t. pc_wf w t) c"
  using recover_any [OF assms(2,1), of 0 6 root] quiet_refl [OF assms(1)]
  by (simp add: ht_recover_depth_def ru_recover_depth_def wp_simps)

theorem recover_depth_terminates_witness:
  "wp (ht_recover_depth toy_world 0) (\<lambda>d t. d \<le> 6) (\<lambda>e t. pc_wf toy_world t) sample_disk"
  using recover_depth_terminates [OF sample_disk(1) toy_world_ok, of 0] by (auto elim!: wp_mono)

end
