(* ===== verification/Spec2Isabelle.thy ===== *)
theory Spec2Isabelle
  imports Overflow_Chain Data_Page Free_Map Super_Block Handle_Table Membership_Index Txn_Persist Txn_Manager Value_Place Txn_Properties
begin

text \<open>
  A verification of the storage engine under \<open>src/src\<close>: a single-file, transactional store of byte
  values under 64-bit handles, with copy-on-write trees, optional encryption and a bank of superblocks
  as its only commit record.

  \<^bold>\<open>How the program is put together.\<close> The device (\<open>page_io.rs\<close>) reads and writes pages of 8192 bytes.
  The page cache (\<open>page_cache.rs\<close>) sits on it, keeps recency in a linked list (\<open>lru.rs\<close>), seals pages of
  an encrypted database (\<open>crypto/mod.rs\<close>) and moves dirty pages beyond its cap to a sidecar
  (\<open>spillway.rs\<close>). Above the cache are the page formats: slotted data pages (\<open>data_page.rs\<close>), overflow
  chains (\<open>overflow.rs\<close>), and three radix trees whose updates copy the path to the root: the handle table
  (\<open>handle_table.rs\<close>), the membership index (\<open>membership_index.rs\<close>) and the free map
  (\<open>freemap.rs\<close>, \<open>freemap_tree.rs\<close>). The transaction manager (\<open>transaction/\<close>) ties them together: a
  request builds new roots, publishes them in memory, and a commit flushes the pages and then writes the
  superblock (\<open>superblock/\<close>) that names them.

  \<^bold>\<open>The model.\<close> Code is written in the state-and-error monad of \<open>Result_Monad\<close>: an operation returns a
  value, an error of \<open>Chisel_Error\<close>, or \<open>Panic\<close> where the source asserts, indexes out of range or
  overflows. Pages are lists of bytes, machine integers are words of their width, \<open>usize\<close> is \<open>nat\<close>.
  \<open>wp m Q E s\<close> says that \<open>m\<close> started in \<open>s\<close> does not panic, ends in \<open>Q\<close> when it returns and in \<open>E\<close> when it
  fails; all functions are total, so a contract also says that the loops end. What is not in the
  repository (the hash, the AEAD, key derivation, the random generator and the failures of the file
  system) is the parameter record \<open>world\<close> of \<open>Os_World\<close>; \<open>world_ok\<close> collects what the code relies on, and
  \<open>toy_world\<close> shows that it can be had.

  \<^bold>\<open>Theories.\<close>
  \<^item> \<open>Chisel_Prelude\<close>, \<open>Result_Monad\<close>, \<open>Chisel_Error\<close>, \<open>Os_World\<close>, \<open>Byte_Layout\<close>: buffers, encodings, the
    monad and its rules, errors (\<open>error.rs\<close>), the outside world, arrays of records in a page.
  \<^item> \<open>Page_Format\<close> (\<open>page.rs\<close>), \<open>Data_Page\<close>, \<open>Free_Map\<close>, \<open>Lru_Index\<close>, \<open>Page_Io\<close>, \<open>Page_Crypto\<close>,
    \<open>Spill_Way\<close>: one source file each. They show round trips, bounds on corrupt input, that the bitmap
    is a set, and that the recency list refines a plain list.
  \<^item> \<open>Page_Cache\<close> models \<open>page_cache.rs\<close>. \<open>Cache_Invariant\<close>, \<open>Cache_Access\<close>, \<open>Cache_Ops\<close>, \<open>Cache_Flush\<close>
    and \<open>Cache_Truncate\<close> give its contracts over \<open>pc_view\<close>, the content a reader sees wherever it is kept;
    \<open>Cache_Properties\<close> states what follows: eviction is invisible, a flush is durable, a failed one
    touches no clean page.
  \<^item> \<open>Page_Store\<close> and \<open>Page_Alloc\<close> are the interface of the cache and of page allocation to the trees, the
    latter a locale interpreted on the allocators of the program.
  \<^item> \<open>Radix_Tree\<close>, \<open>Radix_Cow\<close>, \<open>Radix_Ops\<close> hold what the trees share; \<open>Free_Map_Tree\<close>, \<open>Handle_Table\<close>,
    \<open>Radix_U64\<close> and \<open>Membership_Index\<close> model the three trees and show that they are a set of ids, a map
    and a relation, that the old version of a tree stays intact, and that every page is accounted for.
  \<^item> \<open>Crypto_Header\<close> and \<open>Super_Block\<close> model \<open>superblock/\<close>: round trips, key slots, and that replacing
    one slot switches the current state atomically.
  \<^item> \<open>Overflow_Chain\<close> models \<open>overflow.rs\<close>; \<open>Txn_Recycle\<close> and \<open>Txn_Persist\<close> model \<open>transaction/freemap.rs\<close>
    and how freed pages go back to the free map; \<open>Slot_Packer\<close> models \<open>transaction/packing.rs\<close>;
    \<open>Value_Layout\<close> and \<open>Value_Place\<close> say where the values of a database are and that placing one keeps
    the others.
  \<^item> \<open>Txn_Manager\<close> models the rest of \<open>transaction/\<close>: \<open>mod.rs\<close>, \<open>lifecycle.rs\<close>, \<open>staging.rs\<close>,
    \<open>mutate.rs\<close>, \<open>read.rs\<close>, \<open>savepoints.rs\<close>, \<open>named_roots.rs\<close>, \<open>commit.rs\<close>, \<open>config.rs\<close>, \<open>stats.rs\<close>.
    \<open>Txn_Frame\<close>, \<open>Txn_Invariant\<close>, \<open>Txn_Steps\<close>, \<open>Txn_Values\<close>, \<open>Txn_Data\<close>, \<open>Txn_Update\<close> and \<open>Txn_Session\<close>
    prove that it refines a map from handles to tagged values; \<open>Txn_Rollback\<close> and \<open>Txn_Commit\<close> treat the
    two ends of a transaction; \<open>Txn_Properties\<close> states the results for callers.

  \<^bold>\<open>Bounds.\<close> Loops over the file carry the bound the source has: overflow chains are cut at the page
  count, the trees at the depths that cover 64-bit keys (six levels of the handle table and the
  index, five of the free map). Contracts of operations that allocate assume page ids to be left:
  \<open>id_room c k\<close> says that \<open>k\<close> more pages still have byte offsets below \<open>2 ^ 64\<close>. The budgets of the
  manager count units of seven page ids, the most one new page can cost when the free map has to be
  copied to claim it. Running out of cache space is an error outcome of every contract, excluded by
  \<open>roomy\<close>.

  \<^bold>\<open>Not modelled.\<close> Creating and opening files (\<open>transaction/recovery.rs\<close>), key management and re-keying
  (\<open>transaction/keys.rs\<close>, \<open>rekey.rs\<close>), defragmentation (\<open>defrag.rs\<close>, which goes through the modelled
  operations), the thin public API (\<open>lib.rs\<close>, \<open>handle.rs\<close>), counters and floating-point statistics,
  test-only fault injection, and the language bindings. The modelled savepoint, bulk-delete and orphan
  operations are covered by the properties on poisoning; the refinement of the map covers sessions of
  allocations, updates, client bytes, deletions, reads and listings. Durability of a commit is stated
  for databases without encryption.
\<close>

end
